(* ===== verification/Prelude.thy ===== *)
theory Prelude
  imports Main "HOL-Library.Word"
begin

text \<open>
  Shared vocabulary of the development: the C integer types as machine words, the outcome of
  code that may panic, the two counting loops of the source (\<open>for_u32\<close>, \<open>first_u32\<close>) with
  their invariant and search rules, and the word lemmas (page alignment, regions) that the
  component proofs use through the collection \<open>word_facts\<close>.
\<close>

unbundle bit_operations_syntax

type_synonym u8 = "8 word"
type_synonym u16 = "16 word"
type_synonym u32 = "32 word"
type_synonym u64 = "64 word"

type_synonym ptr = u32
type_synonym mem = "u32 \<Rightarrow> u8"

named_theorems word_facts

text \<open>
  Code that calls \<open>panic\<close> never comes back: the message is the result.
\<close>

datatype 'a outcome = Returns 'a | Panic string

lemma u32_bound: "unat x < 4294967296" for x :: u32
  using unsigned_less [of x] by simp

lemma sub_eq_iff: "x - d = y \<longleftrightarrow> x = d + y" for x d y :: u32
  by auto

lemma unat_image_less: "unat ` {..<w} = {..<unat w}" for w :: u32
proof (intro equalityI subsetI)
  fix n assume "n \<in> {..<unat w}"
  then have "unat (word_of_nat n :: u32) = n"
    using u32_bound [of w] by (simp add: unat_of_nat)
  with \<open>n \<in> {..<unat w}\<close> show "n \<in> unat ` {..<w}"
    by (intro image_eqI [of _ _ "word_of_nat n"]) (simp_all add: word_less_nat_alt)
qed (auto simp: word_less_nat_alt)

lemma card_less_u32: "card {..<w} = unat w" for w :: u32
  using card_image [of unat "{..<w}"] by (simp add: unat_image_less inj_on_def word_unat_eq_iff)

section \<open>Counting loops\<close>

text \<open>
  \<open>for (uint32_t i = a; i < n; i++) body\<close>.  The counter stays a 32-bit word; it cannot wrap
  because \<open>i < n\<close> guards every increment, which is the termination argument.
\<close>

lemma unat_inc [word_facts]: "i < n \<Longrightarrow> unat (i + 1) = Suc (unat i)" for i n :: u32
proof -
  assume "i < n"
  then have "1 + i \<noteq> 0"
    using word_not_simps(3) by (metis add.commute add_eq_0_iff word_n1_ge leD)
  then show ?thesis by (simp add: unatSuc add.commute)
qed

function for_u32 :: "u32 \<Rightarrow> u32 \<Rightarrow> (u32 \<Rightarrow> 's \<Rightarrow> 's) \<Rightarrow> 's \<Rightarrow> 's" where
  "for_u32 i n body s = (if i < n then for_u32 (i + 1) n body (body i s) else s)"
  by pat_completeness auto
termination
  by (relation "measure (\<lambda>(i, n, body, s). unat n - unat i)")
    (auto simp: unat_inc word_less_nat_alt)

text \<open>
  A search loop: \<open>for (i = a; i < n; i++) { if (!P(i)) continue; ...; return; }\<close> runs its
  body at the first index that satisfies \<open>P\<close>, if there is one.
\<close>

function first_u32 :: "u32 \<Rightarrow> u32 \<Rightarrow> (u32 \<Rightarrow> bool) \<Rightarrow> u32 option" where
  "first_u32 i n P = (if i < n then (if P i then Some i else first_u32 (i + 1) n P) else None)"
  by pat_completeness auto
termination
  by (relation "measure (\<lambda>(i, n, P). unat n - unat i)")
    (auto simp: unat_inc word_less_nat_alt)

declare for_u32.simps [simp del] first_u32.simps [simp del]

lemma for_u32_done [simp]: "\<not> i < n \<Longrightarrow> for_u32 i n body s = s"
  by (simp add: for_u32.simps)

lemma for_u32_step: "i < n \<Longrightarrow> for_u32 i n body s = for_u32 (i + 1) n body (body i s)"
  by (simp add: for_u32.simps [of i])

lemma next_index: "i \<le> k \<Longrightarrow> k \<noteq> i \<Longrightarrow> i < n \<Longrightarrow> i + 1 \<le> k" for i k n :: u32
  by (rule inc_le) simp

lemma less_inc: "i < n \<Longrightarrow> k < i + 1 \<longleftrightarrow> k < i \<or> k = i" for i k n :: u32
  by (auto simp: word_less_nat_alt unat_inc less_Suc_eq word_unat_eq_iff)

lemma for_u32_invariant:
  assumes "P i s" and "i \<le> n"
    and "\<And>j t. i \<le> j \<Longrightarrow> j < n \<Longrightarrow> P j t \<Longrightarrow> P (j + 1) (body j t)"
  shows "P n (for_u32 i n body s)"
  using assms
proof (induction i n body s rule: for_u32.induct)
  case (1 i n body s)
  show ?case
  proof (cases "i < n")
    case True
    have "P n (for_u32 (i + 1) n body (body i s))"
    proof (rule "1.IH" [OF True])
      show "P (i + 1) (body i s)" using "1.prems" True by simp
      show "i + 1 \<le> n" using True by (rule inc_le)
      fix j t assume "i + 1 \<le> j" "j < n" "P j t"
      then show "P (j + 1) (body j t)"
        using "1.prems"(3) True by (simp add: word_le_nat_alt unat_inc)
    qed
    then show ?thesis using True by (simp add: for_u32_step)
  next
    case False
    with "1.prems" show ?thesis by (simp add: not_less)
  qed
qed

lemma for_u32_fold:
  "for_u32 i n body s = fold (\<lambda>k. body (word_of_nat k)) [unat i..<unat n] s"
proof (induction i n body s rule: for_u32.induct)
  case (1 i n body s)
  show ?case
  proof (cases "i < n")
    case True
    then have "[unat i..<unat n] = unat i # [unat (i + 1)..<unat n]"
      by (simp add: unat_inc upt_conv_Cons word_less_nat_alt)
    then show ?thesis using "1.IH" [OF True] True by (simp add: for_u32_step)
  qed (simp add: word_less_nat_alt)
qed

lemma for_u32_keeps: "(\<And>k t. f (body k t) = f t) \<Longrightarrow> f (for_u32 i n body s) = f s"
proof (induction i n body s rule: for_u32.induct)
  case (1 i n body s)
  then show ?case by (cases "i < n") (simp_all add: for_u32_step)
qed

lemma first_u32_SomeD:
  "first_u32 i n P = Some j \<Longrightarrow> i \<le> j \<and> j < n \<and> P j \<and> (\<forall>k. i \<le> k \<and> k < j \<longrightarrow> \<not> P k)"
proof (induction i n P rule: first_u32.induct)
  case (1 i n P)
  show ?case
  proof (cases "i < n \<and> \<not> P i")
    case True
    then have IH: "i + 1 \<le> j \<and> j < n \<and> P j \<and> (\<forall>k. i + 1 \<le> k \<and> k < j \<longrightarrow> \<not> P k)"
      using 1 by (simp add: first_u32.simps [of i])
    have "k = i \<or> i + 1 \<le> k" if "i \<le> k" for k
      using True that next_index by blast
    moreover have "i \<le> j"
      using IH True unat_inc [of i n] by (simp add: word_le_nat_alt)
    ultimately show ?thesis using IH True by blast
  next
    case False
    with "1.prems" show ?thesis
      by (auto simp: first_u32.simps [of i] split: if_splits)
  qed
qed

lemma first_u32_NoneD: "first_u32 i n P = None \<Longrightarrow> i \<le> k \<Longrightarrow> k < n \<Longrightarrow> \<not> P k"
proof (induction i n P rule: first_u32.induct)
  case (1 i n P)
  then have lt: "i < n" by simp
  with "1.prems" have nP: "\<not> P i" "first_u32 (i + 1) n P = None"
    by (auto simp: first_u32.simps [of i] split: if_splits)
  show ?case
  proof (cases "k = i")
    case False
    with "1.prems" lt have "i + 1 \<le> k"
      by (intro next_index)
    with "1.IH" lt nP "1.prems" show ?thesis by blast
  qed (use nP in simp)
qed

lemma first_u32_eqI:
  assumes "i \<le> j" "j < n" "P j" "\<And>k. i \<le> k \<Longrightarrow> k < j \<Longrightarrow> \<not> P k"
  shows "first_u32 i n P = Some j"
proof (cases "first_u32 i n P")
  case None
  then show ?thesis using first_u32_NoneD [OF None] assms by blast
next
  case (Some k)
  then show ?thesis using first_u32_SomeD [OF Some] assms by (metis not_less_iff_gr_or_eq)
qed

lemma first_u32_cong:
  "(\<And>k. i \<le> k \<Longrightarrow> k < n \<Longrightarrow> P k = Q k) \<Longrightarrow> first_u32 i n P = first_u32 i n Q"
proof (induction i n P rule: first_u32.induct)
  case (1 i n P)
  show ?case
  proof (cases "i < n \<and> \<not> P i")
    case True
    have "first_u32 (i + 1) n P = first_u32 (i + 1) n Q"
    proof (rule "1.IH")
      fix k assume "i + 1 \<le> k" "k < n"
      then show "P k = Q k" using "1.prems" [of k] True unat_inc [of i n] by (simp add: word_le_nat_alt)
    qed (use True in simp_all)
    then show ?thesis using "1.prems" [of i] True by (simp add: first_u32.simps [of i])
  qed (use "1.prems" [of i] in \<open>auto simp: first_u32.simps [of i]\<close>)
qed

end
