(* ===== verification/Memory.thy ===== *)
theory Memory
  imports Prelude
begin

text \<open>
  The memory the kernel dereferences: bytes indexed by 32-bit kernel pointers, with the 32-bit
  little-endian loads and stores of the i386.  A region is the set of addresses less than
  \<open>n\<close> bytes after its base; distances are taken in modular arithmetic, so no lemma needs a
  side condition on wrap-around.  The interface \<open>word_store\<close> states the read-over-write laws
  the page tables and the heap rely on; the byte memory is its interpretation.
\<close>

section \<open>Bits of addresses\<close>

lemma mask_12: "mask 12 = (4095 :: u32)"
  by (simp add: mask_eq_exp_minus_1)

lemma and_4095: "x AND 4095 = take_bit 12 x" for x :: u32
  by (simp add: take_bit_eq_mask mask_12)

lemma minus_4096: "(- 4096 :: u32) = 4294963200"
  by simp

lemma and_page_frame: "x AND 4294963200 = push_bit 12 (drop_bit 12 x)" for x :: u32
proof -
  have "x AND 4294963200 = x AND NOT (mask 12)"
    by (simp add: minus_4096 [symmetric] mask_12)
  also have "\<dots> = push_bit 12 (drop_bit 12 x)"
    by (rule bit_word_eqI) (auto simp: bit_simps)
  finally show ?thesis .
qed

definition page_aligned :: "u32 \<Rightarrow> bool" where
  "page_aligned p \<longleftrightarrow> take_bit 12 p = 0"

definition frame :: "u32 \<Rightarrow> u32" where
  "frame p = drop_bit 12 p"

lemma page_aligned_frame: "page_aligned p \<Longrightarrow> push_bit 12 (frame p) = p"
  unfolding page_aligned_def frame_def
  by (metis add.right_neutral bits_ident)

lemma unat_take_12: "unat (take_bit 12 x) = unat x mod 4096" for x :: u32
  by (simp add: take_bit_eq_mod unat_mod)

lemma unat_frame: "unat (frame x) = unat x div 4096"
  by (simp add: frame_def drop_bit_eq_div unat_div)

lemma page_aligned_unat: "page_aligned p \<longleftrightarrow> unat p mod 4096 = 0"
  by (simp add: page_aligned_def unat_take_12 [symmetric] unat_eq_0)

lemma frame_eq_iff: "frame x = frame y \<longleftrightarrow> unat x div 4096 = unat y div 4096"
  by (metis unat_frame word_unat_eq_iff)

lemma page_aligned_eq:
  "page_aligned p \<Longrightarrow> page_aligned q \<Longrightarrow> p = q \<longleftrightarrow> frame p = frame q"
  by (metis page_aligned_frame)

text \<open>Addresses inside one page share the frame of its base.\<close>

lemma frame_of_page:
  assumes "page_aligned p"
  shows "x - p < 4096 \<longleftrightarrow> frame x = frame p"
proof -
  obtain k where k: "unat p = 4096 * k"
    using assms by (auto simp: page_aligned_unat)
  have lt: "unat x < 4294967296" "unat p < 4294967296"
    using u32_bound by simp_all
  have "x - p < 4096 \<longleftrightarrow> unat (x - p) < 4096"
    by (simp add: word_less_nat_alt)
  also have "\<dots> \<longleftrightarrow> unat x div 4096 = k"
    using k lt by (auto simp: unat_sub_if_size word_size)
  finally show ?thesis
    using k by (simp add: frame_eq_iff)
qed

section \<open>Loads and stores\<close>

definition ld32 :: "mem \<Rightarrow> ptr \<Rightarrow> u32" where
  "ld32 m a = ucast (m a) OR push_bit 8 (ucast (m (a + 1))) OR
     push_bit 16 (ucast (m (a + 2))) OR push_bit 24 (ucast (m (a + 3)))"

definition st32 :: "ptr \<Rightarrow> u32 \<Rightarrow> mem \<Rightarrow> mem" where
  "st32 a v m = m(a := ucast v, a + 1 := ucast (drop_bit 8 v),
     a + 2 := ucast (drop_bit 16 v), a + 3 := ucast (drop_bit 24 v))"

text \<open>Two 4-byte cells that do not overlap.\<close>

definition apart :: "ptr \<Rightarrow> ptr \<Rightarrow> bool" where
  "apart a b \<longleftrightarrow> 4 \<le> a - b \<and> 4 \<le> b - a"

lemma st32_other: "4 \<le> x - a \<Longrightarrow> st32 a v m x = m x"
  by (auto simp: st32_def word_le_nat_alt)

lemma bytes_join:
  "ucast (ucast v :: u8) OR push_bit 8 (ucast (ucast (drop_bit 8 v) :: u8)) OR
     push_bit 16 (ucast (ucast (drop_bit 16 v) :: u8)) OR
     push_bit 24 (ucast (ucast (drop_bit 24 v) :: u8)) = v" for v :: u32
proof (rule bit_word_eqI)
  fix n :: nat
  assume "n < LENGTH(32)"
  then show "bit (ucast (ucast v :: u8) OR push_bit 8 (ucast (ucast (drop_bit 8 v) :: u8)) OR
     push_bit 16 (ucast (ucast (drop_bit 16 v) :: u8)) OR
     push_bit 24 (ucast (ucast (drop_bit 24 v) :: u8)) :: u32) n = bit v n"
    by (cases "n < 8"; cases "n < 16"; cases "n < 24") (auto simp: bit_simps)
qed

lemma ld32_st32_same [simp]: "ld32 (st32 a v m) a = v"
  by (simp add: ld32_def st32_def bytes_join)

lemma ld32_cong: "(\<And>x. x - a < 4 \<Longrightarrow> m x = m' x) \<Longrightarrow> ld32 m a = ld32 m' a"
  by (simp add: ld32_def)

lemma apart_sym: "apart a b \<longleftrightarrow> apart b a"
  by (auto simp: apart_def)

lemma apart_cell: "apart a b \<Longrightarrow> x - b < 4 \<Longrightarrow> 4 \<le> x - a"
proof -
  assume *: "apart a b" "x - b < 4"
  have "x - a = (x - b) - (a - b)" by simp
  with * u32_bound [of x] u32_bound [of a] u32_bound [of b] show ?thesis
    by (auto simp: apart_def word_le_nat_alt word_less_nat_alt unat_sub_if_size word_size
        split: if_splits)
qed

lemma ld32_st32_apart: "apart a b \<Longrightarrow> ld32 (st32 a v m) b = ld32 m b"
  by (rule ld32_cong) (simp add: st32_other apart_cell)

text \<open>Cells of one array of 32-bit words.\<close>

lemma unat_mult_4: "i < 1073741824 \<Longrightarrow> unat (4 * i) = 4 * unat i" for i :: u32
  by (simp add: unat_word_ariths word_less_nat_alt)

lemma apart_array:
  assumes "i < 1073741824" "j < 1073741824" "i \<noteq> j"
  shows "apart (b + 4 * i) (b + 4 * j)"
proof -
  have "unat i < 1073741824" "unat j < 1073741824" "unat i \<noteq> unat j"
    using assms by (simp_all add: word_less_nat_alt word_unat_eq_iff)
  then show ?thesis
    using assms(1,2) unat_mult_4 [of i] unat_mult_4 [of j]
    by (auto simp: apart_def word_le_nat_alt unat_sub_if_size word_size)
qed

section \<open>The store interface\<close>

text \<open>
  What the clients of the memory use of it: a store is read back, and a store to a cell that
  does not overlap is not seen.  Arrays of words (page directories and page tables) and the
  loops that fill or copy them are treated once, in this interface.
\<close>

locale word_store =
  fixes load :: "'m \<Rightarrow> u32 \<Rightarrow> u32"
    and store :: "u32 \<Rightarrow> u32 \<Rightarrow> 'm \<Rightarrow> 'm"
  assumes load_same: "load (store a v m) a = v"
    and load_apart: "apart a b \<Longrightarrow> load (store a v m) b = load m b"
begin

lemma array_store:
  assumes "i < 1073741824" "j < 1073741824"
  shows "load (store (b + 4 * i) v m) (b + 4 * j) = (if i = j then v else load m (b + 4 * j))"
  using assms by (simp add: load_same load_apart apart_array)

lemma fill_loop:
  assumes "n \<le> 1073741824" "i \<le> n" "j < 1073741824"
  shows "load (for_u32 i n (\<lambda>k. store (b + 4 * k) (f k)) m) (b + 4 * j) =
    (if i \<le> j \<and> j < n then f j else load m (b + 4 * j))"
proof -
  let ?P = "\<lambda>k t. load t (b + 4 * j) = (if i \<le> j \<and> j < k then f j else load m (b + 4 * j))"
  have "?P n (for_u32 i n (\<lambda>k. store (b + 4 * k) (f k)) m)"
  proof (rule for_u32_invariant [where P = ?P])
    show "?P i m" by auto
    fix k t assume k: "i \<le> k" "k < n" "?P k t"
    have "k < 1073741824" using k(2) assms(1) by (rule less_le_trans)
    moreover have "j < k + 1 \<longleftrightarrow> j < k \<or> j = k" using k(2) by (rule less_inc)
    ultimately show "?P (k + 1) (store (b + 4 * k) (f k) t)"
      using k assms by (auto simp: array_store)
  qed (use assms in simp)
  then show ?thesis .
qed

lemma copy_loop:
  assumes "n \<le> 1073741824" "i \<le> n" "j < 1073741824"
    and sep: "\<And>k l. i \<le> k \<Longrightarrow> k < n \<Longrightarrow> l < n \<Longrightarrow> apart (b + 4 * k) (c + 4 * l)"
  shows "load (for_u32 i n (\<lambda>k t. store (b + 4 * k) (load t (c + 4 * k)) t) m) (b + 4 * j) =
    (if i \<le> j \<and> j < n then load m (c + 4 * j) else load m (b + 4 * j))"
proof -
  let ?P = "\<lambda>k t. (\<forall>l<n. load t (c + 4 * l) = load m (c + 4 * l)) \<and>
    load t (b + 4 * j) = (if i \<le> j \<and> j < k then load m (c + 4 * j) else load m (b + 4 * j))"
  have "?P n (for_u32 i n (\<lambda>k t. store (b + 4 * k) (load t (c + 4 * k)) t) m)"
  proof (rule for_u32_invariant [where P = ?P])
    show "?P i m" by auto
    fix k t assume k: "i \<le> k" "k < n" "?P k t"
    have "k < 1073741824" using k(2) assms(1) by (rule less_le_trans)
    moreover have "j < k + 1 \<longleftrightarrow> j < k \<or> j = k" using k(2) by (rule less_inc)
    ultimately show "?P (k + 1) (store (b + 4 * k) (load t (c + 4 * k)) t)"
      using k assms by (auto simp: array_store load_apart)
  qed (use assms in simp)
  then show ?thesis by simp
qed

end

interpretation km: word_store ld32 st32
  by unfold_locales (simp_all add: ld32_st32_apart)

end
