(* ===== verification/Libc.thy ===== *)
theory Libc
  imports Memory
begin

text \<open>
  The kernel's C library (\<open>libc/string\<close>) and \<open>kernel/lib/endian.c\<close>: each function is its
  byte loop over the kernel memory.  Every loop is shown equal to its one-line meaning;
  \<open>memmove\<close> is right for overlapping buffers, and \<open>strlen\<close> returns exactly when a NUL
  byte follows.
\<close>

section \<open>libc/string\<close>

definition memset :: "ptr \<Rightarrow> u8 \<Rightarrow> u32 \<Rightarrow> mem \<Rightarrow> mem" where
  "memset bufptr value sz m = for_u32 0 sz (\<lambda>i m. m(bufptr + i := value)) m"

definition memcpy :: "ptr \<Rightarrow> ptr \<Rightarrow> u32 \<Rightarrow> mem \<Rightarrow> mem" where
  "memcpy dst src sz m = for_u32 0 sz (\<lambda>i m. m(dst + i := m (src + i))) m"

text \<open>The descending loop \<open>for (i = size; i != 0; i--) dst[i-1] = src[i-1]\<close>.\<close>

function copy_down :: "u32 \<Rightarrow> ptr \<Rightarrow> ptr \<Rightarrow> mem \<Rightarrow> mem" where
  "copy_down i dst src m =
     (if i \<noteq> 0 then copy_down (i - 1) dst src (m(dst + (i - 1) := m (src + (i - 1)))) else m)"
  by pat_completeness auto
termination
  by (relation "measure (\<lambda>(i, dst, src, m). unat i)") (auto intro: measure_unat)

declare copy_down.simps [simp del]

definition memmove :: "ptr \<Rightarrow> ptr \<Rightarrow> u32 \<Rightarrow> mem \<Rightarrow> mem" where
  "memmove dst src sz m =
     (if dst < src then for_u32 0 sz (\<lambda>i m. m(dst + i := m (src + i))) m
      else copy_down sz dst src m)"

definition memcmp :: "mem \<Rightarrow> ptr \<Rightarrow> ptr \<Rightarrow> u32 \<Rightarrow> int" where
  "memcmp m a b sz =
     (case first_u32 0 sz (\<lambda>i. m (a + i) < m (b + i) \<or> m (b + i) < m (a + i)) of
        None \<Rightarrow> 0
      | Some i \<Rightarrow> if m (a + i) < m (b + i) then - 1 else 1)"

partial_function (option) strlen_from :: "mem \<Rightarrow> ptr \<Rightarrow> u32 \<Rightarrow> u32 option" where
  "strlen_from m str len = (if m (str + len) \<noteq> 0 then strlen_from m str (len + 1) else Some len)"

definition strlen :: "mem \<Rightarrow> ptr \<Rightarrow> u32 option" where
  "strlen m str = strlen_from m str 0"

section \<open>kernel/lib/endian.c\<close>

definition read_le32 :: "mem \<Rightarrow> ptr \<Rightarrow> u32" where
  "read_le32 m bytes = ucast (m (bytes + 0)) OR push_bit 8 (ucast (m (bytes + 1))) OR
     push_bit 16 (ucast (m (bytes + 2))) OR push_bit 24 (ucast (m (bytes + 3)))"

lemma read_le32_ld32: "read_le32 m p = ld32 m p"
  by (simp add: read_le32_def ld32_def)

section \<open>Meaning of the loops\<close>

lemma memset_eq: "memset p v n m = (\<lambda>x. if x - p < n then v else m x)"
proof -
  let ?P = "\<lambda>k t. t = (\<lambda>x. if x - p < k then v else m x)"
  have "?P n (for_u32 0 n (\<lambda>i m. m(p + i := v)) m)"
  proof (rule for_u32_invariant [where P = ?P])
    fix k t assume "k < n" "?P k t"
    then show "?P (k + 1) (t(p + k := v))"
      by (auto simp: less_inc fun_eq_iff)
  qed simp_all
  then show ?thesis by (simp add: memset_def)
qed

text \<open>
  An ascending copy is right when no source byte is overwritten before it is read.
\<close>

lemma copy_up_eq:
  assumes "\<And>k. k < n \<Longrightarrow> \<not> s + k - d < k"
  shows "for_u32 0 n (\<lambda>i m. m(d + i := m (s + i))) m =
    (\<lambda>x. if x - d < n then m (s + (x - d)) else m x)"
proof -
  let ?P = "\<lambda>k t. t = (\<lambda>x. if x - d < k then m (s + (x - d)) else m x)"
  have "?P n (for_u32 0 n (\<lambda>i m. m(d + i := m (s + i))) m)"
  proof (rule for_u32_invariant [where P = ?P])
    fix k t assume k: "k < n" "?P k t"
    then have "t (s + k) = m (s + k)" using assms by simp
    with k show "?P (k + 1) (t(d + k := t (s + k)))"
      by (auto simp: less_inc fun_eq_iff)
  qed simp_all
  then show ?thesis by simp
qed

lemma memcpy_eq:
  assumes "\<And>k l. k < n \<Longrightarrow> l < n \<Longrightarrow> d + l \<noteq> s + k"
  shows "memcpy d s n m = (\<lambda>x. if x - d < n then m (s + (x - d)) else m x)"
  unfolding memcpy_def
proof (rule copy_up_eq)
  fix k :: u32 assume "k < n"
  then show "\<not> s + k - d < k"
    using assms [of k "s + k - d"] by (auto dest: less_trans)
qed

lemma memcpy_outside: "\<not> x - d < n \<Longrightarrow> memcpy d s n m x = m x"
proof -
  assume x: "\<not> x - d < n"
  let ?P = "\<lambda>_ t. t x = m x"
  have "?P n (for_u32 0 n (\<lambda>i m. m(d + i := m (s + i))) m)"
    by (rule for_u32_invariant [where P = ?P]) (use x in auto)
  then show ?thesis by (simp add: memcpy_def)
qed

lemma dec_le: "k \<noteq> 0 \<Longrightarrow> k - 1 \<le> y \<longleftrightarrow> k \<le> y \<or> y = k - 1" for k y :: u32
  by (auto simp: word_le_nat_alt unat_minus_one word_unat_eq_iff)

lemma dec_less: "k \<noteq> 0 \<Longrightarrow> k - 1 < n \<longleftrightarrow> k \<le> n" for k n :: u32
  using unat_gt_0 [of k]
  by (auto simp: word_less_nat_alt word_le_nat_alt unat_minus_one simp del: unat_gt_0)

lemma copy_down_eq:
  assumes "\<And>j. j < n \<Longrightarrow> s + j - d \<le> j \<or> n \<le> s + j - d"
  shows "k \<le> n \<Longrightarrow> copy_down k d s (\<lambda>x. if k \<le> x - d \<and> x - d < n then m (s + (x - d)) else m x)
    = (\<lambda>x. if x - d < n then m (s + (x - d)) else m x)"
proof (induction "unat k" arbitrary: k)
  case 0
  then have "k = 0" by (simp add: unat_eq_0)
  then show ?case by (simp add: copy_down.simps)
next
  case (Suc u)
  let ?t = "\<lambda>k x. if k \<le> x - d \<and> x - d < n then m (s + (x - d)) else m x"
  from Suc.hyps(2) have k: "k \<noteq> 0" by auto
  then have less: "k - 1 < n" using Suc.prems by (simp add: dec_less)
  have u: "u = unat (k - 1)" using Suc.hyps(2) k by (simp add: unat_minus_one)
  have "?t k (s + (k - 1)) = m (s + (k - 1))"
    using assms [OF less] k dec_less [of k k] by (auto dest: order.strict_trans1)
  then have "(?t k)(d + (k - 1) := ?t k (s + (k - 1))) = ?t (k - 1)"
    using less k by (auto simp: fun_eq_iff dec_le sub_eq_iff)
  then have "copy_down k d s (?t k) = copy_down (k - 1) d s (?t (k - 1))"
    using k by (subst copy_down.simps) simp
  also have "\<dots> = ?t 0"
    using Suc.hyps(1) [OF u] less by simp
  finally show ?case by simp
qed

lemma no_wrap_forward:
  fixes d s n k :: u32
  assumes "d < s" "unat s + unat n \<le> 4294967296" "k < n"
  shows "\<not> s + k - d < k"
  using assms u32_bound [of d]
  by (simp add: word_less_nat_alt unat_sub_if_size unat_word_ariths word_size)

lemma no_wrap_backward:
  fixes d s n j :: u32
  assumes "\<not> d < s" "unat d + unat n \<le> 4294967296" "j < n"
  shows "s + j - d \<le> j \<or> n \<le> s + j - d"
  using assms u32_bound [of d] u32_bound [of s]
  by (auto simp: word_less_nat_alt word_le_nat_alt unat_sub_if_size unat_word_ariths word_size)

lemma strlen_from_found:
  assumes "m (p + k) = 0" and "\<forall>i<k. m (p + i) \<noteq> 0"
  shows "j \<le> k \<Longrightarrow> strlen_from m p j = Some k"
proof (induction "unat k - unat j" arbitrary: j)
  case 0
  then have "j = k" by (simp add: word_le_nat_alt word_unat_eq_iff)
  then show ?case using assms by (simp add: strlen_from.simps)
next
  case (Suc u)
  then have "j < k" by (simp add: word_less_nat_alt)
  moreover from this have "u = unat k - unat (j + 1)" "j + 1 \<le> k"
    using Suc.hyps(2) by (simp_all add: unat_inc inc_le)
  ultimately show ?case using Suc.hyps(1) assms by (subst strlen_from.simps) simp
qed

lemma strlen_from_nul: "strlen_from m p j = Some k \<Longrightarrow> m (p + k) = 0"
  by (rule strlen_from.raw_induct [where P = "\<lambda>m p j k. m (p + k) = 0"])
    (auto split: if_splits)

lemma strlen_iff: "strlen m p = Some k \<longleftrightarrow> m (p + k) = 0 \<and> (\<forall>i<k. m (p + i) \<noteq> 0)"
proof
  assume "strlen m p = Some k"
  then have "m (p + k) = 0" and eq: "strlen_from m p 0 = Some k"
    by (auto simp: strlen_def dest: strlen_from_nul)
  then obtain l where "m (p + l) = 0" "\<forall>i<l. m (p + i) \<noteq> 0"
    using exists_least_iff [of "\<lambda>l. m (p + l) = 0"] by blast
  moreover from this have "strlen_from m p 0 = Some l"
    by (simp add: strlen_from_found)
  ultimately show "m (p + k) = 0 \<and> (\<forall>i<k. m (p + i) \<noteq> 0)"
    using eq by simp
qed (simp add: strlen_def strlen_from_found)

section \<open>Properties\<close>

text \<open>
  \<open>memmove\<close> copies the bytes the source held before the call, also when the two buffers
  overlap, and changes nothing outside the destination.
\<close>

theorem memmove_correct:
  assumes "unat dst + unat sz \<le> 4294967296" "unat src + unat sz \<le> 4294967296"
  shows "memmove dst src sz m = (\<lambda>x. if x - dst < sz then m (src + (x - dst)) else m x)"
proof (cases "dst < src")
  case True
  then show ?thesis
    using no_wrap_forward [OF True assms(2)] by (simp add: memmove_def copy_up_eq)
next
  case False
  have "(\<lambda>x. if sz \<le> x - dst \<and> x - dst < sz then m (src + (x - dst)) else m x) = m"
    by (auto simp: fun_eq_iff)
  then have "copy_down sz dst src m =
      (\<lambda>x. if x - dst < sz then m (src + (x - dst)) else m x)"
    using copy_down_eq [of sz src dst sz m] no_wrap_backward [OF False assms(1)] by simp
  then show ?thesis using False by (simp add: memmove_def)
qed

theorem memmove_correct_witness:
  "memmove 101 100 2 (\<lambda>a. ucast a) 102 = 101"
  using memmove_correct [of 101 2 100 "\<lambda>a. ucast a"] by simp

text \<open>
  \<open>memcmp\<close> returns 0 exactly when the two buffers hold the same bytes; otherwise its sign
  is the order of the first bytes that differ.
\<close>

theorem memcmp_correct:
  "(memcmp m a b sz = 0 \<longleftrightarrow> (\<forall>i < sz. m (a + i) = m (b + i))) \<and>
   (memcmp m a b sz \<noteq> 0 \<longrightarrow> (\<exists>i < sz. (\<forall>j<i. m (a + j) = m (b + j)) \<and> m (a + i) \<noteq> m (b + i) \<and>
      (memcmp m a b sz < 0 \<longleftrightarrow> m (a + i) < m (b + i))))"
proof (cases "first_u32 0 sz (\<lambda>i. m (a + i) < m (b + i) \<or> m (b + i) < m (a + i))")
  case None
  then have "\<forall>i < sz. m (a + i) = m (b + i)"
    using first_u32_NoneD [OF None] by (auto simp: not_less order.antisym)
  with None show ?thesis by (simp add: memcmp_def)
next
  case (Some i)
  then have i: "i < sz" "m (a + i) \<noteq> m (b + i)" "\<forall>j<i. m (a + j) = m (b + j)"
    by (auto dest!: first_u32_SomeD simp: not_less order.antisym)
  with Some show ?thesis by (auto simp: memcmp_def)
qed

theorem memcmp_correct_witness:
  "memcmp (\<lambda>a. ucast a) 0 4 3 < 0 \<and> memcmp (\<lambda>a. 7) 0 4 3 = 0"
  using memcmp_correct [of "\<lambda>a. 7" 0 4 3] memcmp_correct [of "\<lambda>a. ucast a" 0 4 3]
  by (simp add: memcmp_def first_u32.simps)

end
