(* ===== verification/Tty.thy ===== *)
theory Tty
  imports Libc
begin

text \<open>
  The VGA text terminal (\<open>kernel/arch/i386/tty.c\<close>, \<open>vga.h\<close>) and the port writes it makes
  (\<open>io.h\<close>).  The state is the cursor, the colour, the 80 by 25 cells of VGA memory and the
  log of \<open>outb\<close> writes; every later state of the kernel extends this record.  The invariant
  \<open>tty_ok\<close> (the cursor is on the screen, the buffer has 2000 cells) is what keeps the index
  of every cell write in bounds.
\<close>

section \<open>State\<close>

record tty_state =
  terminal_row :: u32
  terminal_column :: u32
  terminal_color :: u8
  terminal_buffer :: "u16 list"
  io_log :: "(u16 \<times> u8) list"

definition VGA_WIDTH :: u32 where "VGA_WIDTH = 80"
definition VGA_HEIGHT :: u32 where "VGA_HEIGHT = 25"
definition VGA_CRTC_INDEX :: u16 where "VGA_CRTC_INDEX = 0x3D4"
definition VGA_CRTC_DATA :: u16 where "VGA_CRTC_DATA = 0x3D5"

lemmas vga_consts = VGA_WIDTH_def VGA_HEIGHT_def

definition outb :: "u16 \<Rightarrow> u8 \<Rightarrow> 'a tty_state_scheme \<Rightarrow> 'a tty_state_scheme" where
  "outb port val s = s\<lparr>io_log := io_log s @ [(port, val)]\<rparr>"

section \<open>vga.h\<close>

datatype vga_color =
    VGA_COLOR_BLACK | VGA_COLOR_BLUE | VGA_COLOR_GREEN | VGA_COLOR_CYAN
  | VGA_COLOR_RED | VGA_COLOR_MAGENTA | VGA_COLOR_BROWN | VGA_COLOR_LIGHT_GREY
  | VGA_COLOR_DARK_GREY | VGA_COLOR_LIGHT_BLUE | VGA_COLOR_LIGHT_GREEN | VGA_COLOR_LIGHT_CYAN
  | VGA_COLOR_LIGHT_RED | VGA_COLOR_LIGHT_MAGENTA | VGA_COLOR_LIGHT_BROWN | VGA_COLOR_WHITE

fun vga_color_value :: "vga_color \<Rightarrow> u8" where
  "vga_color_value VGA_COLOR_BLACK = 0"
| "vga_color_value VGA_COLOR_BLUE = 1"
| "vga_color_value VGA_COLOR_GREEN = 2"
| "vga_color_value VGA_COLOR_CYAN = 3"
| "vga_color_value VGA_COLOR_RED = 4"
| "vga_color_value VGA_COLOR_MAGENTA = 5"
| "vga_color_value VGA_COLOR_BROWN = 6"
| "vga_color_value VGA_COLOR_LIGHT_GREY = 7"
| "vga_color_value VGA_COLOR_DARK_GREY = 8"
| "vga_color_value VGA_COLOR_LIGHT_BLUE = 9"
| "vga_color_value VGA_COLOR_LIGHT_GREEN = 10"
| "vga_color_value VGA_COLOR_LIGHT_CYAN = 11"
| "vga_color_value VGA_COLOR_LIGHT_RED = 12"
| "vga_color_value VGA_COLOR_LIGHT_MAGENTA = 13"
| "vga_color_value VGA_COLOR_LIGHT_BROWN = 14"
| "vga_color_value VGA_COLOR_WHITE = 15"

definition vga_entry_color :: "vga_color \<Rightarrow> vga_color \<Rightarrow> u8" where
  "vga_entry_color fg bg = vga_color_value fg OR push_bit 4 (vga_color_value bg)"

definition vga_entry :: "u8 \<Rightarrow> u8 \<Rightarrow> u16" where
  "vga_entry uc color = ucast uc OR push_bit 8 (ucast color)"

section \<open>tty.c\<close>

definition terminal_update_cursor :: "'a tty_state_scheme \<Rightarrow> 'a tty_state_scheme" where
  "terminal_update_cursor s =
     (let pos = ucast (terminal_row s * VGA_WIDTH + terminal_column s) :: u16
      in outb VGA_CRTC_DATA (ucast (drop_bit 8 pos AND 0xFF))
           (outb VGA_CRTC_INDEX 0x0E
             (outb VGA_CRTC_DATA (ucast (pos AND 0xFF))
               (outb VGA_CRTC_INDEX 0x0F s))))"

definition terminal_putentryat ::
    "u8 \<Rightarrow> u8 \<Rightarrow> u32 \<Rightarrow> u32 \<Rightarrow> 'a tty_state_scheme \<Rightarrow> 'a tty_state_scheme" where
  "terminal_putentryat c color x y s =
     (let index = y * VGA_WIDTH + x
      in s\<lparr>terminal_buffer := (terminal_buffer s)[unat index := vga_entry c color]\<rparr>)"

definition terminal_init :: "'a tty_state_scheme \<Rightarrow> 'a tty_state_scheme" where
  "terminal_init s =
     (let s = s\<lparr>terminal_row := 0, terminal_column := 0,
                terminal_color := vga_entry_color VGA_COLOR_LIGHT_GREY VGA_COLOR_BLACK\<rparr>;
          s = for_u32 0 VGA_HEIGHT (\<lambda>y. for_u32 0 VGA_WIDTH (\<lambda>x s.
                terminal_putentryat 32 (terminal_color s) x y s)) s
      in terminal_update_cursor s)"

definition terminal_setcolor :: "u8 \<Rightarrow> 'a tty_state_scheme \<Rightarrow> 'a tty_state_scheme" where
  "terminal_setcolor color s = s\<lparr>terminal_color := color\<rparr>"

definition terminal_scroll_up :: "'a tty_state_scheme \<Rightarrow> 'a tty_state_scheme" where
  "terminal_scroll_up s =
     (let sz = VGA_WIDTH * VGA_HEIGHT;
          b = for_u32 0 (sz - VGA_WIDTH) (\<lambda>i b. b[unat i := b ! unat (i + VGA_WIDTH)])
                (terminal_buffer s);
          b = for_u32 (sz - VGA_WIDTH) sz (\<lambda>i b. b[unat i := vga_entry 32 (terminal_color s)]) b
      in terminal_update_cursor
           (s\<lparr>terminal_buffer := b, terminal_row := VGA_HEIGHT - 1, terminal_column := 0\<rparr>))"

definition terminal_backspace :: "'a tty_state_scheme \<Rightarrow> 'a tty_state_scheme" where
  "terminal_backspace s =
     (if terminal_column s = 0 \<and> terminal_row s = 0 then s
      else
        let s = (if terminal_column s = 0
                 then s\<lparr>terminal_column := VGA_WIDTH - 1, terminal_row := terminal_row s - 1\<rparr>
                 else s\<lparr>terminal_column := terminal_column s - 1\<rparr>);
            s = terminal_putentryat 32 (terminal_color s) (terminal_column s) (terminal_row s) s
        in terminal_update_cursor s)"

text \<open>The common tail of a line feed and of a full line: \<open>++terminal_row == VGA_HEIGHT\<close>.\<close>

definition next_row :: "'a tty_state_scheme \<Rightarrow> 'a tty_state_scheme" where
  "next_row s =
     (let s = s\<lparr>terminal_column := 0, terminal_row := terminal_row s + 1\<rparr>
      in if terminal_row s = VGA_HEIGHT then terminal_scroll_up s else s)"

definition terminal_putchar :: "u8 \<Rightarrow> 'a tty_state_scheme \<Rightarrow> 'a tty_state_scheme" where
  "terminal_putchar c s =
     (if c = 8 then terminal_backspace s
      else if c = 10 then terminal_update_cursor (next_row s)
      else
        let s = terminal_putentryat c (terminal_color s) (terminal_column s) (terminal_row s) s;
            s = s\<lparr>terminal_column := terminal_column s + 1\<rparr>;
            s = (if terminal_column s = VGA_WIDTH then next_row s else s)
        in terminal_update_cursor s)"

definition terminal_write :: "u8 list \<Rightarrow> 'a tty_state_scheme \<Rightarrow> 'a tty_state_scheme" where
  "terminal_write data s = fold terminal_putchar data s"

text \<open>The terminal touches no other component: the rest of the state is in \<open>more\<close>.\<close>

lemma outb_more [simp]: "tty_state.more (outb p v s) = tty_state.more s"
  by (simp add: outb_def)

lemma cursor_more [simp]: "tty_state.more (terminal_update_cursor s) = tty_state.more s"
  by (simp add: terminal_update_cursor_def Let_def)

lemma next_row_more [simp]: "tty_state.more (next_row s) = tty_state.more s"
  by (simp add: next_row_def terminal_scroll_up_def Let_def)

lemma putchar_more [simp]: "tty_state.more (terminal_putchar c s) = tty_state.more s"
  by (simp add: terminal_putchar_def terminal_backspace_def terminal_putentryat_def Let_def)

section \<open>The screen invariant\<close>

definition tty_ok :: "'a tty_state_scheme \<Rightarrow> bool" where
  "tty_ok s \<longleftrightarrow> terminal_row s < VGA_HEIGHT \<and> terminal_column s < VGA_WIDTH \<and>
     length (terminal_buffer s) = 2000"

lemma tty_ok_outb [simp]: "tty_ok (outb p v s) = tty_ok s"
  by (simp add: tty_ok_def outb_def)

lemma tty_ok_update_cursor [simp]: "tty_ok (terminal_update_cursor s) = tty_ok s"
  by (simp add: terminal_update_cursor_def Let_def)

lemma tty_ok_putentryat [simp]: "tty_ok (terminal_putentryat c col x y s) = tty_ok s"
  by (simp add: tty_ok_def terminal_putentryat_def Let_def)

text \<open>The linear position of the cursor: the index the next cell write uses.\<close>

definition cursor :: "'a tty_state_scheme \<Rightarrow> nat" where
  "cursor s = unat (terminal_row s) * 80 + unat (terminal_column s)"

lemma cell_index:
  "y < VGA_HEIGHT \<Longrightarrow> x < VGA_WIDTH \<Longrightarrow> unat (y * VGA_WIDTH + x) = unat y * 80 + unat x"
  by (simp add: vga_consts word_less_nat_alt unat_word_ariths)

lemma cursor_bound: "tty_ok s \<Longrightarrow> cursor s < 2000"
  by (auto simp: tty_ok_def cursor_def vga_consts word_less_nat_alt)

text \<open>The two scroll loops drop the first line and append a blank one.\<close>

lemma shift_loop:
  assumes "length b = 2000"
  shows "for_u32 0 1920 (\<lambda>i b. b[unat i := b ! unat (i + 80)]) b =
    map (\<lambda>j. if j < 1920 then b ! (j + 80) else b ! j) [0..<2000]"
proof -
  let ?P = "\<lambda>(k :: u32) c. length c = 2000 \<and>
    (\<forall>j<2000. c ! j = (if j < unat k then b ! (j + 80) else b ! j))"
  have "?P 1920 (for_u32 0 1920 (\<lambda>i b. b[unat i := b ! unat (i + 80)]) b)"
  proof (rule for_u32_invariant [where P = ?P])
    fix k :: u32 and c :: "'a list"
    assume k: "k < 1920" "?P k c"
    then have u: "unat k < 1920" "unat (k + 80) = unat k + 80" "unat (k + 1) = unat k + 1"
      by (simp_all add: word_less_nat_alt unat_word_ariths)
    with k show "?P (k + 1) (c[unat k := c ! unat (k + 80)])"
      by (auto simp: nth_list_update less_Suc_eq)
  qed (use assms in simp_all)
  then show ?thesis
    by (intro nth_equalityI) auto
qed

lemma blank_loop:
  assumes "length b = 2000"
  shows "for_u32 1920 2000 (\<lambda>i b. b[unat i := v]) b = take 1920 b @ replicate 80 v"
proof -
  let ?P = "\<lambda>(k :: u32) c. length c = 2000 \<and>
    (\<forall>j<2000. c ! j = (if 1920 \<le> j \<and> j < unat k then v else b ! j))"
  have "?P 2000 (for_u32 1920 2000 (\<lambda>i b. b[unat i := v]) b)"
  proof (rule for_u32_invariant [where P = ?P])
    fix k :: u32 and c :: "'a list"
    assume k: "1920 \<le> k" "k < 2000" "?P k c"
    then have u: "1920 \<le> unat k" "unat k < 2000" "unat (k + 1) = unat k + 1"
      by (simp_all add: word_less_nat_alt word_le_nat_alt unat_word_ariths)
    with k show "?P (k + 1) (c[unat k := v])"
      by (auto simp: nth_list_update less_Suc_eq)
  qed (use assms in auto)
  then show ?thesis
    using assms by (intro nth_equalityI) (auto simp: nth_append)
qed

lemma scroll_loops:
  assumes "length b = 2000"
  shows "for_u32 1920 2000 (\<lambda>i b. b[unat i := v])
      (for_u32 0 1920 (\<lambda>i b. b[unat i := b ! unat (i + 80)]) b) = drop 80 b @ replicate 80 v"
  using assms by (auto simp: shift_loop blank_loop intro!: nth_equalityI
      simp: nth_append add.commute)

lemma scroll_up_buffer:
  "length (terminal_buffer s) = 2000 \<Longrightarrow> terminal_buffer (terminal_scroll_up s) =
     drop 80 (terminal_buffer s) @ replicate 80 (vga_entry 32 (terminal_color s))"
  by (simp add: terminal_scroll_up_def Let_def terminal_update_cursor_def outb_def vga_consts
      scroll_loops)

lemma scroll_up_cursor [simp]:
  "terminal_row (terminal_scroll_up s) = 24" "terminal_column (terminal_scroll_up s) = 0"
  "terminal_color (terminal_scroll_up s) = terminal_color s"
  by (simp_all add: terminal_scroll_up_def Let_def terminal_update_cursor_def outb_def vga_consts)

lemma update_cursor_fields [simp]:
  "terminal_row (terminal_update_cursor s) = terminal_row s"
  "terminal_column (terminal_update_cursor s) = terminal_column s"
  "terminal_color (terminal_update_cursor s) = terminal_color s"
  "terminal_buffer (terminal_update_cursor s) = terminal_buffer s"
  by (simp_all add: terminal_update_cursor_def Let_def outb_def)

lemma putentryat_fields [simp]:
  "terminal_row (terminal_putentryat c k x y s) = terminal_row s"
  "terminal_column (terminal_putentryat c k x y s) = terminal_column s"
  "terminal_color (terminal_putentryat c k x y s) = terminal_color s"
  "length (terminal_buffer (terminal_putentryat c k x y s)) = length (terminal_buffer s)"
  by (simp_all add: terminal_putentryat_def Let_def)

lemma putentryat_buffer:
  "tty_ok s \<Longrightarrow> terminal_buffer (terminal_putentryat c k (terminal_column s) (terminal_row s) s) =
     (terminal_buffer s)[cursor s := vga_entry c k]"
  by (simp add: terminal_putentryat_def Let_def cell_index tty_ok_def cursor_def)

lemma tty_ok_next_row: "terminal_row s < VGA_HEIGHT \<Longrightarrow> length (terminal_buffer s) = 2000 \<Longrightarrow>
    tty_ok (next_row s)"
proof -
  assume *: "terminal_row s < VGA_HEIGHT" "length (terminal_buffer s) = 2000"
  then have "unat (terminal_row s + 1) = unat (terminal_row s) + 1"
    by (simp add: unat_inc)
  with * show ?thesis
    by (auto simp: next_row_def tty_ok_def Let_def vga_consts scroll_up_buffer
        word_less_nat_alt word_unat_eq_iff)
qed

lemma tty_ok_backspace: "tty_ok s \<Longrightarrow> tty_ok (terminal_backspace s)"
  by (auto simp: terminal_backspace_def tty_ok_def Let_def vga_consts word_less_nat_alt
      unat_minus_one)

lemma tty_ok_putchar: "tty_ok s \<Longrightarrow> tty_ok (terminal_putchar c s)"
proof -
  assume ok: "tty_ok s"
  let ?s = "terminal_putentryat c (terminal_color s) (terminal_column s) (terminal_row s) s"
  have "tty_ok (next_row (?s\<lparr>terminal_column := terminal_column s + 1\<rparr>))"
    using ok by (intro tty_ok_next_row) (simp_all add: tty_ok_def)
  moreover have "tty_ok (next_row s)"
    using ok by (intro tty_ok_next_row) (simp_all add: tty_ok_def)
  moreover have "tty_ok (?s\<lparr>terminal_column := terminal_column s + 1\<rparr>)"
    if "terminal_column s + 1 \<noteq> VGA_WIDTH"
    using ok that unat_inc [of "terminal_column s" VGA_WIDTH]
    by (auto simp: tty_ok_def vga_consts word_less_nat_alt word_unat_eq_iff)
  ultimately show ?thesis
    using ok by (cases "terminal_column s + 1 = VGA_WIDTH")
      (simp_all add: terminal_putchar_def Let_def tty_ok_backspace)
qed

lemma tty_ok_write: "tty_ok s \<Longrightarrow> tty_ok (terminal_write data s)"
  unfolding terminal_write_def by (induction data arbitrary: s) (simp_all add: tty_ok_putchar)

lemma terminal_write_Nil [simp]: "terminal_write [] s = s"
  by (simp add: terminal_write_def)

lemma terminal_write_append:
  "terminal_write (xs @ ys) s = terminal_write ys (terminal_write xs s)"
  by (simp add: terminal_write_def)

section \<open>Properties\<close>

text \<open>
  C32: whatever bytes are written, the cursor stays on the 80 by 25 screen and the buffer keeps
  its 2000 cells, so no cell write of the terminal is out of bounds.
\<close>

theorem terminal_write_in_bounds:
  assumes "tty_ok s"
  shows "tty_ok (terminal_write data s) \<and> cursor (terminal_write data s) < 2000"
  using assms by (simp add: tty_ok_write cursor_bound)

text \<open>
  A printable character goes to the cell under the cursor and the cursor advances by one
  cell; on the last cell of the screen the text moves up by one line, a blank line appears at
  the bottom and the cursor goes to its start.
\<close>

theorem terminal_putchar_prints:
  assumes "tty_ok s" "c \<noteq> 8" "c \<noteq> 10"
  shows "let cells = (terminal_buffer s)[cursor s := vga_entry c (terminal_color s)];
             s' = terminal_putchar c s
         in (if cursor s = 1999
             then terminal_buffer s' =
                    drop 80 cells @ replicate 80 (vga_entry 32 (terminal_color s)) \<and>
                  cursor s' = 24 * 80
             else terminal_buffer s' = cells \<and> cursor s' = cursor s + 1)"
proof -
  let ?s = "terminal_putentryat c (terminal_color s) (terminal_column s) (terminal_row s) s"
  have r: "unat (terminal_row s) < 25" and k: "unat (terminal_column s) < 80"
    and l: "length (terminal_buffer s) = 2000"
    using assms(1) by (auto simp: tty_ok_def vga_consts word_less_nat_alt)
  have inc: "unat (terminal_column s + 1) = unat (terminal_column s) + 1"
      "unat (terminal_row s + 1) = unat (terminal_row s) + 1"
    using assms(1) unat_inc by (auto simp: tty_ok_def)
  have full: "terminal_column s + 1 = VGA_WIDTH \<longleftrightarrow> unat (terminal_column s) = 79"
      "terminal_row s + 1 = VGA_HEIGHT \<longleftrightarrow> unat (terminal_row s) = 24"
    by (simp_all add: vga_consts word_unat_eq_iff inc)
  have buf: "terminal_buffer ?s = (terminal_buffer s)[cursor s := vga_entry c (terminal_color s)]"
    using assms(1) by (rule putentryat_buffer)
  have last: "cursor s = 1999 \<longleftrightarrow> unat (terminal_column s) = 79 \<and> unat (terminal_row s) = 24"
    using r k unfolding cursor_def by arith
  show ?thesis
    using assms(2,3) r k l
    by (auto simp: Let_def terminal_putchar_def next_row_def buf full last inc scroll_up_buffer
        cursor_def)
qed

theorem terminal_putchar_prints_witness:
  "terminal_buffer (terminal_putchar 65 \<lparr>terminal_row = 0, terminal_column = 0,
     terminal_color = 7, terminal_buffer = replicate 2000 0, io_log = []\<rparr>)
   = (replicate 2000 0)[0 := 0x741]"
  using terminal_putchar_prints [of "\<lparr>terminal_row = 0, terminal_column = 0,
     terminal_color = 7, terminal_buffer = replicate 2000 0, io_log = []\<rparr>" 65]
  by (simp add: tty_ok_def vga_consts cursor_def vga_entry_def Let_def)

theorem terminal_write_in_bounds_witness:
  "cursor (terminal_write (replicate 3000 65) \<lparr>terminal_row = 24, terminal_column = 79,
     terminal_color = 7, terminal_buffer = replicate 2000 0, io_log = []\<rparr>) < 2000"
  using terminal_write_in_bounds [of "\<lparr>terminal_row = 24, terminal_column = 79,
     terminal_color = 7, terminal_buffer = replicate 2000 0, io_log = []\<rparr>" "replicate 3000 65"]
  by (simp add: tty_ok_def vga_consts)

end
