(* ===== verification/Printk.thy ===== *)
theory Printk
  imports Tty
begin

text \<open>
  \<open>kernel/lib/printk.c\<close>: number formatting and the format interpreter.  C strings are byte
  lists without their NUL; the variable arguments are a list consumed from the left.  The
  theorems: the hexadecimal and decimal digits denote the number that was printed and fit their
  buffers, and \<open>printk\<close> writes exactly the text a one-character-at-a-time reading of the
  format denotes, and returns its length.
\<close>

section \<open>Numbers\<close>

definition hex_digit :: "u8 \<Rightarrow> u8" where
  "hex_digit nibble = (if nibble < 10 then 48 + nibble else 97 + (nibble - 10))"

definition u32_to_hex :: "u8 list \<Rightarrow> u32 \<Rightarrow> u8 list" where
  "u32_to_hex out val =
     (let out = out[0 := 48];
          out = out[1 := 120];
          out = for_u32 0 8 (\<lambda>i out.
                  let nibble = ucast (drop_bit (unat ((7 - i) * 4)) val AND 0x0f)
                  in out[unat (2 + i) := hex_digit nibble]) out
      in out[10 := 0])"

text \<open>The loop that fills \<open>tmp\<close> with the decimal digits, least significant first.\<close>

function str_digits :: "u32 \<Rightarrow> u8 list \<Rightarrow> u8 list" where
  "str_digits val tmp =
     (if val > 0 then str_digits (val div 10) (tmp @ [ucast (48 + val mod 10)]) else tmp)"
  by pat_completeness auto
termination
proof (relation "measure (\<lambda>(val, tmp). unat val)")
  fix val :: u32 and tmp :: "u8 list"
  assume "val > 0"
  then have "unat val > 0" by (simp add: word_less_nat_alt)
  then have "unat val div 10 < unat val" by simp
  then show "((val div 10, tmp @ [ucast (48 + val mod 10)]), val, tmp) \<in> measure (\<lambda>(val, tmp). unat val)"
    by (simp add: unat_div)
qed simp

declare str_digits.simps [simp del]

definition u32_to_str :: "u32 \<Rightarrow> u8 list" where
  "u32_to_str val = (if val = 0 then [48, 0] else rev (str_digits val []) @ [0])"

section \<open>The format interpreter\<close>

text \<open>
  An argument of the variable argument list: an integer (or a pointer printed as one), or a
  string pointer, which may be NULL.  Reading an argument of the wrong kind is undefined in C;
  the model reads a zero there, and no caller does it.
\<close>

datatype va = VInt u32 | VStr "u8 list option"

fun va_u32 :: "va list \<Rightarrow> u32 \<times> va list" where
  "va_u32 (VInt v # as) = (v, as)"
| "va_u32 as = (0, tl as)"

fun va_str :: "va list \<Rightarrow> u8 list option \<times> va list" where
  "va_str (VStr v # as) = (v, as)"
| "va_str as = (None, tl as)"

definition INT_MAX :: nat where "INT_MAX = 2147483647"

definition c_strlen :: "u8 list \<Rightarrow> nat" where
  "c_strlen cs = length (takeWhile (\<lambda>c. c \<noteq> 0) cs)"

text \<open>The text of one conversion, as the branches of the source build it.\<close>

definition terminal_writestring :: "u8 list \<Rightarrow> 'a tty_state_scheme \<Rightarrow> 'a tty_state_scheme" where
  "terminal_writestring data = terminal_write (take (c_strlen data) data)"

definition null_text :: "u8 list" where
  "null_text = [40, 110, 117, 108, 108, 41]"

function printk_loop ::
    "u8 list \<Rightarrow> va list \<Rightarrow> nat \<Rightarrow> 'a tty_state_scheme \<Rightarrow> int \<times> 'a tty_state_scheme" where
  "printk_loop format args written s =
     (case format of [] \<Rightarrow> (int written, s)
      | f0 # rest \<Rightarrow>
        let maxrem = INT_MAX - written in
        if f0 \<noteq> 37 \<or> (rest \<noteq> [] \<and> hd rest = 37) then
          let format = (if f0 = 37 then rest else format);
              amount = Suc (length (takeWhile (\<lambda>c. c \<noteq> 37) (tl format)))
          in if maxrem < amount then (- 1, s)
             else printk_loop (drop amount format) args (written + amount)
                    (terminal_write (take amount format) s)
        else if rest \<noteq> [] \<and> hd rest = 99 then
          let (v, args) = va_u32 args in
          if maxrem = 0 then (- 1, s)
          else printk_loop (tl rest) args (written + 1) (terminal_write [ucast v] s)
        else if rest \<noteq> [] \<and> hd rest = 115 then
          let (p, args) = va_str args;
              str = (case p of None \<Rightarrow> null_text | Some cs \<Rightarrow> cs);
              len = c_strlen str
          in if maxrem < len then (- 1, s)
             else printk_loop (tl rest) args (written + len) (terminal_write (take len str) s)
        else if rest \<noteq> [] \<and> hd rest = 120 then
          let (v, args) = va_u32 args;
              hex = u32_to_hex (replicate 11 0) v
          in if maxrem < 10 then (- 1, s)
             else printk_loop (tl rest) args (written + 10) (terminal_write (take 10 hex) s)
        else if rest \<noteq> [] \<and> hd rest = 117 then
          let (v, args) = va_u32 args;
              dec = u32_to_str v;
              len = c_strlen dec
          in if maxrem < len then (- 1, s)
             else printk_loop (tl rest) args (written + len) (terminal_write (take len dec) s)
        else
          let len = length format
          in if maxrem < len then (- 1, s)
             else printk_loop [] args (written + len) (terminal_write format s))"
  by pat_completeness auto
termination
  by (relation "measure (\<lambda>(format, args, written, s). length format)")
    (auto split: if_splits)

declare printk_loop.simps [simp del]

definition printk ::
    "string \<Rightarrow> va list \<Rightarrow> 'a tty_state_scheme \<Rightarrow> int \<times> 'a tty_state_scheme" where
  "printk format args s = printk_loop (map of_char format) args 0 s"

section \<open>What the digits denote\<close>

definition hex_value :: "u8 \<Rightarrow> nat" where
  "hex_value d = (if d < 58 then unat d - 48 else unat d - 87)"

lemma hex_value_digit: "n < 16 \<Longrightarrow> hex_value (hex_digit n) = unat n"
  by (simp add: hex_value_def hex_digit_def word_less_nat_alt unat_word_ariths unat_sub_if_size
      word_size)

lemma u32_to_hex_eq:
  assumes "length out = 11"
  shows "u32_to_hex out v = [48, 120] @
    map (\<lambda>i. hex_digit (ucast (drop_bit (4 * i) v AND 0x0f))) [7, 6, 5, 4, 3, 2, 1, 0] @ [0]"
proof -
  obtain a0 a1 a2 a3 a4 a5 a6 a7 a8 a9 a10
    where "out = [a0, a1, a2, a3, a4, a5, a6, a7, a8, a9, a10]"
    using assms by (auto simp: length_Suc_conv numeral_eq_Suc)
  then show ?thesis
    by (simp add: u32_to_hex_def for_u32.simps)
qed

lemma nibble_value: "hex_value (hex_digit (ucast (drop_bit k v AND 0x0f))) = unat v div 2 ^ k mod 16"
  for v :: u32
proof -
  have m: "x AND 0x0f = take_bit 4 x" for x :: u32
    by (simp add: take_bit_eq_mask mask_eq_exp_minus_1)
  have "unat (drop_bit k v) = unat v div 2 ^ k"
    using u32_bound [of v]
    by (simp only: unsigned_drop_bit_eq) (simp add: drop_bit_eq_div take_bit_nat_eq_self)
  then have "unat (drop_bit k v AND 0x0f) = unat v div 2 ^ k mod 16"
    by (simp only: m unsigned_take_bit_eq) (simp add: take_bit_eq_mod)
  moreover from this have "unat (ucast (drop_bit k v AND 0x0f) :: u8) = unat v div 2 ^ k mod 16"
    by (simp add: unsigned_ucast_eq take_bit_eq_mod)
  ultimately show ?thesis
    by (subst hex_value_digit) (simp_all add: word_less_nat_alt)
qed

lemma horner:
  "foldl (\<lambda>a i. a * 16 + n div 2 ^ (4 * i) mod 16) (n div 2 ^ (4 * k)) (rev [0..<k]) = (n :: nat)"
proof (induction k)
  case (Suc k)
  have "n div 2 ^ (4 * Suc k) * 16 + n div 2 ^ (4 * k) mod 16 = n div 2 ^ (4 * k)"
  proof -
    have "n div 2 ^ (4 * Suc k) = n div 2 ^ (4 * k) div 16"
      by (simp add: power_add div_mult2_eq [symmetric] mult.commute)
    then show ?thesis by (simp add: div_mult_mod_eq)
  qed
  then show ?case using Suc.IH by simp
qed simp

fun dec_value :: "u8 list \<Rightarrow> nat" where
  "dec_value [] = 0"
| "dec_value (d # ds) = unat d - 48 + 10 * dec_value ds"

lemma div10_less: "v > 0 \<Longrightarrow> unat (v div 10) < unat v" for v :: u32
  using div_less_dividend [of 10 "unat v"] by (simp add: unat_div word_less_nat_alt)

lemma str_digits_append: "str_digits v tmp = tmp @ str_digits v []"
proof (induction "unat v" arbitrary: v tmp rule: less_induct)
  case less
  show ?case
  proof (cases "v > 0")
    case True
    then have "str_digits (v div 10) t = t @ str_digits (v div 10) []" for t
      by (intro less div10_less)
    then show ?thesis
      using True by (metis append.assoc append.left_neutral str_digits.simps)
  qed (simp add: str_digits.simps)
qed

lemma str_digits_step:
  "v > 0 \<Longrightarrow> str_digits v [] = ucast (48 + v mod 10) # str_digits (v div 10) []"
  by (subst str_digits.simps) (simp add: str_digits_append [of _ "[_]"])

lemma digit_byte: "unat (ucast (48 + v mod 10) :: u8) = 48 + unat v mod 10" for v :: u32
proof -
  have "unat (48 + v mod 10) = 48 + unat v mod 10"
    using pos_mod_bound by (simp add: unat_word_ariths)
  moreover have "48 + unat v mod 10 < 256"
    using mod_less_divisor [of 10 "unat v"] by linarith
  ultimately show ?thesis by (simp add: unsigned_ucast_eq take_bit_eq_mod)
qed

lemma str_digits_value:
  "dec_value (str_digits v []) = unat v \<and> (\<forall>d \<in> set (str_digits v []). 48 \<le> d \<and> d < 58)"
proof (induction "unat v" arbitrary: v rule: less_induct)
  case less
  show ?case
  proof (cases "v > 0")
    case True
    then show ?thesis
      using less [OF div10_less [OF True]] mod_less_divisor [of 10 "unat v"]
      by (simp add: str_digits_step digit_byte unat_div word_le_nat_alt word_less_nat_alt)
  qed (simp add: str_digits.simps word_gt_0)
qed

lemma str_digits_length: "unat v < 10 ^ k \<Longrightarrow> length (str_digits v []) \<le> k"
proof (induction k arbitrary: v)
  case 0
  then show ?case by (simp add: str_digits.simps unat_eq_0)
next
  case (Suc k)
  show ?case
  proof (cases "v > 0")
    case True
    have "unat (v div 10) < 10 ^ k"
      using Suc.prems by (simp add: unat_div less_mult_imp_div_less mult.commute)
    then show ?thesis using Suc.IH True by (simp add: str_digits_step)
  qed (simp add: str_digits.simps)
qed

section \<open>What a format denotes\<close>

definition hex_text :: "u32 \<Rightarrow> u8 list" where
  "hex_text v = take 10 (u32_to_hex (replicate 11 0) v)"

definition dec_text :: "u32 \<Rightarrow> u8 list" where
  "dec_text v = takeWhile (\<lambda>c. c \<noteq> 0) (u32_to_str v)"

definition str_text :: "u8 list option \<Rightarrow> u8 list" where
  "str_text p = takeWhile (\<lambda>c. c \<noteq> 0) (case p of None \<Rightarrow> null_text | Some cs \<Rightarrow> cs)"

text \<open>
  The reference: a format is read one character at a time; \<open>%\<close> and a conversion letter
  stand for the text of the next argument, \<open>%%\<close> for a percent sign, and an unknown
  conversion ends the interpretation, the rest being text.
\<close>

fun render :: "u8 list \<Rightarrow> va list \<Rightarrow> u8 list" where
  "render [] as = []"
| "render [c] as = [c]"
| "render (c # d # r) as =
     (if c \<noteq> 37 then c # render (d # r) as
      else if d = 37 then 37 # render r as
      else if d = 99 then ucast (fst (va_u32 as)) # render r (snd (va_u32 as))
      else if d = 115 then str_text (fst (va_str as)) @ render r (snd (va_str as))
      else if d = 120 then hex_text (fst (va_u32 as)) @ render r (snd (va_u32 as))
      else if d = 117 then dec_text (fst (va_u32 as)) @ render r (snd (va_u32 as))
      else c # d # r)"

lemma render_literal: "\<forall>c \<in> set xs. c \<noteq> 37 \<Longrightarrow> render (xs @ ys) as = xs @ render ys as"
proof (induction xs)
  case (Cons x xs)
  then show ?case
    by (cases "xs @ ys") auto
qed simp

lemma take_run: "take (length (takeWhile P xs)) xs = takeWhile P xs"
  by (rule takeWhile_eq_take [symmetric])

lemma drop_run: "drop (length (takeWhile P xs)) xs = dropWhile P xs"
  by (rule dropWhile_eq_drop [symmetric])

lemma render_skip:
  "render r as = takeWhile (\<lambda>c. c \<noteq> 37) r @ render (dropWhile (\<lambda>c. c \<noteq> 37) r) as"
proof -
  have "render (takeWhile (\<lambda>c. c \<noteq> 37) r @ dropWhile (\<lambda>c. c \<noteq> 37) r) as =
      takeWhile (\<lambda>c. c \<noteq> 37) r @ render (dropWhile (\<lambda>c. c \<noteq> 37) r) as"
    by (intro render_literal) (auto dest: set_takeWhileD)
  then show ?thesis by simp
qed

lemma render_run:
  "c \<noteq> 37 \<Longrightarrow> render (c # r) as =
     c # takeWhile (\<lambda>c. c \<noteq> 37) r @ render (dropWhile (\<lambda>c. c \<noteq> 37) r) as"
  using render_literal [of "[c]" r as] render_skip [of r as] by simp

lemma take_c_strlen: "take (c_strlen cs) cs = takeWhile (\<lambda>c. c \<noteq> 0) cs"
  by (simp add: c_strlen_def take_run)

lemma length_hex_text: "length (hex_text v) = 10"
  by (simp add: hex_text_def u32_to_hex_eq)

lemma printk_loop_render:
  "written + length (render format args) \<le> INT_MAX \<Longrightarrow>
   printk_loop format args written s =
     (int (written + length (render format args)), terminal_write (render format args) s)"
proof (induction "length format" arbitrary: format args written s rule: less_induct)
  case less
  note IH = less.hyps and bound = less.prems
  show ?case
  proof (cases format)
    case Nil
    then show ?thesis by (simp add: printk_loop.simps)
  next
    case (Cons f0 rest)
    consider (run) "f0 \<noteq> 37" | (percent) r where "f0 = 37" "rest = 37 # r"
      | (c) r where "f0 = 37" "rest = 99 # r" | (s) r where "f0 = 37" "rest = 115 # r"
      | (x) r where "f0 = 37" "rest = 120 # r" | (u) r where "f0 = 37" "rest = 117 # r"
      | (bad) "f0 = 37" "rest = [] \<or> hd rest \<notin> {37, 99, 115, 120, 117}"
      by (cases rest) auto
    then show ?thesis
    proof cases
      case run
      let ?r = "dropWhile (\<lambda>c. c \<noteq> 37) rest"
      have "length ?r < length format"
        using Cons by (simp add: le_imp_less_Suc length_dropWhile_le)
      then show ?thesis
        using bound Cons run
        by (subst printk_loop.simps)
          (simp add: Let_def render_run take_run drop_run IH terminal_write_def)
    next
      case percent
      let ?r = "dropWhile (\<lambda>c. c \<noteq> 37) r"
      have "length ?r < length format"
        using Cons percent by (simp add: le_imp_less_Suc le_SucI length_dropWhile_le)
      moreover have "render format args = 37 # takeWhile (\<lambda>c. c \<noteq> 37) r @ render ?r args"
        using Cons percent by (simp add: render_skip [symmetric])
      moreover have "printk_loop format args written s =
        (if INT_MAX - written < Suc (length (takeWhile (\<lambda>c. c \<noteq> 37) r)) then (- 1, s)
         else printk_loop ?r args (written + Suc (length (takeWhile (\<lambda>c. c \<noteq> 37) r)))
                (terminal_write (37 # takeWhile (\<lambda>c. c \<noteq> 37) r) s))"
        unfolding Cons percent
        by (subst printk_loop.simps) (simp add: Let_def take_run drop_run)
      ultimately show ?thesis
        using bound IH [of ?r] by (simp add: terminal_write_def)
    next
      case c
      then show ?thesis
        using bound Cons
        by (subst printk_loop.simps) (simp add: Let_def IH split_beta terminal_write_def)
    next
      case s
      then show ?thesis
        using bound Cons
        by (subst printk_loop.simps)
          (simp add: Let_def IH split_beta str_text_def c_strlen_def take_run terminal_write_def)
    next
      case x
      then show ?thesis
        using bound Cons length_hex_text
        by (subst printk_loop.simps)
          (simp add: Let_def IH split_beta hex_text_def terminal_write_def)
    next
      case u
      then show ?thesis
        using bound Cons
        by (subst printk_loop.simps)
          (simp add: Let_def IH split_beta dec_text_def c_strlen_def take_run terminal_write_def)
    next
      case bad
      then have "render format args = format" using Cons by (cases rest) auto
      then show ?thesis
        using bound Cons bad
        by (subst printk_loop.simps) (auto simp: Let_def printk_loop.simps [of "[]"])
    qed
  qed
qed

text \<open>
  Printing touches the terminal only: any part of the state that one character leaves alone is
  left alone by \<open>printk\<close>.
\<close>

lemma terminal_write_frame:
  assumes "\<And>c s. f (terminal_putchar c s) = f s"
  shows "f (terminal_write cs s) = f s"
  unfolding terminal_write_def by (induction cs arbitrary: s) (simp_all add: assms)

lemma printk_loop_frame:
  assumes "\<And>c s. f (terminal_putchar c s) = f s"
  shows "f (snd (printk_loop format args written s)) = f s"
proof (induction "length format" arbitrary: format args written s rule: less_induct)
  case less
  show ?case
    by (subst printk_loop.simps)
      (auto simp: less terminal_write_frame [of f, OF assms] Let_def split_beta
        split: list.splits)
qed

lemma printk_frame:
  assumes "\<And>c s. f (terminal_putchar c s) = f s"
  shows "f (snd (printk format args s)) = f s"
  unfolding printk_def using assms by (rule printk_loop_frame)

lemma printk_more [simp]: "tty_state.more (snd (printk format args s)) = tty_state.more s"
  by (rule printk_frame) simp

section \<open>Properties\<close>

text \<open>
  C31: \<open>printk\<close> writes exactly the text its format denotes with the given arguments and
  returns the number of characters, as long as that number fits an \<open>int\<close>.
\<close>

theorem printk_renders:
  assumes "length (render (map of_char format) args) \<le> INT_MAX"
  shows "printk format args s =
    (int (length (render (map of_char format) args)),
     terminal_write (render (map of_char format) args) s)"
  using assms by (simp add: printk_def printk_loop_render)

theorem printk_renders_witness:
  "\<forall>s :: tty_state. printk ''irq%u: %s%c%%'' [VInt 42, VStr None, VInt 0x141] s =
    (15, terminal_write (map of_char ''irq42: (null)A%'') s)"
proof
  fix s :: tty_state
  have r: "render (map of_char ''irq%u: %s%c%%'') [VInt 42, VStr None, VInt 0x141] =
      (map of_char ''irq42: (null)A%'' :: u8 list)"
    by (simp add: dec_text_def u32_to_str_def str_digits.simps str_text_def null_text_def)
  show "printk ''irq%u: %s%c%%'' [VInt 42, VStr None, VInt 0x141] s =
      (15, terminal_write (map of_char ''irq42: (null)A%'') s)"
    using printk_renders [of "''irq%u: %s%c%%''" "[VInt 42, VStr None, VInt 0x141]" s]
    unfolding r by (simp add: INT_MAX_def)
qed

text \<open>
  \<open>u32_to_hex\<close> overwrites every byte of its 11-byte buffer; the eight digits after
  \<open>0x\<close> denote the value and a NUL follows.
\<close>

theorem u32_to_hex_denotes:
  assumes "length out = 11"
  shows "\<exists>ds. u32_to_hex out v = [48, 120] @ ds @ [0] \<and> length ds = 8 \<and>
    foldl (\<lambda>a d. a * 16 + hex_value d) 0 ds = unat v"
proof (intro exI conjI)
  let ?ds = "map (\<lambda>i. hex_digit (ucast (drop_bit (4 * i) v AND 0x0f))) [7, 6, 5, 4, 3, 2, 1, 0]"
  show "u32_to_hex out v = [48, 120] @ ?ds @ [0]"
    using assms by (rule u32_to_hex_eq)
  show "length ?ds = 8" by simp
  have "rev [0..<8] = [7, 6, 5, 4, 3, 2, 1, 0 :: nat]" by (simp add: upt_rec)
  then show "foldl (\<lambda>a d. a * 16 + hex_value d) 0 ?ds = unat v"
    using horner [of "unat v" 8] u32_bound [of v] nibble_value [of 0 v]
    by (simp add: nibble_value)
qed

text \<open>
  \<open>u32_to_str\<close> writes at most ten decimal digits and a NUL, so \<open>tmp[10]\<close> and the
  callers' \<open>dec[11]\<close> are large enough, and the digits read from the left denote the value.
\<close>

theorem u32_to_str_denotes:
  "\<exists>ds. u32_to_str v = ds @ [0] \<and> ds \<noteq> [] \<and> length ds \<le> 10 \<and>
     set ds \<subseteq> {48..57} \<and> dec_value (rev ds) = unat v"
proof (cases "v = 0")
  case True
  then show ?thesis by (intro exI [of _ "[48]"]) (simp add: u32_to_str_def)
next
  case False
  have "length (str_digits v []) \<le> 10"
    using u32_bound [of v] by (intro str_digits_length) simp
  moreover have "d \<le> 57" if "d < 58" for d :: u8
    using that by (simp add: word_less_nat_alt word_le_nat_alt)
  ultimately show ?thesis
    using str_digits_value [of v] False
    by (intro exI [of _ "rev (str_digits v [])"])
      (auto simp: u32_to_str_def str_digits_step word_gt_0)
qed

theorem u32_to_hex_denotes_witness:
  "\<exists>ds. u32_to_hex (replicate 11 0) 0xbeef = [48, 120] @ ds @ [0] \<and> length ds = 8 \<and>
    foldl (\<lambda>a d. a * 16 + hex_value d) 0 ds = 48879"
  using u32_to_hex_denotes [where out = "replicate 11 0" and v = "0xbeef"] by simp

end
