(* ===== verification/Keyboard.thy ===== *)
theory Keyboard
  imports Printk
begin

text \<open>
  The keyboard: the ring buffer between the interrupt handler and \<open>SYS_GETC\<close>
  (\<open>kernel/keyboard.c\<close>) and the scancode table (\<open>kernel/arch/i386/keyboard.c\<close>).  The
  interface \<open>bounded_fifo\<close> says what its clients rely on; the ring of 32 cells implements it
  with capacity 31.
\<close>

section \<open>The bounded queue interface\<close>

locale bounded_fifo =
  fixes push :: "'c \<Rightarrow> 's \<Rightarrow> 's"
    and pop :: "'s \<Rightarrow> 'r \<times> 's"
    and clear :: "'s \<Rightarrow> 's"
    and contents :: "'s \<Rightarrow> 'c list"
    and invar :: "'s \<Rightarrow> bool"
    and cap :: nat
    and accepts :: "'c \<Rightarrow> bool"
    and enc :: "'c \<Rightarrow> 'r"
    and nothing :: 'r
  assumes contents_push:
      "invar s \<Longrightarrow> accepts c \<Longrightarrow> length (contents s) < cap \<Longrightarrow> contents (push c s) = contents s @ [c]"
    and push_rejected: "\<not> accepts c \<Longrightarrow> push c s = s"
    and push_full: "invar s \<Longrightarrow> length (contents s) = cap \<Longrightarrow> push c s = s"
    and pop_empty: "invar s \<Longrightarrow> contents s = [] \<Longrightarrow> pop s = (nothing, s)"
    and pop_first: "invar s \<Longrightarrow> contents s = c # cs \<Longrightarrow> fst (pop s) = enc c \<and> contents (snd (pop s)) = cs"
    and contents_clear: "contents (clear s) = []"
    and invar_push: "invar s \<Longrightarrow> invar (push c s)"
    and invar_pop: "invar s \<Longrightarrow> invar (snd (pop s))"
    and invar_clear: "invar s \<Longrightarrow> invar (clear s)"
    and contents_bound: "invar s \<Longrightarrow> length (contents s) \<le> cap"
begin

lemma push_contents:
  "invar s \<Longrightarrow> contents (push c s) =
     (if accepts c \<and> length (contents s) < cap then contents s @ [c] else contents s)"
  using contents_bound [of s] by (auto simp: contents_push push_rejected push_full nat_less_le)

text \<open>A burst of keys: what fits is queued in order, the rest is dropped.\<close>

lemma push_all:
  "invar s \<Longrightarrow> invar (fold push cs s) \<and>
     contents (fold push cs s) = take cap (contents s @ filter accepts cs)"
proof (induction cs arbitrary: s)
  case Nil
  then show ?case using contents_bound [of s] by simp
next
  case (Cons c cs)
  then show ?case
    using contents_bound [of s] by (simp add: invar_push push_contents take_Cons')
qed

fun pops :: "nat \<Rightarrow> 's \<Rightarrow> 'r list" where
  "pops 0 s = []"
| "pops (Suc n) s = fst (pop s) # pops n (snd (pop s))"

lemma pops_contents:
  "invar s \<Longrightarrow> pops n s =
     map enc (take n (contents s)) @ replicate (n - length (contents s)) nothing"
proof (induction n arbitrary: s)
  case (Suc n)
  show ?case
  proof (cases "contents s")
    case Nil
    then show ?thesis using Suc by (simp add: pop_empty)
  next
    case (Cons c cs)
    then show ?thesis using Suc pop_first [of s c cs] by (simp add: invar_pop)
  qed
qed simp

end

section \<open>kernel/keyboard.c\<close>

record keyboard_state = tty_state +
  keyboard_buffer :: "u8 list"
  read_index :: u32
  write_index :: u32

definition KEYBOARD_BUFFER_SIZE :: u32 where "KEYBOARD_BUFFER_SIZE = 32"

definition keyboard_buffer_push :: "u8 \<Rightarrow> 'a keyboard_state_scheme \<Rightarrow> 'a keyboard_state_scheme" where
  "keyboard_buffer_push c s =
     (if c = 0 then s
      else let nxt = (write_index s + 1) mod KEYBOARD_BUFFER_SIZE
           in if nxt = read_index s then s
              else s\<lparr>keyboard_buffer := (keyboard_buffer s)[unat (write_index s) := c],
                     write_index := nxt\<rparr>)"

text \<open>A plain \<open>char\<close> is signed on i386, so the conversion to \<open>uint32_t\<close> extends the sign.\<close>

definition keyboard_buffer_pop :: "'a keyboard_state_scheme \<Rightarrow> u32 \<times> 'a keyboard_state_scheme" where
  "keyboard_buffer_pop s =
     (if read_index s = write_index s then (0, s)
      else let c = keyboard_buffer s ! unat (read_index s)
           in (scast c, s\<lparr>read_index := (read_index s + 1) mod KEYBOARD_BUFFER_SIZE\<rparr>))"

definition keyboard_buffer_clear :: "'a keyboard_state_scheme \<Rightarrow> 'a keyboard_state_scheme" where
  "keyboard_buffer_clear s = s\<lparr>read_index := write_index s\<rparr>"

section \<open>kernel/arch/i386/keyboard.c\<close>

definition keymap :: "(u8 \<times> u8) list" where
  "keymap =
     [(0x02, of_char CHR ''1''), (0x03, of_char CHR ''2''), (0x04, of_char CHR ''3''),
      (0x05, of_char CHR ''4''), (0x06, of_char CHR ''5''), (0x07, of_char CHR ''6''),
      (0x08, of_char CHR ''7''), (0x09, of_char CHR ''8''), (0x0A, of_char CHR ''9''),
      (0x0B, of_char CHR ''0''), (0x0E, 8),
      (0x10, of_char CHR ''q''), (0x11, of_char CHR ''w''), (0x12, of_char CHR ''e''),
      (0x13, of_char CHR ''r''), (0x14, of_char CHR ''t''), (0x15, of_char CHR ''y''),
      (0x16, of_char CHR ''u''), (0x17, of_char CHR ''i''), (0x18, of_char CHR ''o''),
      (0x19, of_char CHR ''p''), (0x1C, 10),
      (0x1E, of_char CHR ''a''), (0x1F, of_char CHR ''s''), (0x20, of_char CHR ''d''),
      (0x21, of_char CHR ''f''), (0x22, of_char CHR ''g''), (0x23, of_char CHR ''h''),
      (0x24, of_char CHR ''j''), (0x25, of_char CHR ''k''), (0x26, of_char CHR ''l''),
      (0x2C, of_char CHR ''z''), (0x2D, of_char CHR ''x''), (0x2E, of_char CHR ''c''),
      (0x2F, of_char CHR ''v''), (0x30, of_char CHR ''b''), (0x31, of_char CHR ''n''),
      (0x32, of_char CHR ''m''), (0x35, of_char CHR ''/''), (0x39, of_char CHR '' '')]"

definition keyboard_decode :: "u8 \<Rightarrow> u8" where
  "keyboard_decode scancode =
     (if scancode AND 0x80 \<noteq> 0 then 0
      else case map_of keymap scancode of None \<Rightarrow> 0 | Some c \<Rightarrow> c)"

section \<open>The ring as a queue\<close>

definition kb_ok :: "'a keyboard_state_scheme \<Rightarrow> bool" where
  "kb_ok s \<longleftrightarrow> length (keyboard_buffer s) = 32 \<and> read_index s < 32 \<and> write_index s < 32"

definition kb_count :: "'a keyboard_state_scheme \<Rightarrow> nat" where
  "kb_count s = (unat (write_index s) + 32 - unat (read_index s)) mod 32"

definition kb_contents :: "'a keyboard_state_scheme \<Rightarrow> u8 list" where
  "kb_contents s =
     map (\<lambda>i. keyboard_buffer s ! ((unat (read_index s) + i) mod 32)) [0..<kb_count s]"

lemma unat_succ_32: "i < 32 \<Longrightarrow> unat ((i + 1) mod KEYBOARD_BUFFER_SIZE) = (unat i + 1) mod 32"
  by (simp add: KEYBOARD_BUFFER_SIZE_def unat_mod unat_word_ariths word_less_nat_alt)

lemma mod_32: "n < 64 \<Longrightarrow> n mod 32 = (if n < 32 then n else n - 32)" for n :: nat
  by (simp add: mod_if)

lemma kb_count_eq:
  "kb_ok s \<Longrightarrow> kb_count s = (if unat (read_index s) \<le> unat (write_index s)
     then unat (write_index s) - unat (read_index s)
     else unat (write_index s) + 32 - unat (read_index s))"
  by (auto simp: kb_ok_def kb_count_def mod_32 word_less_nat_alt)

lemma kb_count_less: "kb_ok s \<Longrightarrow> kb_count s \<le> 31"
  by (auto simp: kb_count_eq) (auto simp: kb_ok_def word_less_nat_alt)

lemma kb_slot:
  "kb_ok s \<Longrightarrow> i \<le> kb_count s \<Longrightarrow>
     (unat (read_index s) + i) mod 32 = unat (write_index s) \<longleftrightarrow> i = kb_count s"
  by (auto simp: kb_count_eq mod_32 kb_ok_def word_less_nat_alt split: if_splits)

lemma kb_empty: "kb_ok s \<Longrightarrow> kb_contents s = [] \<longleftrightarrow> read_index s = write_index s"
  by (auto simp: kb_contents_def kb_count_eq word_unat_eq_iff kb_ok_def word_less_nat_alt)

lemma kb_full:
  "kb_ok s \<Longrightarrow> (write_index s + 1) mod KEYBOARD_BUFFER_SIZE = read_index s \<longleftrightarrow> kb_count s = 31"
proof -
  assume ok: "kb_ok s"
  then have "unat (write_index s) < 32" "unat (read_index s) < 32"
    by (simp_all add: kb_ok_def word_less_nat_alt)
  then show ?thesis
    using ok by (auto simp: kb_count_eq word_unat_eq_iff unat_succ_32 kb_ok_def mod_32)
qed

lemma kb_push_contents:
  assumes ok: "kb_ok s" and c: "c \<noteq> 0" and room: "kb_count s < 31"
  shows "kb_ok (keyboard_buffer_push c s)"
    and "kb_contents (keyboard_buffer_push c s) = kb_contents s @ [c]"
proof -
  let ?w = "unat (write_index s)" and ?r = "unat (read_index s)"
  have b: "?w < 32" "?r < 32" "length (keyboard_buffer s) = 32"
    using ok by (simp_all add: kb_ok_def word_less_nat_alt)
  have push: "keyboard_buffer_push c s = s\<lparr>keyboard_buffer := (keyboard_buffer s)[?w := c],
      write_index := (write_index s + 1) mod KEYBOARD_BUFFER_SIZE\<rparr>"
    using c room kb_full [OF ok] by (simp add: keyboard_buffer_push_def Let_def)
  have w': "unat (write_index (keyboard_buffer_push c s)) = (?w + 1) mod 32"
    using ok by (simp add: push unat_succ_32 kb_ok_def)
  have read: "read_index (keyboard_buffer_push c s) = read_index s" by (simp add: push)
  show ok': "kb_ok (keyboard_buffer_push c s)"
    using ok w' by (simp add: kb_ok_def push word_less_nat_alt)
  have "kb_count (keyboard_buffer_push c s) = Suc (kb_count s)"
    using room b w' read unfolding kb_count_eq [OF ok] kb_count_eq [OF ok']
    by (simp add: mod_32 split: if_splits; linarith)
  moreover have "(keyboard_buffer s)[?w := c] ! ((?r + i) mod 32) =
      (if i = kb_count s then c else keyboard_buffer s ! ((?r + i) mod 32))"
    if "i \<le> kb_count s" for i
    using b kb_slot [OF ok that] by (auto simp: nth_list_update)
  ultimately show "kb_contents (keyboard_buffer_push c s) = kb_contents s @ [c]"
    by (simp add: kb_contents_def push)
qed

lemma kb_pop_contents:
  assumes ok: "kb_ok s" and ne: "kb_contents s = c # cs"
  shows "kb_ok (snd (keyboard_buffer_pop s))"
    and "fst (keyboard_buffer_pop s) = scast c"
    and "kb_contents (snd (keyboard_buffer_pop s)) = cs"
proof -
  let ?w = "unat (write_index s)" and ?r = "unat (read_index s)"
  have b: "?w < 32" "?r < 32"
    using ok by (simp_all add: kb_ok_def word_less_nat_alt)
  have count: "kb_count s \<noteq> 0" using ne by (cases "kb_count s") (simp_all add: kb_contents_def)
  then have r_w: "read_index s \<noteq> write_index s"
    using ne kb_empty [OF ok] by auto
  have pop: "keyboard_buffer_pop s = (scast (keyboard_buffer s ! ?r),
      s\<lparr>read_index := (read_index s + 1) mod KEYBOARD_BUFFER_SIZE\<rparr>)"
    using r_w by (simp add: keyboard_buffer_pop_def Let_def)
  have r': "unat (read_index (snd (keyboard_buffer_pop s))) = (?r + 1) mod 32"
    using ok by (simp add: pop unat_succ_32 kb_ok_def)
  have wr: "write_index (snd (keyboard_buffer_pop s)) = write_index s" by (simp add: pop)
  show ok': "kb_ok (snd (keyboard_buffer_pop s))"
    using ok r' by (simp add: kb_ok_def pop word_less_nat_alt)
  have all: "kb_contents s = keyboard_buffer s ! ?r #
      map (\<lambda>i. keyboard_buffer s ! ((?r + Suc i) mod 32)) [0..<kb_count s - 1]"
    using count b by (cases "kb_count s") (simp_all add: kb_contents_def upt_conv_Cons map_Suc_upt [symmetric] del: upt_Suc)
  then show "fst (keyboard_buffer_pop s) = scast c"
    using ne by (simp add: pop)
  have "kb_count (snd (keyboard_buffer_pop s)) = kb_count s - 1"
    using count b r' wr unfolding kb_count_eq [OF ok] kb_count_eq [OF ok']
    by (auto simp: mod_32 split: if_splits)
  then show "kb_contents (snd (keyboard_buffer_pop s)) = cs"
    using ne all r' unfolding kb_contents_def [of "snd (keyboard_buffer_pop s)"]
    by (auto simp: pop mod_add_left_eq)
qed

interpretation kb: bounded_fifo keyboard_buffer_push keyboard_buffer_pop keyboard_buffer_clear
  kb_contents kb_ok 31 "\<lambda>c. c \<noteq> 0" scast 0
proof unfold_locales
  fix s :: "'a keyboard_state_scheme" and c :: u8 and cs :: "u8 list"
  assume ok: "kb_ok s"
  have len: "length (kb_contents s) = kb_count s" by (simp add: kb_contents_def)
  show "length (kb_contents s) \<le> 31" using ok by (simp add: len kb_count_less)
  show "length (kb_contents s) = 31 \<Longrightarrow> keyboard_buffer_push c s = s"
    using kb_full [OF ok] by (simp add: len keyboard_buffer_push_def)
  show "kb_contents s = [] \<Longrightarrow> keyboard_buffer_pop s = (0, s)"
    using kb_empty [OF ok] by (simp add: keyboard_buffer_pop_def)
  show "kb_ok (keyboard_buffer_push c s)"
  proof (cases "c \<noteq> 0 \<and> kb_count s < 31")
    case True
    then show ?thesis using ok kb_push_contents(1) by blast
  next
    case False
    then have "keyboard_buffer_push c s = s"
      using kb_full [OF ok] kb_count_less [OF ok] by (auto simp: keyboard_buffer_push_def Let_def)
    then show ?thesis using ok by simp
  qed
  show "kb_ok (snd (keyboard_buffer_pop s))"
    using ok kb_pop_contents(1) [OF ok] kb_empty [OF ok]
    by (cases "kb_contents s") (auto simp: keyboard_buffer_pop_def)
  show "kb_ok (keyboard_buffer_clear s)"
    using ok by (simp add: kb_ok_def keyboard_buffer_clear_def)
  show "c \<noteq> 0 \<Longrightarrow> length (kb_contents s) < 31 \<Longrightarrow>
      kb_contents (keyboard_buffer_push c s) = kb_contents s @ [c]"
    using kb_push_contents(2) [OF ok] by (simp add: len)
  show "kb_contents s = c # cs \<Longrightarrow> fst (keyboard_buffer_pop s) = scast c \<and>
      kb_contents (snd (keyboard_buffer_pop s)) = cs"
    using kb_pop_contents [OF ok] by blast
qed (auto simp: kb_contents_def kb_count_def keyboard_buffer_clear_def keyboard_buffer_push_def)

section \<open>The scancode table\<close>

lemma keymap_ascii: "\<forall>(k, c) \<in> set keymap. c \<noteq> 0 \<and> c < 128"
  by (simp add: keymap_def)

lemma keymap_distinct: "distinct (map fst keymap) \<and> distinct (map snd keymap)"
  by (simp add: keymap_def)

lemma decode_cases:
  "keyboard_decode sc \<noteq> 0 \<Longrightarrow> (sc, keyboard_decode sc) \<in> set keymap"
  by (auto simp: keyboard_decode_def dest: map_of_SomeD split: if_splits option.splits)

lemma scast_ascii: "c < 128 \<Longrightarrow> (scast c :: u32) = ucast c" for c :: u8
proof -
  assume "c < 128"
  then have "take_bit 7 c = c"
    by (simp add: take_bit_eq_mod word_less_nat_alt word_unat_eq_iff unat_mod)
  then have "\<not> bit c n" if "7 \<le> n" for n
    using that by (metis bit_take_bit_iff not_le)
  then show ?thesis
    by (intro bit_word_eqI) (auto simp: bit_simps min_def)
qed

section \<open>Properties\<close>

text \<open>
  C30: the ring buffer is a first-in first-out queue of capacity 31: after any burst of
  characters, reading returns the queued characters in order (NUL is never queued, what does
  not fit is dropped) and then zero.
\<close>

theorem keyboard_fifo:
  assumes "kb_ok s"
  shows "kb.pops n (fold keyboard_buffer_push cs (keyboard_buffer_clear s)) =
    map scast (take n (take 31 (filter (\<lambda>c. c \<noteq> 0) cs))) @
    replicate (n - min 31 (length (filter (\<lambda>c. c \<noteq> 0) cs))) 0"
  using kb.push_all [of "keyboard_buffer_clear s" cs] kb.invar_clear [OF assms]
  by (simp add: kb.pops_contents kb.contents_clear min.commute)

theorem keyboard_fifo_witness:
  "kb.pops 3 (fold keyboard_buffer_push [104, 0, 105] (keyboard_buffer_clear
     \<lparr>terminal_row = 0, terminal_column = 0, terminal_color = 0, terminal_buffer = [],
      io_log = [], keyboard_buffer = replicate 32 0, read_index = 31, write_index = 31\<rparr>)) =
   [104, 105, 0]"
  using keyboard_fifo [where n = 3 and cs = "[104, 0, 105]" and s =
     "\<lparr>terminal_row = 0, terminal_column = 0, terminal_color = 0, terminal_buffer = [],
      io_log = [], keyboard_buffer = replicate 32 0, read_index = 31, write_index = 31\<rparr>"]
  by (simp add: kb_ok_def)

text \<open>
  Every character the keyboard produces is 7-bit ASCII, so the sign extension in
  \<open>keyboard_buffer_pop\<close> returns it unchanged; key releases produce nothing, and two
  different keys never produce the same character.
\<close>

theorem keyboard_decode_ascii:
  "(sc AND 0x80 \<noteq> 0 \<longrightarrow> keyboard_decode sc = 0) \<and> keyboard_decode sc < 128 \<and>
   (scast (keyboard_decode sc) :: u32) = ucast (keyboard_decode sc) \<and>
   (keyboard_decode sc \<noteq> 0 \<and> keyboard_decode sc' = keyboard_decode sc \<longrightarrow> sc' = sc)"
proof -
  have less: "keyboard_decode sc < 128"
    using decode_cases [of sc] keymap_ascii by (cases "keyboard_decode sc = 0") auto
  moreover have "sc' = sc" if "keyboard_decode sc \<noteq> 0" "keyboard_decode sc' = keyboard_decode sc"
    using that decode_cases [of sc] decode_cases [of sc'] keymap_distinct
    by (fastforce simp: distinct_map inj_on_def)
  ultimately show ?thesis
    using scast_ascii [OF less] by (auto simp: keyboard_decode_def)
qed

theorem keyboard_decode_ascii_witness:
  "keyboard_decode 0x1E = 97 \<and> (scast (keyboard_decode 0x1E) :: u32) = 97 \<and> keyboard_decode 0x9E = 0"
  using keyboard_decode_ascii [of "0x9E" 0] keyboard_decode_ascii [of "0x1E" "0x1E"]
  by (simp add: keyboard_decode_def keymap_def)

end
