(* ===== verification/Pmm.thy ===== *)
theory Pmm
  imports Keyboard
begin

text \<open>
  The physical page allocator (\<open>kernel/mm/pmm.c\<close>): a bitmap in kernel memory, one bit per page
  frame, set when the frame is in use.  This theory holds the bitmap operations, allocation and
  release, the invariant \<open>pmm_ok\<close> that ties the free counter to the bitmap, and the interface
  \<open>page_allocator\<close> the rest of the kernel is verified against; \<open>PmmInit\<close> builds the
  bitmap at boot.
\<close>

section \<open>State\<close>

text \<open>
  \<open>kernel_physical_start\<close> and \<open>kernel_physical_end\<close> are the linker symbols of the kernel
  image; no code writes them.
\<close>

record pmm_state = keyboard_state +
  kmem :: mem
  kernel_physical_start :: u32
  kernel_physical_end :: u32
  pmm_bitmap :: ptr
  pmm_bitmap_bytes :: u32
  pmm_max_page :: u32
  pmm_total_pages :: u32
  pmm_free_pages :: u32

lemma tty_more_pmm:
  "tty_state.more t = tty_state.more s \<Longrightarrow> kmem t = kmem s \<and>
     kernel_physical_start t = kernel_physical_start s \<and> kernel_physical_end t = kernel_physical_end s \<and>
     pmm_bitmap t = pmm_bitmap s \<and> pmm_bitmap_bytes t = pmm_bitmap_bytes s \<and>
     pmm_max_page t = pmm_max_page s \<and> pmm_total_pages t = pmm_total_pages s \<and>
     pmm_free_pages t = pmm_free_pages s \<and> pmm_state.more t = pmm_state.more s"
  by (cases s; cases t) simp

lemma printk_pmm [simp]:
  "kmem (snd (printk format args s)) = kmem s"
  "kernel_physical_start (snd (printk format args s)) = kernel_physical_start s"
  "kernel_physical_end (snd (printk format args s)) = kernel_physical_end s"
  "pmm_bitmap (snd (printk format args s)) = pmm_bitmap s"
  "pmm_bitmap_bytes (snd (printk format args s)) = pmm_bitmap_bytes s"
  "pmm_max_page (snd (printk format args s)) = pmm_max_page s"
  "pmm_total_pages (snd (printk format args s)) = pmm_total_pages s"
  "pmm_free_pages (snd (printk format args s)) = pmm_free_pages s"
  "pmm_state.more (snd (printk format args s)) = pmm_state.more s"
  using tty_more_pmm [OF printk_more, of format args s] by simp_all

definition PMM_PAGE_SHIFT :: nat where "PMM_PAGE_SHIFT = 12"
definition PMM_PAGE_SIZE :: u32 where "PMM_PAGE_SIZE = push_bit PMM_PAGE_SHIFT 1"

lemma PMM_PAGE_SIZE_eq: "PMM_PAGE_SIZE = 4096"
  by (simp add: PMM_PAGE_SIZE_def PMM_PAGE_SHIFT_def)

section \<open>The bitmap\<close>

definition bitmap_set :: "u32 \<Rightarrow> 'a pmm_state_scheme \<Rightarrow> 'a pmm_state_scheme" where
  "bitmap_set page s =
     (let a = pmm_bitmap s + page div 8
      in s\<lparr>kmem := (kmem s)(a := ucast (ucast (kmem s a) OR push_bit (unat (page mod 8)) (1 :: u32)))\<rparr>)"

definition bitmap_clear :: "u32 \<Rightarrow> 'a pmm_state_scheme \<Rightarrow> 'a pmm_state_scheme" where
  "bitmap_clear page s =
     (let a = pmm_bitmap s + page div 8
      in s\<lparr>kmem := (kmem s)(a :=
            ucast (ucast (kmem s a) AND NOT (push_bit (unat (page mod 8)) (1 :: u32))))\<rparr>)"

definition bitmap_test :: "u32 \<Rightarrow> 'a pmm_state_scheme \<Rightarrow> u8" where
  "bitmap_test page s =
     ucast (ucast (kmem s (pmm_bitmap s + page div 8)) AND push_bit (unat (page mod 8)) (1 :: u32))"

section \<open>Reservation, allocation, release\<close>

definition reserve_page :: "u32 \<Rightarrow> 'a pmm_state_scheme \<Rightarrow> 'a pmm_state_scheme" where
  "reserve_page page s =
     (if page \<ge> pmm_max_page s then s
      else if bitmap_test page s = 0 then
        let s = bitmap_set page s
        in if pmm_free_pages s > 0 then s\<lparr>pmm_free_pages := pmm_free_pages s - 1\<rparr> else s
      else s)"

definition reserve_segment :: "u32 \<Rightarrow> u32 \<Rightarrow> 'a pmm_state_scheme \<Rightarrow> 'a pmm_state_scheme" where
  "reserve_segment start_addr end_addr s =
     (let start_page = drop_bit PMM_PAGE_SHIFT start_addr;
          end_page = drop_bit PMM_PAGE_SHIFT (end_addr + PMM_PAGE_SIZE - 1)
      in for_u32 start_page end_page reserve_page s)"

definition pmm_alloc_page :: "'a pmm_state_scheme \<Rightarrow> u32 \<times> 'a pmm_state_scheme" where
  "pmm_alloc_page s =
     (case first_u32 1 (pmm_max_page s) (\<lambda>i. bitmap_test i s = 0) of
        None \<Rightarrow> (0, s)
      | Some i \<Rightarrow>
          let s = bitmap_set i s;
              s = (if pmm_free_pages s > 0 then s\<lparr>pmm_free_pages := pmm_free_pages s - 1\<rparr> else s)
          in (push_bit PMM_PAGE_SHIFT i, s))"

definition pmm_free_page :: "u32 \<Rightarrow> 'a pmm_state_scheme \<Rightarrow> 'a pmm_state_scheme" where
  "pmm_free_page addr s =
     (let page = drop_bit PMM_PAGE_SHIFT addr
      in if page \<noteq> 0 \<and> page < pmm_max_page s \<and> bitmap_test page s \<noteq> 0
         then let s = bitmap_clear page s
              in s\<lparr>pmm_free_pages := pmm_free_pages s + 1\<rparr>
         else s)"

definition pmm_get_total_pages :: "'a pmm_state_scheme \<Rightarrow> u32" where
  "pmm_get_total_pages s = pmm_total_pages s"

definition pmm_get_free_pages :: "'a pmm_state_scheme \<Rightarrow> u32" where
  "pmm_get_free_pages s = pmm_free_pages s"

section \<open>Reading the bitmap\<close>

definition page_used :: "'a pmm_state_scheme \<Rightarrow> u32 \<Rightarrow> bool" where
  "page_used s p \<longleftrightarrow> bit (kmem s (pmm_bitmap s + p div 8)) (unat (p mod 8))"

definition free_pages :: "'a pmm_state_scheme \<Rightarrow> u32 set" where
  "free_pages s = {p. p < pmm_max_page s \<and> \<not> page_used s p}"

lemma unat_mod_8: "unat (p mod 8) = unat p mod 8" for p :: u32
  by (simp add: unat_mod)

lemma mod_8_less: "unat (p mod 8) < 8" for p :: u32
  by (simp add: unat_mod_8)

lemma page_eq_iff: "p = q \<longleftrightarrow> p div 8 = q div 8 \<and> unat (p mod 8) = unat (q mod 8)" for p q :: u32
  by (metis div_mult_mod_eq word_unat_eq_iff)

lemma bitmap_test_iff: "bitmap_test p s \<noteq> 0 \<longleftrightarrow> page_used s p"
proof -
  let ?b = "kmem s (pmm_bitmap s + p div 8)" and ?k = "unat (p mod 8)"
  have "bit (bitmap_test p s) n \<longleftrightarrow> n = ?k \<and> bit ?b ?k" for n
    using mod_8_less [of p]
    by (auto simp: bitmap_test_def bit_simps push_bit_eq_mult)
  then show ?thesis
    unfolding page_used_def by (metis bit_eq_iff bit_0_eq bot_apply bot_bool_def zero_word_def)
qed

lemma byte_set:
  "k < 8 \<Longrightarrow> j < 8 \<Longrightarrow> bit (ucast (ucast b OR (2 ^ k :: u32)) :: u8) j \<longleftrightarrow> j = k \<or> bit b j"
  for b :: u8
  by (auto simp: bit_simps)

lemma byte_clear:
  "k < 8 \<Longrightarrow> j < 8 \<Longrightarrow>
     bit (ucast (ucast b AND NOT ((2 ^ k :: u32))) :: u8) j \<longleftrightarrow> j \<noteq> k \<and> bit b j"
  for b :: u8
  by (auto simp: bit_simps)

lemma page_used_set: "page_used (bitmap_set p s) q \<longleftrightarrow> q = p \<or> page_used s q"
  using page_eq_iff [of q p]
  by (auto simp: page_used_def bitmap_set_def Let_def byte_set mod_8_less)

lemma page_used_clear: "page_used (bitmap_clear p s) q \<longleftrightarrow> q \<noteq> p \<and> page_used s q"
  using page_eq_iff [of q p]
  by (auto simp: page_used_def bitmap_clear_def Let_def byte_clear mod_8_less)

lemma page_used_counter [simp]: "page_used (s\<lparr>pmm_free_pages := n\<rparr>) = page_used s"
  by (simp add: page_used_def fun_eq_iff)

lemma bitmap_fields [simp]:
  "pmm_max_page (bitmap_set p s) = pmm_max_page s"
  "pmm_free_pages (bitmap_set p s) = pmm_free_pages s"
  "pmm_bitmap (bitmap_set p s) = pmm_bitmap s"
  "pmm_max_page (bitmap_clear p s) = pmm_max_page s"
  "pmm_free_pages (bitmap_clear p s) = pmm_free_pages s"
  "pmm_bitmap (bitmap_clear p s) = pmm_bitmap s"
  by (simp_all add: bitmap_set_def bitmap_clear_def Let_def)

lemma finite_free_pages [simp]: "finite (free_pages s)"
  by (rule finite_subset [OF subset_UNIV]) simp

lemma free_pages_set: "free_pages (bitmap_set p s) = free_pages s - {p}"
  by (auto simp: free_pages_def page_used_set)

lemma free_pages_clear:
  "p < pmm_max_page s \<Longrightarrow> free_pages (bitmap_clear p s) = insert p (free_pages s)"
  by (auto simp: free_pages_def page_used_clear)

lemma free_pages_counter [simp]: "free_pages (s\<lparr>pmm_free_pages := n\<rparr>) = free_pages s"
  by (simp add: free_pages_def)

text \<open>The bytes the allocator owns; nothing else in memory changes.\<close>

definition in_bitmap :: "'a pmm_state_scheme \<Rightarrow> u32 \<Rightarrow> bool" where
  "in_bitmap s x \<longleftrightarrow> x - pmm_bitmap s \<le> (pmm_max_page s - 1) div 8"

lemma in_bitmap_page:
  "p < pmm_max_page s \<Longrightarrow> in_bitmap s (pmm_bitmap s + p div 8)"
proof -
  assume "p < pmm_max_page s"
  then have "unat p \<le> unat (pmm_max_page s - 1)"
    by (cases "pmm_max_page s = 0") (simp_all add: word_less_nat_alt unat_minus_one)
  then show ?thesis
    by (simp add: in_bitmap_def word_le_nat_alt unat_div div_le_mono)
qed

lemma kmem_bitmap_set: "p < pmm_max_page s \<Longrightarrow> \<not> in_bitmap s x \<Longrightarrow> kmem (bitmap_set p s) x = kmem s x"
  using in_bitmap_page [of p s] by (auto simp: bitmap_set_def Let_def)

lemma kmem_bitmap_clear: "p < pmm_max_page s \<Longrightarrow> \<not> in_bitmap s x \<Longrightarrow> kmem (bitmap_clear p s) x = kmem s x"
  using in_bitmap_page [of p s] by (auto simp: bitmap_clear_def Let_def)

section \<open>The invariant\<close>

text \<open>
  Frame numbers fit 20 bits (at most 4 GiB of memory), frame 0 is never free, and the counter is
  the number of free frames.
\<close>

definition pmm_ok :: "'a pmm_state_scheme \<Rightarrow> bool" where
  "pmm_ok s \<longleftrightarrow> pmm_max_page s \<le> 0x100000 \<and> page_used s 0 \<and>
     unat (pmm_free_pages s) = card (free_pages s)"

lemma unat_push_12: "p < 0x100000 \<Longrightarrow> unat (push_bit 12 p) = 4096 * unat p" for p :: u32
  by (simp add: push_bit_eq_mult unat_word_ariths word_less_nat_alt)

lemma frame_push: "p < 0x100000 \<Longrightarrow> frame (push_bit 12 p) = p"
  by (simp add: word_unat_eq_iff unat_frame unat_push_12)

lemma page_aligned_push [simp]: "page_aligned (push_bit 12 p)"
  unfolding page_aligned_def
  by (rule bit_word_eqI) (auto simp: bit_simps)

text \<open>Taking one free frame out of the bitmap, as allocation and reservation do.\<close>

definition take_page :: "u32 \<Rightarrow> 'a pmm_state_scheme \<Rightarrow> 'a pmm_state_scheme" where
  "take_page p s =
     (let s = bitmap_set p s
      in if pmm_free_pages s > 0 then s\<lparr>pmm_free_pages := pmm_free_pages s - 1\<rparr> else s)"

lemma take_page_fields [simp]:
  "pmm_max_page (take_page p s) = pmm_max_page s" "pmm_bitmap (take_page p s) = pmm_bitmap s"
  "in_bitmap (take_page p s) = in_bitmap s"
  by (simp_all add: take_page_def Let_def in_bitmap_def fun_eq_iff)

lemma take_page_frees: "free_pages (take_page p s) = free_pages s - {p}"
  by (simp add: take_page_def Let_def free_pages_set)

lemma take_page_kmem:
  "p < pmm_max_page s \<Longrightarrow> \<not> in_bitmap s x \<Longrightarrow> kmem (take_page p s) x = kmem s x"
  by (simp add: take_page_def Let_def kmem_bitmap_set)

lemma take_page_used: "page_used (take_page p s) q \<longleftrightarrow> q = p \<or> page_used s q"
  by (simp add: take_page_def Let_def page_used_set)

lemma take_page_count:
  assumes "unat (pmm_free_pages s) = card (free_pages s)" "p \<in> free_pages s"
  shows "unat (pmm_free_pages (take_page p s)) = card (free_pages (take_page p s))"
proof -
  have "card (free_pages s) > 0" using assms(2) by (auto simp: card_gt_0_iff)
  then have "pmm_free_pages s > 0" using assms(1) by (simp add: word_less_nat_alt)
  then show ?thesis
    using assms by (simp add: take_page_def Let_def free_pages_set unat_minus_one word_gt_0)
qed

lemma take_page_ok: "pmm_ok s \<Longrightarrow> p \<in> free_pages s \<Longrightarrow> pmm_ok (take_page p s)"
  by (simp add: pmm_ok_def take_page_used take_page_count)

lemma pmm_alloc_page_eq:
  "pmm_alloc_page s = (case first_u32 1 (pmm_max_page s) (\<lambda>i. \<not> page_used s i) of
     None \<Rightarrow> (0, s) | Some i \<Rightarrow> (push_bit 12 i, take_page i s))"
proof -
  have "(\<lambda>i. bitmap_test i s = 0) = (\<lambda>i. \<not> page_used s i)"
    using bitmap_test_iff [of _ s] by auto
  then show ?thesis
    by (simp add: pmm_alloc_page_def take_page_def PMM_PAGE_SHIFT_def Let_def split: option.splits)
qed

lemma ge_1_iff: "1 \<le> p \<longleftrightarrow> p \<noteq> 0" for p :: u32
  using unat_gt_0 [of p] by (auto simp: word_le_nat_alt simp del: unat_gt_0)

section \<open>The allocator interface\<close>

text \<open>
  What the rest of the kernel relies on: \<open>alloc\<close> returns 0 or the address of a frame that was
  free, \<open>release\<close> makes an allocated frame free again, and neither touches memory the
  allocator does not own.
\<close>

locale page_allocator =
  fixes alloc :: "'s \<Rightarrow> u32 \<times> 's"
    and release :: "u32 \<Rightarrow> 's \<Rightarrow> 's"
    and frees :: "'s \<Rightarrow> u32 set"
    and frames :: "'s \<Rightarrow> u32"
    and own :: "'s \<Rightarrow> u32 \<Rightarrow> bool"
    and memory :: "'s \<Rightarrow> mem"
    and invar :: "'s \<Rightarrow> bool"
  assumes alloc_empty: "invar s \<Longrightarrow> frees s = {} \<Longrightarrow> alloc s = (0, s)"
    and alloc_frame: "invar s \<Longrightarrow> frees s \<noteq> {} \<Longrightarrow> alloc s = (a, t) \<Longrightarrow>
      a \<noteq> 0 \<and> page_aligned a \<and> frame a \<in> frees s \<and> frees t = frees s - {frame a}"
    and release_frame: "invar s \<Longrightarrow> page_aligned a \<Longrightarrow> a \<noteq> 0 \<Longrightarrow> frame a < frames s \<Longrightarrow>
      frees (release a s) = insert (frame a) (frees s)"
    and invar_alloc: "invar s \<Longrightarrow> alloc s = (a, t) \<Longrightarrow> invar t"
    and invar_release: "invar s \<Longrightarrow> invar (release a s)"
    and frees_less: "invar s \<Longrightarrow> p \<in> frees s \<Longrightarrow> p < frames s"
    and frames_alloc: "alloc s = (a, t) \<Longrightarrow> frames t = frames s \<and> own t = own s"
    and frames_release: "frames (release a s) = frames s \<and> own (release a s) = own s"
    and memory_alloc: "alloc s = (a, t) \<Longrightarrow> \<not> own s x \<Longrightarrow> memory t x = memory s x"
    and memory_release: "\<not> own s x \<Longrightarrow> memory (release a s) x = memory s x"
begin

lemma alloc_zero_iff: "invar s \<Longrightarrow> alloc s = (a, t) \<Longrightarrow> a = 0 \<longleftrightarrow> frees s = {}"
  using alloc_empty [of s] alloc_frame [of s a t] by auto

text \<open>A run of successful allocations.\<close>

fun alloc_run :: "nat \<Rightarrow> 's \<Rightarrow> u32 list \<times> 's" where
  "alloc_run 0 s = ([], s)"
| "alloc_run (Suc n) s =
     (let (a, t) = alloc s in
      if a = 0 then ([], t) else let (as, t') = alloc_run n t in (a # as, t'))"

lemma alloc_run_distinct:
  "invar s \<Longrightarrow> alloc_run n s = (as, t) \<Longrightarrow>
     invar t \<and> distinct (map frame as) \<and> frame ` set as \<subseteq> frees s \<and>
     frees t = frees s - frame ` set as \<and> (\<forall>x. \<not> own s x \<longrightarrow> memory t x = memory s x)"
proof (induction n arbitrary: s as t)
  case (Suc n)
  obtain a s' where a: "alloc s = (a, s')" by (cases "alloc s")
  show ?case
  proof (cases "a = 0")
    case True
    then show ?thesis
      using Suc.prems a alloc_zero_iff [of s a s'] alloc_empty [of s] by auto
  next
    case False
    obtain bs where bs: "alloc_run n s' = (bs, t)" "as = a # bs"
      using Suc.prems(2) a False by (auto split: prod.splits)
    have f: "frame a \<in> frees s" "frees s' = frees s - {frame a}"
      using alloc_frame [of s a s'] alloc_zero_iff [of s a s'] Suc.prems(1) a False by auto
    have "invar s'" "own s' = own s" using a Suc.prems(1) invar_alloc frames_alloc by blast+
    then show ?thesis
      using Suc.IH [OF _ bs(1)] f bs(2) memory_alloc [OF a] by fastforce
  qed
qed simp

lemma alloc_run_length:
  "invar s \<Longrightarrow> alloc_run n s = (as, t) \<Longrightarrow> finite (frees s) \<Longrightarrow> length as = min n (card (frees s))"
proof (induction n arbitrary: s as t)
  case (Suc n)
  obtain a s' where a: "alloc s = (a, s')" by (cases "alloc s")
  show ?case
  proof (cases "a = 0")
    case True
    then show ?thesis
      using Suc.prems a alloc_zero_iff [of s a s'] by auto
  next
    case False
    obtain bs where bs: "alloc_run n s' = (bs, t)" "as = a # bs"
      using Suc.prems(2) a False by (auto split: prod.splits)
    have f: "frame a \<in> frees s" "frees s' = frees s - {frame a}"
      using alloc_frame [of s a s'] alloc_zero_iff [of s a s'] Suc.prems(1) a False by auto
    have "length bs = min n (card (frees s'))"
      using Suc.IH [OF _ bs(1)] invar_alloc [OF Suc.prems(1) a] f Suc.prems(3) by simp
    moreover have "card (frees s) = Suc (card (frees s'))"
      using f Suc.prems(3) by (metis card.remove)
    ultimately show ?thesis using bs by simp
  qed
qed simp

lemma release_after_alloc:
  assumes "invar s" "alloc s = (a, t)" "a \<noteq> 0"
  shows "frees (release a t) = frees s"
proof -
  have *: "a \<noteq> 0 \<and> page_aligned a \<and> frame a \<in> frees s \<and> frees t = frees s - {frame a}"
    using assms alloc_frame [of s a t] alloc_zero_iff [of s a t] by auto
  moreover have "frame a < frames t"
    using frees_less [OF assms(1), of "frame a"] frames_alloc [OF assms(2)] * by simp
  ultimately show ?thesis
    using release_frame [of t a] invar_alloc [OF assms(1,2)] by auto
qed

end

lemma alloc_Some:
  assumes "pmm_ok s" "first_u32 1 (pmm_max_page s) (\<lambda>i. \<not> page_used s i) = Some i"
  shows "i \<in> free_pages s" "i \<noteq> 0" "i < 0x100000" "\<And>j. j \<in> free_pages s \<Longrightarrow> i \<le> j"
proof -
  have *: "1 \<le> i" "i < pmm_max_page s" "\<not> page_used s i"
      "\<And>k. 1 \<le> k \<Longrightarrow> k < i \<Longrightarrow> page_used s k"
    using first_u32_SomeD [OF assms(2)] by auto
  then show "i \<in> free_pages s" "i \<noteq> 0" by (auto simp: free_pages_def ge_1_iff)
  show "i < 0x100000" using assms(1) * by (auto simp: pmm_ok_def)
  show "i \<le> j" if "j \<in> free_pages s" for j
    using that assms(1) * by (cases "j = 0") (auto simp: free_pages_def pmm_ok_def ge_1_iff not_less [symmetric])
qed

lemma alloc_None:
  assumes "pmm_ok s" "first_u32 1 (pmm_max_page s) (\<lambda>i. \<not> page_used s i) = None"
  shows "free_pages s = {}"
proof -
  have "page_used s p" if "p < pmm_max_page s" for p
    using first_u32_NoneD [OF assms(2), of p] assms(1) that
    by (cases "p = 0") (auto simp: pmm_ok_def ge_1_iff)
  then show ?thesis by (auto simp: free_pages_def)
qed

lemma pmm_alloc_page_cases:
  assumes "pmm_ok s"
  obtains (empty) "free_pages s = {}" "pmm_alloc_page s = (0, s)"
    | (found) i where "i \<in> free_pages s" "i \<noteq> 0" "i < 0x100000" "\<And>j. j \<in> free_pages s \<Longrightarrow> i \<le> j"
        "pmm_alloc_page s = (push_bit 12 i, take_page i s)"
  using alloc_None [OF assms] alloc_Some [OF assms]
  by (cases "first_u32 1 (pmm_max_page s) (\<lambda>i. \<not> page_used s i)")
    (auto simp: pmm_alloc_page_eq)

lemma pmm_free_page_eq:
  "pmm_free_page a s =
     (if frame a \<noteq> 0 \<and> frame a < pmm_max_page s \<and> page_used s (frame a)
      then (bitmap_clear (frame a) s)\<lparr>pmm_free_pages := pmm_free_pages s + 1\<rparr> else s)"
  using bitmap_test_iff [of "frame a" s]
  by (simp add: pmm_free_page_def PMM_PAGE_SHIFT_def frame_def [symmetric] Let_def)

lemma card_free_bound: "pmm_ok s \<Longrightarrow> card (free_pages s) \<le> 0x100000"
proof -
  assume "pmm_ok s"
  then have "free_pages s \<subseteq> {..<0x100000}"
    by (auto simp: free_pages_def pmm_ok_def)
  then have "card (free_pages s) \<le> card {..<(0x100000 :: u32)}"
    by (intro card_mono) simp_all
  also have "\<dots> = unat (0x100000 :: u32)" by (rule card_less_u32)
  finally show ?thesis by simp
qed

lemma pmm_free_page_ok: "pmm_ok s \<Longrightarrow> pmm_ok (pmm_free_page a s)"
proof (cases "frame a \<noteq> 0 \<and> frame a < pmm_max_page s \<and> page_used s (frame a)")
  case True
  assume ok: "pmm_ok s"
  have "frame a \<notin> free_pages s" using True by (simp add: free_pages_def)
  moreover have "unat (pmm_free_pages s + 1) = unat (pmm_free_pages s) + 1"
    using ok card_free_bound [OF ok] by (simp add: pmm_ok_def unat_word_ariths)
  ultimately show ?thesis
    using True ok by (simp add: pmm_free_page_eq pmm_ok_def free_pages_clear page_used_clear)
next
  case False
  assume "pmm_ok s"
  then show ?thesis unfolding pmm_free_page_eq using False by auto
qed

interpretation pmm: page_allocator pmm_alloc_page pmm_free_page free_pages pmm_max_page in_bitmap
  kmem pmm_ok
proof unfold_locales
  fix s t :: "'a pmm_state_scheme" and a p x :: u32
  show "pmm_alloc_page s = (0, s)" if "pmm_ok s" "free_pages s = {}"
    using that by (cases rule: pmm_alloc_page_cases [OF that(1)]) auto
  show "a \<noteq> 0 \<and> page_aligned a \<and> frame a \<in> free_pages s \<and> free_pages t = free_pages s - {frame a}"
    if "pmm_ok s" "free_pages s \<noteq> {}" "pmm_alloc_page s = (a, t)"
    using that
  proof (cases rule: pmm_alloc_page_cases [OF that(1)])
    case (2 i)
    then show ?thesis using that frame_push [of i] by (auto simp: take_page_frees frame_def)
  qed auto
  show "pmm_ok t" if "pmm_ok s" "pmm_alloc_page s = (a, t)"
    using that by (cases rule: pmm_alloc_page_cases [OF that(1)]) (auto simp: take_page_ok)
  show "pmm_max_page t = pmm_max_page s \<and> in_bitmap t = in_bitmap s" if "pmm_alloc_page s = (a, t)"
    using that by (auto simp: pmm_alloc_page_eq split: option.splits)
  show "kmem t x = kmem s x" if "pmm_alloc_page s = (a, t)" "\<not> in_bitmap s x"
    using that by (auto simp: pmm_alloc_page_eq take_page_kmem dest: first_u32_SomeD split: option.splits)
  show "free_pages (pmm_free_page a s) = insert (frame a) (free_pages s)"
    if "pmm_ok s" "page_aligned a" "a \<noteq> 0" "frame a < pmm_max_page s"
    using that page_aligned_frame [of a]
    by (auto simp: pmm_free_page_eq page_used_clear free_pages_def)
  show "p < pmm_max_page s" if "p \<in> free_pages s"
    using that by (simp add: free_pages_def)
  show "pmm_max_page (pmm_free_page a s) = pmm_max_page s \<and> in_bitmap (pmm_free_page a s) = in_bitmap s"
    by (auto simp: pmm_free_page_eq in_bitmap_def fun_eq_iff)
  show "kmem (pmm_free_page a s) x = kmem s x" if "\<not> in_bitmap s x"
    using that by (simp add: pmm_free_page_eq kmem_bitmap_clear)
qed (simp add: pmm_free_page_ok)

lemma bit_255: "k < 8 \<Longrightarrow> bit (255 :: u8) k"
proof -
  have "bit (mask 8 :: u8) k" if "k < 8" using that by (simp add: bit_mask_iff)
  then show "k < 8 \<Longrightarrow> ?thesis" by (simp add: mask_eq_exp_minus_1)
qed

section \<open>Reserving a segment\<close>

lemma reserve_page_eq:
  "reserve_page p s = (if p \<in> free_pages s then take_page p s else s)"
  using bitmap_test_iff [of p s]
  by (auto simp: reserve_page_def take_page_def free_pages_def Let_def)

lemma reserve_page_frees: "free_pages (reserve_page p s) = free_pages s - {p}"
  by (simp add: reserve_page_eq take_page_frees)

lemma reserve_page_count:
  "unat (pmm_free_pages s) = card (free_pages s) \<Longrightarrow>
     unat (pmm_free_pages (reserve_page p s)) = card (free_pages (reserve_page p s))"
  by (simp add: reserve_page_eq take_page_count)

lemma reserve_page_fields [simp]:
  "pmm_max_page (reserve_page p s) = pmm_max_page s" "pmm_bitmap (reserve_page p s) = pmm_bitmap s"
  "in_bitmap (reserve_page p s) = in_bitmap s"
  by (simp_all add: reserve_page_eq)

lemma reserve_page_kmem: "\<not> in_bitmap s x \<Longrightarrow> kmem (reserve_page p s) x = kmem s x"
  by (simp add: reserve_page_eq take_page_kmem free_pages_def)

lemma reserve_loop:
  "free_pages (for_u32 i n reserve_page s) = free_pages s - {i..<n} \<and>
    pmm_max_page (for_u32 i n reserve_page s) = pmm_max_page s \<and>
    in_bitmap (for_u32 i n reserve_page s) = in_bitmap s \<and>
    (\<forall>x. \<not> in_bitmap s x \<longrightarrow> kmem (for_u32 i n reserve_page s) x = kmem s x) \<and>
    (unat (pmm_free_pages s) = card (free_pages s) \<longrightarrow>
      unat (pmm_free_pages (for_u32 i n reserve_page s)) =
      card (free_pages (for_u32 i n reserve_page s)))"
proof -
  let ?P = "\<lambda>k t. free_pages t = free_pages s - {i..<k} \<and> pmm_max_page t = pmm_max_page s \<and>
    in_bitmap t = in_bitmap s \<and> (\<forall>x. \<not> in_bitmap s x \<longrightarrow> kmem t x = kmem s x) \<and>
    (unat (pmm_free_pages s) = card (free_pages s) \<longrightarrow> unat (pmm_free_pages t) = card (free_pages t))"
  have "?P n (for_u32 i n reserve_page s)" if "i \<le> n"
  proof (rule for_u32_invariant [where P = ?P])
    fix k t assume k: "i \<le> k" "k < n" "?P k t"
    have "{i..<k + 1} = insert k {i..<k}"
      using k by (auto simp: less_inc)
    with k show "?P (k + 1) (reserve_page k t)"
      by (auto simp: reserve_page_frees reserve_page_count reserve_page_kmem)
  qed (use that in auto)
  then show ?thesis by (cases "i \<le> n") auto
qed

text \<open>The frames a byte range touches.\<close>

definition frames_of :: "u32 \<Rightarrow> u32 \<Rightarrow> u32 set" where
  "frames_of a b = {p. unat a div 4096 \<le> unat p \<and> 4096 * unat p < unat b}"

lemma segment_frames:
  assumes "unat b \<le> 4294963200"
  shows "{drop_bit 12 a..<drop_bit 12 (b + 4096 - 1)} = frames_of a b"
proof -
  have "unat (b + 4096 - 1) = unat b + 4095"
    using assms by (simp add: unat_word_ariths)
  then have "unat (drop_bit 12 (b + 4096 - 1)) = (unat b + 4095) div 4096"
    using unat_frame [of "b + 4096 - 1"] by (simp add: frame_def)
  moreover have "unat (drop_bit 12 a) = unat a div 4096"
    using unat_frame [of a] by (simp add: frame_def)
  ultimately show ?thesis
    by (auto simp: frames_of_def word_le_nat_alt word_less_nat_alt)
qed

lemma reserve_segment_spec:
  assumes "unat b \<le> 4294963200"
  shows "free_pages (reserve_segment a b s) = free_pages s - frames_of a b"
    and "pmm_max_page (reserve_segment a b s) = pmm_max_page s"
    and "in_bitmap (reserve_segment a b s) = in_bitmap s"
    and "\<not> in_bitmap s x \<Longrightarrow> kmem (reserve_segment a b s) x = kmem s x"
    and "unat (pmm_free_pages s) = card (free_pages s) \<Longrightarrow>
      unat (pmm_free_pages (reserve_segment a b s)) = card (free_pages (reserve_segment a b s))"
  using reserve_loop [of "drop_bit 12 a" "drop_bit 12 (b + 4096 - 1)" s]
    segment_frames [OF assms, of a]
  by (simp_all add: reserve_segment_def PMM_PAGE_SHIFT_def PMM_PAGE_SIZE_eq Let_def)

section \<open>Properties\<close>

text \<open>
  C22: a run of allocations returns one distinct, page-aligned, non-zero address after the other
  until the free frames are used up, each of a frame that was free; the free counter drops by
  the number of pages handed out and no byte outside the bitmap changes.
\<close>

theorem pmm_alloc_run:
  assumes "pmm_ok s" "pmm.alloc_run n s = (as, t)"
  shows "length as = min n (unat (pmm_get_free_pages s)) \<and> distinct (map frame as) \<and>
    frame ` set as \<subseteq> free_pages s \<and> free_pages t = free_pages s - frame ` set as \<and> pmm_ok t \<and>
    (\<forall>x. \<not> in_bitmap s x \<longrightarrow> kmem t x = kmem s x)"
  using pmm.alloc_run_distinct [OF assms] pmm.alloc_run_length [OF assms] assms(1)
  by (simp add: pmm_get_free_pages_def pmm_ok_def)

text \<open>
  Allocation is first fit: it takes the lowest free frame, marks exactly that frame used
  and returns its address, and it returns 0 exactly when no frame is free.
\<close>

theorem pmm_alloc_page_first_fit:
  assumes "pmm_ok s" "pmm_alloc_page s = (a, t)"
  shows "if free_pages s = {} then a = 0 \<and> t = s
    else a = push_bit 12 (Min (free_pages s)) \<and> a \<noteq> 0 \<and> frame a = Min (free_pages s) \<and>
      pmm_ok t \<and> (\<forall>p. page_used t p \<longleftrightarrow> p = frame a \<or> page_used s p)"
  using assms(1)
proof (cases rule: pmm_alloc_page_cases)
  case empty
  then show ?thesis using assms by simp
next
  case (found i)
  then have "Min (free_pages s) = i" by (intro Min_eqI) auto
  moreover have "push_bit 12 i \<noteq> 0"
    using found(2,3) by (auto simp: word_unat_eq_iff unat_push_12)
  ultimately show ?thesis
    using found assms by (auto simp: take_page_ok take_page_used frame_push)
qed

text \<open>
  Releasing a page that was just allocated restores the set of free frames; releasing it a
  second time, or releasing address 0 or an address beyond the last frame, does nothing.
\<close>

theorem pmm_free_page_restores:
  assumes "pmm_ok s" "pmm_alloc_page s = (a, t)"
  shows "(a \<noteq> 0 \<longrightarrow> free_pages (pmm_free_page a t) = free_pages s) \<and> pmm_ok (pmm_free_page b t) \<and>
    pmm_free_page b (pmm_free_page b t) = pmm_free_page b t \<and> pmm_free_page 0 t = t \<and>
    (pmm_max_page s \<le> frame b \<longrightarrow> pmm_free_page b t = t)"
proof -
  have t: "pmm_ok t" "pmm_max_page t = pmm_max_page s"
    using assms pmm.invar_alloc pmm.frames_alloc by blast+
  have "pmm_free_page b (pmm_free_page b t) = pmm_free_page b t"
    by (auto simp: pmm_free_page_eq page_used_clear)
  then show ?thesis
    using pmm.release_after_alloc [OF assms] pmm_free_page_ok [OF t(1)] t
    by (auto simp: pmm_free_page_eq frame_def)
qed

text \<open>
  \<open>reserve_segment\<close> takes exactly the frames that the byte range touches out of the free
  frames, and keeps the free counter exact.
\<close>

theorem reserve_segment_exact:
  assumes "pmm_ok s" "unat end_addr \<le> 4294963200"
  shows "free_pages (reserve_segment start_addr end_addr s) =
      free_pages s - frames_of start_addr end_addr \<and>
    unat (pmm_free_pages (reserve_segment start_addr end_addr s)) =
      card (free_pages s - frames_of start_addr end_addr)"
  using assms reserve_segment_spec [OF assms(2), where a = start_addr and s = s]
  by (simp add: pmm_ok_def)

text \<open>
  C40: the address of a frame is its number shifted left by 12 in 32 bits, so on a machine with
  more than 4 GiB of usable memory \<open>pmm_alloc_page\<close> can return the address of a frame that
  is already in use: the bound \<open>pmm_max_page \<le> 0x100000\<close> of the invariant is needed.
\<close>

theorem pmm_alloc_page_truncates:
  "\<exists>s :: pmm_state. pmm_max_page s = 0x100002 \<and> page_used s 1 \<and> fst (pmm_alloc_page s) = 0x1000"
proof (intro exI conjI)
  let ?s = "\<lparr>terminal_row = 0, terminal_column = 0, terminal_color = 0, terminal_buffer = [],
    io_log = [], keyboard_buffer = [], read_index = 0, write_index = 0,
    kmem = (\<lambda>a. if a = 0x20000 then 1 else 0xFF), kernel_physical_start = 0, kernel_physical_end = 0,
    pmm_bitmap = 0, pmm_bitmap_bytes = 0x20001, pmm_max_page = 0x100002,
    pmm_total_pages = 1, pmm_free_pages = 1\<rparr> :: pmm_state"
  have used: "page_used ?s k" if "k < 0x100001" for k
  proof (cases "k div 8 = 0x20000")
    case True
    then have "unat k div 8 = 0x20000" by (simp add: word_unat_eq_iff unat_div)
    then have "unat k = 0x100000" using that by (simp add: word_less_nat_alt)
    then have "k = 0x100000" by (simp add: word_unat_eq_iff)
    then show ?thesis by (simp add: page_used_def)
  next
    case False
    then show ?thesis using bit_255 [OF mod_8_less [of k]] by (simp add: page_used_def)
  qed
  have "\<not> page_used ?s 0x100001" by (simp add: page_used_def)
  then have "first_u32 1 0x100002 (\<lambda>i. \<not> page_used ?s i) = Some 0x100001"
    using used by (intro first_u32_eqI) simp_all
  then show "fst (pmm_alloc_page ?s) = 0x1000"
    by (simp add: pmm_alloc_page_eq push_bit_eq_mult)
  show "page_used ?s 1" by (rule used) simp
qed simp

section \<open>A small machine\<close>

text \<open>Four frames, the bitmap at the direct-map address of frame 1, frame 0 reserved.\<close>

definition small_pmm :: pmm_state where
  "small_pmm = \<lparr>terminal_row = 0, terminal_column = 0, terminal_color = 0,
    terminal_buffer = replicate 2000 0, io_log = [],
    keyboard_buffer = replicate 32 0, read_index = 0, write_index = 0,
    kmem = (\<lambda>a. if a = 0xC0008000 then 1 else 0),
    kernel_physical_start = 0x100000, kernel_physical_end = 0x110000,
    pmm_bitmap = 0xC0008000, pmm_bitmap_bytes = 1, pmm_max_page = 4,
    pmm_total_pages = 3, pmm_free_pages = 3\<rparr>"

lemma less_4: "p < 4 \<longleftrightarrow> p = 0 \<or> p = 1 \<or> p = 2 \<or> p = 3" for p :: u32
  by (auto simp: word_less_nat_alt word_unat_eq_iff)

lemma small_pmm_used: "page_used small_pmm 0" "\<not> page_used small_pmm 1" "\<not> page_used small_pmm 2"
  "\<not> page_used small_pmm 3"
  by (simp_all add: small_pmm_def page_used_def)

lemma small_pmm_free: "free_pages small_pmm = {1, 2, 3}"
proof -
  have "pmm_max_page small_pmm = 4" by (simp add: small_pmm_def)
  then show ?thesis
    using small_pmm_used by (auto simp: free_pages_def less_4)
qed

lemma small_pmm_ok: "pmm_ok small_pmm"
  by (simp add: pmm_ok_def small_pmm_free small_pmm_used) (simp add: small_pmm_def)

theorem pmm_alloc_run_witness:
  "length (fst (pmm.alloc_run 5 small_pmm)) = 3 \<and>
   distinct (map frame (fst (pmm.alloc_run 5 small_pmm)))"
  using pmm_alloc_run [OF small_pmm_ok, of 5 "fst (pmm.alloc_run 5 small_pmm)"
      "snd (pmm.alloc_run 5 small_pmm)"]
  by (simp add: pmm_get_free_pages_def small_pmm_def)

theorem pmm_alloc_page_first_fit_witness:
  "fst (pmm_alloc_page small_pmm) = 0x1000 \<and> page_used (snd (pmm_alloc_page small_pmm)) 1"
  using pmm_alloc_page_first_fit [OF small_pmm_ok, of "fst (pmm_alloc_page small_pmm)"
      "snd (pmm_alloc_page small_pmm)"]
  by (simp add: small_pmm_free push_bit_eq_mult frame_def)

theorem pmm_free_page_restores_witness:
  "free_pages (pmm_free_page (fst (pmm_alloc_page small_pmm)) (snd (pmm_alloc_page small_pmm)))
     = {1, 2, 3}"
  using pmm_free_page_restores [OF small_pmm_ok, of "fst (pmm_alloc_page small_pmm)"
      "snd (pmm_alloc_page small_pmm)"]
    pmm.alloc_zero_iff [OF small_pmm_ok, of "fst (pmm_alloc_page small_pmm)"
      "snd (pmm_alloc_page small_pmm)"]
  by (simp add: small_pmm_free)

theorem reserve_segment_exact_witness:
  "free_pages (reserve_segment 0x1800 0x2001 small_pmm) = {3}"
proof -
  have "frames_of 0x1800 0x2001 = {1, 2}"
    by (auto simp: frames_of_def word_unat_eq_iff)
  then show ?thesis
    using reserve_segment_exact [OF small_pmm_ok, of "0x2001" "0x1800"]
    by (simp add: small_pmm_free)
qed

end
