(* ===== verification/DirectMap.thy ===== *)
theory DirectMap
  imports Pmm
begin

text \<open>
  The direct map (\<open>vmm_phys_to_virt\<close>, \<open>vmm_virt_to_phys\<close> of \<open>kernel/mm/vmm.c\<close>): the first
  16 MiB of physical memory appear at \<open>0xC0000000\<close>.  A NULL pointer is 0.
\<close>

definition VMM_KERNEL_VIRTUAL_BASE :: u32 where "VMM_KERNEL_VIRTUAL_BASE = 0xC0000000"
definition VMM_DIRECT_MAP_LIMIT :: u32 where "VMM_DIRECT_MAP_LIMIT = 16 * 1024 * 1024"

lemmas direct_map_consts = VMM_KERNEL_VIRTUAL_BASE_def VMM_DIRECT_MAP_LIMIT_def

definition vmm_phys_to_virt :: "u32 \<Rightarrow> ptr" where
  "vmm_phys_to_virt paddr =
     (if paddr \<ge> VMM_DIRECT_MAP_LIMIT then 0 else VMM_KERNEL_VIRTUAL_BASE + paddr)"

definition vmm_virt_to_phys :: "ptr \<Rightarrow> u32" where
  "vmm_virt_to_phys vaddr =
     (if vaddr < VMM_KERNEL_VIRTUAL_BASE \<or> vaddr \<ge> VMM_KERNEL_VIRTUAL_BASE + VMM_DIRECT_MAP_LIMIT
      then 0 else vaddr - VMM_KERNEL_VIRTUAL_BASE)"

lemma phys_to_virt_unat:
  "vmm_phys_to_virt p \<noteq> 0 \<longleftrightarrow> unat p < 0x1000000"
  "unat p < 0x1000000 \<Longrightarrow> unat (vmm_phys_to_virt p) = 0xC0000000 + unat p"
  by (auto simp: vmm_phys_to_virt_def direct_map_consts word_le_nat_alt word_unat_eq_iff
      unat_word_ariths)

lemma phys_to_virt_eq: "vmm_phys_to_virt p \<noteq> 0 \<Longrightarrow> vmm_phys_to_virt p = 0xC0000000 + p"
  by (auto simp: vmm_phys_to_virt_def direct_map_consts split: if_splits)

lemma page_aligned_virt:
  "vmm_phys_to_virt p \<noteq> 0 \<Longrightarrow> page_aligned (vmm_phys_to_virt p) \<longleftrightarrow> page_aligned p"
  using phys_to_virt_unat [of p] by (simp add: page_aligned_unat mod_add_left_eq [symmetric])

lemma frame_virt:
  "vmm_phys_to_virt p \<noteq> 0 \<Longrightarrow> unat (frame (vmm_phys_to_virt p)) = 0xC0000 + unat (frame p)"
  using phys_to_virt_unat [of p] by (simp add: unat_frame)

section \<open>Properties\<close>

text \<open>
  The two translations are inverse on the 16 MiB of the direct map, and every address
  outside it translates to NULL, respectively 0.
\<close>

theorem direct_map_roundtrip:
  "(paddr < VMM_DIRECT_MAP_LIMIT \<longrightarrow> vmm_phys_to_virt paddr \<noteq> 0 \<and>
      vmm_virt_to_phys (vmm_phys_to_virt paddr) = paddr) \<and>
   (VMM_KERNEL_VIRTUAL_BASE \<le> v \<and> v < VMM_KERNEL_VIRTUAL_BASE + VMM_DIRECT_MAP_LIMIT \<longrightarrow>
      vmm_phys_to_virt (vmm_virt_to_phys v) = v) \<and>
   (\<not> paddr < VMM_DIRECT_MAP_LIMIT \<longrightarrow> vmm_phys_to_virt paddr = 0)"
  using u32_bound [of v] u32_bound [of paddr]
  by (auto simp: vmm_phys_to_virt_def vmm_virt_to_phys_def direct_map_consts word_le_nat_alt
      word_less_nat_alt word_unat_eq_iff unat_word_ariths unat_sub_if_size word_size)

theorem direct_map_roundtrip_witness:
  "vmm_phys_to_virt 0x8000 = 0xC0008000 \<and> vmm_virt_to_phys (vmm_phys_to_virt 0x8000) = 0x8000 \<and>
   vmm_phys_to_virt 0x1000000 = 0"
  using direct_map_roundtrip [of "0x8000" "0xC0008000"]
    direct_map_roundtrip [of "0x1000000" "0xC0008000"]
  by (simp add: vmm_phys_to_virt_def direct_map_consts)

end
