(* ===== verification/Vmm.thy ===== *)
theory Vmm
  imports DirectMap
begin

text \<open>
  Two-level paging (\<open>kernel/mm/vmm.c\<close>, \<open>kernel/arch/i386/paging.c\<close>).  Page directories and
  page tables are arrays of 1024 32-bit entries in frames of physical memory, read and written
  through the direct map.  This theory holds the operations; \<open>VmmProof\<close> shows what they do to
  the translation of each address space.
\<close>

section \<open>State and registers\<close>

text \<open>
  The paging registers are fields; \<open>invlpg\<close> appends the address to \<open>tlb_log\<close>.
\<close>

record vmm_state = pmm_state +
  kernel_page_directory :: u32
  cr0 :: u32
  cr2 :: u32
  cr3 :: u32
  tlb_log :: "u32 list"

definition paging_load_directory :: "u32 \<Rightarrow> 'a vmm_state_scheme \<Rightarrow> 'a vmm_state_scheme" where
  "paging_load_directory pd_paddr s = s\<lparr>cr3 := pd_paddr\<rparr>"

definition paging_enable :: "'a vmm_state_scheme \<Rightarrow> 'a vmm_state_scheme" where
  "paging_enable s = s\<lparr>cr0 := cr0 s OR 0x80000000\<rparr>"

definition paging_fault_addr :: "'a vmm_state_scheme \<Rightarrow> u32" where
  "paging_fault_addr s = cr2 s"

definition paging_tlb_invalidate :: "u32 \<Rightarrow> 'a vmm_state_scheme \<Rightarrow> 'a vmm_state_scheme" where
  "paging_tlb_invalidate vaddr s = s\<lparr>tlb_log := tlb_log s @ [vaddr]\<rparr>"

definition VMM_PAGE_PRESENT :: u32 where "VMM_PAGE_PRESENT = 1"
definition VMM_PAGE_WRITABLE :: u32 where "VMM_PAGE_WRITABLE = 2"
definition VMM_PAGE_USER :: u32 where "VMM_PAGE_USER = 4"

lemmas page_flags = VMM_PAGE_PRESENT_def VMM_PAGE_WRITABLE_def VMM_PAGE_USER_def

definition PAGE_TABLE_SPAN :: u32 where "PAGE_TABLE_SPAN = 1024 * PMM_PAGE_SIZE"

definition VMM_PDE_INDEX :: "u32 \<Rightarrow> u32" where
  "VMM_PDE_INDEX vaddr = drop_bit 22 vaddr AND 0x3ff"

definition VMM_PTE_INDEX :: "u32 \<Rightarrow> u32" where
  "VMM_PTE_INDEX vaddr = drop_bit 12 vaddr AND 0x3ff"

definition KERNEL_PDE_INDEX :: u32 where
  "KERNEL_PDE_INDEX = VMM_PDE_INDEX VMM_KERNEL_VIRTUAL_BASE"

lemma KERNEL_PDE_INDEX_eq: "KERNEL_PDE_INDEX = 768"
  by (simp add: KERNEL_PDE_INDEX_def VMM_PDE_INDEX_def VMM_KERNEL_VIRTUAL_BASE_def)

lemma PAGE_TABLE_SPAN_eq: "PAGE_TABLE_SPAN = 0x400000"
  by (simp add: PAGE_TABLE_SPAN_def PMM_PAGE_SIZE_eq)

text \<open>Element \<open>i\<close> of a \<open>uint32_t\<close> array.\<close>

definition arr :: "'a pmm_state_scheme \<Rightarrow> ptr \<Rightarrow> u32 \<Rightarrow> u32" where
  "arr s p i = ld32 (kmem s) (p + 4 * i)"

definition arr_upd :: "ptr \<Rightarrow> u32 \<Rightarrow> u32 \<Rightarrow> 'a pmm_state_scheme \<Rightarrow> 'a pmm_state_scheme" where
  "arr_upd p i v s = s\<lparr>kmem := st32 (p + 4 * i) v (kmem s)\<rparr>"

definition mem_zero_page :: "ptr \<Rightarrow> 'a pmm_state_scheme \<Rightarrow> 'a pmm_state_scheme" where
  "mem_zero_page p s = s\<lparr>kmem := memset p 0 PMM_PAGE_SIZE (kmem s)\<rparr>"

section \<open>Initialisation\<close>

text \<open>A counting loop whose body may panic.\<close>

definition for_out :: "u32 \<Rightarrow> u32 \<Rightarrow> (u32 \<Rightarrow> 's \<Rightarrow> 's outcome) \<Rightarrow> 's \<Rightarrow> 's outcome" where
  "for_out i n body s =
     for_u32 i n (\<lambda>i r. case r of Panic e \<Rightarrow> Panic e | Returns s \<Rightarrow> body i s) (Returns s)"

definition vmm_init_table ::
    "ptr \<Rightarrow> u32 \<Rightarrow> 'a vmm_state_scheme \<Rightarrow> 'a vmm_state_scheme outcome" where
  "vmm_init_table pd_ptr i s =
     (let (kernel_page_table, s) = pmm_alloc_page s in
      if kernel_page_table = 0 then Panic ''vmm: page table allocation failed''
      else
        let kernel_pt_ptr = vmm_phys_to_virt kernel_page_table in
        if kernel_pt_ptr = 0 then Panic ''vmm: page table is outside direct map''
        else
          let s = mem_zero_page kernel_pt_ptr s;
              s = for_u32 0 1024 (\<lambda>j s.
                    let fr = i * PAGE_TABLE_SPAN + j * PMM_PAGE_SIZE
                    in arr_upd kernel_pt_ptr j (fr OR 0x3) s) s
          in Returns (arr_upd pd_ptr (KERNEL_PDE_INDEX + i) (kernel_page_table OR 0x3) s))"

definition vmm_init :: "u32 \<Rightarrow> 'a vmm_state_scheme \<Rightarrow> 'a vmm_state_scheme outcome" where
  "vmm_init limit s =
     (if limit < 1 then Panic ''vmm: limit must be more than 0''
      else if limit mod PAGE_TABLE_SPAN \<noteq> 0
      then Panic ''vmm: limit must be a multiple of page table span''
      else
        let (pd, s) = pmm_alloc_page s;
            s = s\<lparr>kernel_page_directory := pd\<rparr> in
        if pd = 0 then Panic ''vmm: page directory allocation failed''
        else
          let pd_ptr = vmm_phys_to_virt pd in
          if pd_ptr = 0 then Panic ''vmm: page directory is outside direct map''
          else
            case for_out 0 (limit div PAGE_TABLE_SPAN) (vmm_init_table pd_ptr)
                   (mem_zero_page pd_ptr s) of
              Panic e \<Rightarrow> Panic e
            | Returns s \<Rightarrow>
                Returns (paging_enable (paging_load_directory (kernel_page_directory s) s)))"

definition vmm_get_kernel_address_space :: "'a vmm_state_scheme \<Rightarrow> u32" where
  "vmm_get_kernel_address_space s = kernel_page_directory s"

section \<open>Address spaces\<close>

definition vmm_create_address_space :: "'a vmm_state_scheme \<Rightarrow> u32 \<times> 'a vmm_state_scheme" where
  "vmm_create_address_space s =
     (let (address_space, s) = pmm_alloc_page s in
      if address_space = 0 then (0, s)
      else
        let new_pd = vmm_phys_to_virt address_space in
        if new_pd = 0 then (0, pmm_free_page address_space s)
        else
          let s = mem_zero_page new_pd s;
              current_pd = vmm_phys_to_virt (kernel_page_directory s);
              s = for_u32 KERNEL_PDE_INDEX 1024 (\<lambda>i s.
                    arr_upd new_pd i (arr s current_pd i) s) s
          in (address_space, s))"

definition vmm_destroy_address_space :: "u32 \<Rightarrow> 'a vmm_state_scheme \<Rightarrow> 'a vmm_state_scheme" where
  "vmm_destroy_address_space address_space s =
     (if address_space = 0 \<or> address_space = kernel_page_directory s then s
      else
        let pd_ptr = vmm_phys_to_virt address_space in
        if pd_ptr = 0 then s
        else
          let s = for_u32 0 KERNEL_PDE_INDEX (\<lambda>i s.
                    if arr s pd_ptr i AND VMM_PAGE_PRESENT \<noteq> 0
                    then pmm_free_page (arr s pd_ptr i AND 0xfffff000) s else s) s
          in pmm_free_page address_space s)"

section \<open>Mapping\<close>

definition vmm_get_page_table_in :: "u32 \<Rightarrow> u32 \<Rightarrow> 'a vmm_state_scheme \<Rightarrow> ptr" where
  "vmm_get_page_table_in address_space vaddr s =
     (if address_space = 0 then 0
      else
        let pd_ptr = vmm_phys_to_virt address_space in
        if pd_ptr = 0 then 0
        else
          let pde = arr s pd_ptr (VMM_PDE_INDEX vaddr) in
          if pde AND 1 = 0 then 0 else vmm_phys_to_virt (pde AND 0xfffff000))"

text \<open>The tail of \<open>vmm_map_page_in\<close>, once the page table is known.\<close>

definition vmm_set_pte ::
    "ptr \<Rightarrow> ptr \<Rightarrow> u32 \<Rightarrow> u32 \<Rightarrow> u32 \<Rightarrow> 'a vmm_state_scheme \<Rightarrow> int \<times> 'a vmm_state_scheme" where
  "vmm_set_pte pd_ptr pt_ptr vaddr paddr flags s =
     (let pd_idx = VMM_PDE_INDEX vaddr;
          pt_idx = VMM_PTE_INDEX vaddr in
      if arr s pt_ptr pt_idx AND VMM_PAGE_PRESENT \<noteq> 0 then (- 1, s)
      else
        let s = arr_upd pd_ptr pd_idx
                  (arr s pd_ptr pd_idx OR (flags AND (VMM_PAGE_WRITABLE OR VMM_PAGE_USER))) s;
            s = arr_upd pt_ptr pt_idx (paddr OR (flags AND 0xfff)) s
        in (0, paging_tlb_invalidate vaddr s))"

definition vmm_map_page_in ::
    "u32 \<Rightarrow> u32 \<Rightarrow> u32 \<Rightarrow> u32 \<Rightarrow> 'a vmm_state_scheme \<Rightarrow> int \<times> 'a vmm_state_scheme" where
  "vmm_map_page_in address_space vaddr paddr flags s =
     (if address_space = 0 \<or> vaddr AND (PMM_PAGE_SIZE - 1) \<noteq> 0 then (- 1, s)
      else if paddr AND (PMM_PAGE_SIZE - 1) \<noteq> 0 then (- 1, s)
      else
        let pd_idx = VMM_PDE_INDEX vaddr in
        if address_space \<noteq> kernel_page_directory s \<and> pd_idx \<ge> KERNEL_PDE_INDEX then (- 1, s)
        else
          let pd_ptr = vmm_phys_to_virt address_space in
          if pd_ptr = 0 then (- 1, s)
          else if arr s pd_ptr pd_idx AND VMM_PAGE_PRESENT \<noteq> 0 then
            let pt_ptr = vmm_phys_to_virt (arr s pd_ptr pd_idx AND 0xfffff000) in
            if pt_ptr = 0 then (- 1, s)
            else vmm_set_pte pd_ptr pt_ptr vaddr paddr flags s
          else
            let (page_table, s) = pmm_alloc_page s in
            if page_table = 0 then (- 1, s)
            else
              let pt_ptr = vmm_phys_to_virt page_table in
              if pt_ptr = 0 then (- 1, pmm_free_page page_table s)
              else
                let s = mem_zero_page pt_ptr s;
                    s = arr_upd pd_ptr pd_idx (page_table OR VMM_PAGE_PRESENT) s
                in vmm_set_pte pd_ptr pt_ptr vaddr paddr flags s)"

definition vmm_map_page :: "u32 \<Rightarrow> u32 \<Rightarrow> u32 \<Rightarrow> 'a vmm_state_scheme \<Rightarrow> int \<times> 'a vmm_state_scheme" where
  "vmm_map_page vaddr paddr flags s =
     (if vaddr AND (PMM_PAGE_SIZE - 1) \<noteq> 0 \<or> paddr AND (PMM_PAGE_SIZE - 1) \<noteq> 0 then (- 1, s)
      else
        let pt_ptr = vmm_get_page_table_in (kernel_page_directory s) vaddr s;
            s = (if pt_ptr \<noteq> 0 then arr_upd pt_ptr (VMM_PTE_INDEX vaddr) 0 s else s)
        in vmm_map_page_in (kernel_page_directory s) vaddr paddr flags s)"

definition vmm_unmap_page_in :: "u32 \<Rightarrow> u32 \<Rightarrow> 'a vmm_state_scheme \<Rightarrow> int \<times> 'a vmm_state_scheme" where
  "vmm_unmap_page_in address_space vaddr s =
     (if address_space = 0 \<or> vaddr AND (PMM_PAGE_SIZE - 1) \<noteq> 0 then (- 1, s)
      else if address_space \<noteq> kernel_page_directory s \<and> VMM_PDE_INDEX vaddr \<ge> KERNEL_PDE_INDEX
      then (- 1, s)
      else
        let pt_ptr = vmm_get_page_table_in address_space vaddr s in
        if pt_ptr = 0 then (- 1, s)
        else
          let pt_idx = VMM_PTE_INDEX vaddr in
          if arr s pt_ptr pt_idx AND VMM_PAGE_PRESENT = 0 then (- 1, s)
          else (0, paging_tlb_invalidate vaddr (arr_upd pt_ptr pt_idx 0 s)))"

definition vmm_unmap_page :: "u32 \<Rightarrow> 'a vmm_state_scheme \<Rightarrow> int \<times> 'a vmm_state_scheme" where
  "vmm_unmap_page vaddr s = vmm_unmap_page_in (kernel_page_directory s) vaddr s"

text \<open>
  The result parameter \<open>uintptr_t *paddr\<close> is \<open>None\<close> for a NULL pointer and otherwise the
  content of the cell; the second component is the cell after the call.
\<close>

definition vmm_get_paddr_in ::
    "u32 \<Rightarrow> u32 \<Rightarrow> u32 option \<Rightarrow> 'a vmm_state_scheme \<Rightarrow> int \<times> u32 option" where
  "vmm_get_paddr_in address_space vaddr paddr s =
     (let pt_ptr = vmm_get_page_table_in address_space vaddr s in
      if paddr = None \<or> pt_ptr = 0 then (- 1, paddr)
      else
        let pte = arr s pt_ptr (VMM_PTE_INDEX vaddr) in
        if pte AND VMM_PAGE_PRESENT = 0 then (- 1, paddr)
        else (0, Some ((pte AND 0xfffff000) OR (vaddr AND 0xfff))))"

definition vmm_get_paddr :: "u32 \<Rightarrow> u32 option \<Rightarrow> 'a vmm_state_scheme \<Rightarrow> int \<times> u32 option" where
  "vmm_get_paddr vaddr paddr s = vmm_get_paddr_in (kernel_page_directory s) vaddr paddr s"

end
