(* ===== verification/PmmInit.thy ===== *)
theory PmmInit
  imports Vmm
begin

text \<open>
  Building the allocator at boot (\<open>pmm_init\<close> of \<open>kernel/mm/pmm.c\<close>) from the Multiboot
  information structure and memory map (\<open>kernel/include/kernel/boot.h\<close>).  The loops over the
  memory map step by a size read from memory, so a malformed map may keep them running forever:
  they are partial, \<open>None\<close> is a call that does not return.
\<close>

section \<open>Multiboot structures\<close>

definition MULTIBOOT_MAGIC :: u32 where "MULTIBOOT_MAGIC = 0x2badb002"
definition MULTIBOOT_FLAG_MMAP :: u32 where "MULTIBOOT_FLAG_MMAP = push_bit 6 1"
definition MULTIBOOT_FLAG_MODS :: u32 where "MULTIBOOT_FLAG_MODS = push_bit 3 1"

text \<open>Fields of \<open>multiboot_info\<close>, at their offsets.\<close>

definition mbi_flags :: "'a pmm_state_scheme \<Rightarrow> ptr \<Rightarrow> u32" where
  "mbi_flags s mbi = ld32 (kmem s) mbi"

definition mbi_mods_count :: "'a pmm_state_scheme \<Rightarrow> ptr \<Rightarrow> u32" where
  "mbi_mods_count s mbi = ld32 (kmem s) (mbi + 20)"

definition mbi_mods_addr :: "'a pmm_state_scheme \<Rightarrow> ptr \<Rightarrow> u32" where
  "mbi_mods_addr s mbi = ld32 (kmem s) (mbi + 24)"

definition mbi_mmap_length :: "'a pmm_state_scheme \<Rightarrow> ptr \<Rightarrow> u32" where
  "mbi_mmap_length s mbi = ld32 (kmem s) (mbi + 44)"

definition mbi_mmap_addr :: "'a pmm_state_scheme \<Rightarrow> ptr \<Rightarrow> u32" where
  "mbi_mmap_addr s mbi = ld32 (kmem s) (mbi + 48)"

definition sizeof_multiboot_info :: u32 where "sizeof_multiboot_info = 52"

text \<open>Fields of the packed \<open>multiboot_mmap_entry\<close>.\<close>

definition ld64 :: "mem \<Rightarrow> ptr \<Rightarrow> u64" where
  "ld64 m a = ucast (ld32 m a) OR push_bit 32 (ucast (ld32 m (a + 4)))"

definition entry_size :: "'a pmm_state_scheme \<Rightarrow> ptr \<Rightarrow> u32" where
  "entry_size s e = ld32 (kmem s) e"

definition entry_addr :: "'a pmm_state_scheme \<Rightarrow> ptr \<Rightarrow> u64" where
  "entry_addr s e = ld64 (kmem s) (e + 4)"

definition entry_len :: "'a pmm_state_scheme \<Rightarrow> ptr \<Rightarrow> u64" where
  "entry_len s e = ld64 (kmem s) (e + 12)"

definition entry_type :: "'a pmm_state_scheme \<Rightarrow> ptr \<Rightarrow> u32" where
  "entry_type s e = ld32 (kmem s) (e + 20)"

text \<open>
  \<open>while (ptr < end) { body; ptr += entry->size + sizeof(entry->size); }\<close>.
\<close>

partial_function (option) mmap_loop ::
    "(ptr \<Rightarrow> 'b \<times> 'a pmm_state_scheme \<Rightarrow> ('b \<times> 'a pmm_state_scheme) outcome) \<Rightarrow> ptr \<Rightarrow> ptr \<Rightarrow>
     'b \<times> 'a pmm_state_scheme \<Rightarrow> ('b \<times> 'a pmm_state_scheme) outcome option" where
  "mmap_loop body p end s =
     (if p < end then
        case body p s of
          Panic e \<Rightarrow> Some (Panic e)
        | Returns s \<Rightarrow> mmap_loop body (p + (entry_size (snd s) p + 4)) end s
      else Some (Returns s))"

declare mmap_loop.simps [code]

section \<open>The functions of \<open>pmm.c\<close>\<close>

definition align_up :: "u32 \<Rightarrow> u32 \<Rightarrow> u32" where
  "align_up addr sz = (addr + sz - 1) AND NOT (sz - 1)"

definition check_mmap_entry ::
    "ptr \<Rightarrow> unit \<times> 'a pmm_state_scheme \<Rightarrow> (unit \<times> 'a pmm_state_scheme) outcome" where
  "check_mmap_entry entry us =
     (let s = snd us in
      if entry_size s entry < 20
      then Panic (''multiboot: mmap entry size too small'' @ [CHR 0x0A])
      else Returns ((), snd (printk (''pmm: entry addr=%x%x len=%x%x type=%u'' @ [CHR 0x0A])
        [VInt (ucast (drop_bit 32 (entry_addr s entry))), VInt (ucast (entry_addr s entry)),
         VInt (ucast (drop_bit 32 (entry_len s entry))), VInt (ucast (entry_len s entry)),
         VInt (entry_type s entry)] s)))"

definition check_mmap :: "ptr \<Rightarrow> 'a pmm_state_scheme \<Rightarrow> 'a pmm_state_scheme outcome option" where
  "check_mmap mbi s =
     (if mbi_flags s mbi AND MULTIBOOT_FLAG_MMAP = 0
      then Some (Panic (''multiboot: mmap not present'' @ [CHR 0x0A]))
      else
        let p = vmm_phys_to_virt (mbi_mmap_addr s mbi) in
        if p = 0 then Some (Panic (''multiboot: mmap is outside direct map'' @ [CHR 0x0A]))
        else
          case mmap_loop check_mmap_entry p (p + mbi_mmap_length s mbi) ((), s) of
            None \<Rightarrow> None
          | Some (Panic e) \<Rightarrow> Some (Panic e)
          | Some (Returns us) \<Rightarrow> Some (Returns (snd us)))"

definition clear_usable_entry ::
    "ptr \<Rightarrow> u32 \<times> 'a pmm_state_scheme \<Rightarrow> (u32 \<times> 'a pmm_state_scheme) outcome" where
  "clear_usable_entry entry us =
     (case us of (usable_pages, s) \<Rightarrow>
      Returns (if entry_type s entry = 1 then
        let start_page = ucast (drop_bit PMM_PAGE_SHIFT (entry_addr s entry));
            region_pages = ucast (drop_bit PMM_PAGE_SHIFT (entry_len s entry));
            end_page = start_page + region_pages in
        if start_page \<ge> pmm_max_page s then (usable_pages, s)
        else
          let end_page = (if end_page > pmm_max_page s \<or> end_page < start_page
                          then pmm_max_page s else end_page)
          in (usable_pages + (end_page - start_page), for_u32 start_page end_page bitmap_clear s)
      else (usable_pages, s)))"

definition clear_usable_pages ::
    "ptr \<Rightarrow> 'a pmm_state_scheme \<Rightarrow> (u32 \<times> 'a pmm_state_scheme) outcome option" where
  "clear_usable_pages mbi s =
     (let p = vmm_phys_to_virt (mbi_mmap_addr s mbi)
      in mmap_loop clear_usable_entry p (p + mbi_mmap_length s mbi) (0, s))"

definition find_max_page_entry ::
    "ptr \<Rightarrow> u64 \<times> 'a pmm_state_scheme \<Rightarrow> (u64 \<times> 'a pmm_state_scheme) outcome" where
  "find_max_page_entry entry us =
     (case us of (max_page, s) \<Rightarrow>
      Returns (if entry_type s entry = 1 then
        let entry_max_page = drop_bit PMM_PAGE_SHIFT (entry_addr s entry + entry_len s entry)
        in (if entry_max_page > max_page then entry_max_page else max_page, s)
      else (max_page, s)))"

definition find_max_page :: "ptr \<Rightarrow> 'a pmm_state_scheme \<Rightarrow> u32 outcome option" where
  "find_max_page mbi s =
     (let p = vmm_phys_to_virt (mbi_mmap_addr s mbi)
      in case mmap_loop find_max_page_entry p (p + mbi_mmap_length s mbi) (0, s) of
           None \<Rightarrow> None
         | Some (Panic e) \<Rightarrow> Some (Panic e)
         | Some (Returns us) \<Rightarrow> Some (Returns (ucast (fst us))))"

definition overlap_bytes :: "ptr \<Rightarrow> u64 \<Rightarrow> u64 \<Rightarrow> 'a pmm_state_scheme \<Rightarrow> u64" where
  "overlap_bytes entry start end s =
     (if entry_type s entry \<noteq> 1 then 0
      else
        let estart = entry_addr s entry;
            eend = entry_addr s entry + entry_len s entry;
            max_start = (if estart > start then estart else start);
            min_end = (if eend < end then eend else end)
        in if max_start \<ge> min_end then 0 else min_end - max_start)"

definition ranges_overlap :: "u32 \<Rightarrow> u32 \<Rightarrow> u32 \<Rightarrow> u32 \<Rightarrow> bool" where
  "ranges_overlap a_start a_end b_start b_end \<longleftrightarrow> a_start < b_end \<and> b_start < a_end"

text \<open>The inner loop of \<open>find_segment\<close>; the result 0 stands for leaving it without a return.\<close>

partial_function (option) seg_scan ::
    "ptr \<Rightarrow> u32 \<Rightarrow> u32 \<Rightarrow> u32 \<Rightarrow> 'a pmm_state_scheme \<Rightarrow> u32 option option" where
  "seg_scan mbi bytes eend start s =
     (if start + bytes \<le> eend then
        let kstart = kernel_physical_start s;
            kend = kernel_physical_end s in
        if ranges_overlap start (start + bytes) kstart kend
        then seg_scan mbi bytes eend (align_up kend PMM_PAGE_SIZE) s
        else
          let mbi_start = vmm_virt_to_phys mbi;
              mbi_end = mbi_start + sizeof_multiboot_info in
          if ranges_overlap start (start + bytes) mbi_start mbi_end
          then seg_scan mbi bytes eend (align_up mbi_end PMM_PAGE_SIZE) s
          else
            let mmap_start = mbi_mmap_addr s mbi;
                mmap_end = mmap_start + mbi_mmap_length s mbi in
            if ranges_overlap start (start + bytes) mmap_start mmap_end
            then seg_scan mbi bytes eend (align_up mmap_end PMM_PAGE_SIZE) s
            else Some (Some start)
      else Some None)"

declare seg_scan.simps [code]

partial_function (option) find_segment_loop ::
    "ptr \<Rightarrow> u32 \<Rightarrow> ptr \<Rightarrow> ptr \<Rightarrow> 'a pmm_state_scheme \<Rightarrow> u32 option" where
  "find_segment_loop mbi bytes p end s =
     (if p < end then
        if entry_type s p \<noteq> 1
        then find_segment_loop mbi bytes (p + (entry_size s p + 4)) end s
        else
          let estart = (if entry_addr s p = 0 then 1 else ucast (entry_addr s p));
              eend = ucast (entry_addr s p + entry_len s p);
              start = align_up estart PMM_PAGE_SIZE in
          case seg_scan mbi bytes eend start s of
            None \<Rightarrow> None
          | Some (Some r) \<Rightarrow> Some r
          | Some None \<Rightarrow> find_segment_loop mbi bytes (p + (entry_size s p + 4)) end s
      else Some 0)"

declare find_segment_loop.simps [code]

definition find_segment :: "ptr \<Rightarrow> u32 \<Rightarrow> 'a pmm_state_scheme \<Rightarrow> u32 option" where
  "find_segment mbi bytes s =
     (let p = vmm_phys_to_virt (mbi_mmap_addr s mbi)
      in find_segment_loop mbi bytes p (p + mbi_mmap_length s mbi) s)"

definition kernel_overlap_entry ::
    "ptr \<Rightarrow> u64 \<times> 'a pmm_state_scheme \<Rightarrow> (u64 \<times> 'a pmm_state_scheme) outcome" where
  "kernel_overlap_entry entry us =
     (case us of (kernel_overlap, s) \<Rightarrow>
      Returns (kernel_overlap + overlap_bytes entry (ucast (kernel_physical_start s))
        (ucast (kernel_physical_end s)) s, s))"

definition check_kernel_location :: "ptr \<Rightarrow> 'a pmm_state_scheme \<Rightarrow> unit outcome option" where
  "check_kernel_location mbi s =
     (let p = vmm_phys_to_virt (mbi_mmap_addr s mbi);
          kstart = ucast (kernel_physical_start s) :: u64;
          kend = ucast (kernel_physical_end s) :: u64
      in case mmap_loop kernel_overlap_entry p (p + mbi_mmap_length s mbi) (0, s) of
           None \<Rightarrow> None
         | Some (Panic e) \<Rightarrow> Some (Panic e)
         | Some (Returns us) \<Rightarrow>
             if fst us < kend - kstart
             then Some (Panic ''pmm: kernel not fully located in usable RAM'')
             else Some (Returns ()))"

definition fill_bitmap :: "'a pmm_state_scheme \<Rightarrow> 'a pmm_state_scheme" where
  "fill_bitmap s = for_u32 0 (pmm_bitmap_bytes s)
     (\<lambda>i s. s\<lparr>kmem := (kmem s)(pmm_bitmap s + i := 0xFF)\<rparr>) s"

text \<open>The part of \<open>pmm_init\<close> after the bitmap has been placed.\<close>

definition pmm_init_bitmap ::
    "ptr \<Rightarrow> u32 \<Rightarrow> 'a pmm_state_scheme \<Rightarrow> 'a pmm_state_scheme outcome option" where
  "pmm_init_bitmap mbi bitmap_base s =
     (case clear_usable_pages mbi (fill_bitmap (s\<lparr>pmm_bitmap := vmm_phys_to_virt bitmap_base\<rparr>)) of
        None \<Rightarrow> None
      | Some (Panic e) \<Rightarrow> Some (Panic e)
      | Some (Returns (usable_pages, s)) \<Rightarrow>
          let s = s\<lparr>pmm_total_pages := usable_pages, pmm_free_pages := usable_pages\<rparr>;
              s = reserve_segment bitmap_base (bitmap_base + pmm_bitmap_bytes s) s;
              s = reserve_segment (kernel_physical_start s) (kernel_physical_end s) s;
              s = reserve_page 0 s
          in Some (Returns (snd (printk (''pmm: pages total=%u free=%u'' @ [CHR 0x0A])
               [VInt (pmm_get_total_pages s), VInt (pmm_get_free_pages s)] s))))"

definition pmm_init :: "ptr \<Rightarrow> 'a pmm_state_scheme \<Rightarrow> 'a pmm_state_scheme outcome option" where
  "pmm_init mbi s =
     (case check_mmap mbi s of
        None \<Rightarrow> None
      | Some (Panic e) \<Rightarrow> Some (Panic e)
      | Some (Returns s) \<Rightarrow>
     (case find_max_page mbi s of
        None \<Rightarrow> None
      | Some (Panic e) \<Rightarrow> Some (Panic e)
      | Some (Returns max_page) \<Rightarrow>
          let s = s\<lparr>pmm_max_page := max_page, pmm_bitmap_bytes := (max_page + 7) div 8\<rparr> in
     (case find_segment mbi (pmm_bitmap_bytes s) s of
        None \<Rightarrow> None
      | Some bitmap_base \<Rightarrow>
          if bitmap_base = 0 then Some (Panic (''pmm: pages bitmap does not fit in RAM'' @ [CHR 0x0A]))
          else
     (case check_kernel_location mbi s of
        None \<Rightarrow> None
      | Some (Panic e) \<Rightarrow> Some (Panic e)
      | Some (Returns u) \<Rightarrow>
          if vmm_phys_to_virt bitmap_base = 0 then Some (Panic ''pmm: bitmap is outside direct map'')
          else pmm_init_bitmap mbi bitmap_base s))))"

end
