(* ===== verification/VmmProof.thy ===== *)
theory VmmProof
  imports Vmm
begin

text \<open>
  What the paging operations do to the translation of an address space.  The invariant
  \<open>as_ok\<close> says that the directory and its page tables are distinct allocated frames of the
  direct map, apart from the allocator's bitmap; under it, mapping and unmapping are updates of
  the abstract page map \<open>entry\<close>.
\<close>

section \<open>Arrays in frames\<close>

lemma cell_offset:
  fixes i d :: u32
  assumes "i < 1024" "d < 4"
  shows "d + 4 * i < 4096"
proof -
  have "unat (4 * i) = 4 * unat i" using assms(1) by (intro unat_mult_4) (auto elim: less_trans)
  moreover have "unat i < 1024" "unat d < 4" using assms by (simp_all add: word_less_nat_alt)
  ultimately have "unat (d + 4 * i) < 4096" by (simp add: unat_word_ariths)
  then show ?thesis by (simp add: word_less_nat_alt)
qed

lemma cell_in_page:
  assumes "page_aligned p" "i < 1024" "x - (p + 4 * i) < 4"
  shows "frame x = frame p"
proof -
  have "x - p < 4096" using cell_offset [OF assms(2,3)] by simp
  then show ?thesis using assms(1) by (simp add: frame_of_page)
qed

definition same_page :: "'a pmm_state_scheme \<Rightarrow> 'b pmm_state_scheme \<Rightarrow> ptr \<Rightarrow> bool" where
  "same_page s t p \<longleftrightarrow> (\<forall>x. frame x = frame p \<longrightarrow> kmem t x = kmem s x)"

lemma arr_same_page:
  "page_aligned p \<Longrightarrow> i < 1024 \<Longrightarrow> same_page s t p \<Longrightarrow> arr t p i = arr s p i"
  unfolding arr_def by (rule ld32_cong) (auto simp: same_page_def dest: cell_in_page)

lemma same_page_trans: "same_page s t p \<Longrightarrow> same_page t u p \<Longrightarrow> same_page s u p"
  by (auto simp: same_page_def)

lemma same_page_refl [simp]: "same_page s s p"
  by (simp add: same_page_def)

lemma arr_upd_page:
  "page_aligned p \<Longrightarrow> page_aligned q \<Longrightarrow> p \<noteq> q \<Longrightarrow> i < 1024 \<Longrightarrow> same_page s (arr_upd p i v s) q"
  by (auto simp: same_page_def arr_upd_def page_aligned_eq not_less [symmetric]
      intro!: st32_other dest: cell_in_page)

lemma small_index: "i < 1024 \<Longrightarrow> i < 1073741824" for i :: u32
  by (auto elim: less_trans)

lemma arr_upd_arr:
  "i < 1024 \<Longrightarrow> j < 1024 \<Longrightarrow> arr (arr_upd p i v s) p j = (if i = j then v else arr s p j)"
  by (simp add: arr_def arr_upd_def km.array_store small_index)

lemma zero_page_arr:
  assumes "page_aligned p" "i < 1024"
  shows "arr (mem_zero_page p s) p i = 0"
proof -
  have "kmem (mem_zero_page p s) x = 0" if "x - (p + 4 * i) < 4" for x
    using cell_in_page [OF assms that] frame_of_page [OF assms(1), of x]
    by (simp add: mem_zero_page_def memset_eq PMM_PAGE_SIZE_eq)
  then have "ld32 (kmem (mem_zero_page p s)) (p + 4 * i) = ld32 (\<lambda>_. 0) (p + 4 * i)"
    by (intro ld32_cong) simp
  then show ?thesis by (simp add: arr_def ld32_def)
qed

lemma zero_page_page:
  "page_aligned p \<Longrightarrow> page_aligned q \<Longrightarrow> p \<noteq> q \<Longrightarrow> same_page s (mem_zero_page p s) q"
  by (auto simp: same_page_def mem_zero_page_def memset_eq PMM_PAGE_SIZE_eq frame_of_page
      page_aligned_eq)

section \<open>Tables and the allocator\<close>

text \<open>A kernel page that holds no byte of the bitmap.\<close>

definition page_clear :: "'a pmm_state_scheme \<Rightarrow> ptr \<Rightarrow> bool" where
  "page_clear s p \<longleftrightarrow> (\<forall>x. frame x = frame p \<longrightarrow> \<not> in_bitmap s x)"

definition bitmap_safe :: "'a pmm_state_scheme \<Rightarrow> bool" where
  "bitmap_safe s \<longleftrightarrow> (\<forall>p \<in> free_pages s. vmm_phys_to_virt (push_bit 12 p) \<noteq> 0 \<longrightarrow>
     page_clear s (vmm_phys_to_virt (push_bit 12 p)))"

definition mem_ok :: "'a pmm_state_scheme \<Rightarrow> bool" where
  "mem_ok s \<longleftrightarrow> pmm_ok s \<and> bitmap_safe s"

text \<open>A frame that may hold a table: allocated, reachable, and not part of the bitmap.\<close>

definition table_ok :: "'a pmm_state_scheme \<Rightarrow> u32 \<Rightarrow> bool" where
  "table_ok s t \<longleftrightarrow> page_aligned t \<and> t \<noteq> 0 \<and> vmm_phys_to_virt t \<noteq> 0 \<and> frame t < pmm_max_page s \<and>
     frame t \<notin> free_pages s \<and> page_clear s (vmm_phys_to_virt t)"

lemma virt_inj:
  "vmm_phys_to_virt p \<noteq> 0 \<Longrightarrow> vmm_phys_to_virt q \<noteq> 0 \<Longrightarrow> vmm_phys_to_virt p = vmm_phys_to_virt q \<longleftrightarrow> p = q"
  using phys_to_virt_eq [of p] phys_to_virt_eq [of q] by auto

lemma alloc_more:
  "pmm_alloc_page s = (a, t) \<Longrightarrow> t = s\<lparr>kmem := kmem t, pmm_free_pages := pmm_free_pages t\<rparr>"
  by (auto simp: pmm_alloc_page_eq take_page_def bitmap_set_def Let_def split: option.splits)

lemma free_more:
  "pmm_free_page a s = s\<lparr>kmem := kmem (pmm_free_page a s), pmm_free_pages := pmm_free_pages (pmm_free_page a s)\<rparr>"
  by (simp add: pmm_free_page_eq bitmap_clear_def Let_def)

lemma kernel_dir_alloc: "pmm_alloc_page s = (a, t) \<Longrightarrow> kernel_page_directory t = kernel_page_directory s"
  by (drule alloc_more) (erule ssubst, simp)

lemma kernel_dir_free [simp]: "kernel_page_directory (pmm_free_page a s) = kernel_page_directory s"
  by (subst free_more) simp

lemma alloc_page_spec:
  assumes "mem_ok s" "pmm_alloc_page s = (a, t)" "a \<noteq> 0"
  shows "mem_ok t" and "page_aligned a" and "frame a \<in> free_pages s"
    and "free_pages t = free_pages s - {frame a}"
    and "pmm_max_page t = pmm_max_page s" and "in_bitmap t = in_bitmap s"
    and "vmm_phys_to_virt a \<noteq> 0 \<Longrightarrow> table_ok t a"
proof -
  have ok: "pmm_ok s" using assms(1) by (simp add: mem_ok_def)
  have ne: "free_pages s \<noteq> {}" using pmm.alloc_zero_iff [OF ok assms(2)] assms(3) by simp
  note al = pmm.alloc_frame [OF ok ne assms(2)]
  show al1: "page_aligned a" and al2: "frame a \<in> free_pages s"
    and al3: "free_pages t = free_pages s - {frame a}" using al by simp_all
  show fr: "pmm_max_page t = pmm_max_page s" and bm: "in_bitmap t = in_bitmap s"
    using pmm.frames_alloc [OF assms(2)] by simp_all
  show "mem_ok t"
    using assms(1) pmm.invar_alloc [OF ok assms(2)] al3 bm
    by (auto simp: mem_ok_def bitmap_safe_def page_clear_def)
  show "table_ok t a" if "vmm_phys_to_virt a \<noteq> 0"
    using that assms(1,3) al1 al2 al3 fr bm pmm.frees_less [OF ok al2] page_aligned_frame [OF al1]
    by (auto simp: table_ok_def mem_ok_def bitmap_safe_def page_clear_def)
qed

section \<open>Entries\<close>

definition tbl :: "u32 \<Rightarrow> u32" where
  "tbl e = push_bit 12 (drop_bit 12 e)"

lemma entry_bits [simp]:
  "e AND VMM_PAGE_PRESENT = 0 \<longleftrightarrow> even e" "e AND 4294963200 = tbl e"
  by (simp_all add: page_flags and_page_frame tbl_def and_one_eq even_iff_mod_2_eq_zero)

lemma tbl_aligned [simp]: "page_aligned (tbl e)"
  by (simp add: tbl_def)

lemma tbl_or: "drop_bit 12 f = 0 \<Longrightarrow> tbl (e OR f) = tbl e"
  by (simp add: tbl_def)

lemma tbl_of_aligned: "page_aligned p \<Longrightarrow> tbl p = p"
  using page_aligned_frame [of p] by (simp add: tbl_def frame_def)

lemma and_1023: "x AND 1023 = take_bit 10 x" for x :: u32
  by (simp add: take_bit_eq_mask mask_eq_exp_minus_1)

lemma unat_index:
  "unat (VMM_PDE_INDEX v) = unat v div 4194304"
  "unat (VMM_PTE_INDEX v) = unat v div 4096 mod 1024"
  using u32_bound [of v]
  by (simp_all add: VMM_PDE_INDEX_def VMM_PTE_INDEX_def and_1023 take_bit_eq_mod drop_bit_eq_div
      unat_mod unat_div)

lemma index_less [simp]: "VMM_PDE_INDEX v < 1024" "VMM_PTE_INDEX v < 1024"
  using u32_bound [of v] by (simp_all add: word_less_nat_alt unat_index)

lemma div_mod_eqI: "m div k = n div k \<Longrightarrow> m mod k = n mod k \<Longrightarrow> m = n" for m n k :: nat
  by (metis div_mult_mod_eq)

lemma same_frame_index:
  "frame w = frame v \<longleftrightarrow> VMM_PDE_INDEX w = VMM_PDE_INDEX v \<and> VMM_PTE_INDEX w = VMM_PTE_INDEX v"
proof -
  have "n div 4194304 = n div 4096 div 1024" for n :: nat by (simp add: div_mult2_eq [symmetric])
  then show ?thesis
    using div_mod_eqI [of "unat w div 4096" 1024 "unat v div 4096"]
    by (auto simp: word_unat_eq_iff unat_frame unat_index)
qed

section \<open>Writes to tables leave the allocator alone\<close>

definition mem_frame :: "'a pmm_state_scheme \<Rightarrow> 'a pmm_state_scheme \<Rightarrow> bool" where
  "mem_frame s t \<longleftrightarrow> t = s\<lparr>kmem := kmem t\<rparr> \<and> (\<forall>x. in_bitmap s x \<longrightarrow> kmem t x = kmem s x)"

lemma mem_frame_fields:
  assumes "mem_frame s t"
  shows "pmm_max_page t = pmm_max_page s" "in_bitmap t = in_bitmap s" "page_clear t = page_clear s"
    "free_pages t = free_pages s" "mem_ok t \<longleftrightarrow> mem_ok s" "table_ok t = table_ok s"
proof -
  obtain m where t: "t = s\<lparr>kmem := m\<rparr>" and m: "\<And>x. in_bitmap s x \<Longrightarrow> m x = kmem s x"
    using assms by (auto simp: mem_frame_def)
  show max: "pmm_max_page t = pmm_max_page s" and bm: "in_bitmap t = in_bitmap s"
    by (simp_all add: t in_bitmap_def fun_eq_iff)
  show pc: "page_clear t = page_clear s" by (simp add: page_clear_def bm fun_eq_iff)
  have used: "page_used t p = page_used s p" if "p < pmm_max_page s \<or> p = 0" for p
  proof -
    have "in_bitmap s (pmm_bitmap s + p div 8)"
      using that by (auto simp: in_bitmap_page) (simp add: in_bitmap_def)
    then show ?thesis by (simp add: page_used_def t m)
  qed
  show fp: "free_pages t = free_pages s" using used max by (auto simp: free_pages_def)
  show "mem_ok t \<longleftrightarrow> mem_ok s"
    using used [of 0] fp max pc by (simp add: mem_ok_def pmm_ok_def bitmap_safe_def) (simp add: t)
  show "table_ok t = table_ok s" by (simp add: table_ok_def fp max pc fun_eq_iff)
qed

lemma mem_frame_arr_upd:
  "page_aligned p \<Longrightarrow> page_clear s p \<Longrightarrow> i < 1024 \<Longrightarrow> mem_frame s (arr_upd p i v s)"
  by (auto simp: mem_frame_def arr_upd_def page_clear_def not_less [symmetric] intro!: st32_other
      dest: cell_in_page)

lemma mem_frame_zero_page:
  "page_aligned p \<Longrightarrow> page_clear s p \<Longrightarrow> mem_frame s (mem_zero_page p s)"
  by (auto simp: mem_frame_def mem_zero_page_def memset_eq PMM_PAGE_SIZE_eq frame_of_page page_clear_def)

section \<open>Address spaces\<close>

definition pd_entry :: "'a pmm_state_scheme \<Rightarrow> u32 \<Rightarrow> u32 \<Rightarrow> u32" where
  "pd_entry s as i = arr s (vmm_phys_to_virt as) i"

text \<open>The page table entry that translates \<open>v\<close>; 0 when there is no page table.\<close>

definition pte :: "'a pmm_state_scheme \<Rightarrow> u32 \<Rightarrow> u32 \<Rightarrow> u32" where
  "pte s as v = (let e = pd_entry s as (VMM_PDE_INDEX v)
     in if even e then 0 else arr s (vmm_phys_to_virt (tbl e)) (VMM_PTE_INDEX v))"

definition as_ok :: "'a pmm_state_scheme \<Rightarrow> u32 \<Rightarrow> bool" where
  "as_ok s as \<longleftrightarrow> table_ok s as \<and>
     (\<forall>i<1024. odd (pd_entry s as i) \<longrightarrow> table_ok s (tbl (pd_entry s as i)) \<and> tbl (pd_entry s as i) \<noteq> as) \<and>
     (\<forall>i<1024. \<forall>j<1024. i \<noteq> j \<longrightarrow> odd (pd_entry s as i) \<longrightarrow> odd (pd_entry s as j) \<longrightarrow>
        tbl (pd_entry s as i) \<noteq> tbl (pd_entry s as j))"

text \<open>The frames that hold the directory and the page tables.\<close>

definition pt_pages :: "'a pmm_state_scheme \<Rightarrow> u32 \<Rightarrow> u32 set" where
  "pt_pages s as = insert as {tbl (pd_entry s as i) |i. i < 1024 \<and> odd (pd_entry s as i)}"

text \<open>States that agree on memory and the allocator's variables.\<close>

definition pmm_same :: "'a pmm_state_scheme \<Rightarrow> 'b pmm_state_scheme \<Rightarrow> bool" where
  "pmm_same s t \<longleftrightarrow> kmem t = kmem s \<and> pmm_bitmap t = pmm_bitmap s \<and> pmm_max_page t = pmm_max_page s \<and>
     pmm_free_pages t = pmm_free_pages s"

lemma pmm_same_parts:
  assumes "pmm_same s t"
  shows "arr t = arr s" "pd_entry t = pd_entry s" "pte t = pte s" "pt_pages t = pt_pages s"
    "free_pages t = free_pages s" "pmm_ok t = pmm_ok s" "mem_ok t = mem_ok s" "table_ok t = table_ok s"
    "as_ok t = as_ok s" "in_bitmap t = in_bitmap s" "page_used t = page_used s"
proof -
  note E = assms [unfolded pmm_same_def]
  show arr: "arr t = arr s" and ib: "in_bitmap t = in_bitmap s" and pu: "page_used t = page_used s"
    using E by (intro ext; simp add: arr_def in_bitmap_def page_used_def)+
  then show pd: "pd_entry t = pd_entry s" and fp: "free_pages t = free_pages s"
    using E by (simp_all add: pd_entry_def free_pages_def fun_eq_iff)
  have pc: "page_clear t = page_clear s" by (simp add: page_clear_def ib fun_eq_iff)
  show "pte t = pte s" "pt_pages t = pt_pages s" by (intro ext; simp add: pte_def pt_pages_def arr pd Let_def)+
  show "pmm_ok t = pmm_ok s" "mem_ok t = mem_ok s" and tok: "table_ok t = table_ok s"
    using E by (simp_all add: mem_ok_def pmm_ok_def bitmap_safe_def table_ok_def fp pu pc fun_eq_iff)
  show "as_ok t = as_ok s" by (simp add: as_ok_def pd tok fun_eq_iff)
qed

lemma table_okD:
  "table_ok s p \<Longrightarrow> page_aligned p" "table_ok s p \<Longrightarrow> vmm_phys_to_virt p \<noteq> 0"
  "table_ok s p \<Longrightarrow> page_aligned (vmm_phys_to_virt p)" "table_ok s p \<Longrightarrow> p \<noteq> 0"
  "table_ok s p \<Longrightarrow> frame p \<notin> free_pages s" "table_ok s p \<Longrightarrow> page_clear s (vmm_phys_to_virt p)"
  by (auto simp: table_ok_def page_aligned_virt)

lemma as_okD:
  "as_ok s as \<Longrightarrow> table_ok s as"
  "as_ok s as \<Longrightarrow> i < 1024 \<Longrightarrow> odd (pd_entry s as i) \<Longrightarrow> table_ok s (tbl (pd_entry s as i))"
  "as_ok s as \<Longrightarrow> i < 1024 \<Longrightarrow> odd (pd_entry s as i) \<Longrightarrow> tbl (pd_entry s as i) \<noteq> as"
  "as_ok s as \<Longrightarrow> i < 1024 \<Longrightarrow> j < 1024 \<Longrightarrow> i \<noteq> j \<Longrightarrow> odd (pd_entry s as i) \<Longrightarrow> odd (pd_entry s as j) \<Longrightarrow>
     tbl (pd_entry s as i) \<noteq> tbl (pd_entry s as j)"
  by (auto simp: as_ok_def)

lemma pt_pagesI:
  "as \<in> pt_pages s as" "i < 1024 \<Longrightarrow> odd (pd_entry s as i) \<Longrightarrow> tbl (pd_entry s as i) \<in> pt_pages s as"
  by (auto simp: pt_pages_def)

lemma pt_pages_cong:
  "(\<And>i. i < 1024 \<Longrightarrow> pd_entry t as i = pd_entry s as i) \<Longrightarrow> pt_pages t as = pt_pages s as"
  unfolding pt_pages_def by (intro arg_cong [of _ _ "insert as"] Collect_cong ex_cong1) auto

lemma pt_pages_ok: "as_ok s as \<Longrightarrow> q \<in> pt_pages s as \<Longrightarrow> table_ok s q"
  by (auto simp: pt_pages_def dest: as_okD)

lemma table_ok_mono:
  "table_ok s q \<Longrightarrow> free_pages t \<subseteq> free_pages s \<Longrightarrow> in_bitmap t = in_bitmap s \<Longrightarrow>
     pmm_max_page t = pmm_max_page s \<Longrightarrow> table_ok t q"
  by (auto simp: table_ok_def page_clear_def)

text \<open>A directory none of whose pages is written keeps its whole translation.\<close>

lemma pages_kept:
  assumes "as_ok s as" "\<And>q. q \<in> pt_pages s as \<Longrightarrow> same_page s t (vmm_phys_to_virt q)"
  shows "i < 1024 \<Longrightarrow> pd_entry t as i = pd_entry s as i" and "pte t as v = pte s as v"
proof -
  have pd: "pd_entry t as i = pd_entry s as i" if "i < 1024" for i
    using that assms(2) [of as] table_okD(3) [OF as_okD(1) [OF assms(1)]]
    by (simp add: pd_entry_def pt_pages_def arr_same_page)
  then show "i < 1024 \<Longrightarrow> pd_entry t as i = pd_entry s as i" .
  show "pte t as v = pte s as v"
    using pd [of "VMM_PDE_INDEX v"] assms(2) pt_pagesI(2) [of "VMM_PDE_INDEX v" s as]
      table_okD(3) [OF as_okD(2) [OF assms(1)], of "VMM_PDE_INDEX v"]
    by (auto simp: pte_def Let_def arr_same_page)
qed

lemma as_ok_kept:
  assumes "as_ok s as" "\<And>q. q \<in> pt_pages s as \<Longrightarrow> same_page s t (vmm_phys_to_virt q)"
    and "free_pages t \<subseteq> free_pages s" "in_bitmap t = in_bitmap s" "pmm_max_page t = pmm_max_page s"
  shows "as_ok t as" "pt_pages t as = pt_pages s as"
  using assms(1) pages_kept(1) [OF assms(1,2)] table_ok_mono [OF _ assms(3-5)]
    pt_pages_cong [OF pages_kept(1) [OF assms(1,2)]]
  by (auto simp: as_ok_def)

section \<open>Steps on one address space\<close>

text \<open>
  What a paging operation on \<open>as\<close> may do besides changing entries: take free frames for new
  page tables, and write the pages \<open>W\<close>.
\<close>

definition vm_step :: "'a vmm_state_scheme \<Rightarrow> 'a vmm_state_scheme \<Rightarrow> u32 \<Rightarrow> u32 set \<Rightarrow> bool" where
  "vm_step s t as W \<longleftrightarrow> mem_ok t \<and> as_ok t as \<and> in_bitmap t = in_bitmap s \<and>
     pmm_max_page t = pmm_max_page s \<and> kernel_page_directory t = kernel_page_directory s \<and>
     (\<forall>i<1024. odd (pd_entry s as i) \<longrightarrow>
        odd (pd_entry t as i) \<and> tbl (pd_entry t as i) = tbl (pd_entry s as i)) \<and>
     frame ` (pt_pages t as - pt_pages s as) \<subseteq> free_pages s \<and>
     free_pages t = free_pages s - frame ` (pt_pages t as - pt_pages s as) \<and>
     W \<subseteq> pt_pages t as \<and>
     (\<forall>x. \<not> in_bitmap s x \<longrightarrow> frame x \<notin> frame ` vmm_phys_to_virt ` W \<longrightarrow> kmem t x = kmem s x)"

lemma vm_stepD:
  assumes "vm_step s t as W"
  shows "mem_ok t" "as_ok t as" "in_bitmap t = in_bitmap s" "pmm_max_page t = pmm_max_page s"
    "kernel_page_directory t = kernel_page_directory s"
    "i < 1024 \<Longrightarrow> odd (pd_entry s as i) \<Longrightarrow> odd (pd_entry t as i)"
    "i < 1024 \<Longrightarrow> odd (pd_entry s as i) \<Longrightarrow> tbl (pd_entry t as i) = tbl (pd_entry s as i)"
    "frame ` (pt_pages t as - pt_pages s as) \<subseteq> free_pages s"
    "free_pages t = free_pages s - frame ` (pt_pages t as - pt_pages s as)"
    "W \<subseteq> pt_pages t as"
    "\<not> in_bitmap s x \<Longrightarrow> frame x \<notin> frame ` vmm_phys_to_virt ` W \<Longrightarrow> kmem t x = kmem s x"
  using assms [unfolded vm_step_def] by simp_all

lemma vm_step_mono: "vm_step s t as W \<Longrightarrow> pt_pages s as \<subseteq> pt_pages t as"
proof
  fix q assume st: "vm_step s t as W" and "q \<in> pt_pages s as"
  then consider "q = as" | i where "i < 1024" "odd (pd_entry s as i)" "q = tbl (pd_entry s as i)"
    by (auto simp: pt_pages_def)
  then show "q \<in> pt_pages t as"
  proof cases
    case 2
    then show ?thesis
      using pt_pagesI(2) [OF 2(1) vm_stepD(6) [OF st 2(1,2)]] vm_stepD(7) [OF st 2(1,2)] by simp
  qed (simp add: pt_pagesI)
qed

lemma vm_step_trans:
  assumes "vm_step s t as V" "vm_step t u as W"
  shows "vm_step s u as (V \<union> W)"
proof -
  note S = vm_stepD [OF assms(1)] and T = vm_stepD [OF assms(2)]
  let ?N = "\<lambda>s t. frame ` (pt_pages t as - pt_pages s as)"
  have "pt_pages u as - pt_pages s as = (pt_pages t as - pt_pages s as) \<union> (pt_pages u as - pt_pages t as)"
    using vm_step_mono [OF assms(1)] vm_step_mono [OF assms(2)] by blast
  then have N: "?N s u = ?N s t \<union> ?N t u" by (simp only: image_Un)
  have fp: "?N s u \<subseteq> free_pages s" "free_pages u = free_pages s - ?N s u"
    unfolding N using S(8,9) T(8,9) by blast+
  have W: "V \<union> W \<subseteq> pt_pages u as" using S(10) T(10) vm_step_mono [OF assms(2)] by blast
  have "kmem u x = kmem s x" if "\<not> in_bitmap s x" "frame x \<notin> frame ` vmm_phys_to_virt ` (V \<union> W)" for x
    using that S(3) S(11) T(11) by (simp add: image_Un)
  then show ?thesis unfolding vm_step_def using S(3-7) T(1-7) fp W by simp
qed

lemma vm_step_refl: "mem_ok s \<Longrightarrow> as_ok s as \<Longrightarrow> vm_step s s as {}"
  by (simp add: vm_step_def)

lemma page_clear_arr_upd_other:
  assumes "page_aligned p" "i < 1024" "frame x \<noteq> frame p"
  shows "kmem (arr_upd p i v s) x = kmem s x"
  using cell_in_page [OF assms(1,2), of x] assms(3)
  by (auto simp: arr_upd_def not_less [symmetric] intro!: st32_other)

lemma virt_page_neq:
  assumes "table_ok s p" "table_ok s q" "p \<noteq> q"
  shows "vmm_phys_to_virt p \<noteq> vmm_phys_to_virt q" "frame (vmm_phys_to_virt p) \<noteq> frame (vmm_phys_to_virt q)"
proof -
  show *: "vmm_phys_to_virt p \<noteq> vmm_phys_to_virt q"
    using assms virt_inj table_okD(2) by blast
  then show "frame (vmm_phys_to_virt p) \<noteq> frame (vmm_phys_to_virt q)"
    using assms table_okD(3) page_aligned_eq by blast
qed

text \<open>Writing one entry of a page table.\<close>

lemma write_pte:
  fixes e :: u32 and s :: "'a vmm_state_scheme"
  assumes "mem_ok s" "as_ok s as" "odd (pd_entry s as (VMM_PDE_INDEX v))"
  defines "T \<equiv> tbl (pd_entry s as (VMM_PDE_INDEX v))"
  defines "t \<equiv> arr_upd (vmm_phys_to_virt T) (VMM_PTE_INDEX v) e s"
  shows "vm_step s t as {T}" and "i < 1024 \<Longrightarrow> pd_entry t as i = pd_entry s as i"
    and "pte t as w = (if frame w = frame v then e else pte s as w)"
proof -
  have T: "table_ok s T" "T \<noteq> as" using as_okD(2,3) [OF assms(2) _ assms(3)] by (simp_all add: T_def)
  note T' = table_okD [OF T(1)] and D = table_okD [OF as_okD(1) [OF assms(2)]]
  have fr: "mem_frame s t" unfolding t_def using T' by (intro mem_frame_arr_upd) simp_all
  note F = mem_frame_fields [OF fr]
  have other: "same_page s t (vmm_phys_to_virt q)" if "table_ok s q" "q \<noteq> T" for q
    unfolding t_def using T' table_okD(3) [OF that(1)] virt_page_neq(1) [OF T(1) that(1)] that(2)
    by (intro arr_upd_page) auto
  show pd: "pd_entry t as i = pd_entry s as i" if "i < 1024" for i
    using that other [OF as_okD(1) [OF assms(2)]] T(2) D by (auto simp: pd_entry_def arr_same_page)
  then have pp: "pt_pages t as = pt_pages s as" by (rule pt_pages_cong)
  have ok: "as_ok t as" using assms(2) pd by (simp add: as_ok_def F)
  show "vm_step s t as {T}"
    using assms(1) ok pd pp F T' pt_pagesI(2) [of "VMM_PDE_INDEX v" s as] assms(3)
    by (auto simp: vm_step_def T_def [symmetric] page_clear_arr_upd_other [of "vmm_phys_to_virt T"] t_def)
       (simp add: arr_upd_def)
  show "pte t as w = (if frame w = frame v then e else pte s as w)"
  proof (cases "VMM_PDE_INDEX w = VMM_PDE_INDEX v")
    case True
    then show ?thesis
      using assms(3) pd [of "VMM_PDE_INDEX v"]
      by (auto simp: pte_def Let_def same_frame_index T_def [symmetric]) (auto simp: t_def arr_upd_arr)
  next
    case False
    have "arr t (vmm_phys_to_virt (tbl (pd_entry s as (VMM_PDE_INDEX w)))) (VMM_PTE_INDEX w) =
      arr s (vmm_phys_to_virt (tbl (pd_entry s as (VMM_PDE_INDEX w)))) (VMM_PTE_INDEX w)"
      if "odd (pd_entry s as (VMM_PDE_INDEX w))"
      using that False assms(2,3) as_okD(2) [OF assms(2) _ that] other as_okD(4) [OF assms(2)]
      by (intro arr_same_page) (auto simp: T_def intro: table_okD)
    then show ?thesis using False pd by (auto simp: pte_def Let_def same_frame_index)
  qed
qed

text \<open>Writing one entry of the directory.\<close>

lemma write_pde:
  fixes e :: u32 and s :: "'a vmm_state_scheme"
  assumes "table_ok s as" "i < 1024"
  defines "t \<equiv> arr_upd (vmm_phys_to_virt as) i e s"
  shows "mem_frame s t" "kernel_page_directory t = kernel_page_directory s"
    and "j < 1024 \<Longrightarrow> pd_entry t as j = (if j = i then e else pd_entry s as j)"
    and "table_ok s q \<Longrightarrow> q \<noteq> as \<Longrightarrow> same_page s t (vmm_phys_to_virt q)"
    and "frame x \<noteq> frame (vmm_phys_to_virt as) \<Longrightarrow> kmem t x = kmem s x"
proof -
  note D = table_okD [OF assms(1)]
  show "mem_frame s t" unfolding t_def using D assms(2) by (intro mem_frame_arr_upd)
  show "kernel_page_directory t = kernel_page_directory s" by (simp add: t_def arr_upd_def)
  show "j < 1024 \<Longrightarrow> pd_entry t as j = (if j = i then e else pd_entry s as j)"
    using assms(2) by (auto simp: t_def pd_entry_def arr_upd_arr)
  show "frame x \<noteq> frame (vmm_phys_to_virt as) \<Longrightarrow> kmem t x = kmem s x"
    unfolding t_def using D assms(2) by (intro page_clear_arr_upd_other)
  show "same_page s t (vmm_phys_to_virt q)" if "table_ok s q" "q \<noteq> as"
    unfolding t_def using D table_okD(3) [OF that(1)] virt_page_neq(1) [OF assms(1) that(1)] that(2) assms(2)
    by (intro arr_upd_page) auto
qed

lemma pte_same:
  assumes "pd_entry t as (VMM_PDE_INDEX v) = e" "pd_entry s as (VMM_PDE_INDEX v) = d"
    and "odd e \<longleftrightarrow> odd d" "tbl e = tbl d"
    and "odd d \<Longrightarrow> page_aligned (vmm_phys_to_virt (tbl d)) \<and> same_page s t (vmm_phys_to_virt (tbl d))"
  shows "pte t as v = pte s as v"
  using assms by (auto simp: pte_def Let_def arr_same_page)

lemma or_pde:
  fixes f :: u32 and s :: "'a vmm_state_scheme"
  assumes "mem_ok s" "as_ok s as" "i < 1024" "odd (pd_entry s as i)" "drop_bit 12 f = 0"
  defines "t \<equiv> arr_upd (vmm_phys_to_virt as) i (pd_entry s as i OR f) s"
  shows "vm_step s t as {as}" and "pte t as w = pte s as w"
    and "pd_entry t as i = pd_entry s as i OR f" "j < 1024 \<Longrightarrow> j \<noteq> i \<Longrightarrow> pd_entry t as j = pd_entry s as j"
proof -
  note W = write_pde [OF as_okD(1) [OF assms(2)] assms(3), where e = "pd_entry s as i OR f", folded t_def]
  note F = mem_frame_fields [OF W(1)]
  show pd: "pd_entry t as i = pd_entry s as i OR f" using W(3) assms(3) by simp
  show "j < 1024 \<Longrightarrow> j \<noteq> i \<Longrightarrow> pd_entry t as j = pd_entry s as j" using W(3) by simp
  have keep: "(odd (pd_entry t as j) \<longleftrightarrow> odd (pd_entry s as j)) \<and> tbl (pd_entry t as j) = tbl (pd_entry s as j)"
    if "j < 1024" for j
    using W(3) [OF that] assms(4,5) by (auto simp: tbl_or even_or_iff)
  then have pp: "pt_pages t as = pt_pages s as"
    unfolding pt_pages_def by (intro arg_cong [of _ _ "insert as"] Collect_cong ex_cong1) auto
  have "as_ok t as" using assms(2) keep by (simp add: as_ok_def F)
  then show "vm_step s t as {as}"
    using assms(1) keep pp F W(2,5) by (simp add: vm_step_def pt_pagesI)
  show "pte t as w = pte s as w"
    using keep [of "VMM_PDE_INDEX w"] as_okD(2,3) [OF assms(2)] W(4) table_okD(3) [of s]
    by (intro pte_same [OF refl refl]) simp_all
qed

text \<open>A fresh, zeroed frame.\<close>

lemma fresh_page:
  fixes s :: "'a vmm_state_scheme"
  assumes "mem_ok s" "pmm_alloc_page s = (p, u)" "p \<noteq> 0" "vmm_phys_to_virt p \<noteq> 0"
  defines "z \<equiv> mem_zero_page (vmm_phys_to_virt p) u"
  shows "mem_ok z" "table_ok z p" "frame p \<in> free_pages s" "free_pages z = free_pages s - {frame p}"
    and "in_bitmap z = in_bitmap s" "pmm_max_page z = pmm_max_page s"
    and "kernel_page_directory z = kernel_page_directory s"
    and "table_ok s q \<Longrightarrow> table_ok z q" "table_ok s q \<Longrightarrow> q \<noteq> p"
    and "table_ok s q \<Longrightarrow> same_page s z (vmm_phys_to_virt q)"
    and "k < 1024 \<Longrightarrow> arr z (vmm_phys_to_virt p) k = 0"
    and "\<not> in_bitmap s x \<Longrightarrow> frame x \<noteq> frame (vmm_phys_to_virt p) \<Longrightarrow> kmem z x = kmem s x"
proof -
  note A = alloc_page_spec [OF assms(1-3)]
  have up: "table_ok u p" using A(7) assms(4) by simp
  have "mem_frame u z" unfolding z_def using table_okD [OF up] by (intro mem_frame_zero_page)
  note Z = mem_frame_fields [OF this]
  show "mem_ok z" "table_ok z p" "frame p \<in> free_pages s" "free_pages z = free_pages s - {frame p}"
    "in_bitmap z = in_bitmap s" "pmm_max_page z = pmm_max_page s" using A up by (simp_all add: Z)
  show "kernel_page_directory z = kernel_page_directory s"
    using kernel_dir_alloc [OF assms(2)] by (simp add: z_def mem_zero_page_def)
  show pne: "q \<noteq> p" if "table_ok s q" for q using A(3) table_okD(5) [OF that] by auto
  have uq: "table_ok u q" if "table_ok s q" for q
    by (rule table_ok_mono [OF that]) (auto simp: A)
  then show "table_ok s q \<Longrightarrow> table_ok z q" by (simp add: Z)
  show km: "kmem z x = kmem s x" if "\<not> in_bitmap s x" "frame x \<noteq> frame (vmm_phys_to_virt p)" for x
    using that pmm.memory_alloc [OF assms(2)] table_okD(3) [OF up]
    by (simp add: z_def mem_zero_page_def memset_eq PMM_PAGE_SIZE_eq frame_of_page)
  show "same_page s z (vmm_phys_to_virt q)" if "table_ok s q"
    using km table_okD(6) [OF that] virt_page_neq(2) [OF uq [OF that] up pne [OF that]]
    by (auto simp: same_page_def page_clear_def)
  show "k < 1024 \<Longrightarrow> arr z (vmm_phys_to_virt p) k = 0"
    unfolding z_def using table_okD(3) [OF up] by (intro zero_page_arr)
qed

text \<open>Entering a table into an empty slot of the directory.\<close>

lemma insert_table:
  fixes e :: u32 and s :: "'a vmm_state_scheme"
  assumes "as_ok s as" "i < 1024" "even (pd_entry s as i)" "table_ok s p" "p \<notin> pt_pages s as"
    and e: "odd e" "tbl e = p"
  defines "t \<equiv> arr_upd (vmm_phys_to_virt as) i e s"
  shows "as_ok t as" "pt_pages t as = insert p (pt_pages s as)" 
    and "pte t as w = (if VMM_PDE_INDEX w = i then arr s (vmm_phys_to_virt p) (VMM_PTE_INDEX w) else pte s as w)"
    and "pd_entry t as i = e"
    and "j < 1024 \<Longrightarrow> j \<noteq> i \<Longrightarrow> pd_entry t as j = pd_entry s as j"
proof -
  note W = write_pde [OF as_okD(1) [OF assms(1)] assms(2), where e = e, folded t_def]
  note F = mem_frame_fields [OF W(1)]
  have pn: "p \<noteq> as" "\<And>j. j < 1024 \<Longrightarrow> odd (pd_entry s as j) \<Longrightarrow> tbl (pd_entry s as j) \<noteq> p"
    using assms(5) by (auto simp: pt_pages_def)
  show ti: "pd_entry t as i = e" using W(3) assms(2) by simp
  then have odd: "odd (pd_entry t as i)" and tp: "tbl (pd_entry t as i) = p" using e by simp_all
  show tj: "pd_entry t as j = pd_entry s as j" if "j < 1024" "j \<noteq> i" for j
    using W(3) [OF that(1)] that(2) by simp
  show "as_ok t as"
    unfolding as_ok_def F
  proof (intro conjI allI impI)
    show "table_ok s as" using as_okD(1) [OF assms(1)] .
    fix j assume j: "j < 1024" "odd (pd_entry t as j)"
    show "table_ok s (tbl (pd_entry t as j))" "tbl (pd_entry t as j) \<noteq> as"
      using j tj [of j] tp assms(4) pn(1) as_okD(2,3) [OF assms(1), of j] by (cases "j = i"; simp)+
    fix k assume k: "k < 1024" "j \<noteq> k" "odd (pd_entry t as k)"
    then show "tbl (pd_entry t as j) \<noteq> tbl (pd_entry t as k)"
      using j tj [of j] tj [of k] tp pn(2) as_okD(4) [OF assms(1), of j k] by (metis)
  qed
  show "pt_pages t as = insert p (pt_pages s as)"
  proof (intro equalityI subsetI)
    fix q assume "q \<in> pt_pages t as"
    then show "q \<in> insert p (pt_pages s as)"
      using tj tp by (auto simp: pt_pages_def) metis
  next
    fix q assume "q \<in> insert p (pt_pages s as)"
    then consider "q = as" | "q = p" | j where "j < 1024" "odd (pd_entry s as j)" "q = tbl (pd_entry s as j)"
      by (auto simp: pt_pages_def)
    then show "q \<in> pt_pages t as"
    proof cases
      case 3
      then have "pd_entry t as j = pd_entry s as j" using tj assms(3) by auto
      with 3 show ?thesis using pt_pagesI(2) [of j t as] by simp
    qed (use pt_pagesI odd tp assms(2) in auto)
  qed
  show "pte t as w = (if VMM_PDE_INDEX w = i then arr s (vmm_phys_to_virt p) (VMM_PTE_INDEX w) else pte s as w)"
  proof (cases "VMM_PDE_INDEX w = i")
    case True
    have "same_page s t (vmm_phys_to_virt p)" using W(4) assms(4) pn by simp
    then have "arr t (vmm_phys_to_virt p) k = arr s (vmm_phys_to_virt p) k" if "k < 1024" for k
      using arr_same_page [OF table_okD(3) [OF assms(4)] that, of s t] by simp
    then show ?thesis using True odd tp assms(3) by (simp add: pte_def)
  next
    case False
    then have "pte t as w = pte s as w"
      using tj [of "VMM_PDE_INDEX w"] as_okD(2,3) [OF assms(1)] W(4) table_okD(3) [of s]
      by (intro pte_same [OF refl refl]) simp_all
    then show ?thesis using False by simp
  qed
qed

text \<open>Installing a fresh page table, as \<open>vmm_map_page_in\<close> does.\<close>

lemma new_table:
  fixes s :: "'a vmm_state_scheme"
  assumes "mem_ok s" "as_ok s as" "i < 1024" "even (pd_entry s as i)"
    and "pmm_alloc_page s = (p, u)" "p \<noteq> 0" "vmm_phys_to_virt p \<noteq> 0"
  defines "t \<equiv> arr_upd (vmm_phys_to_virt as) i (p OR 1) (mem_zero_page (vmm_phys_to_virt p) u)"
  shows "vm_step s t as {as, p}" "pte t as w = pte s as w"
    and "odd (pd_entry t as i)" "tbl (pd_entry t as i) = p"
    and "j < 1024 \<Longrightarrow> j \<noteq> i \<Longrightarrow> pd_entry t as j = pd_entry s as j"
proof -
  let ?z = "mem_zero_page (vmm_phys_to_virt p) u"
  note Z = fresh_page [OF assms(1,5-7)]
  have keep: "same_page s ?z (vmm_phys_to_virt q)" if "q \<in> pt_pages s as" for q
    using Z(10) pt_pages_ok [OF assms(2) that] .
  have okz: "as_ok ?z as" and pz: "pt_pages ?z as = pt_pages s as"
    using as_ok_kept [OF assms(2) keep] Z(4-6) by auto
  note K = pages_kept [OF assms(2) keep]
  have pn: "p \<notin> pt_pages s as" using Z(9) pt_pages_ok [OF assms(2)] by blast
  have ev: "even (pd_entry ?z as i)" using K(1) assms(3,4) by simp
  have e: "odd (p OR 1)" "tbl (p OR 1) = p"
    using table_okD(1) [OF Z(2)] by (simp_all add: even_or_iff tbl_or tbl_of_aligned)
  note I = insert_table [OF okz assms(3) ev Z(2) _ e, unfolded pz, OF pn, folded t_def]
  note W = write_pde [OF as_okD(1) [OF okz] assms(3), where e = "p OR 1", folded t_def]
  note F = mem_frame_fields [OF W(1)]
  show "pte t as w = pte s as w" using I(3) K(2) Z(11) assms(4) by (simp add: pte_def)
  show "odd (pd_entry t as i)" "tbl (pd_entry t as i) = p" using I(4) e by simp_all
  show "j < 1024 \<Longrightarrow> j \<noteq> i \<Longrightarrow> pd_entry t as j = pd_entry s as j" using I(5) K(1) by simp
  have "pt_pages t as - pt_pages s as = {p}" using I(2) pn by auto
  then show "vm_step s t as {as, p}"
    unfolding vm_step_def using Z(1,3-7,12) I(1,2,5) K(1) W(2,5) assms(4)
    by (simp add: F pt_pagesI) metis
qed

section \<open>Mapping and unmapping\<close>

text \<open>The pages an operation on \<open>v\<close> may write.\<close>

definition walk_pages :: "'a pmm_state_scheme \<Rightarrow> u32 \<Rightarrow> u32 \<Rightarrow> u32 set" where
  "walk_pages s as v = insert as
     (let e = pd_entry s as (VMM_PDE_INDEX v) in if odd e then {tbl e} else {})"

lemma vm_step_weaken:
  "vm_step s t as W \<Longrightarrow> W \<subseteq> V \<Longrightarrow> V \<subseteq> pt_pages t as \<Longrightarrow> vm_step s t as V"
proof -
  assume st: "vm_step s t as W" and V: "W \<subseteq> V" "V \<subseteq> pt_pages t as"
  have "frame ` vmm_phys_to_virt ` W \<subseteq> frame ` vmm_phys_to_virt ` V" using V(1) by (intro image_mono)
  then have "kmem t x = kmem s x" if "\<not> in_bitmap s x" "frame x \<notin> frame ` vmm_phys_to_virt ` V" for x
    using vm_stepD(11) [OF st that(1)] that(2) by (meson subsetD)
  then show ?thesis using vm_stepD(1-9) [OF st] V(2) unfolding vm_step_def by simp
qed

lemma get_page_table_eq:
  assumes "as_ok s as"
  shows "vmm_get_page_table_in as v s = (let e = pd_entry s as (VMM_PDE_INDEX v)
    in if even e then 0 else vmm_phys_to_virt (tbl e))"
  using table_okD(2,4) [OF as_okD(1) [OF assms]]
  by (simp add: vmm_get_page_table_in_def pd_entry_def Let_def and_one_eq even_iff_mod_2_eq_zero)

text \<open>Only the directory entry of \<open>v\<close> changes.\<close>

definition same_pdes :: "'a pmm_state_scheme \<Rightarrow> 'a pmm_state_scheme \<Rightarrow> u32 \<Rightarrow> u32 \<Rightarrow> bool" where
  "same_pdes s t as v \<longleftrightarrow> (\<forall>j<1024. j \<noteq> VMM_PDE_INDEX v \<longrightarrow> pd_entry t as j = pd_entry s as j)"

text \<open>\<open>vmm_get_paddr_in\<close> reads the abstract page map.\<close>

lemma get_paddr_eq:
  assumes "as_ok s as"
  shows "vmm_get_paddr_in as v (Some c) s =
    (if even (pte s as v) then (- 1, Some c) else (0, Some (tbl (pte s as v) OR (v AND 0xfff))))"
  using as_okD(2) [OF assms, of "VMM_PDE_INDEX v"] table_okD(2)
  by (auto simp: vmm_get_paddr_in_def get_page_table_eq [OF assms] pte_def Let_def)

lemma tlb_irrelevant [simp]:
  "arr (paging_tlb_invalidate v s) = arr s" "pd_entry (paging_tlb_invalidate v s) = pd_entry s"
  "pte (paging_tlb_invalidate v s) = pte s" "pt_pages (paging_tlb_invalidate v s) = pt_pages s"
  "free_pages (paging_tlb_invalidate v s) = free_pages s" "mem_ok (paging_tlb_invalidate v s) = mem_ok s"
  "table_ok (paging_tlb_invalidate v s) = table_ok s" "as_ok (paging_tlb_invalidate v s) = as_ok s"
  "in_bitmap (paging_tlb_invalidate v s) = in_bitmap s"
proof -
  have "pmm_same s (paging_tlb_invalidate v s)" by (simp add: pmm_same_def paging_tlb_invalidate_def)
  note * = pmm_same_parts [OF this]
  show "arr (paging_tlb_invalidate v s) = arr s" "pd_entry (paging_tlb_invalidate v s) = pd_entry s"
    "pte (paging_tlb_invalidate v s) = pte s" "pt_pages (paging_tlb_invalidate v s) = pt_pages s"
    "free_pages (paging_tlb_invalidate v s) = free_pages s" "mem_ok (paging_tlb_invalidate v s) = mem_ok s"
    "table_ok (paging_tlb_invalidate v s) = table_ok s" "as_ok (paging_tlb_invalidate v s) = as_ok s"
    "in_bitmap (paging_tlb_invalidate v s) = in_bitmap s" using * by simp_all
qed

lemma rights_bits: "VMM_PAGE_WRITABLE OR VMM_PAGE_USER = 6"
  by (simp add: page_flags)

lemma tlb_step [simp]: "vm_step s (paging_tlb_invalidate v t) as W = vm_step s t as W"
  by (simp add: vm_step_def) (simp add: paging_tlb_invalidate_def)

lemma set_pte_spec:
  assumes "mem_ok s" "as_ok s as" "odd (pd_entry s as (VMM_PDE_INDEX v))"
    and "vmm_set_pte (vmm_phys_to_virt as) (vmm_phys_to_virt (tbl (pd_entry s as (VMM_PDE_INDEX v))))
      v p f s = (r, t)"
  shows "odd (pte s as v) \<Longrightarrow> r = - 1 \<and> t = s"
    and "even (pte s as v) \<Longrightarrow> r = 0 \<and> same_pdes s t as v \<and> vm_step s t as (walk_pages s as v) \<and>
      (\<forall>w. pte t as w = (if frame w = frame v then p OR (f AND 0xfff) else pte s as w)) \<and>
      pd_entry t as (VMM_PDE_INDEX v) = pd_entry s as (VMM_PDE_INDEX v) OR (f AND 6)"
proof -
  let ?i = "VMM_PDE_INDEX v" and ?T = "tbl (pd_entry s as (VMM_PDE_INDEX v))"
  have pte: "pte s as v = arr s (vmm_phys_to_virt ?T) (VMM_PTE_INDEX v)"
    using assms(3) by (simp add: pte_def)
  show "odd (pte s as v) \<Longrightarrow> r = - 1 \<and> t = s"
    using assms(4) by (simp add: vmm_set_pte_def pte)
  have f: "drop_bit 12 (f AND 6) = 0" by simp
  define u where "u = arr_upd (vmm_phys_to_virt as) ?i (pd_entry s as ?i OR (f AND 6)) s"
  note O = or_pde [OF assms(1,2) _ assms(3) f, folded u_def]
  have Tu: "odd (pd_entry u as ?i)" "tbl (pd_entry u as ?i) = ?T"
    using assms(3) f by (simp_all add: O(3) even_or_iff tbl_or)
  note P = write_pte [OF vm_stepD(1,2) [OF O(1)] Tu(1), unfolded Tu(2), where e = "p OR (f AND 0xfff)"]
  assume "even (pte s as v)"
  then have rt: "r = 0" "t = paging_tlb_invalidate v
      (arr_upd (vmm_phys_to_virt ?T) (VMM_PTE_INDEX v) (p OR (f AND 0xfff)) u)"
    using assms(4) by (simp_all add: vmm_set_pte_def pte Let_def u_def rights_bits pd_entry_def)
  have "vm_step s t as (walk_pages s as v)"
    using vm_step_trans [OF O(1) P(1)] assms(3) by (simp add: rt walk_pages_def insert_commute)
  then show "r = 0 \<and> same_pdes s t as v \<and> vm_step s t as (walk_pages s as v) \<and>
      (\<forall>w. pte t as w = (if frame w = frame v then p OR (f AND 0xfff) else pte s as w)) \<and>
      pd_entry t as ?i = pd_entry s as ?i OR (f AND 6)"
    using P(2,3) O(2-4) by (simp add: rt same_pdes_def)
qed

text \<open>A frame outside the direct map is given back at once.\<close>

lemma alloc_undo:
  fixes s :: "'a vmm_state_scheme"
  assumes "mem_ok s" "as_ok s as" "pmm_alloc_page s = (p, u)" "p \<noteq> 0"
  defines "t \<equiv> pmm_free_page p u"
  shows "vm_step s t as {}" and "pte t as w = pte s as w"
    and "j < 1024 \<Longrightarrow> pd_entry t as j = pd_entry s as j"
proof -
  note A = alloc_page_spec [OF assms(1,3,4)]
  have ok: "pmm_ok s" "pmm_ok u" using assms(1) A(1) by (simp_all add: mem_ok_def)
  have fp: "free_pages t = free_pages s"
    unfolding t_def by (rule pmm.release_after_alloc [OF ok(1) assms(3,4)])
  have fr: "pmm_max_page t = pmm_max_page s" "in_bitmap t = in_bitmap s"
    using pmm.frames_release [of p u] by (simp_all add: A t_def)
  have km: "kmem t x = kmem s x" if "\<not> in_bitmap s x" for x
    using that pmm.memory_alloc [OF assms(3)] pmm.memory_release [of u x p] by (simp add: A t_def)
  have mem: "mem_ok t"
    using assms(1) pmm.invar_release [OF ok(2), of p] fp fr
    by (simp add: mem_ok_def bitmap_safe_def page_clear_def t_def)
  have keep: "same_page s t (vmm_phys_to_virt q)" if "q \<in> pt_pages s as" for q
    using km table_okD(6) [OF pt_pages_ok [OF assms(2) that]] by (auto simp: same_page_def page_clear_def)
  note K = pages_kept [OF assms(2) keep]
  show "pte t as w = pte s as w" "j < 1024 \<Longrightarrow> pd_entry t as j = pd_entry s as j"
    using K by simp_all
  have "as_ok t as" "pt_pages t as = pt_pages s as"
    using as_ok_kept [OF assms(2) keep] fp fr by auto
  then show "vm_step s t as {}"
    unfolding vm_step_def using mem fp fr km K(1) kernel_dir_alloc [OF assms(3)] by (simp add: t_def)
qed

definition can_alloc :: "'a pmm_state_scheme \<Rightarrow> bool" where
  "can_alloc s \<longleftrightarrow> free_pages s \<noteq> {} \<and> vmm_phys_to_virt (push_bit 12 (Min (free_pages s))) \<noteq> 0"

lemma alloc_result:
  assumes "mem_ok s" "pmm_alloc_page s = (p, u)"
  shows "p \<noteq> 0 \<and> vmm_phys_to_virt p \<noteq> 0 \<longleftrightarrow> can_alloc s"
    and "p = 0 \<longleftrightarrow> free_pages s = {}" and "p = 0 \<Longrightarrow> u = s"
proof -
  have ok: "pmm_ok s" using assms(1) by (simp add: mem_ok_def)
  show z: "p = 0 \<longleftrightarrow> free_pages s = {}" using pmm.alloc_zero_iff [OF ok assms(2)] .
  show "p = 0 \<Longrightarrow> u = s" using z pmm.alloc_empty [OF ok] assms(2) by auto
  show "p \<noteq> 0 \<and> vmm_phys_to_virt p \<noteq> 0 \<longleftrightarrow> can_alloc s"
  proof (cases rule: pmm_alloc_page_cases [OF ok])
    case (2 i)
    then have "Min (free_pages s) = i" by (intro Min_eqI) simp_all
    then show ?thesis using z 2 assms(2) by (auto simp: can_alloc_def)
  qed (use z assms(2) in \<open>auto simp: can_alloc_def\<close>)
qed

text \<open>User address spaces may only change their own half.\<close>

definition may_map :: "'a vmm_state_scheme \<Rightarrow> u32 \<Rightarrow> u32 \<Rightarrow> bool" where
  "may_map s as v \<longleftrightarrow> as = kernel_page_directory s \<or> VMM_PDE_INDEX v < KERNEL_PDE_INDEX"

definition map_guard :: "'a vmm_state_scheme \<Rightarrow> u32 \<Rightarrow> u32 \<Rightarrow> u32 \<Rightarrow> bool" where
  "map_guard s as v p \<longleftrightarrow> page_aligned v \<and> page_aligned p \<and>
     may_map s as v \<and> even (pte s as v) \<and>
     (even (pd_entry s as (VMM_PDE_INDEX v)) \<longrightarrow> can_alloc s)"

lemma page_mask: "v AND (PMM_PAGE_SIZE - 1) = 0 \<longleftrightarrow> page_aligned v"
  by (simp add: PMM_PAGE_SIZE_eq and_4095 page_aligned_def)

lemma or_present: "q OR VMM_PAGE_PRESENT = q OR 1"
  by (simp add: page_flags)

lemma map_page_in_eq:
  assumes "as_ok s as"
  shows "vmm_map_page_in as v p f s =
    (if \<not> page_aligned v \<or> \<not> page_aligned p \<or>
        \<not> may_map s as v then (- 1, s)
     else if odd (pd_entry s as (VMM_PDE_INDEX v))
     then vmm_set_pte (vmm_phys_to_virt as)
       (vmm_phys_to_virt (tbl (pd_entry s as (VMM_PDE_INDEX v)))) v p f s
     else case pmm_alloc_page s of (q, u) \<Rightarrow>
       if q = 0 then (- 1, u)
       else if vmm_phys_to_virt q = 0 then (- 1, pmm_free_page q u)
       else vmm_set_pte (vmm_phys_to_virt as) (vmm_phys_to_virt q) v p f
         (arr_upd (vmm_phys_to_virt as) (VMM_PDE_INDEX v) (q OR 1)
           (mem_zero_page (vmm_phys_to_virt q) u)))"
  using table_okD(2,4) [OF as_okD(1) [OF assms]]
    table_okD(2) [OF as_okD(2) [OF assms index_less(1) [of v]]]
  by (simp add: vmm_map_page_in_def page_mask Let_def pd_entry_def or_present may_map_def not_less split: prod.splits)

lemma walk_pages_sub: "walk_pages s as v \<subseteq> pt_pages s as"
  by (auto simp: walk_pages_def Let_def intro: pt_pagesI)

lemma walk_pages_step:
  "vm_step s t as (walk_pages s as v) \<Longrightarrow> odd (pd_entry s as (VMM_PDE_INDEX v)) \<Longrightarrow>
     walk_pages t as v = walk_pages s as v"
  by (simp add: walk_pages_def vm_stepD(6,7))

lemma map_page_present:
  assumes "mem_ok s" "as_ok s as" "vmm_map_page_in as v p f s = (r, t)"
    and "odd (pd_entry s as (VMM_PDE_INDEX v))" "map_guard s as v p"
  shows "r = 0 \<and> same_pdes s t as v \<and> vm_step s t as (walk_pages t as v) \<and>
      (\<forall>w. pte t as w = (if frame w = frame v then p OR (f AND 0xfff) else pte s as w)) \<and>
      pd_entry t as (VMM_PDE_INDEX v) = pd_entry s as (VMM_PDE_INDEX v) OR (f AND 6)"
proof -
  have ev: "even (pte s as v)" using assms(5) by (simp add: map_guard_def)
  have "vmm_set_pte (vmm_phys_to_virt as) (vmm_phys_to_virt (tbl (pd_entry s as (VMM_PDE_INDEX v))))
      v p f s = (r, t)"
    using assms(3-5) by (simp add: map_page_in_eq [OF assms(2)] map_guard_def)
  note S = set_pte_spec(2) [OF assms(1,2,4) this ev]
  then show ?thesis using walk_pages_step [OF _ assms(4)] by metis
qed

lemma map_page_absent:
  assumes "mem_ok s" "as_ok s as" "vmm_map_page_in as v p f s = (r, t)"
    and "even (pd_entry s as (VMM_PDE_INDEX v))" "map_guard s as v p"
  shows "r = 0 \<and> same_pdes s t as v \<and> vm_step s t as (walk_pages t as v) \<and>
      (\<forall>w. pte t as w = (if frame w = frame v then p OR (f AND 0xfff) else pte s as w)) \<and>
      (\<exists>q. pd_entry t as (VMM_PDE_INDEX v) = q OR (f AND 6))"
proof -
  obtain q u where qu: "pmm_alloc_page s = (q, u)" by (cases "pmm_alloc_page s")
  have q: "q \<noteq> 0" "vmm_phys_to_virt q \<noteq> 0"
    using assms(4,5) alloc_result(1) [OF assms(1) qu] by (simp_all add: map_guard_def)
  define z where "z = arr_upd (vmm_phys_to_virt as) (VMM_PDE_INDEX v) (q OR 1)
           (mem_zero_page (vmm_phys_to_virt q) u)"
  note N = new_table [OF assms(1,2) index_less(1) assms(4) qu q, folded z_def]
  have ev: "even (pte z as v)" using assms(5) N(2) by (simp add: map_guard_def)
  have "vmm_set_pte (vmm_phys_to_virt as) (vmm_phys_to_virt (tbl (pd_entry z as (VMM_PDE_INDEX v))))
      v p f z = (r, t)"
    using assms(3-5) q by (simp add: map_page_in_eq [OF assms(2)] map_guard_def qu z_def [symmetric] N(4))
  note S = set_pte_spec(2) [OF vm_stepD(1,2) [OF N(1)] N(3) this ev]
  have W: "walk_pages t as v = walk_pages z as v" "walk_pages z as v = {as, q}"
    using walk_pages_step [OF _ N(3)] S by (metis, simp add: walk_pages_def N(3,4))
  have "vm_step s t as (walk_pages t as v)"
    using vm_step_trans [OF N(1), of t "walk_pages z as v"] S W by simp
  moreover have "same_pdes s t as v" using S N(5) by (simp add: same_pdes_def)
  ultimately show ?thesis using S N(2) by auto
qed

lemma and_or_absorb: "(q OR g) AND g = g" for q g :: u32
  by (rule bit_word_eqI) (auto simp: bit_simps)

lemma map_page_in_spec:
  assumes "mem_ok s" "as_ok s as" "vmm_map_page_in as v p f s = (r, t)"
  shows "map_guard s as v p \<Longrightarrow> r = 0 \<and> same_pdes s t as v \<and> vm_step s t as (walk_pages t as v) \<and>
      (\<forall>w. pte t as w = (if frame w = frame v then p OR (f AND 0xfff) else pte s as w)) \<and>
      pd_entry t as (VMM_PDE_INDEX v) AND (f AND 6) = f AND 6"
    and "\<not> map_guard s as v p \<Longrightarrow> r = - 1 \<and> (\<forall>j<1024. pd_entry t as j = pd_entry s as j) \<and> vm_step s t as {} \<and> (\<forall>w. pte t as w = pte s as w)"
proof -
  show "r = 0 \<and> same_pdes s t as v \<and> vm_step s t as (walk_pages t as v) \<and>
      (\<forall>w. pte t as w = (if frame w = frame v then p OR (f AND 0xfff) else pte s as w)) \<and>
      pd_entry t as (VMM_PDE_INDEX v) AND (f AND 6) = f AND 6" if "map_guard s as v p"
  proof (cases "even (pd_entry s as (VMM_PDE_INDEX v))")
    case True
    from map_page_absent [OF assms this that] show ?thesis by (auto simp: and_or_absorb)
  next
    case False
    from map_page_present [OF assms this that] show ?thesis by (auto simp: and_or_absorb)
  qed
  assume no: "\<not> map_guard s as v p"
  show "r = - 1 \<and> (\<forall>j<1024. pd_entry t as j = pd_entry s as j) \<and> vm_step s t as {} \<and> (\<forall>w. pte t as w = pte s as w)"
  proof (cases "t = s \<and> r = - 1")
    case True
    then show ?thesis using vm_step_refl [OF assms(1,2)] by simp
  next
    case False
    obtain q u where qu: "pmm_alloc_page s = (q, u)" by (cases "pmm_alloc_page s")
    have "q \<noteq> 0" "r = - 1" "t = pmm_free_page q u"
      using False no assms(3) set_pte_spec(1) [OF assms(1,2)] alloc_result [OF assms(1) qu]
      by (auto simp: map_page_in_eq [OF assms(2)] map_guard_def qu not_le pte_def split: if_splits)
    then show ?thesis using alloc_undo [OF assms(1,2) qu] by simp
  qed
qed

lemma unmap_page_in_spec:
  assumes "mem_ok s" "as_ok s as" "vmm_unmap_page_in as v s = (r, t)"
  shows "page_aligned v \<and> may_map s as v \<and> odd (pte s as v) \<Longrightarrow>
      r = 0 \<and> same_pdes s t as v \<and> vm_step s t as (walk_pages t as v) \<and>
      (\<forall>w. pte t as w = (if frame w = frame v then 0 else pte s as w)) \<and>
      tlb_log t = tlb_log s @ [v]"
    and "\<not> (page_aligned v \<and> may_map s as v \<and> odd (pte s as v)) \<Longrightarrow> r = - 1 \<and> t = s"
proof -
  let ?e = "pd_entry s as (VMM_PDE_INDEX v)"
  have T: "odd ?e \<Longrightarrow> vmm_phys_to_virt (tbl ?e) \<noteq> 0"
    using table_okD(2) [OF as_okD(2) [OF assms(2)]] by simp
  have eq: "vmm_unmap_page_in as v s =
    (if page_aligned v \<and> may_map s as v \<and> odd (pte s as v)
     then (0, paging_tlb_invalidate v (arr_upd (vmm_phys_to_virt (tbl ?e)) (VMM_PTE_INDEX v) 0 s))
     else (- 1, s))"
    using table_okD(4) [OF as_okD(1) [OF assms(2)]] T
    by (auto simp: vmm_unmap_page_in_def page_mask may_map_def get_page_table_eq [OF assms(2)]
        pte_def Let_def not_le split: if_splits)
  show "\<not> (page_aligned v \<and> may_map s as v \<and> odd (pte s as v)) \<Longrightarrow> r = - 1 \<and> t = s"
    using assms(3) by (auto simp: eq split: if_splits)
  assume g: "page_aligned v \<and> may_map s as v \<and> odd (pte s as v)"
  then have odd: "odd ?e" by (auto simp: pte_def Let_def split: if_splits)
  note P = write_pte [OF assms(1,2) odd, where e = 0]
  have rt: "r = 0" "t = paging_tlb_invalidate v
      (arr_upd (vmm_phys_to_virt (tbl ?e)) (VMM_PTE_INDEX v) 0 s)"
    using g assms(3) by (auto simp: eq)
  have te: "pd_entry t as (VMM_PDE_INDEX v) = ?e" using P(2) by (simp add: rt)
  have st: "vm_step s t as {tbl ?e}" using P(1) by (simp add: rt)
  have "vm_step s t as (walk_pages t as v)"
    using odd te pt_pagesI(1) [of as t] vm_stepD(10) [OF st]
    by (intro vm_step_weaken [OF st]) (simp_all add: walk_pages_def)
  then show "r = 0 \<and> same_pdes s t as v \<and> vm_step s t as (walk_pages t as v) \<and>
      (\<forall>w. pte t as w = (if frame w = frame v then 0 else pte s as w)) \<and>
      tlb_log t = tlb_log s @ [v]"
    using P(2,3) by (simp add: rt same_pdes_def) (simp add: paging_tlb_invalidate_def arr_upd_def)
qed

end
