(* ===== verification/VmmSpaces.thy ===== *)
theory VmmSpaces
  imports VmmProof
begin

text \<open>
  The address spaces of the machine together.  \<open>spaces_ok\<close> says that every user address space
  owns its directory and the page tables of its lower half, so that an operation on one never
  changes the translation of another; it is kept by every operation of \<open>vmm.c\<close> on user
  address spaces, and the kernel's page tables are shared by all.
\<close>

section \<open>Separation\<close>

definition separate :: "'a pmm_state_scheme \<Rightarrow> u32 \<Rightarrow> u32 \<Rightarrow> bool" where
  "separate s a b \<longleftrightarrow> a \<notin> pt_pages s b \<and>
     (\<forall>i<KERNEL_PDE_INDEX. odd (pd_entry s a i) \<longrightarrow> tbl (pd_entry s a i) \<notin> pt_pages s b)"

definition spaces_ok :: "'a vmm_state_scheme \<Rightarrow> u32 set \<Rightarrow> bool" where
  "spaces_ok s A \<longleftrightarrow> mem_ok s \<and> kernel_page_directory s \<notin> A \<and>
     (\<forall>a \<in> insert (kernel_page_directory s) A. as_ok s a) \<and>
     (\<forall>a \<in> A. \<forall>b \<in> insert (kernel_page_directory s) A. a \<noteq> b \<longrightarrow> separate s a b)"

lemma spaces_okD:
  assumes "spaces_ok s A"
  shows "mem_ok s" "kernel_page_directory s \<notin> A" "as_ok s (kernel_page_directory s)"
    "a \<in> A \<Longrightarrow> as_ok s a" "b \<in> insert (kernel_page_directory s) A \<Longrightarrow> as_ok s b"
    "a \<in> A \<Longrightarrow> b \<in> insert (kernel_page_directory s) A \<Longrightarrow> a \<noteq> b \<Longrightarrow> separate s a b"
  using assms by (auto simp: spaces_ok_def)

lemma kernel_index: "i < KERNEL_PDE_INDEX \<Longrightarrow> i < 1024"
  unfolding KERNEL_PDE_INDEX_eq by (erule less_trans) simp

text \<open>Every table after a step was there before or is a frame that was free.\<close>

lemma table_origin:
  assumes st: "vm_step s t a W" and i: "i < 1024" "odd (pd_entry t a i)"
  shows "(odd (pd_entry s a i) \<and> tbl (pd_entry t a i) = tbl (pd_entry s a i)) \<or>
    frame (tbl (pd_entry t a i)) \<in> free_pages s"
proof (cases "odd (pd_entry s a i)")
  case True
  then show ?thesis using vm_stepD(7) [OF st i(1)] by simp
next
  case False
  note ok = vm_stepD(2) [OF st]
  have "tbl (pd_entry t a i) \<noteq> tbl (pd_entry s a j)" if "j < 1024" "odd (pd_entry s a j)" for j
    using as_okD(4) [OF ok i(1) that(1)] vm_stepD(6,7) [OF st that] False i(2) that by metis
  moreover have "tbl (pd_entry t a i) \<noteq> a" using as_okD(3) [OF ok i] .
  ultimately have "tbl (pd_entry t a i) \<in> pt_pages t a - pt_pages s a"
    using pt_pagesI(2) [OF i] by (auto simp: pt_pages_def)
  then show ?thesis using vm_stepD(8) [OF st] by blast
qed

lemma pages_origin:
  assumes st: "vm_step s t a W" and "q \<in> pt_pages t a"
  shows "q \<in> pt_pages s a \<or> frame q \<in> free_pages s"
  using assms(2) vm_stepD(8) [OF st] by blast

lemma step_separate:
  assumes sp: "spaces_ok s A" and a: "a \<in> A" and b: "b \<in> insert (kernel_page_directory s) A" "a \<noteq> b"
    and st: "vm_step s t a (walk_pages t a v)" and v: "VMM_PDE_INDEX v < KERNEL_PDE_INDEX"
  shows "q \<in> pt_pages s b \<Longrightarrow> same_page s t (vmm_phys_to_virt q)"
    and "as_ok t b" "pt_pages t b = pt_pages s b" "pte t b w = pte s b w"
    and "i < 1024 \<Longrightarrow> pd_entry t b i = pd_entry s b i"
proof -
  note sep = spaces_okD(6) [OF sp a b] and okb = spaces_okD(5) [OF sp b(1)]
  have sub: "free_pages t \<subseteq> free_pages s" using vm_stepD(9) [OF st] by blast
  have W: "p \<notin> pt_pages s b" if "p \<in> walk_pages t a v" for p
  proof (cases "p = a")
    case True
    then show ?thesis using sep by (simp add: separate_def)
  next
    case False
    then have p: "p = tbl (pd_entry t a (VMM_PDE_INDEX v))" "odd (pd_entry t a (VMM_PDE_INDEX v))"
      using that by (auto simp: walk_pages_def Let_def split: if_splits)
    then consider "odd (pd_entry s a (VMM_PDE_INDEX v))" "p = tbl (pd_entry s a (VMM_PDE_INDEX v))"
      | "frame p \<in> free_pages s" using table_origin [OF st _ p(2)] by auto
    then show ?thesis
    proof cases
      case 1
      then show ?thesis using sep v by (simp add: separate_def)
    next
      case 2
      then show ?thesis using table_okD(5) [OF pt_pages_ok [OF okb]] by blast
    qed
  qed
  have tt: "table_ok t p" if "table_ok s p" for p
    using table_ok_mono [OF that sub] vm_stepD(3,4) [OF st] by simp
  show keep: "same_page s t (vmm_phys_to_virt q)" if "q \<in> pt_pages s b" for q
    unfolding same_page_def
  proof (intro allI impI)
    fix x assume x: "frame x = frame (vmm_phys_to_virt q)"
    have q: "table_ok s q" using pt_pages_ok [OF okb that] .
    have "frame x \<noteq> frame (vmm_phys_to_virt p)" if "p \<in> walk_pages t a v" for p
    proof -
      have "table_ok t p" using pt_pages_ok [OF vm_stepD(2) [OF st]] vm_stepD(10) [OF st] that by blast
      moreover have "p \<noteq> q" using W [OF that] \<open>q \<in> pt_pages s b\<close> by blast
      ultimately show ?thesis using virt_page_neq(2) [OF _ tt [OF q]] x by metis
    qed
    then have "frame x \<notin> frame ` vmm_phys_to_virt ` walk_pages t a v" by blast
    moreover have "\<not> in_bitmap s x" using table_okD(6) [OF q] x by (simp add: page_clear_def)
    ultimately show "kmem t x = kmem s x" using vm_stepD(11) [OF st] by simp
  qed
  show "as_ok t b" "pt_pages t b = pt_pages s b"
    using as_ok_kept [OF okb keep sub vm_stepD(3,4) [OF st]] by simp_all
  show "pte t b w = pte s b w" "i < 1024 \<Longrightarrow> pd_entry t b i = pd_entry s b i"
    using pages_kept [OF okb keep] by simp_all
qed

lemma step_spaces:
  assumes sp: "spaces_ok s A" and a: "a \<in> A"
    and st: "vm_step s t a (walk_pages t a v)" and v: "VMM_PDE_INDEX v < KERNEL_PDE_INDEX"
  shows "spaces_ok t A"
proof -
  note D = spaces_okD [OF sp] and S = step_separate [OF sp a _ _ st v]
  have free: "q \<notin> pt_pages s b" if "b \<in> insert (kernel_page_directory s) A" "frame q \<in> free_pages s" for q b
    using table_okD(5) [OF pt_pages_ok [OF D(5) [OF that(1)]]] that(2) by blast
  have ab: "separate t a b" if "b \<in> insert (kernel_page_directory s) A" "a \<noteq> b" for b
    unfolding separate_def S(3) [OF that]
  proof (intro conjI allI impI)
    show "a \<notin> pt_pages s b" using D(6) [OF a that] by (simp add: separate_def)
    fix i assume i: "i < KERNEL_PDE_INDEX" "odd (pd_entry t a i)"
    then show "tbl (pd_entry t a i) \<notin> pt_pages s b"
      using table_origin [OF st kernel_index [OF i(1)] i(2)] D(6) [OF a that] free [OF that(1)]
      by (auto simp: separate_def)
  qed
  have ba: "separate t b a" if "b \<in> A" "a \<noteq> b" for b
  proof -
    have "q \<notin> pt_pages t a" if "q \<in> pt_pages s b" "q \<notin> pt_pages s a" for q
      using pages_origin [OF st] that free \<open>b \<in> A\<close> by blast
    then show ?thesis
      using D(6) [OF that(1), of a] a that S(5) [of b] pt_pagesI(1) [of b s] pt_pagesI(2) [of _ s b]
      by (simp add: separate_def kernel_index)
  qed
  have bc: "separate t b c" if "b \<in> A" "c \<in> insert (kernel_page_directory s) A" "b \<noteq> c" "a \<noteq> b" "a \<noteq> c" for b c
    using D(6) [OF that(1-3)] S(3) [OF that(2,5)] S(5) [of b] that
    by (simp add: separate_def kernel_index)
  show ?thesis
    unfolding spaces_ok_def vm_stepD(5) [OF st]
    using vm_stepD(1,2) [OF st] D(2) S(2) ab ba bc a by (intro conjI ballI impI) (auto, metis+)
qed

section \<open>Creation\<close>

text \<open>The loop that copies the kernel half of the directory.\<close>

definition copy_kernel_half :: "u32 \<Rightarrow> u32 \<Rightarrow> 'a vmm_state_scheme \<Rightarrow> 'a vmm_state_scheme" where
  "copy_kernel_half a k = for_u32 KERNEL_PDE_INDEX 1024 (\<lambda>i s.
     arr_upd (vmm_phys_to_virt a) i (arr s (vmm_phys_to_virt k) i) s)"

lemma copy_kernel_half_spec:
  assumes a: "table_ok z a" and k: "table_ok z k" "k \<noteq> a"
  defines "t \<equiv> copy_kernel_half a k z"
  shows "mem_frame z t" "frame x \<noteq> frame (vmm_phys_to_virt a) \<Longrightarrow> kmem t x = kmem z x"
    and "j < 1024 \<Longrightarrow> pd_entry t a j = (if j < KERNEL_PDE_INDEX then pd_entry z a j else pd_entry z k j)"
proof -
  let ?n = "vmm_phys_to_virt a" and ?c = "vmm_phys_to_virt k"
  let ?P = "\<lambda>m u. u = z\<lparr>kmem := kmem u\<rparr> \<and> (\<forall>x. frame x \<noteq> frame ?n \<longrightarrow> kmem u x = kmem z x) \<and>
    (\<forall>j<1024. arr u ?n j = (if KERNEL_PDE_INDEX \<le> j \<and> j < m then arr z ?c j else arr z ?n j))"
  have P: "?P 1024 t"
    unfolding t_def copy_kernel_half_def
  proof (rule for_u32_invariant [where P = ?P])
    fix m :: u32 and u assume m: "KERNEL_PDE_INDEX \<le> m" "m < 1024" "?P m u"
    have "same_page z u ?c" using m(3) virt_page_neq(2) [OF k(1) a k(2)] by (simp add: same_page_def)
    then have "arr u ?c m = arr z ?c m" using m(2) table_okD(3) [OF k(1)] by (intro arr_same_page)
    moreover have "kmem (arr_upd ?n m e u) x = kmem u x" if "frame x \<noteq> frame ?n" for x e
      using that m(2) table_okD(3) [OF a] by (intro page_clear_arr_upd_other)
    moreover have "arr_upd ?n m e u = z\<lparr>kmem := kmem (arr_upd ?n m e u)\<rparr>" for e
      using m(3) unfolding arr_upd_def by (metis (no_types, lifting) pmm_state.update_convs(1) pmm_state.surjective)
    ultimately show "?P (m + 1) (arr_upd ?n m (arr u ?c m) u)"
      using m by (auto simp: arr_upd_arr less_inc [OF m(2)])
  qed (auto simp: KERNEL_PDE_INDEX_eq)
  show "frame x \<noteq> frame ?n \<Longrightarrow> kmem t x = kmem z x" using P by simp
  show "mem_frame z t"
    using P table_okD(6) [OF a] by (auto simp: mem_frame_def page_clear_def)
  show "j < 1024 \<Longrightarrow> pd_entry t a j = (if j < KERNEL_PDE_INDEX then pd_entry z a j else pd_entry z k j)"
    using P by (auto simp: pd_entry_def not_less)
qed

lemma create_eq:
  "vmm_create_address_space s = (case pmm_alloc_page s of (a, u) \<Rightarrow>
     if a = 0 then (0, u) else if vmm_phys_to_virt a = 0 then (0, pmm_free_page a u)
     else (a, copy_kernel_half a (kernel_page_directory u) (mem_zero_page (vmm_phys_to_virt a) u)))"
  by (simp add: vmm_create_address_space_def copy_kernel_half_def Let_def mem_zero_page_def split: prod.splits)

text \<open>A new directory: what the allocation, the clearing and the copy establish.\<close>

lemma create_pages:
  assumes sp: "spaces_ok s A" and c: "vmm_create_address_space s = (a, t)" "can_alloc s"
  shows "mem_ok t" "a \<noteq> 0" "table_ok t a" "frame a \<in> free_pages s" "free_pages t = free_pages s - {frame a}"
    and "in_bitmap t = in_bitmap s" "pmm_max_page t = pmm_max_page s"
    and "kernel_page_directory t = kernel_page_directory s"
    and "table_ok s q \<Longrightarrow> q \<noteq> a \<and> table_ok t q \<and> same_page s t (vmm_phys_to_virt q)"
    and "j < 1024 \<Longrightarrow> pd_entry t a j =
      (if j < KERNEL_PDE_INDEX then 0 else pd_entry s (kernel_page_directory s) j)"
proof -
  note D = spaces_okD [OF sp]
  obtain p u where pu: "pmm_alloc_page s = (p, u)" by (cases "pmm_alloc_page s")
  have p: "p \<noteq> 0" "vmm_phys_to_virt p \<noteq> 0" using alloc_result(1) [OF D(1) pu] c(2) by auto
  define z where "z = mem_zero_page (vmm_phys_to_virt p) u"
  note Z = fresh_page [OF D(1) pu p, folded z_def]
  let ?k = "kernel_page_directory s"
  have at: "a = p" "t = copy_kernel_half p ?k z"
    using c(1) p kernel_dir_alloc [OF pu] by (auto simp: create_eq pu z_def)
  have k: "table_ok s ?k" using as_okD(1) [OF D(3)] .
  note C = copy_kernel_half_spec [OF Z(2) Z(8) [OF k] Z(9) [OF k], folded at(2)]
  note F = mem_frame_fields [OF C(1)]
  show "mem_ok t" "a \<noteq> 0" "table_ok t a" "frame a \<in> free_pages s" "free_pages t = free_pages s - {frame a}"
    "in_bitmap t = in_bitmap s" "pmm_max_page t = pmm_max_page s" using Z p by (simp_all add: F at(1))
  show "kernel_page_directory t = kernel_page_directory s"
    using C(1) Z(7) unfolding mem_frame_def by (metis (no_types, lifting) vmm_state.select_convs(1) vmm_state.surjective pmm_state.update_convs(1))
  show "q \<noteq> a \<and> table_ok t q \<and> same_page s t (vmm_phys_to_virt q)" if "table_ok s q"
    using Z(8-10) [OF that] virt_page_neq(2) [OF Z(8) [OF that] Z(2)] C(2)
    by (auto simp: F at(1) same_page_def)
  have "pd_entry z ?k j = pd_entry s ?k j" if "j < 1024" for j
    unfolding pd_entry_def using that Z(10) [OF k] table_okD(3) [OF k] by (intro arr_same_page)
  then show "j < 1024 \<Longrightarrow> pd_entry t a j = (if j < KERNEL_PDE_INDEX then 0 else pd_entry s ?k j)"
    using C(3) Z(11) by (simp add: at(1) pd_entry_def)
qed

lemma create_old:
  assumes sp: "spaces_ok s A" and c: "vmm_create_address_space s = (a, t)" "can_alloc s"
    and b: "b \<in> insert (kernel_page_directory s) A"
  shows "b \<noteq> a" "as_ok t b" "pt_pages t b = pt_pages s b" "a \<notin> pt_pages s b" "pte t b w = pte s b w"
    and "i < 1024 \<Longrightarrow> pd_entry t b i = pd_entry s b i"
proof -
  note ok = spaces_okD(5) [OF sp b] and C = create_pages [OF sp c]
  have keep: "same_page s t (vmm_phys_to_virt q)" if "q \<in> pt_pages s b" for q
    using C(9) pt_pages_ok [OF ok that] by blast
  show "b \<noteq> a" using C(9) as_okD(1) [OF ok] by blast
  show "a \<notin> pt_pages s b" using C(9) pt_pages_ok [OF ok] by blast
  show "as_ok t b" "pt_pages t b = pt_pages s b" using as_ok_kept [OF ok keep] C(5-7) by auto
  show "pte t b w = pte s b w" "i < 1024 \<Longrightarrow> pd_entry t b i = pd_entry s b i"
    using pages_kept [OF ok keep] by auto
qed

lemma create_new:
  assumes sp: "spaces_ok s A" and c: "vmm_create_address_space s = (a, t)" "can_alloc s"
  shows "as_ok t a" "pt_pages t a \<subseteq> insert a (pt_pages s (kernel_page_directory s))"
    and "pte t a w = (if VMM_PDE_INDEX w < KERNEL_PDE_INDEX then 0 else pte s (kernel_page_directory s) w)"
proof -
  let ?k = "kernel_page_directory s"
  note D = spaces_okD [OF sp] and C = create_pages [OF sp c]
  have up: "pd_entry t a j = pd_entry s ?k j" if "j < 1024" "odd (pd_entry t a j)" for j
    using C(10) [OF that(1)] that(2) by (auto split: if_splits)
  show "as_ok t a"
    unfolding as_ok_def
  proof (intro conjI allI impI)
    show "table_ok t a" using C(3) .
    fix i assume i: "i < 1024" "odd (pd_entry t a i)"
    show "table_ok t (tbl (pd_entry t a i))" "tbl (pd_entry t a i) \<noteq> a"
      using C(9) [OF as_okD(2) [OF D(3) i(1)]] up [OF i] i(2) by simp_all
    fix j assume j: "j < 1024" "i \<noteq> j" "odd (pd_entry t a j)"
    then show "tbl (pd_entry t a i) \<noteq> tbl (pd_entry t a j)"
      using up [OF i] up [OF j(1,3)] as_okD(4) [OF D(3) i(1) j(1)] i(2) by simp
  qed
  show "pt_pages t a \<subseteq> insert a (pt_pages s ?k)"
    using up pt_pagesI(2) [of _ s ?k] by (auto simp: pt_pages_def [of t]) metis
  show "pte t a w = (if VMM_PDE_INDEX w < KERNEL_PDE_INDEX then 0 else pte s ?k w)"
    using C(10) [of "VMM_PDE_INDEX w"] create_old(5) [OF sp c, of ?k w] create_old(6) [OF sp c, of ?k]
    by (auto simp: pte_def Let_def)
qed

lemma create_spaces:
  assumes sp: "spaces_ok s A" and c: "vmm_create_address_space s = (a, t)" "can_alloc s"
  shows "a \<notin> insert (kernel_page_directory s) A" "spaces_ok t (insert a A)"
proof -
  let ?k = "kernel_page_directory s"
  note D = spaces_okD [OF sp] and C = create_pages [OF sp c] and old = create_old [OF sp c]
    and new = create_new [OF sp c]
  show na: "a \<notin> insert ?k A" using old(1) by blast
  have ab: "separate t a b" if "b \<in> insert ?k A" for b
    using old(4) [OF that] C(10) by (simp add: separate_def old(3) [OF that] kernel_index)
  have ba: "separate t b a" if "b \<in> A" for b
  proof -
    have "q \<notin> pt_pages t a" if "q \<in> pt_pages s b" "q \<notin> pt_pages s ?k" for q
      using new(2) that C(9) pt_pages_ok [OF D(4) [OF \<open>b \<in> A\<close>]] by blast
    moreover have "separate s b ?k" using D(6) [OF that, of ?k] D(2) that by auto
    ultimately show ?thesis
      using that old(6) [of b] pt_pagesI(1) [of b s] pt_pagesI(2) [of _ s b]
      by (simp add: separate_def kernel_index)
  qed
  have bc: "separate t b c" if "b \<in> A" "c \<in> insert ?k A" "b \<noteq> c" for b c
    using D(6) [OF that] old(3) [OF that(2)] old(6) [of b] that by (simp add: separate_def kernel_index)
  show "spaces_ok t (insert a A)"
    unfolding spaces_ok_def C(8) using C(1) na D(2) new(1) old(2) ab ba bc
    by (intro conjI ballI impI) auto
qed

lemma create_fails:
  assumes sp: "spaces_ok s A" and c: "vmm_create_address_space s = (a, t)" "\<not> can_alloc s"
  shows "a = 0" "b \<in> insert (kernel_page_directory s) A \<Longrightarrow> vm_step s t b {} \<and> (\<forall>w. pte t b w = pte s b w)"
    and "free_pages t = free_pages s"
proof -
  note D = spaces_okD [OF sp]
  obtain p u where pu: "pmm_alloc_page s = (p, u)" by (cases "pmm_alloc_page s")
  note R = alloc_result [OF D(1) pu]
  have at: "a = 0 \<and> t = (if p = 0 then s else pmm_free_page p u)"
    using c R by (auto simp: create_eq pu split: if_splits)
  then show "a = 0" by simp
  show *: "vm_step s t b {} \<and> (\<forall>w. pte t b w = pte s b w)" if "b \<in> insert (kernel_page_directory s) A" for b
    using alloc_undo [OF D(1) D(5) [OF that] pu] vm_step_refl [OF D(1) D(5) [OF that]] at by simp
  show "free_pages t = free_pages s"
    using at pmm.release_after_alloc [OF _ pu] D(1) by (auto simp: mem_ok_def)
qed

section \<open>Destruction\<close>

definition user_tables :: "'a pmm_state_scheme \<Rightarrow> u32 \<Rightarrow> u32 \<Rightarrow> u32 set" where
  "user_tables s a n = {tbl (pd_entry s a i) |i. i < n \<and> odd (pd_entry s a i)}"

lemma release_table:
  fixes s :: "'a vmm_state_scheme"
  assumes "mem_ok s" "page_aligned p" "p \<noteq> 0" "frame p < pmm_max_page s"
    and "vmm_phys_to_virt p \<noteq> 0 \<longrightarrow> page_clear s (vmm_phys_to_virt p)"
  shows "mem_ok (pmm_free_page p s)" "free_pages (pmm_free_page p s) = insert (frame p) (free_pages s)"
    and "pmm_max_page (pmm_free_page p s) = pmm_max_page s" "in_bitmap (pmm_free_page p s) = in_bitmap s"
    and "\<not> in_bitmap s x \<Longrightarrow> kmem (pmm_free_page p s) x = kmem s x"
proof -
  have ok: "pmm_ok s" using assms(1) by (simp add: mem_ok_def)
  show fp: "free_pages (pmm_free_page p s) = insert (frame p) (free_pages s)"
    by (rule pmm.release_frame [OF ok assms(2-4)])
  show fr: "pmm_max_page (pmm_free_page p s) = pmm_max_page s" "in_bitmap (pmm_free_page p s) = in_bitmap s"
    using pmm.frames_release [of p s] by simp_all
  show "\<not> in_bitmap s x \<Longrightarrow> kmem (pmm_free_page p s) x = kmem s x" by (rule pmm.memory_release)
  show "mem_ok (pmm_free_page p s)"
    using assms(1,5) pmm.invar_release [OF ok, of p] fp fr page_aligned_frame [OF assms(2)]
    by (auto simp: mem_ok_def bitmap_safe_def page_clear_def)
qed

text \<open>The loop that releases the page tables of the lower half.\<close>

definition release_tables :: "u32 \<Rightarrow> 'a vmm_state_scheme \<Rightarrow> 'a vmm_state_scheme" where
  "release_tables a = for_u32 0 KERNEL_PDE_INDEX (\<lambda>i s.
     if arr s (vmm_phys_to_virt a) i AND VMM_PAGE_PRESENT \<noteq> 0
     then pmm_free_page (arr s (vmm_phys_to_virt a) i AND 0xfffff000) s else s)"

lemma user_tables_step:
  assumes "i < KERNEL_PDE_INDEX"
  shows "user_tables s a (i + 1) =
    (if odd (pd_entry s a i) then insert (tbl (pd_entry s a i)) (user_tables s a i) else user_tables s a i)"
  using less_inc [OF assms] by (auto simp: user_tables_def)

lemma release_tables_spec:
  assumes "mem_ok s" "as_ok s a"
  defines "t \<equiv> release_tables a s"
  shows "mem_ok t" "free_pages t = free_pages s \<union> frame ` user_tables s a KERNEL_PDE_INDEX"
    and "pmm_max_page t = pmm_max_page s" "in_bitmap t = in_bitmap s"
    and "kernel_page_directory t = kernel_page_directory s"
    and "\<not> in_bitmap s x \<Longrightarrow> kmem t x = kmem s x"
proof -
  let ?P = "\<lambda>m u. mem_ok u \<and> free_pages u = free_pages s \<union> frame ` user_tables s a m \<and>
    pmm_max_page u = pmm_max_page s \<and> in_bitmap u = in_bitmap s \<and>
    kernel_page_directory u = kernel_page_directory s \<and> (\<forall>x. \<not> in_bitmap s x \<longrightarrow> kmem u x = kmem s x)"
  have "?P KERNEL_PDE_INDEX t"
    unfolding t_def release_tables_def
  proof (rule for_u32_invariant [where P = ?P])
    show "?P 0 s" using assms(1) by (simp add: user_tables_def)
    fix m :: u32 and u assume m: "m < KERNEL_PDE_INDEX" "?P m u"
    note as = table_okD [OF as_okD(1) [OF assms(2)]]
    have "same_page s u (vmm_phys_to_virt a)" using m(2) as(6) by (simp add: same_page_def page_clear_def)
    then have e: "arr u (vmm_phys_to_virt a) m = pd_entry s a m"
      unfolding pd_entry_def using as(3) kernel_index [OF m(1)] by (intro arr_same_page)
    show "?P (m + 1) (if arr u (vmm_phys_to_virt a) m AND VMM_PAGE_PRESENT \<noteq> 0
       then pmm_free_page (arr u (vmm_phys_to_virt a) m AND 0xfffff000) u else u)"
    proof (cases "odd (pd_entry s a m)")
      case True
      have T: "table_ok s (tbl (pd_entry s a m))" using as_okD(2) [OF assms(2) kernel_index [OF m(1)] True] .
      note R = release_table [of u "tbl (pd_entry s a m)"]
      have "mem_ok (pmm_free_page (tbl (pd_entry s a m)) u) \<and>
        free_pages (pmm_free_page (tbl (pd_entry s a m)) u) = insert (frame (tbl (pd_entry s a m))) (free_pages u)"
        using R(1,2) m(2) T by (simp add: table_ok_def page_clear_def)
      then show ?thesis
        using True m(2) R(3-5) T e by (simp add: user_tables_step [OF m(1)] table_ok_def page_clear_def)
    qed (use m e in \<open>simp add: user_tables_step [OF m(1)]\<close>)
  qed (simp add: KERNEL_PDE_INDEX_eq)
  then show "mem_ok t" "free_pages t = free_pages s \<union> frame ` user_tables s a KERNEL_PDE_INDEX"
    "pmm_max_page t = pmm_max_page s" "in_bitmap t = in_bitmap s"
    "kernel_page_directory t = kernel_page_directory s" "\<not> in_bitmap s x \<Longrightarrow> kmem t x = kmem s x"
    by simp_all
qed

lemma destroy_spec:
  assumes sp: "spaces_ok s A" and a: "a \<in> A"
  defines "t \<equiv> vmm_destroy_address_space a s"
  shows "mem_ok t" "free_pages t = insert (frame a) (free_pages s \<union> frame ` user_tables s a KERNEL_PDE_INDEX)"
    and "pmm_max_page t = pmm_max_page s" "in_bitmap t = in_bitmap s"
    and "kernel_page_directory t = kernel_page_directory s"
    and "\<not> in_bitmap s x \<Longrightarrow> kmem t x = kmem s x"
proof -
  note D = spaces_okD [OF sp] and ok = as_okD(1) [OF spaces_okD(4) [OF sp a]]
  have "a \<noteq> kernel_page_directory s" using D(2) a by auto
  then have t: "t = pmm_free_page a (release_tables a s)"
    using table_okD(2,4) [OF ok]
    by (simp add: t_def vmm_destroy_address_space_def release_tables_def Let_def)
  note R = release_tables_spec [OF D(1) D(4) [OF a]]
  have "page_clear (release_tables a s) (vmm_phys_to_virt a)" "frame a < pmm_max_page (release_tables a s)"
    using ok R(3,4) by (simp_all add: table_ok_def page_clear_def)
  note F = release_table [OF R(1) table_okD(1,4) [OF ok] this(2) impI [OF this(1)]]
  show "mem_ok t" "free_pages t = insert (frame a) (free_pages s \<union> frame ` user_tables s a KERNEL_PDE_INDEX)"
    "pmm_max_page t = pmm_max_page s" "in_bitmap t = in_bitmap s"
    "kernel_page_directory t = kernel_page_directory s" "\<not> in_bitmap s x \<Longrightarrow> kmem t x = kmem s x"
    using F R by (simp_all add: t)
qed

lemma destroy_spaces:
  assumes sp: "spaces_ok s A" and a: "a \<in> A"
  defines "t \<equiv> vmm_destroy_address_space a s"
  shows "spaces_ok t (A - {a})"
    and "b \<in> insert (kernel_page_directory s) A \<Longrightarrow> b \<noteq> a \<Longrightarrow> pte t b w = pte s b w"
proof -
  let ?B = "insert (kernel_page_directory s) A - {a}"
  note D = spaces_okD [OF sp] and X = destroy_spec [OF sp a, folded t_def]
  have keep: "same_page s t (vmm_phys_to_virt q)" if "b \<in> ?B" "q \<in> pt_pages s b" for b q
    using X(6) table_okD(6) [OF pt_pages_ok [OF D(5) that(2)]] that(1)
    by (auto simp: same_page_def page_clear_def)
  have tab: "table_ok t q" if "b \<in> ?B" "q \<in> pt_pages s b" for b q
  proof -
    have q: "table_ok s q" using pt_pages_ok [OF D(5) that(2)] that(1) by blast
    have "separate s a b" using D(6) [OF a, of b] that(1) by auto
    then have "q \<noteq> a" "q \<notin> user_tables s a KERNEL_PDE_INDEX"
      using that(2) by (auto simp: separate_def user_tables_def)
    moreover have "page_aligned p" if "p \<in> user_tables s a KERNEL_PDE_INDEX" for p
      using that by (auto simp: user_tables_def)
    ultimately have "frame q \<notin> free_pages t"
      using X(2) table_okD(1,5) [OF q] table_okD(1) [OF as_okD(1) [OF D(4) [OF a]]] page_aligned_eq
      by (auto simp: image_iff)
    then show ?thesis using q X(3,4) by (simp add: table_ok_def page_clear_def)
  qed
  have K: "pte t b w = pte s b w" "\<And>i. i < 1024 \<Longrightarrow> pd_entry t b i = pd_entry s b i"
    "pt_pages t b = pt_pages s b" "as_ok t b" if "b \<in> ?B" for b w
  proof -
    have ok: "as_ok s b" using that D(5) by blast
    show pd: "pd_entry t b i = pd_entry s b i" if "i < 1024" for i
      using pages_kept(1) [OF ok keep [OF \<open>b \<in> ?B\<close>] that] .
    show "pte t b w = pte s b w" using pages_kept(2) [OF ok keep [OF that]] .
    show "pt_pages t b = pt_pages s b" using pd by (rule pt_pages_cong)
    show "as_ok t b" using ok pd tab [OF that] pt_pagesI [of b s] pt_pagesI(2) [of _ s b] by (simp add: as_ok_def)
  qed
  show "b \<in> insert (kernel_page_directory s) A \<Longrightarrow> b \<noteq> a \<Longrightarrow> pte t b w = pte s b w" using K(1) by blast
  have "separate t b c" if "b \<in> A - {a}" "c \<in> ?B" "b \<noteq> c" for b c
    using D(6) [of b c] that K(2) [of b] K(3) [of c] by (simp add: separate_def kernel_index)
  then show "spaces_ok t (A - {a})"
    unfolding spaces_ok_def X(5) using X(1) D(2) K(4) a by (intro conjI ballI impI) auto
qed

end
