(* ===== verification/VmmProps.thy ===== *)
theory VmmProps
  imports VmmSpaces
begin

text \<open>
  The contract of an address space, as the interface \<open>page_map\<close>: a finite map from virtual
  pages to entries that \<open>vmm_map_page_in\<close> and \<open>vmm_unmap_page_in\<close> update, and the part of the
  state (\<open>kept\<close>) that no operation changes.  The interface gives the behaviour
  of whole runs of operations; its interpretation on the page tables carries the properties of
  \<open>vmm.c\<close> below.
\<close>

section \<open>Runs of operations\<close>

datatype vm_op = MapPage u32 u32 u32 | UnmapPage u32

fun run_op :: "(u32 \<Rightarrow> u32 \<Rightarrow> u32 \<Rightarrow> 's \<Rightarrow> int \<times> 's) \<Rightarrow> (u32 \<Rightarrow> 's \<Rightarrow> int \<times> 's) \<Rightarrow> vm_op \<Rightarrow> 's \<Rightarrow> int \<times> 's"
  where
  "run_op mp um (MapPage v p f) s = mp v p f s"
| "run_op mp um (UnmapPage v) s = um v s"

fun run_ops ::
    "(u32 \<Rightarrow> u32 \<Rightarrow> u32 \<Rightarrow> 's \<Rightarrow> int \<times> 's) \<Rightarrow> (u32 \<Rightarrow> 's \<Rightarrow> int \<times> 's) \<Rightarrow> vm_op list \<Rightarrow> 's \<Rightarrow> int list \<times> 's"
  where
  "run_ops mp um [] s = ([], s)"
| "run_ops mp um (x # xs) s =
     (let (r, t) = run_op mp um x s; (rs, u) = run_ops mp um xs t in (r # rs, u))"

text \<open>The abstract page map gives every virtual address the entry of its page.\<close>

fun spec_op :: "vm_op \<times> int \<Rightarrow> (u32 \<Rightarrow> u32) \<Rightarrow> u32 \<Rightarrow> u32" where
  "spec_op (MapPage v p f, r) m =
     (\<lambda>w. if r = 0 \<and> frame w = frame v then p OR (f AND 0xfff) else m w)"
| "spec_op (UnmapPage v, r) m = (\<lambda>w. if r = 0 \<and> frame w = frame v then 0 else m w)"

section \<open>The interface\<close>

locale page_map =
  fixes lookup :: "'s \<Rightarrow> u32 \<Rightarrow> u32"
    and map_page :: "u32 \<Rightarrow> u32 \<Rightarrow> u32 \<Rightarrow> 's \<Rightarrow> int \<times> 's"
    and unmap_page :: "u32 \<Rightarrow> 's \<Rightarrow> int \<times> 's"
    and guard :: "'s \<Rightarrow> u32 \<Rightarrow> u32 \<Rightarrow> bool"
    and allowed :: "u32 \<Rightarrow> bool"
    and kept :: "'s \<Rightarrow> 'k"
    and invar :: "'s \<Rightarrow> bool"
  assumes guard_free: "invar s \<Longrightarrow> guard s v p \<Longrightarrow> allowed v \<and> even (lookup s v)"
    and map_hit: "invar s \<Longrightarrow> guard s v p \<Longrightarrow> map_page v p f s = (r, t) \<Longrightarrow>
      r = 0 \<and> (\<forall>w. lookup t w = (if frame w = frame v then p OR (f AND 0xfff) else lookup s w))"
    and map_miss: "invar s \<Longrightarrow> \<not> guard s v p \<Longrightarrow> map_page v p f s = (r, t) \<Longrightarrow>
      r = - 1 \<and> (\<forall>w. lookup t w = lookup s w)"
    and map_keeps: "invar s \<Longrightarrow> map_page v p f s = (r, t) \<Longrightarrow> invar t \<and> kept t = kept s"
    and unmap_hit: "invar s \<Longrightarrow> allowed v \<Longrightarrow> odd (lookup s v) \<Longrightarrow> unmap_page v s = (r, t) \<Longrightarrow>
      r = 0 \<and> (\<forall>w. lookup t w = (if frame w = frame v then 0 else lookup s w))"
    and unmap_miss: "invar s \<Longrightarrow> \<not> (allowed v \<and> odd (lookup s v)) \<Longrightarrow> unmap_page v s = (r, t) \<Longrightarrow>
      r = - 1 \<and> t = s"
    and unmap_keeps: "invar s \<Longrightarrow> unmap_page v s = (r, t) \<Longrightarrow> invar t \<and> kept t = kept s"
begin

lemma op_spec:
  assumes "invar s" "run_op map_page unmap_page x s = (r, t)"
  shows "invar t" "kept t = kept s" "r = 0 \<or> r = - 1" "lookup t = spec_op (x, r) (lookup s)"
proof -
  have "(invar t \<and> kept t = kept s) \<and> (r = 0 \<or> r = - 1) \<and> lookup t = spec_op (x, r) (lookup s)"
  proof (cases x)
    case (MapPage v p f)
    then have m: "map_page v p f s = (r, t)" using assms(2) by simp
    show ?thesis
      using map_keeps [OF assms(1) m] map_hit [OF assms(1) _ m] map_miss [OF assms(1) _ m]
      by (cases "guard s v p") (auto simp: MapPage fun_eq_iff)
  next
    case (UnmapPage v)
    then have m: "unmap_page v s = (r, t)" using assms(2) by simp
    show ?thesis
      using unmap_keeps [OF assms(1) m] unmap_hit [OF assms(1) _ _ m] unmap_miss [OF assms(1) _ m]
      by (cases "allowed v \<and> odd (lookup s v)") (auto simp: UnmapPage fun_eq_iff)
  qed
  then show "invar t" "kept t = kept s" "r = 0 \<or> r = - 1" "lookup t = spec_op (x, r) (lookup s)"
    by simp_all
qed

lemma runs:
  "invar s \<Longrightarrow> run_ops map_page unmap_page xs s = (rs, t) \<Longrightarrow>
     invar t \<and> kept t = kept s \<and> length rs = length xs \<and> set rs \<subseteq> {0, - 1} \<and>
     lookup t = fold spec_op (zip xs rs) (lookup s)"
proof (induction xs arbitrary: s rs)
  case (Cons x xs)
  obtain r u where x: "run_op map_page unmap_page x s = (r, u)"
    by (cases "run_op map_page unmap_page x s")
  obtain rs' where rs: "run_ops map_page unmap_page xs u = (rs', t)" "rs = r # rs'"
    using Cons.prems(2) x by (auto split: prod.splits)
  note S = op_spec [OF Cons.prems(1) x]
  show ?case using Cons.IH [OF S(1) rs(1)] S(2-4) rs(2) by simp
qed simp

text \<open>Mapping a free page and unmapping it again restores the page map.\<close>

lemma map_unmap:
  assumes "invar s" "guard s v p" "odd f" "map_page v p f s = (r, t)" "unmap_page v t = (r', u)"
  shows "r = 0 \<and> r' = 0 \<and> kept u = kept s \<and> (\<forall>w. lookup u w = (if frame w = frame v then 0 else lookup s w))"
proof -
  note M = map_hit [OF assms(1,2,4)] and K = map_keeps [OF assms(1,4)]
  have "odd (p OR (f AND 0xfff))" using assms(3) by (simp add: even_or_iff even_and_iff)
  then have "odd (lookup t v)" using M by simp
  then have "r' = 0 \<and> (\<forall>w. lookup u w = (if frame w = frame v then 0 else lookup t w))"
    using unmap_hit [of t v r' u] K guard_free [OF assms(1,2)] assms(5) by simp
  then show ?thesis using M unmap_keeps [OF _ assms(5)] K by auto
qed

end

section \<open>The page tables implement it\<close>

text \<open>
  \<open>held\<close>: the free frames and those of the space's own page tables.
\<close>

definition vm_held :: "u32 \<Rightarrow> 'a vmm_state_scheme \<Rightarrow> u32 set" where
  "vm_held a s = free_pages s \<union> frame ` user_tables s a KERNEL_PDE_INDEX"

text \<open>
  What no operation on \<open>a\<close> changes: those frames together, the kernel directory and the
  translations of the other address spaces.
\<close>

definition vm_kept :: "u32 set \<Rightarrow> u32 \<Rightarrow> 'a vmm_state_scheme \<Rightarrow> u32 set \<times> u32 \<times> (u32 \<Rightarrow> u32 \<Rightarrow> u32)" where
  "vm_kept A a s = (vm_held a s, kernel_page_directory s,
     \<lambda>b. if b \<in> insert (kernel_page_directory s) A - {a} then pte s b else (\<lambda>_. 0))"

lemma vm_kept_iff:
  "vm_kept A a t = vm_kept A a s \<longleftrightarrow>
     vm_held a t = vm_held a s \<and> kernel_page_directory t = kernel_page_directory s \<and>
     (\<forall>b \<in> insert (kernel_page_directory s) A - {a}. \<forall>w. pte t b w = pte s b w)"
  by (auto simp: vm_kept_def fun_eq_iff split: if_splits)

definition vm_inv :: "u32 set \<Rightarrow> u32 \<Rightarrow> 'a vmm_state_scheme \<Rightarrow> bool" where
  "vm_inv A a s \<longleftrightarrow> a \<in> A \<and> spaces_ok s A"

definition vm_allowed :: "u32 \<Rightarrow> bool" where
  "vm_allowed v \<longleftrightarrow> page_aligned v \<and> VMM_PDE_INDEX v < KERNEL_PDE_INDEX"

lemma vm_may_map: "vm_inv A a s \<Longrightarrow> may_map s a v \<longleftrightarrow> VMM_PDE_INDEX v < KERNEL_PDE_INDEX"
  by (auto simp: vm_inv_def may_map_def dest: spaces_okD(2))

lemma step_held:
  assumes st: "vm_step s t a W" and same: "same_pdes s t a v" and v: "VMM_PDE_INDEX v < KERNEL_PDE_INDEX"
  shows "vm_held a t = vm_held a s"
proof (intro equalityI subsetI)
  fix x assume "x \<in> vm_held a t"
  then consider "x \<in> free_pages t"
    | i where "i < KERNEL_PDE_INDEX" "odd (pd_entry t a i)" "x = frame (tbl (pd_entry t a i))"
    by (auto simp: vm_held_def user_tables_def)
  then show "x \<in> vm_held a s"
  proof cases
    case 1
    then show ?thesis using vm_stepD(9) [OF st] by (auto simp: vm_held_def)
  next
    case 2
    then show ?thesis
      using table_origin [OF st kernel_index [OF 2(1)] 2(2)] by (auto simp: vm_held_def user_tables_def)
  qed
next
  fix x assume "x \<in> vm_held a s"
  then consider "x \<in> free_pages s"
    | i where "i < KERNEL_PDE_INDEX" "odd (pd_entry s a i)" "x = frame (tbl (pd_entry s a i))"
    by (auto simp: vm_held_def user_tables_def)
  then show "x \<in> vm_held a t"
  proof cases
    case 1
    show ?thesis
    proof (cases "x \<in> free_pages t")
      case False
      then obtain q where q: "q \<in> pt_pages t a" "q \<notin> pt_pages s a" "x = frame q"
        using 1 vm_stepD(9) [OF st] by blast
      then obtain i where i: "i < 1024" "odd (pd_entry t a i)" "q = tbl (pd_entry t a i)"
        using pt_pagesI(1) [of a s] by (auto simp: pt_pages_def [of t])
      have "i = VMM_PDE_INDEX v"
        using i q(2) same pt_pagesI(2) [of i s a] by (auto simp: same_pdes_def)
      then show ?thesis using v i q(3) by (auto simp: vm_held_def user_tables_def)
    qed (simp add: vm_held_def)
  next
    case 2
    then show ?thesis
      using vm_stepD(6,7) [OF st kernel_index [OF 2(1)] 2(2)] by (force simp: vm_held_def user_tables_def)
  qed
qed

text \<open>A step inside the lower half of \<open>a\<close> keeps the invariant and every other address space.\<close>

lemma vm_inv_step:
  assumes inv: "vm_inv A a s" and st: "vm_step s t a (walk_pages t a v)" and same: "same_pdes s t a v"
    and v: "VMM_PDE_INDEX v < KERNEL_PDE_INDEX"
  shows "vm_inv A a t \<and> vm_held a t = vm_held a s \<and> kernel_page_directory t = kernel_page_directory s \<and>
    (\<forall>b \<in> insert (kernel_page_directory s) A - {a}. \<forall>w. pte t b w = pte s b w)"
proof -
  have a: "a \<in> A" and sp: "spaces_ok s A" using inv by (auto simp: vm_inv_def)
  show ?thesis
    using step_spaces [OF sp a st v] step_held [OF st same v] vm_stepD(5) [OF st] a
      step_separate(4) [OF sp a _ _ st v] by (auto simp: vm_inv_def)
qed

lemma vm_map_step:
  assumes inv: "vm_inv A a s" and m: "vmm_map_page_in a v p f s = (r, t)"
  shows "vm_inv A a t \<and> vm_held a t = vm_held a s \<and> kernel_page_directory t = kernel_page_directory s \<and>
    (\<forall>b \<in> insert (kernel_page_directory s) A - {a}. \<forall>w. pte t b w = pte s b w)"
proof -
  have a: "a \<in> A" and sp: "spaces_ok s A" using inv by (auto simp: vm_inv_def)
  note D = spaces_okD [OF sp]
  note M = map_page_in_spec [OF D(1) D(4) [OF a] m]
  show ?thesis
  proof (cases "map_guard s a v p")
    case True
    then show ?thesis
      using M(1) vm_may_map [OF inv] by (intro vm_inv_step [OF inv, where v = v]) (simp_all add: map_guard_def)
  next
    case False
    have "vm_step s t a (walk_pages t a 0)" using M(2) [OF False] walk_pages_sub by (blast intro: vm_step_weaken)
    moreover have "same_pdes s t a 0" using M(2) [OF False] by (simp add: same_pdes_def)
    ultimately show ?thesis
      by (rule vm_inv_step [OF inv]) (simp add: KERNEL_PDE_INDEX_eq VMM_PDE_INDEX_def)
  qed
qed

lemma vm_unmap_step:
  assumes inv: "vm_inv A a s" and m: "vmm_unmap_page_in a v s = (r, t)"
  shows "vm_inv A a t \<and> vm_held a t = vm_held a s \<and> kernel_page_directory t = kernel_page_directory s \<and>
    (\<forall>b \<in> insert (kernel_page_directory s) A - {a}. \<forall>w. pte t b w = pte s b w)"
proof -
  have a: "a \<in> A" and sp: "spaces_ok s A" using inv by (auto simp: vm_inv_def)
  note D = spaces_okD [OF sp]
  note M = unmap_page_in_spec [OF D(1) D(4) [OF a] m]
  show ?thesis
  proof (cases "page_aligned v \<and> may_map s a v \<and> odd (pte s a v)")
    case True
    then show ?thesis using M(1) vm_may_map [OF inv] by (intro vm_inv_step [OF inv, where v = v]) simp_all
  next
    case False
    then show ?thesis using M(2) inv by simp
  qed
qed

interpretation vm: page_map "\<lambda>s. pte s a" "vmm_map_page_in a" "vmm_unmap_page_in a"
  "\<lambda>s. map_guard s a" vm_allowed "vm_kept A a" "vm_inv A a" for A a
proof unfold_locales
  fix s t :: "'a vmm_state_scheme" and v p f :: u32 and r :: int
  assume inv: "vm_inv A a s"
  then have ok: "mem_ok s" "as_ok s a" by (auto simp: vm_inv_def dest: spaces_okD)
  show "r = 0 \<and> (\<forall>w. pte t a w = (if frame w = frame v then p OR (f AND 0xfff) else pte s a w))"
    if "map_guard s a v p" "vmm_map_page_in a v p f s = (r, t)"
    using map_page_in_spec(1) [OF ok that(2,1)] by simp
  show "r = - 1 \<and> (\<forall>w. pte t a w = pte s a w)"
    if "\<not> map_guard s a v p" "vmm_map_page_in a v p f s = (r, t)"
    using map_page_in_spec(2) [OF ok that(2,1)] by simp
  show "vm_inv A a t \<and> vm_kept A a t = vm_kept A a s" if "vmm_map_page_in a v p f s = (r, t)"
    using vm_map_step [OF inv that] unfolding vm_kept_iff .
  show "r = 0 \<and> (\<forall>w. pte t a w = (if frame w = frame v then 0 else pte s a w))"
    if "vm_allowed v" "odd (pte s a v)" "vmm_unmap_page_in a v s = (r, t)"
    using unmap_page_in_spec(1) [OF ok that(3)] that vm_may_map [OF inv] by (simp add: vm_allowed_def)
  show "r = - 1 \<and> t = s" if "\<not> (vm_allowed v \<and> odd (pte s a v))" "vmm_unmap_page_in a v s = (r, t)"
    using unmap_page_in_spec(2) [OF ok that(2)] that(1) vm_may_map [OF inv] by (simp add: vm_allowed_def)
  show "vm_inv A a t \<and> vm_kept A a t = vm_kept A a s" if "vmm_unmap_page_in a v s = (r, t)"
    using vm_unmap_step [OF inv that] unfolding vm_kept_iff .
  show "vm_allowed v \<and> even (pte s a v)" if "map_guard s a v p"
    using that vm_may_map [OF inv] by (simp add: map_guard_def vm_allowed_def)
qed

lemma page_offset:
  assumes "page_aligned p" "off < 4096"
  shows "p OR off = p + off" "(p + off) AND 0xfff = off" "frame (p + off) = frame p"
proof -
  have off: "take_bit 12 off = off"
    using assms(2) by (simp add: take_bit_eq_mod mod_word_less)
  have z: "p AND off = 0"
  proof (rule bit_word_eqI)
    fix n
    have "\<not> bit p n" if "n < 12" using assms(1) that bit_take_bit_iff [of 12 p n] by (simp add: page_aligned_def)
    moreover have "n < 12" if "bit off n" using off that bit_take_bit_iff [of 12 off n] by simp
    ultimately show "bit (p AND off) n = bit (0 :: u32) n" by (auto simp: bit_and_iff)
  qed
  then show or: "p OR off = p + off" by (simp add: disjunctive_add_eq_or)
  show "(p + off) AND 0xfff = off"
    unfolding or [symmetric] and_4095 using assms(1) off by (simp add: page_aligned_def)
  show "frame (p + off) = frame p"
    using frame_of_page [OF assms(1), of "p + off"] assms(2) by simp
qed

section \<open>Properties\<close>

text \<open>
  C10: mapping a page in a user address space (one of \<open>A\<close>, which the kernel's directory is not).  The call succeeds exactly under its guard (both
  addresses page aligned, the lower half, no present entry, and a page table at hand or a frame
  for one); then exactly that page has the new entry, its directory entry grants at least the
  rights of the page, and no other address space translates any address differently.  When it
  fails it returns -1 and no translation changes.
\<close>

theorem vmm_map_page_in_correct:
  assumes "spaces_ok s A" "a \<in> A" "vmm_map_page_in a v p f s = (r, t)"
  shows "spaces_ok t A \<and> r = (if map_guard s a v p then 0 else - 1) \<and>
    (\<forall>w. pte t a w = (if r = 0 \<and> frame w = frame v then p OR (f AND 0xfff) else pte s a w)) \<and>
    (r = 0 \<longrightarrow> VMM_PDE_INDEX v < KERNEL_PDE_INDEX \<and>
       pd_entry t a (VMM_PDE_INDEX v) AND (f AND 6) = f AND 6) \<and>
    (\<forall>b \<in> insert (kernel_page_directory s) A - {a}. \<forall>w. pte t b w = pte s b w)"
proof -
  have inv: "vm_inv A a s" using assms(1,2) by (simp add: vm_inv_def)
  note K = vm_map_step [OF inv assms(3)] and D = spaces_okD [OF assms(1)]
  note M = map_page_in_spec [OF D(1) D(4) [OF assms(2)] assms(3)]
  show ?thesis
    using K M(1) M(2) vm.guard_free [OF inv, of v p]
    by (cases "map_guard s a v p") (simp_all add: vm_inv_def vm_allowed_def)
qed

text \<open>
  C12: unmapping a page.  In the kernel's directory it succeeds exactly for a present page, in a user
  address space exactly for a present page of the lower half; it clears that page's entry, changes
  no other translation of that address space and flushes the page's TLB entry; when it fails it
  returns -1 and nothing changes.  In a user address space it changes no translation of any other
  address space, and the invariant of the address spaces is kept.
\<close>

theorem vmm_unmap_page_in_correct:
  assumes "spaces_ok s A" "a \<in> insert (kernel_page_directory s) A" "vmm_unmap_page_in a v s = (r, t)"
  shows "r = (if page_aligned v \<and> (a = kernel_page_directory s \<or> VMM_PDE_INDEX v < KERNEL_PDE_INDEX) \<and> odd (pte s a v) then 0 else - 1) \<and>
    (\<forall>w. pte t a w = (if r = 0 \<and> frame w = frame v then 0 else pte s a w)) \<and>
    tlb_log t = tlb_log s @ (if r = 0 then [v] else []) \<and> (r \<noteq> 0 \<longrightarrow> t = s) \<and>
    (a \<in> A \<longrightarrow> spaces_ok t A \<and> (\<forall>b \<in> insert (kernel_page_directory s) A - {a}. \<forall>w. pte t b w = pte s b w))"
proof -
  note D = spaces_okD [OF assms(1)]
  note M = unmap_page_in_spec [OF D(1) D(5) [OF assms(2)] assms(3)]
  have K: "spaces_ok t A \<and> (\<forall>b \<in> insert (kernel_page_directory s) A - {a}. \<forall>w. pte t b w = pte s b w)" if "a \<in> A"
    using vm_unmap_step [of A a s, OF _ assms(3)] assms(1) that by (simp add: vm_inv_def)
  show ?thesis
    using K M by (cases "page_aligned v \<and> may_map s a v \<and> odd (pte s a v)") (auto simp: may_map_def)
qed

text \<open>
  After a successful mapping with the present flag, \<open>vmm_get_paddr_in\<close> translates every
  address of the page to the same offset in the frame.
\<close>

theorem vmm_map_translates:
  assumes "spaces_ok s A" "a \<in> A" "vmm_map_page_in a v p f s = (0, t)" "odd f" "off < 4096"
  shows "vmm_get_paddr_in a (v + off) (Some c) t = (0, Some (p + off))"
proof -
  have inv: "vm_inv A a s" using assms(1,2) by (simp add: vm_inv_def)
  have g: "map_guard s a v p" using vm.map_miss [OF inv _ assms(3)] by force
  then have al: "page_aligned v" "page_aligned p" by (simp_all add: map_guard_def)
  have ok: "as_ok t a" using vm_map_step [OF inv assms(3)] by (auto simp: vm_inv_def dest: spaces_okD)
  have "pte t a (v + off) = p OR (f AND 0xfff)"
    using vm.map_hit [OF inv g assms(3)] page_offset(3) [OF al(1) assms(5)] by simp
  moreover have "tbl (p OR (f AND 0xfff)) = p" using al(2) by (simp add: tbl_or tbl_of_aligned)
  ultimately show ?thesis
    using assms(4) page_offset(2) [OF al(1) assms(5)] page_offset(1) [OF al(2) assms(5)]
    by (simp add: get_paddr_eq [OF ok] even_or_iff even_and_iff)
qed

text \<open>
  A new address space is a directory of its own whose lower half is empty and whose upper
  half is the kernel's; no other translation changes.  Creation fails, with result 0 and
  nothing taken, exactly when the allocator has no frame of the direct map to give.
\<close>

theorem vmm_create_address_space_correct:
  assumes "spaces_ok s A" "vmm_create_address_space s = (a, t)"
  shows "if can_alloc s
    then a \<noteq> 0 \<and> a \<notin> insert (kernel_page_directory s) A \<and> spaces_ok t (insert a A) \<and>
      free_pages t = free_pages s - {frame a} \<and>
      (\<forall>w. pte t a w = (if VMM_PDE_INDEX w < KERNEL_PDE_INDEX then 0 else pte s (kernel_page_directory s) w)) \<and>
      (\<forall>b \<in> insert (kernel_page_directory s) A. \<forall>w. pte t b w = pte s b w)
    else a = 0 \<and> free_pages t = free_pages s \<and>
      (\<forall>b \<in> insert (kernel_page_directory s) A. \<forall>w. pte t b w = pte s b w)"
proof (cases "can_alloc s")
  case True
  then show ?thesis
    using create_pages(2,5) [OF assms True] create_spaces [OF assms True] create_new(3) [OF assms True]
      create_old(5) [OF assms True] by simp
next
  case False
  then show ?thesis using create_fails [OF assms False] by simp
qed

text \<open>
  C9: the life of an address space.  Creating a space, running any sequence of mappings and
  unmappings on it and destroying it implements the abstract page map step by step, and at the
  end every frame the page tables used is free again: none is lost and none was taken from
  another address space.
\<close>

theorem vmm_address_space_lifetime:
  assumes "spaces_ok s A" "vmm_create_address_space s = (a, s1)" "a \<noteq> 0"
    and "run_ops (vmm_map_page_in a) (vmm_unmap_page_in a) ops s1 = (rs, s2)"
    and "t = vmm_destroy_address_space a s2"
  shows "pte s2 a = fold spec_op (zip ops rs) (pte s1 a) \<and> free_pages t = free_pages s \<and>
    spaces_ok t A \<and> (\<forall>b \<in> insert (kernel_page_directory s) A. \<forall>w. pte t b w = pte s b w)"
proof -
  have ca: "can_alloc s" using create_fails(1) [OF assms(1,2)] assms(3) by blast
  note C = create_pages [OF assms(1,2) ca] and S = create_spaces [OF assms(1,2) ca]
  have inv: "vm_inv (insert a A) a s1" using S(2) by (simp add: vm_inv_def)
  have k: "kernel_page_directory s2 = kernel_page_directory s"
    and R: "vm_inv (insert a A) a s2" "vm_held a s2 = vm_held a s1"
      "pte s2 a = fold spec_op (zip ops rs) (pte s1 a)"
      "\<And>b w. b \<in> insert (kernel_page_directory s) A \<Longrightarrow> pte s2 b w = pte s1 b w"
    using vm.runs [OF inv assms(4)] S(1) C(8) by (auto simp: vm_kept_iff)
  have sp: "spaces_ok s2 (insert a A)" using R(1) by (simp add: vm_inv_def)
  note X = destroy_spec(2) [OF sp, of a] destroy_spaces [OF sp, of a]
  have "user_tables s1 a KERNEL_PDE_INDEX = {}" using C(10) by (auto simp: user_tables_def kernel_index)
  then have "vm_held a s2 = free_pages s - {frame a}" using R(2) C(5) by (simp add: vm_held_def)
  then have "free_pages t = free_pages s" using X(1) C(4) assms(5) by (auto simp: vm_held_def)
  moreover have "insert a A - {a} = A" using S(1) by auto
  moreover have "pte t b w = pte s b w" if "b \<in> insert (kernel_page_directory s) A" for b w
    using X(3) [of b w] R(4) [OF that] create_old(5) [OF assms(1,2) ca that] that S(1) k assms(5) by auto
  ultimately show ?thesis using R(3) X(2) assms(5) by simp
qed

end
