(* ===== verification/VmmInit.thy ===== *)
theory VmmInit
  imports VmmProps
begin

text \<open>
  \<open>vmm_init\<close>: with enough free frames below 16 MiB it does not panic, and it leaves paging on
  with a kernel directory that maps the direct map, the first address space of \<open>spaces_ok\<close>.
\<close>

section \<open>Frames of the direct map\<close>

definition low_free :: "'a pmm_state_scheme \<Rightarrow> u32 set" where
  "low_free s = {p \<in> free_pages s. p < 4096}"

lemma virt_low: "p < 0x100000 \<Longrightarrow> vmm_phys_to_virt (push_bit 12 p) \<noteq> 0 \<longleftrightarrow> p < 4096"
  using phys_to_virt_unat(1) [of "push_bit 12 p"] unat_push_12 [of p] by (simp add: word_less_nat_alt)

lemma free_20_bits: "mem_ok s \<Longrightarrow> p \<in> free_pages s \<Longrightarrow> p < 0x100000"
  by (auto simp: mem_ok_def pmm_ok_def free_pages_def)

lemma can_alloc_low:
  assumes ok: "mem_ok s"
  shows "can_alloc s \<longleftrightarrow> low_free s \<noteq> {}"
proof (cases "free_pages s = {}")
  case False
  then have M: "Min (free_pages s) \<in> free_pages s" by simp
  have "can_alloc s \<longleftrightarrow> Min (free_pages s) < 4096"
    using False virt_low [OF free_20_bits [OF ok M]] by (simp add: can_alloc_def)
  also have "\<dots> \<longleftrightarrow> low_free s \<noteq> {}"
  proof
    assume "low_free s \<noteq> {}"
    then obtain p where "p \<in> free_pages s" "p < 4096" by (auto simp: low_free_def)
    then show "Min (free_pages s) < 4096" by (meson Min_le finite_free_pages le_less_trans)
  qed (use M in \<open>auto simp: low_free_def\<close>)
  finally show ?thesis .
qed (simp add: can_alloc_def low_free_def)

lemma fresh_page_low:
  assumes "mem_ok s" "low_free s \<noteq> {}"
  obtains p u where "pmm_alloc_page s = (p, u)" "p \<noteq> 0" "vmm_phys_to_virt p \<noteq> 0" "frame p \<in> low_free s"
proof -
  obtain p u where pu: "pmm_alloc_page s = (p, u)" by (cases "pmm_alloc_page s")
  have p: "p \<noteq> 0" "vmm_phys_to_virt p \<noteq> 0"
    using alloc_result(1) [OF assms(1) pu] can_alloc_low [OF assms(1)] assms(2) by auto
  have f: "frame p \<in> free_pages s" using alloc_page_spec(3) [OF assms(1) pu p(1)] .
  have "push_bit 12 (frame p) = p" using alloc_page_spec(2) [OF assms(1) pu p(1)] by (rule page_aligned_frame)
  then have "frame p < 4096" using virt_low [OF free_20_bits [OF assms(1) f]] p(2) by simp
  then show ?thesis using that [OF pu p] f by (simp add: low_free_def)
qed

section \<open>One page table of the direct map\<close>

lemma fill_table:
  fixes f :: "u32 \<Rightarrow> u32"
  assumes a: "table_ok z p"
  defines "t \<equiv> for_u32 0 1024 (\<lambda>j. arr_upd (vmm_phys_to_virt p) j (f j)) z"
  shows "mem_frame z t" "frame x \<noteq> frame (vmm_phys_to_virt p) \<Longrightarrow> kmem t x = kmem z x"
    and "j < 1024 \<Longrightarrow> arr t (vmm_phys_to_virt p) j = f j"
proof -
  let ?n = "vmm_phys_to_virt p"
  let ?P = "\<lambda>m u. u = z\<lparr>kmem := kmem u\<rparr> \<and> (\<forall>x. frame x \<noteq> frame ?n \<longrightarrow> kmem u x = kmem z x) \<and>
    (\<forall>j<1024. j < m \<longrightarrow> arr u ?n j = f j)"
  have P: "?P 1024 t"
    unfolding t_def
  proof (rule for_u32_invariant [where P = ?P])
    fix m :: u32 and u assume m: "m < 1024" "?P m u"
    have "kmem (arr_upd ?n m e u) x = kmem u x" if "frame x \<noteq> frame ?n" for x e
      using that m(1) table_okD(3) [OF a] by (intro page_clear_arr_upd_other)
    moreover have "arr_upd ?n m e u = z\<lparr>kmem := kmem (arr_upd ?n m e u)\<rparr>" for e
      using m(2) unfolding arr_upd_def by (metis (no_types, lifting) pmm_state.update_convs(1) pmm_state.surjective)
    ultimately show "?P (m + 1) (arr_upd ?n m (f m) u)"
      using m by (auto simp: arr_upd_arr less_inc [OF m(1)])
  qed auto
  show "frame x \<noteq> frame ?n \<Longrightarrow> kmem t x = kmem z x" "j < 1024 \<Longrightarrow> arr t ?n j = f j" using P by auto
  show "mem_frame z t" using P table_okD(6) [OF a] by (auto simp: mem_frame_def page_clear_def)
qed

definition dm_entry :: "u32 \<Rightarrow> u32 \<Rightarrow> u32" where
  "dm_entry i j = (i * PAGE_TABLE_SPAN + j * PMM_PAGE_SIZE) OR 3"

lemma init_table_eq:
  assumes "pmm_alloc_page s = (p, u)" "p \<noteq> 0" "vmm_phys_to_virt p \<noteq> 0"
  shows "vmm_init_table pd i s = Returns (arr_upd pd (KERNEL_PDE_INDEX + i) (p OR 3)
    (for_u32 0 1024 (\<lambda>j. arr_upd (vmm_phys_to_virt p) j (dm_entry i j))
      (mem_zero_page (vmm_phys_to_virt p) u)))"
  using assms by (simp add: vmm_init_table_def dm_entry_def Let_def)

lemma kernel_dir_frame: "mem_frame s t \<Longrightarrow> kernel_page_directory t = kernel_page_directory s"
  unfolding mem_frame_def
  by (metis (no_types, lifting) vmm_state.select_convs(1) vmm_state.surjective pmm_state.update_convs(1))

lemma init_table_spec:
  assumes ok: "mem_ok s" "as_ok s k" "low_free s \<noteq> {}"
    and i: "i < 256" "even (pd_entry s k (KERNEL_PDE_INDEX + i))"
  obtains t where "vmm_init_table (vmm_phys_to_virt k) i s = Returns t" "mem_ok t" "as_ok t k"
    "kernel_page_directory t = kernel_page_directory s" "card (low_free t) = card (low_free s) - 1"
    "\<And>j. j < 1024 \<Longrightarrow> j \<noteq> KERNEL_PDE_INDEX + i \<Longrightarrow> pd_entry t k j = pd_entry s k j"
    "\<And>w. pte t k w = (if VMM_PDE_INDEX w = KERNEL_PDE_INDEX + i then dm_entry i (VMM_PTE_INDEX w)
       else pte s k w)"
    "free_pages t \<subseteq> free_pages s" "frame ` pt_pages t k \<subseteq> frame ` pt_pages s k \<union> free_pages s" "in_bitmap t = in_bitmap s"
proof -
  let ?i = "KERNEL_PDE_INDEX + i"
  have i': "?i < 1024"
    using i(1) by (simp add: KERNEL_PDE_INDEX_eq word_less_nat_alt unat_word_ariths)
  obtain p u where p: "pmm_alloc_page s = (p, u)" "p \<noteq> 0" "vmm_phys_to_virt p \<noteq> 0" "frame p \<in> low_free s"
    using fresh_page_low [OF ok(1,3)] .
  define z where "z = mem_zero_page (vmm_phys_to_virt p) u"
  define y where "y = for_u32 0 1024 (\<lambda>j. arr_upd (vmm_phys_to_virt p) j (dm_entry i j)) z"
  define t where "t = arr_upd (vmm_phys_to_virt k) ?i (p OR 3) y"
  note Z = fresh_page [OF ok(1) p(1-3), folded z_def] and Y = fill_table [OF Z(2), where f = "dm_entry i", folded y_def]
  note F = mem_frame_fields [OF Y(1)]
  have keep: "same_page s y (vmm_phys_to_virt q)" if "q \<in> pt_pages s k" for q
  proof -
    have q: "table_ok s q" using pt_pages_ok [OF ok(2) that] .
    have "same_page z y (vmm_phys_to_virt q)"
      using Y(2) virt_page_neq(2) [OF Z(8) [OF q] Z(2) Z(9) [OF q]] by (simp add: same_page_def)
    then show ?thesis using same_page_trans [OF Z(10) [OF q]] by blast
  qed
  have yk: "as_ok y k" "pt_pages y k = pt_pages s k"
    using as_ok_kept [OF ok(2) keep] Z(4-6) F by auto
  note K = pages_kept [OF ok(2) keep]
  have pn: "p \<notin> pt_pages y k" using Z(9) pt_pages_ok [OF ok(2)] yk(2) by blast
  have yp: "table_ok y p" using Z(2) F by simp
  have e: "odd (p OR 3)" "tbl (p OR 3) = p"
    using table_okD(1) [OF Z(2)] by (simp_all add: even_or_iff tbl_or tbl_of_aligned)
  have ev: "even (pd_entry y k ?i)" using K(1) i' i(2) by simp
  note I = insert_table [OF yk(1) i' ev yp pn e, folded t_def]
    and W = write_pde [OF as_okD(1) [OF yk(1)] i', where e = "p OR 3", folded t_def]
  note G = mem_frame_fields [OF W(1)]
  show ?thesis
  proof (rule that)
    show "vmm_init_table (vmm_phys_to_virt k) i s = Returns t"
      unfolding t_def y_def z_def by (rule init_table_eq [OF p(1-3)])
    show "mem_ok t" "as_ok t k" using I(1) Z(1) G F by simp_all
    show "kernel_page_directory t = kernel_page_directory s"
      using W(2) Z(7) kernel_dir_frame [OF Y(1)] by simp
    have "low_free t = low_free s - {frame p}" using Z(4) G F by (auto simp: low_free_def)
    then show "card (low_free t) = card (low_free s) - 1" using p(4) by simp
    show "free_pages t \<subseteq> free_pages s" "in_bitmap t = in_bitmap s" using Z(4,5) G F by auto
    show "frame ` pt_pages t k \<subseteq> frame ` pt_pages s k \<union> free_pages s" using I(2) yk(2) Z(3) by auto
    show "pd_entry t k j = pd_entry s k j" if "j < 1024" "j \<noteq> ?i" for j using I(5) [OF that] K(1) that(1) by simp
    show "pte t k w = (if VMM_PDE_INDEX w = ?i then dm_entry i (VMM_PTE_INDEX w) else pte s k w)" for w
      using I(3) K(2) Y(3) by simp
  qed
qed

section \<open>The loop\<close>

text \<open>The first \<open>m\<close> tables are made, from frames of \<open>Q\<close>; the bitmap is where it was, at \<open>ib\<close>.\<close>

definition dm_state :: "u32 set \<Rightarrow> (u32 \<Rightarrow> bool) \<Rightarrow> u32 \<Rightarrow> nat \<Rightarrow> u32 \<Rightarrow> 'a vmm_state_scheme \<Rightarrow> bool" where
  "dm_state Q ib k n m u \<longleftrightarrow> free_pages u \<subseteq> Q \<and> frame ` pt_pages u k \<subseteq> Q \<and> in_bitmap u = ib \<and> mem_ok u \<and> as_ok u k \<and> kernel_page_directory u = k \<and>
     card (low_free u) + unat m = n \<and>
     (\<forall>j<1024. KERNEL_PDE_INDEX + m \<le> j \<longrightarrow> even (pd_entry u k j)) \<and>
     (\<forall>w. pte u k w = (if KERNEL_PDE_INDEX \<le> VMM_PDE_INDEX w \<and> VMM_PDE_INDEX w < KERNEL_PDE_INDEX + m
        then dm_entry (VMM_PDE_INDEX w - KERNEL_PDE_INDEX) (VMM_PTE_INDEX w) else 0))"

lemma dm_step:
  assumes u: "dm_state Q ib k n m u" and m: "m < l" "l \<le> 256" "unat l \<le> n"
  obtains t where "vmm_init_table (vmm_phys_to_virt k) m u = Returns t" "dm_state Q ib k n (m + 1) t"
proof -
  let ?i = "KERNEL_PDE_INDEX + m"
  have m': "m < 256" using m(1,2) by (rule less_le_trans)
  have i: "?i < 1024" "KERNEL_PDE_INDEX \<le> ?i"
    using m' by (simp_all add: KERNEL_PDE_INDEX_eq word_less_nat_alt word_le_nat_alt unat_word_ariths)
  have "unat m < n" using m by (simp add: word_less_nat_alt)
  then have "low_free u \<noteq> {}" using u by (auto simp: dm_state_def)
  moreover have "even (pd_entry u k ?i)" using u i(1) by (simp add: dm_state_def)
  ultimately obtain t where t: "vmm_init_table (vmm_phys_to_virt k) m u = Returns t" "mem_ok t" "as_ok t k"
    "kernel_page_directory t = kernel_page_directory u" "card (low_free t) = card (low_free u) - 1"
    "\<And>j. j < 1024 \<Longrightarrow> j \<noteq> ?i \<Longrightarrow> pd_entry t k j = pd_entry u k j"
    "\<And>w. pte t k w = (if VMM_PDE_INDEX w = ?i then dm_entry m (VMM_PTE_INDEX w) else pte u k w)"
    "free_pages t \<subseteq> free_pages u" "frame ` pt_pages t k \<subseteq> frame ` pt_pages u k \<union> free_pages u" "in_bitmap t = in_bitmap u"
    using init_table_spec [of u k m] u m' unfolding dm_state_def by metis
  have nx: "KERNEL_PDE_INDEX + (m + 1) = ?i + 1" by simp
  have "card (low_free u) > 0" using \<open>low_free u \<noteq> {}\<close> by (simp add: card_gt_0_iff low_free_def)
  then have c: "card (low_free t) + unat (m + 1) = n"
    using u t(5) unat_inc [OF m(1)] by (simp add: dm_state_def)
  have e: "even (pd_entry t k j)" if "j < 1024" "?i + 1 \<le> j" for j
  proof -
    have "?i \<le> j" "j \<noteq> ?i"
      using that(2) unat_inc [OF i(1)] by (auto simp: word_le_nat_alt word_unat_eq_iff)
    then show ?thesis using that(1) t(6) u by (simp add: dm_state_def)
  qed
  have p: "pte t k w = (if KERNEL_PDE_INDEX \<le> VMM_PDE_INDEX w \<and> VMM_PDE_INDEX w < ?i + 1
        then dm_entry (VMM_PDE_INDEX w - KERNEL_PDE_INDEX) (VMM_PTE_INDEX w) else 0)" for w
    using t(7) [of w] u i(2) by (auto simp: dm_state_def less_inc [OF i(1)])
  have q: "free_pages t \<subseteq> Q" "frame ` pt_pages t k \<subseteq> Q" "in_bitmap t = ib"
    using t(8-10) u [unfolded dm_state_def] subset_trans [of "frame ` pt_pages t k" "frame ` pt_pages u k \<union> free_pages u" Q] by auto
  show ?thesis using that [OF t(1)] t(2-4) c e p q u unfolding dm_state_def nx by auto
qed

lemma dm_loop:
  assumes "dm_state Q ib k n 0 s" "l \<le> 256" "unat l \<le> n"
  obtains t where "for_out 0 l (vmm_init_table (vmm_phys_to_virt k)) s = Returns t" "dm_state Q ib k n l t"
proof -
  let ?P = "\<lambda>m r. \<exists>t. r = Returns t \<and> dm_state Q ib k n m t"
  have "?P l (for_out 0 l (vmm_init_table (vmm_phys_to_virt k)) s)"
    unfolding for_out_def
  proof (rule for_u32_invariant [where P = ?P])
    fix m :: u32 and r assume "m < l" "?P m r"
    then obtain u where "r = Returns u" "dm_state Q ib k n m u" by blast
    with dm_step [OF this(2) \<open>m < l\<close> assms(2,3)]
    show "?P (m + 1) (case r of Returns s \<Rightarrow> vmm_init_table (vmm_phys_to_virt k) m s | Panic e \<Rightarrow> Panic e)"
      by auto
  qed (use assms(1) in simp_all)
  then show ?thesis using that by blast
qed

text \<open>The entries in terms of addresses.\<close>

lemma dm_range:
  assumes "limit mod PAGE_TABLE_SPAN = 0" "limit \<le> 0x40000000"
  shows "KERNEL_PDE_INDEX \<le> VMM_PDE_INDEX w \<and> VMM_PDE_INDEX w < KERNEL_PDE_INDEX + limit div PAGE_TABLE_SPAN
     \<longleftrightarrow> 0xC0000000 \<le> w \<and> w - 0xC0000000 < limit"
proof -
  define q where "q = unat limit div 4194304"
  have "unat limit mod 4194304 = 0"
    using assms(1) unat_mod [of limit "0x400000"] by (simp add: PAGE_TABLE_SPAN_eq)
  then have q: "unat limit = 4194304 * q" by (auto simp: q_def)
  have "q \<le> 256" using assms(2) q by (simp add: word_le_nat_alt)
  then have b: "unat (KERNEL_PDE_INDEX + limit div PAGE_TABLE_SPAN) = 768 + q"
    by (simp add: KERNEL_PDE_INDEX_eq PAGE_TABLE_SPAN_eq unat_word_ariths unat_div q_def)
  have "768 \<le> unat w div 4194304 \<and> unat w div 4194304 < 768 + q \<longleftrightarrow>
    3221225472 \<le> unat w \<and> unat w - 3221225472 < 4194304 * q"
    by (auto simp: less_eq_div_iff_mult_less_eq div_less_iff_less_mult)
  moreover have "unat (w - 0xC0000000) = unat w - 3221225472" if "3221225472 \<le> unat w"
    using that by (simp add: unat_sub_if_size)
  ultimately show ?thesis
    by (auto simp: word_le_nat_alt word_less_nat_alt b [unfolded KERNEL_PDE_INDEX_eq] unat_index q
        KERNEL_PDE_INDEX_eq)
qed

lemma dm_entry_eq:
  assumes "0xC0000000 \<le> w"
  shows "dm_entry (VMM_PDE_INDEX w - KERNEL_PDE_INDEX) (VMM_PTE_INDEX w) = tbl (w - 0xC0000000) OR 3"
proof -
  define i where "i = VMM_PDE_INDEX w - KERNEL_PDE_INDEX"
  define m where "m = unat w div 4096"
  have w: "3221225472 \<le> unat w" using assms by (simp add: word_le_nat_alt)
  have m: "786432 \<le> m" "m < 1048576" using w u32_bound [of w] by (simp_all add: m_def)
  obtain c where c: "m div 1024 = 768 + c" "c < 256"
    using m le_Suc_ex [of 768 "m div 1024"] by (auto simp: less_eq_div_iff_mult_less_eq)
  have mc: "m = 1024 * (768 + c) + m mod 1024" using c by (metis mult_div_mod_eq)
  have d: "unat w div 4194304 = 768 + c" using c by (simp add: m_def div_mult2_eq [symmetric])
  have "unat i = c" by (simp add: i_def unat_sub_if_size unat_index d KERNEL_PDE_INDEX_eq)
  then have l: "unat (i * PAGE_TABLE_SPAN + VMM_PTE_INDEX w * PMM_PAGE_SIZE) = c * 4194304 + m mod 1024 * 4096"
    using c by (simp add: unat_word_ariths unat_index m_def [symmetric] PAGE_TABLE_SPAN_eq PMM_PAGE_SIZE_eq)
  have x: "unat (w - 0xC0000000) = unat w - 786432 * 4096" using w by (simp add: unat_sub_if_size)
  obtain e where "unat w = 786432 * 4096 + e" using w le_Suc_ex [of 3221225472 "unat w"] by auto
  then have "unat (frame (w - 0xC0000000)) = m - 786432"
    unfolding unat_frame x m_def by simp
  then have "unat (tbl (w - 0xC0000000)) = 4096 * (m - 786432)"
    using m unat_push_12 [of "frame (w - 0xC0000000)"] by (simp add: tbl_def frame_def word_less_nat_alt)
  also have "\<dots> = c * 4194304 + m mod 1024 * 4096" by (subst mc) simp
  finally have "i * PAGE_TABLE_SPAN + VMM_PTE_INDEX w * PMM_PAGE_SIZE = tbl (w - 0xC0000000)"
    using l by (simp only: word_unat_eq_iff)
  then show ?thesis by (simp add: dm_entry_def i_def)
qed

section \<open>Properties\<close>

lemma zero_dir_state:
  assumes "mem_ok s" "pmm_alloc_page s = (k, u)" "k \<noteq> 0" "vmm_phys_to_virt k \<noteq> 0" "frame k \<in> low_free s"
  defines "z \<equiv> mem_zero_page (vmm_phys_to_virt k) (u\<lparr>kernel_page_directory := k\<rparr>)"
  shows "dm_state (free_pages s) (in_bitmap s) k (card (low_free s) - 1) 0 z"
proof -
  let ?y = "mem_zero_page (vmm_phys_to_virt k) u"
  note Z = fresh_page [OF assms(1-4)]
  have z: "z = ?y\<lparr>kernel_page_directory := k\<rparr>" by (simp add: z_def mem_zero_page_def)
  have "pmm_same ?y z" by (simp add: z pmm_same_def)
  note same = pmm_same_parts [OF this]
  have e: "pd_entry z k j = 0" if "j < 1024" for j using Z(11) [OF that] by (simp add: pd_entry_def same(1))
  have "low_free z = low_free s - {frame k}" using Z(4) by (auto simp: low_free_def same)
  moreover have "free_pages z \<subseteq> free_pages s" "frame ` pt_pages z k \<subseteq> free_pages s" "in_bitmap z = in_bitmap s"
    using Z(3-5) e by (auto simp: pt_pages_def same)
  ultimately show ?thesis
    using Z(1,2) e assms(5) by (auto simp: dm_state_def as_ok_def same pte_def) (simp_all add: z)
qed

lemma vmm_init_state:
  assumes "mem_ok s" "0 < limit" "limit mod PAGE_TABLE_SPAN = 0" "limit \<le> 0x40000000"
    and "unat (limit div PAGE_TABLE_SPAN) < card (low_free s)"
  obtains k t where "vmm_init limit s = Returns (paging_enable (paging_load_directory k t))"
    "dm_state (free_pages s) (in_bitmap s) k (card (low_free s) - 1) (limit div PAGE_TABLE_SPAN) t"
proof -
  let ?l = "limit div PAGE_TABLE_SPAN"
  have "low_free s \<noteq> {}" using assms(5) by auto
  then obtain k u where k: "pmm_alloc_page s = (k, u)" "k \<noteq> 0" "vmm_phys_to_virt k \<noteq> 0" "frame k \<in> low_free s"
    using fresh_page_low [OF assms(1)] by blast
  have l: "?l \<le> 256" using assms(4) by (simp add: PAGE_TABLE_SPAN_eq word_le_nat_alt unat_div)
  obtain t where t: "for_out 0 ?l (vmm_init_table (vmm_phys_to_virt k))
      (mem_zero_page (vmm_phys_to_virt k) (u\<lparr>kernel_page_directory := k\<rparr>)) = Returns t"
    "dm_state (free_pages s) (in_bitmap s) k (card (low_free s) - 1) ?l t"
  proof (rule dm_loop [OF zero_dir_state [OF assms(1) k] l])
    show "unat ?l \<le> card (low_free s) - 1" using assms(5) by simp
  qed
  show ?thesis
    by (rule that [OF _ t(2)]) (use assms(2,3) k t word_gt_0 [of limit] in \<open>simp add: vmm_init_def Let_def dm_state_def\<close>)
qed

lemma paging_on_same:
  "pmm_same t (paging_enable (paging_load_directory k t))" "kernel_page_directory (paging_enable (paging_load_directory k t)) = kernel_page_directory t"
  "cr3 (paging_enable (paging_load_directory k t)) = k" "cr0 (paging_enable (paging_load_directory k t)) = cr0 t OR 0x80000000"
  by (simp_all add: paging_enable_def paging_load_directory_def pmm_same_def)

lemma direct_map_made:
  assumes "dm_state Q ib k n (limit div PAGE_TABLE_SPAN) t" "limit mod PAGE_TABLE_SPAN = 0" "limit \<le> 0x40000000"
  defines "u \<equiv> paging_enable (paging_load_directory k t)"
  shows "spaces_ok u {}" "kernel_page_directory u = k"
    "pte u k w = (if 0xC0000000 \<le> w \<and> w - 0xC0000000 < limit then tbl (w - 0xC0000000) OR 3 else 0)"
proof -
  note P = paging_on_same [where t = t and k = k, folded u_def]
  show "kernel_page_directory u = k" using P(2) assms(1) by (simp add: dm_state_def)
  then show "spaces_ok u {}" using assms(1) pmm_same_parts [OF P(1)] by (simp add: spaces_ok_def dm_state_def)
  show "pte u k w = (if 0xC0000000 \<le> w \<and> w - 0xC0000000 < limit then tbl (w - 0xC0000000) OR 3 else 0)"
    using assms(1) dm_range [OF assms(2,3), of w] dm_entry_eq [of w] pmm_same_parts [OF P(1)] by (auto simp: dm_state_def)
qed

text \<open>The tables of the kernel come from frames that were free.\<close>

lemma vmm_init_frames:
  assumes "mem_ok s" "0 < limit" "limit mod PAGE_TABLE_SPAN = 0" "limit \<le> 0x40000000" "unat (limit div PAGE_TABLE_SPAN) < card (low_free s)"
    and "vmm_init limit s = Returns t"
  shows "free_pages t \<subseteq> free_pages s" "frame ` pt_pages t (kernel_page_directory t) \<subseteq> free_pages s" "in_bitmap t = in_bitmap s"
proof -
  obtain k u where u: "vmm_init limit s = Returns (paging_enable (paging_load_directory k u))"
    "dm_state (free_pages s) (in_bitmap s) k (card (low_free s) - 1) (limit div PAGE_TABLE_SPAN) u"
    by (rule vmm_init_state [OF assms(1-5)])
  have t: "t = paging_enable (paging_load_directory k u)" using u(1) assms(6) by simp
  note P = paging_on_same [where t = u and k = k, folded t] and same = pmm_same_parts [OF paging_on_same(1) [where t = u and k = k], folded t]
  have "pt_pages t k = pt_pages u k" by (simp add: pt_pages_def pd_entry_def same(1))
  then show "free_pages t \<subseteq> free_pages s" "frame ` pt_pages t (kernel_page_directory t) \<subseteq> free_pages s" "in_bitmap t = in_bitmap s"
    using u(2) P(2) same by (auto simp: dm_state_def)
qed

text \<open>
  C11: on a machine with enough free frames in the direct map, \<open>vmm_init\<close> does not panic.  It
  leaves paging enabled on a kernel directory that maps every address of the requested window at
  \<open>0xC0000000\<close> to its physical address, present and writable for the kernel only, and nothing
  else; the invariant of the address spaces holds.
\<close>

theorem vmm_init_direct_map:
  assumes "mem_ok s" "0 < limit" "limit mod PAGE_TABLE_SPAN = 0" "limit \<le> 0x40000000"
    and "unat (limit div PAGE_TABLE_SPAN) < card (low_free s)"
  shows "\<exists>t. vmm_init limit s = Returns t \<and> spaces_ok t {} \<and>
    cr3 t = vmm_get_kernel_address_space t \<and> cr0 t AND 0x80000000 \<noteq> 0 \<and>
    (\<forall>w. pte t (kernel_page_directory t) w =
       (if 0xC0000000 \<le> w \<and> w - 0xC0000000 < limit then tbl (w - 0xC0000000) OR 3 else 0))"
proof -
  obtain k t where t: "vmm_init limit s = Returns (paging_enable (paging_load_directory k t))"
    "dm_state (free_pages s) (in_bitmap s) k (card (low_free s) - 1) (limit div PAGE_TABLE_SPAN) t"
    by (rule vmm_init_state [OF assms])
  have "(cr0 t OR 0x80000000) AND 0x80000000 \<noteq> 0" by (simp only: and_or_absorb) simp
  then show ?thesis
    using t(1) direct_map_made [OF t(2) assms(3,4)] paging_on_same(2-4) [where t = t and k = k] t(2)
    by (simp add: vmm_get_kernel_address_space_def dm_state_def)
qed

section \<open>A small machine\<close>

text \<open>
  Eight frames, the bitmap beyond them, an empty kernel directory in frame 4; frames 1, 2, 3, 5,
  6 and 7 are free.
\<close>

definition small_vm :: vmm_state where
  "small_vm = \<lparr>terminal_row = 0, terminal_column = 0, terminal_color = 0,
    terminal_buffer = replicate 2000 0, io_log = [],
    keyboard_buffer = replicate 32 0, read_index = 0, write_index = 0,
    kmem = (\<lambda>a. if a = 0xC0008000 then 0x11 else 0),
    kernel_physical_start = 0x100000, kernel_physical_end = 0x110000,
    pmm_bitmap = 0xC0008000, pmm_bitmap_bytes = 1, pmm_max_page = 8,
    pmm_total_pages = 6, pmm_free_pages = 6,
    kernel_page_directory = 0x4000, cr0 = 0, cr2 = 0, cr3 = 0, tlb_log = []\<rparr>"

lemma less_8: "p < 8 \<longleftrightarrow> p = 0 \<or> p = 1 \<or> p = 2 \<or> p = 3 \<or> p = 4 \<or> p = 5 \<or> p = 6 \<or> p = 7" for p :: u32
  by (auto simp: word_less_nat_alt word_unat_eq_iff)

lemma small_vm_free: "free_pages small_vm = {1, 2, 3, 5, 6, 7}"
  by (auto simp: free_pages_def page_used_def small_vm_def less_8)

lemma small_vm_bitmap: "in_bitmap small_vm x \<longleftrightarrow> x = 0xC0008000"
  by (simp add: in_bitmap_def small_vm_def)

lemma small_vm_clear: "p < 8 \<Longrightarrow> page_clear small_vm (vmm_phys_to_virt (push_bit 12 p))"
  by (auto simp: page_clear_def small_vm_bitmap less_8 vmm_phys_to_virt_def direct_map_consts frame_def)

lemma small_vm_mem_ok: "mem_ok small_vm"
proof -
  have "page_used small_vm 0" by (simp add: page_used_def small_vm_def)
  moreover have "pmm_max_page small_vm = 8" "pmm_free_pages small_vm = 6" by (simp_all add: small_vm_def)
  moreover have "bitmap_safe small_vm"
    unfolding bitmap_safe_def using small_vm_clear by (simp add: free_pages_def \<open>pmm_max_page small_vm = 8\<close>)
  ultimately show ?thesis by (simp add: mem_ok_def pmm_ok_def small_vm_free)
qed

lemma small_vm_directory: "i < 1024 \<Longrightarrow> pd_entry small_vm 0x4000 i = 0"
proof -
  assume i: "i < 1024"
  have virt: "vmm_phys_to_virt 0x4000 = 0xC0004000" by (simp add: vmm_phys_to_virt_def direct_map_consts)
  have al: "page_aligned 0xC0004000" "frame 0xC0004000 = 0xC0004" "frame 0xC0008000 = 0xC0008" by (simp_all add: page_aligned_unat frame_def)
  have "kmem small_vm x = 0" if "x - (0xC0004000 + 4 * i) < 4" for x
    using cell_in_page [OF al(1) i that] al by (auto simp: small_vm_def)
  then have "ld32 (kmem small_vm) (0xC0004000 + 4 * i) = ld32 (\<lambda>_. 0) (0xC0004000 + 4 * i)"
    by (intro ld32_cong) simp
  then show "pd_entry small_vm 0x4000 i = 0" by (simp add: pd_entry_def arr_def virt ld32_def)
qed

lemma small_vm_spaces: "spaces_ok small_vm {}"
proof -
  have k: "kernel_page_directory small_vm = 0x4000" by (simp add: small_vm_def)
  have virt: "vmm_phys_to_virt 0x4000 = 0xC0004000" by (simp add: vmm_phys_to_virt_def direct_map_consts)
  have al: "page_aligned 0x4000" "frame 0x4000 = 4" by (simp_all add: page_aligned_unat frame_def)
  note small_vm_directory
  moreover have "table_ok small_vm 0x4000"
    using small_vm_clear [of 4] by (simp add: table_ok_def al virt small_vm_free push_bit_eq_mult)
       (simp add: small_vm_def)
  ultimately show ?thesis
    using small_vm_mem_ok by (simp add: spaces_ok_def k as_ok_def)
qed

lemma small_vm_low: "low_free small_vm = {1, 2, 3, 5, 6, 7}"
  by (auto simp: low_free_def small_vm_free)

theorem vmm_init_direct_map_witness:
  "\<exists>t. vmm_init 0x400000 small_vm = Returns t \<and> pte t (kernel_page_directory t) 0xC0005123 = 0x5003"
proof -
  have "tbl 0x5123 = 0x5000" by (simp add: tbl_def)
  then show ?thesis
    using vmm_init_direct_map [OF small_vm_mem_ok, of "0x400000"]
    by (auto simp: PAGE_TABLE_SPAN_eq small_vm_low)
qed

definition small_as :: u32 where "small_as = fst (vmm_create_address_space small_vm)"
definition small_vm1 :: vmm_state where "small_vm1 = snd (vmm_create_address_space small_vm)"

lemma small_create: "vmm_create_address_space small_vm = (small_as, small_vm1)"
  by (simp add: small_as_def small_vm1_def)

lemma small_can_alloc: "can_alloc small_vm"
  using can_alloc_low [OF small_vm_mem_ok] small_vm_low by simp

theorem vmm_create_address_space_correct_witness:
  "small_as \<noteq> 0 \<and> spaces_ok small_vm1 {small_as} \<and> pte small_vm1 small_as 0x400000 = 0"
  using vmm_create_address_space_correct [OF small_vm_spaces small_create] small_can_alloc
  by (simp add: VMM_PDE_INDEX_def KERNEL_PDE_INDEX_eq)

lemma small_vm1_ok: "spaces_ok small_vm1 {small_as}" "small_as \<noteq> 0"
  using create_spaces(2) [OF small_vm_spaces small_create small_can_alloc]
    create_pages(2) [OF small_vm_spaces small_create small_can_alloc] by simp_all

lemma small_vm1_can_alloc: "can_alloc small_vm1"
proof -
  have "free_pages small_vm1 = {1, 2, 3, 5, 6, 7} - {frame small_as}"
    using create_pages(5) [OF small_vm_spaces small_create small_can_alloc] by (simp add: small_vm_free)
  then have "1 \<in> low_free small_vm1 \<or> 2 \<in> low_free small_vm1" by (auto simp: low_free_def)
  then show ?thesis using can_alloc_low spaces_okD(1) [OF small_vm1_ok(1)] by blast
qed

lemma small_vm1_guard: "map_guard small_vm1 small_as 0x400000 0x5000"
  using small_vm1_can_alloc create_new(3) [OF small_vm_spaces small_create small_can_alloc, of "0x400000"]
  by (simp add: map_guard_def page_aligned_unat may_map_def VMM_PDE_INDEX_def KERNEL_PDE_INDEX_eq)

definition small_vm2 :: vmm_state where
  "small_vm2 = snd (vmm_map_page_in small_as 0x400000 0x5000 7 small_vm1)"

lemma small_map: "vmm_map_page_in small_as 0x400000 0x5000 7 small_vm1 = (0, small_vm2)"
  using vm.map_hit [of "{small_as}" small_as small_vm1 "0x400000" "0x5000" 7] small_vm1_ok small_vm1_guard
  by (cases "vmm_map_page_in small_as 0x400000 0x5000 7 small_vm1") (simp add: small_vm2_def vm_inv_def)

theorem vmm_map_page_in_correct_witness:
  "spaces_ok small_vm2 {small_as} \<and> pte small_vm2 small_as 0x400123 = 0x5007"
  using vmm_map_page_in_correct [OF small_vm1_ok(1) _ small_map] by (simp add: frame_def)

theorem vmm_map_translates_witness:
  "vmm_get_paddr_in small_as 0x400123 (Some 0) small_vm2 = (0, Some 0x5123)"
  using vmm_map_translates [OF small_vm1_ok(1) _ small_map, of "0x123" 0] by simp

theorem vmm_unmap_page_in_correct_witness:
  "fst (vmm_unmap_page_in small_as 0x400000 small_vm2) = 0 \<and>
   pte (snd (vmm_unmap_page_in small_as 0x400000 small_vm2)) small_as 0x400123 = 0"
proof -
  have inv: "vm_inv {small_as} small_as small_vm1" using small_vm1_ok by (simp add: vm_inv_def)
  have sp: "spaces_ok small_vm2 {small_as}" using vm.map_keeps [OF inv small_map] by (simp add: vm_inv_def)
  have "pte small_vm2 small_as 0x400000 = 0x5007" using vm.map_hit [OF inv small_vm1_guard small_map] by simp
  then show ?thesis
    using vmm_unmap_page_in_correct [OF sp, of small_as "0x400000"]
    by (cases "vmm_unmap_page_in small_as 0x400000 small_vm2")
      (simp add: page_aligned_unat VMM_PDE_INDEX_def KERNEL_PDE_INDEX_eq frame_def)
qed

theorem vmm_address_space_lifetime_witness:
  "free_pages (vmm_destroy_address_space small_as (snd (run_ops (vmm_map_page_in small_as)
     (vmm_unmap_page_in small_as) [MapPage 0x400000 0x5000 7, MapPage 0x800000 0x6000 7, UnmapPage 0x400000]
     small_vm1))) = {1, 2, 3, 5, 6, 7}"
  using vmm_address_space_lifetime [OF small_vm_spaces small_create small_vm1_ok(2) prod.collapse [symmetric] refl]
  by (simp add: small_vm_free del: run_ops.simps)

end
