(* ===== verification/PmmInitProof.thy ===== *)
theory PmmInitProof
  imports PmmInit VmmInit
begin

text \<open>
  \<open>pmm_init\<close> on a well-formed memory map below 4 GiB: its loops end, the bitmap is placed in
  usable memory apart from the kernel and the Multiboot data, and the allocator starts with
  exactly the usable frames less those of the bitmap, the kernel and frame 0.
\<close>

section \<open>Memory maps\<close>

inductive mmap_chain :: "'a pmm_state_scheme \<Rightarrow> ptr \<Rightarrow> ptr \<Rightarrow> ptr list \<Rightarrow> bool" where
  chain_nil: "mmap_chain s p p []"
| chain_cons: "20 \<le> entry_size s p \<Longrightarrow> unat p + unat (entry_size s p) + 4 \<le> unat end \<Longrightarrow>
    mmap_chain s (p + (entry_size s p + 4)) end es \<Longrightarrow> mmap_chain s p end (p # es)"

inductive_cases chain_nilE: "mmap_chain s p end []"
inductive_cases chain_consE: "mmap_chain s p end (e # es)"

lemma entry_step:
  assumes "unat p + unat (z :: u32) + 4 \<le> unat (end :: u32)"
  shows "unat (p + (z + 4)) = unat p + unat z + 4" "p < end"
proof -
  have "unat p + unat z + 4 < 4294967296" using assms u32_bound [of "end"] by simp
  then show "unat (p + (z + 4)) = unat p + unat z + 4" by (simp add: unat_word_ariths)
  show "p < end" using assms by (simp add: word_less_nat_alt)
qed

lemma chain_bounds:
  "mmap_chain s p end es \<Longrightarrow> e \<in> set es \<Longrightarrow> unat p \<le> unat e \<and> unat e + 24 \<le> unat end"
proof (induction rule: mmap_chain.induct)
  case (chain_cons s p "end" es)
  then have "20 \<le> unat (entry_size s p)" by (simp add: word_le_nat_alt)
  then show ?case using chain_cons entry_step [OF chain_cons(2)] by auto
qed simp

text \<open>States whose memory agrees on the map have the same entries.\<close>

definition map_same :: "ptr \<Rightarrow> ptr \<Rightarrow> 'a pmm_state_scheme \<Rightarrow> 'b pmm_state_scheme \<Rightarrow> bool" where
  "map_same p end s t \<longleftrightarrow> (\<forall>x. p \<le> x \<and> x < end \<longrightarrow> kmem t x = kmem s x)"

lemma map_same_ld32:
  assumes "map_same p end s t" "unat p \<le> unat a" "unat a + 4 \<le> unat end"
  shows "ld32 (kmem t) a = ld32 (kmem s) a"
proof (rule ld32_cong)
  fix x assume "x - a < 4"
  then have "unat p \<le> unat x" "unat x < unat end"
    using assms(2,3) u32_bound [of "end"] u32_bound [of x]
    by (auto simp: word_less_nat_alt unat_sub_if_size word_size split: if_splits)
  then show "kmem t x = kmem s x"
    using assms(1) by (simp add: map_same_def word_le_nat_alt word_less_nat_alt)
qed

lemma map_same_entry:
  assumes "map_same p end s t" "unat p \<le> unat e" "unat e + 24 \<le> unat end"
  shows "entry_size t e = entry_size s e" "entry_addr t e = entry_addr s e"
    "entry_len t e = entry_len s e" "entry_type t e = entry_type s e"
proof -
  have "unat (e + k) = unat e + unat k" if "unat k \<le> 20" for k
    using that assms(3) u32_bound [of "end"] by (simp add: unat_word_ariths)
  then have k: "ld32 (kmem t) (e + k) = ld32 (kmem s) (e + k)" if "unat k \<le> 20" for k
    using that assms by (intro map_same_ld32 [OF assms(1)]) simp_all
  from k [of 0] k [of 4] k [of 8, unfolded add.commute [of e]] k [of 12] k [of 16, unfolded add.commute [of e]]
    k [of 20]
  show "entry_size t e = entry_size s e" "entry_addr t e = entry_addr s e"
    "entry_len t e = entry_len s e" "entry_type t e = entry_type s e"
    by (simp_all add: entry_size_def entry_addr_def entry_len_def entry_type_def ld64_def)
qed

lemma chain_same:
  assumes "mmap_chain s p end es" "map_same b end s t" "unat b \<le> unat p"
  shows "mmap_chain t p end es"
  using assms
proof (induction s p "end" es rule: mmap_chain.induct)
  case (chain_cons s p "end" es)
  have "20 \<le> unat (entry_size s p)" using chain_cons.hyps(1) by (simp add: word_le_nat_alt)
  then have e: "entry_size t p = entry_size s p"
    using map_same_entry(1) [OF chain_cons.prems(1)] chain_cons.prems(2) chain_cons.hyps(2) by simp
  show ?case
    using chain_cons.hyps(1,2) chain_cons.IH [OF chain_cons.prems(1)] chain_cons.prems(2)
      entry_step(1) [OF chain_cons.hyps(2)]
    by (intro mmap_chain.chain_cons) (simp_all add: e)
qed (rule mmap_chain.chain_nil)

text \<open>A loop over a well-formed map is a fold over its entries.\<close>

lemma mmap_loop_fold:
  assumes "mmap_chain s p end es" "R us"
    and "\<And>e us. e \<in> set es \<Longrightarrow> R us \<Longrightarrow> body e us = Returns (g e us) \<and> R (g e us)"
    and "\<And>e us. e \<in> set es \<Longrightarrow> R us \<Longrightarrow> entry_size (snd us) e = entry_size s e"
  shows "mmap_loop body p end us = Some (Returns (fold g es us)) \<and> R (fold g es us)"
  using assms
proof (induction s p "end" es arbitrary: us rule: mmap_chain.induct)
  case (chain_nil s p)
  then show ?case by (simp add: mmap_loop.simps)
next
  case (chain_cons s p "end" es)
  have b: "body p us = Returns (g p us)" "R (g p us)"
    using chain_cons.prems(2) [of p us] chain_cons.prems(1) by simp_all
  have "entry_size (snd (g p us)) p = entry_size s p" using chain_cons.prems(3) [of p "g p us"] b(2) by simp
  then show ?case
    using chain_cons.IH [OF b(2)] chain_cons.prems(2,3) entry_step(2) [OF chain_cons.hyps(2)] b(1)
    by (simp add: mmap_loop.simps [of body p])
qed

section \<open>Placing the bitmap\<close>

lemma align_up_page:
  assumes "unat x \<le> 4294963200"
  shows "page_aligned (align_up x PMM_PAGE_SIZE)" "unat x \<le> unat (align_up x PMM_PAGE_SIZE)"
    "unat (align_up x PMM_PAGE_SIZE) < unat x + 4096"
proof -
  have a: "align_up x PMM_PAGE_SIZE = push_bit 12 (frame (x + 4095))"
    unfolding align_up_def PMM_PAGE_SIZE_eq frame_def and_page_frame [symmetric]
    by (simp add: add.commute minus_4096 del: entry_bits)
  have u: "unat (x + 4095) = unat x + 4095" using assms by (simp add: unat_word_ariths)
  have f: "unat (frame (x + 4095)) = (unat x + 4095) div 4096" by (simp add: unat_frame u)
  then have "unat (push_bit 12 (frame (x + 4095))) = 4096 * ((unat x + 4095) div 4096)"
    using assms by (subst unat_push_12) (simp_all add: word_less_nat_alt)
  then show "page_aligned (align_up x PMM_PAGE_SIZE)" "unat x \<le> unat (align_up x PMM_PAGE_SIZE)"
    "unat (align_up x PMM_PAGE_SIZE) < unat x + 4096" by (simp_all add: a)
qed

text \<open>The ranges the bitmap must avoid.\<close>

definition avoid :: "ptr \<Rightarrow> 'a pmm_state_scheme \<Rightarrow> (u32 \<times> u32) set" where
  "avoid mbi s = {(kernel_physical_start s, kernel_physical_end s),
     (vmm_virt_to_phys mbi, vmm_virt_to_phys mbi + sizeof_multiboot_info),
     (mbi_mmap_addr s mbi, mbi_mmap_addr s mbi + mbi_mmap_length s mbi)}"

definition seg_ok :: "ptr \<Rightarrow> u32 \<Rightarrow> nat \<Rightarrow> 'a pmm_state_scheme \<Rightarrow> u32 \<Rightarrow> bool" where
  "seg_ok mbi bytes e s q \<longleftrightarrow> page_aligned q \<and> unat q + unat bytes \<le> e \<and>
     (\<forall>(a, b) \<in> avoid mbi s. unat b \<le> unat q \<or> unat q + unat bytes \<le> unat a)"

lemma seg_scan_total:
  assumes ends: "\<forall>r \<in> avoid mbi s. unat (snd r) \<le> 0xFFE00000"
    and bytes: "unat bytes \<le> 0x20000"
  shows "page_aligned start \<Longrightarrow> unat start \<le> 0xFFF10000 \<Longrightarrow>
    \<exists>r. seg_scan mbi bytes eend start s = Some r \<and>
      (\<forall>q. r = Some q \<longrightarrow> seg_ok mbi bytes (unat eend) s q \<and> start \<le> q)"
proof (induction "0xFFF10000 - unat start" arbitrary: start rule: less_induct)
  case less
  have sum: "unat (start + bytes) = unat start + unat bytes"
    using less.prems(2) bytes by (simp add: unat_word_ariths)
  have jump: "\<exists>r. seg_scan mbi bytes eend (align_up b PMM_PAGE_SIZE) s = Some r \<and>
      (\<forall>q. r = Some q \<longrightarrow> seg_ok mbi bytes (unat eend) s q \<and> start \<le> q)"
    if "(a, b) \<in> avoid mbi s" "ranges_overlap start (start + bytes) a b" for a b
  proof -
    have b: "unat start < unat b" "unat b \<le> 0xFFE00000"
      using that(2) bspec [OF ends that(1)] by (simp_all add: ranges_overlap_def word_less_nat_alt)
    note al = align_up_page [of b]
    have "0xFFF10000 - unat (align_up b PMM_PAGE_SIZE) < 0xFFF10000 - unat start" using b al(2,3) by simp
    then have "\<exists>r. seg_scan mbi bytes eend (align_up b PMM_PAGE_SIZE) s = Some r \<and>
        (\<forall>q. r = Some q \<longrightarrow> seg_ok mbi bytes (unat eend) s q \<and> align_up b PMM_PAGE_SIZE \<le> q)"
      using less.hyps [of "align_up b PMM_PAGE_SIZE"] al b by simp
    moreover have "start \<le> align_up b PMM_PAGE_SIZE" using b al(2) by (simp add: word_le_nat_alt)
    ultimately show ?thesis by (meson order_trans)
  qed
  show ?case
  proof (cases "start + bytes \<le> eend")
    case False
    then show ?thesis by (simp add: seg_scan.simps [of mbi])
  next
    case True
    show ?thesis
    proof (cases "\<exists>(a, b) \<in> avoid mbi s. ranges_overlap start (start + bytes) a b")
      case o: True
      then show ?thesis
        using jump True by (subst seg_scan.simps) (auto simp: Let_def avoid_def)
    next
      case n: False
      then have "seg_scan mbi bytes eend start s = Some (Some start)"
        using True by (simp add: seg_scan.simps [of mbi] Let_def avoid_def)
      moreover have "seg_ok mbi bytes (unat eend) s start"
        using n less.prems(1) True sum
        by (auto simp: seg_ok_def ranges_overlap_def word_le_nat_alt word_less_nat_alt not_less)
      ultimately show ?thesis by simp
    qed
  qed
qed

section \<open>Usable memory\<close>

definition usable :: "'a pmm_state_scheme \<Rightarrow> ptr list \<Rightarrow> ptr list" where
  "usable s es = filter (\<lambda>e. entry_type s e = 1) es"

definition entry_start :: "'a pmm_state_scheme \<Rightarrow> ptr \<Rightarrow> nat" where
  "entry_start s e = unat (entry_addr s e)"

definition entry_end :: "'a pmm_state_scheme \<Rightarrow> ptr \<Rightarrow> nat" where
  "entry_end s e = unat (entry_addr s e) + unat (entry_len s e)"

text \<open>The frames \<open>clear_usable_pages\<close> takes from an entry.\<close>

definition entry_frames :: "'a pmm_state_scheme \<Rightarrow> ptr \<Rightarrow> u32 set" where
  "entry_frames s e = {p. entry_start s e div 4096 \<le> unat p \<and>
     unat p < entry_start s e div 4096 + unat (entry_len s e) div 4096}"

text \<open>
  A machine below 4 GiB: a well-formed map in the direct map, no usable region that ends in the
  last MiB of the address space, and no frame in two usable regions.
\<close>

record mmap_view =
  mv_first :: ptr
  mv_end :: ptr
  mv_entries :: "ptr list"

definition mmap_ok :: "ptr \<Rightarrow> 'a pmm_state_scheme \<Rightarrow> mmap_view \<Rightarrow> bool" where
  "mmap_ok mbi s v \<longleftrightarrow>
     mbi_flags s mbi AND MULTIBOOT_FLAG_MMAP \<noteq> 0 \<and>
     vmm_phys_to_virt (mbi_mmap_addr s mbi) \<noteq> 0 \<and>
     mv_first v = vmm_phys_to_virt (mbi_mmap_addr s mbi) \<and>
     mv_end v = mv_first v + mbi_mmap_length s mbi \<and>
     mmap_chain s (mv_first v) (mv_end v) (mv_entries v) \<and> mv_first v \<le> mv_end v \<and>
     (\<forall>e \<in> set (usable s (mv_entries v)). entry_end s e \<le> 0xFFF00000) \<and>
     sorted_wrt (\<lambda>e f. entry_frames s e \<inter> entry_frames s f = {}) (usable s (mv_entries v))"

lemma small_u64:
  assumes "unat (a :: u64) + unat (l :: u64) \<le> 0xFFF00000"
  shows "unat (a + l) = unat a + unat l" "unat (ucast (a + l) :: u32) = unat a + unat l"
    "unat (ucast a :: u32) = unat a" "unat (ucast (drop_bit 12 a) :: u32) = unat a div 4096"
    "unat (ucast (drop_bit 12 l) :: u32) = unat l div 4096" "unat (drop_bit 12 (a + l)) = (unat a + unat l) div 4096"
proof -
  show s: "unat (a + l) = unat a + unat l" using assms by (simp add: unat_word_ariths)
  have d: "unat (drop_bit 12 x) = unat x div 4096" for x :: u64 by (simp add: drop_bit_eq_div unat_div)
  show "unat (ucast (a + l) :: u32) = unat a + unat l" "unat (ucast a :: u32) = unat a"
    using assms s by (simp_all add: unsigned_ucast_eq take_bit_eq_mod)
  show "unat (drop_bit 12 (a + l)) = (unat a + unat l) div 4096" using s by (simp add: d)
  show "unat (ucast (drop_bit 12 a) :: u32) = unat a div 4096" "unat (ucast (drop_bit 12 l) :: u32) = unat l div 4096"
    using assms by (simp_all add: unsigned_ucast_eq take_bit_eq_mod d)
qed

text \<open>\<open>find_segment\<close> over the map.\<close>

lemma find_segment_total:
  assumes ends: "\<forall>r \<in> avoid mbi s. unat (snd r) \<le> 0xFFE00000"
    and bytes: "unat bytes \<le> 0x20000"
    and chain: "mmap_chain s p end es"
    and low: "\<And>e. e \<in> set (usable s es) \<Longrightarrow> entry_end s e \<le> 0xFFF00000"
  shows "\<exists>r. find_segment_loop mbi bytes p end s = Some r \<and>
    (r \<noteq> 0 \<longrightarrow> (\<exists>e \<in> set (usable s es). seg_ok mbi bytes (entry_end s e) s r \<and> entry_start s e \<le> unat r))"
  using chain ends low
proof (induction s p "end" es rule: mmap_chain.induct)
  case (chain_nil s p)
  then show ?case by (simp add: find_segment_loop.simps)
next
  case (chain_cons s p "end" es)
  have lt: "p < end" using entry_step(2) [OF chain_cons.hyps(2)] .
  let ?next = "find_segment_loop mbi bytes (p + (entry_size s p + 4)) end s"
  obtain r where r: "?next = Some r" "r \<noteq> 0 \<longrightarrow>
      (\<exists>e \<in> set (usable s es). seg_ok mbi bytes (entry_end s e) s r \<and> entry_start s e \<le> unat r)"
    using chain_cons.IH chain_cons.prems by (auto simp: usable_def)
  show ?case
  proof (cases "entry_type s p = 1")
    case False
    then show ?thesis using r lt by (auto simp: find_segment_loop.simps [of mbi bytes p] usable_def)
  next
    case True
    let ?a = "if entry_addr s p = 0 then 1 else ucast (entry_addr s p) :: u32"
    let ?e = "ucast (entry_addr s p + entry_len s p) :: u32"
    let ?s = "align_up ?a PMM_PAGE_SIZE"
    have e: "entry_end s p \<le> 0xFFF00000" using chain_cons.prems(2) True by (simp add: usable_def)
    have u: "unat ?e = entry_end s p" "unat (ucast (entry_addr s p) :: u32) = entry_start s p"
      "entry_start s p \<le> 0xFFF00000"
      using e small_u64 [of "entry_addr s p" "entry_len s p"] by (simp_all add: entry_end_def entry_start_def)
    have a: "entry_start s p \<le> unat ?a" "unat ?a \<noteq> 0" "unat ?a \<le> 0xFFF00000"
      using u by (auto simp: entry_start_def unat_eq_0)
    note al = align_up_page [of ?a]
    obtain q where q: "seg_scan mbi bytes ?e ?s s = Some q"
      "\<And>x. q = Some x \<Longrightarrow> seg_ok mbi bytes (unat ?e) s x \<and> ?s \<le> x"
      using seg_scan_total [of mbi s bytes ?s ?e, OF chain_cons.prems(1) bytes] al a by auto
    show ?thesis
    proof (cases q)
      case None
      then show ?thesis
        using True r q lt by (auto simp: find_segment_loop.simps [of mbi bytes p] usable_def Let_def)
    next
      case (Some x)
      have "entry_start s p \<le> unat x" using q(2) [OF Some] al(2) a by (auto simp: word_le_nat_alt)
      then show ?thesis
        using True q Some lt u(1) by (auto simp: find_segment_loop.simps [of mbi bytes p] usable_def Let_def)
    qed
  qed
qed

section \<open>The checks\<close>

lemma mmap_okD:
  assumes "mmap_ok mbi s v"
  shows "mbi_flags s mbi AND MULTIBOOT_FLAG_MMAP \<noteq> 0" "vmm_phys_to_virt (mbi_mmap_addr s mbi) \<noteq> 0"
    "mv_first v = vmm_phys_to_virt (mbi_mmap_addr s mbi)" "mv_end v = mv_first v + mbi_mmap_length s mbi"
    "mmap_chain s (mv_first v) (mv_end v) (mv_entries v)" "mv_first v \<le> mv_end v"
    "e \<in> set (usable s (mv_entries v)) \<Longrightarrow> entry_end s e \<le> 0xFFF00000"
    "sorted_wrt (\<lambda>e f. entry_frames s e \<inter> entry_frames s f = {}) (usable s (mv_entries v))"
  using assms unfolding mmap_ok_def by blast+

lemma mmap_ok_entry:
  assumes "mmap_ok mbi s v" "map_same (mv_first v) (mv_end v) s t" "e \<in> set (mv_entries v)"
  shows "entry_size t e = entry_size s e" "entry_addr t e = entry_addr s e"
    "entry_len t e = entry_len s e" "entry_type t e = entry_type s e"
  using map_same_entry [OF assms(2)] chain_bounds [OF mmap_okD(5) [OF assms(1)] assms(3)] by blast+

lemma map_same_refl: "kmem t = kmem s \<Longrightarrow> map_same p end s t"
  by (simp add: map_same_def)

lemma check_mmap_ok:
  assumes "mmap_ok mbi s v"
  obtains t where "check_mmap mbi s = Some (Returns t)" "tty_state.more t = tty_state.more s"
proof -
  let ?g = "\<lambda>e us. case check_mmap_entry e us of Returns vs \<Rightarrow> vs | Panic m \<Rightarrow> us"
  let ?R = "\<lambda>us. tty_state.more (snd us) = tty_state.more s"
  have sz: "20 \<le> entry_size s e" if "mmap_chain s p end es" "e \<in> set es" for p "end" es e
    using that by (induction rule: mmap_chain.induct) auto
  note ch = mmap_okD [OF assms]
  have "mmap_loop check_mmap_entry (mv_first v) (mv_end v) ((), s) =
      Some (Returns (fold ?g (mv_entries v) ((), s))) \<and> ?R (fold ?g (mv_entries v) ((), s))"
  proof (rule mmap_loop_fold [where R = ?R])
    show "mmap_chain s (mv_first v) (mv_end v) (mv_entries v)" by (rule ch(5))
    fix e and us :: "unit \<times> 'a pmm_state_scheme"
    assume e: "e \<in> set (mv_entries v)" and R: "?R us"
    show es: "entry_size (snd us) e = entry_size s e" using tty_more_pmm [OF R] by (simp add: entry_size_def)
    have "\<not> entry_size s e < 20" using sz [OF ch(5) e] by (simp add: not_less)
    then show "check_mmap_entry e us = Returns (?g e us) \<and> ?R (?g e us)"
      using R es by (simp add: check_mmap_entry_def Let_def)
  qed simp
  then show ?thesis
    using that ch(1,2) by (simp add: check_mmap_def Let_def ch(3) [symmetric] ch(4) [symmetric])
qed

lemma find_max_page_fold:
  assumes "\<And>e. e \<in> set (usable s es) \<Longrightarrow> entry_end s e \<le> 0xFFF00000" "unat m \<le> 0xFFF00"
  defines "g \<equiv> \<lambda>e us. case find_max_page_entry e us of Returns vs \<Rightarrow> vs | Panic m \<Rightarrow> us"
  shows "snd (fold g es (m, s)) = s \<and> unat (fst (fold g es (m, s))) \<le> 0xFFF00 \<and>
    unat m \<le> unat (fst (fold g es (m, s))) \<and>
    (\<forall>e \<in> set (usable s es). entry_end s e div 4096 \<le> unat (fst (fold g es (m, s))))"
  using assms(1,2)
proof (induction es arbitrary: m)
  case (Cons e es)
  define m' where "m' = (if entry_type s e = 1
    then max (drop_bit 12 (entry_addr s e + entry_len s e)) m else m)"
  have g: "g e (m, s) = (m', s)"
    by (auto simp: g_def find_max_page_entry_def m'_def PMM_PAGE_SHIFT_def Let_def max_def)
  have d: "entry_type s e = 1 \<longrightarrow> entry_end s e div 4096 \<le> 0xFFF00"
    using Cons.prems(1) [of e] div_le_mono [of "entry_end s e" "0xFFF00000" 4096] by (simp add: usable_def)
  have b: "unat m' \<le> 0xFFF00" "unat m \<le> unat m'" "entry_type s e = 1 \<longrightarrow> entry_end s e div 4096 \<le> unat m'"
    using Cons.prems d small_u64(6) [of "entry_addr s e" "entry_len s e"]
    by (auto simp: m'_def usable_def entry_end_def max_def word_le_nat_alt)
  have "\<And>x. x \<in> set (usable s es) \<Longrightarrow> entry_end s x \<le> 0xFFF00000" using Cons.prems(1) by (simp add: usable_def)
  note IH = Cons.IH [OF this b(1)]
  show ?case using IH b by (auto simp: g usable_def)
qed (simp add: usable_def)

lemma entries_kmem:
  assumes "kmem t = kmem s"
  shows "entry_size t = entry_size s" "entry_addr t = entry_addr s" "entry_len t = entry_len s"
    "entry_type t = entry_type s" "usable t = usable s" "entry_start t = entry_start s"
    "entry_end t = entry_end s" "entry_frames t = entry_frames s"
    "mbi_flags t = mbi_flags s" "mbi_mmap_addr t = mbi_mmap_addr s" "mbi_mmap_length t = mbi_mmap_length s"
proof -
  show e: "entry_size t = entry_size s" "entry_addr t = entry_addr s" "entry_len t = entry_len s"
    "entry_type t = entry_type s" "mbi_flags t = mbi_flags s" "mbi_mmap_addr t = mbi_mmap_addr s"
    "mbi_mmap_length t = mbi_mmap_length s"
    using assms by (intro ext; simp add: entry_size_def entry_addr_def entry_len_def entry_type_def
        mbi_flags_def mbi_mmap_addr_def mbi_mmap_length_def)+
  show "usable t = usable s" "entry_start t = entry_start s" "entry_end t = entry_end s"
    "entry_frames t = entry_frames s"
    by (intro ext; simp add: usable_def entry_start_def entry_end_def entry_frames_def e)+
qed

lemma mmap_ok_kmem:
  assumes "kmem t = kmem s" "mmap_ok mbi s v"
  shows "mmap_ok mbi t v"
  using chain_same [OF mmap_okD(5) [OF assms(2)] map_same_refl [OF assms(1)] order_refl] assms(2)
  unfolding mmap_ok_def entries_kmem [OF assms(1)] by blast

lemma find_max_page_ok:
  assumes "mmap_ok mbi s v"
  obtains m where "find_max_page mbi s = Some (Returns m)" "unat m \<le> 0xFFF00"
    "\<And>e. e \<in> set (usable s (mv_entries v)) \<Longrightarrow> entry_end s e div 4096 \<le> unat m"
proof -
  let ?g = "\<lambda>e us. case find_max_page_entry e us of Returns vs \<Rightarrow> vs | Panic m \<Rightarrow> us"
  let ?r = "fold ?g (mv_entries v) (0, s)"
  note ch = mmap_okD [OF assms]
  have "mmap_loop find_max_page_entry (mv_first v) (mv_end v) (0, s) = Some (Returns ?r) \<and> snd ?r = s"
  proof (rule mmap_loop_fold [where R = "\<lambda>us. snd us = s"])
    fix e and us :: "u64 \<times> 'a pmm_state_scheme"
    assume "snd us = s"
    then show "find_max_page_entry e us = Returns (?g e us) \<and> snd (?g e us) = s"
      by (cases us) (simp add: find_max_page_entry_def Let_def)
  qed (use ch(5) in auto)
  then have "find_max_page mbi s = Some (Returns (ucast (fst ?r)))"
    by (simp add: find_max_page_def Let_def ch(3) [symmetric] ch(4) [symmetric])
  moreover have b: "unat (fst ?r) \<le> 0xFFF00"
    "\<And>e. e \<in> set (usable s (mv_entries v)) \<Longrightarrow> entry_end s e div 4096 \<le> unat (fst ?r)"
    using find_max_page_fold [OF ch(7), where m = 0] by simp_all
  moreover have "unat (ucast (fst ?r) :: u32) = unat (fst ?r)"
    using b(1) by (simp add: unsigned_ucast_eq take_bit_eq_mod)
  ultimately show ?thesis using that by simp
qed

lemma check_kernel_location_ok:
  assumes "mmap_ok mbi s v"
  obtains r where "check_kernel_location mbi s = Some r"
proof -
  let ?g = "\<lambda>e us. case kernel_overlap_entry e us of Returns vs \<Rightarrow> vs | Panic m \<Rightarrow> us"
  note ch = mmap_okD [OF assms]
  have "mmap_loop kernel_overlap_entry (mv_first v) (mv_end v) (0, s) =
      Some (Returns (fold ?g (mv_entries v) (0, s))) \<and> snd (fold ?g (mv_entries v) (0, s)) = s"
  proof (rule mmap_loop_fold [where R = "\<lambda>us. snd us = s"])
    fix e and us :: "u64 \<times> 'a pmm_state_scheme"
    assume "snd us = s"
    then show "kernel_overlap_entry e us = Returns (?g e us) \<and> snd (?g e us) = s"
      by (cases us) (simp add: kernel_overlap_entry_def)
  qed (use ch(5) in auto)
  then have "\<exists>r. check_kernel_location mbi s = Some r"
    by (simp add: check_kernel_location_def Let_def ch(3) [symmetric] ch(4) [symmetric])
  then show ?thesis using that by blast
qed

section \<open>Clearing the usable frames\<close>

lemma clear_loop:
  assumes "b \<le> pmm_max_page s"
  shows "free_pages (for_u32 a b bitmap_clear s) = free_pages s \<union> {a..<b}"
    and "for_u32 a b bitmap_clear s = s\<lparr>kmem := kmem (for_u32 a b bitmap_clear s)\<rparr>"
    and "\<not> in_bitmap s x \<Longrightarrow> kmem (for_u32 a b bitmap_clear s) x = kmem s x"
proof -
  let ?P = "\<lambda>k t. free_pages t = free_pages s \<union> {a..<k} \<and> t = s\<lparr>kmem := kmem t\<rparr> \<and>
    (\<forall>x. \<not> in_bitmap s x \<longrightarrow> kmem t x = kmem s x)"
  have "?P b (for_u32 a b bitmap_clear s)" if "a \<le> b"
  proof (rule for_u32_invariant [where P = ?P])
    fix k :: u32 and t :: "'a pmm_state_scheme" assume k: "a \<le> k" "k < b" "?P k t"
    obtain m where t: "t = s\<lparr>kmem := m\<rparr>" using k(3) by blast
    have "k < pmm_max_page t" using k(2) assms by (simp add: t)
    moreover have "{a..<k + 1} = insert k {a..<k}" using k by (auto simp: less_inc)
    moreover have "in_bitmap t = in_bitmap s" by (simp add: t in_bitmap_def fun_eq_iff)
    ultimately show "?P (k + 1) (bitmap_clear k t)"
      using k(3) by (auto simp: free_pages_clear kmem_bitmap_clear) (simp add: bitmap_clear_def Let_def t)
  qed (use that in auto)
  then have "?P b (for_u32 a b bitmap_clear s)" by (cases "a \<le> b") auto
  then show "free_pages (for_u32 a b bitmap_clear s) = free_pages s \<union> {a..<b}"
    "for_u32 a b bitmap_clear s = s\<lparr>kmem := kmem (for_u32 a b bitmap_clear s)\<rparr>"
    "\<not> in_bitmap s x \<Longrightarrow> kmem (for_u32 a b bitmap_clear s) x = kmem s x" by auto
qed

definition bitmap_only :: "'a pmm_state_scheme \<Rightarrow> 'a pmm_state_scheme \<Rightarrow> bool" where
  "bitmap_only s t \<longleftrightarrow> t = s\<lparr>kmem := kmem t\<rparr> \<and> (\<forall>x. \<not> in_bitmap s x \<longrightarrow> kmem t x = kmem s x)"

lemma bitmap_onlyD:
  assumes "bitmap_only s t"
  shows "pmm_max_page t = pmm_max_page s" "in_bitmap t = in_bitmap s" "\<not> in_bitmap s x \<Longrightarrow> kmem t x = kmem s x"
proof -
  obtain m where t: "t = s\<lparr>kmem := m\<rparr>" using assms by (auto simp: bitmap_only_def)
  show "pmm_max_page t = pmm_max_page s" "in_bitmap t = in_bitmap s" by (simp_all add: t in_bitmap_def fun_eq_iff)
  show "\<not> in_bitmap s x \<Longrightarrow> kmem t x = kmem s x" using assms by (simp add: bitmap_only_def)
qed

lemma bitmap_only_trans:
  assumes "bitmap_only s t" "u = t\<lparr>kmem := m\<rparr>" "\<And>x. \<not> in_bitmap t x \<Longrightarrow> m x = kmem t x"
  shows "bitmap_only s u"
proof -
  obtain l where t: "t = s\<lparr>kmem := l\<rparr>" using assms(1) by (auto simp: bitmap_only_def)
  show ?thesis
    using assms(3) bitmap_onlyD(2,3) [OF assms(1)] unfolding bitmap_only_def assms(2) by (simp add: t)
qed

lemma card_entry_frames:
  assumes "entry_end s e \<le> 0xFFF00000"
  defines "a \<equiv> ucast (drop_bit 12 (entry_addr s e)) :: u32" and "n \<equiv> ucast (drop_bit 12 (entry_len s e)) :: u32"
  shows "entry_frames s e = {a..<a + n}" "card (entry_frames s e) = unat n" "unat (a + n) = unat a + unat n"
    "unat (a + n) \<le> entry_end s e div 4096"
proof -
  note U = small_u64 [of "entry_addr s e" "entry_len s e"]
  have u: "unat a = entry_start s e div 4096" "unat n = unat (entry_len s e) div 4096"
    using U(4,5) assms(1) by (simp_all add: a_def n_def entry_start_def entry_end_def)
  have b: "unat a + unat n \<le> entry_end s e div 4096"
    using div_add1_eq [of "entry_start s e" "unat (entry_len s e)" 4096]
    by (simp add: u entry_end_def entry_start_def)
  also have "\<dots> \<le> 0xFFF00" using assms(1) div_le_mono [of "entry_end s e" "0xFFF00000" 4096] by simp
  finally show an: "unat (a + n) = unat a + unat n" by (simp add: unat_word_ariths)
  then show "unat (a + n) \<le> entry_end s e div 4096" using b by simp
  show f: "entry_frames s e = {a..<a + n}"
    using an u by (auto simp: entry_frames_def word_le_nat_alt word_less_nat_alt)
  have "unat ` {a..<a + n} = {unat a..<unat (a + n)}"
  proof (intro equalityI subsetI)
    fix k assume k: "k \<in> {unat a..<unat (a + n)}"
    then have "unat (word_of_nat k :: u32) = k" using u32_bound [of "a + n"] by (simp add: unat_of_nat)
    then show "k \<in> unat ` {a..<a + n}"
      using k by (intro image_eqI [of _ _ "word_of_nat k"]) (simp_all add: word_le_nat_alt word_less_nat_alt)
  qed (auto simp: word_le_nat_alt word_less_nat_alt)
  then show "card (entry_frames s e) = unat n"
    using card_image [of unat "{a..<a + n}"] an by (simp add: f inj_on_def word_unat_eq_iff)
qed

lemma clear_entry:
  assumes "bitmap_only s t" "entry_type t e = 1" "entry_addr t e = entry_addr s e" "entry_len t e = entry_len s e"
    and "entry_end s e \<le> 0xFFF00000" "entry_end s e div 4096 \<le> unat (pmm_max_page s)"
    and "unat (pmm_max_page s) \<le> 0xFFF00"
    and "unat u = card (free_pages t)" "entry_frames s e \<inter> free_pages t = {}"
  obtains u' t' where "clear_usable_entry e (u, t) = Returns (u', t')" "bitmap_only s t'"
    "free_pages t' = free_pages t \<union> entry_frames s e" "unat u' = card (free_pages t')"
proof -
  let ?a = "ucast (drop_bit 12 (entry_addr s e)) :: u32" and ?n = "ucast (drop_bit 12 (entry_len s e)) :: u32"
  note C = card_entry_frames [OF assms(5)] and B = bitmap_onlyD [OF assms(1)]
  show ?thesis
  proof (cases "pmm_max_page t \<le> ?a")
    case True
    then have "entry_frames s e = {}" using C(1,3,4) assms(6) B(1) by (auto simp: word_le_nat_alt word_less_nat_alt)
    then show ?thesis
      using that [of u t] True assms by (simp add: clear_usable_entry_def PMM_PAGE_SHIFT_def Let_def)
  next
    case False
    have le: "?a + ?n \<le> pmm_max_page t" "\<not> ?a + ?n < ?a"
      using C(3,4) assms(6) B(1) by (simp_all add: word_le_nat_alt word_less_nat_alt)
    note L = clear_loop [OF le(1), where a = ?a]
    have f: "free_pages (for_u32 ?a (?a + ?n) bitmap_clear t) = free_pages t \<union> entry_frames s e"
      using L(1) C(1) by simp
    have cd: "card (free_pages t \<union> entry_frames s e) = unat u + unat ?n"
      using card_Un_disjoint [of "free_pages t" "entry_frames s e"] assms(8,9) C(2) by (simp add: Int_commute)
    have "free_pages t \<union> entry_frames s e \<subseteq> {..<pmm_max_page t}"
      using L(1) f le C(1) by (auto simp: free_pages_def)
    from card_mono [OF _ this] have "unat u + unat ?n \<le> 0xFFF00"
      using cd assms(7) B(1) by (simp add: card_less_u32)
    then have "unat (u + ?n) = card (free_pages t \<union> entry_frames s e)" using cd by (simp add: unat_word_ariths)
    moreover have "bitmap_only s (for_u32 ?a (?a + ?n) bitmap_clear t)"
      using L(3) by (rule bitmap_only_trans [OF assms(1) L(2)])
    moreover have "\<not> pmm_max_page t < ?a + ?n" using le(1) by simp
    ultimately show ?thesis
      using that [of "u + ?n" "for_u32 ?a (?a + ?n) bitmap_clear t"] False le(2) assms(2-4) f
      by (simp add: clear_usable_entry_def PMM_PAGE_SHIFT_def Let_def)
  qed
qed

lemma clear_fold:
  assumes "map_same (mv_first v) (mv_end v) s t" "bitmap_only s t" "mmap_ok mbi s v" "set es \<subseteq> set (mv_entries v)"
    and "\<And>x. mv_first v \<le> x \<Longrightarrow> x < mv_end v \<Longrightarrow> \<not> in_bitmap s x"
    and "\<And>e. e \<in> set (usable s es) \<Longrightarrow> entry_end s e div 4096 \<le> unat (pmm_max_page s)"
    and "unat (pmm_max_page s) \<le> 0xFFF00" "unat u = card (free_pages t)"
    and "\<And>e. e \<in> set (usable s es) \<Longrightarrow> entry_frames s e \<inter> free_pages t = {}"
    and "sorted_wrt (\<lambda>e f. entry_frames s e \<inter> entry_frames s f = {}) (usable s es)"
  defines "g \<equiv> \<lambda>e us. case clear_usable_entry e us of Returns vs \<Rightarrow> vs | Panic m \<Rightarrow> us"
  shows "bitmap_only s (snd (fold g es (u, t))) \<and>
    free_pages (snd (fold g es (u, t))) = free_pages t \<union> \<Union> (entry_frames s ` set (usable s es)) \<and>
    unat (fst (fold g es (u, t))) = card (free_pages (snd (fold g es (u, t))))"
  using assms(1,2,4,6,8-10)
proof (induction es arbitrary: u t)
  case (Cons e es)
  have "e \<in> set (mv_entries v)" using Cons.prems(3) by simp
  note E = mmap_ok_entry [OF assms(3) Cons.prems(1) this]
  show ?case
  proof (cases "entry_type s e = 1")
    case False
    then have "g e (u, t) = (u, t)" using E(4) by (simp add: g_def clear_usable_entry_def)
    then show ?thesis using Cons False by (simp add: usable_def)
  next
    case True
    then have e: "e \<in> set (usable s (e # es))" "usable s (e # es) = e # usable s es" by (simp_all add: usable_def)
    have el: "entry_end s e \<le> 0xFFF00000"
      using mmap_okD(7) [OF assms(3), of e] Cons.prems(3) True by (auto simp: usable_def)
    obtain u' t' where t': "clear_usable_entry e (u, t) = Returns (u', t')" "bitmap_only s t'"
      "free_pages t' = free_pages t \<union> entry_frames s e" "unat u' = card (free_pages t')"
      using clear_entry [OF Cons.prems(2) _ E(2,3) el Cons.prems(4) [OF e(1)] assms(7) Cons.prems(5)
          Cons.prems(6) [OF e(1)]] True E(4) by auto
    have ms: "map_same (mv_first v) (mv_end v) s t'"
      using bitmap_onlyD(3) [OF t'(2)] assms(5) by (simp add: map_same_def)
    have "bitmap_only s (snd (fold g es (u', t'))) \<and>
      free_pages (snd (fold g es (u', t'))) = free_pages t' \<union> \<Union> (entry_frames s ` set (usable s es)) \<and>
      unat (fst (fold g es (u', t'))) = card (free_pages (snd (fold g es (u', t'))))"
    proof (rule Cons.IH [OF ms t'(2) _ _ t'(4)])
      show "entry_frames s f \<inter> free_pages t' = {}" if "f \<in> set (usable s es)" for f
        using that Cons.prems(6,7) t'(3) e(2) by auto
    qed (use Cons.prems e in auto)
    then show ?thesis using t'(1,3) e(2) by (simp add: g_def Un_assoc)
  qed
qed (simp add: usable_def)

lemma fill_bitmap_spec:
  assumes "0 < pmm_max_page s" "pmm_bitmap_bytes s = (pmm_max_page s + 7) div 8" "unat (pmm_max_page s) \<le> 0xFFF00"
  shows "bitmap_only s (fill_bitmap s)" "free_pages (fill_bitmap s) = {}"
proof -
  let ?n = "pmm_bitmap_bytes s"
  let ?P = "\<lambda>k t. t = s\<lparr>kmem := kmem t\<rparr> \<and>
    (\<forall>x. kmem t x = (if x - pmm_bitmap s < k then 0xFF else kmem s x))"
  have P: "?P ?n (fill_bitmap s)"
    unfolding fill_bitmap_def
  proof (rule for_u32_invariant [where P = ?P])
    fix k :: u32 and t :: "'a pmm_state_scheme" assume k: "k < ?n" "?P k t"
    obtain m where t: "t = s\<lparr>kmem := m\<rparr>" using k(2) by blast
    show "?P (k + 1) (t\<lparr>kmem := (kmem t)(pmm_bitmap t + k := 0xFF)\<rparr>)"
      using k less_inc [OF k(1)] by (auto simp: t sub_eq_iff)
  qed auto
  have n: "unat ?n = (unat (pmm_max_page s) + 7) div 8" "unat (pmm_max_page s) > 0"
    using assms by (simp_all add: unat_div unat_word_ariths word_less_nat_alt)
  have "unat ((pmm_max_page s - 1) div 8) = unat ?n - 1"
    using n assms(1) by (simp add: unat_div unat_minus_one word_gt_0)
  then have ib: "in_bitmap s x \<longleftrightarrow> x - pmm_bitmap s < ?n" for x
    using n by (auto simp: in_bitmap_def word_le_nat_alt word_less_nat_alt)
  then show "bitmap_only s (fill_bitmap s)" using P by (auto simp: bitmap_only_def)
  then have "in_bitmap (fill_bitmap s) = in_bitmap s" "pmm_max_page (fill_bitmap s) = pmm_max_page s"
      "pmm_bitmap (fill_bitmap s) = pmm_bitmap s"
    using P bitmap_onlyD(1,2) by (blast, blast) (metis pmm_state.select_convs(4) pmm_state.surjective pmm_state.update_convs(1) P)
  then show "free_pages (fill_bitmap s) = {}"
    using P ib in_bitmap_page [of _ "fill_bitmap s"] bit_255 mod_8_less
    by (auto simp: free_pages_def page_used_def)
qed

section \<open>The allocator after boot\<close>

text \<open>Boot conditions: a sane map, and the kernel image and the Multiboot structure in the direct map.\<close>

definition boot_ok :: "ptr \<Rightarrow> 'a pmm_state_scheme \<Rightarrow> mmap_view \<Rightarrow> bool" where
  "boot_ok mbi s v \<longleftrightarrow> mmap_ok mbi s v \<and> unat (kernel_physical_end s) \<le> 0x1000000 \<and>
     vmm_phys_to_virt (vmm_virt_to_phys mbi) = mbi \<and> mbi \<noteq> 0"

lemma no_wrap_nat: "x \<le> (x + y) mod m \<Longrightarrow> x < m \<Longrightarrow> y < m \<Longrightarrow> x + y < m" for x y m :: nat
  using le_mod_geq [of m "x + y"] by (cases "x + y < m") auto

lemma mmap_extent:
  assumes "mmap_ok mbi s v"
  shows "unat (mv_first v) = 0xC0000000 + unat (mbi_mmap_addr s mbi)"
    "unat (mv_end v) = 0xC0000000 + unat (mbi_mmap_addr s mbi + mbi_mmap_length s mbi)"
    "unat (mbi_mmap_addr s mbi) \<le> unat (mbi_mmap_addr s mbi + mbi_mmap_length s mbi)"
proof -
  note D = mmap_okD [OF assms]
  let ?a = "mbi_mmap_addr s mbi" and ?l = "mbi_mmap_length s mbi"
  have a: "unat ?a < 0x1000000" using D(2) phys_to_virt_unat(1) by simp
  show f: "unat (mv_first v) = 0xC0000000 + unat ?a" using D(3) phys_to_virt_unat(2) [OF a] by simp
  have e: "unat (mv_end v) = (0xC0000000 + unat ?a + unat ?l) mod 4294967296"
    using D(4) f by (simp add: unat_word_ariths)
  have "unat (mv_first v) \<le> unat (mv_end v)" using D(6) by (simp add: word_le_nat_alt)
  then have "0xC0000000 + unat ?a \<le> (0xC0000000 + unat ?a + unat ?l) mod 4294967296" using e f by simp
  then have "0xC0000000 + unat ?a + unat ?l < 4294967296"
    using u32_bound [of ?l] a no_wrap_nat [of "0xC0000000 + unat ?a" "unat ?l" 4294967296] by simp
  then show "unat (mv_end v) = 0xC0000000 + unat (?a + ?l)" "unat ?a \<le> unat (?a + ?l)"
    using e by (simp_all add: unat_word_ariths)
qed

lemma avoid_ends:
  assumes "boot_ok mbi s v"
  shows "\<forall>r \<in> avoid mbi s. unat (snd r) \<le> 0xFFE00000"
proof -
  have mm: "mmap_ok mbi s v" using assms by (simp add: boot_ok_def)
  have "unat (vmm_virt_to_phys mbi) < 0x1000000"
    using assms phys_to_virt_unat(1) [of "vmm_virt_to_phys mbi"] by (simp add: boot_ok_def)
  then have "unat (vmm_virt_to_phys mbi + sizeof_multiboot_info) \<le> 0xFFE00000"
    by (simp add: sizeof_multiboot_info_def unat_word_ariths)
  moreover have "unat (mbi_mmap_addr s mbi + mbi_mmap_length s mbi) \<le> 0xFFE00000"
    using mmap_extent(2) [OF mm] u32_bound [of "mv_end v"] by simp
  ultimately show ?thesis using assms by (auto simp: avoid_def boot_ok_def)
qed

text \<open>Bytes of the direct map outside the chosen segment are not bitmap bytes.\<close>

lemma not_in_segment:
  assumes "unat b < 0x1000000" "unat n \<le> 0x20000" "0xC0000000 \<le> unat x"
    and "unat x < 0xC0000000 + unat b \<or> 0xC0000000 + unat b + unat n \<le> unat x"
  shows "\<not> x - vmm_phys_to_virt b < n"
  using assms phys_to_virt_unat(2) [OF assms(1)] u32_bound [of x]
  by (auto simp: word_less_nat_alt unat_sub_if_size word_size)

lemma in_bitmap_bytes:
  assumes "0 < pmm_max_page s" "pmm_bitmap_bytes s = (pmm_max_page s + 7) div 8" "unat (pmm_max_page s) \<le> 0xFFF00"
  shows "in_bitmap s x \<longleftrightarrow> x - pmm_bitmap s < pmm_bitmap_bytes s" "unat (pmm_bitmap_bytes s) \<le> 0x20000"
proof -
  have n: "unat (pmm_bitmap_bytes s) = (unat (pmm_max_page s) + 7) div 8" "unat (pmm_max_page s) > 0"
    using assms by (simp_all add: unat_div unat_word_ariths word_less_nat_alt)
  then show "unat (pmm_bitmap_bytes s) \<le> 0x20000" using assms(3) by simp
  have "unat ((pmm_max_page s - 1) div 8) = unat (pmm_bitmap_bytes s) - 1"
    using n assms(1) by (simp add: unat_div unat_minus_one word_gt_0)
  then show "in_bitmap s x \<longleftrightarrow> x - pmm_bitmap s < pmm_bitmap_bytes s"
    using n by (auto simp: in_bitmap_def word_le_nat_alt word_less_nat_alt)
qed

text \<open>The reservations at the end of \<open>pmm_init\<close>.\<close>

definition reserve_boot :: "u32 \<Rightarrow> 'a pmm_state_scheme \<Rightarrow> 'a pmm_state_scheme" where
  "reserve_boot b s =
     (let s = reserve_segment b (b + pmm_bitmap_bytes s) s
      in reserve_page 0 (reserve_segment (kernel_physical_start s) (kernel_physical_end s) s))"

lemma reserve_page_kernel:
  "kernel_physical_start (reserve_page p s) = kernel_physical_start s"
  "kernel_physical_end (reserve_page p s) = kernel_physical_end s"
  by (simp_all add: reserve_page_def bitmap_set_def Let_def)

lemma reserve_segment_kernel:
  "kernel_physical_start (reserve_segment a b s) = kernel_physical_start s"
  "kernel_physical_end (reserve_segment a b s) = kernel_physical_end s"
  unfolding reserve_segment_def Let_def by (rule for_u32_keeps; rule reserve_page_kernel)+

lemma reserve_boot_bitmap:
  "pmm_bitmap (reserve_boot b s) = pmm_bitmap s" "pmm_bitmap_bytes (reserve_boot b s) = pmm_bitmap_bytes s"
proof -
  have p: "pmm_bitmap (for_u32 i n reserve_page t) = pmm_bitmap t" for i n and t :: "'a pmm_state_scheme"
    by (rule for_u32_keeps) simp
  have r: "pmm_bitmap_bytes (reserve_page k t) = pmm_bitmap_bytes t" for k and t :: "'a pmm_state_scheme"
    by (simp add: reserve_page_def bitmap_set_def Let_def)
  have q: "pmm_bitmap_bytes (for_u32 i n reserve_page t) = pmm_bitmap_bytes t" for i n and t :: "'a pmm_state_scheme"
    by (rule for_u32_keeps) (rule r)
  show "pmm_bitmap (reserve_boot b s) = pmm_bitmap s" "pmm_bitmap_bytes (reserve_boot b s) = pmm_bitmap_bytes s"
    by (simp_all add: reserve_boot_def reserve_segment_def Let_def p q r)
qed

lemma reserve_boot_more: "pmm_state.more (reserve_boot b s) = pmm_state.more s"
proof -
  have r: "pmm_state.more (reserve_page k t) = pmm_state.more t" for k and t :: "'a pmm_state_scheme"
    by (simp add: reserve_page_def bitmap_set_def Let_def)
  have "pmm_state.more (for_u32 i n reserve_page t) = pmm_state.more t" for i n and t :: "'a pmm_state_scheme"
    by (rule for_u32_keeps) (rule r)
  then show ?thesis by (simp add: reserve_boot_def reserve_segment_def Let_def r)
qed

lemma reserve_boot_spec:
  assumes "unat (pmm_free_pages s) = card (free_pages s)" "unat (pmm_max_page s) \<le> 0xFFF00" "0 < pmm_max_page s"
    and "unat (b + pmm_bitmap_bytes s) \<le> 4294963200" "unat (kernel_physical_end s) \<le> 4294963200"
  shows "pmm_ok (reserve_boot b s)" "pmm_max_page (reserve_boot b s) = pmm_max_page s"
    and "in_bitmap (reserve_boot b s) = in_bitmap s"
    and "free_pages (reserve_boot b s) = free_pages s - frames_of b (b + pmm_bitmap_bytes s) -
      frames_of (kernel_physical_start s) (kernel_physical_end s) - {0}"
    and "\<not> in_bitmap s x \<Longrightarrow> kmem (reserve_boot b s) x = kmem s x"
proof -
  define s1 where "s1 = reserve_segment b (b + pmm_bitmap_bytes s) s"
  define s2 where "s2 = reserve_segment (kernel_physical_start s) (kernel_physical_end s) s1"
  have rb: "reserve_boot b s = reserve_page 0 s2"
    by (simp add: reserve_boot_def s1_def s2_def Let_def reserve_segment_kernel)
  note A = reserve_segment_spec [OF assms(4), where a = b and s = s, folded s1_def]
  note B = reserve_segment_spec [OF assms(5), where a = "kernel_physical_start s" and s = s1, folded s2_def]
  show f: "free_pages (reserve_boot b s) = free_pages s - frames_of b (b + pmm_bitmap_bytes s) -
      frames_of (kernel_physical_start s) (kernel_physical_end s) - {0}"
    by (simp add: rb reserve_page_frees A(1) B(1))
  show m: "pmm_max_page (reserve_boot b s) = pmm_max_page s" "in_bitmap (reserve_boot b s) = in_bitmap s"
    by (simp_all add: rb A(2,3) B(2,3))
  show "\<not> in_bitmap s x \<Longrightarrow> kmem (reserve_boot b s) x = kmem s x"
    using A(3,4) B(3,4) reserve_page_kmem [of s2 x 0] by (simp add: rb)
  have "unat (pmm_free_pages (reserve_boot b s)) = card (free_pages (reserve_boot b s))"
    unfolding rb using A(5) [OF assms(1)] B(5) reserve_page_count by simp
  moreover have "page_used (reserve_boot b s) 0"
    using f m(1) assms(3) by (auto simp: free_pages_def)
  moreover have "pmm_max_page (reserve_boot b s) \<le> 0x100000" using m(1) assms(2) by (simp add: word_le_nat_alt)
  ultimately show "pmm_ok (reserve_boot b s)" by (simp add: pmm_ok_def)
qed

text \<open>The fields the boot code reads stay as they are while the bitmap is written.\<close>

lemma mbi_same:
  assumes "boot_ok mbi s v" "\<And>x. unat mbi \<le> unat x \<Longrightarrow> unat x < unat mbi + 52 \<Longrightarrow> kmem t x = kmem s x"
  shows "mbi_mmap_addr t mbi = mbi_mmap_addr s mbi" "mbi_mmap_length t mbi = mbi_mmap_length s mbi"
proof -
  have "unat mbi < 0xC1000000"
    using assms(1) phys_to_virt_unat [of "vmm_virt_to_phys mbi"] by (simp add: boot_ok_def)
  then have "unat (mbi + k) = unat mbi + unat k" if "unat k \<le> 48" for k
    using that by (simp add: unat_word_ariths)
  then have "ld32 (kmem t) (mbi + k) = ld32 (kmem s) (mbi + k)" if "unat k \<le> 48" for k
  proof (intro ld32_cong assms(2))
    fix x assume x: "x - (mbi + k) < 4"
    have k: "unat (mbi + k) = unat mbi + unat k" using \<open>unat mbi < 0xC1000000\<close> that by (simp add: unat_word_ariths)
    then have "unat x = unat mbi + unat k + unat (x - (mbi + k))"
      using x that \<open>unat mbi < 0xC1000000\<close> u32_bound [of x]
      by (auto simp: word_less_nat_alt unat_sub_if_size word_size split: if_splits)
    then show "unat mbi \<le> unat x" "unat x < unat mbi + 52" using that x by (simp_all add: word_less_nat_alt)
  qed
  from this [of 48] this [of 44]
  show "mbi_mmap_addr t mbi = mbi_mmap_addr s mbi" "mbi_mmap_length t mbi = mbi_mmap_length s mbi"
    by (simp_all add: mbi_mmap_addr_def mbi_mmap_length_def)
qed

lemma segment_apart:
  assumes bt: "boot_ok mbi s v" and seg: "seg_ok mbi n e s b" and b: "unat b < 0x1000000" and n: "unat n \<le> 0x20000"
  shows "unat mbi \<le> unat x \<Longrightarrow> unat x < unat mbi + 52 \<Longrightarrow> \<not> x - vmm_phys_to_virt b < n"
    and "mv_first v \<le> x \<Longrightarrow> x < mv_end v \<Longrightarrow> \<not> x - vmm_phys_to_virt b < n"
proof -
  have mm: "mmap_ok mbi s v" using bt by (simp add: boot_ok_def)
  note X = mmap_extent [OF mm]
  have m: "unat (vmm_virt_to_phys mbi) < 0x1000000" "unat mbi = 0xC0000000 + unat (vmm_virt_to_phys mbi)"
    using bt phys_to_virt_unat [of "vmm_virt_to_phys mbi"] by (simp_all add: boot_ok_def)
  then have m52: "unat (vmm_virt_to_phys mbi + sizeof_multiboot_info) = unat (vmm_virt_to_phys mbi) + 52"
    by (simp add: sizeof_multiboot_info_def unat_word_ariths)
  have s: "unat (vmm_virt_to_phys mbi) + 52 \<le> unat b \<or> unat b + unat n \<le> unat (vmm_virt_to_phys mbi)"
    "unat (mbi_mmap_addr s mbi + mbi_mmap_length s mbi) \<le> unat b \<or> unat b + unat n \<le> unat (mbi_mmap_addr s mbi)"
    using seg m52 by (auto simp: seg_ok_def avoid_def)
  show "unat mbi \<le> unat x \<Longrightarrow> unat x < unat mbi + 52 \<Longrightarrow> \<not> x - vmm_phys_to_virt b < n"
    using s(1) m by (intro not_in_segment [OF b n]) auto
  show "mv_first v \<le> x \<Longrightarrow> x < mv_end v \<Longrightarrow> \<not> x - vmm_phys_to_virt b < n"
    using s(2) X by (intro not_in_segment [OF b n]) (auto simp: word_le_nat_alt word_less_nat_alt)
qed

definition usable_frames :: "'a pmm_state_scheme \<Rightarrow> mmap_view \<Rightarrow> u32 set" where
  "usable_frames s v = \<Union> (entry_frames s ` set (usable s (mv_entries v)))"

lemma clear_entry_only:
  assumes "bitmap_only s t"
  shows "\<exists>u' t'. clear_usable_entry e (u, t) = Returns (u', t') \<and> bitmap_only s t'"
proof -
  let ?a = "ucast (drop_bit 12 (entry_addr t e)) :: u32" and ?n = "ucast (drop_bit 12 (entry_len t e)) :: u32"
  let ?b = "if pmm_max_page t < ?a + ?n \<or> ?a + ?n < ?a then pmm_max_page t else ?a + ?n"
  have "?b \<le> pmm_max_page t" by auto
  note L = clear_loop [OF this, where a = ?a]
  have "bitmap_only s (for_u32 ?a ?b bitmap_clear t)"
    using L(3) by (rule bitmap_only_trans [OF assms L(2)])
  then show ?thesis using assms by (simp add: clear_usable_entry_def PMM_PAGE_SHIFT_def Let_def)
qed

lemma clear_usable_ok:
  assumes bt: "boot_ok mbi s v" and seg: "seg_ok mbi (pmm_bitmap_bytes s) e s b"
    and b: "vmm_phys_to_virt b \<noteq> 0" "pmm_bitmap s = vmm_phys_to_virt b"
    and M: "0 < pmm_max_page s" "pmm_bitmap_bytes s = (pmm_max_page s + 7) div 8" "unat (pmm_max_page s) \<le> 0xFFF00"
    and up: "\<And>e. e \<in> set (usable s (mv_entries v)) \<Longrightarrow> entry_end s e div 4096 \<le> unat (pmm_max_page s)"
  obtains u t where "clear_usable_pages mbi (fill_bitmap s) = Some (Returns (u, t))" "bitmap_only s t"
    "free_pages t = usable_frames s v" "unat u = card (free_pages t)"
proof -
  have mm: "mmap_ok mbi s v" using bt by (simp add: boot_ok_def)
  note ch = mmap_okD [OF mm] and IB = in_bitmap_bytes [OF M] and F = fill_bitmap_spec [OF M]
  have bl: "unat b < 0x1000000" using b(1) phys_to_virt_unat(1) by simp
  note SA = segment_apart [OF bt seg bl IB(2), folded b(2), folded IB(1)]
  have ms: "map_same (mv_first v) (mv_end v) s (fill_bitmap s)"
    using SA(2) bitmap_onlyD(3) [OF F(1)] by (simp add: map_same_def)
  let ?g = "\<lambda>e us. case clear_usable_entry e us of Returns vs \<Rightarrow> vs | Panic m \<Rightarrow> us"
  let ?R = "\<lambda>us. bitmap_only s (snd us)"
  let ?r = "fold ?g (mv_entries v) (0, fill_bitmap s)"
  have R: "bitmap_only s (snd ?r) \<and> free_pages (snd ?r) = free_pages (fill_bitmap s) \<union> usable_frames s v \<and>
      unat (fst ?r) = card (free_pages (snd ?r))"
    unfolding usable_frames_def
    by (rule clear_fold [OF ms F(1) mm order_refl SA(2) up M(3) _ _ ch(8)]) (simp_all add: F(2))
  have "mmap_loop clear_usable_entry (mv_first v) (mv_end v) (0, fill_bitmap s) = Some (Returns ?r) \<and> ?R ?r"
  proof (rule mmap_loop_fold [where R = ?R])
    fix e and us :: "u32 \<times> 'a pmm_state_scheme"
    assume e: "e \<in> set (mv_entries v)" and us: "?R us"
    have "map_same (mv_first v) (mv_end v) s (snd us)"
      using SA(2) bitmap_onlyD(3) [OF us] by (simp add: map_same_def)
    then show "entry_size (snd us) e = entry_size s e" using mmap_ok_entry(1) [OF mm _ e] by blast
    show "clear_usable_entry e us = Returns (?g e us) \<and> ?R (?g e us)"
      using clear_entry_only [of s "snd us" e "fst us"] us by auto
  qed (use ch(5) F(1) in auto)
  moreover have "clear_usable_pages mbi (fill_bitmap s) =
      mmap_loop clear_usable_entry (mv_first v) (mv_end v) (0, fill_bitmap s)"
    using mbi_same [OF bt, of "fill_bitmap s"] SA(1) bitmap_onlyD(3) [OF F(1)]
    by (simp add: clear_usable_pages_def Let_def ch(3,4))
  ultimately show ?thesis using that [of "fst ?r" "snd ?r"] R F(2) by simp
qed

lemma bitmap_frames:
  assumes "vmm_phys_to_virt b \<noteq> 0" "unat b + unat n \<le> 0x2000000" "x - vmm_phys_to_virt b < n"
    and "p < 0x100000" "vmm_phys_to_virt (push_bit 12 p) \<noteq> 0" "frame x = frame (vmm_phys_to_virt (push_bit 12 p))"
  shows "p \<in> frames_of b (b + n)"
proof -
  have b: "unat b < 0x1000000" "unat (vmm_phys_to_virt b) = 0xC0000000 + unat b"
    using assms(1) phys_to_virt_unat [of b] by simp_all
  have x: "0xC0000000 + unat b \<le> unat x" "unat x < 0xC0000000 + unat b + unat n"
    using assms(2,3) b u32_bound [of x]
    by (auto simp: word_less_nat_alt unat_sub_if_size word_size split: if_splits)
  have "unat x div 4096 = 0xC0000 + unat p"
    using assms(4-6) frame_virt [OF assms(5)] frame_push [OF assms(4)] unat_frame [of x] by simp
  moreover have "(0xC0000000 + unat b) div 4096 \<le> unat x div 4096" using x(1) by (rule div_le_mono)
  moreover have "unat (b + n) = unat b + unat n" using assms(2) by (simp add: unat_word_ariths)
  ultimately show ?thesis using x by (auto simp: frames_of_def)
qed

text \<open>The bitmap at physical address \<open>b\<close> is all that changed in memory, and the allocator's variables all else.\<close>

definition bitmap_built :: "u32 \<Rightarrow> 'a pmm_state_scheme \<Rightarrow> 'a pmm_state_scheme \<Rightarrow> bool" where
  "bitmap_built b s t \<longleftrightarrow> pmm_bitmap t = vmm_phys_to_virt b \<and> pmm_state.more t = pmm_state.more s \<and>
     (\<forall>x. in_bitmap t x \<longleftrightarrow> x - vmm_phys_to_virt b < pmm_bitmap_bytes t) \<and> (\<forall>x. \<not> in_bitmap t x \<longrightarrow> kmem t x = kmem s x)"

lemma init_bitmap_ok:
  assumes bt: "boot_ok mbi s v" and seg: "seg_ok mbi (pmm_bitmap_bytes s) e s b" and b: "vmm_phys_to_virt b \<noteq> 0"
    and M: "0 < pmm_max_page s" "pmm_bitmap_bytes s = (pmm_max_page s + 7) div 8" "unat (pmm_max_page s) \<le> 0xFFF00"
    and up: "\<And>e. e \<in> set (usable s (mv_entries v)) \<Longrightarrow> entry_end s e div 4096 \<le> unat (pmm_max_page s)"
  obtains t where "pmm_init_bitmap mbi b s = Some (Returns t)" "mem_ok t" "bitmap_built b s t"
    "pmm_bitmap_bytes t = pmm_bitmap_bytes s" "free_pages t = usable_frames s v - frames_of b (b + pmm_bitmap_bytes s) -
       frames_of (kernel_physical_start s) (kernel_physical_end s) - {0}"
proof -
  define s0 where "s0 = s\<lparr>pmm_bitmap := vmm_phys_to_virt b\<rparr>"
  have k: "kmem s0 = kmem s" by (simp add: s0_def)
  have bt0: "boot_ok mbi s0 v"
    using bt mmap_ok_kmem [OF k] by (simp add: boot_ok_def s0_def)
  have seg0: "seg_ok mbi (pmm_bitmap_bytes s0) e s0 b"
    using seg by (simp add: s0_def seg_ok_def avoid_def mbi_mmap_addr_def mbi_mmap_length_def)
  have up0: "entry_end s0 x div 4096 \<le> unat (pmm_max_page s0)" if "x \<in> set (usable s0 (mv_entries v))" for x
    using up that by (simp add: entries_kmem [OF k]) (simp add: s0_def)
  have s0: "pmm_bitmap s0 = vmm_phys_to_virt b" "0 < pmm_max_page s0"
      "pmm_bitmap_bytes s0 = (pmm_max_page s0 + 7) div 8" "unat (pmm_max_page s0) \<le> 0xFFF00"
    using M by (simp_all add: s0_def)
  obtain u y where y: "clear_usable_pages mbi (fill_bitmap s0) = Some (Returns (u, y))" "bitmap_only s0 y"
    "free_pages y = usable_frames s v" "unat u = card (free_pages y)"
    by (rule clear_usable_ok [OF bt0 seg0 b s0 up0]) (simp_all add: usable_frames_def entries_kmem [OF k])
  define z where "z = y\<lparr>pmm_total_pages := u, pmm_free_pages := u\<rparr>"
  obtain m where ym: "y = s0\<lparr>kmem := m\<rparr>" using y(2) by (auto simp: bitmap_only_def)
  have zf: "pmm_bitmap_bytes z = pmm_bitmap_bytes s" "pmm_max_page z = pmm_max_page s"
      "kernel_physical_end z = kernel_physical_end s" "kernel_physical_start z = kernel_physical_start s"
      "pmm_bitmap z = vmm_phys_to_virt b" "pmm_free_pages z = u"
    by (simp_all add: z_def ym s0_def)
  have zfree: "free_pages z = usable_frames s v" using y(3) by (simp add: z_def free_pages_def page_used_def)
  have "unat b < 0x1000000" using b phys_to_virt_unat(1) by simp
  moreover note n = in_bitmap_bytes(2) [OF M]
  ultimately have bn: "unat (b + pmm_bitmap_bytes s) \<le> 4294963200" "unat b + unat (pmm_bitmap_bytes s) \<le> 0x2000000"
    by (simp_all add: unat_word_ariths)
  have "unat (pmm_free_pages z) = card (free_pages z)" using y(3,4) zfree zf by simp
  note RB = reserve_boot_spec [OF this, unfolded zf, OF M(3,1) bn(1)]
  have ke: "unat (kernel_physical_end s) \<le> 4294963200" using bt by (simp add: boot_ok_def)
  define t where "t = snd (printk (''pmm: pages total=%u free=%u'' @ [CHR 0x0A])
      [VInt (pmm_get_total_pages (reserve_boot b z)), VInt (pmm_get_free_pages (reserve_boot b z))] (reserve_boot b z))"
  have pt: "pmm_init_bitmap mbi b s = Some (Returns t)"
    using y(1) by (simp add: pmm_init_bitmap_def s0_def [symmetric] t_def z_def reserve_boot_def Let_def)
  have "pmm_same (reserve_boot b z) t" by (simp add: pmm_same_def t_def)
  note P = pmm_same_parts [OF this]
  have pb: "pmm_bitmap t = vmm_phys_to_virt b" "pmm_bitmap_bytes t = pmm_bitmap_bytes s"
    by (simp_all add: t_def reserve_boot_bitmap zf(1,5))
  have ft: "free_pages t = usable_frames s v - frames_of b (b + pmm_bitmap_bytes s) -
       frames_of (kernel_physical_start s) (kernel_physical_end s) - {0}"
    using RB(4) [OF ke] zfree by (simp add: P)
  have "page_clear t (vmm_phys_to_virt (push_bit 12 p))"
    if p: "p \<in> free_pages t" "vmm_phys_to_virt (push_bit 12 p) \<noteq> 0" for p
    unfolding page_clear_def
  proof (intro allI impI notI)
    fix x assume x: "frame x = frame (vmm_phys_to_virt (push_bit 12 p))" "in_bitmap t x"
    have "pmm_ok t" using RB(1) [OF ke] by (simp add: P)
    then have "p < 0x100000" using p(1) by (auto simp: pmm_ok_def free_pages_def)
    moreover have "x - vmm_phys_to_virt b < pmm_bitmap_bytes s"
      using x(2) in_bitmap_bytes(1) [of z x] M by (simp add: P RB(3) [OF ke] zf)
    ultimately have "p \<in> frames_of b (b + pmm_bitmap_bytes s)"
      using bitmap_frames [OF b bn(2) _ _ p(2) x(1)] by simp
    then show False using p(1) ft by simp
  qed
  then have "mem_ok t" using RB(1) [OF ke] by (simp add: mem_ok_def bitmap_safe_def P)
  moreover have "bitmap_built b s t"
  proof -
    have "pmm_state.more t = pmm_state.more s" by (simp add: t_def reserve_boot_more z_def ym s0_def)
    moreover have i: "in_bitmap t x \<longleftrightarrow> x - vmm_phys_to_virt b < pmm_bitmap_bytes s" "in_bitmap s0 x = in_bitmap t x" for x
      using in_bitmap_bytes(1) [of z x] M by (simp_all add: P RB(3) [OF ke] zf) (simp add: in_bitmap_def zf s0_def)
    moreover have "kmem t x = kmem s x" if "\<not> in_bitmap t x" for x
      using that RB(5) [OF ke, of x] bitmap_onlyD(3) [OF y(2), of x] i(2) by (simp add: P RB(3) [OF ke]) (simp add: t_def z_def k)
    ultimately show ?thesis using pb by (simp add: bitmap_built_def)
  qed
  ultimately show ?thesis using that [OF pt] ft pb by blast
qed

lemma boot_ok_cong:
  assumes "boot_ok mbi s v" "kmem t = kmem s" "kernel_physical_end t = kernel_physical_end s"
  shows "boot_ok mbi t v"
  using assms mmap_ok_kmem [OF assms(2)] by (simp add: boot_ok_def)

text \<open>The result of \<open>find_segment\<close>, placed in a usable region.\<close>

lemma find_segment_ok:
  assumes bt: "boot_ok mbi s v" and n: "unat n \<le> 0x20000"
  obtains b where "find_segment mbi n s = Some b"
    "b \<noteq> 0 \<Longrightarrow> \<exists>e \<in> set (usable s (mv_entries v)). seg_ok mbi n (entry_end s e) s b \<and> entry_start s e \<le> unat b"
proof -
  have mm: "mmap_ok mbi s v" using bt by (simp add: boot_ok_def)
  note ch = mmap_okD [OF mm]
  obtain b where "find_segment_loop mbi n (mv_first v) (mv_end v) s = Some b"
    "b \<noteq> 0 \<longrightarrow> (\<exists>e \<in> set (usable s (mv_entries v)). seg_ok mbi n (entry_end s e) s b \<and> entry_start s e \<le> unat b)"
    using find_segment_total [OF avoid_ends [OF bt] n ch(5,7)] by blast
  then show ?thesis
    using that by (simp add: find_segment_def Let_def ch(3) [symmetric] ch(4) [symmetric])
qed

lemma mmap_loop_no_panic:
  assumes "mmap_loop body p end us = Some r" "\<And>e us. \<exists>vs. body e us = Returns vs"
  shows "\<exists>vs. r = Returns vs"
proof -
  have "(\<forall>e us. \<exists>vs. body e us = Returns vs) \<longrightarrow> (\<exists>vs. r = Returns vs)"
  proof (rule mmap_loop.raw_induct [OF _ assms(1)], intro impI)
    fix loop body p "end" and us :: "'a \<times> 'b pmm_state_scheme" and r
    assume IH: "\<And>body p end us r. loop body p end us = Some r \<Longrightarrow>
        (\<forall>e us. \<exists>vs. body e us = Returns vs) \<longrightarrow> (\<exists>vs. r = Returns vs)"
      and eq: "(if p < end then case body p us of
          Returns s \<Rightarrow> loop body (p + (entry_size (snd s) p + 4)) end s | Panic e \<Rightarrow> Some (Panic e)
        else Some (Returns us)) = Some r"
      and ret: "\<forall>e us. \<exists>vs. body e us = Returns vs"
    obtain vs where "body p us = Returns vs" using ret by blast
    then show "\<exists>vs. r = Returns vs" using eq IH ret by (auto split: if_splits)
  qed
  then show ?thesis using assms(2) by blast
qed

lemma init_bitmap_no_panic: "pmm_init_bitmap mbi b s \<noteq> Some (Panic e)"
proof -
  have "\<exists>vs. clear_usable_entry e us = Returns vs" for e and us :: "u32 \<times> 'a pmm_state_scheme"
    by (simp add: clear_usable_entry_def split: prod.splits)
  then have "clear_usable_pages mbi t \<noteq> Some (Panic e)" for t :: "'a pmm_state_scheme"
    using mmap_loop_no_panic [of clear_usable_entry] unfolding clear_usable_pages_def Let_def
    by (metis outcome.distinct(1))
  then show ?thesis by (auto simp: pmm_init_bitmap_def Let_def split: option.splits outcome.splits prod.splits)
qed

lemma kernel_location_panic: "check_kernel_location mbi s = Some (Panic e) \<Longrightarrow> e = ''pmm: kernel not fully located in usable RAM''"
proof -
  assume c: "check_kernel_location mbi s = Some (Panic e)"
  have "\<exists>vs. kernel_overlap_entry e us = Returns vs" for e and us :: "u64 \<times> 'a pmm_state_scheme"
    by (simp add: kernel_overlap_entry_def split: prod.splits)
  then have "mmap_loop kernel_overlap_entry p q us \<noteq> Some (Panic m)" for p q m and us :: "u64 \<times> 'a pmm_state_scheme"
    using mmap_loop_no_panic [of kernel_overlap_entry] by (metis outcome.distinct(1))
  then show ?thesis using c by (auto simp: check_kernel_location_def Let_def split: option.splits outcome.splits if_splits)
qed

definition pmm_panics :: "string set" where
  "pmm_panics = {''pmm: pages bitmap does not fit in RAM'' @ [CHR 0x0A], ''pmm: kernel not fully located in usable RAM'',
     ''pmm: bitmap is outside direct map''}"

text \<open>
  The frames that lie completely inside a usable region.  For a region that starts on a page boundary
  these are the frames \<open>clear_usable_pages\<close> takes from it.
\<close>

definition whole_frames :: "'a pmm_state_scheme \<Rightarrow> mmap_view \<Rightarrow> u32 set" where
  "whole_frames s v = {p. \<exists>e \<in> set (usable s (mv_entries v)). entry_start s e \<le> 4096 * unat p \<and> 4096 * unat p + 4096 \<le> entry_end s e}"

lemma whole_page: "k \<le> p \<and> p < k + l div 4096 \<longleftrightarrow> 4096 * k \<le> 4096 * p \<and> 4096 * p + 4096 \<le> 4096 * k + l" for k p l :: nat
proof (cases "k \<le> p")
  case True
  then obtain d where d: "p = k + d" using le_Suc_ex by blast
  have "d < l div 4096 \<longleftrightarrow> Suc d * 4096 \<le> l" by (simp only: Suc_le_eq [symmetric] less_eq_div_iff_mult_less_eq zero_less_numeral)
  then show ?thesis unfolding d by (simp add: algebra_simps)
qed simp

lemma usable_whole:
  assumes "\<And>e. e \<in> set (usable s (mv_entries v)) \<Longrightarrow> 4096 dvd entry_start s e"
  shows "usable_frames s v = whole_frames s v"
proof -
  have "p \<in> entry_frames s e \<longleftrightarrow> entry_start s e \<le> 4096 * unat p \<and> 4096 * unat p + 4096 \<le> entry_end s e"
    if e: "e \<in> set (usable s (mv_entries v))" for e p
  proof -
    obtain k where k: "entry_start s e = 4096 * k" using assms [OF e] by (rule dvdE)
    have "entry_start s e div 4096 = k" "entry_end s e = 4096 * k + unat (entry_len s e)" using k by (simp_all add: entry_end_def entry_start_def)
    then show ?thesis using whole_page [of k "unat p" "unat (entry_len s e)"] unfolding entry_frames_def mem_Collect_eq k by simp
  qed
  then show ?thesis by (auto simp: usable_frames_def whole_frames_def)
qed

lemma tty_more_pmm_more: "tty_state.more t = tty_state.more s \<Longrightarrow> pmm_state.more t = pmm_state.more s" for s t :: "'a pmm_state_scheme"
  by (cases s, cases t) simp

lemma pmm_init_spec:
  assumes "boot_ok mbi s v"
  shows "\<exists>r. pmm_init mbi s = Some r \<and> (\<forall>e. r = Panic e \<longrightarrow> e \<in> pmm_panics) \<and> (\<forall>t. r = Returns t \<longrightarrow> mem_ok t \<and>
    (\<exists>b. bitmap_built b s t \<and> vmm_phys_to_virt b \<noteq> 0 \<and> (\<exists>e. seg_ok mbi (pmm_bitmap_bytes t) e s b) \<and> unat (pmm_bitmap_bytes t) \<le> 0x20000 \<and>
       free_pages t = usable_frames s v -
       frames_of b (b + pmm_bitmap_bytes t) - frames_of (kernel_physical_start s) (kernel_physical_end s) - {0}))"
proof -
  have mm: "mmap_ok mbi s v" using assms by (simp add: boot_ok_def)
  obtain s1 where s1: "check_mmap mbi s = Some (Returns s1)" "tty_state.more s1 = tty_state.more s"
    using check_mmap_ok [OF mm] .
  note f1 = tty_more_pmm [OF s1(2)]
  have mm1: "mmap_ok mbi s1 v" by (rule mmap_ok_kmem [OF conjunct1 [OF f1] mm])
  obtain m where m: "find_max_page mbi s1 = Some (Returns m)" "unat m \<le> 0xFFF00"
    "\<And>e. e \<in> set (usable s1 (mv_entries v)) \<Longrightarrow> entry_end s1 e div 4096 \<le> unat m"
    using find_max_page_ok [OF mm1] by blast
  define s2 where "s2 = s1\<lparr>pmm_max_page := m, pmm_bitmap_bytes := (m + 7) div 8\<rparr>"
  have k2: "kmem s2 = kmem s" "kernel_physical_start s2 = kernel_physical_start s"
      "kernel_physical_end s2 = kernel_physical_end s" "pmm_max_page s2 = m" "pmm_bitmap_bytes s2 = (m + 7) div 8"
    using f1 by (simp_all add: s2_def)
  have bt2: "boot_ok mbi s2 v" using boot_ok_cong [OF assms k2(1,3)] .
  have n: "unat (pmm_bitmap_bytes s2) \<le> 0x20000" using m(2) by (simp add: k2 unat_div unat_word_ariths)
  obtain b where b: "find_segment mbi (pmm_bitmap_bytes s2) s2 = Some b"
    "b \<noteq> 0 \<Longrightarrow> \<exists>e \<in> set (usable s2 (mv_entries v)). seg_ok mbi (pmm_bitmap_bytes s2) (entry_end s2 e) s2 b \<and>
       entry_start s2 e \<le> unat b"
    using find_segment_ok [OF bt2 n] by blast
  obtain r where r: "check_kernel_location mbi s2 = Some r"
    using check_kernel_location_ok bt2 unfolding boot_ok_def by blast
  have step: "pmm_init mbi s = (if b = 0 then Some (Panic (''pmm: pages bitmap does not fit in RAM'' @ [CHR 0x0A]))
      else case r of Panic e \<Rightarrow> Some (Panic e) | Returns u \<Rightarrow>
        if vmm_phys_to_virt b = 0 then Some (Panic ''pmm: bitmap is outside direct map'')
        else pmm_init_bitmap mbi b s2)"
    using s1 m b r by (simp add: pmm_init_def s2_def Let_def split: outcome.splits)
  have rp: "\<And>e. r = Panic e \<Longrightarrow> e \<in> pmm_panics" using kernel_location_panic r by (auto simp: pmm_panics_def)
  show ?thesis
  proof (cases "b \<noteq> 0 \<and> vmm_phys_to_virt b \<noteq> 0")
    case False
    then show ?thesis using rp by (auto simp: step pmm_panics_def split: outcome.splits)
  next
    case True
    obtain e where e: "e \<in> set (usable s2 (mv_entries v))" "seg_ok mbi (pmm_bitmap_bytes s2) (entry_end s2 e) s2 b"
      using b(2) True by blast
    have "unat b mod 4096 = 0" "unat b \<noteq> 0"
      using True e(2) by (simp_all add: seg_ok_def page_aligned_unat unat_eq_0)
    then have "4096 \<le> unat b" by (cases "unat b < 4096") simp_all
    then have "1 \<le> entry_end s2 e div 4096" using e(2) by (simp add: seg_ok_def less_eq_div_iff_mult_less_eq)
    moreover have up: "entry_end s2 x div 4096 \<le> unat (pmm_max_page s2)" if "x \<in> set (usable s2 (mv_entries v))" for x
      using m(3) [of x] that f1 entries_kmem [of s2 s1] k2 by simp
    ultimately have "0 < pmm_max_page s2" using up [OF e(1)] by (simp add: word_less_nat_alt)
    then obtain t where t: "pmm_init_bitmap mbi b s2 = Some (Returns t)" "mem_ok t" "bitmap_built b s2 t"
      "pmm_bitmap_bytes t = pmm_bitmap_bytes s2" "free_pages t = usable_frames s2 v - frames_of b (b + pmm_bitmap_bytes s2) -
         frames_of (kernel_physical_start s2) (kernel_physical_end s2) - {0}"
      using init_bitmap_ok [OF bt2 e(2) _ _ _ _ up] True m(2) k2 by auto
    have "usable_frames s2 v = usable_frames s v" by (simp add: usable_frames_def entries_kmem [OF k2(1)])
    moreover have "bitmap_built b s t"
      using t(3) tty_more_pmm_more [OF s1(2)] k2(1) by (simp add: bitmap_built_def) (simp add: s2_def)
    moreover have "\<exists>e. seg_ok mbi (pmm_bitmap_bytes t) e s b"
      using e(2) t(4) k2(1-3) by (auto simp: seg_ok_def avoid_def mbi_mmap_addr_def mbi_mmap_length_def)
    ultimately show ?thesis
      using t(1,2,4,5) True k2(2,3) n rp by (cases r) (auto simp: step)
  qed
qed

section \<open>Properties\<close>

text \<open>
  C21: the search for a place for the bitmap ends on every well-formed memory map, and the segment
  it returns is page aligned, lies inside one usable region and overlaps neither the kernel image
  nor the Multiboot structure nor the memory map.
\<close>

theorem find_segment_safe:
  assumes "boot_ok mbi s v" "unat bytes \<le> 0x20000"
  shows "\<exists>b. find_segment mbi bytes s = Some b \<and> (b \<noteq> 0 \<longrightarrow> page_aligned b \<and>
    (\<exists>e \<in> set (usable s (mv_entries v)). entry_start s e \<le> unat b \<and> unat b + unat bytes \<le> entry_end s e) \<and>
    (\<forall>(lo, hi) \<in> {(kernel_physical_start s, kernel_physical_end s),
        (vmm_virt_to_phys mbi, vmm_virt_to_phys mbi + sizeof_multiboot_info),
        (mbi_mmap_addr s mbi, mbi_mmap_addr s mbi + mbi_mmap_length s mbi)}.
      unat hi \<le> unat b \<or> unat b + unat bytes \<le> unat lo))"
proof -
  obtain b where b: "find_segment mbi bytes s = Some b"
    "b \<noteq> 0 \<Longrightarrow> \<exists>e \<in> set (usable s (mv_entries v)). seg_ok mbi bytes (entry_end s e) s b \<and> entry_start s e \<le> unat b"
    using find_segment_ok [OF assms] by blast
  then show ?thesis by (auto simp: seg_ok_def avoid_def)
qed

text \<open>
  C20: \<open>pmm_init\<close> ends on every well-formed memory map below 4 GiB whose usable regions start on a
  page boundary.  It panics for one of three reasons only: the bitmap does not fit into usable
  memory, or not into the direct map, or the kernel image is not all in usable memory.  Otherwise the
  invariant of the allocator holds, no free frame holds a byte of the bitmap, and the free frames
  are exactly those that lie completely inside a usable region, less the frames of the bitmap, of
  the kernel image and frame 0.
\<close>

theorem pmm_init_correct:
  assumes "boot_ok mbi s v" "\<And>e. e \<in> set (usable s (mv_entries v)) \<Longrightarrow> 4096 dvd entry_start s e"
  shows "\<exists>r. pmm_init mbi s = Some r \<and> (\<forall>e. r = Panic e \<longrightarrow> e \<in> pmm_panics) \<and> (\<forall>t. r = Returns t \<longrightarrow> mem_ok t \<and>
    (\<exists>b. pmm_bitmap t = vmm_phys_to_virt b \<and> free_pages t = whole_frames s v -
       frames_of b (b + pmm_bitmap_bytes t) - frames_of (kernel_physical_start s) (kernel_physical_end s) - {0}))"
proof -
  have w: "usable_frames s v = whole_frames s v" by (rule usable_whole [OF assms(2)])
  show ?thesis using pmm_init_spec [OF assms(1)] unfolding bitmap_built_def w by metis
qed

section \<open>A booting machine\<close>

text \<open>2 MiB of memory in one region, the Multiboot data in frame 9, the kernel at 1 MiB.\<close>

definition boot_s :: vmm_state where
  "boot_s = small_vm\<lparr>kmem := st32 0xC0009000 0x40 (st32 0xC000902C 24 (st32 0xC0009030 0x9100
     (st32 0xC0009100 20 (st32 0xC000910C 0x200000 (st32 0xC0009114 1 (\<lambda>_. 0)))))),
     pmm_bitmap := 0, pmm_bitmap_bytes := 0, pmm_max_page := 0, pmm_total_pages := 0, pmm_free_pages := 0\<rparr>"

definition boot_v :: mmap_view where
  "boot_v = \<lparr>mv_first = 0xC0009100, mv_end = 0xC0009118, mv_entries = [0xC0009100]\<rparr>"

lemma boot_ld32:
  "ld32 (kmem boot_s) 0xC0009000 = 0x40" "ld32 (kmem boot_s) 0xC000902C = 24" "ld32 (kmem boot_s) 0xC0009030 = 0x9100"
  "ld32 (kmem boot_s) 0xC0009100 = 20" "ld32 (kmem boot_s) 0xC0009104 = 0" "ld32 (kmem boot_s) 0xC0009108 = 0"
  "ld32 (kmem boot_s) 0xC000910C = 0x200000" "ld32 (kmem boot_s) 0xC0009110 = 0" "ld32 (kmem boot_s) 0xC0009114 = 1"
  by (simp_all add: boot_s_def ld32_st32_apart apart_def) (simp_all add: ld32_def)

lemma boot_fields:
  assumes "kmem s = kmem boot_s"
  shows "mbi_flags s 0xC0009000 = 0x40" "mbi_mmap_length s 0xC0009000 = 24" "mbi_mmap_addr s 0xC0009000 = 0x9100"
    "entry_size s 0xC0009100 = 20" "entry_addr s 0xC0009100 = 0" "entry_len s 0xC0009100 = 0x200000"
    "entry_type s 0xC0009100 = 1" "vmm_phys_to_virt 0x9100 = 0xC0009100"
  using assms boot_ld32
  by (simp_all add: mbi_flags_def mbi_mmap_length_def mbi_mmap_addr_def entry_size_def entry_addr_def entry_len_def
      entry_type_def ld64_def vmm_phys_to_virt_def direct_map_consts)

lemma boot_s_ok: "boot_ok 0xC0009000 boot_s boot_v"
proof -
  have "mmap_chain boot_s 0xC0009100 0xC0009118 [0xC0009100]"
    by (rule chain_cons) (simp_all add: boot_fields [OF refl] chain_nil)
  moreover have "unat (kernel_physical_end boot_s) \<le> 0x1000000" by (simp add: boot_s_def small_vm_def)
  moreover have "vmm_phys_to_virt (vmm_virt_to_phys 0xC0009000) = 0xC0009000"
    by (simp add: vmm_phys_to_virt_def vmm_virt_to_phys_def direct_map_consts)
  ultimately show ?thesis
    using boot_fields [OF refl]
    by (simp add: boot_ok_def mmap_ok_def boot_v_def usable_def entry_end_def MULTIBOOT_FLAG_MMAP_def)
qed

lemma boot_s_aligned: "e \<in> set (usable boot_s (mv_entries boot_v)) \<Longrightarrow> 4096 dvd entry_start boot_s e"
  using boot_fields [OF refl] by (auto simp: boot_v_def usable_def entry_start_def)

lemma boot_segment:
  assumes "kmem s = kmem boot_s" "kernel_physical_start s = 0x100000" "kernel_physical_end s = 0x110000"
  shows "find_max_page 0xC0009000 s = Some (Returns 512)" "find_segment 0xC0009000 64 s = Some 0x1000"
    "check_kernel_location 0xC0009000 s = Some (Returns ())"
proof -
  note B = boot_fields [OF assms(1)]
  show "find_max_page 0xC0009000 s = Some (Returns 512)"
    by (simp add: find_max_page_def B Let_def mmap_loop.simps [of _ "0xC0009100"] mmap_loop.simps [of _ "0xC0009118"]
        find_max_page_entry_def PMM_PAGE_SHIFT_def)
  have al: "align_up 1 PMM_PAGE_SIZE = 0x1000" by (simp add: align_up_def PMM_PAGE_SIZE_eq)
  show "find_segment 0xC0009000 64 s = Some 0x1000"
    by (simp add: find_segment_def B Let_def find_segment_loop.simps [of _ _ "0xC0009100"] al seg_scan.simps [of _ _ _ "0x1000"]
        ranges_overlap_def assms vmm_virt_to_phys_def direct_map_consts sizeof_multiboot_info_def)
  show "check_kernel_location 0xC0009000 s = Some (Returns ())"
    by (simp add: check_kernel_location_def B Let_def mmap_loop.simps [of _ "0xC0009100"] mmap_loop.simps [of _ "0xC0009118"]
        kernel_overlap_entry_def overlap_bytes_def assms)
qed

theorem find_segment_safe_witness:
  "find_segment 0xC0009000 64 boot_s = Some 0x1000 \<and> page_aligned 0x1000"
  using find_segment_safe [OF boot_s_ok, of 64] boot_segment(2) [of boot_s]
  by (simp add: boot_s_def small_vm_def)

theorem pmm_init_correct_witness:
  "\<exists>t b. pmm_init 0xC0009000 boot_s = Some (Returns t) \<and> mem_ok t \<and>
     free_pages t = whole_frames boot_s boot_v - frames_of b (b + pmm_bitmap_bytes t) -
       frames_of 0x100000 0x110000 - {0}"
proof -
  have k: "kernel_physical_start boot_s = 0x100000" "kernel_physical_end boot_s = 0x110000"
    by (simp_all add: boot_s_def small_vm_def)
  have mm: "mmap_ok 0xC0009000 boot_s boot_v" using boot_s_ok by (simp add: boot_ok_def)
  obtain s1 where s1: "check_mmap 0xC0009000 boot_s = Some (Returns s1)" "tty_state.more s1 = tty_state.more boot_s"
    using check_mmap_ok [OF mm] .
  note f1 = tty_more_pmm [OF s1(2)]
  let ?s2 = "s1\<lparr>pmm_max_page := 512, pmm_bitmap_bytes := 64\<rparr>"
  have virt: "vmm_phys_to_virt 0x1000 = 0xC0001000" by (simp add: vmm_phys_to_virt_def direct_map_consts)
  have "pmm_init 0xC0009000 boot_s = pmm_init_bitmap 0xC0009000 0x1000 ?s2"
    using s1(1) f1 k boot_segment [of s1] boot_segment(2,3) [of ?s2] virt by (simp add: pmm_init_def Let_def)
  then have "pmm_init 0xC0009000 boot_s \<noteq> Some (Panic e)" for e using init_bitmap_no_panic by metis
  then show ?thesis
    using pmm_init_correct [OF boot_s_ok boot_s_aligned] k by (metis outcome.exhaust)
qed

end
