(* ===== verification/Kmalloc.thy ===== *)
theory Kmalloc
  imports VmmInit
begin

text \<open>
  The kernel heap (\<open>kernel/mm/kmalloc.c\<close>): a singly linked list of blocks kept in the memory it
  manages.  A block header is the C structure \<open>heap_block\<close> laid out at its i386 offsets.  The
  walks along the list are partial functions of memory; \<open>KmallocProof\<close> shows that they end on
  every well-formed heap.
\<close>

record heap_state = vmm_state +
  heap_list :: ptr

definition KMALLOC_ALIGN :: u32 where "KMALLOC_ALIGN = 8"

definition sizeof_heap_block :: u32 where "sizeof_heap_block = 12"

text \<open>\<open>struct heap_block { size_t size; uint8_t free; struct heap_block *next; }\<close>\<close>

definition block_size :: "'a pmm_state_scheme \<Rightarrow> ptr \<Rightarrow> u32" where
  "block_size s b = ld32 (kmem s) b"

definition block_free :: "'a pmm_state_scheme \<Rightarrow> ptr \<Rightarrow> u8" where
  "block_free s b = kmem s (b + 4)"

definition block_next :: "'a pmm_state_scheme \<Rightarrow> ptr \<Rightarrow> ptr" where
  "block_next s b = ld32 (kmem s) (b + 8)"

definition set_block_size :: "ptr \<Rightarrow> u32 \<Rightarrow> 'a pmm_state_scheme \<Rightarrow> 'a pmm_state_scheme" where
  "set_block_size b v s = s\<lparr>kmem := st32 b v (kmem s)\<rparr>"

definition set_block_free :: "ptr \<Rightarrow> u8 \<Rightarrow> 'a pmm_state_scheme \<Rightarrow> 'a pmm_state_scheme" where
  "set_block_free b v s = s\<lparr>kmem := (kmem s)(b + 4 := v)\<rparr>"

definition set_block_next :: "ptr \<Rightarrow> ptr \<Rightarrow> 'a pmm_state_scheme \<Rightarrow> 'a pmm_state_scheme" where
  "set_block_next b v s = s\<lparr>kmem := st32 (b + 8) v (kmem s)\<rparr>"

text \<open>\<open>None\<close> is the result -1; the out parameter is the value.\<close>

definition align_size :: "u32 \<Rightarrow> u32 option" where
  "align_size sz =
     (if sz = 0 then None
      else if sz > - 1 - (KMALLOC_ALIGN - 1) then None
      else Some ((sz + KMALLOC_ALIGN - 1) AND NOT (KMALLOC_ALIGN - 1)))"

definition new_block :: "'a heap_state_scheme \<Rightarrow> ptr \<times> 'a heap_state_scheme" where
  "new_block s =
     (let (paddr, s) = pmm_alloc_page s in
      if paddr = 0 then (0, s)
      else
        let block = vmm_phys_to_virt paddr in
        if block = 0 then (0, pmm_free_page paddr s)
        else (block, set_block_next block 0 (set_block_free block 1
               (set_block_size block (PMM_PAGE_SIZE - sizeof_heap_block) s))))"

definition alloc_from_block :: "ptr \<Rightarrow> u32 \<Rightarrow> 'a heap_state_scheme \<Rightarrow> ptr \<times> 'a heap_state_scheme" where
  "alloc_from_block block sz s =
     (let remaining = block_size s block - sz;
          s = (if remaining \<ge> sizeof_heap_block + KMALLOC_ALIGN then
                 let next = block + sizeof_heap_block + sz;
                     s = set_block_free next 1 s;
                     s = set_block_size next (remaining - sizeof_heap_block) s;
                     s = set_block_next next (block_next s block) s
                 in set_block_next block next s
               else s);
          s = set_block_free block 0 s;
          s = set_block_size block sz s
      in (block + sizeof_heap_block, s))"

partial_function (option) coalesce_next :: "ptr \<Rightarrow> 'a heap_state_scheme \<Rightarrow> 'a heap_state_scheme option" where
  "coalesce_next block s =
     (let next = block_next s block in
      if next \<noteq> 0 \<and> block_free s next \<noteq> 0 \<and> block + sizeof_heap_block + block_size s block = next then
        let s = set_block_size block (block_size s block + (sizeof_heap_block + block_size s next)) s;
            s = set_block_next block (block_next s next) s
        in coalesce_next block s
      else Some s)"

declare coalesce_next.simps [code]

text \<open>
  The search loop of \<open>kmalloc\<close>: \<open>Inl\<close> is the first block that fits, \<open>Inr\<close> the last block
  of the list when none does.
\<close>

partial_function (option) kmalloc_search ::
    "u32 \<Rightarrow> ptr \<Rightarrow> ptr \<Rightarrow> 'a heap_state_scheme \<Rightarrow> (ptr + ptr) option" where
  "kmalloc_search asize current prev s =
     (if current \<noteq> 0 then
        if block_free s current \<noteq> 0 \<and> block_size s current \<ge> asize then Some (Inl current)
        else kmalloc_search asize (block_next s current) current s
      else Some (Inr prev))"

declare kmalloc_search.simps [code]

text \<open>The body of \<open>kmalloc\<close> once the list is not empty.\<close>

definition kmalloc_in :: "u32 \<Rightarrow> 'a heap_state_scheme \<Rightarrow> (ptr \<times> 'a heap_state_scheme) option" where
  "kmalloc_in asize s =
     (case kmalloc_search asize (heap_list s) 0 s of
        None \<Rightarrow> None
      | Some (Inl current) \<Rightarrow> Some (alloc_from_block current asize s)
      | Some (Inr prev) \<Rightarrow>
          let (current, s) = new_block s in
          if current = 0 then Some (0, s)
          else Some (alloc_from_block current asize (set_block_next prev current s)))"

definition kmalloc :: "u32 \<Rightarrow> 'a heap_state_scheme \<Rightarrow> (ptr \<times> 'a heap_state_scheme) option" where
  "kmalloc sz s =
     (case align_size sz of
        None \<Rightarrow> Some (0, s)
      | Some asize \<Rightarrow>
          if asize > PMM_PAGE_SIZE - sizeof_heap_block then Some (0, s)
          else if heap_list s = 0 then
            let (block, s) = new_block s;
                s = s\<lparr>heap_list := block\<rparr>
            in if block = 0 then Some (0, s) else kmalloc_in asize s
          else kmalloc_in asize s)"

definition kfree :: "ptr \<Rightarrow> 'a heap_state_scheme \<Rightarrow> 'a heap_state_scheme option" where
  "kfree p s =
     (if p = 0 then Some s
      else
        let block = p - sizeof_heap_block
        in coalesce_next block (set_block_free block 1 s))"

end
