(* ===== verification/KmallocProof.thy ===== *)
theory KmallocProof
  imports Kmalloc
begin

text \<open>
  The heap as a list of blocks.  \<open>heap_ok s bs\<close> says that memory holds the list \<open>bs\<close> and that
  its blocks are disjoint pieces of pages of their own; on such heaps the operations of
  \<open>kmalloc.c\<close> return, and they implement first-fit allocation and coalescing on the list.
\<close>

section \<open>Blocks\<close>

record blk =
  b_addr :: ptr
  b_size :: u32
  b_free :: bool

definition extent :: "blk \<Rightarrow> u32 set" where
  "extent b = {x. x - b_addr b < 12 + b_size b}"

definition header :: "ptr \<Rightarrow> u32 set" where
  "header a = {x. x - a < 12}"

definition payload :: "blk \<Rightarrow> u32 set" where
  "payload b = {x. x - (b_addr b + 12) < b_size b}"

text \<open>The path of headers from \<open>p\<close> to \<open>q\<close>.\<close>

fun hpath :: "'a pmm_state_scheme \<Rightarrow> ptr \<Rightarrow> blk list \<Rightarrow> ptr \<Rightarrow> bool" where
  "hpath s p [] q \<longleftrightarrow> p = q"
| "hpath s p (b # bs) q \<longleftrightarrow> p = b_addr b \<and> p \<noteq> 0 \<and> block_size s p = b_size b \<and>
     (block_free s p \<noteq> 0) = b_free b \<and> hpath s (block_next s p) bs q"

text \<open>The bytes of a block are in allocated pages of the direct map that hold no bitmap byte.\<close>

definition heap_byte :: "'a pmm_state_scheme \<Rightarrow> u32 \<Rightarrow> bool" where
  "heap_byte s x \<longleftrightarrow> (\<exists>p. table_ok s p \<and> frame x = frame (vmm_phys_to_virt p))"

definition blk_ok :: "'a pmm_state_scheme \<Rightarrow> blk \<Rightarrow> bool" where
  "blk_ok s b \<longleftrightarrow> b_addr b \<noteq> 0 \<and> unat (b_addr b) + 12 + unat (b_size b) \<le> 4294967296 \<and>
     (\<forall>x \<in> extent b. heap_byte s x)"

definition heap_ok :: "'a heap_state_scheme \<Rightarrow> blk list \<Rightarrow> bool" where
  "heap_ok s bs \<longleftrightarrow> hpath s (heap_list s) bs 0 \<and> (\<forall>b \<in> set bs. blk_ok s b) \<and>
     sorted_wrt (\<lambda>b c. extent b \<inter> extent c = {}) bs"

lemma hpath_append: "hpath s p (xs @ ys) q \<longleftrightarrow> (\<exists>r. hpath s p xs r \<and> hpath s r ys q)"
  by (induction xs arbitrary: p) auto

text \<open>Reading a header only looks at its twelve bytes.\<close>

lemma small_sum: "d < 4 \<Longrightarrow> unat k \<le> 8 \<Longrightarrow> d + k < (12 :: u32)"
  by (simp add: unat_word_ariths word_less_nat_alt)

lemma cell_shift:
  assumes "x - (a + k) < (4 :: u32)" "unat k \<le> 8"
  shows "x - a < (12 :: u32)"
  using small_sum [OF assms] by simp

lemma header_same:
  assumes "\<And>x. x \<in> header a \<Longrightarrow> kmem t x = kmem s x"
  shows "block_size t a = block_size s a" "block_free t a = block_free s a" "block_next t a = block_next s a"
proof -
  have k: "ld32 (kmem t) (a + k) = ld32 (kmem s) (a + k)" if "unat k \<le> 8" for k
    by (rule ld32_cong) (use cell_shift [OF _ that] assms in \<open>simp add: header_def\<close>)
  show "block_size t a = block_size s a" "block_next t a = block_next s a"
    using k [of 0] k [of 8] by (simp_all add: block_size_def block_next_def)
  show "block_free t a = block_free s a" using assms [of "a + 4"] by (simp add: block_free_def header_def)
qed

lemma hpath_same:
  "(\<And>b x. b \<in> set bs \<Longrightarrow> x \<in> header (b_addr b) \<Longrightarrow> kmem t x = kmem s x) \<Longrightarrow> hpath t p bs q = hpath s p bs q"
proof (induction bs arbitrary: p)
  case (Cons b bs)
  have h: "block_size t (b_addr b) = block_size s (b_addr b)" "block_free t (b_addr b) = block_free s (b_addr b)"
      "block_next t (b_addr b) = block_next s (b_addr b)"
    using header_same [of "b_addr b" t s] Cons.prems by auto
  have "hpath t (block_next s (b_addr b)) bs q = hpath s (block_next s (b_addr b)) bs q"
    by (rule Cons.IH) (use Cons.prems in auto)
  then show ?case by (auto simp: h)
qed simp

text \<open>Extents in terms of natural numbers.\<close>

lemma extent_nat:
  assumes "b_addr b \<noteq> 0" "unat (b_addr b) + 12 + unat (b_size b) \<le> 4294967296"
  shows "unat (12 + b_size b) = 12 + unat (b_size b)"
    "x \<in> extent b \<longleftrightarrow> unat (b_addr b) \<le> unat x \<and> unat x < unat (b_addr b) + 12 + unat (b_size b)"
proof -
  have "unat (b_addr b) > 0" using assms(1) by (simp add: unat_gt_0)
  then show s: "unat (12 + b_size b) = 12 + unat (b_size b)" using assms(2) by (simp add: unat_word_ariths)
  then show "x \<in> extent b \<longleftrightarrow> unat (b_addr b) \<le> unat x \<and> unat x < unat (b_addr b) + 12 + unat (b_size b)"
    using assms(2) u32_bound [of x] by (auto simp: extent_def word_less_nat_alt unat_sub_if_size word_size)
qed

lemma blk_bounds:
  assumes "blk_ok s b"
  shows "unat (12 + b_size b) = 12 + unat (b_size b)"
    "x \<in> extent b \<longleftrightarrow> unat (b_addr b) \<le> unat x \<and> unat x < unat (b_addr b) + 12 + unat (b_size b)"
    "header (b_addr b) \<subseteq> extent b" "payload b \<subseteq> extent b"
proof -
  have z: "b_addr b \<noteq> 0" and b: "unat (b_addr b) + 12 + unat (b_size b) \<le> 4294967296"
    using assms by (simp_all add: blk_ok_def)
  show s: "unat (12 + b_size b) = 12 + unat (b_size b)"
    and "x \<in> extent b \<longleftrightarrow> unat (b_addr b) \<le> unat x \<and> unat x < unat (b_addr b) + 12 + unat (b_size b)"
    using extent_nat [OF z b] by simp_all
  show "header (b_addr b) \<subseteq> extent b" using s by (auto simp: header_def extent_def word_less_nat_alt)
  show "payload b \<subseteq> extent b"
  proof
    fix x assume "x \<in> payload b"
    then have d: "unat (x - (b_addr b + 12)) < unat (b_size b)" by (simp add: payload_def word_less_nat_alt)
    have "x - b_addr b = (x - (b_addr b + 12)) + 12" by simp
    then have "unat (x - b_addr b) = unat (x - (b_addr b + 12)) + 12"
      using d b by (simp only: unat_word_ariths) simp
    then show "x \<in> extent b" using d s by (simp add: extent_def word_less_nat_alt)
  qed
qed

section \<open>Updates inside a region\<close>

definition upd_in :: "u32 set \<Rightarrow> 'a pmm_state_scheme \<Rightarrow> 'a pmm_state_scheme \<Rightarrow> bool" where
  "upd_in U s t \<longleftrightarrow> t = s\<lparr>kmem := kmem t\<rparr> \<and> (\<forall>x. x \<notin> U \<longrightarrow> kmem t x = kmem s x)"

lemma upd_in_refl: "upd_in U s s"
  by (simp add: upd_in_def)

lemma upd_in_trans:
  assumes "upd_in U s t" "upd_in U t u"
  shows "upd_in U s u"
proof -
  obtain m where t: "t = s\<lparr>kmem := m\<rparr>" using assms(1) by (auto simp: upd_in_def)
  obtain l where u: "u = t\<lparr>kmem := l\<rparr>" using assms(2) by (auto simp: upd_in_def)
  have "u = s\<lparr>kmem := kmem u\<rparr>" by (simp add: u t)
  then show ?thesis using assms by (auto simp: upd_in_def)
qed

lemma upd_in_mono: "upd_in U s t \<Longrightarrow> U \<subseteq> V \<Longrightarrow> upd_in V s t"
  by (auto simp: upd_in_def)

lemma upd_in_set:
  "upd_in (header a) s (set_block_size a v s)" "upd_in (header a) s (set_block_free a f s)"
  "upd_in (header a) s (set_block_next a v s)"
proof -
  have "st32 (a + k) v m x = m x" if "x \<notin> header a" "unat k \<le> 8" for x k m
    using that cell_shift [of x a k] by (intro st32_other) (auto simp: header_def not_less [symmetric])
  from this [of _ 0] this [of _ 8]
  show "upd_in (header a) s (set_block_size a v s)" "upd_in (header a) s (set_block_next a v s)"
    by (simp_all add: upd_in_def set_block_size_def set_block_next_def)
  show "upd_in (header a) s (set_block_free a f s)"
    by (auto simp: upd_in_def set_block_free_def header_def)
qed

lemma heap_byte_clear: "heap_byte s x \<Longrightarrow> \<not> in_bitmap s x"
  by (auto simp: heap_byte_def page_clear_def dest!: table_okD(6))

lemma upd_in_frame:
  assumes "upd_in U s t" "\<And>x. x \<in> U \<Longrightarrow> heap_byte s x"
  shows "mem_frame s t"
  using assms heap_byte_clear [of s] by (auto simp: upd_in_def mem_frame_def)

lemma frame_heap:
  assumes "mem_frame s t"
  shows "heap_byte t = heap_byte s" "blk_ok t = blk_ok s"
  by (auto simp: heap_byte_def blk_ok_def mem_frame_fields(6) [OF assms] fun_eq_iff)

lemma upd_in_list:
  assumes "upd_in U s t"
  shows "heap_list t = heap_list s"
proof -
  obtain m where "t = s\<lparr>kmem := m\<rparr>" using assms by (auto simp: upd_in_def)
  then show ?thesis by simp
qed

text \<open>Replacing a segment of the list.\<close>

definition region :: "blk list \<Rightarrow> u32 set" where
  "region bs = \<Union> (extent ` set bs)"

abbreviation apart_blocks :: "blk list \<Rightarrow> bool" where
  "apart_blocks \<equiv> sorted_wrt (\<lambda>b c. extent b \<inter> extent c = {})"

lemma heap_replace:
  assumes ok: "heap_ok s (xs @ ds @ ys)" and up: "upd_in (region ds) s t"
    and path: "\<And>p q. hpath s p ds q \<Longrightarrow> hpath t p cs q"
    and cs: "\<And>c. c \<in> set cs \<Longrightarrow> blk_ok s c" "region cs \<subseteq> region ds" "apart_blocks cs"
  shows "heap_ok t (xs @ cs @ ys)" "mem_frame s t"
proof -
  have blk: "\<forall>b \<in> set (xs @ ds @ ys). blk_ok s b" and ap: "apart_blocks (xs @ ds @ ys)"
    and hp: "hpath s (heap_list s) (xs @ ds @ ys) 0" using ok by (simp_all add: heap_ok_def)
  show fr: "mem_frame s t"
    by (rule upd_in_frame [OF up]) (use blk in \<open>auto simp: region_def blk_ok_def\<close>)
  have dis: "extent b \<inter> region ds = {}" if "b \<in> set xs \<union> set ys" for b
    using that ap unfolding sorted_wrt_append region_def by (fastforce simp: disjoint_iff)
  have "kmem t x = kmem s x" if "b \<in> set xs \<union> set ys" "x \<in> header (b_addr b)" for b x
  proof -
    have "x \<in> extent b" using blk_bounds(3) [of s b] blk that by auto
    then show ?thesis using dis [OF that(1)] up by (auto simp: upd_in_def)
  qed
  then have same: "hpath t p xs q = hpath s p xs q" "hpath t p ys q = hpath s p ys q" for p q
    by (auto intro!: hpath_same)
  have "hpath t (heap_list t) (xs @ cs @ ys) 0"
    using hp path by (auto simp: hpath_append same upd_in_list [OF up])
  moreover have "apart_blocks (xs @ cs @ ys)"
  proof -
    have "extent b \<inter> extent c = {}" if "b \<in> set xs \<union> set ys" "c \<in> set cs" for b c
      using dis [OF that(1)] cs(2) that(2) unfolding region_def by blast
    then have "\<forall>b \<in> set xs. \<forall>c \<in> set cs. extent b \<inter> extent c = {}" "\<forall>c \<in> set cs. \<forall>b \<in> set ys. extent c \<inter> extent b = {}"
      by (simp, simp add: Int_commute) blast
    then show ?thesis using ap cs(3) by (simp add: sorted_wrt_append ball_Un)
  qed
  ultimately show "heap_ok t (xs @ cs @ ys)"
    using blk cs(1) frame_heap(2) [OF fr] by (auto simp: heap_ok_def)
qed

section \<open>Headers\<close>

lemma block_set_same [simp]:
  "block_size (set_block_size a v s) a = v" "block_free (set_block_size a v s) a = block_free s a"
  "block_next (set_block_size a v s) a = block_next s a"
  "block_size (set_block_free a f s) a = block_size s a" "block_free (set_block_free a f s) a = f"
  "block_next (set_block_free a f s) a = block_next s a"
  "block_size (set_block_next a v s) a = block_size s a" "block_free (set_block_next a v s) a = block_free s a"
  "block_next (set_block_next a v s) a = v"
proof -
  have "ld32 ((kmem s)(a + 4 := f)) a = ld32 (kmem s) a" "ld32 ((kmem s)(a + 4 := f)) (a + 8) = ld32 (kmem s) (a + 8)"
    by (simp_all add: ld32_def)
  then show
    "block_size (set_block_size a v s) a = v" "block_free (set_block_size a v s) a = block_free s a"
    "block_next (set_block_size a v s) a = block_next s a"
    "block_size (set_block_free a f s) a = block_size s a" "block_free (set_block_free a f s) a = f"
    "block_next (set_block_free a f s) a = block_next s a"
    "block_size (set_block_next a v s) a = block_size s a" "block_free (set_block_next a v s) a = block_free s a"
    "block_next (set_block_next a v s) a = v"
    by (simp_all add: block_size_def block_free_def block_next_def set_block_size_def set_block_free_def
        set_block_next_def ld32_st32_apart apart_def st32_other)
qed

lemma block_set_other:
  assumes "header a \<inter> header b = {}"
  shows "block_size (set_block_size a v s) b = block_size s b" "block_free (set_block_size a v s) b = block_free s b"
    "block_next (set_block_size a v s) b = block_next s b"
    "block_size (set_block_free a f s) b = block_size s b" "block_free (set_block_free a f s) b = block_free s b"
    "block_next (set_block_free a f s) b = block_next s b"
    "block_size (set_block_next a v s) b = block_size s b" "block_free (set_block_next a v s) b = block_free s b"
    "block_next (set_block_next a v s) b = block_next s b"
  using assms upd_in_set(1) [of a s v] upd_in_set(2) [of a s f] upd_in_set(3) [of a s v]
  by (auto intro!: header_same simp: upd_in_def)

lemma header_mem: "unat a + 12 \<le> 4294967296 \<Longrightarrow> x \<in> header a \<longleftrightarrow> unat a \<le> unat x \<and> unat x < unat a + 12"
  using u32_bound [of x] by (auto simp: header_def word_less_nat_alt unat_sub_if_size word_size)

section \<open>First-fit allocation\<close>

definition split_blk :: "u32 \<Rightarrow> blk \<Rightarrow> blk list" where
  "split_blk n b = (if b_size b - n \<ge> 20
     then [\<lparr>b_addr = b_addr b, b_size = n, b_free = False\<rparr>,
           \<lparr>b_addr = b_addr b + 12 + n, b_size = b_size b - n - 12, b_free = True\<rparr>]
     else [\<lparr>b_addr = b_addr b, b_size = n, b_free = False\<rparr>])"

lemma split_bounds:
  assumes "blk_ok s b" "n \<le> b_size b" "b_size b - n \<ge> 20"
  shows "unat (b_addr b + 12 + n) = unat (b_addr b) + 12 + unat n"
    "unat (b_size b - n - 12) = unat (b_size b) - unat n - 12" "unat n + 20 \<le> unat (b_size b)"
proof -
  have b: "unat (b_addr b) + 12 + unat (b_size b) \<le> 4294967296" using assms(1) by (simp add: blk_ok_def)
  have d: "unat (b_size b - n) = unat (b_size b) - unat n" using assms(2) by (rule unat_sub)
  show n: "unat n + 20 \<le> unat (b_size b)" using assms(2,3) d by (simp add: word_le_nat_alt)
  then show "unat (b_addr b + 12 + n) = unat (b_addr b) + 12 + unat n"
    using b by (simp add: unat_word_ariths)
  show "unat (b_size b - n - 12) = unat (b_size b) - unat n - 12"
    using d n by (simp add: unat_sub word_le_nat_alt)
qed

lemma split_ok:
  assumes b: "blk_ok s b" and n: "n \<le> b_size b"
  shows "c \<in> set (split_blk n b) \<Longrightarrow> blk_ok s c" "region (split_blk n b) \<subseteq> region [b]"
    "apart_blocks (split_blk n b)"
proof -
  have bb: "unat (b_addr b) > 0" "unat (b_addr b) + 12 + unat (b_size b) \<le> 4294967296" "unat n \<le> unat (b_size b)"
    using b n by (simp_all add: blk_ok_def unat_gt_0 word_le_nat_alt)
  have sub: "blk_ok s c" "extent c \<subseteq> extent b" if "unat (b_addr b) \<le> unat (b_addr c)"
      "unat (b_addr c) + unat (b_size c) \<le> unat (b_addr b) + unat (b_size b)" for c
  proof -
    have c: "b_addr c \<noteq> 0" "unat (b_addr c) + 12 + unat (b_size c) \<le> 4294967296"
      using that bb by (auto simp: unat_gt_0 [symmetric])
    show "extent c \<subseteq> extent b" using that by (auto simp: extent_nat(2) [OF c] blk_bounds(2) [OF b])
    then show "blk_ok s c" using c b by (auto simp: blk_ok_def)
  qed
  let ?c = "\<lparr>b_addr = b_addr b, b_size = n, b_free = False\<rparr>"
  let ?d = "\<lparr>b_addr = b_addr b + 12 + n, b_size = b_size b - n - 12, b_free = True\<rparr>"
  have c: "blk_ok s ?c" "extent ?c \<subseteq> extent b" using sub [of ?c] bb by simp_all
  have d: "blk_ok s ?d" "extent ?d \<subseteq> extent b" "extent ?c \<inter> extent ?d = {}" if *: "b_size b - n \<ge> 20"
  proof -
    note S = split_bounds [OF b n *]
    show d: "blk_ok s ?d" "extent ?d \<subseteq> extent b" using sub [of ?d] S by simp_all
    show "extent ?c \<inter> extent ?d = {}" using S by (auto simp: blk_bounds(2) [OF c(1)] blk_bounds(2) [OF d(1)])
  qed
  show "c \<in> set (split_blk n b) \<Longrightarrow> blk_ok s c" using c d by (auto simp: split_blk_def split: if_splits)
  show "region (split_blk n b) \<subseteq> region [b]" "apart_blocks (split_blk n b)"
    using c d by (simp_all add: split_blk_def region_def)
qed

lemma split_header:
  assumes "blk_ok s b" "n \<le> b_size b" "b_size b - n \<ge> 20"
  shows "header (b_addr b) \<inter> header (b_addr b + 12 + n) = {}" "header (b_addr b + 12 + n) \<subseteq> extent b"
proof -
  note S = split_bounds [OF assms]
  have b: "unat (b_addr b) + 12 + unat (b_size b) \<le> 4294967296" using assms(1) by (simp add: blk_ok_def)
  show "header (b_addr b) \<inter> header (b_addr b + 12 + n) = {}"
    using b S by (auto simp: header_mem disjoint_iff)
  show "header (b_addr b + 12 + n) \<subseteq> extent b"
    using b S by (auto simp: header_mem blk_bounds(2) [OF assms(1)])
qed

lemma alloc_from_block_spec:
  fixes s :: "'a heap_state_scheme"
  assumes ok: "heap_ok s (xs @ b # ys)" and n: "n \<le> b_size b"
    and al: "alloc_from_block (b_addr b) n s = (p, t)"
  shows "p = b_addr b + 12" "heap_ok t (xs @ split_blk n b @ ys)" "mem_frame s t" "upd_in (extent b) s t"
proof -
  have b: "blk_ok s b" and sz: "block_size s (b_addr b) = b_size b"
    using ok by (auto simp: heap_ok_def hpath_append)
  have hb: "header (b_addr b) \<subseteq> extent b" using blk_bounds(3) [OF b] .
  note up = upd_in_set [THEN upd_in_mono]
  show "p = b_addr b + 12" using al by (simp add: alloc_from_block_def Let_def sizeof_heap_block_def)
  show u: "upd_in (extent b) s t"
  proof (cases "b_size b - n \<ge> 20")
    case True
    let ?d = "b_addr b + 12 + n"
    note h = split_header(2) [OF b n True]
    show ?thesis
      using al True sz unfolding alloc_from_block_def Let_def sizeof_heap_block_def KMALLOC_ALIGN_def
      by (auto intro!: upd_in_trans [OF _ up(1)] upd_in_trans [OF _ up(2)] upd_in_trans [OF _ up(3)]
          upd_in_refl hb h)
  next
    case False
    then show ?thesis
      using al sz unfolding alloc_from_block_def Let_def sizeof_heap_block_def KMALLOC_ALIGN_def
      by (auto intro!: upd_in_trans [OF _ up(1)] upd_in_trans [OF _ up(2)] upd_in_refl hb)
  qed
  have path: "hpath t p (split_blk n b) q" if "hpath s p [b] q" for p q
  proof (cases "b_size b - n \<ge> 20")
    case True
    have "b_addr b + 12 + n \<noteq> 0"
      using split_bounds(1) [OF b n True] by (metis add_is_0 numeral_One unat_0 zero_neq_numeral)
    then show ?thesis
      using that al True split_header(1) [OF b n True]
      by (auto simp: split_blk_def alloc_from_block_def Let_def sizeof_heap_block_def KMALLOC_ALIGN_def
          block_set_other Int_commute)
  next
    case False
    then show ?thesis
      using that al by (auto simp: split_blk_def alloc_from_block_def Let_def sizeof_heap_block_def KMALLOC_ALIGN_def)
  qed
  have r: "region [b] = extent b" by (simp add: region_def)
  show "heap_ok t (xs @ split_blk n b @ ys)" "mem_frame s t"
    using heap_replace [of s xs "[b]" ys t "split_blk n b", OF _ _ path split_ok [OF b n]] ok u r by simp_all
qed

text \<open>The first block that is free and large enough, with the blocks around it.\<close>

fun first_fit :: "u32 \<Rightarrow> blk list \<Rightarrow> (blk list \<times> blk \<times> blk list) option" where
  "first_fit n [] = None"
| "first_fit n (b # bs) = (if b_free b \<and> n \<le> b_size b then Some ([], b, bs)
     else map_option (\<lambda>(xs, c, ys). (b # xs, c, ys)) (first_fit n bs))"

lemma first_fit_SomeD:
  "first_fit n bs = Some (xs, b, ys) \<Longrightarrow> bs = xs @ b # ys \<and> b_free b \<and> n \<le> b_size b \<and>
     (\<forall>c \<in> set xs. \<not> (b_free c \<and> n \<le> b_size c))"
  by (induction n bs arbitrary: xs rule: first_fit.induct) (auto split: if_splits)

lemma first_fit_NoneD: "first_fit n bs = None \<Longrightarrow> b \<in> set bs \<Longrightarrow> \<not> (b_free b \<and> n \<le> b_size b)"
  by (induction n bs rule: first_fit.induct) (auto split: if_splits)

lemma kmalloc_search_path:
  "hpath s p bs 0 \<Longrightarrow> kmalloc_search n p prev s = Some (case first_fit n bs of
      Some (xs, b, ys) \<Rightarrow> Inl (b_addr b)
    | None \<Rightarrow> Inr (if bs = [] then prev else b_addr (last bs)))"
proof (induction bs arbitrary: p prev)
  case (Cons b bs)
  then have p: "p = b_addr b" "p \<noteq> 0" "block_size s p = b_size b" "(block_free s p \<noteq> 0) = b_free b"
    and r: "hpath s (block_next s p) bs 0" by auto
  show ?case
    using Cons.IH [OF r, of p] p
    by (subst kmalloc_search.simps) (auto split: option.splits)
qed (simp add: kmalloc_search.simps)

section \<open>A new page for the heap\<close>

definition page_blk :: "ptr \<Rightarrow> blk" where
  "page_blk a = \<lparr>b_addr = a, b_size = 4084, b_free = True\<rparr>"

lemma alloc_undo_mem:
  assumes "mem_ok s" "pmm_alloc_page s = (p, u)" "p \<noteq> 0"
  defines "t \<equiv> pmm_free_page p u"
  shows "mem_ok t" "free_pages t = free_pages s" "pmm_max_page t = pmm_max_page s" "in_bitmap t = in_bitmap s"
    "\<not> in_bitmap s x \<Longrightarrow> kmem t x = kmem s x"
proof -
  note A = alloc_page_spec [OF assms(1-3)]
  have ok: "pmm_ok s" "pmm_ok u" using assms(1) A(1) by (simp_all add: mem_ok_def)
  show fp: "free_pages t = free_pages s"
    unfolding t_def by (rule pmm.release_after_alloc [OF ok(1) assms(2,3)])
  show fr: "pmm_max_page t = pmm_max_page s" "in_bitmap t = in_bitmap s"
    using pmm.frames_release [of p u] by (simp_all add: A t_def)
  show "kmem t x = kmem s x" if "\<not> in_bitmap s x"
    using that pmm.memory_alloc [OF assms(2)] pmm.memory_release [of u x p] by (simp add: A t_def)
  show "mem_ok t"
    using assms(1) pmm.invar_release [OF ok(2), of p] fp fr
    by (simp add: mem_ok_def bitmap_safe_def page_clear_def t_def)
qed

lemma heap_list_alloc:
  assumes "pmm_alloc_page s = (a, t)"
  shows "heap_list t = heap_list s" "kernel_page_directory t = kernel_page_directory s" "cr3 t = cr3 s"
  by (subst alloc_more [OF assms], simp)+

lemma heap_list_free:
  "heap_list (pmm_free_page a s) = heap_list s"
  "kernel_page_directory (pmm_free_page a s) = kernel_page_directory s" "cr3 (pmm_free_page a s) = cr3 s"
  by (subst free_more, simp)+

text \<open>What is common to every heap operation as seen from outside the heap.\<close>

definition heap_frame :: "u32 set \<Rightarrow> 'a heap_state_scheme \<Rightarrow> 'a heap_state_scheme \<Rightarrow> bool" where
  "heap_frame U s t \<longleftrightarrow> in_bitmap t = in_bitmap s \<and> pmm_max_page t = pmm_max_page s \<and>
     kernel_page_directory t = kernel_page_directory s \<and> cr3 t = cr3 s \<and>
     heap_state.more t = heap_state.more s \<and>
     free_pages t \<subseteq> free_pages s \<and>
     (\<forall>x. \<not> in_bitmap s x \<longrightarrow> x \<notin> U \<longrightarrow> kmem t x = kmem s x)"

lemma page_extent:
  assumes "page_aligned a"
  shows "extent (page_blk a) = {x. frame x = frame a}"
  using frame_of_page [OF assms] by (auto simp: extent_def page_blk_def)

lemma page_header: "page_aligned a \<Longrightarrow> x \<in> header a \<Longrightarrow> frame x = frame a"
  using frame_of_page [of a x] by (auto simp: header_def word_less_nat_alt)

lemma new_block_fails:
  assumes "mem_ok s" "\<not> can_alloc s" "new_block s = (b, t)"
  shows "b = 0" "mem_ok t" "free_pages t = free_pages s" "heap_list t = heap_list s" "heap_frame {} s t"
proof -
  obtain p u where pu: "pmm_alloc_page s = (p, u)" by (cases "pmm_alloc_page s")
  note R = alloc_result [OF assms(1) pu]
  have bt: "b = 0 \<and> t = (if p = 0 then s else pmm_free_page p u)"
    using assms(2,3) R by (auto simp: new_block_def pu Let_def split: if_splits)
  then show "b = 0" by simp
  show "mem_ok t" "free_pages t = free_pages s" "heap_list t = heap_list s"
    using bt assms(1) alloc_undo_mem [OF assms(1) pu] heap_list_alloc [OF pu] heap_list_free [of p u] by auto
  have more: "heap_state.more u = heap_state.more s" "heap_state.more (pmm_free_page p u) = heap_state.more u"
    by (subst alloc_more [OF pu], simp) (subst free_more, simp)
  then show "heap_frame {} s t"
    using bt alloc_undo_mem [OF assms(1) pu] heap_list_alloc [OF pu] heap_list_free [of p u] by (auto simp: heap_frame_def)
qed

lemma new_block_spec:
  assumes "mem_ok s" "can_alloc s" "new_block s = (b, t)"
  shows "b \<noteq> 0" "mem_ok t" "heap_list t = heap_list s" "hpath t b [page_blk b] 0"
    "blk_ok t (page_blk b)" "heap_frame (extent (page_blk b)) s t"
    "heap_byte s x \<Longrightarrow> heap_byte t x \<and> x \<notin> extent (page_blk b)"
    "\<exists>p. b = vmm_phys_to_virt p \<and> frame p \<in> free_pages s \<and> free_pages t = free_pages s - {frame p} \<and> page_aligned p"
proof -
  obtain p u where pu: "pmm_alloc_page s = (p, u)" by (cases "pmm_alloc_page s")
  have p: "p \<noteq> 0" "vmm_phys_to_virt p \<noteq> 0" using alloc_result(1) [OF assms(1) pu] assms(2) by auto
  note A = alloc_page_spec [OF assms(1) pu p(1)]
  note tu = table_okD [OF A(7) [OF p(2)]]
  have b: "b = vmm_phys_to_virt p" and t: "t = set_block_next b 0 (set_block_free b 1 (set_block_size b 4084 u))"
    using assms(3) p by (auto simp: new_block_def pu Let_def PMM_PAGE_SIZE_eq sizeof_heap_block_def)
  have "upd_in (header b) u t"
    unfolding t by (intro upd_in_trans [OF _ upd_in_set(3)] upd_in_trans [OF _ upd_in_set(2)] upd_in_set(1))
  then have up: "upd_in (extent (page_blk b)) u t"
    using page_header tu(3) by (auto simp: b page_extent elim!: upd_in_mono)
  have hb: "heap_byte u x" if "x \<in> extent (page_blk b)" for x
    using that A(7) [OF p(2)] tu(3) by (auto simp: b page_extent heap_byte_def)
  have fr: "mem_frame u t" by (rule upd_in_frame [OF up hb])
  note F = mem_frame_fields [OF fr]
  show "b \<noteq> 0" "mem_ok t" using p A F by (simp_all add: b)
  show hl: "heap_list t = heap_list s" using heap_list_alloc(1) [OF pu] upd_in_list [OF up] by simp
  show "hpath t b [page_blk b] 0" using p by (simp add: t page_blk_def b)
  have "unat (vmm_phys_to_virt p) + 4096 \<le> 4294967296"
    using phys_to_virt_unat [of p] p(2) by simp
  then have "b_addr (page_blk b) \<noteq> 0 \<and> unat (b_addr (page_blk b)) + 12 + unat (b_size (page_blk b)) \<le> 4294967296"
    using p(2) by (simp add: page_blk_def b)
  then show "blk_ok t (page_blk b)" unfolding blk_ok_def frame_heap(1) [OF fr] using hb by blast
  obtain m where m: "t = u\<lparr>kmem := m\<rparr>" using up by (auto simp: upd_in_def)
  have "kernel_page_directory t = kernel_page_directory s" "cr3 t = cr3 s" "heap_state.more t = heap_state.more s"
    using heap_list_alloc(2,3) [OF pu] by (simp add: m, simp add: m) (subst m, subst alloc_more [OF pu], simp)
  then show "heap_frame (extent (page_blk b)) s t"
    using A F up pmm.memory_alloc [OF pu] by (auto simp: heap_frame_def upd_in_def)
  show "heap_byte t x \<and> x \<notin> extent (page_blk b)" if hx: "heap_byte s x"
  proof -
    obtain q where q: "table_ok s q" "frame x = frame (vmm_phys_to_virt q)" using hx by (auto simp: heap_byte_def)
    have qu: "table_ok u q" by (rule table_ok_mono [OF q(1)]) (auto simp: A)
    have "q \<noteq> p" using A(3) table_okD(5) [OF q(1)] by auto
    then have "frame x \<noteq> frame b" using virt_page_neq(2) [OF qu A(7) [OF p(2)]] q(2) by (simp add: b)
    then show ?thesis using q(2) qu F tu(3) by (auto simp: heap_byte_def b page_extent)
  qed
  show "\<exists>p. b = vmm_phys_to_virt p \<and> frame p \<in> free_pages s \<and> free_pages t = free_pages s - {frame p} \<and> page_aligned p"
    using b A F by auto
qed

section \<open>kmalloc\<close>

lemma heap_okD:
  "heap_ok s bs \<Longrightarrow> hpath s (heap_list s) bs 0" "heap_ok s bs \<Longrightarrow> b \<in> set bs \<Longrightarrow> blk_ok s b"
  "heap_ok s bs \<Longrightarrow> apart_blocks bs"
  by (simp_all add: heap_ok_def)

lemma hpath_relink:
  assumes "hpath s p (xs @ [l]) q" "\<And>b. b \<in> set xs \<Longrightarrow> header (b_addr b) \<inter> header (b_addr l) = {}"
  shows "hpath (set_block_next (b_addr l) r s) p (xs @ [l]) r"
proof -
  have "hpath (set_block_next (b_addr l) r s) p xs q' = hpath s p xs q'" for q'
    by (rule hpath_same) (use assms(2) upd_in_set(3) [of "b_addr l" s r] in \<open>auto simp: upd_in_def\<close>)
  then show ?thesis using assms(1) by (auto simp: hpath_append)
qed

lemma heap_byte_kept:
  assumes "mem_ok s" "can_alloc s" "new_block s = (b, t)" "blk_ok s c"
  shows "blk_ok t c" "extent c \<inter> extent (page_blk b) = {}"
    and "x \<in> extent c \<Longrightarrow> kmem t x = kmem s x"
proof -
  note N = new_block_spec [OF assms(1-3)]
  show "blk_ok t c" "extent c \<inter> extent (page_blk b) = {}" using assms(4) N(7) by (auto simp: blk_ok_def)
  show "x \<in> extent c \<Longrightarrow> kmem t x = kmem s x"
    using assms(4) N(6,7) heap_byte_clear [of s x] by (auto simp: blk_ok_def heap_frame_def)
qed

lemma link_block:
  assumes ok: "heap_ok s (xs @ [l])" and a: "mem_ok s" "can_alloc s" "new_block s = (b, t)"
  defines "u \<equiv> set_block_next (b_addr l) b t"
  shows "heap_ok u (xs @ [l] @ [page_blk b])" "mem_frame t u" "upd_in (header (b_addr l)) t u"
proof -
  note N = new_block_spec [OF a] and K = heap_byte_kept [OF a heap_okD(2) [OF ok]]
  show up: "upd_in (header (b_addr l)) t u" unfolding u_def by (rule upd_in_set)
  have hl: "header (b_addr l) \<subseteq> extent l" using blk_bounds(3) heap_okD(2) [OF ok, of l] by simp
  show fr: "mem_frame t u" by (rule upd_in_frame [OF up]) (use hl K(1) [of l] in \<open>auto simp: blk_ok_def\<close>)
  have "hpath t (heap_list s) (xs @ [l]) 0"
    using heap_okD(1) [OF ok] K(3) blk_bounds(3) heap_okD(2) [OF ok] by (subst hpath_same [of _ t s]) blast+
  moreover have "header (b_addr c) \<inter> header (b_addr l) = {}" if "c \<in> set xs" for c
    using that hl heap_okD(3) [OF ok] blk_bounds(3) heap_okD(2) [OF ok, of c] by (fastforce simp: sorted_wrt_append)
  ultimately have "hpath u (heap_list s) (xs @ [l]) b" unfolding u_def by (rule hpath_relink)
  moreover have "hpath u b [page_blk b] 0 = hpath t b [page_blk b] 0"
    by (rule hpath_same) (use up hl K(2) [of l] blk_bounds(3) [OF N(5)] in \<open>auto simp: upd_in_def\<close>)
  ultimately have "hpath u (heap_list u) (xs @ [l] @ [page_blk b]) 0"
    using N(3,4) upd_in_list [OF up] hpath_append [of u "heap_list s" "xs @ [l]" "[page_blk b]" 0] by auto
  then show "heap_ok u (xs @ [l] @ [page_blk b])"
    using K(1,2) N(5) heap_okD(3) [OF ok] frame_heap(2) [OF fr] by (auto simp: heap_ok_def sorted_wrt_append)
qed

lemma frame_heap_frame:
  assumes "mem_frame t u" "upd_in V t u" "heap_frame U s t" "V \<subseteq> U"
  shows "heap_frame U s u" "free_pages u = free_pages t"
proof -
  obtain m where m: "u = t\<lparr>kmem := m\<rparr>" using assms(2) by (auto simp: upd_in_def)
  then have "kernel_page_directory u = kernel_page_directory t" "cr3 u = cr3 t" "heap_state.more u = heap_state.more t" by simp_all
  moreover have "kmem u x = kmem t x" if "x \<notin> U" for x using that assms(2,4) by (auto simp: upd_in_def)
  ultimately show "heap_frame U s u" "free_pages u = free_pages t"
    using assms(3) mem_frame_fields [OF assms(1)] by (simp_all add: heap_frame_def)
qed

lemma heap_frame_refl: "heap_frame U s s"
  by (simp add: heap_frame_def)

text \<open>
  The specification of an allocation of \<open>n\<close> bytes (already aligned) from the list \<open>bs\<close>: the
  first block that fits is split; with none, a new page is appended and split, if there is one.
  \<open>H\<close> are the bytes that may change outside the pmm.
\<close>

definition alloc_spec :: "u32 \<Rightarrow> blk list \<Rightarrow> 'a heap_state_scheme \<Rightarrow> ptr \<Rightarrow> 'a heap_state_scheme \<Rightarrow> bool" where
  "alloc_spec n bs s p t \<longleftrightarrow> (case first_fit n bs of
       Some (xs, b, ys) \<Rightarrow> p = b_addr b + 12 \<and> heap_ok t (xs @ split_blk n b @ ys) \<and>
         free_pages t = free_pages s \<and> heap_frame (extent b) s t
     | None \<Rightarrow>
         if can_alloc s
         then \<exists>q. p = vmm_phys_to_virt q + 12 \<and> vmm_phys_to_virt q \<noteq> 0 \<and> page_aligned q \<and> frame q \<in> free_pages s \<and>
           free_pages t = free_pages s - {frame q} \<and>
           heap_ok t (bs @ split_blk n (page_blk (vmm_phys_to_virt q))) \<and>
           heap_frame (extent (page_blk (vmm_phys_to_virt q)) \<union>
             (if bs = [] then {} else header (b_addr (last bs)))) s t
         else p = 0 \<and> heap_ok t bs \<and> free_pages t = free_pages s \<and> heap_frame {} s t)"

lemma heap_ok_kept:
  assumes "heap_ok s bs" "heap_frame {} s t" "heap_list t = heap_list s"
  shows "heap_ok t bs"
proof -
  have hb: "heap_byte t x" if "heap_byte s x" for x
    using that assms(2) table_ok_mono [of s _ t] by (auto simp: heap_byte_def heap_frame_def)
  then have b: "blk_ok t b" if "b \<in> set bs" for b using heap_okD(2) [OF assms(1) that] by (auto simp: blk_ok_def)
  have "kmem t x = kmem s x" if "b \<in> set bs" "x \<in> header (b_addr b)" for b x
  proof -
    have ok: "blk_ok s b" using heap_okD(2) [OF assms(1) that(1)] .
    then have "heap_byte s x" using that(2) blk_bounds(3) [OF ok] by (auto simp: blk_ok_def)
    then show ?thesis using assms(2) heap_byte_clear by (auto simp: heap_frame_def)
  qed
  then have "hpath t (heap_list s) bs 0" using heap_okD(1) [OF assms(1)] by (subst hpath_same [of _ t s]) auto
  then show ?thesis using b heap_okD(3) [OF assms(1)] assms(3) by (simp add: heap_ok_def)
qed

lemma kmalloc_in_spec:
  assumes ok: "heap_ok s bs" and m: "mem_ok s" and ne: "bs \<noteq> []" and n: "n \<le> 4084"
  shows "\<exists>p t. kmalloc_in n s = Some (p, t) \<and> mem_ok t \<and> alloc_spec n bs s p t"
proof (cases "first_fit n bs")
  case (Some r)
  obtain xs b ys where r: "r = (xs, b, ys)" by (cases r)
  have f: "bs = xs @ b # ys" "n \<le> b_size b" using first_fit_SomeD [OF Some [unfolded r]] by simp_all
  obtain p t where al: "alloc_from_block (b_addr b) n s = (p, t)" by (cases "alloc_from_block (b_addr b) n s")
  note A = alloc_from_block_spec [OF ok [unfolded f] f(2) al]
  have "kmalloc_in n s = Some (p, t)"
    using kmalloc_search_path [OF heap_okD(1) [OF ok], of n 0] Some r al by (simp add: kmalloc_in_def)
  moreover have "mem_ok t" using m mem_frame_fields(5) [OF A(3)] by simp
  moreover have "alloc_spec n bs s p t"
    using Some r A frame_heap_frame [OF A(3,4) heap_frame_refl subset_refl] by (simp add: alloc_spec_def)
  ultimately show ?thesis by blast
next
  case None
  then have k: "kmalloc_search n (heap_list s) 0 s = Some (Inr (b_addr (last bs)))"
    using kmalloc_search_path [OF heap_okD(1) [OF ok], of n 0] ne by simp
  obtain b t where bt: "new_block s = (b, t)" by (cases "new_block s")
  show ?thesis
  proof (cases "can_alloc s")
    case True
    obtain xs l where xl: "bs = xs @ [l]" using ne by (metis append_butlast_last_id)
    note N = new_block_spec [OF m True bt] and L = link_block [OF ok [unfolded xl] m True bt]
    let ?u = "set_block_next (b_addr l) b t" and ?V = "extent (page_blk b) \<union> header (b_addr l)"
    obtain p v where al: "alloc_from_block b n ?u = (p, v)" by (cases "alloc_from_block b n ?u")
    have pb: "b_addr (page_blk b) = b" "b_size (page_blk b) = 4084" by (simp_all add: page_blk_def)
    note A = alloc_from_block_spec [of ?u "xs @ [l]" "page_blk b" "[]" n p v, unfolded pb, simplified, OF L(1) [simplified] n al]
    have "heap_frame ?V s t" using N(6) by (auto simp: heap_frame_def)
    note F = frame_heap_frame [OF L(2,3) this Un_upper2]
    note G = frame_heap_frame [OF A(3,4) F(1) Un_upper1]
    have "kmalloc_in n s = Some (p, v)" using k bt N(1) al by (simp add: kmalloc_in_def xl)
    moreover have "mem_ok v" using N(2) mem_frame_fields(5) [OF L(2)] mem_frame_fields(5) [OF A(3)] by simp
    moreover have "alloc_spec n bs s p v"
      unfolding alloc_spec_def using None True N(1,8) A(1,2) F(2) G xl by auto
    ultimately show ?thesis by blast
  next
    case False
    note N = new_block_fails [OF m False bt]
    have "kmalloc_in n s = Some (0, t)" using k bt N(1) by (simp add: kmalloc_in_def)
    then show ?thesis using N heap_ok_kept [OF ok N(5,4)] None False by (auto simp: alloc_spec_def)
  qed
qed

lemma align_size_Some: "align_size sz = Some n \<Longrightarrow> sz \<noteq> 0 \<and> sz \<le> n \<and> 8 dvd n"
proof -
  assume *: "align_size sz = Some n"
  then have z: "sz \<noteq> 0" "sz \<le> - 8" and n: "n = (sz + 7) AND NOT 7"
    by (auto simp: align_size_def KMALLOC_ALIGN_def not_less add.commute split: if_splits)
  have "(sz + 7) AND NOT (mask 3) = push_bit 3 (drop_bit 3 (sz + 7))"
    by (rule bit_word_eqI) (auto simp: bit_simps)
  then have e: "n = push_bit 3 (drop_bit 3 (sz + 7))" by (simp add: n mask_eq_exp_minus_1)
  have u: "unat (sz + 7) = unat sz + 7" using z(2) by (simp add: word_le_nat_alt unat_word_ariths)
  have "unat n = (unat sz + 7) div 8 * 8"
    using u u32_bound [of "sz + 7"]
    by (simp add: e push_bit_eq_mult drop_bit_eq_div unat_word_ariths unat_div)
  then have "unat sz \<le> unat n" by linarith
  moreover have "8 dvd n" by (simp add: e push_bit_eq_mult)
  ultimately show ?thesis using z by (simp add: word_le_nat_alt)
qed

lemma first_block_new:
  assumes "mem_ok s" "can_alloc s" "new_block s = (b, t)"
  shows "heap_ok (t\<lparr>heap_list := b\<rparr>) [page_blk b]" "mem_ok (t\<lparr>heap_list := b\<rparr>)"
    "heap_frame U s (t\<lparr>heap_list := b\<rparr>) = heap_frame U s t" "free_pages (t\<lparr>heap_list := b\<rparr>) = free_pages t"
proof -
  note N = new_block_spec [OF assms]
  have same: "pmm_same t (t\<lparr>heap_list := b\<rparr>)" by (simp add: pmm_same_def)
  note P = pmm_same_parts [OF same]
  have h: "hpath (t\<lparr>heap_list := b\<rparr>) b [page_blk b] 0 = hpath t b [page_blk b] 0"
    by (rule hpath_same) simp
  have "blk_ok (t\<lparr>heap_list := b\<rparr>) = blk_ok t"
    by (intro ext) (simp add: blk_ok_def heap_byte_def P)
  then show "heap_ok (t\<lparr>heap_list := b\<rparr>) [page_blk b]" using N(4,5) h by (simp add: heap_ok_def)
  show "mem_ok (t\<lparr>heap_list := b\<rparr>)" "heap_frame U s (t\<lparr>heap_list := b\<rparr>) = heap_frame U s t"
      "free_pages (t\<lparr>heap_list := b\<rparr>) = free_pages t"
    using N(2) by (simp_all add: P heap_frame_def)
qed

lemma heap_frame_trans: "heap_frame U s t \<Longrightarrow> heap_frame U t u \<Longrightarrow> heap_frame U s u"
  by (auto simp: heap_frame_def)

lemma kmalloc_empty:
  assumes "heap_ok s []" "mem_ok s" "align_size sz = Some n" "n \<le> 4084"
  shows "\<exists>p t. kmalloc sz s = Some (p, t) \<and> mem_ok t \<and> alloc_spec n [] s p t"
proof -
  have z: "heap_list s = 0" using assms(1) by (simp add: heap_ok_def)
  obtain b t where bt: "new_block s = (b, t)" by (cases "new_block s")
  have k: "kmalloc sz s = (let t = t\<lparr>heap_list := b\<rparr> in if b = 0 then Some (0, t) else kmalloc_in n t)"
    using assms(3,4) z bt by (simp add: kmalloc_def PMM_PAGE_SIZE_eq sizeof_heap_block_def not_less [symmetric])
  show ?thesis
  proof (cases "can_alloc s")
    case True
    note N = new_block_spec [OF assms(2) True bt] and F = first_block_new [OF assms(2) True bt]
    have pf: "b_free (page_blk b)" "b_size (page_blk b) = 4084" "b_addr (page_blk b) = b" by (simp_all add: page_blk_def)
    obtain p u where u: "kmalloc_in n (t\<lparr>heap_list := b\<rparr>) = Some (p, u)" "mem_ok u"
        "alloc_spec n [page_blk b] (t\<lparr>heap_list := b\<rparr>) p u"
      using kmalloc_in_spec [OF F(1,2) _ assms(4)] by auto
    then have "p = b + 12 \<and> heap_ok u (split_blk n (page_blk b)) \<and> free_pages u = free_pages t \<and>
        heap_frame (extent (page_blk b)) (t\<lparr>heap_list := b\<rparr>) u"
      using pf assms(4) F(4) by (simp add: alloc_spec_def)
    then have "alloc_spec n [] s p u"
      using N(1,6,8) True F(3) heap_frame_trans [of "extent (page_blk b)" s "t\<lparr>heap_list := b\<rparr>" u]
      by (auto simp: alloc_spec_def)
    then show ?thesis using k N(1) u by (auto simp: Let_def)
  next
    case False
    note N = new_block_fails [OF assms(2) False bt]
    have "t\<lparr>heap_list := b\<rparr> = t" using N(1,4) z by simp
    then show ?thesis using k N heap_ok_kept [OF assms(1) N(5,4)] False by (auto simp: alloc_spec_def)
  qed
qed

lemma kmalloc_spec:
  assumes "heap_ok s bs" "mem_ok s"
  shows "\<exists>p t. kmalloc sz s = Some (p, t) \<and> mem_ok t \<and>
    (case align_size sz of None \<Rightarrow> p = 0 \<and> t = s
     | Some n \<Rightarrow> if n > 4084 then p = 0 \<and> t = s else alloc_spec n bs s p t)"
proof (cases "align_size sz")
  case (Some n)
  have hl: "heap_list s = 0 \<longleftrightarrow> bs = []" using assms(1) by (cases bs) (auto simp: heap_ok_def)
  show ?thesis
  proof (cases "n > 4084 \<or> bs = []")
    case True
    then show ?thesis
      using kmalloc_empty [of s sz n] assms Some
      by (cases "n > 4084") (auto simp: kmalloc_def PMM_PAGE_SIZE_eq sizeof_heap_block_def)
  next
    case False
    then have "kmalloc sz s = kmalloc_in n s"
      using Some hl by (simp add: kmalloc_def PMM_PAGE_SIZE_eq sizeof_heap_block_def)
    then show ?thesis using kmalloc_in_spec [OF assms, of n] False Some by (auto simp: not_less [symmetric])
  qed
qed (use assms in \<open>simp add: kmalloc_def\<close>)

section \<open>kfree\<close>

fun coalesce :: "blk \<Rightarrow> blk list \<Rightarrow> blk list" where
  "coalesce b [] = [b]"
| "coalesce b (c # cs) =
     (if b_free c \<and> b_addr b + 12 + b_size b = b_addr c
      then coalesce (b\<lparr>b_size := b_size b + (12 + b_size c)\<rparr>) cs
      else b # c # cs)"

lemma merge_ok:
  assumes b: "blk_ok s b" and c: "blk_ok s c" and ad: "b_addr b + 12 + b_size b = b_addr c"
  shows "blk_ok s (b\<lparr>b_size := b_size b + (12 + b_size c)\<rparr>)"
    "extent (b\<lparr>b_size := b_size b + (12 + b_size c)\<rparr>) = extent b \<union> extent c"
proof -
  let ?m = "b\<lparr>b_size := b_size b + (12 + b_size c)\<rparr>"
  have B: "0 < unat (b_addr b)" "unat (b_addr b) + 12 + unat (b_size b) \<le> 4294967296"
    "0 < unat (b_addr c)" "unat (b_addr c) + 12 + unat (b_size c) \<le> 4294967296"
    using b c by (simp_all add: blk_ok_def unat_gt_0)
  have a: "unat (b_addr c) = unat (b_addr b) + 12 + unat (b_size b)"
  proof -
    have "unat (b_addr b) + 12 + unat (b_size b) \<noteq> 4294967296"
    proof
      assume w: "unat (b_addr b) + 12 + unat (b_size b) = 4294967296"
      have "unat (b_addr c) = (unat (b_addr b) + 12 + unat (b_size b)) mod 4294967296"
        unfolding ad [symmetric] by (simp add: unat_word_ariths mod_simps)
      then have "unat (b_addr c) = 0" unfolding w by simp
      then show False using B(3) by simp
    qed
    then show ?thesis using B(2) unfolding ad [symmetric] by (simp add: unat_word_ariths)
  qed
  have z: "unat (b_size ?m) = unat (b_size b) + 12 + unat (b_size c)"
    using B a by (simp add: unat_word_ariths)
  have m: "b_addr ?m \<noteq> 0" "unat (b_addr ?m) + 12 + unat (b_size ?m) \<le> 4294967296"
    using B a z b by (auto simp only: z) (simp_all add: blk_ok_def)
  show e: "extent ?m = extent b \<union> extent c"
  proof (rule set_eqI)
    fix x
    have am: "b_addr ?m = b_addr b" by simp
    show "x \<in> extent ?m \<longleftrightarrow> x \<in> extent b \<union> extent c"
      unfolding extent_nat(2) [OF m] Un_iff blk_bounds(2) [OF b] blk_bounds(2) [OF c] z am using a by linarith
  qed
  then show "blk_ok s ?m" using b c m unfolding blk_ok_def by blast
qed

lemma merge_step:
  assumes ok: "heap_ok s (xs @ b # c # ys)" and ad: "b_addr b + 12 + b_size b = b_addr c"
  defines "a \<equiv> b_addr b"
  defines "t \<equiv> set_block_next a (block_next s (b_addr c)) (set_block_size a (b_size b + (12 + b_size c)) s)"
  shows "heap_ok t (xs @ b\<lparr>b_size := b_size b + (12 + b_size c)\<rparr> # ys)" "mem_frame s t" "upd_in (header a) s t"
proof -
  let ?m = "b\<lparr>b_size := b_size b + (12 + b_size c)\<rparr>"
  have bc: "blk_ok s b" "blk_ok s c" using heap_okD(2) [OF ok] by simp_all
  note M = merge_ok [OF bc ad]
  show up: "upd_in (header a) s t" unfolding t_def by (rule upd_in_trans [OF upd_in_set(1) upd_in_set(3)])
  then have up': "upd_in (region [b, c]) s t"
    using blk_bounds(3) [OF bc(1)] by (auto simp: a_def region_def elim!: upd_in_mono)
  have path: "hpath t p [?m] q" if "hpath s p [b, c] q" for p q
    using that by (auto simp: t_def a_def)
  have r: "blk_ok s d" if "d \<in> set [?m]" for d using that M(1) by simp
  have "region [?m] \<subseteq> region [b, c]" using M(2) by (simp add: region_def)
  note H = heap_replace [of s xs "[b, c]" ys t "[?m]", OF _ up' path r this]
  have l: "heap_ok s (xs @ [b, c] @ ys)" "apart_blocks [?m]" using ok by simp_all
  show "heap_ok t (xs @ ?m # ys)" "mem_frame s t"
    using H(1) [OF l(1) _ _ l(2)] H(2) [OF l(1) _ _ l(2)] by (metis append_Cons append_Nil)+
qed

lemma coalesce_spec:
  assumes "heap_ok s (xs @ b # ys)"
  shows "\<exists>t. coalesce_next (b_addr b) s = Some t \<and> heap_ok t (xs @ coalesce b ys) \<and> mem_frame s t \<and>
    upd_in (header (b_addr b)) s t"
  using assms
proof (induction ys arbitrary: b s)
  case Nil
  then have "block_next s (b_addr b) = 0" by (auto simp: heap_ok_def hpath_append)
  then show ?case using Nil by (subst coalesce_next.simps) (simp add: upd_in_refl mem_frame_def)
next
  case (Cons c ys)
  have B: "block_size s (b_addr b) = b_size b" "block_next s (b_addr b) = b_addr c" "b_addr c \<noteq> 0"
    "block_size s (b_addr c) = b_size c" "(block_free s (b_addr c) \<noteq> 0) = b_free c"
    using Cons.prems by (auto simp: heap_ok_def hpath_append)
  show ?case
  proof (cases "b_free c \<and> b_addr b + 12 + b_size b = b_addr c")
    case True
    let ?m = "b\<lparr>b_size := b_size b + (12 + b_size c)\<rparr>"
    let ?t = "set_block_next (b_addr b) (block_next s (b_addr c)) (set_block_size (b_addr b) (b_size b + (12 + b_size c)) s)"
    note M = merge_step [OF Cons.prems conjunct2 [OF True]]
    have "header (b_addr b) \<inter> header (b_addr c) = {}"
      using blk_bounds(3) [of s b] blk_bounds(3) [of s c] heap_okD(2,3) [OF Cons.prems]
      by (fastforce simp: sorted_wrt_append)
    then have e: "coalesce_next (b_addr b) s = coalesce_next (b_addr ?m) ?t"
      using B True by (subst coalesce_next.simps) (auto simp: sizeof_heap_block_def Let_def block_set_other)
    obtain t where t: "coalesce_next (b_addr ?m) ?t = Some t" "heap_ok t (xs @ coalesce ?m ys)"
        "mem_frame ?t t" "upd_in (header (b_addr ?m)) ?t t"
      using Cons.IH [OF M(1)] by blast
    have "upd_in (header (b_addr b)) s t" using upd_in_trans [OF M(3)] t(4) by simp
    moreover have "mem_frame s t"
      using upd_in_frame [OF calculation] blk_bounds(3) [of s b] heap_okD(2) [OF Cons.prems, of b]
      by (auto simp: blk_ok_def)
    ultimately show ?thesis using e t True by simp
  next
    case False
    then have "coalesce_next (b_addr b) s = Some s"
      using B by (subst coalesce_next.simps) (auto simp: sizeof_heap_block_def)
    then show ?thesis using False Cons.prems by (auto simp: upd_in_refl mem_frame_def)
  qed
qed

lemma kfree_spec:
  assumes ok: "heap_ok s (xs @ b # ys)" and m: "mem_ok s" and p: "b_addr b + 12 \<noteq> 0"
  shows "\<exists>t. kfree (b_addr b + 12) s = Some t \<and> mem_ok t \<and>
    heap_ok t (xs @ coalesce (b\<lparr>b_free := True\<rparr>) ys) \<and> free_pages t = free_pages s \<and>
    heap_frame (header (b_addr b)) s t"
proof -
  let ?c = "b\<lparr>b_free := True\<rparr>" and ?t = "set_block_free (b_addr b) 1 s"
  have b: "blk_ok s b" using heap_okD(2) [OF ok] by simp
  have "extent ?c = extent b" by (simp add: extent_def)
  then have c: "blk_ok s ?c" "region [?c] \<subseteq> region [b]" using b by (auto simp: blk_ok_def region_def)
  have up: "upd_in (region [b]) s ?t"
    using upd_in_set(2) [of "b_addr b" s 1] blk_bounds(3) [OF b] by (auto simp: region_def elim!: upd_in_mono)
  have path: "hpath ?t p [?c] q" if "hpath s p [b] q" for p q using that by auto
  have R: "heap_ok ?t (xs @ ?c # ys)" "mem_frame s ?t"
    using heap_replace [of s xs "[b]" ys ?t "[?c]", OF _ up path] ok c by simp_all
  obtain t where t: "coalesce_next (b_addr b) ?t = Some t" "heap_ok t (xs @ coalesce ?c ys)"
      "mem_frame ?t t" "upd_in (header (b_addr b)) ?t t"
    using coalesce_spec [OF R(1)] by auto
  note F = frame_heap_frame [OF R(2) upd_in_set(2) heap_frame_refl subset_refl]
  note G = frame_heap_frame [OF t(3,4) F(1) subset_refl]
  have "kfree (b_addr b + 12) s = Some t" using t(1) p by (simp add: kfree_def sizeof_heap_block_def)
  then show ?thesis
    using t(2) m mem_frame_fields(5) [OF R(2)] mem_frame_fields(5) [OF t(3)] F(2) G by simp
qed

end
