(* ===== verification/KmallocProps.thy ===== *)
theory KmallocProps
  imports KmallocProof
begin

text \<open>
  What the clients of the heap rely on.  The interface \<open>heap_alloc\<close> states it in terms of the
  set of areas in use: allocation and release return, an area handed out overlaps no other area
  in use, and neither touches the contents of the others.  In the interface every allocated
  object behaves as a private array; \<open>kmalloc\<close> and \<open>kfree\<close> are its interpretation.
\<close>

section \<open>The interface\<close>

definition area :: "ptr \<Rightarrow> u32 \<Rightarrow> u32 set" where
  "area p n = {x. x - p < n}"

text \<open>
  A client: it keeps the objects it allocated with the contents it expects of them.  \<open>alloc\<close>,
  \<open>release\<close>, \<open>wr\<close> and \<open>rd\<close> are the operations it calls.
\<close>

datatype client_op = CAlloc u32 | CFree nat | CWrite nat nat u8

fun client_step ::
    "(u32 \<Rightarrow> 's \<Rightarrow> (ptr \<times> 's) option) \<Rightarrow> (ptr \<Rightarrow> 's \<Rightarrow> 's option) \<Rightarrow> (ptr \<Rightarrow> u8 \<Rightarrow> 's \<Rightarrow> 's) \<Rightarrow> ('s \<Rightarrow> mem) \<Rightarrow>
     client_op \<Rightarrow> 's \<times> (ptr \<times> u8 list) list \<Rightarrow> ('s \<times> (ptr \<times> u8 list) list) option" where
  "client_step alloc release wr rd (CAlloc n) (s, objs) =
     (case alloc n s of
        None \<Rightarrow> None
      | Some (p, t) \<Rightarrow> Some (t, if p = 0 then objs
          else objs @ [(p, map (\<lambda>i. rd t (p + word_of_nat i)) [0..<unat n])]))"
| "client_step alloc release wr rd (CFree k) (s, objs) =
     (if k < length objs
      then map_option (\<lambda>t. (t, take k objs @ drop (Suc k) objs)) (release (fst (objs ! k)) s)
      else Some (s, objs))"
| "client_step alloc release wr rd (CWrite k i v) (s, objs) =
     (if k < length objs \<and> i < length (snd (objs ! k))
      then Some (wr (fst (objs ! k) + word_of_nat i) v s,
        objs[k := (fst (objs ! k), (snd (objs ! k))[i := v])])
      else Some (s, objs))"

fun client_run where
  "client_run alloc release wr rd [] c = Some c"
| "client_run alloc release wr rd (op # ops) c =
     Option.bind (client_step alloc release wr rd op c) (client_run alloc release wr rd ops)"

text \<open>The object holds the expected bytes.\<close>

definition holds :: "mem \<Rightarrow> ptr \<times> u8 list \<Rightarrow> bool" where
  "holds m ob \<longleftrightarrow> (\<forall>i < length (snd ob). m (fst ob + word_of_nat i) = snd ob ! i)"

definition obj_area :: "ptr \<times> u8 list \<Rightarrow> u32 set" where
  "obj_area ob = {fst ob + word_of_nat i |i. i < length (snd ob)}"

locale heap_alloc =
  fixes inv :: "'s \<Rightarrow> (ptr \<times> u32) set \<Rightarrow> bool"
    and rd :: "'s \<Rightarrow> mem"
    and wr :: "ptr \<Rightarrow> u8 \<Rightarrow> 's \<Rightarrow> 's"
    and alloc :: "u32 \<Rightarrow> 's \<Rightarrow> (ptr \<times> 's) option"
    and release :: "ptr \<Rightarrow> 's \<Rightarrow> 's option"
  assumes inv_disjoint: "inv s L \<Longrightarrow> a \<in> L \<Longrightarrow> b \<in> L \<Longrightarrow> a \<noteq> b \<Longrightarrow>
      fst a \<noteq> fst b \<and> area (fst a) (snd a) \<inter> area (fst b) (snd b) = {}"
    and alloc_law: "inv s L \<Longrightarrow> \<exists>p t. alloc n s = Some (p, t) \<and>
      (if p = 0 then inv t L else \<exists>m. n \<le> m \<and> (p, m) \<notin> L \<and> inv t (insert (p, m) L)) \<and>
      (\<forall>a \<in> L. \<forall>x \<in> area (fst a) (snd a). rd t x = rd s x)"
    and release_law: "inv s L \<Longrightarrow> a \<in> L \<Longrightarrow> \<exists>t. release (fst a) s = Some t \<and> inv t (L - {a}) \<and>
      (\<forall>b \<in> L - {a}. \<forall>x \<in> area (fst b) (snd b). rd t x = rd s x)"
    and write_law: "inv s L \<Longrightarrow> a \<in> L \<Longrightarrow> x \<in> area (fst a) (snd a) \<Longrightarrow> inv (wr x v s) L"
    and write_read: "rd (wr x v s) = (rd s)(x := v)"
begin

text \<open>Each object lies in an area in use of its own.\<close>

definition client_inv :: "'s \<times> (ptr \<times> u8 list) list \<Rightarrow> (ptr \<times> u32) set \<Rightarrow> bool" where
  "client_inv c L \<longleftrightarrow> inv (fst c) L \<and> distinct (map fst (snd c)) \<and>
     (\<forall>ob \<in> set (snd c). holds (rd (fst c)) ob \<and> (\<exists>n. (fst ob, n) \<in> L \<and> length (snd ob) \<le> unat n))"

lemma obj_in_area:
  assumes "length (snd ob) \<le> unat n"
  shows "obj_area ob \<subseteq> area (fst ob) n"
  using assms u32_bound [of n]
  by (auto simp: obj_area_def area_def word_less_nat_alt unat_of_nat)

lemma holds_cong: "(\<And>x. x \<in> obj_area ob \<Longrightarrow> m x = m' x) \<Longrightarrow> holds m ob = holds m' ob"
  unfolding holds_def obj_area_def by (metis (mono_tags, lifting) mem_Collect_eq)

lemma client_disjoint:
  assumes "client_inv c L" "ob \<in> set (snd c)" "ob' \<in> set (snd c)" "ob \<noteq> ob'"
  shows "obj_area ob \<inter> obj_area ob' = {}"
proof -
  obtain n n' where n: "(fst ob, n) \<in> L" "length (snd ob) \<le> unat n"
    and n': "(fst ob', n') \<in> L" "length (snd ob') \<le> unat n'"
    using assms(1-3) unfolding client_inv_def by blast
  have "fst ob \<noteq> fst ob'" using assms by (auto simp: client_inv_def distinct_map dest: inj_onD)
  then have "area (fst ob) n \<inter> area (fst ob') n' = {}"
    using inv_disjoint [OF _ n(1) n'(1)] assms(1) by (auto simp: client_inv_def)
  then show ?thesis using obj_in_area [OF n(2)] obj_in_area [OF n'(2)] by blast
qed

lemma client_alloc:
  assumes "client_inv (s, objs) L"
  shows "\<exists>c' L'. client_step alloc release wr rd (CAlloc n) (s, objs) = Some c' \<and> client_inv c' L'"
proof -
  have I: "inv s L" "distinct (map fst objs)"
    and O: "\<And>ob. ob \<in> set objs \<Longrightarrow> holds (rd s) ob \<and> (\<exists>n. (fst ob, n) \<in> L \<and> length (snd ob) \<le> unat n)"
    using assms by (simp_all add: client_inv_def)
  obtain p t where A: "alloc n s = Some (p, t)"
      "if p = 0 then inv t L else \<exists>m. n \<le> m \<and> (p, m) \<notin> L \<and> inv t (insert (p, m) L)"
      "\<forall>a \<in> L. \<forall>x \<in> area (fst a) (snd a). rd t x = rd s x"
    using alloc_law [OF I(1)] by blast
  have O': "holds (rd t) ob \<and> (\<exists>n. (fst ob, n) \<in> L \<and> length (snd ob) \<le> unat n)" if ob: "ob \<in> set objs" for ob
  proof -
    obtain k where k: "(fst ob, k) \<in> L" "length (snd ob) \<le> unat k" using O [OF ob] by blast
    have "rd t x = rd s x" if "x \<in> obj_area ob" for x
      using that A(3) k(1) obj_in_area [OF k(2)] by fastforce
    then have "holds (rd t) ob = holds (rd s) ob" by (rule holds_cong)
    then show ?thesis using O [OF ob] by simp
  qed
  show ?thesis
  proof (cases "p = 0")
    case True
    then show ?thesis using A I O' by (auto simp: client_inv_def intro!: exI [of _ L])
  next
    case False
    then obtain m where m: "n \<le> m" "(p, m) \<notin> L" "inv t (insert (p, m) L)" using A(2) by auto
    have "p \<notin> fst ` set objs"
    proof
      assume "p \<in> fst ` set objs"
      then obtain k where "(p, k) \<in> L" using O by fastforce
      then show False using inv_disjoint [OF m(3), of "(p, m)" "(p, k)"] m(2) by auto
    qed
    moreover have "holds (rd t) (p, map (\<lambda>i. rd t (p + word_of_nat i)) [0..<unat n])" by (simp add: holds_def)
    ultimately have "client_inv (t, objs @ [(p, map (\<lambda>i. rd t (p + word_of_nat i)) [0..<unat n])]) (insert (p, m) L)"
      using m O' I(2) by (fastforce simp: client_inv_def word_le_nat_alt)
    then show ?thesis using A(1) False by auto
  qed
qed

lemma client_free:
  assumes "client_inv (s, objs) L"
  shows "\<exists>c' L'. client_step alloc release wr rd (CFree k) (s, objs) = Some c' \<and> client_inv c' L'"
proof (cases "k < length objs")
  case True
  have I: "inv s L" "distinct (map fst objs)"
    and O: "\<And>ob. ob \<in> set objs \<Longrightarrow> holds (rd s) ob \<and> (\<exists>n. (fst ob, n) \<in> L \<and> length (snd ob) \<le> unat n)"
    using assms by (simp_all add: client_inv_def)
  let ?p = "fst (objs ! k)" and ?rest = "take k objs @ drop (Suc k) objs"
  obtain n where n: "(?p, n) \<in> L" using O [OF nth_mem [OF True]] by blast
  obtain t where t: "release ?p s = Some t" "inv t (L - {(?p, n)})"
      "\<forall>b \<in> L - {(?p, n)}. \<forall>x \<in> area (fst b) (snd b). rd t x = rd s x"
    using release_law [OF I(1) n] by auto
  have sp: "map fst objs = map fst (take k objs) @ ?p # map fst (drop (Suc k) objs)"
    using id_take_nth_drop [OF True] by (metis list.simps(9) map_append)
  have d: "distinct (map fst ?rest)" "?p \<notin> fst ` set ?rest"
    using I(2) [unfolded sp] by auto
  have sub: "set ?rest \<subseteq> set objs" by (auto dest: in_set_takeD in_set_dropD)
  have "holds (rd t) ob \<and> (\<exists>m. (fst ob, m) \<in> L - {(?p, n)} \<and> length (snd ob) \<le> unat m)" if ob: "ob \<in> set ?rest" for ob
  proof -
    have h: "holds (rd s) ob" using O ob sub by blast
    obtain m where m: "(fst ob, m) \<in> L" "length (snd ob) \<le> unat m" using O ob sub by blast
    have "fst ob \<noteq> ?p" using d(2) imageI [OF ob, of fst] by metis
    then have m': "(fst ob, m) \<in> L - {(?p, n)}" using m(1) by simp
    have "rd t x = rd s x" if "x \<in> obj_area ob" for x
      using that bspec [OF bspec [OF t(3) m'], of x] obj_in_area [OF m(2)] by auto
    then have "holds (rd t) ob" using holds_cong [of ob "rd t" "rd s"] h by simp
    then show ?thesis using m' m(2) by blast
  qed
  then have "client_inv (t, ?rest) (L - {(?p, n)})" using t(2) d(1) by (simp add: client_inv_def)
  then show ?thesis using True t(1) by auto
qed (use assms in auto)

lemma client_write:
  assumes "client_inv (s, objs) L"
  shows "\<exists>c' L'. client_step alloc release wr rd (CWrite k i v) (s, objs) = Some c' \<and> client_inv c' L'"
proof (cases "k < length objs \<and> i < length (snd (objs ! k))")
  case True
  let ?ob = "objs ! k" let ?x = "fst ?ob + word_of_nat i"
  let ?new = "(fst ?ob, (snd ?ob)[i := v])"
  have I: "inv s L" "distinct (map fst objs)"
    and O: "\<And>ob. ob \<in> set objs \<Longrightarrow> holds (rd s) ob \<and> (\<exists>n. (fst ob, n) \<in> L \<and> length (snd ob) \<le> unat n)"
    using assms by (simp_all add: client_inv_def)
  have mem: "?ob \<in> set objs" using True by simp
  obtain n where n: "(fst ?ob, n) \<in> L" "length (snd ?ob) \<le> unat n" using O [OF mem] by blast
  have x: "?x \<in> obj_area ?ob" using True by (auto simp: obj_area_def)
  then have inv: "inv (wr ?x v s) L" using write_law [OF I(1) n(1)] obj_in_area [OF n(2)] by auto
  have "unat n < 4294967296" by (rule u32_bound)
  then have inj: "word_of_nat j = (word_of_nat i :: u32) \<longleftrightarrow> j = i" if "j < length (snd ?ob)" for j
    using that True n(2) by (simp add: word_of_nat_eq_iff take_bit_eq_mod)
  have new: "holds (rd (wr ?x v s)) ?new"
    using O [OF mem] inj True by (auto simp: holds_def write_read nth_list_update)
  have old: "holds (rd (wr ?x v s)) ob" if "ob \<in> set objs" "ob \<noteq> ?ob" for ob
  proof -
    have "obj_area ob \<inter> obj_area ?ob = {}" using client_disjoint [of "(s, objs)" L ob ?ob] assms that mem by simp
    then have "rd (wr ?x v s) y = rd s y" if "y \<in> obj_area ob" for y using that x by (auto simp: write_read)
    then have "holds (rd (wr ?x v s)) ob = holds (rd s) ob" by (rule holds_cong)
    then show ?thesis using O [OF that(1)] by simp
  qed
  have dist: "objs ! j \<noteq> ?ob" if "j < length objs" "j \<noteq> k" for j
    using that True I(2) by (metis distinct_map nth_eq_iff_index_eq)
  have "holds (rd (wr ?x v s)) ob \<and> (\<exists>n. (fst ob, n) \<in> L \<and> length (snd ob) \<le> unat n)"
    if ob: "ob \<in> set (objs[k := ?new])" for ob
  proof -
    obtain j where j: "j < length objs" "ob = objs[k := ?new] ! j" using ob by (auto simp: in_set_conv_nth)
    show ?thesis
    proof (cases "j = k")
      case True
      then show ?thesis using j new n by auto
    next
      case False
      then have "ob = objs ! j" using j by simp
      then show ?thesis using old [OF nth_mem [OF j(1)] dist [OF j(1) False]] O [OF nth_mem [OF j(1)]] by blast
    qed
  qed
  moreover have "distinct (map fst (objs[k := ?new]))"
    using I(2) True by (simp add: map_update) (metis distinct_list_update list_update_id nth_map length_map)
  ultimately have "client_inv (wr ?x v s, objs[k := ?new]) L" using inv by (simp add: client_inv_def)
  then show ?thesis using True by auto
qed (use assms in auto)

lemma client_run_ok:
  "client_inv c L \<Longrightarrow> \<exists>c' L'. client_run alloc release wr rd ops c = Some c' \<and> client_inv c' L'"
proof (induction ops arbitrary: c L)
  case (Cons op ops)
  obtain s objs where c: "c = (s, objs)" by (cases c)
  have "\<exists>c' L'. client_step alloc release wr rd op c = Some c' \<and> client_inv c' L'"
    using Cons.prems client_alloc client_free client_write unfolding c by (cases op) blast+
  then show ?case using Cons.IH by force
qed auto

lemma client_arrays:
  assumes "inv s {}" "client_run alloc release wr rd ops (s, []) = r"
  shows "\<exists>t objs. r = Some (t, objs) \<and> (\<forall>ob \<in> set objs. holds (rd t) ob) \<and>
    (\<forall>ob \<in> set objs. \<forall>ob' \<in> set objs. ob \<noteq> ob' \<longrightarrow> obj_area ob \<inter> obj_area ob' = {})"
proof -
  have "client_inv (s, []) {}" using assms(1) by (simp add: client_inv_def)
  then obtain c L where c: "client_run alloc release wr rd ops (s, []) = Some c" "client_inv c L"
    using client_run_ok by blast
  then show ?thesis using assms(2) client_disjoint [OF c(2)] by (cases c) (auto simp: client_inv_def)
qed

end

section \<open>The heap of the kernel\<close>

definition live :: "blk list \<Rightarrow> (ptr \<times> u32) set" where
  "live bs = {(b_addr b + 12, b_size b) |b. b \<in> set bs \<and> \<not> b_free b}"

definition heap_inv :: "'a heap_state_scheme \<Rightarrow> (ptr \<times> u32) set \<Rightarrow> bool" where
  "heap_inv s L \<longleftrightarrow> mem_ok s \<and> (\<exists>bs. heap_ok s bs \<and> L = live bs)"

definition heap_write :: "ptr \<Rightarrow> u8 \<Rightarrow> 'a heap_state_scheme \<Rightarrow> 'a heap_state_scheme" where
  "heap_write x v s = s\<lparr>kmem := (kmem s)(x := v)\<rparr>"

lemma area_payload: "area (b_addr b + 12) (b_size b) = payload b"
  by (simp add: area_def payload_def)

lemma blocks_apart:
  assumes "apart_blocks bs" "b \<in> set bs" "c \<in> set bs" "b \<noteq> c"
  shows "extent b \<inter> extent c = {}"
  using assms by (induction bs) (auto simp: Int_commute)

lemma addr_in_extent: "blk_ok s b \<Longrightarrow> b_addr b \<in> extent b"
  using blk_bounds(2) [of s b "b_addr b"] by simp

lemma distinct_addr:
  "apart_blocks bs \<Longrightarrow> (\<And>b. b \<in> set bs \<Longrightarrow> b_addr b \<in> extent b) \<Longrightarrow> distinct (map b_addr bs)"
proof (induction bs)
  case (Cons b bs)
  have "b_addr b \<noteq> b_addr c" if "c \<in> set bs" for c
    using that Cons.prems(1) Cons.prems(2) [of b] Cons.prems(2) [of c] by (auto simp: disjoint_iff)
  then show ?case using Cons by auto
qed simp

lemma heap_distinct: "heap_ok s bs \<Longrightarrow> distinct (map b_addr bs)"
  using heap_okD(2,3) addr_in_extent by (intro distinct_addr) blast+

lemma blocks_addr:
  assumes "heap_ok s bs" "b \<in> set bs" "c \<in> set bs" "b_addr b = b_addr c"
  shows "b = c"
  using heap_distinct [OF assms(1)] assms(2-4) by (auto simp: distinct_map dest: inj_onD)

lemma header_payload: "blk_ok s b \<Longrightarrow> header (b_addr b) \<inter> payload b = {}"
proof -
  assume b: "blk_ok s b"
  have "x \<notin> payload b" if "x \<in> header (b_addr b)" for x
  proof
    assume "x \<in> payload b"
    then have p: "unat (x - b_addr b - 12) < unat (b_size b)" by (simp add: payload_def word_less_nat_alt diff_diff_eq)
    have "unat (x - b_addr b) < 12" using that by (simp add: header_def word_less_nat_alt)
    then show False using p b by (auto simp: blk_ok_def unat_sub_if_size word_size)
  qed
  then show ?thesis by auto
qed

lemma live_append: "live (xs @ ys) = live xs \<union> live ys"
  by (auto simp: live_def)

lemma live_Nil [simp]: "live [] = {}"
  by (simp add: live_def)

lemma live_Cons: "live (b # bs) = (if b_free b then {} else {(b_addr b + 12, b_size b)}) \<union> live bs"
  by (auto simp: live_def)

lemma live_split: "live (split_blk n b) = {(b_addr b + 12, n)}"
  by (cases "20 \<le> b_size b - n") (simp_all add: split_blk_def live_Cons)

lemma live_coalesce: "b_free b \<Longrightarrow> live (coalesce b bs) = live bs"
  by (induction b bs rule: coalesce.induct) (auto simp: live_Cons live_def)

lemma live_kept:
  assumes ok: "heap_ok s bs" and fr: "heap_frame U s t" and a: "a \<in> live bs" and x: "x \<in> area (fst a) (snd a)"
    and U: "\<And>b. b \<in> set bs \<Longrightarrow> \<not> b_free b \<Longrightarrow> a = (b_addr b + 12, b_size b) \<Longrightarrow> payload b \<inter> U = {}"
  shows "kmem t x = kmem s x"
proof -
  obtain b where b: "b \<in> set bs" "\<not> b_free b" "a = (b_addr b + 12, b_size b)" using a by (auto simp: live_def)
  then have px: "x \<in> payload b" using x area_payload [of b] by simp
  have "blk_ok s b" using heap_okD(2) [OF ok b(1)] .
  then have "heap_byte s x" using px blk_bounds(4) by (auto simp: blk_ok_def)
  then show ?thesis using fr px U [OF b] heap_byte_clear [of s x] by (auto simp: heap_frame_def)
qed

lemma heap_inv_disjoint:
  assumes "heap_inv s L" "a \<in> L" "b \<in> L" "a \<noteq> b"
  shows "fst a \<noteq> fst b \<and> area (fst a) (snd a) \<inter> area (fst b) (snd b) = {}"
proof -
  obtain bs where bs: "heap_ok s bs" "L = live bs" using assms(1) by (auto simp: heap_inv_def)
  obtain c d where c: "c \<in> set bs" "a = (b_addr c + 12, b_size c)" and d: "d \<in> set bs" "b = (b_addr d + 12, b_size d)"
    using assms(2,3) bs(2) by (auto simp: live_def)
  have cd: "c \<noteq> d" using assms(4) c d by auto
  have "b_addr c \<noteq> b_addr d" using blocks_addr [OF bs(1) c(1) d(1)] cd by auto
  moreover have "payload c \<inter> payload d = {}"
    using blocks_apart [OF heap_okD(3) [OF bs(1)] c(1) d(1) cd] blk_bounds(4) heap_okD(2) [OF bs(1)] c(1) d(1) by blast
  ultimately show ?thesis using c d by (simp add: area_payload)
qed

lemma live_fresh:
  assumes "heap_ok t (xs @ split_blk n b @ ys)"
  shows "(b_addr b + 12, n) \<notin> live (xs @ ys)"
proof
  let ?c = "\<lparr>b_addr = b_addr b, b_size = n, b_free = False\<rparr>"
  assume "(b_addr b + 12, n) \<in> live (xs @ ys)"
  then obtain d where d: "d \<in> set (xs @ ys)" "b_addr d = b_addr b"
    unfolding live_def by (auto simp del: set_append)
  have c: "?c \<in> set (split_blk n b)" by (simp add: split_blk_def)
  have "extent ?c \<inter> extent d = {}"
    using heap_okD(3) [OF assms] c d(1) by (fastforce simp: sorted_wrt_append)
  moreover have "blk_ok t ?c" "blk_ok t d" using heap_okD(2) [OF assms] c d(1) by auto
  ultimately show False using addr_in_extent [of t ?c] addr_in_extent [of t d] d(2) by auto
qed

lemma blk_addr_nz:
  assumes "blk_ok s b"
  shows "b_addr b + 12 \<noteq> 0"
proof
  assume "b_addr b + 12 = 0"
  then have "b_addr b = - 12" by (metis add_eq_0_iff2)
  then have "unat (frame (b_addr b)) = 1048575" by (simp add: unat_frame)
  moreover obtain p where p: "table_ok s p" "frame (b_addr b) = frame (vmm_phys_to_virt p)"
    using addr_in_extent [OF assms] assms by (auto simp: blk_ok_def heap_byte_def)
  moreover have "unat p < 0x1000000" using table_okD(2) [OF p(1)] phys_to_virt_unat(1) by blast
  ultimately show False using frame_virt [OF table_okD(2) [OF p(1)]] by (simp add: unat_frame)
qed

lemma kmalloc_live_set:
  assumes ok: "heap_ok s bs" and al: "alloc_spec n bs s p t"
  shows "if p = 0 then \<exists>bs'. heap_ok t bs' \<and> live bs' = live bs
     else (p, n) \<notin> live bs \<and> (\<exists>bs'. heap_ok t bs' \<and> live bs' = insert (p, n) (live bs))"
proof (cases "first_fit n bs")
  case (Some r)
  obtain xs b ys where r: "r = (xs, b, ys)" by (cases r)
  have f: "bs = xs @ b # ys" "b_free b" using first_fit_SomeD [OF Some [unfolded r]] by simp_all
  have h: "heap_ok t (xs @ split_blk n b @ ys)" "p = b_addr b + 12" using al Some r by (simp_all add: alloc_spec_def)
  have "p \<noteq> 0" using blk_addr_nz [OF heap_okD(2) [OF ok, of b]] f(1) h(2) by simp
  moreover have lb: "live bs = live (xs @ ys)" using f(2) by (simp add: f(1) live_append live_Cons)
  moreover have "live (xs @ split_blk n b @ ys) = insert (p, n) (live bs)"
    by (auto simp: lb live_append live_split h(2))
  ultimately show ?thesis using live_fresh [OF h(1)] h by metis
next
  case None
  show ?thesis
  proof (cases "can_alloc s")
    case True
    then obtain q where q: "p = vmm_phys_to_virt q + 12"
        "heap_ok t (bs @ split_blk n (page_blk (vmm_phys_to_virt q)))"
      using al None by (auto simp: alloc_spec_def)
    let ?b = "page_blk (vmm_phys_to_virt q)"
    have pb: "b_addr ?b = vmm_phys_to_virt q" by (simp add: page_blk_def)
    have c: "\<lparr>b_addr = b_addr ?b, b_size = n, b_free = False\<rparr> \<in> set (bs @ split_blk n ?b)" by (simp add: split_blk_def)
    have "p \<noteq> 0" using blk_addr_nz [OF heap_okD(2) [OF q(2) c]] q(1) pb by simp
    moreover have "live (bs @ split_blk n ?b) = insert (p, n) (live bs)" by (simp add: live_append live_split q(1) pb)
    ultimately show ?thesis using live_fresh [of t bs n ?b "[]"] q pb by auto
  qed (use al None in \<open>auto simp: alloc_spec_def\<close>)
qed

lemma apart_payload:
  assumes "heap_ok s bs" "b \<in> set bs" "c \<in> set bs" "b \<noteq> c"
  shows "payload b \<inter> extent c = {}"
  using blocks_apart [OF heap_okD(3) [OF assms(1)] assms(2-4)] blk_bounds(4) [OF heap_okD(2) [OF assms(1,2)]] by blast

lemma kmalloc_live_kept:
  assumes ok: "heap_ok s bs" and m: "mem_ok s" and al: "alloc_spec n bs s p t"
    and a: "a \<in> live bs" "x \<in> area (fst a) (snd a)"
  shows "kmem t x = kmem s x"
proof (cases "first_fit n bs")
  case (Some r)
  obtain xs b ys where r: "r = (xs, b, ys)" by (cases r)
  have f: "bs = xs @ b # ys" "b_free b" using first_fit_SomeD [OF Some [unfolded r]] by simp_all
  have fr: "heap_frame (extent b) s t" using al Some r by (simp add: alloc_spec_def)
  show ?thesis
    by (rule live_kept [OF ok fr a]) (use apart_payload [OF ok, of _ b] f in auto)
next
  case None
  show ?thesis
  proof (cases "can_alloc s")
    case True
    then obtain q where q: "vmm_phys_to_virt q \<noteq> 0" "page_aligned q" "frame q \<in> free_pages s"
        "heap_ok t (bs @ split_blk n (page_blk (vmm_phys_to_virt q)))"
        "heap_frame (extent (page_blk (vmm_phys_to_virt q)) \<union> (if bs = [] then {} else header (b_addr (last bs)))) s t"
      using al None by (auto simp: alloc_spec_def)
    show ?thesis
    proof (rule live_kept [OF ok q(5) a])
      fix b assume b: "b \<in> set bs" "\<not> b_free b"
      have "frame y \<noteq> frame (vmm_phys_to_virt q)" if y: "heap_byte s y" for y
      proof -
        obtain r where r: "table_ok s r" "frame y = frame (vmm_phys_to_virt r)" using y by (auto simp: heap_byte_def)
        have "r \<noteq> q" using table_okD(5) [OF r(1)] q(3) by auto
        then show ?thesis
          using r(2) q(1,2) table_okD(2,3) [OF r(1)] page_aligned_eq page_aligned_virt virt_inj by metis
      qed
      then have "payload b \<inter> extent (page_blk (vmm_phys_to_virt q)) = {}"
        using heap_okD(2) [OF ok b(1)] blk_bounds(4) [of s b] q(1,2)
        by (auto simp: blk_ok_def page_extent page_aligned_virt)
      moreover have "payload b \<inter> header (b_addr (last bs)) = {}"
      proof (cases "b = last bs")
        case True
        then show ?thesis using header_payload [OF heap_okD(2) [OF ok b(1)]] by auto
      next
        case False
        have l: "last bs \<in> set bs" using b(1) by (intro last_in_set) auto
        then show ?thesis using apart_payload [OF ok b(1) l False] blk_bounds(3) [OF heap_okD(2) [OF ok l]] by blast
      qed
      ultimately show "payload b \<inter> (extent (page_blk (vmm_phys_to_virt q)) \<union> (if bs = [] then {} else header (b_addr (last bs)))) = {}"
        by auto
    qed
  next
    case False
    then have "heap_frame {} s t" using al None by (auto simp: alloc_spec_def)
    then show ?thesis by (rule live_kept [OF ok _ a]) simp
  qed
qed

lemma heap_inv_alloc:
  assumes "heap_inv s L"
  shows "\<exists>p t. kmalloc n s = Some (p, t) \<and>
      (if p = 0 then heap_inv t L else \<exists>m. n \<le> m \<and> (p, m) \<notin> L \<and> heap_inv t (insert (p, m) L)) \<and>
      (\<forall>a \<in> L. \<forall>x \<in> area (fst a) (snd a). kmem t x = kmem s x)"
proof -
  obtain bs where bs: "heap_ok s bs" "L = live bs" "mem_ok s" using assms by (auto simp: heap_inv_def)
  obtain p t where K: "kmalloc n s = Some (p, t)" "mem_ok t"
    "case align_size n of None \<Rightarrow> p = 0 \<and> t = s
     | Some k \<Rightarrow> if k > 4084 then p = 0 \<and> t = s else alloc_spec k bs s p t"
    using kmalloc_spec [OF bs(1,3)] by blast
  show ?thesis
  proof (cases "p = 0 \<and> t = s")
    case False
    then obtain k where k: "align_size n = Some k" "k \<le> 4084" "alloc_spec k bs s p t"
      using K(3) by (auto simp: not_less split: option.splits if_splits)
    have "n \<le> k" using align_size_Some [OF k(1)] by auto
    note S = kmalloc_live_set [OF bs(1) k(3)] and T = kmalloc_live_kept [OF bs(1,3) k(3)]
    show ?thesis
    proof (cases "p = 0")
      case True
      then show ?thesis using K(1,2) S T by (auto simp: heap_inv_def bs(2))
    next
      case False
      then have "heap_inv t (insert (p, k) L)" "(p, k) \<notin> L" using K(2) S unfolding heap_inv_def bs(2) by auto
      then show ?thesis using False K(1) T \<open>n \<le> k\<close> by (auto simp: bs(2))
    qed
  qed (use K assms in auto)
qed

lemma freed_live:
  assumes "heap_ok s (xs @ b # ys)" "\<not> b_free b"
  shows "live (xs @ coalesce (b\<lparr>b_free := True\<rparr>) ys) = live (xs @ b # ys) - {(b_addr b + 12, b_size b)}"
proof -
  have "(b_addr b + 12, b_size b) \<notin> live (xs @ ys)" using heap_distinct [OF assms(1)] by (auto simp: live_def)
  then show ?thesis using assms(2) by (auto simp: live_append live_coalesce live_Cons)
qed

lemma heap_inv_free:
  assumes "heap_inv s L" "a \<in> L"
  shows "\<exists>t. kfree (fst a) s = Some t \<and> heap_inv t (L - {a}) \<and>
      (\<forall>b \<in> L - {a}. \<forall>x \<in> area (fst b) (snd b). kmem t x = kmem s x)"
proof -
  obtain bs where bs: "heap_ok s bs" "L = live bs" "mem_ok s" using assms(1) by (auto simp: heap_inv_def)
  obtain b where b: "b \<in> set bs" "\<not> b_free b" "a = (b_addr b + 12, b_size b)" using assms(2) bs(2) by (auto simp: live_def)
  obtain xs ys where xy: "bs = xs @ b # ys" using b(1) by (auto simp: in_set_conv_decomp)
  have nz: "b_addr b + 12 \<noteq> 0" using blk_addr_nz [OF heap_okD(2) [OF bs(1) b(1)]] .
  obtain t where t: "kfree (b_addr b + 12) s = Some t" "mem_ok t" "heap_ok t (xs @ coalesce (b\<lparr>b_free := True\<rparr>) ys)"
      "heap_frame (header (b_addr b)) s t"
    using kfree_spec [OF bs(1) [unfolded xy] bs(3) nz] by auto
  have "live (xs @ coalesce (b\<lparr>b_free := True\<rparr>) ys) = L - {a}" using freed_live [OF bs(1) [unfolded xy] b(2)] by (simp add: bs(2) xy b(3))
  moreover have "kmem t x = kmem s x" if c: "c \<in> L - {a}" "x \<in> area (fst c) (snd c)" for c x
  proof (rule live_kept [OF bs(1) t(4) _ c(2)])
    show "c \<in> live bs" using c bs(2) by simp
    fix d assume d: "d \<in> set bs" "c = (b_addr d + 12, b_size d)"
    then have "d \<noteq> b" using c(1) b(3) by auto
    then show "payload d \<inter> header (b_addr b) = {}"
      using apart_payload [OF bs(1) d(1) b(1)] blk_bounds(3) [OF heap_okD(2) [OF bs(1) b(1)]] by blast
  qed
  ultimately show ?thesis using t b(3) by (auto simp: heap_inv_def)
qed

lemma payload_write:
  assumes ok: "heap_ok s bs" and b: "b \<in> set bs" and up: "upd_in (payload b) s t"
  shows "heap_ok t bs" "mem_frame s t"
proof -
  have bo: "blk_ok s b" using heap_okD(2) [OF ok b] .
  show fr: "mem_frame s t" by (rule upd_in_frame [OF up]) (use bo blk_bounds(4) [OF bo] in \<open>auto simp: blk_ok_def\<close>)
  have "x \<notin> payload b" if c: "c \<in> set bs" "x \<in> header (b_addr c)" for c x
  proof (cases "c = b")
    case True
    then show ?thesis using header_payload [OF bo] c(2) by auto
  next
    case False
    then show ?thesis using apart_payload [OF ok b c(1)] blk_bounds(3) [OF heap_okD(2) [OF ok c(1)]] c(2) by blast
  qed
  then have "hpath t (heap_list s) bs 0"
    using heap_okD(1) [OF ok] up by (subst hpath_same [of _ t s]) (auto simp: upd_in_def)
  then show "heap_ok t bs" using ok frame_heap(2) [OF fr] upd_in_list [OF up] by (simp add: heap_ok_def)
qed

lemma heap_inv_write:
  assumes "heap_inv s L" "a \<in> L" "x \<in> area (fst a) (snd a)"
  shows "heap_inv (heap_write x v s) L"
proof -
  obtain bs where bs: "heap_ok s bs" "L = live bs" "mem_ok s" using assms(1) by (auto simp: heap_inv_def)
  obtain b where b: "b \<in> set bs" "a = (b_addr b + 12, b_size b)" using assms(2) bs(2) by (auto simp: live_def)
  have "x \<in> payload b" using assms(3) b(2) area_payload [of b] by simp
  then have "upd_in (payload b) s (heap_write x v s)" by (auto simp: upd_in_def heap_write_def)
  note W = payload_write [OF bs(1) b(1) this]
  show ?thesis using bs W(1) mem_frame_fields(5) [OF W(2)] by (auto simp: heap_inv_def)
qed

interpretation kheap: heap_alloc heap_inv kmem heap_write kmalloc kfree
proof
  show "kmem (heap_write x v s) = (kmem s)(x := v)" for x v and s :: "'a heap_state_scheme"
    by (simp add: heap_write_def)
qed (fact heap_inv_disjoint heap_inv_alloc heap_inv_free heap_inv_write)+

section \<open>Properties\<close>

text \<open>
  C14: \<open>kmalloc\<close> is first-fit allocation.  On every well-formed heap it returns; a size of 0, a
  size whose rounding up to 8 overflows and a size over 4084 give NULL and change nothing;
  otherwise the first free block that is large enough is split (and no page is taken), a page is
  added to the end of the list only when none fits, and NULL is the answer when the frame
  allocator has no frame of the direct map.
\<close>

theorem kmalloc_first_fit:
  assumes "mem_ok s" "heap_ok s bs"
  shows "\<exists>p t. kmalloc sz s = Some (p, t) \<and> mem_ok t \<and>
    (case align_size sz of None \<Rightarrow> p = 0 \<and> t = s
     | Some n \<Rightarrow> sz \<le> n \<and> 8 dvd n \<and> (if n > 4084 then p = 0 \<and> t = s else alloc_spec n bs s p t))"
proof -
  obtain p t where "kmalloc sz s = Some (p, t)" "mem_ok t" "case align_size sz of None \<Rightarrow> p = 0 \<and> t = s
     | Some n \<Rightarrow> if n > 4084 then p = 0 \<and> t = s else alloc_spec n bs s p t"
    using kmalloc_spec [OF assms(2,1)] by blast
  then show ?thesis using align_size_Some [of sz] by (cases "align_size sz") auto
qed

text \<open>
  C15: \<open>kfree\<close> of an allocated pointer returns; the block becomes free and absorbs the free
  blocks that follow it in the list as long as they are adjacent in memory, no frame is
  given back, and nothing outside the header of the block is written.
\<close>

theorem kfree_coalesces:
  assumes "mem_ok s" "heap_ok s (xs @ b # ys)"
  shows "\<exists>t. kfree (b_addr b + 12) s = Some t \<and> mem_ok t \<and>
    heap_ok t (xs @ coalesce (b\<lparr>b_free := True\<rparr>) ys) \<and> free_pages t = free_pages s \<and>
    heap_frame (header (b_addr b)) s t"
  using kfree_spec [OF assms(2,1)] blk_addr_nz [OF heap_okD(2) [OF assms(2), of b]] by simp

text \<open>
  C13: a client that only frees and writes what it allocated sees private arrays: every call of
  \<open>kmalloc\<close> and \<open>kfree\<close> returns, at the end each object it still holds has exactly the bytes
  it wrote there, and no two objects overlap, whatever the sequence of operations.
\<close>

theorem kmalloc_private_arrays:
  assumes "mem_ok s" "heap_ok s []"
  shows "\<exists>t objs. client_run kmalloc kfree heap_write kmem ops (s, []) = Some (t, objs) \<and>
    (\<forall>ob \<in> set objs. holds (kmem t) ob) \<and>
    (\<forall>ob \<in> set objs. \<forall>ob' \<in> set objs. ob \<noteq> ob' \<longrightarrow> obj_area ob \<inter> obj_area ob' = {})"
proof -
  have "heap_inv s {}" using assms by (auto simp: heap_inv_def intro!: exI [of _ "[]"])
  then show ?thesis using kheap.client_arrays by blast
qed

section \<open>A concrete heap\<close>

definition small_heap :: heap_state where
  "small_heap = vmm_state.extend small_vm \<lparr>heap_list = 0\<rparr>"

lemma small_heap_ok: "mem_ok small_heap" "heap_ok small_heap []" "can_alloc small_heap"
proof -
  have s: "pmm_same small_vm small_heap" by (simp add: pmm_same_def small_heap_def vmm_state.defs)
  show "mem_ok small_heap" "can_alloc small_heap"
    using small_vm_mem_ok small_can_alloc by (simp_all add: pmm_same_parts [OF s] can_alloc_def)
  show "heap_ok small_heap []" by (simp add: heap_ok_def small_heap_def vmm_state.defs)
qed

lemma small_free: "free_pages small_heap = {1, 2, 3, 5, 6, 7}"
proof -
  have "pmm_same small_vm small_heap" by (simp add: pmm_same_def small_heap_def vmm_state.defs)
  then show ?thesis using small_vm_free by (simp add: pmm_same_parts)
qed

definition small_blocks :: "ptr \<Rightarrow> blk list" where
  "small_blocks b = [\<lparr>b_addr = b, b_size = 104, b_free = False\<rparr>, \<lparr>b_addr = b + 116, b_size = 3968, b_free = True\<rparr>]"

lemma small_split: "split_blk 104 (page_blk b) = small_blocks b"
proof -
  have "(20 :: u32) \<le> 4084 - 104" by simp
  then show ?thesis unfolding split_blk_def page_blk_def by (simp add: small_blocks_def)
qed

lemma align_100: "align_size 100 = Some 104" "\<not> (104 :: u32) > 4084"
  by (simp_all add: align_size_def KMALLOC_ALIGN_def word_less_nat_alt)

theorem kmalloc_first_fit_witness:
  "\<exists>p t. kmalloc 100 small_heap = Some (p, t) \<and> mem_ok t \<and> p \<noteq> 0 \<and> heap_ok t (small_blocks (p - 12))"
proof -
  obtain p t where *: "kmalloc 100 small_heap = Some (p, t)" "mem_ok t" "alloc_spec 104 [] small_heap p t"
    using kmalloc_first_fit [OF small_heap_ok(1,2), of 100]
    unfolding align_100(1) option.case if_not_P [OF align_100(2)] by blast
  then obtain q where "p = vmm_phys_to_virt q + 12" "heap_ok t (small_blocks (vmm_phys_to_virt q))"
    using small_heap_ok(3) by (auto simp: alloc_spec_def small_split)
  moreover have "p \<noteq> 0" using calculation blk_addr_nz [OF heap_okD(2), of t] by (force simp: small_blocks_def)
  ultimately show ?thesis using * by auto
qed

lemma small_alloc:
  obtains p t where "kmalloc 100 small_heap = Some (p, t)" "mem_ok t" "heap_ok t (small_blocks (p - 12))"
proof -
  obtain p t where *: "kmalloc 100 small_heap = Some (p, t)" "mem_ok t" "alloc_spec 104 [] small_heap p t"
    using kmalloc_spec [OF small_heap_ok(2,1), of 100]
    unfolding align_100(1) option.case if_not_P [OF align_100(2)] by blast
  then obtain q where "p = vmm_phys_to_virt q + 12" "heap_ok t (small_blocks (vmm_phys_to_virt q))"
    using small_heap_ok(3) by (auto simp: alloc_spec_def small_split)
  then have "heap_ok t (small_blocks (p - 12))" by simp
  then show ?thesis using that * by blast
qed

theorem kfree_coalesces_witness:
  "\<exists>p s t. kmalloc 100 small_heap = Some (p, s) \<and> kfree p s = Some t \<and> heap_ok t [page_blk (p - 12)]"
proof -
  obtain p s where s: "kmalloc 100 small_heap = Some (p, s)" "mem_ok s" "heap_ok s (small_blocks (p - 12))"
    by (rule small_alloc)
  let ?b = "\<lparr>b_addr = p - 12, b_size = 104, b_free = False\<rparr>" and ?f = "\<lparr>b_addr = p - 12 + 116, b_size = 3968, b_free = True\<rparr>"
  have "heap_ok s ([] @ ?b # [?f])" using s(3) by (simp add: small_blocks_def)
  from kfree_coalesces [OF s(2) this] s(1) show ?thesis by (auto simp: page_blk_def algebra_simps)
qed

theorem kmalloc_private_arrays_witness:
  "\<exists>t objs. client_run kmalloc kfree heap_write kmem [CAlloc 100, CWrite 0 3 7, CAlloc 8, CFree 0, CAlloc 16] (small_heap, [])
     = Some (t, objs) \<and> (\<forall>ob \<in> set objs. holds (kmem t) ob)"
  using kmalloc_private_arrays [OF small_heap_ok(1,2), of "[CAlloc 100, CWrite 0 3 7, CAlloc 8, CFree 0, CAlloc 16]"] by blast

end
