(* ===== verification/Initramfs.thy ===== *)
theory Initramfs
  imports Kmalloc PmmInit
begin

text \<open>
  The boot module (\<open>kernel/boot.c\<close>) and the archive it holds (\<open>kernel/initramfs.c\<close>), with the
  encoder \<open>scripts/mkemxa.py\<close> that writes it.  A path argument is a C string: \<open>None\<close> is NULL,
  \<open>Some cs\<close> the characters before the NUL.  The result pointers of \<open>initramfs_find\<close> are
  addresses of local variables in every caller; its result is \<open>None\<close> for -1 and otherwise the
  two values it stores there.
\<close>

section \<open>The boot module\<close>

record boot_state = heap_state +
  module_start :: ptr
  module_size :: u32

definition mod_start :: "'a pmm_state_scheme \<Rightarrow> ptr \<Rightarrow> u32" where
  "mod_start s mods = ld32 (kmem s) mods"

definition mod_end :: "'a pmm_state_scheme \<Rightarrow> ptr \<Rightarrow> u32" where
  "mod_end s mods = ld32 (kmem s) (mods + 4)"

definition boot_init :: "ptr \<Rightarrow> 'a boot_state_scheme \<Rightarrow> 'a boot_state_scheme" where
  "boot_init mbi s =
     (let s = s\<lparr>module_start := 0, module_size := 0\<rparr> in
      if mbi_flags s mbi AND MULTIBOOT_FLAG_MODS = 0 \<or> mbi_mods_count s mbi = 0
      then snd (printk (''boot: no modules'' @ [CHR 0x0A]) [] s)
      else
        let mods = vmm_phys_to_virt (mbi_mods_addr s mbi) in
        if mods = 0
        then snd (printk (''boot: module list is outside direct map'' @ [CHR 0x0A]) [] s)
        else
          let s = s\<lparr>module_start := vmm_phys_to_virt (mod_start s mods)\<rparr> in
          if module_start s = 0
          then snd (printk (''boot: module is outside direct map'' @ [CHR 0x0A]) [] s)
          else
            let s = s\<lparr>module_size := mod_end s mods - mod_start s mods\<rparr>
            in snd (printk (''boot: module start=%x size=%x'' @ [CHR 0x0A])
                 [VInt (module_start s), VInt (module_size s)] s))"

definition boot_module_start :: "'a boot_state_scheme \<Rightarrow> ptr" where
  "boot_module_start s = module_start s"

definition boot_module_size :: "'a boot_state_scheme \<Rightarrow> u32" where
  "boot_module_size s = module_size s"

section \<open>The archive\<close>

definition EMXA_HEADER_SIZE :: u32 where "EMXA_HEADER_SIZE = 8"
definition EMXA_ENTRY_SIZE :: u32 where "EMXA_ENTRY_SIZE = 40"
definition EMXA_PATH_SIZE :: u32 where "EMXA_PATH_SIZE = 32"
definition EMXA_MAGIC0 :: u8 where "EMXA_MAGIC0 = of_char CHR ''E''"
definition EMXA_MAGIC1 :: u8 where "EMXA_MAGIC1 = of_char CHR ''M''"
definition EMXA_MAGIC2 :: u8 where "EMXA_MAGIC2 = of_char CHR ''X''"
definition EMXA_MAGIC3 :: u8 where "EMXA_MAGIC3 = of_char CHR ''A''"

lemmas emxa_consts = EMXA_HEADER_SIZE_def EMXA_ENTRY_SIZE_def EMXA_PATH_SIZE_def
  EMXA_MAGIC0_def EMXA_MAGIC1_def EMXA_MAGIC2_def EMXA_MAGIC3_def

text \<open>The three values the header check hands out: archive, size and number of files.\<close>

definition initramfs_header :: "'a boot_state_scheme \<Rightarrow> (ptr \<times> u32 \<times> u32) option" where
  "initramfs_header s =
     (let archive = boot_module_start s;
          sz = boot_module_size s in
      if archive = 0 \<or> sz < EMXA_HEADER_SIZE then None
      else if kmem s archive \<noteq> EMXA_MAGIC0 \<or> kmem s (archive + 1) \<noteq> EMXA_MAGIC1 \<or>
        kmem s (archive + 2) \<noteq> EMXA_MAGIC2 \<or> kmem s (archive + 3) \<noteq> EMXA_MAGIC3 then None
      else
        let count = read_le32 (kmem s) (archive + 4) in
        if count > (sz - EMXA_HEADER_SIZE) div EMXA_ENTRY_SIZE then None
        else Some (archive, sz, count))"

text \<open>Character \<open>i\<close> of a C string; the terminating NUL is the one after the last.\<close>

definition c_char :: "u8 list \<Rightarrow> u32 \<Rightarrow> u8" where
  "c_char cs i = (if unat i < length cs then cs ! unat i else 0)"

definition path_matches :: "mem \<Rightarrow> ptr \<Rightarrow> u8 list \<Rightarrow> bool" where
  "path_matches m entry_path path =
     (case first_u32 0 EMXA_PATH_SIZE (\<lambda>i. m (entry_path + i) \<noteq> c_char path i \<or> c_char path i = 0) of
        None \<Rightarrow> False
      | Some i \<Rightarrow> if m (entry_path + i) \<noteq> c_char path i then False else True)"

definition archive_entry :: "ptr \<Rightarrow> u32 \<Rightarrow> ptr" where
  "archive_entry archive i = archive + EMXA_HEADER_SIZE + i * EMXA_ENTRY_SIZE"

definition initramfs_find :: "u8 list option \<Rightarrow> 'a boot_state_scheme \<Rightarrow> (ptr \<times> u32) option" where
  "initramfs_find path s =
     (case path of
        None \<Rightarrow> None
      | Some path \<Rightarrow>
        (case initramfs_header s of
           None \<Rightarrow> None
         | Some (archive, archive_size, file_count) \<Rightarrow>
           (case first_u32 0 file_count (\<lambda>i. path_matches (kmem s) (archive_entry archive i) path) of
              None \<Rightarrow> None
            | Some i \<Rightarrow>
                let entry = archive_entry archive i;
                    offset = read_le32 (kmem s) (entry + EMXA_PATH_SIZE);
                    file_size = read_le32 (kmem s) (entry + EMXA_PATH_SIZE + 4) in
                if offset > archive_size \<or> file_size > archive_size - offset then None
                else Some (archive + offset, file_size))))"

text \<open>The inner loop of \<open>initramfs_list\<close>: the characters of a path field.\<close>

function list_path :: "ptr \<Rightarrow> u32 \<Rightarrow> 'a boot_state_scheme \<Rightarrow> 'a boot_state_scheme" where
  "list_path entry j s =
     (if j < EMXA_PATH_SIZE \<and> kmem s (entry + j) \<noteq> 0
      then list_path entry (j + 1) (snd (printk ''%c'' [VInt (ucast (kmem s (entry + j)))] s))
      else s)"
  by pat_completeness auto
termination
  by (relation "measure (\<lambda>(entry, j, s). unat EMXA_PATH_SIZE - unat j)")
    (auto simp: unat_inc word_less_nat_alt)

declare list_path.simps [simp del]

definition initramfs_list :: "'a boot_state_scheme \<Rightarrow> 'a boot_state_scheme" where
  "initramfs_list s =
     (case initramfs_header s of
        None \<Rightarrow> snd (printk (''initramfs: invalid module'' @ [CHR 0x0A]) [] s)
      | Some (archive, archive_size, file_count) \<Rightarrow>
          let s = snd (printk (''initramfs: files=%x size=%x'' @ [CHR 0x0A])
                    [VInt file_count, VInt archive_size] s)
          in for_u32 0 file_count (\<lambda>i s.
               let entry = archive_entry archive i;
                   offset = read_le32 (kmem s) (entry + EMXA_PATH_SIZE);
                   file_size = read_le32 (kmem s) (entry + EMXA_PATH_SIZE + 4);
                   s = snd (printk ''- '' [] s);
                   s = list_path entry 0 s
               in snd (printk ('' offset=%x size=%x'' @ [CHR 0x0A]) [VInt offset, VInt file_size] s)) s)"

section \<open>The encoder\<close>

text \<open>
  \<open>scripts/mkemxa.py\<close> on files given as pairs of path and contents; it refuses paths of 32
  characters or more.  \<open>le32\<close> is \<open>struct.pack("<I", n)\<close>.
\<close>

definition le32 :: "nat \<Rightarrow> u8 list" where
  "le32 n = map (\<lambda>k. word_of_nat (n div 256 ^ k)) [0, 1, 2, 3]"

fun emxa_entries :: "nat \<Rightarrow> (u8 list \<times> u8 list) list \<Rightarrow> u8 list" where
  "emxa_entries off [] = []"
| "emxa_entries off ((path, contents) # files) =
     path @ replicate (32 - length path) 0 @ le32 off @ le32 (length contents) @
     emxa_entries (off + length contents) files"

definition emxa_encode :: "(u8 list \<times> u8 list) list \<Rightarrow> u8 list option" where
  "emxa_encode files =
     (if \<exists>f \<in> set files. length (fst f) \<ge> 32 then None
      else Some (map of_char ''EMXA'' @ le32 (length files) @
        emxa_entries (8 + 40 * length files) files @ concat (map snd files)))"

end
