(* ===== verification/InitramfsProof.thy ===== *)
theory InitramfsProof
  imports Initramfs
begin

text \<open>
  The reader of the archive is safe on any bytes (it looks at nothing outside the boot module
  and returns only pieces of it) and inverts the encoder: a lookup finds the contents of the
  first file with the path, and nothing for other paths.
\<close>

section \<open>Bytes in memory\<close>

definition bytes_at :: "mem \<Rightarrow> ptr \<Rightarrow> u8 list \<Rightarrow> bool" where
  "bytes_at m a bs \<longleftrightarrow> (\<forall>i < length bs. m (a + word_of_nat i) = bs ! i)"

lemma bytes_at_nth: "bytes_at m a bs \<Longrightarrow> i < length bs \<Longrightarrow> m (a + word_of_nat i) = bs ! i"
  by (simp add: bytes_at_def)

lemma bytes_at_append:
  "bytes_at m a (xs @ ys) \<longleftrightarrow> bytes_at m a xs \<and> bytes_at m (a + word_of_nat (length xs)) ys"
proof -
  have "(\<forall>i < length xs + length ys. P i) \<longleftrightarrow> (\<forall>i < length xs. P i) \<and> (\<forall>i < length ys. P (length xs + i))" for P
  proof (intro iffI conjI allI impI)
    fix i assume P: "(\<forall>i < length xs. P i) \<and> (\<forall>i < length ys. P (length xs + i))" and i: "i < length xs + length ys"
    show "P i"
    proof (cases "i < length xs")
      case False
      then have "P (length xs + (i - length xs))" using P i by (intro P [THEN conjunct2, rule_format]) linarith
      then show ?thesis using False by simp
    qed (use P in simp)
  qed auto
  then show ?thesis by (simp add: bytes_at_def nth_append add.assoc)
qed

lemma bytes_at_drop:
  assumes "bytes_at m a bs" "k \<le> length bs"
  shows "bytes_at m (a + word_of_nat k) (drop k bs)"
proof -
  have "bytes_at m a (take k bs @ drop k bs)" using assms(1) by simp
  then show ?thesis using assms(2) by (simp add: bytes_at_append del: append_take_drop_id)
qed

lemma le32_length [simp]: "length (le32 n) = 4"
  by (simp add: le32_def)

lemma byte_of_nat:
  assumes "n < 4294967296"
  shows "(word_of_nat (n div 256 ^ k) :: u8) = ucast (drop_bit (8 * k) (word_of_nat n :: u32))"
proof (rule bit_word_eqI)
  have k: "256 ^ k = (2 :: nat) ^ (8 * k)" by (simp add: power_mult)
  fix i :: nat assume "i < LENGTH(8)"
  moreover have "take_bit 32 n = n" using assms by (simp add: take_bit_nat_eq_self_iff)
  then have "bit n (8 * k + i) \<Longrightarrow> 8 * k + i < 32" by (metis bit_take_bit_iff)
  ultimately show "bit (word_of_nat (n div 256 ^ k) :: u8) i = bit (ucast (drop_bit (8 * k) (word_of_nat n :: u32)) :: u8) i"
    by (auto simp: bit_simps k drop_bit_eq_div [symmetric])
qed

lemma read_le32_le32:
  assumes "bytes_at m a (le32 n)" "n < 4294967296"
  shows "read_le32 m a = word_of_nat n"
proof -
  have b: "m (a + word_of_nat k) = ucast (drop_bit (8 * k) (word_of_nat n :: u32))" if "k < 4" for k
  proof -
    have "k = 0 \<or> k = 1 \<or> k = 2 \<or> k = 3" using that by linarith
    then have "le32 n ! k = word_of_nat (n div 256 ^ k)" by (auto simp: le32_def)
    then show ?thesis using bytes_at_nth [OF assms(1)] byte_of_nat [OF assms(2)] that by simp
  qed
  show ?thesis
    using b [of 0] b [of 1] b [of 2] b [of 3] bytes_join [of "word_of_nat n"]
    by (simp add: read_le32_def)
qed

section \<open>Paths\<close>

lemma c_char_zero: "0 \<notin> set cs \<Longrightarrow> c_char cs i = 0 \<longleftrightarrow> length cs \<le> unat i"
  by (auto simp: c_char_def not_less dest: nth_mem)

text \<open>A path field: the path padded with zeros to 32 bytes.\<close>

definition path_field :: "mem \<Rightarrow> ptr \<Rightarrow> u8 list \<Rightarrow> bool" where
  "path_field m e p \<longleftrightarrow> length p < 32 \<and> 0 \<notin> set p \<and> (\<forall>i < 32. m (e + i) = c_char p i)"

lemma same_length:
  assumes "0 \<notin> set p" "0 \<notin> set q" "c_char q i = 0" "c_char p i = 0" "\<And>j. j < i \<Longrightarrow> c_char p j = c_char q j \<and> c_char q j \<noteq> 0"
  shows "q = p"
proof -
  have "length cs = unat i" if "0 \<notin> set cs" "c_char cs i = 0" "\<And>j. j < i \<Longrightarrow> c_char cs j \<noteq> 0" for cs
  proof (rule antisym)
    show "length cs \<le> unat i" using that c_char_zero by blast
    show "unat i \<le> length cs"
    proof (rule ccontr)
      assume l: "\<not> unat i \<le> length cs"
      then have "unat (word_of_nat (length cs) :: u32) = length cs"
        using u32_bound [of i] by (simp add: unat_of_nat)
      then show False using that(3) [of "word_of_nat (length cs)"] l
        by (simp add: word_less_nat_alt c_char_def)
    qed
  qed
  then have l: "length p = unat i" "length q = unat i" using assms by auto
  show ?thesis
  proof (rule nth_equalityI)
    fix k assume "k < length q"
    then have k: "k < unat i" using l by simp
    then have "unat (word_of_nat k :: u32) = k" using u32_bound [of i] by (simp add: unat_of_nat)
    then show "q ! k = p ! k" using assms(5) [of "word_of_nat k"] k l by (simp add: word_less_nat_alt c_char_def)
  qed (use l in simp)
qed

lemma path_matches_iff:
  assumes f: "path_field m e p" and q: "0 \<notin> set q"
  shows "path_matches m e q \<longleftrightarrow> q = p"
proof
  assume "path_matches m e q"
  then obtain i where i: "first_u32 0 EMXA_PATH_SIZE (\<lambda>i. m (e + i) \<noteq> c_char q i \<or> c_char q i = 0) = Some i"
      "m (e + i) = c_char q i" by (auto simp: path_matches_def split: option.splits if_splits)
  note F = first_u32_SomeD [OF i(1)]
  have eq: "c_char p j = m (e + j)" if "j \<le> i" for j
    using f F that by (auto simp: path_field_def EMXA_PATH_SIZE_def dest: order.strict_trans1)
  show "q = p"
    by (rule same_length [of _ _ i]) (use f q F i(2) eq in \<open>auto simp: path_field_def\<close>)
next
  assume "q = p"
  let ?i = "word_of_nat (length p) :: u32"
  have l: "length p < 32" "0 \<notin> set p" and c: "\<And>i. i < 32 \<Longrightarrow> m (e + i) = c_char p i"
    using f by (auto simp: path_field_def)
  have u: "unat ?i = length p" using l by (simp add: unat_of_nat)
  have i: "?i < 32" using l u by (simp add: word_less_nat_alt)
  have z: "c_char p ?i = 0" using u by (simp add: c_char_def)
  have nz: "c_char p j \<noteq> 0" if "j < ?i" for j
    using that u l(2) by (auto simp: c_char_zero word_less_nat_alt)
  have "first_u32 0 EMXA_PATH_SIZE (\<lambda>i. m (e + i) \<noteq> c_char p i \<or> c_char p i = 0) = Some ?i"
    by (rule first_u32_eqI) (use i z nz c in \<open>auto simp: EMXA_PATH_SIZE_def dest: less_trans\<close>)
  then show "path_matches m e q" using c [OF i] \<open>q = p\<close> by (simp add: path_matches_def)
qed

section \<open>The header and the entries\<close>

lemma header_SomeD:
  assumes "initramfs_header s = Some (archive, sz, count)"
  shows "archive = module_start s" "sz = module_size s" "archive \<noteq> 0"
    "8 + 40 * unat count \<le> unat sz" "count = read_le32 (kmem s) (archive + 4)"
proof -
  have h: "archive = module_start s" "sz = module_size s" "archive \<noteq> 0" "\<not> sz < 8"
    "\<not> count > (sz - 8) div 40" "count = read_le32 (kmem s) (archive + 4)"
    using assms by (auto simp: initramfs_header_def Let_def boot_module_start_def boot_module_size_def emxa_consts
        split: if_splits)
  then show "archive = module_start s" "sz = module_size s" "archive \<noteq> 0" "count = read_le32 (kmem s) (archive + 4)"
    by simp_all
  have z: "8 \<le> unat sz" using h(4) by (simp add: word_less_nat_alt)
  then have "unat (sz - 8) = unat sz - 8" using h(4) by (simp add: unat_sub_if_size word_less_nat_alt word_size)
  then have "unat count \<le> (unat sz - 8) div 40"
    using h(5) by (simp add: word_less_nat_alt unat_div)
  then have "40 * unat count \<le> unat sz - 8" by linarith
  then show "8 + 40 * unat count \<le> unat sz" using z by linarith
qed

text \<open>The addresses of the boot module.\<close>

definition in_module :: "'a boot_state_scheme \<Rightarrow> u32 set" where
  "in_module s = {x. x - module_start s < module_size s}"

lemma in_moduleI: "k < unat (module_size s) \<Longrightarrow> module_start s + word_of_nat k \<in> in_module s"
  using u32_bound [of "module_size s"] by (simp add: in_module_def word_less_nat_alt unat_of_nat)

lemma entry_in_module:
  assumes "initramfs_header s = Some (archive, sz, count)" "i < count" "unat k < 40"
  shows "archive_entry archive i + k \<in> in_module s"
proof -
  note H = header_SomeD [OF assms(1)]
  have i: "unat i < unat count" using assms(2) by (simp add: word_less_nat_alt)
  have "archive_entry archive i + k = module_start s + word_of_nat (8 + 40 * unat i + unat k)"
    by (simp add: archive_entry_def emxa_consts H(1) ac_simps)
  moreover have "8 + 40 * unat i + unat k < unat (module_size s)" using H(4) i assms(3) unfolding H(2) by linarith
  ultimately show ?thesis using in_moduleI by metis
qed

lemma le32_in_module:
  assumes "\<And>k. unat k < 4 \<Longrightarrow> a + k \<in> in_module s" "\<And>x. x \<in> in_module s \<Longrightarrow> m x = kmem s x"
  shows "read_le32 m a = read_le32 (kmem s) a"
  using assms(1) [of 0] assms(1) [of 1] assms(1) [of 2] assms(1) [of 3] assms(2) by (simp add: read_le32_def)

lemma header_local:
  assumes "module_start t = module_start s" "module_size t = module_size s"
    and "\<And>x. x \<in> in_module s \<Longrightarrow> kmem t x = kmem s x"
  shows "initramfs_header t = initramfs_header s"
proof (cases "module_size s < 8")
  case False
  then have z: "8 \<le> unat (module_size s)" by (simp add: word_less_nat_alt)
  have m: "kmem t (module_start s + word_of_nat k) = kmem s (module_start s + word_of_nat k)" if "k < 8" for k
    using assms(3) in_moduleI [of k s] that z by simp
  have "module_start s + 4 + k \<in> in_module s" if "unat k < 4" for k
    using in_moduleI [of "4 + unat k" s] that z by (simp add: ac_simps)
  then have "read_le32 (kmem t) (module_start s + 4) = read_le32 (kmem s) (module_start s + 4)"
    using assms(3) by (rule le32_in_module)
  then show ?thesis
    using m [of 0] m [of 1] m [of 2] m [of 3] assms(1,2)
    by (simp add: initramfs_header_def boot_module_start_def boot_module_size_def Let_def)
qed (use assms in \<open>simp add: initramfs_header_def boot_module_start_def boot_module_size_def EMXA_HEADER_SIZE_def\<close>)

lemma path_local:
  assumes "\<And>k. unat k < 32 \<Longrightarrow> m (e + k) = m' (e + k)"
  shows "path_matches m e p = path_matches m' e p"
proof -
  let ?P = "\<lambda>m i. m (e + i) \<noteq> c_char p i \<or> c_char p i = 0"
  have eq: "first_u32 0 32 (?P m) = first_u32 0 32 (?P m')"
    using assms by (intro first_u32_cong) (simp add: word_less_nat_alt)
  show ?thesis
  proof (cases "first_u32 0 32 (?P m')")
    case (Some i)
    then have "unat i < 32" using first_u32_SomeD [OF Some] by (simp add: word_less_nat_alt)
    then show ?thesis unfolding path_matches_def EMXA_PATH_SIZE_def eq Some using assms by simp
  next
    case None
    show ?thesis unfolding path_matches_def EMXA_PATH_SIZE_def eq None by simp
  qed
qed

lemma find_local:
  assumes "module_start t = module_start s" "module_size t = module_size s"
    and same: "\<And>x. x \<in> in_module s \<Longrightarrow> kmem t x = kmem s x"
  shows "initramfs_find path t = initramfs_find path s"
proof (cases path)
  case (Some p)
  have h: "initramfs_header t = initramfs_header s" using assms by (intro header_local)
  show ?thesis
  proof (cases "initramfs_header s")
    case hd: (Some r)
    obtain archive sz count where r: "r = (archive, sz, count)" by (cases r)
    note E = entry_in_module [OF hd [unfolded r]]
    let ?e = "archive_entry archive"
    have F: "first_u32 0 count (\<lambda>i. path_matches (kmem t) (?e i) p) = first_u32 0 count (\<lambda>i. path_matches (kmem s) (?e i) p)"
      by (intro first_u32_cong path_local) (simp add: same E)
    have R: "read_le32 (kmem t) (?e i + 32) = read_le32 (kmem s) (?e i + 32)"
        "read_le32 (kmem t) (?e i + 32 + 4) = read_le32 (kmem s) (?e i + 32 + 4)" if "i < count" for i
    proof -
      have k: "unat (32 + k) < 40" "unat (32 + (4 + k)) < 40" if "unat k < 4" for k :: u32
        using that by (simp_all add: unat_word_ariths)
      show "read_le32 (kmem t) (?e i + 32) = read_le32 (kmem s) (?e i + 32)"
        by (rule le32_in_module [OF _ same]) (use E [OF that k(1)] in \<open>simp_all add: add.assoc\<close>)
      show "read_le32 (kmem t) (?e i + 32 + 4) = read_le32 (kmem s) (?e i + 32 + 4)"
        by (rule le32_in_module [OF _ same]) (use E [OF that k(2)] in \<open>simp_all only: add.assoc\<close>)
    qed
    show ?thesis
    proof (cases "first_u32 0 count (\<lambda>i. path_matches (kmem s) (?e i) p)")
      case found: (Some i)
      then have "i < count" using first_u32_SomeD by blast
      then show ?thesis unfolding initramfs_find_def Some option.case h hd r prod.case F found
        EMXA_PATH_SIZE_def Let_def by (simp only: R)
    qed (unfold initramfs_find_def Some option.case h hd r prod.case F, simp)
  qed (simp add: initramfs_find_def Some h)
qed (simp add: initramfs_find_def)

lemma find_bounds:
  assumes "initramfs_find path s = Some (d, n)"
  shows "module_start s \<noteq> 0" "unat (d - module_start s) + unat n \<le> unat (module_size s)"
proof -
  obtain archive sz count i where h: "initramfs_header s = Some (archive, sz, count)"
    and o: "let offset = read_le32 (kmem s) (archive_entry archive i + 32) in
      d = archive + offset \<and> \<not> offset > sz \<and> \<not> n > sz - offset"
    using assms by (auto simp: initramfs_find_def Let_def EMXA_PATH_SIZE_def split: option.splits if_splits)
  note H = header_SomeD [OF h]
  show "module_start s \<noteq> 0" using H by simp
  have "d - module_start s \<le> module_size s" "n \<le> module_size s - (d - module_start s)"
    using o H by (auto simp: Let_def not_less)
  then show "unat (d - module_start s) + unat n \<le> unat (module_size s)"
    by (simp add: word_le_nat_alt unat_sub)
qed

text \<open>The magic number is there and the table of files fits into the module.\<close>

definition archive_wf :: "'a boot_state_scheme \<Rightarrow> bool" where
  "archive_wf s \<longleftrightarrow> module_start s \<noteq> 0 \<and> map (\<lambda>k. kmem s (module_start s + k)) [0, 1, 2, 3] = map of_char ''EMXA'' \<and>
     8 + 40 * unat (read_le32 (kmem s) (module_start s + 4)) \<le> unat (module_size s)"

lemma header_wf: "initramfs_header s = (if archive_wf s then Some (module_start s, module_size s, read_le32 (kmem s) (module_start s + 4)) else None)"
proof (cases "initramfs_header s")
  case None
  have "count \<le> (sz - 8) div 40" "\<not> sz < 8" if "8 + 40 * unat count \<le> unat sz" for count sz :: u32
  proof -
    have "unat (sz - 8) = unat sz - 8" using that by (simp add: unat_sub_if_size word_size)
    moreover have "40 * unat count \<le> unat sz - 8" using that by linarith
    then have "unat count \<le> (unat sz - 8) div 40" by linarith
    ultimately show "count \<le> (sz - 8) div 40" by (simp add: word_le_nat_alt unat_div)
    show "\<not> sz < 8" using that by (simp add: word_less_nat_alt)
  qed
  note fits = this [of "read_le32 (kmem s) (module_start s + 4)" "module_size s"]
  have "\<not> archive_wf s"
  proof
    assume w: "archive_wf s"
    then have "initramfs_header s \<noteq> None"
      using fits by (auto simp: archive_wf_def initramfs_header_def Let_def boot_module_start_def boot_module_size_def emxa_consts not_less)
    then show False using None by simp
  qed
  then show ?thesis using None by simp
next
  case (Some h)
  obtain archive sz count where h: "h = (archive, sz, count)" by (cases h)
  note H = header_SomeD [OF Some [unfolded h]]
  have "map (\<lambda>k. kmem s (module_start s + k)) [0, 1, 2, 3] = map of_char ''EMXA''"
    using Some by (auto simp: initramfs_header_def Let_def boot_module_start_def emxa_consts split: if_splits)
  then show ?thesis using H Some h by (simp add: archive_wf_def)
qed

lemma find_entry:
  assumes "initramfs_find path s = Some (d, n)"
  shows "\<exists>i < read_le32 (kmem s) (module_start s + 4). let e = module_start s + 8 + i * 40 in
    path_matches (kmem s) e (the path) \<and> d = module_start s + read_le32 (kmem s) (e + 32) \<and> n = read_le32 (kmem s) (e + 36)"
  using assms by (auto simp: initramfs_find_def header_wf Let_def archive_entry_def emxa_consts add.assoc
      split: option.splits if_splits dest!: first_u32_SomeD)

section \<open>Reading what the encoder wrote\<close>

definition file_offset :: "(u8 list \<times> u8 list) list \<Rightarrow> nat \<Rightarrow> nat" where
  "file_offset files k = 8 + 40 * length files + length (concat (map snd (take k files)))"

definition paths_ok :: "(u8 list \<times> u8 list) list \<Rightarrow> bool" where
  "paths_ok files \<longleftrightarrow> (\<forall>f \<in> set files. 0 \<notin> set (fst f))"

definition entry_bytes :: "nat \<Rightarrow> u8 list \<times> u8 list \<Rightarrow> u8 list" where
  "entry_bytes off f = fst f @ replicate (32 - length (fst f)) 0 @ le32 off @ le32 (length (snd f))"

lemma entries_length:
  "\<forall>f \<in> set files. length (fst f) < 32 \<Longrightarrow> length (emxa_entries off files) = 40 * length files"
  by (induction off files rule: emxa_entries.induct) auto

lemma entries_drop:
  assumes "\<forall>f \<in> set files. length (fst f) < 32" "k < length files"
  shows "\<exists>rest. drop (40 * k) (emxa_entries off files) =
    entry_bytes (off + length (concat (map snd (take k files)))) (files ! k) @ rest"
  using assms
proof (induction off files arbitrary: k rule: emxa_entries.induct)
  case (2 off path contents files)
  show ?case
  proof (cases k)
    case (Suc j)
    have l: "length (path @ replicate (32 - length path) 0 @ le32 off @ le32 (length contents)) = 40"
      using "2.prems"(1) by simp
    have "drop (40 * k) (emxa_entries off ((path, contents) # files)) =
        drop (40 * j) (emxa_entries (off + length contents) files)"
      using l Suc by (simp add: drop_append)
    then show ?thesis using "2.IH" [of j] "2.prems" Suc by (auto simp: add.assoc)
  qed (simp add: entry_bytes_def)
qed simp

lemma emxa_encodeD:
  assumes "emxa_encode files = Some enc"
  shows "\<forall>f \<in> set files. length (fst f) < 32"
    "enc = map of_char ''EMXA'' @ le32 (length files) @
       emxa_entries (8 + 40 * length files) files @ concat (map snd files)"
  using assms by (auto simp: emxa_encode_def not_le split: if_splits)

lemma encoded_parts:
  assumes e: "emxa_encode files = Some enc" and b: "bytes_at m a enc"
  shows "bytes_at m a (map of_char ''EMXA'')" "bytes_at m (a + 4) (le32 (length files))"
    "k < length files \<Longrightarrow> bytes_at m (a + 8 + word_of_nat (40 * k)) (entry_bytes (file_offset files k) (files ! k))"
    "k < length files \<Longrightarrow> bytes_at m (a + word_of_nat (file_offset files k)) (snd (files ! k))"
    "length enc = 8 + 40 * length files + length (concat (map snd files))"
proof -
  note E = emxa_encodeD [OF e]
  let ?E = "emxa_entries (8 + 40 * length files) files" and ?D = "concat (map snd files)"
  have l: "length ?E = 40 * length files" using entries_length [OF E(1)] .
  show len: "length enc = 8 + 40 * length files + length (concat (map snd files))" by (simp add: E(2) l)
  have parts: "bytes_at m a (map of_char ''EMXA'')" "bytes_at m (a + 4) (le32 (length files))"
      "bytes_at m (a + 8) (?E @ ?D)"
    using b unfolding E(2) bytes_at_append by (simp_all add: add.assoc)
  then show "bytes_at m a (map of_char ''EMXA'')" "bytes_at m (a + 4) (le32 (length files))" by simp_all
  have ed: "bytes_at m (a + 8) ?E" "bytes_at m (a + 8 + word_of_nat (40 * length files)) ?D"
    using parts(3) by (simp_all only: bytes_at_append l)
  show "bytes_at m (a + 8 + word_of_nat (40 * k)) (entry_bytes (file_offset files k) (files ! k))" if k: "k < length files"
  proof -
    have "bytes_at m (a + 8 + word_of_nat (40 * k)) (drop (40 * k) ?E)"
      by (rule bytes_at_drop [OF ed(1)]) (use k l in simp)
    then show ?thesis using entries_drop [OF E(1) k, of "8 + 40 * length files"]
      by (auto simp: file_offset_def bytes_at_append)
  qed
  show "bytes_at m (a + word_of_nat (file_offset files k)) (snd (files ! k))" if k: "k < length files"
  proof -
    let ?n = "length (concat (map snd (take k files)))"
    have "?D = concat (map snd (take k files)) @ snd (files ! k) @ concat (map snd (drop (Suc k) files))"
      by (subst id_take_nth_drop [OF k]) simp
    then have "bytes_at m (a + 8 + word_of_nat (40 * length files) + word_of_nat ?n) (snd (files ! k))"
      using ed(2) by (simp add: bytes_at_append)
    then show ?thesis by (simp add: file_offset_def ac_simps)
  qed
qed

lemma offset_bound:
  assumes "k < length files"
  shows "file_offset files k + length (snd (files ! k)) \<le> 8 + 40 * length files + length (concat (map snd files))"
proof -
  have "concat (map snd files) =
      concat (map snd (take k files)) @ snd (files ! k) @ concat (map snd (drop (Suc k) files))"
    by (subst id_take_nth_drop [OF assms]) simp
  then show ?thesis by (simp add: file_offset_def)
qed

lemma field_of_entry:
  assumes "bytes_at m e (entry_bytes off f)" "length (fst f) < 32" "0 \<notin> set (fst f)"
    and "off < 4294967296" "length (snd f) < 4294967296"
  shows "path_field m e (fst f)" "read_le32 m (e + 32) = word_of_nat off"
    "read_le32 m (e + 32 + 4) = word_of_nat (length (snd f))"
proof -
  let ?p = "fst f @ replicate (32 - length (fst f)) 0"
  have l: "length ?p = 32" using assms(2) by simp
  have "bytes_at m e (?p @ le32 off @ le32 (length (snd f)))" using assms(1) by (simp add: entry_bytes_def)
  then have parts: "bytes_at m e ?p" "bytes_at m (e + 32) (le32 off)" "bytes_at m (e + 32 + 4) (le32 (length (snd f)))"
    unfolding bytes_at_append [of m e ?p] l by (simp_all add: bytes_at_append)
  show "read_le32 m (e + 32) = word_of_nat off" "read_le32 m (e + 32 + 4) = word_of_nat (length (snd f))"
    using parts(2,3) assms(4,5) by (auto intro: read_le32_le32)
  have "m (e + i) = c_char (fst f) i" if "i < 32" for i
  proof -
    have u: "unat i < 32" using that by (simp add: word_less_nat_alt)
    then have "m (e + word_of_nat (unat i)) = ?p ! unat i" using bytes_at_nth [OF parts(1), of "unat i"] l by simp
    then show ?thesis using u by (auto simp: c_char_def nth_append)
  qed
  then show "path_field m e (fst f)" using assms by (simp add: path_field_def)
qed

text \<open>The module holds the encoding of \<open>files\<close>.\<close>

definition holds_archive :: "'a boot_state_scheme \<Rightarrow> (u8 list \<times> u8 list) list \<Rightarrow> bool" where
  "holds_archive s files \<longleftrightarrow> module_start s \<noteq> 0 \<and> paths_ok files \<and>
     (\<exists>enc. emxa_encode files = Some enc \<and> unat (module_size s) = length enc \<and>
        bytes_at (kmem s) (module_start s) enc)"

lemma archive_header:
  assumes "holds_archive s files"
  shows "initramfs_header s = Some (module_start s, module_size s, word_of_nat (length files))"
    "unat (word_of_nat (length files) :: u32) = length files"
proof -
  obtain enc where e: "emxa_encode files = Some enc" "unat (module_size s) = length enc"
      "bytes_at (kmem s) (module_start s) enc" and z: "module_start s \<noteq> 0"
    using assms by (auto simp: holds_archive_def)
  note P = encoded_parts [OF e(1,3)]
  have n: "8 + 40 * length files \<le> unat (module_size s)" using e(2) P(5) by simp
  then show u: "unat (word_of_nat (length files) :: u32) = length files"
    using u32_bound [of "module_size s"] by (simp add: unat_of_nat)
  have "length files < 4294967296" using n u32_bound [of "module_size s"] by linarith
  then have c: "read_le32 (kmem s) (module_start s + 4) = word_of_nat (length files)"
    using read_le32_le32 [OF P(2)] by simp
  have magic: "kmem s (module_start s + word_of_nat i) = map of_char ''EMXA'' ! i" if "i < 4" for i
    using bytes_at_nth [OF P(1), of i] that by simp
  have "unat (module_size s - 8) = unat (module_size s) - 8"
    using n by (simp add: unat_sub word_le_nat_alt)
  then have "\<not> word_of_nat (length files) > (module_size s - 8) div 40" "\<not> module_size s < 8"
    using n u by (simp_all add: word_less_nat_alt unat_div)
  then show "initramfs_header s = Some (module_start s, module_size s, word_of_nat (length files))"
    using z c magic [of 0] magic [of 1] magic [of 2] magic [of 3]
    by (simp add: initramfs_header_def boot_module_start_def boot_module_size_def emxa_consts)
qed

lemma archive_file:
  assumes "holds_archive s files" "k < length files"
  defines "e \<equiv> archive_entry (module_start s) (word_of_nat k)" and "f \<equiv> files ! k"
  shows "path_field (kmem s) e (fst f)" "read_le32 (kmem s) (e + 32) = word_of_nat (file_offset files k)"
    "read_le32 (kmem s) (e + 32 + 4) = word_of_nat (length (snd f))"
    "bytes_at (kmem s) (module_start s + word_of_nat (file_offset files k)) (snd f)"
    "file_offset files k + length (snd f) \<le> unat (module_size s)"
proof -
  obtain enc where enc: "emxa_encode files = Some enc" "unat (module_size s) = length enc"
      "bytes_at (kmem s) (module_start s) enc" and ok: "paths_ok files"
    using assms(1) by (auto simp: holds_archive_def)
  note P = encoded_parts [OF enc(1,3)]
  have f: "f \<in> set files" using assms(2) by (simp add: f_def)
  show b: "file_offset files k + length (snd f) \<le> unat (module_size s)"
    using offset_bound [OF assms(2)] enc(2) P(5) by (simp add: f_def)
  have e: "e = module_start s + 8 + word_of_nat (40 * k)" by (simp add: e_def archive_entry_def emxa_consts)
  have "bytes_at (kmem s) e (entry_bytes (file_offset files k) f)" using P(3) [OF assms(2)] by (simp add: e f_def)
  note F = field_of_entry [OF this]
  have "length (fst f) < 32" "0 \<notin> set (fst f)" using emxa_encodeD(1) [OF enc(1)] ok f by (auto simp: paths_ok_def)
  then show "path_field (kmem s) e (fst f)" "read_le32 (kmem s) (e + 32) = word_of_nat (file_offset files k)"
      "read_le32 (kmem s) (e + 32 + 4) = word_of_nat (length (snd f))"
    using F b u32_bound [of "module_size s"] by simp_all
  show "bytes_at (kmem s) (module_start s + word_of_nat (file_offset files k)) (snd f)"
    using P(4) [OF assms(2)] by (simp add: f_def)
qed

lemma find_archive:
  assumes a: "holds_archive s files" and p: "0 \<notin> set p"
  shows "k < length files \<Longrightarrow> fst (files ! k) = p \<Longrightarrow> (\<And>j. j < k \<Longrightarrow> fst (files ! j) \<noteq> p) \<Longrightarrow>
      initramfs_find (Some p) s =
        Some (module_start s + word_of_nat (file_offset files k), word_of_nat (length (snd (files ! k))))"
    "(\<And>f. f \<in> set files \<Longrightarrow> fst f \<noteq> p) \<Longrightarrow> initramfs_find (Some p) s = None"
proof -
  note H = archive_header [OF a]
  let ?n = "word_of_nat (length files) :: u32" and ?e = "archive_entry (module_start s)"
  let ?M = "\<lambda>i. path_matches (kmem s) (?e i) p"
  have pm: "?M i \<longleftrightarrow> fst (files ! unat i) = p" if "i < ?n" for i
  proof -
    have "unat i < length files" using that H(2) by (simp add: word_less_nat_alt)
    then show ?thesis using path_matches_iff [OF archive_file(1) [OF a, of "unat i"] p] by auto
  qed
  show "initramfs_find (Some p) s =
        Some (module_start s + word_of_nat (file_offset files k), word_of_nat (length (snd (files ! k))))"
    if k: "k < length files" "fst (files ! k) = p" "\<And>j. j < k \<Longrightarrow> fst (files ! j) \<noteq> p"
  proof -
    let ?k = "word_of_nat k :: u32"
    have u: "unat ?k = k" using k(1) H(2) u32_bound [of ?n] by (simp add: unat_of_nat)
    have kn: "?k < ?n" using u k(1) H(2) by (simp add: word_less_nat_alt)
    have "first_u32 0 ?n ?M = Some ?k"
    proof (rule first_u32_eqI)
      show "?M ?k" using pm [OF kn] u k(2) by simp
      fix j assume "j < ?k"
      then show "\<not> ?M j" using pm [of j] k(3) [of "unat j"] kn u by (auto simp: word_less_nat_alt)
    qed (use kn in simp_all)
    moreover note A = archive_file [OF a k(1)]
    moreover have b: "unat (word_of_nat (file_offset files k) :: u32) = file_offset files k"
        "unat (word_of_nat (length (snd (files ! k))) :: u32) = length (snd (files ! k))"
      using A(5) u32_bound [of "module_size s"] by (simp_all add: unat_of_nat)
    moreover have "\<not> (word_of_nat (file_offset files k) > module_size s)"
      using A(5) b by (simp add: word_less_nat_alt)
    moreover from this have "\<not> (word_of_nat (length (snd (files ! k))) > module_size s - word_of_nat (file_offset files k))"
      using A(5) b by (simp add: word_less_nat_alt not_less unat_sub word_le_nat_alt)
    ultimately show ?thesis by (simp add: initramfs_find_def H(1) EMXA_PATH_SIZE_def Let_def)
  qed
  show "initramfs_find (Some p) s = None" if "\<And>f. f \<in> set files \<Longrightarrow> fst f \<noteq> p"
  proof (cases "first_u32 0 ?n ?M")
    case (Some i)
    then have "i < ?n" "?M i" using first_u32_SomeD [OF Some] by simp_all
    then have "fst (files ! unat i) = p" "unat i < length files" using pm H(2) by (auto simp: word_less_nat_alt)
    then show ?thesis using that by auto
  qed (simp add: initramfs_find_def H(1))
qed

section \<open>Properties\<close>

text \<open>
  C23: the archive reader inverts the archive writer.  When the boot module holds the encoding of
  a list of files, \<open>initramfs_find\<close> returns for a path the contents of the first file with that
  path, and -1 when no file has it.
\<close>

theorem initramfs_find_encoded:
  assumes "holds_archive s files" "0 \<notin> set p"
  shows "if \<exists>f \<in> set files. fst f = p
    then \<exists>k d n. k < length files \<and> fst (files ! k) = p \<and> (\<forall>j < k. fst (files ! j) \<noteq> p) \<and>
      initramfs_find (Some p) s = Some (d, n) \<and> unat n = length (snd (files ! k)) \<and>
      bytes_at (kmem s) d (snd (files ! k))
    else initramfs_find (Some p) s = None"
proof (cases "\<exists>f \<in> set files. fst f = p")
  case True
  then have ex: "\<exists>k. k < length files \<and> fst (files ! k) = p" by (metis in_set_conv_nth)
  define k where "k = (LEAST k. k < length files \<and> fst (files ! k) = p)"
  have k: "k < length files" "fst (files ! k) = p" using LeastI_ex [OF ex] by (simp_all add: k_def)
  have j: "fst (files ! j) \<noteq> p" if "j < k" for j
    using not_less_Least [of j "\<lambda>k. k < length files \<and> fst (files ! k) = p"] that k(1) by (simp add: k_def)
  note A = archive_file [OF assms(1) k(1)]
  have "unat (word_of_nat (length (snd (files ! k))) :: u32) = length (snd (files ! k))"
    using A(5) u32_bound [of "module_size s"] by (simp add: unat_of_nat)
  then show ?thesis using True find_archive(1) [OF assms k j] k j A(4) by auto
qed (use find_archive(2) [OF assms] in auto)

text \<open>
  C24: \<open>initramfs_find\<close> is safe on any bytes.  It reads no byte outside the boot module; without a
  module, with a wrong magic number or with a table of files that does not fit into the module it
  is an error; and what it returns is the place and length of a file that an entry of the table
  records, all of it inside the module.
\<close>

theorem initramfs_find_in_bounds:
  fixes s t :: "'a boot_state_scheme"
  assumes "module_start t = module_start s" "module_size t = module_size s"
    and "\<And>x. x - module_start s < module_size s \<Longrightarrow> kmem t x = kmem s x"
  shows "initramfs_find path t = initramfs_find path s \<and> (\<not> archive_wf s \<longrightarrow> initramfs_find path s = None) \<and>
    (\<forall>d n. initramfs_find path s = Some (d, n) \<longrightarrow> unat (d - module_start s) + unat n \<le> unat (module_size s) \<and>
       (\<exists>i < read_le32 (kmem s) (module_start s + 4). let e = module_start s + 8 + i * 40 in
          path_matches (kmem s) e (the path) \<and> d = module_start s + read_le32 (kmem s) (e + 32) \<and> n = read_le32 (kmem s) (e + 36)))"
proof (intro conjI allI impI)
  show "initramfs_find path t = initramfs_find path s" using find_local [of t s path] assms by (simp add: in_module_def)
  show "\<not> archive_wf s \<Longrightarrow> initramfs_find path s = None" by (simp add: initramfs_find_def header_wf split: option.split)
qed (use find_bounds(2) find_entry in blast)+

section \<open>A concrete archive\<close>

definition small_archive :: boot_state where
  "small_archive = heap_state.extend (vmm_state.extend small_vm \<lparr>heap_list = 0\<rparr>)
     \<lparr>module_start = 0xC0006000, module_size = 51\<rparr>
     \<lparr>kmem := \<lambda>x. if x - 0xC0006000 < 51
        then (map of_char ''EMXA'' @ le32 1 @ [47, 97] @ replicate 30 0 @ le32 48 @ le32 3 @ [7, 8, 9]) ! unat (x - 0xC0006000)
        else 0\<rparr>"

lemma small_archive_holds: "holds_archive small_archive [([47, 97], [7, 8, 9])]"
proof -
  let ?enc = "map of_char ''EMXA'' @ le32 1 @ [47, 97] @ replicate 30 0 @ le32 48 @ le32 3 @ [7, 8, 9]"
  have "emxa_encode [([47, 97], [7, 8, 9])] = Some ?enc" by (simp add: emxa_encode_def numeral_3_eq_3)
  moreover have "bytes_at (kmem small_archive) 0xC0006000 ?enc"
    unfolding bytes_at_def by (auto simp: small_archive_def word_less_nat_alt unat_of_nat)
  moreover have "module_start small_archive = 0xC0006000" "module_size small_archive = 51"
    by (simp_all add: small_archive_def heap_state.defs)
  ultimately show ?thesis by (simp add: holds_archive_def paths_ok_def)
qed

theorem initramfs_find_encoded_witness:
  "\<exists>d n. initramfs_find (Some [47, 97]) small_archive = Some (d, n) \<and> unat n = 3 \<and>
     bytes_at (kmem small_archive) d [7, 8, 9] \<and> initramfs_find (Some [47]) small_archive = None"
  using initramfs_find_encoded [OF small_archive_holds, of "[47, 97]"]
    initramfs_find_encoded [OF small_archive_holds, of "[47]"] by auto

theorem initramfs_find_in_bounds_witness:
  "initramfs_find (Some [47, 97]) (small_archive\<lparr>kmem := (kmem small_archive)(0xC0006033 := 1)\<rparr>) =
     initramfs_find (Some [47, 97]) small_archive \<and>
   initramfs_find (Some [47, 97]) (small_archive\<lparr>kmem := (kmem small_archive)(0xC0006000 := 1)\<rparr>) = None"
proof -
  have m: "module_start small_archive = 0xC0006000" "module_size small_archive = 51"
    by (simp_all add: small_archive_def heap_state.defs)
  show ?thesis
  proof
    show "initramfs_find (Some [47, 97]) (small_archive\<lparr>kmem := (kmem small_archive)(0xC0006033 := 1)\<rparr>) = initramfs_find (Some [47, 97]) small_archive"
      by (rule initramfs_find_in_bounds [THEN conjunct1]) (auto simp: m)
    let ?s = "small_archive\<lparr>kmem := (kmem small_archive)(0xC0006000 := 1)\<rparr>"
    have "\<not> archive_wf ?s" by (simp add: archive_wf_def m)
    then show "initramfs_find (Some [47, 97]) ?s = None" using initramfs_find_in_bounds [of ?s ?s "Some [47, 97]"] by simp
  qed
qed

end
