(* ===== verification/Gdt.thy ===== *)
theory Gdt
  imports Initramfs
begin

text \<open>
  Segment and interrupt descriptors (\<open>kernel/arch/i386/gdt.c\<close>, \<open>idt.c\<close>).  Addresses the
  linker assigns (the tables, the assembly stubs, the boot stack) are the fields of
  \<open>linker_symbols\<close>, an argument of the functions that use them.  The theorems decode the
  tables the way the processor does.
\<close>

section \<open>State\<close>

record gdt_descriptor =
  limit_low :: u16
  base_low :: u16
  base_middle :: u8
  access :: u8
  granularity :: u8
  base_high :: u8

record gdt_ptr =
  gdtr_limit :: u16
  gdtr_base :: u32

record i386_tss =
  prev_tss :: u32
  esp0 :: u32
  ss0 :: u32
  esp1 :: u32
  ss1 :: u32
  esp2 :: u32
  ss2 :: u32
  tss_cr3 :: u32
  tss_eip :: u32
  tss_eflags :: u32
  tss_eax :: u32
  tss_ecx :: u32
  tss_edx :: u32
  tss_ebx :: u32
  tss_esp :: u32
  tss_ebp :: u32
  tss_esi :: u32
  tss_edi :: u32
  tss_es :: u32
  tss_cs :: u32
  tss_ss :: u32
  tss_ds :: u32
  tss_fs :: u32
  tss_gs :: u32
  ldt :: u32
  trap :: u16
  iopb :: u16

record idt_descriptor =
  offset_low :: u16
  selector :: u16
  zero :: u8
  flags :: u8
  offset_high :: u16

record idt_ptr =
  idtr_limit :: u16
  idtr_base :: u32

record linker_symbols =
  sym_stack_top :: u32
  sym_gdt :: u32
  sym_tss :: u32
  sym_idt :: u32
  sym_isr_stub :: u32
  sym_syscall_stub :: u32
  sym_ex :: "nat \<Rightarrow> u32"
  sym_irq :: "nat \<Rightarrow> u32"
  sym_kthread_trampoline :: u32

text \<open>
  The tables, and the registers the flush routines load: \<open>lgdt\<close>, the segment registers, \<open>ltr\<close>
  and \<open>lidt\<close>.
\<close>

record desc_state = boot_state +
  gdt :: "gdt_descriptor list"
  gdtr :: gdt_ptr
  tss :: i386_tss
  idt :: "idt_descriptor list"
  idtr :: idt_ptr
  cpu_gdtr :: gdt_ptr
  cpu_idtr :: idt_ptr
  seg_code :: u16
  seg_data :: u16
  task_register :: u16

definition GDT_KERNEL_CODE :: u16 where "GDT_KERNEL_CODE = 0x08"
definition GDT_KERNEL_DATA :: u16 where "GDT_KERNEL_DATA = 0x10"
definition GDT_USER_CODE :: u16 where "GDT_USER_CODE = 0x18"
definition GDT_USER_DATA :: u16 where "GDT_USER_DATA = 0x20"
definition GDT_TSS :: u16 where "GDT_TSS = 0x28"

definition TSS_ACCESS :: u8 where "TSS_ACCESS = 0x89"
definition TSS_FLAGS :: u8 where "TSS_FLAGS = 0x00"
definition SEGMENT_LIMIT_4G :: u32 where "SEGMENT_LIMIT_4G = 0xFFFFF"
definition SEGMENT_FLAGS_4K_32BIT :: u8 where "SEGMENT_FLAGS_4K_32BIT = 0xC0"

definition sizeof_tss :: u32 where "sizeof_tss = 104"
definition sizeof_gdt :: u32 where "sizeof_gdt = 48"
definition sizeof_idt :: u32 where "sizeof_idt = 2048"

lemmas gdt_consts = GDT_KERNEL_CODE_def GDT_KERNEL_DATA_def GDT_USER_CODE_def GDT_USER_DATA_def GDT_TSS_def
  TSS_ACCESS_def TSS_FLAGS_def SEGMENT_LIMIT_4G_def SEGMENT_FLAGS_4K_32BIT_def sizeof_tss_def sizeof_gdt_def
  sizeof_idt_def

section \<open>The global descriptor table\<close>

definition gdt_new_descriptor :: "u32 \<Rightarrow> u32 \<Rightarrow> u8 \<Rightarrow> u8 \<Rightarrow> gdt_descriptor" where
  "gdt_new_descriptor base limit acc fl =
     \<lparr>limit_low = ucast (limit AND 0x0000FFFF),
      base_low = ucast (base AND 0x0000FFFF),
      base_middle = ucast (drop_bit 16 (base AND 0x00FF0000)),
      access = acc,
      granularity = ucast ((ucast fl AND 0xF0) OR (drop_bit 16 limit AND 0x0F) :: u32),
      base_high = ucast (drop_bit 24 (base AND 0xFF000000))\<rparr>"

definition tss_init :: "linker_symbols \<Rightarrow> 'a desc_state_scheme \<Rightarrow> 'a desc_state_scheme" where
  "tss_init lk s =
     s\<lparr>tss := (tss s)\<lparr>ss0 := ucast GDT_KERNEL_DATA, esp0 := sym_stack_top lk, iopb := ucast sizeof_tss\<rparr>\<rparr>"

text \<open>\<open>gdt_flush.S\<close>: load the register, reload the data segments with 0x10 and the code segment with 0x08.\<close>

definition gdt_flush :: "gdt_ptr \<Rightarrow> 'a desc_state_scheme \<Rightarrow> 'a desc_state_scheme" where
  "gdt_flush p s = s\<lparr>cpu_gdtr := p, seg_data := 0x10, seg_code := 0x08\<rparr>"

definition tss_flush :: "u16 \<Rightarrow> 'a desc_state_scheme \<Rightarrow> 'a desc_state_scheme" where
  "tss_flush sel s = s\<lparr>task_register := sel\<rparr>"

definition gdt_init :: "linker_symbols \<Rightarrow> 'a desc_state_scheme \<Rightarrow> 'a desc_state_scheme" where
  "gdt_init lk s =
     (let s = tss_init lk s;
          s = s\<lparr>gdt := (gdt s)[0 := gdt_new_descriptor 0 0 0 0]\<rparr>;
          s = s\<lparr>gdt := (gdt s)[1 := gdt_new_descriptor 0 SEGMENT_LIMIT_4G 0x9A SEGMENT_FLAGS_4K_32BIT]\<rparr>;
          s = s\<lparr>gdt := (gdt s)[2 := gdt_new_descriptor 0 SEGMENT_LIMIT_4G 0x92 SEGMENT_FLAGS_4K_32BIT]\<rparr>;
          s = s\<lparr>gdt := (gdt s)[3 := gdt_new_descriptor 0 SEGMENT_LIMIT_4G 0xFA SEGMENT_FLAGS_4K_32BIT]\<rparr>;
          s = s\<lparr>gdt := (gdt s)[4 := gdt_new_descriptor 0 SEGMENT_LIMIT_4G 0xF2 SEGMENT_FLAGS_4K_32BIT]\<rparr>;
          s = s\<lparr>gdt := (gdt s)[5 := gdt_new_descriptor (sym_tss lk) (sizeof_tss - 1) TSS_ACCESS TSS_FLAGS]\<rparr>;
          s = s\<lparr>gdtr := (gdtr s)\<lparr>gdtr_base := sym_gdt lk\<rparr>\<rparr>;
          s = s\<lparr>gdtr := (gdtr s)\<lparr>gdtr_limit := ucast (sizeof_gdt - 1)\<rparr>\<rparr>;
          s = gdt_flush (gdtr s) s
      in tss_flush GDT_TSS s)"

definition tss_set_kernel_stack :: "u32 \<Rightarrow> 'a desc_state_scheme \<Rightarrow> 'a desc_state_scheme" where
  "tss_set_kernel_stack stk s = s\<lparr>tss := (tss s)\<lparr>esp0 := stk\<rparr>\<rparr>"

section \<open>The interrupt descriptor table\<close>

definition idt_new_descriptor :: "u32 \<Rightarrow> u16 \<Rightarrow> u8 \<Rightarrow> idt_descriptor" where
  "idt_new_descriptor offset sel fl =
     \<lparr>offset_low = ucast (offset AND 0x0000FFFF), selector = sel, zero = 0, flags = fl,
      offset_high = ucast (drop_bit 16 (offset AND 0xFFFF0000))\<rparr>"

definition idt_flush :: "idt_ptr \<Rightarrow> 'a desc_state_scheme \<Rightarrow> 'a desc_state_scheme" where
  "idt_flush p s = s\<lparr>cpu_idtr := p\<rparr>"

text \<open>The tables of stubs; \<open>sym_ex n\<close> and \<open>sym_irq n\<close> are the addresses of the assembly routines \<open>ex<n>\<close> and \<open>irq<n>\<close>.\<close>

definition exception_table :: "linker_symbols \<Rightarrow> u32 list" where
  "exception_table lk = map (sym_ex lk)
     [0, 1, 2, 3, 4, 5, 6, 7,
      8, 9, 10, 11, 12, 13, 14, 15,
      16, 17, 18, 19, 20, 21, 22, 23,
      24, 25, 26, 27, 28, 29, 30, 31]"

definition irq_table :: "linker_symbols \<Rightarrow> u32 list" where
  "irq_table lk = map (sym_irq lk)
     [0, 1, 2, 3, 4, 5, 6, 7,
      8, 9, 10, 11, 12, 13, 14, 15]"

definition idt_init :: "linker_symbols \<Rightarrow> 'a desc_state_scheme \<Rightarrow> 'a desc_state_scheme" where
  "idt_init lk s =
     (let s = for_u32 0 256 (\<lambda>i s. s\<lparr>idt := (idt s)[unat i :=
                idt_new_descriptor (sym_isr_stub lk) GDT_KERNEL_CODE 0x8E]\<rparr>) s;
          s = for_u32 0 32 (\<lambda>i s. s\<lparr>idt := (idt s)[unat i :=
                idt_new_descriptor (exception_table lk ! unat i) GDT_KERNEL_CODE 0x8E]\<rparr>) s;
          s = for_u32 0 16 (\<lambda>i s. s\<lparr>idt := (idt s)[unat i + 32 :=
                idt_new_descriptor (irq_table lk ! unat i) GDT_KERNEL_CODE 0x8E]\<rparr>) s;
          s = s\<lparr>idt := (idt s)[0x80 := idt_new_descriptor (sym_syscall_stub lk) GDT_KERNEL_CODE 0xEF]\<rparr>;
          s = s\<lparr>idtr := (idtr s)\<lparr>idtr_base := sym_idt lk\<rparr>\<rparr>;
          s = s\<lparr>idtr := (idtr s)\<lparr>idtr_limit := ucast (sizeof_idt - 1)\<rparr>\<rparr>
      in idt_flush (idtr s) s)"

section \<open>How the processor reads the tables\<close>

definition seg_base :: "gdt_descriptor \<Rightarrow> u32" where
  "seg_base d = ucast (base_low d) OR push_bit 16 (ucast (base_middle d)) OR push_bit 24 (ucast (base_high d))"

definition seg_limit :: "gdt_descriptor \<Rightarrow> u32" where
  "seg_limit d = ucast (limit_low d) OR push_bit 16 (ucast (granularity d) AND 0x0F)"

definition seg_dpl :: "gdt_descriptor \<Rightarrow> u8" where
  "seg_dpl d = drop_bit 5 (access d) AND 3"

definition seg_present :: "gdt_descriptor \<Rightarrow> bool" where
  "seg_present d \<longleftrightarrow> bit (access d) 7"

definition gate_offset :: "idt_descriptor \<Rightarrow> u32" where
  "gate_offset d = ucast (offset_low d) OR push_bit 16 (ucast (offset_high d))"

definition gate_dpl :: "idt_descriptor \<Rightarrow> u8" where
  "gate_dpl d = drop_bit 5 (flags d) AND 3"

definition gate_present :: "idt_descriptor \<Rightarrow> bool" where
  "gate_present d \<longleftrightarrow> bit (flags d) 7"

lemma byte_masks:
  "(0x0000FFFF :: u32) = mask 16" "(0x00FF0000 :: u32) = push_bit 16 (mask 8)" "(0xFF000000 :: u32) = push_bit 24 (mask 8)"
  "(0xFFFF0000 :: u32) = push_bit 16 (mask 16)" "(0x0F :: u32) = mask 4" "(0xF0 :: u32) = push_bit 4 (mask 4)"
  "(0xF0 :: u8) = push_bit 4 (mask 4)"
  by (simp_all add: mask_eq_exp_minus_1 push_bit_eq_mult)

lemma seg_decode:
  shows "seg_base (gdt_new_descriptor base limit acc fl) = base"
    "limit \<le> 0xFFFFF \<Longrightarrow> seg_limit (gdt_new_descriptor base limit acc fl) = limit"
    "access (gdt_new_descriptor base limit acc fl) = acc"
    "granularity (gdt_new_descriptor base limit acc fl) AND 0xF0 = fl AND 0xF0"
proof -
  show "access (gdt_new_descriptor base limit acc fl) = acc" by (simp add: gdt_new_descriptor_def)
  show "seg_base (gdt_new_descriptor base limit acc fl) = base"
    unfolding seg_base_def gdt_new_descriptor_def gdt_descriptor.simps byte_masks
  proof (rule bit_word_eqI)
    fix n :: nat assume "n < LENGTH(32)"
    then consider "n < 16" | "16 \<le> n" "n < 24" | "24 \<le> n" "n < 32" by fastforce
    then show "bit (ucast (ucast (base AND mask 16) :: u16) OR
        push_bit 16 (ucast (ucast (drop_bit 16 (base AND push_bit 16 (mask 8))) :: u8)) OR
        push_bit 24 (ucast (ucast (drop_bit 24 (base AND push_bit 24 (mask 8))) :: u8)) :: u32) n = bit base n"
      by cases (auto simp: bit_simps)
  qed
  show "granularity (gdt_new_descriptor base limit acc fl) AND 0xF0 = fl AND 0xF0"
    unfolding gdt_new_descriptor_def gdt_descriptor.simps byte_masks
    by (rule bit_word_eqI) (auto simp: bit_simps)
  show "seg_limit (gdt_new_descriptor base limit acc fl) = limit" if "limit \<le> 0xFFFFF"
  proof -
    have "take_bit 20 limit = limit"
      using that by (simp add: word_unat_eq_iff take_bit_eq_mod unat_mod word_le_nat_alt)
    then have top: "\<not> bit limit n" if "20 \<le> n" for n using that by (metis bit_take_bit_iff not_less)
    show ?thesis
      unfolding seg_limit_def gdt_new_descriptor_def gdt_descriptor.simps byte_masks
    proof (rule bit_word_eqI)
      fix n :: nat assume "n < LENGTH(32)"
      then consider "n < 16" | "16 \<le> n" "n < 20" | "20 \<le> n" by linarith
      then show "bit (ucast (ucast (limit AND mask 16) :: u16) OR
          push_bit 16 (ucast (ucast (ucast fl AND push_bit 4 (mask 4) OR drop_bit 16 limit AND mask 4 :: u32) :: u8) AND mask 4) :: u32) n
          = bit limit n"
        by cases (auto simp: bit_simps top)
    qed
  qed
qed

lemma gate_decode:
  "gate_offset (idt_new_descriptor off sel fl) = off"
  unfolding gate_offset_def idt_new_descriptor_def idt_descriptor.simps byte_masks
proof (rule bit_word_eqI)
  fix n :: nat assume "n < LENGTH(32)"
  then consider "n < 16" | "16 \<le> n" "n < 32" by fastforce
  then show "bit (ucast (ucast (off AND mask 16) :: u16) OR
      push_bit 16 (ucast (ucast (drop_bit 16 (off AND push_bit 16 (mask 16))) :: u16)) :: u32) n = bit off n"
    by cases (auto simp: bit_simps)
qed

text \<open>A loop that fills a stretch of a list.\<close>

lemma fill_list_loop:
  assumes "i \<le> n" "unat n + k \<le> length xs"
  shows "for_u32 i n (\<lambda>i xs. xs[unat i + k := f i]) xs =
    map (\<lambda>j. if unat i + k \<le> j \<and> j < unat n + k then f (word_of_nat (j - k)) else xs ! j) [0..<length xs]"
proof -
  let ?P = "\<lambda>m ys. ys = map (\<lambda>j. if unat i + k \<le> j \<and> j < unat m + k then f (word_of_nat (j - k)) else xs ! j) [0..<length xs]"
  have "?P n (for_u32 i n (\<lambda>i xs. xs[unat i + k := f i]) xs)"
  proof (rule for_u32_invariant [where P = ?P])
    show "?P i xs" by (rule nth_equalityI) auto
    fix m ys assume m: "i \<le> m" "m < n" "?P m ys"
    then show "?P (m + 1) (ys[unat m + k := f m])"
      using assms by (intro nth_equalityI) (auto simp: nth_list_update unat_inc word_le_nat_alt less_Suc_eq)
  qed (use assms in simp)
  then show ?thesis .
qed

lemma idt_loop:
  "idt (for_u32 i n (\<lambda>i s. s\<lparr>idt := (idt s)[unat i + k := f i]\<rparr>) s) =
     for_u32 i n (\<lambda>i xs. xs[unat i + k := f i]) (idt s)" for s :: "'a desc_state_scheme"
  by (induction i n "\<lambda>i s :: 'a desc_state_scheme. s\<lparr>idt := (idt s)[unat i + k := f i]\<rparr>" s rule: for_u32.induct)
    (subst (1 2) for_u32.simps, simp)

lemma stub_tables: "v < 32 \<Longrightarrow> exception_table lk ! v = sym_ex lk v" "v < 16 \<Longrightarrow> irq_table lk ! v = sym_irq lk v"
proof -
  have "exception_table lk = map (sym_ex lk) [0..<32]" "irq_table lk = map (sym_irq lk) [0..<16]"
    by (simp_all add: exception_table_def irq_table_def upt_rec eval_nat_numeral)
  then show "v < 32 \<Longrightarrow> exception_table lk ! v = sym_ex lk v" "v < 16 \<Longrightarrow> irq_table lk ! v = sym_irq lk v" by simp_all
qed

definition gate_for :: "linker_symbols \<Rightarrow> nat \<Rightarrow> idt_descriptor" where
  "gate_for lk v = (if v = 0x80 then idt_new_descriptor (sym_syscall_stub lk) GDT_KERNEL_CODE 0xEF
     else if v < 32 then idt_new_descriptor (exception_table lk ! v) GDT_KERNEL_CODE 0x8E
     else if v < 48 then idt_new_descriptor (irq_table lk ! (v - 32)) GDT_KERNEL_CODE 0x8E
     else idt_new_descriptor (sym_isr_stub lk) GDT_KERNEL_CODE 0x8E)"

lemma idt_init_gates:
  assumes "length (idt s) = 256"
  shows "idt (idt_init lk s) = map (gate_for lk) [0..<256]"
proof -
  let ?f = "\<lambda>_ :: u32. idt_new_descriptor (sym_isr_stub lk) GDT_KERNEL_CODE 0x8E"
  let ?g = "\<lambda>i :: u32. idt_new_descriptor (exception_table lk ! unat i) GDT_KERNEL_CODE 0x8E"
  let ?h = "\<lambda>i :: u32. idt_new_descriptor (irq_table lk ! unat i) GDT_KERNEL_CODE 0x8E"
  have loop: "idt (for_u32 0 n (\<lambda>i s. s\<lparr>idt := (idt s)[unat i + k := f i]\<rparr>) t) =
      map (\<lambda>j. if k \<le> j \<and> j < unat n + k then f (word_of_nat (j - k)) else idt t ! j) [0..<256]"
    if "length (idt t) = 256" "unat n + k \<le> 256" for n k f and t :: "'a desc_state_scheme"
    using that by (simp add: idt_loop fill_list_loop)
  note loop0 = loop [of _ _ 0, simplified]
  let ?s1 = "for_u32 0 256 (\<lambda>i s. s\<lparr>idt := (idt s)[unat i := ?f i]\<rparr>) s"
  let ?s2 = "for_u32 0 32 (\<lambda>i s. s\<lparr>idt := (idt s)[unat i := ?g i]\<rparr>) ?s1"
  let ?s3 = "for_u32 0 16 (\<lambda>i s. s\<lparr>idt := (idt s)[unat i + 32 := ?h i]\<rparr>) ?s2"
  have 1: "idt ?s1 = map (\<lambda>j. ?f 0) [0..<256]" using loop0 [of s 256 ?f] assms by simp
  have 2: "idt ?s2 = map (\<lambda>j. if j < 32 then ?g (word_of_nat j) else ?f 0) [0..<256]"
    by (subst loop0) (use 1 in \<open>auto intro!: map_cong\<close>)
  have 3: "idt ?s3 = map (\<lambda>j. if 32 \<le> j \<and> j < 48 then ?h (word_of_nat (j - 32)) else if j < 32 then ?g (word_of_nat j) else ?f 0) [0..<256]"
    by (subst loop) (use 2 in \<open>auto intro!: map_cong\<close>)
  have "idt (idt_init lk s) = (idt ?s3)[0x80 := idt_new_descriptor (sym_syscall_stub lk) GDT_KERNEL_CODE 0xEF]"
    by (simp add: idt_init_def idt_flush_def Let_def)
  then show ?thesis
    unfolding 3 by (intro nth_equalityI) (auto simp: nth_list_update gate_for_def unat_of_nat simp del: of_nat_diff)
qed

text \<open>The descriptor a selector names, and a present flat segment with this access byte and privilege.\<close>

definition selected :: "'a desc_state_scheme \<Rightarrow> u16 \<Rightarrow> gdt_descriptor" where
  "selected s sel = gdt s ! unat (drop_bit 3 sel)"

definition flat_segment :: "gdt_descriptor \<Rightarrow> u8 \<Rightarrow> u8 \<Rightarrow> bool" where
  "flat_segment d acc dpl \<longleftrightarrow> seg_base d = 0 \<and> seg_limit d = 0xFFFFF \<and> granularity d AND 0xF0 = 0xC0 \<and>
     access d = acc \<and> seg_present d \<and> seg_dpl d = dpl"

lemma flat_new:
  "bit acc 7 \<Longrightarrow> drop_bit 5 acc AND 3 = dpl \<Longrightarrow>
     flat_segment (gdt_new_descriptor 0 SEGMENT_LIMIT_4G acc SEGMENT_FLAGS_4K_32BIT) acc dpl"
  using seg_decode(1,3,4) [of 0 SEGMENT_LIMIT_4G acc SEGMENT_FLAGS_4K_32BIT]
    seg_decode(2) [of SEGMENT_LIMIT_4G 0 acc SEGMENT_FLAGS_4K_32BIT]
  by (simp add: flat_segment_def gdt_consts seg_present_def seg_dpl_def)

section \<open>Properties\<close>

text \<open>
  After \<open>gdt_init\<close> the processor sees a flat memory model: the selectors the kernel uses
  name present segments of base 0 and limit 4 GiB in 4 KiB units, code and data, privilege 0 for
  the kernel and 3 for user programs; the task register selects the TSS segment, which covers
  exactly the TSS, whose ring-0 stack is the boot stack in the kernel data segment.
\<close>

theorem gdt_init_flat:
  assumes "length (gdt s) = 6" "t = gdt_init lk s"
  shows "flat_segment (selected t GDT_KERNEL_CODE) 0x9A 0 \<and> flat_segment (selected t GDT_KERNEL_DATA) 0x92 0 \<and>
    flat_segment (selected t GDT_USER_CODE) 0xFA 3 \<and> flat_segment (selected t GDT_USER_DATA) 0xF2 3 \<and>
    \<not> seg_present (gdt t ! 0) \<and> seg_code t = GDT_KERNEL_CODE \<and> seg_data t = GDT_KERNEL_DATA \<and>
    cpu_gdtr t = \<lparr>gdtr_limit = 47, gdtr_base = sym_gdt lk\<rparr> \<and>
    seg_base (selected t (task_register t)) = sym_tss lk \<and> seg_limit (selected t (task_register t)) = 103 \<and>
    seg_present (selected t (task_register t)) \<and> esp0 (tss t) = sym_stack_top lk \<and> ss0 (tss t) = ucast GDT_KERNEL_DATA"
proof -
  let ?new = "\<lambda>acc. gdt_new_descriptor 0 SEGMENT_LIMIT_4G acc SEGMENT_FLAGS_4K_32BIT"
  have g: "gdt t = [gdt_new_descriptor 0 0 0 0, ?new 0x9A, ?new 0x92, ?new 0xFA, ?new 0xF2,
      gdt_new_descriptor (sym_tss lk) (sizeof_tss - 1) TSS_ACCESS TSS_FLAGS]"
    using assms by (auto simp: gdt_init_def Let_def gdt_flush_def tss_flush_def tss_init_def length_Suc_conv
        numeral_eq_Suc)
  have r: "task_register t = GDT_TSS" "seg_code t = GDT_KERNEL_CODE" "seg_data t = GDT_KERNEL_DATA"
      "cpu_gdtr t = \<lparr>gdtr_limit = 47, gdtr_base = sym_gdt lk\<rparr>" "esp0 (tss t) = sym_stack_top lk"
      "ss0 (tss t) = ucast GDT_KERNEL_DATA"
    using assms(2) by (simp_all add: gdt_init_def Let_def gdt_flush_def tss_flush_def tss_init_def gdt_consts)
  have "flat_segment (?new 0x9A) 0x9A 0" "flat_segment (?new 0x92) 0x92 0" "flat_segment (?new 0xFA) 0xFA 3"
      "flat_segment (?new 0xF2) 0xF2 3" by (simp_all add: flat_new)
  then show ?thesis
    using seg_decode(1,3) [of "sym_tss lk" "sizeof_tss - 1" TSS_ACCESS TSS_FLAGS]
      seg_decode(2) [of "sizeof_tss - 1" "sym_tss lk" TSS_ACCESS TSS_FLAGS]
    by (simp add: selected_def g r gdt_consts seg_present_def gdt_new_descriptor_def [of 0 0])
qed

text \<open>
  C38: after \<open>idt_init\<close> every vector has a present gate into the kernel code segment: the 32
  exceptions go to \<open>ex0\<close> to \<open>ex31\<close> and the 16 interrupt lines to \<open>irq0\<close> to \<open>irq15\<close>, in order, vector \<open>0x80\<close> to the system call stub,
  every other one to the stub that halts; only \<open>0x80\<close> can be raised by a program in ring 3.
\<close>

theorem idt_init_gates_correct:
  assumes "length (idt s) = 256" "v < 256" "d = idt (idt_init lk s) ! v"
  shows "gate_offset d = (if v = 0x80 then sym_syscall_stub lk else if v < 32 then sym_ex lk v
      else if v < 48 then sym_irq lk (v - 32) else sym_isr_stub lk) \<and>
    selector d = GDT_KERNEL_CODE \<and> gate_present d \<and> (gate_dpl d = 3 \<longleftrightarrow> v = 0x80) \<and> (gate_dpl d = 0 \<longleftrightarrow> v \<noteq> 0x80) \<and>
    cpu_idtr (idt_init lk s) = \<lparr>idtr_limit = 2047, idtr_base = sym_idt lk\<rparr>"
proof -
  have d: "d = gate_for lk v" using assms by (simp add: idt_init_gates)
  have "cpu_idtr (idt_init lk s) = \<lparr>idtr_limit = 2047, idtr_base = sym_idt lk\<rparr>"
    by (simp add: idt_init_def Let_def idt_flush_def gdt_consts)
  moreover have "gate_present (idt_new_descriptor off sel 0x8E)" "gate_dpl (idt_new_descriptor off sel 0x8E) = 0"
      "gate_present (idt_new_descriptor off sel 0xEF)" "gate_dpl (idt_new_descriptor off sel 0xEF) = 3" for off sel
    by (simp_all add: gate_present_def gate_dpl_def idt_new_descriptor_def)
  moreover have "selector (idt_new_descriptor off sel fl) = sel" for off sel fl by (simp add: idt_new_descriptor_def)
  ultimately show ?thesis by (auto simp: d gate_for_def gate_decode stub_tables)
qed

section \<open>A concrete layout\<close>

definition small_lk :: linker_symbols where
  "small_lk = \<lparr>sym_stack_top = 0xC0120000, sym_gdt = 0xC0110000, sym_tss = 0xC0111000, sym_idt = 0xC0112000,
     sym_isr_stub = 0xC0101000, sym_syscall_stub = 0xC0101100,
     sym_ex = (\<lambda>n. 0xC0102000 + 16 * word_of_nat n), sym_irq = (\<lambda>n. 0xC0103000 + 16 * word_of_nat n), sym_kthread_trampoline = 0xC0104000\<rparr>"

definition blank_gdt :: gdt_descriptor where
  "blank_gdt = \<lparr>limit_low = 0, base_low = 0, base_middle = 0, access = 0, granularity = 0, base_high = 0\<rparr>"

definition blank_gate :: idt_descriptor where
  "blank_gate = \<lparr>offset_low = 0, selector = 0, zero = 0, flags = 0, offset_high = 0\<rparr>"

definition blank_tss :: i386_tss where
  "blank_tss = \<lparr>prev_tss = 0, esp0 = 0, ss0 = 0, esp1 = 0, ss1 = 0, esp2 = 0, ss2 = 0, tss_cr3 = 0,
     tss_eip = 0, tss_eflags = 0, tss_eax = 0, tss_ecx = 0, tss_edx = 0, tss_ebx = 0, tss_esp = 0, tss_ebp = 0,
     tss_esi = 0, tss_edi = 0, tss_es = 0, tss_cs = 0, tss_ss = 0, tss_ds = 0, tss_fs = 0, tss_gs = 0,
     ldt = 0, trap = 0, iopb = 0\<rparr>"

definition small_desc :: "boot_state \<Rightarrow> desc_state" where
  "small_desc b = boot_state.extend b \<lparr>gdt = replicate 6 blank_gdt, gdtr = \<lparr>gdtr_limit = 0, gdtr_base = 0\<rparr>,
     tss = blank_tss, idt = replicate 256 blank_gate, idtr = \<lparr>idtr_limit = 0, idtr_base = 0\<rparr>,
     cpu_gdtr = \<lparr>gdtr_limit = 0, gdtr_base = 0\<rparr>, cpu_idtr = \<lparr>idtr_limit = 0, idtr_base = 0\<rparr>,
     seg_code = 0, seg_data = 0, task_register = 0\<rparr>"

definition boot0 :: boot_state where
  "boot0 = heap_state.extend (vmm_state.extend small_vm \<lparr>heap_list = 0\<rparr>) \<lparr>module_start = 0, module_size = 0\<rparr>"

theorem gdt_init_flat_witness:
  "flat_segment (selected (gdt_init small_lk (small_desc boot0)) GDT_USER_CODE) 0xFA 3"
  using gdt_init_flat [of "small_desc boot0" "gdt_init small_lk (small_desc boot0)" small_lk]
  by (simp add: small_desc_def boot_state.defs)

theorem idt_init_gates_correct_witness:
  "gate_offset (idt (idt_init small_lk (small_desc boot0)) ! 33) = 0xC0103010 \<and>
   gate_dpl (idt (idt_init small_lk (small_desc boot0)) ! 0x80) = 3"
  using idt_init_gates_correct [of "small_desc boot0" 33 _ small_lk, OF _ _ refl]
    idt_init_gates_correct [of "small_desc boot0" 128 _ small_lk, OF _ _ refl]
  by (simp add: small_desc_def boot_state.defs small_lk_def)

end
