(* ===== verification/Devices.thy ===== *)
theory Devices
  imports Gdt
begin

text \<open>
  The devices (\<open>pic.c\<close>, \<open>pit.c\<close>, \<open>serial.c\<close>, \<open>arch.c\<close> of \<open>kernel/arch/i386\<close>), the timer
  (\<open>kernel/timer.c\<close>) and \<open>panic\<close>.  What a port answers is the environment's choice: \<open>port_in\<close>
  gives for each port the sequence of its answers and \<open>port_reads\<close> counts the reads so far.  A
  polling loop is partial: it returns when one of the answers says so.
\<close>

section \<open>State\<close>

record dev_state = desc_state +
  port_in :: "u16 \<Rightarrow> nat \<Rightarrow> u8"
  port_reads :: "u16 \<Rightarrow> nat"
  interrupts_on :: bool
  ticks :: u32
  last_printed_ticks :: u32
  irq_counts :: "u32 list"

definition inb :: "u16 \<Rightarrow> 'a dev_state_scheme \<Rightarrow> u8 \<times> 'a dev_state_scheme" where
  "inb port s = (port_in s port (port_reads s port), s\<lparr>port_reads := (port_reads s)(port := Suc (port_reads s port))\<rparr>)"

section \<open>pic.c\<close>

definition PIC1_COMMAND :: u16 where "PIC1_COMMAND = 0x20"
definition PIC2_COMMAND :: u16 where "PIC2_COMMAND = 0xA0"
definition PIC1_DATA :: u16 where "PIC1_DATA = 0x21"
definition PIC2_DATA :: u16 where "PIC2_DATA = 0xA1"
definition ICW1_INIT :: u8 where "ICW1_INIT = 0x10"
definition ICW1_ICW4 :: u8 where "ICW1_ICW4 = 0x01"
definition ICW4_8086 :: u8 where "ICW4_8086 = 0x01"
definition PIC_EOI :: u8 where "PIC_EOI = 0x20"

lemmas pic_consts = PIC1_COMMAND_def PIC2_COMMAND_def PIC1_DATA_def PIC2_DATA_def ICW1_INIT_def ICW1_ICW4_def
  ICW4_8086_def PIC_EOI_def

definition pic_remap :: "u8 \<Rightarrow> u8 \<Rightarrow> 'a dev_state_scheme \<Rightarrow> 'a dev_state_scheme" where
  "pic_remap master_offset slave_offset s =
     (let (mask1, s) = inb PIC1_DATA s;
          (mask2, s) = inb PIC2_DATA s;
          s = outb PIC1_COMMAND (ICW1_INIT OR ICW1_ICW4) s;
          s = outb PIC2_COMMAND (ICW1_INIT OR ICW1_ICW4) s;
          s = outb PIC1_DATA master_offset s;
          s = outb PIC2_DATA slave_offset s;
          s = outb PIC1_DATA 0x04 s;
          s = outb PIC2_DATA 0x02 s;
          s = outb PIC1_DATA ICW4_8086 s;
          s = outb PIC2_DATA ICW4_8086 s;
          s = outb PIC1_DATA mask1 s
      in outb PIC2_DATA mask2 s)"

text \<open>The port and the bit of an interrupt line; the source keeps the port in a byte.\<close>

definition irq_to_port_bit :: "u8 \<Rightarrow> u8 \<times> u8" where
  "irq_to_port_bit irq_line =
     (if irq_line < 8 then (ucast PIC1_DATA, irq_line) else (ucast PIC2_DATA, irq_line - 8))"

text \<open>The shift \<open>0x1 << bit\<close> is an \<open>int\<close> shift, cut to a byte by the assignment.\<close>

definition pic_set_mask :: "u8 \<Rightarrow> 'a dev_state_scheme \<Rightarrow> 'a dev_state_scheme" where
  "pic_set_mask irq_line s =
     (let (port, b) = irq_to_port_bit irq_line;
          (mask, s) = inb (ucast port) s;
          mask = ucast ((ucast mask :: u32) OR push_bit (unat b) 1)
      in outb (ucast port) mask s)"

definition pic_clear_mask :: "u8 \<Rightarrow> 'a dev_state_scheme \<Rightarrow> 'a dev_state_scheme" where
  "pic_clear_mask irq_line s =
     (let (port, b) = irq_to_port_bit irq_line;
          (mask, s) = inb (ucast port) s;
          mask = ucast ((ucast mask :: u32) AND NOT (push_bit (unat b) 1))
      in outb (ucast port) mask s)"

definition pic_send_eoi :: "u8 \<Rightarrow> 'a dev_state_scheme \<Rightarrow> 'a dev_state_scheme" where
  "pic_send_eoi irq_line s =
     (let s = (if irq_line \<ge> 8 then outb PIC2_COMMAND PIC_EOI s else s)
      in outb PIC1_COMMAND PIC_EOI s)"

section \<open>pit.c\<close>

definition PIT_COMMAND :: u16 where "PIT_COMMAND = 0x43"
definition PIT_CHANNEL0 :: u16 where "PIT_CHANNEL0 = 0x40"
definition PIT_MODE2 :: u8 where "PIT_MODE2 = 0x34"

definition pit_init :: "u32 \<Rightarrow> 'a dev_state_scheme \<Rightarrow> 'a dev_state_scheme" where
  "pit_init hz s =
     (let hz = (if hz = 0 then 1 else hz);
          divisor = (ucast (1193182 div hz) :: u16);
          divisor = (if divisor = 0 then 1 else divisor);
          s = outb PIT_COMMAND PIT_MODE2 s;
          s = outb PIT_CHANNEL0 (ucast (divisor AND 0x00FF)) s
      in outb PIT_CHANNEL0 (ucast (drop_bit 8 divisor AND 0x00FF)) s)"

section \<open>serial.c\<close>

definition COM1 :: u16 where "COM1 = 0x3F8"

definition is_serial_transmit_empty :: "'a dev_state_scheme \<Rightarrow> u8 \<times> 'a dev_state_scheme" where
  "is_serial_transmit_empty s = (let (v, s) = inb (COM1 + 5) s in (v AND 0x20, s))"

definition serial_init :: "'a dev_state_scheme \<Rightarrow> 'a dev_state_scheme" where
  "serial_init s =
     (let s = outb (COM1 + 1) 0x00 s;
          s = outb (COM1 + 3) 0x80 s;
          s = outb (COM1 + 0) 0x03 s;
          s = outb (COM1 + 1) 0x00 s;
          s = outb (COM1 + 3) 0x03 s;
          s = outb (COM1 + 2) 0xC7 s
      in outb (COM1 + 4) 0x0B s)"

text \<open>\<open>while (!is_serial_transmit_empty()) { }\<close>\<close>

partial_function (option) serial_wait :: "'a dev_state_scheme \<Rightarrow> 'a dev_state_scheme option" where
  "serial_wait s = (let (v, s) = is_serial_transmit_empty s in if v = 0 then serial_wait s else Some s)"

declare serial_wait.simps [code]

definition serial_write :: "u8 \<Rightarrow> 'a dev_state_scheme \<Rightarrow> 'a dev_state_scheme option" where
  "serial_write c s = map_option (outb COM1 c) (serial_wait s)"

text \<open>The string is the list of its characters before the NUL.\<close>

fun serial_writestring :: "u8 list \<Rightarrow> 'a dev_state_scheme \<Rightarrow> 'a dev_state_scheme option" where
  "serial_writestring [] s = Some s"
| "serial_writestring (c # cs) s =
     Option.bind (if c = 10 then serial_write 13 s else Some s)
       (\<lambda>s. Option.bind (serial_write c s) (serial_writestring cs))"

section \<open>arch.c\<close>

definition KBC_STATUS_PORT :: u16 where "KBC_STATUS_PORT = 0x64"
definition KBC_RESET_CMD :: u8 where "KBC_RESET_CMD = 0xFE"

partial_function (option) kbc_wait_write_ready :: "'a dev_state_scheme \<Rightarrow> 'a dev_state_scheme option" where
  "kbc_wait_write_ready s =
     (let (v, s) = inb KBC_STATUS_PORT s in if v AND 0x02 \<noteq> 0 then kbc_wait_write_ready s else Some s)"

declare kbc_wait_write_ready.simps [code]

definition arch_init :: "linker_symbols \<Rightarrow> 'a dev_state_scheme \<Rightarrow> 'a dev_state_scheme" where
  "arch_init lk s =
     (let s = gdt_init lk s;
          s = idt_init lk s;
          s = pic_remap 0x20 0x28 s;
          s = pit_init 100 s;
          s = pic_clear_mask 0 s;
          s = pic_clear_mask 1 s
      in pic_clear_mask 2 s)"

text \<open>
  How a kernel function ends: \<open>Goes\<close> is a state in which kernel execution continues, \<open>Enters\<close>
  the state in which an \<open>iret\<close> leaves to user mode for good, \<open>Halts\<close> the last state of a
  machine that executes \<open>hlt\<close> for ever.
\<close>

datatype 'a progress = Goes 'a | Enters 'a | Halts 'a

definition arch_reboot :: "'a dev_state_scheme \<Rightarrow> 'a dev_state_scheme progress option" where
  "arch_reboot s =
     map_option (\<lambda>s. Halts (outb KBC_STATUS_PORT KBC_RESET_CMD s))
       (kbc_wait_write_ready (s\<lparr>interrupts_on := False\<rparr>))"

definition arch_halt :: "'a dev_state_scheme \<Rightarrow> 'a dev_state_scheme progress" where
  "arch_halt s = Halts (s\<lparr>interrupts_on := False\<rparr>)"

definition irq_ack :: "u32 \<Rightarrow> 'a dev_state_scheme \<Rightarrow> 'a dev_state_scheme" where
  "irq_ack irq s = pic_send_eoi (ucast irq) s"

definition irq_enable :: "'a dev_state_scheme \<Rightarrow> 'a dev_state_scheme" where
  "irq_enable s = s\<lparr>interrupts_on := True\<rparr>"

definition irq_disable :: "'a dev_state_scheme \<Rightarrow> 'a dev_state_scheme" where
  "irq_disable s = s\<lparr>interrupts_on := False\<rparr>"

definition KEYBOARD_DATA :: u16 where "KEYBOARD_DATA = 0x60"

definition keyboard_read :: "'a dev_state_scheme \<Rightarrow> u8 \<times> 'a dev_state_scheme" where
  "keyboard_read s = inb KEYBOARD_DATA s"

section \<open>panic.c and timer.c\<close>

definition c_bytes :: "string \<Rightarrow> u8 list" where
  "c_bytes cs = map of_char cs"

definition panic :: "string \<Rightarrow> 'a dev_state_scheme \<Rightarrow> 'a dev_state_scheme progress option" where
  "panic err s =
     map_option (\<lambda>s. arch_halt (snd (printk ''%s'' [VStr (Some (c_bytes err))] s)))
       (serial_writestring (c_bytes err) s)"

definition timer_tick :: "'a dev_state_scheme \<Rightarrow> 'a dev_state_scheme" where
  "timer_tick s = s\<lparr>ticks := ticks s + 1\<rparr>"

definition timer_get_ticks :: "'a dev_state_scheme \<Rightarrow> u32" where
  "timer_get_ticks s = ticks s"

definition hex_string :: "u32 \<Rightarrow> u8 list" where
  "hex_string v = take 10 (u32_to_hex (replicate 11 0) v)"

definition timer_print :: "'a dev_state_scheme \<Rightarrow> 'a dev_state_scheme option" where
  "timer_print s =
     (if ticks s - last_printed_ticks s \<ge> 100 then
        let ticks_hex = hex_string (ticks s) in
        Option.bind (serial_writestring (c_bytes ''TICKS: '') s) (\<lambda>s.
        Option.bind (serial_writestring ticks_hex s) (\<lambda>s.
        Option.bind (serial_writestring [10] s) (\<lambda>s.
        Some (s\<lparr>last_printed_ticks := ticks s\<rparr>))))
      else Some s)"

end
