(* ===== verification/DevicesProof.thy ===== *)
theory DevicesProof
  imports Devices
begin

text \<open>
  The devices as they see the writes of the drivers: the 8259A initialisation sequence, the
  divisor of the timer, and the bytes on the serial line.
\<close>

section \<open>The interrupt controllers\<close>

text \<open>
  An 8259A: a command byte with bit 4 starts the initialisation (and clears the mask), the next
  data bytes are the vector base, the cascade configuration and the mode, later data bytes are
  the mask.
\<close>

record pic_dev =
  pic_next :: nat
  pic_base :: u8
  pic_cascade :: u8
  pic_mode :: u8
  pic_mask :: u8

definition pic_command :: "u8 \<Rightarrow> pic_dev \<Rightarrow> pic_dev" where
  "pic_command v d = (if bit v 4 then d\<lparr>pic_next := 2, pic_mask := 0\<rparr> else d)"

definition pic_data :: "u8 \<Rightarrow> pic_dev \<Rightarrow> pic_dev" where
  "pic_data v d =
     (if pic_next d = 2 then d\<lparr>pic_base := v, pic_next := 3\<rparr>
      else if pic_next d = 3 then d\<lparr>pic_cascade := v, pic_next := 4\<rparr>
      else if pic_next d = 4 then d\<lparr>pic_mode := v, pic_next := 0\<rparr>
      else d\<lparr>pic_mask := v\<rparr>)"

text \<open>A controller at a command and a data port reads the log of writes.\<close>

fun pic_reads :: "u16 \<Rightarrow> u16 \<Rightarrow> (u16 \<times> u8) list \<Rightarrow> pic_dev \<Rightarrow> pic_dev" where
  "pic_reads cmd dat [] d = d"
| "pic_reads cmd dat ((p, v) # ws) d =
     pic_reads cmd dat ws (if p = cmd then pic_command v d else if p = dat then pic_data v d else d)"

lemma pic_ports:
  "PIC1_COMMAND \<noteq> PIC1_DATA" "PIC1_COMMAND \<noteq> PIC2_DATA" "PIC1_COMMAND \<noteq> PIC2_COMMAND"
  "PIC2_COMMAND \<noteq> PIC1_DATA" "PIC2_COMMAND \<noteq> PIC2_DATA" "PIC1_DATA \<noteq> PIC2_DATA"
  by (simp_all add: pic_consts)

lemma pic_init_byte: "bit (ICW1_INIT OR ICW1_ICW4) 4" "ICW4_8086 = 1"
  by (simp_all add: pic_consts)

lemma outb_log [simp]:
  "io_log (outb p v s) = io_log s @ [(p, v)]" "port_in (outb p v s) = port_in s" "port_reads (outb p v s) = port_reads s"
  by (simp_all add: outb_def)

section \<open>The serial line\<close>

definition serial_ready :: "'a dev_state_scheme \<Rightarrow> nat \<Rightarrow> bool" where
  "serial_ready s n \<longleftrightarrow> bit (port_in s (COM1 + 5) n) 5"

lemma ready_bit: "v AND 0x20 = 0 \<longleftrightarrow> \<not> bit v 5" for v :: u8
proof -
  have "(0x20 :: u8) = push_bit 5 1" by (simp add: push_bit_eq_mult)
  then show ?thesis by (simp add: and_exp_eq_0_iff_not_bit [symmetric] push_bit_eq_mult)
qed

lemma transmit_empty_eq:
  "is_serial_transmit_empty s = (let n = port_reads s (COM1 + 5) in
     (port_in s (COM1 + 5) n AND 0x20, s\<lparr>port_reads := (port_reads s)(COM1 + 5 := Suc n)\<rparr>))"
  unfolding is_serial_transmit_empty_def inb_def Let_def prod.case ..

lemma serial_wait_step:
  defines "n \<equiv> \<lambda>s :: 'a dev_state_scheme. port_reads s (COM1 + 5)"
  shows "serial_wait s = (let t = s\<lparr>port_reads := (port_reads s)(COM1 + 5 := Suc (n s))\<rparr>
     in if serial_ready s (n s) then Some t else serial_wait t)"
  by (subst serial_wait.simps) (simp add: transmit_empty_eq ready_bit serial_ready_def Let_def n_def)

lemma serial_wait_ready:
  assumes "port_reads s (COM1 + 5) \<le> n" "serial_ready s n"
  shows "\<exists>k. serial_wait s = Some (s\<lparr>port_reads := (port_reads s)(COM1 + 5 := k)\<rparr>)"
  using assms
proof (induction "n - port_reads s (COM1 + 5)" arbitrary: s)
  case 0
  then have "serial_ready s (port_reads s (COM1 + 5))" by simp
  then show ?case
    by (intro exI [of _ "Suc (port_reads s (COM1 + 5))"]) (simp add: serial_wait_step [of s] fun_upd_def)
next
  case (Suc u)
  let ?n = "port_reads s (COM1 + 5)" let ?t = "s\<lparr>port_reads := (port_reads s)(COM1 + 5 := Suc ?n)\<rparr>"
  have "\<exists>k. serial_wait ?t = Some (?t\<lparr>port_reads := (port_reads ?t)(COM1 + 5 := k)\<rparr>)"
    using Suc.hyps(2) Suc.prems by (intro Suc.hyps(1)) (auto simp: serial_ready_def)
  then obtain k where k: "serial_wait ?t = Some (s\<lparr>port_reads := (port_reads s)(COM1 + 5 := k)\<rparr>)" by auto
  show ?case
  proof (cases "serial_ready s ?n")
    case True
    then show ?thesis by (intro exI [of _ "Suc ?n"]) (simp add: serial_wait_step [of s] fun_upd_def)
  next
    case False
    then show ?thesis using k by (intro exI [of _ k]) (simp add: serial_wait_step [of s])
  qed
qed

lemma serial_wait_SomeD:
  assumes "serial_wait s = Some t"
  shows "\<exists>n \<ge> port_reads s (COM1 + 5). serial_ready s n"
proof (rule serial_wait.raw_induct [OF _ assms])
  fix w s t
  assume IH: "\<And>s t. w s = Some t \<Longrightarrow> \<exists>n \<ge> port_reads s (COM1 + 5). serial_ready s n"
    and e: "(let (v, s) = is_serial_transmit_empty s in if v = 0 then w s else Some s) = Some t"
  let ?n = "port_reads s (COM1 + 5)"
  show "\<exists>n \<ge> ?n. serial_ready s n"
  proof (cases "serial_ready s ?n")
    case False
    then have "w (s\<lparr>port_reads := (port_reads s)(COM1 + 5 := Suc ?n)\<rparr>) = Some t"
      using e by (simp add: transmit_empty_eq Let_def ready_bit serial_ready_def)
    then show ?thesis using IH by (fastforce simp: serial_ready_def dest: Suc_leD)
  qed auto
qed

text \<open>Updates of the log come before updates of the read counters.\<close>

lemma log_first: "s\<lparr>port_reads := f, io_log := l\<rparr> = s\<lparr>io_log := l, port_reads := f\<rparr>" for s :: "'a dev_state_scheme"
  by (rule dev_state.equality) simp_all

text \<open>The bytes that went out on the data port, and the conversion of line ends.\<close>

definition sent :: "'a dev_state_scheme \<Rightarrow> u8 list" where
  "sent s = map snd (filter (\<lambda>w. fst w = COM1) (io_log s))"

definition crlf :: "u8 list \<Rightarrow> u8 list" where
  "crlf cs = concat (map (\<lambda>c. if c = 10 then [13, 10] else [c]) cs)"

text \<open>The line becomes ready again and again.\<close>

definition line_alive :: "'a dev_state_scheme \<Rightarrow> bool" where
  "line_alive s \<longleftrightarrow> (\<forall>k. \<exists>n \<ge> k. serial_ready s n)"

lemma line_alive_upd [simp]:
  "line_alive (s\<lparr>port_reads := f\<rparr>) = line_alive s" "line_alive (s\<lparr>io_log := l\<rparr>) = line_alive s"
  by (simp_all add: line_alive_def serial_ready_def)

lemma serial_write_sends:
  assumes "line_alive s"
  shows "\<exists>f. serial_write c s = Some (s\<lparr>io_log := io_log s @ [(COM1, c)], port_reads := f\<rparr>)"
proof -
  obtain n where "port_reads s (COM1 + 5) \<le> n" "serial_ready s n" using assms by (auto simp: line_alive_def)
  then obtain k where "serial_wait s = Some (s\<lparr>port_reads := (port_reads s)(COM1 + 5 := k)\<rparr>)"
    using serial_wait_ready by blast
  then show ?thesis by (auto simp: serial_write_def outb_def log_first)
qed

lemma serial_writestring_sends:
  "line_alive s \<Longrightarrow> \<exists>f. serial_writestring cs s = Some (s\<lparr>io_log := io_log s @ map (Pair COM1) (crlf cs), port_reads := f\<rparr>)"
proof (induction cs arbitrary: s)
  case Nil
  show ?case by (intro exI [of _ "port_reads s"]) (simp add: crlf_def)
next
  case (Cons c cs)
  obtain f where f: "(if c = 10 then serial_write 13 s else Some s) =
      Some (s\<lparr>io_log := io_log s @ (if c = 10 then [(COM1, 13)] else []), port_reads := f\<rparr>)" (is "_ = Some ?t")
  proof (cases "c = 10")
    case True
    then show ?thesis using that serial_write_sends [OF Cons.prems, of 13] by auto
  next
    case False
    then show ?thesis using that [of "port_reads s"] by simp
  qed
  obtain g where g: "serial_write c ?t = Some (?t\<lparr>io_log := io_log ?t @ [(COM1, c)], port_reads := g\<rparr>)"
    using serial_write_sends [of ?t c] Cons.prems by auto
  show ?case
    using Cons.IH [of "?t\<lparr>io_log := io_log ?t @ [(COM1, c)], port_reads := g\<rparr>"] Cons.prems
    unfolding serial_writestring.simps f Option.bind.bind_lunit g
    by (auto simp: crlf_def log_first)
qed

text \<open>
  The polls that find the line ready, from a given poll on: each byte takes the first one, so a
  run of bytes needs as many of them as there are bytes.
\<close>

definition polls_from :: "'a dev_state_scheme \<Rightarrow> nat \<Rightarrow> nat list \<Rightarrow> bool" where
  "polls_from s k ns \<longleftrightarrow> sorted_wrt (<) ns \<and> (\<forall>n \<in> set ns. k \<le> n \<and> serial_ready s n)"

lemma serial_wait_first:
  assumes "port_reads s (COM1 + 5) \<le> n" "serial_ready s n" "\<And>k. port_reads s (COM1 + 5) \<le> k \<Longrightarrow> k < n \<Longrightarrow> \<not> serial_ready s k"
  shows "serial_wait s = Some (s\<lparr>port_reads := (port_reads s)(COM1 + 5 := Suc n)\<rparr>)"
  using assms
proof (induction "n - port_reads s (COM1 + 5)" arbitrary: s)
  case 0
  have n: "port_reads s (COM1 + 5) = n" using 0(1,2) by simp
  show ?case using 0(3) by (subst serial_wait_step) (simp add: n)
next
  case (Suc u)
  let ?n = "port_reads s (COM1 + 5)" let ?t = "s\<lparr>port_reads := (port_reads s)(COM1 + 5 := Suc ?n)\<rparr>"
  have "serial_wait ?t = Some (?t\<lparr>port_reads := (port_reads ?t)(COM1 + 5 := Suc n)\<rparr>)"
    using Suc.hyps(2) Suc.prems by (intro Suc.hyps(1)) (auto simp: serial_ready_def)
  moreover have "\<not> serial_ready s ?n" using Suc.hyps(2) Suc.prems(3) [of ?n] by simp
  ultimately show ?case by (subst serial_wait_step) simp
qed

lemma least_poll: "Q m \<Longrightarrow> \<exists>n \<le> m. Q n \<and> (\<forall>k < n. \<not> Q k)" for Q :: "nat \<Rightarrow> bool"
  using LeastI [of Q m] Least_le [of Q m] not_less_Least [of _ Q] by blast

lemma serial_write_polls:
  "(\<exists>t. serial_write c s = Some t \<and> P t) \<longleftrightarrow>
     (\<exists>n \<ge> port_reads s (COM1 + 5). serial_ready s n \<and> (\<forall>k. port_reads s (COM1 + 5) \<le> k \<and> k < n \<longrightarrow> \<not> serial_ready s k) \<and>
        P (outb COM1 c (s\<lparr>port_reads := (port_reads s)(COM1 + 5 := Suc n)\<rparr>)))" (is "?l \<longleftrightarrow> ?r")
proof
  assume ?r
  then obtain n where n: "port_reads s (COM1 + 5) \<le> n" "serial_ready s n"
      "\<And>k. port_reads s (COM1 + 5) \<le> k \<Longrightarrow> k < n \<Longrightarrow> \<not> serial_ready s k"
      "P (outb COM1 c (s\<lparr>port_reads := (port_reads s)(COM1 + 5 := Suc n)\<rparr>))" by blast
  show ?l using serial_wait_first [OF n(1-3)] n(4) by (simp add: serial_write_def)
next
  assume ?l
  then obtain t u where t: "serial_wait s = Some u" "t = outb COM1 c u" "P t" by (auto simp: serial_write_def)
  obtain m where "port_reads s (COM1 + 5) \<le> m \<and> serial_ready s m" using serial_wait_SomeD [OF t(1)] by blast
  then obtain n where n: "port_reads s (COM1 + 5) \<le> n" "serial_ready s n"
      "\<forall>k < n. \<not> (port_reads s (COM1 + 5) \<le> k \<and> serial_ready s k)"
    using least_poll [of "\<lambda>n. port_reads s (COM1 + 5) \<le> n \<and> serial_ready s n" m] by blast
  have "u = s\<lparr>port_reads := (port_reads s)(COM1 + 5 := Suc n)\<rparr>" using serial_wait_first [of s n] n t(1) by simp
  then show ?r using n t(2,3) by blast
qed

fun serial_bytes :: "u8 list \<Rightarrow> 'a dev_state_scheme \<Rightarrow> 'a dev_state_scheme option" where
  "serial_bytes [] s = Some s"
| "serial_bytes (c # cs) s = Option.bind (serial_write c s) (serial_bytes cs)"

lemma serial_bytes_append: "serial_bytes (xs @ ys) s = Option.bind (serial_bytes xs s) (serial_bytes ys)"
  by (induction xs arbitrary: s) (auto split: Option.bind_splits)

lemma writestring_bytes: "serial_writestring cs s = serial_bytes (crlf cs) s"
  by (induction cs arbitrary: s) (auto simp: crlf_def serial_bytes_append split: Option.bind_splits)

lemma serial_bytes_returns:
  "(\<exists>t. serial_bytes cs s = Some t) \<longleftrightarrow> (\<exists>ns. length ns = length cs \<and> polls_from s (port_reads s (COM1 + 5)) ns)"
proof (induction cs arbitrary: s)
  case Nil
  then show ?case by (simp add: polls_from_def)
next
  case (Cons c cs)
  let ?k = "port_reads s (COM1 + 5)"
  let ?first = "\<lambda>n. ?k \<le> n \<and> serial_ready s n \<and> (\<forall>k. ?k \<le> k \<and> k < n \<longrightarrow> \<not> serial_ready s k)"
  let ?more = "\<lambda>n. \<exists>ns. length ns = length cs \<and> polls_from s (Suc n) ns"
  have "(\<exists>t. serial_bytes (c # cs) s = Some t) \<longleftrightarrow> (\<exists>t. serial_write c s = Some t \<and> (\<exists>u. serial_bytes cs t = Some u))"
    by (auto split: Option.bind_splits)
  also have "\<dots> \<longleftrightarrow> (\<exists>n. ?first n \<and> ?more n)"
    unfolding serial_write_polls Cons.IH by (auto simp: polls_from_def serial_ready_def outb_def)
  also have "\<dots> \<longleftrightarrow> (\<exists>ns. length ns = length (c # cs) \<and> polls_from s ?k ns)"
  proof
    assume "\<exists>n. ?first n \<and> ?more n"
    then obtain n ns where "?first n" "length ns = length cs" "polls_from s (Suc n) ns" by blast
    then show "\<exists>ns. length ns = length (c # cs) \<and> polls_from s ?k ns"
      by (intro exI [of _ "n # ns"]) (fastforce simp: polls_from_def Suc_le_eq)
  next
    assume "\<exists>ns. length ns = length (c # cs) \<and> polls_from s ?k ns"
    then obtain m ns where mn: "length ns = length cs" "polls_from s ?k (m # ns)" by (auto simp: length_Suc_conv)
    have "?k \<le> m \<and> serial_ready s m" using mn(2) by (simp add: polls_from_def)
    then obtain n where n: "n \<le> m" "?first n" using least_poll [of "\<lambda>n. ?k \<le> n \<and> serial_ready s n" m] by blast
    then have "polls_from s (Suc n) ns" using mn(2) by (fastforce simp: polls_from_def)
    then show "\<exists>n. ?first n \<and> ?more n" using mn(1) n(2) by blast
  qed
  finally show ?case .
qed

lemma serial_bytes_sent: "serial_bytes cs s = Some t \<Longrightarrow> sent t = sent s @ cs"
proof (induction cs arbitrary: s)
  case (Cons c cs)
  then obtain u where u: "serial_write c s = Some u" "serial_bytes cs u = Some t" by (auto split: Option.bind_splits)
  have "\<exists>u'. serial_write c s = Some u' \<and> u' = u" using u(1) by blast
  then have "sent u = sent s @ [c]" unfolding serial_write_polls by (auto simp: sent_def outb_def)
  then show ?case using Cons.IH [OF u(2)] by simp
qed simp

section \<open>Properties\<close>

text \<open>
  \<open>pic_remap\<close> programs both interrupt controllers: each takes the given vector base, the
  cascade wiring (slave on line 2) and 8086 mode, and ends with the mask it had before.
\<close>

theorem pic_remap_programs:
  "\<exists>w. io_log (pic_remap a b s) = io_log s @ w \<and>
    pic_reads PIC1_COMMAND PIC1_DATA w d =
      \<lparr>pic_next = 0, pic_base = a, pic_cascade = 4, pic_mode = 1, pic_mask = port_in s PIC1_DATA (port_reads s PIC1_DATA)\<rparr> \<and>
    pic_reads PIC2_COMMAND PIC2_DATA w e =
      \<lparr>pic_next = 0, pic_base = b, pic_cascade = 2, pic_mode = 1, pic_mask = port_in s PIC2_DATA (port_reads s PIC2_DATA)\<rparr>"
proof -
  let ?m = "port_in s PIC1_DATA (port_reads s PIC1_DATA)" and ?n = "port_in s PIC2_DATA (port_reads s PIC2_DATA)"
  let ?i = "ICW1_INIT OR ICW1_ICW4"
  let ?w = "[(PIC1_COMMAND, ?i), (PIC2_COMMAND, ?i), (PIC1_DATA, a), (PIC2_DATA, b), (PIC1_DATA, 4), (PIC2_DATA, 2),
    (PIC1_DATA, ICW4_8086), (PIC2_DATA, ICW4_8086), (PIC1_DATA, ?m), (PIC2_DATA, ?n)]"
  have "io_log (pic_remap a b s) = io_log s @ ?w"
    by (simp add: pic_remap_def inb_def pic_ports pic_ports [symmetric])
  moreover have "pic_reads PIC1_COMMAND PIC1_DATA ?w d =
      \<lparr>pic_next = 0, pic_base = a, pic_cascade = 4, pic_mode = 1, pic_mask = ?m\<rparr>"
    "pic_reads PIC2_COMMAND PIC2_DATA ?w e =
      \<lparr>pic_next = 0, pic_base = b, pic_cascade = 2, pic_mode = 1, pic_mask = ?n\<rparr>"
    by (simp_all add: pic_ports pic_ports [symmetric] pic_init_byte pic_command_def pic_data_def)
  ultimately show ?thesis by blast
qed

text \<open>
  C39: writing a string to the serial port returns exactly when the line is ready at as many of
  the coming polls as there are bytes to send (so always on a line that becomes ready again and
  again, and never on a dead one); what was sent is then the string with a carriage return
  before each line feed.
\<close>

theorem serial_writestring_returns:
  "((\<exists>t. serial_writestring cs s = Some t) \<longleftrightarrow>
      (\<exists>ns. length ns = length (crlf cs) \<and> polls_from s (port_reads s (COM1 + 5)) ns)) \<and>
   (\<forall>t. serial_writestring cs s = Some t \<longrightarrow> sent t = sent s @ crlf cs)"
  unfolding writestring_bytes using serial_bytes_returns serial_bytes_sent by blast

text \<open>
  \<open>pit_init\<close> programs channel 0 in mode 2 with a divisor that is never 0; for every rate
  from 19 Hz up to the oscillator's 1193182 Hz it is the exact quotient.
\<close>

theorem pit_init_divisor:
  "\<exists>d :: u16. d \<noteq> 0 \<and> (19 \<le> hz \<and> hz \<le> 1193182 \<longrightarrow> unat d = 1193182 div unat hz) \<and>
     io_log (pit_init hz s) = io_log s @ [(PIT_COMMAND, PIT_MODE2), (PIT_CHANNEL0, ucast d), (PIT_CHANNEL0, ucast (drop_bit 8 d))]"
proof -
  define h where "h = (if hz = 0 then 1 else hz)"
  define q where "q = (ucast (1193182 div h) :: u16)"
  define d where "d = (if q = 0 then 1 else q)"
  have "d \<noteq> 0" by (simp add: d_def)
  moreover have "unat d = 1193182 div unat hz" if hz: "19 \<le> hz \<and> hz \<le> 1193182"
  proof -
    have u: "19 \<le> unat hz" "unat hz \<le> 1193182" using hz by (simp_all add: word_le_nat_alt)
    then have "h = hz" by (auto simp: h_def)
    moreover have "1193182 div unat hz \<le> 1193182 div 19" using u(1) by (intro div_le_mono2) simp_all
    moreover have "1 \<le> 1193182 div unat hz" using u by (simp add: Suc_leI div_greater_zero_iff)
    ultimately show ?thesis
      by (auto simp: d_def q_def unsigned_ucast_eq take_bit_eq_mod unat_div word_unat_eq_iff)
  qed
  moreover have "(ucast (d AND 0xFF) :: u8) = ucast d" "(ucast (drop_bit 8 d AND 0xFF) :: u8) = ucast (drop_bit 8 d)"
  proof -
    have m: "(0xFF :: u16) = mask 8" by (simp add: mask_eq_exp_minus_1)
    show "(ucast (d AND 0xFF) :: u8) = ucast d" "(ucast (drop_bit 8 d AND 0xFF) :: u8) = ucast (drop_bit 8 d)"
      unfolding m by (rule bit_word_eqI; auto simp: bit_simps)+
  qed
  moreover have "io_log (pit_init hz s) = io_log s @ [(PIT_COMMAND, PIT_MODE2), (PIT_CHANNEL0, ucast (d AND 0xFF)),
      (PIT_CHANNEL0, ucast (drop_bit 8 d AND 0xFF))]"
    unfolding pit_init_def Let_def h_def [symmetric] q_def [symmetric] d_def [symmetric] by simp
  ultimately show ?thesis by metis
qed

definition small_dev :: "boot_state \<Rightarrow> dev_state" where
  "small_dev b = desc_state.extend (small_desc b) \<lparr>port_in = (\<lambda>_ n. if odd n then 0xFF else 0), port_reads = (\<lambda>_. 0),
     interrupts_on = False, ticks = 0, last_printed_ticks = 0, irq_counts = replicate 16 0\<rparr>"

lemma small_dev_alive: "line_alive (small_dev b)"
proof -
  have "serial_ready (small_dev b) (Suc (2 * k))" for k
    by (simp add: serial_ready_def small_dev_def desc_state.defs)
  then show ?thesis unfolding line_alive_def by (metis le_Suc_eq mult_2 trans_le_add1 le_refl)
qed

theorem serial_writestring_returns_witness:
  "\<exists>t. serial_writestring [65, 10] (small_dev boot0) = Some t \<and> sent t = sent (small_dev boot0) @ [65, 13, 10]"
proof -
  have "polls_from (small_dev boot0) (port_reads (small_dev boot0) (COM1 + 5)) [1, 3, 5]"
    by (simp add: polls_from_def serial_ready_def small_dev_def desc_state.defs)
  moreover have c: "crlf [65, 10] = [65, 13, 10]" by (simp add: crlf_def)
  moreover have "length [1, 3, 5 :: nat] = length [65, 13, 10 :: u8]" by simp
  ultimately show ?thesis using serial_writestring_returns [of "[65, 10]" "small_dev boot0", unfolded c] by metis
qed

theorem pit_init_divisor_witness:
  "\<exists>d :: u16. unat d = 11931 \<and> io_log (pit_init 100 (small_dev boot0)) = io_log (small_dev boot0) @
     [(PIT_COMMAND, PIT_MODE2), (PIT_CHANNEL0, ucast d), (PIT_CHANNEL0, ucast (drop_bit 8 d))]"
  using pit_init_divisor [of 100 "small_dev boot0"] by (auto simp: word_le_nat_alt)

end
