(* ===== verification/Sched.thy ===== *)
theory Sched
  imports Devices
begin

text \<open>
  The cooperative scheduler (\<open>kernel/sched.c\<close>), its i386 part (\<open>kernel/arch/i386/sched.c\<close>) and
  the register switch (\<open>context_switch.S\<close>).  The register fields of the state are the registers
  of the running task as \<open>sched_context_switch\<close> finds them: \<open>reg_esp\<close> points at its return
  address.  A thread entry point is the name of a C function, \<open>None\<close> for NULL.  Calls that
  walk the heap are partial: \<open>None\<close> is a call that does not return.
\<close>

section \<open>State\<close>

datatype task_state = TASK_UNUSED | TASK_RUNNABLE | TASK_RUNNING | TASK_ZOMBIE

datatype kfun = KFun string

record task =
  t_id :: u32
  t_state :: task_state
  t_address_space :: u32
  t_stack_pointer :: u32
  t_stack :: ptr
  t_entry :: "kfun option"

record sched_state = dev_state +
  tasks :: "task list"
  current_task :: u32
  next_task_id :: u32
  reg_ebp :: u32
  reg_ebx :: u32
  reg_esi :: u32
  reg_edi :: u32
  reg_esp :: u32
  reg_eip :: u32

definition MAX_TASKS :: u32 where "MAX_TASKS = 16"
definition KTHREAD_STACK_SIZE :: u32 where "KTHREAD_STACK_SIZE = 2048"
definition KTHREAD_STACK_ALIGN :: u32 where "KTHREAD_STACK_ALIGN = 16"

lemmas sched_consts = MAX_TASKS_def KTHREAD_STACK_SIZE_def KTHREAD_STACK_ALIGN_def

text \<open>\<open>tasks[i]\<close>, and an assignment to one of its fields.\<close>

definition task_at :: "u32 \<Rightarrow> 'a sched_state_scheme \<Rightarrow> task" where
  "task_at i s = tasks s ! unat i"

definition set_task :: "u32 \<Rightarrow> (task \<Rightarrow> task) \<Rightarrow> 'a sched_state_scheme \<Rightarrow> 'a sched_state_scheme" where
  "set_task i f s = s\<lparr>tasks := (tasks s)[unat i := f (tasks s ! unat i)]\<rparr>"

text \<open>A counting loop whose body may not return.\<close>

definition for_opt :: "u32 \<Rightarrow> u32 \<Rightarrow> (u32 \<Rightarrow> 's \<Rightarrow> 's option) \<Rightarrow> 's \<Rightarrow> 's option" where
  "for_opt i n body s = for_u32 i n (\<lambda>i r. Option.bind r (body i)) (Some s)"

section \<open>arch/i386/sched.c and context_switch.S\<close>

definition sched_set_kernel_task :: "ptr \<Rightarrow> u32 \<Rightarrow> 'a desc_state_scheme \<Rightarrow> 'a desc_state_scheme" where
  "sched_set_kernel_task stk stack_size s =
     tss_set_kernel_stack ((stk + stack_size) AND NOT (KTHREAD_STACK_ALIGN - 1)) s"

text \<open>\<open>*--stack_pointer = v\<close>\<close>

definition store_down :: "u32 \<Rightarrow> ptr \<times> 'a pmm_state_scheme \<Rightarrow> ptr \<times> 'a pmm_state_scheme" where
  "store_down v = (\<lambda>(sp, s). (sp - 4, s\<lparr>kmem := st32 (sp - 4) v (kmem s)\<rparr>))"

definition sched_prepare_kthread_stack ::
    "ptr \<Rightarrow> u32 \<Rightarrow> u32 \<Rightarrow> 'a pmm_state_scheme \<Rightarrow> u32 \<times> 'a pmm_state_scheme" where
  "sched_prepare_kthread_stack stk stack_size trampoline s =
     (let r = ((stk + stack_size) AND NOT (KTHREAD_STACK_ALIGN - 1), s);
          r = store_down 0 r;
          r = store_down trampoline r;
          r = store_down 0 r;
          r = store_down 0 r;
          r = store_down 0 r
      in store_down 0 r)"

definition push :: "u32 \<Rightarrow> 'a sched_state_scheme \<Rightarrow> 'a sched_state_scheme" where
  "push v s = s\<lparr>reg_esp := reg_esp s - 4, kmem := st32 (reg_esp s - 4) v (kmem s)\<rparr>"

definition pop :: "'a sched_state_scheme \<Rightarrow> u32 \<times> 'a sched_state_scheme" where
  "pop s = (ld32 (kmem s) (reg_esp s), s\<lparr>reg_esp := reg_esp s + 4\<rparr>)"

text \<open>The first argument is the task whose \<open>stack_pointer\<close> the first C argument points to.\<close>

definition sched_context_switch :: "u32 \<Rightarrow> u32 \<Rightarrow> 'a sched_state_scheme \<Rightarrow> 'a sched_state_scheme" where
  "sched_context_switch old_task new_stack_pointer s =
     (let s = push (reg_ebp s) s;
          s = push (reg_ebx s) s;
          s = push (reg_esi s) s;
          s = push (reg_edi s) s;
          s = set_task old_task (\<lambda>t. t\<lparr>t_stack_pointer := reg_esp s\<rparr>) s;
          s = s\<lparr>reg_esp := new_stack_pointer\<rparr>;
          (v, s) = pop s; s = s\<lparr>reg_edi := v\<rparr>;
          (v, s) = pop s; s = s\<lparr>reg_esi := v\<rparr>;
          (v, s) = pop s; s = s\<lparr>reg_ebx := v\<rparr>;
          (v, s) = pop s; s = s\<lparr>reg_ebp := v\<rparr>;
          (v, s) = pop s
      in s\<lparr>reg_eip := v\<rparr>)"

section \<open>sched.c\<close>

definition sched_init :: "'a sched_state_scheme \<Rightarrow> 'a sched_state_scheme" where
  "sched_init s =
     (let s = for_u32 0 MAX_TASKS (\<lambda>i s. set_task i (\<lambda>t. t\<lparr>t_id := 0, t_state := TASK_UNUSED,
                t_stack_pointer := 0, t_address_space := 0, t_entry := None, t_stack := 0\<rparr>) s) s;
          s = set_task 0 (\<lambda>t. t\<lparr>t_id := next_task_id s\<rparr>) (s\<lparr>next_task_id := next_task_id s + 1\<rparr>);
          s = set_task 0 (\<lambda>t. t\<lparr>t_state := TASK_RUNNING\<rparr>) s;
          s = set_task 0 (\<lambda>t. t\<lparr>t_address_space := vmm_get_kernel_address_space s\<rparr>) s
      in s\<lparr>current_task := 0\<rparr>)"

definition sched_current_task_id :: "'a sched_state_scheme \<Rightarrow> u32" where
  "sched_current_task_id s = t_id (task_at (current_task s) s)"

definition sched_set_current_address_space :: "u32 \<Rightarrow> 'a sched_state_scheme \<Rightarrow> int \<times> 'a sched_state_scheme" where
  "sched_set_current_address_space address_space s =
     (if current_task s = 0 \<or> address_space = 0 then (- 1, s)
      else
        let s = set_task (current_task s) (\<lambda>t. t\<lparr>t_address_space := address_space\<rparr>) s
        in (0, paging_load_directory address_space s))"

definition task_cleanup :: "u32 \<Rightarrow> 'a sched_state_scheme \<Rightarrow> 'a sched_state_scheme option" where
  "task_cleanup idx s =
     (let s = set_task idx (\<lambda>t. t\<lparr>t_id := 0, t_state := TASK_UNUSED, t_stack_pointer := 0, t_entry := None\<rparr>) s;
          s = (if t_address_space (task_at idx s) \<noteq> 0 \<and>
                 t_address_space (task_at idx s) \<noteq> vmm_get_kernel_address_space s
               then vmm_destroy_address_space (t_address_space (task_at idx s)) s else s);
          s = set_task idx (\<lambda>t. t\<lparr>t_address_space := 0\<rparr>) s
      in if t_stack (task_at idx s) \<noteq> 0
         then map_option (set_task idx (\<lambda>t. t\<lparr>t_stack := 0\<rparr>)) (kfree (t_stack (task_at idx s)) s)
         else Some s)"

definition reap_zombies :: "'a sched_state_scheme \<Rightarrow> 'a sched_state_scheme option" where
  "reap_zombies s =
     for_opt 1 MAX_TASKS (\<lambda>i s.
       if i = current_task s \<or> t_state (task_at i s) \<noteq> TASK_ZOMBIE then Some s
       else task_cleanup i s) s"

definition kthread_create ::
    "linker_symbols \<Rightarrow> kfun option \<Rightarrow> 'a sched_state_scheme \<Rightarrow> (int \<times> 'a sched_state_scheme) option" where
  "kthread_create lk entry s =
     (if entry = None then Some (- 1, s)
      else Option.bind (reap_zombies s) (\<lambda>s.
        case first_u32 1 MAX_TASKS (\<lambda>i. t_state (task_at i s) = TASK_UNUSED) of
          None \<Rightarrow> Some (- 1, s)
        | Some i \<Rightarrow>
            Option.bind (kmalloc KTHREAD_STACK_SIZE s) (\<lambda>(stk, s).
              if stk = 0 then Some (- 1, s)
              else
                let s = set_task i (\<lambda>t. t\<lparr>t_id := next_task_id s\<rparr>) (s\<lparr>next_task_id := next_task_id s + 1\<rparr>);
                    s = set_task i (\<lambda>t. t\<lparr>t_state := TASK_RUNNABLE\<rparr>) s;
                    (sp, s) = sched_prepare_kthread_stack stk KTHREAD_STACK_SIZE (sym_kthread_trampoline lk) s;
                    s = set_task i (\<lambda>t. t\<lparr>t_stack_pointer := sp\<rparr>) s;
                    s = set_task i (\<lambda>t. t\<lparr>t_address_space := vmm_get_kernel_address_space s\<rparr>) s;
                    s = set_task i (\<lambda>t. t\<lparr>t_stack := stk\<rparr>) s;
                    s = set_task i (\<lambda>t. t\<lparr>t_entry := entry\<rparr>) s
                in Some (sint (t_id (task_at i s)), s))))"

text \<open>
  The result says whether the call switched to another task: when it did, the state is the one
  in which that task continues.
\<close>

definition sched_yield :: "'a sched_state_scheme \<Rightarrow> (bool \<times> 'a sched_state_scheme) option" where
  "sched_yield s =
     Option.bind (reap_zombies s) (\<lambda>s.
       case first_u32 1 (MAX_TASKS + 1)
              (\<lambda>i. t_state (task_at ((current_task s + i) mod MAX_TASKS) s) = TASK_RUNNABLE) of
         None \<Rightarrow> Some (False, snd (printk (''sched: no runnable tasks'' @ [CHR 0x0A]) [] s))
       | Some i \<Rightarrow>
           let idx = (current_task s + i) mod MAX_TASKS;
               old_task = current_task s;
               s = (if t_state (task_at (current_task s) s) = TASK_RUNNING
                    then set_task (current_task s) (\<lambda>t. t\<lparr>t_state := TASK_RUNNABLE\<rparr>) s else s);
               s = set_task idx (\<lambda>t. t\<lparr>t_state := TASK_RUNNING\<rparr>) s;
               s = s\<lparr>current_task := idx\<rparr>;
               s = (if t_stack (task_at idx s) \<noteq> 0
                    then sched_set_kernel_task (t_stack (task_at idx s)) KTHREAD_STACK_SIZE s else s);
               s = paging_load_directory (t_address_space (task_at idx s)) s
           in Some (True, sched_context_switch old_task (t_stack_pointer (task_at idx s)) s))"

definition kthread_exit :: "'a sched_state_scheme \<Rightarrow> 'a sched_state_scheme progress option" where
  "kthread_exit s =
     (if current_task s = 0 then panic ''sched: task 0 exited'' s
      else
        Option.bind (sched_yield (set_task (current_task s) (\<lambda>t. t\<lparr>t_state := TASK_ZOMBIE\<rparr>) s)) (\<lambda>(switched, s).
          if switched then Some (Goes s) else panic ''sched: zombie task resumed'' s))"

text \<open>The first code of a new thread; \<open>call\<close> runs the function its entry names.\<close>

definition kthread_trampoline ::
    "(kfun \<Rightarrow> 'a sched_state_scheme \<Rightarrow> 'a sched_state_scheme progress option) \<Rightarrow>
     'a sched_state_scheme \<Rightarrow> 'a sched_state_scheme progress option" where
  "kthread_trampoline call s =
     (case t_entry (task_at (current_task s) s) of
        None \<Rightarrow> None
      | Some f \<Rightarrow> Option.bind (call f s) (\<lambda>r. case r of Goes s \<Rightarrow> kthread_exit s | _ \<Rightarrow> Some r))"

end
