(* ===== verification/User.thy ===== *)
theory User
  imports Sched
begin

text \<open>
  User processes (\<open>kernel/user.c\<close> and \<open>kernel/arch/i386/user.c\<close>): the process table, loading an
  executable into a new address space, entering ring 3, exit, and wait.  A process pointer is an
  index of the table, \<open>None\<close> for NULL; a C string is the list of its characters before the NUL.
  A call that waits for other tasks takes them as an argument: \<open>others\<close> maps the state in which
  \<open>sched_yield\<close> hands the processor over to the state in which the caller continues, \<open>None\<close> when
  it never does.
\<close>

section \<open>State\<close>

record user_page =
  pg_vaddr :: u32
  pg_paddr :: u32

datatype user_process_state = USER_PROCESS_FREE | USER_PROCESS_CREATED | USER_PROCESS_RUNNING | USER_PROCESS_EXITED

record user_process =
  p_pid :: u32
  p_task_id :: u32
  p_parent_pid :: u32
  p_address_space :: u32
  p_entry :: u32
  p_stack :: u32
  p_stack_size :: u32
  p_exit_status :: u32
  p_state :: user_process_state
  p_path :: "u8 list"
  p_pages :: "user_page list"
  p_page_count :: u32

text \<open>\<open>user_cs\<close> to \<open>user_esp\<close> are the registers \<open>iret\<close> loads on the way to ring 3.\<close>

record user_state = sched_state +
  processes :: "user_process list"
  next_pid :: u32
  userland_active :: u8
  reg_eflags :: u32
  user_cs :: u32
  user_eip :: u32
  user_ss :: u32
  user_esp :: u32

definition USER_INIT_CODE_ADDR :: u32 where "USER_INIT_CODE_ADDR = 0x00400000"
definition USER_INIT_STACK_ADDR :: u32 where "USER_INIT_STACK_ADDR = 0x007ff000"
definition USER_PROCESS_MAX_PAGES :: u32 where "USER_PROCESS_MAX_PAGES = 16"
definition USER_PROCESS_MAX :: u32 where "USER_PROCESS_MAX = 16"
definition USER_PROCESS_NO_PARENT :: u32 where "USER_PROCESS_NO_PARENT = 0"
definition EMXF_HEADER_SIZE :: u32 where "EMXF_HEADER_SIZE = 12"
definition EMXF_MAGIC0 :: u8 where "EMXF_MAGIC0 = of_char CHR ''E''"
definition EMXF_MAGIC1 :: u8 where "EMXF_MAGIC1 = of_char CHR ''M''"
definition EMXF_MAGIC2 :: u8 where "EMXF_MAGIC2 = of_char CHR ''X''"
definition EMXF_MAGIC3 :: u8 where "EMXF_MAGIC3 = of_char CHR ''F''"
definition USER_CODE_SELECTOR :: u32 where "USER_CODE_SELECTOR = ucast GDT_USER_CODE OR 0x3"
definition USER_DATA_SELECTOR :: u32 where "USER_DATA_SELECTOR = ucast GDT_USER_DATA OR 0x3"

lemmas user_consts = USER_INIT_CODE_ADDR_def USER_INIT_STACK_ADDR_def USER_PROCESS_MAX_PAGES_def USER_PROCESS_MAX_def
  USER_PROCESS_NO_PARENT_def EMXF_HEADER_SIZE_def EMXF_MAGIC0_def EMXF_MAGIC1_def EMXF_MAGIC2_def EMXF_MAGIC3_def

text \<open>The record after \<open>memset(process, 0, sizeof(*process))\<close>.\<close>

definition zero_process :: user_process where
  "zero_process = \<lparr>p_pid = 0, p_task_id = 0, p_parent_pid = 0, p_address_space = 0, p_entry = 0, p_stack = 0,
     p_stack_size = 0, p_exit_status = 0, p_state = USER_PROCESS_FREE, p_path = replicate 32 0,
     p_pages = replicate 16 \<lparr>pg_vaddr = 0, pg_paddr = 0\<rparr>, p_page_count = 0\<rparr>"

definition proc_at :: "u32 \<Rightarrow> 'a user_state_scheme \<Rightarrow> user_process" where
  "proc_at i s = processes s ! unat i"

definition set_proc :: "u32 \<Rightarrow> (user_process \<Rightarrow> user_process) \<Rightarrow> 'a user_state_scheme \<Rightarrow> 'a user_state_scheme" where
  "set_proc i f s = s\<lparr>processes := (processes s)[unat i := f (processes s ! unat i)]\<rparr>"

definition c_string :: "u8 list \<Rightarrow> u8 list" where
  "c_string cs = takeWhile (\<lambda>c. c \<noteq> 0) cs"

section \<open>The process table\<close>

definition user_process_alloc :: "'a user_state_scheme \<Rightarrow> u32 option \<times> 'a user_state_scheme" where
  "user_process_alloc s =
     (case first_u32 0 USER_PROCESS_MAX (\<lambda>i. p_state (proc_at i s) = USER_PROCESS_FREE) of
        None \<Rightarrow> (None, s)
      | Some i \<Rightarrow>
          let s = set_proc i (\<lambda>_. zero_process) s;
              s = set_proc i (\<lambda>p. p\<lparr>p_state := USER_PROCESS_CREATED\<rparr>) s;
              s = set_proc i (\<lambda>p. p\<lparr>p_parent_pid := USER_PROCESS_NO_PARENT\<rparr>) s
          in (Some i, s))"

definition user_process_find_by_pid :: "u32 \<Rightarrow> 'a user_state_scheme \<Rightarrow> u32 option" where
  "user_process_find_by_pid pid s =
     first_u32 0 USER_PROCESS_MAX (\<lambda>i. p_state (proc_at i s) \<noteq> USER_PROCESS_FREE \<and> p_pid (proc_at i s) = pid)"

definition user_process_find_by_task_id :: "u32 \<Rightarrow> 'a user_state_scheme \<Rightarrow> u32 option" where
  "user_process_find_by_task_id task_id s =
     first_u32 0 USER_PROCESS_MAX (\<lambda>i. p_state (proc_at i s) \<noteq> USER_PROCESS_FREE \<and> p_task_id (proc_at i s) = task_id)"

definition user_process_release :: "u32 option \<Rightarrow> 'a user_state_scheme \<Rightarrow> 'a user_state_scheme" where
  "user_process_release process s =
     (case process of None \<Rightarrow> s | Some i \<Rightarrow> set_proc i (\<lambda>_. zero_process) s)"

definition user_process_orphan_children :: "u32 option \<Rightarrow> 'a user_state_scheme \<Rightarrow> 'a user_state_scheme" where
  "user_process_orphan_children parent s =
     (case parent of
        None \<Rightarrow> s
      | Some j \<Rightarrow> for_u32 0 USER_PROCESS_MAX (\<lambda>i s.
          if p_state (proc_at i s) = USER_PROCESS_FREE \<or> p_parent_pid (proc_at i s) \<noteq> p_pid (proc_at j s) then s
          else
            let s = set_proc i (\<lambda>p. p\<lparr>p_parent_pid := USER_PROCESS_NO_PARENT\<rparr>) s
            in if p_state (proc_at i s) = USER_PROCESS_EXITED then user_process_release (Some i) s else s) s)"

definition user_process_free_pages :: "u32 option \<Rightarrow> 'a user_state_scheme \<Rightarrow> 'a user_state_scheme" where
  "user_process_free_pages process s =
     (case process of
        None \<Rightarrow> s
      | Some j \<Rightarrow>
          let s = for_u32 0 (p_page_count (proc_at j s)) (\<lambda>i s.
                let s = snd (vmm_unmap_page_in (p_address_space (proc_at j s)) (pg_vaddr (p_pages (proc_at j s) ! unat i)) s);
                    s = pmm_free_page (pg_paddr (p_pages (proc_at j s) ! unat i)) s;
                    s = set_proc j (\<lambda>p. p\<lparr>p_pages := (p_pages p)[unat i := (p_pages p ! unat i)\<lparr>pg_vaddr := 0\<rparr>]\<rparr>) s
                in set_proc j (\<lambda>p. p\<lparr>p_pages := (p_pages p)[unat i := (p_pages p ! unat i)\<lparr>pg_paddr := 0\<rparr>]\<rparr>) s) s
          in set_proc j (\<lambda>p. p\<lparr>p_page_count := 0\<rparr>) s)"

section \<open>Loading a program\<close>

definition map_copied_user_page ::
    "u32 option \<Rightarrow> u32 \<Rightarrow> ptr \<Rightarrow> u32 \<Rightarrow> u32 \<Rightarrow> 'a user_state_scheme \<Rightarrow> int \<times> 'a user_state_scheme" where
  "map_copied_user_page process vaddr src sz flag_bits s =
     (case process of
        None \<Rightarrow> (- 1, s)
      | Some j \<Rightarrow>
          if p_page_count (proc_at j s) \<ge> USER_PROCESS_MAX_PAGES then (- 1, s)
          else if sz > PMM_PAGE_SIZE then (- 1, s)
          else
            let (paddr, s) = pmm_alloc_page s in
            if paddr = 0 then (- 1, s)
            else
              let page = vmm_phys_to_virt paddr in
              if page = 0 then (- 1, pmm_free_page paddr s)
              else
                let s = s\<lparr>kmem := memset page 0 PMM_PAGE_SIZE (kmem s)\<rparr>;
                    s = (if src \<noteq> 0 then s\<lparr>kmem := memcpy page src sz (kmem s)\<rparr> else s);
                    (r, s) = vmm_map_page_in (p_address_space (proc_at j s)) vaddr paddr
                       (VMM_PAGE_PRESENT OR VMM_PAGE_USER OR flag_bits) s in
                if r \<noteq> 0 then (- 1, pmm_free_page paddr s)
                else
                  let n = unat (p_page_count (proc_at j s));
                      s = set_proc j (\<lambda>p. p\<lparr>p_pages := (p_pages p)[n := (p_pages p ! n)\<lparr>pg_vaddr := vaddr\<rparr>]\<rparr>) s;
                      s = set_proc j (\<lambda>p. p\<lparr>p_pages := (p_pages p)[n := (p_pages p ! n)\<lparr>pg_paddr := paddr\<rparr>]\<rparr>) s;
                      s = set_proc j (\<lambda>p. p\<lparr>p_page_count := p_page_count p + 1\<rparr>) s
                  in (0, s))"

definition load_emxf :: "u32 option \<Rightarrow> ptr \<Rightarrow> u32 \<Rightarrow> 'a user_state_scheme \<Rightarrow> int \<times> 'a user_state_scheme" where
  "load_emxf process img sz s =
     (case process of
        None \<Rightarrow> (- 1, s)
      | Some j \<Rightarrow>
          if img = 0 \<or> sz < EMXF_HEADER_SIZE then (- 1, s)
          else if kmem s img \<noteq> EMXF_MAGIC0 \<or> kmem s (img + 1) \<noteq> EMXF_MAGIC1 \<or>
            kmem s (img + 2) \<noteq> EMXF_MAGIC2 \<or> kmem s (img + 3) \<noteq> EMXF_MAGIC3 then (- 1, s)
          else
            let code_size = read_le32 (kmem s) (img + 4);
                entry_offset = read_le32 (kmem s) (img + 8) in
            if code_size > PMM_PAGE_SIZE then (- 1, s)
            else if entry_offset \<ge> code_size then (- 1, s)
            else if EMXF_HEADER_SIZE + code_size > sz then (- 1, s)
            else
              let code = img + EMXF_HEADER_SIZE;
                  (r, s) = map_copied_user_page process USER_INIT_CODE_ADDR code code_size 0 s in
              if r \<noteq> 0 then (- 1, s)
              else (0, set_proc j (\<lambda>p. p\<lparr>p_entry := USER_INIT_CODE_ADDR + entry_offset\<rparr>) s))"

definition user_prepare_exec :: "u32 option \<Rightarrow> u8 list option \<Rightarrow> 'a user_state_scheme \<Rightarrow> int \<times> 'a user_state_scheme" where
  "user_prepare_exec process path s =
     (case (process, path) of
        (Some j, Some _) \<Rightarrow>
          (case initramfs_find path s of
             None \<Rightarrow> (- 1, user_process_free_pages process s)
           | Some (emxf, emxf_size) \<Rightarrow>
               let (r, s) = load_emxf process emxf emxf_size s in
               if r \<noteq> 0 then (- 1, user_process_free_pages process s)
               else
                 let (r, s) = map_copied_user_page process USER_INIT_STACK_ADDR 0 0 VMM_PAGE_WRITABLE s in
                 if r \<noteq> 0 then (- 1, user_process_free_pages process s)
                 else
                   let s = set_proc j (\<lambda>p. p\<lparr>p_stack := USER_INIT_STACK_ADDR\<rparr>) s
                   in (0, set_proc j (\<lambda>p. p\<lparr>p_stack_size := PMM_PAGE_SIZE\<rparr>) s))
      | _ \<Rightarrow> (- 1, s))"

text \<open>
  \<open>user_enter\<close> pushes the frame and executes \<open>iret\<close>, which pops it: what remains are the loaded
  registers, the stack and code selectors of ring 3 among them, and the interrupt flag.
\<close>

definition user_enter :: "u32 option \<Rightarrow> 'a user_state_scheme \<Rightarrow> 'a user_state_scheme progress" where
  "user_enter process s =
     (case process of
        None \<Rightarrow> Goes s
      | Some j \<Rightarrow>
          let user_stack = p_stack (proc_at j s) + p_stack_size (proc_at j s);
              eflags = reg_eflags s OR 0x200
          in Enters (s\<lparr>user_ss := USER_DATA_SELECTOR, user_esp := user_stack, reg_eflags := eflags,
               user_cs := USER_CODE_SELECTOR, user_eip := p_entry (proc_at j s), interrupts_on := bit eflags 9\<rparr>))"

section \<open>Processes and tasks\<close>

definition user_exec_task :: "'a user_state_scheme \<Rightarrow> 'a user_state_scheme progress" where
  "user_exec_task s =
     (let process = user_process_find_by_task_id (sched_current_task_id s) s in
      case process of
        None \<Rightarrow> Goes s
      | Some j \<Rightarrow>
          let path = c_string (p_path (proc_at j s));
              fail = (\<lambda>s.
                let s = snd (printk (''user: failed to execute %s'' @ [CHR 0x0A]) [VStr (Some (c_string (p_path (proc_at j s))))] s);
                    s = (if p_address_space (proc_at j s) \<noteq> 0 then vmm_destroy_address_space (p_address_space (proc_at j s)) s else s)
                in Goes (user_process_release process s));
              (r, s) = user_prepare_exec process (Some path) s in
          if r \<noteq> 0 then fail s
          else
            let (r, s) = sched_set_current_address_space (p_address_space (proc_at j s)) s in
            if r \<noteq> 0 then fail (user_process_free_pages process s)
            else user_enter process (set_proc j (\<lambda>p. p\<lparr>p_state := USER_PROCESS_RUNNING\<rparr>) s))"

definition user_spawn :: "linker_symbols \<Rightarrow> u8 list option \<Rightarrow> 'a user_state_scheme \<Rightarrow> (int \<times> 'a user_state_scheme) option" where
  "user_spawn lk path s =
     (case path of
        None \<Rightarrow> Some (- 1, s)
      | Some cs \<Rightarrow>
          let path_len = length cs in
          if path_len = 0 \<or> path_len \<ge> unat EMXA_PATH_SIZE then Some (- 1, s)
          else
            (case initramfs_find path s of
               None \<Rightarrow> Some (- 1, s)
             | Some _ \<Rightarrow>
                 let parent = user_process_find_by_task_id (sched_current_task_id s) s;
                     (process, s) = user_process_alloc s in
                 (case process of
                    None \<Rightarrow> Some (- 1, s)
                  | Some j \<Rightarrow>
                      let s = set_proc j (\<lambda>p. p\<lparr>p_pid := next_pid s\<rparr>) (s\<lparr>next_pid := next_pid s + 1\<rparr>);
                          s = (case parent of None \<Rightarrow> s
                               | Some i \<Rightarrow> set_proc j (\<lambda>p. p\<lparr>p_parent_pid := p_pid (proc_at i s)\<rparr>) s);
                          s = set_proc j (\<lambda>p. p\<lparr>p_path := cs @ [0] @ drop (path_len + 1) (p_path p)\<rparr>) s;
                          (a, s) = vmm_create_address_space s;
                          s = set_proc j (\<lambda>p. p\<lparr>p_address_space := a\<rparr>) s;
                          fail = (\<lambda>s. (- 1, user_process_release process
                             (if p_address_space (proc_at j s) \<noteq> 0
                              then vmm_destroy_address_space (p_address_space (proc_at j s)) s else s))) in
                      if p_address_space (proc_at j s) = 0 then Some (fail s)
                      else
                        Option.bind (kthread_create lk (Some (KFun ''user_exec_task'')) s) (\<lambda>(task_id, s).
                          if task_id < 0 then Some (fail s)
                          else
                            let s = set_proc j (\<lambda>p. p\<lparr>p_task_id := word_of_int task_id\<rparr>) s;
                                s = keyboard_buffer_clear s
                            in Some (sint (p_pid (proc_at j s)), s)))))"

text \<open>\<open>sched_yield()\<close> as its caller sees it.\<close>

definition yield_through ::
    "('a sched_state_scheme \<Rightarrow> 'a sched_state_scheme option) \<Rightarrow> 'a sched_state_scheme \<Rightarrow> 'a sched_state_scheme option" where
  "yield_through others s = Option.bind (sched_yield s) (\<lambda>(switched, s). if switched then others s else Some s)"

partial_function (option) user_wait_loop ::
    "('a user_state_scheme \<Rightarrow> 'a user_state_scheme option) \<Rightarrow> u32 \<Rightarrow> u32 \<Rightarrow> 'a user_state_scheme \<Rightarrow>
     (int \<times> 'a user_state_scheme) option" where
  "user_wait_loop others pid caller s =
     (case user_process_find_by_pid pid s of
        None \<Rightarrow> Some (- 1, s)
      | Some child \<Rightarrow>
          if p_parent_pid (proc_at child s) \<noteq> p_pid (proc_at caller s) then Some (- 1, s)
          else if p_state (proc_at child s) = USER_PROCESS_EXITED
          then Some (sint (p_exit_status (proc_at child s)), user_process_release (Some child) s)
          else Option.bind (yield_through others s) (user_wait_loop others pid caller))"

definition user_wait ::
    "('a user_state_scheme \<Rightarrow> 'a user_state_scheme option) \<Rightarrow> u32 \<Rightarrow> 'a user_state_scheme \<Rightarrow>
     (int \<times> 'a user_state_scheme) option" where
  "user_wait others pid s =
     (case user_process_find_by_task_id (sched_current_task_id s) s of
        None \<Rightarrow> Some (- 1, s)
      | Some caller \<Rightarrow> user_wait_loop others pid caller s)"

partial_function (option) user_init_loop ::
    "('a user_state_scheme \<Rightarrow> 'a user_state_scheme option) \<Rightarrow> u32 \<Rightarrow> 'a user_state_scheme \<Rightarrow>
     'a user_state_scheme option" where
  "user_init_loop others pid s =
     (if user_process_find_by_pid pid s \<noteq> None then Option.bind (yield_through others s) (user_init_loop others pid) else Some s)"

definition user_init ::
    "linker_symbols \<Rightarrow> ('a user_state_scheme \<Rightarrow> 'a user_state_scheme option) \<Rightarrow> 'a user_state_scheme \<Rightarrow>
     'a user_state_scheme option" where
  "user_init lk others s =
     Option.bind (user_spawn lk (Some (c_bytes ''/bin/init'')) s) (\<lambda>(pid, s).
       if pid < 0 then Some (snd (printk (''user: failed to start /bin/init'' @ [CHR 0x0A]) [] s))
       else
         let s = s\<lparr>userland_active := 1\<rparr>;
             s = snd (printk (''user: init pid=%x'' @ [CHR 0x0A]) [VInt (word_of_int pid)] s)
         in Option.bind (user_init_loop others (word_of_int pid) s) (\<lambda>s.
              let s = s\<lparr>userland_active := 0\<rparr>
              in Some (snd (printk (''user: exiting userland'' @ [CHR 0x0A]) [] s))))"

definition user_has_input_focus :: "'a user_state_scheme \<Rightarrow> bool" where
  "user_has_input_focus s =
     (if userland_active s \<noteq> 0 then True
      else case user_process_find_by_task_id (sched_current_task_id s) s of
             None \<Rightarrow> False
           | Some j \<Rightarrow> p_state (proc_at j s) = USER_PROCESS_RUNNING)"

definition user_exit_current :: "u32 \<Rightarrow> 'a user_state_scheme \<Rightarrow> 'a user_state_scheme" where
  "user_exit_current status s =
     (let process = user_process_find_by_task_id (sched_current_task_id s) s in
      case process of
        None \<Rightarrow> s
      | Some j \<Rightarrow>
          let s = set_proc j (\<lambda>p. p\<lparr>p_exit_status := status\<rparr>) s;
              s = set_proc j (\<lambda>p. p\<lparr>p_state := USER_PROCESS_EXITED\<rparr>) s;
              s = user_process_free_pages process s;
              s = set_proc j (\<lambda>p. p\<lparr>p_address_space := 0\<rparr>) s;
              s = user_process_orphan_children process s
          in if user_process_find_by_pid (p_parent_pid (proc_at j s)) s = None
             then user_process_release process s else s)"

end
