(* ===== verification/SchedProof.thy ===== *)
theory SchedProof
  imports Sched KmallocProps
begin

text \<open>
  The scheduler: its invariant (one running task, the current one), which every operation keeps;
  round-robin selection with bounded waiting; and the register switch, which resumes a task
  exactly where it left.
\<close>

section \<open>What the other components leave alone\<close>

definition sched_vars :: "'a sched_state_scheme \<Rightarrow> task list \<times> u32 \<times> u32" where
  "sched_vars s = (tasks s, current_task s, next_task_id s)"

lemma heap_more_sched:
  "heap_state.more t = heap_state.more s \<Longrightarrow> sched_vars t = sched_vars s" for s t :: "'a sched_state_scheme"
  by (cases s, cases t) (simp add: sched_vars_def)

lemma new_block_more: "heap_state.more (snd (new_block s)) = heap_state.more s"
proof -
  obtain p u where pu: "pmm_alloc_page s = (p, u)" by (cases "pmm_alloc_page s")
  have "heap_state.more u = heap_state.more s" by (subst alloc_more [OF pu]) simp
  moreover have "heap_state.more (pmm_free_page p u) = heap_state.more u" by (subst free_more) simp
  ultimately show ?thesis
    by (simp add: new_block_def pu Let_def set_block_next_def set_block_free_def set_block_size_def)
qed

lemma alloc_from_block_more: "heap_state.more (snd (alloc_from_block b n s)) = heap_state.more s"
  by (simp add: alloc_from_block_def Let_def set_block_next_def set_block_free_def set_block_size_def)

lemma kmalloc_in_more: "kmalloc_in n s = Some (p, t) \<Longrightarrow> heap_state.more t = heap_state.more s"
proof -
  assume k: "kmalloc_in n s = Some (p, t)"
  obtain b u where bu: "new_block s = (b, u)" by (cases "new_block s")
  have u: "heap_state.more u = heap_state.more s" using new_block_more [of s] bu by simp
  have a: "heap_state.more w = heap_state.more v" if "alloc_from_block c n v = (q, w)" for c q v w
    using alloc_from_block_more [of c n v] that by simp
  show ?thesis
    using k u a by (auto simp: kmalloc_in_def bu set_block_next_def dest!: a split: option.splits sum.splits if_splits)
qed

lemma kmalloc_more: "kmalloc n s = Some (p, t) \<Longrightarrow> heap_state.more t = heap_state.more s"
proof -
  assume k: "kmalloc n s = Some (p, t)"
  obtain b u where bu: "new_block s = (b, u)" by (cases "new_block s")
  have u: "heap_state.more u = heap_state.more s" using new_block_more [of s] bu by simp
  show ?thesis
    using k u by (auto simp: kmalloc_def bu Let_def dest!: kmalloc_in_more split: option.splits if_splits)
qed

lemma coalesce_more:
  assumes "coalesce_next b s = Some t"
  shows "heap_state.more t = heap_state.more s"
proof (rule coalesce_next.raw_induct [OF _ assms])
  fix w b s t
  assume IH: "\<And>b s t. w b s = Some t \<Longrightarrow> heap_state.more t = heap_state.more s"
    and e: "(let next = block_next s b in
      if next \<noteq> 0 \<and> block_free s next \<noteq> 0 \<and> b + sizeof_heap_block + block_size s b = next then
        let s = set_block_size b (block_size s b + (sizeof_heap_block + block_size s next)) s;
            s = set_block_next b (block_next s next) s
        in w b s
      else Some s) = Some t"
  show "heap_state.more t = heap_state.more s"
    using e IH by (auto simp: Let_def set_block_next_def set_block_size_def split: if_splits)
qed

lemma kfree_more: "kfree p s = Some t \<Longrightarrow> heap_state.more t = heap_state.more s"
  by (auto simp: kfree_def Let_def set_block_free_def dest: coalesce_more split: if_splits)

lemma destroy_more: "vmm_state.more (vmm_destroy_address_space a s) = vmm_state.more s"
proof -
  have f: "vmm_state.more (pmm_free_page p s) = vmm_state.more s" for p and s :: "'a vmm_state_scheme"
    by (subst free_more) simp
  have "vmm_state.more (for_u32 0 KERNEL_PDE_INDEX (\<lambda>i s.
        if arr s pd i AND VMM_PAGE_PRESENT \<noteq> 0 then pmm_free_page (arr s pd i AND 0xfffff000) s else s) s) = vmm_state.more s"
    for pd and s :: "'a vmm_state_scheme"
    by (rule for_u32_keeps) (simp add: f)
  then show ?thesis by (simp add: vmm_destroy_address_space_def Let_def f)
qed

lemma vmm_more_sched:
  "vmm_state.more t = vmm_state.more s \<Longrightarrow> sched_vars t = sched_vars s" for s t :: "'a sched_state_scheme"
  by (cases s, cases t) (simp add: sched_vars_def)

section \<open>Partial loops\<close>

lemma for_opt_invariant:
  assumes "P i s" "i \<le> n"
    and "\<And>k u. i \<le> k \<Longrightarrow> k < n \<Longrightarrow> P k u \<Longrightarrow> \<exists>v. body k u = Some v \<and> P (k + 1) v"
  shows "\<exists>t. for_opt i n body s = Some t \<and> P n t"
proof -
  let ?P = "\<lambda>k r. \<exists>t. r = Some t \<and> P k t"
  have "?P n (for_u32 i n (\<lambda>i r. Option.bind r (body i)) (Some s))"
    by (rule for_u32_invariant [where P = ?P]) (use assms in auto)
  then show ?thesis by (simp add: for_opt_def)
qed

lemma for_opt_partial:
  assumes "for_opt i n body s = Some t" "P i s" "i \<le> n"
    and "\<And>k u v. i \<le> k \<Longrightarrow> k < n \<Longrightarrow> P k u \<Longrightarrow> body k u = Some v \<Longrightarrow> P (k + 1) v"
  shows "P n t"
proof -
  let ?P = "\<lambda>k r. case r of None \<Rightarrow> True | Some t \<Rightarrow> P k t"
  have "?P n (for_u32 i n (\<lambda>i r. Option.bind r (body i)) (Some s))"
  proof (rule for_u32_invariant [where P = ?P])
    fix k r assume "i \<le> k" "k < n" "?P k r"
    then show "?P (k + 1) (Option.bind r (body k))" using assms(4) by (cases r; cases "body k (the r)") auto
  qed (use assms in auto)
  then show ?thesis using assms(1) by (simp add: for_opt_def)
qed

section \<open>Reaping\<close>

definition blank_task :: task where
  "blank_task = \<lparr>t_id = 0, t_state = TASK_UNUSED, t_address_space = 0, t_stack_pointer = 0, t_stack = 0, t_entry = None\<rparr>"

lemma sched_vars_set_task:
  "sched_vars (set_task i f s) = ((tasks s)[unat i := f (tasks s ! unat i)], current_task s, next_task_id s)"
  by (simp add: sched_vars_def set_task_def)

lemma sched_varsD:
  "sched_vars t = sched_vars s \<Longrightarrow> tasks t = tasks s" "sched_vars t = sched_vars s \<Longrightarrow> current_task t = current_task s"
  "sched_vars t = sched_vars s \<Longrightarrow> next_task_id t = next_task_id s"
  by (simp_all add: sched_vars_def)

lemma task_eq_blank:
  "x\<lparr>t_id := 0, t_state := TASK_UNUSED, t_stack_pointer := 0, t_entry := None, t_address_space := 0, t_stack := 0\<rparr> = blank_task"
  by (simp add: blank_task_def)

lemma destroy_sched: "sched_vars (vmm_destroy_address_space a s) = sched_vars s" for s :: "'a sched_state_scheme"
  by (rule vmm_more_sched [OF destroy_more])

lemma kfree_sched: "kfree p s = Some t \<Longrightarrow> sched_vars t = sched_vars s" for s :: "'a sched_state_scheme"
  by (rule heap_more_sched [OF kfree_more])

lemma task_cleanup_vars:
  assumes "task_cleanup i s = Some t" "unat i < length (tasks s)"
  shows "sched_vars t = ((tasks s)[unat i := blank_task], current_task s, next_task_id s)"
proof -
  let ?a = "set_task i (\<lambda>t. t\<lparr>t_id := 0, t_state := TASK_UNUSED, t_stack_pointer := 0, t_entry := None\<rparr>) s"
  let ?b = "if t_address_space (task_at i ?a) \<noteq> 0 \<and> t_address_space (task_at i ?a) \<noteq> vmm_get_kernel_address_space ?a
     then vmm_destroy_address_space (t_address_space (task_at i ?a)) ?a else ?a"
  let ?c = "set_task i (\<lambda>t. t\<lparr>t_address_space := 0\<rparr>) ?b"
  have b: "sched_vars ?b = sched_vars ?a" by (simp add: destroy_sched)
  let ?x = "(tasks s ! unat i)\<lparr>t_id := 0, t_state := TASK_UNUSED, t_stack_pointer := 0, t_entry := None, t_address_space := 0\<rparr>"
  have c: "sched_vars ?c = ((tasks s)[unat i := ?x], current_task s, next_task_id s)"
    unfolding sched_vars_set_task using sched_varsD [OF b] assms(2) by (simp add: set_task_def)
  then have x: "task_at i ?c = ?x" using assms(2) by (simp add: sched_vars_def task_at_def)
  have e: "(if t_stack ?x \<noteq> 0 then map_option (set_task i (\<lambda>t. t\<lparr>t_stack := 0\<rparr>)) (kfree (t_stack ?x) ?c) else Some ?c) = Some t"
    using assms(1) unfolding task_cleanup_def Let_def x .
  show ?thesis
  proof (cases "t_stack ?x = 0")
    case True
    then have "?x = ?x\<lparr>t_stack := 0\<rparr>" by simp
    then have "?x = blank_task" using task_eq_blank by metis
    then show ?thesis using e c True by simp
  next
    case False
    then obtain u where u: "kfree (t_stack ?x) ?c = Some u" "t = set_task i (\<lambda>t. t\<lparr>t_stack := 0\<rparr>) u"
      using e by (auto split: if_splits)
    have "sched_vars u = ((tasks s)[unat i := ?x], current_task s, next_task_id s)" using kfree_sched [OF u(1)] c by simp
    then show ?thesis
      unfolding u(2) sched_vars_set_task using assms(2) task_eq_blank [of "tasks s ! unat i"] by (simp add: sched_vars_def)
  qed
qed

definition reaped :: "'a sched_state_scheme \<Rightarrow> nat \<Rightarrow> task" where
  "reaped s i = (if i \<noteq> 0 \<and> i \<noteq> unat (current_task s) \<and> t_state (tasks s ! i) = TASK_ZOMBIE then blank_task else tasks s ! i)"

lemma reap_vars:
  assumes "reap_zombies s = Some t" "length (tasks s) = 16"
  shows "sched_vars t = (map (reaped s) [0..<16], current_task s, next_task_id s)"
proof -
  let ?P = "\<lambda>k u. sched_vars u = (map (\<lambda>i. if i < unat k then reaped s i else tasks s ! i) [0..<16], current_task s, next_task_id s)"
  have "?P MAX_TASKS t"
  proof (rule for_opt_partial [OF assms(1) [unfolded reap_zombies_def]])
    have "tasks s = map (\<lambda>i. if i < unat 1 then reaped s i else tasks s ! i) [0..<16]"
      using assms(2) by (intro nth_equalityI) (auto simp: reaped_def)
    then show "?P 1 s" by (simp add: sched_vars_def)
    show "1 \<le> MAX_TASKS" by (simp add: MAX_TASKS_def)
    fix k u v assume k: "1 \<le> k" "k < MAX_TASKS" and P: "?P k u"
      and b: "(if k = current_task u \<or> t_state (task_at k u) \<noteq> TASK_ZOMBIE then Some u else task_cleanup k u) = Some v"
    have k16: "unat k < 16" "unat k \<noteq> 0" using k by (auto simp: MAX_TASKS_def word_less_nat_alt word_le_nat_alt)
    have u: "tasks u = map (\<lambda>i. if i < unat k then reaped s i else tasks s ! i) [0..<16]" "current_task u = current_task s"
        "next_task_id u = next_task_id s" using P by (simp_all add: sched_vars_def)
    have uk: "tasks u ! unat k = tasks s ! unat k" using k16 by (simp add: u)
    have n: "unat (k + 1) = Suc (unat k)" using k(2) by (rule unat_inc)
    let ?Q = "map (\<lambda>i. if i < unat (k + 1) then reaped s i else tasks s ! i) [0..<16]"
    have c: "k = current_task s \<longleftrightarrow> unat k = unat (current_task s)" by (simp add: word_unat_eq_iff)
    show "?P (k + 1) v"
    proof (cases "k = current_task u \<or> t_state (task_at k u) \<noteq> TASK_ZOMBIE")
      case True
      then have "reaped s (unat k) = tasks s ! unat k" using uk u(2) c by (auto simp: reaped_def task_at_def)
      then have "tasks u = ?Q" unfolding u(1) n by (intro map_cong) (auto simp: less_Suc_eq)
      then show ?thesis using True b u by (simp add: sched_vars_def)
    next
      case False
      then have r: "reaped s (unat k) = blank_task" using uk u(2) c k16 by (auto simp: reaped_def task_at_def)
      have "sched_vars v = ((tasks u)[unat k := blank_task], current_task u, next_task_id u)"
        using False b k16 by (intro task_cleanup_vars) (auto simp: u)
      moreover have "(tasks u)[unat k := blank_task] = ?Q"
        unfolding u(1) n by (intro nth_equalityI) (use k16 r in \<open>auto simp: nth_list_update less_Suc_eq\<close>)
      ultimately show ?thesis using u by simp
    qed
  qed
  moreover have "map (\<lambda>i. if i < unat MAX_TASKS then reaped s i else tasks s ! i) [0..<16] = map (reaped s) [0..<16]"
    by (simp add: MAX_TASKS_def)
  ultimately show ?thesis by simp
qed

section \<open>The invariant\<close>

text \<open>
  \<open>run\<close> is false only inside \<open>kthread_exit\<close>, where the current task is already a zombie.
\<close>

definition sched_wf :: "task list \<Rightarrow> u32 \<Rightarrow> bool \<Rightarrow> bool" where
  "sched_wf ts cur run \<longleftrightarrow> length ts = 16 \<and> unat cur < 16 \<and>
     (\<forall>i < 16. t_state (ts ! i) = TASK_RUNNING \<longleftrightarrow> run \<and> i = unat cur) \<and>
     t_state (ts ! 0) \<notin> {TASK_UNUSED, TASK_ZOMBIE} \<and>
     (\<forall>i < 16. t_state (ts ! i) = TASK_UNUSED \<longrightarrow> ts ! i = blank_task) \<and>
     (\<forall>i < 16. 0 < i \<and> t_state (ts ! i) \<noteq> TASK_UNUSED \<longrightarrow> t_stack (ts ! i) \<noteq> 0 \<and> t_entry (ts ! i) \<noteq> None)"

abbreviation sched_ok :: "'a sched_state_scheme \<Rightarrow> bool" where
  "sched_ok s \<equiv> sched_wf (tasks s) (current_task s) True"

lemma sched_wfD:
  "sched_wf ts cur run \<Longrightarrow> length ts = 16" "sched_wf ts cur run \<Longrightarrow> unat cur < 16"
  "sched_wf ts cur run \<Longrightarrow> i < 16 \<Longrightarrow> t_state (ts ! i) = TASK_RUNNING \<longleftrightarrow> run \<and> i = unat cur"
  "sched_wf ts cur run \<Longrightarrow> t_state (ts ! 0) \<noteq> TASK_UNUSED" "sched_wf ts cur run \<Longrightarrow> t_state (ts ! 0) \<noteq> TASK_ZOMBIE"
  "sched_wf ts cur run \<Longrightarrow> i < 16 \<Longrightarrow> t_state (ts ! i) = TASK_UNUSED \<Longrightarrow> ts ! i = blank_task"
  "sched_wf ts cur run \<Longrightarrow> i < 16 \<Longrightarrow> 0 < i \<Longrightarrow> t_state (ts ! i) \<noteq> TASK_UNUSED \<Longrightarrow> t_stack (ts ! i) \<noteq> 0"
  "sched_wf ts cur run \<Longrightarrow> i < 16 \<Longrightarrow> 0 < i \<Longrightarrow> t_state (ts ! i) \<noteq> TASK_UNUSED \<Longrightarrow> t_entry (ts ! i) \<noteq> None"
  unfolding sched_wf_def by auto

lemma blank_state [simp]: "t_state blank_task = TASK_UNUSED"
  by (simp add: blank_task_def)

lemma reaped_wf:
  assumes "sched_wf (tasks s) (current_task s) run"
  shows "sched_wf (map (reaped s) [0..<16]) (current_task s) run"
  using sched_wfD(1,2,4,5) [OF assms] sched_wfD(3,6,7,8) [OF assms]
  unfolding sched_wf_def by (auto simp: reaped_def)

text \<open>The number of tasks passed over between \<open>c\<close> and \<open>j\<close> in cyclic order.\<close>

definition cyc :: "nat \<Rightarrow> nat \<Rightarrow> nat" where
  "cyc c j = (j + 15 - c) mod 16"

lemma cyc_less: "cyc c j < 16"
  by (simp add: cyc_def)

lemma cyc_step: "c < 16 \<Longrightarrow> 1 \<le> i \<Longrightarrow> i \<le> 16 \<Longrightarrow> cyc c ((c + i) mod 16) = i - 1"
  by (cases "c + i < 16") (auto simp: cyc_def mod_if not_less)

lemma cyc_inv: "c < 16 \<Longrightarrow> j < 16 \<Longrightarrow> (c + Suc (cyc c j)) mod 16 = j"
  by (cases "j \<le> c") (auto simp: cyc_def mod_if not_less)

lemma cyc_decreases:
  "c < 16 \<Longrightarrow> d < 16 \<Longrightarrow> j < 16 \<Longrightarrow> cyc c d < cyc c j \<Longrightarrow> cyc d j < cyc c j"
  by (auto simp: cyc_def mod_if split: if_splits)

lemma cyc_inj: "c < 16 \<Longrightarrow> i < 16 \<Longrightarrow> j < 16 \<Longrightarrow> cyc c i = cyc c j \<Longrightarrow> i = j"
  using cyc_inv by metis

text \<open>The choice of the next task.\<close>

definition next_index :: "task list \<Rightarrow> u32 \<Rightarrow> u32 option" where
  "next_index ts cur = map_option (\<lambda>i. (cur + i) mod MAX_TASKS)
     (first_u32 1 (MAX_TASKS + 1) (\<lambda>i. t_state (ts ! unat ((cur + i) mod MAX_TASKS)) = TASK_RUNNABLE))"

lemma unat_next: "unat cur < 16 \<Longrightarrow> unat i \<le> 16 \<Longrightarrow> unat ((cur + i) mod MAX_TASKS) = (unat cur + unat i) mod 16"
  by (simp add: MAX_TASKS_def unat_mod unat_word_ariths)

lemma next_index_SomeD:
  assumes "next_index ts cur = Some idx" "unat cur < 16"
  shows "unat idx < 16" "t_state (ts ! unat idx) = TASK_RUNNABLE"
    "j < 16 \<Longrightarrow> t_state (ts ! j) = TASK_RUNNABLE \<Longrightarrow> cyc (unat cur) (unat idx) \<le> cyc (unat cur) j"
proof -
  obtain i where i: "first_u32 1 (MAX_TASKS + 1) (\<lambda>i. t_state (ts ! unat ((cur + i) mod MAX_TASKS)) = TASK_RUNNABLE) = Some i"
      "idx = (cur + i) mod MAX_TASKS" using assms(1) by (auto simp: next_index_def)
  note F = first_u32_SomeD [OF i(1)]
  have b: "1 \<le> unat i" "unat i \<le> 16" using F by (auto simp: MAX_TASKS_def word_le_nat_alt word_less_nat_alt)
  have u: "unat idx = (unat cur + unat i) mod 16" using unat_next assms(2) b i(2) by simp
  then show "unat idx < 16" by simp
  show "t_state (ts ! unat idx) = TASK_RUNNABLE" using F i(2) by simp
  show "cyc (unat cur) (unat idx) \<le> cyc (unat cur) j" if j: "j < 16" "t_state (ts ! j) = TASK_RUNNABLE"
  proof (rule ccontr)
    assume "\<not> ?thesis"
    then have l: "cyc (unat cur) j < unat i - 1" using cyc_step [OF assms(2) b] u by simp
    let ?k = "word_of_nat (Suc (cyc (unat cur) j)) :: u32"
    have k: "unat ?k = Suc (cyc (unat cur) j)" using cyc_less [of "unat cur" j] by (simp add: unat_of_nat del: of_nat_Suc)
    have "unat ((cur + ?k) mod MAX_TASKS) = j"
      using unat_next [OF assms(2), of ?k] k cyc_less [of "unat cur" j] cyc_inv [OF assms(2) j(1)] by simp
    moreover have "1 \<le> ?k" "?k < i" unfolding word_le_nat_alt word_less_nat_alt k using l by simp_all
    moreover have "\<not> t_state (ts ! unat ((cur + k) mod MAX_TASKS)) = TASK_RUNNABLE" if "1 \<le> k" "k < i" for k
      using F that by simp
    ultimately show False using j(2) by metis
  qed
qed

lemma next_index_NoneD:
  assumes "next_index ts cur = None" "unat cur < 16" "j < 16"
  shows "t_state (ts ! j) \<noteq> TASK_RUNNABLE"
proof -
  let ?k = "word_of_nat (Suc (cyc (unat cur) j)) :: u32"
  have k: "unat ?k = Suc (cyc (unat cur) j)" using cyc_less [of "unat cur" j] by (simp add: unat_of_nat del: of_nat_Suc)
  have "unat ((cur + ?k) mod MAX_TASKS) = j"
    using unat_next [OF assms(2), of ?k] k cyc_less [of "unat cur" j] cyc_inv [OF assms(2,3)] by simp
  moreover have "first_u32 1 (MAX_TASKS + 1) (\<lambda>i. t_state (ts ! unat ((cur + i) mod MAX_TASKS)) = TASK_RUNNABLE) = None"
    using assms(1) by (simp add: next_index_def)
  ultimately show ?thesis
    using first_u32_NoneD [of 1 "MAX_TASKS + 1" "\<lambda>i. t_state (ts ! unat ((cur + i) mod MAX_TASKS)) = TASK_RUNNABLE" ?k]
      k cyc_less [of "unat cur" j]
    by (auto simp: word_le_nat_alt word_less_nat_alt MAX_TASKS_def)
qed

section \<open>Yielding\<close>

lemma push_vars: "sched_vars (push v s) = sched_vars s" "reg_esp (push v s) = reg_esp s - 4"
  by (simp_all add: push_def sched_vars_def)

lemma switch_vars:
  "sched_vars (sched_context_switch i sp s) =
     ((tasks s)[unat i := (tasks s ! unat i)\<lparr>t_stack_pointer := reg_esp s - 16\<rparr>], current_task s, next_task_id s)"
  by (simp add: sched_context_switch_def Let_def pop_def sched_vars_def set_task_def push_def)

lemma tty_more_sched: "tty_state.more t = tty_state.more s \<Longrightarrow> sched_vars t = sched_vars s" for s t :: "'a sched_state_scheme"
  by (cases s, cases t) (simp add: sched_vars_def)

lemma printk_sched [simp]: "sched_vars (snd (printk f a s)) = sched_vars s" for s :: "'a sched_state_scheme"
  by (rule tty_more_sched) simp

text \<open>The task table when \<open>old\<close> hands over to \<open>idx\<close>.\<close>

definition handover :: "task list \<Rightarrow> nat \<Rightarrow> nat \<Rightarrow> u32 \<Rightarrow> task list" where
  "handover ts old idx sp =
     (let ts = (if t_state (ts ! old) = TASK_RUNNING then ts[old := (ts ! old)\<lparr>t_state := TASK_RUNNABLE\<rparr>] else ts);
          ts = ts[idx := (ts ! idx)\<lparr>t_state := TASK_RUNNING\<rparr>]
      in ts[old := (ts ! old)\<lparr>t_stack_pointer := sp\<rparr>])"

lemma handover_nth:
  assumes "length ts = 16" "old < 16" "idx < 16" "i < 16"
  shows "t_state (handover ts old idx sp ! i) = (if i = idx then TASK_RUNNING
      else if i = old \<and> t_state (ts ! old) = TASK_RUNNING then TASK_RUNNABLE else t_state (ts ! i))"
    "t_stack (handover ts old idx sp ! i) = t_stack (ts ! i)" "t_entry (handover ts old idx sp ! i) = t_entry (ts ! i)"
    "t_id (handover ts old idx sp ! i) = t_id (ts ! i)" "t_address_space (handover ts old idx sp ! i) = t_address_space (ts ! i)"
    "i \<noteq> old \<Longrightarrow> i \<noteq> idx \<Longrightarrow> handover ts old idx sp ! i = ts ! i"
    "length (handover ts old idx sp) = 16"
  using assms by (auto simp: handover_def Let_def nth_list_update)

lemma paging_sched [simp]:
  "sched_vars (paging_load_directory a s) = sched_vars s" "reg_esp (paging_load_directory a s) = reg_esp s"
  by (simp_all add: paging_load_directory_def sched_vars_def)

lemma kernel_task_sched [simp]:
  "sched_vars (sched_set_kernel_task a n s) = sched_vars s" "reg_esp (sched_set_kernel_task a n s) = reg_esp s"
  by (simp_all add: sched_set_kernel_task_def tss_set_kernel_stack_def sched_vars_def)

lemma sched_yield_vars:
  assumes "sched_yield s = Some (sw, t)" "length (tasks s) = 16"
  defines "ts \<equiv> map (reaped s) [0..<16]"
  shows "\<exists>sp. sched_vars t = (case next_index ts (current_task s) of
      None \<Rightarrow> (ts, current_task s, next_task_id s)
    | Some idx \<Rightarrow> (handover ts (unat (current_task s)) (unat idx) sp, idx, next_task_id s))"
    "sw \<longleftrightarrow> next_index ts (current_task s) \<noteq> None"
proof -
  obtain u where u: "reap_zombies s = Some u" using assms(1) by (auto simp: sched_yield_def Option.bind_eq_Some_conv)
  have v: "tasks u = ts" "current_task u = current_task s" "next_task_id u = next_task_id s"
    using reap_vars [OF u assms(2)] by (simp_all add: sched_vars_def ts_def)
  let ?F = "first_u32 1 (MAX_TASKS + 1) (\<lambda>i. t_state (task_at ((current_task u + i) mod MAX_TASKS) u) = TASK_RUNNABLE)"
  have n: "next_index ts (current_task s) = map_option (\<lambda>i. (current_task u + i) mod MAX_TASKS) ?F"
    by (simp add: next_index_def task_at_def v)
  show "sw \<longleftrightarrow> next_index ts (current_task s) \<noteq> None"
    using assms(1) by (auto simp: sched_yield_def u n Let_def split: option.splits)
  show "\<exists>sp. sched_vars t = (case next_index ts (current_task s) of
      None \<Rightarrow> (ts, current_task s, next_task_id s)
    | Some idx \<Rightarrow> (handover ts (unat (current_task s)) (unat idx) sp, idx, next_task_id s))"
  proof (cases ?F)
    case None
    then have "sched_vars t = sched_vars u" using assms(1) by (auto simp: sched_yield_def u)
    then show ?thesis using None n v by (simp add: sched_vars_def)
  next
    case (Some i)
    let ?idx = "(current_task u + i) mod MAX_TASKS" and ?old = "current_task u"
    let ?a = "if t_state (task_at ?old u) = TASK_RUNNING then set_task ?old (\<lambda>t. t\<lparr>t_state := TASK_RUNNABLE\<rparr>) u else u"
    let ?b = "(set_task ?idx (\<lambda>t. t\<lparr>t_state := TASK_RUNNING\<rparr>) ?a)\<lparr>current_task := ?idx\<rparr>"
    let ?c = "if t_stack (task_at ?idx ?b) \<noteq> 0 then sched_set_kernel_task (t_stack (task_at ?idx ?b)) KTHREAD_STACK_SIZE ?b else ?b"
    let ?d = "paging_load_directory (t_address_space (task_at ?idx ?c)) ?c"
    have t: "t = sched_context_switch ?old (t_stack_pointer (task_at ?idx ?d)) ?d"
      using assms(1) Some by (simp add: sched_yield_def u Let_def split: if_splits)
    have d: "sched_vars ?d = sched_vars ?b" by simp
    have "sched_vars t = (handover ts (unat ?old) (unat ?idx) (reg_esp ?d - 16), ?idx, next_task_id u)"
      unfolding t switch_vars using sched_varsD [OF d]
      by (simp add: handover_def Let_def set_task_def task_at_def v(1) [symmetric])
    then show ?thesis using Some n v by auto
  qed
qed

lemma handover_wf:
  assumes "sched_wf ts cur run" "next_index ts cur = Some idx" "\<not> run \<Longrightarrow> t_state (ts ! unat cur) = TASK_ZOMBIE"
  shows "sched_wf (handover ts (unat cur) (unat idx) sp) idx True"
proof -
  note W = sched_wfD [OF assms(1)] and N = next_index_SomeD [OF assms(2) W(2)]
  note H = handover_nth [OF W(1,2) N(1)]
  have "t_state (handover ts (unat cur) (unat idx) sp ! i) = TASK_RUNNING \<longleftrightarrow> i = unat idx" if "i < 16" for i
    using H(1) [OF that] W(3) [OF that] by auto
  moreover have "handover ts (unat cur) (unat idx) sp ! i = blank_task"
    if i: "i < 16" "t_state (handover ts (unat cur) (unat idx) sp ! i) = TASK_UNUSED" for i
  proof -
    have "i \<noteq> unat idx" "t_state (ts ! i) = TASK_UNUSED" using H(1) [OF i(1)] i(2) by (auto split: if_splits)
    moreover from this have "i \<noteq> unat cur" using W(3) [of i] assms(3) i by (cases run) auto
    ultimately show ?thesis using H(6) [OF i(1)] W(6) [OF i(1)] by simp
  qed
  moreover have "t_stack (handover ts (unat cur) (unat idx) sp ! i) \<noteq> 0 \<and> t_entry (handover ts (unat cur) (unat idx) sp ! i) \<noteq> None"
    if i: "i < 16" "0 < i" "t_state (handover ts (unat cur) (unat idx) sp ! i) \<noteq> TASK_UNUSED" for i
  proof -
    have "t_state (ts ! i) \<noteq> TASK_UNUSED" using H(1) [OF i(1)] i(3) N(2) by (auto split: if_splits)
    then show ?thesis using H(2,3) [OF i(1)] W(7,8) [OF i(1,2)] by simp
  qed
  moreover have "t_state (handover ts (unat cur) (unat idx) sp ! 0) \<notin> {TASK_UNUSED, TASK_ZOMBIE}"
    using H(1) [of 0] W(4,5) by auto
  ultimately show ?thesis unfolding sched_wf_def using H(7) [of 0] N(1) by auto
qed

lemma yield_wf:
  assumes "sched_wf (tasks s) (current_task s) run" "sched_yield s = Some (sw, t)"
    and "\<not> run \<Longrightarrow> t_state (tasks s ! unat (current_task s)) = TASK_ZOMBIE"
  shows "sched_wf (tasks t) (current_task t) (run \<or> sw)"
proof -
  let ?ts = "map (reaped s) [0..<16]"
  note W = sched_wfD [OF assms(1)] and V = sched_yield_vars [OF assms(2) sched_wfD(1) [OF assms(1)]]
  have R: "sched_wf ?ts (current_task s) run" by (rule reaped_wf [OF assms(1)])
  have z: "t_state (?ts ! unat (current_task s)) = TASK_ZOMBIE" if "\<not> run"
    using assms(3) [OF that] W(2) by (simp add: reaped_def)
  show ?thesis
  proof (cases "next_index ?ts (current_task s)")
    case None
    then show ?thesis using V R by (auto simp: sched_vars_def)
  next
    case (Some idx)
    then show ?thesis using V handover_wf [OF R Some] z by (auto simp: sched_vars_def)
  qed
qed

lemma reaped_runnable: "i < 16 \<Longrightarrow> t_state (map (reaped s) [0..<16] ! i) = TASK_RUNNABLE \<longleftrightarrow> t_state (tasks s ! i) = TASK_RUNNABLE"
  by (auto simp: reaped_def)

lemma yield_choice:
  assumes ok: "sched_wf (tasks s) (current_task s) run" and y: "sched_yield s = Some (sw, t)"
  shows "sw \<longleftrightarrow> (\<exists>j < 16. t_state (tasks s ! j) = TASK_RUNNABLE)"
    "sw \<Longrightarrow> t_state (tasks s ! unat (current_task t)) = TASK_RUNNABLE"
    "j < 16 \<Longrightarrow> t_state (tasks s ! j) = TASK_RUNNABLE \<Longrightarrow>
       cyc (unat (current_task s)) (unat (current_task t)) \<le> cyc (unat (current_task s)) j"
    "j < 16 \<Longrightarrow> t_state (tasks s ! j) = TASK_RUNNABLE \<Longrightarrow> j \<noteq> unat (current_task t) \<Longrightarrow> t_state (tasks t ! j) = TASK_RUNNABLE"
    "\<not> sw \<Longrightarrow> current_task t = current_task s"
proof -
  let ?ts = "map (reaped s) [0..<16]" and ?c = "current_task s"
  note W = sched_wfD [OF ok] and V = sched_yield_vars [OF y sched_wfD(1) [OF ok]]
  have S: "case next_index ?ts ?c of None \<Rightarrow> \<not> sw \<and> current_task t = ?c
     | Some idx \<Rightarrow> sw \<and> current_task t = idx \<and> (\<exists>sp. tasks t = handover ?ts (unat ?c) (unat idx) sp)"
    using V by (auto simp: sched_vars_def split: option.splits)
  show "\<not> sw \<Longrightarrow> current_task t = current_task s" using S by (auto split: option.splits)
  show "sw \<longleftrightarrow> (\<exists>j < 16. t_state (tasks s ! j) = TASK_RUNNABLE)"
  proof (cases "next_index ?ts ?c")
    case None
    then show ?thesis using S next_index_NoneD [OF None W(2)] reaped_runnable [of _ s] by auto
  next
    case (Some idx)
    then show ?thesis using S next_index_SomeD(1,2) [OF Some W(2)] reaped_runnable [of _ s] by auto
  qed
  show "t_state (tasks s ! unat (current_task t)) = TASK_RUNNABLE" if sw
    using that S next_index_SomeD(1,2) [OF _ W(2), of ?ts] reaped_runnable [of _ s] by (auto split: option.splits)
  fix j assume j: "j < 16" "t_state (tasks s ! j) = TASK_RUNNABLE"
  then have rj: "t_state (?ts ! j) = TASK_RUNNABLE" using reaped_runnable by blast
  then obtain idx where idx: "next_index ?ts ?c = Some idx" using next_index_NoneD [OF _ W(2) j(1)] by blast
  then have ct: "current_task t = idx" using S by simp
  show "cyc (unat ?c) (unat (current_task t)) \<le> cyc (unat ?c) j"
    using next_index_SomeD(3) [OF idx W(2) j(1) rj] ct by simp
  show "t_state (tasks t ! j) = TASK_RUNNABLE" if "j \<noteq> unat (current_task t)"
  proof -
    obtain sp where "tasks t = handover ?ts (unat ?c) (unat idx) sp" using S idx by auto
    then show ?thesis
      using handover_nth(1) [of ?ts "unat ?c" "unat idx" j sp] W(2) next_index_SomeD(1) [OF idx W(2)] j(1) rj that ct by auto
  qed
qed

section \<open>Creation and exit\<close>

lemma kmalloc_sched: "kmalloc n s = Some (p, t) \<Longrightarrow> sched_vars t = sched_vars s" for s :: "'a sched_state_scheme"
  by (rule heap_more_sched [OF kmalloc_more])

lemma prepare_sched: "sched_prepare_kthread_stack a n f s = (sp, t) \<Longrightarrow> sched_vars t = sched_vars s" for s :: "'a sched_state_scheme"
  by (auto simp: sched_prepare_kthread_stack_def Let_def store_down_def sched_vars_def)

text \<open>The stack of a thread that has not run yet.\<close>

definition fresh_stack :: "linker_symbols \<Rightarrow> task \<Rightarrow> mem \<Rightarrow> bool" where
  "fresh_stack lk x m \<longleftrightarrow>
     (let sp = t_stack_pointer x in
      sp = ((t_stack x + KTHREAD_STACK_SIZE) AND NOT (KTHREAD_STACK_ALIGN - 1)) - 24 \<and>
      ld32 m sp = 0 \<and> ld32 m (sp + 4) = 0 \<and> ld32 m (sp + 8) = 0 \<and> ld32 m (sp + 12) = 0 \<and>
      ld32 m (sp + 16) = sym_kthread_trampoline lk \<and> ld32 m (sp + 20) = 0)"

lemma prepare_stack:
  assumes "sched_prepare_kthread_stack (t_stack x) KTHREAD_STACK_SIZE (sym_kthread_trampoline lk) s = (t_stack_pointer x, t)"
  shows "fresh_stack lk x (kmem t)"
proof -
  define top where "top = (t_stack x + KTHREAD_STACK_SIZE) AND NOT (KTHREAD_STACK_ALIGN - 1)"
  have "t_stack_pointer x = top - 24" "kmem t = st32 (top - 24) 0 (st32 (top - 20) 0 (st32 (top - 16) 0 (st32 (top - 12) 0
      (st32 (top - 8) (sym_kthread_trampoline lk) (st32 (top - 4) 0 (kmem s))))))"
    using assms by (auto simp: sched_prepare_kthread_stack_def Let_def store_down_def top_def)
  then show ?thesis
    unfolding fresh_stack_def top_def [symmetric] by (simp add: Let_def ld32_st32_apart apart_def)
qed

lemma create_vars:
  assumes "kthread_create lk entry s = Some (r, t)" "length (tasks s) = 16"
  shows "(r = - 1 \<and> (entry = None \<longrightarrow> t = s) \<and> (entry \<noteq> None \<longrightarrow> sched_vars t = (map (reaped s) [0..<16], current_task s, next_task_id s))) \<or>
    (\<exists>f i x. entry = Some f \<and> 0 < i \<and> i < 16 \<and> t_state (reaped s i) = TASK_UNUSED \<and> r = sint (next_task_id s) \<and>
       t_id x = next_task_id s \<and> t_state x = TASK_RUNNABLE \<and> t_stack x \<noteq> 0 \<and> t_entry x = Some f \<and>
       t_address_space x = kernel_page_directory t \<and> fresh_stack lk x (kmem t) \<and>
       sched_vars t = ((map (reaped s) [0..<16])[i := x], current_task s, next_task_id s + 1))"
proof (cases entry)
  case None
  then show ?thesis using assms(1) by (auto simp: kthread_create_def)
next
  case (Some f)
  let ?ts = "map (reaped s) [0..<16]"
  obtain u where u: "reap_zombies s = Some u" using assms(1) Some by (auto simp: kthread_create_def Option.bind_eq_Some_conv)
  have v: "tasks u = ?ts" "current_task u = current_task s" "next_task_id u = next_task_id s"
    using reap_vars [OF u assms(2)] by (simp_all add: sched_vars_def)
  let ?F = "first_u32 1 MAX_TASKS (\<lambda>i. t_state (task_at i u) = TASK_UNUSED)"
  show ?thesis
  proof (cases ?F)
    case None
    then show ?thesis using assms(1) Some u v by (auto simp: kthread_create_def sched_vars_def)
  next
    case F: (Some i)
    have i: "0 < unat i" "unat i < 16" "t_state (?ts ! unat i) = TASK_UNUSED"
      using first_u32_SomeD [OF F] v(1) by (auto simp: MAX_TASKS_def task_at_def word_le_nat_alt word_less_nat_alt)
    obtain stk w where w: "kmalloc KTHREAD_STACK_SIZE u = Some (stk, w)"
      using assms(1) Some u F by (auto simp: kthread_create_def Option.bind_eq_Some_conv)
    have vw: "tasks w = ?ts" "current_task w = current_task s" "next_task_id w = next_task_id s"
      using sched_varsD [OF kmalloc_sched [OF w]] v by simp_all
    show ?thesis
    proof (cases "stk = 0")
      case True
      then show ?thesis using assms(1) Some u F w vw by (auto simp: kthread_create_def sched_vars_def)
    next
      case False
      let ?a = "set_task i (\<lambda>t. t\<lparr>t_state := TASK_RUNNABLE\<rparr>) (set_task i (\<lambda>t. t\<lparr>t_id := next_task_id w\<rparr>) (w\<lparr>next_task_id := next_task_id w + 1\<rparr>))"
      obtain sp b where b: "sched_prepare_kthread_stack stk KTHREAD_STACK_SIZE (sym_kthread_trampoline lk) ?a = (sp, b)"
        by (cases "sched_prepare_kthread_stack stk KTHREAD_STACK_SIZE (sym_kthread_trampoline lk) ?a")
      have vb: "tasks b = ?ts[unat i := (?ts ! unat i)\<lparr>t_id := next_task_id s, t_state := TASK_RUNNABLE\<rparr>]"
          "current_task b = current_task s" "next_task_id b = next_task_id s + 1"
        using sched_varsD [OF prepare_sched [OF b]] vw i(2) by (simp_all add: set_task_def)
      let ?x = "(?ts ! unat i)\<lparr>t_id := next_task_id s, t_state := TASK_RUNNABLE, t_stack_pointer := sp,
        t_address_space := kernel_page_directory b, t_stack := stk, t_entry := entry\<rparr>"
      have "t = set_task i (\<lambda>t. t\<lparr>t_entry := entry\<rparr>) (set_task i (\<lambda>t. t\<lparr>t_stack := stk\<rparr>)
          (set_task i (\<lambda>t. t\<lparr>t_address_space := kernel_page_directory b\<rparr>) (set_task i (\<lambda>t. t\<lparr>t_stack_pointer := sp\<rparr>) b)))"
        "r = sint (t_id (task_at i t))"
        using assms(1) Some u F w False b
        by (auto simp: kthread_create_def Let_def vmm_get_kernel_address_space_def set_task_def)
      then have "sched_vars t = (?ts[unat i := ?x], current_task s, next_task_id s + 1)" "r = sint (next_task_id s)"
          "kernel_page_directory t = kernel_page_directory b" "kmem t = kmem b"
        using vb i(2) by (simp_all add: set_task_def sched_vars_def task_at_def)
      moreover have "t_state (reaped s (unat i)) = TASK_UNUSED" using i(2,3) by simp
      moreover have "fresh_stack lk ?x (kmem b)" using b by (intro prepare_stack [of _ _ ?a]) simp
      ultimately show ?thesis
        using Some i(1,2) False by (intro disjI2 exI [of _ f] exI [of _ "unat i"] exI [of _ ?x]) simp
    qed
  qed
qed

lemma create_wf:
  assumes "sched_ok s" "kthread_create lk entry s = Some (r, t)"
  shows "sched_ok t"
proof -
  note W = sched_wfD [OF assms(1)]
  have R: "sched_wf (map (reaped s) [0..<16]) (current_task s) True" by (rule reaped_wf [OF assms(1)])
  have "sched_wf ((map (reaped s) [0..<16])[i := x]) (current_task s) True"
    if "0 < i" "i < 16" "t_state (reaped s i) = TASK_UNUSED" "t_state x = TASK_RUNNABLE" "t_stack x \<noteq> 0" "t_entry x = Some f" for i x f
  proof -
    have "i \<noteq> unat (current_task s)" using sched_wfD(3) [OF R that(2)] that(2,3) by auto
    then show ?thesis using R that unfolding sched_wf_def by (auto simp: nth_list_update)
  qed
  then show ?thesis using create_vars [OF assms(2) W(1)] R assms(1) by (auto simp: sched_vars_def)
qed

end
