(* ===== verification/SchedProps.thy ===== *)
theory SchedProps
  imports SchedProof
begin

text \<open>
  The scheduler as a state machine.  Between two switches the running task may create threads,
  adopt an address space and do anything that leaves the scheduler's variables alone; a turn
  ends when it yields or exits.  Every state of every such run satisfies the invariant, and a
  runnable task waits at most sixteen turns.
\<close>

section \<open>Steps and turns\<close>

inductive sched_step :: "linker_symbols \<Rightarrow> 'a sched_state_scheme \<Rightarrow> 'a sched_state_scheme \<Rightarrow> bool" for lk where
  create: "kthread_create lk entry s = Some (r, t) \<Longrightarrow> next_task_id s + 1 \<noteq> 0 \<Longrightarrow> sched_step lk s t"
| adopt: "sched_set_current_address_space a s = (r, t) \<Longrightarrow> sched_step lk s t"
| other: "sched_vars t = sched_vars s \<Longrightarrow> sched_step lk s t"

inductive hand_on :: "'a sched_state_scheme \<Rightarrow> 'a sched_state_scheme \<Rightarrow> bool" where
  yield: "sched_yield s = Some (sw, t) \<Longrightarrow> hand_on s t"
| exit: "kthread_exit s = Some (Goes t) \<Longrightarrow> hand_on s t"

definition turn :: "linker_symbols \<Rightarrow> 'a sched_state_scheme \<Rightarrow> 'a sched_state_scheme \<Rightarrow> bool" where
  "turn lk s t \<longleftrightarrow> (\<exists>u. (sched_step lk)\<^sup>*\<^sup>* s u \<and> hand_on u t)"

section \<open>Thread identifiers\<close>

definition ids_ok :: "task list \<Rightarrow> u32 \<Rightarrow> bool" where
  "ids_ok ts n \<longleftrightarrow> (\<forall>i < 16. t_state (ts ! i) \<noteq> TASK_UNUSED \<longrightarrow> t_id (ts ! i) < n) \<and>
     (\<forall>i < 16. \<forall>j < 16. t_state (ts ! i) \<noteq> TASK_UNUSED \<longrightarrow> t_state (ts ! j) \<noteq> TASK_UNUSED \<longrightarrow>
        t_id (ts ! i) = t_id (ts ! j) \<longrightarrow> i = j)"

lemma ids_ok_mono:
  assumes "ids_ok ts n"
    and "\<And>i. i < 16 \<Longrightarrow> t_state (us ! i) \<noteq> TASK_UNUSED \<Longrightarrow> t_state (ts ! i) \<noteq> TASK_UNUSED \<and> t_id (us ! i) = t_id (ts ! i)"
  shows "ids_ok us n"
  using assms unfolding ids_ok_def by metis

lemma ids_ok_reaped: "ids_ok (tasks s) n \<Longrightarrow> ids_ok (map (reaped s) [0..<16]) n"
  by (erule ids_ok_mono) (auto simp: reaped_def split: if_splits)

lemma ids_ok_new:
  assumes "ids_ok ts n" "length ts = 16" "t_id x = n" "n + 1 \<noteq> 0" "i < 16"
  shows "ids_ok (ts[i := x]) (n + 1)"
proof -
  have n: "n < n + 1" using unatSuc [of n] assms(4) by (simp add: word_less_nat_alt add.commute)
  then have "y < n + 1" "y \<noteq> n" if "y < n" for y using that by (auto dest: less_trans)
  then show ?thesis
    using assms n unfolding ids_ok_def by (auto simp: nth_list_update split: if_splits)
qed

section \<open>The invariant along runs\<close>

definition sched_inv :: "'a sched_state_scheme \<Rightarrow> bool" where
  "sched_inv s \<longleftrightarrow> sched_ok s \<and> ids_ok (tasks s) (next_task_id s)"

lemma yield_inv:
  assumes "sched_wf (tasks s) (current_task s) run" "ids_ok (tasks s) (next_task_id s)" "sched_yield s = Some (sw, t)"
    and "\<not> run \<Longrightarrow> t_state (tasks s ! unat (current_task s)) = TASK_ZOMBIE"
  shows "ids_ok (tasks t) (next_task_id t)"
proof -
  let ?ts = "map (reaped s) [0..<16]"
  have R: "sched_wf ?ts (current_task s) run" by (rule reaped_wf [OF assms(1)])
  note W = sched_wfD [OF R] and V = sched_yield_vars [OF assms(3) sched_wfD(1) [OF assms(1)]]
  have I: "ids_ok ?ts (next_task_id s)" by (rule ids_ok_reaped [OF assms(2)])
  show ?thesis
  proof (cases "next_index ?ts (current_task s)")
    case None
    then show ?thesis using V I by (auto simp: sched_vars_def)
  next
    case (Some idx)
    note N = next_index_SomeD(1,2) [OF Some W(2)]
    obtain sp where sp: "tasks t = handover ?ts (unat (current_task s)) (unat idx) sp" "next_task_id t = next_task_id s"
      using V Some by (auto simp: sched_vars_def)
    note H = handover_nth [OF W(1,2) N(1)]
    show ?thesis unfolding sp
      by (rule ids_ok_mono [OF I]) (use H(1,4) N(2) in \<open>auto split: if_splits\<close>)
  qed
qed

lemma zombie_wf:
  assumes "sched_ok s" "current_task s \<noteq> 0" "u = set_task (current_task s) (\<lambda>t. t\<lparr>t_state := TASK_ZOMBIE\<rparr>) s"
  shows "sched_wf (tasks u) (current_task u) False" "t_state (tasks u ! unat (current_task u)) = TASK_ZOMBIE"
    "ids_ok (tasks s) n \<Longrightarrow> ids_ok (tasks u) n" "next_task_id u = next_task_id s" "current_task u = current_task s"
    "j < 16 \<Longrightarrow> t_state (tasks s ! j) = TASK_RUNNABLE \<Longrightarrow> t_state (tasks u ! j) = TASK_RUNNABLE"
proof -
  let ?c = "unat (current_task s)"
  note W = sched_wfD [OF assms(1)]
  have c: "?c < 16" "?c \<noteq> 0" "t_state (tasks s ! ?c) = TASK_RUNNING" using W(2) W(3) [OF W(2)] assms(2) by (simp_all add: unat_eq_0)
  have u: "tasks u = (tasks s)[?c := (tasks s ! ?c)\<lparr>t_state := TASK_ZOMBIE\<rparr>]" "current_task u = current_task s"
    by (simp_all add: assms(3) set_task_def)
  show "sched_wf (tasks u) (current_task u) False"
    using assms(1) c unfolding sched_wf_def u by (auto simp: nth_list_update)
  show "t_state (tasks u ! unat (current_task u)) = TASK_ZOMBIE" unfolding u using W(1) c(1) by simp
  show "ids_ok (tasks u) n" if "ids_ok (tasks s) n"
    by (rule ids_ok_mono [OF that]) (use c W(1) in \<open>auto simp: u nth_list_update split: if_splits\<close>)
  show "next_task_id u = next_task_id s" "current_task u = current_task s" by (simp_all add: assms(3) set_task_def)
  show "t_state (tasks u ! j) = TASK_RUNNABLE" if "j < 16" "t_state (tasks s ! j) = TASK_RUNNABLE"
    using that c unfolding u by (cases "j = ?c") auto
qed

lemma exit_yields:
  assumes "kthread_exit s = Some (Goes t)"
  shows "current_task s \<noteq> 0 \<and> sched_yield (set_task (current_task s) (\<lambda>t. t\<lparr>t_state := TASK_ZOMBIE\<rparr>) s) = Some (True, t)"
  using assms by (auto simp: kthread_exit_def panic_def Option.bind_eq_Some_conv arch_halt_def split: if_splits prod.splits)

lemma old_runnable:
  assumes "sched_ok s" "sched_yield s = Some (True, t)"
  shows "t_state (tasks t ! unat (current_task s)) = TASK_RUNNABLE"
proof -
  let ?ts = "map (reaped s) [0..<16]"
  have R: "sched_ok s \<Longrightarrow> sched_wf ?ts (current_task s) True" by (rule reaped_wf)
  note W = sched_wfD [OF R [OF assms(1)]] and V = sched_yield_vars [OF assms(2) sched_wfD(1) [OF assms(1)]]
  obtain idx where i: "next_index ?ts (current_task s) = Some idx" using V(2) by auto
  note N = next_index_SomeD(1,2) [OF i W(2)]
  have r: "t_state (?ts ! unat (current_task s)) = TASK_RUNNING" using W(3) [OF W(2)] by simp
  then have "unat (current_task s) \<noteq> unat idx" using N(2) by auto
  moreover obtain sp where "tasks t = handover ?ts (unat (current_task s)) (unat idx) sp"
    using V(1) i by (auto simp: sched_vars_def)
  ultimately show ?thesis using handover_nth(1) [OF W(1,2) N(1) W(2)] r by simp
qed

lemma hand_on_inv: "hand_on s t \<Longrightarrow> sched_inv s \<Longrightarrow> sched_inv t"
proof (induction rule: hand_on.induct)
  case (yield s sw t)
  then show ?case using yield_wf [of s True sw t] yield_inv [of s True sw t] by (auto simp: sched_inv_def)
next
  case (exit s t)
  let ?u = "set_task (current_task s) (\<lambda>t. t\<lparr>t_state := TASK_ZOMBIE\<rparr>) s"
  note E = exit_yields [OF exit.hyps]
  note Z = zombie_wf [OF conjunct1 [OF exit.prems [unfolded sched_inv_def]] conjunct1 [OF E] refl]
  show ?case
    using yield_wf [OF Z(1) conjunct2 [OF E]] yield_inv [OF Z(1) _ conjunct2 [OF E]] Z(2,3,4) exit.prems
    by (auto simp: sched_inv_def)
qed

lemma adopt_vars:
  assumes "sched_set_current_address_space a s = (r, t)"
  shows "current_task t = current_task s" "next_task_id t = next_task_id s"
    "tasks t = tasks s \<or> current_task s \<noteq> 0 \<and>
       tasks t = (tasks s)[unat (current_task s) := (tasks s ! unat (current_task s))\<lparr>t_address_space := a\<rparr>]"
  using assms by (auto simp: sched_set_current_address_space_def Let_def paging_load_directory_def set_task_def split: if_splits)

lemma adopt_wf:
  assumes "sched_ok s" "sched_set_current_address_space a s = (r, t)"
  shows "sched_ok t" "i < 16 \<Longrightarrow> t_state (tasks t ! i) = t_state (tasks s ! i)" "i < 16 \<Longrightarrow> t_id (tasks t ! i) = t_id (tasks s ! i)"
proof -
  note A = adopt_vars [OF assms(2)] and W = sched_wfD [OF assms(1)]
  show *: "t_state (tasks t ! i) = t_state (tasks s ! i)" "t_id (tasks t ! i) = t_id (tasks s ! i)" if "i < 16" for i
    using A(3) W(1,2) that by (auto simp: nth_list_update)
  have r: "t_state (tasks s ! unat (current_task s)) = TASK_RUNNING" using W(3) [OF W(2)] by simp
  show "sched_ok t"
    using assms(1) A r unfolding sched_wf_def by (auto simp: nth_list_update split: if_splits)
qed

lemma step_inv: "sched_step lk s t \<Longrightarrow> sched_inv s \<Longrightarrow> sched_inv t"
proof (induction rule: sched_step.induct)
  case (create entry s r t)
  note I = create.prems [unfolded sched_inv_def]
  have "ids_ok (tasks t) (next_task_id t)"
    using create_vars [OF create.hyps(1) sched_wfD(1) [OF conjunct1 [OF I]]] I
      ids_ok_reaped [of s] ids_ok_new [of "map (reaped s) [0..<16]" "next_task_id s"] create.hyps(2)
    by (auto simp: sched_vars_def)
  then show ?case using create_wf [OF _ create.hyps(1)] I by (simp add: sched_inv_def)
next
  case (adopt a s r t)
  then show ?case
    using adopt_wf [of s a r t] adopt_vars(2) [OF adopt.hyps] ids_ok_mono [of "tasks s" "next_task_id s" "tasks t"]
    by (auto simp: sched_inv_def)
next
  case (other t s)
  then show ?case by (simp add: sched_inv_def sched_vars_def)
qed

lemma sched_init_vars:
  assumes "length (tasks s) = 16"
  shows "sched_vars (sched_init s) = (blank_task\<lparr>t_id := next_task_id s, t_state := TASK_RUNNING,
     t_address_space := kernel_page_directory s\<rparr> # replicate 15 blank_task, 0, next_task_id s + 1)"
proof -
  let ?body = "\<lambda>i s. set_task i (\<lambda>t. t\<lparr>t_id := 0, t_state := TASK_UNUSED, t_stack_pointer := 0,
     t_address_space := 0, t_entry := None, t_stack := 0\<rparr>) s"
  let ?P = "\<lambda>k u. length (tasks u) = 16 \<and> next_task_id u = next_task_id s \<and> kernel_page_directory u = kernel_page_directory s \<and>
     (\<forall>i < unat k. tasks u ! i = blank_task)"
  have "?P MAX_TASKS (for_u32 0 MAX_TASKS ?body s)"
  proof (rule for_u32_invariant [where P = ?P])
    fix k u assume k: "0 \<le> k" "k < MAX_TASKS" "?P k u"
    then have "unat (k + 1) = Suc (unat k)" by (auto intro: unat_inc)
    then show "?P (k + 1) (?body k u)"
      using k by (auto simp: set_task_def nth_list_update less_Suc_eq MAX_TASKS_def word_less_nat_alt blank_task_def)
  qed (use assms in \<open>auto simp: MAX_TASKS_def\<close>)
  then have l: "length (tasks (for_u32 0 MAX_TASKS ?body s)) = 16" "next_task_id (for_u32 0 MAX_TASKS ?body s) = next_task_id s"
      "kernel_page_directory (for_u32 0 MAX_TASKS ?body s) = kernel_page_directory s"
      "\<And>i. i < 16 \<Longrightarrow> tasks (for_u32 0 MAX_TASKS ?body s) ! i = blank_task" by (auto simp: MAX_TASKS_def)
  have b: "tasks (for_u32 0 MAX_TASKS ?body s) = replicate 16 blank_task"
    using l(1,4) by (intro nth_equalityI) simp_all
  have r: "replicate 16 blank_task = blank_task # replicate 15 blank_task" by (simp add: numeral_eq_Suc)
  show ?thesis
    unfolding sched_init_def Let_def sched_vars_def by (simp add: set_task_def b l r vmm_get_kernel_address_space_def)
qed

lemma nth_first: "(x # replicate 15 y) ! i = (if i = 0 then x else y)" if "i < 16"
  using that by (cases i) auto

lemma sched_init_inv: "length (tasks s) = 16 \<Longrightarrow> next_task_id s = 0 \<Longrightarrow> sched_inv (sched_init s)"
proof -
  assume a: "length (tasks s) = 16" "next_task_id s = 0"
  note V = sched_init_vars [OF a(1)]
  have t: "tasks (sched_init s) = blank_task\<lparr>t_state := TASK_RUNNING, t_address_space := kernel_page_directory s\<rparr> # replicate 15 blank_task"
      "current_task (sched_init s) = 0" "next_task_id (sched_init s) = 1"
    using V a(2) by (simp_all add: sched_vars_def blank_task_def)
  show ?thesis
    unfolding sched_inv_def sched_wf_def ids_ok_def t by (auto simp: nth_first blank_task_def)
qed

section \<open>Waiting\<close>

lemma step_keeps:
  assumes "sched_step lk s t" "sched_ok s"
  shows "current_task t = current_task s"
    "j < 16 \<Longrightarrow> t_state (tasks s ! j) = TASK_RUNNABLE \<Longrightarrow> t_state (tasks t ! j) = TASK_RUNNABLE"
proof -
  have "current_task t = current_task s \<and> (\<forall>j < 16. t_state (tasks s ! j) = TASK_RUNNABLE \<longrightarrow> t_state (tasks t ! j) = TASK_RUNNABLE)"
    using assms
  proof (induction rule: sched_step.induct)
    case (create entry s r t)
    show ?case
      using create_vars [OF create.hyps(1) sched_wfD(1) [OF create.prems]]
      by (auto simp: sched_vars_def reaped_def nth_list_update)
  next
    case (adopt a s r t)
    then show ?case using adopt_wf(2) [of s a r t] adopt_vars(1) [OF adopt.hyps] by auto
  qed (simp add: sched_vars_def)
  then show "current_task t = current_task s"
    "j < 16 \<Longrightarrow> t_state (tasks s ! j) = TASK_RUNNABLE \<Longrightarrow> t_state (tasks t ! j) = TASK_RUNNABLE" by auto
qed

lemma steps_keep:
  assumes "(sched_step lk)\<^sup>*\<^sup>* s t" "sched_inv s"
  shows "sched_inv t \<and> current_task t = current_task s \<and>
    (\<forall>j < 16. t_state (tasks s ! j) = TASK_RUNNABLE \<longrightarrow> t_state (tasks t ! j) = TASK_RUNNABLE)"
  using assms
proof (induction rule: rtranclp_induct)
  case (step t u)
  then show ?case using step_inv [of lk t u] step_keeps [of lk t u] by (auto simp: sched_inv_def)
qed simp

lemma hand_on_choice:
  assumes "hand_on s t" "sched_ok s" "j < 16" "t_state (tasks s ! j) = TASK_RUNNABLE"
  shows "cyc (unat (current_task s)) (unat (current_task t)) \<le> cyc (unat (current_task s)) j"
    "j \<noteq> unat (current_task t) \<Longrightarrow> t_state (tasks t ! j) = TASK_RUNNABLE"
  using assms
proof (atomize (full), induction rule: hand_on.induct)
  case (yield s sw t)
  then show ?case using yield_choice(3,4) [of s True sw t j] by blast
next
  case (exit s t)
  note E = exit_yields [OF exit.hyps]
  note Z = zombie_wf [OF _ conjunct1 [OF E] refl]
  show ?case
    using exit.prems yield_choice(3,4) [OF Z(1) conjunct2 [OF E], of j] Z(5) Z(6) [of j] by force
qed

lemma turn_progress:
  assumes "turn lk s t" "sched_inv s" "j < 16" "t_state (tasks s ! j) = TASK_RUNNABLE"
  shows "sched_inv t" "unat (current_task t) = j \<or>
    t_state (tasks t ! j) = TASK_RUNNABLE \<and> cyc (unat (current_task t)) j < cyc (unat (current_task s)) j"
proof -
  obtain u where u: "(sched_step lk)\<^sup>*\<^sup>* s u" "hand_on u t" using assms(1) by (auto simp: turn_def)
  note K = steps_keep [OF u(1) assms(2)]
  then show i: "sched_inv t" using hand_on_inv [OF u(2)] by simp
  have ok: "sched_ok u" "sched_ok t" using K i unfolding sched_inv_def by blast+
  have c: "unat (current_task s) < 16" "unat (current_task t) < 16" using sched_wfD(2) ok K by auto
  note H = hand_on_choice [OF u(2) ok(1) assms(3)]
  have r: "t_state (tasks u ! j) = TASK_RUNNABLE" using K assms(3,4) by blast
  have "cyc (unat (current_task s)) (unat (current_task t)) \<le> cyc (unat (current_task s)) j" using H(1) [OF r] K by simp
  then show "unat (current_task t) = j \<or>
    t_state (tasks t ! j) = TASK_RUNNABLE \<and> cyc (unat (current_task t)) j < cyc (unat (current_task s)) j"
    using H(2) [OF r] cyc_inj [OF c assms(3)] cyc_decreases [OF c assms(3)] by fastforce
qed

lemma waiting:
  assumes "successively (turn lk) (s # ss)" "sched_inv s" "j < 16" "t_state (tasks s ! j) = TASK_RUNNABLE"
    "cyc (unat (current_task s)) j < length ss"
  shows "\<exists>t \<in> set ss. unat (current_task t) = j"
  using assms
proof (induction ss arbitrary: s)
  case (Cons t ss)
  have t: "turn lk s t" using Cons.prems(1) by simp
  note T = turn_progress [OF t Cons.prems(2-4)]
  show ?case
  proof (cases "unat (current_task t) = j")
    case False
    then show ?thesis using Cons.IH [of t] Cons.prems T by auto
  qed simp
qed simp

section \<open>Properties\<close>

text \<open>
  C7: in every state the scheduler can reach from \<open>sched_init\<close>, by any interleaving of thread
  creation, address-space adoption, yields, exits and code that leaves its variables alone,
  exactly one task is running and it is the current one, task 0 is never unused or a zombie,
  unused slots are blank, every other slot has a stack and an entry point, and no two used slots
  share a thread identifier (while the identifier counter has not wrapped).
\<close>

theorem sched_invariant:
  assumes "length (tasks s) = 16" "next_task_id s = 0"
    and "(\<lambda>s t. sched_step lk s t \<or> hand_on s t)\<^sup>*\<^sup>* (sched_init s) t"
  shows "sched_wf (tasks t) (current_task t) True \<and> ids_ok (tasks t) (next_task_id t)"
proof -
  have "sched_inv t"
    using assms(3)
  proof (induction rule: rtranclp_induct)
    case base
    show ?case using assms(1,2) by (rule sched_init_inv)
  next
    case (step t u)
    then show ?case using step_inv [of lk t u] hand_on_inv [of t u] by blast
  qed
  then show ?thesis by (simp add: sched_inv_def)
qed

text \<open>
  C25: \<open>sched_yield\<close> is round robin: it switches exactly when some task is runnable, to the first
  runnable one after the current task in cyclic order, which becomes the running task; the task
  that yields and every other runnable task stay runnable.
\<close>

theorem sched_yield_round_robin:
  assumes "sched_wf (tasks s) (current_task s) True" "sched_yield s = Some (sw, t)" "j < 16" "t_state (tasks s ! j) = TASK_RUNNABLE"
  shows "sw \<and> t_state (tasks s ! unat (current_task t)) = TASK_RUNNABLE \<and>
    t_state (tasks t ! unat (current_task t)) = TASK_RUNNING \<and>
    (unat (current_task t) + 15 - unat (current_task s)) mod 16 \<le> (j + 15 - unat (current_task s)) mod 16 \<and>
    (j \<noteq> unat (current_task t) \<longrightarrow> t_state (tasks t ! j) = TASK_RUNNABLE) \<and>
    t_state (tasks t ! unat (current_task s)) = TASK_RUNNABLE"
proof -
  note Y = yield_choice [OF assms(1,2)]
  have sw using Y(1) assms(3,4) by blast
  have ok: "sched_ok t" using yield_wf [OF assms(1,2)] by simp
  note W = sched_wfD [OF assms(1)] and T = sched_wfD [OF ok]
  have "t_state (tasks t ! unat (current_task s)) = TASK_RUNNABLE"
    using old_runnable [OF assms(1)] assms(2) \<open>sw\<close> by simp
  then show ?thesis
    using Y(2) [OF \<open>sw\<close>] Y(3,4) [OF assms(3,4)] T(3) [OF T(2)] \<open>sw\<close> by (simp add: cyc_def)
qed

text \<open>
  C8: no runnable task starves.  In any run of sixteen turns, where a turn is any activity of
  the running task (creating threads and adopting address spaces included) ended by a yield or
  an exit, a task that is runnable at the start gets the processor.
\<close>

theorem sched_no_starvation:
  assumes "sched_wf (tasks s) (current_task s) True" "ids_ok (tasks s) (next_task_id s)"
    and "successively (turn lk) (s # ss)" "length ss = 16" "j < 16" "t_state (tasks s ! j) = TASK_RUNNABLE"
  shows "\<exists>t \<in> set ss. unat (current_task t) = j"
  using waiting [OF assms(3) _ assms(5,6)] assms(1,2,4) cyc_less by (simp add: sched_inv_def)

end
