(* ===== verification/UserProof.thy ===== *)
theory UserProof
  imports User SchedProps
begin

text \<open>
  The process table.  Its invariant ties it to the scheduler: identifiers are unique, a process
  has a parent only while that parent is alive, an exited process is kept exactly as long as
  a living parent can wait for it, and every process that is alive has a live task.
\<close>

section \<open>What the other components leave alone\<close>

definition user_vars :: "'a user_state_scheme \<Rightarrow> user_process list \<times> u32" where
  "user_vars s = (processes s, next_pid s)"

lemma sched_more_user: "sched_state.more t = sched_state.more s \<Longrightarrow> user_vars t = user_vars s" for s t :: "'a user_state_scheme"
  by (cases s, cases t) (simp add: user_vars_def)

lemma heap_more_sched_more: "heap_state.more t = heap_state.more s \<Longrightarrow> sched_state.more t = sched_state.more s" for s t :: "'a sched_state_scheme"
  by (cases s, cases t) simp

lemma vmm_more_sched_more: "vmm_state.more t = vmm_state.more s \<Longrightarrow> sched_state.more t = sched_state.more s" for s t :: "'a sched_state_scheme"
  by (cases s, cases t) simp

lemma tty_more_sched_more: "tty_state.more t = tty_state.more s \<Longrightarrow> sched_state.more t = sched_state.more s" for s t :: "'a sched_state_scheme"
  by (cases s, cases t) simp

lemma set_task_more [simp]: "sched_state.more (set_task i f s) = sched_state.more s"
  by (simp add: set_task_def)

lemma destroy_more_sched [simp]: "sched_state.more (vmm_destroy_address_space a s) = sched_state.more s" for s :: "'a sched_state_scheme"
  by (rule vmm_more_sched_more [OF destroy_more])

lemma kfree_more_sched: "kfree p s = Some t \<Longrightarrow> sched_state.more t = sched_state.more s" for s :: "'a sched_state_scheme"
  by (rule heap_more_sched_more [OF kfree_more])

lemma kmalloc_more_sched: "kmalloc n s = Some (p, t) \<Longrightarrow> sched_state.more t = sched_state.more s" for s :: "'a sched_state_scheme"
  by (rule heap_more_sched_more [OF kmalloc_more])

lemma task_cleanup_more: "task_cleanup i s = Some t \<Longrightarrow> sched_state.more t = sched_state.more s"
  by (auto simp: task_cleanup_def Let_def dest!: kfree_more_sched split: if_splits)

lemma reap_more:
  assumes "reap_zombies s = Some t"
  shows "sched_state.more t = sched_state.more s"
  by (rule for_opt_partial [OF assms [unfolded reap_zombies_def], where P = "\<lambda>_ u. sched_state.more u = sched_state.more s"])
    (auto simp: MAX_TASKS_def dest: task_cleanup_more split: if_splits)

lemma printk_more_sched [simp]: "sched_state.more (snd (printk f a s)) = sched_state.more s" for s :: "'a sched_state_scheme"
  by (rule tty_more_sched_more) simp

lemma switch_more [simp]: "sched_state.more (sched_context_switch i sp s) = sched_state.more s"
  by (simp add: sched_context_switch_def Let_def push_def pop_def)

lemma paging_more [simp]:
  "sched_state.more (paging_load_directory a s) = sched_state.more s" "sched_state.more (sched_set_kernel_task b n s) = sched_state.more s"
  for s :: "'a sched_state_scheme"
  by (simp_all add: paging_load_directory_def sched_set_kernel_task_def tss_set_kernel_stack_def)

lemma yield_more: "sched_yield s = Some (sw, t) \<Longrightarrow> sched_state.more t = sched_state.more s"
  by (auto simp: sched_yield_def Option.bind_eq_Some_conv Let_def dest!: reap_more split: option.splits)

lemma exit_more: "kthread_exit s = Some (Goes t) \<Longrightarrow> sched_state.more t = sched_state.more s"
  using yield_more exit_yields by fastforce

lemma create_more: "kthread_create lk entry s = Some (r, t) \<Longrightarrow> sched_state.more t = sched_state.more s"
  by (auto simp: kthread_create_def Option.bind_eq_Some_conv Let_def sched_prepare_kthread_stack_def store_down_def
      dest!: reap_more kmalloc_more_sched split: option.splits if_splits)

lemma adopt_more: "sched_set_current_address_space a s = (r, t) \<Longrightarrow> sched_state.more t = sched_state.more s"
  by (auto simp: sched_set_current_address_space_def Let_def split: if_splits)

section \<open>The invariant of the process table\<close>

abbreviation used :: "user_process \<Rightarrow> bool" where
  "used p \<equiv> p_state p \<noteq> USER_PROCESS_FREE"

definition proc_ok :: "u32 \<Rightarrow> user_process \<Rightarrow> bool" where
  "proc_ok np p \<longleftrightarrow> (p_state p = USER_PROCESS_FREE \<longrightarrow> p = zero_process) \<and>
     (used p \<longrightarrow> 0 < p_pid p \<and> p_pid p < np \<and> p_parent_pid p < p_pid p) \<and>
     length (p_pages p) = 16 \<and> length (p_path p) = 32 \<and> 0 \<in> set (p_path p) \<and> p_page_count p \<le> 16 \<and>
     (p_state p = USER_PROCESS_EXITED \<longrightarrow> p_parent_pid p \<noteq> 0 \<and> p_page_count p = 0 \<and> p_address_space p = 0)"

definition proc_wf :: "user_process list \<Rightarrow> u32 \<Rightarrow> bool" where
  "proc_wf ps np \<longleftrightarrow> length ps = 16 \<and> (\<forall>i < 16. proc_ok np (ps ! i)) \<and>
     (\<forall>i < 16. \<forall>j < 16. used (ps ! i) \<longrightarrow> used (ps ! j) \<longrightarrow> p_pid (ps ! i) = p_pid (ps ! j) \<longrightarrow> i = j) \<and>
     (\<forall>i < 16. used (ps ! i) \<longrightarrow> p_parent_pid (ps ! i) \<noteq> 0 \<longrightarrow>
        (\<exists>j < 16. p_state (ps ! j) = USER_PROCESS_RUNNING \<and> p_pid (ps ! j) = p_parent_pid (ps ! i)))"

lemma proc_wfD:
  assumes "proc_wf ps np"
  shows "length ps = 16" "i < 16 \<Longrightarrow> proc_ok np (ps ! i)"
    "i < 16 \<Longrightarrow> j < 16 \<Longrightarrow> used (ps ! i) \<Longrightarrow> used (ps ! j) \<Longrightarrow> p_pid (ps ! i) = p_pid (ps ! j) \<Longrightarrow> i = j"
    "i < 16 \<Longrightarrow> used (ps ! i) \<Longrightarrow> p_parent_pid (ps ! i) \<noteq> 0 \<Longrightarrow>
       \<exists>j < 16. p_state (ps ! j) = USER_PROCESS_RUNNING \<and> p_pid (ps ! j) = p_parent_pid (ps ! i)"
  using assms unfolding proc_wf_def by blast+

lemma proc_okD:
  assumes "proc_ok np p"
  shows "p_state p = USER_PROCESS_FREE \<Longrightarrow> p = zero_process" "used p \<Longrightarrow> p_pid p \<noteq> 0" "used p \<Longrightarrow> p_pid p < np"
    "used p \<Longrightarrow> p_parent_pid p < p_pid p" "length (p_pages p) = 16" "p_page_count p \<le> 16"
    "p_state p = USER_PROCESS_EXITED \<Longrightarrow> p_parent_pid p \<noteq> 0"
  using assms unfolding proc_ok_def by auto

lemma proc_ok_mono: "proc_ok np p \<Longrightarrow> np \<le> m \<Longrightarrow> proc_ok m p"
  unfolding proc_ok_def by (auto intro: less_le_trans)

lemma proc_wf_mono: "proc_wf ps np \<Longrightarrow> np \<le> m \<Longrightarrow> proc_wf ps m"
  unfolding proc_wf_def by (auto intro: proc_ok_mono)

lemma zero_process_ok [simp]: "proc_ok np zero_process" "p_state zero_process = USER_PROCESS_FREE"
  by (simp_all add: proc_ok_def zero_process_def)

text \<open>A change of one used process that keeps its identity and does not stop being a parent.\<close>

lemma proc_wf_update:
  assumes "proc_wf ps np" "j < 16" "used (ps ! j)" "used p" "proc_ok np p"
    "p_pid p = p_pid (ps ! j)" "p_parent_pid p = p_parent_pid (ps ! j)"
    "p_state (ps ! j) = USER_PROCESS_RUNNING \<Longrightarrow> p_state p = USER_PROCESS_RUNNING"
  shows "proc_wf (ps[j := p]) np"
proof -
  note W = proc_wfD [OF assms(1)]
  have "\<exists>k < 16. p_state (ps[j := p] ! k) = USER_PROCESS_RUNNING \<and> p_pid (ps[j := p] ! k) = p_parent_pid (ps[j := p] ! i)"
    if i: "i < 16" "used (ps[j := p] ! i)" "p_parent_pid (ps[j := p] ! i) \<noteq> 0" for i
  proof -
    have "used (ps ! i)" "p_parent_pid (ps[j := p] ! i) = p_parent_pid (ps ! i)"
      using i assms(2,3,7) W(1) by (cases "i = j"; simp)+
    then obtain k where "k < 16" "p_state (ps ! k) = USER_PROCESS_RUNNING" "p_pid (ps ! k) = p_parent_pid (ps[j := p] ! i)"
      using W(4) [OF i(1)] i(3) by auto
    then show ?thesis using assms(2,6,8) W(1) by (intro exI [of _ k]) (auto simp: nth_list_update)
  qed
  moreover have "a = b" if "a < 16" "b < 16" "used (ps[j := p] ! a)" "used (ps[j := p] ! b)"
      "p_pid (ps[j := p] ! a) = p_pid (ps[j := p] ! b)" for a b
  proof -
    have "used (ps ! c)" "p_pid (ps[j := p] ! c) = p_pid (ps ! c)" if "c < 16" "used (ps[j := p] ! c)" for c
      using that assms(2,3,6) W(1) by (cases "c = j"; simp)+
    then show ?thesis using W(3) [OF that(1,2)] that by simp
  qed
  ultimately show ?thesis
    unfolding proc_wf_def using W(1,2) assms(2,5) by (auto simp: nth_list_update)
qed

text \<open>Releasing a process that is nobody's parent.\<close>

lemma proc_wf_release:
  assumes "proc_wf ps np" "j < 16"
    and "\<And>i. i < 16 \<Longrightarrow> used (ps ! i) \<Longrightarrow> p_parent_pid (ps ! i) \<noteq> 0 \<Longrightarrow> p_parent_pid (ps ! i) \<noteq> p_pid (ps ! j)"
  shows "proc_wf (ps[j := zero_process]) np"
proof -
  note W = proc_wfD [OF assms(1)]
  have "\<exists>k < 16. p_state (ps[j := zero_process] ! k) = USER_PROCESS_RUNNING \<and> p_pid (ps[j := zero_process] ! k) = p_parent_pid (ps[j := zero_process] ! i)"
    if i: "i < 16" "used (ps[j := zero_process] ! i)" "p_parent_pid (ps[j := zero_process] ! i) \<noteq> 0" for i
  proof -
    have u: "i \<noteq> j" "used (ps ! i)" "p_parent_pid (ps ! i) \<noteq> 0" using i assms(2) W(1) by (auto simp: nth_list_update split: if_splits)
    then obtain k where "k < 16" "p_state (ps ! k) = USER_PROCESS_RUNNING" "p_pid (ps ! k) = p_parent_pid (ps ! i)"
      using W(4) [OF i(1)] by auto
    moreover from this have "k \<noteq> j" using assms(3) [OF i(1) u(2,3)] by auto
    ultimately show ?thesis using u(1) by (intro exI [of _ k]) simp
  qed
  moreover have "a = b" if "a < 16" "b < 16" "used (ps[j := zero_process] ! a)" "used (ps[j := zero_process] ! b)"
      "p_pid (ps[j := zero_process] ! a) = p_pid (ps[j := zero_process] ! b)" for a b
    using W(3) [OF that(1,2)] that assms(2) W(1) by (cases "a = j"; cases "b = j") simp_all
  ultimately show ?thesis
    unfolding proc_wf_def using W(1,2) assms(2) by (auto simp: nth_list_update)
qed

lemma proc_wf_release_idle:
  assumes "proc_wf ps np" "j < 16" "used (ps ! j)" "p_state (ps ! j) \<noteq> USER_PROCESS_RUNNING"
  shows "proc_wf (ps[j := zero_process]) np"
proof (rule proc_wf_release [OF assms(1,2)])
  fix i assume i: "i < 16" "used (ps ! i)" "p_parent_pid (ps ! i) \<noteq> 0"
  obtain k where "k < 16" "p_state (ps ! k) = USER_PROCESS_RUNNING" "p_pid (ps ! k) = p_parent_pid (ps ! i)"
    using proc_wfD(4) [OF assms(1) i] by auto
  then show "p_parent_pid (ps ! i) \<noteq> p_pid (ps ! j)"
    using proc_wfD(3) [OF assms(1) _ assms(2), of k] assms(3,4) by auto
qed

text \<open>A new process in a free slot.\<close>

lemma proc_wf_spawn:
  assumes "proc_wf ps np" "np + 1 \<noteq> 0" "np \<noteq> 0" "j < 16" "p_state (ps ! j) = USER_PROCESS_FREE"
    and "proc_ok (np + 1) p" "used p" "p_pid p = np"
    and "p_parent_pid p \<noteq> 0 \<Longrightarrow> \<exists>i < 16. p_state (ps ! i) = USER_PROCESS_RUNNING \<and> p_pid (ps ! i) = p_parent_pid p"
  shows "proc_wf (ps[j := p]) (np + 1)"
proof -
  note W = proc_wfD [OF assms(1)]
  have le: "np \<le> np + 1" using unatSuc [of np] assms(2) by (simp add: word_le_nat_alt add.commute)
  have new: "p_pid (ps ! i) \<noteq> np" if "i < 16" "used (ps ! i)" for i
    using proc_okD(3) [OF W(2) [OF that(1)]] that by auto
  have "\<exists>k < 16. p_state (ps[j := p] ! k) = USER_PROCESS_RUNNING \<and> p_pid (ps[j := p] ! k) = p_parent_pid (ps[j := p] ! i)"
    if i: "i < 16" "used (ps[j := p] ! i)" "p_parent_pid (ps[j := p] ! i) \<noteq> 0" for i
  proof -
    obtain k where "k < 16" "p_state (ps ! k) = USER_PROCESS_RUNNING" "p_pid (ps ! k) = p_parent_pid (ps[j := p] ! i)"
      using W(4) [OF i(1)] i assms(4,9) W(1) by (cases "i = j") auto
    then show ?thesis using assms(4,5) W(1) by (intro exI [of _ k]) (auto simp: nth_list_update)
  qed
  moreover have "a = b" if "a < 16" "b < 16" "used (ps[j := p] ! a)" "used (ps[j := p] ! b)"
      "p_pid (ps[j := p] ! a) = p_pid (ps[j := p] ! b)" for a b
    using W(3) [OF that(1,2)] that new [OF that(1)] new [OF that(2)] assms(4,8) W(1)
    by (cases "a = j"; cases "b = j") simp_all
  ultimately show ?thesis
    unfolding proc_wf_def using W(1) proc_ok_mono [OF W(2) le] assms(4,6) by (auto simp: nth_list_update)
qed

section \<open>Memory operations leave the tables alone\<close>

lemma upd_more: "vmm_state.more (arr_upd p i v s) = vmm_state.more s" "vmm_state.more (mem_zero_page p s) = vmm_state.more s"
  "vmm_state.more (paging_tlb_invalidate v s) = vmm_state.more s" for s :: "'a vmm_state_scheme"
  by (simp_all add: arr_upd_def mem_zero_page_def paging_tlb_invalidate_def)

lemma free_page_more: "vmm_state.more (pmm_free_page p s) = vmm_state.more s" for s :: "'a vmm_state_scheme"
  by (subst free_more) simp

lemma alloc_page_more: "pmm_alloc_page s = (p, t) \<Longrightarrow> vmm_state.more t = vmm_state.more s" for s t :: "'a vmm_state_scheme"
  by (drule alloc_more) (erule ssubst, simp)

lemma unmap_more: "vmm_state.more (snd (vmm_unmap_page_in a v s)) = vmm_state.more s"
  by (simp add: vmm_unmap_page_in_def Let_def upd_more)

lemma set_pte_more: "vmm_state.more (snd (vmm_set_pte pd pt v p f s)) = vmm_state.more s"
  by (simp add: vmm_set_pte_def Let_def upd_more)

lemma map_more: "vmm_state.more (snd (vmm_map_page_in a v p f s)) = vmm_state.more s"
proof -
  obtain q u where u: "pmm_alloc_page s = (q, u)" by (cases "pmm_alloc_page s")
  show ?thesis
    by (simp add: vmm_map_page_in_def Let_def u upd_more set_pte_more free_page_more alloc_page_more [OF u])
qed

lemma create_space_more: "vmm_state.more (snd (vmm_create_address_space s)) = vmm_state.more s"
proof -
  obtain q u where u: "pmm_alloc_page s = (q, u)" by (cases "pmm_alloc_page s")
  have f: "vmm_state.more (copy_kernel_half a k w) = vmm_state.more w" for a k and w :: "'a vmm_state_scheme"
    unfolding copy_kernel_half_def by (rule for_u32_keeps) (simp add: upd_more)
  show ?thesis
    by (simp add: create_eq u f upd_more free_page_more alloc_page_more [OF u])
qed

text \<open>The scheduler's variables and the process table together.\<close>

definition kvars :: "'a user_state_scheme \<Rightarrow> task list \<times> u32 \<times> u32 \<times> user_process list \<times> u32" where
  "kvars s = (tasks s, current_task s, next_task_id s, processes s, next_pid s)"

lemma kvars_iff: "kvars t = kvars s \<longleftrightarrow> sched_vars t = sched_vars s \<and> user_vars t = user_vars s"
  by (auto simp: kvars_def sched_vars_def user_vars_def)

lemma kvarsD:
  assumes "kvars t = kvars s"
  shows "tasks t = tasks s" "current_task t = current_task s" "next_task_id t = next_task_id s" "processes t = processes s"
    "next_pid t = next_pid s"
  using assms by (simp_all add: kvars_def)

lemma vmm_more_kvars: "vmm_state.more t = vmm_state.more s \<Longrightarrow> kvars t = kvars s" for s t :: "'a user_state_scheme"
  by (cases s, cases t) (simp add: kvars_def)

lemma tty_more_kvars: "tty_state.more t = tty_state.more s \<Longrightarrow> kvars t = kvars s" for s t :: "'a user_state_scheme"
  by (cases s, cases t) (simp add: kvars_def)

lemma mem_kvars [simp]:
  "kvars (snd (vmm_unmap_page_in a v s)) = kvars s" "kvars (snd (vmm_map_page_in a v p f s)) = kvars s"
  "kvars (pmm_free_page q s) = kvars s" "kvars (vmm_destroy_address_space a s) = kvars s"
  "kvars (snd (vmm_create_address_space s)) = kvars s" "kvars (snd (printk fmt args s)) = kvars s"
  "kvars (keyboard_buffer_clear s) = kvars s" "kvars (s\<lparr>kmem := m\<rparr>) = kvars s"
  for s :: "'a user_state_scheme"
  by (rule vmm_more_kvars tty_more_kvars, simp add: unmap_more map_more free_page_more destroy_more create_space_more)+
    (simp_all add: kvars_def keyboard_buffer_clear_def)

lemma alloc_kvars: "pmm_alloc_page s = (p, t) \<Longrightarrow> kvars t = kvars s" for s t :: "'a user_state_scheme"
  by (rule vmm_more_kvars [OF alloc_page_more])

lemma set_proc_kvars:
  "kvars (set_proc i f s) = (tasks s, current_task s, next_task_id s, (processes s)[unat i := f (processes s ! unat i)], next_pid s)"
  by (simp add: kvars_def set_proc_def)

section \<open>Exit\<close>

definition orphaned :: "u32 \<Rightarrow> user_process \<Rightarrow> user_process" where
  "orphaned pid p = (if p_state p = USER_PROCESS_FREE \<or> p_parent_pid p \<noteq> pid then p
     else if p_state p = USER_PROCESS_EXITED then zero_process else p\<lparr>p_parent_pid := 0\<rparr>)"

lemma free_pages_kvars:
  assumes "unat j < length (processes s)"
  shows "\<exists>pg. length pg = length (p_pages (processes s ! unat j)) \<and>
    kvars (user_process_free_pages (Some j) s) = (tasks s, current_task s, next_task_id s,
      (processes s)[unat j := (processes s ! unat j)\<lparr>p_pages := pg, p_page_count := 0\<rparr>], next_pid s)"
proof -
  let ?p = "processes s ! unat j"
  let ?P = "\<lambda>_ u. \<exists>pg. length pg = length (p_pages ?p) \<and>
    kvars u = (tasks s, current_task s, next_task_id s, (processes s)[unat j := ?p\<lparr>p_pages := pg\<rparr>], next_pid s)"
  let ?body = "\<lambda>i s. let s = snd (vmm_unmap_page_in (p_address_space (proc_at j s)) (pg_vaddr (p_pages (proc_at j s) ! unat i)) s);
                    s = pmm_free_page (pg_paddr (p_pages (proc_at j s) ! unat i)) s;
                    s = set_proc j (\<lambda>p. p\<lparr>p_pages := (p_pages p)[unat i := (p_pages p ! unat i)\<lparr>pg_vaddr := 0\<rparr>]\<rparr>) s
                in set_proc j (\<lambda>p. p\<lparr>p_pages := (p_pages p)[unat i := (p_pages p ! unat i)\<lparr>pg_paddr := 0\<rparr>]\<rparr>) s"
  have "?P () (for_u32 0 (p_page_count (proc_at j s)) ?body s)"
  proof (rule for_u32_invariant [where P = "\<lambda>_ u. ?P () u"])
    show "?P () s" using assms by (intro exI [of _ "p_pages ?p"]) (simp add: kvars_def)
    fix i u assume "?P () u"
    then obtain pg where pg: "length pg = length (p_pages ?p)"
      "kvars u = (tasks s, current_task s, next_task_id s, (processes s)[unat j := ?p\<lparr>p_pages := pg\<rparr>], next_pid s)" by blast
    let ?v = "snd (vmm_unmap_page_in (p_address_space (proc_at j u)) (pg_vaddr (p_pages (proc_at j u) ! unat i)) u)"
    let ?w = "pmm_free_page (pg_paddr (p_pages (proc_at j ?v) ! unat i)) ?v"
    have w: "kvars ?w = kvars u" by simp
    note W = kvarsD [OF w]
    let ?x = "set_proc j (\<lambda>p. p\<lparr>p_pages := (p_pages p)[unat i := (p_pages p ! unat i)\<lparr>pg_vaddr := 0\<rparr>]\<rparr>) ?w"
    let ?y = "set_proc j (\<lambda>p. p\<lparr>p_pages := (p_pages p)[unat i := (p_pages p ! unat i)\<lparr>pg_paddr := 0\<rparr>]\<rparr>) ?x"
    have y: "processes ?y = (processes u)[unat j := (processes u ! unat j)\<lparr>p_pages :=
        (p_pages (processes u ! unat j))[unat i := ((p_pages (processes u ! unat j))[unat i := (p_pages (processes u ! unat j) ! unat i)\<lparr>pg_vaddr := 0\<rparr>] ! unat i)\<lparr>pg_paddr := 0\<rparr>]\<rparr>]"
      "tasks ?y = tasks u" "current_task ?y = current_task u" "next_task_id ?y = next_task_id u" "next_pid ?y = next_pid u"
      using assms pg by (simp_all add: set_proc_def W kvars_def)
    show "?P () (?body i u)" unfolding Let_def
      by (rule exI [of _ "p_pages (processes ?y ! unat j)"]) (use assms pg in \<open>simp add: kvars_def y\<close>)
  qed simp
  then obtain pg where "length pg = length (p_pages ?p)"
    "kvars (for_u32 0 (p_page_count (proc_at j s)) ?body s) =
       (tasks s, current_task s, next_task_id s, (processes s)[unat j := ?p\<lparr>p_pages := pg\<rparr>], next_pid s)" by blast
  then show ?thesis
    using assms by (intro exI [of _ pg]) (simp add: user_process_free_pages_def Let_def set_proc_kvars, simp add: kvars_def)
qed

lemma less_processes: "i < USER_PROCESS_MAX \<longleftrightarrow> unat i < 16"
  by (simp add: USER_PROCESS_MAX_def word_less_nat_alt)

lemma orphan_kvars:
  assumes "length (processes s) = 16" "unat j < 16" "p_parent_pid (processes s ! unat j) \<noteq> p_pid (processes s ! unat j)"
  shows "kvars (user_process_orphan_children (Some j) s) = (tasks s, current_task s, next_task_id s,
    map (orphaned (p_pid (processes s ! unat j))) (processes s), next_pid s)"
proof -
  let ?ps = "processes s" and ?pid = "p_pid (processes s ! unat j)"
  let ?body = "\<lambda>i s. if p_state (proc_at i s) = USER_PROCESS_FREE \<or> p_parent_pid (proc_at i s) \<noteq> p_pid (proc_at j s) then s
          else
            let s = set_proc i (\<lambda>p. p\<lparr>p_parent_pid := USER_PROCESS_NO_PARENT\<rparr>) s
            in if p_state (proc_at i s) = USER_PROCESS_EXITED then user_process_release (Some i) s else s"
  let ?P = "\<lambda>k u. kvars u = (tasks s, current_task s, next_task_id s,
     map (\<lambda>n. if n < unat k then orphaned ?pid (?ps ! n) else ?ps ! n) [0..<16], next_pid s)"
  have "?P USER_PROCESS_MAX (for_u32 0 USER_PROCESS_MAX ?body s)"
  proof (rule for_u32_invariant [where P = ?P])
    have "?ps = map (\<lambda>n. ?ps ! n) [0..<16]" using assms(1) by (metis map_nth)
    then show "?P 0 s" by (simp add: kvars_def)
    show "0 \<le> USER_PROCESS_MAX" by simp
    fix k u assume k: "0 \<le> k" "k < USER_PROCESS_MAX" and P: "?P k u"
    have k16: "unat k < 16" using k(2) by (simp add: less_processes)
    have sk: "unat (k + 1) = Suc (unat k)" using k(2) by (rule unat_inc)
    have u: "processes u = map (\<lambda>n. if n < unat k then orphaned ?pid (?ps ! n) else ?ps ! n) [0..<16]"
        "tasks u = tasks s" "current_task u = current_task s" "next_task_id u = next_task_id s" "next_pid u = next_pid s"
      using P by (simp_all add: kvars_def)
    have "orphaned ?pid (?ps ! unat j) = ?ps ! unat j" using assms(3) by (simp add: orphaned_def)
    then have at: "processes u ! unat k = ?ps ! unat k" "p_pid (processes u ! unat j) = ?pid"
      using k16 assms(2) by (simp_all add: u)
    have upd: "(processes u)[unat k := orphaned ?pid (?ps ! unat k)] =
        map (\<lambda>n. if n < unat (k + 1) then orphaned ?pid (?ps ! n) else ?ps ! n) [0..<16]"
      by (rule nth_equalityI) (use k16 sk in \<open>auto simp: u nth_list_update less_Suc_eq\<close>)
    have len: "unat k < length (processes u)" using k16 by (simp add: u)
    have "kvars (?body k u) = (tasks u, current_task u, next_task_id u, (processes u)[unat k := orphaned ?pid (?ps ! unat k)], next_pid u)"
    proof (cases "p_state (?ps ! unat k) = USER_PROCESS_FREE \<or> p_parent_pid (?ps ! unat k) \<noteq> ?pid")
      case True
      then show ?thesis using at(1) by (auto simp: kvars_def proc_at_def at orphaned_def list_update_id [of "processes u" "unat k", unfolded at(1)])
    next
      case False
      then show ?thesis
        using len by (simp add: kvars_def proc_at_def set_proc_def at user_process_release_def Let_def USER_PROCESS_NO_PARENT_def orphaned_def)
    qed
    then show "?P (k + 1) (?body k u)" by (simp only: upd u(2-))
  qed
  moreover have "map (\<lambda>n. if n < unat USER_PROCESS_MAX then orphaned ?pid (?ps ! n) else ?ps ! n) [0..<16] = map (orphaned ?pid) ?ps"
    by (rule nth_equalityI) (simp_all add: assms(1) USER_PROCESS_MAX_def)
  ultimately show ?thesis by (simp add: user_process_orphan_children_def)
qed

text \<open>The table after the process in slot \<open>j\<close> has exited as \<open>q\<close>.\<close>

definition after_exit :: "user_process list \<Rightarrow> nat \<Rightarrow> user_process \<Rightarrow> user_process list" where
  "after_exit ps j q = (map (orphaned (p_pid q)) ps)[j := if p_parent_pid q = 0 then zero_process else q]"

lemma after_exit_nth:
  "length ps = 16 \<Longrightarrow> i < 16 \<Longrightarrow> after_exit ps j q ! i =
     (if i = j then if p_parent_pid q = 0 then zero_process else q else orphaned (p_pid q) (ps ! i))"
  "length (after_exit ps j q) = length ps"
  by (simp_all add: after_exit_def nth_list_update)

lemma orphaned_facts:
  "used (orphaned pid p) \<Longrightarrow> used p" "used (orphaned pid p) \<Longrightarrow> p_pid (orphaned pid p) = p_pid p"
  "used (orphaned pid p) \<Longrightarrow> p_state (orphaned pid p) = p_state p" "used (orphaned pid p) \<Longrightarrow> p_task_id (orphaned pid p) = p_task_id p"
  "used (orphaned pid p) \<Longrightarrow> p_parent_pid (orphaned pid p) \<noteq> 0 \<Longrightarrow> p_parent_pid p = p_parent_pid (orphaned pid p) \<and> p_parent_pid p \<noteq> pid"
  "p_state p = USER_PROCESS_RUNNING \<Longrightarrow> used (orphaned pid p)"
  by (auto simp: orphaned_def split: if_splits)

lemma orphaned_ok: "proc_ok np p \<Longrightarrow> proc_ok np (orphaned pid p)"
  using zero_process_ok(1) [of np] by (auto simp: orphaned_def proc_ok_def [of np p] proc_ok_def [of np "p\<lparr>p_parent_pid := 0\<rparr>"])

lemma proc_wf_exit:
  assumes "proc_wf ps np" "j < 16" "used (ps ! j)" "p_state q = USER_PROCESS_EXITED" "p_pid q = p_pid (ps ! j)"
    "p_parent_pid q = p_parent_pid (ps ! j)" "p_parent_pid q \<noteq> 0 \<Longrightarrow> proc_ok np q"
  shows "proc_wf (after_exit ps j q) np"
proof -
  note W = proc_wfD [OF assms(1)] and N = after_exit_nth(1) [OF proc_wfD(1) [OF assms(1)]]
  have lt: "p_parent_pid q < p_pid q" using proc_okD(4) [OF W(2) [OF assms(2)] assms(3)] assms(5,6) by simp
  let ?t = "after_exit ps j q"
  have old: "used (ps ! i)" "p_pid (?t ! i) = p_pid (ps ! i)" if "i < 16" "used (?t ! i)" for i
    using that orphaned_facts(1,2) [of "p_pid q" "ps ! i"] assms(3,5) N [OF that(1)] by (auto split: if_splits)
  have par: "p_parent_pid (ps ! i) = p_parent_pid (?t ! i)" "p_parent_pid (?t ! i) \<noteq> p_pid q"
    if "i < 16" "used (?t ! i)" "p_parent_pid (?t ! i) \<noteq> 0" for i
    using that orphaned_facts(5) [of "p_pid q" "ps ! i"] assms(6) lt N [OF that(1)] by (auto split: if_splits)
  have "\<exists>k < 16. p_state (?t ! k) = USER_PROCESS_RUNNING \<and> p_pid (?t ! k) = p_parent_pid (?t ! i)"
    if i: "i < 16" "used (?t ! i)" "p_parent_pid (?t ! i) \<noteq> 0" for i
  proof -
    obtain k where k: "k < 16" "p_state (ps ! k) = USER_PROCESS_RUNNING" "p_pid (ps ! k) = p_parent_pid (?t ! i)"
      using W(4) [OF i(1) old(1) [OF i(1,2)]] par(1) [OF i] i(3) by auto
    then have "k \<noteq> j" using par(2) [OF i] assms(5) by auto
    moreover have "used (orphaned (p_pid q) (ps ! k))" using orphaned_facts(6) [OF k(2)] .
    ultimately show ?thesis
      using k N [OF k(1)] orphaned_facts(2,3) [of "p_pid q" "ps ! k"] by (intro exI [of _ k]) simp
  qed
  moreover have "a = b" if "a < 16" "b < 16" "used (?t ! a)" "used (?t ! b)" "p_pid (?t ! a) = p_pid (?t ! b)" for a b
    using W(3) [OF that(1,2)] old [OF that(1,3)] old [OF that(2,4)] that(5) by simp
  moreover have "proc_ok np (?t ! i)" if "i < 16" for i
    using N [OF that] assms(7) orphaned_ok [OF W(2) [OF that]] by auto
  ultimately show ?thesis unfolding proc_wf_def using after_exit_nth(2) [of ps j q] W(1) by auto
qed

lemma find_by_pid_None:
  "user_process_find_by_pid pid s = None \<longleftrightarrow> (\<forall>i < 16. used (processes s ! i) \<longrightarrow> p_pid (processes s ! i) \<noteq> pid)"
proof
  assume n: "user_process_find_by_pid pid s = None"
  have "\<not> (used (processes s ! i) \<and> p_pid (processes s ! i) = pid)" if "i < 16" for i
  proof -
    have u: "unat (word_of_nat i :: u32) = i" using that by (simp add: unat_of_nat)
    show ?thesis
      using first_u32_NoneD [OF n [unfolded user_process_find_by_pid_def], of "word_of_nat i"] that
      by (simp add: proc_at_def less_processes u)
  qed
  then show "\<forall>i < 16. used (processes s ! i) \<longrightarrow> p_pid (processes s ! i) \<noteq> pid" by blast
next
  assume a: "\<forall>i < 16. used (processes s ! i) \<longrightarrow> p_pid (processes s ! i) \<noteq> pid"
  show "user_process_find_by_pid pid s = None"
  proof (cases "user_process_find_by_pid pid s")
    case (Some i)
    then show ?thesis
      using a first_u32_SomeD [OF Some [unfolded user_process_find_by_pid_def]] by (auto simp: proc_at_def less_processes)
  qed
qed

lemma find_by_pid_Some:
  "user_process_find_by_pid pid s = Some i \<Longrightarrow> unat i < 16 \<and> used (processes s ! unat i) \<and> p_pid (processes s ! unat i) = pid"
  using first_u32_SomeD [of 0 USER_PROCESS_MAX _ i] by (fastforce simp: user_process_find_by_pid_def proc_at_def less_processes)

lemma find_by_task_Some:
  "user_process_find_by_task_id k s = Some i \<Longrightarrow> unat i < 16 \<and> used (processes s ! unat i) \<and> p_task_id (processes s ! unat i) = k"
  using first_u32_SomeD [of 0 USER_PROCESS_MAX _ i] by (fastforce simp: user_process_find_by_task_id_def proc_at_def less_processes)

lemma find_by_task_None:
  assumes "user_process_find_by_task_id k s = None" "i < 16" "used (processes s ! i)"
  shows "p_task_id (processes s ! i) \<noteq> k"
proof -
  have u: "unat (word_of_nat i :: u32) = i" using assms(2) by (simp add: unat_of_nat)
  show ?thesis
    using first_u32_NoneD [OF assms(1) [unfolded user_process_find_by_task_id_def], of "word_of_nat i"] assms(2,3)
    by (simp add: proc_at_def less_processes u)
qed

end
