(* ===== verification/Syscall.thy ===== *)
theory Syscall
  imports User
begin

text \<open>
  System calls (\<open>kernel/syscall.c\<close>).  User pointers are dereferenced through the page directory
  the processor has loaded: \<open>cpu_byte\<close> is the two-level walk of the hardware, \<open>None\<close> a page fault
  (or a frame outside the window of memory the model holds), so that a call that faults does not
  return.
\<close>

section \<open>Reading user memory\<close>

definition cpu_translate :: "'a vmm_state_scheme \<Rightarrow> u32 \<Rightarrow> u32 option" where
  "cpu_translate s v =
     (let e = arr s (vmm_phys_to_virt (cr3 s)) (drop_bit 22 v) in
      if even e then None
      else
        let p = arr s (vmm_phys_to_virt (e AND 0xfffff000)) (drop_bit 12 v AND 0x3ff)
        in if even p then None else Some ((p AND 0xfffff000) OR (v AND 0xfff)))"

definition cpu_byte :: "'a vmm_state_scheme \<Rightarrow> u32 \<Rightarrow> u8 option" where
  "cpu_byte s v =
     (case cpu_translate s v of
        None \<Rightarrow> None
      | Some p \<Rightarrow> if vmm_phys_to_virt p = 0 then None else Some (kmem s (vmm_phys_to_virt p)))"

section \<open>Dispatch\<close>

record syscall_frame =
  sf_edi :: u32
  sf_esi :: u32
  sf_ebp :: u32
  sf_esp :: u32
  sf_ebx :: u32
  sf_edx :: u32
  sf_ecx :: u32
  sf_eax :: u32

definition SYS_WRITE :: u32 where "SYS_WRITE = 1"
definition SYS_EXIT :: u32 where "SYS_EXIT = 2"
definition SYS_YIELD :: u32 where "SYS_YIELD = 3"
definition SYS_GETC :: u32 where "SYS_GETC = 4"
definition SYS_SPAWN :: u32 where "SYS_SPAWN = 5"
definition SYS_WAIT :: u32 where "SYS_WAIT = 6"
definition SYS_FD_STDOUT :: u32 where "SYS_FD_STDOUT = 1"
definition SYS_ERR :: u32 where "SYS_ERR = - 1"

lemmas sys_consts = SYS_WRITE_def SYS_EXIT_def SYS_YIELD_def SYS_GETC_def SYS_SPAWN_def SYS_WAIT_def
  SYS_FD_STDOUT_def SYS_ERR_def

text \<open>
  A call returns a value to the program, or the task is gone and the machine goes on as the
  second constructor says.
\<close>

datatype 'a sysret = Ret u32 'a | Gone "'a progress"

definition sys_write :: "u32 \<Rightarrow> ptr \<Rightarrow> u32 \<Rightarrow> 'a user_state_scheme \<Rightarrow> (u32 \<times> 'a user_state_scheme) option" where
  "sys_write fd buf len s =
     (if fd \<noteq> SYS_FD_STDOUT \<or> buf = 0 then Some (SYS_ERR, s)
      else map_option (\<lambda>s. (len, s)) (for_opt 0 len (\<lambda>i s.
        map_option (\<lambda>c. snd (printk ''%c'' [VInt (scast c)] s)) (cpu_byte s (buf + i))) s))"

definition sys_exit :: "u32 \<Rightarrow> 'a user_state_scheme \<Rightarrow> 'a user_state_scheme progress option" where
  "sys_exit status s =
     (let s = user_exit_current status s;
          s = snd (printk (''user: exited status=%x'' @ [CHR 0x0A]) [VInt status] s)
      in kthread_exit s)"

definition sys_yield ::
    "('a user_state_scheme \<Rightarrow> 'a user_state_scheme option) \<Rightarrow> 'a user_state_scheme \<Rightarrow> (u32 \<times> 'a user_state_scheme) option" where
  "sys_yield others s = map_option (\<lambda>s. (0, s)) (yield_through others s)"

text \<open>
  \<open>copy_string_from_user\<close>: the result is the string in the buffer, \<open>Inl\<close> the error.  Only the
  characters before the NUL are observable afterwards.
\<close>

function copy_string_loop :: "u32 \<Rightarrow> u32 \<Rightarrow> ptr \<Rightarrow> u8 list \<Rightarrow> 'a user_state_scheme \<Rightarrow> (int + u8 list) option" where
  "copy_string_loop i max_len src dst s =
     (if i < max_len then
        (case cpu_byte s (src + i) of
           None \<Rightarrow> None
         | Some c \<Rightarrow>
             if c = 0 then (if i = 0 then Some (Inl (- 1)) else Some (Inr dst))
             else copy_string_loop (i + 1) max_len src (dst @ [c]) s)
      else Some (Inl (- 1)))"
  by pat_completeness auto
termination
  by (relation "measure (\<lambda>(i, max_len, src, dst, s). unat max_len - unat i)") (auto simp: unat_inc word_less_nat_alt)

declare copy_string_loop.simps [simp del]

definition copy_string_from_user :: "ptr \<Rightarrow> u32 \<Rightarrow> 'a user_state_scheme \<Rightarrow> (int + u8 list) option" where
  "copy_string_from_user src max_len s =
     (if src = 0 \<or> max_len = 0 then Some (Inl (- 1)) else copy_string_loop 0 max_len src [] s)"

definition sys_spawn :: "linker_symbols \<Rightarrow> ptr \<Rightarrow> 'a user_state_scheme \<Rightarrow> (u32 \<times> 'a user_state_scheme) option" where
  "sys_spawn lk path s =
     Option.bind (copy_string_from_user path EMXA_PATH_SIZE s) (\<lambda>r.
       case r of
         Inl _ \<Rightarrow> Some (SYS_ERR, s)
       | Inr kernel_path \<Rightarrow>
           Option.bind (user_spawn lk (Some kernel_path) s) (\<lambda>(process_id, s).
             if process_id < 0 then Some (SYS_ERR, s) else Some (word_of_int process_id, s)))"

definition sys_wait ::
    "('a user_state_scheme \<Rightarrow> 'a user_state_scheme option) \<Rightarrow> u32 \<Rightarrow> 'a user_state_scheme \<Rightarrow>
     (u32 \<times> 'a user_state_scheme) option" where
  "sys_wait others pid s = map_option (\<lambda>(r, s). (word_of_int r, s)) (user_wait others pid s)"

definition returning :: "(u32 \<times> 'a) option \<Rightarrow> 'a sysret option" where
  "returning r = map_option (\<lambda>(v, s). Ret v s) r"

definition syscall_dispatch ::
    "linker_symbols \<Rightarrow> ('a user_state_scheme \<Rightarrow> 'a user_state_scheme option) \<Rightarrow> syscall_frame \<Rightarrow>
     'a user_state_scheme \<Rightarrow> 'a user_state_scheme sysret option" where
  "syscall_dispatch lk others frm s =
     (if sf_eax frm = SYS_WRITE then returning (sys_write (sf_ebx frm) (sf_ecx frm) (sf_edx frm) s)
      else if sf_eax frm = SYS_EXIT then map_option Gone (sys_exit (sf_ebx frm) s)
      else if sf_eax frm = SYS_YIELD then returning (sys_yield others s)
      else if sf_eax frm = SYS_GETC then returning (Some (keyboard_buffer_pop s))
      else if sf_eax frm = SYS_SPAWN then returning (sys_spawn lk (sf_ebx frm) s)
      else if sf_eax frm = SYS_WAIT then returning (sys_wait others (sf_ebx frm) s)
      else returning (Some (SYS_ERR, s)))"

end
