(* ===== verification/UserProps.thy ===== *)
theory UserProps
  imports UserProof Syscall
begin

text \<open>
  Processes and tasks as one state machine: spawn, exec, exit, wait, yield and kernel threads, in
  any order.  \<open>kernel_inv\<close> holds in every reachable state.
\<close>

section \<open>Exit\<close>

text \<open>After the children were orphaned, the parent is missing only if there never was one.\<close>

lemma parent_gone:
  assumes wf: "proc_wf ps np" and j: "j < 16" "used (ps ! j)" and q: "p_pid q = p_pid (ps ! j)" "p_parent_pid q = p_parent_pid (ps ! j)"
    and c: "processes c = (map (orphaned (p_pid q)) ps)[j := q]"
  shows "user_process_find_by_pid (p_parent_pid q) c = None \<longleftrightarrow> p_parent_pid q = 0"
proof -
  note W = proc_wfD [OF wf]
  note O = proc_okD [OF W(2) [OF j(1)]]
  have lt: "p_parent_pid q \<noteq> p_pid q" using O(4) [OF j(2)] q by auto
  have at: "processes c ! i = orphaned (p_pid q) (ps ! i)" if "i < 16" "i \<noteq> j" for i using that W(1) by (simp add: c)
  show ?thesis
  proof
    assume z: "p_parent_pid q = 0"
    have "p_pid (processes c ! i) \<noteq> 0" if "i < 16" "used (processes c ! i)" for i
    proof (cases "i = j")
      case True
      then show ?thesis using O(2) [OF j(2)] q(1) j(1) W(1) by (simp add: c)
    next
      case False
      then show ?thesis
        using orphaned_facts(1,2) [of "p_pid q" "ps ! i"] proc_okD(2) [OF W(2) [OF that(1)]] that at by simp
    qed
    then show "user_process_find_by_pid (p_parent_pid q) c = None" unfolding find_by_pid_None z by blast
  next
    assume n: "user_process_find_by_pid (p_parent_pid q) c = None"
    show "p_parent_pid q = 0"
    proof (rule ccontr)
      assume "p_parent_pid q \<noteq> 0"
      then obtain k where k: "k < 16" "p_state (ps ! k) = USER_PROCESS_RUNNING" "p_pid (ps ! k) = p_parent_pid q"
        using W(4) [OF j] q(2) by auto
      then have "k \<noteq> j" using lt q(1) by auto
      then show False
        using n k at [OF k(1)] orphaned_facts(2) [of "p_pid q" "ps ! k"] orphaned_facts(6) [OF k(2), of "p_pid q"]
        by (auto simp: find_by_pid_None)
    qed
  qed
qed

lemma exit_kvars:
  assumes wf: "proc_wf (processes s) (next_pid s)" and f: "user_process_find_by_task_id (sched_current_task_id s) s = Some j"
  shows "\<exists>q pg. q = (processes s ! unat j)\<lparr>p_exit_status := status, p_state := USER_PROCESS_EXITED, p_pages := pg,
        p_page_count := 0, p_address_space := 0\<rparr> \<and> length pg = 16 \<and>
    kvars (user_exit_current status s) = (tasks s, current_task s, next_task_id s, after_exit (processes s) (unat j) q, next_pid s)"
proof -
  let ?ps = "processes s" and ?j = "unat j"
  note W = proc_wfD [OF wf]
  have j: "?j < 16" "used (?ps ! ?j)" using find_by_task_Some [OF f] by simp_all
  note O = proc_okD [OF W(2) [OF j(1)]]
  define a where "a = set_proc j (\<lambda>p. p\<lparr>p_state := USER_PROCESS_EXITED\<rparr>) (set_proc j (\<lambda>p. p\<lparr>p_exit_status := status\<rparr>) s)"
  let ?q1 = "(?ps ! ?j)\<lparr>p_exit_status := status, p_state := USER_PROCESS_EXITED\<rparr>"
  have a: "processes a = ?ps[?j := ?q1]" "tasks a = tasks s" "current_task a = current_task s" "next_task_id a = next_task_id s"
      "next_pid a = next_pid s"
    using j(1) W(1) by (simp_all add: a_def set_proc_def)
  obtain pg where pg: "length pg = 16" "kvars (user_process_free_pages (Some j) a) =
      (tasks s, current_task s, next_task_id s, ?ps[?j := ?q1\<lparr>p_pages := pg, p_page_count := 0\<rparr>], next_pid s)"
    using free_pages_kvars [of j a] j(1) W(1) O(5) by (auto simp: a)
  define q where "q = (?ps ! ?j)\<lparr>p_exit_status := status, p_state := USER_PROCESS_EXITED, p_pages := pg, p_page_count := 0, p_address_space := 0\<rparr>"
  define b where "b = set_proc j (\<lambda>p. p\<lparr>p_address_space := 0\<rparr>) (user_process_free_pages (Some j) a)"
  have b: "processes b = ?ps[?j := q]" "tasks b = tasks s" "current_task b = current_task s" "next_task_id b = next_task_id s"
      "next_pid b = next_pid s"
    using pg(2) j(1) W(1) by (simp_all add: b_def kvars_def set_proc_def q_def)
  have qp: "p_pid q = p_pid (?ps ! ?j)" "p_parent_pid q = p_parent_pid (?ps ! ?j)" "p_state q = USER_PROCESS_EXITED" by (simp_all add: q_def)
  have lt: "p_parent_pid q \<noteq> p_pid q" using O(4) [OF j(2)] qp by auto
  define c where "c = user_process_orphan_children (Some j) b"
  have "kvars c = (tasks s, current_task s, next_task_id s, map (orphaned (p_pid q)) (?ps[?j := q]), next_pid s)"
    using orphan_kvars [of b j] j(1) W(1) lt by (simp add: c_def b)
  moreover have "map (orphaned (p_pid q)) (?ps[?j := q]) = (map (orphaned (p_pid q)) ?ps)[?j := q]"
    using lt by (simp add: map_update orphaned_def)
  ultimately have c: "processes c = (map (orphaned (p_pid q)) ?ps)[?j := q]" "tasks c = tasks s" "current_task c = current_task s"
      "next_task_id c = next_task_id s" "next_pid c = next_pid s"
    by (simp_all add: kvars_def)
  have cj: "proc_at j c = q" using j(1) W(1) by (simp add: proc_at_def c)
  have none: "user_process_find_by_pid (p_parent_pid q) c = None \<longleftrightarrow> p_parent_pid q = 0" by (rule parent_gone [OF wf j qp(1,2) c(1)])
  have "user_exit_current status s = (if user_process_find_by_pid (p_parent_pid (proc_at j c)) c = None then user_process_release (Some j) c else c)"
    using f by (simp add: user_exit_current_def Let_def a_def b_def c_def)
  then have "kvars (user_exit_current status s) = (tasks s, current_task s, next_task_id s, after_exit ?ps ?j q, next_pid s)"
    unfolding cj none by (simp add: user_process_release_def set_proc_def kvars_def c after_exit_def)
  then show ?thesis using pg(1) q_def by blast
qed

section \<open>Spawn\<close>

definition new_process :: "'a user_state_scheme \<Rightarrow> u8 list \<Rightarrow> u32 \<Rightarrow> user_process" where
  "new_process s cs a = zero_process\<lparr>p_state := USER_PROCESS_CREATED, p_pid := next_pid s,
     p_parent_pid := (case user_process_find_by_task_id (sched_current_task_id s) s of None \<Rightarrow> 0 | Some i \<Rightarrow> p_pid (proc_at i s)),
     p_path := cs @ [0] @ drop (Suc (length cs)) (replicate 32 0), p_address_space := a\<rparr>"

text \<open>The parts of \<open>user_spawn\<close>: the slot as it is filled before the address space is created, and the failure path.\<close>

definition spawn_slot :: "u32 \<Rightarrow> u8 list \<Rightarrow> 'a user_state_scheme \<Rightarrow> 'a user_state_scheme" where
  "spawn_slot j cs s =
     (let u = set_proc j (\<lambda>p. p\<lparr>p_parent_pid := USER_PROCESS_NO_PARENT\<rparr>)
            (set_proc j (\<lambda>p. p\<lparr>p_state := USER_PROCESS_CREATED\<rparr>) (set_proc j (\<lambda>_. zero_process) s));
          v = set_proc j (\<lambda>p. p\<lparr>p_pid := next_pid u\<rparr>) (u\<lparr>next_pid := next_pid u + 1\<rparr>);
          w = (case user_process_find_by_task_id (sched_current_task_id s) s of None \<Rightarrow> v
               | Some i \<Rightarrow> set_proc j (\<lambda>p. p\<lparr>p_parent_pid := p_pid (proc_at i v)\<rparr>) v)
      in set_proc j (\<lambda>p. p\<lparr>p_path := cs @ 0 # drop (Suc (length cs)) (p_path p)\<rparr>) w)"

definition spawn_fail :: "u32 \<Rightarrow> 'a user_state_scheme \<Rightarrow> 'a user_state_scheme" where
  "spawn_fail j s = user_process_release (Some j)
     (if p_address_space (proc_at j s) \<noteq> 0 then vmm_destroy_address_space (p_address_space (proc_at j s)) s else s)"

lemma spawn_eq:
  assumes "0 < length cs" "length cs < 32" "initramfs_find (Some cs) s \<noteq> None"
    and "first_u32 0 USER_PROCESS_MAX (\<lambda>i. p_state (proc_at i s) = USER_PROCESS_FREE) = Some j"
    and "vmm_create_address_space (spawn_slot j cs s) = (a, b)"
  defines "c \<equiv> set_proc j (\<lambda>p. p\<lparr>p_address_space := a\<rparr>) b"
  shows "user_spawn lk (Some cs) s =
    (if p_address_space (proc_at j c) = 0 then Some (- 1, spawn_fail j c)
     else Option.bind (kthread_create lk (Some (KFun ''user_exec_task'')) c) (\<lambda>(n, s).
       if n < 0 then Some (- 1, spawn_fail j s)
       else let t = keyboard_buffer_clear (set_proc j (\<lambda>p. p\<lparr>p_task_id := word_of_int n\<rparr>) s)
            in Some (sint (p_pid (proc_at j t)), t)))"
proof -
  obtain x where x: "initramfs_find (Some cs) s = Some x" using assms(3) by blast
  have ab: "vmm_create_address_space (spawn_slot j cs s) = (a, b)" by (rule assms(5))
  have l: "cs \<noteq> []" "\<not> unat EMXA_PATH_SIZE \<le> length cs" using assms(1,2) by (simp_all add: EMXA_PATH_SIZE_def)
  show ?thesis
    using l x assms(4) ab unfolding user_spawn_def user_process_alloc_def spawn_slot_def c_def
    by (simp add: Let_def spawn_fail_def cong: if_cong option.case_cong)
qed

lemma spawn_early:
  assumes "\<And>cs j. path = Some cs \<Longrightarrow> 0 < length cs \<Longrightarrow> length cs < 32 \<Longrightarrow> initramfs_find (Some cs) s \<noteq> None \<Longrightarrow>
      first_u32 0 USER_PROCESS_MAX (\<lambda>i. p_state (proc_at i s) = USER_PROCESS_FREE) \<noteq> Some j"
  shows "user_spawn lk path s = Some (- 1, s)"
proof (cases path)
  case (Some cs)
  then have "cs = [] \<or> 32 \<le> length cs \<or> initramfs_find (Some cs) s = None \<or>
      first_u32 0 USER_PROCESS_MAX (\<lambda>i. p_state (proc_at i s) = USER_PROCESS_FREE) = None"
    using assms [OF Some] by (metis length_greater_0_conv not_le option.exhaust)
  then show ?thesis using Some by (elim disjE) (simp_all add: user_spawn_def user_process_alloc_def EMXA_PATH_SIZE_def Let_def split: option.split)
qed (simp add: user_spawn_def)

lemma spawn_slot_kvars:
  assumes "length (processes s) = 16" "first_u32 0 USER_PROCESS_MAX (\<lambda>i. p_state (proc_at i s) = USER_PROCESS_FREE) = Some j"
  shows "unat j < 16" "p_state (processes s ! unat j) = USER_PROCESS_FREE"
    and "kvars (spawn_slot j cs s) = (tasks s, current_task s, next_task_id s, (processes s)[unat j := new_process s cs 0], next_pid s + 1)"
proof -
  let ?parent = "user_process_find_by_task_id (sched_current_task_id s) s"
  show j: "unat j < 16" "p_state (processes s ! unat j) = USER_PROCESS_FREE"
    using first_u32_SomeD [OF assms(2)] by (simp_all add: less_processes proc_at_def)
  have "unat i \<noteq> unat j" if "?parent = Some i" for i using find_by_task_Some [OF that] j(2) by auto
  then have "(processes s)[unat j := x] ! unat i = processes s ! unat i" if "?parent = Some i" for i x using that by simp
  then show "kvars (spawn_slot j cs s) = (tasks s, current_task s, next_task_id s, (processes s)[unat j := new_process s cs 0], next_pid s + 1)"
    using j assms(1)
    by (cases ?parent) (auto simp: spawn_slot_def Let_def set_proc_def kvars_def new_process_def zero_process_def proc_at_def USER_PROCESS_NO_PARENT_def)
qed

lemma spawn_fail_kvars:
  "kvars (spawn_fail j w) = (tasks w, current_task w, next_task_id w, (processes w)[unat j := zero_process], next_pid w)"
proof -
  let ?w = "if p_address_space (proc_at j w) \<noteq> 0 then vmm_destroy_address_space (p_address_space (proc_at j w)) w else w"
  have "kvars ?w = kvars w" by simp
  then show ?thesis using kvarsD [of ?w w] by (simp add: spawn_fail_def user_process_release_def set_proc_kvars)
qed

text \<open>What \<open>user_spawn\<close> does to the tables, on each of its exits.\<close>

lemma spawn_kvars:
  fixes s :: "'a user_state_scheme"
  assumes sp: "user_spawn lk path s = Some (r, t)" and len: "length (processes s) = 16"
  shows "(r = - 1 \<and> kvars t = kvars s) \<or>
    (\<exists>(j :: u32) cs a. unat j < 16 \<and> p_state (processes s ! unat j) = USER_PROCESS_FREE \<and> path = Some cs \<and> 0 < length cs \<and> length cs < 32 \<and>
      ((r = - 1 \<and> kvars t = (tasks s, current_task s, next_task_id s, (processes s)[unat j := zero_process], next_pid s + 1)) \<or>
       (\<exists>(u :: 'a user_state_scheme) v n. sched_vars u = sched_vars s \<and> kthread_create lk (Some (KFun ''user_exec_task'')) u = Some (n, v) \<and>
          sched_vars t = sched_vars v \<and> r = (if n < 0 then - 1 else sint (next_pid s)) \<and>
          user_vars t = ((processes s)[unat j := if n < 0 then zero_process
             else (new_process s cs a)\<lparr>p_task_id := word_of_int n\<rparr>], next_pid s + 1))))"
proof (cases "\<exists>cs j. path = Some cs \<and> 0 < length cs \<and> length cs < 32 \<and> initramfs_find (Some cs) s \<noteq> None \<and>
    first_u32 0 USER_PROCESS_MAX (\<lambda>i. p_state (proc_at i s) = USER_PROCESS_FREE) = Some j")
  case False
  then have "user_spawn lk path s = Some (- 1, s)" by (intro spawn_early) blast
  then show ?thesis using sp by simp
next
  case True
  then obtain cs j where c: "path = Some cs" "0 < length cs" "length cs < 32" "initramfs_find (Some cs) s \<noteq> None"
    and j: "first_u32 0 USER_PROCESS_MAX (\<lambda>i. p_state (proc_at i s) = USER_PROCESS_FREE) = Some j" by blast
  let ?ps = "processes s"
  note J = spawn_slot_kvars [OF len j]
  obtain a b where ab: "vmm_create_address_space (spawn_slot j cs s) = (a, b)" by (cases "vmm_create_address_space (spawn_slot j cs s)")
  define a5 where "a5 = set_proc j (\<lambda>p. p\<lparr>p_address_space := a\<rparr>) b"
  note run = sp [unfolded c(1) spawn_eq [OF c(2-4) j ab] a5_def [symmetric]]
  have "kvars b = kvars (spawn_slot j cs s)" using ab mem_kvars(5) [of "spawn_slot j cs s"] by simp
  then have a5: "kvars a5 = (tasks s, current_task s, next_task_id s, ?ps[unat j := new_process s cs a], next_pid s + 1)"
    using len J unfolding a5_def set_proc_kvars by (simp add: kvars_def new_process_def zero_process_def)
  show ?thesis
  proof (cases "p_address_space (proc_at j a5) = 0")
    case True
    then have "r = - 1 \<and> kvars t = (tasks s, current_task s, next_task_id s, ?ps[unat j := zero_process], next_pid s + 1)"
      using run spawn_fail_kvars [of j a5] a5 by (auto simp: kvars_def)
    then show ?thesis using c J(1,2) by - (rule disjI2, rule exI [of _ j], rule exI [of _ cs], rule exI [of _ a], simp)
  next
    case False
    then obtain n v where v: "kthread_create lk (Some (KFun ''user_exec_task'')) a5 = Some (n, v)"
      using run by (auto simp: Option.bind_eq_Some_conv)
    have sv: "sched_vars a5 = sched_vars s" using a5 by (simp add: kvars_def sched_vars_def)
    have uv: "processes v = ?ps[unat j := new_process s cs a]" "next_pid v = next_pid s + 1"
      using sched_more_user [OF create_more [OF v]] a5 by (simp_all add: user_vars_def kvars_def)
    have "r = (if n < 0 then - 1 else sint (next_pid s)) \<and> sched_vars t = sched_vars v \<and>
      user_vars t = (?ps[unat j := if n < 0 then zero_process else (new_process s cs a)\<lparr>p_task_id := word_of_int n\<rparr>], next_pid s + 1)"
    proof (cases "n < 0")
      case True
      then have "r = - 1 \<and> t = spawn_fail j v" using run False v by auto
      then show ?thesis using spawn_fail_kvars [of j v] uv J(1) len True by (simp add: kvars_def sched_vars_def user_vars_def)
    next
      case nn: False
      then have "t = keyboard_buffer_clear (set_proc j (\<lambda>p. p\<lparr>p_task_id := word_of_int n\<rparr>) v)" "r = sint (p_pid (proc_at j t))"
        using run False v by (auto simp: Let_def)
      then show ?thesis
        using uv J(1) len nn by (simp add: keyboard_buffer_clear_def set_proc_def sched_vars_def user_vars_def proc_at_def new_process_def)
    qed
    then show ?thesis
      using sv v c J(1,2)
      by - (rule disjI2, rule exI [of _ j], rule exI [of _ cs], rule exI [of _ a], intro conjI disjI2,
        assumption+, rule exI [of _ a5], rule exI [of _ v], rule exI [of _ n], simp)
  qed
qed

section \<open>Exec\<close>

text \<open>Loading changes the pages, the entry point and the stack of one process, and nothing else of the tables.\<close>

definition keeps :: "user_process \<Rightarrow> user_process \<Rightarrow> bool" where
  "keeps p q \<longleftrightarrow> p_pid q = p_pid p \<and> p_task_id q = p_task_id p \<and> p_parent_pid q = p_parent_pid p \<and>
     p_address_space q = p_address_space p \<and> p_exit_status q = p_exit_status p \<and> p_state q = p_state p \<and> p_path q = p_path p \<and>
     length (p_pages q) = length (p_pages p) \<and> (p_page_count p \<le> 16 \<longrightarrow> p_page_count q \<le> 16)"

definition loads :: "u32 \<Rightarrow> 'a user_state_scheme \<Rightarrow> 'a user_state_scheme \<Rightarrow> bool" where
  "loads j s t \<longleftrightarrow> (\<exists>q. keeps (processes s ! unat j) q \<and>
     kvars t = (tasks s, current_task s, next_task_id s, (processes s)[unat j := q], next_pid s))"

lemma loadsI:
  assumes "kvars t = (tasks s, current_task s, next_task_id s, (processes s)[unat j := q], next_pid s)" "keeps (processes s ! unat j) q"
  shows "loads j s t"
  using assms unfolding loads_def by blast

lemma loads_refl: "kvars t = kvars s \<Longrightarrow> loads j s t"
  by (rule loadsI [of _ _ _ "processes s ! unat j"]) (simp_all add: keeps_def, simp add: kvars_def)

lemma loads_trans:
  assumes "loads j s t" "loads j t u" "unat j < length (processes s)"
  shows "loads j s u"
proof -
  obtain p where p: "keeps (processes s ! unat j) p" "kvars t = (tasks s, current_task s, next_task_id s, (processes s)[unat j := p], next_pid s)"
    using assms(1) unfolding loads_def by blast
  obtain q where q: "keeps (processes t ! unat j) q" "kvars u = (tasks t, current_task t, next_task_id t, (processes t)[unat j := q], next_pid t)"
    using assms(2) unfolding loads_def by blast
  have "processes t ! unat j = p" using p(2) assms(3) by (simp add: kvars_def)
  then have "keeps (processes s ! unat j) q" using p(1) q(1) by (simp add: keeps_def)
  then show ?thesis using p(2) q(2) by (intro loadsI [of _ _ _ q]) (simp_all add: kvars_def)
qed

lemma loads_length: "loads j s t \<Longrightarrow> length (processes t) = length (processes s)"
  unfolding loads_def kvars_def by auto

lemma loads_set: "keeps (processes s ! unat j) (f (processes s ! unat j)) \<Longrightarrow> loads j s (set_proc j f s)"
  by (rule loadsI [of _ _ _ "f (processes s ! unat j)"]) (simp_all add: set_proc_kvars)

lemma loads_free_pages:
  assumes "unat j < length (processes s)"
  shows "loads j s (user_process_free_pages (Some j) s)"
  using free_pages_kvars [OF assms] by (auto simp: keeps_def intro!: loadsI)

lemma loads_map_copied:
  assumes j: "unat j < length (processes s)" and m: "map_copied_user_page (Some j) v src sz fl s = (r, t)"
  shows "loads j s t"
proof (cases "p_page_count (proc_at j s) \<ge> USER_PROCESS_MAX_PAGES \<or> sz > PMM_PAGE_SIZE")
  case True
  then have "t = s" using m by (auto simp: map_copied_user_page_def split: if_splits)
  then show ?thesis by (simp add: loads_refl)
next
  case False
  obtain pa a where a: "pmm_alloc_page s = (pa, a)" by (cases "pmm_alloc_page s")
  have ka: "kvars a = kvars s" by (rule alloc_kvars [OF a])
  let ?page = "vmm_phys_to_virt pa"
  define b where "b = (if src \<noteq> 0 then (a\<lparr>kmem := memset ?page 0 PMM_PAGE_SIZE (kmem a)\<rparr>)\<lparr>kmem :=
     memcpy ?page src sz (kmem (a\<lparr>kmem := memset ?page 0 PMM_PAGE_SIZE (kmem a)\<rparr>))\<rparr> else a\<lparr>kmem := memset ?page 0 PMM_PAGE_SIZE (kmem a)\<rparr>)"
  have kb: "kvars b = kvars s" unfolding b_def using ka by simp
  obtain q c where c: "vmm_map_page_in (p_address_space (proc_at j b)) v pa (VMM_PAGE_PRESENT OR VMM_PAGE_USER OR fl) b = (q, c)"
    by (cases "vmm_map_page_in (p_address_space (proc_at j b)) v pa (VMM_PAGE_PRESENT OR VMM_PAGE_USER OR fl) b")
  have kc: "kvars c = kvars s" using mem_kvars(2) [of "p_address_space (proc_at j b)" v pa "VMM_PAGE_PRESENT OR VMM_PAGE_USER OR fl" b] c kb by simp
  let ?n = "unat (p_page_count (proc_at j c))"
  let ?d = "set_proc j (\<lambda>p. p\<lparr>p_page_count := p_page_count p + 1\<rparr>)
      (set_proc j (\<lambda>p. p\<lparr>p_pages := (p_pages p)[?n := (p_pages p ! ?n)\<lparr>pg_paddr := pa\<rparr>]\<rparr>)
        (set_proc j (\<lambda>p. p\<lparr>p_pages := (p_pages p)[?n := (p_pages p ! ?n)\<lparr>pg_vaddr := v\<rparr>]\<rparr>) c))"
  have t: "kvars t = kvars s \<or> t = ?d"
    using m False a ka kc by (auto simp: map_copied_user_page_def Let_def b_def [symmetric] c split: if_splits)
  show ?thesis
  proof (cases "kvars t = kvars s")
    case True
    then show ?thesis by (rule loads_refl)
  next
    case ne: False
    let ?p = "processes s ! unat j"
    let ?q = "?p\<lparr>p_pages := (p_pages ?p)[?n := ((p_pages ?p)[?n := (p_pages ?p ! ?n)\<lparr>pg_vaddr := v\<rparr>] ! ?n)\<lparr>pg_paddr := pa\<rparr>],
       p_page_count := p_page_count ?p + 1\<rparr>"
    have "kvars ?d = (tasks s, current_task s, next_task_id s, (processes s)[unat j := ?q], next_pid s)"
      using j kvarsD [OF kc] by (simp add: set_proc_def kvars_def)
    moreover have "p_page_count (processes s ! unat j) + 1 \<le> 16"
      using False unat_inc [of "p_page_count (processes s ! unat j)" 16]
      by (simp add: USER_PROCESS_MAX_PAGES_def proc_at_def word_le_nat_alt word_less_nat_alt not_le)
    ultimately show ?thesis using t ne by (intro loadsI [of _ _ _ ?q]) (auto simp: keeps_def)
  qed
qed

lemma loads_emxf:
  assumes j: "unat j < length (processes s)" and m: "load_emxf (Some j) img sz s = (r, t)"
  shows "loads j s t"
proof -
  let ?code = "img + EMXF_HEADER_SIZE" and ?n = "read_le32 (kmem s) (img + 4)"
  obtain q a where a: "map_copied_user_page (Some j) USER_INIT_CODE_ADDR ?code ?n 0 s = (q, a)"
    by (cases "map_copied_user_page (Some j) USER_INIT_CODE_ADDR ?code ?n 0 s")
  note L = loads_map_copied [OF j a]
  have "t = s \<or> t = a \<or> t = set_proc j (\<lambda>p. p\<lparr>p_entry := USER_INIT_CODE_ADDR + read_le32 (kmem s) (img + 8)\<rparr>) a"
    using m a by (auto simp: load_emxf_def Let_def split: if_splits)
  moreover have "loads j s (set_proc j (\<lambda>p. p\<lparr>p_entry := e\<rparr>) a)" for e
    by (rule loads_trans [OF L loads_set j]) (simp add: keeps_def)
  ultimately show ?thesis using L loads_refl [of s s j] by auto
qed

lemma loads_prepare:
  assumes j: "unat j < length (processes s)" and m: "user_prepare_exec (Some j) path s = (r, t)"
  shows "loads j s t"
proof (cases "path = None \<or> initramfs_find path s = None")
  case True
  then show ?thesis
    using m loads_refl [of s s j] loads_free_pages [OF j] by (auto simp: user_prepare_exec_def split: option.splits)
next
  case False
  then obtain x y where xy: "initramfs_find path s = Some (x, y)" by auto
  obtain q a where a: "load_emxf (Some j) x y s = (q, a)" by (cases "load_emxf (Some j) x y s")
  note A = loads_emxf [OF j a]
  have ja: "unat j < length (processes a)" using j loads_length [OF A] by simp
  obtain k b where b: "map_copied_user_page (Some j) USER_INIT_STACK_ADDR 0 0 VMM_PAGE_WRITABLE a = (k, b)"
    by (cases "map_copied_user_page (Some j) USER_INIT_STACK_ADDR 0 0 VMM_PAGE_WRITABLE a")
  note B = loads_trans [OF A loads_map_copied [OF ja b] j]
  have jb: "unat j < length (processes b)" using j loads_length [OF B] by simp
  let ?c = "set_proc j (\<lambda>p. p\<lparr>p_stack := USER_INIT_STACK_ADDR\<rparr>) b"
  have C: "loads j s ?c" by (rule loads_trans [OF B loads_set j]) (simp add: keeps_def)
  have D: "loads j s (set_proc j (\<lambda>p. p\<lparr>p_stack_size := PMM_PAGE_SIZE\<rparr>) ?c)"
    by (rule loads_trans [OF C loads_set j]) (simp add: keeps_def)
  have "t = user_process_free_pages (Some j) a \<or> t = user_process_free_pages (Some j) b \<or>
      t = set_proc j (\<lambda>p. p\<lparr>p_stack_size := PMM_PAGE_SIZE\<rparr>) ?c"
    using m False xy a b by (auto simp: user_prepare_exec_def Let_def split: option.splits if_splits)
  then show ?thesis
    using D loads_trans [OF A loads_free_pages [OF ja] j] loads_trans [OF B loads_free_pages [OF jb] j] by auto
qed

lemma enter_kvars: "user_enter (Some j) s = Enters t \<Longrightarrow> kvars t = kvars s"
  by (auto simp: user_enter_def Let_def kvars_def)

lemma exec_tables:
  fixes s t :: "'a user_state_scheme"
  assumes f: "user_process_find_by_task_id (sched_current_task_id s) s = Some j" and len: "length (processes s) = 16"
  shows "user_exec_task s = Enters t \<Longrightarrow> \<exists>(u :: 'a user_state_scheme) v q. keeps (processes s ! unat j) q \<and>
      user_vars t = ((processes s)[unat j := q\<lparr>p_state := USER_PROCESS_RUNNING\<rparr>], next_pid s) \<and>
      sched_vars u = sched_vars s \<and> sched_set_current_address_space (p_address_space q) u = (0, v) \<and> sched_vars t = sched_vars v"
    "user_exec_task s = Goes t \<Longrightarrow> user_vars t = ((processes s)[unat j := zero_process], next_pid s) \<and> sched_vars t = sched_vars s"
proof -
  have j: "unat j < length (processes s)" using find_by_task_Some [OF f] len by simp
  let ?path = "c_string (p_path (proc_at j s))"
  define fail where "fail = (\<lambda>s :: 'a user_state_scheme.
    let s = snd (printk (''user: failed to execute %s'' @ [CHR 0x0A]) [VStr (Some (c_string (p_path (proc_at j s))))] s);
        s = (if p_address_space (proc_at j s) \<noteq> 0 then vmm_destroy_address_space (p_address_space (proc_at j s)) s else s)
    in Goes (user_process_release (Some j) s))"
  obtain r a where a: "user_prepare_exec (Some j) (Some ?path) s = (r, a)" by (cases "user_prepare_exec (Some j) (Some ?path) s")
  obtain q b where b: "sched_set_current_address_space (p_address_space (proc_at j a)) a = (q, b)"
    by (cases "sched_set_current_address_space (p_address_space (proc_at j a)) a")
  have run: "user_exec_task s = (if r \<noteq> 0 then fail a else if q \<noteq> 0 then fail (user_process_free_pages (Some j) b)
      else user_enter (Some j) (set_proc j (\<lambda>p. p\<lparr>p_state := USER_PROCESS_RUNNING\<rparr>) b))"
    unfolding user_exec_task_def f by (simp add: Let_def a b fail_def del: append_Cons append_Nil)
  note L = loads_prepare [OF j a]
  obtain p where p: "keeps (processes s ! unat j) p" "kvars a = (tasks s, current_task s, next_task_id s, (processes s)[unat j := p], next_pid s)"
    using L unfolding loads_def by blast
  have fl: "user_vars t = ((processes w)[unat j := zero_process], next_pid w) \<and> sched_vars t = sched_vars w" if "fail w = Goes t" for w
  proof -
    let ?v = "snd (printk (''user: failed to execute %s'' @ [CHR 0x0A]) [VStr (Some (c_string (p_path (proc_at j w))))] w)"
    let ?u = "if p_address_space (proc_at j ?v) \<noteq> 0 then vmm_destroy_address_space (p_address_space (proc_at j ?v)) ?v else ?v"
    have "kvars ?u = kvars w" by simp
    moreover have "t = user_process_release (Some j) ?u" using that by (simp add: fail_def Let_def del: append_Cons append_Nil)
    ultimately show ?thesis
      using set_proc_kvars [of j "\<lambda>_. zero_process" ?u] by (simp add: user_process_release_def kvars_def user_vars_def sched_vars_def)
  qed
  have nofail: "fail w \<noteq> Enters t" for w by (simp add: fail_def Let_def)
  have sb: "sched_state.more b = sched_state.more a" by (rule adopt_more [OF b])
  show "\<exists>(u :: 'a user_state_scheme) v q. keeps (processes s ! unat j) q \<and>
      user_vars t = ((processes s)[unat j := q\<lparr>p_state := USER_PROCESS_RUNNING\<rparr>], next_pid s) \<and>
      sched_vars u = sched_vars s \<and> sched_set_current_address_space (p_address_space q) u = (0, v) \<and> sched_vars t = sched_vars v"
    if e: "user_exec_task s = Enters t"
  proof -
    have z: "q = 0" and t: "kvars t = kvars (set_proc j (\<lambda>p. p\<lparr>p_state := USER_PROCESS_RUNNING\<rparr>) b)"
      using e run nofail enter_kvars by (auto split: if_splits)
    have ub: "processes b = (processes s)[unat j := p]" "next_pid b = next_pid s"
      using sched_more_user [OF sb] p(2) by (simp_all add: user_vars_def kvars_def)
    have "proc_at j a = p" using p(2) j by (simp add: proc_at_def kvars_def)
    then have "sched_set_current_address_space (p_address_space p) a = (0, b)" using b z by simp
    moreover have "sched_vars a = sched_vars s" using p(2) by (simp add: kvars_def sched_vars_def)
    moreover have "user_vars t = ((processes s)[unat j := p\<lparr>p_state := USER_PROCESS_RUNNING\<rparr>], next_pid s)" "sched_vars t = sched_vars b"
      using t set_proc_kvars [of j "\<lambda>p. p\<lparr>p_state := USER_PROCESS_RUNNING\<rparr>" b] ub j by (simp_all add: kvars_def user_vars_def sched_vars_def)
    ultimately show ?thesis using p(1) by blast
  qed
  show "user_vars t = ((processes s)[unat j := zero_process], next_pid s) \<and> sched_vars t = sched_vars s" if g: "user_exec_task s = Goes t"
  proof (cases "r = 0")
    case False
    then have "fail a = Goes t" using g run by simp
    then show ?thesis using fl p(2) by (simp add: kvars_def user_vars_def sched_vars_def)
  next
    case True
    have "q \<noteq> 0" using g run True by (auto simp: user_enter_def Let_def split: if_splits)
    then have "b = a" "fail (user_process_free_pages (Some j) b) = Goes t"
      using b g run True by (auto simp: sched_set_current_address_space_def Let_def split: if_splits)
    moreover have "loads j s (user_process_free_pages (Some j) a)"
      using loads_trans [OF L loads_free_pages j] j loads_length [OF L] by simp
    ultimately show ?thesis using fl unfolding loads_def by (auto simp: kvars_def user_vars_def sched_vars_def)
  qed
qed

section \<open>Tasks of processes\<close>

abbreviation ready :: "task list \<Rightarrow> nat \<Rightarrow> bool" where
  "ready ts k \<equiv> t_state (ts ! k) = TASK_RUNNABLE \<or> t_state (ts ! k) = TASK_RUNNING"

definition linked :: "task list \<Rightarrow> u32 \<Rightarrow> user_process list \<Rightarrow> bool" where
  "linked ts nt ps \<longleftrightarrow> (\<forall>i < 16. used (ps ! i) \<longrightarrow> 0 < p_task_id (ps ! i) \<and> p_task_id (ps ! i) < nt) \<and>
     (\<forall>i < 16. \<forall>j < 16. used (ps ! i) \<longrightarrow> used (ps ! j) \<longrightarrow> p_task_id (ps ! i) = p_task_id (ps ! j) \<longrightarrow> i = j) \<and>
     (\<forall>i < 16. used (ps ! i) \<longrightarrow> p_state (ps ! i) \<noteq> USER_PROCESS_EXITED \<longrightarrow>
        (\<exists>k < 16. ready ts k \<and> t_id (ts ! k) = p_task_id (ps ! i))) \<and>
     (\<forall>i < 16. p_state (ps ! i) = USER_PROCESS_EXITED \<longrightarrow> (\<forall>k < 16. ready ts k \<longrightarrow> t_id (ts ! k) \<noteq> p_task_id (ps ! i)))"

lemma linkedD:
  assumes "linked ts nt ps" "i < 16"
  shows "used (ps ! i) \<Longrightarrow> p_task_id (ps ! i) \<noteq> 0" "used (ps ! i) \<Longrightarrow> p_task_id (ps ! i) < nt"
    "j < 16 \<Longrightarrow> used (ps ! i) \<Longrightarrow> used (ps ! j) \<Longrightarrow> p_task_id (ps ! i) = p_task_id (ps ! j) \<Longrightarrow> i = j"
    "used (ps ! i) \<Longrightarrow> p_state (ps ! i) \<noteq> USER_PROCESS_EXITED \<Longrightarrow> \<exists>k < 16. ready ts k \<and> t_id (ts ! k) = p_task_id (ps ! i)"
    "p_state (ps ! i) = USER_PROCESS_EXITED \<Longrightarrow> k < 16 \<Longrightarrow> ready ts k \<Longrightarrow> t_id (ts ! k) \<noteq> p_task_id (ps ! i)"
  using assms unfolding linked_def by auto

lemma linked_tasks:
  assumes L: "linked ts nt ps" and le: "nt \<le> mt"
    and old: "\<And>k. k < 16 \<Longrightarrow> ready ts k \<Longrightarrow> ready us k \<and> t_id (us ! k) = t_id (ts ! k)"
    and new: "\<And>k. k < 16 \<Longrightarrow> ready us k \<Longrightarrow> (ready ts k \<and> t_id (us ! k) = t_id (ts ! k)) \<or> \<not> t_id (us ! k) < nt"
  shows "linked us mt ps"
proof -
  note D = linkedD [OF L]
  have "\<exists>k < 16. ready us k \<and> t_id (us ! k) = p_task_id (ps ! i)" if "i < 16" "used (ps ! i)" "p_state (ps ! i) \<noteq> USER_PROCESS_EXITED" for i
    using D(4) [OF that] old by metis
  moreover have "t_id (us ! k) \<noteq> p_task_id (ps ! i)" if "i < 16" "p_state (ps ! i) = USER_PROCESS_EXITED" "k < 16" "ready us k" for i k
    using new [OF that(3,4)] D(5) [OF that(1,2,3)] D(2) [OF that(1)] that(2) by auto
  moreover have "p_task_id (ps ! i) < mt" "0 < p_task_id (ps ! i)" if "i < 16" "used (ps ! i)" for i
    using D(1,2) [OF that] le by (auto simp: word_gt_0)
  ultimately show ?thesis unfolding linked_def using D(3) by blast
qed

lemma linked_sub:
  assumes L: "linked ts nt ps"
    and sub: "\<And>i. i < 16 \<Longrightarrow> used (qs ! i) \<Longrightarrow> used (ps ! i) \<and> p_task_id (qs ! i) = p_task_id (ps ! i) \<and>
      (p_state (qs ! i) = USER_PROCESS_EXITED \<longleftrightarrow> p_state (ps ! i) = USER_PROCESS_EXITED)"
  shows "linked ts nt qs"
proof -
  note D = linkedD [OF L]
  have "\<exists>k < 16. ready ts k \<and> t_id (ts ! k) = p_task_id (qs ! i)" if "i < 16" "used (qs ! i)" "p_state (qs ! i) \<noteq> USER_PROCESS_EXITED" for i
    using D(4) [OF that(1)] sub [OF that(1,2)] that(3) by auto
  moreover have "t_id (ts ! k) \<noteq> p_task_id (qs ! i)" if "i < 16" "p_state (qs ! i) = USER_PROCESS_EXITED" "k < 16" "ready ts k" for i k
    using D(5) [OF that(1)] sub [OF that(1)] that by auto
  moreover have "p_task_id (qs ! i) < nt" "0 < p_task_id (qs ! i)" if "i < 16" "used (qs ! i)" for i
    using D(1,2) [OF that(1)] sub [OF that] by (auto simp: word_gt_0)
  moreover have "i = j" if "i < 16" "j < 16" "used (qs ! i)" "used (qs ! j)" "p_task_id (qs ! i) = p_task_id (qs ! j)" for i j
    using D(3) [OF that(1,2)] sub [OF that(1,3)] sub [OF that(2,4)] that(5) by simp
  ultimately show ?thesis unfolding linked_def by blast
qed

end
