(* ===== verification/SchedSwitch.thy ===== *)
theory SchedSwitch
  imports SchedProps DevicesProof
begin

text \<open>
  The register switch of \<open>context_switch.S\<close>: a task resumes where it left, a new thread starts in
  the trampoline; and concrete scheduler states for the properties of the scheduler.
\<close>

section \<open>The saved frame\<close>

definition saved_frame :: "'a sched_state_scheme \<Rightarrow> mem" where
  "saved_frame s = st32 (reg_esp s - 16) (reg_edi s) (st32 (reg_esp s - 12) (reg_esi s)
     (st32 (reg_esp s - 8) (reg_ebx s) (st32 (reg_esp s - 4) (reg_ebp s) (kmem s))))"

lemma switch_regs:
  fixes s :: "'a sched_state_scheme" and i sp :: u32
  defines "m \<equiv> saved_frame s" and "t \<equiv> sched_context_switch i sp s"
  shows "kmem t = m" "reg_edi t = ld32 m sp" "reg_esi t = ld32 m (sp + 4)" "reg_ebx t = ld32 m (sp + 8)"
    "reg_ebp t = ld32 m (sp + 12)" "reg_eip t = ld32 m (sp + 16)" "reg_esp t = sp + 20"
  by (simp_all add: m_def t_def saved_frame_def sched_context_switch_def Let_def push_def pop_def set_task_def add.commute)

lemma saved_frame_cells:
  "ld32 (saved_frame s) (reg_esp s - 16) = reg_edi s" "ld32 (saved_frame s) (reg_esp s - 12) = reg_esi s"
  "ld32 (saved_frame s) (reg_esp s - 8) = reg_ebx s" "ld32 (saved_frame s) (reg_esp s - 4) = reg_ebp s"
  "ld32 (saved_frame s) (reg_esp s) = ld32 (kmem s) (reg_esp s)"
  by (simp_all add: saved_frame_def ld32_st32_apart apart_def)

lemma far_enough: "16 \<le> d \<Longrightarrow> k \<le> 12 \<Longrightarrow> 4 \<le> d - k" for d k :: u32
  using u32_bound [of d] u32_bound [of k]
  by (auto simp: word_le_nat_alt unat_sub_if_size)

lemma saved_frame_other:
  assumes "16 \<le> x - (reg_esp s - 16)"
  shows "saved_frame s x = kmem s x"
proof -
  have "4 \<le> x - (reg_esp s - 16) - 4" "4 \<le> x - (reg_esp s - 16) - 8" "4 \<le> x - (reg_esp s - 16) - 12" "4 \<le> x - (reg_esp s - 16) - 0"
    by (rule far_enough [OF assms], simp)+
  moreover have "x - (reg_esp s - 12) = x - (reg_esp s - 16) - 4" "x - (reg_esp s - 8) = x - (reg_esp s - 16) - 8"
      "x - (reg_esp s - 4) = x - (reg_esp s - 16) - 12" by simp_all
  ultimately show ?thesis by (simp only: saved_frame_def st32_other diff_zero)
qed

lemma frame_cell: "x - (a + k) < 4 \<Longrightarrow> k \<le> 16 \<Longrightarrow> x - a < 20" for x a k :: u32
proof -
  assume *: "x - (a + k) < 4" "k \<le> 16"
  have "x - a = (x - (a + k)) + k" by simp
  moreover have "unat (x - (a + k)) < 4" "unat k \<le> 16" using * by (simp_all add: word_less_nat_alt word_le_nat_alt)
  ultimately show ?thesis by (simp only: word_less_nat_alt unat_word_ariths) simp
qed

section \<open>Properties\<close>

text \<open>
  C26: a task that is switched away from and later switched back to continues as if
  \<open>sched_context_switch\<close> had simply returned: whatever happens in between, provided the twenty
  bytes of its saved frame and return address are left alone and the switching task's own frame
  does not overlap them, its callee-saved registers, its return address and its stack pointer are
  the ones it had.
\<close>

theorem context_switch_resumes:
  assumes "s1 = sched_context_switch old sp s" "unat old < length (tasks s)"
    and "sv = t_stack_pointer (task_at old s1)"
    and "\<forall>x. x - sv < 20 \<longrightarrow> kmem u x = kmem s1 x \<and> 16 \<le> x - (reg_esp u - 16)"
    and "t = sched_context_switch cur sv u"
  shows "reg_ebp t = reg_ebp s \<and> reg_ebx t = reg_ebx s \<and> reg_esi t = reg_esi s \<and> reg_edi t = reg_edi s \<and>
    reg_eip t = ld32 (kmem s) (reg_esp s) \<and> reg_esp t = reg_esp s + 4"
proof -
  have sv: "sv = reg_esp s - 16"
    using switch_vars [of old sp s] assms(1-3) by (simp add: sched_vars_def task_at_def)
  have cell: "ld32 (saved_frame u) (sv + k) = ld32 (saved_frame s) (sv + k)" if "k \<le> 16" for k
  proof (rule ld32_cong)
    fix x assume "x - (sv + k) < 4"
    then have "x - sv < 20" using that by (rule frame_cell)
    then have "kmem u x = kmem s1 x" "16 \<le> x - (reg_esp u - 16)" using assms(4) by simp_all
    then show "saved_frame u x = saved_frame s x"
      using saved_frame_other [of x u] switch_regs(1) [where i = old and sp = sp and s = s] assms(1) by simp
  qed
  have c: "ld32 (saved_frame u) sv = reg_edi s" "ld32 (saved_frame u) (sv + 4) = reg_esi s"
      "ld32 (saved_frame u) (sv + 8) = reg_ebx s" "ld32 (saved_frame u) (sv + 12) = reg_ebp s"
      "ld32 (saved_frame u) (sv + 16) = ld32 (kmem s) (reg_esp s)"
    using cell [of 0] cell [of 4] cell [of 8] cell [of 12] cell [of 16] saved_frame_cells [of s] by (simp_all add: sv)
  show ?thesis
    unfolding assms(5) switch_regs c by (simp add: sv)
qed

text \<open>
  C27: a thread made by \<open>kthread_create\<close> starts in the trampoline on its own stack.  Creation fills
  one slot (never slot 0) that was unused or held a thread that had ended, with a runnable task with
  a fresh identifier, the given entry point and the kernel's address space, and leaves every other
  task alone but for the reaping of ended ones; the first switch to it, as long as its prepared frame is
  left alone, loads the address of the trampoline with clear callee-saved registers, and its
  stack pointer is where the C calling convention wants it: at a return address, four bytes
  under a 16-byte boundary.
\<close>

theorem kthread_create_starts:
  assumes "sched_wf (tasks s) (current_task s) True" "kthread_create lk (Some f) s = Some (r, t)" "next_task_id t \<noteq> next_task_id s"
  shows "\<exists>i x. 0 < i \<and> i < 16 \<and>
    (t_state (tasks s ! i) = TASK_UNUSED \<or> i \<noteq> unat (current_task s) \<and> t_state (tasks s ! i) = TASK_ZOMBIE) \<and>
    tasks t ! i = x \<and> t_state x = TASK_RUNNABLE \<and> t_id x = next_task_id s \<and>
    r = sint (next_task_id s) \<and> next_task_id t = next_task_id s + 1 \<and>
    t_entry x = Some f \<and> t_address_space x = kernel_page_directory t \<and> t_stack x \<noteq> 0 \<and>
    (\<forall>j < 16. j \<noteq> i \<longrightarrow> tasks t ! j = reaped s j) \<and>
    (\<forall>u cur. (\<forall>a. a - t_stack_pointer x < 20 \<longrightarrow> kmem u a = kmem t a \<and> 16 \<le> a - (reg_esp u - 16)) \<longrightarrow>
       (let v = sched_context_switch cur (t_stack_pointer x) (u :: 'a sched_state_scheme)
        in reg_eip v = sym_kthread_trampoline lk \<and> reg_ebp v = 0 \<and> reg_ebx v = 0 \<and> reg_esi v = 0 \<and> reg_edi v = 0 \<and>
           reg_esp v + 4 = (t_stack x + 2048) AND NOT 15))"
proof -
  note C = create_vars [OF assms(2) sched_wfD(1) [OF assms(1)]]
  then obtain i x where x: "0 < i" "i < 16" "r = sint (next_task_id s)" "t_id x = next_task_id s" "t_state x = TASK_RUNNABLE"
      "t_stack x \<noteq> 0" "t_entry x = Some f" "t_address_space x = kernel_page_directory t" "fresh_stack lk x (kmem t)"
      "tasks t = (map (reaped s) [0..<16])[i := x]" "next_task_id t = next_task_id s + 1" "t_state (reaped s i) = TASK_UNUSED"
    using assms(3) by (auto simp: sched_vars_def)
  let ?sp = "t_stack_pointer x"
  have run: "reg_eip v = sym_kthread_trampoline lk \<and> reg_ebp v = 0 \<and> reg_ebx v = 0 \<and> reg_esi v = 0 \<and> reg_edi v = 0 \<and>
      reg_esp v + 4 = (t_stack x + 2048) AND NOT 15"
    if v: "v = sched_context_switch cur ?sp u" and u: "\<forall>a. a - ?sp < 20 \<longrightarrow> kmem u a = kmem t a \<and> 16 \<le> a - (reg_esp u - 16)"
    for u v :: "'a sched_state_scheme" and cur
  proof -
    have cell: "ld32 (saved_frame u) (?sp + k) = ld32 (kmem t) (?sp + k)" if "k \<le> 16" for k
      by (rule ld32_cong) (use u frame_cell [OF _ that] saved_frame_other [of _ u] in auto)
    have "ld32 (kmem t) ?sp = 0" "ld32 (kmem t) (?sp + 4) = 0" "ld32 (kmem t) (?sp + 8) = 0"
        "ld32 (kmem t) (?sp + 12) = 0" "ld32 (kmem t) (?sp + 16) = sym_kthread_trampoline lk"
      using x(9) unfolding fresh_stack_def Let_def by blast+
    then have "ld32 (saved_frame u) ?sp = 0" "ld32 (saved_frame u) (?sp + 4) = 0" "ld32 (saved_frame u) (?sp + 8) = 0"
        "ld32 (saved_frame u) (?sp + 12) = 0" "ld32 (saved_frame u) (?sp + 16) = sym_kthread_trampoline lk"
      using cell [of 0] cell [of 4] cell [of 8] cell [of 12] cell [of 16] by simp_all
    moreover have "?sp = ((t_stack x + 2048) AND NOT 15) - 24"
      using x(9) by (simp add: fresh_stack_def Let_def sched_consts)
    ultimately show ?thesis unfolding v switch_regs by simp
  qed
  have "t_state (tasks s ! i) = TASK_UNUSED \<or> i \<noteq> unat (current_task s) \<and> t_state (tasks s ! i) = TASK_ZOMBIE"
    using x(12) by (auto simp: reaped_def split: if_splits)
  moreover have "tasks t ! i = x" "\<forall>j < 16. j \<noteq> i \<longrightarrow> tasks t ! j = reaped s j" using x(2,10) by simp_all
  ultimately show ?thesis
    using x(1-8,11) unfolding Let_def
    by (intro exI [of _ i] exI [of _ x] conjI allI impI) (assumption | rule run [OF refl, THEN conjunct1] | metis run [OF refl])+
qed

section \<open>Concrete states\<close>

text \<open>Nothing to reap.\<close>

lemma reap_none_but_current:
  assumes "\<forall>i < 16. i \<noteq> unat (current_task s) \<longrightarrow> t_state (tasks s ! i) \<noteq> TASK_ZOMBIE"
  shows "reap_zombies s = Some s"
proof -
  have "\<exists>t. reap_zombies s = Some t \<and> t = s" unfolding reap_zombies_def
    by (rule for_opt_invariant [where P = "\<lambda>_ t. t = s"])
      (use assms in \<open>auto simp: MAX_TASKS_def task_at_def word_less_nat_alt word_unat_eq_iff\<close>)
  then show ?thesis by simp
qed

lemma reap_none: "\<forall>i < 16. t_state (tasks s ! i) \<noteq> TASK_ZOMBIE \<Longrightarrow> reap_zombies s = Some s"
  by (rule reap_none_but_current) simp

lemma yield_returns:
  assumes "\<forall>i < 16. t_state (tasks s ! i) \<noteq> TASK_ZOMBIE"
  shows "\<exists>sw t. sched_yield s = Some (sw, t)"
  by (auto simp: sched_yield_def reap_none [OF assms] Let_def split: option.splits)

lemma yield_no_zombies:
  assumes "sched_ok s" "\<forall>i < 16. t_state (tasks s ! i) \<noteq> TASK_ZOMBIE" "sched_yield s = Some (sw, t)"
  shows "\<forall>i < 16. t_state (tasks t ! i) \<noteq> TASK_ZOMBIE"
proof -
  let ?ts = "map (reaped s) [0..<16]"
  note V = sched_yield_vars [OF assms(3) sched_wfD(1) [OF assms(1)]]
  note W = sched_wfD [OF reaped_wf [OF assms(1)]]
  have r: "\<forall>i < 16. t_state (?ts ! i) \<noteq> TASK_ZOMBIE" using assms(2) by (simp add: reaped_def)
  show ?thesis
  proof (cases "next_index ?ts (current_task s)")
    case None
    then show ?thesis using V r by (auto simp: sched_vars_def)
  next
    case (Some idx)
    then obtain sp where sp: "tasks t = handover ?ts (unat (current_task s)) (unat idx) sp" using V by (auto simp: sched_vars_def)
    show ?thesis unfolding sp
      using handover_nth(1) [OF W(1,2) next_index_SomeD(1) [OF Some W(2)]] r by auto
  qed
qed

lemma yields_run:
  assumes "sched_ok s" "\<forall>i < 16. t_state (tasks s ! i) \<noteq> TASK_ZOMBIE"
  shows "\<exists>ss. length ss = n \<and> successively (turn lk) (s # ss)"
  using assms
proof (induction n arbitrary: s)
  case (Suc n)
  obtain sw t where t: "sched_yield s = Some (sw, t)" using yield_returns [OF Suc.prems(2)] by blast
  have "sched_ok t" using yield_wf [OF Suc.prems(1) t] by simp
  then obtain ss where "length ss = n" "successively (turn lk) (t # ss)"
    using Suc.IH yield_no_zombies [OF Suc.prems t] by blast
  moreover have "turn lk s t" unfolding turn_def using hand_on.yield [OF t] by blast
  ultimately show ?case by (intro exI [of _ "t # ss"]) simp
qed simp

definition small_sched :: "task list \<Rightarrow> sched_state" where
  "small_sched ts = dev_state.extend (small_dev boot0) \<lparr>tasks = ts, current_task = 0, next_task_id = 0,
     reg_ebp = 1, reg_ebx = 2, reg_esi = 3, reg_edi = 4, reg_esp = 0xC0120000, reg_eip = 0\<rparr>"

definition worker :: task where
  "worker = blank_task\<lparr>t_id := 1, t_state := TASK_RUNNABLE, t_stack := 0xC0001000, t_stack_pointer := 0xC0001700,
     t_entry := Some (KFun ''worker'')\<rparr>"

definition two_tasks :: sched_state where
  "two_tasks = (small_sched (blank_task\<lparr>t_state := TASK_RUNNING\<rparr> # worker # replicate 14 blank_task))\<lparr>next_task_id := 2\<rparr>"

lemma small_sched_simps [simp]:
  "tasks (small_sched ts) = ts" "current_task (small_sched ts) = 0" "next_task_id (small_sched ts) = 0"
  "reg_esp (small_sched ts) = 0xC0120000" "reg_ebp (small_sched ts) = 1"
  by (simp_all add: small_sched_def dev_state.defs)

lemma two_tasks_simps [simp]:
  "tasks two_tasks = blank_task\<lparr>t_state := TASK_RUNNING\<rparr> # worker # replicate 14 blank_task" "current_task two_tasks = 0"
  "next_task_id two_tasks = 2"
  by (simp_all add: two_tasks_def)

lemma nth_second: "(x # y # replicate 14 z) ! i = (if i = 0 then x else if i = 1 then y else z)" if "i < 16"
  using that by (cases i; cases "i - 1") auto

lemma two_tasks_ok: "sched_ok two_tasks" "ids_ok (tasks two_tasks) (next_task_id two_tasks)"
  "\<forall>i < 16. t_state (tasks two_tasks ! i) \<noteq> TASK_ZOMBIE"
  by (auto simp: sched_wf_def ids_ok_def nth_second worker_def blank_task_def split: if_splits)

theorem sched_invariant_witness:
  "\<exists>t. sched_yield (sched_init (small_sched (replicate 16 blank_task))) = Some (False, t) \<and> sched_wf (tasks t) (current_task t) True"
proof -
  let ?s = "small_sched (replicate 16 blank_task)"
  note V = sched_init_vars [of ?s]
  have z: "\<forall>i < 16. t_state (tasks (sched_init ?s) ! i) \<notin> {TASK_ZOMBIE, TASK_RUNNABLE}"
    using V by (simp add: sched_vars_def nth_first blank_task_def)
  then obtain sw t where t: "sched_yield (sched_init ?s) = Some (sw, t)" using yield_returns [of "sched_init ?s"] by auto
  have "sched_wf (tasks t) (current_task t) True"
    using sched_invariant [of ?s small_lk t] hand_on.yield [OF t] by auto
  moreover have "\<not> sw" using yield_choice(1) [OF _ t] sched_init_inv [of ?s] z by (auto simp: sched_inv_def)
  ultimately show ?thesis using t by auto
qed

theorem sched_yield_round_robin_witness:
  "\<exists>t. sched_yield two_tasks = Some (True, t) \<and> t_state (tasks t ! 0) = TASK_RUNNABLE"
proof -
  obtain sw t where t: "sched_yield two_tasks = Some (sw, t)" using yield_returns [OF two_tasks_ok(3)] by blast
  then show ?thesis
    using sched_yield_round_robin [OF two_tasks_ok(1) t, of 1] by (simp add: nth_second worker_def)
qed

theorem sched_no_starvation_witness:
  "\<exists>ss. length ss = 16 \<and> successively (turn small_lk) (two_tasks # ss) \<and> (\<exists>t \<in> set ss. unat (current_task t) = 1)"
proof -
  obtain ss where ss: "length ss = 16" "successively (turn small_lk) (two_tasks # ss)"
    using yields_run [OF two_tasks_ok(1,3)] by blast
  then show ?thesis
    using sched_no_starvation [OF two_tasks_ok(1,2) ss(2,1), of 1] by (auto simp: nth_second worker_def)
qed

theorem context_switch_resumes_witness:
  "\<exists>s t :: sched_state. s = sched_context_switch 0 0xC0001000 two_tasks \<and>
     t = sched_context_switch 1 (t_stack_pointer (task_at 0 s)) (s\<lparr>reg_esp := 0xC0001400\<rparr>) \<and> reg_ebp t = 1 \<and> reg_esp t = 0xC0120004"
proof -
  let ?s = "sched_context_switch 0 0xC0001000 two_tasks"
  have sp: "t_stack_pointer (task_at 0 ?s) = 0xC011FFF0"
    using switch_vars [of 0 "0xC0001000" two_tasks] by (simp add: sched_vars_def task_at_def two_tasks_def)
  have far: "16 \<le> x - 0xC00013F0" if "x - 0xC011FFF0 < 20" for x :: u32
  proof -
    have "x - 0xC00013F0 = (x - 0xC011FFF0) + 0x11EC00" by simp
    then show ?thesis using that by (simp only: word_le_nat_alt word_less_nat_alt unat_word_ariths) simp
  qed
  show ?thesis
    using context_switch_resumes [of ?s 0 "0xC0001000" two_tasks _ "?s\<lparr>reg_esp := 0xC0001400\<rparr>" _ 1, OF refl _ refl _ refl] far
    by (simp add: sp) (simp add: two_tasks_def)
qed

lemma two_tasks_heap: "mem_ok two_tasks" "heap_ok two_tasks []" "can_alloc two_tasks"
proof -
  have s: "pmm_same small_vm two_tasks" "heap_list two_tasks = 0"
    by (simp_all add: pmm_same_def two_tasks_def small_sched_def dev_state.defs small_dev_def desc_state.defs small_desc_def
        boot_state.defs boot0_def heap_state.defs vmm_state.defs)
  show "mem_ok two_tasks" "can_alloc two_tasks"
    using small_vm_mem_ok small_can_alloc by (simp_all add: pmm_same_parts [OF s(1)] can_alloc_def)
  show "heap_ok two_tasks []" using s(2) by (simp add: heap_ok_def)
qed

lemma align_stack: "align_size KTHREAD_STACK_SIZE = Some 2048" "\<not> (2048 :: u32) > 4084"
  by (simp_all add: align_size_def KMALLOC_ALIGN_def sched_consts word_less_nat_alt)

theorem kthread_create_starts_witness:
  "\<exists>r t. kthread_create small_lk (Some (KFun ''helper'')) two_tasks = Some (r, t) \<and>
     (\<exists>i. 0 < i \<and> i < 16 \<and> t_state (tasks t ! i) = TASK_RUNNABLE \<and> t_entry (tasks t ! i) = Some (KFun ''helper''))"
proof -
  obtain p u where u: "kmalloc KTHREAD_STACK_SIZE two_tasks = Some (p, u)" "alloc_spec 2048 [] two_tasks p u"
    using kmalloc_spec [OF two_tasks_heap(2,1), of KTHREAD_STACK_SIZE]
    unfolding align_stack(1) option.case if_not_P [OF align_stack(2)] by blast
  then obtain q where "p = vmm_phys_to_virt q + 12" "heap_ok u (split_blk 2048 (page_blk (vmm_phys_to_virt q)))"
    using two_tasks_heap(3) by (auto simp: alloc_spec_def)
  then have "p \<noteq> 0" using blk_addr_nz [OF heap_okD(2), of u] by (force simp: split_blk_def page_blk_def split: if_splits)
  have f: "first_u32 1 MAX_TASKS (\<lambda>i. t_state (task_at i two_tasks) = TASK_UNUSED) = Some 2"
    by (rule first_u32_eqI) (auto simp: MAX_TASKS_def task_at_def worker_def word_le_nat_alt word_less_nat_alt nth_Cons')
  obtain r t where t: "kthread_create small_lk (Some (KFun ''helper'')) two_tasks = Some (r, t)"
    "next_task_id t = next_task_id u + 1"
    using u(1) \<open>p \<noteq> 0\<close> f reap_none [OF two_tasks_ok(3)] prepare_sched
    by (simp add: kthread_create_def Let_def set_task_def sched_prepare_kthread_stack_def store_down_def)
  then have "next_task_id t \<noteq> next_task_id two_tasks" using kmalloc_sched [OF u(1)] by (simp add: sched_vars_def)
  then show ?thesis using kthread_create_starts [OF two_tasks_ok(1) t(1)] t(1) by blast
qed

end
