(* ===== verification/KernelRun.thy ===== *)
theory KernelRun
  imports UserProps SchedSwitch
begin

text \<open>
  The kernel as one state machine, over the scheduler and the process table.
\<close>

section \<open>The invariant\<close>

lemma yield_ready:
  assumes "sched_wf (tasks s) (current_task s) run" "sched_yield s = Some (sw, t)" "k < 16"
  shows "ready (tasks t) k \<longleftrightarrow> ready (tasks s) k" "ready (tasks s) k \<Longrightarrow> t_id (tasks t ! k) = t_id (tasks s ! k)"
    "next_task_id t = next_task_id s"
proof -
  let ?ts = "map (reaped s) [0..<16]" and ?c = "unat (current_task s)"
  note W = sched_wfD [OF reaped_wf [OF assms(1)]] and V = sched_yield_vars [OF assms(2) sched_wfD(1) [OF assms(1)]]
  have r: "ready ?ts k \<longleftrightarrow> ready (tasks s) k" "ready (tasks s) k \<Longrightarrow> t_id (?ts ! k) = t_id (tasks s ! k)"
    using assms(3) by (auto simp: reaped_def)
  have "(ready (tasks t) k \<longleftrightarrow> ready (tasks s) k) \<and> (ready (tasks s) k \<longrightarrow> t_id (tasks t ! k) = t_id (tasks s ! k)) \<and> next_task_id t = next_task_id s"
  proof (cases "next_index ?ts (current_task s)")
    case None
    then show ?thesis using V r by (auto simp: sched_vars_def)
  next
    case (Some idx)
    then obtain sp where sp: "tasks t = handover ?ts ?c (unat idx) sp" "next_task_id t = next_task_id s" using V by (auto simp: sched_vars_def)
    note N = next_index_SomeD(1,2) [OF Some W(2)]
    note H = handover_nth(1,4) [OF W(1,2) N(1) assms(3), of sp]
    have "ready (handover ?ts ?c (unat idx) sp) k \<longleftrightarrow> ready ?ts k" unfolding H(1) using N(2) by auto
    then show ?thesis unfolding sp using r H(2) by auto
  qed
  then show "ready (tasks t) k \<longleftrightarrow> ready (tasks s) k" "ready (tasks s) k \<Longrightarrow> t_id (tasks t ! k) = t_id (tasks s ! k)"
    "next_task_id t = next_task_id s" by auto
qed

lemma yield_linked:
  assumes "sched_wf (tasks s) (current_task s) run" "sched_yield s = Some (sw, t)" "linked (tasks s) (next_task_id s) ps"
  shows "linked (tasks t) (next_task_id t) ps"
  using yield_ready(1,2) [OF assms(1,2)] yield_ready(3) [OF assms(1,2), of 0] by (intro linked_tasks [OF assms(3)]) auto

lemma create_ready:
  assumes "sched_ok s" "kthread_create lk entry s = Some (r, t)"
  shows "(\<forall>k < 16. ready (tasks s) k \<longrightarrow> ready (tasks t) k \<and> t_id (tasks t ! k) = t_id (tasks s ! k)) \<and>
    (\<forall>k < 16. ready (tasks t) k \<longrightarrow> (ready (tasks s) k \<and> t_id (tasks t ! k) = t_id (tasks s ! k)) \<or> t_id (tasks t ! k) = next_task_id s)"
proof -
  have r: "ready (map (reaped s) [0..<16]) k \<longleftrightarrow> ready (tasks s) k" "ready (tasks s) k \<Longrightarrow> reaped s k = tasks s ! k" if "k < 16" for k
    using that by (auto simp: reaped_def)
  show ?thesis
    using create_vars [OF assms(2) sched_wfD(1) [OF assms(1)]]
  proof (elim disjE exE conjE)
    assume "entry = None \<longrightarrow> t = s" "entry \<noteq> None \<longrightarrow> sched_vars t = (map (reaped s) [0..<16], current_task s, next_task_id s)"
    then show ?thesis using r by (cases entry) (auto simp: sched_vars_def)
  next
    fix f i x
    assume a: "i < 16" "t_state (reaped s i) = TASK_UNUSED" "t_id x = next_task_id s" "t_state x = TASK_RUNNABLE"
      "sched_vars t = ((map (reaped s) [0..<16])[i := x], current_task s, next_task_id s + 1)"
    then have t: "tasks t ! k = (if k = i then x else reaped s k)" if "k < 16" for k using that by (auto simp: sched_vars_def)
    have "\<not> ready (tasks s) i" using a(1,2) r [OF a(1)] by auto
    moreover have "ready (tasks t) k \<longleftrightarrow> ready (tasks s) k" "ready (tasks s) k \<Longrightarrow> t_id (tasks t ! k) = t_id (tasks s ! k)"
      if "k < 16" "k \<noteq> i" for k
      using r [OF that(1)] t [OF that(1)] that by auto
    moreover have "ready (tasks t) i" "t_id (tasks t ! i) = next_task_id s" using t [OF a(1)] a(3,4) by simp_all
    ultimately show ?thesis by metis
  qed
qed

definition kernel_inv :: "'a user_state_scheme \<Rightarrow> bool" where
  "kernel_inv s \<longleftrightarrow> sched_inv s \<and> proc_wf (processes s) (next_pid s) \<and> linked (tasks s) (next_task_id s) (processes s) \<and> next_pid s \<noteq> 0"

lemma kernel_invD:
  assumes "kernel_inv s"
  shows "sched_inv s" "sched_ok s" "ids_ok (tasks s) (next_task_id s)" "proc_wf (processes s) (next_pid s)"
    "linked (tasks s) (next_task_id s) (processes s)" "next_pid s \<noteq> 0"
  using assms by (simp_all add: kernel_inv_def sched_inv_def)

lemma kernel_inv_same: "kernel_inv s \<Longrightarrow> kvars t = kvars s \<Longrightarrow> kernel_inv t"
  by (simp add: kernel_inv_def sched_inv_def kvars_def)

lemma kernel_inv_yield:
  assumes "kernel_inv s" "sched_yield s = Some (sw, t)"
  shows "kernel_inv t"
proof -
  note I = kernel_invD [OF assms(1)]
  have "user_vars t = user_vars s" by (rule sched_more_user [OF yield_more [OF assms(2)]])
  then show ?thesis
    using hand_on_inv [OF hand_on.yield [OF assms(2)] I(1)] yield_linked [OF I(2) assms(2) I(5)] I(4,6)
    by (simp add: kernel_inv_def user_vars_def)
qed

lemma kernel_inv_create:
  assumes "kernel_inv s" "kthread_create lk entry s = Some (r, t)" "next_task_id s + 1 \<noteq> 0"
  shows "kernel_inv t"
proof -
  note I = kernel_invD [OF assms(1)]
  have "user_vars t = user_vars s" by (rule sched_more_user [OF create_more [OF assms(2)]])
  moreover have "next_task_id s \<le> next_task_id t"
    using create_vars [OF assms(2) sched_wfD(1) [OF I(2)]] unatSuc [of "next_task_id s"] assms(3)
    by (cases entry) (auto simp: sched_vars_def word_le_nat_alt add.commute)
  then have "linked (tasks t) (next_task_id t) (processes s)"
    using create_ready [OF I(2) assms(2)] by (intro linked_tasks [OF I(5)]) auto
  ultimately show ?thesis
    using step_inv [OF sched_step.create [OF assms(2,3)] I(1)] I(4,6) by (simp add: kernel_inv_def user_vars_def)
qed

text \<open>Leaving a task that no process needs any more.\<close>

lemma kernel_inv_thread_exit:
  assumes s: "sched_inv s" "proc_wf (processes s) (next_pid s)" "next_pid s \<noteq> 0" and e: "kthread_exit s = Some (Goes t)"
    and L: "linked ((tasks s)[unat (current_task s) := (task_at (current_task s) s)\<lparr>t_state := TASK_ZOMBIE\<rparr>]) (next_task_id s) (processes s)"
  shows "kernel_inv t"
proof -
  let ?u = "set_task (current_task s) (\<lambda>t. t\<lparr>t_state := TASK_ZOMBIE\<rparr>) s"
  note E = exit_yields [OF e]
  have ok: "sched_ok s" using s(1) by (simp add: sched_inv_def)
  note Z = zombie_wf [OF ok conjunct1 [OF E] refl]
  have "linked (tasks ?u) (next_task_id ?u) (processes s)" using L by (simp add: set_task_def task_at_def)
  then have "linked (tasks t) (next_task_id t) (processes s)" by (rule yield_linked [OF Z(1) conjunct2 [OF E]])
  moreover have "user_vars t = user_vars s" by (rule sched_more_user [OF exit_more [OF e]])
  ultimately show ?thesis
    using hand_on_inv [OF hand_on.exit [OF e] s(1)] s(2,3) by (simp add: kernel_inv_def user_vars_def)
qed

section \<open>Steps\<close>

text \<open>
  One step of the kernel.  System calls come from a program, so the process of their task is
  running; a thread enters \<open>user_exec_task\<close> while its process is freshly created; \<open>user_wait\<close> is
  observed from its last resumption on.  Identifiers are handed out before their counters wrap.
\<close>

definition process_state_is :: "user_process_state \<Rightarrow> 'a user_state_scheme \<Rightarrow> bool" where
  "process_state_is st s \<longleftrightarrow> (case user_process_find_by_task_id (sched_current_task_id s) s of
     None \<Rightarrow> True | Some j \<Rightarrow> p_state (proc_at j s) = st)"

inductive kernel_step :: "linker_symbols \<Rightarrow> 'a user_state_scheme \<Rightarrow> 'a user_state_scheme \<Rightarrow> bool" for lk where
  spawn: "user_spawn lk path s = Some (r, t) \<Longrightarrow> process_state_is USER_PROCESS_RUNNING s \<Longrightarrow>
    next_pid s + 1 \<noteq> 0 \<Longrightarrow> next_task_id s < 0x7FFFFFFF \<Longrightarrow> kernel_step lk s t"
| exec: "user_exec_task s = Enters t \<Longrightarrow> kernel_step lk s t"
| exec_failed: "user_exec_task s = Goes u \<Longrightarrow> process_state_is USER_PROCESS_CREATED s \<Longrightarrow> kthread_exit u = Some (Goes t) \<Longrightarrow> kernel_step lk s t"
| exit: "sys_exit status s = Some (Goes t) \<Longrightarrow> kernel_step lk s t"
| wait: "user_wait (\<lambda>_. None) pid s = Some (r, t) \<Longrightarrow> kernel_step lk s t"
| yield: "sched_yield s = Some (sw, t) \<Longrightarrow> kernel_step lk s t"
| thread: "kthread_create lk entry s = Some (r, t) \<Longrightarrow> next_task_id s + 1 \<noteq> 0 \<Longrightarrow> kernel_step lk s t"
| thread_exit: "kthread_exit s = Some (Goes t) \<Longrightarrow>
    user_process_find_by_task_id (sched_current_task_id s) s = None \<Longrightarrow> kernel_step lk s t"
| other: "kvars t = kvars s \<Longrightarrow> kernel_step lk s t"

lemma linked_zombie:
  assumes "sched_inv s" "linked (tasks s) n ps" "current_task s \<noteq> 0"
    and none: "\<And>i. i < 16 \<Longrightarrow> used (qs ! i) \<Longrightarrow> p_state (qs ! i) \<noteq> USER_PROCESS_EXITED \<Longrightarrow> p_task_id (qs ! i) \<noteq> sched_current_task_id s"
    and sub: "\<And>i. i < 16 \<Longrightarrow> used (qs ! i) \<Longrightarrow> used (ps ! i) \<and> p_task_id (qs ! i) = p_task_id (ps ! i) \<and>
      (p_state (qs ! i) = USER_PROCESS_EXITED \<longleftrightarrow> p_state (ps ! i) = USER_PROCESS_EXITED \<or> p_task_id (ps ! i) = sched_current_task_id s)"
  shows "linked ((tasks s)[unat (current_task s) := (task_at (current_task s) s)\<lparr>t_state := TASK_ZOMBIE\<rparr>]) n qs"
proof -
  let ?c = "unat (current_task s)"
  let ?us = "(tasks s)[?c := (task_at (current_task s) s)\<lparr>t_state := TASK_ZOMBIE\<rparr>]"
  have ok: "sched_ok s" and ids: "ids_ok (tasks s) (next_task_id s)" using assms(1) by (simp_all add: sched_inv_def)
  note W = sched_wfD [OF ok] and D = linkedD [OF assms(2)]
  have c: "?c < 16" "t_state (tasks s ! ?c) = TASK_RUNNING" "sched_current_task_id s = t_id (tasks s ! ?c)"
    using W(2) W(3) [OF W(2)] by (auto simp: sched_current_task_id_def task_at_def)
  have rd: "ready ?us k \<longleftrightarrow> ready (tasks s) k \<and> k \<noteq> ?c" "t_id (?us ! k) = t_id (tasks s ! k)" if "k < 16" for k
    using that c W(1) by (auto simp: nth_list_update task_at_def)
  have uniq: "k = ?c" if "k < 16" "ready (tasks s) k" "t_id (tasks s ! k) = sched_current_task_id s" for k
    using ids that c unfolding ids_ok_def by (metis task_state.distinct(1,3,5))
  have "\<exists>k < 16. ready ?us k \<and> t_id (?us ! k) = p_task_id (qs ! i)" if i: "i < 16" "used (qs ! i)" "p_state (qs ! i) \<noteq> USER_PROCESS_EXITED" for i
  proof -
    obtain k where k: "k < 16" "ready (tasks s) k" "t_id (tasks s ! k) = p_task_id (qs ! i)"
      using D(4) [OF i(1)] sub [OF i(1,2)] i(3) by auto
    then have "k \<noteq> ?c" using none [OF i] c(3) by auto
    then show ?thesis using k rd by auto
  qed
  moreover have "t_id (?us ! k) \<noteq> p_task_id (qs ! i)" if i: "i < 16" "p_state (qs ! i) = USER_PROCESS_EXITED" "k < 16" "ready ?us k" for i k
  proof -
    have "used (qs ! i)" using i(2) by simp
    then have "p_state (ps ! i) = USER_PROCESS_EXITED \<or> p_task_id (qs ! i) = sched_current_task_id s" "p_task_id (qs ! i) = p_task_id (ps ! i)"
      using sub [OF i(1)] i(2) by auto
    then show ?thesis using D(5) [OF i(1) _ i(3)] uniq [OF i(3)] rd [OF i(3)] i(4) by auto
  qed
  moreover have "p_task_id (qs ! i) < n" "0 < p_task_id (qs ! i)" if "i < 16" "used (qs ! i)" for i
    using D(1,2) [OF that(1)] sub [OF that] by (auto simp: word_gt_0)
  moreover have "i = j" if "i < 16" "j < 16" "used (qs ! i)" "used (qs ! j)" "p_task_id (qs ! i) = p_task_id (qs ! j)" for i j
    using D(3) [OF that(1,2)] sub [OF that(1,3)] sub [OF that(2,4)] that(5) by simp
  ultimately show ?thesis unfolding linked_def by blast
qed

lemma current_ready:
  assumes "sched_inv s"
  shows "unat (current_task s) < 16" "ready (tasks s) (unat (current_task s))"
    "sched_current_task_id s = t_id (tasks s ! unat (current_task s))"
  using assms sched_wfD(2) [of "tasks s" "current_task s" True] sched_wfD(3) [of "tasks s" "current_task s" True "unat (current_task s)"]
  by (auto simp: sched_inv_def sched_current_task_id_def task_at_def)

lemma current_process:
  assumes "kernel_inv s" "user_process_find_by_task_id (sched_current_task_id s) s = Some j"
  shows "unat j < 16" "used (processes s ! unat j)" "p_task_id (processes s ! unat j) = sched_current_task_id s"
    "p_state (processes s ! unat j) \<noteq> USER_PROCESS_EXITED"
proof -
  note I = kernel_invD [OF assms(1)] and F = find_by_task_Some [OF assms(2)]
  show "unat j < 16" "used (processes s ! unat j)" "p_task_id (processes s ! unat j) = sched_current_task_id s" using F by simp_all
  show "p_state (processes s ! unat j) \<noteq> USER_PROCESS_EXITED"
    using linkedD(5) [OF I(5), of "unat j"] F current_ready [OF I(1)] by metis
qed

lemma thread_exit_step:
  assumes "kernel_inv s" "user_process_find_by_task_id (sched_current_task_id s) s = None" "kthread_exit s = Some (Goes t)"
  shows "kernel_inv t"
proof -
  note I = kernel_invD [OF assms(1)] and N = find_by_task_None [OF assms(2)]
  show ?thesis
    by (rule kernel_inv_thread_exit [OF I(1,4,6) assms(3) linked_zombie [OF I(1,5) conjunct1 [OF exit_yields [OF assms(3)]]]])
      (use N in auto)
qed

lemma exec_failed_step:
  assumes "kernel_inv s" "process_state_is USER_PROCESS_CREATED s" "user_exec_task s = Goes u" "kthread_exit u = Some (Goes t)"
  shows "kernel_inv t"
proof (cases "user_process_find_by_task_id (sched_current_task_id s) s")
  case None
  then have "u = s" using assms(3) by (simp add: user_exec_task_def)
  then show ?thesis using thread_exit_step [OF assms(1) None] assms(4) by simp
next
  case (Some j)
  note I = kernel_invD [OF assms(1)] and P = current_process [OF assms(1) Some]
  let ?qs = "(processes s)[unat j := zero_process]"
  have u: "processes u = ?qs" "next_pid u = next_pid s" "sched_vars u = sched_vars s"
    using exec_tables(2) [OF Some proc_wfD(1) [OF I(4)] assms(3)] by (simp_all add: user_vars_def)
  have inv: "sched_inv u" using I(1) u(3) by (simp add: sched_inv_def sched_vars_def)
  have wf: "proc_wf ?qs (next_pid s)"
    using proc_wf_release_idle [OF I(4) P(1,2)] assms(2) Some by (simp add: process_state_is_def proc_at_def)
  have id: "sched_current_task_id u = sched_current_task_id s" using sched_varsD [OF u(3)] by (simp add: sched_current_task_id_def task_at_def)
  have q: "i \<noteq> unat j \<and> ?qs ! i = processes s ! i" if "i < 16" "used (?qs ! i)" for i
    using that P(1) proc_wfD(1) [OF I(4)] by (cases "i = unat j") auto
  have d: "p_task_id (processes s ! i) \<noteq> sched_current_task_id s" if "i < 16" "used (processes s ! i)" "i \<noteq> unat j" for i
    using linkedD(3) [OF I(5) that(1) P(1) that(2) P(2)] P(3) that(3) by auto
  have L: "linked (tasks u) (next_task_id u) (processes s)" using I(5) sched_varsD [OF u(3)] by simp
  have "linked ((tasks u)[unat (current_task u) := (task_at (current_task u) u)\<lparr>t_state := TASK_ZOMBIE\<rparr>]) (next_task_id u) ?qs"
  proof (rule linked_zombie [OF inv L conjunct1 [OF exit_yields [OF assms(4)]]])
    fix i assume i: "i < 16" "used (?qs ! i)"
    have e: "?qs ! i = processes s ! i" "used (processes s ! i)" "i \<noteq> unat j" using q [OF i] i(2) by simp_all
    show "used (processes s ! i) \<and> p_task_id (?qs ! i) = p_task_id (processes s ! i) \<and>
      (p_state (?qs ! i) = USER_PROCESS_EXITED \<longleftrightarrow> p_state (processes s ! i) = USER_PROCESS_EXITED \<or> p_task_id (processes s ! i) = sched_current_task_id u)"
      unfolding e(1) using e(2) d [OF i(1) e(2,3)] id by simp
    show "p_state (?qs ! i) \<noteq> USER_PROCESS_EXITED \<Longrightarrow> p_task_id (?qs ! i) \<noteq> sched_current_task_id u"
      unfolding e(1) using d [OF i(1) e(2,3)] id by simp
  qed
  then show ?thesis using kernel_inv_thread_exit [OF inv _ _ assms(4)] u wf I(6) by simp
qed

lemma exit_step:
  assumes "kernel_inv s" "sys_exit status s = Some (Goes t)"
  shows "kernel_inv t"
proof -
  note I = kernel_invD [OF assms(1)]
  define w where "w = snd (printk (''user: exited status=%x'' @ [CHR 0x0A]) [VInt status] (user_exit_current status s))"
  have e: "kthread_exit w = Some (Goes t)" using assms(2) by (simp add: sys_exit_def w_def)
  have kw: "kvars w = kvars (user_exit_current status s)" unfolding w_def by simp
  show ?thesis
  proof (cases "user_process_find_by_task_id (sched_current_task_id s) s")
    case None
    then have k: "kvars w = kvars s" using kw by (simp add: user_exit_current_def)
    have "user_process_find_by_task_id (sched_current_task_id w) w = None"
      using None kvarsD [OF k] by (simp add: user_process_find_by_task_id_def sched_current_task_id_def task_at_def proc_at_def)
    then show ?thesis using thread_exit_step [OF kernel_inv_same [OF assms(1) k] _ e] by simp
  next
    case (Some j)
    note P = current_process [OF assms(1) Some] and W = proc_wfD [OF I(4)]
    obtain q pg where q: "q = (processes s ! unat j)\<lparr>p_exit_status := status, p_state := USER_PROCESS_EXITED, p_pages := pg,
        p_page_count := 0, p_address_space := 0\<rparr>" "length pg = 16"
      and k: "kvars (user_exit_current status s) = (tasks s, current_task s, next_task_id s, after_exit (processes s) (unat j) q, next_pid s)"
      using exit_kvars [OF I(4) Some] by blast
    let ?qs = "after_exit (processes s) (unat j) q"
    have w: "processes w = ?qs" "next_pid w = next_pid s" "sched_vars w = sched_vars s" using kw k by (simp_all add: kvars_def sched_vars_def)
    have inv: "sched_inv w" using I(1) w(3) by (simp add: sched_inv_def sched_vars_def)
    have "proc_ok (next_pid s) q" if "p_parent_pid q \<noteq> 0" using W(2) [OF P(1)] P(2) that q by (auto simp: proc_ok_def)
    then have wf: "proc_wf ?qs (next_pid s)" using proc_wf_exit [OF I(4) P(1,2), of q] q(1) by simp
    have id: "sched_current_task_id w = sched_current_task_id s" using sched_varsD [OF w(3)] by (simp add: sched_current_task_id_def task_at_def)
    have at: "used (processes s ! i) \<and> p_task_id (?qs ! i) = p_task_id (processes s ! i) \<and>
        p_state (?qs ! i) = (if i = unat j then USER_PROCESS_EXITED else p_state (processes s ! i))" if "i < 16" "used (?qs ! i)" for i
      using that after_exit_nth(1) [OF W(1) that(1), of "unat j" q] orphaned_facts [where pid = "p_pid q" and p = "processes s ! i"] P(2) q(1)
      by (auto split: if_splits)
    have d: "p_task_id (processes s ! i) = sched_current_task_id s \<longleftrightarrow> i = unat j" if "i < 16" "used (processes s ! i)" for i
      using linkedD(3) [OF I(5) that(1) P(1) that(2) P(2)] P(3) by auto
    have L: "linked (tasks w) (next_task_id w) (processes s)" using I(5) sched_varsD [OF w(3)] by simp
    have "linked ((tasks w)[unat (current_task w) := (task_at (current_task w) w)\<lparr>t_state := TASK_ZOMBIE\<rparr>]) (next_task_id w) ?qs"
    proof (rule linked_zombie [OF inv L conjunct1 [OF exit_yields [OF e]]])
      fix i assume i: "i < 16" "used (?qs ! i)"
      note A = at [OF i]
      then show "used (processes s ! i) \<and> p_task_id (?qs ! i) = p_task_id (processes s ! i) \<and>
        (p_state (?qs ! i) = USER_PROCESS_EXITED \<longleftrightarrow> p_state (processes s ! i) = USER_PROCESS_EXITED \<or> p_task_id (processes s ! i) = sched_current_task_id w)"
        using d [OF i(1)] id by auto
      show "p_state (?qs ! i) \<noteq> USER_PROCESS_EXITED \<Longrightarrow> p_task_id (?qs ! i) \<noteq> sched_current_task_id w"
        using A d [OF i(1)] id by auto
    qed
    then show ?thesis using kernel_inv_thread_exit [OF inv _ _ e] w wf I(6) by simp
  qed
qed

lemma exec_step:
  fixes s t :: "'a user_state_scheme"
  assumes "kernel_inv s" "user_exec_task s = Enters t"
  shows "kernel_inv t"
proof (cases "user_process_find_by_task_id (sched_current_task_id s) s")
  case None
  then show ?thesis using assms(2) by (simp add: user_exec_task_def)
next
  case (Some j)
  note I = kernel_invD [OF assms(1)] and P = current_process [OF assms(1) Some] and W = proc_wfD [OF kernel_invD(4) [OF assms(1)]]
  obtain u v :: "'a user_state_scheme" and q where q: "keeps (processes s ! unat j) q"
    and t: "user_vars t = ((processes s)[unat j := q\<lparr>p_state := USER_PROCESS_RUNNING\<rparr>], next_pid s)"
    and u: "sched_vars u = sched_vars s" "sched_set_current_address_space (p_address_space q) u = (0, v)" "sched_vars t = sched_vars v"
    using exec_tables(1) [OF Some W(1) assms(2)] by blast
  let ?q = "q\<lparr>p_state := USER_PROCESS_RUNNING\<rparr>" and ?qs = "(processes s)[unat j := q\<lparr>p_state := USER_PROCESS_RUNNING\<rparr>]"
  have iu: "sched_inv u" using I(1) u(1) by (simp add: sched_inv_def sched_vars_def)
  have iv: "sched_inv v" by (rule step_inv [OF sched_step.adopt [OF u(2)] iu])
  have "sched_ok u" using iu by (simp add: sched_inv_def)
  note A = adopt_wf(2,3) [OF this u(2)]
  have lv: "linked (tasks v) (next_task_id v) (processes s)"
    using A adopt_vars(2) [OF u(2)] sched_varsD [OF u(1)] by (intro linked_tasks [OF I(5)]) auto
  have "proc_ok (next_pid s) ?q" using W(2) [OF P(1)] P(2,4) q by (auto simp: proc_ok_def keeps_def)
  then have "proc_wf ?qs (next_pid s)"
    using q P(2) by (intro proc_wf_update [OF I(4) P(1,2)]) (simp_all add: keeps_def)
  moreover have "linked (tasks v) (next_task_id v) ?qs"
  proof (rule linked_sub [OF lv])
    fix i assume "i < 16" "used (?qs ! i)"
    then show "used (processes s ! i) \<and> p_task_id (?qs ! i) = p_task_id (processes s ! i) \<and>
      (p_state (?qs ! i) = USER_PROCESS_EXITED \<longleftrightarrow> p_state (processes s ! i) = USER_PROCESS_EXITED)"
      using q P W(1) by (cases "i = unat j") (simp_all add: keeps_def)
  qed
  ultimately show ?thesis using iv t u(3) I(6) by (simp add: kernel_inv_def user_vars_def sched_inv_def sched_vars_def)
qed

lemma release_exited:
  assumes "kernel_inv s" "i < 16" "p_state (processes s ! i) = USER_PROCESS_EXITED"
    and "kvars t = (tasks s, current_task s, next_task_id s, (processes s)[i := zero_process], next_pid s)"
  shows "kernel_inv t"
proof -
  note I = kernel_invD [OF assms(1)]
  have "proc_wf ((processes s)[i := zero_process]) (next_pid s)"
    using proc_wf_release_idle [OF I(4) assms(2)] assms(3) by simp
  moreover have "linked (tasks s) (next_task_id s) ((processes s)[i := zero_process])"
  proof (rule linked_sub [OF I(5)])
    fix k assume "k < 16" "used ((processes s)[i := zero_process] ! k)"
    then show "used (processes s ! k) \<and> p_task_id ((processes s)[i := zero_process] ! k) = p_task_id (processes s ! k) \<and>
      (p_state ((processes s)[i := zero_process] ! k) = USER_PROCESS_EXITED \<longleftrightarrow> p_state (processes s ! k) = USER_PROCESS_EXITED)"
      using assms(2) proc_wfD(1) [OF I(4)] by (cases "k = i") simp_all
  qed
  ultimately show ?thesis using I(1,6) assms(4) by (simp add: kernel_inv_def sched_inv_def kvars_def)
qed

lemma wait_loop_step:
  fixes s :: "'a user_state_scheme"
  assumes "user_wait_loop others pid caller s = Some r" "kernel_inv s"
    and "\<And>s t. others s = Some t \<Longrightarrow> kernel_inv s \<Longrightarrow> kernel_inv t"
  shows "kernel_inv (snd r)"
proof -
  have "(\<forall>s t. others s = Some t \<longrightarrow> kernel_inv s \<longrightarrow> kernel_inv t) \<longrightarrow> kernel_inv s \<longrightarrow> kernel_inv (snd r)"
  proof (rule user_wait_loop.raw_induct [OF _ assms(1)], intro impI)
    fix loop others pid caller and s :: "'a user_state_scheme" and r
    assume IH: "\<And>others pid caller s r. loop others pid caller s = Some r \<Longrightarrow>
        (\<forall>s t. others s = Some t \<longrightarrow> kernel_inv s \<longrightarrow> kernel_inv t) \<longrightarrow> kernel_inv s \<longrightarrow> kernel_inv (snd r)"
      and run: "(case user_process_find_by_pid pid s of
        None \<Rightarrow> Some (- 1, s)
      | Some child \<Rightarrow>
          if p_parent_pid (proc_at child s) \<noteq> p_pid (proc_at caller s) then Some (- 1, s)
          else if p_state (proc_at child s) = USER_PROCESS_EXITED
          then Some (sint (p_exit_status (proc_at child s)), user_process_release (Some child) s)
          else Option.bind (yield_through others s) (loop others pid caller)) = Some r"
      and o: "\<forall>s t. others s = Some t \<longrightarrow> kernel_inv s \<longrightarrow> kernel_inv t" and inv: "kernel_inv s"
    show "kernel_inv (snd r)"
    proof (cases "user_process_find_by_pid pid s")
      case None
      then show ?thesis using run inv by auto
    next
      case (Some child)
      note F = find_by_pid_Some [OF Some]
      have yt: "kernel_inv u" if "yield_through others s = Some u" for u
        using that o kernel_inv_yield [OF inv]
        by (auto simp: yield_through_def Option.bind_eq_Some_conv split: if_splits)
      have "kernel_inv (user_process_release (Some child) s)" if "p_state (proc_at child s) = USER_PROCESS_EXITED"
        using F that by (intro release_exited [OF inv, of "unat child"]) (simp_all add: proc_at_def user_process_release_def set_proc_kvars)
      then show ?thesis
        using run Some inv IH [of others pid caller _ r] o yt by (auto simp: Option.bind_eq_Some_conv split: if_splits)
    qed
  qed
  then show ?thesis using assms(2,3) by blast
qed

lemma wait_step:
  assumes "user_wait others pid s = Some (r, t)" "kernel_inv s" "\<And>s t. others s = Some t \<Longrightarrow> kernel_inv s \<Longrightarrow> kernel_inv t"
  shows "kernel_inv t"
  using assms wait_loop_step [of others pid _ s "(r, t)"] by (auto simp: user_wait_def split: option.splits)

section \<open>Spawn\<close>

lemma linked_spawn:
  assumes L: "linked us mt ps" and ids: "\<And>i. i < 16 \<Longrightarrow> used (ps ! i) \<Longrightarrow> p_task_id (ps ! i) \<noteq> p_task_id p"
    and p: "used p" "p_state p \<noteq> USER_PROCESS_EXITED" "p_task_id p \<noteq> 0" "p_task_id p < mt"
    and k: "k < 16" "ready us k" "t_id (us ! k) = p_task_id p" and j: "j < 16" "length ps = 16"
  shows "linked us mt (ps[j := p])"
proof -
  note D = linkedD [OF L]
  have at: "ps[j := p] ! i = (if i = j then p else ps ! i)" if "i < 16" for i using that j by (simp add: nth_list_update)
  have "\<exists>k < 16. ready us k \<and> t_id (us ! k) = p_task_id (ps[j := p] ! i)"
    if "i < 16" "used (ps[j := p] ! i)" "p_state (ps[j := p] ! i) \<noteq> USER_PROCESS_EXITED" for i
    using that D(4) [OF that(1)] k by (cases "i = j") (auto simp: at)
  moreover have "t_id (us ! k) \<noteq> p_task_id (ps[j := p] ! i)" if "i < 16" "p_state (ps[j := p] ! i) = USER_PROCESS_EXITED" "k < 16" "ready us k" for i k
    using that D(5) [OF that(1)] p(2) by (cases "i = j") (auto simp: at)
  moreover have "p_task_id (ps[j := p] ! i) < mt" "0 < p_task_id (ps[j := p] ! i)" if "i < 16" "used (ps[j := p] ! i)" for i
    using that D(1,2) [OF that(1)] p by (cases "i = j"; simp add: at word_gt_0)+
  moreover have "a = b" if "a < 16" "b < 16" "used (ps[j := p] ! a)" "used (ps[j := p] ! b)" "p_task_id (ps[j := p] ! a) = p_task_id (ps[j := p] ! b)" for a b
    using that D(3) [OF that(1,2)] ids [OF that(1)] ids [OF that(2)] by (cases "a = j"; cases "b = j") (simp_all add: at)
  ultimately show ?thesis unfolding linked_def by blast
qed

lemma new_process_ok:
  assumes "kernel_inv s" "length cs < 32" "next_pid s + 1 \<noteq> 0"
  shows "proc_ok (next_pid s + 1) ((new_process s cs a)\<lparr>p_task_id := n\<rparr>)"
proof -
  note I = kernel_invD [OF assms(1)]
  have "next_pid s < next_pid s + 1" using unatSuc [of "next_pid s"] assms(3) by (simp add: word_less_nat_alt add.commute)
  moreover have "0 < next_pid s" using I(6) by (simp add: word_gt_0)
  moreover have "p_parent_pid (new_process s cs a) < next_pid s"
  proof (cases "user_process_find_by_task_id (sched_current_task_id s) s")
    case None
    then show ?thesis using I(6) by (simp add: new_process_def word_gt_0)
  next
    case (Some i)
    note F = find_by_task_Some [OF Some]
    then show ?thesis using Some proc_okD(3) [OF proc_wfD(2) [OF I(4), of "unat i"]] by (simp add: new_process_def proc_at_def)
  qed
  ultimately show ?thesis using assms(2) by (simp add: proc_ok_def new_process_def zero_process_def)
qed

lemma create_id:
  assumes "kthread_create lk (Some f) s = Some (n, t)" "sched_ok s" "\<not> n < 0"
  shows "n = sint (next_task_id s)" "next_task_id t = next_task_id s + 1" "\<exists>k < 16. ready (tasks t) k \<and> t_id (tasks t ! k) = next_task_id s"
  using create_vars [OF assms(1) sched_wfD(1) [OF assms(2)]] assms(3)
  by (auto simp: sched_vars_def)

lemma spawn_step:
  fixes s t :: "'a user_state_scheme"
  assumes "kernel_inv s" "user_spawn lk path s = Some (r, t)" "process_state_is USER_PROCESS_RUNNING s"
    "next_pid s + 1 \<noteq> 0" "next_task_id s < 0x7FFFFFFF"
  shows "kernel_inv t"
proof -
  note I = kernel_invD [OF assms(1)] and W = proc_wfD [OF kernel_invD(4) [OF assms(1)]]
  have le: "next_pid s \<le> next_pid s + 1" using unatSuc [of "next_pid s"] assms(4) by (simp add: word_le_nat_alt add.commute)
  have nt: "next_task_id s + 1 \<noteq> 0" using unat_inc [OF assms(5)] by (metis nat.distinct(1) unat_0)
  have free: "(processes s)[unat j := zero_process] = processes s" if "unat j < 16" "p_state (processes s ! unat j) = USER_PROCESS_FREE" for j :: u32
    using proc_okD(1) [OF W(2) [OF that(1)] that(2)] by (metis list_update_id)
  have wf: "proc_wf (processes s) (next_pid s + 1)" by (rule proc_wf_mono [OF I(4) le])
  show ?thesis using spawn_kvars [OF assms(2) W(1)]
  proof (elim disjE exE conjE)
    assume "kvars t = kvars s"
    then show ?thesis by (rule kernel_inv_same [OF assms(1)])
  next
    fix j :: u32 and cs a
    assume "unat j < 16" "p_state (processes s ! unat j) = USER_PROCESS_FREE"
      "kvars t = (tasks s, current_task s, next_task_id s, (processes s)[unat j := zero_process], next_pid s + 1)"
    then show ?thesis using I wf assms(4) free by (simp add: kernel_inv_def sched_inv_def kvars_def)
  next
    fix j :: u32 and cs a and u v :: "'a user_state_scheme" and n
    assume j: "unat j < 16" "p_state (processes s ! unat j) = USER_PROCESS_FREE" and cs: "length cs < 32"
      and u: "sched_vars u = sched_vars s" "kthread_create lk (Some (KFun ''user_exec_task'')) u = Some (n, v)" "sched_vars t = sched_vars v"
      and t: "user_vars t = ((processes s)[unat j := if n < 0 then zero_process else (new_process s cs a)\<lparr>p_task_id := word_of_int n\<rparr>], next_pid s + 1)"
    have iu: "sched_inv u" "sched_ok u" using I(1) u(1) by (simp_all add: sched_inv_def sched_vars_def)
    note U = sched_varsD [OF u(1)]
    have iv: "sched_inv v" using step_inv [OF sched_step.create [OF u(2)] iu(1)] nt U by simp
    have nv: "next_task_id s \<le> next_task_id v"
      using create_vars [OF u(2) sched_wfD(1) [OF iu(2)]] unatSuc [of "next_task_id s"] nt U
      by (auto simp: sched_vars_def word_le_nat_alt add.commute)
    have lv: "linked (tasks v) (next_task_id v) (processes s)"
      using create_ready [OF iu(2) u(2)] nv U by (intro linked_tasks [OF I(5)]) auto
    show ?thesis
    proof (cases "n < 0")
      case True
      then show ?thesis using iv lv wf t u(3) free [OF j] assms(4) by (simp add: kernel_inv_def sched_inv_def sched_vars_def user_vars_def)
    next
      case False
      note C = create_id [OF u(2) iu(2) False]
      let ?p = "(new_process s cs a)\<lparr>p_task_id := next_task_id s\<rparr>"
      have n: "word_of_int n = next_task_id s" using C(1) U by simp
      have p: "p_pid ?p = next_pid s" "used ?p" "p_state ?p \<noteq> USER_PROCESS_EXITED" "p_task_id ?p = next_task_id s"
        by (simp_all add: new_process_def)
      have par: "\<exists>i < 16. p_state (processes s ! i) = USER_PROCESS_RUNNING \<and> p_pid (processes s ! i) = p_parent_pid ?p" if "p_parent_pid ?p \<noteq> 0"
        using that assms(3) find_by_task_Some [of "sched_current_task_id s" s]
        by (auto simp: new_process_def process_state_is_def proc_at_def split: option.splits)
      have "proc_wf ((processes s)[unat j := ?p]) (next_pid s + 1)"
        using proc_wf_spawn [OF I(4) assms(4) I(6) j new_process_ok [OF assms(1) cs assms(4)] p(2,1)] par by simp
      moreover have "linked (tasks v) (next_task_id v) ((processes s)[unat j := ?p])"
      proof -
        obtain k where k: "k < 16" "ready (tasks v) k" "t_id (tasks v ! k) = p_task_id ?p" using C(3) U p(4) by auto
        have z: "next_task_id s \<noteq> 0" "next_task_id s < next_task_id v"
          using I(3) sched_wfD(4) [OF I(2)] C(2) U unatSuc [of "next_task_id s"] nt
          by (auto simp: ids_ok_def word_less_nat_alt add.commute dest!: spec [of _ 0])
        have "p_task_id (processes s ! i) \<noteq> p_task_id ?p" if "i < 16" "used (processes s ! i)" for i
          using linkedD(2) [OF I(5) that] p(4) by simp
        then show ?thesis
          by (rule linked_spawn [OF lv _ p(2,3) _ _ k j(1) W(1)]) (use z p(4) in simp_all)
      qed
      ultimately show ?thesis
        using iv t u(3) assms(4) False n by (simp add: kernel_inv_def sched_inv_def sched_vars_def user_vars_def)
    qed
  qed
qed

lemma kernel_step_inv: "kernel_step lk s t \<Longrightarrow> kernel_inv s \<Longrightarrow> kernel_inv t"
  by (induction rule: kernel_step.induct)
    (auto intro: spawn_step exec_step exec_failed_step exit_step wait_step kernel_inv_yield kernel_inv_create thread_exit_step kernel_inv_same)

lemma kernel_inv_boot:
  assumes "length (tasks s) = 16" "next_task_id s = 0" "processes s = replicate 16 zero_process" "next_pid s = 1"
  shows "kernel_inv (sched_init s)"
proof -
  have "sched_state.more (sched_init s) = sched_state.more s"
    unfolding sched_init_def Let_def by (simp, rule for_u32_keeps) simp
  then have "user_vars (sched_init s) = user_vars s" by (rule sched_more_user)
  then have "processes (sched_init s) = replicate 16 zero_process" "next_pid (sched_init s) = 1" using assms(3,4) by (simp_all add: user_vars_def)
  then show ?thesis
    using sched_init_inv [OF assms(1,2)] by (simp add: kernel_inv_def proc_wf_def linked_def)
qed

lemma kernel_run_inv:
  assumes "kernel_inv s" "(kernel_step lk)\<^sup>*\<^sup>* s t"
  shows "kernel_inv t"
  using assms(2,1) by (induction rule: rtranclp_induct) (auto intro: kernel_step_inv)

section \<open>Properties\<close>

text \<open>
  C4: the process table and the scheduler agree in every state the kernel can reach from boot, by
  any interleaving of spawn, exec, exit, wait, yield and kernel threads.  The invariant holds
  after \<open>sched_init\<close> with the cleared table, and every step keeps it: one task runs, process
  identifiers and task identifiers of used slots are unique, free slots are cleared, a parent link
  always points to a running process with a smaller identifier (so there is no cycle), every
  process that has not exited has a task the scheduler will run, and the task of an exited
  one is gone.
\<close>

theorem process_invariant:
  assumes "length (tasks b) = 16" "next_task_id b = 0" "processes b = replicate 16 zero_process" "next_pid b = 1"
    and "s = sched_init b \<or> kernel_inv s" "(kernel_step lk)\<^sup>*\<^sup>* s t"
  shows "kernel_inv t"
  using kernel_run_inv kernel_inv_boot [OF assms(1-4)] assms(5,6) by blast

text \<open>
  C28: no process slot is lost.  In every state reached from one that satisfies the invariant, a
  slot that holds an exited process has a parent that is running and owns a task of the
  scheduler, so that its status can still be collected.
\<close>

theorem exited_has_waiter:
  assumes "kernel_inv s" "(kernel_step lk)\<^sup>*\<^sup>* s t" "i < 16" "p_state (processes t ! i) = USER_PROCESS_EXITED"
  shows "\<exists>j < 16. \<exists>k < 16. p_state (processes t ! j) = USER_PROCESS_RUNNING \<and>
    p_pid (processes t ! j) = p_parent_pid (processes t ! i) \<and>
    t_state (tasks t ! k) \<in> {TASK_RUNNABLE, TASK_RUNNING} \<and> t_id (tasks t ! k) = p_task_id (processes t ! j)"
proof -
  note I = kernel_invD [OF kernel_run_inv [OF assms(1,2)]]
  obtain j where j: "j < 16" "p_state (processes t ! j) = USER_PROCESS_RUNNING" "p_pid (processes t ! j) = p_parent_pid (processes t ! i)"
    using proc_wfD(4) [OF I(4) assms(3)] proc_okD(7) [OF proc_wfD(2) [OF I(4) assms(3)]] assms(4) by auto
  then show ?thesis using linkedD(4) [OF I(5) j(1)] by auto
qed

text \<open>
  C29: a parent that waits gets the status its child exited with.  When the process of the current
  task exits and has a parent, its slot keeps the status; later, as long as the table is as
  the exit left it, \<open>user_wait\<close> called by the parent returns exactly that status at once, and frees
  the slot; a caller that is not the parent gets an error and changes nothing.
\<close>

theorem exit_status_reaches_parent:
  assumes "proc_wf (processes s) (next_pid s)" "user_process_find_by_task_id (sched_current_task_id s) s = Some j"
    and "p_parent_pid (proc_at j s) \<noteq> 0"
    and "processes u = processes (user_exit_current status s)" "user_process_find_by_task_id (sched_current_task_id u) u = Some c"
  shows "if p_pid (proc_at c u) = p_parent_pid (proc_at j s)
    then \<exists>t. user_wait others (p_pid (proc_at j s)) u = Some (sint status, t) \<and>
      processes t = (processes u)[unat j := zero_process]
    else user_wait others (p_pid (proc_at j s)) u = Some (- 1, u)"
proof -
  let ?ps = "processes s" and ?pid = "p_pid (proc_at j s)"
  note W = proc_wfD [OF assms(1)]
  have j: "unat j < 16" "used (?ps ! unat j)" using find_by_task_Some [OF assms(2)] by simp_all
  obtain q pg where q: "q = (?ps ! unat j)\<lparr>p_exit_status := status, p_state := USER_PROCESS_EXITED, p_pages := pg,
        p_page_count := 0, p_address_space := 0\<rparr>"
    and "kvars (user_exit_current status s) = (tasks s, current_task s, next_task_id s, after_exit ?ps (unat j) q, next_pid s)"
    using exit_kvars [OF assms(1,2)] by blast
  then have u: "processes u = after_exit ?ps (unat j) q" using assms(4) by (simp add: kvars_def)
  have uj: "processes u ! unat j = q" using after_exit_nth(1) [OF W(1) j(1)] assms(3) by (simp add: u q proc_at_def)
  have old: "used (?ps ! i)" "p_pid (processes u ! i) = p_pid (?ps ! i)" if "i < 16" "used (processes u ! i)" for i
    using that after_exit_nth(1) [OF W(1) that(1), of "unat j" q] j(2) orphaned_facts(1,2) [where pid = "p_pid q" and p = "?ps ! i"]
    by (auto simp: u q split: if_splits)
  have f: "user_process_find_by_pid ?pid u = Some j"
  proof (cases "user_process_find_by_pid ?pid u")
    case None
    then show ?thesis using j(1) uj unfolding find_by_pid_None by (auto simp: q proc_at_def)
  next
    case (Some i)
    note F = find_by_pid_Some [OF Some]
    then have "unat i = unat j" using W(3) [OF _ j(1) old(1) j(2), of "unat i"] old(2) [of "unat i"] by (simp add: proc_at_def)
    then show ?thesis using Some by (simp add: word_unat_eq_iff)
  qed
  have at: "proc_at j u = q" using uj by (simp add: proc_at_def)
  have "user_wait others ?pid u = (if p_parent_pid q \<noteq> p_pid (proc_at c u) then Some (- 1, u)
      else Some (sint status, user_process_release (Some j) u))"
    using assms(5) by (simp add: user_wait_def user_wait_loop.simps f at) (simp add: q)
  then show ?thesis by (auto simp: user_process_release_def set_proc_def q proc_at_def)
qed

section \<open>A concrete family\<close>

text \<open>A shell (process 1, task 1) and the program it runs (process 2, task 2), which has the processor.\<close>

definition family_tasks :: "task list" where
  "family_tasks = [blank_task\<lparr>t_state := TASK_RUNNABLE\<rparr>, worker,
     worker\<lparr>t_id := 2, t_state := TASK_RUNNING, t_stack := 0xC0002000\<rparr>] @ replicate 13 blank_task"

definition family_processes :: "user_process list" where
  "family_processes = [zero_process\<lparr>p_pid := 1, p_task_id := 1, p_state := USER_PROCESS_RUNNING\<rparr>,
     zero_process\<lparr>p_pid := 2, p_task_id := 2, p_parent_pid := 1, p_state := USER_PROCESS_RUNNING\<rparr>] @ replicate 14 zero_process"

definition small_user :: "task list \<Rightarrow> user_process list \<Rightarrow> user_state" where
  "small_user ts ps = sched_state.extend (small_sched ts) \<lparr>processes = ps, next_pid = 1, userland_active = 0, reg_eflags = 0,
     user_cs = 0, user_eip = 0, user_ss = 0, user_esp = 0\<rparr>"

definition family :: user_state where
  "family = (small_user family_tasks family_processes)\<lparr>current_task := 2, next_task_id := 3, next_pid := 3\<rparr>"

lemma small_user_simps [simp]:
  "tasks (small_user ts ps) = ts" "processes (small_user ts ps) = ps" "next_task_id (small_user ts ps) = 0" "next_pid (small_user ts ps) = 1"
  by (simp_all add: small_user_def sched_state.defs small_sched_def dev_state.defs)

lemma family_simps [simp]:
  "tasks family = family_tasks" "processes family = family_processes" "current_task family = 2" "next_task_id family = 3" "next_pid family = 3"
  by (simp_all add: family_def)

lemma nth_family:
  assumes "i < 16"
  shows "family_tasks ! i = (if i = 0 then blank_task\<lparr>t_state := TASK_RUNNABLE\<rparr> else if i = 1 then worker
      else if i = 2 then worker\<lparr>t_id := 2, t_state := TASK_RUNNING, t_stack := 0xC0002000\<rparr> else blank_task)"
    "family_processes ! i = (if i = 0 then zero_process\<lparr>p_pid := 1, p_task_id := 1, p_state := USER_PROCESS_RUNNING\<rparr>
      else if i = 1 then zero_process\<lparr>p_pid := 2, p_task_id := 2, p_parent_pid := 1, p_state := USER_PROCESS_RUNNING\<rparr> else zero_process)"
  using assms by (auto simp: family_tasks_def family_processes_def nth_append nth_Cons')

lemma family_inv: "kernel_inv family"
proof -
  have "sched_ok family" "ids_ok (tasks family) (next_task_id family)"
    by (auto simp: sched_wf_def ids_ok_def nth_family worker_def blank_task_def family_tasks_def [THEN arg_cong [of _ _ length]] split: if_splits)
  moreover have "proc_wf family_processes 3"
    unfolding proc_wf_def
    by (auto simp: nth_family proc_ok_def zero_process_def family_processes_def [THEN arg_cong [of _ _ length]] split: if_splits
        intro!: exI [of _ "0 :: nat"])
  moreover have "linked family_tasks 3 family_processes"
    unfolding linked_def
    by (auto simp: nth_family zero_process_def worker_def blank_task_def split: if_splits intro: exI [of _ "1 :: nat"] exI [of _ "2 :: nat"])
  ultimately show ?thesis by (simp add: kernel_inv_def sched_inv_def)
qed

lemma family_current: "user_process_find_by_task_id (sched_current_task_id family) family = Some 1"
  unfolding user_process_find_by_task_id_def
  by (rule first_u32_eqI)
    (auto simp: proc_at_def nth_family sched_current_task_id_def task_at_def zero_process_def worker_def USER_PROCESS_MAX_def
      word_less_nat_alt unat_eq_0)

lemma family_exit:
  obtains t where "sys_exit 7 family = Some (Goes t)" "processes t = processes (user_exit_current 7 family)"
    "p_state (processes t ! 1) = USER_PROCESS_EXITED"
proof -
  define w where "w = snd (printk (''user: exited status=%x'' @ [CHR 0x0A]) [VInt 7] (user_exit_current 7 family))"
  obtain q pg where q: "q = (processes family ! unat (1 :: u32))\<lparr>p_exit_status := 7, p_state := USER_PROCESS_EXITED, p_pages := pg,
        p_page_count := 0, p_address_space := 0\<rparr>"
    and k: "kvars (user_exit_current 7 family) = (tasks family, current_task family, next_task_id family,
      after_exit (processes family) (unat (1 :: u32)) q, next_pid family)"
    using exit_kvars [OF kernel_invD(4) [OF family_inv] family_current, of 7] by blast
  have w: "tasks w = family_tasks" "current_task w = 2" "processes w = after_exit family_processes 1 q" "kvars w = kvars (user_exit_current 7 family)"
    using k mem_kvars(6) [of "''user: exited status=%x'' @ [CHR 0x0A]" "[VInt 7]" "user_exit_current 7 family"]
    by (simp_all add: w_def kvars_def)
  let ?z = "set_task (current_task w) (\<lambda>t. t\<lparr>t_state := TASK_ZOMBIE\<rparr>) w"
  have z: "tasks ?z = family_tasks[2 := (family_tasks ! 2)\<lparr>t_state := TASK_ZOMBIE\<rparr>]" "current_task ?z = 2"
    by (simp_all add: set_task_def w)
  have "\<forall>i < 16. i \<noteq> 2 \<longrightarrow> t_state (tasks ?z ! i) \<noteq> TASK_ZOMBIE"
    by (auto simp: z nth_family worker_def blank_task_def)
  then have r: "reap_zombies ?z = Some ?z" using reap_none_but_current [of ?z] z(2) by simp
  have "\<exists>sw t. sched_yield ?z = Some (sw, t)" by (auto simp: sched_yield_def r Let_def split: option.splits)
  then obtain sw t where y: "sched_yield ?z = Some (sw, t)" by blast
  have ok: "sched_ok w" using kernel_invD(2) [OF family_inv] w(1,2) by simp
  have "t_state (tasks ?z ! 0) = TASK_RUNNABLE" by (simp add: z nth_family)
  moreover have "sw \<longleftrightarrow> (\<exists>j < 16. t_state (tasks ?z ! j) = TASK_RUNNABLE)"
    by (rule yield_choice(1) [OF zombie_wf(1) [OF ok _ refl] y]) (simp add: w(2))
  ultimately have sw by (metis zero_less_numeral)
  then have e: "sys_exit 7 family = Some (Goes t)" using y w(2) unfolding sys_exit_def Let_def w_def [symmetric] by (simp add: kthread_exit_def)
  have "processes t = processes w" using sched_more_user [OF yield_more [OF y]] by (simp add: user_vars_def set_task_def)
  moreover have "processes w ! 1 = q"
    using after_exit_nth(1) [of family_processes 1 1 q] by (simp add: w q nth_family family_processes_def)
  ultimately show ?thesis using that [OF e] w(4) q by (simp add: kvars_def)
qed

theorem process_invariant_witness:
  "\<exists>t. sys_exit 7 family = Some (Goes t) \<and> kernel_inv t"
proof -
  obtain t where t: "sys_exit 7 family = Some (Goes t)" by (rule family_exit)
  have "(kernel_step small_lk)\<^sup>*\<^sup>* family t" using kernel_step.exit [OF t] by blast
  then show ?thesis
    using process_invariant [of "small_user (replicate 16 blank_task) (replicate 16 zero_process)" family small_lk t] family_inv t by auto
qed

theorem exited_has_waiter_witness:
  "\<exists>t. sys_exit 7 family = Some (Goes t) \<and> p_state (processes t ! 1) = USER_PROCESS_EXITED \<and>
     (\<exists>j < 16. p_state (processes t ! j) = USER_PROCESS_RUNNING \<and> p_pid (processes t ! j) = p_parent_pid (processes t ! 1))"
proof -
  obtain t where t: "sys_exit 7 family = Some (Goes t)" "p_state (processes t ! 1) = USER_PROCESS_EXITED" by (rule family_exit)
  have "(kernel_step small_lk)\<^sup>*\<^sup>* family t" using kernel_step.exit [OF t(1)] by blast
  then show ?thesis using exited_has_waiter [OF family_inv _ _ t(2)] t by fastforce
qed

theorem exit_status_reaches_parent_witness:
  "\<exists>(u :: user_state) t. processes u = processes (user_exit_current 7 family) \<and> user_wait (\<lambda>_. None) 2 u = Some (7, t) \<and>
     p_state (processes t ! 1) = USER_PROCESS_FREE"
proof -
  define u where "u = (user_exit_current 7 family)\<lparr>current_task := 1\<rparr>"
  obtain q pg where q: "q = (processes family ! unat (1 :: u32))\<lparr>p_exit_status := 7, p_state := USER_PROCESS_EXITED, p_pages := pg,
        p_page_count := 0, p_address_space := 0\<rparr>"
    and k: "kvars (user_exit_current 7 family) = (tasks family, current_task family, next_task_id family,
      after_exit (processes family) (unat (1 :: u32)) q, next_pid family)"
    using exit_kvars [OF kernel_invD(4) [OF family_inv] family_current, of 7] by blast
  have u: "tasks u = family_tasks" "current_task u = 1" "processes u = after_exit family_processes 1 q"
    using k by (simp_all add: u_def kvars_def)
  have l: "length family_processes = 16" by (simp add: family_processes_def)
  have u0: "processes u ! 0 = zero_process\<lparr>p_pid := 1, p_task_id := 1, p_state := USER_PROCESS_RUNNING\<rparr>"
    using after_exit_nth(1) [OF l, of 0 1 q] by (simp add: u q nth_family orphaned_def zero_process_def)
  have f: "user_process_find_by_task_id (sched_current_task_id u) u = Some 0"
    unfolding user_process_find_by_task_id_def
    by (rule first_u32_eqI) (simp_all add: proc_at_def u0 sched_current_task_id_def task_at_def u(1,2) nth_family worker_def USER_PROCESS_MAX_def)
  have pu: "processes u = processes (user_exit_current 7 family)" by (simp add: u_def)
  have at: "p_pid (proc_at 0 u) = 1" "p_parent_pid (proc_at 1 family) = 1" "p_pid (proc_at 1 family) = 2"
    by (simp_all add: proc_at_def u0 nth_family)
  have "\<exists>t. user_wait (\<lambda>_. None) 2 u = Some (sint (7 :: u32), t) \<and> processes t = (processes u)[unat (1 :: u32) := zero_process]"
    using exit_status_reaches_parent [OF kernel_invD(4) [OF family_inv] family_current _ pu f, of "\<lambda>_. None"] at by simp
  moreover have "sint (7 :: u32) = 7" "length (processes u) = 16" by (simp_all add: u l after_exit_nth(2))
  ultimately show ?thesis using pu by - (rule exI [of _ u], auto)
qed

end
