(* ===== verification/Exception.thy ===== *)
theory Exception
  imports Devices
begin

text \<open>
  Processor exceptions: \<open>i386_ex_handler\<close> of \<open>kernel/arch/i386/interrupt.c\<close> builds the report,
  \<open>ex_handler\<close> of \<open>kernel/interrupt.c\<close> prints it on the screen and the serial line and stops the
  machine.  The array of extra fields is the list of its 12 slots.
\<close>

section \<open>Data\<close>

record ex_frame =
  f_vector :: u32
  f_error_code :: u32
  f_eip :: u32
  f_cs :: u32
  f_eflags :: u32
  f_user_esp :: u32
  f_user_ss :: u32

record ex_extra =
  x_name :: string
  x_value :: u32

record ex_report =
  r_name :: string
  r_vector :: u32
  r_error_code :: u32
  r_pc :: u32
  r_status :: u32
  r_extras :: "ex_extra list"
  r_extra_count :: u8

definition exception_names :: "string list" where
  "exception_names =
     [''#DE divide by zero'', ''#DB debug'', ''NMI interrupt'', ''#BP breakpoint'', ''#OF overflow'',
      ''#BR bound range exceeded'', ''#UD invalid opcode'', ''#NM device not available'', ''#DF double fault'',
      ''coprocessor segment overrun'', ''#TS invalid TSS'', ''#NP segment not present'', ''#SS stack-segment fault'',
      ''#GP general protection fault'', ''#PF page fault'', ''reserved'', ''#MF x87 floating-point exception'',
      ''#AC alignment check'', ''#MC machine check'', ''#XM SIMD floating-point exception'',
      ''#VE virtualization exception'', ''#CP control protection exception'', ''reserved'', ''reserved'', ''reserved'',
      ''reserved'', ''reserved'', ''reserved'', ''#HV hypervisor injection exception'', ''#VC VMM communication exception'',
      ''#SX security exception'', ''reserved'']"

section \<open>Handlers\<close>

text \<open>\<open>report.extras[report.extra_count++] = e\<close>\<close>

definition add_extra :: "string \<Rightarrow> u32 \<Rightarrow> ex_report \<Rightarrow> ex_report" where
  "add_extra n v r = r\<lparr>r_extras := (r_extras r)[unat (r_extra_count r) := \<lparr>x_name = n, x_value = v\<rparr>],
     r_extra_count := r_extra_count r + 1\<rparr>"

text \<open>The report \<open>i386_ex_handler\<close> hands over; a designated initialiser clears the other fields.\<close>

definition i386_ex_report :: "ex_frame \<Rightarrow> 'a dev_state_scheme \<Rightarrow> ex_report" where
  "i386_ex_report fr s =
     (let r = \<lparr>r_name = '''', r_vector = f_vector fr, r_error_code = f_error_code fr, r_pc = f_eip fr,
                r_status = f_eflags fr, r_extras = replicate 12 \<lparr>x_name = '''', x_value = 0\<rparr>, r_extra_count = 0\<rparr>;
          r = add_extra ''CS'' (f_cs fr) r;
          r = (if f_cs fr AND 0x3 \<noteq> 0
               then add_extra ''USER_SS'' (f_user_ss fr) (add_extra ''USER_ESP'' (f_user_esp fr) r) else r);
          r = (if f_vector fr = 14
               then
                 let error = f_error_code fr;
                     r = add_extra ''CR2'' (paging_fault_addr s) r;
                     r = add_extra ''PF_PRESENT'' (drop_bit 0 error AND 0x1) r;
                     r = add_extra ''PF_WRITE'' (drop_bit 1 error AND 0x1) r;
                     r = add_extra ''PF_USER'' (drop_bit 2 error AND 0x1) r;
                     r = add_extra ''PF_RSVD'' (drop_bit 3 error AND 0x1) r
                 in add_extra ''PF_ID'' (drop_bit 4 error AND 0x1) r
               else r)
      in if f_vector fr < 32 then r\<lparr>r_name := exception_names ! unat (f_vector fr)\<rparr> else r\<lparr>r_name := ''unknown''\<rparr>)"

definition serial_writes :: "u8 list list \<Rightarrow> 'a dev_state_scheme \<Rightarrow> 'a dev_state_scheme option" where
  "serial_writes strs s = foldl (\<lambda>r cs. Option.bind r (serial_writestring cs)) (Some s) strs"

definition printk_str :: "string \<Rightarrow> u8 list list \<Rightarrow> 'a tty_state_scheme \<Rightarrow> 'a tty_state_scheme" where
  "printk_str fmt args s = snd (printk (fmt @ [CHR 0x0A]) (map (\<lambda>cs. VStr (Some cs)) args) s)"

fun print_extras :: "ex_extra list \<Rightarrow> 'a dev_state_scheme \<Rightarrow> 'a dev_state_scheme option" where
  "print_extras [] s = Some s"
| "print_extras (x # xs) s =
     Option.bind (serial_writes [c_bytes (x_name x), c_bytes '': '', hex_string (x_value x), [10]]
       (printk_str ''%s: %s'' [c_bytes (x_name x), hex_string (x_value x)] s)) (print_extras xs)"

definition ex_handler :: "ex_report \<Rightarrow> 'a dev_state_scheme \<Rightarrow> 'a dev_state_scheme progress option" where
  "ex_handler r s =
     (let error_hex = hex_string (r_error_code r);
          pc_hex = hex_string (r_pc r);
          status_hex = hex_string (r_status r);
          s = printk_str ''EXCEPTION: %s'' [c_bytes (r_name r)] s;
          s = printk_str ''Error code: %s'' [error_hex] s;
          s = printk_str ''PC: %s'' [pc_hex] s;
          s = printk_str ''Status: %s'' [status_hex] s in
      Option.bind (serial_writes
        [c_bytes ''EXCEPTION: '', c_bytes (r_name r), [10], c_bytes ''Error code: '', error_hex, [10],
         c_bytes ''PC: '', pc_hex, [10], c_bytes ''Status: '', status_hex, [10]] s) (\<lambda>s.
      map_option (\<lambda>s. Halts (s\<lparr>interrupts_on := False\<rparr>))
        (print_extras (take (unat (r_extra_count r)) (r_extras r)) s)))"

definition i386_ex_handler :: "ex_frame \<Rightarrow> 'a dev_state_scheme \<Rightarrow> 'a dev_state_scheme progress option" where
  "i386_ex_handler fr s = ex_handler (i386_ex_report fr s) s"

end
