(* ===== verification/Kshell.thy ===== *)
theory Kshell
  imports Syscall Exception
begin

text \<open>
  The kernel shell (\<open>kernel/kshell.c\<close>): the line editor fed by the keyboard interrupt, the command
  table and every command.  Two commands fault on purpose; the fault is delivered to
  \<open>i386_ex_handler\<close> with the frame the processor pushes in ring 0, whose program counter \<open>pc\<close> is
  an argument.
\<close>

section \<open>State\<close>

record kshell_state = user_state +
  ks_buffer :: "u8 list"
  ks_length :: u32
  command_ready :: u8
  ks_active :: u8

datatype kshell_fn = CmdHelp | CmdClear | CmdTicks | CmdIrq | CmdPanic | CmdReboot | CmdPagefault | CmdVmmtest
  | CmdHeaptest | CmdInitramfs | CmdUserspawn | CmdUserland | CmdYield

record kshell_cmd =
  kc_name :: string
  kc_desc :: string
  kc_fn :: kshell_fn

definition kshell_commands :: "kshell_cmd list" where
  "kshell_commands =
     [\<lparr>kc_name = ''help'', kc_desc = ''List commands'', kc_fn = CmdHelp\<rparr>,
      \<lparr>kc_name = ''clear'', kc_desc = ''Clear screen'', kc_fn = CmdClear\<rparr>,
      \<lparr>kc_name = ''ticks'', kc_desc = ''Show timer'', kc_fn = CmdTicks\<rparr>,
      \<lparr>kc_name = ''irq'', kc_desc = ''Show IRQ info'', kc_fn = CmdIrq\<rparr>,
      \<lparr>kc_name = ''panic'', kc_desc = ''Trigger a kernel panic'', kc_fn = CmdPanic\<rparr>,
      \<lparr>kc_name = ''reboot'', kc_desc = ''Reboot machine'', kc_fn = CmdReboot\<rparr>,
      \<lparr>kc_name = ''pagefault'', kc_desc = ''Trigger page fault'', kc_fn = CmdPagefault\<rparr>,
      \<lparr>kc_name = ''vmmtest'', kc_desc = ''Run VMM smoke test'', kc_fn = CmdVmmtest\<rparr>,
      \<lparr>kc_name = ''heaptest'', kc_desc = ''Run heap smoke test'', kc_fn = CmdHeaptest\<rparr>,
      \<lparr>kc_name = ''initramfs'', kc_desc = ''Show first boot module'', kc_fn = CmdInitramfs\<rparr>,
      \<lparr>kc_name = ''userspawn'', kc_desc = ''Spawn user program by path'', kc_fn = CmdUserspawn\<rparr>,
      \<lparr>kc_name = ''userland'', kc_desc = ''Start the userland init process'', kc_fn = CmdUserland\<rparr>,
      \<lparr>kc_name = ''yield'', kc_desc = ''Yield to the next runnable task'', kc_fn = CmdYield\<rparr>]"

section \<open>The line editor\<close>

definition kshell_init :: "'a kshell_state_scheme \<Rightarrow> 'a kshell_state_scheme" where
  "kshell_init s =
     (let s = s\<lparr>ks_buffer := replicate 128 0\<rparr>;
          s = s\<lparr>ks_length := 0\<rparr>;
          s = s\<lparr>command_ready := 0\<rparr>;
          s = snd (printk ''kshell> '' [] s)
      in s\<lparr>ks_active := 1\<rparr>)"

definition kshell_on_char :: "u8 \<Rightarrow> 'a kshell_state_scheme \<Rightarrow> 'a kshell_state_scheme" where
  "kshell_on_char c s =
     (if ks_active s = 0 then s
      else if c = 10 then (snd (printk ''%c'' [VInt (scast c)] s))\<lparr>command_ready := 1\<rparr>
      else if c = 8 then
        (if ks_length s > 0 then
           let s = s\<lparr>ks_length := ks_length s - 1\<rparr>;
               s = s\<lparr>ks_buffer := (ks_buffer s)[unat (ks_length s) := 0]\<rparr>
           in snd (printk ''%c'' [VInt (scast c)] s)
         else s)
      else
        (if ks_length s < 128 - 1 then
           let s = s\<lparr>ks_buffer := (ks_buffer s)[unat (ks_length s) := c]\<rparr>;
               s = s\<lparr>ks_length := ks_length s + 1\<rparr>;
               s = s\<lparr>ks_buffer := (ks_buffer s)[unat (ks_length s) := 0]\<rparr>
           in snd (printk ''%c'' [VInt (scast c)] s)
         else s))"

section \<open>Commands\<close>

abbreviation say :: "string \<Rightarrow> u32 list \<Rightarrow> 'a tty_state_scheme \<Rightarrow> 'a tty_state_scheme" where
  "say fmt args s \<equiv> snd (printk (fmt @ [CHR 0x0A]) (map VInt args) s)"

definition cmd_help :: "'a kshell_state_scheme \<Rightarrow> 'a kshell_state_scheme" where
  "cmd_help s = fold (\<lambda>c s. snd (printk (''- %s: %s'' @ [CHR 0x0A])
       [VStr (Some (c_bytes (kc_name c))), VStr (Some (c_bytes (kc_desc c)))] s)) kshell_commands
     (say ''Available commands:'' [] s)"

definition cmd_clear :: "'a kshell_state_scheme \<Rightarrow> 'a kshell_state_scheme" where
  "cmd_clear s = terminal_init s"

definition cmd_ticks :: "'a kshell_state_scheme \<Rightarrow> 'a kshell_state_scheme" where
  "cmd_ticks s =
     (let t = timer_get_ticks s
      in snd (printk (''Ticks: %u (%x)'' @ [CHR 0x0A] @ ''Uptime: %us'' @ [CHR 0x0A]) [VInt t, VInt t, VInt (t div 100)] s))"

definition irq_get_counts :: "'a dev_state_scheme \<Rightarrow> u32 list" where
  "irq_get_counts s = irq_counts s"

definition cmd_irq :: "'a kshell_state_scheme \<Rightarrow> 'a kshell_state_scheme" where
  "cmd_irq s = for_u32 0 16 (\<lambda>i s. say ''irq%u: %u'' [i, irq_get_counts s ! unat i] s) s"

definition kernel_fault :: "u32 \<Rightarrow> u32 \<Rightarrow> u32 \<Rightarrow> 'a user_state_scheme \<Rightarrow> 'a user_state_scheme progress option" where
  "kernel_fault vec err pc s =
     i386_ex_handler \<lparr>f_vector = vec, f_error_code = err, f_eip = pc, f_cs = ucast (seg_code s), f_eflags = reg_eflags s,
       f_user_esp = 0, f_user_ss = 0\<rparr> s"

definition cmd_panic :: "u32 \<Rightarrow> 'a kshell_state_scheme \<Rightarrow> 'a kshell_state_scheme progress option" where
  "cmd_panic pc s = kernel_fault 0 0 pc (say ''Triggering exception...'' [] s)"

definition cmd_reboot :: "'a kshell_state_scheme \<Rightarrow> 'a kshell_state_scheme progress option" where
  "cmd_reboot s = arch_reboot (say ''Rebooting...'' [] s)"

text \<open>The read at \<open>VMM_DIRECT_MAP_LIMIT\<close> faults when the page is not mapped, with the address in \<open>cr2\<close>.\<close>

definition cmd_pagefault :: "u32 \<Rightarrow> 'a kshell_state_scheme \<Rightarrow> 'a kshell_state_scheme progress option" where
  "cmd_pagefault pc s =
     (let s = say ''Triggering pagefault...'' [] s in
      if cpu_translate s VMM_DIRECT_MAP_LIMIT \<noteq> None then Some (Goes s)
      else kernel_fault 14 0 pc (s\<lparr>cr2 := VMM_DIRECT_MAP_LIMIT\<rparr>))"

definition sched_zero_address_space_test :: "'a kshell_state_scheme \<Rightarrow> 'a kshell_state_scheme" where
  "sched_zero_address_space_test s =
     (let (ret, s) = sched_set_current_address_space 0 s
      in say ''sched zero address space: ret=%x'' [word_of_int ret] s)"

text \<open>\<open>self\<close> is the address of \<open>cmd_vmmtest\<close>, which the test translates in both directories.\<close>

definition vmmtest_sched ::
    "linker_symbols \<Rightarrow> ('a kshell_state_scheme \<Rightarrow> 'a kshell_state_scheme option) \<Rightarrow>
     'a kshell_state_scheme \<Rightarrow> 'a kshell_state_scheme option" where
  "vmmtest_sched lk others s =
     (let (ret, s) = sched_set_current_address_space (vmm_get_kernel_address_space s) s;
          s = say ''sched task0 address space: ret=%x'' [word_of_int ret] s in
      Option.bind (kthread_create lk (Some (KFun ''sched_zero_address_space_test'')) s) (\<lambda>(ret, s).
        let s = say ''sched address space test task=%x'' [word_of_int ret] s
        in if ret \<ge> 0 then yield_through others s else Some s))"

definition vmmtest_space :: "u32 \<Rightarrow> 'a kshell_state_scheme \<Rightarrow> 'a kshell_state_scheme" where
  "vmmtest_space self s =
     (let (ret, paddr) = vmm_get_paddr USER_INIT_CODE_ADDR (Some 0) s;
          s = say ''vmm kernel user code: ret=%x'' [word_of_int ret] s;
          (address_space, s) = vmm_create_address_space s;
          (ret, kp) = vmm_get_paddr self (Some 0) s;
          (ret2, sp) = vmm_get_paddr_in address_space self (Some 0) s;
          ret = (if kp \<noteq> sp then - 1 else ret OR ret2);
          s = say ''vmm address space=%x kernel=%x shared=%x ret=%x'' [address_space, the kp, the sp, word_of_int ret] s;
          (user_page, s) = pmm_alloc_page s;
          (ret, s) = vmm_map_page_in address_space 0x00400000 user_page (VMM_PAGE_PRESENT OR VMM_PAGE_WRITABLE OR VMM_PAGE_USER) s;
          (ret2, user_paddr) = vmm_get_paddr_in address_space 0x00400000 (Some 0) s;
          ret = (if the user_paddr \<noteq> user_page then - 1 else ret OR ret2);
          s = say ''vmm user map page=%x paddr=%x ret=%x'' [user_page, the user_paddr, word_of_int ret] s;
          (ret, s) = vmm_map_page_in address_space 0x00400000 user_page (VMM_PAGE_PRESENT OR VMM_PAGE_WRITABLE OR VMM_PAGE_USER) s;
          s = say ''vmm duplicate map: ret=%x'' [word_of_int ret] s;
          (unmap_ret, s) = vmm_unmap_page_in address_space 0x00400000 s;
          (lookup_ret, user_paddr) = vmm_get_paddr_in address_space 0x00400000 user_paddr s;
          s = say ''vmm user unmap: ret=%x lookup=%x'' [word_of_int unmap_ret, word_of_int lookup_ret] s;
          s = pmm_free_page user_page s
      in vmm_destroy_address_space address_space s)"

definition vmmtest_kernel :: "'a kshell_state_scheme \<Rightarrow> 'a kshell_state_scheme" where
  "vmmtest_kernel s =
     (let (ret, paddr) = vmm_get_paddr 0x00F00000 (Some 0) s;
          s = say ''vmm kernel low before: ret=%x'' [word_of_int ret] s;
          (ret, s) = vmm_map_page 0x00F00000 0x00000000 (VMM_PAGE_PRESENT OR VMM_PAGE_WRITABLE) s;
          s = say ''vmm_map_page: ret=%x'' [word_of_int ret] s;
          (ret, paddr) = vmm_get_paddr 0x00F00000 paddr s;
          s = say ''vmm_get_paddr after map: ret=%x paddr=%x'' [word_of_int ret, the paddr] s;
          (ret, s) = vmm_unmap_page 0x00F00000 s;
          s = say ''vmm_unmap_page: ret=%x'' [word_of_int ret] s;
          (ret, paddr) = vmm_get_paddr 0x00F00000 paddr s
      in say ''vmm kernel low after: ret=%x'' [word_of_int ret] s)"

definition cmd_vmmtest ::
    "linker_symbols \<Rightarrow> u32 \<Rightarrow> ('a kshell_state_scheme \<Rightarrow> 'a kshell_state_scheme option) \<Rightarrow>
     'a kshell_state_scheme \<Rightarrow> 'a kshell_state_scheme option" where
  "cmd_vmmtest lk self others s =
     Option.bind (vmmtest_sched lk others s) (\<lambda>s. Some (vmmtest_kernel (vmmtest_space self s)))"

definition cmd_heaptest :: "'a kshell_state_scheme \<Rightarrow> 'a kshell_state_scheme option" where
  "cmd_heaptest s =
     Option.bind (kmalloc 4 s) (\<lambda>(a, s).
     Option.bind (kmalloc 4 s) (\<lambda>(b, s).
       let s = say ''kmalloc a=%x b=%x'' [a, b] s in
       if a = 0 \<or> b = 0 then Some s
       else
         let s = s\<lparr>kmem := st32 a 0x12345678 (kmem s)\<rparr>;
             s = s\<lparr>kmem := st32 b 0x9abcdef0 (kmem s)\<rparr>;
             s = say ''heap values a=%x b=%x'' [ld32 (kmem s) a, ld32 (kmem s) b] s in
         Option.bind (kfree a s) (\<lambda>s.
         Option.bind (kmalloc 4 s) (\<lambda>(c, s).
           let s = say ''kmalloc c=%x'' [c] s in
           if c = 0 then Some s
           else
             let s = s\<lparr>kmem := st32 c 0xfeedbeef (kmem s)\<rparr>;
                 s = say ''heap value c=%x reused=%x'' [ld32 (kmem s) c, if c = a then 1 else 0] s in
             Option.bind (kfree b s) (kfree c)))))"

definition cmd_initramfs :: "'a kshell_state_scheme \<Rightarrow> 'a kshell_state_scheme" where
  "cmd_initramfs s = initramfs_list s"

definition cmd_userspawn :: "linker_symbols \<Rightarrow> 'a kshell_state_scheme \<Rightarrow> 'a kshell_state_scheme option" where
  "cmd_userspawn lk s =
     (let cmd_len = 9 in
      if ks_length s \<le> cmd_len \<or> ks_buffer s ! unat cmd_len \<noteq> 32
      then Some (say ''usage: userspawn PATH'' [] s)
      else
        let path = c_string (drop (unat (cmd_len + 1)) (ks_buffer s)) in
        Option.bind (user_spawn lk (Some path) s) (\<lambda>(process_id, s).
          let s = say ''userspawn: process=%x'' [word_of_int process_id] s
          in Some (if process_id < 0 then say ''userspawn: failed to create user process'' [] s else s)))"

definition cmd_userland ::
    "linker_symbols \<Rightarrow> ('a kshell_state_scheme \<Rightarrow> 'a kshell_state_scheme option) \<Rightarrow>
     'a kshell_state_scheme \<Rightarrow> 'a kshell_state_scheme option" where
  "cmd_userland lk others s = user_init lk others s"

definition cmd_yield ::
    "('a kshell_state_scheme \<Rightarrow> 'a kshell_state_scheme option) \<Rightarrow> 'a kshell_state_scheme \<Rightarrow> 'a kshell_state_scheme option" where
  "cmd_yield others s = yield_through others (keyboard_buffer_clear s)"

section \<open>Dispatch\<close>

text \<open>What the commands take from outside the shell.\<close>

record 's shell_env =
  env_lk :: linker_symbols
  env_others :: "'s \<Rightarrow> 's option"
  env_pc :: u32
  env_vmmtest :: u32

definition run_cmd ::
    "'a kshell_state_scheme shell_env \<Rightarrow> kshell_fn \<Rightarrow> 'a kshell_state_scheme \<Rightarrow> 'a kshell_state_scheme progress option" where
  "run_cmd env f s =
     (case f of
        CmdHelp \<Rightarrow> Some (Goes (cmd_help s))
      | CmdClear \<Rightarrow> Some (Goes (cmd_clear s))
      | CmdTicks \<Rightarrow> Some (Goes (cmd_ticks s))
      | CmdIrq \<Rightarrow> Some (Goes (cmd_irq s))
      | CmdPanic \<Rightarrow> cmd_panic (env_pc env) s
      | CmdReboot \<Rightarrow> cmd_reboot s
      | CmdPagefault \<Rightarrow> cmd_pagefault (env_pc env) s
      | CmdVmmtest \<Rightarrow> map_option Goes (cmd_vmmtest (env_lk env) (env_vmmtest env) (env_others env) s)
      | CmdHeaptest \<Rightarrow> map_option Goes (cmd_heaptest s)
      | CmdInitramfs \<Rightarrow> Some (Goes (cmd_initramfs s))
      | CmdUserspawn \<Rightarrow> map_option Goes (cmd_userspawn (env_lk env) s)
      | CmdUserland \<Rightarrow> map_option Goes (cmd_userland (env_lk env) (env_others env) s)
      | CmdYield \<Rightarrow> map_option Goes (cmd_yield (env_others env) s))"

definition input_cmd_len :: "'a kshell_state_scheme \<Rightarrow> u32" where
  "input_cmd_len s = (case first_u32 0 (ks_length s) (\<lambda>i. ks_buffer s ! unat i = 32) of None \<Rightarrow> ks_length s | Some i \<Rightarrow> i)"

definition kshell_exec ::
    "'a kshell_state_scheme shell_env \<Rightarrow> 'a kshell_state_scheme \<Rightarrow> 'a kshell_state_scheme progress option" where
  "kshell_exec env s =
     (if c_string (ks_buffer s) = [] then Some (Goes s)
      else
        case find (\<lambda>c. length (kc_name c) = unat (input_cmd_len s) \<and>
                       take (length (kc_name c)) (ks_buffer s) = c_bytes (kc_name c)) kshell_commands of
          Some c \<Rightarrow> run_cmd env (kc_fn c) s
        | None \<Rightarrow> Some (Goes (say ''Unknown command'' [] s)))"

definition kshell_poll ::
    "'a kshell_state_scheme shell_env \<Rightarrow> 'a kshell_state_scheme \<Rightarrow> 'a kshell_state_scheme progress option" where
  "kshell_poll env s =
     (if command_ready s = 0 then Some (Goes s)
      else Option.bind (kshell_exec env s) (\<lambda>r.
        case r of Goes s \<Rightarrow> Some (Goes (kshell_init s)) | _ \<Rightarrow> Some r))"

end
