(* ===== verification/Kmain.thy ===== *)
theory Kmain
  imports Kshell PmmInit
begin

text \<open>
  Hardware interrupts (\<open>irq_handler\<close> of \<open>kernel/interrupt.c\<close>), the functions a kernel thread can
  start with, and the boot sequence and idle loop of \<open>kernel/main.c\<close>.
\<close>

section \<open>Interrupts\<close>

definition keyboard_irq :: "'a kshell_state_scheme \<Rightarrow> 'a kshell_state_scheme option" where
  "keyboard_irq s =
     (let (sc, s) = keyboard_read s;
          key = keyboard_decode sc in
      if key \<noteq> 0 then
        let s = (if user_has_input_focus s then keyboard_buffer_push key s else kshell_on_char key s)
        in serial_writes [c_bytes ''scancode='', hex_string (ucast sc), c_bytes '' key='', [key], [10]] s
      else Some s)"

definition irq_handler :: "u32 \<Rightarrow> 'a kshell_state_scheme \<Rightarrow> 'a kshell_state_scheme option" where
  "irq_handler irq s =
     (let s = (if irq < 16 then s\<lparr>irq_counts := (irq_counts s)[unat irq := irq_counts s ! unat irq + 1]\<rparr> else s);
          s = (if irq = 0 then timer_tick s else s)
      in map_option (irq_ack irq) (if irq = 1 then keyboard_irq s else Some s))"

section \<open>Kernel threads\<close>

definition kernel_threads :: "kfun \<Rightarrow> 'a kshell_state_scheme \<Rightarrow> 'a kshell_state_scheme progress option" where
  "kernel_threads f s =
     (if f = KFun ''user_exec_task'' then Some (user_exec_task s)
      else if f = KFun ''sched_zero_address_space_test'' then Some (Goes (sched_zero_address_space_test s))
      else None)"

section \<open>main.c\<close>

text \<open>
  \<open>kmain\<close> up to its idle loop; a panic is its message.  \<open>kmain_idle\<close> is one round of the loop,
  after the \<open>hlt\<close> of \<open>arch_idle\<close>.
\<close>

definition kmain_boot ::
    "'a kshell_state_scheme shell_env \<Rightarrow> u32 \<Rightarrow> u32 \<Rightarrow> 'a kshell_state_scheme \<Rightarrow> 'a kshell_state_scheme outcome option" where
  "kmain_boot env magic mbi_addr s =
     (let s = serial_init s;
          s = terminal_init s in
      if magic \<noteq> MULTIBOOT_MAGIC then Some (Panic (''multiboot: wrong magic value'' @ [CHR 0x0A]))
      else
        let mbi = vmm_phys_to_virt mbi_addr in
        if mbi = 0 then Some (Panic ''multiboot: info is outside direct map'')
        else
          (case pmm_init mbi s of
             None \<Rightarrow> None
           | Some (Panic e) \<Rightarrow> Some (Panic e)
           | Some (Returns s) \<Rightarrow>
               let s = boot_init mbi s in
               (case vmm_init VMM_DIRECT_MAP_LIMIT s of
                  Panic e \<Rightarrow> Some (Panic e)
                | Returns s \<Rightarrow>
                    let s = arch_init (env_lk env) s;
                        s = sched_init s;
                        s = irq_enable s in
                    map_option (\<lambda>s. Returns (kshell_init s)) (user_init (env_lk env) (env_others env) s))))"

definition kmain_idle ::
    "'a kshell_state_scheme shell_env \<Rightarrow> 'a kshell_state_scheme \<Rightarrow> 'a kshell_state_scheme progress option" where
  "kmain_idle env s =
     Option.bind (kshell_poll env s) (\<lambda>r.
       case r of Goes s \<Rightarrow> map_option Goes (timer_print s) | _ \<Rightarrow> Some r)"

end
