(* ===== verification/KshellProof.thy ===== *)
theory KshellProof
  imports Kmain KernelRun
begin

text \<open>
  The kernel shell against its abstract behaviour: the line editor is editing of a string of at
  most 127 characters, and a line runs the command its first word names.
\<close>

section \<open>The line\<close>

definition edit :: "u8 list \<Rightarrow> u8 \<Rightarrow> u8 list" where
  "edit l c = (if c = 10 then l else if c = 8 then butlast l else if length l < 127 then l @ [c] else l)"

definition shows_line :: "'a kshell_state_scheme \<Rightarrow> u8 list \<Rightarrow> bool" where
  "shows_line s l \<longleftrightarrow> ks_active s \<noteq> 0 \<and> length l \<le> 127 \<and> ks_length s = word_of_nat (length l) \<and>
     ks_buffer s = l @ replicate (128 - length l) 0"

lemma tty_more_kshell:
  "tty_state.more t = tty_state.more s \<Longrightarrow> ks_buffer t = ks_buffer s \<and> ks_length t = ks_length s \<and>
     command_ready t = command_ready s \<and> ks_active t = ks_active s" for s t :: "'a kshell_state_scheme"
  by (cases s, cases t) simp

lemma printk_kshell [simp]:
  "ks_buffer (snd (printk f a s)) = ks_buffer s" "ks_length (snd (printk f a s)) = ks_length s"
  "command_ready (snd (printk f a s)) = command_ready s" "ks_active (snd (printk f a s)) = ks_active s" for s :: "'a kshell_state_scheme"
  using tty_more_kshell [of "snd (printk f a s)" s] by simp_all

lemma kshell_init_line: "shows_line (kshell_init s) []" "command_ready (kshell_init s) = 0"
  by (simp_all add: kshell_init_def Let_def shows_line_def)

lemma unat_length: "length l \<le> 127 \<Longrightarrow> unat (word_of_nat (length l) :: u32) = length l"
  by (simp add: unat_of_nat)

lemma zeros_update: "k < n \<Longrightarrow> (replicate n x)[k := x] = replicate n x"
  by (simp add: list_update_same_conv)

lemma on_char_edits:
  assumes "shows_line s l"
  shows "shows_line (kshell_on_char c s) (edit l c)" "command_ready (kshell_on_char c s) = (if c = 10 then 1 else command_ready s)"
proof -
  have L: "ks_active s \<noteq> 0" "length l \<le> 127" "ks_length s = word_of_nat (length l)" "ks_buffer s = l @ replicate (128 - length l) 0"
    using assms by (simp_all add: shows_line_def)
  note u = unat_length [OF L(2)]
  have z: "ks_length s = 0 \<longleftrightarrow> l = []" using u L(3) by (metis length_0_conv unat_eq_0)
  show "command_ready (kshell_on_char c s) = (if c = 10 then 1 else command_ready s)"
    using L(1) by (simp add: kshell_on_char_def Let_def)
  consider "c = 10" | "c = 8" "l = []" | "c = 8" "l \<noteq> []" | "c \<noteq> 10" "c \<noteq> 8" "length l < 127" | "c \<noteq> 10" "c \<noteq> 8" "length l = 127"
    using L(2) by fastforce
  then show "shows_line (kshell_on_char c s) (edit l c)"
  proof cases
    case 1
    then show ?thesis using L by (simp add: kshell_on_char_def shows_line_def edit_def)
  next
    case 2
    then show ?thesis using L z by (simp add: kshell_on_char_def shows_line_def edit_def)
  next
    case 3
    obtain m x where l: "l = m @ [x]" using 3(2) by (metis append_butlast_last_id)
    have n: "(ks_length s - 1 :: u32) = word_of_nat (length m)" using L(3) by (simp add: l)
    have "unat (word_of_nat (length m) :: u32) = length m" using L(2) by (simp add: l unat_of_nat)
    moreover have "Suc (127 - length m) = 128 - length m" using L(2) by (simp add: l)
    ultimately show ?thesis
      using 3 L z n by (simp add: kshell_on_char_def shows_line_def edit_def Let_def word_gt_0 l list_update_append replicate_Suc [symmetric])
  next
    case 4
    have lt: "ks_length s < 127" using 4(3) u L(3) by (simp add: word_less_nat_alt)
    have s: "unat (ks_length s + 1) = Suc (length l)" "ks_length s + 1 = word_of_nat (Suc (length l))"
      using unat_inc [OF lt] u L(3) by simp_all
    have k: "128 - length l = Suc (Suc (126 - length l))" using 4(3) by simp
    have "Suc (126 - length l) = 127 - length l" using 4(3) by simp
    then have "replicate (127 - length l) (0 :: u8) = 0 # replicate (126 - length l) 0" by (metis replicate_Suc)
    then show ?thesis
      using 4 L lt s u k by (simp add: kshell_on_char_def shows_line_def edit_def Let_def list_update_append)
  next
    case 5
    have "\<not> ks_length s < 127" using 5(3) u L(3) by (simp add: word_less_nat_alt)
    then show ?thesis using 5 L by (simp add: kshell_on_char_def shows_line_def edit_def)
  qed
qed

section \<open>Properties\<close>

text \<open>
  C36: the line editor of the shell is editing of a string.  After any sequence of key presses the
  buffer holds exactly the characters typed and not erased, at most 127 of them, followed by
  zeros up to its end, the length is theirs, and a command is pending exactly when Enter was
  pressed; no key writes outside the 128-byte buffer.
\<close>

theorem kshell_line_editor:
  fixes s :: "'a kshell_state_scheme"
  shows "let t = fold kshell_on_char keys (kshell_init s); l = foldl edit [] keys
    in length l \<le> 127 \<and> ks_buffer t = l @ replicate (128 - length l) 0 \<and> ks_length t = word_of_nat (length l) \<and>
       command_ready t = (if 10 \<in> set keys then 1 else 0)"
proof -
  have "shows_line (fold kshell_on_char keys t) (foldl edit l keys) \<and>
      command_ready (fold kshell_on_char keys t) = (if 10 \<in> set keys then 1 else command_ready t)"
    if "shows_line t l" for t :: "'a kshell_state_scheme" and l
    using that
  proof (induction keys arbitrary: t l)
    case (Cons c keys)
    then show ?case using on_char_edits [OF Cons.prems, of c] by auto
  qed simp
  from this [OF kshell_init_line(1) [of s]] kshell_init_line(2) [of s] show ?thesis by (simp add: Let_def shows_line_def)
qed

text \<open>
  C37: \<open>kshell_exec\<close> runs the command named by the first word of the line and nothing else: with the
  buffer as the editor leaves it, its loop over bytes is the lookup of the characters before
  the first space in the command table.
\<close>

theorem kshell_exec_dispatch:
  assumes "length l \<le> 127" "ks_length s = word_of_nat (length l)" "ks_buffer s = l @ replicate (128 - length l) 0" "0 \<notin> set l"
  shows "kshell_exec env s =
    (if l = [] then Some (Goes s)
     else case find (\<lambda>c. c_bytes (kc_name c) = takeWhile (\<lambda>b. b \<noteq> 32) l) kshell_commands of
       Some c \<Rightarrow> run_cmd env (kc_fn c) s
     | None \<Rightarrow> Some (Goes (snd (printk (''Unknown command'' @ [CHR 0x0A]) [] s))))"
proof -
  let ?w = "takeWhile (\<lambda>b. b \<noteq> 32) l"
  note u = unat_length [OF assms(1)]
  have le: "length ?w \<le> length l" by (rule length_takeWhile_le)
  have wl: "unat (word_of_nat (length ?w) :: u32) = length ?w" using unat_length [of ?w] le assms(1) by simp
  have at: "ks_buffer s ! i = l ! i" if "i < length l" for i using that assms(3) by (simp add: nth_append)
  have len: "unat (input_cmd_len s) = length ?w"
  proof (cases "32 \<in> set l")
    case True
    then have "?w \<noteq> l" using takeWhile_eq_all_conv [of "\<lambda>b. b \<noteq> 32" l] by blast
    then have lt: "length ?w < length l" using takeWhile_eq_take [of "\<lambda>b. b \<noteq> 32" l] le by (metis le_neq_implies_less take_all_iff order_refl)
    have "first_u32 0 (ks_length s) (\<lambda>i. ks_buffer s ! unat i = 32) = Some (word_of_nat (length ?w))"
    proof (rule first_u32_eqI)
      show "word_of_nat (length ?w) < ks_length s" using lt wl u assms(2) by (simp add: word_less_nat_alt)
      show "ks_buffer s ! unat (word_of_nat (length ?w) :: u32) = 32" using nth_length_takeWhile [OF lt] at [OF lt] wl by simp
      fix k :: u32 assume "k < word_of_nat (length ?w)"
      then have k: "unat k < length ?w" using wl by (simp add: word_less_nat_alt)
      then show "\<not> ks_buffer s ! unat k = 32" using takeWhile_nth [OF k] nth_mem [OF k] set_takeWhileD at lt by fastforce
    qed simp
    then show ?thesis using wl by (simp add: input_cmd_len_def)
  next
    case False
    then have w: "?w = l" by (simp add: takeWhile_eq_all_conv) blast
    have "first_u32 0 (ks_length s) (\<lambda>i. ks_buffer s ! unat i = 32) = None"
    proof (cases "first_u32 0 (ks_length s) (\<lambda>i. ks_buffer s ! unat i = 32)")
      case (Some i)
      then have "unat i < length l" "ks_buffer s ! unat i = 32"
        using first_u32_SomeD [OF Some] u assms(2) by (auto simp: word_less_nat_alt)
      then show ?thesis using at False nth_mem by metis
    qed
    then show ?thesis unfolding w input_cmd_len_def using u assms(2) by simp
  qed
  have tk: "take (length ?w) (ks_buffer s) = ?w" using takeWhile_eq_take [of "\<lambda>b. b \<noteq> 32" l] le assms(3) by simp
  have "length n = length ?w \<and> take (length n) (ks_buffer s) = c_bytes n \<longleftrightarrow> c_bytes n = ?w" for n
  proof
    assume "length n = length ?w \<and> take (length n) (ks_buffer s) = c_bytes n"
    then show "c_bytes n = ?w" using tk by metis
  next
    assume e: "c_bytes n = ?w"
    then have "length n = length ?w" by (simp add: c_bytes_def flip: e)
    then show "length n = length ?w \<and> take (length n) (ks_buffer s) = c_bytes n" using tk e by simp
  qed
  moreover have "c_string (ks_buffer s) = [] \<longleftrightarrow> l = []"
    using assms(3,4) by (cases l) (auto simp: c_string_def)
  ultimately show ?thesis unfolding kshell_exec_def len by (simp cong: option.case_cong)
qed

section \<open>A concrete shell\<close>

definition small_kshell :: "user_state \<Rightarrow> kshell_state" where
  "small_kshell u = user_state.extend u \<lparr>ks_buffer = replicate 128 0, ks_length = 0, command_ready = 0, ks_active = 1\<rparr>"

definition small_env :: "kshell_state shell_env" where
  "small_env = \<lparr>env_lk = small_lk, env_others = (\<lambda>_. None), env_pc = 0xC0105000, env_vmmtest = 0xC0106000\<rparr>"

theorem kshell_exec_dispatch_witness:
  "let s = (small_kshell family)\<lparr>ks_buffer := c_bytes ''ticks'' @ replicate 123 0, ks_length := 5\<rparr>
   in kshell_exec small_env s = Some (Goes (cmd_ticks s))"
proof -
  let ?s = "(small_kshell family)\<lparr>ks_buffer := c_bytes ''ticks'' @ replicate 123 0, ks_length := 5\<rparr>"
  have "kshell_exec small_env ?s = run_cmd small_env CmdTicks ?s"
    using kshell_exec_dispatch [of "c_bytes ''ticks''" ?s small_env] by (simp add: c_bytes_def kshell_commands_def)
  then show ?thesis by (simp add: Let_def run_cmd_def)
qed

end
