(* ===== verification/TrapProof.thy ===== *)
theory TrapProof
  imports DevicesProof KshellProof
begin

text \<open>
  Traps: what an exception leaves on the serial line, and what a hardware interrupt does to the
  counters, the keyboard, the shell and the interrupt controllers.
\<close>

section \<open>Writes to the ports\<close>

definition writes_to :: "u16 set \<Rightarrow> 'a tty_state_scheme \<Rightarrow> (u16 \<times> u8) list" where
  "writes_to P s = filter (\<lambda>w. fst w \<in> P) (io_log s)"

definition vga_ports :: "u16 set" where "vga_ports = {VGA_CRTC_INDEX, VGA_CRTC_DATA}"
definition pic_ports_set :: "u16 set" where "pic_ports_set = {PIC1_COMMAND, PIC1_DATA, PIC2_COMMAND, PIC2_DATA}"

lemma ports_apart:
  "VGA_CRTC_INDEX \<noteq> COM1" "VGA_CRTC_DATA \<noteq> COM1" "pic_ports_set \<inter> vga_ports = {}" "COM1 \<notin> pic_ports_set" "{COM1} \<inter> vga_ports = {}"
  by (simp_all add: vga_ports_def pic_ports_set_def pic_consts COM1_def VGA_CRTC_INDEX_def VGA_CRTC_DATA_def)

lemma sent_writes: "sent s = map snd (writes_to {COM1} s)"
  by (simp add: sent_def writes_to_def)

lemma putchar_writes:
  assumes "P \<inter> vga_ports = {}"
  shows "writes_to P (terminal_putchar c s) = writes_to P s"
  using assms by (auto simp: writes_to_def vga_ports_def terminal_putchar_def terminal_backspace_def next_row_def
      terminal_scroll_up_def terminal_putentryat_def terminal_update_cursor_def outb_def Let_def)

lemma printk_writes:
  "P \<inter> vga_ports = {} \<Longrightarrow> writes_to P (snd (printk f a s)) = writes_to P s"
  by (rule printk_frame) (rule putchar_writes)

lemma printk_sent [simp]: "sent (snd (printk f a s)) = sent s"
  using printk_writes [OF ports_apart(5), of f a s] by (simp add: sent_writes)

lemma tty_more_dev:
  "tty_state.more t = tty_state.more s \<Longrightarrow> port_in t = port_in s \<and> port_reads t = port_reads s \<and> irq_counts t = irq_counts s \<and>
     ticks t = ticks s \<and> interrupts_on t = interrupts_on s \<and> kmem t = kmem s \<and> cr2 t = cr2 s" for s t :: "'a dev_state_scheme"
  by (cases s, cases t) simp

lemma printk_dev [simp]:
  "port_in (snd (printk f a s)) = port_in s" "port_reads (snd (printk f a s)) = port_reads s"
  "irq_counts (snd (printk f a s)) = irq_counts s" "ticks (snd (printk f a s)) = ticks s"
  "kmem (snd (printk f a s)) = kmem s" for s :: "'a dev_state_scheme"
  using tty_more_dev [of "snd (printk f a s)" s] by simp_all

lemma printk_alive [simp]: "line_alive (snd (printk f a s)) = line_alive s"
  by (simp add: line_alive_def serial_ready_def)

section \<open>Strings on the line\<close>

lemma crlf_append: "crlf (a @ b) = crlf a @ crlf b"
  by (simp add: crlf_def)

lemma crlf_concat: "crlf (concat xs) = concat (map crlf xs)"
  by (induction xs) (simp_all add: crlf_append, simp add: crlf_def)

lemma sent_upd: "sent (s\<lparr>io_log := io_log s @ map (Pair COM1) cs, port_reads := f\<rparr>) = sent s @ cs" for s :: "'a dev_state_scheme"
proof -
  have "filter (\<lambda>w. fst w = COM1) (map (Pair COM1) xs) = map (Pair COM1) xs" for xs :: "u8 list" by (induction xs) auto
  then show ?thesis by (simp add: sent_def o_def)
qed

lemma serial_writes_sends:
  assumes "line_alive s"
  shows "\<exists>f. serial_writes strs s = Some (s\<lparr>io_log := io_log s @ map (Pair COM1) (crlf (concat strs)), port_reads := f\<rparr>)"
proof (induction strs rule: rev_induct)
  case Nil
  show ?case by (intro exI [of _ "port_reads s"]) (simp add: serial_writes_def crlf_def)
next
  case (snoc x xs)
  then obtain f where f: "serial_writes xs s = Some (s\<lparr>io_log := io_log s @ map (Pair COM1) (crlf (concat xs)), port_reads := f\<rparr>)"
    (is "_ = Some ?t") by blast
  obtain g where "serial_writestring x ?t = Some (?t\<lparr>io_log := io_log ?t @ map (Pair COM1) (crlf x), port_reads := g\<rparr>)"
    using serial_writestring_sends [of ?t x] assms by auto
  then show ?case using f by (auto simp: serial_writes_def crlf_append log_first)
qed

lemma serial_writes_sent:
  assumes "line_alive s"
  shows "\<exists>t. serial_writes strs s = Some t \<and> line_alive t \<and> sent t = sent s @ crlf (concat strs)"
  using serial_writes_sends [OF assms, of strs] assms by (auto simp: sent_upd)

section \<open>The exception report\<close>

definition report_fields :: "ex_frame \<Rightarrow> u32 \<Rightarrow> (string \<times> u32) list" where
  "report_fields fr addr =
     [(''CS'', f_cs fr)] @
     (if f_cs fr AND 3 = 0 then [] else [(''USER_ESP'', f_user_esp fr), (''USER_SS'', f_user_ss fr)]) @
     (if f_vector fr = 14
      then (''CR2'', addr) # map (\<lambda>(n, b). (n, of_bool (bit (f_error_code fr) b)))
        [(''PF_PRESENT'', 0), (''PF_WRITE'', 1), (''PF_USER'', 2), (''PF_RSVD'', 3), (''PF_ID'', 4)]
      else [])"

definition report_name :: "ex_frame \<Rightarrow> string" where
  "report_name fr = (if f_vector fr < 32 then exception_names ! unat (f_vector fr) else ''unknown'')"

definition field_line :: "string \<times> u32 \<Rightarrow> u8 list" where
  "field_line x = c_bytes (fst x) @ c_bytes '': '' @ hex_string (snd x) @ [10]"

definition report_text :: "ex_frame \<Rightarrow> u32 \<Rightarrow> u8 list" where
  "report_text fr addr = c_bytes ''EXCEPTION: '' @ c_bytes (report_name fr) @ [10] @
     concat (map field_line ([(''Error code'', f_error_code fr), (''PC'', f_eip fr), (''Status'', f_eflags fr)] @ report_fields fr addr))"

lemma bit_and_1: "drop_bit n e AND 1 = of_bool (bit e n)" for e :: u32
  by (simp add: bit_iff_odd_drop_bit and_one_eq odd_iff_mod_2_eq_one)

text \<open>A report whose used slots hold exactly the given fields.\<close>

definition collects :: "ex_report \<Rightarrow> (string \<times> u32) list \<Rightarrow> bool" where
  "collects r fs \<longleftrightarrow> length (r_extras r) = 12 \<and> length fs \<le> 12 \<and> unat (r_extra_count r) = length fs \<and>
     map (\<lambda>x. (x_name x, x_value x)) (take (length fs) (r_extras r)) = fs"

lemma add_extra_collects:
  assumes "collects r fs" "length fs < 12"
  shows "collects (add_extra n v r) (fs @ [(n, v)])"
proof -
  have c: "length (r_extras r) = 12" "unat (r_extra_count r) = length fs" "map (\<lambda>x. (x_name x, x_value x)) (take (length fs) (r_extras r)) = fs"
    using assms(1) by (simp_all add: collects_def)
  have "unat (r_extra_count r + 1) = Suc (length fs)" using c(2) assms(2) by (simp add: unat_word_ariths)
  then show ?thesis using c assms(2) by (simp add: collects_def add_extra_def take_Suc_conv_app_nth)
qed

lemma report_extras: "collects (i386_ex_report fr s) (report_fields fr (cr2 s))" "r_name (i386_ex_report fr s) = report_name fr"
    "r_error_code (i386_ex_report fr s) = f_error_code fr" "r_pc (i386_ex_report fr s) = f_eip fr" "r_status (i386_ex_report fr s) = f_eflags fr"
proof -
  let ?e = "f_error_code fr"
  define r0 where "r0 = \<lparr>r_name = '''', r_vector = f_vector fr, r_error_code = f_error_code fr, r_pc = f_eip fr,
                r_status = f_eflags fr, r_extras = replicate 12 \<lparr>x_name = '''', x_value = 0\<rparr>, r_extra_count = 0\<rparr>"
  define r1 where "r1 = add_extra ''CS'' (f_cs fr) r0"
  define r2 where "r2 = (if f_cs fr AND 3 \<noteq> 0 then add_extra ''USER_SS'' (f_user_ss fr) (add_extra ''USER_ESP'' (f_user_esp fr) r1) else r1)"
  define r3 where "r3 = (if f_vector fr = 14 then add_extra ''PF_ID'' (of_bool (bit ?e 4)) (add_extra ''PF_RSVD'' (of_bool (bit ?e 3))
      (add_extra ''PF_USER'' (of_bool (bit ?e 2)) (add_extra ''PF_WRITE'' (of_bool (bit ?e 1)) (add_extra ''PF_PRESENT'' (of_bool (bit ?e 0))
      (add_extra ''CR2'' (cr2 s) r2))))) else r2)"
  have eq: "i386_ex_report fr s = r3\<lparr>r_name := report_name fr\<rparr>"
    unfolding i386_ex_report_def Let_def paging_fault_addr_def r0_def [symmetric] r1_def [symmetric] r2_def [symmetric] bit_and_1
      r3_def [symmetric] report_name_def
    by simp
  have "collects r0 []" by (simp add: collects_def r0_def)
  from add_extra_collects [OF this, of "''CS''" "f_cs fr"] have c1: "collects r1 [(''CS'', f_cs fr)]" by (simp add: r1_def)
  define f2 where "f2 = [(''CS'', f_cs fr)] @ (if f_cs fr AND 3 = 0 then [] else [(''USER_ESP'', f_user_esp fr), (''USER_SS'', f_user_ss fr)])"
  have l2: "length f2 \<le> 3" by (simp add: f2_def)
  have "collects (add_extra ''USER_SS'' b (add_extra ''USER_ESP'' a r1)) ([(''CS'', f_cs fr)] @ [(''USER_ESP'', a), (''USER_SS'', b)])" for a b
    using add_extra_collects [OF add_extra_collects [OF c1, of "''USER_ESP''" a], of "''USER_SS''" b] by simp
  then have c2: "collects r2 f2" using c1 by (simp add: r2_def f2_def)
  have six: "collects (add_extra n6 v6 (add_extra n5 v5 (add_extra n4 v4 (add_extra n3 v3 (add_extra n2 v2 (add_extra n1 v1 r2))))))
      (f2 @ [(n1, v1), (n2, v2), (n3, v3), (n4, v4), (n5, v5), (n6, v6)])" for n1 v1 n2 v2 n3 v3 n4 v4 n5 v5 n6 v6
    using add_extra_collects [OF add_extra_collects [OF add_extra_collects [OF add_extra_collects [OF add_extra_collects [OF
      add_extra_collects [OF c2, of n1 v1], of n2 v2], of n3 v3], of n4 v4], of n5 v5], of n6 v6] l2 by simp
  have "report_fields fr (cr2 s) = f2 @ (if f_vector fr = 14 then [(''CR2'', cr2 s), (''PF_PRESENT'', of_bool (bit ?e 0)), (''PF_WRITE'', of_bool (bit ?e 1)),
      (''PF_USER'', of_bool (bit ?e 2)), (''PF_RSVD'', of_bool (bit ?e 3)), (''PF_ID'', of_bool (bit ?e 4))] else [])"
    by (simp add: report_fields_def f2_def)
  then have "collects r3 (report_fields fr (cr2 s))" using six c2 by (simp add: r3_def)
  then show "collects (i386_ex_report fr s) (report_fields fr (cr2 s))" by (simp add: eq collects_def)
  have e: "r_error_code (add_extra n v r) = r_error_code r" "r_pc (add_extra n v r) = r_pc r" "r_status (add_extra n v r) = r_status r" for n v r
    by (simp_all add: add_extra_def)
  show "r_name (i386_ex_report fr s) = report_name fr" "r_error_code (i386_ex_report fr s) = f_error_code fr"
    "r_pc (i386_ex_report fr s) = f_eip fr" "r_status (i386_ex_report fr s) = f_eflags fr"
    by (simp_all add: eq r3_def r2_def r1_def e) (simp_all add: r0_def)
qed

lemma print_extras_sent:
  "line_alive s \<Longrightarrow> \<exists>t. print_extras xs s = Some t \<and> line_alive t \<and>
     sent t = sent s @ crlf (concat (map field_line (map (\<lambda>x. (x_name x, x_value x)) xs)))"
proof (induction xs arbitrary: s)
  case Nil
  then show ?case by (simp add: crlf_def)
next
  case (Cons x xs)
  let ?strs = "[c_bytes (x_name x), c_bytes '': '', hex_string (x_value x), [10]]"
  obtain u where u: "serial_writes ?strs (printk_str ''%s: %s'' [c_bytes (x_name x), hex_string (x_value x)] s) = Some u"
      "line_alive u" "sent u = sent s @ crlf (concat ?strs)"
    using serial_writes_sent [of "printk_str ''%s: %s'' [c_bytes (x_name x), hex_string (x_value x)] s" ?strs] Cons.prems
    by (auto simp: printk_str_def)
  then show ?case using Cons.IH [OF u(2)] by (auto simp: field_line_def simp flip: crlf_append)
qed

text \<open>
  C34: an exception is reported and stops the machine: for every trap frame, on a serial line
  that becomes ready again and again, the handler comes to its final halt with interrupts off,
  and what it sent is the name of the exception, the error code, the faulting address and flags,
  the code segment, the user stack exactly when the trap came from ring 3, and for a page fault
  the fault address with the five bits of the error code.
\<close>

theorem exception_report_sent:
  assumes "line_alive s"
  shows "\<exists>t. i386_ex_handler fr s = Some (Halts t) \<and> \<not> interrupts_on t \<and> sent t = sent s @ crlf (report_text fr (cr2 s))"
proof -
  let ?r = "i386_ex_report fr s" and ?fs = "report_fields fr (cr2 s)"
  let ?strs = "[c_bytes ''EXCEPTION: '', c_bytes (report_name fr), [10], c_bytes ''Error code: '', hex_string (f_error_code fr), [10],
    c_bytes ''PC: '', hex_string (f_eip fr), [10], c_bytes ''Status: '', hex_string (f_eflags fr), [10]]"
  let ?p = "printk_str ''Status: %s'' [hex_string (f_eflags fr)] (printk_str ''PC: %s'' [hex_string (f_eip fr)]
    (printk_str ''Error code: %s'' [hex_string (f_error_code fr)] (printk_str ''EXCEPTION: %s'' [c_bytes (report_name fr)] s)))"
  have p: "line_alive ?p" "sent ?p = sent s" using assms by (simp_all add: printk_str_def)
  obtain u where u: "serial_writes ?strs ?p = Some u" "line_alive u" "sent u = sent s @ crlf (concat ?strs)"
    using serial_writes_sent [OF p(1), of ?strs] p(2) by auto
  have x: "map (\<lambda>x. (x_name x, x_value x)) (take (unat (r_extra_count ?r)) (r_extras ?r)) = ?fs"
    using report_extras(1) [of fr s] by (simp add: collects_def)
  obtain t where t: "print_extras (take (unat (r_extra_count ?r)) (r_extras ?r)) u = Some t" "sent t = sent u @ crlf (concat (map field_line ?fs))"
    using print_extras_sent [OF u(2), of "take (unat (r_extra_count ?r)) (r_extras ?r)"] unfolding x by blast
  have "i386_ex_handler fr s = Some (Halts (t\<lparr>interrupts_on := False\<rparr>))"
    unfolding i386_ex_handler_def ex_handler_def Let_def report_extras(2-5) u(1) Option.bind.bind_lunit t(1) by simp
  moreover have "sent (t\<lparr>interrupts_on := False\<rparr>) = sent s @ crlf (report_text fr (cr2 s))"
    using t(2) u(3) by (simp add: sent_def report_text_def field_line_def c_bytes_def flip: crlf_append)
  ultimately show ?thesis by (intro exI [of _ "t\<lparr>interrupts_on := False\<rparr>"]) simp
qed

section \<open>Hardware interrupts\<close>

definition eoi :: "u32 \<Rightarrow> (u16 \<times> u8) list" where
  "eoi irq = (if irq < 8 then [(PIC1_COMMAND, PIC_EOI)] else [(PIC2_COMMAND, PIC_EOI), (PIC1_COMMAND, PIC_EOI)])"

text \<open>What a device update leaves alone.\<close>

definition line_vars where
  "line_vars s = (kb_ok s, kb_contents s, (ks_buffer s, ks_length s, command_ready s, ks_active s), kvars s, kmem s, writes_to pic_ports_set s)"

lemma line_vars_dev [simp]:
  "line_vars (s\<lparr>port_reads := f\<rparr>) = line_vars s" "line_vars (s\<lparr>irq_counts := c\<rparr>) = line_vars s" "line_vars (s\<lparr>ticks := n\<rparr>) = line_vars s"
  by (simp_all add: line_vars_def kb_ok_def kb_contents_def kb_count_def kvars_def writes_to_def)

lemma line_vars_serial [simp]:
  "line_vars (s\<lparr>io_log := io_log s @ map (Pair COM1) cs\<rparr>) = line_vars s"
proof -
  have "filter (\<lambda>w. fst w \<in> pic_ports_set) (map (Pair COM1) xs) = []" for xs :: "u8 list" using ports_apart(4) by (induction xs) auto
  then show ?thesis by (simp add: line_vars_def kb_ok_def kb_contents_def kb_count_def kvars_def writes_to_def)
qed

lemma line_varsD:
  assumes "line_vars t = line_vars s"
  shows "kb_ok t = kb_ok s" "kb_contents t = kb_contents s" "shows_line t l = shows_line s l" "kvars t = kvars s" "kmem t = kmem s"
    "writes_to pic_ports_set t = writes_to pic_ports_set s"
  using assms by (simp_all add: line_vars_def shows_line_def)

lemma printk_keyboard [simp]:
  "kb_ok (snd (printk f a s)) = kb_ok s" "kb_contents (snd (printk f a s)) = kb_contents s" for s :: "'a keyboard_state_scheme"
proof -
  have "keyboard_buffer t = keyboard_buffer s \<and> read_index t = read_index s \<and> write_index t = write_index s"
    if "tty_state.more t = tty_state.more s" for t :: "'a keyboard_state_scheme"
    using that by (cases s, cases t) simp
  from this [of "snd (printk f a s)"] show "kb_ok (snd (printk f a s)) = kb_ok s" "kb_contents (snd (printk f a s)) = kb_contents s"
    by (simp_all add: kb_ok_def kb_contents_def kb_count_def)
qed

lemma ks_upd [simp]:
  fixes s :: "'a kshell_state_scheme"
  shows "kb_ok (s\<lparr>ks_length := n\<rparr>) = kb_ok s" "kb_ok (s\<lparr>ks_buffer := b\<rparr>) = kb_ok s" "kb_ok (s\<lparr>command_ready := r\<rparr>) = kb_ok s"
    "kb_contents (s\<lparr>ks_length := n\<rparr>) = kb_contents s" "kb_contents (s\<lparr>ks_buffer := b\<rparr>) = kb_contents s"
    "kb_contents (s\<lparr>command_ready := r\<rparr>) = kb_contents s"
    "kvars (s\<lparr>ks_length := n\<rparr>) = kvars s" "kvars (s\<lparr>ks_buffer := b\<rparr>) = kvars s" "kvars (s\<lparr>command_ready := r\<rparr>) = kvars s"
    "writes_to P (s\<lparr>ks_length := n\<rparr>) = writes_to P s" "writes_to P (s\<lparr>ks_buffer := b\<rparr>) = writes_to P s"
    "writes_to P (s\<lparr>command_ready := r\<rparr>) = writes_to P s"
    "line_alive (s\<lparr>ks_length := n\<rparr>) = line_alive s" "line_alive (s\<lparr>ks_buffer := b\<rparr>) = line_alive s"
    "line_alive (s\<lparr>command_ready := r\<rparr>) = line_alive s"
  by (simp_all add: kb_ok_def kb_contents_def kb_count_def kvars_def writes_to_def line_alive_def serial_ready_def)

lemma on_char_frame:
  fixes s :: "'a kshell_state_scheme"
  shows "kb_ok (kshell_on_char c s) = kb_ok s" "kb_contents (kshell_on_char c s) = kb_contents s" "kvars (kshell_on_char c s) = kvars s"
    "kmem (kshell_on_char c s) = kmem s" "writes_to pic_ports_set (kshell_on_char c s) = writes_to pic_ports_set s"
    "irq_counts (kshell_on_char c s) = irq_counts s" "ticks (kshell_on_char c s) = ticks s" "line_alive (kshell_on_char c s) = line_alive s"
  by (simp_all add: kshell_on_char_def Let_def printk_writes [OF ports_apart(3)])

lemma push_frame:
  fixes s :: "'a kshell_state_scheme"
  shows "shows_line (keyboard_buffer_push c s) l = shows_line s l" "kvars (keyboard_buffer_push c s) = kvars s"
    "kmem (keyboard_buffer_push c s) = kmem s" "writes_to pic_ports_set (keyboard_buffer_push c s) = writes_to pic_ports_set s"
    "irq_counts (keyboard_buffer_push c s) = irq_counts s" "ticks (keyboard_buffer_push c s) = ticks s"
    "line_alive (keyboard_buffer_push c s) = line_alive s"
  by (auto simp: keyboard_buffer_push_def Let_def shows_line_def kvars_def writes_to_def line_alive_def serial_ready_def)

text \<open>The keyboard interrupt.\<close>

definition next_scancode :: "'a dev_state_scheme \<Rightarrow> u8" where
  "next_scancode s = port_in s KEYBOARD_DATA (port_reads s KEYBOARD_DATA)"

lemma focus_dev [simp]:
  "user_has_input_focus (s\<lparr>port_reads := f\<rparr>) = user_has_input_focus s" "user_has_input_focus (s\<lparr>irq_counts := c\<rparr>) = user_has_input_focus s"
  "user_has_input_focus (s\<lparr>ticks := n\<rparr>) = user_has_input_focus s"
  by (simp_all add: user_has_input_focus_def user_process_find_by_task_id_def sched_current_task_id_def proc_at_def task_at_def
      cong: option.case_cong)

lemma keyboard_irq_effect:
  fixes s :: "'a kshell_state_scheme"
  assumes "line_alive s" "kb_ok s" "shows_line s l"
  defines "key \<equiv> keyboard_decode (next_scancode s)"
  shows "\<exists>t. keyboard_irq s = Some t \<and> kb_ok t \<and> irq_counts t = irq_counts s \<and> ticks t = ticks s \<and> kvars t = kvars s \<and> kmem t = kmem s \<and>
    writes_to pic_ports_set t = writes_to pic_ports_set s \<and>
    kb_contents t = kb_contents s @ (if key \<noteq> 0 \<and> user_has_input_focus s \<and> length (kb_contents s) < 31 then [key] else []) \<and>
    shows_line t (if key = 0 \<or> user_has_input_focus s then l else edit l key)"
proof -
  define u where "u = s\<lparr>port_reads := (port_reads s)(KEYBOARD_DATA := Suc (port_reads s KEYBOARD_DATA))\<rparr>"
  define v where "v = (if user_has_input_focus s then keyboard_buffer_push key u else kshell_on_char key u)"
  define strs where "strs = [c_bytes ''scancode='', hex_string (ucast (next_scancode s)), c_bytes '' key='', [key], [10]]"
  have run: "keyboard_irq s = (if key = 0 then Some u else serial_writes strs v)"
    by (simp add: keyboard_irq_def keyboard_read_def inb_def u_def v_def key_def strs_def next_scancode_def Let_def)
  have lu: "line_vars u = line_vars s" by (simp add: u_def)
  note U = line_varsD [OF lu]
  have cu: "irq_counts u = irq_counts s" "ticks u = ticks s" "line_alive u" using assms(1) by (simp_all add: u_def)
  show ?thesis
  proof (cases "key = 0")
    case True
    then show ?thesis using run U cu assms by simp
  next
    case False
    have v: "kb_ok v" "irq_counts v = irq_counts s" "ticks v = ticks s" "kvars v = kvars s" "kmem v = kmem s"
        "writes_to pic_ports_set v = writes_to pic_ports_set s" "line_alive v"
        "kb_contents v = kb_contents s @ (if user_has_input_focus s \<and> length (kb_contents s) < 31 then [key] else [])"
        "shows_line v (if user_has_input_focus s then l else edit l key)"
      using U cu assms False kb.invar_push [of u key] kb.push_contents [of u key] on_char_edits(1) [of u l key]
      by (auto simp: v_def on_char_frame push_frame)
    obtain f where f: "serial_writes strs v = Some (v\<lparr>io_log := io_log v @ map (Pair COM1) (crlf (concat strs)), port_reads := f\<rparr>)"
      (is "_ = Some ?t") using serial_writes_sends [OF v(7)] by blast
    have "line_vars ?t = line_vars v" by simp
    note T = line_varsD [OF this]
    show ?thesis using run f False v T by simp
  qed
qed

text \<open>
  C33: a hardware interrupt is counted, served and acknowledged.  On a serial line that becomes
  ready again and again the handler of each of the 16 lines returns; its counter goes up by one,
  the tick count by one for the timer; a key press goes to the keyboard queue when a user
  process has the focus and to the line editor of the shell otherwise, other scancodes to
  nobody; the interrupt controllers see one end-of-interrupt, on both for lines 8 to 15; and no
  process, task or kernel memory changes.
\<close>

theorem irq_handler_serves:
  fixes s :: "'a kshell_state_scheme"
  assumes "irq < 16" "line_alive s" "kb_ok s" "shows_line s l"
  shows "let key = (if irq = 1 then keyboard_decode (next_scancode s) else 0) in
    \<exists>t. irq_handler irq s = Some t \<and>
      irq_counts t = (irq_counts s)[unat irq := irq_counts s ! unat irq + 1] \<and>
      ticks t = (if irq = 0 then ticks s + 1 else ticks s) \<and>
      kb_contents t = kb_contents s @ (if key \<noteq> 0 \<and> user_has_input_focus s \<and> length (kb_contents s) < 31 then [key] else []) \<and>
      shows_line t (if key = 0 \<or> user_has_input_focus s then l else edit l key) \<and>
      writes_to pic_ports_set t = writes_to pic_ports_set s @ eoi irq \<and>
      kb_ok t \<and> kvars t = kvars s \<and> kmem t = kmem s"
proof -
  define a where "a = s\<lparr>irq_counts := (irq_counts s)[unat irq := irq_counts s ! unat irq + 1]\<rparr>"
  define b where "b = (if irq = 0 then timer_tick a else a)"
  have run: "irq_handler irq s = map_option (irq_ack irq) (if irq = 1 then keyboard_irq b else Some b)"
    using assms(1) by (simp add: irq_handler_def a_def b_def Let_def)
  have lb: "line_vars b = line_vars s" by (simp add: a_def b_def timer_tick_def)
  note B = line_varsD [OF lb]
  have f: "user_has_input_focus b = user_has_input_focus s" "next_scancode b = next_scancode s" "line_alive b = line_alive s"
      "irq_counts b = (irq_counts s)[unat irq := irq_counts s ! unat irq + 1]" "ticks b = (if irq = 0 then ticks s + 1 else ticks s)"
    by (simp_all add: a_def b_def timer_tick_def next_scancode_def line_alive_def serial_ready_def)
  have ack: "irq_counts (irq_ack irq t) = irq_counts t" "ticks (irq_ack irq t) = ticks t" "kb_contents (irq_ack irq t) = kb_contents t"
      "shows_line (irq_ack irq t) l' = shows_line t l'" "writes_to pic_ports_set (irq_ack irq t) = writes_to pic_ports_set t @ eoi irq"
      "kb_ok (irq_ack irq t) = kb_ok t" "kvars (irq_ack irq t) = kvars t" "kmem (irq_ack irq t) = kmem t" for t :: "'a kshell_state_scheme" and l'
  proof -
    have "(ucast irq :: u8) \<ge> 8 \<longleftrightarrow> \<not> irq < 8"
      using assms(1) by (simp add: word_le_nat_alt word_less_nat_alt unsigned_ucast_eq take_bit_eq_mod not_less)
    then show "irq_counts (irq_ack irq t) = irq_counts t" "ticks (irq_ack irq t) = ticks t" "kb_contents (irq_ack irq t) = kb_contents t"
      "shows_line (irq_ack irq t) l' = shows_line t l'" "writes_to pic_ports_set (irq_ack irq t) = writes_to pic_ports_set t @ eoi irq"
      "kb_ok (irq_ack irq t) = kb_ok t" "kvars (irq_ack irq t) = kvars t" "kmem (irq_ack irq t) = kmem t"
      by (auto simp: irq_ack_def pic_send_eoi_def outb_def eoi_def kb_contents_def kb_count_def kb_ok_def shows_line_def kvars_def
          writes_to_def pic_ports_set_def)
  qed
  show ?thesis
  proof (cases "irq = 1")
    case True
    obtain t where "keyboard_irq b = Some t" "kb_ok t" "irq_counts t = irq_counts b" "ticks t = ticks b" "kvars t = kvars b" "kmem t = kmem b"
      "writes_to pic_ports_set t = writes_to pic_ports_set b"
      "kb_contents t = kb_contents b @ (if keyboard_decode (next_scancode b) \<noteq> 0 \<and> user_has_input_focus b \<and> length (kb_contents b) < 31
         then [keyboard_decode (next_scancode b)] else [])"
      "shows_line t (if keyboard_decode (next_scancode b) = 0 \<or> user_has_input_focus b then l else edit l (keyboard_decode (next_scancode b)))"
      using keyboard_irq_effect [of b l] assms(2-4) f(3) B by auto
    note T = this [unfolded f(1,2)]
    show ?thesis using T True run ack f(4,5) B by (simp add: Let_def)
  next
    case False
    then show ?thesis using run ack f B assms by (simp add: Let_def)
  qed
qed

section \<open>Strings from user memory\<close>

definition user_string :: "'a vmm_state_scheme \<Rightarrow> ptr \<Rightarrow> u8 list \<Rightarrow> bool" where
  "user_string s p cs \<longleftrightarrow> 0 \<notin> set cs \<and> (\<forall>i < length cs. cpu_byte s (p + word_of_nat i) = Some (cs ! i)) \<and>
     cpu_byte s (p + word_of_nat (length cs)) = Some 0"

lemma user_string_Nil: "user_string s p [] \<longleftrightarrow> cpu_byte s p = Some 0"
  by (simp add: user_string_def)

lemma user_string_Cons: "user_string s p (c # cs) \<longleftrightarrow> c \<noteq> 0 \<and> cpu_byte s p = Some c \<and> user_string s (p + 1) cs"
  by (auto simp: user_string_def less_Suc_eq_0_disj add.assoc) 

lemma copy_loop_Some:
  "copy_string_loop i n p dst s = Some (Inr r) \<longleftrightarrow>
     (\<exists>cs. r = dst @ cs \<and> (i = 0 \<longrightarrow> cs \<noteq> []) \<and> unat i + length cs < unat n \<and> user_string s (p + i) cs)"
proof (induction i n p dst s arbitrary: r rule: copy_string_loop.induct)
  case (1 i n p dst s)
  show ?case
  proof (cases "i < n")
    case False
    then show ?thesis by (subst copy_string_loop.simps) (simp add: word_less_nat_alt)
  next
    case lt: True
    note ui = unat_inc [OF lt]
    show ?thesis
    proof (cases "cpu_byte s (p + i)")
      case None
      have "\<not> user_string s (p + i) cs" for cs using None by (cases cs) (simp_all add: user_string_Nil user_string_Cons)
      then show ?thesis using lt None by (subst copy_string_loop.simps) simp
    next
      case (Some c)
      show ?thesis
      proof (cases "c = 0")
        case True
        have "user_string s (p + i) cs \<longleftrightarrow> cs = []" for cs using Some True by (cases cs) (simp_all add: user_string_Nil user_string_Cons)
        then show ?thesis using lt Some True by (subst copy_string_loop.simps) (auto simp: word_less_nat_alt)
      next
        case False
        have us: "user_string s (p + i) cs \<longleftrightarrow> (\<exists>ds. cs = c # ds \<and> user_string s (p + (i + 1)) ds)" for cs
          using Some False by (cases cs) (auto simp: user_string_Nil user_string_Cons add.assoc)
        have nz: "i + 1 \<noteq> 0" using ui by (metis unat_0 nat.distinct(1) Suc_eq_plus1)
        have "copy_string_loop i n p dst s = copy_string_loop (i + 1) n p (dst @ [c]) s"
          using lt Some False by (subst copy_string_loop.simps) simp
        moreover have "copy_string_loop (i + 1) n p (dst @ [c]) s = Some (Inr r) \<longleftrightarrow>
            (\<exists>ds. r = (dst @ [c]) @ ds \<and> (i + 1 = 0 \<longrightarrow> ds \<noteq> []) \<and> unat (i + 1) + length ds < unat n \<and> user_string s (p + (i + 1)) ds)"
          by (rule 1 [OF lt Some False])
        ultimately show ?thesis unfolding us using ui nz by auto
      qed
    qed
  qed
qed

text \<open>A loop that does not return met an unreadable byte.\<close>

lemma copy_loop_None:
  "copy_string_loop i n p dst s = None \<longleftrightarrow>
     (\<exists>cs. unat i + length cs < unat n \<and> 0 \<notin> set cs \<and> (\<forall>k < length cs. cpu_byte s (p + i + word_of_nat k) = Some (cs ! k)) \<and>
        cpu_byte s (p + i + word_of_nat (length cs)) = None)"
    (is "_ \<longleftrightarrow> (\<exists>cs. ?Q i cs)")
proof (induction i n p dst s rule: copy_string_loop.induct)
  case (1 i n p dst s)
  let ?Q = "\<lambda>i cs. unat i + length cs < unat n \<and> 0 \<notin> set cs \<and> (\<forall>k < length cs. cpu_byte s (p + i + word_of_nat k) = Some (cs ! k)) \<and>
        cpu_byte s (p + i + word_of_nat (length cs)) = None"
  have Q: "?Q i [] \<longleftrightarrow> i < n \<and> cpu_byte s (p + i) = None" by (simp add: word_less_nat_alt)
  show ?case
  proof (cases "i < n")
    case False
    then show ?thesis by (subst copy_string_loop.simps) (simp add: word_less_nat_alt)
  next
    case lt: True
    note ui = unat_inc [OF lt]
    have QC: "?Q i (c # cs) \<longleftrightarrow> c \<noteq> 0 \<and> cpu_byte s (p + i) = Some c \<and> ?Q (i + 1) cs" for c cs
      using ui by (auto simp: less_Suc_eq_0_disj add.assoc)
    show ?thesis
    proof (cases "cpu_byte s (p + i)")
      case None
      then have "?Q i []" using lt Q by blast
      then have "\<exists>cs. ?Q i cs" ..
      then show ?thesis using lt None by (subst copy_string_loop.simps) simp
    next
      case (Some c)
      have split: "(\<exists>cs. ?Q i cs) \<longleftrightarrow> c \<noteq> 0 \<and> (\<exists>cs. ?Q (i + 1) cs)"
      proof
        assume "\<exists>cs. ?Q i cs"
        then obtain cs where q: "?Q i cs" by blast
        then show "c \<noteq> 0 \<and> (\<exists>cs. ?Q (i + 1) cs)" using Some Q QC by (cases cs) auto
      next
        assume "c \<noteq> 0 \<and> (\<exists>cs. ?Q (i + 1) cs)"
        then show "\<exists>cs. ?Q i cs" using QC Some by blast
      qed
      show ?thesis
        unfolding split using lt Some 1 [OF lt Some] by (subst copy_string_loop.simps) auto
    qed
  qed
qed

lemma copy_loop_Inl: "copy_string_loop i n p dst s = Some (Inl e) \<Longrightarrow> e = - 1"
proof (induction i n p dst s rule: copy_string_loop.induct)
  case (1 i n p dst s)
  have eq: "copy_string_loop i n p dst s = (if i < n then (case cpu_byte s (p + i) of None \<Rightarrow> None | Some c \<Rightarrow>
      if c = 0 then (if i = 0 then Some (Inl (- 1)) else Some (Inr dst)) else copy_string_loop (i + 1) n p (dst @ [c]) s) else Some (Inl (- 1)))"
    by (rule copy_string_loop.simps)
  consider "\<not> i < n" | "i < n" "cpu_byte s (p + i) = None" | "i < n" "cpu_byte s (p + i) = Some 0" |
      c where "i < n" "cpu_byte s (p + i) = Some c" "c \<noteq> 0" by fastforce
  then show ?case
  proof cases
    case 4
    have "copy_string_loop (i + 1) n p (dst @ [c]) s = Some (Inl e)" using 1(2) 4 unfolding eq by simp
    then show ?thesis by (rule 1(1) [OF 4])
  qed (use 1(2) in \<open>simp_all add: eq split: if_splits\<close>)
qed

text \<open>
  C35: \<open>copy_string_from_user\<close> takes a string from user memory exactly when there is one: it
  returns the characters before the NUL when the pointer is not null, every byte up to the NUL
  is mapped and there are between 1 and \<open>max_len - 1\<close> characters; it faults exactly when it
  meets an unmapped byte before a NUL and before the limit; otherwise it is the error.
\<close>

theorem copy_string_from_user_exact:
  "(copy_string_from_user p n s = Some (Inr cs) \<longleftrightarrow> p \<noteq> 0 \<and> 0 < length cs \<and> length cs < unat n \<and> user_string s p cs) \<and>
   (copy_string_from_user p n s = None \<longleftrightarrow>
     p \<noteq> 0 \<and> (\<exists>bs. length bs < unat n \<and> 0 \<notin> set bs \<and> map (\<lambda>k. cpu_byte s (p + word_of_nat k)) [0..<length bs] = map Some bs \<and>
       cpu_byte s (p + word_of_nat (length bs)) = None)) \<and>
   (\<forall>e. copy_string_from_user p n s = Some (Inl e) \<longrightarrow> e = - 1)"
proof (intro conjI)
  have m: "map f [0..<length bs] = map Some bs \<longleftrightarrow> (\<forall>k < length bs. f k = Some (bs ! k))" for f and bs :: "u8 list"
  proof -
    have "map Some bs = map (\<lambda>k. Some (bs ! k)) [0..<length bs]" 
      using arg_cong [OF map_nth, of "map Some" bs] by (simp only: list.map_comp o_def)
    then have "map f [0..<length bs] = map Some bs \<longleftrightarrow> (\<forall>k \<in> {0..<length bs}. f k = Some (bs ! k))" by (simp only: map_eq_conv set_upt)
    then show ?thesis by (simp only: Ball_def atLeastLessThan_iff zero_le simp_thms)
  qed
  show "copy_string_from_user p n s = Some (Inr cs) \<longleftrightarrow> p \<noteq> 0 \<and> 0 < length cs \<and> length cs < unat n \<and> user_string s p cs"
    unfolding copy_string_from_user_def by (cases "p = 0 \<or> n = 0") (auto simp: copy_loop_Some)
  show "copy_string_from_user p n s = None \<longleftrightarrow>
     p \<noteq> 0 \<and> (\<exists>bs. length bs < unat n \<and> 0 \<notin> set bs \<and> map (\<lambda>k. cpu_byte s (p + word_of_nat k)) [0..<length bs] = map Some bs \<and>
       cpu_byte s (p + word_of_nat (length bs)) = None)"
    unfolding copy_string_from_user_def m by (cases "p = 0 \<or> n = 0") (auto simp: copy_loop_None)
  show "\<forall>e. copy_string_from_user p n s = Some (Inl e) \<longrightarrow> e = - 1" 
    using copy_loop_Inl [of 0 n p "[]" s] by (simp add: copy_string_from_user_def)
qed

section \<open>Concrete traps\<close>

definition page_fault_frame :: ex_frame where
  "page_fault_frame = \<lparr>f_vector = 14, f_error_code = 6, f_eip = 0x400010, f_cs = 0x1B, f_eflags = 0x202, f_user_esp = 0x800000, f_user_ss = 0x23\<rparr>"

theorem exception_report_sent_witness:
  "\<exists>t. i386_ex_handler page_fault_frame (small_dev boot0) = Some (Halts t) \<and> \<not> interrupts_on t \<and>
     sent t = sent (small_dev boot0) @ crlf (report_text page_fault_frame (cr2 (small_dev boot0))) \<and>
     report_name page_fault_frame = ''#PF page fault'' \<and>
     report_fields page_fault_frame 0x1234 = [(''CS'', 0x1B), (''USER_ESP'', 0x800000), (''USER_SS'', 0x23), (''CR2'', 0x1234),
       (''PF_PRESENT'', 0), (''PF_WRITE'', 1), (''PF_USER'', 1), (''PF_RSVD'', 0), (''PF_ID'', 0)]"
proof -
  have "report_name page_fault_frame = ''#PF page fault''"
    by (simp add: report_name_def page_fault_frame_def exception_names_def word_less_nat_alt)
  moreover have "report_fields page_fault_frame 0x1234 = [(''CS'', 0x1B), (''USER_ESP'', 0x800000), (''USER_SS'', 0x23), (''CR2'', 0x1234),
       (''PF_PRESENT'', 0), (''PF_WRITE'', 1), (''PF_USER'', 1), (''PF_RSVD'', 0), (''PF_ID'', 0)]"
    by (simp add: report_fields_def page_fault_frame_def bit_numeral_rec)
  ultimately show ?thesis using exception_report_sent [OF small_dev_alive, of page_fault_frame boot0] by simp
qed

text \<open>Key \<open>a\<close> is pressed in userland.\<close>

definition key_press :: kshell_state where
  "key_press = (small_kshell family)\<lparr>port_in := (\<lambda>p n. if p = KEYBOARD_DATA then 0x1E else 0xFF), userland_active := 1\<rparr>"

lemma key_press_facts: "line_alive key_press" "kb_ok key_press" "shows_line key_press []" "kb_contents key_press = []"
    "user_has_input_focus key_press" "next_scancode key_press = 0x1E"
proof -
  show "line_alive key_press" by (auto simp: line_alive_def serial_ready_def key_press_def KEYBOARD_DATA_def COM1_def bit_numeral_rec)
  show "kb_ok key_press" "kb_contents key_press = []"
    by (simp_all add: kb_ok_def kb_contents_def kb_count_def key_press_def small_kshell_def user_state.defs family_def small_user_def
      sched_state.defs small_sched_def dev_state.defs small_dev_def desc_state.defs small_desc_def boot_state.defs boot0_def heap_state.defs
      vmm_state.defs small_vm_def)
  show "shows_line key_press []" by (simp add: shows_line_def key_press_def small_kshell_def user_state.defs)
  show "next_scancode key_press = 0x1E" by (simp add: next_scancode_def key_press_def)
  show "user_has_input_focus key_press" by (simp add: user_has_input_focus_def key_press_def)
qed

theorem irq_handler_serves_witness:
  "\<exists>t. irq_handler 1 key_press = Some t \<and> kb_contents t = [97] \<and> shows_line t [] \<and>
     writes_to pic_ports_set t = writes_to pic_ports_set key_press @ [(PIC1_COMMAND, PIC_EOI)]"
proof -
  have "keyboard_decode 0x1E = 97" by (simp add: keyboard_decode_def keymap_def)
  then show ?thesis
    using irq_handler_serves [of 1 key_press "[]"] key_press_facts by (auto simp: Let_def eoi_def word_less_nat_alt)
qed

text \<open>A page of user memory with a string: the directory at frame 1, a table at frame 2, the page at frame 3.\<close>

definition string_page :: user_state where
  "string_page = family\<lparr>cr3 := 0x1000, kmem := (\<lambda>_. 0)(0xC0001004 := 0x07, 0xC0001005 := 0x20, 0xC0002000 := 0x05, 0xC0002001 := 0x30,
     0xC0003000 := 104, 0xC0003001 := 105)\<rparr>"

theorem copy_string_from_user_exact_witness:
  "copy_string_from_user 0x400000 32 string_page = Some (Inr [104, 105])"
proof -
  have "cpu_byte string_page 0x400000 = Some 104" "cpu_byte string_page 0x400001 = Some 105" "cpu_byte string_page 0x400002 = Some 0"
    by (simp_all add: cpu_byte_def cpu_translate_def string_page_def arr_def Let_def ld32_def tbl_def vmm_phys_to_virt_def
      VMM_DIRECT_MAP_LIMIT_def VMM_KERNEL_VIRTUAL_BASE_def word_le_nat_alt)
  then have "user_string string_page 0x400000 [104, 105]" by (simp add: user_string_Cons user_string_Nil)
  then show ?thesis using copy_string_from_user_exact [of "0x400000" 32 string_page "[104, 105]"] by simp
qed

end
