(* ===== verification/Userland.thy ===== *)
theory Userland
  imports Syscall
begin

text \<open>
  The programs (\<open>user/user.h\<close>, \<open>user/crt0.S\<close>, \<open>user/shell.c\<close>, \<open>user/init.c\<close>, \<open>user/hello.c\<close>).  A
  program runs on the machine state of the kernel: it enters the kernel by \<open>int 0x80\<close> with a register
  frame, and its own loads and stores go through the loaded page tables with the rights of ring 3.
  \<open>None\<close> is a fault or a call that does not come back.  String literals and local arrays live at
  addresses the compiler chose, arguments of the model.
\<close>

section \<open>The machine below a program\<close>

text \<open>
  What a program cannot see: the linker symbols of the kernel, the other tasks while it waits, the
  interrupts that are served while it runs, the registers a call does not use.
\<close>

record 's user_env =
  ue_lk :: linker_symbols
  ue_others :: "'s \<Rightarrow> 's option"
  ue_irq :: "'s \<Rightarrow> 's"
  ue_regs :: syscall_frame

definition user_translate :: "bool \<Rightarrow> 'a vmm_state_scheme \<Rightarrow> u32 \<Rightarrow> u32 option" where
  "user_translate w s v =
     (let need = (if w then 7 else 5);
          e = arr s (vmm_phys_to_virt (cr3 s)) (drop_bit 22 v) in
      if e AND need \<noteq> need then None
      else
        let p = arr s (vmm_phys_to_virt (e AND 0xfffff000)) (drop_bit 12 v AND 0x3ff)
        in if p AND need \<noteq> need then None else Some ((p AND 0xfffff000) OR (v AND 0xfff)))"

definition user_load :: "u32 \<Rightarrow> 'a vmm_state_scheme \<Rightarrow> u8 option" where
  "user_load v s = Option.bind (user_translate False s v) (\<lambda>p.
     if vmm_phys_to_virt p = 0 then None else Some (kmem s (vmm_phys_to_virt p)))"

definition user_store :: "u32 \<Rightarrow> u8 \<Rightarrow> 'a vmm_state_scheme \<Rightarrow> 'a vmm_state_scheme option" where
  "user_store v b s = Option.bind (user_translate True s v) (\<lambda>p.
     if vmm_phys_to_virt p = 0 then None else Some (s\<lparr>kmem := (kmem s)(vmm_phys_to_virt p := b)\<rparr>))"

text \<open>The trap gate, \<open>syscall_stub\<close> and the return to the program with the value in \<open>eax\<close>.\<close>

definition syscall_stub ::
    "'a user_state_scheme user_env \<Rightarrow> syscall_frame \<Rightarrow> 'a user_state_scheme \<Rightarrow> (u32 \<times> 'a user_state_scheme) option" where
  "syscall_stub env frm s =
     Option.bind (syscall_dispatch (ue_lk env) (ue_others env) frm s) (\<lambda>r.
       case r of Ret v s \<Rightarrow> Some (v, s) | Gone _ \<Rightarrow> None)"

section \<open>System call wrappers\<close>

definition USER_SYS_WRITE :: u32 where "USER_SYS_WRITE = 1"
definition USER_SYS_YIELD :: u32 where "USER_SYS_YIELD = 3"
definition USER_SYS_GETC :: u32 where "USER_SYS_GETC = 4"
definition USER_SYS_SPAWN :: u32 where "USER_SYS_SPAWN = 5"
definition USER_SYS_WAIT :: u32 where "USER_SYS_WAIT = 6"
definition USER_SYS_FD_STDOUT :: u32 where "USER_SYS_FD_STDOUT = 1"
definition CRT_SYS_EXIT :: u32 where "CRT_SYS_EXIT = 2"

lemmas user_sys_consts = USER_SYS_WRITE_def USER_SYS_YIELD_def USER_SYS_GETC_def USER_SYS_SPAWN_def USER_SYS_WAIT_def
  USER_SYS_FD_STDOUT_def CRT_SYS_EXIT_def

definition int_result :: "(u32 \<times> 's) option \<Rightarrow> (int \<times> 's) option" where
  "int_result r = map_option (\<lambda>(v, s). (sint v, s)) r"

definition user_write ::
    "'a user_state_scheme user_env \<Rightarrow> u32 \<Rightarrow> ptr \<Rightarrow> u32 \<Rightarrow> 'a user_state_scheme \<Rightarrow> (int \<times> 'a user_state_scheme) option" where
  "user_write env fd buf len s = int_result (syscall_stub env
     ((ue_regs env)\<lparr>sf_eax := USER_SYS_WRITE, sf_ebx := fd, sf_ecx := buf, sf_edx := len\<rparr>) s)"

definition yield :: "'a user_state_scheme user_env \<Rightarrow> 'a user_state_scheme \<Rightarrow> (int \<times> 'a user_state_scheme) option" where
  "yield env s = int_result (syscall_stub env ((ue_regs env)\<lparr>sf_eax := USER_SYS_YIELD\<rparr>) s)"

definition getchar :: "'a user_state_scheme user_env \<Rightarrow> 'a user_state_scheme \<Rightarrow> (int \<times> 'a user_state_scheme) option" where
  "getchar env s = int_result (syscall_stub env ((ue_regs env)\<lparr>sf_eax := USER_SYS_GETC\<rparr>) s)"

definition spawn ::
    "'a user_state_scheme user_env \<Rightarrow> ptr \<Rightarrow> 'a user_state_scheme \<Rightarrow> (int \<times> 'a user_state_scheme) option" where
  "spawn env path s = int_result (syscall_stub env ((ue_regs env)\<lparr>sf_eax := USER_SYS_SPAWN, sf_ebx := path\<rparr>) s)"

definition wait ::
    "'a user_state_scheme user_env \<Rightarrow> int \<Rightarrow> 'a user_state_scheme \<Rightarrow> (int \<times> 'a user_state_scheme) option" where
  "wait env pid s = int_result (syscall_stub env ((ue_regs env)\<lparr>sf_eax := USER_SYS_WAIT, sf_ebx := word_of_int pid\<rparr>) s)"

section \<open>Start and end of a program\<close>

text \<open>
  \<open>_start\<close>: the value \<open>main\<close> returns is the exit status; if the exit came back the program would
  spin for ever.
\<close>

definition user_start ::
    "'a user_state_scheme user_env \<Rightarrow> ('a user_state_scheme \<Rightarrow> (int \<times> 'a user_state_scheme) option) \<Rightarrow>
     'a user_state_scheme \<Rightarrow> 'a user_state_scheme progress option" where
  "user_start env main s =
     Option.bind (main s) (\<lambda>(status, s).
       Option.bind (syscall_dispatch (ue_lk env) (ue_others env)
           ((ue_regs env)\<lparr>sf_eax := CRT_SYS_EXIT, sf_ebx := word_of_int status, sf_ecx := 0, sf_edx := 0\<rparr>) s) (\<lambda>r.
         case r of Gone p \<Rightarrow> Some p | Ret _ _ \<Rightarrow> None))"

section \<open>hello and init\<close>

definition hello_main ::
    "'a user_state_scheme user_env \<Rightarrow> ptr \<Rightarrow> 'a user_state_scheme \<Rightarrow> (int \<times> 'a user_state_scheme) option" where
  "hello_main env text s = Option.bind (user_write env USER_SYS_FD_STDOUT text 13 s) (\<lambda>(_, s). Some (0, s))"

definition init_main ::
    "'a user_state_scheme user_env \<Rightarrow> ptr \<Rightarrow> 'a user_state_scheme \<Rightarrow> (int \<times> 'a user_state_scheme) option" where
  "init_main env path s =
     Option.bind (spawn env path s) (\<lambda>(pid, s).
       if pid < 0 then Some (1, s)
       else Option.bind (wait env pid s) (\<lambda>(status, s).
         if status < 0 then Some (1, s) else Some (status, s)))"

section \<open>The shell\<close>

definition INPUT_SIZE :: u32 where "INPUT_SIZE = 32"

record shell_image =
  sh_prompt :: ptr
  sh_erase :: ptr
  sh_newline :: ptr
  sh_run_error :: ptr
  sh_wait_error :: ptr
  sh_input :: ptr

text \<open>\<open>input[0] == 'q' && input[1] == 'u' && \<dots>\<close>, each byte read only when the ones before agree.\<close>

fun reads_as :: "ptr \<Rightarrow> u8 list \<Rightarrow> 'a vmm_state_scheme \<Rightarrow> bool option" where
  "reads_as p [] s = Some True"
| "reads_as p (c # cs) s = Option.bind (user_load p s) (\<lambda>b. if b = c then reads_as (p + 1) cs s else Some False)"

text \<open>A round of the loop goes on with a new length, or \<open>main\<close> returns.\<close>

datatype 's shell_next = Continue u32 's | Leave 's

definition shell_prompt ::
    "'a user_state_scheme user_env \<Rightarrow> shell_image \<Rightarrow> 'a user_state_scheme \<Rightarrow> 'a user_state_scheme shell_next option" where
  "shell_prompt env im s = Option.bind (user_write env USER_SYS_FD_STDOUT (sh_prompt im) 6 s) (\<lambda>(_, s). Some (Continue 0 s))"

text \<open>What follows the return of \<open>spawn\<close>.\<close>

definition shell_spawned ::
    "'a user_state_scheme user_env \<Rightarrow> shell_image \<Rightarrow> int \<times> 'a user_state_scheme \<Rightarrow> 'a user_state_scheme shell_next option" where
  "shell_spawned env im r =
     (case r of (pid, s) \<Rightarrow>
       if pid < 0 then
         Option.bind (user_write env USER_SYS_FD_STDOUT (sh_run_error im) 29 s) (\<lambda>(_, s). shell_prompt env im s)
       else Option.bind (wait env pid s) (\<lambda>(status, s).
         if status < 0 then
           Option.bind (user_write env USER_SYS_FD_STDOUT (sh_wait_error im) 34 s) (\<lambda>(_, s). shell_prompt env im s)
         else shell_prompt env im s))"

definition shell_enter ::
    "'a user_state_scheme user_env \<Rightarrow> shell_image \<Rightarrow> u32 \<Rightarrow> 'a user_state_scheme \<Rightarrow> 'a user_state_scheme shell_next option" where
  "shell_enter env im len s =
     Option.bind (user_write env USER_SYS_FD_STDOUT (sh_newline im) 1 s) (\<lambda>(_, s).
     Option.bind (user_store (sh_input im + len) 0 s) (\<lambda>s.
     Option.bind (if len = 4 then reads_as (sh_input im) (map of_char ''quit'') s else Some False) (\<lambda>quit.
       if quit then Some (Leave s)
       else if len > 0 then Option.bind (spawn env (sh_input im) s) (shell_spawned env im)
       else shell_prompt env im s)))"

definition shell_round ::
    "'a user_state_scheme user_env \<Rightarrow> shell_image \<Rightarrow> u32 \<Rightarrow> 'a user_state_scheme \<Rightarrow> 'a user_state_scheme shell_next option" where
  "shell_round env im len s =
     Option.bind (getchar env s) (\<lambda>(c, s).
       if c = 0 then Option.bind (yield env s) (\<lambda>(_, s). Some (Continue len s))
       else if c = 8 then
         (if len > 0 then
            Option.bind (user_write env USER_SYS_FD_STDOUT (sh_erase im) 1 s) (\<lambda>(_, s). Some (Continue (len - 1) s))
          else Some (Continue len s))
       else if c = 10 then shell_enter env im len s
       else if c < 32 \<or> c > 126 \<or> len = INPUT_SIZE - 1 then Some (Continue len s)
       else
         Option.bind (user_store (sh_input im + len) (word_of_int c) s) (\<lambda>s.
         Option.bind (user_write env USER_SYS_FD_STDOUT (sh_input im + len) 1 s) (\<lambda>(_, s).
           Some (Continue (len + 1) s))))"

partial_function (option) shell_loop ::
    "'a user_state_scheme user_env \<Rightarrow> shell_image \<Rightarrow> u32 \<Rightarrow> 'a user_state_scheme \<Rightarrow> (int \<times> 'a user_state_scheme) option" where
  "shell_loop env im len s =
     Option.bind (shell_round env im len (ue_irq env s)) (\<lambda>r.
       case r of Continue len s \<Rightarrow> shell_loop env im len s | Leave s \<Rightarrow> Some (0, s))"

definition shell_main ::
    "'a user_state_scheme user_env \<Rightarrow> shell_image \<Rightarrow> 'a user_state_scheme \<Rightarrow> (int \<times> 'a user_state_scheme) option" where
  "shell_main env im s =
     Option.bind (user_write env USER_SYS_FD_STDOUT (sh_prompt im) 6 s) (\<lambda>(_, s). shell_loop env im 0 s)"

end
