(* ===== verification/VmmData.thy ===== *)
theory VmmData
  imports VmmProps
begin

text \<open>
  Data pages beside the page tables: frames that belong to no table and are not free.  Their
  bytes are \<open>stable\<close>: allocation, mapping and unmapping in any address space leave them alone.
\<close>

section \<open>Data pages and stable bytes\<close>

definition data_ok :: "'a vmm_state_scheme \<Rightarrow> u32 set \<Rightarrow> u32 \<Rightarrow> bool" where
  "data_ok s A p \<longleftrightarrow> table_ok s p \<and> (\<forall>b \<in> insert (kernel_page_directory s) A. p \<notin> pt_pages s b)"

text \<open>The frames the memory manager may write: the free ones and the tables.\<close>

definition managed :: "'a vmm_state_scheme \<Rightarrow> u32 set \<Rightarrow> u32 set" where
  "managed s A = {q. page_aligned q \<and> vmm_phys_to_virt q \<noteq> 0 \<and>
     (frame q \<in> free_pages s \<or> (\<exists>b \<in> insert (kernel_page_directory s) A. q \<in> pt_pages s b))}"

definition stable :: "'a vmm_state_scheme \<Rightarrow> u32 set \<Rightarrow> ptr \<Rightarrow> bool" where
  "stable s A x \<longleftrightarrow> \<not> in_bitmap s x \<and> frame x \<notin> frame ` vmm_phys_to_virt ` managed s A"

lemma virt_frame_inj:
  assumes "page_aligned p" "page_aligned q" "vmm_phys_to_virt p \<noteq> 0" "vmm_phys_to_virt q \<noteq> 0"
    and "frame (vmm_phys_to_virt p) = frame (vmm_phys_to_virt q)"
  shows "p = q"
  using assms page_aligned_eq page_aligned_virt virt_inj by metis

lemma data_not_managed: "data_ok s A p \<Longrightarrow> p \<notin> managed s A"
  by (auto simp: data_ok_def managed_def dest: table_okD)

lemma data_stable:
  assumes "data_ok s A p" "frame x = frame (vmm_phys_to_virt p)"
  shows "stable s A x"
proof -
  have p: "table_ok s p" using assms(1) by (simp add: data_ok_def)
  have "frame x \<noteq> frame (vmm_phys_to_virt q)" if "q \<in> managed s A" for q
    using that virt_frame_inj [of p q] table_okD(1,2) [OF p] data_not_managed [OF assms(1)] assms(2) by (auto simp: managed_def)
  then show ?thesis using table_okD(6) [OF p] assms(2) by (auto simp: stable_def page_clear_def)
qed

lemma data_apart:
  assumes "data_ok s A p" "data_ok s A q" "p \<noteq> q"
  shows "frame p \<noteq> frame q" "frame (vmm_phys_to_virt p) \<noteq> frame (vmm_phys_to_virt q)"
  using assms virt_page_neq(2) page_aligned_eq table_okD(1) unfolding data_ok_def by blast+

text \<open>A step that manages no more frames and writes only managed ones keeps stable bytes.\<close>

lemma stable_kept:
  assumes "managed t A \<subseteq> managed s A" "in_bitmap t = in_bitmap s" "stable s A x"
  shows "stable t A x"
  using assms by (auto simp: stable_def)

lemma spaces_cong:
  assumes "spaces_ok s A" "mem_ok t" "kernel_page_directory t = kernel_page_directory s"
    and "\<And>b. b \<in> insert (kernel_page_directory s) A \<Longrightarrow> as_ok t b"
    and "\<And>b i. b \<in> insert (kernel_page_directory s) A \<Longrightarrow> i < 1024 \<Longrightarrow> pd_entry t b i = pd_entry s b i"
  shows "spaces_ok t A"
proof -
  have pp: "pt_pages t b = pt_pages s b" if "b \<in> insert (kernel_page_directory s) A" for b
    by (rule pt_pages_cong) (rule assms(5) [OF that])
  have "separate t a b" if "a \<in> A" "b \<in> insert (kernel_page_directory s) A" "a \<noteq> b" for a b
    using spaces_okD(6) [OF assms(1) that] pp [OF that(2)] assms(5) [of a] that(1)
    by (simp add: separate_def kernel_index)
  then show ?thesis using assms(1-4) by (simp add: spaces_ok_def)
qed

text \<open>The directories in \<open>B\<close> keep their kernel half, and all but those in \<open>E\<close> keep the other half.\<close>

definition same_dirs :: "u32 set \<Rightarrow> u32 set \<Rightarrow> 'a pmm_state_scheme \<Rightarrow> 'a pmm_state_scheme \<Rightarrow> bool" where
  "same_dirs B E s t \<longleftrightarrow> (\<forall>b \<in> B. \<forall>i < 1024. b \<notin> E \<or> KERNEL_PDE_INDEX \<le> i \<longrightarrow> pd_entry t b i = pd_entry s b i)"

lemma same_dirsD: "same_dirs B E s t \<Longrightarrow> b \<in> B \<Longrightarrow> i < 1024 \<Longrightarrow> b \<notin> E \<or> KERNEL_PDE_INDEX \<le> i \<Longrightarrow> pd_entry t b i = pd_entry s b i"
  unfolding same_dirs_def by blast

lemma same_dirsI: "(\<And>b i. b \<in> B \<Longrightarrow> i < 1024 \<Longrightarrow> pd_entry t b i = pd_entry s b i) \<Longrightarrow> same_dirs B E s t"
  unfolding same_dirs_def by blast

lemma same_dirs_refl [simp]: "same_dirs B E s s"
  by (simp add: same_dirs_def)

lemma same_dirs_mono: "same_dirs B E s t \<Longrightarrow> B' \<subseteq> B \<Longrightarrow> E \<subseteq> E' \<Longrightarrow> same_dirs B' E' s t"
  unfolding same_dirs_def by fast

lemma same_dirs_trans: "same_dirs B E s t \<Longrightarrow> same_dirs B E t u \<Longrightarrow> same_dirs B E s u"
  unfolding same_dirs_def by simp

text \<open>States that differ only outside memory and its management.\<close>

definition vm_same :: "'a vmm_state_scheme \<Rightarrow> 'b vmm_state_scheme \<Rightarrow> bool" where
  "vm_same s t \<longleftrightarrow> pmm_same s t \<and> kernel_page_directory t = kernel_page_directory s"

lemma vm_same_parts:
  assumes "vm_same s t"
  shows "spaces_ok t A = spaces_ok s A" "managed t A = managed s A" "stable t A x = stable s A x" "data_ok t A p = data_ok s A p"
    "pte t = pte s" "pd_entry t = pd_entry s" "free_pages t = free_pages s" "kmem t = kmem s" "pt_pages t = pt_pages s"
    "user_tables t = user_tables s" "in_bitmap t = in_bitmap s" "table_ok t = table_ok s"
proof -
  have P: "pmm_same s t" and k: "kernel_page_directory t = kernel_page_directory s" using assms by (simp_all add: vm_same_def)
  note E = pmm_same_parts [OF P]
  show "spaces_ok t A = spaces_ok s A" by (simp add: spaces_ok_def separate_def E k)
  show m: "managed t A = managed s A" by (simp add: managed_def E k)
  show "stable t A x = stable s A x" by (simp add: stable_def m E)
  show "data_ok t A p = data_ok s A p" by (simp add: data_ok_def E k)
  show "user_tables t = user_tables s" by (intro ext) (simp add: user_tables_def E)
  show "kmem t = kmem s" using P by (simp add: pmm_same_def)
qed (use assms in \<open>simp_all add: vm_same_def pmm_same_parts\<close>)

text \<open>Writes to stable bytes, such as those of a program to its own pages, change no table.\<close>

lemma stable_write:
  fixes s :: "'a vmm_state_scheme"
  assumes sp: "spaces_ok s A" and m: "\<And>x. \<not> stable s A x \<Longrightarrow> m x = kmem s x"
  defines "t \<equiv> s\<lparr>kmem := m\<rparr>"
  shows "spaces_ok t A" "free_pages t = free_pages s" "managed t A = managed s A" "in_bitmap t = in_bitmap s"
    and "b \<in> insert (kernel_page_directory s) A \<Longrightarrow> pte t b w = pte s b w" "data_ok t A q = data_ok s A q"
    and "b \<in> insert (kernel_page_directory s) A \<Longrightarrow> i < 1024 \<Longrightarrow> pd_entry t b i = pd_entry s b i"
    and "stable t A x = stable s A x"
proof -
  let ?B = "insert (kernel_page_directory s) A"
  note D = spaces_okD [OF sp]
  have k: "kernel_page_directory t = kernel_page_directory s" by (simp add: t_def)
  have mf: "mem_frame s t" unfolding mem_frame_def using m by (auto simp: t_def stable_def)
  note F = mem_frame_fields [OF mf]
  show fp: "free_pages t = free_pages s" and ib: "in_bitmap t = in_bitmap s" using F by simp_all
  have keep: "same_page s t (vmm_phys_to_virt q)" if "b \<in> ?B" "q \<in> pt_pages s b" for b q
  proof -
    have "q \<in> managed s A" using table_okD(1,2) [OF pt_pages_ok [OF D(5) [OF that(1)] that(2)]] that by (auto simp: managed_def)
    then have "\<not> stable s A x" if "frame x = frame (vmm_phys_to_virt q)" for x using that by (auto simp: stable_def)
    then show ?thesis using m by (auto simp: same_page_def t_def)
  qed
  show pd: "pd_entry t b i = pd_entry s b i" if "b \<in> ?B" "i < 1024" for b i
    by (rule pages_kept(1) [OF D(5) [OF that(1)] keep [OF that(1)] that(2)])
  show "pte t b w = pte s b w" if "b \<in> ?B" by (rule pages_kept(2) [OF D(5) [OF that] keep [OF that]])
  have ok: "as_ok t b" if "b \<in> ?B" for b
    by (rule as_ok_kept(1) [OF D(5) [OF that] keep [OF that] equalityD1 [OF fp] ib F(1)])
  have mem: "mem_ok t" using F(5) D(1) by blast
  show "spaces_ok t A" by (rule spaces_cong [OF sp mem k ok pd])
  have pt: "pt_pages t b = pt_pages s b" if "b \<in> ?B" for b by (rule pt_pages_cong) (rule pd [OF that])
  then have "(\<exists>b \<in> ?B. q \<in> pt_pages t b) \<longleftrightarrow> (\<exists>b \<in> ?B. q \<in> pt_pages s b)" for q by blast
  then show mg: "managed t A = managed s A" unfolding managed_def k fp by blast
  show "data_ok t A q = data_ok s A q" unfolding data_ok_def k F(6) using pt by auto
  show "stable t A x = stable s A x" by (simp add: stable_def mg ib)
qed

section \<open>Taking a page\<close>

lemma data_page_fresh:
  fixes s :: "'a vmm_state_scheme"
  assumes sp: "spaces_ok s A" and al: "pmm_alloc_page s = (p, u)" "p \<noteq> 0" "vmm_phys_to_virt p \<noteq> 0"
    and m: "\<And>x. frame x \<noteq> frame (vmm_phys_to_virt p) \<Longrightarrow> m x = kmem u x"
  defines "t \<equiv> u\<lparr>kmem := m\<rparr>"
  shows "spaces_ok t A" "data_ok t A p" "frame p \<in> free_pages s" "free_pages t = free_pages s - {frame p}"
    and "managed t A = managed s A - {p}" "in_bitmap t = in_bitmap s"
    and "stable s A x \<Longrightarrow> m x = kmem s x" "b \<in> insert (kernel_page_directory s) A \<Longrightarrow> pte t b w = pte s b w"
    and "b \<in> insert (kernel_page_directory s) A \<Longrightarrow> i < 1024 \<Longrightarrow> pd_entry t b i = pd_entry s b i"
    and "kernel_page_directory t = kernel_page_directory s" "data_ok s A q \<Longrightarrow> data_ok t A q"
proof -
  let ?B = "insert (kernel_page_directory s) A"
  note D = spaces_okD [OF sp] and L = alloc_page_spec [OF spaces_okD(1) [OF sp] al(1,2)]
  have pu: "table_ok u p" using L(7) al(3) by blast
  have k: "kernel_page_directory t = kernel_page_directory s" using kernel_dir_alloc [OF al(1)] by (simp add: t_def)
  then show "kernel_page_directory t = kernel_page_directory s" .
  have mf: "mem_frame u t"
    unfolding mem_frame_def using m table_okD(6) [OF pu] by (auto simp: t_def page_clear_def)
  note F = mem_frame_fields [OF mf]
  show fp: "free_pages t = free_pages s - {frame p}" "frame p \<in> free_pages s" using F L by simp_all
  show ib: "in_bitmap t = in_bitmap s" using F L by simp
  have km: "kmem t x = kmem s x" if "\<not> in_bitmap s x" "frame x \<noteq> frame (vmm_phys_to_virt p)" for x
    using m [OF that(2)] pmm.memory_alloc [OF al(1) that(1)] by (simp add: t_def)
  have np: "q \<noteq> p" if "b \<in> ?B" "q \<in> pt_pages s b" for b q
    using table_okD(5) [OF pt_pages_ok [OF D(5) [OF that(1)] that(2)]] L(3) by auto
  have keep: "same_page s t (vmm_phys_to_virt q)" if "b \<in> ?B" "q \<in> pt_pages s b" for b q
  proof -
    note Q = table_okD [OF pt_pages_ok [OF D(5) [OF that(1)] that(2)]]
    have "frame (vmm_phys_to_virt q) \<noteq> frame (vmm_phys_to_virt p)"
      using virt_frame_inj [OF Q(1) L(2) Q(2) al(3)] np [OF that] by blast
    then show ?thesis using km Q(6) by (auto simp: same_page_def page_clear_def)
  qed
  have sub: "free_pages t \<subseteq> free_pages s" using fp by blast
  have mx: "pmm_max_page t = pmm_max_page s" using F L by simp
  show pd: "pd_entry t b i = pd_entry s b i" if "b \<in> ?B" "i < 1024" for b i
    by (rule pages_kept(1) [OF D(5) [OF that(1)] keep [OF that(1)] that(2)])
  show "pte t b w = pte s b w" if "b \<in> ?B" by (rule pages_kept(2) [OF D(5) [OF that] keep [OF that]])
  have ok: "as_ok t b" if "b \<in> ?B" for b by (rule as_ok_kept(1) [OF D(5) [OF that] keep [OF that] sub ib mx])
  have mem: "mem_ok t" using F L by simp
  show "spaces_ok t A" by (rule spaces_cong [OF sp mem k ok pd])
  have pt: "pt_pages t b = pt_pages s b" if "b \<in> ?B" for b by (rule pt_pages_cong) (rule pd [OF that])
  show "data_ok t A q" if "data_ok s A q" using that pt table_ok_mono [OF _ sub ib mx] unfolding data_ok_def k by simp
  show "data_ok t A p" unfolding data_ok_def k using pu F(6) np pt by simp blast
  have "frame q \<noteq> frame p \<longleftrightarrow> q \<noteq> p" if "page_aligned q" for q using that L(2) page_aligned_eq by blast
  moreover have "(\<exists>b \<in> ?B. q \<in> pt_pages t b) \<longleftrightarrow> (\<exists>b \<in> ?B. q \<in> pt_pages s b)" for q using pt by blast
  moreover have "q \<noteq> p" if "\<exists>b \<in> ?B. q \<in> pt_pages s b" for q using that np by blast
  ultimately show "managed t A = managed s A - {p}" unfolding managed_def k fp(1) by blast
  have "p \<in> managed s A" using L(2,3) al(3) by (simp add: managed_def)
  then show "m x = kmem s x" if "stable s A x" using km [of x] that by (auto simp: stable_def t_def)
qed

section \<open>Steps of the page tables\<close>

lemma step_managed:
  assumes sp: "spaces_ok s A" and a: "a \<in> A" and st: "vm_step s t a (walk_pages t a v)"
    and v: "VMM_PDE_INDEX v < KERNEL_PDE_INDEX"
  shows "managed t A = managed s A"
    and "stable s A x \<Longrightarrow> stable t A x \<and> kmem t x = kmem s x" "data_ok s A p \<Longrightarrow> data_ok t A p"
proof -
  let ?B = "insert (kernel_page_directory s) A"
  note D = spaces_okD [OF sp] and S = vm_stepD [OF st] and O = step_separate [OF sp a _ _ st v]
  have orig: "q \<in> pt_pages s b \<or> frame q \<in> free_pages s" if "b \<in> ?B" "q \<in> pt_pages t b" for b q
    using pages_origin [OF st, of q] O(3) [OF that(1)] that(2) by (cases "b = a") auto
  have sub: "managed t A \<subseteq> managed s A"
    unfolding managed_def S(5) using orig S(9) by blast
  have W: "q \<in> managed s A" if "q \<in> walk_pages t a v" for q
  proof -
    have q: "q \<in> pt_pages t a" using walk_pages_sub [of t a v] that by blast
    then have "q \<in> managed t A" using table_okD(1,2) [OF pt_pages_ok [OF S(2) q]] a S(5) by (auto simp: managed_def)
    then show ?thesis using sub by blast
  qed
  show "stable t A x \<and> kmem t x = kmem s x" if x: "stable s A x"
  proof
    show "stable t A x" by (rule stable_kept [OF sub S(3) x])
    have "frame x \<notin> frame ` vmm_phys_to_virt ` walk_pages t a v" using W x by (auto simp: stable_def)
    then show "kmem t x = kmem s x" using S(11) x by (simp add: stable_def)
  qed
  have "table_ok t p" if "table_ok s p" using table_ok_mono [OF that] S(3,4,9) by blast
  moreover have "p \<notin> pt_pages t b" if "b \<in> ?B" "p \<notin> pt_pages s b" "table_ok s p" for b
    using orig [OF that(1), of p] that(2) table_okD(5) [OF that(3)] by blast
  ultimately show "data_ok s A p \<Longrightarrow> data_ok t A p" by (auto simp: data_ok_def S(5))
  have "q \<in> managed t A" if "q \<in> managed s A" for q
  proof -
    have q: "page_aligned q" "vmm_phys_to_virt q \<noteq> 0" using that by (simp_all add: managed_def)
    have "frame q \<in> free_pages s \<or> (\<exists>b \<in> ?B. q \<in> pt_pages s b)" using that by (simp only: managed_def mem_Collect_eq)
    then consider "frame q \<in> free_pages t" | "frame q \<in> free_pages s" "frame q \<notin> free_pages t" | b where "b \<in> ?B" "q \<in> pt_pages s b"
      by blast
    then show ?thesis
    proof cases
      case 2
      then obtain r where r: "r \<in> pt_pages t a" "frame r = frame q" using S(9) by auto
      then have "r = q" using page_aligned_eq table_okD(1) [OF pt_pages_ok [OF S(2) r(1)]] q(1) by blast
      then show ?thesis using q r(1) a S(5) by (auto simp: managed_def)
    next
      case 3
      then have "q \<in> pt_pages t b" using O(3) [of b] vm_step_mono [OF st] by (cases "b = a") auto
      then show ?thesis using q 3(1) S(5) by (auto simp: managed_def)
    qed (use q in \<open>simp add: managed_def\<close>)
  qed
  then show "managed t A = managed s A" using sub by blast
qed

section \<open>Giving a page back\<close>

lemma free_data_page:
  fixes s :: "'a vmm_state_scheme"
  assumes sp: "spaces_ok s A" and d: "data_ok s A p"
  defines "t \<equiv> pmm_free_page p s"
  shows "spaces_ok t A" "free_pages t = insert (frame p) (free_pages s)" "managed t A = insert p (managed s A)"
    and "in_bitmap t = in_bitmap s" "\<not> in_bitmap s x \<Longrightarrow> kmem t x = kmem s x" "kernel_page_directory t = kernel_page_directory s"
    and "b \<in> insert (kernel_page_directory s) A \<Longrightarrow> pte t b w = pte s b w"
    and "b \<in> insert (kernel_page_directory s) A \<Longrightarrow> i < 1024 \<Longrightarrow> pd_entry t b i = pd_entry s b i"
    and "data_ok s A q \<Longrightarrow> q \<noteq> p \<Longrightarrow> data_ok t A q"
proof -
  let ?B = "insert (kernel_page_directory s) A"
  note D = spaces_okD [OF sp]
  have p: "table_ok s p" "\<And>b. b \<in> ?B \<Longrightarrow> p \<notin> pt_pages s b" using d by (auto simp: data_ok_def)
  note T = table_okD [OF p(1)]
  have mx: "frame p < pmm_max_page s" using p(1) by (simp add: table_ok_def)
  note R = release_table [OF D(1) T(1) T(4) mx, folded t_def]
  show k: "kernel_page_directory t = kernel_page_directory s" by (simp add: t_def)
  show fp: "free_pages t = insert (frame p) (free_pages s)" and ib: "in_bitmap t = in_bitmap s" using R(2,4) T(6) by blast+
  show km: "\<not> in_bitmap s x \<Longrightarrow> kmem t x = kmem s x" for x using R(5) T(6) by blast
  have tab: "table_ok t q" if "table_ok s q" "q \<noteq> p" for q
  proof -
    have "frame q \<noteq> frame p" using that T(1) table_okD(1) page_aligned_eq by blast
    then show ?thesis using that(1) fp ib R(3) T(6) by (simp add: table_ok_def page_clear_def)
  qed
  have keep: "same_page s t (vmm_phys_to_virt q)" if "b \<in> ?B" "q \<in> pt_pages s b" for b q
    using km table_okD(6) [OF pt_pages_ok [OF D(5) [OF that(1)] that(2)]] by (auto simp: same_page_def page_clear_def)
  show pd: "pd_entry t b i = pd_entry s b i" if "b \<in> ?B" "i < 1024" for b i
    by (rule pages_kept(1) [OF D(5) [OF that(1)] keep [OF that(1)] that(2)])
  show "pte t b w = pte s b w" if "b \<in> ?B" by (rule pages_kept(2) [OF D(5) [OF that] keep [OF that]])
  have ok: "as_ok t b" if "b \<in> ?B" for b
  proof -
    have "table_ok t q" if "q \<in> pt_pages s b" for q using tab pt_pages_ok [OF D(5) [OF \<open>b \<in> ?B\<close>] that] p(2) [OF \<open>b \<in> ?B\<close>] that by auto
    then show ?thesis using D(5) [OF that] pd [OF that] pt_pagesI(1) [of b s] pt_pagesI(2) [of _ s b] by (simp add: as_ok_def)
  qed
  have mem: "mem_ok t" using R(1) T(6) by blast
  show "spaces_ok t A" by (rule spaces_cong [OF sp mem k ok pd])
  have pt: "pt_pages t b = pt_pages s b" if "b \<in> ?B" for b by (rule pt_pages_cong) (rule pd [OF that])
  have "frame q = frame p \<longleftrightarrow> q = p" if "page_aligned q" for q using that T(1) page_aligned_eq by blast
  moreover have "(\<exists>b \<in> ?B. q \<in> pt_pages t b) \<longleftrightarrow> (\<exists>b \<in> ?B. q \<in> pt_pages s b)" for q using pt by blast
  ultimately show "managed t A = insert p (managed s A)" unfolding managed_def k fp using T(1,2) by blast
  show "data_ok t A q" if "data_ok s A q" "q \<noteq> p" using that tab pt k by (auto simp: data_ok_def)
qed

end
