(* ===== verification/ProgramLoad.thy ===== *)
theory ProgramLoad
  imports UserProps VmmData
begin

text \<open>
  Loading a program: the pages \<open>map_copied_user_page\<close> fills and maps, the whole of
  \<open>user_exec_task\<close> up to ring 3, and the way back when it fails.
\<close>

section \<open>Frames of the process table operations\<close>

lemma set_proc_vm: "vm_same s (set_proc j f s)"
  by (simp add: vm_same_def pmm_same_def set_proc_def)

lemmas set_proc_parts [simp] = vm_same_parts [OF set_proc_vm]

lemma set_proc_kernel [simp]: "kernel_page_directory (set_proc j f s) = kernel_page_directory s"
  by (simp add: set_proc_def)

text \<open>The variables above the paging code.\<close>

definition evars :: "'a user_state_scheme \<Rightarrow> (task list \<times> u32 \<times> u32 \<times> user_process list \<times> u32) \<times> u32" where
  "evars s = (kvars s, reg_eflags s)"

lemma vmm_more_evars: "vmm_state.more t = vmm_state.more s \<Longrightarrow> evars t = evars s" for s t :: "'a user_state_scheme"
  by (cases s, cases t) (simp add: evars_def kvars_def)

lemma evarsD:
  assumes "evars t = evars s"
  shows "tasks t = tasks s" "current_task t = current_task s" "processes t = processes s" "proc_at j t = proc_at j s"
    "reg_eflags t = reg_eflags s" "next_pid t = next_pid s" "next_task_id t = next_task_id s"
  using assms by (simp_all add: evars_def kvars_def proc_at_def)

lemma cpu_translate_pte:
  "cpu_translate s v = (if even (pte s (cr3 s) v) then None else Some (tbl (pte s (cr3 s) v) OR (v AND 0xfff)))"
proof -
  have i: "drop_bit 22 v = VMM_PDE_INDEX v"
    using u32_bound [of v] by (simp add: word_unat_eq_iff unat_index drop_bit_eq_div unat_div)
  show ?thesis unfolding cpu_translate_def i by (simp add: pte_def pd_entry_def Let_def VMM_PTE_INDEX_def)
qed

lemma virt_offset:
  assumes "page_aligned p" "vmm_phys_to_virt p \<noteq> 0" "k < 4096"
  shows "vmm_phys_to_virt (p + k) = vmm_phys_to_virt p + k" "vmm_phys_to_virt p + k \<noteq> 0"
proof -
  have lt: "p < VMM_DIRECT_MAP_LIMIT" using assms(2) by (auto simp: vmm_phys_to_virt_def split: if_splits)
  obtain n where n: "unat p = 4096 * n" using assms(1) by (auto simp: page_aligned_unat elim: dvdE)
  have k: "unat k < 4096" using assms(3) by (simp add: word_less_nat_alt)
  have "unat p < unat VMM_DIRECT_MAP_LIMIT" using lt by (simp add: word_less_nat_alt)
  then have b: "unat p + unat k < unat VMM_DIRECT_MAP_LIMIT" using n k by (simp add: direct_map_consts)
  then have u: "unat (p + k) = unat p + unat k" by (simp add: direct_map_consts unat_word_ariths)
  then have "p + k < VMM_DIRECT_MAP_LIMIT" using b by (simp add: word_less_nat_alt)
  then show eq: "vmm_phys_to_virt (p + k) = vmm_phys_to_virt p + k"
    using lt by (auto simp: vmm_phys_to_virt_def)
  have "unat (0xC0000000 + (p + k)) = 0xC0000000 + unat (p + k)" using u b by (simp add: direct_map_consts unat_word_ariths)
  then have "0xC0000000 + (p + k) \<noteq> 0" by (metis add_is_0 unat_0 zero_neq_numeral)
  then show "vmm_phys_to_virt p + k \<noteq> 0" using phys_to_virt_eq [OF assms(2)] by (simp add: add.assoc)
qed

lemma cpu_byte_page:
  assumes "pte s (cr3 s) v = p OR g" "page_aligned p" "odd g" "drop_bit 12 g = 0" "vmm_phys_to_virt p \<noteq> 0" "page_aligned v" "k < 4096"
  shows "cpu_byte s (v + k) = Some (kmem s (vmm_phys_to_virt p + k))"
proof -
  have "frame (v + k) = frame v" by (rule page_offset(3) [OF assms(6,7)])
  then have "pte s (cr3 s) (v + k) = p OR g" using assms(1) unfolding pte_def same_frame_index by (metis (no_types, lifting))
  moreover have "odd (p OR g)" "tbl (p OR g) = p" using assms(2-4) by (simp_all add: even_or_iff tbl_or tbl_of_aligned)
  ultimately have "cpu_translate s (v + k) = Some (p + k)"
    using page_offset(2) [OF assms(6,7)] page_offset(1) [OF assms(2,7)] by (simp add: cpu_translate_pte)
  then show ?thesis using virt_offset [OF assms(2,5,7)] by (simp add: cpu_byte_def)
qed

section \<open>One page\<close>

text \<open>The process table after a page was recorded.\<close>

definition with_page :: "u32 \<Rightarrow> u32 \<Rightarrow> user_process \<Rightarrow> user_process" where
  "with_page v p q = q\<lparr>p_pages := (p_pages q)[unat (p_page_count q) := \<lparr>pg_vaddr = v, pg_paddr = p\<rparr>], p_page_count := p_page_count q + 1\<rparr>"

text \<open>
  The content of a page of a program: the bytes of the source in \<open>s\<close>, then zeros, provided that the
  source lies in memory that is not handed out.
\<close>

definition filled :: "u32 set \<Rightarrow> 'a pmm_state_scheme \<Rightarrow> u32 \<Rightarrow> ptr \<Rightarrow> u32 \<Rightarrow> 'b vmm_state_scheme \<Rightarrow> bool" where
  "filled A t p src sz s \<longleftrightarrow> (src = 0 \<or> (\<forall>k < sz. stable s A (src + k)) \<longrightarrow>
     (\<forall>k < 4096. kmem t (vmm_phys_to_virt p + k) = (if src \<noteq> 0 \<and> k < sz then kmem s (src + k) else 0)))"

text \<open>The content before the page is mapped.\<close>

definition page_bytes :: "ptr \<Rightarrow> ptr \<Rightarrow> u32 \<Rightarrow> mem \<Rightarrow> mem" where
  "page_bytes page src sz m = (let m = memset page 0 PMM_PAGE_SIZE m in if src \<noteq> 0 then memcpy page src sz m else m)"

lemma page_bytes_eq:
  assumes al: "page_aligned page" and sz: "sz \<le> 4096"
  shows "frame x \<noteq> frame page \<Longrightarrow> page_bytes page src sz m x = m x"
    and "src = 0 \<or> (\<forall>k < sz. frame (src + k) \<noteq> frame page) \<Longrightarrow> k < 4096 \<Longrightarrow>
      page_bytes page src sz m (page + k) = (if src \<noteq> 0 \<and> k < sz then m (src + k) else 0)"
proof -
  have in_page: "x - page < 4096 \<longleftrightarrow> frame x = frame page" for x by (rule frame_of_page [OF al])
  have small: "y < 4096" if "y < sz" for y using that sz by (rule order_less_le_trans)
  show "page_bytes page src sz m x = m x" if "frame x \<noteq> frame page"
  proof -
    have "\<not> x - page < 4096" "\<not> x - page < sz" using that in_page [of x] small [of "x - page"] by auto
    then show ?thesis by (simp add: page_bytes_def Let_def memset_eq memcpy_outside PMM_PAGE_SIZE_eq)
  qed
  assume apart: "src = 0 \<or> (\<forall>k < sz. frame (src + k) \<noteq> frame page)" and k: "k < 4096"
  have cp: "memcpy page src sz n = (\<lambda>x. if x - page < sz then n (src + (x - page)) else n x)" if "src \<noteq> 0" for n
  proof (rule memcpy_eq)
    fix k l assume "k < sz" "l < sz"
    then show "page + l \<noteq> src + k" using apart that in_page [of "page + l"] small by auto
  qed
  show "page_bytes page src sz m (page + k) = (if src \<noteq> 0 \<and> k < sz then m (src + k) else 0)"
    using k apart in_page [of "src + k"] by (auto simp: page_bytes_def Let_def cp memset_eq PMM_PAGE_SIZE_eq)
qed

text \<open>A page operation leaves the directories of the other spaces and the kernel half alone.\<close>

lemma step_pdes:
  assumes "spaces_ok s A" "a \<in> A" "vm_step s t a (walk_pages t a v)" "same_pdes s t a v" "VMM_PDE_INDEX v < KERNEL_PDE_INDEX"
  shows "same_dirs (insert (kernel_page_directory s) A) {a} s t"
  unfolding same_dirs_def
proof (intro ballI allI impI)
  fix b i assume b: "b \<in> insert (kernel_page_directory s) A" and i: "i < 1024" "b \<notin> {a} \<or> KERNEL_PDE_INDEX \<le> i"
  show "pd_entry t b i = pd_entry s b i"
  proof (cases "b = a")
    case True
    then have "i \<noteq> VMM_PDE_INDEX v" using i(2) assms(5) by auto
    then show ?thesis using assms(4) i(1) True by (simp add: same_pdes_def)
  qed (use step_separate(5) [OF assms(1,2) b _ assms(3,5) i(1)] in blast)
qed

text \<open>A step that touches no entry: a frame taken and given back.\<close>

lemma idle_step:
  assumes sp: "spaces_ok s A" and a: "a \<in> A" and st: "vm_step s t a {}" and pd: "\<forall>i < 1024. pd_entry t a i = pd_entry s a i"
  shows "spaces_ok t A" "managed t A = managed s A" "stable s A x \<Longrightarrow> stable t A x \<and> kmem t x = kmem s x" "data_ok s A q \<Longrightarrow> data_ok t A q"
    and "b \<in> insert (kernel_page_directory s) A \<Longrightarrow> b \<noteq> a \<Longrightarrow> pte t b w = pte s b w" "vm_held a t = vm_held a s"
    and "kernel_page_directory t = kernel_page_directory s"
    and "b \<in> insert (kernel_page_directory s) A \<Longrightarrow> i < 1024 \<Longrightarrow> pd_entry t b i = pd_entry s b i"
proof -
  have st0: "vm_step s t a (walk_pages t a 0)" using st walk_pages_sub by (blast intro: vm_step_weaken)
  have v0: "VMM_PDE_INDEX 0 < KERNEL_PDE_INDEX" by (simp add: KERNEL_PDE_INDEX_eq VMM_PDE_INDEX_def)
  have inv: "vm_inv A a s" using sp a by (simp add: vm_inv_def)
  have sm: "same_pdes s t a 0" using pd by (simp add: same_pdes_def)
  show "spaces_ok t A" "vm_held a t = vm_held a s" "kernel_page_directory t = kernel_page_directory s"
      "b \<in> insert (kernel_page_directory s) A \<Longrightarrow> b \<noteq> a \<Longrightarrow> pte t b w = pte s b w"
    using vm_inv_step [OF inv st0 sm v0] by (auto simp: vm_inv_def)
  show "managed t A = managed s A" "stable s A x \<Longrightarrow> stable t A x \<and> kmem t x = kmem s x" "data_ok s A q \<Longrightarrow> data_ok t A q"
    using step_managed [OF sp a st0 v0] by blast+
  show "b \<in> insert (kernel_page_directory s) A \<Longrightarrow> i < 1024 \<Longrightarrow> pd_entry t b i = pd_entry s b i"
    using same_dirsD [OF step_pdes [OF sp a st0 sm v0], of b i] pd by (cases "b = a") auto
qed

text \<open>
  What a page operation on the space \<open>a\<close> keeps: the address spaces are in order, stable bytes and
  data pages stay, and the other spaces translate as before.
\<close>

definition space_step :: "u32 set \<Rightarrow> u32 \<Rightarrow> 'a vmm_state_scheme \<Rightarrow> 'a vmm_state_scheme \<Rightarrow> bool" where
  "space_step A a s t \<longleftrightarrow> spaces_ok t A \<and> kernel_page_directory t = kernel_page_directory s \<and> in_bitmap t = in_bitmap s \<and>
     (\<forall>x. stable s A x \<longrightarrow> stable t A x \<and> kmem t x = kmem s x) \<and> (\<forall>q. data_ok s A q \<longrightarrow> data_ok t A q) \<and>
     (\<forall>b \<in> insert (kernel_page_directory s) A - {a}. \<forall>w. pte t b w = pte s b w) \<and>
     same_dirs (insert (kernel_page_directory s) A) {a} s t"

lemma space_step_refl: "spaces_ok s A \<Longrightarrow> space_step A a s s"
  by (simp add: space_step_def)

lemma space_step_trans: "space_step A a s t \<Longrightarrow> space_step A a t u \<Longrightarrow> space_step A a s u"
  unfolding space_step_def using same_dirs_trans [of "insert (kernel_page_directory s) A" "{a}" s t u] by auto

lemma space_step_same:
  assumes "space_step A a s t" "vm_same t u"
  shows "space_step A a s u"
  using assms(1) vm_same_parts [OF assms(2)] assms(2) by (simp add: space_step_def vm_same_def same_dirs_def)

lemma idle_space_step:
  assumes "spaces_ok s A" "a \<in> A" "vm_step s t a {}" "\<forall>i < 1024. pd_entry t a i = pd_entry s a i"
  shows "space_step A a s t"
  using idle_step [OF assms] vm_stepD(3) [OF assms(3)] same_dirsI [OF idle_step(8) [OF assms]]
  unfolding space_step_def by (intro conjI allI impI ballI) (assumption | blast)+

lemma fresh_space_step:
  assumes "spaces_ok s A" "pmm_alloc_page s = (p, u)" "p \<noteq> 0" "vmm_phys_to_virt p \<noteq> 0"
    "\<And>x. frame x \<noteq> frame (vmm_phys_to_virt p) \<Longrightarrow> m x = kmem u x"
  shows "space_step A a s (u\<lparr>kmem := m\<rparr>)"
proof -
  note F = data_page_fresh [OF assms]
  have "stable (u\<lparr>kmem := m\<rparr>) A x" if "stable s A x" for x using stable_kept [OF _ F(6) that] F(5) by blast
  then show ?thesis
    using F(1,6,7,8,10,11) same_dirsI [OF F(9), of "insert (kernel_page_directory s) A" "{a}"] unfolding space_step_def by simp
qed

lemma held_fresh:
  assumes "\<And>i. i < 1024 \<Longrightarrow> pd_entry t a i = pd_entry s a i"
  shows "user_tables t a KERNEL_PDE_INDEX = user_tables s a KERNEL_PDE_INDEX"
  using assms kernel_index unfolding user_tables_def by (metis (no_types, lifting))

definition record_page :: "u32 \<Rightarrow> u32 \<Rightarrow> u32 \<Rightarrow> 'a user_state_scheme \<Rightarrow> 'a user_state_scheme" where
  "record_page j v p w =
     (let n = unat (p_page_count (proc_at j w));
          w = set_proc j (\<lambda>q. q\<lparr>p_pages := (p_pages q)[n := (p_pages q ! n)\<lparr>pg_vaddr := v\<rparr>]\<rparr>) w;
          w = set_proc j (\<lambda>q. q\<lparr>p_pages := (p_pages q)[n := (p_pages q ! n)\<lparr>pg_paddr := p\<rparr>]\<rparr>) w
      in set_proc j (\<lambda>q. q\<lparr>p_page_count := p_page_count q + 1\<rparr>) w)"

definition fill_page :: "u32 \<Rightarrow> ptr \<Rightarrow> u32 \<Rightarrow> 'a pmm_state_scheme \<Rightarrow> 'a pmm_state_scheme" where
  "fill_page p src sz u = u\<lparr>kmem := page_bytes (vmm_phys_to_virt p) src sz (kmem u)\<rparr>"

lemma map_copied_eq:
  "map_copied_user_page (Some j) v src sz f s =
     (if p_page_count (proc_at j s) \<ge> 16 \<or> sz > 4096 then (- 1, s)
      else case pmm_alloc_page s of (p, u) \<Rightarrow>
        if p = 0 then (- 1, u)
        else if vmm_phys_to_virt p = 0 then (- 1, pmm_free_page p u)
        else case vmm_map_page_in (p_address_space (proc_at j (fill_page p src sz u))) v p (5 OR f) (fill_page p src sz u) of (r, w) \<Rightarrow>
          if r \<noteq> 0 then (- 1, pmm_free_page p w) else (0, record_page j v p w))"
proof -
  have fl: "VMM_PAGE_PRESENT OR VMM_PAGE_USER OR f = 5 OR f"
    by (simp add: VMM_PAGE_PRESENT_def VMM_PAGE_USER_def flip: or.assoc)
  have xm: "(if src \<noteq> 0 then u\<lparr>kmem := memset q 0 4096 (kmem u)\<rparr>\<lparr>kmem := memcpy q src sz (kmem (u\<lparr>kmem := memset q 0 4096 (kmem u)\<rparr>))\<rparr>
      else u\<lparr>kmem := memset q 0 4096 (kmem u)\<rparr>) = u\<lparr>kmem := page_bytes q src sz (kmem u)\<rparr>" for u :: "'a user_state_scheme" and q
    by (simp add: page_bytes_def Let_def PMM_PAGE_SIZE_eq)
  show ?thesis
    unfolding map_copied_user_page_def option.case Let_def fl PMM_PAGE_SIZE_eq xm fill_page_def record_page_def USER_PROCESS_MAX_PAGES_def
    by (auto split: prod.split)
qed

lemma record_page_vm: "vm_same w (record_page j v p w)" "cr3 (record_page j v p w) = cr3 w"
  by (simp_all add: record_page_def Let_def vm_same_def pmm_same_def set_proc_def)

lemma user_page_upd: "x\<lparr>pg_vaddr := v, pg_paddr := p\<rparr> = \<lparr>pg_vaddr = v, pg_paddr = p\<rparr>" for x :: user_page
  by (cases x) simp

lemma record_page_evars:
  assumes "unat j < length (processes w)" "unat (p_page_count (proc_at j w)) < length (p_pages (proc_at j w))"
  shows "evars (record_page j v p w) =
    ((tasks w, current_task w, next_task_id w, (processes w)[unat j := with_page v p (processes w ! unat j)], next_pid w), reg_eflags w)"
  using assms by (simp add: record_page_def Let_def evars_def kvars_def set_proc_def proc_at_def with_page_def user_page_upd)

lemma cr3_alloc: "pmm_alloc_page s = (p, u) \<Longrightarrow> cr3 u = cr3 s" for s u :: "'a vmm_state_scheme"
  by (drule alloc_more) (erule ssubst, simp)

lemma cr3_free [simp]: "cr3 (pmm_free_page p s) = cr3 s" for s :: "'a vmm_state_scheme"
  by (subst free_more) simp

lemma cr3_map: "vmm_map_page_in a v p f s = (r, t) \<Longrightarrow> cr3 t = cr3 s"
proof -
  assume m: "vmm_map_page_in a v p f s = (r, t)"
  have sp: "cr3 (snd (vmm_set_pte d q v p f z)) = cr3 z" for d q and z :: "'a vmm_state_scheme"
    by (simp add: vmm_set_pte_def Let_def arr_upd_def paging_tlb_invalidate_def)
  obtain q u where "pmm_alloc_page s = (q, u)" by (cases "pmm_alloc_page s")
  then have "cr3 (snd (vmm_map_page_in a v p f s)) = cr3 s"
    using cr3_alloc [of s q u] by (simp add: vmm_map_page_in_def Let_def sp arr_upd_def mem_zero_page_def)
  then show ?thesis using m by simp
qed

text \<open>A filled page, before it is mapped.\<close>

lemma filled_page:
  fixes s x :: "'a user_state_scheme"
  assumes sp: "spaces_ok s A" and a: "a \<in> A" and al: "pmm_alloc_page s = (p, u)" "p \<noteq> 0" "vmm_phys_to_virt p \<noteq> 0" and sz: "sz \<le> 4096"
    and x: "x = fill_page p src sz u"
  shows "space_step A a s x" "data_ok x A p" "managed x A = managed s A - {p}" "p \<in> managed s A" "frame p \<in> free_pages s"
    and "vm_held a x = vm_held a s - {frame p}" "frame p \<in> vm_held a s" "pte x a w = pte s a w" "filled A x p src sz s"
    and "evars x = evars s" "cr3 x = cr3 s" "free_pages x = free_pages s - {frame p}" "i < 1024 \<Longrightarrow> pd_entry x a i = pd_entry s a i"
proof -
  note L = alloc_page_spec [OF spaces_okD(1) [OF sp] al(1,2)] and ok = spaces_okD(4) [OF sp a]
  let ?q = "vmm_phys_to_virt p"
  have pm: "p \<in> managed s A" using L(2,3) al(3) by (simp add: managed_def)
  then show "p \<in> managed s A" .
  have qa: "page_aligned ?q" using page_aligned_virt [OF al(3)] L(2) by simp
  note B = page_bytes_eq [OF qa sz, where m = "kmem u" and src = src]
  note F = data_page_fresh [OF sp al B(1), folded fill_page_def, folded x]
  show "space_step A a s x" using fresh_space_step [OF sp al B(1)] unfolding x fill_page_def .
  show "data_ok x A p" "managed x A = managed s A - {p}" "pte x a w = pte s a w" using F(2,5,8) a by blast+
  show fp: "frame p \<in> free_pages s" by (rule F(3))
  show fx: "free_pages x = free_pages s - {frame p}" by (rule F(4))
  show "i < 1024 \<Longrightarrow> pd_entry x a i = pd_entry s a i" using F(9) a by blast
  from fp show "frame p \<in> vm_held a s" by (simp add: vm_held_def)
  have "frame p \<noteq> frame q" if "q \<in> user_tables s a KERNEL_PDE_INDEX" for q
    using that fp table_okD(5) [OF as_okD(2) [OF ok]] kernel_index by (auto simp: user_tables_def)
  moreover have "user_tables x a KERNEL_PDE_INDEX = user_tables s a KERNEL_PDE_INDEX" by (rule held_fresh) (use F(9) a in blast)
  ultimately show "vm_held a x = vm_held a s - {frame p}" using fx unfolding vm_held_def by auto
  show "filled A x p src sz s"
    unfolding filled_def
  proof (intro impI allI)
    fix k :: u32 assume src: "src = 0 \<or> (\<forall>k < sz. stable s A (src + k))" and k: "k < 4096"
    have "src = 0 \<or> (\<forall>k < sz. frame (src + k) \<noteq> frame ?q)" using src pm by (auto simp: stable_def)
    moreover have "kmem u (src + k) = kmem s (src + k)" if "src \<noteq> 0" "k < sz" for k
      using pmm.memory_alloc [OF al(1), of "src + k"] src that by (simp add: stable_def)
    ultimately show "kmem x (?q + k) = (if src \<noteq> 0 \<and> k < sz then kmem s (src + k) else 0)" using B(2) k by (simp add: x fill_page_def)
  qed
  have "evars x = evars u" by (rule vmm_more_evars) (simp add: x fill_page_def)
  then show "evars x = evars s" using vmm_more_evars [OF alloc_page_more [OF al(1)]] by simp
  show "cr3 x = cr3 s" using cr3_alloc [OF al(1)] by (simp add: x fill_page_def)
qed

text \<open>The page is mapped.\<close>

lemma filled_mapped:
  fixes s x w :: "'a user_state_scheme"
  assumes sp: "spaces_ok s A" and a: "a \<in> A" and pu: "pmm_alloc_page s = (p, u)" "p \<noteq> 0" "vmm_phys_to_virt p \<noteq> 0" "sz \<le> 4096"
    and v: "vm_allowed v" and x: "x = fill_page p src sz u"
    and w: "vmm_map_page_in a v p e x = (r, w)" and g: "map_guard x a v p"
  shows "r = 0" "space_step A a s w" "data_ok w A p" "managed w A = managed s A - {p}" "vm_held a w = vm_held a s - {frame p}"
    and "filled A w p src sz s" "even (pte s a v)" "pte w a y = (if frame y = frame v then p OR (e AND 0xfff) else pte s a y)"
    and "pd_entry w a (VMM_PDE_INDEX v) AND (e AND 6) = e AND 6"
proof -
  note X = filled_page [OF sp a pu x]
  have spx: "spaces_ok x A" using X(1) by (simp add: space_step_def)
  note Dx = spaces_okD [OF spx]
  note G = map_page_in_spec(1) [OF Dx(1) Dx(4) [OF a] w g]
  have v': "VMM_PDE_INDEX v < KERNEL_PDE_INDEX" using v by (simp add: vm_allowed_def)
  have st: "vm_step x w a (walk_pages w a v)" "same_pdes x w a v" using G by blast+
  have inv: "vm_inv A a x" using spx a by (simp add: vm_inv_def)
  note V = vm_inv_step [OF inv st v'] and S = step_managed [OF spx a st(1) v']
  show "r = 0" using G by blast
  have "space_step A a x w"
    unfolding space_step_def using V S(2,3) vm_stepD(3) [OF st(1)] step_pdes [OF spx a st v'] by (auto simp: vm_inv_def)
  then show "space_step A a s w" using space_step_trans [OF X(1)] by blast
  have "kmem w (vmm_phys_to_virt p + k) = kmem x (vmm_phys_to_virt p + k)" if "k < 4096" for k
  proof -
    have "page_aligned (vmm_phys_to_virt p)" using X(2) table_okD(3) by (auto simp: data_ok_def)
    then have "frame (vmm_phys_to_virt p + k) = frame (vmm_phys_to_virt p)" using that by (rule page_offset(3))
    then show ?thesis using S(2) data_stable [OF X(2)] by blast
  qed
  then show "filled A w p src sz s" using X(9) by (simp add: filled_def)
  show "data_ok w A p" by (rule S(3) [OF X(2)])
  show "managed w A = managed s A - {p}" using S(1) X(3) by simp
  show "vm_held a w = vm_held a s - {frame p}" using V X(6) by (simp add: vm_held_def)
  show "even (pte s a v)" using g X(8) by (simp add: map_guard_def)
  show "pte w a y = (if frame y = frame v then p OR (e AND 0xfff) else pte s a y)" using G X(8) by simp
  show "pd_entry w a (VMM_PDE_INDEX v) AND (e AND 6) = e AND 6" using G by simp
qed

text \<open>The page cannot be mapped and is given back.\<close>

lemma filled_undone:
  fixes s x w :: "'a user_state_scheme"
  assumes sp: "spaces_ok s A" and a: "a \<in> A" and pu: "pmm_alloc_page s = (p, u)" "p \<noteq> 0" "vmm_phys_to_virt p \<noteq> 0" "sz \<le> 4096"
    and x: "x = fill_page p src sz u"
    and w: "vmm_map_page_in a v p e x = (r, w)" and g: "\<not> map_guard x a v p"
  defines "t \<equiv> pmm_free_page p w"
  shows "r \<noteq> 0" "space_step A a s t" "managed t A = managed s A" "vm_held a t = vm_held a s" "pte t a y = pte s a y"
proof -
  note X = filled_page [OF sp a pu x]
  have spx: "spaces_ok x A" using X(1) by (simp add: space_step_def)
  note N = map_page_in_spec(2) [OF spaces_okD(1) [OF spx] spaces_okD(4) [OF spx a] w g]
  have pd: "\<forall>i < 1024. pd_entry w a i = pd_entry x a i" and st: "vm_step x w a {}" using N by blast+
  note I = idle_step [OF spx a st pd]
  note Z = free_data_page [OF I(1) I(4) [OF X(2)], folded t_def]
  show "r \<noteq> 0" using N by simp
  have kw: "kernel_page_directory w = kernel_page_directory s" using I(7) X(1) by (simp add: space_step_def)
  show mg: "managed t A = managed s A" using Z(3) I(2) X(3,4) by auto
  have ib: "in_bitmap t = in_bitmap s" using Z(4) vm_stepD(3) [OF st] X(1) by (simp add: space_step_def)
  have "stable t A y \<and> kmem t y = kmem s y" if "stable s A y" for y
  proof
    show "stable t A y" using stable_kept [OF _ ib that] mg by simp
    have "stable x A y" "kmem x y = kmem s y" using X(1) that by (simp_all add: space_step_def)
    moreover have "kmem t y = kmem w y" using Z(5) [of y] that ib Z(4) by (simp add: stable_def)
    ultimately show "kmem t y = kmem s y" using I(3) [of y] by simp
  qed
  moreover have "data_ok t A q" if q: "data_ok s A q" for q
    using Z(9) I(4) X(1) q data_not_managed [OF q] X(4) by (auto simp: space_step_def)
  moreover have "pte t b w' = pte s b w'" if "b \<in> insert (kernel_page_directory s) A" "b \<noteq> a" for b w'
    using X(1) Z(7) [of b w'] I(5) [of b w'] that kw I(7) by (simp add: space_step_def)
  moreover have "pd_entry t b i = pd_entry s b i" if "b \<in> insert (kernel_page_directory s) A" "i < 1024" for b i
  proof -
    have "pd_entry x b i = pd_entry s b i" using X(1) X(13) [of i] that by (cases "b = a") (auto simp: space_step_def same_dirs_def)
    then show ?thesis using Z(8) [of b i] I(8) [of b i] that kw I(7) by simp
  qed
  then have "same_dirs (insert (kernel_page_directory s) A) {a} s t" by (rule same_dirsI)
  ultimately show "space_step A a s t" unfolding space_step_def using Z(1,6) ib kw by auto
  show "vm_held a t = vm_held a s"
  proof -
    have "user_tables t a KERNEL_PDE_INDEX = user_tables w a KERNEL_PDE_INDEX" by (rule held_fresh) (use Z(8) a in blast)
    then have "vm_held a t = insert (frame p) (vm_held a w)" unfolding vm_held_def Z(2) by auto
    then show ?thesis using I(6) X(6,7) by auto
  qed
  show "pte t a y = pte s a y" using Z(7) [of a y] a N X(8) by simp
qed

text \<open>The three ends of \<open>map_copied_user_page\<close>: nothing was done, the frame went back, the page is there.\<close>

lemma map_copied_step:
  fixes s :: "'a user_state_scheme"
  assumes sp: "spaces_ok s A" and a: "a \<in> A" "p_address_space (proc_at j s) = a" and j: "unat j < length (processes s)"
    and pg: "length (p_pages (proc_at j s)) = 16" and v: "vm_allowed v"
    and run: "map_copied_user_page (Some j) v src sz f s = (r, t)"
  shows "space_step A a s t \<and> cr3 t = cr3 s \<and> (r = 0 \<or> r = - 1) \<and>
     (r = - 1 \<longrightarrow> managed t A = managed s A \<and> vm_held a t = vm_held a s \<and> (\<forall>w. pte t a w = pte s a w) \<and> evars t = evars s) \<and>
     (r = 0 \<longrightarrow> (\<exists>p. data_ok t A p \<and> p \<in> managed s A \<and> frame p \<in> free_pages s \<and> managed t A = managed s A - {p} \<and>
        vm_held a t = vm_held a s - {frame p} \<and> filled A t p src sz s \<and> even (pte s a v) \<and>
        (\<forall>w. pte t a w = (if frame w = frame v then p OR ((5 OR f) AND 0xfff) else pte s a w)) \<and>
        pd_entry t a (VMM_PDE_INDEX v) AND ((5 OR f) AND 6) = (5 OR f) AND 6 \<and>
        evars t = ((tasks s, current_task s, next_task_id s, (processes s)[unat j := with_page v p (processes s ! unat j)], next_pid s), reg_eflags s)))"
proof -
  obtain p u where pu: "pmm_alloc_page s = (p, u)" by (cases "pmm_alloc_page s")
  note D = spaces_okD [OF sp] and R = alloc_result [OF spaces_okD(1) [OF sp] pu]
  consider (early) "p_page_count (proc_at j s) \<ge> 16 \<or> sz > 4096 \<or> p = 0"
    | (high) "p_page_count (proc_at j s) < 16" "sz \<le> 4096" "p \<noteq> 0" "vmm_phys_to_virt p = 0"
    | (low) "p_page_count (proc_at j s) < 16" "sz \<le> 4096" "p \<noteq> 0" "vmm_phys_to_virt p \<noteq> 0" by fastforce
  then show ?thesis
  proof cases
    case early
    then have "r = - 1" "t = s" using run R(3) by (auto simp: map_copied_eq pu split: if_splits)
    then show ?thesis using space_step_refl [OF sp] by simp
  next
    case high
    then have rt: "r = - 1" "t = pmm_free_page p u" using run by (auto simp: map_copied_eq pu not_le not_less split: if_splits)
    note U = alloc_undo [OF D(1) D(4) [OF a(1)] pu high(3), folded rt(2)]
    have "evars t = evars s" using vmm_more_evars [of t s] alloc_page_more [OF pu] free_page_more [of p u] by (simp add: rt(2))
    moreover have "cr3 t = cr3 s" using cr3_alloc [OF pu] by (simp add: rt(2))
    moreover have pd: "\<forall>i < 1024. pd_entry t a i = pd_entry s a i" using U(3) by simp
    ultimately show ?thesis using idle_space_step [OF sp a(1) U(1) pd] idle_step(2,6) [OF sp a(1) U(1) pd] U(2) rt(1) by simp
  next
    case low
    define x where "x = fill_page p src sz u"
    note X = filled_page [OF sp a(1) pu low(3,4,2) x_def]
    have ev: "proc_at j x = proc_at j s" "evars x = evars s" using evarsD(4) [OF X(10)] X(10) by simp_all
    obtain r' w where w: "vmm_map_page_in a v p (5 OR f) x = (r', w)" by (cases "vmm_map_page_in a v p (5 OR f) x")
    have rt: "r = (if r' = 0 then 0 else - 1)" "t = (if r' = 0 then record_page j v p w else pmm_free_page p w)"
      using run low w ev(1) a(2) by (auto simp: map_copied_eq pu not_le not_less x_def [symmetric] split: if_splits)
    have ew: "evars w = evars s" "cr3 w = cr3 s" using vmm_more_evars [of w x] map_more [of a v p "5 OR f" x] w ev(2) cr3_map [OF w] X(11) by simp_all
    show ?thesis
    proof (cases "map_guard x a v p")
      case True
      note M = filled_mapped [OF sp a(1) pu low(3,4,2) v x_def w True]
      have t: "r = 0" "t = record_page j v p w" using rt M(1) by simp_all
      note T = vm_same_parts [OF record_page_vm(1) [of w j v p], folded t(2)]
      have "evars t = ((tasks s, current_task s, next_task_id s, (processes s)[unat j := with_page v p (processes s ! unat j)], next_pid s), reg_eflags s)"
        using record_page_evars [of j w v p] evarsD [OF ew(1)] j pg low(1) by (simp add: t(2) word_less_nat_alt)
      moreover have "space_step A a s t" "cr3 t = cr3 s" using space_step_same [OF M(2) record_page_vm(1)] ew(2) by (simp_all add: t(2) record_page_vm(2))
      moreover have "data_ok t A p" "managed t A = managed s A - {p}" "vm_held a t = vm_held a s - {frame p}" "filled A t p src sz s"
        using M(3-6) T by (simp_all add: vm_held_def filled_def)
      ultimately show ?thesis using t(1) X(4,5) M(7-9) T(5,6) by auto
    next
      case False
      note M = filled_undone [OF sp a(1) pu low(3,4,2) x_def w False]
      have t: "r = - 1" "t = pmm_free_page p w" using rt M(1) by simp_all
      have "evars t = evars s" using vmm_more_evars [OF free_page_more, of p w] ew(1) by (simp add: t(2))
      then show ?thesis using M(2-5) t ew(2) by simp
    qed
  qed
qed

end
