(* ===== verification/ExecProof.thy ===== *)
theory ExecProof
  imports ProgramLoad
begin

text \<open>
  The memory of a process from its first page to its last: what \<open>user_exec_task\<close> leaves for ring 3
  when it succeeds, and that its failure paths and the exit of a process give every frame back.
\<close>

section \<open>Releasing the pages of a process\<close>

definition page_frames :: "user_process \<Rightarrow> nat \<Rightarrow> u32 set" where
  "page_frames q n = (\<lambda>i. pg_paddr (p_pages q ! i)) ` {..<n}"

text \<open>The recorded pages are distinct data pages.\<close>

definition pages_ok :: "'a user_state_scheme \<Rightarrow> u32 set \<Rightarrow> user_process \<Rightarrow> bool" where
  "pages_ok s A q \<longleftrightarrow> unat (p_page_count q) \<le> 16 \<and> length (p_pages q) = 16 \<and>
     (\<forall>i < unat (p_page_count q). data_ok s A (pg_paddr (p_pages q ! i))) \<and>
     inj_on (\<lambda>i. pg_paddr (p_pages q ! i)) {..<unat (p_page_count q)}"

text \<open>
  What releasing the frames \<open>F\<close> does: they become free, and everything else stays as in a step of
  the address space.
\<close>

definition released :: "u32 set \<Rightarrow> u32 \<Rightarrow> u32 set \<Rightarrow> 'a vmm_state_scheme \<Rightarrow> 'a vmm_state_scheme \<Rightarrow> bool" where
  "released A a F s t \<longleftrightarrow> spaces_ok t A \<and> kernel_page_directory t = kernel_page_directory s \<and> in_bitmap t = in_bitmap s \<and>
     managed t A = managed s A \<union> F \<and> vm_held a t = vm_held a s \<union> frame ` F \<and>
     (\<forall>q. data_ok s A q \<and> q \<notin> F \<longrightarrow> data_ok t A q) \<and>
     (\<forall>x. stable s A x \<and> stable t A x \<longrightarrow> kmem t x = kmem s x) \<and>
     (\<forall>b \<in> insert (kernel_page_directory s) A - {a}. \<forall>w. pte t b w = pte s b w) \<and>
     same_dirs (insert (kernel_page_directory s) A) {a} s t"

lemma released_refl: "spaces_ok s A \<Longrightarrow> released A a {} s s"
  by (simp add: released_def)

lemma released_same: "released A a F s t \<Longrightarrow> vm_same t u \<Longrightarrow> released A a F s u"
  using vm_same_parts [of t u] by (auto simp: released_def vm_same_def vm_held_def same_dirs_def)

lemma released_trans:
  assumes "released A a F s t" "released A a G t u"
  shows "released A a (F \<union> G) s u"
proof -
  note S = assms(1) [unfolded released_def] and T = assms(2) [unfolded released_def]
  have "stable t A x" if "stable u A x" for x using T that by (auto simp: stable_def)
  moreover have "same_dirs (insert (kernel_page_directory s) A) {a} s u" using S T same_dirs_trans [of "insert (kernel_page_directory s) A" "{a}" s t u] by simp
  ultimately show ?thesis unfolding released_def using S T by (auto simp: image_Un)
qed

lemma release_one:
  fixes s :: "'a vmm_state_scheme" and v :: u32
  assumes sp: "spaces_ok s A" and a: "a \<in> A" and d: "data_ok s A p"
  defines "t \<equiv> pmm_free_page p (snd (vmm_unmap_page_in a v s))"
  shows "released A a {p} s t"
proof -
  obtain r u where u: "vmm_unmap_page_in a v s = (r, u)" by (cases "vmm_unmap_page_in a v s")
  note D = spaces_okD [OF sp] and M = unmap_page_in_spec [OF spaces_okD(1) [OF sp] spaces_okD(4) [OF sp a] u]
  have inv: "vm_inv A a s" using sp a by (simp add: vm_inv_def)
  have su: "space_step A a s u \<and> managed u A = managed s A \<and> vm_held a u = vm_held a s"
  proof (cases "page_aligned v \<and> may_map s a v \<and> odd (pte s a v)")
    case True
    then have v: "VMM_PDE_INDEX v < KERNEL_PDE_INDEX" using vm_may_map [OF inv] by simp
    note G = M(1) [OF True]
    have st: "vm_step s u a (walk_pages u a v)" "same_pdes s u a v" using G by blast+
    note V = vm_inv_step [OF inv st v] and S = step_managed [OF sp a st(1) v]
    show ?thesis unfolding space_step_def using V S vm_stepD(3) [OF st(1)] step_pdes [OF sp a st v] by (auto simp: vm_inv_def)
  next
    case False
    then show ?thesis using M(2) space_step_refl [OF sp] by blast
  qed
  have spu: "spaces_ok u A" and du: "data_ok u A p" using su d by (simp_all add: space_step_def)
  note Z = free_data_page [OF spu du]
  have t: "t = pmm_free_page p u" by (simp add: t_def u)
  have k: "kernel_page_directory u = kernel_page_directory s" "in_bitmap u = in_bitmap s" using su by (simp_all add: space_step_def)
  have "user_tables t a KERNEL_PDE_INDEX = user_tables u a KERNEL_PDE_INDEX" by (rule held_fresh) (use Z(8) a t in blast)
  then have "vm_held a t = vm_held a s \<union> frame ` {p}" using su unfolding vm_held_def t Z(2) by auto
  moreover have "kmem t x = kmem s x" if "stable s A x" for x
    using Z(5) [of x] su that k by (auto simp: t stable_def space_step_def)
  moreover have "data_ok t A q" if "data_ok s A q" "q \<noteq> p" for q using Z(9) su that by (simp add: t space_step_def)
  moreover have "pte t b w = pte s b w" if "b \<in> insert (kernel_page_directory s) A - {a}" for b w
    using Z(7) [of b w] su that k by (simp add: t space_step_def)
  moreover have "same_dirs (insert (kernel_page_directory s) A) {a} s t"
    using su same_dirs_trans [of "insert (kernel_page_directory s) A" "{a}" s u t] same_dirsI [OF Z(8), of "insert (kernel_page_directory s) A" "{a}"] k
    unfolding space_step_def t by simp
  ultimately show ?thesis unfolding released_def using Z(1,3,4,6) su k by (simp add: t)
qed

lemma free_pages_released:
  fixes s :: "'a user_state_scheme"
  assumes sp: "spaces_ok s A" and a: "a \<in> A" "p_address_space (proc_at j s) = a" and j: "unat j < length (processes s)"
    and ok: "pages_ok s A (proc_at j s)"
  defines "t \<equiv> user_process_free_pages (Some j) s"
  shows "released A a (page_frames (proc_at j s) (unat (p_page_count (proc_at j s)))) s t" "cr3 t = cr3 s"
proof -
  let ?q = "proc_at j s" and ?n = "p_page_count (proc_at j s)"
  let ?body = "\<lambda>i s. let s = snd (vmm_unmap_page_in (p_address_space (proc_at j s)) (pg_vaddr (p_pages (proc_at j s) ! unat i)) s);
                    s = pmm_free_page (pg_paddr (p_pages (proc_at j s) ! unat i)) s;
                    s = set_proc j (\<lambda>p. p\<lparr>p_pages := (p_pages p)[unat i := (p_pages p ! unat i)\<lparr>pg_vaddr := 0\<rparr>]\<rparr>) s
                in set_proc j (\<lambda>p. p\<lparr>p_pages := (p_pages p)[unat i := (p_pages p ! unat i)\<lparr>pg_paddr := 0\<rparr>]\<rparr>) s"
  let ?P = "\<lambda>i u. released A a (page_frames ?q (unat i)) s u \<and> cr3 u = cr3 s \<and> length (processes u) = length (processes s) \<and>
     p_address_space (proc_at j u) = a \<and> (\<forall>k \<ge> unat i. p_pages (proc_at j u) ! k = p_pages ?q ! k)"
  have "?P ?n (for_u32 0 ?n ?body s)"
  proof (rule for_u32_invariant [where P = ?P])
    show "?P 0 s" using released_refl [OF sp] a(2) by (simp add: page_frames_def)
    fix i u assume i: "i < ?n" and P: "?P i u"
    have ui: "unat (i + 1) = Suc (unat i)" by (rule unat_inc [OF i])
    have i': "unat i < unat ?n" using i by (simp add: word_less_nat_alt)
    let ?p = "pg_paddr (p_pages ?q ! unat i)" and ?v = "pg_vaddr (p_pages ?q ! unat i)"
    have at: "p_pages (proc_at j u) ! unat i = p_pages ?q ! unat i" using P by simp
    have R: "released A a (page_frames ?q (unat i)) s u" using P by blast
    have nin: "?p \<notin> page_frames ?q (unat i)"
      using ok i' unfolding pages_ok_def page_frames_def inj_on_def by fastforce
    have du: "data_ok u A ?p" using R nin ok i' by (simp add: released_def pages_ok_def)
    have spu: "spaces_ok u A" using R by (simp add: released_def)
    let ?w1 = "snd (vmm_unmap_page_in a ?v u)"
    have kv: "kvars ?w1 = kvars u" by simp
    have w1: "proc_at j ?w1 = proc_at j u" using kvarsD(4) [OF kv] by (simp add: proc_at_def)
    let ?w = "pmm_free_page ?p ?w1"
    have kw: "kvars ?w = kvars u" by simp
    have pw: "processes ?w = processes u" by (rule kvarsD(4) [OF kw])
    have cw: "cr3 ?w = cr3 u" by (simp add: vmm_unmap_page_in_def Let_def arr_upd_def paging_tlb_invalidate_def)
    define y where "y = set_proc j (\<lambda>p. p\<lparr>p_pages := (p_pages p)[unat i := (p_pages p ! unat i)\<lparr>pg_paddr := 0\<rparr>]\<rparr>)
       (set_proc j (\<lambda>p. p\<lparr>p_pages := (p_pages p)[unat i := (p_pages p ! unat i)\<lparr>pg_vaddr := 0\<rparr>]\<rparr>) ?w)"
    have body: "?body i u = y" using P at w1 by (simp add: y_def Let_def)
    have pf: "page_frames ?q (unat (i + 1)) = page_frames ?q (unat i) \<union> {?p}" by (auto simp: page_frames_def ui lessThan_Suc)
    have rel: "released A a {?p} u ?w" by (rule release_one [OF spu a(1) du])
    have vs: "vm_same ?w y" by (simp add: y_def vm_same_def pmm_same_def set_proc_def)
    have "released A a (page_frames ?q (unat (i + 1))) s y"
      unfolding pf by (rule released_same [OF released_trans [OF R rel] vs])
    moreover have "cr3 y = cr3 s" using P cw by (simp add: y_def set_proc_def)
    moreover have "length (processes y) = length (processes s)" "p_address_space (proc_at j y) = a"
        "\<forall>k \<ge> unat (i + 1). p_pages (proc_at j y) ! k = p_pages ?q ! k"
      using P j pw ui by (simp_all add: y_def set_proc_def proc_at_def)
    ultimately show "?P (i + 1) (?body i u)" unfolding body by blast
  qed simp
  moreover have "t = set_proc j (\<lambda>p. p\<lparr>p_page_count := 0\<rparr>) (for_u32 0 ?n ?body s)"
    by (simp add: t_def user_process_free_pages_def)
  ultimately show "released A a (page_frames ?q (unat ?n)) s t" "cr3 t = cr3 s"
    using released_same [OF _ set_proc_vm] by (auto simp: set_proc_def)
qed

section \<open>A process that is being loaded\<close>

text \<open>
  From \<open>s\<close> to \<open>t\<close> the process in slot \<open>j\<close> took the data pages \<open>F\<close>; every other frame is where it was.
\<close>

definition holding :: "u32 set \<Rightarrow> u32 \<Rightarrow> u32 \<Rightarrow> 'a user_state_scheme \<Rightarrow> 'a user_state_scheme \<Rightarrow> u32 set \<Rightarrow> bool" where
  "holding A a j s t F \<longleftrightarrow> space_step A a s t \<and> cr3 t = cr3 s \<and> unat j < length (processes t) \<and>
     length (processes t) = length (processes s) \<and> p_address_space (proc_at j t) = a \<and> pages_ok t A (proc_at j t) \<and>
     page_frames (proc_at j t) (unat (p_page_count (proc_at j t))) = F \<and> frame ` F \<subseteq> vm_held a s \<and>
     vm_held a t = vm_held a s - frame ` F \<and> F \<subseteq> managed s A \<and> managed t A = managed s A - F"

lemma holding_start:
  assumes "spaces_ok s A" "unat j < length (processes s)" "p_address_space (proc_at j s) = a" "p_page_count (proc_at j s) = 0"
    "length (p_pages (proc_at j s)) = 16"
  shows "holding A a j s s {}"
  using assms space_step_refl [OF assms(1)] by (simp add: holding_def pages_ok_def page_frames_def)

lemma holding_set:
  assumes "holding A a j s t F" "\<And>q. p_address_space (f q) = p_address_space q \<and> p_pages (f q) = p_pages q \<and> p_page_count (f q) = p_page_count q"
  shows "holding A a j s (set_proc j f t) F"
proof -
  note H = assms(1) [unfolded holding_def]
  have at: "proc_at j (set_proc j f t) = f (proc_at j t)" using H by (simp add: proc_at_def set_proc_def)
  have "pages_ok (set_proc j f t) A (f (proc_at j t))" using H assms(2) by (simp add: pages_ok_def)
  then show ?thesis
    unfolding holding_def at using H assms(2) space_step_same [OF _ set_proc_vm, of A a s t j f]
    by (simp add: page_frames_def vm_held_def) (simp add: set_proc_def)
qed

lemma with_page_frames:
  assumes "length (p_pages q) = 16" "p_page_count q < 16"
  shows "unat (p_page_count (with_page v p q)) = Suc (unat (p_page_count q))"
    and "i < unat (p_page_count q) \<Longrightarrow> p_pages (with_page v p q) ! i = p_pages q ! i"
    and "pg_paddr (p_pages (with_page v p q) ! unat (p_page_count q)) = p"
    and "page_frames (with_page v p q) (Suc (unat (p_page_count q))) = insert p (page_frames q (unat (p_page_count q)))"
proof -
  have lt: "unat (p_page_count q) < 16" using assms(2) by (simp add: word_less_nat_alt)
  show "unat (p_page_count (with_page v p q)) = Suc (unat (p_page_count q))"
    using unat_inc [OF assms(2)] by (simp add: with_page_def)
  show a: "p_pages (with_page v p q) ! i = p_pages q ! i" if "i < unat (p_page_count q)" for i
    using that by (simp add: with_page_def)
  show b: "pg_paddr (p_pages (with_page v p q) ! unat (p_page_count q)) = p" using lt assms(1) by (simp add: with_page_def)
  show "page_frames (with_page v p q) (Suc (unat (p_page_count q))) = insert p (page_frames q (unat (p_page_count q)))"
    using a b by (simp add: page_frames_def lessThan_Suc)
qed

lemma holding_map:
  fixes s t u :: "'a user_state_scheme"
  assumes H: "holding A a j s t F" and a: "a \<in> A" and v: "vm_allowed v" and c: "p_page_count (proc_at j t) < 16"
    and run: "map_copied_user_page (Some j) v src sz f t = (r, u)"
  shows "(r = - 1 \<and> holding A a j s u F \<and> evars u = evars t) \<or>
    (r = 0 \<and> (\<exists>p. p \<notin> F \<and> holding A a j s u (insert p F) \<and> data_ok u A p \<and> filled A u p src sz s \<and>
        (\<forall>w. pte u a w = (if frame w = frame v then p OR ((5 OR f) AND 0xfff) else pte t a w)) \<and>
        pd_entry u a (VMM_PDE_INDEX v) AND ((5 OR f) AND 6) = (5 OR f) AND 6 \<and> space_step A a t u \<and>
        evars u = ((tasks t, current_task t, next_task_id t, (processes t)[unat j := with_page v p (proc_at j t)], next_pid t), reg_eflags t)))"
proof -
  note h = H [unfolded holding_def]
  have st: "spaces_ok t A" and hs: "\<And>x. stable s A x \<Longrightarrow> stable t A x \<and> kmem t x = kmem s x" using h by (simp_all add: space_step_def)
  have pg: "length (p_pages (proc_at j t)) = 16" and as: "p_address_space (proc_at j t) = a" and j: "unat j < length (processes t)"
    using h by (simp_all add: pages_ok_def)
  note M = map_copied_step [OF st a as j pg v run]
  show ?thesis
  proof (cases "r = 0")
    case False
    then have r: "r = - 1" using M by blast
    then have e: "evars u = evars t" "vm_held a u = vm_held a t" "space_step A a t u" "cr3 u = cr3 t" "managed u A = managed t A" using M by blast+
    have "pages_ok u A (proc_at j u)" using h e(3) evarsD(4) [OF e(1)] by (simp add: pages_ok_def space_step_def)
    then have "holding A a j s u F"
      unfolding holding_def using h e space_step_trans [of A a s t u] evarsD(3,4) [OF e(1)] by simp
    then show ?thesis using r e by simp
  next
    case True
    then obtain p where p: "data_ok u A p" "p \<in> managed t A" "frame p \<in> free_pages t" "vm_held a u = vm_held a t - {frame p}" "filled A u p src sz t"
        "\<forall>w. pte u a w = (if frame w = frame v then p OR ((5 OR f) AND 0xfff) else pte t a w)"
        "pd_entry u a (VMM_PDE_INDEX v) AND ((5 OR f) AND 6) = (5 OR f) AND 6"
        "evars u = ((tasks t, current_task t, next_task_id t, (processes t)[unat j := with_page v p (processes t ! unat j)], next_pid t), reg_eflags t)"
        "managed u A = managed t A - {p}"
      using M by blast
    have su: "space_step A a t u" "cr3 u = cr3 t" using M by blast+
    have at: "proc_at j u = with_page v p (proc_at j t)" using p(8) j by (simp add: evars_def kvars_def proc_at_def)
    have pu: "processes u = (processes t)[unat j := with_page v p (processes t ! unat j)]" using p(8) by (simp add: evars_def kvars_def)
    note W = with_page_frames [OF pg c, where v = v and p = p]
    have F: "F = page_frames (proc_at j t) (unat (p_page_count (proc_at j t)))" using h by blast
    have Fd: "data_ok t A q" if "q \<in> F" for q using that h by (auto simp: F page_frames_def pages_ok_def)
    then have pF: "p \<notin> F" using data_not_managed p(2) by blast
    have d: "data_ok u A (pg_paddr (p_pages (proc_at j u) ! i))" if "i < Suc (unat (p_page_count (proc_at j t)))" for i
      using that h su(1) p(1) W(2,3) at by (cases "i < unat (p_page_count (proc_at j t))") (auto simp: pages_ok_def space_step_def less_Suc_eq)
    have "inj_on (\<lambda>i. pg_paddr (p_pages (proc_at j u) ! i)) {..<Suc (unat (p_page_count (proc_at j t)))}"
    proof -
      have "inj_on (\<lambda>i. pg_paddr (p_pages (proc_at j u) ! i)) {..<unat (p_page_count (proc_at j t))}"
        using h W(2) at by (simp add: pages_ok_def inj_on_def)
      moreover have "(\<lambda>i. pg_paddr (p_pages (proc_at j u) ! i)) ` {..<unat (p_page_count (proc_at j t))} = F"
        using W(2) at by (simp add: F page_frames_def)
      ultimately show ?thesis using pF W(3) at by (simp add: lessThan_Suc)
    qed
    then have "pages_ok u A (proc_at j u)"
      using d c W(1) pg at by (simp add: pages_ok_def word_less_nat_alt) (simp add: with_page_def)
    moreover have "frame p \<in> vm_held a s" using p(3) h by (auto simp: vm_held_def)
    moreover have "p_address_space (proc_at j u) = a" using as at by (simp add: with_page_def)
    moreover have "page_frames (proc_at j u) (unat (p_page_count (proc_at j u))) = insert p F" using W(1,4) at F by simp
    moreover have "vm_held a u = vm_held a s - frame ` insert p F" using p(4) h by auto
    moreover have "insert p F \<subseteq> managed s A" "managed u A = managed s A - insert p F" using p(2,9) h by auto
    ultimately have "holding A a j s u (insert p F)"
      unfolding holding_def using h su space_step_trans [of A a s t u] pu by simp
    moreover have "filled A u p src sz s" using p(5) hs by (auto simp: filled_def)
    ultimately show ?thesis using True pF p su(1) by (auto simp: proc_at_def)
  qed
qed

lemma holding_freed:
  fixes s t :: "'a user_state_scheme"
  assumes H: "holding A a j s t F" and a: "a \<in> A"
  defines "u \<equiv> user_process_free_pages (Some j) t"
  shows "spaces_ok u A" "kernel_page_directory u = kernel_page_directory s" "vm_held a u = vm_held a s" "p_address_space (proc_at j u) = a"
    and "length (processes u) = length (processes s)"
    and "b \<in> insert (kernel_page_directory s) A - {a} \<Longrightarrow> pte u b w = pte s b w" "space_step A a s u" "managed u A = managed s A"
    and "cr3 u = cr3 s"
proof -
  note h = H [unfolded holding_def]
  have st: "spaces_ok t A" using h by (simp add: space_step_def)
  have R: "released A a F t u" "cr3 u = cr3 s" using free_pages_released [OF st a, of j] h by (simp_all add: u_def)
  note r = R(1) [unfolded released_def]
  show mg: "managed u A = managed s A" using r h by auto
  have F: "q \<notin> F" if "data_ok s A q" for q using data_not_managed [OF that] h by blast
  have ib: "in_bitmap u = in_bitmap s" using r h by (simp add: space_step_def)
  have "stable u A x \<and> kmem u x = kmem s x" if x: "stable s A x" for x
  proof -
    have "stable u A x" using stable_kept [OF _ ib x] mg by simp
    moreover have "stable t A x \<and> kmem t x = kmem s x" using h x by (simp add: space_step_def)
    ultimately show ?thesis using r by simp
  qed
  moreover have "same_dirs (insert (kernel_page_directory s) A) {a} s u"
    using r h same_dirs_trans [of "insert (kernel_page_directory s) A" "{a}" s t u] unfolding space_step_def by simp
  ultimately show "space_step A a s u" "cr3 u = cr3 s" using r h R(2) F by (simp_all add: space_step_def)
  show "spaces_ok u A" "kernel_page_directory u = kernel_page_directory s" using R(1) h by (simp_all add: released_def space_step_def)
  show "vm_held a u = vm_held a s" using R(1) h by (auto simp: released_def)
  show "b \<in> insert (kernel_page_directory s) A - {a} \<Longrightarrow> pte u b w = pte s b w" using R(1) h by (simp add: released_def space_step_def)
  obtain pg where "kvars u = (tasks t, current_task t, next_task_id t, (processes t)[unat j := (processes t ! unat j)\<lparr>p_pages := pg, p_page_count := 0\<rparr>], next_pid t)"
    using free_pages_kvars [of j t] h unfolding u_def by blast
  then show "p_address_space (proc_at j u) = a" "length (processes u) = length (processes s)"
    using h by (simp_all add: kvars_def proc_at_def)
qed

end
