(* ===== verification/ExecProps.thy ===== *)
theory ExecProps
  imports ExecProof KernelRun InitramfsProof
begin

text \<open>
  \<open>user_exec_task\<close> as a whole: the memory and registers a program starts with, and the balance of
  frames when it cannot be started.
\<close>

section \<open>The executable\<close>

definition emxf_ok :: "'a user_state_scheme \<Rightarrow> ptr \<Rightarrow> u32 \<Rightarrow> bool" where
  "emxf_ok s img sz \<longleftrightarrow> img \<noteq> 0 \<and> 12 \<le> sz \<and> map (\<lambda>k. kmem s (img + k)) [0, 1, 2, 3] = map of_char ''EMXF'' \<and>
     read_le32 (kmem s) (img + 4) \<le> 4096 \<and> read_le32 (kmem s) (img + 8) < read_le32 (kmem s) (img + 4) \<and>
     12 + read_le32 (kmem s) (img + 4) \<le> sz"

lemma load_emxf_eq:
  "load_emxf (Some j) img sz s =
     (if emxf_ok s img sz then
        case map_copied_user_page (Some j) 0x400000 (img + 12) (read_le32 (kmem s) (img + 4)) 0 s of (r, t) \<Rightarrow>
          if r \<noteq> 0 then (- 1, t)
          else (0, set_proc j (\<lambda>p. p\<lparr>p_entry := 0x400000 + read_le32 (kmem s) (img + 8)\<rparr>) t)
      else (- 1, s))"
  by (auto simp: load_emxf_def emxf_ok_def user_consts PMM_PAGE_SIZE_eq Let_def not_less not_le split: prod.split)

lemma code_bytes_stable:
  assumes "emxf_ok s img sz" "\<forall>k < sz. stable s A (img + k)"
  shows "\<forall>k < read_le32 (kmem s) (img + 4). stable s A (img + 12 + k)"
proof (intro allI impI)
  let ?n = "read_le32 (kmem s) (img + 4)"
  fix k assume k: "k < ?n"
  have n: "unat ?n \<le> 4096" "12 + ?n \<le> sz" using assms(1) by (simp_all add: emxf_ok_def word_le_nat_alt)
  have u: "unat (12 + ?n) = 12 + unat ?n" "unat (12 + k) = 12 + unat k"
    using n(1) k by (simp_all add: unat_word_ariths word_less_nat_alt)
  have "12 + k < sz" using n(2) k u by (simp add: word_less_nat_alt word_le_nat_alt)
  then show "stable s A (img + 12 + k)" using assms(2) by (simp add: add.assoc)
qed

lemma user_pages: "vm_allowed 0x400000" "vm_allowed 0x7ff000" "frame 0x400000 = 0x400" "frame 0x7ff000 = 0x7ff"
    "VMM_PDE_INDEX 0x400000 = 1" "VMM_PDE_INDEX 0x7ff000 = 1" "page_aligned 0x400000" "page_aligned 0x7ff000"
  by (simp_all add: vm_allowed_def page_aligned_unat VMM_PDE_INDEX_def KERNEL_PDE_INDEX_eq frame_def)

section \<open>Preparing the image\<close>

text \<open>The process and its pages when everything is in place.\<close>

definition prepared :: "u32 set \<Rightarrow> u32 \<Rightarrow> u32 \<Rightarrow> ptr \<Rightarrow> u32 \<Rightarrow> u32 \<Rightarrow> 'a user_state_scheme \<Rightarrow> 'a user_state_scheme \<Rightarrow> bool" where
  "prepared A a j img C S s t \<longleftrightarrow> holding A a j s t {C, S} \<and> C \<noteq> S \<and> data_ok t A C \<and> data_ok t A S \<and>
     filled A t C (img + 12) (read_le32 (kmem s) (img + 4)) s \<and> filled A t S 0 0 s \<and>
     (\<forall>w. pte t a w = (if frame w = 0x400 then C OR 5 else if frame w = 0x7ff then S OR 7 else pte s a w)) \<and>
     pd_entry t a 1 AND 6 = 6 \<and>
     p_entry (proc_at j t) = 0x400000 + read_le32 (kmem s) (img + 8) \<and> p_stack (proc_at j t) = 0x7ff000 \<and>
     p_stack_size (proc_at j t) = 4096 \<and> current_task t = current_task s \<and> tasks t = tasks s \<and> reg_eflags t = reg_eflags s"

lemma filled_kept:
  assumes "space_step A a t u" "data_ok t A p" "filled A t p src sz s"
  shows "filled A u p src sz s"
proof -
  have "page_aligned (vmm_phys_to_virt p)" using assms(2) table_okD(3) by (auto simp: data_ok_def)
  then have "kmem u (vmm_phys_to_virt p + k) = kmem t (vmm_phys_to_virt p + k)" if "k < 4096" for k
    using page_offset(3) [OF _ that] data_stable [OF assms(2)] assms(1) by (simp add: space_step_def)
  then show ?thesis using assms(3) by (simp add: filled_def)
qed

definition code_loaded :: "u32 set \<Rightarrow> u32 \<Rightarrow> u32 \<Rightarrow> ptr \<Rightarrow> u32 \<Rightarrow> 'a user_state_scheme \<Rightarrow> 'a user_state_scheme \<Rightarrow> bool" where
  "code_loaded A a j img C s t \<longleftrightarrow> holding A a j s t {C} \<and> data_ok t A C \<and> filled A t C (img + 12) (read_le32 (kmem s) (img + 4)) s \<and>
     (\<forall>w. pte t a w = (if frame w = 0x400 then C OR 5 else pte s a w)) \<and>
     proc_at j t = (with_page 0x400000 C (proc_at j s))\<lparr>p_entry := 0x400000 + read_le32 (kmem s) (img + 8)\<rparr> \<and>
     tasks t = tasks s \<and> current_task t = current_task s \<and> reg_eflags t = reg_eflags s"

lemma load_emxf_cases:
  fixes s t :: "'a user_state_scheme"
  assumes H: "holding A a j s s {}" and a: "a \<in> A" and c: "p_page_count (proc_at j s) = 0"
    and l: "load_emxf (Some j) img sz s = (r, t)"
  shows "(r \<noteq> 0 \<and> (\<exists>F. holding A a j s t F)) \<or> (r = 0 \<and> emxf_ok s img sz \<and> (\<exists>C. code_loaded A a j img C s t))"
proof (cases "emxf_ok s img sz")
  case False
  then show ?thesis using l H by (auto simp: load_emxf_eq)
next
  case ok: True
  let ?n = "read_le32 (kmem s) (img + 4)" and ?ent = "\<lambda>p. p\<lparr>p_entry := 0x400000 + read_le32 (kmem s) (img + 8)\<rparr> :: user_process"
  obtain r0 u where m: "map_copied_user_page (Some j) 0x400000 (img + 12) ?n 0 s = (r0, u)"
    by (cases "map_copied_user_page (Some j) 0x400000 (img + 12) ?n 0 s")
  have c0: "p_page_count (proc_at j s) < 16" using c by simp
  note M = holding_map [OF H a user_pages(1) c0 m]
  have rt: "(r, t) = (if r0 \<noteq> 0 then (- 1, u) else (0, set_proc j ?ent u))" using l ok by (simp add: load_emxf_eq m)
  show ?thesis
  proof (cases "r0 = 0")
    case False
    then show ?thesis using rt M by auto
  next
    case True
    then obtain C where C: "holding A a j s u {C}" "data_ok u A C" "filled A u C (img + 12) ?n s"
        "\<forall>w. pte u a w = (if frame w = 0x400 then C OR 5 else pte s a w)"
        "evars u = ((tasks s, current_task s, next_task_id s, (processes s)[unat j := with_page 0x400000 C (proc_at j s)], next_pid s), reg_eflags s)"
      using M by (auto simp: user_pages)
    have t: "r = 0" "t = set_proc j ?ent u" using rt True by simp_all
    have "holding A a j s t {C}" unfolding t(2) by (rule holding_set [OF C(1)]) simp
    moreover have j: "unat j < length (processes s)" using H by (simp add: holding_def)
    ultimately have "code_loaded A a j img C s t"
      unfolding code_loaded_def using C(2-5) by (simp add: t(2) filled_def) (simp add: evars_def kvars_def proc_at_def set_proc_def)
    then show ?thesis using t(1) ok by blast
  qed
qed

lemma stack_prepared:
  fixes s t :: "'a user_state_scheme"
  assumes L: "code_loaded A a j img C s t" and S: "S \<noteq> C" "holding A a j s u {S, C}" "data_ok u A S" "filled A u S 0 0 s"
    "\<forall>w. pte u a w = (if frame w = 0x7ff then S OR 7 else pte t a w)" "pd_entry u a 1 AND 6 = 6" "space_step A a t u"
    "evars u = ((tasks t, current_task t, next_task_id t, (processes t)[unat j := with_page 0x7ff000 S (proc_at j t)], next_pid t), reg_eflags t)"
  defines "v \<equiv> set_proc j (\<lambda>p. p\<lparr>p_stack_size := 4096\<rparr>) (set_proc j (\<lambda>p. p\<lparr>p_stack := 0x7ff000\<rparr>) u)"
  shows "prepared A a j img C S s v"
proof -
  note l = L [unfolded code_loaded_def]
  have "data_ok t A C" "filled A t C (img + 12) (read_le32 (kmem s) (img + 4)) s" using l by blast+
  then have "data_ok u A C" "filled A u C (img + 12) (read_le32 (kmem s) (img + 4)) s" using S(7) filled_kept [OF S(7)] by (simp_all add: space_step_def)
  moreover have "holding A a j s v {C, S}" unfolding v_def using S(2) by (intro holding_set) (simp_all add: insert_commute)
  moreover have "pte u a w = (if frame w = 0x400 then C OR 5 else if frame w = 0x7ff then S OR 7 else pte s a w)" for w using S(5) l by simp
  moreover have j: "unat j < length (processes u)" using S(2) by (simp add: holding_def)
  moreover have "processes u ! unat j = with_page 0x7ff000 S (proc_at j t)" using S(8) j by (simp add: evars_def kvars_def)
  ultimately show ?thesis
    unfolding prepared_def using S l by (simp add: v_def filled_def) (simp add: proc_at_def set_proc_def with_page_def evars_def kvars_def)
qed

lemma prepare_exec_cases:
  fixes s t :: "'a user_state_scheme"
  assumes H: "holding A a j s s {}" and a: "a \<in> A" and c: "p_page_count (proc_at j s) = 0"
    and run: "user_prepare_exec (Some j) (Some path) s = (r, t)"
  shows "(r \<noteq> 0 \<and> (\<exists>u F. holding A a j s u F \<and> t = user_process_free_pages (Some j) u)) \<or>
    (r = 0 \<and> (\<exists>img sz C S. initramfs_find (Some path) s = Some (img, sz) \<and> emxf_ok s img sz \<and> prepared A a j img C S s t))"
proof (cases "initramfs_find (Some path) s")
  case None
  then show ?thesis using run H by (auto simp: user_prepare_exec_def)
next
  case (Some f)
  obtain img sz where f: "f = (img, sz)" by (cases f)
  obtain r1 t1 where l: "load_emxf (Some j) img sz s = (r1, t1)" by (cases "load_emxf (Some j) img sz s")
  note E = load_emxf_cases [OF H a c l]
  show ?thesis
  proof (cases "r1 = 0")
    case False
    then show ?thesis using E run Some f l by (auto simp: user_prepare_exec_def)
  next
    case True
    then obtain C where ok: "emxf_ok s img sz" and L: "code_loaded A a j img C s t1" using E by auto
    have H1: "holding A a j s t1 {C}" using L by (simp add: code_loaded_def)
    have c1: "p_page_count (proc_at j t1) < 16" using c L by (simp add: code_loaded_def with_page_def)
    obtain r2 t2 where m: "map_copied_user_page (Some j) 0x7ff000 0 0 2 t1 = (r2, t2)"
      by (cases "map_copied_user_page (Some j) 0x7ff000 0 0 2 t1")
    note M = holding_map [OF H1 a user_pages(2) c1 m]
    have rt: "(r, t) = (if r2 \<noteq> 0 then (- 1, user_process_free_pages (Some j) t2)
        else (0, set_proc j (\<lambda>p. p\<lparr>p_stack_size := 4096\<rparr>) (set_proc j (\<lambda>p. p\<lparr>p_stack := 0x7ff000\<rparr>) t2)))"
      using run Some f l True m by (simp add: user_prepare_exec_def user_consts VMM_PAGE_WRITABLE_def PMM_PAGE_SIZE_eq Let_def split: if_splits)
    show ?thesis
    proof (cases "r2 = 0")
      case False
      then show ?thesis using rt M by auto
    next
      case True
      then obtain S where S: "S \<noteq> C" "holding A a j s t2 {S, C}" "data_ok t2 A S" "filled A t2 S 0 0 s"
          "\<forall>w. pte t2 a w = (if frame w = 0x7ff then S OR 7 else pte t1 a w)" "pd_entry t2 a 1 AND 6 = 6" "space_step A a t1 t2"
          "evars t2 = ((tasks t1, current_task t1, next_task_id t1, (processes t1)[unat j := with_page 0x7ff000 S (proc_at j t1)], next_pid t1), reg_eflags t1)"
        using M by (auto simp: user_pages)
      show ?thesis using stack_prepared [OF L S] rt True Some f ok by auto
    qed
  qed
qed

section \<open>Enough memory\<close>

text \<open>A page takes one frame, and one more when its page table is missing.\<close>

lemma map_copied_succeeds:
  fixes s :: "'a user_state_scheme"
  assumes H: "holding A a j s0 s F" and a: "a \<in> A" and v: "vm_allowed v" and c: "p_page_count (proc_at j s) < 16"
    and sz: "sz \<le> 4096" and ev: "even (pte s a v)"
    and room: "(if odd (pd_entry s a (VMM_PDE_INDEX v)) then 1 else 2) \<le> card (low_free s)"
    and run: "map_copied_user_page (Some j) v src sz f s = (r, t)"
  shows "r = 0 \<and> card (low_free s) \<le> card (low_free t) + (if odd (pd_entry s a (VMM_PDE_INDEX v)) then 1 else 2)"
proof -
  note h = H [unfolded holding_def]
  have sp: "spaces_ok s A" using h by (simp add: space_step_def)
  have as: "p_address_space (proc_at j s) = a" using h by blast
  note mem = spaces_okD(1) [OF sp]
  have "low_free s \<noteq> {}" using room by (auto split: if_splits)
  then obtain p u where pu: "pmm_alloc_page s = (p, u)" "p \<noteq> 0" "vmm_phys_to_virt p \<noteq> 0" "frame p \<in> low_free s"
    using fresh_page_low [OF mem] by blast
  define x where "x = fill_page p src sz u"
  note X = filled_page [OF sp a pu(1-3) sz x_def]
  have px: "proc_at j x = proc_at j s" by (rule evarsD(4) [OF X(10)])
  obtain r' w where w: "vmm_map_page_in a v p (5 OR f) x = (r', w)" by (cases "vmm_map_page_in a v p (5 OR f) x")
  have rt: "r = (if r' = 0 then 0 else - 1)" "r' = 0 \<Longrightarrow> t = record_page j v p w"
    using run c sz pu w px as by (auto simp: map_copied_eq not_le not_less x_def [symmetric] split: if_splits)
  have spx: "spaces_ok x A" using X(1) by (simp add: space_step_def)
  note Dx = spaces_okD [OF spx]
  note L = alloc_page_spec [OF mem pu(1,2)]
  note fx = X(12) and pdx = X(13)
  have lx: "low_free x = low_free s - {frame p}" using fx by (auto simp: low_free_def)
  then have cx: "card (low_free x) = card (low_free s) - 1" using pu(4) by simp
  have g: "map_guard x a v p"
  proof -
    have "can_alloc x" if "even (pd_entry s a (VMM_PDE_INDEX v))"
    proof -
      have "0 < card (low_free x)" using room that cx by simp
      then have "low_free x \<noteq> {}" by auto
      then show ?thesis using can_alloc_low [OF Dx(1)] by blast
    qed
    moreover have "may_map x a v" using v vm_may_map [of A a x] spx a by (simp add: vm_inv_def vm_allowed_def)
    ultimately show ?thesis using v ev X(8) L(2) pdx by (simp add: map_guard_def vm_allowed_def)
  qed
  note M = map_page_in_spec(1) [OF Dx(1) Dx(4) [OF a] w g]
  have st: "vm_step x w a (walk_pages w a v)" "same_pdes x w a v" and r': "r' = 0" using M by blast+
  have new: "q = tbl (pd_entry w a (VMM_PDE_INDEX v)) \<and> even (pd_entry s a (VMM_PDE_INDEX v))" if "q \<in> pt_pages w a - pt_pages x a" for q
  proof -
    have "q \<noteq> a" "q \<in> insert a {tbl (pd_entry w a i) |i. i < 1024 \<and> odd (pd_entry w a i)}"
      using that pt_pagesI(1) [of a x] by (auto simp: pt_pages_def)
    then obtain i where i: "i < 1024" "odd (pd_entry w a i)" "q = tbl (pd_entry w a i)" by blast
    have "\<not> odd (pd_entry x a i)"
    proof
      assume o: "odd (pd_entry x a i)"
      show False using that vm_stepD(7) [OF st(1) i(1) o] pt_pagesI(2) [OF i(1) o] i(3) by simp
    qed
    moreover have "i = VMM_PDE_INDEX v" using i st(2) that pt_pagesI(2) [OF i(1), of x a] by (auto simp: same_pdes_def)
    ultimately show ?thesis using i pdx [OF i(1)] by auto
  qed
  let ?N = "if odd (pd_entry s a (VMM_PDE_INDEX v)) then {} else {frame (tbl (pd_entry w a (VMM_PDE_INDEX v)))}"
  have "low_free x \<subseteq> low_free w \<union> ?N" using new vm_stepD(9) [OF st(1)] by (auto simp: low_free_def)
  moreover have "finite (low_free w \<union> ?N)" by (simp add: low_free_def)
  ultimately have "card (low_free x) \<le> card (low_free w \<union> ?N)" by (rule card_mono [rotated])
  also have "\<dots> \<le> card (low_free w) + card ?N" by (rule card_Un_le)
  finally have "card (low_free x) \<le> card (low_free w) + (if odd (pd_entry s a (VMM_PDE_INDEX v)) then 0 else 1)" by (simp split: if_splits)
  moreover have "low_free t = low_free w" using rt(2) r' vm_same_parts(7) [OF record_page_vm(1) [of w j v p]] by (simp add: low_free_def)
  moreover have "0 < card (low_free s)" using pu(4) by (auto simp: card_gt_0_iff low_free_def)
  ultimately show ?thesis using rt(1) r' cx by auto
qed

section \<open>Starting a program\<close>

text \<open>
  What \<open>user_spawn\<close> leaves for the new thread: a process with an empty address space of its own.  The
  program is found intact when, besides, the bytes of its executable are in frames nobody manages.
\<close>

definition exec_start :: "'a user_state_scheme \<Rightarrow> u32 set \<Rightarrow> u32 \<Rightarrow> u32 \<Rightarrow> bool" where
  "exec_start s A j a \<longleftrightarrow> spaces_ok s A \<and> a \<in> A \<and> user_process_find_by_task_id (sched_current_task_id s) s = Some j \<and>
     length (processes s) = 16 \<and> p_address_space (proc_at j s) = a \<and> p_page_count (proc_at j s) = 0 \<and>
     length (p_pages (proc_at j s)) = 16 \<and> (\<forall>i < KERNEL_PDE_INDEX. pd_entry s a i = 0)"

definition exec_ready :: "'a user_state_scheme \<Rightarrow> u32 set \<Rightarrow> u32 \<Rightarrow> u32 \<Rightarrow> bool" where
  "exec_ready s A j a \<longleftrightarrow> exec_start s A j a \<and>
     (case initramfs_find (Some (c_string (p_path (proc_at j s)))) s of None \<Rightarrow> True
      | Some (img, sz) \<Rightarrow> unat img + unat sz < 2 ^ 32 \<and> (\<forall>k < sz. stable s A (img + k)))"

lemma exec_startD:
  assumes "exec_start s A j a"
  shows "spaces_ok s A" "a \<in> A" "user_process_find_by_task_id (sched_current_task_id s) s = Some j" "length (processes s) = 16"
    "p_page_count (proc_at j s) = 0" "holding A a j s s {}" "vm_held a s = free_pages s" "a \<noteq> 0" "unat j < 16"
    "VMM_PDE_INDEX w < KERNEL_PDE_INDEX \<Longrightarrow> pte s a w = 0"
proof -
  note E = assms [unfolded exec_start_def]
  show "spaces_ok s A" "a \<in> A" "length (processes s) = 16" "p_page_count (proc_at j s) = 0"
    and f: "user_process_find_by_task_id (sched_current_task_id s) s = Some j" using E by blast+
  show j: "unat j < 16" using find_by_task_Some [OF f] by simp
  show "holding A a j s s {}" using E j by (intro holding_start) simp_all
  show "vm_held a s = free_pages s" using E by (auto simp: vm_held_def user_tables_def)
  show "a \<noteq> 0" using E table_okD(4) [OF as_okD(1) [OF spaces_okD(4)]] by blast
  show "VMM_PDE_INDEX w < KERNEL_PDE_INDEX \<Longrightarrow> pte s a w = 0" using E by (simp add: pte_def)
qed

lemma exec_readyD:
  assumes "exec_ready s A j a"
  shows "exec_start s A j a"
    "initramfs_find (Some (c_string (p_path (proc_at j s)))) s = Some (img, sz) \<Longrightarrow> unat img + unat sz < 2 ^ 32 \<and> (\<forall>k < sz. stable s A (img + k))"
  using assms by (auto simp: exec_ready_def split: option.splits)

text \<open>The two ends of \<open>user_exec_task\<close>.\<close>

definition exec_fail :: "u32 \<Rightarrow> 'a user_state_scheme \<Rightarrow> 'a user_state_scheme" where
  "exec_fail j s =
     (let s = snd (printk (''user: failed to execute %s'' @ [CHR 0x0A]) [VStr (Some (c_string (p_path (proc_at j s))))] s);
          s = (if p_address_space (proc_at j s) \<noteq> 0 then vmm_destroy_address_space (p_address_space (proc_at j s)) s else s)
      in user_process_release (Some j) s)"

lemma exec_task_eq:
  assumes "user_process_find_by_task_id (sched_current_task_id s) s = Some j"
  shows "user_exec_task s =
    (case user_prepare_exec (Some j) (Some (c_string (p_path (proc_at j s)))) s of (r, u) \<Rightarrow>
       if r \<noteq> 0 then Goes (exec_fail j u)
       else if current_task u = 0 \<or> p_address_space (proc_at j u) = 0
       then Goes (exec_fail j (user_process_free_pages (Some j) u))
       else user_enter (Some j) (set_proc j (\<lambda>p. p\<lparr>p_state := USER_PROCESS_RUNNING\<rparr>)
         (paging_load_directory (p_address_space (proc_at j u))
           (set_task (current_task u) (\<lambda>t. t\<lparr>t_address_space := p_address_space (proc_at j u)\<rparr>) u))))"
  using assms by (auto simp: user_exec_task_def exec_fail_def sched_set_current_address_space_def Let_def split: prod.split)

text \<open>The program and registers in ring 3.\<close>

definition image_loaded ::
    "'a user_state_scheme \<Rightarrow> u32 set \<Rightarrow> u32 \<Rightarrow> u32 \<Rightarrow> ptr \<Rightarrow> 'a user_state_scheme \<Rightarrow> bool" where
  "image_loaded s A j a img t \<longleftrightarrow>
    (\<forall>k < 4096. cpu_byte t (0x400000 + k) = Some (if k < read_le32 (kmem s) (img + 4) then kmem s (img + 12 + k) else 0)) \<and>
    (\<forall>k < 4096. cpu_byte t (0x7ff000 + k) = Some 0) \<and>
    (\<exists>C S. data_ok t A C \<and> data_ok t A S \<and> C \<noteq> S \<and> (\<forall>w. VMM_PDE_INDEX w < KERNEL_PDE_INDEX \<longrightarrow>
       pte t a w = (if frame w = 0x400 then C OR 5 else if frame w = 0x7ff then S OR 7 else 0))) \<and> pd_entry t a 1 AND 6 = 6 \<and>
    user_eip t = 0x400000 + read_le32 (kmem s) (img + 8) \<and> user_esp t = 0x800000 \<and> user_cs t = 0x1B \<and> user_ss t = 0x23 \<and>
    interrupts_on t \<and> cr3 t = a \<and> spaces_ok t A \<and> p_state (proc_at j t) = USER_PROCESS_RUNNING"

lemma exec_task_enters:
  fixes s :: "'a user_state_scheme"
  assumes "exec_ready s A j a" "user_exec_task s = Enters t"
  shows "\<exists>img sz. initramfs_find (Some (c_string (p_path (proc_at j s)))) s = Some (img, sz) \<and> emxf_ok s img sz \<and>
    image_loaded s A j a img t \<and> (\<forall>b \<in> insert (kernel_page_directory s) A - {a}. \<forall>w. pte t b w = pte s b w)"
proof -
  note E = exec_startD [OF exec_readyD(1) [OF assms(1)]] and A = exec_readyD(2) [OF assms(1)]
  let ?path = "c_string (p_path (proc_at j s))"
  obtain r u where u: "user_prepare_exec (Some j) (Some ?path) s = (r, u)" by (cases "user_prepare_exec (Some j) (Some ?path) s")
  have ent: "r = 0" "user_enter (Some j) (set_proc j (\<lambda>p. p\<lparr>p_state := USER_PROCESS_RUNNING\<rparr>) (paging_load_directory (p_address_space (proc_at j u))
        (set_task (current_task u) (\<lambda>t. t\<lparr>t_address_space := p_address_space (proc_at j u)\<rparr>) u))) = Enters t"
    using assms(2) unfolding exec_task_eq [OF E(3)] u by (auto split: if_splits)
  obtain img sz C S where P: "initramfs_find (Some ?path) s = Some (img, sz)" "emxf_ok s img sz" "prepared A a j img C S s u"
    using prepare_exec_cases [OF E(6,2,5) u] ent(1) by blast
  note p = P(3) [unfolded prepared_def] and h = conjunct1 [OF P(3) [unfolded prepared_def], unfolded holding_def]
  define x where "x = set_proc j (\<lambda>p. p\<lparr>p_state := USER_PROCESS_RUNNING\<rparr>) (paging_load_directory a (set_task (current_task u) (\<lambda>t. t\<lparr>t_address_space := a\<rparr>) u))"
  have ju: "unat j < length (processes u)" and au: "p_address_space (proc_at j u) = a" using h by blast+
  have t: "user_enter (Some j) x = Enters t" using ent(2) au by (simp add: x_def)
  have vx: "vm_same u x" "cr3 x = a" by (simp_all add: x_def vm_same_def pmm_same_def set_proc_def paging_load_directory_def set_task_def)
  have px: "proc_at j x = (proc_at j u)\<lparr>p_state := USER_PROCESS_RUNNING\<rparr>" "reg_eflags x = reg_eflags u"
    using ju by (simp_all add: x_def set_proc_def proc_at_def paging_load_directory_def set_task_def)
  have vt: "vm_same x t" "cr3 t = a" "processes t = processes x"
    using t vx(2) by (auto simp: user_enter_def Let_def vm_same_def pmm_same_def)
  have vm: "vm_same u t" using vx(1) vt(1) by (simp add: vm_same_def pmm_same_def)
  note T = vm_same_parts [OF vm]
  have C: "page_aligned C" "vmm_phys_to_virt C \<noteq> 0" and S: "page_aligned S" "vmm_phys_to_virt S \<noteq> 0"
    using p table_okD(1,2) by (auto simp: data_ok_def)
  have pc: "pte t (cr3 t) 0x400000 = C OR 5" "pte t (cr3 t) 0x7ff000 = S OR 7" using p T(5) vt(2) user_pages by simp_all
  have nz: "img + 12 \<noteq> 0"
  proof -
    have "12 \<le> unat sz" using P(2) by (simp add: emxf_ok_def word_le_nat_alt)
    then have "unat (img + 12) = unat img + 12" using A [OF P(1)] by (simp add: unat_word_ariths)
    then show ?thesis by (metis add_eq_0_iff_both_eq_0 unat_0 zero_neq_numeral)
  qed
  have "\<forall>k < read_le32 (kmem s) (img + 4). stable s A (img + 12 + k)" using code_bytes_stable [OF P(2)] A [OF P(1)] by blast
  then have "\<forall>k < 4096. kmem u (vmm_phys_to_virt C + k) = (if k < read_le32 (kmem s) (img + 4) then kmem s (img + 12 + k) else 0)"
    "\<forall>k < 4096. kmem u (vmm_phys_to_virt S + k) = 0" using p nz by (simp_all add: filled_def)
  note F = this
  have "cpu_byte t (0x400000 + k) = Some (if k < read_le32 (kmem s) (img + 4) then kmem s (img + 12 + k) else 0)" if "k < 4096" for k
    using cpu_byte_page [OF pc(1) C(1) _ _ C(2) user_pages(7) that] F(1) T(8) that by simp
  moreover have "cpu_byte t (0x7ff000 + k) = Some 0" if "k < 4096" for k
    using cpu_byte_page [OF pc(2) S(1) _ _ S(2) user_pages(8) that] F(2) T(8) that by simp
  moreover have "pte t a w = (if frame w = 0x400 then C OR 5 else if frame w = 0x7ff then S OR 7 else 0)" if "VMM_PDE_INDEX w < KERNEL_PDE_INDEX" for w
    using p T(5) E(10) [OF that] by simp
  moreover have "data_ok t A C" "data_ok t A S" "C \<noteq> S" using p T(4) by simp_all
  moreover have "pd_entry t a 1 AND 6 = 6" using p T(6) by simp
  moreover have "user_eip t = 0x400000 + read_le32 (kmem s) (img + 8)" "user_esp t = 0x800000" "user_cs t = 0x1B" "user_ss t = 0x23" "interrupts_on t"
    using t p px by (auto simp: user_enter_def Let_def USER_CODE_SELECTOR_def USER_DATA_SELECTOR_def GDT_USER_CODE_def GDT_USER_DATA_def bit_or_iff bit_numeral_rec)
  moreover have "spaces_ok t A" using h T(1) by (simp add: space_step_def)
  moreover have "p_state (proc_at j t) = USER_PROCESS_RUNNING" using vt(3) px by (simp add: proc_at_def)
  moreover have "pte t b w = pte s b w" if "b \<in> insert (kernel_page_directory s) A - {a}" for b w
    using h T(5) that by (simp add: space_step_def)
  ultimately have "image_loaded s A j a img t" unfolding image_loaded_def using vt(2) by (intro conjI allI ballI impI) (assumption | blast)+
  moreover have "pte t b w = pte s b w" if "b \<in> insert (kernel_page_directory s) A - {a}" for b w
    using h T(5) that by (simp add: space_step_def)
  ultimately show ?thesis using P(1,2) by blast
qed

lemma prepare_exec_succeeds:
  fixes s :: "'a user_state_scheme"
  assumes E: "exec_start s A j a" and f: "initramfs_find (Some (c_string (p_path (proc_at j s)))) s = Some (img, sz)" "emxf_ok s img sz"
    and room: "3 \<le> card (low_free s)"
  shows "\<exists>u. user_prepare_exec (Some j) (Some (c_string (p_path (proc_at j s)))) s = (0, u)"
proof -
  note e = exec_startD [OF E]
  let ?n = "read_le32 (kmem s) (img + 4)"
  let ?ent = "\<lambda>p. p\<lparr>p_entry := 0x400000 + read_le32 (kmem s) (img + 8)\<rparr> :: user_process"
  obtain r0 t0 where m: "map_copied_user_page (Some j) 0x400000 (img + 12) ?n 0 s = (r0, t0)"
    by (cases "map_copied_user_page (Some j) 0x400000 (img + 12) ?n 0 s")
  have c0: "p_page_count (proc_at j s) < 16" using e(5) by simp
  have n: "?n \<le> 4096" using f(2) by (simp add: emxf_ok_def)
  have z: "pte s a 0x400000 = 0" "pte s a 0x7ff000 = 0" using e(10) user_pages by (simp_all add: vm_allowed_def)
  have one: "(1 :: u32) < KERNEL_PDE_INDEX" by (simp add: KERNEL_PDE_INDEX_eq)
  then have pd: "even (pd_entry s a (VMM_PDE_INDEX 0x400000))" using E by (simp add: exec_start_def user_pages(5))
  have G: "r0 = 0" "card (low_free s) \<le> card (low_free t0) + 2"
    using map_copied_succeeds [OF e(6,2) user_pages(1) c0 n _ _ m] z pd room by simp_all
  then obtain C where C: "holding A a j s t0 {C}" "\<forall>w. pte t0 a w = (if frame w = 0x400 then C OR 5 else pte s a w)"
      "evars t0 = ((tasks s, current_task s, next_task_id s, (processes s)[unat j := with_page 0x400000 C (proc_at j s)], next_pid s), reg_eflags s)"
    using holding_map [OF e(6,2) user_pages(1) c0 m] by (auto simp: user_pages)
  define t1 where "t1 = set_proc j ?ent t0"
  have H1: "holding A a j s t1 {C}" unfolding t1_def by (rule holding_set [OF C(1)]) simp
  have l: "load_emxf (Some j) img sz s = (0, t1)" using f(2) G(1) by (simp add: load_emxf_eq m t1_def)
  have "proc_at j t1 = ?ent (with_page 0x400000 C (proc_at j s))"
    using C(3) e(4,9) by (simp add: t1_def evars_def kvars_def proc_at_def set_proc_def)
  then have c1: "p_page_count (proc_at j t1) < 16" using e(5) by (simp add: with_page_def)
  obtain r2 t2 where m2: "map_copied_user_page (Some j) 0x7ff000 0 0 2 t1 = (r2, t2)" by (cases "map_copied_user_page (Some j) 0x7ff000 0 0 2 t1")
  have ev: "even (pte t1 a 0x7ff000)" using C(2) z(2) by (simp add: t1_def user_pages)
  have "odd (pte t1 a 0x400000)" using C(2) by (simp add: t1_def user_pages even_or_iff)
  then have od: "odd (pd_entry t1 a (VMM_PDE_INDEX 0x7ff000))" by (auto simp: pte_def Let_def user_pages split: if_splits)
  have "low_free t1 = low_free t0" by (simp add: t1_def low_free_def)
  then have "1 \<le> card (low_free t1)" using G(2) room by simp
  then have "r2 = 0" using map_copied_succeeds [OF H1 e(2) user_pages(2) c1 _ ev _ m2] od by simp
  then show ?thesis
    using f(1) l m2 by (simp add: user_prepare_exec_def user_consts VMM_PAGE_WRITABLE_def Let_def)
qed

lemma enter_some: "\<exists>t. user_enter (Some j) s = Enters t" "user_enter (Some j) s \<noteq> Goes t" "user_enter (Some j) s \<noteq> Halts t"
  by (simp_all add: user_enter_def Let_def)

lemma exec_task_succeeds:
  assumes E: "exec_start s A j a" and f: "initramfs_find (Some (c_string (p_path (proc_at j s)))) s = Some (img, sz)" "emxf_ok s img sz"
    and room: "3 \<le> card (low_free s)" and cur: "current_task s \<noteq> 0"
  shows "\<exists>t. user_exec_task s = Enters t"
proof -
  note e = exec_startD [OF E]
  obtain u where u: "user_prepare_exec (Some j) (Some (c_string (p_path (proc_at j s)))) s = (0, u)"
    using prepare_exec_succeeds [OF E f room] by blast
  obtain C S where "prepared A a j img C S s u" using prepare_exec_cases [OF e(6,2,5) u] f(1) by auto
  then have "current_task u = current_task s" "p_address_space (proc_at j u) = a" by (simp_all add: prepared_def holding_def)
  then show ?thesis unfolding exec_task_eq [OF e(3)] u using cur e(8) enter_some(1) by simp
qed

lemma tty_more_vm_same: "tty_state.more t = tty_state.more s \<Longrightarrow> vm_same s t" for s t :: "'a user_state_scheme"
  by (cases s, cases t) (simp add: vm_same_def pmm_same_def)

lemma printk_vm_same: "vm_same s (snd (printk f a s))" for s :: "'a user_state_scheme"
  by (rule tty_more_vm_same) simp

lemma exec_fail_result:
  fixes s :: "'a user_state_scheme"
  assumes sp: "spaces_ok s A" and a: "a \<in> A" "a \<noteq> 0" "p_address_space (proc_at j s) = a" and j: "unat j < length (processes s)"
  defines "t \<equiv> exec_fail j s"
  shows "spaces_ok t (A - {a})" "free_pages t = insert (frame a) (vm_held a s)" "proc_at j t = zero_process"
    and "b \<in> insert (kernel_page_directory s) A - {a} \<Longrightarrow> pte t b w = pte s b w"
proof -
  define u where "u = snd (printk (''user: failed to execute %s'' @ [CHR 0x0A]) [VStr (Some (c_string (p_path (proc_at j s))))] s)"
  have V: "vm_same s u" unfolding u_def by (rule printk_vm_same)
  note U = vm_same_parts [OF V]
  have k: "kvars u = kvars s" by (simp add: u_def)
  then have pu: "proc_at j u = proc_at j s" "processes u = processes s" using kvarsD(4) [OF k] by (simp_all add: proc_at_def)
  define w where "w = vmm_destroy_address_space a u"
  have t: "t = set_proc j (\<lambda>_. zero_process) w"
    unfolding t_def exec_fail_def u_def [symmetric] Let_def using pu(1) a by (simp add: w_def user_process_release_def)
  have kw: "kvars w = kvars u" unfolding w_def by simp
  have jw: "unat j < length (processes w)" using kvarsD(4) [OF kw] pu(2) j by simp
  have spu: "spaces_ok u A" using U(1) sp by simp
  have "kernel_page_directory u = kernel_page_directory s" using V by (simp add: vm_same_def)
  then show "b \<in> insert (kernel_page_directory s) A - {a} \<Longrightarrow> pte t b w' = pte s b w'" for w'
    using destroy_spaces(2) [OF spu a(1), of b w'] U(5) by (simp add: t w_def)
  show "spaces_ok t (A - {a})" using destroy_spaces(1) [OF spu a(1)] by (simp add: t w_def)
  show "free_pages t = insert (frame a) (vm_held a s)" using destroy_spec(2) [OF spu a(1)] U(7,10) by (simp add: t w_def vm_held_def)
  show "proc_at j t = zero_process" using jw by (simp add: t proc_at_def set_proc_def)
qed

text \<open>Every failure frees the pages of the process before it destroys the address space.\<close>

lemma exec_task_failed:
  fixes s :: "'a user_state_scheme"
  assumes "exec_start s A j a" "user_exec_task s = Goes t"
  obtains x F where "holding A a j s x F" "t = exec_fail j (user_process_free_pages (Some j) x)"
proof -
  note E = exec_startD [OF assms(1)]
  let ?path = "c_string (p_path (proc_at j s))"
  obtain r u where u: "user_prepare_exec (Some j) (Some ?path) s = (r, u)" by (cases "user_prepare_exec (Some j) (Some ?path) s")
  note C = prepare_exec_cases [OF E(6,2,5) u]
  show ?thesis
  proof (cases "r = 0")
    case True
    then have "t = exec_fail j (user_process_free_pages (Some j) u)"
      using assms(2) unfolding exec_task_eq [OF E(3)] u by (simp add: enter_some(2) split: if_splits)
    moreover have "\<exists>F. holding A a j s u F" using C True unfolding prepared_def by blast
    ultimately show ?thesis using that by blast
  next
    case False
    then have "t = exec_fail j u" using assms(2) unfolding exec_task_eq [OF E(3)] u by simp
    then show ?thesis using C False that by blast
  qed
qed

lemma exec_task_fails:
  fixes s :: "'a user_state_scheme"
  assumes "exec_start s A j a" "user_exec_task s = Goes t"
  shows "spaces_ok t (A - {a})" "free_pages t = insert (frame a) (free_pages s)" "proc_at j t = zero_process"
    and "b \<in> insert (kernel_page_directory s) A - {a} \<Longrightarrow> pte t b w = pte s b w"
proof -
  note E = exec_startD [OF assms(1)]
  obtain x F where x: "holding A a j s x F" "t = exec_fail j (user_process_free_pages (Some j) x)" by (rule exec_task_failed [OF assms])
  note H = holding_freed [OF x(1) E(2)]
  have j: "unat j < length (processes (user_process_free_pages (Some j) x))" using H(5) E(4,9) by simp
  note R = exec_fail_result [OF H(1) E(2,8) H(4) j, folded x(2)]
  show "spaces_ok t (A - {a})" "proc_at j t = zero_process" by (rule R(1), rule R(3))
  show "free_pages t = insert (frame a) (free_pages s)" using R(2) H(3) E(7) by simp
  show "b \<in> insert (kernel_page_directory s) A - {a} \<Longrightarrow> pte t b w = pte s b w" using R(4) H(2,6) by simp
qed

section \<open>Leaving a program\<close>

lemma vm_same_refl: "vm_same s s"
  by (simp add: vm_same_def pmm_same_def)

lemma vm_same_then: "vm_same t u \<Longrightarrow> vm_same s u \<longleftrightarrow> vm_same s t"
  by (auto simp: vm_same_def pmm_same_def)

lemma release_vm: "vm_same s (user_process_release p s)"
  by (simp add: user_process_release_def set_proc_vm vm_same_refl split: option.split)

lemmas process_vm = vm_same_then [OF set_proc_vm] vm_same_then [OF release_vm]

lemma orphan_vm: "vm_same s (user_process_orphan_children p s)"
proof (cases p)
  case (Some j)
  show ?thesis
    unfolding Some user_process_orphan_children_def option.case
    by (rule for_u32_invariant [where P = "\<lambda>_. vm_same s"]) (simp_all add: vm_same_refl Let_def process_vm)
qed (simp add: user_process_orphan_children_def vm_same_refl)

lemma exit_released:
  fixes s :: "'a user_state_scheme"
  assumes sp: "spaces_ok s A" and f: "user_process_find_by_task_id (sched_current_task_id s) s = Some j" and l: "length (processes s) = 16"
    and a: "a \<in> A" "p_address_space (proc_at j s) = a" and ok: "pages_ok s A (proc_at j s)"
  shows "released A a (page_frames (proc_at j s) (unat (p_page_count (proc_at j s)))) s (user_exit_current status s)"
proof -
  let ?q = "proc_at j s"
  have j: "unat j < length (processes s)" using find_by_task_Some [OF f] l by simp
  define u where "u = set_proc j (\<lambda>p. p\<lparr>p_state := USER_PROCESS_EXITED\<rparr>) (set_proc j (\<lambda>p. p\<lparr>p_exit_status := status\<rparr>) s)"
  have pu: "proc_at j u = ?q\<lparr>p_exit_status := status, p_state := USER_PROCESS_EXITED\<rparr>" "length (processes u) = length (processes s)"
    using j by (simp_all add: u_def set_proc_def proc_at_def)
  have V: "vm_same s u" by (simp add: u_def process_vm vm_same_refl)
  have ok': "pages_ok u A (proc_at j u)" using ok by (simp add: pages_ok_def pu(1) vm_same_parts [OF V])
  define w where "w = user_process_free_pages (Some j) u"
  have F: "released A a (page_frames ?q (unat (p_page_count ?q))) u w"
    using free_pages_released(1) [OF _ a(1) _ _ ok'] sp a(2) j pu by (simp add: w_def vm_same_parts [OF V] page_frames_def)
  have F': "released A a (page_frames ?q (unat (p_page_count ?q))) s w"
    using F by (simp add: released_def vm_same_parts [OF V] vm_held_def V [unfolded vm_same_def] same_dirs_def)
  obtain x where x: "user_exit_current status s = x \<or> user_exit_current status s = user_process_release (Some j) x"
      "x = user_process_orphan_children (Some j) (set_proc j (\<lambda>p. p\<lparr>p_address_space := 0\<rparr>) w)"
    using f by (simp add: user_exit_current_def Let_def w_def u_def)
  have "vm_same w (user_exit_current status s)" using x by (auto simp: process_vm vm_same_then [OF orphan_vm] vm_same_refl)
  then show ?thesis by (rule released_same [OF F'])
qed

section \<open>Properties\<close>


text \<open>
  C17: a program that cannot be started leaves nothing behind.  \<open>user_exec_task\<close> goes to ring 3
  only with a well-formed executable found in the archive; in every other case (no such file, a
  malformed header, no memory for the code, the stack or their page table) the thread goes on
  after the error message with every frame that was taken free again, the address space destroyed
  and its directory freed, the process slot cleared, and the other address spaces as they were.
\<close>

theorem user_exec_task_fails:
  assumes "exec_ready s A j a"
  shows "case user_exec_task s of
      Enters t \<Rightarrow> \<exists>img sz. initramfs_find (Some (c_string (p_path (proc_at j s)))) s = Some (img, sz) \<and> emxf_ok s img sz
    | Goes t \<Rightarrow> free_pages t = insert (frame a) (free_pages s) \<and> spaces_ok t (A - {a}) \<and> proc_at j t = zero_process \<and>
        (\<forall>b \<in> insert (kernel_page_directory s) A - {a}. \<forall>w. pte t b w = pte s b w)
    | Halts t \<Rightarrow> False"
proof (cases "user_exec_task s")
  case (Enters t)
  then show ?thesis using exec_task_enters [OF assms] by auto
next
  case (Goes t)
  then show ?thesis using exec_task_fails [OF exec_readyD(1) [OF assms] Goes] by simp
next
  case (Halts t)
  then show ?thesis unfolding exec_task_eq [OF exec_startD(3) [OF exec_readyD(1) [OF assms]]]
    by (simp add: enter_some(3) split: if_splits prod.splits)
qed

text \<open>
  \<open>user_exit_current\<close> gives back exactly the pages of the process that exits: each of them is
  free afterwards and no other frame changes hands, the page tables of every other address space,
  the data pages of every other process and the bytes in them stay as they were, and the
  process no longer names its address space, whose tables wait for the thread to be reaped.
\<close>

theorem user_exit_current_frees:
  assumes "spaces_ok s A" "user_process_find_by_task_id (sched_current_task_id s) s = Some j" "length (processes s) = 16"
    and "p_address_space (proc_at j s) = a" "a \<in> A" "pages_ok s A (proc_at j s)"
  shows "let t = user_exit_current status s; F = page_frames (proc_at j s) (unat (p_page_count (proc_at j s))) in
    spaces_ok t A \<and> vm_held a t = vm_held a s \<union> frame ` F \<and>
    (\<forall>b \<in> insert (kernel_page_directory s) A - {a}. \<forall>w. pte t b w = pte s b w) \<and>
    (\<forall>q. data_ok s A q \<and> q \<notin> F \<longrightarrow> data_ok t A q) \<and>
    (\<forall>x. stable s A x \<and> stable t A x \<longrightarrow> kmem t x = kmem s x)"
  unfolding Let_def using exit_released [OF assms(1-3,5,4,6), of status, unfolded released_def]
  by (elim conjE) (intro conjI, assumption+)

section \<open>A concrete program\<close>

text \<open>
  A thread that \<open>user_spawn\<close> has just made, on the small machine, with an archive of one file at
  1 MiB: an executable with the given code, or a file that is not one.
\<close>

definition emxf_file :: "u8 list \<Rightarrow> u8 list" where
  "emxf_file code = map of_char ''EMXF'' @ le32 (length code) @ le32 0 @ code"

definition newborn_process :: user_process where
  "newborn_process = zero_process\<lparr>p_pid := 1, p_task_id := 1, p_state := USER_PROCESS_CREATED, p_path := [47, 97] @ replicate 30 0\<rparr>"

definition newborn0 :: user_state where
  "newborn0 = (small_user ([blank_task\<lparr>t_state := TASK_RUNNABLE\<rparr>, worker\<lparr>t_state := TASK_RUNNING\<rparr>] @ replicate 14 blank_task)
     (replicate 16 zero_process))\<lparr>current_task := 1\<rparr>"

definition newborn_as :: u32 where "newborn_as = fst (vmm_create_address_space newborn0)"
definition newborn1 :: user_state where "newborn1 = snd (vmm_create_address_space newborn0)"

definition newborn_archive :: "u8 list \<Rightarrow> u8 list" where
  "newborn_archive file = map of_char ''EMXA'' @ le32 1 @ [47, 97] @ replicate 30 0 @ le32 48 @ le32 (length file) @ file"

definition newborn :: "u8 list \<Rightarrow> user_state" where
  "newborn file = newborn1\<lparr>
     kmem := \<lambda>x. if x - 0xC0100000 < word_of_nat (length (newborn_archive file)) then newborn_archive file ! unat (x - 0xC0100000) else kmem newborn1 x,
     module_start := 0xC0100000, module_size := word_of_nat (length (newborn_archive file)),
     processes := (newborn_process\<lparr>p_address_space := newborn_as\<rparr>) # replicate 15 zero_process\<rparr>"

lemma newborn0_vm: "vm_same small_vm newborn0"
  by (simp add: vm_same_def pmm_same_def newborn0_def small_user_def small_sched_def small_dev_def small_desc_def boot0_def
      sched_state.defs dev_state.defs desc_state.defs boot_state.defs heap_state.defs vmm_state.defs)

lemma newborn_create: "vmm_create_address_space newborn0 = (newborn_as, newborn1)"
  by (simp add: newborn_as_def newborn1_def)

lemma newborn0_ok: "spaces_ok newborn0 {}" "can_alloc newborn0"
proof -
  show sp: "spaces_ok newborn0 {}" using small_vm_spaces vm_same_parts(1) [OF newborn0_vm] by simp
  have "low_free newborn0 = low_free small_vm" using vm_same_parts(7) [OF newborn0_vm] by (simp add: low_free_def)
  then show "can_alloc newborn0" using can_alloc_low [OF spaces_okD(1) [OF sp]] small_vm_low by simp
qed

lemmas newborn_pages = create_pages [OF newborn0_ok(1) newborn_create newborn0_ok(2)]

lemma newborn1_ok: "spaces_ok newborn1 {newborn_as}"
  using create_spaces(2) [OF newborn0_ok(1) newborn_create newborn0_ok(2)] by simp

lemma newborn1_max: "pmm_max_page newborn1 = 8"
  using newborn_pages(7) newborn0_vm by (simp add: vm_same_def pmm_same_def small_vm_def)

lemma newborn1_kvars: "kvars newborn1 = kvars newborn0"
  unfolding newborn1_def by simp

lemma managed_frame:
  assumes "spaces_ok s A" "q \<in> managed s A"
  shows "frame q < pmm_max_page s"
  using assms spaces_okD(5) [OF assms(1)] pt_pages_ok by (fastforce simp: managed_def free_pages_def table_ok_def)

text \<open>In a machine of eight frames nothing of the memory manager lies above the bitmap at 32 KiB.\<close>

lemma high_area:
  assumes "pmm_max_page s = 8" "spaces_ok s A" "q \<in> managed s A" "0xC0009 \<le> frame x"
  shows "frame x \<noteq> frame (vmm_phys_to_virt q)"
proof -
  have "frame q < 8" using managed_frame [OF assms(2,3)] assms(1) by simp
  moreover have "vmm_phys_to_virt q \<noteq> 0" using assms(3) by (simp add: managed_def)
  ultimately have "unat (frame (vmm_phys_to_virt q)) < 0xC0008" using frame_virt [of q] by (simp add: word_less_nat_alt)
  then show ?thesis using assms(4) by (auto simp: word_le_nat_alt)
qed

lemma high_stable:
  assumes "pmm_max_page s = 8" "spaces_ok s A" "\<And>x. in_bitmap s x \<longleftrightarrow> x = 0xC0008000" "0xC0009 \<le> frame x"
  shows "stable s A x"
proof -
  have "frame 0xC0008000 = 0xC0008" by (simp add: frame_def)
  then have "\<not> in_bitmap s x" using assms(3,4) by auto
  then show ?thesis using high_area [OF assms(1,2) _ assms(4)] by (auto simp: stable_def)
qed

lemma newborn1_stable:
  assumes "x - 0xC0100000 < 0x1000"
  shows "stable newborn1 {newborn_as} x"
proof (rule high_stable [OF newborn1_max newborn1_ok])
  have al: "page_aligned 0xC0100000" "frame 0xC0100000 = 0xC0100" by (simp_all add: page_aligned_unat frame_def)
  show "0xC0009 \<le> frame x" using frame_of_page [OF al(1), of x] al(2) assms by simp
  show "in_bitmap newborn1 y \<longleftrightarrow> y = 0xC0008000" for y
    using newborn_pages(6) vm_same_parts(11) [OF newborn0_vm] small_vm_bitmap by metis
qed

lemma newborn_parts:
  assumes "length file \<le> 256"
  defines "s \<equiv> newborn file"
  shows "spaces_ok s {newborn_as}" "free_pages s = {1, 2, 3, 5, 6, 7} - {frame newborn_as}" "i < 1024 \<Longrightarrow> i < KERNEL_PDE_INDEX \<Longrightarrow> pd_entry s newborn_as i = 0"
    and "x - 0xC0100000 < 0x1000 \<Longrightarrow> stable s {newborn_as} x" "holds_archive s [([47, 97], file)]"
proof -
  let ?enc = "newborn_archive file"
  have n: "length ?enc = 48 + length file" by (simp add: newborn_archive_def le32_def)
  have w: "unat (word_of_nat (length ?enc) :: u32) = length ?enc" unfolding unat_of_nat by (rule mod_less) (use assms(1) n in simp)
  define m where "m = (\<lambda>x. if x - 0xC0100000 < word_of_nat (length ?enc) then ?enc ! unat (x - 0xC0100000) else kmem newborn1 x)"
  have lt: "x - 0xC0100000 < 0x1000" if "x - 0xC0100000 < word_of_nat (length ?enc)" for x :: u32
    using that w n assms(1) by (simp add: word_less_nat_alt)
  have W: "\<not> stable newborn1 {newborn_as} x \<Longrightarrow> m x = kmem newborn1 x" for x using newborn1_stable lt by (auto simp: m_def)
  note S = stable_write [where m = m, OF newborn1_ok W]
  have v: "vm_same (newborn1\<lparr>kmem := m\<rparr>) s" by (simp add: s_def newborn_def vm_same_def pmm_same_def m_def)
  note V = vm_same_parts [OF v]
  show "spaces_ok s {newborn_as}" using V(1) S(1) by simp
  have "free_pages newborn0 = {1, 2, 3, 5, 6, 7}" using vm_same_parts(7) [OF newborn0_vm] small_vm_free by simp
  then show "free_pages s = {1, 2, 3, 5, 6, 7} - {frame newborn_as}" using V(7) S(2) newborn_pages(5) by simp
  show "i < 1024 \<Longrightarrow> i < KERNEL_PDE_INDEX \<Longrightarrow> pd_entry s newborn_as i = 0" using V(6) S(7) [of newborn_as i] newborn_pages(10) [of i] by simp
  show "x - 0xC0100000 < 0x1000 \<Longrightarrow> stable s {newborn_as} x" using V(3) S(8) newborn1_stable by simp
  have "emxa_encode [([47, 97], file)] = Some ?enc" using assms(1) by (simp add: emxa_encode_def newborn_archive_def)
  moreover have "bytes_at (kmem s) 0xC0100000 ?enc"
    unfolding bytes_at_def
  proof (intro allI impI)
    fix i assume i: "i < length ?enc"
    have u: "unat (word_of_nat i :: u32) = i" unfolding unat_of_nat by (rule mod_less) (use i n assms(1) in simp)
    have "(word_of_nat i :: u32) < word_of_nat (length ?enc)" using i unfolding word_less_nat_alt u w .
    then show "kmem s (0xC0100000 + word_of_nat i) = ?enc ! i" using u by (simp add: s_def newborn_def)
  qed
  ultimately show "holds_archive s [([47, 97], file)]" using w by (simp add: holds_archive_def paths_ok_def s_def newborn_def)
qed

lemma newborn_file:
  assumes "length file \<le> 256"
  shows "initramfs_find (Some [47, 97]) (newborn file) = Some (0xC0100030, word_of_nat (length file))"
    and "i < length file \<Longrightarrow> kmem (newborn file) (0xC0100030 + word_of_nat i) = file ! i"
proof -
  show "initramfs_find (Some [47, 97]) (newborn file) = Some (0xC0100030, word_of_nat (length file))"
    using find_archive(1) [OF newborn_parts(5) [OF assms], of "[47, 97]" 0] by (simp add: file_offset_def newborn_def)
  show "i < length file \<Longrightarrow> kmem (newborn file) (0xC0100030 + word_of_nat i) = file ! i"
  proof -
    assume i: "i < length file"
    have n: "length (newborn_archive file) = 48 + length file" by (simp add: newborn_archive_def le32_def)
    have u: "unat (48 + word_of_nat i :: u32) = 48 + i" using i assms by (simp add: unat_word_ariths unat_of_nat)
    have "unat (word_of_nat (length (newborn_archive file)) :: u32) = 48 + length file" unfolding unat_of_nat n by (rule mod_less) (use assms in simp)
    then have "48 + word_of_nat i < (word_of_nat (length (newborn_archive file)) :: u32)" using i u by (simp add: word_less_nat_alt)
    then show ?thesis by (simp add: newborn_def u) (simp add: newborn_archive_def le32_def nth_append)
  qed
qed

lemma newborn_ready:
  assumes "length file \<le> 256"
  shows "exec_ready (newborn file) {newborn_as} 0 newborn_as"
proof -
  let ?s = "newborn file"
  note P = newborn_parts [OF assms]
  have at: "proc_at 0 ?s = newborn_process\<lparr>p_address_space := newborn_as\<rparr>" by (simp add: proc_at_def newborn_def)
  have "tasks newborn1 = tasks newborn0" "current_task newborn1 = current_task newborn0"
    using kvarsD [OF newborn1_kvars] by simp_all
  then have "sched_current_task_id ?s = 1"
    by (simp add: sched_current_task_id_def task_at_def newborn_def newborn0_def worker_def)
  then have "user_process_find_by_task_id (sched_current_task_id ?s) ?s = Some 0"
    unfolding user_process_find_by_task_id_def
    by (intro first_u32_eqI) (auto simp: at newborn_process_def USER_PROCESS_MAX_def)
  moreover have "c_string (p_path (proc_at 0 ?s)) = [47, 97]" by (simp add: at newborn_process_def c_string_def)
  moreover have "stable ?s {newborn_as} (0xC0100030 + k)" if "k < word_of_nat (length file)" for k
  proof (rule P(4))
    have "unat k < 256" using that assms by (simp add: word_less_nat_alt unat_of_nat)
    then show "0xC0100030 + k - 0xC0100000 < 0x1000" by (simp add: word_less_nat_alt unat_word_ariths)
  qed
  moreover have "length (processes ?s) = 16" by (simp add: newborn_def)
  moreover have "pd_entry ?s newborn_as i = 0" if "i < KERNEL_PDE_INDEX" for i
    using P(3) [of i] that kernel_index by blast
  moreover have "unat (0xC0100030 :: u32) + unat (word_of_nat (length file) :: u32) < 2 ^ 32" using assms by (simp add: unat_of_nat)
  ultimately show ?thesis
    unfolding exec_ready_def exec_start_def using P(1) newborn_file(1) [OF assms] by (simp add: at) (simp add: newborn_process_def zero_process_def)
qed

lemma emxf_file_length: "length (emxf_file code) = 12 + length code"
  by (simp add: emxf_file_def le32_def)

lemma program_image:
  fixes s :: "'a user_state_scheme"
  assumes B: "bytes_at (kmem s) img (emxf_file code)" and c: "0 < length code" "length code \<le> 4096" and z: "img \<noteq> 0"
  shows "read_le32 (kmem s) (img + 4) = word_of_nat (length code)" "read_le32 (kmem s) (img + 8) = 0"
    "i < length code \<Longrightarrow> kmem s (img + 12 + word_of_nat i) = code ! i" "emxf_ok s img (word_of_nat (12 + length code))"
proof -
  have B: "bytes_at (kmem s) img (map of_char ''EMXF'')" "bytes_at (kmem s) (img + 4) (le32 (length code))"
      "bytes_at (kmem s) (img + 8) (le32 0)" "bytes_at (kmem s) (img + 12) code"
    using B unfolding emxf_file_def bytes_at_append by (simp_all add: le32_length add.commute add.left_commute)
  show n: "read_le32 (kmem s) (img + 4) = word_of_nat (length code)" using read_le32_le32 [OF B(2)] c by simp
  show e: "read_le32 (kmem s) (img + 8) = 0" using read_le32_le32 [OF B(3)] by simp
  show "i < length code \<Longrightarrow> kmem s (img + 12 + word_of_nat i) = code ! i" using B(4) by (simp add: bytes_at_def)
  have u: "unat (word_of_nat (length code) :: u32) = length code" "unat (12 + word_of_nat (length code) :: u32) = 12 + length code"
    using c by (simp_all add: unat_of_nat unat_word_ariths)
  note M = bytes_at_nth [OF B(1)]
  have "map (\<lambda>k. kmem s (img + k)) [0, 1, 2, 3] = map of_char ''EMXF''"
    using M [of 0] M [of 1] M [of 2] M [of 3] by simp
  moreover have "(0 :: u32) < word_of_nat (length code)" "(word_of_nat (length code) :: u32) \<le> 4096" "(12 :: u32) \<le> 12 + word_of_nat (length code)"
    using u c by (simp_all add: word_less_nat_alt word_le_nat_alt)
  ultimately show "emxf_ok s img (word_of_nat (12 + length code))" using z by (simp add: emxf_ok_def n e)
qed

lemma newborn_image:
  assumes "0 < length code" "length code \<le> 200"
  defines "s \<equiv> newborn (emxf_file code)"
  shows "read_le32 (kmem s) 0xC0100034 = word_of_nat (length code)" "read_le32 (kmem s) 0xC0100038 = 0"
    "i < length code \<Longrightarrow> kmem s (0xC010003C + word_of_nat i) = code ! i" "emxf_ok s 0xC0100030 (word_of_nat (12 + length code))"
proof -
  have "bytes_at (kmem s) 0xC0100030 (emxf_file code)"
    unfolding bytes_at_def s_def using newborn_file(2) [of "emxf_file code"] emxf_file_length [of code] assms by simp
  note P = program_image [OF this assms(1)]
  show "read_le32 (kmem s) 0xC0100034 = word_of_nat (length code)" "read_le32 (kmem s) 0xC0100038 = 0"
    "i < length code \<Longrightarrow> kmem s (0xC010003C + word_of_nat i) = code ! i" "emxf_ok s 0xC0100030 (word_of_nat (12 + length code))"
    using P assms(2) by simp_all
qed

lemma newborn_room: "length file \<le> 256 \<Longrightarrow> 3 \<le> card (low_free (newborn file))" "current_task (newborn file) = 1"
    "proc_at 0 (newborn file) = newborn_process\<lparr>p_address_space := newborn_as\<rparr>"
    "c_string (p_path (proc_at 0 (newborn file))) = [47, 97]"
proof -
  assume l: "length file \<le> 256"
  have "low_free (newborn file) = {1, 2, 3, 5, 6, 7} - {frame newborn_as}" by (auto simp: low_free_def newborn_parts(2) [OF l])
  moreover have "card ({1, 2, 3, 5, 6, 7 :: u32} - {frame newborn_as}) \<ge> card {1, 2, 3, 5, 6, 7 :: u32} - card {frame newborn_as}"
    by (rule diff_card_le_card_Diff) simp
  moreover have "card {1, 2, 3, 5, 6, 7 :: u32} = 6" by simp
  ultimately show "3 \<le> card (low_free (newborn file))" by simp
next
  show "current_task (newborn file) = 1" using kvarsD(2) [OF newborn1_kvars] by (simp add: newborn_def newborn0_def)
  show at: "proc_at 0 (newborn file) = newborn_process\<lparr>p_address_space := newborn_as\<rparr>" by (simp add: proc_at_def newborn_def)
  show "c_string (p_path (proc_at 0 (newborn file))) = [47, 97]" by (simp add: at newborn_process_def c_string_def)
qed

lemma newborn_found:
  assumes "length code \<le> 200"
  shows "initramfs_find (Some (c_string (p_path (proc_at 0 (newborn (emxf_file code)))))) (newborn (emxf_file code)) =
    Some (0xC0100030, word_of_nat (12 + length code))"
  unfolding newborn_room(4) using newborn_file(1) [of "emxf_file code"] assms by (simp add: emxf_file_length)


text \<open>The program in ring 3, for any short code.\<close>

lemma newborn_enters:
  assumes "0 < length code" "length code \<le> 200"
  obtains t where "user_exec_task (newborn (emxf_file code)) = Enters t" "length (processes t) = 16"
    "image_loaded (newborn (emxf_file code)) {newborn_as} 0 newborn_as 0xC0100030 t"
    "\<And>i. i < length code \<Longrightarrow> cpu_byte t (0x400000 + word_of_nat i) = Some (code ! i)"
proof -
  let ?s = "newborn (emxf_file code)"
  have l: "length (emxf_file code) \<le> 256" using assms by (simp add: emxf_file_length)
  note N = newborn_image [OF assms] and R = newborn_ready [OF l] and f = newborn_found [OF assms(2)]
  obtain t where t: "user_exec_task ?s = Enters t"
    using exec_task_succeeds [OF exec_readyD(1) [OF R] f N(4) newborn_room(1) [OF l]] newborn_room(2) by fastforce
  have I: "image_loaded ?s {newborn_as} 0 newborn_as 0xC0100030 t" using exec_task_enters [OF R t] f by auto
  have P: "length (processes t) = 16"
    using exec_tables(1) [OF exec_startD(3,4) [OF exec_readyD(1) [OF R]] t] exec_startD(4) [OF exec_readyD(1) [OF R]] by (auto simp: user_vars_def)
  have "cpu_byte t (0x400000 + word_of_nat i) = Some (code ! i)" if "i < length code" for i
  proof -
    have u: "unat (word_of_nat i :: u32) = i" "unat (word_of_nat (length code) :: u32) = length code" using that assms by (simp_all add: unat_of_nat)
    have "word_of_nat i < (4096 :: u32)" "word_of_nat i < (word_of_nat (length code) :: u32)" using u that assms by (simp_all add: word_less_nat_alt)
    moreover have "\<forall>k < 4096. cpu_byte t (0x400000 + k) = Some (if k < word_of_nat (length code) then kmem ?s (0xC010003C + k) else 0)"
      using I [unfolded image_loaded_def] N(1) by simp
    ultimately show ?thesis using N(3) [OF that] by simp
  qed
  then show ?thesis by (rule that [OF t P I])
qed

theorem user_exec_task_fails_witness:
  "\<exists>t. user_exec_task (newborn [1, 2, 3]) = Goes t \<and> free_pages t = {1, 2, 3, 5, 6, 7} \<and> spaces_ok t {}"
proof -
  have l: "length [1, 2, 3 :: u8] \<le> 256" by simp
  have f: "initramfs_find (Some (c_string (p_path (proc_at 0 (newborn [1, 2, 3]))))) (newborn [1, 2, 3]) = Some (0xC0100030, 3)"
    unfolding newborn_room(4) using newborn_file(1) [OF l] by simp
  have "\<not> emxf_ok (newborn [1, 2, 3]) 0xC0100030 3" by (simp add: emxf_ok_def)
  moreover have "insert (frame newborn_as) ({1, 2, 3, 5, 6, 7} - {frame newborn_as}) = {1, 2, 3, 5, 6, 7}"
    using newborn_pages(4) vm_same_parts(7) [OF newborn0_vm] small_vm_free by auto
  ultimately show ?thesis
    using user_exec_task_fails [OF newborn_ready [OF l]] f newborn_parts(2) [OF l] by (simp split: progress.splits)
qed

theorem user_exit_current_frees_witness:
  "\<exists>u. user_prepare_exec (Some 0) (Some [47, 97]) (newborn (emxf_file [0x90])) = (0, u) \<and> spaces_ok (user_exit_current 7 u) {newborn_as} \<and>
     vm_held newborn_as (user_exit_current 7 u) = {1, 2, 3, 5, 6, 7} - {frame newborn_as}"
proof -
  let ?s = "newborn (emxf_file [0x90])"
  have l: "length (emxf_file [0x90]) \<le> 256" "0 < length [0x90 :: u8]" "length [0x90 :: u8] \<le> 200" by (simp_all add: emxf_file_length)
  note R = newborn_ready [OF l(1)]
  note E = exec_startD [OF exec_readyD(1) [OF R]]
  obtain u where u: "user_prepare_exec (Some 0) (Some [47, 97]) ?s = (0, u)"
    using prepare_exec_succeeds [OF exec_readyD(1) [OF R] newborn_found [OF l(3)] newborn_image(4) [OF l(2,3)] newborn_room(1) [OF l(1)]] unfolding newborn_room(4) by blast
  obtain img C S where "prepared {newborn_as} newborn_as 0 img C S ?s u" using prepare_exec_cases [OF E(6,2,5) u] by auto
  then have H: "holding {newborn_as} newborn_as 0 ?s u {C, S}" by (simp add: prepared_def)
  note h = H [unfolded holding_def]
  have j: "unat 0 < length (processes ?s)" using E(4) by simp
  obtain p where p: "keeps (processes ?s ! 0) p" "kvars u = (tasks ?s, current_task ?s, next_task_id ?s, (processes ?s)[0 := p], next_pid ?s)"
    using loads_prepare [OF j u] unfolding loads_def by auto
  have at: "proc_at 0 u = p" "length (processes u) = 16" using p(2) E(4) by (simp_all add: proc_at_def kvars_def)
  have "sched_current_task_id u = sched_current_task_id ?s" using p(2) by (simp add: sched_current_task_id_def task_at_def kvars_def)
  moreover have "sched_current_task_id ?s = 1" using find_by_task_Some [OF E(3)] newborn_room(3) [of "emxf_file [0x90]"] by (simp add: proc_at_def newborn_process_def)
  moreover have "p_task_id p = 1" "p_state p = USER_PROCESS_CREATED"
    using p(1) newborn_room(3) [of "emxf_file [0x90]"] by (simp_all add: keeps_def proc_at_def newborn_process_def)
  ultimately have "user_process_find_by_task_id (sched_current_task_id u) u = Some 0"
    unfolding user_process_find_by_task_id_def by (intro first_u32_eqI) (auto simp: at USER_PROCESS_MAX_def)
  from user_exit_current_frees [OF _ this at(2) _ _ , of "{newborn_as}" newborn_as 7] h
  have "spaces_ok (user_exit_current 7 u) {newborn_as}" "vm_held newborn_as (user_exit_current 7 u) = vm_held newborn_as ?s"
    by (auto simp: Let_def space_step_def)
  then show ?thesis using u E(7) newborn_parts(2) [OF l(1)] by simp
qed

end
