(* ===== verification/UserlandProof.thy ===== *)
theory UserlandProof
  imports Userland ExecProps TrapProof
begin

text \<open>
  Programs at work: what their system calls do when their memory is as \<open>user_exec_task\<close> left it, the
  shell as a line editor over the keys it is given, and the programs from start to exit.
\<close>

section \<open>The memory of a program\<close>

text \<open>A code page at 4 MiB and a stack page below 8 MiB, both data pages of the loaded space.\<close>

definition prog_mem :: "u32 set \<Rightarrow> u32 \<Rightarrow> u32 \<Rightarrow> u32 \<Rightarrow> 'a vmm_state_scheme \<Rightarrow> bool" where
  "prog_mem A a C S s \<longleftrightarrow> spaces_ok s A \<and> a \<in> A \<and> cr3 s = a \<and> data_ok s A C \<and> data_ok s A S \<and> C \<noteq> S \<and>
     pte s a 0x400000 = C OR 5 \<and> pte s a 0x7ff000 = S OR 7 \<and> pd_entry s a 1 AND 6 = 6"

lemma prog_mem_same:
  assumes "vm_same s t" "cr3 t = cr3 s"
  shows "prog_mem A a C S t = prog_mem A a C S s"
  by (simp add: prog_mem_def vm_same_parts [OF assms(1)] assms(2))

lemma image_prog_mem:
  assumes "image_loaded s A j a img t" "a \<in> A"
  shows "\<exists>C S. prog_mem A a C S t"
proof -
  have v: "VMM_PDE_INDEX 0x400000 < KERNEL_PDE_INDEX" "VMM_PDE_INDEX 0x7ff000 < KERNEL_PDE_INDEX"
    using user_pages(1,2) by (simp_all only: vm_allowed_def)
  have I: "pd_entry t a 1 AND 6 = 6" "cr3 t = a" "spaces_ok t A" using assms(1) by (simp_all only: image_loaded_def)
  obtain C S where CS: "data_ok t A C" "data_ok t A S" "C \<noteq> S"
      "\<forall>w. VMM_PDE_INDEX w < KERNEL_PDE_INDEX \<longrightarrow> pte t a w = (if frame w = 0x400 then C OR 5 else if frame w = 0x7ff then S OR 7 else 0)"
    using assms(1) unfolding image_loaded_def by blast
  have "pte t a 0x400000 = C OR 5" "pte t a 0x7ff000 = S OR 7" using CS(4) v user_pages(3,4) by simp_all
  then have "prog_mem A a C S t" unfolding prog_mem_def using I CS(1-3) assms(2) by blast
  then show ?thesis by blast
qed

lemma prog_memD:
  assumes "prog_mem A a C S s"
  shows "page_aligned C" "vmm_phys_to_virt C \<noteq> 0" "page_aligned S" "vmm_phys_to_virt S \<noteq> 0" "spaces_ok s A" "data_ok s A S"
    "pte s (cr3 s) 0x400000 = C OR 5" "pte s (cr3 s) 0x7ff000 = S OR 7" "pd_entry s (cr3 s) 1 AND 6 = 6" "odd (pd_entry s (cr3 s) 1)"
    "frame (vmm_phys_to_virt C) \<noteq> frame (vmm_phys_to_virt S)" "a \<in> A" "cr3 s = a"
proof -
  note P = assms [unfolded prog_mem_def]
  show "page_aligned C" "vmm_phys_to_virt C \<noteq> 0" "page_aligned S" "vmm_phys_to_virt S \<noteq> 0" using P table_okD by (auto simp: data_ok_def)
  show "spaces_ok s A" "data_ok s A S" "pte s (cr3 s) 0x400000 = C OR 5" "pte s (cr3 s) 0x7ff000 = S OR 7" "pd_entry s (cr3 s) 1 AND 6 = 6"
    "a \<in> A" "cr3 s = a" using P by simp_all
  show "frame (vmm_phys_to_virt C) \<noteq> frame (vmm_phys_to_virt S)" using P data_apart(2) by blast
  have "odd (pte s (cr3 s) 0x400000)" using P by (simp add: even_or_iff)
  then show "odd (pd_entry s (cr3 s) 1)" by (auto simp: pte_def Let_def user_pages split: if_splits)
qed

lemma code_byte:
  assumes "prog_mem A a C S s" "k < 4096"
  shows "cpu_byte s (0x400000 + k) = Some (kmem s (vmm_phys_to_virt C + k))"
  using cpu_byte_page [OF _ _ _ _ _ user_pages(7) assms(2), of s C 5] prog_memD [OF assms(1)] by simp

lemma stack_byte:
  assumes "prog_mem A a C S s" "k < 4096"
  shows "cpu_byte s (0x7ff000 + k) = Some (kmem s (vmm_phys_to_virt S + k))"
  using cpu_byte_page [OF _ _ _ _ _ user_pages(8) assms(2), of s S 7] prog_memD [OF assms(1)] by simp

text \<open>Ring 3 may do to the stack page what the kernel may.\<close>

lemma user_translate_pte:
  "user_translate w s v =
     (let need = (if w then 7 else 5) in
      if pd_entry s (cr3 s) (VMM_PDE_INDEX v) AND need \<noteq> need \<or> pte s (cr3 s) v AND need \<noteq> need then None
      else Some (tbl (pte s (cr3 s) v) OR (v AND 0xfff)))"
proof -
  have i: "drop_bit 22 v = VMM_PDE_INDEX v"
    using u32_bound [of v] by (simp add: word_unat_eq_iff unat_index drop_bit_eq_div unat_div)
  have o: "odd e" if "e AND 5 = 5 \<or> e AND 7 = 7" for e :: u32
    using that by (metis even_and_iff odd_numeral)
  show ?thesis unfolding user_translate_def i using o
    by (auto simp: pte_def pd_entry_def Let_def VMM_PTE_INDEX_def split: if_splits)
qed

lemma read_rights: "e AND 7 = 7 \<Longrightarrow> e AND 5 = 5" for e :: u32
proof -
  have "e AND 5 = (e AND 7) AND 5" by (simp add: and.assoc)
  then show "e AND 7 = 7 \<Longrightarrow> e AND 5 = 5" by simp
qed

lemma all_rights:
  fixes e :: u32
  assumes "e AND 6 = 6" "odd e"
  shows "e AND 7 = 7" "e AND 5 = 5"
proof -
  have "e AND 1 = 1" using assms(2) by (simp add: and_one_eq odd_iff_mod_2_eq_one)
  then have "(e AND 6) OR (e AND 1) = 7" using assms(1) by simp
  then show "e AND 7 = 7" by (simp flip: bit.conj_disj_distrib)
  then show "e AND 5 = 5" by (rule read_rights)
qed

lemma user_stack:
  assumes P: "prog_mem A a C S s" and k: "k < 4096"
  shows "user_translate w s (0x7ff000 + k) = Some (S + k)"
    "user_load (0x7ff000 + k) s = Some (kmem s (vmm_phys_to_virt S + k))"
    "user_store (0x7ff000 + k) b s = Some (s\<lparr>kmem := (kmem s)(vmm_phys_to_virt S + k := b)\<rparr>)"
proof -
  note D = prog_memD [OF P]
  have fr: "frame (0x7ff000 + k) = frame 0x7ff000" by (rule page_offset(3) [OF user_pages(8) k])
  then have pt: "pte s (cr3 s) (0x7ff000 + k) = S OR 7" using D(8) unfolding pte_def same_frame_index by (metis (no_types, lifting))
  have ix: "VMM_PDE_INDEX (0x7ff000 + k) = 1" using fr user_pages(6) same_frame_index by metis
  have e: "pd_entry s (cr3 s) 1 AND 7 = 7" "pd_entry s (cr3 s) 1 AND 5 = 5" using all_rights [OF D(9,10)] by blast+
  have q: "(S OR 7) AND 7 = 7" "(S OR 7) AND 5 = 5" using and_or_absorb read_rights by blast+
  have "tbl (S OR 7) = S" using D(3) by (simp add: tbl_or tbl_of_aligned)
  then show tr: "user_translate w s (0x7ff000 + k) = Some (S + k)" for w
    using page_offset(2) [OF user_pages(8) k] page_offset(1) [OF D(3) k] e q by (simp add: user_translate_pte ix pt Let_def)
  note V = virt_offset [OF D(3,4) k]
  show "user_load (0x7ff000 + k) s = Some (kmem s (vmm_phys_to_virt S + k))"
    "user_store (0x7ff000 + k) b s = Some (s\<lparr>kmem := (kmem s)(vmm_phys_to_virt S + k := b)\<rparr>)"
    by (simp_all add: user_load_def user_store_def tr V)
qed

lemma stack_write:
  fixes s :: "'a vmm_state_scheme" and b :: u8
  assumes P: "prog_mem A a C S s" and k: "k < 4096"
  defines "t \<equiv> s\<lparr>kmem := (kmem s)(vmm_phys_to_virt S + k := b)\<rparr>"
  shows "prog_mem A a C S t" "i < 4096 \<Longrightarrow> kmem t (vmm_phys_to_virt C + i) = kmem s (vmm_phys_to_virt C + i)"
    "kmem t (vmm_phys_to_virt S + i) = (if i = k then b else kmem s (vmm_phys_to_virt S + i))"
proof -
  note D = prog_memD [OF P]
  have al: "page_aligned (vmm_phys_to_virt S)" "page_aligned (vmm_phys_to_virt C)" using D(1-4) page_aligned_virt by blast+
  have "stable s A (vmm_phys_to_virt S + k)" by (rule data_stable [OF D(6)]) (rule page_offset(3) [OF al(1) k])
  then have W: "\<not> stable s A x \<Longrightarrow> ((kmem s)(vmm_phys_to_virt S + k := b)) x = kmem s x" for x by auto
  note Z = stable_write [OF D(5) W, folded t_def]
  show "prog_mem A a C S t" using P Z(1,6) Z(5,7) [of a] unfolding prog_mem_def by (simp add: t_def)
  show "kmem t (vmm_phys_to_virt C + i) = kmem s (vmm_phys_to_virt C + i)" if "i < 4096"
    using page_offset(3) [OF al(2) that] page_offset(3) [OF al(1) k] D(11) by (auto simp: t_def)
  show "kmem t (vmm_phys_to_virt S + i) = (if i = k then b else kmem s (vmm_phys_to_virt S + i))" by (auto simp: t_def)
qed

section \<open>System calls that return\<close>

lemma cpu_byte_same: "kmem t = kmem s \<Longrightarrow> cr3 t = cr3 s \<Longrightarrow> cpu_byte t v = cpu_byte s v"
  by (simp add: cpu_byte_def cpu_translate_def arr_def Let_def)

text \<open>States with the same memory, paging and keyboard: only the screen changed.\<close>

lemma tty_more_user:
  fixes s t :: "'a user_state_scheme"
  assumes "tty_state.more t = tty_state.more s"
  shows "kmem t = kmem s" "cr3 t = cr3 s" "kb_contents t = kb_contents s" "kb_ok t = kb_ok s" "processes t = processes s"
  using assms by (cases s, cases t, simp add: kb_contents_def kb_count_def kb_ok_def)+

lemma terminal_write_more [simp]: "tty_state.more (terminal_write cs s) = tty_state.more s"
  by (rule terminal_write_frame) simp

lemmas terminal_user [simp] = tty_more_user [OF terminal_write_more]

lemma printk_char: "snd (printk ''%c'' [VInt (scast c)] s) = terminal_write [c] s" for c :: u8
proof -
  have "render (map of_char ''%c'') [VInt (scast c)] = [ucast (scast c :: u32)]" by simp
  moreover have "ucast (scast c :: u32) = c"
  proof (rule bit_word_eqI)
    fix n assume "n < LENGTH(8)"
    then have "n < 7 \<or> n = 7" by auto
    then show "bit (ucast (scast c :: u32) :: u8) n = bit c n" by (auto simp: bit_simps)
  qed
  ultimately show ?thesis by (simp add: printk_def printk_loop_render INT_MAX_def)
qed

lemma sys_write_prints:
  fixes s :: "'a user_state_scheme"
  assumes p: "p \<noteq> 0" and n: "length cs < 2 ^ 32" and b: "\<And>i. i < length cs \<Longrightarrow> cpu_byte s (p + word_of_nat i) = Some (cs ! i)"
  shows "sys_write 1 p (word_of_nat (length cs)) s = Some (word_of_nat (length cs), terminal_write cs s)"
proof -
  let ?n = "word_of_nat (length cs) :: u32"
  let ?body = "\<lambda>i s. map_option (\<lambda>c. snd (printk ''%c'' [VInt (scast c)] s)) (cpu_byte s (p + i))"
  have un: "unat ?n = length cs" unfolding unat_of_nat by (rule mod_less) (use n in simp)
  have "\<exists>t. for_opt 0 ?n ?body s = Some t \<and> t = terminal_write (take (unat ?n) cs) s"
  proof (rule for_opt_invariant [where P = "\<lambda>i t. t = terminal_write (take (unat i) cs) s"])
    fix i u assume i: "i < ?n" and u: "u = terminal_write (take (unat i) cs) s"
    have l: "unat i < length cs" using i un by (simp add: word_less_nat_alt)
    have "cpu_byte u (p + i) = Some (cs ! unat i)" using b [OF l] cpu_byte_same [of u s "p + i"] by (simp add: u)
    moreover have "take (unat (i + 1)) cs = take (unat i) cs @ [cs ! unat i]" using unat_inc [OF i] l by (simp add: take_Suc_conv_app_nth)
    ultimately show "\<exists>v. ?body i u = Some v \<and> v = terminal_write (take (unat (i + 1)) cs) s"
      by (simp add: printk_char u terminal_write_append)
  qed simp_all
  then show ?thesis using p by (simp add: sys_write_def SYS_FD_STDOUT_def un)
qed

lemma user_write_prints:
  fixes s :: "'a user_state_scheme"
  assumes "p \<noteq> 0" "length cs < 2 ^ 32" "\<And>i. i < length cs \<Longrightarrow> cpu_byte s (p + word_of_nat i) = Some (cs ! i)" "n = word_of_nat (length cs)"
  shows "user_write env USER_SYS_FD_STDOUT p n s = Some (sint n, terminal_write cs s)"
  using sys_write_prints [OF assms(1-3)] assms(4)
  by (simp add: user_write_def syscall_stub_def syscall_dispatch_def user_sys_consts sys_consts returning_def int_result_def)

lemma getchar_pops: "getchar env s = Some (sint (fst (keyboard_buffer_pop s)), snd (keyboard_buffer_pop s))"
  by (simp add: getchar_def syscall_stub_def syscall_dispatch_def user_sys_consts sys_consts returning_def int_result_def split_beta)

lemma spawn_calls:
  assumes "copy_string_from_user p EMXA_PATH_SIZE s = Some (Inr path)"
  shows "spawn env p s = map_option (\<lambda>(pid, s). (if pid < 0 then - 1 else sint (word_of_int pid :: u32), s)) (user_spawn (ue_lk env) (Some path) s)"
proof -
  have "spawn env p s = int_result (sys_spawn (ue_lk env) p s)"
    by (cases "sys_spawn (ue_lk env) p s")
      (auto simp: spawn_def syscall_stub_def syscall_dispatch_def user_sys_consts sys_consts returning_def int_result_def)
  then show ?thesis using assms
    by (cases "user_spawn (ue_lk env) (Some path) s") (auto simp: sys_spawn_def int_result_def SYS_ERR_def)
qed

section \<open>The shell\<close>

text \<open>What a key does to the line, and when the memory of the shell holds a line.\<close>

definition shell_edit :: "u8 list \<Rightarrow> u8 \<Rightarrow> u8 list" where
  "shell_edit line k =
     (if k = 8 then butlast line else if 32 \<le> k \<and> k \<le> 126 \<and> length line < 31 then line @ [k] else line)"

definition code_text :: "'a pmm_state_scheme \<Rightarrow> u32 \<Rightarrow> ptr \<Rightarrow> u8 list \<Rightarrow> bool" where
  "code_text s C p cs \<longleftrightarrow> 0x400000 \<le> unat p \<and> unat p + length cs \<le> 0x401000 \<and>
     (\<forall>i < length cs. kmem s (vmm_phys_to_virt C + (p - 0x400000 + word_of_nat i)) = cs ! i)"

definition stack_text :: "'a pmm_state_scheme \<Rightarrow> u32 \<Rightarrow> ptr \<Rightarrow> u8 list \<Rightarrow> bool" where
  "stack_text s S p cs \<longleftrightarrow> 0x7ff000 \<le> unat p \<and> unat p + length cs \<le> 0x800000 \<and>
     (\<forall>i < length cs. kmem s (vmm_phys_to_virt S + (p - 0x7ff000 + word_of_nat i)) = cs ! i)"

definition shell_texts :: "shell_image \<Rightarrow> u32 \<Rightarrow> 'a pmm_state_scheme \<Rightarrow> bool" where
  "shell_texts im C s \<longleftrightarrow> code_text s C (sh_prompt im) (map of_char ''emyx$ '') \<and> code_text s C (sh_erase im) [8] \<and>
     code_text s C (sh_newline im) [10] \<and> code_text s C (sh_run_error im) (map of_char ''shell: failed to run program'' @ [10]) \<and>
     code_text s C (sh_wait_error im) (map of_char ''shell: failed to wait for program'' @ [10])"

definition shell_ok :: "shell_image \<Rightarrow> u32 set \<Rightarrow> u32 \<Rightarrow> u32 \<Rightarrow> u32 \<Rightarrow> u8 list \<Rightarrow> 'a vmm_state_scheme \<Rightarrow> bool" where
  "shell_ok im A a C S line s \<longleftrightarrow> prog_mem A a C S s \<and> shell_texts im C s \<and> length line \<le> 31 \<and> (\<forall>c \<in> set line. 32 \<le> c \<and> c \<le> 126) \<and>
     unat (sh_input im) + 32 \<le> 0x800000 \<and> stack_text s S (sh_input im) line"

lemma offset_small:
  fixes p b :: u32
  assumes "unat b \<le> unat p" "unat p + n \<le> unat b + 4096" "i < n"
  shows "unat (p - b + word_of_nat i) = unat p - unat b + i" "p - b + word_of_nat i < 4096" "b + (p - b + word_of_nat i) = p + word_of_nat i"
proof -
  have "i \<le> 4096" using assms by linarith
  then have i: "unat (word_of_nat i :: u32) = i" by (simp add: unat_of_nat)
  have d: "unat (p - b) = unat p - unat b" using assms(1) by (simp add: unat_sub word_le_nat_alt)
  show "unat (p - b + word_of_nat i) = unat p - unat b + i"
    using i d assms u32_bound [of p] by (simp add: unat_word_ariths)
  then show "p - b + word_of_nat i < 4096" using assms by (simp add: word_less_nat_alt)
  show "b + (p - b + word_of_nat i) = p + word_of_nat i" by simp
qed

lemma code_text_bytes:
  assumes "prog_mem A a C S s" "code_text s C p cs" "i < length cs"
  shows "cpu_byte s (p + word_of_nat i) = Some (cs ! i)"
proof -
  have T: "unat (0x400000 :: u32) \<le> unat p" "unat p + length cs \<le> unat (0x400000 :: u32) + 4096" using assms(2) by (simp_all add: code_text_def)
  note O = offset_small [OF T assms(3)]
  show ?thesis using code_byte [OF assms(1) O(2)] assms(2,3) unfolding O(3) by (simp add: code_text_def)
qed

lemma stack_text_bytes:
  assumes "prog_mem A a C S s" "stack_text s S p cs" "i < length cs"
  shows "cpu_byte s (p + word_of_nat i) = Some (cs ! i)" "user_load (p + word_of_nat i) s = Some (cs ! i)"
proof -
  have T: "unat (0x7ff000 :: u32) \<le> unat p" "unat p + length cs \<le> unat (0x7ff000 :: u32) + 4096" using assms(2) by (simp_all add: stack_text_def)
  note O = offset_small [OF T assms(3)]
  show "cpu_byte s (p + word_of_nat i) = Some (cs ! i)" "user_load (p + word_of_nat i) s = Some (cs ! i)"
    using stack_byte [OF assms(1) O(2)] user_stack(2) [OF assms(1) O(2)] assms(2,3) unfolding O(3) by (simp_all add: stack_text_def)
qed

lemma write_code_text:
  fixes s :: "'a user_state_scheme"
  assumes "prog_mem A a C S s" "code_text s C p cs" "n = word_of_nat (length cs)"
  shows "user_write env USER_SYS_FD_STDOUT p n s = Some (sint n, terminal_write cs s)"
proof (rule user_write_prints [OF _ _ code_text_bytes [OF assms(1,2)] assms(3)])
  show "p \<noteq> 0" "length cs < 2 ^ 32" using assms(2) by (auto simp: code_text_def)
qed

text \<open>One key, and what it leaves.\<close>

lemma shell_ok_same:
  fixes s t :: "'a user_state_scheme"
  assumes "vm_same s t" "cr3 t = cr3 s"
  shows "shell_ok im A a C S line t = shell_ok im A a C S line s"
  using vm_same_parts(8) [OF assms(1)] prog_mem_same [OF assms] by (simp add: shell_ok_def shell_texts_def code_text_def stack_text_def)

lemma shell_ok_write [simp]: "shell_ok im A a C S line (terminal_write cs s) = shell_ok im A a C S line s" for s :: "'a user_state_scheme"
  by (rule shell_ok_same) (simp_all add: tty_more_vm_same)

lemma pop_frame:
  "vm_same s (snd (keyboard_buffer_pop s))" "cr3 (snd (keyboard_buffer_pop s)) = cr3 s" "processes (snd (keyboard_buffer_pop s)) = processes s" for s :: "'a user_state_scheme"
  by (auto simp: keyboard_buffer_pop_def Let_def vm_same_def pmm_same_def)

lemma shell_ok_store:
  fixes s :: "'a user_state_scheme"
  assumes ok: "shell_ok im A a C S line s"
  shows "\<exists>t. user_store (sh_input im + word_of_nat (length line)) b s = Some t \<and> t = s\<lparr>kmem := kmem t\<rparr> \<and> shell_ok im A a C S line t \<and>
    stack_text t S (sh_input im) (line @ [b])"
proof -
  note K = ok [unfolded shell_ok_def]
  have P: "prog_mem A a C S s" and l: "length line \<le> 31" and st: "stack_text s S (sh_input im) line" using K by blast+
  have T: "unat (0x7ff000 :: u32) \<le> unat (sh_input im)" "unat (sh_input im) + 32 \<le> unat (0x7ff000 :: u32) + 4096"
    using K by (simp_all add: stack_text_def)
  let ?k = "\<lambda>i. sh_input im - 0x7ff000 + word_of_nat i"
  have O: "unat (?k i) = unat (sh_input im) - 0x7ff000 + i" "?k i < 4096" "0x7ff000 + ?k i = sh_input im + word_of_nat i" if "i < 32" for i
    using offset_small [OF T that] by simp_all
  have l': "length line < 32" using l by simp
  define t where "t = s\<lparr>kmem := (kmem s)(vmm_phys_to_virt S + ?k (length line) := b)\<rparr>"
  note W = stack_write [OF P O(2) [OF l'], where b = b, folded t_def]
  have ne: "?k i \<noteq> ?k (length line)" if "i < length line" for i
  proof
    assume "?k i = ?k (length line)"
    then have "unat (?k i) = unat (?k (length line))" by (rule arg_cong)
    then show False using O(1) [of i] O(1) [OF l'] that l by linarith
  qed
  have same: "kmem t (vmm_phys_to_virt S + ?k i) = line ! i" if "i < length line" for i
    using W(3) [of "?k i"] ne [OF that] st that by (simp add: stack_text_def)
  have last: "kmem t (vmm_phys_to_virt S + ?k (length line)) = b" using W(3) by simp
  have ct: "code_text t C p cs = code_text s C p cs" for p cs
  proof -
    have "kmem t (vmm_phys_to_virt C + (p - 0x400000 + word_of_nat i)) = kmem s (vmm_phys_to_virt C + (p - 0x400000 + word_of_nat i))"
      if "0x400000 \<le> unat p" "unat p + length cs \<le> 0x401000" "i < length cs" for i
      using W(2) offset_small(2) [of "0x400000" p "length cs" i] that by simp
    then show ?thesis by (auto simp: code_text_def)
  qed
  have "shell_ok im A a C S line t" using K W(1) same by (simp add: shell_ok_def shell_texts_def ct stack_text_def)
  moreover have "stack_text t S (sh_input im) (line @ [b])"
    using T l same last by (auto simp: stack_text_def nth_append less_Suc_eq)
  moreover have "user_store (sh_input im + word_of_nat (length line)) b s = Some t"
    using user_stack(3) [OF P O(2) [OF l'], where b = b] unfolding O(3) [OF l'] by (simp add: t_def)
  moreover have "t = s\<lparr>kmem := kmem t\<rparr>" by (simp add: t_def)
  ultimately show ?thesis by blast
qed

text \<open>\<open>getchar\<close> returns a key as a signed \<open>char\<close>.\<close>

lemma sint_u8: "sint k = (if k < 128 then uint k else uint k - 256)" for k :: u8
proof -
  have u: "0 \<le> uint k" "uint k < 256" using uint_bounded [of k] by simp_all
  then have "uint k div 128 = (if uint k < 128 then 0 else 1)" by auto
  then have "bit (uint k) 7 \<longleftrightarrow> \<not> k < 128" by (simp add: bit_iff_odd word_less_def)
  moreover have "take_bit 8 (uint k) = uint k" using u by (simp add: take_bit_int_eq_self)
  ultimately show ?thesis by (simp add: sint_uint signed_take_bit_eq_take_bit_minus)
qed

lemma key_code:
  fixes k :: u8
  defines "c \<equiv> sint (scast k :: u32)"
  shows "c = 0 \<longleftrightarrow> k = 0" "c = 8 \<longleftrightarrow> k = 8" "c = 10 \<longleftrightarrow> k = 10" "c < 32 \<or> c > 126 \<longleftrightarrow> \<not> (32 \<le> k \<and> k \<le> 126)" "word_of_int c = k"
proof -
  have u: "0 \<le> uint k" "uint k < 256" using uint_bounded [of k] by simp_all
  moreover have "sint k = uint k \<and> uint k < 128 \<or> sint k = uint k - 256 \<and> 128 \<le> uint k" by (simp add: sint_u8 word_less_def not_less)
  ultimately have b: "- 128 \<le> sint k" "sint k < 128" by linarith+
  have "signed_take_bit 31 (sint k) = sint k" by (rule signed_take_bit_int_eq_self) (use b in simp_all)
  then have c: "c = sint k" by (simp add: c_def signed_scast_eq)
  show w: "word_of_int c = k" by (simp add: c)
  show "c = 0 \<longleftrightarrow> k = 0" "c = 8 \<longleftrightarrow> k = 8" "c = 10 \<longleftrightarrow> k = 10"
    using u unfolding c sint_u8 by (auto simp: word_less_def word_uint_eq_iff)
  show "c < 32 \<or> c > 126 \<longleftrightarrow> \<not> (32 \<le> k \<and> k \<le> 126)"
    using u unfolding c sint_u8 by (auto simp: word_less_def word_le_def)
qed

lemma store_frame:
  "t = s\<lparr>kmem := kmem t\<rparr> \<Longrightarrow> kb_ok t = kb_ok s \<and> kb_contents t = kb_contents s \<and> processes t = processes s" for s t :: "'a user_state_scheme"
  by (cases s, cases t) (simp add: kb_ok_def kb_contents_def kb_count_def)

lemma round_key:
  assumes kb: "kb_ok s" "kb_contents s = k # ks" and k: "k \<noteq> 0"
  defines "u \<equiv> snd (keyboard_buffer_pop s)"
  shows "shell_round env im n s =
    (if k = 8 then
       (if n > 0 then Option.bind (user_write env USER_SYS_FD_STDOUT (sh_erase im) 1 u) (\<lambda>(_, s). Some (Continue (n - 1) s)) else Some (Continue n u))
     else if k = 10 then shell_enter env im n u
     else if \<not> (32 \<le> k \<and> k \<le> 126) \<or> n = 31 then Some (Continue n u)
     else Option.bind (user_store (sh_input im + n) k u) (\<lambda>s.
         Option.bind (user_write env USER_SYS_FD_STDOUT (sh_input im + n) 1 s) (\<lambda>(_, s). Some (Continue (n + 1) s))))"
proof -
  have "getchar env s = Some (sint (scast k :: u32), u)" using kb.pop_first [OF kb] by (simp add: getchar_pops u_def)
  then show ?thesis using k key_code [of k] by (cases "32 \<le> k \<and> k \<le> 126") (auto simp: shell_round_def INPUT_SIZE_def)
qed

lemma shell_key:
  fixes s :: "'a user_state_scheme"
  assumes ok: "shell_ok im A a C S line s" and kb: "kb_ok s" "kb_contents s = k # ks" and k: "k \<noteq> 0" "k \<noteq> 10"
  shows "\<exists>t. shell_round env im (word_of_nat (length line)) s = Some (Continue (word_of_nat (length (shell_edit line k))) t) \<and>
    shell_ok im A a C S (shell_edit line k) t \<and> kb_ok t \<and> kb_contents t = ks \<and> processes t = processes s"
proof -
  define u where "u = snd (keyboard_buffer_pop s)"
  let ?n = "word_of_nat (length line) :: u32"
  have oku: "shell_ok im A a C S line u" unfolding u_def using ok shell_ok_same [OF pop_frame(1,2)] by blast
  have kbu: "kb_ok u" "kb_contents u = ks" "processes u = processes s"
    using kb.pop_first [OF kb] kb.invar_pop [OF kb(1)] pop_frame(3) [of s] by (simp_all add: u_def)
  note K = oku [unfolded shell_ok_def] and R = round_key [OF kb k(1), folded u_def]
  have P: "prog_mem A a C S u" and l: "length line \<le> 31" and tx: "shell_texts im C u" using K by blast+
  have un: "unat ?n = length line" using l by (simp add: unat_of_nat)
  have n31: "?n = 31 \<longleftrightarrow> length line = 31" by (simp add: word_unat_eq_iff un)
  consider "k = 8" "line = []" | "k = 8" "line \<noteq> []" | "k \<noteq> 8" "shell_edit line k = line" "\<not> (32 \<le> k \<and> k \<le> 126) \<or> ?n = 31"
    | "k \<noteq> 8" "32 \<le> k" "k \<le> 126" "?n \<noteq> 31" "shell_edit line k = line @ [k]"
    using l n31 unfolding shell_edit_def by (cases "k = 8"; cases "length line = 31"; cases "32 \<le> k \<and> k \<le> 126") auto
  then show ?thesis
  proof cases
    case 1
    then show ?thesis using R [of env im ?n] oku kbu by (simp add: shell_edit_def)
  next
    case 2
    have "0 < ?n" using un 2 by (simp add: word_less_nat_alt)
    moreover have "user_write env USER_SYS_FD_STDOUT (sh_erase im) 1 u = Some (sint (1 :: u32), terminal_write [8] u)"
      using write_code_text [OF P, of "sh_erase im" "[8]" 1 env] tx by (simp add: shell_texts_def)
    moreover have "?n - 1 = word_of_nat (length (butlast line))" using un 2 by (simp add: word_unat_eq_iff unat_minus_one unat_of_nat)
    moreover have "shell_ok im A a C S (butlast line) u"
      using K by (auto simp: shell_ok_def stack_text_def nth_butlast dest: in_set_butlastD)
    ultimately show ?thesis using R [of env im ?n] 2 kbu by (simp add: shell_edit_def)
  next
    case 3
    then show ?thesis using R [of env im ?n] k oku kbu by simp
  next
    case 4
    obtain t where t: "user_store (sh_input im + ?n) k u = Some t" "t = u\<lparr>kmem := kmem t\<rparr>" "shell_ok im A a C S line t"
        "stack_text t S (sh_input im) (line @ [k])"
      using shell_ok_store [OF oku] by blast
    have Pt: "prog_mem A a C S t" using t(3) by (simp add: shell_ok_def)
    have "length line < 31" using l n31 4(4) by auto
    then have okt: "shell_ok im A a C S (line @ [k]) t" using t(3,4) 4 by (simp add: shell_ok_def)
    have b: "cpu_byte t (sh_input im + ?n) = Some k" using stack_text_bytes(1) [OF Pt t(4), of "length line"] by simp
    have "unat (sh_input im + ?n) = unat (sh_input im) + length line" "0x7ff000 \<le> unat (sh_input im)"
      using K un by (simp_all add: unat_word_ariths stack_text_def)
    then have "sh_input im + ?n \<noteq> 0" by (metis add_is_0 le_zero_eq unat_0 zero_neq_numeral)
    then have "user_write env USER_SYS_FD_STDOUT (sh_input im + ?n) 1 t = Some (sint (1 :: u32), terminal_write [k] t)"
      using user_write_prints [of "sh_input im + ?n" "[k]" t 1 env] b by simp
    then show ?thesis using R [of env im ?n] 4 k t(1) okt store_frame [OF t(2)] kbu by simp
  qed
qed

lemma spawn_range:
  assumes "user_spawn lk path s = Some (r, t)" "length (processes s) = 16"
  shows "\<exists>w :: u32. r = sint w"
proof -
  have m: "(- 1 :: int) = sint (- 1 :: u32)" by simp
  show ?thesis using spawn_kvars [OF assms] m by metis
qed

lemma spawned_sign: "pid < 0 \<Longrightarrow> shell_spawned env im (- 1, u) = shell_spawned env im (pid, u)"
  by (simp add: shell_spawned_def)

lemma reads_as_iff:
  assumes "\<And>i. i < length bs \<Longrightarrow> user_load (p + word_of_nat i) s = Some (bs ! i)" "length cs = length bs"
  shows "reads_as p cs s = Some (cs = bs)"
  using assms
proof (induction cs arbitrary: p bs)
  case (Cons c cs)
  then obtain b bt where bs: "bs = b # bt" by (cases bs) auto
  have "user_load (p + 1 + word_of_nat i) s = Some (bt ! i)" if "i < length bt" for i
    using Cons.prems(1) [of "Suc i"] that by (simp add: bs add.assoc)
  then have "reads_as (p + 1) cs s = Some (cs = bt)" using Cons.IH [of bt "p + 1"] Cons.prems(2) by (simp add: bs)
  then show ?case using Cons.prems(1) [of 0] by (auto simp: bs)
qed simp

lemma shell_enter_line:
  fixes s :: "'a user_state_scheme"
  assumes ok: "shell_ok im A a C S line s" and kb: "kb_ok s" and len: "length (processes s) = 16"
  shows "\<exists>t. shell_ok im A a C S line t \<and> kb_ok t \<and> kb_contents t = kb_contents s \<and> processes t = processes s \<and> user_string t (sh_input im) line \<and>
    shell_enter env im (word_of_nat (length line)) s =
      (if line = map of_char ''quit'' then Some (Leave t) else if line = [] then shell_prompt env im t
       else Option.bind (user_spawn (ue_lk env) (Some line) t) (shell_spawned env im))"
proof -
  let ?n = "word_of_nat (length line) :: u32"
  note K = ok [unfolded shell_ok_def]
  have P: "prog_mem A a C S s" and l: "length line \<le> 31" and tx: "shell_texts im C s" using K by blast+
  have un: "unat ?n = length line" using l by (simp add: unat_of_nat)
  have w: "user_write env USER_SYS_FD_STDOUT (sh_newline im) 1 s = Some (sint (1 :: u32), terminal_write [10] s)"
    using write_code_text [OF P, of "sh_newline im" "[10]" 1 env] tx by (simp add: shell_texts_def)
  define u where "u = terminal_write [10] s"
  have oku: "shell_ok im A a C S line u" using ok by (simp add: u_def)
  obtain t where t: "user_store (sh_input im + ?n) 0 u = Some t" "t = u\<lparr>kmem := kmem t\<rparr>" "shell_ok im A a C S line t"
      "stack_text t S (sh_input im) (line @ [0])"
    using shell_ok_store [OF oku] by blast
  have Pt: "prog_mem A a C S t" using t(3) by (simp add: shell_ok_def)
  note B = stack_text_bytes [OF Pt t(4)]
  have b: "cpu_byte t (sh_input im + word_of_nat i) = Some (line ! i)" "user_load (sh_input im + word_of_nat i) t = Some (line ! i)"
    if "i < length line" for i using B [of i] that by (simp_all add: nth_append)
  have us: "user_string t (sh_input im) line"
    unfolding user_string_def using b(1) B(1) [of "length line"] K by (auto simp: word_le_def)
  have q: "(if ?n = 4 then reads_as (sh_input im) (map of_char ''quit'') t else Some False) = Some (line = map of_char ''quit'')"
  proof (cases "length line = 4")
    case True
    then show ?thesis using reads_as_iff [of line "sh_input im" t "map of_char ''quit''"] b(2) by auto
  next
    case False
    then have "?n \<noteq> 4" using un by (auto simp: word_unat_eq_iff)
    then show ?thesis using False by auto
  qed
  have nz: "0 < ?n \<longleftrightarrow> line \<noteq> []" using un by (simp add: word_less_nat_alt)
  have "spawn env (sh_input im) t = map_option (\<lambda>(pid, s). (if pid < 0 then - 1 else sint (word_of_int pid :: u32), s)) (user_spawn (ue_lk env) (Some line) t)"
    if "line \<noteq> []"
  proof (rule spawn_calls)
    have "sh_input im \<noteq> 0" using K by (auto simp: stack_text_def)
    then show "copy_string_from_user (sh_input im) EMXA_PATH_SIZE t = Some (Inr line)"
      using us l that copy_loop_Some [of 0 32 "sh_input im" "[]" t line] by (simp add: copy_string_from_user_def EMXA_PATH_SIZE_def)
  qed
  then have sp: "Option.bind (spawn env (sh_input im) t) (shell_spawned env im) = Option.bind (user_spawn (ue_lk env) (Some line) t) (shell_spawned env im)"
    if "line \<noteq> []" using that spawn_range [of "ue_lk env" "Some line" t] len store_frame [OF t(2)]
    by (cases "user_spawn (ue_lk env) (Some line) t") (auto simp: spawned_sign u_def)
  have "shell_enter env im ?n s = (if line = map of_char ''quit'' then Some (Leave t) else if line = [] then shell_prompt env im t
       else Option.bind (user_spawn (ue_lk env) (Some line) t) (shell_spawned env im))"
    using w t(1) q nz sp by (simp add: shell_enter_def u_def)
  then show ?thesis using t(3) store_frame [OF t(2)] kb us by (auto simp: u_def)
qed

end
