(* ===== verification/UserlandProps.thy ===== *)
theory UserlandProps
  imports UserlandProof
begin

text \<open>
  The programs as a whole, from the image \<open>user_exec_task\<close> loaded to their exit.
\<close>

section \<open>Keys while a program runs\<close>

text \<open>Interrupts that only put keys into the queue.\<close>

definition keys_arrive :: "('a user_state_scheme \<Rightarrow> 'a user_state_scheme) \<Rightarrow> bool" where
  "keys_arrive f \<longleftrightarrow> (\<forall>s. kb_ok s \<longrightarrow> kb_ok (f s) \<and> (\<exists>ks. kb_contents (f s) = kb_contents s @ ks) \<and>
     vm_same s (f s) \<and> cr3 (f s) = cr3 s \<and> processes (f s) = processes s)"

lemma push_frame_user:
  "vm_same s (keyboard_buffer_push k s)" "cr3 (keyboard_buffer_push k s) = cr3 s" "processes (keyboard_buffer_push k s) = processes s"
  for s :: "'a user_state_scheme"
  by (auto simp: keyboard_buffer_push_def Let_def vm_same_def pmm_same_def)

lemma keys_arrive_push: "keys_arrive (fold keyboard_buffer_push ks)"
proof -
  have "vm_same s (fold keyboard_buffer_push ks s) \<and> cr3 (fold keyboard_buffer_push ks s) = cr3 s \<and>
      processes (fold keyboard_buffer_push ks s) = processes s" for s :: "'a user_state_scheme"
  proof (induction ks arbitrary: s)
    case (Cons k ks)
    have "vm_same s (fold keyboard_buffer_push ks (keyboard_buffer_push k s)) =
        vm_same (keyboard_buffer_push k s) (fold keyboard_buffer_push ks (keyboard_buffer_push k s))"
      using push_frame_user(1) [of s k] by (auto simp: vm_same_def pmm_same_def)
    then show ?case using Cons.IH [of "keyboard_buffer_push k s"] push_frame_user(2,3) [of k s] by simp
  qed (simp add: vm_same_refl)
  moreover have "\<exists>r. kb_contents (fold keyboard_buffer_push ks s) = kb_contents s @ r" if "kb_ok s" for s :: "'a user_state_scheme"
    using kb.push_all [OF that, of ks] kb.contents_bound [OF that] by (auto simp: take_Cons')
  ultimately show ?thesis using kb.push_all by (auto simp: keys_arrive_def)
qed

lemma keys_arriveD:
  fixes s :: "'a user_state_scheme"
  assumes "keys_arrive f" "kb_ok s"
  shows "kb_ok (f s)" "\<exists>ks. kb_contents (f s) = kb_contents s @ ks" "shell_ok im A a C S line (f s) = shell_ok im A a C S line s"
    "processes (f s) = processes s"
proof -
  note F = assms(1) [unfolded keys_arrive_def, rule_format, OF assms(2)]
  show "kb_ok (f s)" "\<exists>ks. kb_contents (f s) = kb_contents s @ ks" "processes (f s) = processes s" using F by blast+
  show "shell_ok im A a C S line (f s) = shell_ok im A a C S line s" using F by (intro shell_ok_same) blast+
qed

section \<open>A line\<close>

text \<open>What the loop does with a finished line.\<close>

definition shell_finish ::
    "'a user_state_scheme user_env \<Rightarrow> shell_image \<Rightarrow> u8 list \<Rightarrow> 'a user_state_scheme \<Rightarrow> (int \<times> 'a user_state_scheme) option" where
  "shell_finish env im line t =
     (if line = map of_char ''quit'' then Some (0, t)
      else Option.bind (if line = [] then shell_prompt env im t
          else Option.bind (user_spawn (ue_lk env) (Some line) t) (shell_spawned env im)) (\<lambda>r.
        case r of Continue n u \<Rightarrow> shell_loop env im n u | Leave u \<Rightarrow> Some (0, u)))"

lemma shell_line:
  fixes s :: "'a user_state_scheme"
  assumes ar: "keys_arrive (ue_irq env)" and ok: "shell_ok im A a C S line s" and kb: "kb_ok s" "kb_contents s = keys @ 10 # rest"
    and keys: "0 \<notin> set keys" "10 \<notin> set keys" and len: "length (processes s) = 16"
  shows "\<exists>t. shell_ok im A a C S (foldl shell_edit line keys) t \<and> user_string t (sh_input im) (foldl shell_edit line keys) \<and> kb_ok t \<and>
    (\<exists>ks. kb_contents t = rest @ ks) \<and> processes t = processes s \<and>
    shell_loop env im (word_of_nat (length line)) s = shell_finish env im (foldl shell_edit line keys) t"
  using ok kb keys len
proof (induction keys arbitrary: line s rest)
  case Nil
  define v where "v = ue_irq env s"
  note V = keys_arriveD [OF ar Nil.prems(2), folded v_def]
  obtain ks where v: "kb_contents v = 10 # rest @ ks" using V(2) Nil.prems(3) by auto
  define u where "u = snd (keyboard_buffer_pop v)"
  have oku: "shell_ok im A a C S line u" unfolding u_def using Nil.prems(1) V(3) shell_ok_same [OF pop_frame(1,2)] by blast
  have kbu: "kb_ok u" "kb_contents u = rest @ ks" "processes u = processes s"
    using kb.pop_first [OF V(1) v] kb.invar_pop [OF V(1)] pop_frame(3) [of v] V(4) by (simp_all add: u_def)
  have lu: "length (processes u) = 16" using kbu(3) Nil.prems(6) by simp
  obtain t where t: "shell_ok im A a C S line t" "kb_ok t" "kb_contents t = kb_contents u" "processes t = processes u" "user_string t (sh_input im) line"
      "shell_enter env im (word_of_nat (length line)) u =
        (if line = map of_char ''quit'' then Some (Leave t) else if line = [] then shell_prompt env im t
         else Option.bind (user_spawn (ue_lk env) (Some line) t) (shell_spawned env im))"
    using shell_enter_line [OF oku kbu(1) lu, of env] by blast
  have "shell_round env im (word_of_nat (length line)) v = shell_enter env im (word_of_nat (length line)) u"
    using round_key [OF V(1) v, of env im "word_of_nat (length line)"] by (simp add: u_def)
  then have "shell_loop env im (word_of_nat (length line)) s = shell_finish env im line t"
    unfolding shell_finish_def using t(6) by (subst shell_loop.simps) (simp add: v_def)
  then show ?case using t kbu by auto
next
  case (Cons k keys)
  define v where "v = ue_irq env s"
  note V = keys_arriveD [OF ar Cons.prems(2), folded v_def]
  obtain ks where v: "kb_contents v = k # keys @ 10 # rest @ ks" using V(2) Cons.prems(3) by auto
  have k: "k \<noteq> 0" "k \<noteq> 10" using Cons.prems(4,5) by auto
  have okv: "shell_ok im A a C S line v" using V(3) Cons.prems(1) by blast
  obtain u where u: "shell_round env im (word_of_nat (length line)) v = Some (Continue (word_of_nat (length (shell_edit line k))) u)"
      "shell_ok im A a C S (shell_edit line k) u" "kb_ok u" "kb_contents u = keys @ 10 # rest @ ks" "processes u = processes v"
    using shell_key [OF okv V(1) v k, of env] by blast
  have lu: "length (processes u) = 16" using u(5) V(4) Cons.prems(6) by simp
  have "0 \<notin> set keys" "10 \<notin> set keys" using Cons.prems(4,5) by auto
  note IH = Cons.IH [OF u(2-4) this lu]
  have "shell_loop env im (word_of_nat (length line)) s = shell_loop env im (word_of_nat (length (shell_edit line k))) u"
    using u(1) by (subst shell_loop.simps) (simp add: v_def)
  then show ?case using IH u(5) V(4) by auto
qed

section \<open>From the loaded image\<close>

text \<open>A string literal in the code page, as the program reads it.\<close>

definition literal_at :: "'a vmm_state_scheme \<Rightarrow> ptr \<Rightarrow> u8 list \<Rightarrow> bool" where
  "literal_at t p cs \<longleftrightarrow> 0x400000 \<le> unat p \<and> unat p + length cs \<le> 0x401000 \<and>
     (\<forall>i < length cs. cpu_byte t (p + word_of_nat i) = Some (cs ! i))"

definition shell_literals :: "shell_image \<Rightarrow> 'a vmm_state_scheme \<Rightarrow> bool" where
  "shell_literals im t \<longleftrightarrow> literal_at t (sh_prompt im) (map of_char ''emyx$ '') \<and> literal_at t (sh_erase im) [8] \<and>
     literal_at t (sh_newline im) [10] \<and> literal_at t (sh_run_error im) (map of_char ''shell: failed to run program'' @ [10]) \<and>
     literal_at t (sh_wait_error im) (map of_char ''shell: failed to wait for program'' @ [10]) \<and>
     0x7ff000 \<le> unat (sh_input im) \<and> unat (sh_input im) + 32 \<le> 0x800000"

lemma literal_code_text:
  assumes "prog_mem A a C S t" "literal_at t p cs"
  shows "code_text t C p cs"
  unfolding code_text_def
proof (intro conjI allI impI)
  show "0x400000 \<le> unat p" "unat p + length cs \<le> 0x401000" using assms(2) by (simp_all add: literal_at_def)
  fix i assume i: "i < length cs"
  have T: "unat (0x400000 :: u32) \<le> unat p" "unat p + length cs \<le> unat (0x400000 :: u32) + 4096" using assms(2) by (simp_all add: literal_at_def)
  note O = offset_small [OF T i]
  show "kmem t (vmm_phys_to_virt C + (p - 0x400000 + word_of_nat i)) = cs ! i"
    using code_byte [OF assms(1) O(2)] assms(2) i unfolding O(3) by (simp add: literal_at_def)
qed

lemma shell_starts:
  assumes "prog_mem A a C S t" "shell_literals im t"
  shows "shell_ok im A a C S [] t"
  using assms literal_code_text [OF assms(1)] by (auto simp: shell_literals_def shell_ok_def shell_texts_def stack_text_def)

lemma literal_prints:
  fixes t :: "'a user_state_scheme"
  assumes "literal_at t p cs" "n = word_of_nat (length cs)"
  shows "user_write env USER_SYS_FD_STDOUT p n t = Some (sint n, terminal_write cs t)"
proof (rule user_write_prints [OF _ _ _ assms(2)])
  show "p \<noteq> 0" "length cs < 2 ^ 32" using assms(1) by (auto simp: literal_at_def)
  show "i < length cs \<Longrightarrow> cpu_byte t (p + word_of_nat i) = Some (cs ! i)" for i using assms(1) by (simp add: literal_at_def)
qed

text \<open>A literal with its NUL is the path the kernel receives.\<close>

lemma literal_spawns:
  fixes t :: "'a user_state_scheme"
  assumes "literal_at t p (cs @ [0])" "0 \<notin> set cs" "0 < length cs" "length cs < 32" "length (processes t) = 16"
  shows "spawn env p t = map_option (\<lambda>(pid, s). (if pid < 0 then - 1 else pid, s)) (user_spawn (ue_lk env) (Some cs) t)"
proof -
  have b: "cpu_byte t (p + word_of_nat i) = Some ((cs @ [0]) ! i)" if "i \<le> length cs" for i
    using assms(1) that by (simp add: literal_at_def)
  have "user_string t p cs" unfolding user_string_def using assms(2) b [of "length cs"] b by (auto simp: nth_append)
  moreover have "p \<noteq> 0" using assms(1) by (auto simp: literal_at_def)
  ultimately have "copy_string_from_user p EMXA_PATH_SIZE t = Some (Inr cs)"
    using assms(3,4) copy_loop_Some [of 0 32 p "[]" t cs] by (simp add: copy_string_from_user_def EMXA_PATH_SIZE_def)
  from spawn_calls [OF this, of env] spawn_range [OF _ assms(5), of "ue_lk env" "Some cs"]
  show ?thesis by (cases "user_spawn (ue_lk env) (Some cs) t") fastforce+
qed

lemma wait_range:
  assumes "user_wait others pid s = Some (r, t)"
  shows "\<exists>w :: u32. r = sint w"
proof -
  have m: "\<exists>w :: u32. (- 1 :: int) = sint w" by (rule exI [of _ "- 1"]) simp
  have L: "\<exists>w :: u32. fst x = sint w" if "user_wait_loop others pid c s = Some x" for c x
    by (rule user_wait_loop.raw_induct [OF _ that, of "\<lambda>_ _ _ _ x. \<exists>w :: u32. fst x = sint w"])
      (auto simp: bind_eq_Some_conv split: option.splits if_splits intro: m)
  show ?thesis
  proof (cases "user_process_find_by_task_id (sched_current_task_id s) s")
    case None
    then show ?thesis using assms m by (simp add: user_wait_def)
  next
    case (Some c)
    then show ?thesis using assms L [of c "(r, t)"] by (simp add: user_wait_def)
  qed
qed

lemma wait_calls: "wait env pid s = user_wait (ue_others env) (word_of_int pid) s"
proof (cases "user_wait (ue_others env) (word_of_int pid) s")
  case (Some x)
  obtain r t where x: "x = (r, t)" by (cases x)
  have "sint (word_of_int r :: u32) = r" using wait_range Some x by fastforce
  then show ?thesis using Some x
    by (simp add: wait_def syscall_stub_def syscall_dispatch_def user_sys_consts sys_consts returning_def int_result_def sys_wait_def)
qed (simp add: wait_def syscall_stub_def syscall_dispatch_def user_sys_consts sys_consts returning_def int_result_def sys_wait_def)

lemma start_exits:
  "user_start env main s = Option.bind (main s) (\<lambda>(status, s). sys_exit (word_of_int status) s)"
proof (cases "main s")
  case (Some x)
  then show ?thesis
    by (cases "sys_exit (word_of_int (fst x)) (snd x)") (simp_all add: user_start_def syscall_dispatch_def user_sys_consts sys_consts split_beta)
qed (simp add: user_start_def)

section \<open>Properties\<close>

text \<open>
  C18: the shell runs what was typed.  Started on its loaded image, with any keys queued before an
  Enter and more keys arriving by interrupt at any time, \<open>main\<close> of the shell reaches the Enter without
  a fault and with the line in its buffer that the keys spell (a backspace removes the last
  character, other unprintable keys and those beyond 31 characters are ignored); then it returns
  when the line is \<open>quit\<close>, prompts again when it is empty, and otherwise calls \<open>user_spawn\<close> in the
  kernel with exactly this line as the path.
\<close>

theorem shell_runs_typed_line:
  fixes t :: "'a user_state_scheme"
  assumes "image_loaded s A j a img t" "a \<in> A" "shell_literals im t" "length (processes t) = 16"
    and "keys_arrive (ue_irq env)" "kb_ok t" "kb_contents t = keys @ 10 # rest" "0 \<notin> set keys" "10 \<notin> set keys"
  shows "\<exists>u. user_string u (sh_input im) (foldl shell_edit [] keys) \<and> length (foldl shell_edit [] keys) \<le> 31 \<and>
    spaces_ok u A \<and> (\<exists>ks. kb_contents u = rest @ ks) \<and>
    shell_main env im t = shell_finish env im (foldl shell_edit [] keys) u"
proof -
  obtain C S where P: "prog_mem A a C S t" using image_prog_mem [OF assms(1,2)] by blast
  let ?t = "terminal_write (map of_char ''emyx$ '') t"
  have ok: "shell_ok im A a C S [] ?t" using shell_starts [OF P assms(3)] by simp
  have kb: "kb_ok ?t" "kb_contents ?t = keys @ 10 # rest" "length (processes ?t) = 16" using assms(4,6,7) by simp_all
  obtain u where u: "shell_ok im A a C S (foldl shell_edit [] keys) u" "user_string u (sh_input im) (foldl shell_edit [] keys)"
      "\<exists>ks. kb_contents u = rest @ ks" "shell_loop env im 0 ?t = shell_finish env im (foldl shell_edit [] keys) u"
    using shell_line [OF assms(5) ok kb(1,2) assms(8,9) kb(3)] by auto
  have "user_write env USER_SYS_FD_STDOUT (sh_prompt im) 6 t = Some (sint (6 :: u32), ?t)"
    using literal_prints [of t "sh_prompt im" "map of_char ''emyx$ ''" 6 env] assms(3) by (simp add: shell_literals_def)
  then have "shell_main env im t = shell_finish env im (foldl shell_edit [] keys) u" using u(4) by (simp add: shell_main_def)
  moreover have "spaces_ok u A" "length (foldl shell_edit [] keys) \<le> 31" using u(1) by (simp_all add: shell_ok_def prog_mem_def)
  ultimately show ?thesis using u(2,3) by blast
qed

text \<open>
  C19: \<open>hello\<close> and \<open>init\<close> from \<open>_start\<close> to their exit, each in a machine where its own string constant is
  where its code refers to it.  \<open>hello\<close> prints its line and exits with status 0; \<open>init\<close> spawns
  \<open>/bin/shell\<close>, waits for it and exits with its status, or with 1 when the shell cannot be started
  or the wait fails.
\<close>

theorem init_and_hello_exit:
  fixes t :: "'a user_state_scheme"
  shows "(literal_at t a (map of_char ''hello from C'' @ [10]) \<longrightarrow>
      user_start env (hello_main env a) t = sys_exit 0 (terminal_write (map of_char ''hello from C'' @ [10]) t)) \<and>
    (literal_at t a (map of_char ''/bin/shell'' @ [0]) \<and> length (processes t) = 16 \<longrightarrow>
      user_start env (init_main env a) t =
        Option.bind (user_spawn (ue_lk env) (Some (map of_char ''/bin/shell'')) t) (\<lambda>(pid, u).
          if pid < 0 then sys_exit 1 u
          else Option.bind (user_wait (ue_others env) (word_of_int pid) u) (\<lambda>(status, v).
            sys_exit (if status < 0 then 1 else word_of_int status) v)))"
proof (intro conjI impI)
  assume h: "literal_at t a (map of_char ''hello from C'' @ [10])"
  have "user_write env USER_SYS_FD_STDOUT a 13 t = Some (sint (13 :: u32), terminal_write (map of_char ''hello from C'' @ [10]) t)"
    by (rule literal_prints [OF h]) simp
  then show "user_start env (hello_main env a) t = sys_exit 0 (terminal_write (map of_char ''hello from C'' @ [10]) t)"
    unfolding start_exits hello_main_def by simp
next
  assume p: "literal_at t a (map of_char ''/bin/shell'' @ [0]) \<and> length (processes t) = 16"
  have "spawn env a t = map_option (\<lambda>(pid, s). (if pid < 0 then - 1 else pid, s)) (user_spawn (ue_lk env) (Some (map of_char ''/bin/shell'')) t)"
    by (rule literal_spawns [OF p [THEN conjunct1] _ _ _ p [THEN conjunct2]]) simp_all
  then show "user_start env (init_main env a) t =
      Option.bind (user_spawn (ue_lk env) (Some (map of_char ''/bin/shell'')) t) (\<lambda>(pid, u).
        if pid < 0 then sys_exit 1 u
        else Option.bind (user_wait (ue_others env) (word_of_int pid) u) (\<lambda>(status, v).
          sys_exit (if status < 0 then 1 else word_of_int status) v))"
    unfolding start_exits init_main_def wait_calls
    by (cases "user_spawn (ue_lk env) (Some (map of_char ''/bin/shell'')) t") (auto simp: split_beta intro!: arg_cong2 [where f = Option.bind])
qed

section \<open>Concrete programs\<close>

definition quiet_env :: "user_state user_env" where
  "quiet_env = \<lparr>ue_lk = small_lk, ue_others = Some, ue_irq = (\<lambda>s. s),
     ue_regs = \<lparr>sf_edi = 0, sf_esi = 0, sf_ebp = 0, sf_esp = 0, sf_ebx = 0, sf_edx = 0, sf_ecx = 0, sf_eax = 0\<rparr>\<rparr>"

definition shell_code :: "u8 list" where
  "shell_code = map of_char ''emyx$ '' @ [8, 10] @ (map of_char ''shell: failed to run program'' @ [10]) @
     (map of_char ''shell: failed to wait for program'' @ [10])"

definition small_image :: shell_image where
  "small_image = \<lparr>sh_prompt = 0x400000, sh_erase = 0x400006, sh_newline = 0x400007, sh_run_error = 0x400008, sh_wait_error = 0x400025,
     sh_input = 0x7fffd0\<rparr>"

text \<open>The keys \<open>q u i x\<close>, a backspace, \<open>t\<close> and Enter.\<close>

definition type_quit :: "'a user_state_scheme \<Rightarrow> 'a user_state_scheme" where
  "type_quit t = t\<lparr>keyboard_buffer := [113, 117, 105, 120, 8, 116, 10] @ replicate 25 0, read_index := 0, write_index := 7\<rparr>"

lemma type_quit_same: "vm_same t (type_quit t)" "cr3 (type_quit t) = cr3 t" "processes (type_quit t) = processes t"
  by (simp_all add: type_quit_def vm_same_def pmm_same_def)

lemma type_quit_keys: "kb_ok (type_quit t)" "kb_contents (type_quit t) = [113, 117, 105, 120, 8, 116, 10]"
  by (simp_all add: type_quit_def kb_ok_def kb_contents_def kb_count_def upt_rec)

lemma type_quit_image:
  assumes "image_loaded s A j a img t"
  shows "image_loaded s A j a img (type_quit t)"
proof -
  note P = vm_same_parts [OF type_quit_same(1)]
  have "cpu_byte (type_quit t) v = cpu_byte t v" for v by (rule cpu_byte_same) (simp_all add: P(8) type_quit_same)
  moreover have "proc_at j (type_quit t) = proc_at j t" by (simp add: proc_at_def type_quit_same)
  moreover have "user_eip (type_quit t) = user_eip t" "user_esp (type_quit t) = user_esp t" "user_cs (type_quit t) = user_cs t"
    "user_ss (type_quit t) = user_ss t" "interrupts_on (type_quit t) = interrupts_on t" by (simp_all add: type_quit_def)
  ultimately show ?thesis using assms unfolding image_loaded_def P type_quit_same(2) by simp
qed

lemma literal_part:
  assumes "\<And>i. i < length code \<Longrightarrow> cpu_byte t (0x400000 + word_of_nat i) = Some (code ! i)" "length code \<le> 200"
    and "code = xs @ cs @ ys" "p = 0x400000 + word_of_nat (length xs)"
  shows "literal_at t p cs"
proof -
  have l: "length xs + length cs \<le> 200" using assms(2,3) by simp
  then have u: "unat p = 0x400000 + length xs" by (simp add: assms(4) unat_word_ariths unat_of_nat)
  have "cpu_byte t (p + word_of_nat i) = Some (cs ! i)" if "i < length cs" for i
    using assms(1) [of "length xs + i"] that assms(3) by (simp add: assms(4) nth_append add.assoc)
  then show ?thesis using l u by (simp add: literal_at_def)
qed

theorem shell_runs_typed_line_witness:
  "\<exists>t u. user_exec_task (newborn (emxf_file shell_code)) = Enters t \<and> shell_main quiet_env small_image (type_quit t) = Some (0, u)"
proof -
  have c: "0 < length shell_code" "length shell_code \<le> 200" by (simp_all add: shell_code_def)
  obtain t where t: "user_exec_task (newborn (emxf_file shell_code)) = Enters t" "length (processes t) = 16"
      "image_loaded (newborn (emxf_file shell_code)) {newborn_as} 0 newborn_as 0xC0100030 t"
      "\<And>i. i < length shell_code \<Longrightarrow> cpu_byte t (0x400000 + word_of_nat i) = Some (shell_code ! i)"
    by (rule newborn_enters [OF c]) blast
  let ?t = "type_quit t"
  have b: "cpu_byte ?t (0x400000 + word_of_nat i) = Some (shell_code ! i)" if "i < length shell_code" for i
    using t(4) [OF that] cpu_byte_same [of ?t t] vm_same_parts(8) [OF type_quit_same(1)] type_quit_same(2) by metis
  note L = literal_part [OF b c(2)]
  have "literal_at ?t 0x400000 (map of_char ''emyx$ '')" by (rule L [of "[]"]) (simp_all add: shell_code_def)
  moreover have "literal_at ?t 0x400006 [8]" by (rule L [of "take 6 shell_code" _ "drop 7 shell_code"]) (simp_all add: shell_code_def)
  moreover have "literal_at ?t 0x400007 [10]" by (rule L [of "take 7 shell_code" _ "drop 8 shell_code"]) (simp_all add: shell_code_def)
  moreover have "literal_at ?t 0x400008 (map of_char ''shell: failed to run program'' @ [10])"
    by (rule L [of "take 8 shell_code" _ "drop 37 shell_code"]) (simp_all add: shell_code_def)
  moreover have "literal_at ?t 0x400025 (map of_char ''shell: failed to wait for program'' @ [10])"
    by (rule L [of "take 37 shell_code" _ "[]"]) (simp_all add: shell_code_def)
  ultimately have im: "shell_literals small_image ?t" by (simp add: shell_literals_def small_image_def)
  have ar: "keys_arrive (ue_irq quiet_env)" using keys_arrive_push [of "[]"] by (simp add: quiet_env_def id_def)
  have "foldl shell_edit [] [113, 117, 105, 120, 8, 116] = map of_char ''quit''" by (simp add: shell_edit_def)
  then have "\<exists>u. shell_main quiet_env small_image ?t = Some (0, u)"
    using shell_runs_typed_line [OF type_quit_image [OF t(3)] _ im _ ar type_quit_keys(1),
      of "[113, 117, 105, 120, 8, 116]" "[]"] t(2) type_quit_same(3) [of t] type_quit_keys(2) [of t]
    by (auto simp: shell_finish_def)
  then show ?thesis using t(1) by blast
qed

text \<open>A program that consists of one constant, started.\<close>

lemma constant_enters:
  assumes "0 < length code" "length code \<le> 200"
  obtains t where "user_exec_task (newborn (emxf_file code)) = Enters t" "length (processes t) = 16" "literal_at t 0x400000 code"
proof -
  obtain t where t: "user_exec_task (newborn (emxf_file code)) = Enters t" "length (processes t) = 16"
      "\<And>i. i < length code \<Longrightarrow> cpu_byte t (0x400000 + word_of_nat i) = Some (code ! i)"
    by (rule newborn_enters [OF assms]) blast
  have "literal_at t 0x400000 code" by (rule literal_part [OF t(3) assms(2), of "[]" _ "[]"]) simp_all
  then show ?thesis using that t(1,2) by blast
qed

theorem init_and_hello_exit_witness:
  "(\<exists>t. user_exec_task (newborn (emxf_file (map of_char ''hello from C'' @ [10]))) = Enters t \<and>
      user_start quiet_env (hello_main quiet_env 0x400000) t = sys_exit 0 (terminal_write (map of_char ''hello from C'' @ [10]) t)) \<and>
   (\<exists>t. user_exec_task (newborn (emxf_file (map of_char ''/bin/shell'' @ [0]))) = Enters t \<and>
      user_start quiet_env (init_main quiet_env 0x400000) t =
        Option.bind (user_spawn (ue_lk quiet_env) (Some (map of_char ''/bin/shell'')) t) (\<lambda>(pid, u).
          if pid < 0 then sys_exit 1 u
          else Option.bind (user_wait (ue_others quiet_env) (word_of_int pid) u) (\<lambda>(status, v).
            sys_exit (if status < 0 then 1 else word_of_int status) v)))"
proof
  have h: "0 < length (map of_char ''hello from C'' @ [10 :: u8])" "length (map of_char ''hello from C'' @ [10 :: u8]) \<le> 200" by simp_all
  obtain t where t: "user_exec_task (newborn (emxf_file (map of_char ''hello from C'' @ [10]))) = Enters t"
    "literal_at t 0x400000 (map of_char ''hello from C'' @ [10])" by (rule constant_enters [OF h]) blast
  show "\<exists>t. user_exec_task (newborn (emxf_file (map of_char ''hello from C'' @ [10]))) = Enters t \<and>
      user_start quiet_env (hello_main quiet_env 0x400000) t = sys_exit 0 (terminal_write (map of_char ''hello from C'' @ [10]) t)"
    by (intro exI [of _ t] conjI t(1) init_and_hello_exit [THEN conjunct1, rule_format] t(2))
next
  have h: "0 < length (map of_char ''/bin/shell'' @ [0 :: u8])" "length (map of_char ''/bin/shell'' @ [0 :: u8]) \<le> 200" by simp_all
  obtain t where t: "user_exec_task (newborn (emxf_file (map of_char ''/bin/shell'' @ [0]))) = Enters t" "length (processes t) = 16"
    "literal_at t 0x400000 (map of_char ''/bin/shell'' @ [0])" by (rule constant_enters [OF h]) blast
  show "\<exists>t. user_exec_task (newborn (emxf_file (map of_char ''/bin/shell'' @ [0]))) = Enters t \<and>
      user_start quiet_env (init_main quiet_env 0x400000) t =
        Option.bind (user_spawn (ue_lk quiet_env) (Some (map of_char ''/bin/shell'')) t) (\<lambda>(pid, u).
          if pid < 0 then sys_exit 1 u
          else Option.bind (user_wait (ue_others quiet_env) (word_of_int pid) u) (\<lambda>(status, v).
            sys_exit (if status < 0 then 1 else word_of_int status) v))"
    by (intro exI [of _ t] conjI t(1) init_and_hello_exit [THEN conjunct2, rule_format] t(3,2))
qed

end
