(* ===== verification/HeapMap.thy ===== *)
theory HeapMap
  imports VmmData KmallocProps
begin

text \<open>
  The heap among the address spaces.  Every frame belongs to one of: the free ones, the page tables,
  the pages of the heap, other data pages.  A step of the memory map says what an operation keeps of
  this division; \<open>kmalloc\<close>, \<open>kfree\<close> and writes to allocated memory are steps that touch the heap's
  own pages only.
\<close>

section \<open>Steps of the memory map\<close>

definition page_area :: "u32 set \<Rightarrow> u32 set" where
  "page_area K = {x. \<exists>q \<in> K. frame x = frame (vmm_phys_to_virt q)}"

lemma page_area_Un: "page_area (K \<union> L) = page_area K \<union> page_area L"
  by (auto simp: page_area_def)

lemma page_area_empty [simp]: "page_area {} = {}"
  by (simp add: page_area_def)

lemma page_area_mono: "K \<subseteq> L \<Longrightarrow> page_area K \<subseteq> page_area L"
  by (auto simp: page_area_def)

text \<open>
  From \<open>s\<close> with the spaces \<open>A\<close> to \<open>t\<close> with the spaces \<open>B\<close>, data pages outside \<open>K\<close> stay, stable bytes
  outside \<open>U\<close> stay, and spaces outside \<open>E\<close> translate as before.
\<close>

definition mem_step :: "u32 set \<Rightarrow> 'a vmm_state_scheme \<Rightarrow> u32 set \<Rightarrow> 'a vmm_state_scheme \<Rightarrow> u32 set \<Rightarrow> ptr set \<Rightarrow> u32 set \<Rightarrow> bool" where
  "mem_step A s B t K U E \<longleftrightarrow> spaces_ok t B \<and> kernel_page_directory t = kernel_page_directory s \<and> in_bitmap t = in_bitmap s \<and>
     (\<forall>q. data_ok s A q \<longrightarrow> q \<notin> K \<longrightarrow> data_ok t B q) \<and>
     (\<forall>x. stable s A x \<longrightarrow> x \<notin> U \<longrightarrow> stable t B x \<and> kmem t x = kmem s x) \<and>
     (\<forall>a \<in> insert (kernel_page_directory s) (A \<inter> B) - E. \<forall>w. pte t a w = pte s a w) \<and>
     same_dirs (insert (kernel_page_directory s) (A \<inter> B)) E s t"

lemma mem_step_refl: "spaces_ok s A \<Longrightarrow> mem_step A s A s K U E"
  by (simp add: mem_step_def)

lemma mem_step_mono:
  assumes "mem_step A s B t K U E" "K \<subseteq> K'" "U \<subseteq> U'" "E \<subseteq> E'"
  shows "mem_step A s B t K' U' E'"
  using assms same_dirs_mono [of "insert (kernel_page_directory s) (A \<inter> B)" E s t, OF _ subset_refl assms(4)]
  unfolding mem_step_def by auto

lemma mem_step_trans:
  assumes "mem_step A s B t K U E" "mem_step B t C u L V F" "A \<inter> C \<subseteq> B"
  shows "mem_step A s C u (K \<union> L) (U \<union> V) (E \<union> F)"
proof -
  note S = assms(1) [unfolded mem_step_def] and T = assms(2) [unfolded mem_step_def]
  have in_both: "a \<in> insert (kernel_page_directory s) (A \<inter> B) - E" "a \<in> insert (kernel_page_directory t) (B \<inter> C) - F"
    if "a \<in> insert (kernel_page_directory s) (A \<inter> C) - (E \<union> F)" for a
    using that assms(3) S by auto
  have "pte u a w = pte s a w" if "a \<in> insert (kernel_page_directory s) (A \<inter> C) - (E \<union> F)" for a w
    using S T in_both [OF that] by metis
  moreover have "same_dirs (insert (kernel_page_directory s) (A \<inter> C)) (E \<union> F) s u"
  proof (rule same_dirs_trans)
    have "same_dirs (insert (kernel_page_directory s) (A \<inter> B)) E s t" using S by blast
    then show "same_dirs (insert (kernel_page_directory s) (A \<inter> C)) (E \<union> F) s t" by (rule same_dirs_mono) (use assms(3) in auto)
    have "same_dirs (insert (kernel_page_directory t) (B \<inter> C)) F t u" using T by blast
    then show "same_dirs (insert (kernel_page_directory s) (A \<inter> C)) (E \<union> F) t u" by (rule same_dirs_mono) (use S assms(3) in auto)
  qed
  moreover have "data_ok u C q" if "data_ok s A q" "q \<notin> K \<union> L" for q using S T that by blast
  moreover have "stable u C x \<and> kmem u x = kmem s x" if "stable s A x" "x \<notin> U \<union> V" for x
    using S T that by simp
  moreover have "spaces_ok u C" "kernel_page_directory u = kernel_page_directory s" "in_bitmap u = in_bitmap s" using S T by simp_all
  ultimately show ?thesis unfolding mem_step_def by (intro conjI allI ballI impI) (assumption | blast)+
qed

lemma mem_step_same: "mem_step A s B t K U E \<Longrightarrow> vm_same t u \<Longrightarrow> mem_step A s B u K U E"
  using vm_same_parts [of t u] by (simp add: mem_step_def vm_same_def same_dirs_def)

lemma data_okD:
  assumes "data_ok s A q"
  shows "page_aligned q" "vmm_phys_to_virt q \<noteq> 0" "frame q \<notin> free_pages s" "frame q < pmm_max_page s"
proof -
  have "table_ok s q" using assms by (simp add: data_ok_def)
  then show "page_aligned q" "vmm_phys_to_virt q \<noteq> 0" "frame q \<notin> free_pages s" "frame q < pmm_max_page s"
    by (simp_all add: table_ok_def)
qed

lemma page_area_data:
  assumes "\<And>q. q \<in> K \<Longrightarrow> data_ok s A q" "\<And>q. q \<in> L \<Longrightarrow> data_ok s A q" "K \<inter> L = {}"
  shows "page_area K \<inter> page_area L = {}"
  using assms data_apart(2) unfolding page_area_def by fastforce

section \<open>Writes that spare the tables\<close>

lemma frame_spaces:
  fixes s t :: "'a vmm_state_scheme"
  assumes sp: "spaces_ok s A" and mem: "mem_ok t" and ib: "in_bitmap t = in_bitmap s" and mx: "pmm_max_page t = pmm_max_page s"
    and k: "kernel_page_directory t = kernel_page_directory s" and fp: "free_pages t \<subseteq> free_pages s"
    and km: "\<forall>x. \<not> in_bitmap s x \<longrightarrow> x \<notin> U \<longrightarrow> kmem t x = kmem s x"
    and U: "\<forall>x \<in> U. \<forall>q. (\<exists>b \<in> insert (kernel_page_directory s) A. q \<in> pt_pages s b) \<longrightarrow> frame x \<noteq> frame (vmm_phys_to_virt q)"
  shows "spaces_ok t A" "b \<in> insert (kernel_page_directory s) A \<Longrightarrow> pte t b w = pte s b w" "data_ok s A q \<Longrightarrow> data_ok t A q"
    and "stable s A x \<Longrightarrow> stable t A x" "b \<in> insert (kernel_page_directory s) A \<Longrightarrow> pt_pages t b = pt_pages s b"
    and "b \<in> insert (kernel_page_directory s) A \<Longrightarrow> i < 1024 \<Longrightarrow> pd_entry t b i = pd_entry s b i"
proof -
  let ?B = "insert (kernel_page_directory s) A"
  note D = spaces_okD [OF sp]
  have keep: "same_page s t (vmm_phys_to_virt q)" if "b \<in> ?B" "q \<in> pt_pages s b" for b q
  proof -
    have "page_clear s (vmm_phys_to_virt q)" using table_okD(6) [OF pt_pages_ok [OF D(5) [OF that(1)] that(2)]] .
    then have "kmem t x = kmem s x" if "frame x = frame (vmm_phys_to_virt q)" for x
    proof -
      have "x \<notin> U" using U that \<open>b \<in> ?B\<close> \<open>q \<in> pt_pages s b\<close> by blast
      moreover have "\<not> in_bitmap s x" using \<open>page_clear s (vmm_phys_to_virt q)\<close> that by (simp add: page_clear_def)
      ultimately show ?thesis using km by blast
    qed
    then show ?thesis by (auto simp: same_page_def)
  qed
  show pd: "pd_entry t b i = pd_entry s b i" if "b \<in> ?B" "i < 1024" for b i
    by (rule pages_kept(1) [OF D(5) [OF that(1)] keep [OF that(1)] that(2)])
  show "pte t b w = pte s b w" if "b \<in> ?B" by (rule pages_kept(2) [OF D(5) [OF that] keep [OF that]])
  have ok: "as_ok t b" if "b \<in> ?B" for b by (rule as_ok_kept(1) [OF D(5) [OF that] keep [OF that] fp ib mx])
  show "spaces_ok t A" by (rule spaces_cong [OF sp mem k ok pd])
  show pt: "pt_pages t b = pt_pages s b" if "b \<in> ?B" for b by (rule pt_pages_cong) (rule pd [OF that])
  show "data_ok t A q" if "data_ok s A q" using that pt table_ok_mono [OF _ fp ib mx] unfolding data_ok_def k by simp
  have "managed t A \<subseteq> managed s A" unfolding managed_def k using pt fp by auto
  then show "stable s A x \<Longrightarrow> stable t A x" by (rule stable_kept [OF _ ib])
qed

section \<open>The heap\<close>

text \<open>
  The blocks of the heap, with the areas \<open>L\<close> in use, lie in the data pages \<open>H\<close>.  \<open>H\<close> is only bounded below:
  \<open>alloc_from_block\<close> may leave up to 19 bytes at the end of a block to no block at all, so the blocks do
  not determine the pages that \<open>kmalloc\<close> has taken.
\<close>

definition heap_map :: "'a heap_state_scheme \<Rightarrow> u32 set \<Rightarrow> u32 set \<Rightarrow> (ptr \<times> u32) set \<Rightarrow> bool" where
  "heap_map s A H L \<longleftrightarrow> (\<exists>bs. heap_ok s bs \<and> L = live bs \<and> region bs \<subseteq> page_area H) \<and> (\<forall>p \<in> H. data_ok s A p)"

lemma heap_area_tables:
  assumes sp: "spaces_ok s A" and H: "\<And>p. p \<in> H \<Longrightarrow> data_ok s A p" and N: "\<And>p. p \<in> N \<Longrightarrow> page_aligned p \<and> vmm_phys_to_virt p \<noteq> 0 \<and> frame p \<in> free_pages s"
    and x: "x \<in> page_area (H \<union> N)" and q: "\<exists>b \<in> insert (kernel_page_directory s) A. q \<in> pt_pages s b"
  shows "frame x \<noteq> frame (vmm_phys_to_virt q)"
proof
  assume e: "frame x = frame (vmm_phys_to_virt q)"
  obtain b where b: "b \<in> insert (kernel_page_directory s) A" "q \<in> pt_pages s b" using q by blast
  note Q = table_okD [OF pt_pages_ok [OF spaces_okD(5) [OF sp b(1)] b(2)]]
  obtain p where p: "p \<in> H \<union> N" "frame x = frame (vmm_phys_to_virt p)" using x by (auto simp: page_area_def)
  have "page_aligned p" "vmm_phys_to_virt p \<noteq> 0" using p(1) data_okD [OF H] N by auto
  then have "p = q" using virt_frame_inj [of p q] Q(1,2) p(2) e by simp
  then show False using p(1) H [of q] N [of q] Q(5) b by (auto simp: data_ok_def)
qed

text \<open>A frame that was free and is taken may hold data.\<close>

lemma taken_table:
  assumes ok: "mem_ok s" and p: "page_aligned p" "vmm_phys_to_virt p \<noteq> 0" "frame p \<in> free_pages s"
    and t: "free_pages t = free_pages s - F" "frame p \<in> F" "in_bitmap t = in_bitmap s" "pmm_max_page t = pmm_max_page s"
  shows "table_ok t p"
proof -
  have bk: "push_bit 12 (frame p) = p" using p(1) page_aligned_frame by blast
  have "frame 0 = 0" by (simp add: frame_def)
  then have "page_clear s (vmm_phys_to_virt p)" "frame p < pmm_max_page s" "p \<noteq> 0"
    using ok p bk by (auto simp: mem_ok_def bitmap_safe_def pmm_ok_def free_pages_def)
  then show ?thesis using p t by (simp add: table_ok_def page_clear_def)
qed

lemma heap_step_map:
  fixes s t :: "'a heap_state_scheme"
  assumes sp: "spaces_ok s A" and H: "\<And>p. p \<in> H \<Longrightarrow> data_ok s A p"
    and N: "\<And>p. p \<in> N \<Longrightarrow> page_aligned p \<and> vmm_phys_to_virt p \<noteq> 0 \<and> frame p \<in> free_pages s"
    and fr: "heap_frame U s t" and mem: "mem_ok t" and U: "U \<subseteq> page_area (H \<union> N)" and fp: "free_pages t = free_pages s - frame ` N"
  shows "mem_step A s A t {} (page_area H) {}" "p \<in> H \<union> N \<Longrightarrow> data_ok t A p" "managed t A = managed s A - N"
proof -
  note F = fr [unfolded heap_frame_def]
  have sub: "free_pages t \<subseteq> free_pages s" using fp by blast
  have tab: "\<forall>x \<in> U. \<forall>q. (\<exists>b \<in> insert (kernel_page_directory s) A. q \<in> pt_pages s b) \<longrightarrow> frame x \<noteq> frame (vmm_phys_to_virt q)"
    using heap_area_tables [OF sp H N] U by blast
  have km: "\<forall>x. \<not> in_bitmap s x \<longrightarrow> x \<notin> U \<longrightarrow> kmem t x = kmem s x" using F by blast
  have ib: "in_bitmap t = in_bitmap s" "pmm_max_page t = pmm_max_page s" "kernel_page_directory t = kernel_page_directory s" using F by blast+
  note S = frame_spaces [OF sp mem ib sub km tab]
  have "kmem t x = kmem s x" if x: "stable s A x" "x \<notin> page_area H" for x
  proof (rule km [rule_format])
    show "\<not> in_bitmap s x" using x(1) by (simp add: stable_def)
    have "x \<notin> page_area N" using x(1) N by (auto simp: stable_def page_area_def managed_def)
    then show "x \<notin> U" using U x(2) by (auto simp: page_area_Un)
  qed
  then show "mem_step A s A t {} (page_area H) {}" unfolding mem_step_def using S(1-4) same_dirsI [OF S(6), of "insert (kernel_page_directory s) A" "{}"] ib by simp
  show "managed t A = managed s A - N"
  proof -
    have eq: "frame q = frame p \<longleftrightarrow> q = p" if "page_aligned q" "p \<in> N" for p q using that N page_aligned_eq by blast
    have "q \<notin> N" if "\<exists>b \<in> insert (kernel_page_directory s) A. q \<in> pt_pages s b" for q
      using that N table_okD(5) [OF pt_pages_ok [OF spaces_okD(5) [OF sp]]] by blast
    moreover have "(\<exists>b \<in> insert (kernel_page_directory s) A. q \<in> pt_pages t b) \<longleftrightarrow> (\<exists>b \<in> insert (kernel_page_directory s) A. q \<in> pt_pages s b)" for q
      using S(5) by blast
    moreover have "frame q \<in> frame ` N \<longleftrightarrow> q \<in> N" if "page_aligned q" for q using eq [OF that] by (auto simp: image_iff)
    ultimately show ?thesis unfolding managed_def ib(3) fp by blast
  qed
  show "data_ok t A p" if "p \<in> H \<union> N"
  proof (cases "p \<in> H")
    case True
    then show ?thesis using S(3) H by blast
  next
    case False
    then have p: "p \<in> N" using that by blast
    note P = N [OF p]
    have "table_ok t p" using taken_table [OF spaces_okD(1) [OF sp]] P p fp ib(1,2) by blast
    moreover have "p \<notin> pt_pages t b" if "b \<in> insert (kernel_page_directory s) A" for b
      using S(5) [OF that] table_okD(5) [OF pt_pages_ok [OF spaces_okD(5) [OF sp that]]] P by auto
    ultimately show ?thesis using ib(3) by (simp add: data_ok_def)
  qed
qed

lemma alloc_spec_cases:
  fixes s :: "'a heap_state_scheme"
  assumes ok: "heap_ok s bs" and mem: "mem_ok s" and n: "n \<le> 4084" and al: "alloc_spec n bs s p t"
  shows "\<exists>cs N. heap_ok t cs \<and> heap_frame (region bs \<union> page_area N) s t \<and> region cs \<subseteq> region bs \<union> page_area N \<and>
    (\<forall>q \<in> N. page_aligned q \<and> vmm_phys_to_virt q \<noteq> 0 \<and> frame q \<in> free_pages s) \<and> free_pages t = free_pages s - frame ` N \<and>
    (if p = 0 then live cs = live bs else (p, n) \<notin> live bs \<and> live cs = insert (p, n) (live bs)) \<and> (\<exists>q. N \<subseteq> {q}) \<and> (can_alloc s \<longrightarrow> p \<noteq> 0)"
proof (cases "first_fit n bs")
  case (Some r)
  obtain xs b ys where r: "r = (xs, b, ys)" by (cases r)
  have f: "bs = xs @ b # ys" "b_free b" "n \<le> b_size b" using first_fit_SomeD [OF Some [unfolded r]] by simp_all
  have h: "heap_ok t (xs @ split_blk n b @ ys)" "p = b_addr b + 12" "free_pages t = free_pages s" "heap_frame (extent b) s t"
    using al Some r by (simp_all add: alloc_spec_def)
  have bo: "blk_ok s b" using heap_okD(2) [OF ok, of b] f(1) by simp
  have "p \<noteq> 0" using blk_addr_nz [OF bo] h(2) by simp
  moreover have lb: "live bs = live (xs @ ys)" using f(2) by (simp add: f(1) live_append live_Cons)
  moreover have "live (xs @ split_blk n b @ ys) = insert (p, n) (live bs)" by (auto simp: lb live_append live_split h(2))
  moreover have "(p, n) \<notin> live bs" using live_fresh [OF h(1)] lb h(2) by simp
  moreover have "region (xs @ split_blk n b @ ys) \<subseteq> region bs" using split_ok(2) [OF bo f(3)] by (auto simp: f(1) region_def)
  moreover have "heap_frame (region bs) s t" using h(4) unfolding heap_frame_def f(1) region_def by auto
  ultimately show ?thesis using h(1,3) by (intro exI [of _ "xs @ split_blk n b @ ys"] exI [of _ "{}"]) simp
next
  case None
  show ?thesis
  proof (cases "can_alloc s")
    case True
    then obtain q where q: "p = vmm_phys_to_virt q + 12" "vmm_phys_to_virt q \<noteq> 0" "page_aligned q" "frame q \<in> free_pages s"
        "free_pages t = free_pages s - {frame q}" "heap_ok t (bs @ split_blk n (page_blk (vmm_phys_to_virt q)))"
        "heap_frame (extent (page_blk (vmm_phys_to_virt q)) \<union> (if bs = [] then {} else header (b_addr (last bs)))) s t"
      using al None by (auto simp: alloc_spec_def)
    let ?b = "page_blk (vmm_phys_to_virt q)"
    have pb: "b_addr ?b = vmm_phys_to_virt q" by (simp add: page_blk_def)
    have ext: "extent ?b = page_area {q}" using page_extent [of "vmm_phys_to_virt q"] q(3) page_aligned_virt [OF q(2)] by (auto simp: page_area_def)
    have c: "\<lparr>b_addr = b_addr ?b, b_size = n, b_free = False\<rparr> \<in> set (bs @ split_blk n ?b)" by (simp add: split_blk_def)
    have "p \<noteq> 0" using blk_addr_nz [OF heap_okD(2) [OF q(6) c]] q(1) pb by simp
    moreover have "live (bs @ split_blk n ?b) = insert (p, n) (live bs)" by (simp add: live_append live_split q(1) pb)
    moreover have "(p, n) \<notin> live bs" using live_fresh [of t bs n ?b "[]"] q(1,6) pb by auto
    moreover have "header (b_addr (last bs)) \<subseteq> region bs" if "bs \<noteq> []"
      using blk_bounds(3) [OF heap_okD(2) [OF ok last_in_set [OF that]]] last_in_set [OF that] by (auto simp: region_def)
    then have "heap_frame (region bs \<union> page_area {q}) s t" using q(7) unfolding heap_frame_def ext by (auto split: if_splits)
    moreover have "region (bs @ split_blk n ?b) \<subseteq> region bs \<union> page_area {q}"
    proof -
      have "table_ok t q" using taken_table [OF mem q(3,2,4,5)] q(7) by (simp add: heap_frame_def)
      then have "heap_byte t x" if "x \<in> extent ?b" for x using that by (auto simp: heap_byte_def ext page_area_def)
      moreover have "unat (vmm_phys_to_virt q) + 4096 \<le> 4294967296"
        using page_aligned_virt [OF q(2)] q(3) u32_bound [of "vmm_phys_to_virt q"] by (auto simp: page_aligned_unat elim!: dvdE) 
      ultimately have "blk_ok t ?b" using q(2) by (simp add: blk_ok_def page_blk_def)
      then have "region (split_blk n ?b) \<subseteq> region [?b]" using n by (intro split_ok(2)) (simp_all add: page_blk_def)
      then show ?thesis using ext by (auto simp: region_def)
    qed
    ultimately show ?thesis using q by (intro exI [of _ "bs @ split_blk n ?b"] exI [of _ "{q}"]) simp
  next
    case False
    then have "p = 0" "heap_ok t bs" "free_pages t = free_pages s" "heap_frame {} s t" using al None by (simp_all add: alloc_spec_def)
    then show ?thesis using False by (intro exI [of _ bs] exI [of _ "{}"]) (simp add: heap_frame_def)
  qed
qed

lemma kmalloc_step:
  fixes s :: "'a heap_state_scheme"
  assumes sp: "spaces_ok s A" and h: "heap_map s A H L"
  shows "\<exists>p t H'. kmalloc n s = Some (p, t) \<and> mem_step A s A t {} (page_area H) {} \<and> cr3 t = cr3 s \<and> heap_state.more t = heap_state.more s \<and>
    H \<subseteq> H' \<and> frame ` (H' - H) \<subseteq> free_pages s \<and> free_pages t = free_pages s - frame ` (H' - H) \<and>
    (if p = 0 then heap_map t A H' L else \<exists>m. n \<le> m \<and> (p, m) \<notin> L \<and> heap_map t A H' (insert (p, m) L)) \<and>
    managed t A = managed s A - (H' - H) \<and> H' - H \<subseteq> managed s A \<and>
    (\<forall>a \<in> L. \<forall>x \<in> area (fst a) (snd a). kmem t x = kmem s x) \<and>
    (\<exists>q. H' \<subseteq> insert q H) \<and> (\<forall>k \<le> 4084. align_size n = Some k \<and> can_alloc s \<longrightarrow> p \<noteq> 0)"
proof -
  obtain bs where bs: "heap_ok s bs" "L = live bs" "region bs \<subseteq> page_area H" and H: "\<And>p. p \<in> H \<Longrightarrow> data_ok s A p"
    using h by (auto simp: heap_map_def)
  have mem: "mem_ok s" by (rule spaces_okD(1) [OF sp])
  obtain p t where K: "kmalloc n s = Some (p, t)" "mem_ok t"
    "case align_size n of None \<Rightarrow> p = 0 \<and> t = s
     | Some k \<Rightarrow> if k > 4084 then p = 0 \<and> t = s else alloc_spec k bs s p t"
    using kmalloc_spec [OF bs(1) mem] by blast
  show ?thesis
  proof (cases "p = 0 \<and> t = s")
    case True
    have "\<not> can_alloc s" if "align_size n = Some k" "k \<le> 4084" for k
      using alloc_spec_cases [OF bs(1) mem that(2), of p t] K(3) that True by auto
    then show ?thesis using K(1) h mem_step_refl [OF sp] True by (intro exI [of _ 0] exI [of _ s] exI [of _ H]) auto
  next
    case False
    then obtain k where k: "align_size n = Some k" "k \<le> 4084" "alloc_spec k bs s p t"
      using K(3) by (auto simp: not_less split: option.splits if_splits)
    have nk: "n \<le> k" using align_size_Some [OF k(1)] by auto
    obtain cs N where N: "heap_ok t cs" "heap_frame (region bs \<union> page_area N) s t" "region cs \<subseteq> region bs \<union> page_area N"
        "\<And>q. q \<in> N \<Longrightarrow> page_aligned q \<and> vmm_phys_to_virt q \<noteq> 0 \<and> frame q \<in> free_pages s" "free_pages t = free_pages s - frame ` N"
        "if p = 0 then live cs = live bs else (p, k) \<notin> live bs \<and> live cs = insert (p, k) (live bs)" "\<exists>q. N \<subseteq> {q}" "can_alloc s \<longrightarrow> p \<noteq> 0"
      using alloc_spec_cases [OF bs(1) mem k(2,3)] by blast
    have U: "region bs \<union> page_area N \<subseteq> page_area (H \<union> N)" using bs(3) by (auto simp: page_area_Un)
    note S = heap_step_map [OF sp H N(4,2) K(2) U N(5)]
    have "q \<notin> H" if "q \<in> N" for q using data_okD(3) [OF H, of q] N(4) [OF that] by blast
    then have d: "H \<union> N - H = N" by blast
    have "region cs \<subseteq> page_area (H \<union> N)" using N(3) U by blast
    then have "heap_map t A (H \<union> N) (live cs)" unfolding heap_map_def using N(1) S(2) by blast
    moreover have "\<forall>a \<in> L. \<forall>x \<in> area (fst a) (snd a). kmem t x = kmem s x"
      using kmalloc_live_kept [OF bs(1) mem k(3)] bs(2) by blast
    moreover have "cr3 t = cr3 s" "heap_state.more t = heap_state.more s" using N(2) by (simp_all add: heap_frame_def)
    moreover have "managed t A = managed s A - N" "N \<subseteq> managed s A" using S(3) N(4) by (auto simp: managed_def)
    moreover have "\<exists>q. H \<union> N \<subseteq> insert q H" "\<forall>k \<le> 4084. align_size n = Some k \<and> can_alloc s \<longrightarrow> p \<noteq> 0" using N(7,8) by blast+
    ultimately show ?thesis using K(1) S(1) d N(4,5,6) nk bs(2)
      by (intro exI [of _ p] exI [of _ t] exI [of _ "H \<union> N"]) (auto split: if_splits)
  qed
qed

lemma region_coalesce: "(\<And>c. c \<in> set (b # bs) \<Longrightarrow> blk_ok s c) \<Longrightarrow> region (coalesce b bs) \<subseteq> region (b # bs)"
proof (induction b bs rule: coalesce.induct)
  case (2 b c cs)
  show ?case
  proof (cases "b_free c \<and> b_addr b + 12 + b_size b = b_addr c")
    case True
    let ?m = "b\<lparr>b_size := b_size b + (12 + b_size c)\<rparr>"
    have M: "blk_ok s ?m" "extent ?m = extent b \<union> extent c" using merge_ok [of s b c] 2(2) True by auto
    have "region (coalesce ?m cs) \<subseteq> region (?m # cs)" by (rule 2(1) [OF True]) (use 2(2) M in auto)
    then show ?thesis using True M(2) by (auto simp: region_def)
  qed auto
qed (auto simp: region_def)

lemma kfree_step:
  fixes s :: "'a heap_state_scheme"
  assumes sp: "spaces_ok s A" and h: "heap_map s A H L" and a: "(p, n) \<in> L"
  shows "\<exists>t. kfree p s = Some t \<and> mem_step A s A t {} (page_area H) {} \<and> cr3 t = cr3 s \<and> heap_state.more t = heap_state.more s \<and> free_pages t = free_pages s \<and>
    managed t A = managed s A \<and> heap_map t A H (L - {(p, n)}) \<and> (\<forall>b \<in> L - {(p, n)}. \<forall>x \<in> area (fst b) (snd b). kmem t x = kmem s x)"
proof -
  obtain bs where bs: "heap_ok s bs" "L = live bs" "region bs \<subseteq> page_area H" and H: "\<And>p. p \<in> H \<Longrightarrow> data_ok s A p"
    using h by (auto simp: heap_map_def)
  have mem: "mem_ok s" by (rule spaces_okD(1) [OF sp])
  have inv: "heap_inv s L" using mem bs by (auto simp: heap_inv_def)
  obtain b where b: "b \<in> set bs" "\<not> b_free b" "(p, n) = (b_addr b + 12, b_size b)" using a bs(2) by (auto simp: live_def)
  obtain xs ys where xy: "bs = xs @ b # ys" using b(1) by (auto simp: in_set_conv_decomp)
  have bo: "blk_ok s b" by (rule heap_okD(2) [OF bs(1) b(1)])
  have ok: "heap_ok s (xs @ b # ys)" using bs(1) xy by simp
  obtain t where t: "kfree p s = Some t" "mem_ok t" "heap_ok t (xs @ coalesce (b\<lparr>b_free := True\<rparr>) ys)" "free_pages t = free_pages s"
      "heap_frame (header (b_addr b)) s t"
    using kfree_spec [OF ok mem blk_addr_nz [OF bo]] b(3) by auto
  have U: "header (b_addr b) \<subseteq> page_area (H \<union> {})" using blk_bounds(3) [OF bo] bs(3) b(1) by (auto simp: region_def)
  have fp: "free_pages t = free_pages s - frame ` {}" using t(4) by simp
  note S = heap_step_map [OF sp H _ t(5,2) U fp]
  let ?cs = "xs @ coalesce (b\<lparr>b_free := True\<rparr>) ys"
  have "region (coalesce (b\<lparr>b_free := True\<rparr>) ys) \<subseteq> region (b\<lparr>b_free := True\<rparr> # ys)"
  proof (rule region_coalesce [of _ _ s])
    fix c assume "c \<in> set (b\<lparr>b_free := True\<rparr> # ys)"
    then show "blk_ok s c" using bo heap_okD(2) [OF ok, of c] by (auto simp: blk_ok_def extent_def)
  qed
  then have "region ?cs \<subseteq> region bs" by (auto simp: region_def xy extent_def)
  then have "heap_map t A H (live ?cs)" unfolding heap_map_def using t(3) S(2) bs(3) by blast
  moreover have "live ?cs = L - {(p, n)}" using freed_live [OF ok b(2)] by (simp add: bs(2) xy b(3))
  moreover have "\<forall>b \<in> L - {(p, n)}. \<forall>x \<in> area (fst b) (snd b). kmem t x = kmem s x" using heap_inv_free [OF inv a] t(1) by auto
  ultimately show ?thesis using t(1,4,5) S(1,3) by (auto simp: heap_frame_def)
qed

text \<open>Writes of a client to an area in use, and steps that leave the heap's pages alone.\<close>

lemma live_in_pages:
  assumes "heap_map s A H L" "a \<in> L"
  shows "area (fst a) (snd a) \<subseteq> page_area H"
proof -
  obtain bs where bs: "heap_ok s bs" "L = live bs" "region bs \<subseteq> page_area H" using assms(1) by (auto simp: heap_map_def)
  obtain b where b: "b \<in> set bs" "a = (b_addr b + 12, b_size b)" using assms(2) bs(2) by (auto simp: live_def)
  show ?thesis using blk_bounds(4) [OF heap_okD(2) [OF bs(1) b(1)]] b bs(3) area_payload [of b] by (auto simp: region_def)
qed

lemma heap_addr_inj:
  assumes ok: "heap_ok s bs" and b: "b \<in> set bs" and c: "c \<in> set bs" and e: "b_addr b = b_addr c"
  shows "b = c"
proof (rule ccontr)
  assume "b \<noteq> c"
  obtain i j where ij: "i < length bs" "j < length bs" "b = bs ! i" "c = bs ! j" using b c by (auto simp: in_set_conv_nth)
  then have "i < j \<or> j < i" using \<open>b \<noteq> c\<close> by (cases i j rule: linorder_cases) auto
  then have "extent b \<inter> extent c = {}" using heap_okD(3) [OF ok] ij unfolding sorted_wrt_iff_nth_less by blast
  moreover have "b_addr b \<in> header (b_addr b)" by (simp add: header_def)
  ultimately show False using blk_bounds(3) [OF heap_okD(2) [OF ok b]] blk_bounds(3) [OF heap_okD(2) [OF ok c]] e by auto
qed

lemma heap_map_unique:
  assumes "heap_map s A H L" "(p, n) \<in> L" "(p, m) \<in> L"
  shows "n = m"
proof -
  obtain bs where bs: "heap_ok s bs" "L = live bs" using assms(1) by (auto simp: heap_map_def)
  obtain b c where b: "b \<in> set bs" "(p, n) = (b_addr b + 12, b_size b)" "c \<in> set bs" "(p, m) = (b_addr c + 12, b_size c)"
    using assms(2,3) bs(2) by (auto simp: live_def)
  have "b = c" using heap_addr_inj [OF bs(1) b(1,3)] b(2,4) by simp
  then show ?thesis using b by simp
qed

lemma live_apart:
  assumes "heap_map s A H L" "a \<in> L" "b \<in> L" "a \<noteq> b"
  shows "area (fst a) (snd a) \<inter> area (fst b) (snd b) = {}"
proof -
  obtain bs where bs: "heap_ok s bs" "L = live bs" using assms(1) by (auto simp: heap_map_def)
  obtain c d where c: "c \<in> set bs" "a = (b_addr c + 12, b_size c)" "d \<in> set bs" "b = (b_addr d + 12, b_size d)"
    using assms(2,3) bs(2) by (auto simp: live_def)
  obtain i j where ij: "i < length bs" "j < length bs" "c = bs ! i" "d = bs ! j" using c by (auto simp: in_set_conv_nth)
  then have "i < j \<or> j < i" using c assms(4) by (cases i j rule: linorder_cases) auto
  then have "extent c \<inter> extent d = {}" using heap_okD(3) [OF bs(1)] ij unfolding sorted_wrt_iff_nth_less by blast
  moreover have "area (fst a) (snd a) \<subseteq> extent c" "area (fst b) (snd b) \<subseteq> extent d"
    using blk_bounds(4) [OF heap_okD(2) [OF bs(1) c(1)]] blk_bounds(4) [OF heap_okD(2) [OF bs(1) c(3)]] area_payload [of c] area_payload [of d] c(2,4) by auto
  ultimately show ?thesis by blast
qed

lemma store_step:
  fixes s :: "'a vmm_state_scheme"
  assumes sp: "spaces_ok s A" and U: "\<And>x. x \<in> U \<Longrightarrow> stable s A x" and m: "\<And>x. x \<notin> U \<Longrightarrow> m x = kmem s x"
  defines "t \<equiv> s\<lparr>kmem := m\<rparr>"
  shows "mem_step A s A t {} U {}" "free_pages t = free_pages s" "managed t A = managed s A" "data_ok t A q = data_ok s A q"
proof -
  have W: "\<not> stable s A x \<Longrightarrow> m x = kmem s x" for x using m U by blast
  note Z = stable_write [where m = m, OF sp W, folded t_def]
  have "kmem t x = kmem s x" if "x \<notin> U" for x using m that by (simp add: t_def)
  then show "mem_step A s A t {} U {}"
    unfolding mem_step_def using Z(1-6,8) same_dirsI [OF Z(7), of "insert (kernel_page_directory s) A" "{}"] by (simp add: t_def)
  show "free_pages t = free_pages s" by (rule Z(2))
  show "managed t A = managed s A" by (rule Z(3))
  show "data_ok t A q = data_ok s A q" by (rule Z(6))
qed

lemma heap_store_step:
  fixes s :: "'a heap_state_scheme"
  assumes sp: "spaces_ok s A" and h: "heap_map s A H L" and a: "(p, n) \<in> L" and m: "\<And>x. x \<notin> area p n \<Longrightarrow> m x = kmem s x"
  defines "t \<equiv> s\<lparr>kmem := m\<rparr>"
  shows "mem_step A s A t {} (area p n) {}" "heap_map t A H L" "managed t A = managed s A"
proof -
  have sub: "area p n \<subseteq> page_area H" using live_in_pages [OF h a] by simp
  have H: "\<And>p. p \<in> H \<Longrightarrow> data_ok s A p" using h by (auto simp: heap_map_def)
  have "stable s A x" if "x \<in> area p n" for x using that sub data_stable [OF H] by (auto simp: page_area_def)
  note S = store_step [where m = m, OF sp this m, folded t_def]
  show "mem_step A s A t {} (area p n) {}" by (rule S(1))
  show "managed t A = managed s A" by (rule S(3))
  obtain bs where bs: "heap_ok s bs" "L = live bs" "region bs \<subseteq> page_area H" using h by (auto simp: heap_map_def)
  obtain b where b: "b \<in> set bs" "(p, n) = (b_addr b + 12, b_size b)" using a bs(2) by (auto simp: live_def)
  have "upd_in (payload b) s t" using m area_payload [of b] b(2) by (auto simp: upd_in_def t_def)
  then show "heap_map t A H L" using payload_write(1) [OF bs(1) b(1)] bs(2,3) S(4) H by (auto simp: heap_map_def)
qed

lemma heap_map_kept:
  fixes s t :: "'a heap_state_scheme"
  assumes sp: "mem_step A s B t K U E" and h: "heap_map s A H L" and K: "K \<inter> H = {}" "U \<inter> page_area H = {}" and l: "heap_list t = heap_list s"
  shows "heap_map t B H L" "x \<in> page_area H \<Longrightarrow> kmem t x = kmem s x"
proof -
  note S = sp [unfolded mem_step_def]
  obtain bs where bs: "heap_ok s bs" "L = live bs" "region bs \<subseteq> page_area H" and H: "\<And>p. p \<in> H \<Longrightarrow> data_ok s A p"
    using h by (auto simp: heap_map_def)
  have Ht: "data_ok t B p" if "p \<in> H" for p using S H [OF that] K(1) that by blast
  show same: "kmem t x = kmem s x" if x: "x \<in> page_area H" for x
  proof -
    have "stable s A x" using x data_stable [OF H] by (auto simp: page_area_def)
    then show ?thesis using S x K(2) by blast
  qed
  have hb: "heap_byte t x" if "x \<in> page_area H" for x
    using that Ht by (auto simp: heap_byte_def page_area_def data_ok_def)
  have blk: "blk_ok t b" if "b \<in> set bs" for b
    using heap_okD(2) [OF bs(1) that] hb bs(3) that by (auto simp: blk_ok_def region_def)
  have "kmem t x = kmem s x" if "b \<in> set bs" "x \<in> header (b_addr b)" for b x
    using that same blk_bounds(3) [OF heap_okD(2) [OF bs(1) that(1)]] bs(3) by (auto simp: region_def)
  then have "hpath t (heap_list s) bs 0" using heap_okD(1) [OF bs(1)] by (subst hpath_same [of _ t s]) auto
  then have "heap_ok t bs" using l blk heap_okD(3) [OF bs(1)] by (simp add: heap_ok_def)
  then show "heap_map t B H L" unfolding heap_map_def using bs(2,3) Ht by blast
qed

end
