(* ===== verification/MemorySteps.thy ===== *)
theory MemorySteps
  imports HeapMap ExecProps
begin

text \<open>
  The operations on address spaces and on the pages of processes as steps of the memory map, with
  what they do to the frames under management.
\<close>

section \<open>Creation and destruction of address spaces\<close>

lemma create_step:
  fixes s :: "'a vmm_state_scheme"
  assumes sp: "spaces_ok s A" and c: "vmm_create_address_space s = (a, t)" "can_alloc s"
  shows "mem_step A s (insert a A) t {} {} {}" "managed t (insert a A) = managed s A" "a \<noteq> 0" "a \<notin> insert (kernel_page_directory s) A"
    and "i < 1024 \<Longrightarrow> pd_entry t a i = (if i < KERNEL_PDE_INDEX then 0 else pd_entry t (kernel_page_directory s) i)"
    and "pte t a w = (if VMM_PDE_INDEX w < KERNEL_PDE_INDEX then 0 else pte s (kernel_page_directory s) w)"
proof -
  let ?k = "kernel_page_directory s"
  note D = spaces_okD [OF sp] and C = create_pages [OF sp c] and old = create_old [OF sp c] and new = create_new [OF sp c]
  show "a \<noteq> 0" "a \<notin> insert ?k A" using C(2) create_spaces(1) [OF sp c] by simp_all
  show "pte t a w = (if VMM_PDE_INDEX w < KERNEL_PDE_INDEX then 0 else pte s ?k w)" by (rule new(3))
  show "i < 1024 \<Longrightarrow> pd_entry t a i = (if i < KERNEL_PDE_INDEX then 0 else pd_entry t ?k i)" using C(10) old(6) [of ?k i] by simp
  have aa: "page_aligned a" "vmm_phys_to_virt a \<noteq> 0" using table_okD(1,2) [OF C(3)] .
  have pages: "(\<exists>b \<in> insert ?k (insert a A). q \<in> pt_pages t b) \<longleftrightarrow> q = a \<or> (\<exists>b \<in> insert ?k A. q \<in> pt_pages s b)" for q
    using new(2) old(3) pt_pagesI(1) [of a t] by blast
  have "frame q = frame a \<longleftrightarrow> q = a" if "page_aligned q" for q using that aa(1) page_aligned_eq by blast
  then show mg: "managed t (insert a A) = managed s A"
    unfolding managed_def C(5,8) pages using aa C(4) by blast
  have km: "kmem t x = kmem s x" if x: "stable s A x" for x
  proof -
    obtain p u where pu: "pmm_alloc_page s = (p, u)" by (cases "pmm_alloc_page s")
    have p: "p \<noteq> 0" "vmm_phys_to_virt p \<noteq> 0" using alloc_result(1) [OF D(1) pu] c(2) by auto
    define z where "z = mem_zero_page (vmm_phys_to_virt p) u"
    note Z = fresh_page [OF D(1) pu p, folded z_def]
    have at: "a = p" "t = copy_kernel_half p ?k z"
      using c(1) p kernel_dir_alloc [OF pu] by (auto simp: create_eq pu z_def)
    have k: "table_ok s ?k" using as_okD(1) [OF D(3)] .
    have "p \<in> managed s A" using C(4) aa by (simp add: managed_def at(1))
    then have "\<not> in_bitmap s x" "frame x \<noteq> frame (vmm_phys_to_virt p)" using x by (auto simp: stable_def)
    then show ?thesis using Z(12) [of x] copy_kernel_half_spec(2) [OF Z(2) Z(8) [OF k] Z(9) [OF k], of x] at(2) by simp
  qed
  have "stable t (insert a A) x" if "stable s A x" for x using that mg C(6) by (simp add: stable_def)
  moreover have "data_ok t (insert a A) q" if q: "data_ok s A q" for q
  proof -
    have "\<not> (\<exists>b \<in> insert ?k (insert a A). q \<in> pt_pages t b)" unfolding pages using q C(9) [of q] by (auto simp: data_ok_def)
    then show ?thesis using q C(8) C(9) [of q] unfolding data_ok_def by simp
  qed
  moreover have "same_dirs (insert ?k (A \<inter> insert a A)) {} s t" by (rule same_dirsI) (use old(6) in auto)
  ultimately show "mem_step A s (insert a A) t {} {} {}"
    unfolding mem_step_def using create_spaces(2) [OF sp c] C(6,8) km old(5) by simp
qed

lemma create_fail_step:
  fixes s :: "'a vmm_state_scheme"
  assumes sp: "spaces_ok s A" and c: "vmm_create_address_space s = (a, t)" "\<not> can_alloc s"
  shows "a = 0" "mem_step A s A t {} {} {}" "managed t A = managed s A"
proof -
  note D = spaces_okD [OF sp]
  obtain p u where pu: "pmm_alloc_page s = (p, u)" by (cases "pmm_alloc_page s")
  note R = alloc_result [OF D(1) pu]
  have at: "a = 0 \<and> t = (if p = 0 then s else pmm_free_page p u)"
    using c R by (auto simp: create_eq pu split: if_splits)
  then show "a = 0" by simp
  show "mem_step A s A t {} {} {}" "managed t A = managed s A"
  proof -
    have U: "mem_ok t" "free_pages t = free_pages s" "pmm_max_page t = pmm_max_page s" "in_bitmap t = in_bitmap s"
        "\<forall>x. \<not> in_bitmap s x \<longrightarrow> x \<notin> {} \<longrightarrow> kmem t x = kmem s x" "kernel_page_directory t = kernel_page_directory s"
      using at alloc_undo_mem [OF D(1) pu] D(1) kernel_dir_alloc [OF pu] by auto
    have "\<forall>x \<in> {}. \<forall>q. (\<exists>b \<in> insert (kernel_page_directory s) A. q \<in> pt_pages s b) \<longrightarrow> frame x \<noteq> frame (vmm_phys_to_virt q)" by blast
    note S = frame_spaces [OF sp U(1,4,3,6) equalityD1 [OF U(2)] U(5) this]
    have "(\<exists>b \<in> insert (kernel_page_directory s) A. q \<in> pt_pages t b) \<longleftrightarrow> (\<exists>b \<in> insert (kernel_page_directory s) A. q \<in> pt_pages s b)" for q
      using S(5) by blast
    then show "managed t A = managed s A" unfolding managed_def U(2,6) by blast
    have "same_dirs (insert (kernel_page_directory s) (A \<inter> A)) {} s t" by (rule same_dirsI) (use S(6) in auto)
    moreover have "kmem t x = kmem s x" if "stable s A x" for x using U(5) that by (simp add: stable_def)
    ultimately show "mem_step A s A t {} {} {}" unfolding mem_step_def using S(1-4) U(4,6) by simp
  qed
qed

text \<open>All spaces share the kernel half of the directory.\<close>

definition kernel_shared :: "'a vmm_state_scheme \<Rightarrow> u32 set \<Rightarrow> bool" where
  "kernel_shared s A \<longleftrightarrow> (\<forall>a \<in> A. \<forall>i < 1024. KERNEL_PDE_INDEX \<le> i \<longrightarrow> pd_entry s a i = pd_entry s (kernel_page_directory s) i)"

lemma kernel_shared_step:
  assumes "mem_step A s B t K U E" "kernel_shared s A" "B \<subseteq> A"
  shows "kernel_shared t B"
proof -
  have d: "same_dirs (insert (kernel_page_directory s) (A \<inter> B)) E s t" and k: "kernel_page_directory t = kernel_page_directory s"
    using assms(1) by (simp_all add: mem_step_def)
  show ?thesis
    unfolding kernel_shared_def k
  proof (intro ballI allI impI)
    fix a i assume "a \<in> B" "i < 1024" "KERNEL_PDE_INDEX \<le> i"
    then show "pd_entry t a i = pd_entry t (kernel_page_directory s) i"
      using same_dirsD [OF d, of a i] same_dirsD [OF d, of "kernel_page_directory s" i] assms(2,3) by (auto simp: kernel_shared_def)
  qed
qed

lemma kernel_shared_create:
  assumes "spaces_ok s A" "vmm_create_address_space s = (a, t)" "can_alloc s" "kernel_shared s A"
  shows "kernel_shared t (insert a A)"
proof -
  note C = create_step [OF assms(1-3)]
  have d: "same_dirs (insert (kernel_page_directory s) (A \<inter> insert a A)) {} s t" and k: "kernel_page_directory t = kernel_page_directory s"
    using C(1) by (simp_all add: mem_step_def)
  have "pd_entry t b i = pd_entry t (kernel_page_directory s) i" if "b \<in> A" "i < 1024" "KERNEL_PDE_INDEX \<le> i" for b i
    using same_dirsD [OF d, of b i] same_dirsD [OF d, of "kernel_page_directory s" i] assms(4) that by (simp add: kernel_shared_def)
  moreover have "pd_entry t a i = pd_entry t (kernel_page_directory s) i" if "i < 1024" "KERNEL_PDE_INDEX \<le> i" for i
    using C(5) [OF that(1)] that(2) by (simp add: leD)
  ultimately show ?thesis unfolding kernel_shared_def k by auto
qed

lemma destroy_step:
  fixes s :: "'a vmm_state_scheme"
  assumes sp: "spaces_ok s A" and a: "a \<in> A" and sh: "kernel_shared s A"
  defines "t \<equiv> vmm_destroy_address_space a s"
  shows "mem_step A s (A - {a}) t {} {} {}" "managed t (A - {a}) = managed s A"
proof -
  let ?k = "kernel_page_directory s"
  note D = spaces_okD [OF sp] and X = destroy_spec [OF sp a, folded t_def] and Y = destroy_spaces [OF sp a, folded t_def]
  have keep: "same_page s t (vmm_phys_to_virt q)" if "b \<in> insert ?k A" "q \<in> pt_pages s b" for b q
    using X(6) table_okD(6) [OF pt_pages_ok [OF D(5) that(2)]] that(1) by (auto simp: same_page_def page_clear_def)
  have pd: "pd_entry t b i = pd_entry s b i" if "b \<in> insert ?k A" "i < 1024" for b i
    by (rule pages_kept(1) [OF D(5) [OF that(1)] keep [OF that(1)] that(2)])
  have pt: "pt_pages t b = pt_pages s b" if "b \<in> insert ?k A" for b by (rule pt_pages_cong) (rule pd [OF that])
  have pa: "q \<in> pt_pages s a \<longleftrightarrow> q = a \<or> q \<in> user_tables s a KERNEL_PDE_INDEX \<or> (\<exists>i < 1024. KERNEL_PDE_INDEX \<le> i \<and> odd (pd_entry s a i) \<and> q = tbl (pd_entry s a i))" for q
    unfolding pt_pages_def user_tables_def using kernel_index by (auto simp: not_less) (metis not_less)
  have up: "q \<in> pt_pages s ?k" if "i < 1024" "KERNEL_PDE_INDEX \<le> i" "odd (pd_entry s a i)" "q = tbl (pd_entry s a i)" for i q
    using that sh a pt_pagesI(2) [OF that(1), of s ?k] by (simp add: kernel_shared_def)
  have T: "table_ok s q" if "q \<in> insert a (user_tables s a KERNEL_PDE_INDEX)" for q
    using that pt_pages_ok [OF D(4) [OF a]] pa by blast
  have eq: "frame q = frame p \<longleftrightarrow> q = p" if "page_aligned q" "p \<in> insert a (user_tables s a KERNEL_PDE_INDEX)" for p q
    using that table_okD(1) [OF T] page_aligned_eq by blast
  have fr: "frame q \<in> free_pages t \<longleftrightarrow> frame q \<in> free_pages s \<or> q = a \<or> q \<in> user_tables s a KERNEL_PDE_INDEX" if "page_aligned q" for q
    using eq [OF that] unfolding X(2) by (auto simp: image_iff)
  have others: "(\<exists>b \<in> insert ?k (A - {a}). q \<in> pt_pages t b) \<longleftrightarrow> (\<exists>b \<in> insert ?k (A - {a}). q \<in> pt_pages s b)" for q
    using pt by blast
  have all: "(\<exists>b \<in> insert ?k A. q \<in> pt_pages s b) \<longleftrightarrow> q = a \<or> q \<in> user_tables s a KERNEL_PDE_INDEX \<or> (\<exists>b \<in> insert ?k (A - {a}). q \<in> pt_pages s b)" for q
    using pa [of q] up [of _ q] a by blast
  show mg: "managed t (A - {a}) = managed s A"
    unfolding managed_def X(5) others all using fr by blast
  have st: "stable t (A - {a}) x" if "stable s A x" for x using that mg X(4) by (simp add: stable_def)
  moreover have "kmem t x = kmem s x" if "stable s A x" for x using X(6) that by (simp add: stable_def)
  moreover have "data_ok t (A - {a}) q" if q: "data_ok s A q" for q
  proof -
    have "q \<notin> pt_pages s b" if "b \<in> insert ?k A" for b using q that unfolding data_ok_def by blast
    then have n: "q \<notin> insert a (user_tables s a KERNEL_PDE_INDEX)" using pa [of q] a by blast
    have "table_ok t q" using q fr [OF data_okD(1) [OF q]] n X(3,4) by (simp add: data_ok_def table_ok_def page_clear_def)
    moreover have "q \<notin> pt_pages t b" if "b \<in> insert ?k (A - {a})" for b using q pt [of b] that by (auto simp: data_ok_def)
    ultimately show ?thesis using X(5) by (simp add: data_ok_def)
  qed
  moreover have "same_dirs (insert ?k (A \<inter> (A - {a}))) {} s t" by (rule same_dirsI) (use pd in auto)
  moreover have "a \<noteq> ?k" using D(2) a by blast
  then have "pte t b w = pte s b w" if "b \<in> insert ?k (A \<inter> (A - {a}))" for b w using that Y(2) by auto
  ultimately show "mem_step A s (A - {a}) t {} {} {}" unfolding mem_step_def using Y(1) X(4,5) by simp
qed

section \<open>Pages of processes\<close>

lemma space_mem_step:
  assumes "space_step A a s t"
  shows "mem_step A s A t {} {} {a}"
  using assms unfolding space_step_def mem_step_def by simp

lemma released_mem_step:
  assumes "released A a F s t"
  shows "mem_step A s A t F (page_area F) {a}"
proof -
  note R = assms [unfolded released_def]
  have "stable t A x" if "stable s A x" "x \<notin> page_area F" for x using R that by (auto simp: stable_def page_area_def)
  then show ?thesis using R unfolding mem_step_def by simp
qed

section \<open>Variables beside memory\<close>

text \<open>The head of the heap, the boot module, the loaded directory and the stack pointer.\<close>

definition mvars :: "'a sched_state_scheme \<Rightarrow> (ptr \<times> ptr \<times> u32) \<times> u32 \<times> u32" where
  "mvars s = ((heap_list s, module_start s, module_size s), cr3 s, reg_esp s)"

lemma mvarsD:
  assumes "mvars t = mvars s"
  shows "heap_list t = heap_list s" "module_start t = module_start s" "module_size t = module_size s" "cr3 t = cr3 s" "reg_esp t = reg_esp s"
  using assms by (simp_all add: mvars_def)

lemma vmm_more_mvars: "vmm_state.more t = vmm_state.more s \<Longrightarrow> cr3 t = cr3 s \<Longrightarrow> mvars t = mvars s"
  for s t :: "'a sched_state_scheme"
  by (cases s, cases t) (simp add: mvars_def)

lemma tty_more_mvars: "tty_state.more t = tty_state.more s \<Longrightarrow> mvars t = mvars s" for s t :: "'a sched_state_scheme"
  by (cases s, cases t) (simp add: mvars_def)

lemma cr3_unmap: "cr3 (snd (vmm_unmap_page_in a v s)) = cr3 s"
  by (simp add: vmm_unmap_page_in_def Let_def arr_upd_def paging_tlb_invalidate_def)

lemma cr3_destroy: "cr3 (vmm_destroy_address_space a s) = cr3 s"
proof -
  have "cr3 (for_u32 0 KERNEL_PDE_INDEX (\<lambda>i s.
        if arr s pd i AND VMM_PAGE_PRESENT \<noteq> 0 then pmm_free_page (arr s pd i AND 0xfffff000) s else s) s) = cr3 s"
    for pd and s :: "'a vmm_state_scheme"
    by (rule for_u32_keeps) simp
  then show ?thesis by (simp add: vmm_destroy_address_space_def Let_def)
qed

lemma cr3_create: "cr3 (snd (vmm_create_address_space s)) = cr3 s"
proof -
  obtain q u where u: "pmm_alloc_page s = (q, u)" by (cases "pmm_alloc_page s")
  have "cr3 (copy_kernel_half a k w) = cr3 w" for a k and w :: "'a vmm_state_scheme"
    unfolding copy_kernel_half_def by (rule for_u32_keeps) (simp add: arr_upd_def)
  then show ?thesis by (simp add: create_eq u mem_zero_page_def cr3_alloc [OF u])
qed

lemma mem_mvars [simp]:
  fixes s :: "'a user_state_scheme"
  shows "mvars (snd (vmm_unmap_page_in a v s)) = mvars s" "mvars (pmm_free_page q s) = mvars s"
    and "mvars (vmm_destroy_address_space a s) = mvars s" "mvars (snd (vmm_create_address_space s)) = mvars s"
    and "mvars (snd (printk fmt args s)) = mvars s" "mvars (set_proc j f s) = mvars s" "mvars (set_task i g s) = mvars s"
    and "mvars (snd (vmm_map_page_in a v p fl s)) = mvars s"
proof -
  show "mvars (snd (vmm_unmap_page_in a v s)) = mvars s" by (rule vmm_more_mvars [OF unmap_more cr3_unmap])
  show "mvars (pmm_free_page q s) = mvars s" by (rule vmm_more_mvars [OF free_page_more cr3_free])
  show "mvars (vmm_destroy_address_space a s) = mvars s" by (rule vmm_more_mvars [OF destroy_more cr3_destroy])
  show "mvars (snd (vmm_create_address_space s)) = mvars s" by (rule vmm_more_mvars [OF create_space_more cr3_create])
  show "mvars (snd (printk fmt args s)) = mvars s" by (rule tty_more_mvars) simp
  show "mvars (set_proc j f s) = mvars s" "mvars (set_task i g s) = mvars s" by (simp_all add: mvars_def set_proc_def set_task_def)
  obtain r t where t: "vmm_map_page_in a v p fl s = (r, t)" by (cases "vmm_map_page_in a v p fl s")
  then show "mvars (snd (vmm_map_page_in a v p fl s)) = mvars s"
    using vmm_more_mvars [of t s] map_more [of a v p fl s] cr3_map [OF t] by simp
qed

lemma alloc_mvars: "pmm_alloc_page s = (p, t) \<Longrightarrow> mvars t = mvars s" for s t :: "'a user_state_scheme"
  by (rule vmm_more_mvars [OF alloc_page_more cr3_alloc])

lemma free_pages_mvars [simp]: "mvars (user_process_free_pages (Some j) s) = mvars s"
  by (simp add: user_process_free_pages_def Let_def for_u32_keeps)

lemma map_copied_mvars: "mvars (snd (map_copied_user_page (Some j) v src sz f s)) = mvars s"
proof -
  obtain p u where u: "pmm_alloc_page s = (p, u)" by (cases "pmm_alloc_page s")
  have k: "mvars (w\<lparr>kmem := m\<rparr>) = mvars w" for w :: "'a user_state_scheme" and m by (simp add: mvars_def)
  show ?thesis
    by (simp add: map_copied_user_page_def u Let_def split_beta k alloc_mvars [OF u])
qed

lemma load_emxf_mvars: "mvars (snd (load_emxf (Some j) img sz s)) = mvars s"
  by (simp add: load_emxf_def Let_def split_beta map_copied_mvars)

lemma prepare_exec_mvars: "user_prepare_exec (Some j) (Some path) s = (r, t) \<Longrightarrow> mvars t = mvars s"
  by (auto simp: user_prepare_exec_def Let_def split_beta map_copied_mvars load_emxf_mvars split: option.splits if_splits)

lemma exec_fail_mvars: "mvars (exec_fail j s) = mvars s"
  by (simp add: exec_fail_def user_process_release_def Let_def)

lemma orphan_mvars: "mvars (user_process_orphan_children (Some j) s) = mvars s"
  unfolding user_process_orphan_children_def option.case
  by (rule for_u32_keeps) (simp add: Let_def user_process_release_def)

lemma exit_mvars: "mvars (user_exit_current status s) = mvars s"
  by (simp add: user_exit_current_def Let_def user_process_release_def orphan_mvars split: option.split)

end
