(* ===== verification/KernelMap.thy ===== *)
theory KernelMap
  imports MemorySteps
begin

text \<open>
  The memory the scheduler owns: every task has a heap block of its own as its stack and at most
  one address space of its own, and reaping, creation of threads and task switches keep it so.
\<close>

section \<open>Stacks and address spaces of tasks\<close>

definition task_owns :: "u32 \<Rightarrow> u32 set \<Rightarrow> (ptr \<times> u32) set \<Rightarrow> task \<Rightarrow> bool" where
  "task_owns k A L x \<longleftrightarrow> (t_stack x \<noteq> 0 \<longrightarrow> (\<exists>n \<ge> 2048. (t_stack x, n) \<in> L)) \<and> t_address_space x \<in> insert 0 (insert k A)"

definition tasks_apart :: "u32 set \<Rightarrow> task \<Rightarrow> task \<Rightarrow> bool" where
  "tasks_apart A x y \<longleftrightarrow> (t_stack x \<noteq> 0 \<longrightarrow> t_stack x \<noteq> t_stack y) \<and> (t_address_space x \<in> A \<longrightarrow> t_address_space x \<noteq> t_address_space y)"

definition task_mem :: "task list \<Rightarrow> u32 \<Rightarrow> u32 set \<Rightarrow> (ptr \<times> u32) set \<Rightarrow> bool" where
  "task_mem ts k A L \<longleftrightarrow> length ts = 16 \<and> (\<forall>i < 16. task_owns k A L (ts ! i)) \<and>
     (\<forall>i < 16. \<forall>j < 16. i \<noteq> j \<longrightarrow> tasks_apart A (ts ! i) (ts ! j))"

lemma task_memD:
  assumes "task_mem ts k A L"
  shows "length ts = 16" "i < 16 \<Longrightarrow> task_owns k A L (ts ! i)" "i < 16 \<Longrightarrow> j < 16 \<Longrightarrow> i \<noteq> j \<Longrightarrow> tasks_apart A (ts ! i) (ts ! j)"
  using assms by (auto simp: task_mem_def)

lemma blank_owns [simp]: "task_owns k A L blank_task" "tasks_apart A blank_task y \<longleftrightarrow> (0 \<in> A \<longrightarrow> t_address_space y \<noteq> 0)"
    "tasks_apart A x blank_task \<longleftrightarrow> (t_address_space x \<in> A \<longrightarrow> t_address_space x \<noteq> 0)"
  by (auto simp: task_owns_def tasks_apart_def blank_task_def)

text \<open>Only the stack and the address space of the tasks matter.\<close>

lemma task_mem_cong:
  assumes "task_mem ts k A L" "length us = 16" "\<And>i. i < 16 \<Longrightarrow> t_stack (us ! i) = t_stack (ts ! i) \<and> t_address_space (us ! i) = t_address_space (ts ! i)"
  shows "task_mem us k A L"
  using assms unfolding task_mem_def task_owns_def tasks_apart_def by auto

lemma task_mem_update:
  assumes "task_mem ts k A L" "i < 16" "task_owns k A L x"
    and "\<And>j. j < 16 \<Longrightarrow> j \<noteq> i \<Longrightarrow> tasks_apart A x (ts ! j) \<and> tasks_apart A (ts ! j) x"
  shows "task_mem (ts [i := x]) k A L"
  using assms unfolding task_mem_def by (simp add: nth_list_update)

section \<open>Steps of the scheduler on memory\<close>

definition sched_mem :: "'a sched_state_scheme \<Rightarrow> u32 set \<Rightarrow> u32 set \<Rightarrow> (ptr \<times> u32) set \<Rightarrow> bool" where
  "sched_mem s A H L \<longleftrightarrow> spaces_ok s A \<and> kernel_shared s A \<and> heap_map s A H L \<and> task_mem (tasks s) (kernel_page_directory s) A L"

definition boot_mods :: "'a boot_state_scheme \<Rightarrow> ptr \<times> u32" where
  "boot_mods s = (module_start s, module_size s)"

lemma heap_more_mods: "heap_state.more t = heap_state.more s \<Longrightarrow> boot_mods t = boot_mods s" for s t :: "'a boot_state_scheme"
  by (cases s, cases t) (simp add: boot_mods_def)

lemma vmm_more_mods: "vmm_state.more t = vmm_state.more s \<Longrightarrow> boot_mods t = boot_mods s" for s t :: "'a boot_state_scheme"
  by (cases s, cases t) (simp add: boot_mods_def)

text \<open>
  Tasks that are not finished and not in \<open>X\<close> keep their stacks, the saved stack pointers and the
  bytes in the stacks.
\<close>

definition stack_kept :: "nat \<Rightarrow> 'a sched_state_scheme \<Rightarrow> 'a sched_state_scheme \<Rightarrow> bool" where
  "stack_kept i s t \<longleftrightarrow> ready (tasks t) i \<and> t_stack (tasks t ! i) = t_stack (tasks s ! i) \<and>
     t_stack_pointer (tasks t ! i) = t_stack_pointer (tasks s ! i) \<and>
     (t_stack (tasks s ! i) \<noteq> 0 \<longrightarrow> (\<forall>x \<in> area (t_stack (tasks s ! i)) 2048. kmem t x = kmem s x))"

definition stacks_kept :: "nat set \<Rightarrow> 'a sched_state_scheme \<Rightarrow> 'a sched_state_scheme \<Rightarrow> bool" where
  "stacks_kept X s t \<longleftrightarrow> (\<forall>i < 16. i \<notin> X \<longrightarrow> ready (tasks s) i \<longrightarrow> stack_kept i s t)"

lemma stacks_kept_refl: "stacks_kept X s s"
  by (simp add: stacks_kept_def stack_kept_def)

lemma stacks_kept_trans: "stacks_kept X s t \<Longrightarrow> stacks_kept X t u \<Longrightarrow> stacks_kept X s u"
  unfolding stacks_kept_def stack_kept_def by (intro allI impI) metis

lemma stacks_keptI:
  assumes tm: "task_mem (tasks s) k A L"
    and t: "\<And>i. i < 16 \<Longrightarrow> i \<notin> X \<Longrightarrow> ready (tasks s) i \<Longrightarrow> ready (tasks t) i \<and> t_stack (tasks t ! i) = t_stack (tasks s ! i) \<and>
      t_stack_pointer (tasks t ! i) = t_stack_pointer (tasks s ! i)"
    and b: "\<And>i n x. i < 16 \<Longrightarrow> i \<notin> X \<Longrightarrow> ready (tasks s) i \<Longrightarrow> t_stack (tasks s ! i) \<noteq> 0 \<Longrightarrow> 2048 \<le> n \<Longrightarrow> (t_stack (tasks s ! i), n) \<in> L \<Longrightarrow>
      x \<in> area (t_stack (tasks s ! i)) n \<Longrightarrow> kmem t x = kmem s x"
  shows "stacks_kept X s t"
  unfolding stacks_kept_def stack_kept_def
proof (intro allI impI conjI ballI)
  fix j x assume j: "j < 16" "j \<notin> X" "ready (tasks s) j" "t_stack (tasks s ! j) \<noteq> 0" "x \<in> area (t_stack (tasks s ! j)) 2048"
  obtain n where n: "2048 \<le> n" "(t_stack (tasks s ! j), n) \<in> L" using task_memD(2) [OF tm j(1)] j(4) unfolding task_owns_def by auto
  have "x \<in> area (t_stack (tasks s ! j)) n" using j(5) n(1) by (auto simp: area_def intro: less_le_trans)
  then show "kmem t x = kmem s x" using b [OF j(1-4) n] by simp
qed (use t in blast)+

text \<open>
  A step that writes the heap only, takes pages for it from the frames under management and may
  destroy address spaces.
\<close>

definition heap_step ::
    "u32 set \<Rightarrow> u32 set \<Rightarrow> 'a sched_state_scheme \<Rightarrow> u32 set \<Rightarrow> u32 set \<Rightarrow> (ptr \<times> u32) set \<Rightarrow> 'a sched_state_scheme \<Rightarrow> bool" where
  "heap_step A H s B H' L' t \<longleftrightarrow> sched_mem t B H' L' \<and> mem_step A s B t {} (page_area H) {} \<and> B \<subseteq> A \<and>
     H \<subseteq> H' \<and> H' - H \<subseteq> managed s A \<and> managed t B = managed s A - (H' - H) \<and>
     boot_mods t = boot_mods s \<and> cr3 t = cr3 s \<and> stacks_kept {} s t"

lemma heap_step_refl: "sched_mem s A H L \<Longrightarrow> heap_step A H s A H L s"
  using mem_step_refl [of s A "{}" "page_area H" "{}"] by (simp add: heap_step_def sched_mem_def stacks_kept_refl)

lemma managed_area:
  assumes "stable s A x" "N \<subseteq> managed s A"
  shows "x \<notin> page_area N"
  using assms by (auto simp: stable_def page_area_def)

lemma mem_step_fresh:
  assumes "mem_step A s B t K (page_area H') E" "H' - H \<subseteq> managed s A"
  shows "mem_step A s B t K (page_area H) E"
proof -
  have "x \<notin> page_area H'" if "stable s A x" "x \<notin> page_area H" for x
    using managed_area [OF that(1) assms(2)] that(2) by (auto simp: page_area_def)
  then show ?thesis using assms(1) unfolding mem_step_def by simp
qed

lemma heap_stepD:
  assumes "heap_step A H s B H' L' t"
  shows "sched_mem t B H' L'" "mem_step A s B t {} (page_area H) {}" "B \<subseteq> A" "H \<subseteq> H'" "H' - H \<subseteq> managed s A" "managed t B = managed s A - (H' - H)"
    and "boot_mods t = boot_mods s" "cr3 t = cr3 s" "stacks_kept {} s t"
  using assms unfolding heap_step_def by blast+

lemma heap_step_trans:
  assumes "heap_step A H s B H' L' t" "heap_step B H' t C H'' L'' u"
  shows "heap_step A H s C H'' L'' u"
proof -
  note S = heap_stepD [OF assms(1)] and T = heap_stepD [OF assms(2)]
  have "A \<inter> C \<subseteq> B" using T(3) by blast
  from mem_step_trans [OF S(2) T(2) this] have "mem_step A s C u {} (page_area H') {}"
    using page_area_mono [OF S(4)] by (simp add: Un_absorb1)
  then have "mem_step A s C u {} (page_area H) {}" using S(5) by (rule mem_step_fresh)
  moreover have "stacks_kept {} s u" by (rule stacks_kept_trans [OF S(9) T(9)])
  moreover have "H'' - H \<subseteq> managed s A" using S(5,6) T(5) by blast
  moreover have "managed u C = managed s A - (H'' - H)" using S(4,6) T(4,6) by blast
  moreover have "boot_mods u = boot_mods s" "cr3 u = cr3 s" using S(7,8) T(7,8) by simp_all
  moreover have "C \<subseteq> A" "H \<subseteq> H''" using S(3,4) T(3,4) by blast+
  ultimately show ?thesis unfolding heap_step_def using T(1) by blast
qed

lemma vm_same_step: "spaces_ok s A \<Longrightarrow> vm_same s t \<Longrightarrow> mem_step A s A t {} {} {}"
  by (rule mem_step_same [OF mem_step_refl])

lemma zero_space:
  assumes "spaces_ok s A"
  shows "0 \<notin> A" "kernel_page_directory s \<noteq> 0" "kernel_page_directory s \<notin> A"
  using spaces_okD(2,3) [OF assms] spaces_okD(4) [OF assms] table_okD(4) [OF as_okD(1)] by blast+

text \<open>The part of a step before the heap is touched.\<close>

lemma heap_still:
  fixes s t :: "'a heap_state_scheme"
  assumes "mem_step A s B t {} {} {}" "heap_map s A H L" "heap_list t = heap_list s"
  shows "heap_map t B H L" "a \<in> L \<Longrightarrow> x \<in> area (fst a) (snd a) \<Longrightarrow> kmem t x = kmem s x"
  using heap_map_kept [OF assms(1,2) _ _ assms(3)] live_in_pages [OF assms(2), of a] by auto

section \<open>Reaping\<close>

lemma task_mem_blank:
  assumes tm: "task_mem ts k A L" and i: "i < 16" and z: "0 \<notin> A"
  shows "task_mem (ts [i := blank_task]) k (A - {t_address_space (ts ! i)}) {a \<in> L. t_stack (ts ! i) = 0 \<or> fst a \<noteq> t_stack (ts ! i)}"
    (is "task_mem ?us k ?B ?L")
  unfolding task_mem_def
proof (intro conjI allI impI)
  let ?x = "ts ! i"
  show "length ?us = 16" using task_memD(1) [OF tm] by simp
  fix j :: nat assume j: "j < 16"
  have at: "?us ! j = (if j = i then blank_task else ts ! j)" using i j task_memD(1) [OF tm] by (simp add: nth_list_update)
  have ap: "tasks_apart A ?x (ts ! j)" "tasks_apart A (ts ! j) ?x" if "j \<noteq> i"
    using task_memD(3) [OF tm i j] task_memD(3) [OF tm j i] that by auto
  show "task_owns k ?B ?L (?us ! j)"
  proof (cases "j = i")
    case False
    have o: "t_stack (ts ! j) \<noteq> 0 \<longrightarrow> (\<exists>n \<ge> 2048. (t_stack (ts ! j), n) \<in> L)" "t_address_space (ts ! j) \<in> insert 0 (insert k A)"
      using task_memD(2) [OF tm j] by (simp_all add: task_owns_def)
    have d: "t_stack ?x = 0 \<or> t_stack (ts ! j) \<noteq> t_stack ?x" "t_address_space (ts ! j) \<in> A \<longrightarrow> t_address_space (ts ! j) \<noteq> t_address_space ?x"
      using ap [OF False] by (auto simp: tasks_apart_def)
    have "t_stack (ts ! j) \<noteq> 0 \<longrightarrow> (\<exists>n \<ge> 2048. (t_stack (ts ! j), n) \<in> ?L)" using o(1) d(1) by auto
    moreover have "t_address_space (ts ! j) \<in> insert 0 (insert k ?B)" using o(2) d(2) by blast
    ultimately show ?thesis using at False by (simp add: task_owns_def)
  qed (use at in simp)
  fix l :: nat assume l: "l < 16" "j \<noteq> l"
  have al: "?us ! l = (if l = i then blank_task else ts ! l)" using i l(1) task_memD(1) [OF tm] by (simp add: nth_list_update)
  show "tasks_apart ?B (?us ! j) (?us ! l)"
    using task_memD(3) [OF tm j l] at al z by (auto simp: tasks_apart_def blank_task_def)
qed

text \<open>\<open>task_cleanup\<close> up to the address space of the task.\<close>

definition cleanup_space :: "u32 \<Rightarrow> 'a sched_state_scheme \<Rightarrow> 'a sched_state_scheme" where
  "cleanup_space i s =
     (let s = set_task i (\<lambda>t. t\<lparr>t_id := 0, t_state := TASK_UNUSED, t_stack_pointer := 0, t_entry := None\<rparr>) s;
          s = (if t_address_space (task_at i s) \<noteq> 0 \<and> t_address_space (task_at i s) \<noteq> vmm_get_kernel_address_space s
               then vmm_destroy_address_space (t_address_space (task_at i s)) s else s)
      in set_task i (\<lambda>t. t\<lparr>t_address_space := 0\<rparr>) s)"

lemma set_task_same:
  "vm_same s (set_task i f s)" "heap_list (set_task i f s) = heap_list s" "cr3 (set_task i f s) = cr3 s" "boot_mods (set_task i f s) = boot_mods s"
  "kernel_page_directory (set_task i f s) = kernel_page_directory s"
  by (simp_all add: set_task_def vm_same_def pmm_same_def boot_mods_def)

lemma cleanup_space_step:
  fixes s :: "'a sched_state_scheme"
  assumes sp: "spaces_ok s A" and sh: "kernel_shared s A" and i: "unat i < length (tasks s)"
    and x: "t_address_space (tasks s ! unat i) \<in> insert 0 (insert (kernel_page_directory s) A)"
  defines "t \<equiv> cleanup_space i s" and "B \<equiv> A - {t_address_space (tasks s ! unat i)}"
  shows "mem_step A s B t {} {} {}" "managed t B = managed s A" "heap_list t = heap_list s" "cr3 t = cr3 s" "boot_mods t = boot_mods s"
    and "t_stack (task_at i t) = t_stack (tasks s ! unat i)"
proof -
  let ?k = "kernel_page_directory s" and ?a = "t_address_space (tasks s ! unat i)"
  define u where "u = set_task i (\<lambda>t. t\<lparr>t_id := 0, t_state := TASK_UNUSED, t_stack_pointer := 0, t_entry := None\<rparr>) s"
  have V: "vm_same s u" "heap_list u = heap_list s" "cr3 u = cr3 s" "boot_mods u = boot_mods s" "kernel_page_directory u = ?k"
    by (simp_all only: u_def set_task_same)
  note Z = zero_space [OF sp]
  have u: "t_address_space (task_at i u) = ?a" "vmm_get_kernel_address_space u = ?k" "t_stack (task_at i u) = t_stack (tasks s ! unat i)"
    using i by (simp_all add: u_def task_at_def set_task_def vmm_get_kernel_address_space_def)
  have spu: "spaces_ok u A" and shu: "kernel_shared u A"
    using sp sh vm_same_parts [OF V(1)] V(5) by (simp_all add: kernel_shared_def)
  define w where "w = (if ?a \<noteq> 0 \<and> ?a \<noteq> ?k then vmm_destroy_address_space ?a u else u)"
  have t: "t = set_task i (\<lambda>t. t\<lparr>t_address_space := 0\<rparr>) w"
    unfolding t_def cleanup_space_def Let_def u_def [symmetric] u w_def ..
  have w: "mem_step A u B w {} {} {} \<and> managed w B = managed u A"
  proof (cases "?a \<noteq> 0 \<and> ?a \<noteq> ?k")
    case True
    then have "?a \<in> A" using x by auto
    then show ?thesis using True destroy_step [OF spu _ shu] by (simp add: w_def B_def)
  next
    case False
    then have B: "B = A" using Z by (auto simp: B_def)
    have e: "w = u" unfolding w_def by (rule if_not_P [OF False])
    show ?thesis unfolding B e using mem_step_refl [OF spu] by simp
  qed
  have "mem_step A s B w {} {} {}" using mem_step_trans [OF vm_same_step [OF sp V(1)] conjunct1 [OF w]] by (simp add: B_def)
  then show "mem_step A s B t {} {} {}" unfolding t by (rule mem_step_same [OF _ set_task_same(1)])
  show "managed t B = managed s A" using w vm_same_parts(2) [OF V(1)] by (simp add: t vm_same_parts(2) [OF set_task_same(1)])
  have "mvars (vmm_destroy_address_space ?a u) = mvars u" by (rule vmm_more_mvars [OF destroy_more cr3_destroy])
  then have m: "heap_list w = heap_list s" "cr3 w = cr3 s" "boot_mods w = boot_mods s"
    using V(2-4) vmm_more_mods [OF destroy_more, of ?a u] by (auto simp: w_def mvars_def)
  then show "heap_list t = heap_list s" "cr3 t = cr3 s" "boot_mods t = boot_mods s" by (simp_all add: t set_task_same)
  have "sched_vars w = sched_vars u" using destroy_sched [of ?a u] by (simp add: w_def)
  moreover have "length (tasks u) = length (tasks s)" by (simp add: u_def set_task_def)
  ultimately show "t_stack (task_at i t) = t_stack (tasks s ! unat i)"
    using u(3) sched_varsD(1) [of w u] i by (simp add: t task_at_def set_task_def)
qed

text \<open>What becomes of memory when a dead task is cleared: its space is destroyed and its stack freed.\<close>

lemma task_cleanup_memory:
  fixes s :: "'a sched_state_scheme"
  assumes M: "sched_mem s A H L" and i: "unat i < 16"
  defines "x \<equiv> tasks s ! unat i"
  defines "B \<equiv> A - {t_address_space x}" and "L' \<equiv> {a \<in> L. t_stack x = 0 \<or> fst a \<noteq> t_stack x}"
  shows "\<exists>t. task_cleanup i s = Some t \<and> heap_map t B H L' \<and> mem_step A s B t {} (page_area H) {} \<and>
    managed t B = managed s A \<and> cr3 t = cr3 s \<and> boot_mods t = boot_mods s \<and> (\<forall>a \<in> L'. \<forall>y \<in> area (fst a) (snd a). kmem t y = kmem s y)"
proof -
  let ?k = "kernel_page_directory s"
  have sp: "spaces_ok s A" and sh: "kernel_shared s A" and hm: "heap_map s A H L" and tm: "task_mem (tasks s) ?k A L"
    using M by (simp_all add: sched_mem_def)
  have len: "unat i < length (tasks s)" using task_memD(1) [OF tm] i by simp
  have own: "t_stack x \<noteq> 0 \<longrightarrow> (\<exists>n \<ge> 2048. (t_stack x, n) \<in> L)" "t_address_space x \<in> insert 0 (insert ?k A)"
    using task_memD(2) [OF tm i] by (simp_all add: x_def task_owns_def)
  define u where "u = cleanup_space i s"
  note U = cleanup_space_step [OF sp sh len own(2) [unfolded x_def], folded u_def x_def, folded B_def]
  have spu: "spaces_ok u B" using U(1) by (simp add: mem_step_def)
  note hu = heap_still [OF U(1) hm U(3)]
  have eq: "task_cleanup i s = (if t_stack x \<noteq> 0 then map_option (set_task i (\<lambda>t. t\<lparr>t_stack := 0\<rparr>)) (kfree (t_stack x) u) else Some u)"
    unfolding U(6) [symmetric] unfolding u_def cleanup_space_def task_cleanup_def Let_def ..
  show ?thesis
  proof (cases "t_stack x = 0")
    case True
    have "mem_step A s B u {} (page_area H) {}" by (rule mem_step_mono [OF U(1)]) simp_all
    then show ?thesis using True eq hu U by (simp add: L'_def)
  next
    case False
    then obtain n where n: "(t_stack x, n) \<in> L" using own(1) by blast
    obtain w where w: "kfree (t_stack x) u = Some w" "mem_step B u B w {} (page_area H) {}" "cr3 w = cr3 u" "heap_state.more w = heap_state.more u"
        "managed w B = managed u B" "heap_map w B H (L - {(t_stack x, n)})"
        "\<forall>b \<in> L - {(t_stack x, n)}. \<forall>y \<in> area (fst b) (snd b). kmem w y = kmem u y"
      using kfree_step [OF spu hu(1) n] by blast
    have "fst a = t_stack x \<longleftrightarrow> a = (t_stack x, n)" if "a \<in> L" for a
      using heap_map_unique [OF hu(1) _ n] that by (cases a) auto
    then have L: "L' = L - {(t_stack x, n)}" using False by (auto simp: L'_def)
    define t where "t = set_task i (\<lambda>t. t\<lparr>t_stack := 0\<rparr>) w"
    have T: "vm_same w t" "heap_list t = heap_list w" "cr3 t = cr3 w" "boot_mods t = boot_mods w" by (simp_all only: t_def set_task_same)
    have "mem_step A s B t {} (page_area H) {}" using mem_step_same [OF mem_step_trans [OF U(1) w(2)] T(1)] by auto
    moreover have "spaces_ok w B" using w(2) by (simp add: mem_step_def)
    then have "heap_map t B H (L - {(t_stack x, n)})" by (rule heap_still(1) [OF vm_same_step [OF _ T(1)] w(6) T(2)])
    moreover have "managed t B = managed s A" using vm_same_parts(2) [OF T(1)] w(5) U(2) by simp
    moreover have "cr3 t = cr3 s" "boot_mods t = boot_mods s" using w(3) U(4,5) heap_more_mods [OF w(4)] T(3,4) by simp_all
    moreover have "kmem t y = kmem s y" if "a \<in> L - {(t_stack x, n)}" "y \<in> area (fst a) (snd a)" for a y
      using w(7) hu(2) [of a y] that vm_same_parts(8) [OF T(1)] by auto
    ultimately show ?thesis unfolding L using False eq w(1) by (intro exI [of _ t]) (auto simp: t_def)
  qed
qed

lemma task_cleanup_step:
  fixes s :: "'a sched_state_scheme"
  assumes M: "sched_mem s A H L" and i: "unat i < 16" "\<not> ready (tasks s) (unat i)"
  shows "\<exists>t L'. task_cleanup i s = Some t \<and> heap_step A H s (A - {t_address_space (tasks s ! unat i)}) H L' t"
proof -
  let ?k = "kernel_page_directory s" and ?x = "tasks s ! unat i" and ?B = "A - {t_address_space (tasks s ! unat i)}"
  let ?L = "{a \<in> L. t_stack ?x = 0 \<or> fst a \<noteq> t_stack ?x}"
  have sp: "spaces_ok s A" and sh: "kernel_shared s A" and tm: "task_mem (tasks s) ?k A L" using M by (simp_all add: sched_mem_def)
  have len: "unat i < length (tasks s)" using task_memD(1) [OF tm] i(1) by simp
  obtain t where t: "task_cleanup i s = Some t" "heap_map t ?B H ?L" "mem_step A s ?B t {} (page_area H) {}"
      "managed t ?B = managed s A" "cr3 t = cr3 s" "boot_mods t = boot_mods s" "\<forall>a \<in> ?L. \<forall>x \<in> area (fst a) (snd a). kmem t x = kmem s x"
    using task_cleanup_memory [OF M i(1)] by blast
  have tk: "tasks t = (tasks s)[unat i := blank_task]" using task_cleanup_vars [OF t(1) len] by (simp add: sched_vars_def)
  have L: "task_mem (tasks t) ?k ?B ?L" unfolding tk by (rule task_mem_blank [OF tm i(1) zero_space(1) [OF sp]])
  moreover have "kernel_shared t ?B" using kernel_shared_step [OF t(3) sh] by blast
  moreover have "kernel_page_directory t = ?k" "spaces_ok t ?B" using t(3) by (simp_all add: mem_step_def)
  ultimately have "sched_mem t ?B H ?L" unfolding sched_mem_def using t(2) by (simp only: simp_thms)
  moreover have at: "tasks t ! j = tasks s ! j" if "ready (tasks s) j" for j using i(2) tk that by (cases "j = unat i") auto
  have "stacks_kept {} s t"
  proof (rule stacks_keptI [OF tm])
    fix j n x assume j: "j < 16" "ready (tasks s) j" "t_stack (tasks s ! j) \<noteq> 0" "(t_stack (tasks s ! j), n) \<in> L" "x \<in> area (t_stack (tasks s ! j)) n"
    obtain l where "(t_stack (tasks s ! j), l) \<in> ?L" using task_memD(2) [OF L j(1)] j(3) at [OF j(2)] unfolding task_owns_def by auto
    then have "(t_stack (tasks s ! j), n) \<in> ?L" using j(4) by auto
    then show "kmem t x = kmem s x" using t(7) j(5) by auto
  qed (use at in auto)
  ultimately have "heap_step A H s ?B H ?L t"
    unfolding heap_step_def using t(3-6) by (intro conjI) (assumption | simp only: Diff_cancel Diff_empty | blast)+
  then show ?thesis using t(1) by (intro exI [of _ t] exI [of _ ?L] conjI)
qed

text \<open>The address spaces that reaping destroys.\<close>

definition dead_spaces :: "'a sched_state_scheme \<Rightarrow> u32 set" where
  "dead_spaces s = t_address_space ` (!) (tasks s) ` {i. i < 16 \<and> i \<noteq> unat (current_task s) \<and> t_state (tasks s ! i) = TASK_ZOMBIE}"

lemma reap_step:
  fixes s :: "'a sched_state_scheme"
  assumes M: "sched_mem s A H L" and w: "sched_wf (tasks s) (current_task s) run"
  shows "\<exists>t L'. reap_zombies s = Some t \<and>
    heap_step A H s (A - dead_spaces s) H L' t"
proof -
  let ?c = "unat (current_task s)"
  let ?Z = "\<lambda>k :: u32. {i. i < unat k \<and> i \<noteq> ?c \<and> t_state (tasks s ! i) = TASK_ZOMBIE}"
  let ?P = "\<lambda>k u. current_task u = current_task s \<and> (\<forall>i < 16. unat k \<le> i \<longrightarrow> tasks u ! i = tasks s ! i) \<and>
    (\<exists>L'. heap_step A H s (A - t_address_space ` (!) (tasks s) ` ?Z k) H L' u)"
  have "\<exists>t. reap_zombies s = Some t \<and> ?P MAX_TASKS t"
    unfolding reap_zombies_def
  proof (rule for_opt_invariant [where P = ?P])
    have "?Z 1 = {}" using sched_wfD(5) [OF w] by auto
    then have D: "A - t_address_space ` (!) (tasks s) ` ?Z 1 = A" by (simp only: image_empty Diff_empty)
    show "?P 1 s" unfolding D using heap_step_refl [OF M] by blast
    show "1 \<le> MAX_TASKS" by (simp add: MAX_TASKS_def)
    fix k u assume k: "1 \<le> k" "k < MAX_TASKS" and P: "?P k u"
    obtain L' where L': "heap_step A H s (A - t_address_space ` (!) (tasks s) ` ?Z k) H L' u" using P by blast
    have kn: "unat k < 16" "unat (k + 1) = Suc (unat k)" using k(2) unat_inc [OF k(2)] by (simp_all add: MAX_TASKS_def word_less_nat_alt)
    have uk: "tasks u ! unat k = tasks s ! unat k" using P kn(1) by blast
    have c: "k = current_task u \<longleftrightarrow> unat k = ?c" using P by (simp add: word_unat_eq_iff)
    show "\<exists>v. (if k = current_task u \<or> t_state (task_at k u) \<noteq> TASK_ZOMBIE then Some u else task_cleanup k u) = Some v \<and> ?P (k + 1) v"
    proof (cases "k = current_task u \<or> t_state (task_at k u) \<noteq> TASK_ZOMBIE")
      case True
      then have "?Z (k + 1) = ?Z k" using c uk kn(2) by (auto simp: task_at_def less_Suc_eq)
      then show ?thesis using True P kn(2) by auto
    next
      case False
      then have Z: "?Z (k + 1) = insert (unat k) (?Z k)" using c uk kn(2) by (auto simp: task_at_def less_Suc_eq)
      obtain v L'' where v: "task_cleanup k u = Some v"
          "heap_step (A - t_address_space ` (!) (tasks s) ` ?Z k) H u (A - t_address_space ` (!) (tasks s) ` ?Z k - {t_address_space (tasks u ! unat k)}) H L'' v"
        using task_cleanup_step [OF heap_stepD(1) [OF L'] kn(1)] False uk by (auto simp: task_at_def)
      have B: "A - t_address_space ` (!) (tasks s) ` ?Z k - {t_address_space (tasks u ! unat k)} = A - t_address_space ` (!) (tasks s) ` ?Z (k + 1)"
        unfolding Z uk by auto
      have "heap_step A H s (A - t_address_space ` (!) (tasks s) ` ?Z (k + 1)) H L'' v"
        using heap_step_trans [OF L' v(2)] unfolding B .
      moreover have "unat k < length (tasks u)" using heap_stepD(1) [OF L'] kn(1) by (simp add: sched_mem_def task_mem_def)
      then have "tasks v = (tasks u)[unat k := blank_task]" "current_task v = current_task u"
        using task_cleanup_vars [OF v(1)] by (simp_all add: sched_vars_def)
      ultimately show ?thesis using False P v(1) kn(2) by auto
    qed
  qed
  then show ?thesis by (auto simp: MAX_TASKS_def dead_spaces_def)
qed

section \<open>New threads\<close>

lemma task_mem_mono: "task_mem ts k A L \<Longrightarrow> L \<subseteq> M \<Longrightarrow> task_mem ts k A M"
  unfolding task_mem_def task_owns_def by blast

lemma kmalloc_heap_step:
  fixes s :: "'a sched_state_scheme"
  assumes M: "sched_mem s A H L"
  shows "\<exists>p t H' L'. kmalloc n s = Some (p, t) \<and> heap_step A H s A H' L' t \<and> sched_vars t = sched_vars s \<and>
    (p \<noteq> 0 \<longrightarrow> (\<exists>m \<ge> n. (p, m) \<notin> L \<and> L' = insert (p, m) L)) \<and>
    (\<exists>q. H' \<subseteq> insert q H) \<and> (\<forall>k \<le> 4084. align_size n = Some k \<and> can_alloc s \<longrightarrow> p \<noteq> 0)"
proof -
  have sp: "spaces_ok s A" and sh: "kernel_shared s A" and hm: "heap_map s A H L" and tm: "task_mem (tasks s) (kernel_page_directory s) A L"
    using M by (simp_all add: sched_mem_def)
  obtain p t H' where K: "kmalloc n s = Some (p, t)" "mem_step A s A t {} (page_area H) {}" "cr3 t = cr3 s" "heap_state.more t = heap_state.more s"
      "H \<subseteq> H'" "if p = 0 then heap_map t A H' L else \<exists>m. n \<le> m \<and> (p, m) \<notin> L \<and> heap_map t A H' (insert (p, m) L)"
      "managed t A = managed s A - (H' - H)" "H' - H \<subseteq> managed s A" "\<forall>a \<in> L. \<forall>x \<in> area (fst a) (snd a). kmem t x = kmem s x"
      "\<exists>q. H' \<subseteq> insert q H" "\<forall>k \<le> 4084. align_size n = Some k \<and> can_alloc s \<longrightarrow> p \<noteq> 0"
    using kmalloc_step [OF sp hm, of n] by (elim exE conjE) (rule that; blast)
  obtain L' where L': "heap_map t A H' L'" "L \<subseteq> L'" "p \<noteq> 0 \<longrightarrow> (\<exists>m \<ge> n. (p, m) \<notin> L \<and> L' = insert (p, m) L)"
    using K(6) by (cases "p = 0") auto
  have v: "sched_vars t = sched_vars s" by (rule heap_more_sched [OF K(4)])
  have kt: "kernel_page_directory t = kernel_page_directory s" "spaces_ok t A" using K(2) by (simp_all add: mem_step_def)
  have "stacks_kept {} s t" by (rule stacks_keptI [OF tm]) (use K(9) sched_varsD(1) [OF v] in auto)
  moreover have "sched_mem t A H' L'"
    unfolding sched_mem_def using kt L'(1) task_mem_mono [OF tm L'(2)] kernel_shared_step [OF K(2) sh] sched_varsD(1) [OF v] by simp
  ultimately have "heap_step A H s A H' L' t"
    unfolding heap_step_def using K(2,3,5,7,8) heap_more_mods [OF K(4)] by (intro conjI subset_refl)
  then show ?thesis using K(1,10,11) v L'(3) by blast
qed

lemma align_down: "a AND NOT 15 = a - take_bit 4 a" for a :: u32
proof -
  have "a AND NOT 15 = push_bit 4 (drop_bit 4 a)"
  proof (rule bit_word_eqI)
    fix n assume n: "n < LENGTH(32)"
    have m: "(15 :: u32) = mask 4" by (simp add: mask_eq_exp_minus_1)
    have "bit (15 :: u32) n \<longleftrightarrow> n < 4" unfolding m bit_mask_iff possible_bit_word using n by blast
    then show "bit (a AND NOT 15) n \<longleftrightarrow> bit (push_bit 4 (drop_bit 4 a)) n"
      unfolding bit_and_iff bit_not_iff bit_push_bit_iff possible_bit_word using n by (auto simp: bit_drop_bit_eq)
  qed
  then show ?thesis using bits_ident [of 4 a] by (simp add: eq_diff_eq)
qed

lemma stack_cell:
  fixes stk r k x :: u32
  assumes "r < 16" "4 \<le> k" "k \<le> 24" "x - (stk + 2048 - r - k) < 4"
  shows "x - stk < 2048"
proof -
  have "x - stk = (x - (stk + 2048 - r - k)) + (2048 - r - k)" by simp
  moreover have "unat (2048 - r - k) = 2048 - unat r - unat k"
    using assms(1-3) by (simp add: unat_sub word_le_nat_alt word_less_nat_alt unat_word_ariths)
  moreover have "unat r < 16" "4 \<le> unat k" "unat k \<le> 24" "unat (x - (stk + 2048 - r - k)) < 4"
    using assms by (simp_all add: word_le_nat_alt word_less_nat_alt)
  ultimately show ?thesis by (simp only: word_less_nat_alt unat_word_ariths) simp
qed

lemma prepare_writes:
  assumes "sched_prepare_kthread_stack stk KTHREAD_STACK_SIZE f s = (sp, t)"
  shows "\<exists>m. t = s\<lparr>kmem := m\<rparr> \<and> (\<forall>x. x \<notin> area stk 2048 \<longrightarrow> m x = kmem s x)"
proof -
  define top where "top = (stk + KTHREAD_STACK_SIZE) AND NOT (KTHREAD_STACK_ALIGN - 1)"
  have "(16 :: u32) - 1 = 15" by simp
  then have top: "top = stk + 2048 - take_bit 4 (stk + 2048)" unfolding top_def sched_consts by (simp only: align_down)
  have r: "take_bit 4 (stk + 2048) < 16" by (simp add: take_bit_eq_mod word_less_nat_alt unat_mod)
  have t: "t = s\<lparr>kmem := st32 (top - 24) 0 (st32 (top - 20) 0 (st32 (top - 16) 0 (st32 (top - 12) 0
      (st32 (top - 8) f (st32 (top - 4) 0 (kmem s))))))\<rparr>"
    using assms by (auto simp: sched_prepare_kthread_stack_def Let_def store_down_def top_def)
  have o: "st32 (top - k) v m x = m x" if "x \<notin> area stk 2048" "4 \<le> k" "k \<le> 24" for k v m x
  proof (rule st32_other)
    have "\<not> x - (top - k) < 4" using stack_cell [OF r that(2,3)] that(1) unfolding top by (auto simp: area_def)
    then show "4 \<le> x - (top - k)" by simp
  qed
  show ?thesis unfolding t using o by (intro exI conjI) (rule refl, simp)
qed

lemma new_thread_step:
  fixes s t :: "'a sched_state_scheme"
  assumes M: "sched_mem s A H L" and a: "(stk, n) \<in> L" "2048 \<le> n" "\<And>j. j < 16 \<Longrightarrow> t_stack (tasks s ! j) \<noteq> stk"
    and i: "i < 16" "\<not> ready (tasks s) i" and m: "\<And>x. x \<notin> area stk 2048 \<Longrightarrow> m x = kmem s x"
    and t: "vm_same (s\<lparr>kmem := m\<rparr>) t" "heap_list t = heap_list s" "cr3 t = cr3 s" "boot_mods t = boot_mods s" "tasks t = (tasks s)[i := x]"
    and x: "t_stack x = stk" "t_address_space x = kernel_page_directory s"
  shows "heap_step A H s A H L t"
proof -
  let ?k = "kernel_page_directory s"
  have sp: "spaces_ok s A" and sh: "kernel_shared s A" and hm: "heap_map s A H L" and tm: "task_mem (tasks s) ?k A L"
    using M by (simp_all add: sched_mem_def)
  define u where "u = s\<lparr>kmem := m\<rparr>"
  have sub: "area stk 2048 \<subseteq> area stk n" using a(2) by (auto simp: area_def)
  have mn: "m x = kmem s x" if "x \<notin> area stk n" for x using m that sub by blast
  note S = heap_store_step [OF sp hm a(1) mn, folded u_def]
  have "area stk n \<subseteq> page_area H" using live_in_pages [OF hm a(1)] by simp
  then have U: "mem_step A s A u {} (page_area H) {}" using mem_step_mono [OF S(1)] by blast
  have vt: "vm_same u t" using t(1) by (simp add: u_def)
  have T: "mem_step A s A t {} (page_area H) {}" by (rule mem_step_same [OF U vt])
  have spu: "spaces_ok u A" using U by (simp add: mem_step_def)
  have hu: "heap_map u A H L" by (rule S(2))
  have tu: "mem_step A u A t {} {} {}" by (rule vm_same_step [OF spu vt])
  have hl: "heap_list t = heap_list u" using t(2) unfolding u_def by simp
  have ht: "heap_map t A H L" by (rule heap_still(1) [OF tu hu hl])
  have kt: "kernel_page_directory t = ?k" "spaces_ok t A" using T by (simp_all add: mem_step_def)
  have "task_mem (tasks t) ?k A L"
    unfolding t(5)
  proof (rule task_mem_update [OF tm i(1)])
    show "task_owns ?k A L x" using a x by (auto simp: task_owns_def)
    show "tasks_apart A x (tasks s ! j) \<and> tasks_apart A (tasks s ! j) x" if "j < 16" for j
      using a(3) [OF that] x zero_space(3) [OF sp] by (auto simp: tasks_apart_def)
  qed
  then have "sched_mem t A H L" unfolding sched_mem_def using kt ht kernel_shared_step [OF T sh] by simp
  moreover have "managed t A = managed s A - (H - H)" using vm_same_parts(2) [OF vt] S(3) by simp
  moreover have "stacks_kept {} s t"
  proof (rule stacks_keptI [OF tm])
    fix j l y assume j: "j < 16" "(t_stack (tasks s ! j), l) \<in> L" "y \<in> area (t_stack (tasks s ! j)) l"
    have "(t_stack (tasks s ! j), l) \<noteq> (stk, n)" using a(3) [OF j(1)] by simp
    then have "area (t_stack (tasks s ! j)) l \<inter> area stk n = {}" using live_apart [OF hm j(2) a(1)] by simp
    then have "y \<notin> area stk n" using j(3) by blast
    then show "kmem t y = kmem s y" using mn vm_same_parts(8) [OF vt] by (simp add: u_def)
  next
    fix j assume "j < 16" "ready (tasks s) j"
    then have "tasks t ! j = tasks s ! j" using i(2) t(5) by (cases "j = i") auto
    then show "ready (tasks t) j \<and> t_stack (tasks t ! j) = t_stack (tasks s ! j) \<and> t_stack_pointer (tasks t ! j) = t_stack_pointer (tasks s ! j)"
      using \<open>ready (tasks s) j\<close> by simp
  qed
  moreover have "H - H \<subseteq> managed s A" by simp
  ultimately show ?thesis unfolding heap_step_def using T t(3,4) by (intro conjI subset_refl)
qed

text \<open>The new entry of the task table.\<close>

lemma thread_made:
  fixes v :: "'a sched_state_scheme"
  assumes M: "sched_mem v B H L" and i: "unat i < 16" "t_state (tasks v ! unat i) = TASK_UNUSED"
    and stk: "(stk, n) \<in> L" "KTHREAD_STACK_SIZE \<le> n" "\<And>j. j < 16 \<Longrightarrow> t_stack (tasks v ! j) \<noteq> stk"
    and u: "reap_zombies s = Some u" "first_u32 1 MAX_TASKS (\<lambda>i. t_state (task_at i u) = TASK_UNUSED) = Some i"
      "kmalloc KTHREAD_STACK_SIZE u = Some (stk, v)" "stk \<noteq> 0"
  shows "\<exists>r t. kthread_create lk (Some f) s = Some (r, t) \<and> heap_step B H v B H L t"
proof -
  have len: "length (tasks v) = 16" using M by (simp add: sched_mem_def task_mem_def)
  let ?g = "\<lambda>t. t\<lparr>t_state := TASK_RUNNABLE\<rparr> :: task" and ?h = "\<lambda>t. t\<lparr>t_id := next_task_id v\<rparr> :: task"
  obtain sp b where b: "sched_prepare_kthread_stack stk KTHREAD_STACK_SIZE (sym_kthread_trampoline lk)
      (set_task i ?g (set_task i ?h (v\<lparr>next_task_id := next_task_id v + 1\<rparr>))) = (sp, b)" by (meson surj_pair)
  obtain m where m: "b = (set_task i ?g (set_task i ?h (v\<lparr>next_task_id := next_task_id v + 1\<rparr>)))\<lparr>kmem := m\<rparr>"
      "\<forall>x. x \<notin> area stk 2048 \<longrightarrow> m x = kmem v x" using prepare_writes [OF b] by (auto simp: set_task_def)
  let ?x = "(tasks v ! unat i)\<lparr>t_id := next_task_id v, t_state := TASK_RUNNABLE, t_stack_pointer := sp,
    t_address_space := kernel_page_directory v, t_stack := stk, t_entry := Some f\<rparr>"
  define t where "t = set_task i (\<lambda>t. t\<lparr>t_entry := Some f\<rparr>) (set_task i (\<lambda>t. t\<lparr>t_stack := stk\<rparr>)
      (set_task i (\<lambda>t. t\<lparr>t_address_space := kernel_page_directory b\<rparr>) (set_task i (\<lambda>t. t\<lparr>t_stack_pointer := sp\<rparr>) b)))"
  have "kthread_create lk (Some f) s = Some (sint (t_id (task_at i t)), t)"
    using u b by (simp add: kthread_create_def Let_def vmm_get_kernel_address_space_def t_def) (simp add: set_task_def)
  moreover have "heap_step B H v B H L t"
  proof (rule new_thread_step [OF M stk(1) _ stk(3) i(1)])
    show "2048 \<le> n" using stk(2) by (simp add: sched_consts)
    show "\<not> ready (tasks v) (unat i)" using i(2) by simp
    show "m y = kmem v y" if "y \<notin> area stk 2048" for y using m(2) that by simp
    show "vm_same (v\<lparr>kmem := m\<rparr>) t" "heap_list t = heap_list v" "cr3 t = cr3 v" "boot_mods t = boot_mods v"
      by (simp_all add: t_def m(1) set_task_def vm_same_def pmm_same_def boot_mods_def)
    show "tasks t = (tasks v)[unat i := ?x]" using len i(1) by (simp add: t_def m(1) set_task_def)
  qed simp_all
  ultimately show ?thesis by blast
qed

lemma kthread_create_step:
  fixes s :: "'a sched_state_scheme"
  assumes M: "sched_mem s A H L" and w: "sched_wf (tasks s) (current_task s) run"
  shows "\<exists>r t H' L'. kthread_create lk (Some f) s = Some (r, t) \<and> heap_step A H s (A - dead_spaces s) H' L' t \<and> (\<exists>q. H' \<subseteq> insert q H)"
proof -
  let ?B = "A - dead_spaces s"
  obtain u L1 where u: "reap_zombies s = Some u" "heap_step A H s ?B H L1 u" using reap_step [OF M w] by blast
  have vu: "sched_vars u = (map (reaped s) [0..<16], current_task s, next_task_id s)" by (rule reap_vars [OF u(1) sched_wfD(1) [OF w]])
  show ?thesis
  proof (cases "first_u32 1 MAX_TASKS (\<lambda>i. t_state (task_at i u) = TASK_UNUSED)")
    case None
    then have "kthread_create lk (Some f) s = Some (- 1, u)" by (simp add: kthread_create_def u(1))
    then show ?thesis using u(2) by blast
  next
    case (Some i)
    obtain stk v H' L' where v: "kmalloc KTHREAD_STACK_SIZE u = Some (stk, v)" "heap_step ?B H u ?B H' L' v" "sched_vars v = sched_vars u"
        "stk \<noteq> 0 \<longrightarrow> (\<exists>m \<ge> KTHREAD_STACK_SIZE. (stk, m) \<notin> L1 \<and> L' = insert (stk, m) L1)" "\<exists>q. H' \<subseteq> insert q H"
      using kmalloc_heap_step [OF heap_stepD(1) [OF u(2)], of KTHREAD_STACK_SIZE] by (elim exE conjE) (rule that; blast)
    have sv: "heap_step A H s ?B H' L' v" by (rule heap_step_trans [OF u(2) v(2)])
    show ?thesis
    proof (cases "stk = 0")
      case True
      then have "kthread_create lk (Some f) s = Some (- 1, v)" using Some v(1) by (simp add: kthread_create_def u(1))
      then show ?thesis using sv v(5) by blast
    next
      case False
      then obtain n where n: "KTHREAD_STACK_SIZE \<le> n" "(stk, n) \<notin> L1" "L' = insert (stk, n) L1" using v(4) by blast
      have tm: "task_mem (tasks u) (kernel_page_directory u) ?B L1" using heap_stepD(1) [OF u(2)] by (simp add: sched_mem_def)
      have hm: "heap_map v ?B H' L'" using heap_stepD(1) [OF v(2)] by (simp add: sched_mem_def)
      have i: "unat i < 16" "t_state (tasks v ! unat i) = TASK_UNUSED"
        using first_u32_SomeD [OF Some] sched_varsD(1) [OF v(3)] by (auto simp: MAX_TASKS_def task_at_def word_less_nat_alt)
      have fresh: "t_stack (tasks v ! j) \<noteq> stk" if "j < 16" for j
      proof
        assume "t_stack (tasks v ! j) = stk"
        then have "\<exists>l. (stk, l) \<in> L1" using task_memD(2) [OF tm that] False sched_varsD(1) [OF v(3)] by (auto simp: task_owns_def)
        then show False using heap_map_unique [OF hm, of stk _ n] n by blast
      qed
      obtain r t where t: "kthread_create lk (Some f) s = Some (r, t)" "heap_step ?B H' v ?B H' L' t"
        using thread_made [OF heap_stepD(1) [OF v(2)] i _ n(1) fresh u(1) Some v(1) False, of lk f] n(3) by blast
      then show ?thesis using heap_step_trans [OF sv t(2)] v(5) by blast
    qed
  qed
qed

end
