(* ===== verification/KernelSwitch.thy ===== *)
theory KernelSwitch
  imports KernelMap
begin

text \<open>
  Task switches on memory: \<open>sched_yield\<close> and \<open>kthread_exit\<close> write the saved registers to the stack of
  the task that leaves and nothing else outside the heap; the stack of every other task stays as it
  is, so that task resumes where it left.
\<close>

section \<open>Registers and the stack\<close>

lemma task_cleanup_esp: "task_cleanup i s = Some t \<Longrightarrow> reg_esp t = reg_esp s"
proof -
  have h: "heap_state.more w = heap_state.more v \<Longrightarrow> reg_esp w = reg_esp v" for v w :: "'a sched_state_scheme" by (cases v, cases w) simp
  have d: "reg_esp (vmm_destroy_address_space a v) = reg_esp v" for a and v :: "'a sched_state_scheme"
    using destroy_more [of a v] by (cases v, cases "vmm_destroy_address_space a v") simp
  assume "task_cleanup i s = Some t"
  then show ?thesis by (auto simp: task_cleanup_def Let_def d set_task_def dest!: kfree_more h split: if_splits)
qed

lemma reap_esp:
  assumes "reap_zombies s = Some t"
  shows "reg_esp t = reg_esp s"
  by (rule for_opt_partial [where P = "\<lambda>_ u. reg_esp u = reg_esp s", OF assms [unfolded reap_zombies_def]])
    (auto simp: MAX_TASKS_def dest: task_cleanup_esp split: if_splits)

text \<open>
  The stack of the running task: the boot stack \<open>Z\<close> for task 0.  The frame that a switch saves, with
  the return address above it, lies on it.
\<close>

definition stack_area :: "ptr set \<Rightarrow> 'a sched_state_scheme \<Rightarrow> ptr set" where
  "stack_area Z s = (if current_task s = 0 then Z else area (t_stack (tasks s ! unat (current_task s))) 2048)"

definition on_stack :: "ptr set \<Rightarrow> 'a sched_state_scheme \<Rightarrow> bool" where
  "on_stack Z s \<longleftrightarrow> (\<forall>x. x - (reg_esp s - 16) < 20 \<longrightarrow> x \<in> stack_area Z s)"

text \<open>The boot stack is in memory that nobody manages.\<close>

definition boot_stack :: "ptr set \<Rightarrow> 'a sched_state_scheme \<Rightarrow> u32 set \<Rightarrow> u32 set \<Rightarrow> bool" where
  "boot_stack Z s A H \<longleftrightarrow> (\<forall>x \<in> Z. stable s A x \<and> x \<notin> page_area H)"

lemma stacks_kept_mono: "stacks_kept X s t \<Longrightarrow> X \<subseteq> Y \<Longrightarrow> stacks_kept Y s t"
  unfolding stacks_kept_def by blast

section \<open>Saving the registers\<close>

lemma save_frame_step:
  fixes s :: "'a sched_state_scheme"
  assumes M: "sched_mem s A H L" and Z: "boot_stack Z s A H" and c: "current_task s \<noteq> 0 \<Longrightarrow> t_stack (tasks s ! unat (current_task s)) \<noteq> 0" "unat (current_task s) < 16"
    and m: "\<And>x. x \<notin> stack_area Z s \<Longrightarrow> m x = kmem s x"
  defines "t \<equiv> s\<lparr>kmem := m\<rparr>"
  shows "mem_step A s A t {} (page_area H \<union> Z) {}" "heap_map t A H L" "managed t A = managed s A" "stacks_kept {unat (current_task s)} s t"
proof -
  let ?c = "unat (current_task s)"
  have sp: "spaces_ok s A" and hm: "heap_map s A H L" and tm: "task_mem (tasks s) (kernel_page_directory s) A L"
    using M by (simp_all add: sched_mem_def)
  have kept: "stacks_kept {?c} s t" if "\<And>j n x. j < 16 \<Longrightarrow> j \<noteq> ?c \<Longrightarrow> t_stack (tasks s ! j) \<noteq> 0 \<Longrightarrow> (t_stack (tasks s ! j), n) \<in> L \<Longrightarrow> x \<in> area (t_stack (tasks s ! j)) n \<Longrightarrow> m x = kmem s x"
    by (rule stacks_keptI [OF tm]) (use that in \<open>auto simp: t_def\<close>)
  have "mem_step A s A t {} (page_area H \<union> Z) {} \<and> heap_map t A H L \<and> managed t A = managed s A \<and> stacks_kept {?c} s t"
  proof (cases "current_task s = 0")
    case True
    have z: "\<And>x. x \<in> Z \<Longrightarrow> stable s A x" "Z \<inter> page_area H = {}" using Z by (auto simp: boot_stack_def)
    have mz: "\<And>x. x \<notin> Z \<Longrightarrow> m x = kmem s x" using m True by (simp add: stack_area_def)
    note S = store_step [where m = m, OF sp z(1) mz, folded t_def]
    have "mem_step A s A t {} (page_area H \<union> Z) {}" by (rule mem_step_mono [OF S(1)]) auto
    moreover have "heap_map t A H L" by (rule heap_map_kept(1) [OF S(1) hm]) (use z(2) in \<open>auto simp: t_def\<close>)
    moreover have "stacks_kept {?c} s t"
    proof (rule kept)
      fix j n x assume "(t_stack (tasks s ! j), n) \<in> L" "x \<in> area (t_stack (tasks s ! j)) n"
      then have "x \<in> page_area H" using live_in_pages [OF hm] by fastforce
      then show "m x = kmem s x" using mz z(2) by blast
    qed
    ultimately show ?thesis
      using S(3) by blast
  next
    case False
    let ?k = "t_stack (tasks s ! ?c)"
    obtain n where n: "2048 \<le> n" "(?k, n) \<in> L" using task_memD(2) [OF tm c(2)] c(1) [OF False] by (auto simp: task_owns_def)
    have sub: "area ?k 2048 \<subseteq> area ?k n" using n(1) by (auto simp: area_def)
    have mn: "m x = kmem s x" if "x \<notin> area ?k n" for x using m [of x] that sub False by (auto simp: stack_area_def)
    note S = heap_store_step [OF sp hm n(2) mn, folded t_def]
    have "area ?k n \<subseteq> page_area H" using live_in_pages [OF hm n(2)] by simp
    then have "mem_step A s A t {} (page_area H \<union> Z) {}" by (intro mem_step_mono [OF S(1)]) auto
    moreover have "stacks_kept {?c} s t"
    proof (rule kept)
      fix j l x assume j: "j < 16" "j \<noteq> ?c" "t_stack (tasks s ! j) \<noteq> 0" "(t_stack (tasks s ! j), l) \<in> L" "x \<in> area (t_stack (tasks s ! j)) l"
      have "(t_stack (tasks s ! j), l) \<noteq> (?k, n)" using task_memD(3) [OF tm j(1) c(2) j(2)] j(3) by (simp add: tasks_apart_def)
      then have "area (t_stack (tasks s ! j)) l \<inter> area ?k n = {}" using live_apart [OF hm j(4) n(2)] by simp
      then show "m x = kmem s x" using mn j(5) by blast
    qed
    ultimately show ?thesis
      using S(2,3) by blast
  qed
  then show "mem_step A s A t {} (page_area H \<union> Z) {}" "heap_map t A H L" "managed t A = managed s A" "stacks_kept {?c} s t" by blast+
qed

section \<open>Switching\<close>

text \<open>What a task switch does to memory; afterwards the directory of the running task is loaded.\<close>

definition switch_step :: "u32 set \<Rightarrow> u32 set \<Rightarrow> ptr set \<Rightarrow> 'a sched_state_scheme \<Rightarrow> (ptr \<times> u32) set \<Rightarrow> 'a sched_state_scheme \<Rightarrow> bool" where
  "switch_step A H Z s L' t \<longleftrightarrow> sched_mem t (A - dead_spaces s) H L' \<and> mem_step A s (A - dead_spaces s) t {} (page_area H \<union> Z) {} \<and>
     managed t (A - dead_spaces s) = managed s A \<and> boot_mods t = boot_mods s \<and> stacks_kept {unat (current_task s)} s t \<and>
     cr3 t = t_address_space (tasks t ! unat (current_task t))"

lemma handover_pointer:
  assumes "length ts = 16" "old < 16" "idx < 16" "i < 16" "i \<noteq> old"
  shows "t_stack_pointer (handover ts old idx sp ! i) = t_stack_pointer (ts ! i)"
  using assms by (auto simp: handover_def Let_def nth_list_update)

lemma state_update_space: "j < length ts \<Longrightarrow> t_address_space (ts [i := (ts ! i)\<lparr>t_state := v\<rparr>] ! j) = t_address_space (ts ! j)"
  by (cases "i = j") auto

lemma reaped_current: "reaped s (unat (current_task s)) = tasks s ! unat (current_task s)"
  by (simp add: reaped_def)

lemma switch_same:
  fixes s :: "'a sched_state_scheme"
  shows "vm_same (s\<lparr>kmem := saved_frame s\<rparr>) (sched_context_switch i sp s)" "heap_list (sched_context_switch i sp s) = heap_list s"
    "boot_mods (sched_context_switch i sp s) = boot_mods s" "cr3 (sched_context_switch i sp s) = cr3 s"
  by (simp_all add: sched_context_switch_def Let_def push_def pop_def set_task_def vm_same_def pmm_same_def boot_mods_def saved_frame_def)

text \<open>The state in which the registers are exchanged.\<close>

definition dispatch :: "u32 \<Rightarrow> 'a sched_state_scheme \<Rightarrow> 'a sched_state_scheme" where
  "dispatch idx u =
     (let a = (if t_state (task_at (current_task u) u) = TASK_RUNNING then set_task (current_task u) (\<lambda>t. t\<lparr>t_state := TASK_RUNNABLE\<rparr>) u else u);
          b = (set_task idx (\<lambda>t. t\<lparr>t_state := TASK_RUNNING\<rparr>) a)\<lparr>current_task := idx\<rparr>;
          c = (if t_stack (task_at idx b) \<noteq> 0 then sched_set_kernel_task (t_stack (task_at idx b)) KTHREAD_STACK_SIZE b else b)
      in paging_load_directory (t_address_space (task_at idx c)) c)"

lemmas dispatch_defs = dispatch_def Let_def paging_load_directory_def sched_set_kernel_task_def tss_set_kernel_stack_def set_task_def

lemma dispatch_same:
  fixes u :: "'a sched_state_scheme"
  shows "vm_same u (dispatch idx u)" "heap_list (dispatch idx u) = heap_list u" "boot_mods (dispatch idx u) = boot_mods u"
    "reg_esp (dispatch idx u) = reg_esp u" "current_task (dispatch idx u) = idx" "cr3 (dispatch idx u) = t_address_space (task_at idx (dispatch idx u))"
  by (simp_all add: dispatch_defs vm_same_def pmm_same_def boot_mods_def task_at_def)

lemma dispatch_space: "j < length (tasks u) \<Longrightarrow> t_address_space (tasks (dispatch idx u) ! j) = t_address_space (tasks u ! j)"
  by (simp add: dispatch_defs state_update_space)

lemma yield_dispatch:
  assumes "reap_zombies s = Some u"
    and "first_u32 1 (MAX_TASKS + 1) (\<lambda>i. t_state (task_at ((current_task u + i) mod MAX_TASKS) u) = TASK_RUNNABLE) = Some i"
  defines "idx \<equiv> (current_task u + i) mod MAX_TASKS"
  shows "sched_yield s = Some (True, sched_context_switch (current_task u) (t_stack_pointer (task_at idx (dispatch idx u))) (dispatch idx u))"
  using assms by (simp add: sched_yield_def dispatch_def Let_def)

text \<open>The switch itself writes the frame of the registers to the stack of the task that gives way.\<close>

lemma exchange_step:
  fixes u d :: "'a sched_state_scheme" and i sp :: u32
  assumes M: "sched_mem u B H L" and Z: "boot_stack Z u B H" and st: "on_stack Z u"
    and c: "current_task u \<noteq> 0 \<Longrightarrow> t_stack (tasks u ! unat (current_task u)) \<noteq> 0" "unat (current_task u) < 16"
    and d: "vm_same u d" "heap_list d = heap_list u" "reg_esp d = reg_esp u"
  defines "t \<equiv> sched_context_switch i sp d"
  shows "mem_step B u B t {} (page_area H \<union> Z) {}" "heap_map t B H L" "managed t B = managed u B"
    and "stacks_kept {unat (current_task u)} u (u\<lparr>kmem := kmem t\<rparr>)"
proof -
  have m: "saved_frame d x = kmem u x" if "x \<notin> stack_area Z u" for x
  proof -
    have "\<not> x - (reg_esp d - 16) < 20" using st that d(3) by (auto simp: on_stack_def)
    then have "20 \<le> x - (reg_esp d - 16)" by simp
    then have "16 \<le> x - (reg_esp d - 16)" by (rule order_trans [rotated]) simp
    then show ?thesis using saved_frame_other [of x d] vm_same_parts(8) [OF d(1)] by simp
  qed
  let ?v = "u\<lparr>kmem := saved_frame d\<rparr>"
  note S = save_frame_step [where m = "saved_frame d", OF M Z c m]
  have v: "vm_same ?v t" "heap_list t = heap_list ?v" using switch_same [where s = d] d(1,2) by (auto simp: t_def vm_same_def pmm_same_def)
  have sp: "spaces_ok ?v B" using S(1) by (simp add: mem_step_def)
  show "mem_step B u B t {} (page_area H \<union> Z) {}" by (rule mem_step_same [OF S(1) v(1)])
  show "heap_map t B H L" by (rule heap_still(1) [OF vm_same_step [OF sp v(1)] S(2) v(2)])
  show "managed t B = managed u B" using vm_same_parts(2) [OF v(1)] S(3) by simp
  show "stacks_kept {unat (current_task u)} u (u\<lparr>kmem := kmem t\<rparr>)" using S(4) vm_same_parts(8) [OF v(1)] by simp
qed

text \<open>No other task can run.\<close>

lemma nobody_step:
  fixes s u t :: "'a sched_state_scheme"
  assumes u: "heap_step A H s (A - dead_spaces s) H L u" and more: "tty_state.more t = tty_state.more u"
    and c: "cr3 s = t_address_space (tasks u ! unat (current_task u))"
  shows "switch_step A H Z s L t"
proof -
  let ?B = "A - dead_spaces s"
  note U = heap_stepD [OF u]
  have spu: "spaces_ok u ?B" and shu: "kernel_shared u ?B" and hu: "heap_map u ?B H L" and tmu: "task_mem (tasks u) (kernel_page_directory u) ?B L"
    using U(1) by (simp_all add: sched_mem_def)
  have v: "vm_same u t" "boot_mods t = boot_mods u" "mvars t = mvars u" "sched_vars t = sched_vars u"
    using more tty_more_mvars [OF more] tty_more_sched [OF more] by (cases u, cases t, simp add: vm_same_def pmm_same_def boot_mods_def)+
  have "heap_map t ?B H L" by (rule heap_still(1) [OF vm_same_step [OF spu v(1)] hu mvarsD(1) [OF v(3)]])
  moreover have "task_mem (tasks t) (kernel_page_directory t) ?B L" using tmu sched_varsD [OF v(4)] v(1) by (simp add: vm_same_def)
  moreover have "spaces_ok t ?B" "kernel_shared t ?B"
    using spu shu vm_same_parts [OF v(1)] v(1) by (simp_all add: kernel_shared_def vm_same_def)
  ultimately have "sched_mem t ?B H L" by (simp add: sched_mem_def)
  moreover have "stacks_kept {unat (current_task s)} s t"
  proof -
    have "stacks_kept {unat (current_task s)} u t" using vm_same_parts(8) [OF v(1)] sched_varsD(1) [OF v(4)] by (simp add: stacks_kept_def stack_kept_def)
    then show ?thesis by (rule stacks_kept_trans [OF stacks_kept_mono [OF U(9) empty_subsetI]])
  qed
  moreover have "mem_step A s ?B t {} (page_area H \<union> Z) {}" by (rule mem_step_mono [OF mem_step_same [OF U(2) v(1)]]) auto
  moreover have "cr3 t = t_address_space (tasks t ! unat (current_task t))" using mvarsD(4) [OF v(3)] U(8) c sched_varsD [OF v(4)] by simp
  moreover have "managed t ?B = managed s A" "boot_mods t = boot_mods s" using vm_same_parts(2) [OF v(1)] U(6,7) v(2) by simp_all
  ultimately show ?thesis unfolding switch_step_def by (intro conjI)
qed

text \<open>Another task takes over.\<close>

lemma handover_step:
  fixes s u t :: "'a sched_state_scheme"
  assumes M: "sched_mem s A H L" and u: "heap_step A H s (A - dead_spaces s) H L' u" and cu: "current_task u = current_task s"
    and x: "mem_step (A - dead_spaces s) u (A - dead_spaces s) t {} (page_area H \<union> Z) {}" "heap_map t (A - dead_spaces s) H L'"
      "managed t (A - dead_spaces s) = managed u (A - dead_spaces s)" "stacks_kept {unat (current_task u)} u (u\<lparr>kmem := kmem t\<rparr>)"
    and t: "tasks t = handover (tasks u) (unat (current_task s)) k sp" "length (tasks u) = 16" "unat (current_task s) < 16" "k < 16"
    and b: "boot_mods t = boot_mods u" "cr3 t = t_address_space (tasks t ! unat (current_task t))"
  shows "switch_step A H Z s L' t"
proof -
  let ?B = "A - dead_spaces s" and ?c = "unat (current_task s)"
  note U = heap_stepD [OF u] and HO = handover_nth [OF t(2,3,4), of _ sp] and HP = handover_pointer [OF t(2,3,4), of _ sp]
  have "mem_step A s ?B t ({} \<union> {}) (page_area H \<union> (page_area H \<union> Z)) ({} \<union> {})" by (rule mem_step_trans [OF U(2) x(1)]) auto
  then have ms: "mem_step A s ?B t {} (page_area H \<union> Z) {}" by simp
  have "kernel_page_directory t = kernel_page_directory u" using x(1) by (simp add: mem_step_def)
  moreover have "task_mem (tasks u) (kernel_page_directory u) ?B L'" using U(1) by (simp add: sched_mem_def)
  then have "task_mem (tasks t) (kernel_page_directory u) ?B L'" unfolding t(1) by (rule task_mem_cong) (use HO(2,5) HO(7) [of 0] t(2) in auto)
  ultimately have "task_mem (tasks t) (kernel_page_directory t) ?B L'" by simp
  moreover have "spaces_ok t ?B" "kernel_shared t ?B" using ms kernel_shared_step [OF ms] M by (auto simp: mem_step_def sched_mem_def)
  ultimately have "sched_mem t ?B H L'" using x(2) by (simp add: sched_mem_def)
  moreover have "stacks_kept {?c} s t"
  proof -
    have "stacks_kept {?c} (u\<lparr>kmem := kmem t\<rparr>) t"
      unfolding stacks_kept_def stack_kept_def using HO(1,2) HP t(1) by auto
    moreover have "stacks_kept {?c} u (u\<lparr>kmem := kmem t\<rparr>)" using x(4) cu by simp
    ultimately show ?thesis using stacks_kept_mono [OF U(9) empty_subsetI] stacks_kept_trans by blast
  qed
  moreover have "managed t ?B = managed s A" using x(3) U(6) by simp
  moreover have "boot_mods t = boot_mods s" using b(1) U(7) by simp
  ultimately show ?thesis unfolding switch_step_def using ms b(2) by (intro conjI)
qed

lemma yield_step:
  fixes s :: "'a sched_state_scheme"
  assumes M: "sched_mem s A H L" and w: "sched_wf (tasks s) (current_task s) run" and us: "t_state (tasks s ! unat (current_task s)) \<noteq> TASK_UNUSED"
    and Z: "boot_stack Z s A H" and st: "on_stack Z s" and c3: "cr3 s = t_address_space (tasks s ! unat (current_task s))"
  shows "\<exists>sw t L'. sched_yield s = Some (sw, t) \<and> switch_step A H Z s L' t"
proof -
  let ?B = "A - dead_spaces s" and ?c = "unat (current_task s)" and ?ts = "map (reaped s) [0..<16]"
  obtain u L' where u: "reap_zombies s = Some u" "heap_step A H s ?B H L' u" using reap_step [OF M w] by blast
  note U = heap_stepD [OF u(2)] and W = sched_wfD [OF w]
  have vu: "tasks u = ?ts" "current_task u = current_task s" using reap_vars [OF u(1) W(1)] by (simp_all add: sched_vars_def)
  have cu: "tasks u ! ?c = tasks s ! ?c" using vu(1) W(2) reaped_current [of s] by simp
  have c: "cr3 s = t_address_space (tasks u ! unat (current_task u))" using c3 cu vu(2) by simp
  show ?thesis
  proof (cases "first_u32 1 (MAX_TASKS + 1) (\<lambda>i. t_state (task_at ((current_task u + i) mod MAX_TASKS) u) = TASK_RUNNABLE)")
    case None
    define t where "t = snd (printk (''sched: no runnable tasks'' @ [CHR 0x0A]) [] u)"
    have "sched_yield s = Some (False, t)" using None by (simp add: sched_yield_def u(1) t_def)
    moreover have "switch_step A H Z s L' t" by (rule nobody_step [OF u(2) _ c]) (simp add: t_def)
    ultimately show ?thesis by blast
  next
    case (Some i)
    define idx where "idx = (current_task u + i) mod MAX_TASKS"
    define t where "t = sched_context_switch (current_task u) (t_stack_pointer (task_at idx (dispatch idx u))) (dispatch idx u)"
    have ty: "sched_yield s = Some (True, t)" using yield_dispatch [OF u(1) Some] by (simp add: t_def idx_def)
    obtain k sp where V: "next_index ?ts (current_task s) = Some k" "tasks t = handover ?ts ?c (unat k) sp" "current_task t = k"
      using sched_yield_vars [OF ty W(1)] by (auto simp: sched_vars_def)
    have R: "sched_wf ?ts (current_task s) run" by (rule reaped_wf [OF w])
    note N = next_index_SomeD(1) [OF V(1) W(2)] and HO = handover_nth [OF sched_wfD(1,2) [OF R] next_index_SomeD(1) [OF V(1) W(2)], of _ sp]
    have k: "k = idx" using switch_vars [of "current_task u" _ "dispatch idx u"] dispatch_same(5) [of idx u] V(3) by (simp add: t_def sched_vars_def)
    have "stack_area Z u = stack_area Z s" using vu(2) cu by (simp add: stack_area_def)
    then have "on_stack Z u" using st reap_esp [OF u(1)] by (simp add: on_stack_def)
    moreover have "boot_stack Z u ?B H" using Z U(2) by (simp add: boot_stack_def mem_step_def)
    moreover have "t_stack (tasks u ! unat (current_task u)) \<noteq> 0" if "current_task u \<noteq> 0"
      using W(7) [OF W(2) _ us] that vu(2) cu by (simp add: unat_gt_0)
    moreover have "unat (current_task u) < 16" using W(2) vu(2) by simp
    ultimately have X: "mem_step ?B u ?B t {} (page_area H \<union> Z) {}" "heap_map t ?B H L'" "managed t ?B = managed u ?B"
        "stacks_kept {unat (current_task u)} u (u\<lparr>kmem := kmem t\<rparr>)"
      using exchange_step [OF U(1) _ _ _ _ dispatch_same(1,2,4)] unfolding t_def by blast+
    have "cr3 t = t_address_space (tasks t ! unat (current_task t))"
      using switch_same(4) [where s = "dispatch idx u"] dispatch_same(6) [of idx u] dispatch_space [of "unat idx" u idx] HO(5) [OF N] V(2,3) k vu(1) N
      by (simp add: t_def task_at_def)
    moreover have "boot_mods t = boot_mods u" using switch_same(3) [where s = "dispatch idx u"] dispatch_same(3) [of idx u] by (simp add: t_def)
    ultimately have "switch_step A H Z s L' t" using V(2) vu(1) W(2) N by (intro handover_step [OF M u(2) vu(2) X, of "unat k" sp]) simp_all
    then show ?thesis using ty by blast
  qed
qed

end
