(* ===== verification/ProcessMap.thy ===== *)
theory ProcessMap
  imports KernelSwitch UserlandProof
begin

text \<open>
  Who owns which frame.  The frames of the machine's memory under kernel control are divided among
  the free ones and the page tables, the pages of the heap, and the pages of each process; every
  address space belongs to a task or to a process that waits to be started.
\<close>

section \<open>Processes and their pages\<close>

definition alive :: "user_process \<Rightarrow> bool" where
  "alive p \<longleftrightarrow> p_state p = USER_PROCESS_CREATED \<or> p_state p = USER_PROCESS_RUNNING"

definition proc_pages :: "user_process \<Rightarrow> u32 set" where
  "proc_pages p = page_frames p (unat (p_page_count p))"

text \<open>
  The recorded pages of a process are data pages, and ring 3 reaches nothing else through its
  address space; before it is started it has none, and no page table either.
\<close>

definition proc_mem :: "'a user_state_scheme \<Rightarrow> u32 set \<Rightarrow> user_process \<Rightarrow> bool" where
  "proc_mem s A p \<longleftrightarrow> p_address_space p \<in> A \<and> pages_ok s A p \<and>
     (\<forall>w. pte s (p_address_space p) w AND 5 = 5 \<longrightarrow> tbl (pte s (p_address_space p) w) \<in> proc_pages p) \<and>
     (p_state p = USER_PROCESS_CREATED \<longrightarrow> p_page_count p = 0 \<and> (\<forall>i < KERNEL_PDE_INDEX. pd_entry s (p_address_space p) i = 0))"

definition procs_apart :: "u32 set \<Rightarrow> user_process list \<Rightarrow> bool" where
  "procs_apart H ps \<longleftrightarrow> (\<forall>i < 16. alive (ps ! i) \<longrightarrow> proc_pages (ps ! i) \<inter> H = {} \<and>
     (\<forall>j < 16. j \<noteq> i \<longrightarrow> alive (ps ! j) \<longrightarrow> p_address_space (ps ! i) \<noteq> p_address_space (ps ! j) \<and> proc_pages (ps ! i) \<inter> proc_pages (ps ! j) = {}))"

definition procs_mem :: "'a user_state_scheme \<Rightarrow> u32 set \<Rightarrow> u32 set \<Rightarrow> user_process list \<Rightarrow> bool" where
  "procs_mem s A H ps \<longleftrightarrow> (\<forall>i < 16. alive (ps ! i) \<longrightarrow> proc_mem s A (ps ! i)) \<and> procs_apart H ps"

definition all_pages :: "user_process list \<Rightarrow> u32 set" where
  "all_pages ps = (\<Union>i \<in> {i. i < 16 \<and> alive (ps ! i)}. proc_pages (ps ! i))"

text \<open>Every frame the kernel may hand out or has handed out.\<close>

definition pool :: "'a vmm_state_scheme \<Rightarrow> u32 set \<Rightarrow> u32 set \<Rightarrow> user_process list \<Rightarrow> u32 set" where
  "pool s A H ps = managed s A \<union> H \<union> all_pages ps"

lemma procs_memD:
  assumes "procs_mem s A H ps" "i < 16" "alive (ps ! i)"
  shows "proc_mem s A (ps ! i)" "proc_pages (ps ! i) \<inter> H = {}"
    and "j < 16 \<Longrightarrow> j \<noteq> i \<Longrightarrow> alive (ps ! j) \<Longrightarrow> p_address_space (ps ! i) \<noteq> p_address_space (ps ! j)"
    and "j < 16 \<Longrightarrow> j \<noteq> i \<Longrightarrow> alive (ps ! j) \<Longrightarrow> proc_pages (ps ! i) \<inter> proc_pages (ps ! j) = {}"
  using assms unfolding procs_mem_def procs_apart_def by blast+

lemma proc_memD:
  assumes "proc_mem s A p"
  shows "p_address_space p \<in> A" "pages_ok s A p" "q \<in> proc_pages p \<Longrightarrow> data_ok s A q" "proc_pages p \<inter> managed s A = {}"
    and "pte s (p_address_space p) w AND 5 = 5 \<Longrightarrow> tbl (pte s (p_address_space p) w) \<in> proc_pages p"
    and "p_state p = USER_PROCESS_CREATED \<Longrightarrow> p_page_count p = 0"
    and "p_state p = USER_PROCESS_CREATED \<Longrightarrow> i < KERNEL_PDE_INDEX \<Longrightarrow> pd_entry s (p_address_space p) i = 0"
proof -
  show ok: "p_address_space p \<in> A" "pages_ok s A p" using assms by (simp_all add: proc_mem_def)
  show d: "data_ok s A q" if "q \<in> proc_pages p" for q using that ok(2) by (auto simp: proc_pages_def page_frames_def pages_ok_def)
  show "proc_pages p \<inter> managed s A = {}" using d data_not_managed by blast
qed (use assms in \<open>auto simp: proc_mem_def\<close>)

lemma mem_step_dirs:
  assumes "mem_step A s B t K U E" "a \<in> A" "a \<in> B - E"
  shows "pte t a w = pte s a w" "i < KERNEL_PDE_INDEX \<Longrightarrow> pd_entry t a i = pd_entry s a i" "i < 1024 \<Longrightarrow> pd_entry t a i = pd_entry s a i"
proof -
  note M = assms(1) [unfolded mem_step_def]
  show "pte t a w = pte s a w" using M assms(2,3) by blast
  have d: "same_dirs (insert (kernel_page_directory s) (A \<inter> B)) E s t" using M by blast
  show pd: "pd_entry t a i = pd_entry s a i" if "i < 1024" for i using same_dirsD [OF d, of a i] assms(2,3) that by auto
  show "pd_entry t a i = pd_entry s a i" if "i < KERNEL_PDE_INDEX" by (rule pd) (use that kernel_index in \<open>auto intro: less_trans\<close>)
qed

text \<open>A step of the memory map keeps a process it does not touch.\<close>

lemma proc_mem_step:
  fixes s t :: "'a user_state_scheme"
  assumes m: "mem_step A s B t K U E" and p: "proc_mem s A p" and k: "p_address_space p \<in> B - E" "proc_pages p \<inter> K = {}"
  shows "proc_mem t B p"
proof -
  let ?a = "p_address_space p"
  note P = proc_memD [OF p] and M = m [unfolded mem_step_def]
  note X = mem_step_dirs [OF m P(1) k(1)]
  have "data_ok t B q" if "q \<in> proc_pages p" for q using M P(3) [OF that] that k(2) by blast
  then have "pages_ok t B p" using P(2) by (auto simp: pages_ok_def proc_pages_def page_frames_def)
  then show ?thesis unfolding proc_mem_def X(1) using P(5-7) X(2) k(1) by auto
qed

lemma all_pagesI: "i < 16 \<Longrightarrow> alive (ps ! i) \<Longrightarrow> q \<in> proc_pages (ps ! i) \<Longrightarrow> q \<in> all_pages ps"
  by (auto simp: all_pages_def)

lemma all_pages_data:
  assumes "procs_mem s A H ps" "q \<in> all_pages ps"
  shows "data_ok s A q" "q \<notin> managed s A" "q \<notin> H"
  using assms procs_memD(1,2) [OF assms(1)] proc_memD(3) data_not_managed by (auto simp: all_pages_def) blast+

text \<open>Processes that keep their pages, or are gone.\<close>

definition same_pages :: "user_process \<Rightarrow> user_process \<Rightarrow> bool" where
  "same_pages p q \<longleftrightarrow> p_state q = p_state p \<and> p_address_space q = p_address_space p \<and> p_pages q = p_pages p \<and> p_page_count q = p_page_count p"

lemma same_pages_parts:
  assumes "same_pages p q"
  shows "alive q = alive p" "proc_pages q = proc_pages p" "proc_mem s A q = proc_mem s A p"
  using assms by (simp_all add: same_pages_def alive_def proc_pages_def page_frames_def proc_mem_def pages_ok_def)

lemma same_pages_refl [simp]: "same_pages p p"
  by (simp add: same_pages_def)

lemma procs_mem_sub:
  fixes s t :: "'a user_state_scheme"
  assumes P: "procs_mem s A H ps" and m: "mem_step A s B t K U E" and H: "H' \<subseteq> H \<union> managed s A"
    and q: "\<And>i. i < 16 \<Longrightarrow> alive (qs ! i) \<Longrightarrow> same_pages (ps ! i) (qs ! i) \<and> p_address_space (ps ! i) \<in> B - E \<and> proc_pages (ps ! i) \<inter> K = {}"
  shows "procs_mem t B H' qs"
proof -
  have Q: "alive (ps ! i) \<and> proc_pages (qs ! i) = proc_pages (ps ! i) \<and> p_address_space (qs ! i) = p_address_space (ps ! i)"
    if "i < 16" "alive (qs ! i)" for i
    using q [OF that] same_pages_parts(1,2) [of "ps ! i" "qs ! i"] that by (auto simp: same_pages_def)
  have "proc_mem t B (qs ! i)" if i: "i < 16" "alive (qs ! i)" for i
    using q [OF i] Q [OF i] proc_mem_step [OF m procs_memD(1) [OF P i(1)]] by (simp add: same_pages_parts(3) [of "ps ! i" "qs ! i"])
  moreover have "proc_pages (qs ! i) \<inter> H' = {}" if i: "i < 16" "alive (qs ! i)" for i
  proof -
    have "alive (ps ! i)" "proc_pages (qs ! i) = proc_pages (ps ! i)" using Q [OF i] by simp_all
    then show ?thesis using procs_memD(2) [OF P i(1)] proc_memD(4) [OF procs_memD(1) [OF P i(1)]] H by blast
  qed
  moreover have "p_address_space (qs ! i) \<noteq> p_address_space (qs ! j) \<and> proc_pages (qs ! i) \<inter> proc_pages (qs ! j) = {}"
    if i: "i < 16" "alive (qs ! i)" and j: "j < 16" "j \<noteq> i" "alive (qs ! j)" for i j
    using Q [OF i] Q [OF j(1,3)] procs_memD(3,4) [OF P i(1), of j] j by auto
  ultimately show ?thesis unfolding procs_mem_def procs_apart_def by blast
qed

lemma procs_mem_add:
  assumes P: "procs_mem s A H (ps[j := zero_process])" and l: "length ps = 16" "j < 16" and p: "proc_mem s A p" "proc_pages p \<inter> H = {}"
    and d: "\<And>i. i < 16 \<Longrightarrow> i \<noteq> j \<Longrightarrow> alive (ps ! i) \<Longrightarrow> p_address_space (ps ! i) \<noteq> p_address_space p \<and> proc_pages (ps ! i) \<inter> proc_pages p = {}"
  shows "procs_mem s A H (ps[j := p])"
proof -
  have at: "ps[j := x] ! i = (if i = j then x else ps ! i)" if "i < 16" for i x using that l by (simp add: nth_list_update)
  have z: "\<not> alive zero_process" by (simp add: alive_def zero_process_def)
  note D = procs_memD [OF P]
  have "proc_mem s A (ps[j := p] ! i) \<and> proc_pages (ps[j := p] ! i) \<inter> H = {}" if "i < 16" "alive (ps[j := p] ! i)" for i
    using D(1,2) [OF that(1)] that at p by (cases "i = j") auto
  moreover have "p_address_space (ps[j := p] ! i) \<noteq> p_address_space (ps[j := p] ! k) \<and> proc_pages (ps[j := p] ! i) \<inter> proc_pages (ps[j := p] ! k) = {}"
    if "i < 16" "alive (ps[j := p] ! i)" "k < 16" "k \<noteq> i" "alive (ps[j := p] ! k)" for i k
    using D(3,4) [OF that(1), of k] d [of i] d [of k] that at by (cases "i = j"; cases "k = j") auto
  ultimately show ?thesis unfolding procs_mem_def procs_apart_def by blast
qed

lemma all_pages_update:
  assumes "length ps = 16" "j < 16"
  shows "all_pages (ps[j := p]) = (if alive p then proc_pages p else {}) \<union> all_pages (ps[j := zero_process])"
proof -
  have z: "\<not> alive zero_process" by (simp add: alive_def zero_process_def)
  have "q \<in> all_pages (ps[j := p]) \<longleftrightarrow> (alive p \<and> q \<in> proc_pages p) \<or> q \<in> all_pages (ps[j := zero_process])" for q
    using assms z unfolding all_pages_def by (auto simp: nth_list_update split: if_splits)
  then show ?thesis by auto
qed

lemma all_pages_same:
  assumes "\<And>i. i < 16 \<Longrightarrow> alive (qs ! i) = alive (ps ! i) \<and> (alive (ps ! i) \<longrightarrow> proc_pages (qs ! i) = proc_pages (ps ! i))"
  shows "all_pages qs = all_pages ps"
  unfolding all_pages_def by (rule SUP_cong) (use assms in auto)

section \<open>Processes and tasks\<close>

text \<open>
  A task in the address space of a process is the task of that process, which is running; the task
  of a process is in its address space, or in that of the kernel before the start.
\<close>

definition spaces_link :: "u32 \<Rightarrow> task list \<Rightarrow> user_process list \<Rightarrow> bool" where
  "spaces_link k ts ps \<longleftrightarrow> (\<forall>i < 16. \<forall>j < 16. alive (ps ! i) \<longrightarrow>
     (t_address_space (ts ! j) = p_address_space (ps ! i) \<longrightarrow> ready ts j \<and> t_id (ts ! j) = p_task_id (ps ! i) \<and> p_state (ps ! i) = USER_PROCESS_RUNNING) \<and>
     (ready ts j \<and> t_id (ts ! j) = p_task_id (ps ! i) \<longrightarrow>
        t_address_space (ts ! j) = (if p_state (ps ! i) = USER_PROCESS_RUNNING then p_address_space (ps ! i) else k)))"

lemma spaces_linkD:
  assumes "spaces_link k ts ps" "i < 16" "j < 16" "alive (ps ! i)"
  shows "t_address_space (ts ! j) = p_address_space (ps ! i) \<Longrightarrow> ready ts j \<and> t_id (ts ! j) = p_task_id (ps ! i) \<and> p_state (ps ! i) = USER_PROCESS_RUNNING"
    and "ready ts j \<Longrightarrow> t_id (ts ! j) = p_task_id (ps ! i) \<Longrightarrow>
      t_address_space (ts ! j) = (if p_state (ps ! i) = USER_PROCESS_RUNNING then p_address_space (ps ! i) else k)"
  using assms unfolding spaces_link_def by blast+

definition spaces_held :: "u32 set \<Rightarrow> task list \<Rightarrow> user_process list \<Rightarrow> bool" where
  "spaces_held A ts ps \<longleftrightarrow> (\<forall>a \<in> A. (\<exists>j < 16. t_address_space (ts ! j) = a) \<or> (\<exists>i < 16. alive (ps ! i) \<and> p_address_space (ps ! i) = a))"

text \<open>
  What the scheduler does to the table: tasks stay, dead ones outside \<open>B\<close> are cleared, and the new
  one is a kernel thread.
\<close>

definition tasks_follow :: "u32 set \<Rightarrow> u32 \<Rightarrow> u32 set \<Rightarrow> task list \<Rightarrow> task list \<Rightarrow> bool" where
  "tasks_follow N k B ts us \<longleftrightarrow> (\<forall>i < 16.
     ready us i = ready ts i \<and> t_address_space (us ! i) = t_address_space (ts ! i) \<and> t_id (us ! i) = t_id (ts ! i) \<or>
     \<not> ready ts i \<and> t_address_space (ts ! i) \<notin> B \<and>
       (\<not> ready us i \<and> t_address_space (us ! i) = 0 \<or> ready us i \<and> t_id (us ! i) \<in> N \<and> t_address_space (us ! i) = k))"

lemma tasks_followD:
  assumes "tasks_follow N k B ts us" "i < 16"
  obtains "ready us i = ready ts i" "t_address_space (us ! i) = t_address_space (ts ! i)" "t_id (us ! i) = t_id (ts ! i)"
  | "\<not> ready ts i" "t_address_space (ts ! i) \<notin> B" "\<not> ready us i" "t_address_space (us ! i) = 0"
  | "\<not> ready ts i" "t_address_space (ts ! i) \<notin> B" "ready us i" "t_id (us ! i) \<in> N" "t_address_space (us ! i) = k"
  using assms unfolding tasks_follow_def by blast

lemma tasks_follow_refl [simp]: "tasks_follow N k B ts ts"
  by (simp add: tasks_follow_def)

definition same_process :: "user_process \<Rightarrow> user_process \<Rightarrow> bool" where
  "same_process p q \<longleftrightarrow> same_pages p q \<and> p_task_id q = p_task_id p \<and> p_pid q = p_pid p"

lemma same_process_refl [simp]: "same_process p p"
  by (simp add: same_process_def)

lemma link_follow:
  assumes L: "spaces_link k ts ps" and F: "tasks_follow N k B ts us" and kA: "0 \<notin> A" "k \<notin> A"
    and q: "\<And>i. i < 16 \<Longrightarrow> alive (qs ! i) \<Longrightarrow> same_process (ps ! i) (qs ! i) \<and> p_task_id (ps ! i) \<notin> N \<and> p_address_space (ps ! i) \<in> A"
  shows "spaces_link k us qs"
  unfolding spaces_link_def
proof (intro allI impI conjI)
  fix i j :: nat assume i: "i < 16" and j: "j < 16" and a: "alive (qs ! i)"
  have p: "alive (ps ! i)" "p_state (qs ! i) = p_state (ps ! i)" "p_address_space (qs ! i) = p_address_space (ps ! i)" "p_task_id (qs ! i) = p_task_id (ps ! i)"
      "p_task_id (ps ! i) \<notin> N" "p_address_space (ps ! i) \<noteq> 0" "p_address_space (ps ! i) \<noteq> k"
    using q [OF i a] a kA by (auto simp: same_process_def same_pages_def alive_def)
  note D = spaces_linkD [OF L i j p(1)]
  show "ready us j" "t_id (us ! j) = p_task_id (qs ! i)" "p_state (qs ! i) = USER_PROCESS_RUNNING" if "t_address_space (us ! j) = p_address_space (qs ! i)"
    using F j by (cases rule: tasks_followD; use D(1) that p in simp)+
  show "t_address_space (us ! j) = (if p_state (qs ! i) = USER_PROCESS_RUNNING then p_address_space (qs ! i) else k)"
    if "ready us j \<and> t_id (us ! j) = p_task_id (qs ! i)"
    using F j by (cases rule: tasks_followD) (use D(2) that p in \<open>simp_all\<close>)
qed

lemma held_follow:
  assumes "spaces_held A ts ps" "tasks_follow N k B ts us" "B \<subseteq> A"
    and "\<And>i. i < 16 \<Longrightarrow> alive (ps ! i) \<Longrightarrow> p_address_space (ps ! i) \<in> B \<Longrightarrow>
      alive (qs ! i) \<and> p_address_space (qs ! i) = p_address_space (ps ! i) \<or> (\<exists>j < 16. t_address_space (ts ! j) = p_address_space (ps ! i))"
  shows "spaces_held B us qs"
  unfolding spaces_held_def
proof
  fix a assume a: "a \<in> B"
  have task: "\<exists>j < 16. t_address_space (us ! j) = a" if "j < 16" "t_address_space (ts ! j) = a" for j
    using assms(2) that(1) by (cases rule: tasks_followD) (use that a in auto)
  from assms(1,3) a consider j where "j < 16" "t_address_space (ts ! j) = a" | i where "i < 16" "alive (ps ! i)" "p_address_space (ps ! i) = a"
    unfolding spaces_held_def by blast
  then show "(\<exists>j < 16. t_address_space (us ! j) = a) \<or> (\<exists>i < 16. alive (qs ! i) \<and> p_address_space (qs ! i) = a)"
  proof cases
    case 1
    then show ?thesis using task by blast
  next
    case 2
    then show ?thesis using assms(4) [OF 2(1,2)] a task by auto
  qed
qed

section \<open>The division of memory\<close>

text \<open>Nothing of the kernel's own mappings is open to ring 3.\<close>

definition kernel_private :: "'a vmm_state_scheme \<Rightarrow> bool" where
  "kernel_private s \<longleftrightarrow> (\<forall>w. pte s (kernel_page_directory s) w AND 5 \<noteq> 5)"

text \<open>The bytes \<open>Y\<close>, such as those of the boot stack, lie outside the frames \<open>T\<close> that the kernel hands out.\<close>

definition fixed_area :: "ptr set \<Rightarrow> u32 set \<Rightarrow> 'a pmm_state_scheme \<Rightarrow> bool" where
  "fixed_area Y T s \<longleftrightarrow> (\<forall>x \<in> Y. \<not> in_bitmap s x \<and> x \<notin> page_area T)"

definition memory_map :: "ptr set \<Rightarrow> u32 set \<Rightarrow> 'a user_state_scheme \<Rightarrow> u32 set \<Rightarrow> u32 set \<Rightarrow> (ptr \<times> u32) set \<Rightarrow> bool" where
  "memory_map Z T s A H L \<longleftrightarrow> sched_mem s A H L \<and> procs_mem s A H (processes s) \<and>
     spaces_link (kernel_page_directory s) (tasks s) (processes s) \<and> spaces_held A (tasks s) (processes s) \<and>
     pool s A H (processes s) = T \<and> kernel_private s \<and> fixed_area Z T s \<and> cr3 s = t_address_space (tasks s ! unat (current_task s))"

lemma memory_mapD:
  assumes "memory_map Z T s A H L"
  shows "sched_mem s A H L" "procs_mem s A H (processes s)" "spaces_link (kernel_page_directory s) (tasks s) (processes s)"
    and "spaces_held A (tasks s) (processes s)" "pool s A H (processes s) = T" "kernel_private s" "fixed_area Z T s"
    and "cr3 s = t_address_space (tasks s ! unat (current_task s))" "spaces_ok s A" "kernel_shared s A" "heap_map s A H L"
  using assms by (simp_all add: memory_map_def sched_mem_def)

text \<open>Free frames and tables, pages of the heap and pages of processes do not overlap.\<close>

lemma pool_parts:
  assumes "memory_map Z T s A H L"
  shows "managed s A \<inter> H = {}" "managed s A \<inter> all_pages (processes s) = {}" "H \<inter> all_pages (processes s) = {}"
proof -
  note M = memory_mapD [OF assms]
  show "managed s A \<inter> H = {}" using M(11) data_not_managed by (auto simp: heap_map_def)
  show "managed s A \<inter> all_pages (processes s) = {}" "H \<inter> all_pages (processes s) = {}" using all_pages_data [OF M(2)] by blast+
qed

lemma fixed_stable:
  assumes "memory_map Z T s A H L" "fixed_area Y T s" "x \<in> Y"
  shows "stable s A x" "x \<notin> page_area H" "q \<in> all_pages (processes s) \<Longrightarrow> frame x \<noteq> frame (vmm_phys_to_virt q)"
proof -
  note M = memory_mapD [OF assms(1)]
  have x: "\<not> in_bitmap s x" "x \<notin> page_area (managed s A \<union> H \<union> all_pages (processes s))"
    using M(5) assms(2,3) unfolding fixed_area_def pool_def by blast+
  then show "stable s A x" "x \<notin> page_area H" "q \<in> all_pages (processes s) \<Longrightarrow> frame x \<noteq> frame (vmm_phys_to_virt q)"
    by (auto simp: stable_def page_area_def)
qed

lemma boot_stack_fixed:
  assumes "memory_map Z T s A H L"
  shows "boot_stack Z s A H"
  using fixed_stable(1,2) [OF assms memory_mapD(7) [OF assms]] unfolding boot_stack_def by blast

lemma fixed_area_step: "fixed_area Y T s \<Longrightarrow> in_bitmap t = in_bitmap s \<Longrightarrow> fixed_area Y T t"
  by (simp add: fixed_area_def)

lemma kernel_private_step:
  assumes "kernel_private s" "mem_step A s B t K U E" "kernel_page_directory s \<notin> E"
  shows "kernel_private t"
  using assms unfolding kernel_private_def mem_step_def by simp

text \<open>Steps that leave the processes that stay alone.\<close>

lemma memory_map_step:
  fixes s t :: "'a user_state_scheme"
  assumes M: "memory_map Z T s A H L" and m: "mem_step A s B t K U E" and S: "sched_mem t B H' L'" and B: "B \<subseteq> A" "E \<subseteq> A"
    and H: "H' \<subseteq> H \<union> managed s A" and pl: "pool t B H' (processes t) = T"
    and c: "cr3 t = t_address_space (tasks t ! unat (current_task t))" and F: "tasks_follow N (kernel_page_directory s) B (tasks s) (tasks t)"
    and q: "\<And>i. i < 16 \<Longrightarrow> alive (processes t ! i) \<Longrightarrow> same_process (processes s ! i) (processes t ! i) \<and>
      p_task_id (processes s ! i) \<notin> N \<and> p_address_space (processes s ! i) \<in> B - E \<and> proc_pages (processes s ! i) \<inter> K = {}"
    and h: "\<And>i. i < 16 \<Longrightarrow> alive (processes s ! i) \<Longrightarrow> p_address_space (processes s ! i) \<in> B \<Longrightarrow>
      alive (processes t ! i) \<or> (\<exists>j < 16. t_address_space (tasks s ! j) = p_address_space (processes s ! i))"
  shows "memory_map Z T t B H' L'"
proof -
  note D = memory_mapD [OF M] and O = zero_space [OF memory_mapD(9) [OF M]]
  have k: "kernel_page_directory t = kernel_page_directory s" "in_bitmap t = in_bitmap s" using m by (simp_all add: mem_step_def)
  have "procs_mem t B H' (processes t)" by (rule procs_mem_sub [OF D(2) m H]) (use q in \<open>auto simp: same_process_def\<close>)
  moreover have "spaces_link (kernel_page_directory s) (tasks t) (processes t)"
    by (rule link_follow [OF D(3) F O(1,3)]) (use q B(1) in auto)
  moreover have "spaces_held B (tasks t) (processes t)"
    by (rule held_follow [OF D(4) F B(1)]) (use q h in \<open>auto simp: same_process_def same_pages_def\<close>)
  moreover have "kernel_private t" by (rule kernel_private_step [OF D(6) m]) (use B(2) O(3) in blast)
  moreover have "fixed_area Z T t" by (rule fixed_area_step [OF D(7) k(2)])
  ultimately show ?thesis unfolding memory_map_def k using S pl c by (intro conjI)
qed

end
