(* ===== verification/ProcessSteps.thy ===== *)
theory ProcessSteps
  imports ProcessMap
begin

text \<open>
  The operations of the kernel keep the division of memory, and each of them comes to an end.
\<close>

section \<open>The scheduler\<close>

lemma reaped_follow:
  assumes "sched_wf (tasks s) (current_task s) run" "0 \<notin> A" "i < 16"
  shows "reaped s i = tasks s ! i \<or> \<not> ready (tasks s) i \<and> t_address_space (tasks s ! i) \<notin> A - dead_spaces s \<and> reaped s i = blank_task"
  using assms(3) unfolding reaped_def dead_spaces_def by auto

lemma follow_reaped:
  assumes "sched_wf (tasks s) (current_task s) run" "0 \<notin> A"
    and "\<And>i. i < 16 \<Longrightarrow> (ready us i \<longleftrightarrow> ready (map (reaped s) [0..<16]) i) \<and> t_address_space (us ! i) = t_address_space (reaped s i) \<and> t_id (us ! i) = t_id (reaped s i)"
  shows "tasks_follow N k (A - dead_spaces s) (tasks s) us"
  unfolding tasks_follow_def
proof (intro allI impI)
  fix i :: nat assume i: "i < 16"
  show "ready us i = ready (tasks s) i \<and> t_address_space (us ! i) = t_address_space (tasks s ! i) \<and> t_id (us ! i) = t_id (tasks s ! i) \<or>
     \<not> ready (tasks s) i \<and> t_address_space (tasks s ! i) \<notin> A - dead_spaces s \<and>
       (\<not> ready us i \<and> t_address_space (us ! i) = 0 \<or> ready us i \<and> t_id (us ! i) \<in> N \<and> t_address_space (us ! i) = k)"
    using reaped_follow [OF assms(1,2) i] assms(3) [OF i] i by (auto simp: blank_task_def)
qed

lemma yield_follow:
  assumes w: "sched_wf (tasks s) (current_task s) run" and A: "0 \<notin> A" and y: "sched_yield s = Some (sw, t)"
  shows "tasks_follow N k (A - dead_spaces s) (tasks s) (tasks t)"
proof (rule follow_reaped [OF w A])
  fix i :: nat assume i: "i < 16"
  let ?ts = "map (reaped s) [0..<16]" and ?c = "unat (current_task s)"
  note W = sched_wfD [OF reaped_wf [OF w]] and V = sched_yield_vars [OF y sched_wfD(1) [OF w]]
  show "(ready (tasks t) i \<longleftrightarrow> ready ?ts i) \<and> t_address_space (tasks t ! i) = t_address_space (reaped s i) \<and> t_id (tasks t ! i) = t_id (reaped s i)"
  proof (cases "next_index ?ts (current_task s)")
    case None
    then show ?thesis using V i by (auto simp: sched_vars_def)
  next
    case (Some idx)
    then obtain sp where sp: "tasks t = handover ?ts ?c (unat idx) sp" using V by (auto simp: sched_vars_def)
    note N = next_index_SomeD(1,2) [OF Some W(2)] and H = handover_nth [OF W(1,2) next_index_SomeD(1) [OF Some W(2)] i, of sp]
    have "ready (tasks t) i \<longleftrightarrow> ready ?ts i" unfolding sp H(1) using N(2) by auto
    then show ?thesis using H(4,5) sp i by simp
  qed
qed

lemma create_follow:
  assumes w: "sched_wf (tasks s) (current_task s) run" and A: "0 \<notin> A" and c: "kthread_create lk (Some f) s = Some (r, t)"
  shows "tasks_follow {next_task_id s} (kernel_page_directory t) (A - dead_spaces s) (tasks s) (tasks t)"
  using create_vars [OF c sched_wfD(1) [OF w]]
proof (elim disjE exE conjE)
  assume "Some f \<noteq> None \<longrightarrow> sched_vars t = (map (reaped s) [0..<16], current_task s, next_task_id s)"
  then show ?thesis by (intro follow_reaped [OF w A]) (auto simp: sched_vars_def)
next
  fix i x
  assume a: "i < 16" "t_state (reaped s i) = TASK_UNUSED" "t_id x = next_task_id s" "t_state x = TASK_RUNNABLE" "t_address_space x = kernel_page_directory t"
    "sched_vars t = ((map (reaped s) [0..<16])[i := x], current_task s, next_task_id s + 1)"
  then have at: "tasks t ! j = (if j = i then x else reaped s j)" if "j < 16" for j using that by (auto simp: sched_vars_def)
  have F: "tasks_follow {next_task_id s} (kernel_page_directory t) (A - dead_spaces s) (tasks s) (map (reaped s) [0..<16])"
    by (rule follow_reaped [OF w A]) auto
  have "\<not> ready (tasks s) i \<and> t_address_space (tasks s ! i) \<notin> A - dead_spaces s"
    using reaped_follow [OF w A a(1)] a(2) sched_wfD(6) [OF w a(1)] A by (auto simp: blank_task_def)
  then show ?thesis using F a(3-5) at unfolding tasks_follow_def by auto
qed

lemma alive_not_dead:
  assumes "memory_map Z T s A H L" "i < 16" "alive (processes s ! i)"
  shows "p_address_space (processes s ! i) \<in> A - dead_spaces s"
proof -
  note D = memory_mapD [OF assms(1)]
  have "p_address_space (processes s ! i) \<in> A" using proc_memD(1) [OF procs_memD(1) [OF D(2) assms(2,3)]] .
  moreover have "p_address_space (processes s ! i) \<notin> dead_spaces s"
    using spaces_linkD(1) [OF D(3) assms(2) _ assms(3)] unfolding dead_spaces_def by fastforce
  ultimately show ?thesis by simp
qed

lemma yield_map:
  fixes s :: "'a user_state_scheme"
  assumes M: "memory_map Z T s A H L" and w: "sched_wf (tasks s) (current_task s) run"
    and us: "t_state (tasks s ! unat (current_task s)) \<noteq> TASK_UNUSED" and st: "on_stack Z s"
  shows "\<exists>sw t L'. sched_yield s = Some (sw, t) \<and> switch_step A H Z s L' t \<and> memory_map Z T t (A - dead_spaces s) H L'"
proof -
  note D = memory_mapD [OF M]
  obtain sw t L' where t: "sched_yield s = Some (sw, t)" "switch_step A H Z s L' t"
    using yield_step [OF D(1) w us boot_stack_fixed [OF M] st D(8)] by blast
  note S = t(2) [unfolded switch_step_def]
  have pt: "processes t = processes s" using sched_more_user [OF yield_more [OF t(1)]] by (simp add: user_vars_def)
  have "memory_map Z T t (A - dead_spaces s) H L'"
  proof (rule memory_map_step [OF M, where N = "{}"])
    show "mem_step A s (A - dead_spaces s) t {} (page_area H \<union> Z) {}" "sched_mem t (A - dead_spaces s) H L'"
      "cr3 t = t_address_space (tasks t ! unat (current_task t))" using S by blast+
    show "pool t (A - dead_spaces s) H (processes t) = T" using S D(5) pt by (simp add: pool_def)
    show "tasks_follow {} (kernel_page_directory s) (A - dead_spaces s) (tasks s) (tasks t)" by (rule yield_follow [OF w zero_space(1) [OF D(9)] t(1)])
    fix i :: nat assume i: "i < 16"
    show "same_process (processes s ! i) (processes t ! i) \<and> p_task_id (processes s ! i) \<notin> {} \<and> p_address_space (processes s ! i) \<in> A - dead_spaces s - {} \<and>
      proc_pages (processes s ! i) \<inter> {} = {}" if "alive (processes t ! i)"
      using alive_not_dead [OF M i] that pt by auto
    show "alive (processes t ! i) \<or> (\<exists>j < 16. t_address_space (tasks s ! j) = p_address_space (processes s ! i))" if "alive (processes s ! i)"
      using that pt by simp
  qed auto
  then show ?thesis using t by blast
qed

lemma create_map:
  fixes s :: "'a user_state_scheme"
  assumes M: "memory_map Z T s A H L" and I: "kernel_inv s"
  shows "\<exists>r t H' L'. kthread_create lk (Some f) s = Some (r, t) \<and> heap_step A H s (A - dead_spaces s) H' L' t \<and> memory_map Z T t (A - dead_spaces s) H' L'"
proof -
  note D = memory_mapD [OF M] and w = kernel_invD(2) [OF I]
  obtain r t H' L' where t: "kthread_create lk (Some f) s = Some (r, t)" "heap_step A H s (A - dead_spaces s) H' L' t"
    using kthread_create_step [OF D(1) w] by blast
  note S = heap_stepD [OF t(2)]
  have k: "kernel_page_directory t = kernel_page_directory s" using S(2) by (simp add: mem_step_def)
  have pt: "processes t = processes s" using sched_more_user [OF create_more [OF t(1)]] by (simp add: user_vars_def)
  have ct: "current_task t = current_task s" "t_address_space (tasks t ! unat (current_task s)) = t_address_space (tasks s ! unat (current_task s))"
  proof -
    show c: "current_task t = current_task s" using create_vars [OF t(1) sched_wfD(1) [OF w]] by (auto simp: sched_vars_def)
    have rd: "ready (tasks s) (unat (current_task s))" using current_ready [OF kernel_invD(1) [OF I]] by simp
    show "t_address_space (tasks t ! unat (current_task s)) = t_address_space (tasks s ! unat (current_task s))"
      using create_follow [OF w zero_space(1) [OF D(9)] t(1)] sched_wfD(2) [OF w] by (cases rule: tasks_followD) (use rd in auto)
  qed
  have "memory_map Z T t (A - dead_spaces s) H' L'"
  proof (rule memory_map_step [OF M S(2,1,3), where N = "{next_task_id s}"])
    show "H' \<subseteq> H \<union> managed s A" using S(5) by blast
    have "managed s A - (H' - H) \<union> H' = managed s A \<union> H" using S(4,5) by blast
    then show "pool t (A - dead_spaces s) H' (processes t) = T" using D(5) S(6) pt by (simp add: pool_def)
    show "cr3 t = t_address_space (tasks t ! unat (current_task t))" using S(8) D(8) ct by simp
    show "tasks_follow {next_task_id s} (kernel_page_directory s) (A - dead_spaces s) (tasks s) (tasks t)"
      using create_follow [OF w zero_space(1) [OF D(9)] t(1)] k by simp
    fix i :: nat assume i: "i < 16"
    show "same_process (processes s ! i) (processes t ! i) \<and> p_task_id (processes s ! i) \<notin> {next_task_id s} \<and>
      p_address_space (processes s ! i) \<in> A - dead_spaces s - {} \<and> proc_pages (processes s ! i) \<inter> {} = {}" if "alive (processes t ! i)"
      using alive_not_dead [OF M i] linkedD(2) [OF kernel_invD(5) [OF I] i] that pt by (auto simp: alive_def)
    show "alive (processes t ! i) \<or> (\<exists>j < 16. t_address_space (tasks s ! j) = p_address_space (processes s ! i))" if "alive (processes s ! i)"
      using that pt by simp
  qed auto
  then show ?thesis using t by blast
qed

text \<open>A task that no process needs may end; the boot task is always there to go on.\<close>

lemma zombie_map:
  fixes s :: "'a user_state_scheme"
  assumes M: "memory_map Z T s A H L" and l: "length (tasks s) = 16" "unat (current_task s) < 16"
    and none: "\<And>i. i < 16 \<Longrightarrow> alive (processes s ! i) \<Longrightarrow> p_task_id (processes s ! i) \<noteq> t_id (tasks s ! unat (current_task s))"
  shows "memory_map Z T (set_task (current_task s) (\<lambda>t. t\<lparr>t_state := TASK_ZOMBIE\<rparr>) s) A H L"
proof -
  let ?c = "unat (current_task s)"
  define z where "z = set_task (current_task s) (\<lambda>t. t\<lparr>t_state := TASK_ZOMBIE\<rparr>) s"
  note D = memory_mapD [OF M]
  note V = set_task_same [where s = s and i = "current_task s" and f = "\<lambda>t. t\<lparr>t_state := TASK_ZOMBIE\<rparr>", folded z_def]
  have at: "tasks z ! j = (if j = ?c then (tasks s ! ?c)\<lparr>t_state := TASK_ZOMBIE\<rparr> else tasks s ! j)" "length (tasks z) = 16" for j
    using l by (auto simp: z_def set_task_def nth_list_update)
  have k: "kernel_page_directory z = kernel_page_directory s" "processes z = processes s" "current_task z = current_task s"
    by (simp_all add: z_def set_task_def)
  have m: "mem_step A s A z {} {} {}" by (rule vm_same_step [OF D(9) V(1)])
  have "task_mem (tasks s) (kernel_page_directory s) A L" using D(1) by (simp add: sched_mem_def)
  then have "task_mem (tasks z) (kernel_page_directory s) A L" by (rule task_mem_cong) (simp_all add: at)
  then have "sched_mem z A H L"
    unfolding sched_mem_def k using heap_still(1) [OF m D(11) V(2)] kernel_shared_step [OF m D(10)] m by (simp add: mem_step_def)
  moreover have "procs_mem z A H (processes z)"
    by (rule procs_mem_sub [OF D(2) m]) (use k(2) proc_memD(1) [OF procs_memD(1) [OF D(2)]] in auto)
  moreover have "spaces_link (kernel_page_directory s) (tasks z) (processes z)"
    unfolding spaces_link_def k(2)
  proof (intro allI impI conjI)
    fix i j :: nat assume i: "i < 16" and j: "j < 16" and a: "alive (processes s ! i)"
    note L = spaces_linkD [OF D(3) i j a]
    have n: "t_id (tasks s ! j) = p_task_id (processes s ! i) \<Longrightarrow> j \<noteq> ?c" using none [OF i a] by auto
    show "ready (tasks z) j" "t_id (tasks z ! j) = p_task_id (processes s ! i)" "p_state (processes s ! i) = USER_PROCESS_RUNNING"
      if "t_address_space (tasks z ! j) = p_address_space (processes s ! i)"
      using L(1) n that at(1) [of j] by (auto split: if_splits)
    show "t_address_space (tasks z ! j) = (if p_state (processes s ! i) = USER_PROCESS_RUNNING then p_address_space (processes s ! i) else kernel_page_directory s)"
      if "ready (tasks z) j \<and> t_id (tasks z ! j) = p_task_id (processes s ! i)"
      using L(2) that at(1) [of j] by (auto split: if_splits)
  qed
  moreover have "t_address_space (tasks z ! j) = t_address_space (tasks s ! j)" for j using at(1) [of j] by simp
  then have "spaces_held A (tasks z) (processes z)" using D(4) unfolding spaces_held_def k(2) by simp
  moreover have "pool z A H (processes z) = T" using D(5) vm_same_parts(2) [OF V(1)] k(2) by (simp add: pool_def)
  moreover have "kernel_private z" by (rule kernel_private_step [OF D(6) m]) simp
  moreover have "fixed_area Z T z" by (rule fixed_area_step [OF D(7) vm_same_parts(11) [OF V(1)]])
  moreover have "cr3 z = t_address_space (tasks z ! unat (current_task z))" using D(8) V(3) at(1) k(3) by simp
  ultimately show ?thesis unfolding memory_map_def z_def [symmetric] k(1) by (intro conjI)
qed

text \<open>A task that is about to end.\<close>

definition leaves :: "ptr set \<Rightarrow> 'a user_state_scheme \<Rightarrow> bool" where
  "leaves Z s \<longleftrightarrow> sched_inv s \<and> on_stack Z s \<and>
     (\<forall>i < 16. alive (processes s ! i) \<longrightarrow> p_task_id (processes s ! i) \<noteq> t_id (tasks s ! unat (current_task s)))"

lemma leavesI:
  assumes "kernel_inv s" "on_stack Z s" "sched_vars t = sched_vars s" "reg_esp t = reg_esp s"
    and "\<And>i. i < 16 \<Longrightarrow> alive (processes t ! i) \<Longrightarrow> p_task_id (processes t ! i) \<noteq> sched_current_task_id s"
  shows "leaves Z t"
proof -
  note V = sched_varsD [OF assms(3)]
  have "sched_inv t" using kernel_invD(1) [OF assms(1)] V by (simp add: sched_inv_def)
  moreover have "stack_area Z t = stack_area Z s" by (simp add: stack_area_def V)
  then have "on_stack Z t" using assms(2,4) by (simp add: on_stack_def)
  ultimately show ?thesis using assms(5) V by (simp add: leaves_def sched_current_task_id_def task_at_def)
qed

lemma thread_exit_map:
  fixes s :: "'a user_state_scheme"
  assumes M: "memory_map Z T s A H L" and l: "leaves Z s" and c: "current_task s \<noteq> 0"
  obtains z t L' where "kthread_exit s = Some (Goes t)" "vm_same s z" "processes z = processes s" "memory_map Z T z A H L"
    "switch_step A H Z z L' t" "memory_map Z T t (A - dead_spaces z) H L'" "processes t = processes s"
    "z = set_task (current_task s) (\<lambda>t. t\<lparr>t_state := TASK_ZOMBIE\<rparr>) s"
proof -
  define z where "z = set_task (current_task s) (\<lambda>t. t\<lparr>t_state := TASK_ZOMBIE\<rparr>) s"
  have ok: "sched_ok s" and st: "on_stack Z s" using l by (simp_all add: leaves_def sched_inv_def)
  note W = sched_wfD [OF ok] and Y = zombie_wf [OF ok c z_def]
  have k: "processes z = processes s" "current_task z = current_task s" "reg_esp z = reg_esp s" by (simp_all add: z_def set_task_def)
  have Mz: "memory_map Z T z A H L" unfolding z_def by (rule zombie_map [OF M W(1,2)]) (use l in \<open>simp add: leaves_def\<close>)
  have at: "tasks z ! j = (if j = unat (current_task s) then (tasks s ! j)\<lparr>t_state := TASK_ZOMBIE\<rparr> else tasks s ! j)" for j
    using W(1,2) by (auto simp: z_def set_task_def nth_list_update)
  have "stack_area Z z = stack_area Z s" by (simp add: stack_area_def k at)
  then have "on_stack Z z" using st by (simp add: on_stack_def k)
  moreover have "t_state (tasks z ! unat (current_task z)) \<noteq> TASK_UNUSED" using Y(2) by simp
  ultimately obtain sw t L' where t: "sched_yield z = Some (sw, t)" "memory_map Z T t (A - dead_spaces z) H L'" "switch_step A H Z z L' t"
    using yield_map [OF Mz Y(1)] by blast
  have "t_state (tasks z ! 0) = TASK_RUNNABLE"
    using sched_wfD(3) [OF Y(1), of 0] sched_wfD(4,5) [OF Y(1)] by (cases "t_state (tasks z ! 0)") auto
  then have sw using yield_choice(1) [OF Y(1) t(1)] by (metis zero_less_numeral)
  then have "kthread_exit s = Some (Goes t)" using t(1) c by (simp add: kthread_exit_def z_def [symmetric])
  moreover have "processes t = processes s" using sched_more_user [OF yield_more [OF t(1)]] k(1) by (simp add: user_vars_def)
  moreover have "vm_same s z" unfolding z_def by (rule set_task_same)
  ultimately show ?thesis using that k(1) Mz t(2,3) z_def by blast
qed

section \<open>Exit\<close>

text \<open>Steps that change nothing of this, such as messages.\<close>

lemma quiet_map:
  fixes s t :: "'a user_state_scheme"
  assumes M: "memory_map Z T s A H L" and v: "vm_same s t" and k: "kvars t = kvars s" and m: "mvars t = mvars s"
  shows "memory_map Z T t A H L"
proof (rule memory_map_step [OF M vm_same_step [OF memory_mapD(9) [OF M] v], where N = "{}" and H' = H])
  note D = memory_mapD [OF M] and K = kvarsD [OF k]
  have S: "mem_step A s A t {} {} {}" by (rule vm_same_step [OF D(9) v])
  have kd: "kernel_page_directory t = kernel_page_directory s" using v by (simp add: vm_same_def)
  show "sched_mem t A H L"
    using heap_still(1) [OF S D(11) mvarsD(1) [OF m]] kernel_shared_step [OF S D(10)] S D(1) K(1) kd by (simp add: sched_mem_def mem_step_def)
  show "pool t A H (processes t) = T" using D(5) vm_same_parts(2) [OF v] K(4) by (simp add: pool_def)
  show "cr3 t = t_address_space (tasks t ! unat (current_task t))" using D(8) mvarsD(4) [OF m] K(1,2) by simp
  show "tasks_follow {} (kernel_page_directory s) A (tasks s) (tasks t)" using K(1) by simp
  fix i :: nat assume i: "i < 16"
  show "same_process (processes s ! i) (processes t ! i) \<and> p_task_id (processes s ! i) \<notin> {} \<and> p_address_space (processes s ! i) \<in> A - {} \<and>
    proc_pages (processes s ! i) \<inter> {} = {}" if "alive (processes t ! i)"
    using proc_memD(1) [OF procs_memD(1) [OF D(2) i]] that K(4) by simp
  show "alive (processes t ! i) \<or> (\<exists>j < 16. t_address_space (tasks s ! j) = p_address_space (processes s ! i))" if "alive (processes s ! i)"
    using that K(4) by simp
qed auto

lemma orphaned_process:
  "alive (orphaned pid p) = alive p" "alive p \<Longrightarrow> same_process p (orphaned pid p)"
  by (auto simp: orphaned_def alive_def same_process_def same_pages_def zero_process_def)

lemma exited_process:
  assumes "length ps = 16" "j < 16" "p_state q = USER_PROCESS_EXITED"
  shows "i < 16 \<Longrightarrow> alive (after_exit ps j q ! i) \<longleftrightarrow> i \<noteq> j \<and> alive (ps ! i)"
    and "i < 16 \<Longrightarrow> alive (after_exit ps j q ! i) \<Longrightarrow> same_process (ps ! i) (after_exit ps j q ! i)"
    and "all_pages (after_exit ps j q) = all_pages (ps[j := zero_process])"
proof -
  have z: "\<not> alive zero_process" "\<not> alive q" using assms(3) by (simp_all add: alive_def zero_process_def)
  note N = after_exit_nth(1) [OF assms(1), of _ j q]
  show a: "alive (after_exit ps j q ! i) \<longleftrightarrow> i \<noteq> j \<and> alive (ps ! i)" if "i < 16" for i using N [OF that] z orphaned_process(1) by auto
  show b: "same_process (ps ! i) (after_exit ps j q ! i)" if "i < 16" "alive (after_exit ps j q ! i)" for i
    using a [OF that(1)] that N [OF that(1)] orphaned_process(2) by auto
  show "all_pages (after_exit ps j q) = all_pages (ps[j := zero_process])"
  proof (rule all_pages_same, intro conjI impI)
    fix i :: nat assume i: "i < 16"
    have at: "ps[j := zero_process] ! i = (if i = j then zero_process else ps ! i)" using i assms(1,2) by (simp add: nth_list_update)
    show "alive (after_exit ps j q ! i) = alive (ps[j := zero_process] ! i)" using a [OF i] at z(1) by simp
    show "proc_pages (after_exit ps j q ! i) = proc_pages (ps[j := zero_process] ! i)" if "alive (ps[j := zero_process] ! i)"
      using a [OF i] b [OF i] at z(1) that same_pages_parts(2) [of "ps ! i" "after_exit ps j q ! i"] by (auto simp: same_process_def split: if_splits)
  qed
qed

text \<open>The process of the current task, and what the others share with it: nothing.\<close>

lemma current_alive:
  assumes M: "memory_map Z T s A H L" and I: "kernel_inv s"
    and f: "user_process_find_by_task_id (sched_current_task_id s) s = Some j" and r: "p_state (proc_at j s) = USER_PROCESS_RUNNING"
  shows "unat j < 16" "alive (processes s ! unat j)" "t_address_space (tasks s ! unat (current_task s)) = p_address_space (processes s ! unat j)"
    and "cr3 s = p_address_space (processes s ! unat j)" "p_address_space (processes s ! unat j) \<in> A" "pages_ok s A (processes s ! unat j)"
    and "i < 16 \<Longrightarrow> alive (processes s ! i) \<Longrightarrow> i \<noteq> unat j \<Longrightarrow> p_task_id (processes s ! i) \<noteq> sched_current_task_id s"
proof -
  note D = memory_mapD [OF M] and P = current_process [OF I f] and C = current_ready [OF kernel_invD(1) [OF I]]
  show j: "unat j < 16" by (rule P(1))
  show a: "alive (processes s ! unat j)" using r by (simp add: alive_def proc_at_def)
  show sp: "t_address_space (tasks s ! unat (current_task s)) = p_address_space (processes s ! unat j)"
    using spaces_linkD(2) [OF D(3) j C(1) a C(2)] C(3) P(3) r by (simp add: proc_at_def)
  then show "cr3 s = p_address_space (processes s ! unat j)" using D(8) by simp
  show "p_address_space (processes s ! unat j) \<in> A" "pages_ok s A (processes s ! unat j)" using proc_memD(1,2) [OF procs_memD(1) [OF D(2) j a]] .
  show "p_task_id (processes s ! i) \<noteq> sched_current_task_id s" if "i < 16" "alive (processes s ! i)" "i \<noteq> unat j"
    using linkedD(3) [OF kernel_invD(5) [OF I] that(1) j] P(2,3) that by (auto simp: alive_def)
qed

lemma released_map:
  fixes s :: "'a user_state_scheme"
  assumes M: "memory_map Z T s A H L" and I: "kernel_inv s"
    and f: "user_process_find_by_task_id (sched_current_task_id s) s = Some j" and r: "p_state (proc_at j s) = USER_PROCESS_RUNNING"
  shows "memory_map Z T (user_exit_current status s) A H L" "mem_step A s A (user_exit_current status s) (proc_pages (proc_at j s)) (page_area (proc_pages (proc_at j s))) {cr3 s}"
    and "tasks (user_exit_current status s) = tasks s" "current_task (user_exit_current status s) = current_task s"
    and "next_task_id (user_exit_current status s) = next_task_id s"
    and "i < 16 \<Longrightarrow> alive (processes (user_exit_current status s) ! i) \<longleftrightarrow> i \<noteq> unat j \<and> alive (processes s ! i)"
    and "i < 16 \<Longrightarrow> i \<noteq> unat j \<Longrightarrow> alive (processes s ! i) \<Longrightarrow> same_process (processes s ! i) (processes (user_exit_current status s) ! i)"
proof -
  let ?p = "processes s ! unat j" and ?ps = "processes s"
  note D = memory_mapD [OF M] and C = current_alive [OF M I f r] and W = proc_wfD [OF kernel_invD(4) [OF I]]
  define t where "t = user_exit_current status s"
  obtain q pg where e: "q = (?ps ! unat j)\<lparr>p_exit_status := status, p_state := USER_PROCESS_EXITED, p_pages := pg, p_page_count := 0, p_address_space := 0\<rparr>"
    and k: "kvars t = (tasks s, current_task s, next_task_id s, after_exit ?ps (unat j) q, next_pid s)"
    using exit_kvars [OF kernel_invD(4) [OF I] f, of status] unfolding t_def by blast
  have q: "p_state q = USER_PROCESS_EXITED" by (simp add: e)
  have kt: "tasks t = tasks s" "current_task t = current_task s" "processes t = after_exit ?ps (unat j) q" "next_task_id t = next_task_id s" using k by (simp_all add: kvars_def)
  have R: "released A (p_address_space ?p) (proc_pages ?p) s t"
    using exit_released [OF D(9) f W(1) C(5) _, of status] C(6) by (simp add: proc_at_def proc_pages_def t_def)
  note m = released_mem_step [OF R]
  then show "mem_step A s A (user_exit_current status s) (proc_pages (proc_at j s)) (page_area (proc_pages (proc_at j s))) {cr3 s}"
    using C(4) by (simp add: t_def proc_at_def)
  have mv: "mvars t = mvars s" by (simp add: t_def exit_mvars)
  show "tasks (user_exit_current status s) = tasks s" "current_task (user_exit_current status s) = current_task s"
    "next_task_id (user_exit_current status s) = next_task_id s" using kt by (simp_all add: t_def)
  note E = exited_process [OF W(1) C(1) q] and P = procs_memD [OF D(2) C(1,2)]
  have "\<And>x. x \<in> H \<Longrightarrow> data_ok s A x" using D(11) by (simp add: heap_map_def)
  note ar = page_area_data [OF proc_memD(3) [OF P(1)] this P(2)]
  have h: "heap_map t A H L" by (rule heap_map_kept(1) [OF m D(11) P(2) ar mvarsD(1) [OF mv]])
  show "i < 16 \<Longrightarrow> alive (processes (user_exit_current status s) ! i) \<longleftrightarrow> i \<noteq> unat j \<and> alive (processes s ! i)"
    and "i < 16 \<Longrightarrow> i \<noteq> unat j \<Longrightarrow> alive (processes s ! i) \<Longrightarrow> same_process (processes s ! i) (processes (user_exit_current status s) ! i)"
    unfolding t_def [symmetric] kt(3) using E(1,2) by blast+
  have "?ps[unat j := ?p] = ?ps" by simp
  then have pages: "all_pages ?ps = proc_pages ?p \<union> all_pages (?ps[unat j := zero_process])"
    using all_pages_update [OF W(1) C(1), of ?p] C(2) by simp
  show "memory_map Z T (user_exit_current status s) A H L"
    unfolding t_def [symmetric]
  proof (rule memory_map_step [OF M m, where N = "{}"])
    show "sched_mem t A H L" using D(1) h m kernel_shared_step [OF m D(10)] kt(1) by (simp add: sched_mem_def mem_step_def)
    show "{p_address_space ?p} \<subseteq> A" using C(5) by simp
    show "pool t A H (processes t) = T" using R D(5) pages E(3) kt(3) unfolding pool_def released_def by auto
    show "cr3 t = t_address_space (tasks t ! unat (current_task t))" using D(8) mvarsD(4) [OF mv] kt by simp
    fix i :: nat assume i: "i < 16"
    show "same_process (?ps ! i) (processes t ! i) \<and> p_task_id (?ps ! i) \<notin> {} \<and> p_address_space (?ps ! i) \<in> A - {p_address_space ?p} \<and>
      proc_pages (?ps ! i) \<inter> proc_pages ?p = {}" if a: "alive (processes t ! i)"
    proof -
      have o: "i \<noteq> unat j" "alive (?ps ! i)" using E(1) [OF i] a kt(3) by simp_all
      show ?thesis using E(2) [OF i] a kt(3) P(3,4) [OF i o] proc_memD(1) [OF procs_memD(1) [OF D(2) i o(2)]] by auto
    qed
    show "alive (processes t ! i) \<or> (\<exists>k < 16. t_address_space (tasks s ! k) = p_address_space (?ps ! i))" if "alive (?ps ! i)"
      using E(1) [OF i] kt(3) that C(3) current_ready(1) [OF kernel_invD(1) [OF I]] by auto
  qed (use kt(1) in auto)
qed

end
