(* ===== verification/ProcessExec.thy ===== *)
theory ProcessExec
  imports ProcessSteps
begin

text \<open>
  Programs that start, fail to start, are spawned and waited for, on the division of memory.
\<close>

section \<open>A program that cannot be started\<close>

lemma exec_start_map:
  assumes M: "memory_map Z T s A H L" and I: "kernel_inv s"
    and f: "user_process_find_by_task_id (sched_current_task_id s) s = Some j" and r: "p_state (proc_at j s) = USER_PROCESS_CREATED"
  shows "exec_start s A j (p_address_space (proc_at j s))"
proof -
  note D = memory_mapD [OF M] and P = current_process [OF I f] and W = proc_wfD [OF kernel_invD(4) [OF I]]
  have a: "alive (processes s ! unat j)" using r by (simp add: alive_def proc_at_def)
  note Q = proc_memD [OF procs_memD(1) [OF D(2) P(1) a]]
  show ?thesis unfolding exec_start_def using D(9) f W(1) Q(1,2,6,7) r by (auto simp: proc_at_def pages_ok_def)
qed

lemma exec_task_mvars:
  assumes "user_exec_task s = Goes t"
  shows "mvars t = mvars s"
proof (cases "user_process_find_by_task_id (sched_current_task_id s) s")
  case None
  then show ?thesis using assms by (simp add: user_exec_task_def)
next
  case (Some j)
  obtain r u where u: "user_prepare_exec (Some j) (Some (c_string (p_path (proc_at j s)))) s = (r, u)" by (meson surj_pair)
  then have "mvars u = mvars s" by (rule prepare_exec_mvars)
  then show ?thesis using assms unfolding exec_task_eq [OF Some] u
    by (auto simp: enter_some(2) exec_fail_mvars split: if_splits)
qed

lemma exec_fail_step:
  fixes s :: "'a user_state_scheme"
  assumes E: "exec_start s A j a" and sh: "kernel_shared s A" and t: "user_exec_task s = Goes t"
  shows "mem_step A s (A - {a}) t {} {} {a}" "managed t (A - {a}) = managed s A"
proof -
  note e = exec_startD [OF E]
  obtain x F where x: "holding A a j s x F" "t = exec_fail j (user_process_free_pages (Some j) x)" by (rule exec_task_failed [OF E t])
  define u where "u = user_process_free_pages (Some j) x"
  note H = holding_freed [OF x(1) e(2), folded u_def]
  define v where "v = snd (printk (''user: failed to execute %s'' @ [CHR 0x0A]) [VStr (Some (c_string (p_path (proc_at j u))))] u)"
  have V: "vm_same u v" unfolding v_def by (rule printk_vm_same)
  have kv: "kvars v = kvars u" by (simp add: v_def)
  have pv: "p_address_space (proc_at j v) = a" using H(4) kvarsD(4) [OF kv] by (simp add: proc_at_def)
  define w where "w = vmm_destroy_address_space a v"
  have tw: "t = set_proc j (\<lambda>_. zero_process) w"
    unfolding x(2) u_def [symmetric] exec_fail_def Let_def v_def [symmetric] using pv e(8) by (simp add: w_def user_process_release_def)
  have m: "mem_step A s A v {} {} {a}" by (rule mem_step_same [OF space_mem_step [OF H(7)] V])
  have spv: "spaces_ok v A" and shv: "kernel_shared v A" using m kernel_shared_step [OF m sh] by (simp_all add: mem_step_def)
  note X = destroy_step [OF spv e(2) shv, folded w_def]
  have "mem_step A s (A - {a}) w ({} \<union> {}) ({} \<union> {}) ({a} \<union> {})" by (rule mem_step_trans [OF m X(1)]) auto
  then have "mem_step A s (A - {a}) w {} {} {a}" by simp
  then show "mem_step A s (A - {a}) t {} {} {a}" unfolding tw by (rule mem_step_same [OF _ set_proc_vm])
  show "managed t (A - {a}) = managed s A" using X(2) vm_same_parts(2) [OF V] H(8) vm_same_parts(2) [OF set_proc_vm] by (simp add: tw)
qed

lemma task_mem_drop:
  assumes T: "task_mem ts k A L" and n: "\<And>i. i < 16 \<Longrightarrow> t_address_space (ts ! i) \<noteq> a"
  shows "task_mem ts k (A - {a}) L"
proof -
  have "task_owns k (A - {a}) L (ts ! i)" if "i < 16" for i using task_memD(2) [OF T that] n [OF that] by (auto simp: task_owns_def)
  moreover have "tasks_apart (A - {a}) (ts ! i) (ts ! l)" if "i < 16" "l < 16" "i \<noteq> l" for i l
    using task_memD(3) [OF T that] by (auto simp: tasks_apart_def)
  ultimately show ?thesis using task_memD(1) [OF T] by (simp add: task_mem_def)
qed

lemma exec_failed_map:
  fixes s :: "'a user_state_scheme"
  assumes M: "memory_map Z T s A H L" and I: "kernel_inv s" and t: "user_exec_task s = Goes t"
    and f: "user_process_find_by_task_id (sched_current_task_id s) s = Some j" and r: "p_state (proc_at j s) = USER_PROCESS_CREATED"
  shows "memory_map Z T t (A - {p_address_space (proc_at j s)}) H L" "mem_step A s (A - {p_address_space (proc_at j s)}) t {} {} {p_address_space (proc_at j s)}"
proof -
  let ?ps = "processes s" and ?a = "p_address_space (proc_at j s)"
  note D = memory_mapD [OF M] and P = current_process [OF I f] and W = proc_wfD [OF kernel_invD(4) [OF I]]
  note E = exec_start_map [OF M I f r] and S = exec_fail_step [OF exec_start_map [OF M I f r] D(10) t]
  show "mem_step A s (A - {?a}) t {} {} {?a}" by (rule S(1))
  have a: "alive (?ps ! unat j)" "?a \<in> A" using r exec_startD(2) [OF E] by (simp_all add: alive_def proc_at_def)
  have k: "processes t = ?ps[unat j := zero_process]" "tasks t = tasks s" "current_task t = current_task s"
    using exec_tables(2) [OF f W(1) t] by (simp_all add: user_vars_def sched_vars_def)
  have at: "processes t ! i = (if i = unat j then zero_process else ?ps ! i)" if "i < 16" for i using that k(1) W(1) by (simp add: nth_list_update)
  have z: "\<not> alive zero_process" by (simp add: alive_def zero_process_def)
  have mv: "mvars t = mvars s" by (rule exec_task_mvars [OF t])
  note R = procs_memD [OF D(2) P(1) a(1)]
  have h: "heap_map t (A - {?a}) H L" by (rule heap_map_kept(1) [OF S(1) D(11) _ _ mvarsD(1) [OF mv]]) auto
  have nt: "t_address_space (tasks s ! i) \<noteq> ?a" if "i < 16" for i
    using spaces_linkD(1) [OF D(3) P(1) that a(1)] r by (auto simp: proc_at_def)
  have tm: "task_mem (tasks s) (kernel_page_directory s) (A - {?a}) L"
    using D(1) nt by (intro task_mem_drop) (simp_all add: sched_mem_def)
  have "p_page_count (?ps ! unat j) = 0" using exec_startD(5) [OF E] by (simp add: proc_at_def)
  then have "proc_pages (?ps ! unat j) = {}" by (simp add: proc_pages_def page_frames_def)
  then have pg: "all_pages (processes t) = all_pages ?ps"
    using all_pages_update [OF W(1) P(1), of "?ps ! unat j"] k(1) by auto
  show "memory_map Z T t (A - {?a}) H L"
  proof (rule memory_map_step [OF M S(1), where N = "{}"])
    have "kernel_shared t (A - {?a})" by (rule kernel_shared_step [OF S(1) D(10)]) blast
    then show "sched_mem t (A - {?a}) H L" using h S(1) k(2) tm by (simp add: sched_mem_def mem_step_def)
    show "{?a} \<subseteq> A" using a(2) by simp
    show "pool t (A - {?a}) H (processes t) = T" using S(2) D(5) pg by (simp add: pool_def)
    show "cr3 t = t_address_space (tasks t ! unat (current_task t))" using D(8) mvarsD(4) [OF mv] k by simp
    fix i :: nat assume i: "i < 16"
    show "same_process (?ps ! i) (processes t ! i) \<and> p_task_id (?ps ! i) \<notin> {} \<and> p_address_space (?ps ! i) \<in> A - {?a} - {?a} \<and>
      proc_pages (?ps ! i) \<inter> {} = {}" if l: "alive (processes t ! i)"
    proof -
      have o: "i \<noteq> unat j" "alive (?ps ! i)" using l z at [OF i] by (auto split: if_splits)
      show ?thesis using at [OF i] o R(3) [OF i o] proc_memD(1) [OF procs_memD(1) [OF D(2) i o(2)]] by (auto simp: proc_at_def)
    qed
    show "alive (processes t ! i) \<or> (\<exists>l < 16. t_address_space (tasks s ! l) = p_address_space (?ps ! i))"
      if "alive (?ps ! i)" "p_address_space (?ps ! i) \<in> A - {?a}"
      using at [OF i] that by (auto simp: proc_at_def)
  qed (use k(2) in auto)
qed

section \<open>A program that starts\<close>

lemma enters_parts:
  fixes s :: "'a user_state_scheme"
  assumes E: "exec_start s A j a" and t: "user_exec_task s = Enters t"
  obtains u img C S where "prepared A a j img C S s u" "vm_same u t" "mvars u = mvars s" "current_task s \<noteq> 0"
    "processes t = (processes s)[unat j := (proc_at j u)\<lparr>p_state := USER_PROCESS_RUNNING\<rparr>]" "keeps (processes s ! unat j) (proc_at j u)"
    "tasks t = (tasks s)[unat (current_task s) := (tasks s ! unat (current_task s))\<lparr>t_address_space := a\<rparr>]"
    "current_task t = current_task s" "mvars t = ((heap_list s, module_start s, module_size s), a, reg_esp s)"
proof -
  note e = exec_startD [OF E]
  let ?path = "c_string (p_path (proc_at j s))"
  obtain r u where u: "user_prepare_exec (Some j) (Some ?path) s = (r, u)" by (cases "user_prepare_exec (Some j) (Some ?path) s")
  define x where "x = set_proc j (\<lambda>p. p\<lparr>p_state := USER_PROCESS_RUNNING\<rparr>) (paging_load_directory (p_address_space (proc_at j u))
        (set_task (current_task u) (\<lambda>t. t\<lparr>t_address_space := p_address_space (proc_at j u)\<rparr>) u))"
  have ent: "r = 0" "user_enter (Some j) x = Enters t" "current_task u \<noteq> 0"
    using t unfolding exec_task_eq [OF e(3)] u x_def by (auto split: if_splits)
  obtain img C S where P: "prepared A a j img C S s u" using prepare_exec_cases [OF e(6,2,5) u] ent(1) by blast
  have mu: "mvars u = mvars s" by (rule prepare_exec_mvars [OF u])
  obtain q where q: "keeps (processes s ! unat j) q" "kvars u = (tasks s, current_task s, next_task_id s, (processes s)[unat j := q], next_pid s)"
    using loads_prepare [OF _ u] e(4,9) unfolding loads_def by auto
  have qu: "proc_at j u = q" "tasks u = tasks s" "current_task u = current_task s" "processes u = (processes s)[unat j := q]" using q(2) e(4,9) by (simp_all add: kvars_def proc_at_def)
  have au: "p_address_space (proc_at j u) = a" using P by (simp add: prepared_def holding_def)
  have vx: "vm_same x t" "tasks t = tasks x" "current_task t = current_task x" "processes t = processes x" "mvars t = mvars x"
    using ent(2) by (auto simp: user_enter_def Let_def vm_same_def pmm_same_def mvars_def)
  have "vm_same u x" by (simp add: x_def vm_same_def pmm_same_def set_proc_def paging_load_directory_def set_task_def)
  then have "vm_same u t" using vx(1) vm_same_then by blast
  moreover have "tasks x = (tasks s)[unat (current_task s) := (tasks s ! unat (current_task s))\<lparr>t_address_space := a\<rparr>]" "current_task x = current_task s"
    "processes x = (processes s)[unat j := q\<lparr>p_state := USER_PROCESS_RUNNING\<rparr>]"
    using qu e(4,9) au by (simp_all add: x_def set_proc_def paging_load_directory_def set_task_def)
  moreover have "mvars x = ((heap_list s, module_start s, module_size s), a, reg_esp s)"
    using mu au by (simp add: x_def mvars_def set_proc_def paging_load_directory_def set_task_def)
  ultimately show ?thesis using that [OF P _ mu] ent(3) q(1) qu(1,3) vx by simp
qed

text \<open>A process that has just been given its pages.\<close>

lemma prepared_mem:
  fixes s t :: "'a user_state_scheme"
  assumes P: "prepared A a j img C S s u" and v: "vm_same u t" and p: "proc_mem s A (proc_at j s)" "p_address_space (proc_at j s) = a"
    and c: "p_page_count (proc_at j s) = 0"
  shows "proc_pages (proc_at j u) = {C, S}" "proc_mem t A ((proc_at j u)\<lparr>p_state := USER_PROCESS_RUNNING\<rparr>)"
proof -
  let ?q = "(proc_at j u)\<lparr>p_state := USER_PROCESS_RUNNING\<rparr>"
  note R = P [unfolded prepared_def] and h = conjunct1 [OF P [unfolded prepared_def], unfolded holding_def] and V = vm_same_parts [OF v]
  show pg: "proc_pages (proc_at j u) = {C, S}" using h by (simp add: proc_pages_def)
  have "pages_ok t A ?q" using h V(4) by (simp add: pages_ok_def)
  moreover have "tbl (pte t a w) \<in> {C, S}" if "pte t a w AND 5 = 5" for w
  proof -
    have al: "page_aligned C" "page_aligned S" using R data_okD(1) by blast+
    have pt: "pte t a w = (if frame w = 0x400 then C OR 5 else if frame w = 0x7ff then S OR 7 else pte s a w)" using R V(5) by simp
    have "pte s a w AND 5 \<noteq> 5" using proc_memD(5) [OF p(1), of w] p(2) c by (auto simp: proc_pages_def page_frames_def)
    then show ?thesis using that pt al by (auto simp: tbl_or tbl_of_aligned split: if_splits)
  qed
  moreover have "p_address_space (proc_at j u) = a" "a \<in> A" using h proc_memD(1) [OF p(1)] p(2) by simp_all
  moreover have "proc_pages ?q = {C, S}" using pg by (simp add: proc_pages_def page_frames_def)
  ultimately show "proc_mem t A ?q" by (simp add: proc_mem_def)
qed

lemma link_exec:
  assumes L: "spaces_link k ts ps" and l: "length ts = 16" "length ps = 16" "c < 16" "j < 16" and r: "ready ts c" "t_id (ts ! c) = p_task_id (ps ! j)"
    and a: "alive (ps ! j)" "p_state (ps ! j) \<noteq> USER_PROCESS_RUNNING"
    and q: "p_state q = USER_PROCESS_RUNNING" "p_task_id q = p_task_id (ps ! j)" "p_address_space q = p_address_space (ps ! j)"
    and d: "\<And>i. i < 16 \<Longrightarrow> i \<noteq> j \<Longrightarrow> alive (ps ! i) \<Longrightarrow> p_address_space (ps ! i) \<noteq> p_address_space (ps ! j) \<and> p_task_id (ps ! i) \<noteq> p_task_id (ps ! j)"
    and ids: "\<And>i. i < 16 \<Longrightarrow> ready ts i \<Longrightarrow> t_id (ts ! i) = t_id (ts ! c) \<Longrightarrow> i = c"
  shows "spaces_link k (ts[c := (ts ! c)\<lparr>t_address_space := p_address_space q\<rparr>]) (ps[j := q])"
  unfolding spaces_link_def
proof (intro allI impI)
  fix i l :: nat assume i: "i < 16" and l': "l < 16" and al: "alive (ps[j := q] ! i)"
  let ?us = "ts[c := (ts ! c)\<lparr>t_address_space := p_address_space q\<rparr>]"
  have us: "?us ! l = (if l = c then (ts ! c)\<lparr>t_address_space := p_address_space q\<rparr> else ts ! l)" using l l' by (simp add: nth_list_update)
  have qs: "ps[j := q] ! i = (if i = j then q else ps ! i)" using l i by (simp add: nth_list_update)
  have none: "t_address_space (ts ! l) \<noteq> p_address_space (ps ! j)" using spaces_linkD(1) [OF L l(4) l' a(1)] a(2) by blast
  show "(t_address_space (?us ! l) = p_address_space (ps[j := q] ! i) \<longrightarrow>
      ready ?us l \<and> t_id (?us ! l) = p_task_id (ps[j := q] ! i) \<and> p_state (ps[j := q] ! i) = USER_PROCESS_RUNNING) \<and>
    (ready ?us l \<and> t_id (?us ! l) = p_task_id (ps[j := q] ! i) \<longrightarrow>
      t_address_space (?us ! l) = (if p_state (ps[j := q] ! i) = USER_PROCESS_RUNNING then p_address_space (ps[j := q] ! i) else k))"
  proof (cases "i = j")
    case True
    show ?thesis
    proof (cases "l = c")
      case True
      then show ?thesis using us qs r q \<open>i = j\<close> by simp
    next
      case False
      then have "\<not> (ready ts l \<and> t_id (ts ! l) = p_task_id (ps ! j))" using ids [OF l'] r(2) by metis
      then show ?thesis using us qs q none \<open>i = j\<close> False by simp
    qed
  next
    case False
    have ai: "alive (ps ! i)" using al qs False by simp
    note O = d [OF i False ai]
    show ?thesis
    proof (cases "l = c")
      case True
      then show ?thesis using us qs r(2) q(3) O [THEN conjunct1, THEN not_sym] O [THEN conjunct2, THEN not_sym] False by simp
    next
      case l: False
      have e: "?us ! l = ts ! l" "ps[j := q] ! i = ps ! i" using us qs False l by simp_all
      show ?thesis unfolding e by (intro conjI impI; (elim conjE)?) (use spaces_linkD [OF L i l' ai] in blast)+
    qed
  qed
qed

lemma task_mem_adopt:
  assumes T: "task_mem ts k A L" and c: "c < 16" and a: "a \<in> A" and n: "\<And>i. i < 16 \<Longrightarrow> t_address_space (ts ! i) \<noteq> a"
  shows "task_mem (ts[c := (ts ! c)\<lparr>t_address_space := a\<rparr>]) k A L"
proof (rule task_mem_update [OF T c])
  show "task_owns k A L ((ts ! c)\<lparr>t_address_space := a\<rparr>)" using task_memD(2) [OF T c] a by (simp add: task_owns_def)
  show "tasks_apart A ((ts ! c)\<lparr>t_address_space := a\<rparr>) (ts ! i) \<and> tasks_apart A (ts ! i) ((ts ! c)\<lparr>t_address_space := a\<rparr>)" if "i < 16" "i \<noteq> c" for i
    using task_memD(3) [OF T c that(1)] task_memD(3) [OF T that(1) c] n [OF that(1)] that(2) by (auto simp: tasks_apart_def)
qed

text \<open>The process \<open>q\<close> in slot \<open>j\<close> has got its pages.\<close>

lemma procs_mem_start:
  assumes D: "procs_mem s A H ps" and m: "mem_step A s A t {} {} {p_address_space (ps ! j)}" and l: "length ps = 16" "j < 16" "alive (ps ! j)"
    and q: "proc_mem t A q" "p_address_space q = p_address_space (ps ! j)" "proc_pages q \<inter> H = {}" "proc_pages q \<subseteq> managed s A"
  shows "procs_mem t A H (ps[j := q])"
proof (rule procs_mem_add [OF _ l(1,2) q(1)])
  note Q = procs_memD [OF D l(2,3)]
  have zs: "ps[j := zero_process] ! i = (if i = j then zero_process else ps ! i)" if "i < 16" for i using that l(1) by (simp add: nth_list_update)
  show "procs_mem t A H (ps[j := zero_process])"
  proof (rule procs_mem_sub [OF D m])
    fix i :: nat assume i: "i < 16" "alive (ps[j := zero_process] ! i)"
    then have o: "i \<noteq> j" "alive (ps ! i)" using zs [OF i(1)] by (auto simp: alive_def zero_process_def split: if_splits)
    show "same_pages (ps ! i) (ps[j := zero_process] ! i) \<and> p_address_space (ps ! i) \<in> A - {p_address_space (ps ! j)} \<and> proc_pages (ps ! i) \<inter> {} = {}"
      using zs [OF i(1)] o Q(3) [OF i(1) o] proc_memD(1) [OF procs_memD(1) [OF D i(1) o(2)]] by auto
  qed auto
  show "proc_pages q \<inter> H = {}" by (rule q(3))
  fix i :: nat assume i: "i < 16" "i \<noteq> j" "alive (ps ! i)"
  have "proc_pages (ps ! i) \<inter> proc_pages q = {}" using q(4) proc_memD(4) [OF procs_memD(1) [OF D i(1,3)]] by blast
  then show "p_address_space (ps ! i) \<noteq> p_address_space q \<and> proc_pages (ps ! i) \<inter> proc_pages q = {}" unfolding q(2) using Q(3) [OF i] by simp
qed

lemma held_exec:
  assumes h: "spaces_held A ts ps" and c: "t_address_space (ts ! c) \<notin> A" and l: "length ps = 16" "j < 16" and q: "alive q" "p_address_space q = p_address_space (ps ! j)"
  shows "spaces_held A (ts[c := x]) (ps[j := q])"
  unfolding spaces_held_def
proof
  fix b assume b: "b \<in> A"
  from h b consider i where "i < 16" "t_address_space (ts ! i) = b" | i where "i < 16" "alive (ps ! i)" "p_address_space (ps ! i) = b"
    unfolding spaces_held_def by blast
  then show "(\<exists>i < 16. t_address_space (ts[c := x] ! i) = b) \<or> (\<exists>i < 16. alive (ps[j := q] ! i) \<and> p_address_space (ps[j := q] ! i) = b)"
  proof cases
    case 1
    then have "i \<noteq> c" using b c by auto
    then show ?thesis using 1 by (intro disjI1 exI [of _ i]) simp
  next
    case 2
    have "alive (ps[j := q] ! i) \<and> p_address_space (ps[j := q] ! i) = b" using 2 q l by (cases "i = j") simp_all
    then show ?thesis using 2(1) by blast
  qed
qed

lemma all_pages_start:
  assumes "length ps = 16" "j < 16" "proc_pages (ps ! j) = {}" "alive q"
  shows "all_pages (ps[j := q]) = proc_pages q \<union> all_pages ps"
proof -
  have "all_pages ps = all_pages (ps[j := zero_process])" using all_pages_update [OF assms(1,2), of "ps ! j"] assms(3) by auto
  then show ?thesis using all_pages_update [OF assms(1,2), of q] assms(4) by simp
qed

lemma exec_enters_map:
  fixes s :: "'a user_state_scheme"
  assumes M: "memory_map Z T s A H L" and I: "kernel_inv s" and t: "user_exec_task s = Enters t"
    and f: "user_process_find_by_task_id (sched_current_task_id s) s = Some j" and r: "p_state (proc_at j s) = USER_PROCESS_CREATED"
  shows "memory_map Z T t A H L" "mem_step A s A t {} {} {p_address_space (proc_at j s)}"
    and "i < 16 \<Longrightarrow> i \<noteq> unat j \<Longrightarrow> processes t ! i = processes s ! i"
proof -
  let ?ps = "processes s" and ?a = "p_address_space (proc_at j s)" and ?c = "unat (current_task s)" and ?k = "kernel_page_directory s"
  note D = memory_mapD [OF M] and P = current_process [OF I f] and W = proc_wfD [OF kernel_invD(4) [OF I]] and N = zero_space [OF memory_mapD(9) [OF M]]
  have E: "exec_start s A j ?a" by (rule exec_start_map [OF M I f r])
  note e = exec_startD [OF E]
  obtain u img C S where U: "prepared A ?a j img C S s u" "vm_same u t" "mvars u = mvars s" "current_task s \<noteq> 0"
    "processes t = ?ps[unat j := (proc_at j u)\<lparr>p_state := USER_PROCESS_RUNNING\<rparr>]" "keeps (?ps ! unat j) (proc_at j u)"
    "tasks t = (tasks s)[?c := (tasks s ! ?c)\<lparr>t_address_space := ?a\<rparr>]"
    "current_task t = current_task s" "mvars t = ((heap_list s, module_start s, module_size s), ?a, reg_esp s)"
    by (rule enters_parts [OF E t])
  let ?q = "(proc_at j u)\<lparr>p_state := USER_PROCESS_RUNNING\<rparr>"
  have mt: "heap_list t = heap_list s" "module_start t = module_start s" "module_size t = module_size s" "cr3 t = ?a" using U(9) by (simp_all add: mvars_def)
  have h: "holding A ?a j s u {C, S}" using U(1) by (simp add: prepared_def)
  have mgu: "{C, S} \<subseteq> managed s A" "managed t A = managed s A - {C, S}" using h vm_same_parts(2) [OF U(2)] by (simp_all add: holding_def)
  have "space_step A ?a s u" using h by (simp add: holding_def)
  then show m: "mem_step A s A t {} {} {?a}" using mem_step_same [OF space_mem_step U(2)] by blast
  show "i < 16 \<Longrightarrow> i \<noteq> unat j \<Longrightarrow> processes t ! i = ?ps ! i" using U(5) by simp
  have al: "alive (?ps ! unat j)" "alive ?q" using r by (simp_all add: alive_def proc_at_def)
  note Q = procs_memD [OF D(2) P(1) al(1)] and R = current_ready [OF kernel_invD(1) [OF I]] and PM = prepared_mem [OF U(1,2) _ refl e(5)]
  have pm: "proc_pages ?q = {C, S}" "proc_mem t A ?q" using PM Q(1) by (simp_all add: proc_at_def proc_pages_def page_frames_def)
  have kq: "p_task_id ?q = p_task_id (?ps ! unat j)" "p_address_space ?q = p_address_space (?ps ! unat j)" using U(6) by (simp_all add: keeps_def)
  have k: "kernel_page_directory t = ?k" "in_bitmap t = in_bitmap s" using m by (simp_all add: mem_step_def)
  have ht: "heap_map t A H L" by (rule heap_map_kept(1) [OF m D(11) _ _ mt(1)]) auto
  have "t_address_space (tasks s ! i) \<noteq> ?a" if "i < 16" for i using spaces_linkD(1) [OF D(3) P(1) that al(1)] r by (auto simp: proc_at_def)
  then have "task_mem (tasks t) ?k A L" unfolding U(7) using D(1) e(2) by (intro task_mem_adopt R(1)) (simp_all add: sched_mem_def)
  then have "sched_mem t A H L" unfolding sched_mem_def k using m ht kernel_shared_step [OF m D(10)] by (simp add: mem_step_def)
  moreover have "procs_mem t A H (processes t)"
    unfolding U(5) by (rule procs_mem_start [OF D(2) _ W(1) P(1) al(1) pm(2) kq(2)]) (use m pm(1) mgu(1) pool_parts(1) [OF M] in \<open>auto simp: proc_at_def\<close>)
  moreover have "spaces_link ?k (tasks t) (processes t)"
  proof -
    have id: "i = ?c" if "i < 16" "ready (tasks s) i" "t_id (tasks s ! i) = t_id (tasks s ! ?c)" for i
      using kernel_invD(3) [OF I] that R(1,2) unfolding ids_ok_def by (metis task_state.distinct(1,3,5))
    have sep: "p_address_space (?ps ! i) \<noteq> p_address_space (?ps ! unat j) \<and> p_task_id (?ps ! i) \<noteq> p_task_id (?ps ! unat j)"
      if "i < 16" "i \<noteq> unat j" "alive (?ps ! i)" for i
      using Q(3) [OF that] linkedD(3) [OF kernel_invD(5) [OF I] that(1) P(1)] P(2) that by (auto simp: alive_def)
    have "tasks t = (tasks s)[?c := (tasks s ! ?c)\<lparr>t_address_space := p_address_space ?q\<rparr>]" using U(7) kq(2) by (simp add: proc_at_def)
    moreover have "spaces_link ?k ((tasks s)[?c := (tasks s ! ?c)\<lparr>t_address_space := p_address_space ?q\<rparr>]) (?ps[unat j := ?q])"
      by (rule link_exec [OF D(3) sched_wfD(1) [OF kernel_invD(2) [OF I]] W(1) R(1) P(1) R(2) _ al(1) _ _ kq sep id])
        (use R(3) P(3) r in \<open>simp_all add: proc_at_def\<close>)
    ultimately show ?thesis unfolding U(5) by (simp only:)
  qed
  moreover have "t_address_space (tasks s ! ?c) = ?k" using spaces_linkD(2) [OF D(3) P(1) R(1) al(1) R(2)] R(3) P(3) r by (simp add: proc_at_def)
  then have "spaces_held A (tasks t) (processes t)" unfolding U(5,7) using N(3) by (intro held_exec [OF D(4) _ W(1) P(1) al(2) kq(2)]) simp
  moreover have "proc_pages (?ps ! unat j) = {}" using e(5) by (simp add: proc_at_def proc_pages_def page_frames_def)
  then have "pool t A H (processes t) = T" using all_pages_start [OF W(1) P(1) _ al(2)] pm(1) D(5) mgu unfolding U(5) pool_def by auto
  moreover have "kernel_private t" by (rule kernel_private_step [OF D(6) m]) (use N(3) e(2) in auto)
  moreover have "fixed_area Z T t" by (rule fixed_area_step [OF D(7) k(2)])
  moreover have "cr3 t = t_address_space (tasks t ! unat (current_task t))" using mt(4) U(7,8) R(1) sched_wfD(1) [OF kernel_invD(2) [OF I]] by simp
  ultimately show "memory_map Z T t A H L" unfolding memory_map_def k(1) by (intro conjI)
qed

lemma exec_goes:
  fixes s :: "'a user_state_scheme"
  assumes M: "memory_map Z T s A H L" and I: "kernel_inv s" and r: "process_state_is USER_PROCESS_CREATED s" and t: "user_exec_task s = Goes u"
  obtains B where "memory_map Z T u B H L" "mem_step A s B u {} {} (A - B)" "sched_vars u = sched_vars s" "reg_esp u = reg_esp s"
    "\<And>i. i < 16 \<Longrightarrow> alive (processes u ! i) \<Longrightarrow> p_task_id (processes u ! i) \<noteq> sched_current_task_id s"
    "\<And>i. i < 16 \<Longrightarrow> alive (processes s ! i) \<Longrightarrow> p_task_id (processes s ! i) \<noteq> sched_current_task_id s \<Longrightarrow>
       processes u ! i = processes s ! i \<and> p_address_space (processes s ! i) \<in> B"
proof (cases "user_process_find_by_task_id (sched_current_task_id s) s")
  case None
  note D = memory_mapD [OF M]
  have u: "u = s" using t None by (simp add: user_exec_task_def)
  have "p_task_id (processes s ! i) \<noteq> sched_current_task_id s" "p_address_space (processes s ! i) \<in> A" if "i < 16" "alive (processes s ! i)" for i
    using find_by_task_None [OF None that(1)] proc_memD(1) [OF procs_memD(1) [OF D(2) that]] that(2) by (auto simp: alive_def)
  note all = this
  have "mem_step A s A u {} {} (A - A)" unfolding u by (rule mem_step_refl [OF D(9)])
  then show ?thesis by (rule that [OF M [folded u]]) (use all in \<open>simp_all add: u\<close>)
next
  case (Some j)
  have rj: "p_state (proc_at j s) = USER_PROCESS_CREATED" using r Some by (simp add: process_state_is_def)
  let ?a = "p_address_space (proc_at j s)"
  note D = memory_mapD [OF M] and P = current_process [OF I Some] and W = proc_wfD [OF kernel_invD(4) [OF I]]
  note F = exec_failed_map [OF M I t Some rj]
  have aj: "alive (processes s ! unat j)" using rj by (simp add: alive_def proc_at_def)
  have a: "?a \<in> A" using proc_memD(1) [OF procs_memD(1) [OF D(2) P(1) aj]] by (simp add: proc_at_def)
  have e: "A - (A - {?a}) = {?a}" using a by blast
  have k: "processes u = (processes s)[unat j := zero_process]" "sched_vars u = sched_vars s" using exec_tables(2) [OF Some W(1) t] by (simp_all add: user_vars_def)
  have z: "\<not> alive zero_process" by (simp add: alive_def zero_process_def)
  have at: "processes u ! i = (if i = unat j then zero_process else processes s ! i)" if "i < 16" for i using that k(1) W(1) by (simp add: nth_list_update)
  have m: "mem_step A s (A - {?a}) u {} {} (A - (A - {?a}))" unfolding e by (rule F(2))
  show ?thesis
  proof (rule that [OF F(1) m k(2) mvarsD(5) [OF exec_task_mvars [OF t]]])
    fix i :: nat assume i: "i < 16"
    show "p_task_id (processes u ! i) \<noteq> sched_current_task_id s" if "alive (processes u ! i)"
    proof -
      have n: "i \<noteq> unat j" using that at [OF i] z by (cases "i = unat j") simp_all
      then have "processes u ! i = processes s ! i" "used (processes s ! i)" using that at [OF i] by (auto simp: alive_def)
      then show ?thesis using n linkedD(3) [OF kernel_invD(5) [OF I] i P(1) _ P(2)] P(3) by auto
    qed
    show "processes u ! i = processes s ! i \<and> p_address_space (processes s ! i) \<in> A - {?a}"
      if "alive (processes s ! i)" "p_task_id (processes s ! i) \<noteq> sched_current_task_id s"
    proof -
      have n: "i \<noteq> unat j" using that(2) P(3) by auto
      show ?thesis
        using at [OF i] n procs_memD(3) [OF D(2) P(1) aj i n that(1)] proc_memD(1) [OF procs_memD(1) [OF D(2) i that(1)]] by (auto simp: proc_at_def)
    qed
  qed
qed

end
