(* ===== verification/ProcessSpawn.thy ===== *)
theory ProcessSpawn
  imports ProcessExec
begin

text \<open>
  \<open>user_spawn\<close> and \<open>user_wait\<close> on the division of memory.
\<close>

section \<open>A new address space\<close>

lemma task_mem_insert:
  assumes T: "task_mem ts k A L" and a: "a \<noteq> 0" "a \<noteq> k" "a \<notin> A"
  shows "task_mem ts k (insert a A) L" "i < 16 \<Longrightarrow> t_address_space (ts ! i) \<noteq> a"
proof -
  have o: "t_address_space (ts ! i) \<in> insert 0 (insert k A)" if "i < 16" for i using task_memD(2) [OF T that] by (simp add: task_owns_def)
  show n: "t_address_space (ts ! i) \<noteq> a" if "i < 16" for i using o [OF that] a by auto
  have "task_owns k (insert a A) L (ts ! i)" if "i < 16" for i using task_memD(2) [OF T that] by (auto simp: task_owns_def)
  moreover have "tasks_apart (insert a A) (ts ! i) (ts ! j)" if "i < 16" "j < 16" "i \<noteq> j" for i j
    using task_memD(3) [OF T that] n [OF that(1)] by (auto simp: tasks_apart_def)
  ultimately show "task_mem ts k (insert a A) L" using task_memD(1) [OF T] by (simp add: task_mem_def)
qed

lemma tasks_follow_mono: "tasks_follow N k B ts us \<Longrightarrow> C \<subseteq> B \<Longrightarrow> tasks_follow N k C ts us"
  unfolding tasks_follow_def by blast

lemma tasks_follow_space:
  assumes "tasks_follow N k B ts us" "i < 16" "t_address_space (us ! i) = a" "a \<noteq> 0" "a \<noteq> k"
  shows "t_address_space (ts ! i) = a"
  using assms(1,2) by (cases rule: tasks_followD) (use assms(3-5) in auto)

lemma link_spawn:
  assumes L: "spaces_link k us ps" and F: "tasks_follow {n} k B ts us" and l: "length ps = 16" "j < 16"
    and p: "p_state p = USER_PROCESS_CREATED" "p_task_id p = n" and a: "\<And>i. i < 16 \<Longrightarrow> t_address_space (us ! i) \<noteq> p_address_space p"
    and ids: "\<And>i. i < 16 \<Longrightarrow> ready ts i \<Longrightarrow> t_id (ts ! i) \<noteq> n"
  shows "spaces_link k us (ps[j := p])"
  unfolding spaces_link_def
proof (intro allI impI)
  fix i m :: nat assume i: "i < 16" and m: "m < 16" and al: "alive (ps[j := p] ! i)"
  show "(t_address_space (us ! m) = p_address_space (ps[j := p] ! i) \<longrightarrow>
      ready us m \<and> t_id (us ! m) = p_task_id (ps[j := p] ! i) \<and> p_state (ps[j := p] ! i) = USER_PROCESS_RUNNING) \<and>
    (ready us m \<and> t_id (us ! m) = p_task_id (ps[j := p] ! i) \<longrightarrow>
      t_address_space (us ! m) = (if p_state (ps[j := p] ! i) = USER_PROCESS_RUNNING then p_address_space (ps[j := p] ! i) else k))"
  proof (cases "i = j")
    case True
    have "t_address_space (us ! m) = k" if "ready us m \<and> t_id (us ! m) = n"
      using F m by (cases rule: tasks_followD) (use that ids [OF m] in auto)
    then show ?thesis using True l i p a [OF m] by simp
  next
    case False
    then have e: "ps[j := p] ! i = ps ! i" by simp
    show ?thesis unfolding e by (intro conjI impI; (elim conjE)?) (use spaces_linkD [OF L i m al [unfolded e]] in blast)+
  qed
qed

lemma held_insert:
  assumes "spaces_held B us ps" "length ps = 16" "j < 16" "alive p" "\<not> alive (ps ! j)"
  shows "spaces_held (insert (p_address_space p) B) us (ps[j := p])"
  unfolding spaces_held_def
proof
  fix b assume "b \<in> insert (p_address_space p) B"
  then consider "b = p_address_space p" | m where "m < 16" "t_address_space (us ! m) = b" | i where "i < 16" "alive (ps ! i)" "p_address_space (ps ! i) = b"
    using assms(1) unfolding spaces_held_def by blast
  then show "(\<exists>m < 16. t_address_space (us ! m) = b) \<or> (\<exists>i < 16. alive (ps[j := p] ! i) \<and> p_address_space (ps[j := p] ! i) = b)"
  proof cases
    case 1
    then show ?thesis using assms by (intro disjI2 exI [of _ j]) simp
  next
    case 2
    then show ?thesis by blast
  next
    case 3
    then have "i \<noteq> j" using assms(5) by auto
    then show ?thesis using 3 by (intro disjI2 exI [of _ i]) simp
  qed
qed

text \<open>The state in which \<open>user_spawn\<close> creates the thread.\<close>

lemma spawn_slot_same:
  fixes s :: "'a user_state_scheme"
  shows "vm_same s (spawn_slot j cs s)" "mvars (spawn_slot j cs s) = mvars s"
proof -
  have n: "vm_same v w \<Longrightarrow> vm_same v (w\<lparr>next_pid := m\<rparr>)" "mvars (w\<lparr>next_pid := m\<rparr>) = mvars w" for v w :: "'a user_state_scheme" and m
    by (simp_all add: vm_same_def pmm_same_def mvars_def)
  show "vm_same s (spawn_slot j cs s)" by (simp add: spawn_slot_def Let_def process_vm n vm_same_refl split: option.split)
  show "mvars (spawn_slot j cs s) = mvars s" by (simp add: spawn_slot_def Let_def n split: option.split)
qed

lemma spawn_space:
  fixes s :: "'a user_state_scheme"
  assumes M: "memory_map Z T s A H L" and I: "kernel_inv s"
    and j: "first_u32 0 USER_PROCESS_MAX (\<lambda>i. p_state (proc_at i s) = USER_PROCESS_FREE) = Some j"
    and ab: "vmm_create_address_space (spawn_slot j cs s) = (a, b)"
  defines "c \<equiv> set_proc j (\<lambda>p. p\<lparr>p_address_space := a\<rparr>) b"
  shows "kvars c = (tasks s, current_task s, next_task_id s, (processes s)[unat j := new_process s cs a], next_pid s + 1)" "mvars c = mvars s"
    and "a = 0 \<Longrightarrow> mem_step A s A c {} {} {} \<and> managed c A = managed s A"
    and "a \<noteq> 0 \<Longrightarrow> mem_step A s (insert a A) c {} {} {} \<and> managed c (insert a A) = managed s A \<and> a \<noteq> kernel_page_directory s \<and> a \<notin> A \<and>
      sched_mem c (insert a A) H L \<and> (\<forall>i < KERNEL_PDE_INDEX. pd_entry c a i = 0) \<and> (\<forall>w. pte c a w AND 5 \<noteq> 5)"
proof -
  note D = memory_mapD [OF M] and W = proc_wfD [OF kernel_invD(4) [OF I]]
  note J = spawn_slot_kvars [OF W(1) j] and V = spawn_slot_same [where s = s and j = j and cs = cs]
  let ?u = "spawn_slot j cs s"
  have ku: "kernel_page_directory ?u = kernel_page_directory s" using V(1) by (simp add: vm_same_def)
  have su: "spaces_ok ?u A" "kernel_shared ?u A" using D(9,10) vm_same_parts [OF V(1)] ku by (simp_all add: kernel_shared_def)
  have kb: "kvars b = kvars ?u" "mvars b = mvars ?u" using ab mem_kvars(5) [of ?u] mem_mvars(4) [of ?u] by simp_all
  show kc: "kvars c = (tasks s, current_task s, next_task_id s, (processes s)[unat j := new_process s cs a], next_pid s + 1)"
    using kb(1) J W(1) unfolding c_def set_proc_kvars by (simp add: kvars_def new_process_def zero_process_def)
  show mc: "mvars c = mvars s" using kb(2) V(2) by (simp add: c_def)
  have vc: "vm_same b c" by (simp add: c_def set_proc_vm)
  have m0: "mem_step A s A ?u {} {} {}" by (rule vm_same_step [OF D(9) V(1)])
  have mg: "managed ?u A = managed s A" by (rule vm_same_parts(2) [OF V(1)])
  show "mem_step A s A c {} {} {} \<and> managed c A = managed s A" if "a = 0"
  proof -
    have "\<not> can_alloc ?u" using create_step(3) [OF su(1) ab] that by blast
    note C = create_fail_step [OF su(1) ab this]
    show ?thesis using mem_step_same [OF mem_step_trans [OF m0 C(2)] vc] C(3) mg vm_same_parts(2) [OF vc] by simp
  qed
  assume nz: "a \<noteq> 0"
  have ca: "can_alloc ?u" using create_fail_step(1) [OF su(1) ab] nz by blast
  note C = create_step [OF su(1) ab ca]
  have m: "mem_step A s (insert a A) c {} {} {}" using mem_step_same [OF mem_step_trans [OF m0 C(1)] vc] by auto
  have kc': "kernel_page_directory c = kernel_page_directory s" "spaces_ok c (insert a A)" using m by (simp_all add: mem_step_def)
  have an: "a \<noteq> kernel_page_directory s" "a \<notin> A" using C(4) ku by auto
  have kb': "kernel_page_directory b = kernel_page_directory c" using vc by (simp add: vm_same_def)
  have "kernel_shared c (insert a A)" using kernel_shared_create [OF su(1) ab ca su(2)] vm_same_parts(6) [OF vc] kb' by (simp add: kernel_shared_def)
  moreover have "heap_map c (insert a A) H L" by (rule heap_still(1) [OF m D(11) mvarsD(1) [OF mc]])
  moreover have "task_mem (tasks s) (kernel_page_directory s) A L" using D(1) by (simp add: sched_mem_def)
  then have "task_mem (tasks c) (kernel_page_directory s) (insert a A) L" using task_mem_insert(1) [OF _ nz an] kc by (simp add: kvars_def)
  ultimately have sm: "sched_mem c (insert a A) H L" using kc' by (simp add: sched_mem_def)
  have pd: "pd_entry c a i = 0" if "i < KERNEL_PDE_INDEX" for i
    using C(5) [of i] that kernel_index vm_same_parts(6) [OF vc] by (simp add: less_trans)
  have "pte c a w AND 5 \<noteq> 5" for w
    using C(6) [of w] D(6) vm_same_parts(5) [OF vc] vm_same_parts(5) [OF V(1)] ku by (auto simp: kernel_private_def)
  then show "mem_step A s (insert a A) c {} {} {} \<and> managed c (insert a A) = managed s A \<and> a \<noteq> kernel_page_directory s \<and> a \<notin> A \<and>
      sched_mem c (insert a A) H L \<and> (\<forall>i < KERNEL_PDE_INDEX. pd_entry c a i = 0) \<and> (\<forall>w. pte c a w AND 5 \<noteq> 5)"
    using m C(2) mg vm_same_parts(2) [OF vc] an sm pd by simp
qed

text \<open>No memory for the directory.\<close>

lemma spawn_no_space:
  fixes s c :: "'a user_state_scheme"
  assumes M: "memory_map Z T s A H L" and m: "mem_step A s A c {} {} {}" "managed c A = managed s A" "mvars c = mvars s"
    and t: "vm_same c t" "mvars t = mvars c" "tasks t = tasks s" "current_task t = current_task s" "processes t = processes s"
  shows "memory_map Z T t A H L" "mem_step A s A t {} {} {}"
proof -
  note D = memory_mapD [OF M]
  show mt: "mem_step A s A t {} {} {}" by (rule mem_step_same [OF m(1) t(1)])
  have mv: "mvars t = mvars s" using t(2) m(3) by simp
  show "memory_map Z T t A H L"
  proof (rule memory_map_step [OF M mt, where N = "{}"])
    have "heap_map t A H L" by (rule heap_still(1) [OF mt D(11) mvarsD(1) [OF mv]])
    then show "sched_mem t A H L" using D(1) mt kernel_shared_step [OF mt D(10)] t(3) by (simp add: sched_mem_def mem_step_def)
    show "pool t A H (processes t) = T" using D(5) m(2) vm_same_parts(2) [OF t(1)] t(5) by (simp add: pool_def)
    show "cr3 t = t_address_space (tasks t ! unat (current_task t))" using D(8) mvarsD(4) [OF mv] t by simp
    show "same_process (processes s ! i) (processes t ! i) \<and> p_task_id (processes s ! i) \<notin> {} \<and> p_address_space (processes s ! i) \<in> A - {} \<and>
      proc_pages (processes s ! i) \<inter> {} = {}" if "i < 16" "alive (processes t ! i)" for i
      using that t(5) proc_memD(1) [OF procs_memD(1) [OF D(2) that(1)]] by simp
  qed (use t(3,5) in auto)
qed

text \<open>From \<open>s\<close> to \<open>v\<close> dead tasks were reaped, the space \<open>a\<close> made, and a thread perhaps created.\<close>

definition thread_added ::
    "u32 set \<Rightarrow> u32 set \<Rightarrow> 'a user_state_scheme \<Rightarrow> u32 \<Rightarrow> u32 set \<Rightarrow> u32 set \<Rightarrow> (ptr \<times> u32) set \<Rightarrow> 'a user_state_scheme \<Rightarrow> bool" where
  "thread_added A H s a B H' L' v \<longleftrightarrow> mem_step A s (insert a B) v {} (page_area H) {} \<and> sched_mem v (insert a B) H' L' \<and>
     H' \<subseteq> H \<union> managed s A \<and> managed v (insert a B) \<union> H' = managed s A \<union> H \<and> boot_mods v = boot_mods s \<and> cr3 v = cr3 s \<and> a \<notin> B \<and>
     tasks_follow {next_task_id s} (kernel_page_directory s) B (tasks s) (tasks v) \<and> (\<forall>i < 16. t_address_space (tasks v ! i) \<noteq> a) \<and>
     current_task v = current_task s \<and>
     t_address_space (tasks v ! unat (current_task s)) = t_address_space (tasks s ! unat (current_task s))"

lemma thread_addedD:
  assumes "thread_added A H s a B H' L' v"
  shows "mem_step A s (insert a B) v {} (page_area H) {}" "sched_mem v (insert a B) H' L'" "H' \<subseteq> H \<union> managed s A"
    and "managed v (insert a B) \<union> H' = managed s A \<union> H" "boot_mods v = boot_mods s" "cr3 v = cr3 s" "a \<notin> B"
    and "tasks_follow {next_task_id s} (kernel_page_directory s) B (tasks s) (tasks v)"
    and "i < 16 \<Longrightarrow> t_address_space (tasks v ! i) \<noteq> a" "current_task v = current_task s"
    and "t_address_space (tasks v ! unat (current_task s)) = t_address_space (tasks s ! unat (current_task s))"
  using assms unfolding thread_added_def by blast+

lemma spawn_thread_step:
  fixes s c v :: "'a user_state_scheme"
  assumes M: "memory_map Z T s A H L" and I: "kernel_inv s" and nz: "a \<noteq> 0"
    and c: "mem_step A s (insert a A) c {} {} {}" "managed c (insert a A) = managed s A" "a \<noteq> kernel_page_directory s" "a \<notin> A"
    and kc: "sched_vars c = sched_vars s" "mvars c = mvars s"
    and v: "kthread_create lk (Some f) c = Some (n, v)" "heap_step (insert a A) H c (insert a A - dead_spaces c) H' L' v"
  defines "B \<equiv> A - dead_spaces s"
  shows "thread_added A H s a B H' L' v"
proof -
  note D = memory_mapD [OF M] and S = heap_stepD [OF v(2)] and V = sched_varsD [OF kc(1)] and w = kernel_invD(2) [OF I]
  have tm: "task_mem (tasks s) (kernel_page_directory s) A L" using D(1) by (simp add: sched_mem_def)
  note n = task_mem_insert(2) [OF tm nz c(3,4)]
  have d: "dead_spaces c = dead_spaces s" by (simp add: dead_spaces_def V)
  have "a \<notin> dead_spaces s" using n by (auto simp: dead_spaces_def)
  then have e: "insert a A - dead_spaces c = insert a B" unfolding d B_def by blast
  have "mem_step A s (insert a A - dead_spaces c) v ({} \<union> {}) ({} \<union> page_area H) ({} \<union> {})" by (rule mem_step_trans [OF c(1) S(2)]) auto
  then have m: "mem_step A s (insert a B) v {} (page_area H) {}" unfolding e by simp
  have wc: "sched_wf (tasks c) (current_task c) True" using w V by simp
  have kv: "kernel_page_directory v = kernel_page_directory s" using m by (simp add: mem_step_def)
  have F: "tasks_follow {next_task_id s} (kernel_page_directory s) (insert a B) (tasks s) (tasks v)"
    using create_follow [OF wc _ v(1), of "insert a A"] zero_space(1) [OF D(9)] nz V kv unfolding e by simp
  have F': "tasks_follow {next_task_id s} (kernel_page_directory s) B (tasks s) (tasks v)" by (rule tasks_follow_mono [OF F]) blast
  have ct: "current_task v = current_task s" using create_vars [OF v(1) sched_wfD(1) [OF wc]] V by (auto simp: sched_vars_def)
  have sp: "t_address_space (tasks v ! unat (current_task s)) = t_address_space (tasks s ! unat (current_task s))"
    using F' sched_wfD(2) [OF w] by (cases rule: tasks_followD) (use current_ready(2) [OF kernel_invD(1) [OF I]] in auto)
  show ?thesis
    unfolding thread_added_def
  proof (intro conjI m F' ct sp allI impI)
    show "sched_mem v (insert a B) H' L'" using S(1) unfolding e .
    show "H' \<subseteq> H \<union> managed s A" using S(5) c(2) by blast
    show "managed v (insert a B) \<union> H' = managed s A \<union> H" using S(4-6) c(2) unfolding e by blast
    show "boot_mods v = boot_mods s" "cr3 v = cr3 s" using S(7,8) mvarsD [OF kc(2)] by (simp_all add: boot_mods_def)
    show "a \<notin> B" using c(4) by (simp add: B_def)
    show "t_address_space (tasks v ! i) \<noteq> a" if "i < 16" for i using tasks_follow_space [OF F' that _ nz c(3)] n [OF that] by blast
  qed
qed

lemma spawn_thread_failed:
  fixes s v t :: "'a user_state_scheme"
  assumes M: "memory_map Z T s A H L" and l: "linked (tasks s) (next_task_id s) (processes s)"
    and added: "thread_added A H s a B H' L' v"
    and B: "B = A - dead_spaces s" "a \<notin> A"
    and t: "vm_same (vmm_destroy_address_space a v) t" "mvars t = mvars v" "tasks t = tasks v" "current_task t = current_task v" "processes t = processes s"
  shows "memory_map Z T t B H' L'" "mem_step A s B t {} (page_area H) {}"
proof -
  note D = memory_mapD [OF M] and v = thread_addedD [OF added]
  have sv: "spaces_ok v (insert a B)" "kernel_shared v (insert a B)" "heap_map v (insert a B) H' L'"
    and tv: "task_mem (tasks v) (kernel_page_directory v) (insert a B) L'" using v(2) by (simp_all add: sched_mem_def)
  have e: "insert a B - {a} = B" using v(7) by simp
  note X = destroy_step [OF sv(1) insertI1 sv(2), unfolded e]
  have mt: "mem_step (insert a B) v B t {} {} {}" by (rule mem_step_same [OF X(1) t(1)])
  have "mem_step A s B t ({} \<union> {}) (page_area H \<union> {}) ({} \<union> {})" by (rule mem_step_trans [OF v(1) mt]) blast
  then show m: "mem_step A s B t {} (page_area H) {}" by simp
  show "memory_map Z T t B H' L'"
  proof (rule memory_map_step [OF M m, where N = "{next_task_id s}"])
    have "heap_map t B H' L'" by (rule heap_still(1) [OF mt sv(3) mvarsD(1) [OF t(2)]])
    moreover have "kernel_shared t B" by (rule kernel_shared_step [OF mt sv(2)]) blast
    moreover have "task_mem (tasks t) (kernel_page_directory v) B L'" using task_mem_drop [OF tv v(9)] e t(3) by simp
    ultimately show "sched_mem t B H' L'" using mt by (simp add: sched_mem_def mem_step_def)
    have "managed t B = managed v (insert a B)" using X(2) vm_same_parts(2) [OF t(1)] by simp
    then show "pool t B H' (processes t) = T" using D(5) v(4) t(5) by (simp add: pool_def)
    show "B \<subseteq> A" "H' \<subseteq> H \<union> managed s A" using B(1) v(3) by blast+
    show "cr3 t = t_address_space (tasks t ! unat (current_task t))" using D(8) mvarsD(4) [OF t(2)] v(6,10,11) t(3,4) by simp
    show "tasks_follow {next_task_id s} (kernel_page_directory s) B (tasks s) (tasks t)" using v(8) t(3) by simp
    show "same_process (processes s ! i) (processes t ! i) \<and> p_task_id (processes s ! i) \<notin> {next_task_id s} \<and>
      p_address_space (processes s ! i) \<in> B - {} \<and> proc_pages (processes s ! i) \<inter> {} = {}" if "i < 16" "alive (processes t ! i)" for i
      using alive_not_dead [OF M that(1)] linkedD(2) [OF l that(1)] that t(5) B(1) by (auto simp: alive_def)
  qed (use t(5) in auto)
qed

lemma spawn_done:
  fixes s v t :: "'a user_state_scheme"
  assumes M: "memory_map Z T s A H L" and I: "kernel_inv s" and nz: "a \<noteq> 0"
    and added: "thread_added A H s a B H' L' v"
    and B: "B = A - dead_spaces s" "a \<notin> A" and j: "j < 16" "p_state (processes s ! j) = USER_PROCESS_FREE"
    and p: "p_state p = USER_PROCESS_CREATED" "p_task_id p = next_task_id s" "p_address_space p = a" "p_page_count p = 0" "length (p_pages p) = 16"
    and pd: "\<And>i. i < KERNEL_PDE_INDEX \<Longrightarrow> pd_entry v a i = 0" "\<And>w. pte v a w AND 5 \<noteq> 5"
    and t: "vm_same v t" "mvars t = mvars v" "tasks t = tasks v" "current_task t = current_task v" "processes t = (processes s)[j := p]"
  shows "memory_map Z T t (insert a B) H' L'" "mem_step A s (insert a B) t {} (page_area H) {}"
proof -
  let ?k = "kernel_page_directory s" and ?ps = "processes s"
  note D = memory_mapD [OF M] and v = thread_addedD [OF added]
  note W = proc_wfD [OF kernel_invD(4) [OF I]] and V = vm_same_parts [OF t(1)] and l = kernel_invD(5) [OF I]
  show m: "mem_step A s (insert a B) t {} (page_area H) {}" by (rule mem_step_same [OF v(1) t(1)])
  have k: "kernel_page_directory t = ?k" "in_bitmap t = in_bitmap s" "spaces_ok t (insert a B)" using m by (simp_all add: mem_step_def)
  have kv: "kernel_page_directory v = ?k" using v(1) by (simp add: mem_step_def)
  have zj: "\<not> alive (?ps ! j)" "?ps ! j = zero_process" "?ps[j := zero_process] = ?ps"
    using j(2) proc_okD(1) [OF W(2) [OF j(1)]] by (simp_all add: alive_def) (metis list_update_id)
  have ap: "alive p" "proc_pages p = {}" using p by (simp_all add: alive_def proc_pages_def page_frames_def)
  have kept: "same_process (?ps ! i) (?ps ! i) \<and> p_task_id (?ps ! i) \<notin> {next_task_id s} \<and> p_address_space (?ps ! i) \<in> B" if "i < 16" "alive (?ps ! i)" for i
    using alive_not_dead [OF M that] linkedD(2) [OF l that(1)] that B(1) by (auto simp: alive_def)
  have spv: "spaces_ok v (insert a B)" "heap_map v (insert a B) H' L'" "kernel_shared v (insert a B)" "task_mem (tasks v) ?k (insert a B) L'"
    using v(2) kv by (simp_all add: sched_mem_def)
  have mv: "mem_step (insert a B) v (insert a B) t {} {} {}" by (rule vm_same_step [OF spv(1) t(1)])
  have "sched_mem t (insert a B) H' L'"
    unfolding sched_mem_def k(1) using k(3) kernel_shared_step [OF mv spv(3)] heap_still(1) [OF mv spv(2) mvarsD(1) [OF t(2)]] spv(4) t(3) by simp
  moreover have "procs_mem t (insert a B) H' (processes t)"
    unfolding t(5)
  proof (rule procs_mem_add [OF _ W(1) j(1)])
    show "procs_mem t (insert a B) H' (?ps[j := zero_process])"
      unfolding zj(3) by (rule procs_mem_sub [OF D(2) m v(3)]) (use kept in \<open>auto simp: same_process_def\<close>)
    show "proc_mem t (insert a B) p" using p pd V(5,6) by (simp add: proc_mem_def pages_ok_def)
    show "proc_pages p \<inter> H' = {}" by (simp add: ap)
    show "p_address_space (?ps ! i) \<noteq> p_address_space p \<and> proc_pages (?ps ! i) \<inter> proc_pages p = {}" if "i < 16" "i \<noteq> j" "alive (?ps ! i)" for i
      using kept [OF that(1,3)] v(7) p(3) ap by auto
  qed
  moreover have "spaces_link ?k (tasks t) (processes t)"
    unfolding t(3,5)
  proof (rule link_spawn [OF _ v(8) W(1) j(1) p(1,2)])
    have za: "0 \<notin> A" "?k \<notin> A" using zero_space [OF D(9)] by simp_all
    show "spaces_link ?k (tasks v) ?ps" by (rule link_follow [OF D(3) v(8) za]) (use kept B(1) in auto)
    show "t_address_space (tasks v ! i) \<noteq> p_address_space p" if "i < 16" for i using v(9) [OF that] p(3) by simp
    show "t_id (tasks s ! i) \<noteq> next_task_id s" if "i < 16" "ready (tasks s) i" for i using kernel_invD(3) [OF I] that unfolding ids_ok_def by fastforce
  qed
  moreover have "spaces_held (insert a B) (tasks t) (processes t)"
  proof -
    have "spaces_held B (tasks v) ?ps" by (rule held_follow [OF D(4) v(8)]) (use B(1) in auto)
    then show ?thesis using held_insert [OF _ W(1) j(1) ap(1) zj(1), of B] p(3) t(3,5) by simp
  qed
  moreover have "pool t (insert a B) H' (processes t) = T"
    using D(5) v(4) V(2) all_pages_update [OF W(1) j(1), of p] ap zj(3) t(5) by (simp add: pool_def)
  moreover have "kernel_private t" by (rule kernel_private_step [OF D(6) m]) simp
  moreover have "fixed_area Z T t" by (rule fixed_area_step [OF D(7) k(2)])
  moreover have "cr3 t = t_address_space (tasks t ! unat (current_task t))" using D(8) mvarsD(4) [OF t(2)] v(6,10,11) t(3,4) by simp
  ultimately show "memory_map Z T t (insert a B) H' L'" unfolding memory_map_def k(1) by (intro conjI)
qed

section \<open>Spawn\<close>

text \<open>Other processes keep their slots and spaces.\<close>

definition others_keep :: "'a user_state_scheme \<Rightarrow> u32 set \<Rightarrow> 'a user_state_scheme \<Rightarrow> bool" where
  "others_keep s B t \<longleftrightarrow> (\<forall>i < 16. alive (processes s ! i) \<longrightarrow> processes t ! i = processes s ! i \<and> p_address_space (processes s ! i) \<in> B)"

lemma others_keepI:
  fixes s t :: "'a user_state_scheme"
  assumes M: "memory_map Z T s A H L" and B: "B = A \<or> A - dead_spaces s \<subseteq> B" and z: "\<not> alive (processes s ! j)" and p: "processes t = (processes s)[j := x]"
  shows "others_keep s B t"
  unfolding others_keep_def
proof (intro allI impI conjI)
  fix i assume i: "i < 16" "alive (processes s ! i)"
  show "processes t ! i = processes s ! i" using i(2) z p by (cases "i = j") auto
  show "p_address_space (processes s ! i) \<in> B" using alive_not_dead [OF M i] B by blast
qed

lemma spawn_fail_vars:
  fixes x :: "'a user_state_scheme"
  shows "mvars (spawn_fail j x) = mvars x" "tasks (spawn_fail j x) = tasks x" "current_task (spawn_fail j x) = current_task x"
    "processes (spawn_fail j x) = (processes x)[unat j := zero_process]"
  using spawn_fail_kvars [of j x] by (simp_all add: kvars_def spawn_fail_def user_process_release_def)

text \<open>
  The call when the file is there and slot \<open>j\<close> is free: \<open>w\<close> is the state after the address space was
  asked for, \<open>a\<close> the answer.
\<close>

definition spawning :: "linker_symbols \<Rightarrow> u8 list \<Rightarrow> u32 \<Rightarrow> u32 \<Rightarrow> 'a user_state_scheme \<Rightarrow> 'a user_state_scheme \<Rightarrow> bool" where
  "spawning lk cs j a s w \<longleftrightarrow> unat j < 16 \<and> p_state (processes s ! unat j) = USER_PROCESS_FREE \<and> mvars w = mvars s \<and>
     kvars w = (tasks s, current_task s, next_task_id s, (processes s)[unat j := new_process s cs a], next_pid s + 1) \<and>
     user_spawn lk (Some cs) s =
       (if a = 0 then Some (- 1, spawn_fail j w)
        else Option.bind (kthread_create lk (Some (KFun ''user_exec_task'')) w) (\<lambda>(n, s).
          if n < 0 then Some (- 1, spawn_fail j s)
          else let t = keyboard_buffer_clear (set_proc j (\<lambda>p. p\<lparr>p_task_id := word_of_int n\<rparr>) s)
               in Some (sint (p_pid (proc_at j t)), t)))"

lemma spawn_spawning:
  fixes s :: "'a user_state_scheme"
  assumes M: "memory_map Z T s A H L" and I: "kernel_inv s" and c: "0 < length cs" "length cs < 32" "initramfs_find (Some cs) s \<noteq> None"
    and j: "first_u32 0 USER_PROCESS_MAX (\<lambda>i. p_state (proc_at i s) = USER_PROCESS_FREE) = Some j"
  obtains a w where "spawning lk cs j a s w" "a = 0 \<Longrightarrow> mem_step A s A w {} {} {} \<and> managed w A = managed s A"
    and "a \<noteq> 0 \<Longrightarrow> mem_step A s (insert a A) w {} {} {} \<and> managed w (insert a A) = managed s A \<and> a \<noteq> kernel_page_directory s \<and> a \<notin> A \<and>
      sched_mem w (insert a A) H L \<and> (\<forall>i < KERNEL_PDE_INDEX. pd_entry w a i = 0) \<and> (\<forall>x. pte w a x AND 5 \<noteq> 5)"
proof -
  note W = proc_wfD [OF kernel_invD(4) [OF I]]
  note J = spawn_slot_kvars [OF W(1) j]
  obtain a b where ab: "vmm_create_address_space (spawn_slot j cs s) = (a, b)" by (cases "vmm_create_address_space (spawn_slot j cs s)")
  let ?w = "set_proc j (\<lambda>p. p\<lparr>p_address_space := a\<rparr>) b"
  note S = spawn_space [OF M I j ab] and E = spawn_eq [OF c j ab, of lk]
  have "p_address_space (proc_at j ?w) = a" using S(1) J(1) W(1) by (simp add: kvars_def proc_at_def new_process_def)
  then have "spawning lk cs j a s ?w" unfolding spawning_def using J(1,2) S(1,2) E by simp
  then show ?thesis using that S(3,4) by blast
qed

lemma spawning_no_space:
  fixes s w :: "'a user_state_scheme"
  assumes M: "memory_map Z T s A H L" and I: "kernel_inv s" and S: "spawning lk cs j 0 s w" and m: "mem_step A s A w {} {} {}" "managed w A = managed s A"
  shows "\<exists>t. user_spawn lk (Some cs) s = Some (- 1, t) \<and> memory_map Z T t A H L \<and> mem_step A s A t {} (page_area H) {} \<and> others_keep s A t"
proof -
  note S = S [unfolded spawning_def] and W = proc_wfD [OF kernel_invD(4) [OF I]]
  have j: "unat j < 16" "p_state (processes s ! unat j) = USER_PROCESS_FREE" "mvars w = mvars s" using S by blast+
  have w: "tasks w = tasks s" "current_task w = current_task s" "processes w = (processes s)[unat j := new_process s cs 0]" using S by (simp_all add: kvars_def)
  define t where "t = spawn_fail j w"
  note F = spawn_fail_vars [where j = j and x = w, folded t_def]
  have z: "(processes s)[unat j := zero_process] = processes s" using proc_okD(1) [OF W(2) [OF j(1)] j(2)] by (metis list_update_id)
  have "p_address_space (proc_at j w) = 0" using w(3) j(1) W(1) by (simp add: proc_at_def new_process_def)
  then have "vm_same w t" by (simp add: t_def spawn_fail_def release_vm)
  moreover have pt: "processes t = processes s" using F(4) w(3) z by simp
  ultimately have T: "memory_map Z T t A H L" "mem_step A s A t {} {} {}" using spawn_no_space [OF M m j(3), of t] F w(1,2) by simp_all
  moreover have "mem_step A s A t {} (page_area H) {}" by (rule mem_step_mono [OF T(2)]) auto
  moreover have "others_keep s A t" by (rule others_keepI [OF M, of _ "unat j" _ zero_process]) (use pt z j(2) in \<open>auto simp: alive_def\<close>)
  moreover have "user_spawn lk (Some cs) s = Some (- 1, t)" using S by (simp add: t_def)
  ultimately show ?thesis by blast
qed

lemma spawning_thread:
  fixes s w :: "'a user_state_scheme"
  assumes M: "memory_map Z T s A H L" and I: "kernel_inv s" and S: "spawning lk cs j a s w" and nz: "a \<noteq> 0"
    and C: "mem_step A s (insert a A) w {} {} {}" "managed w (insert a A) = managed s A" "a \<noteq> kernel_page_directory s" "a \<notin> A" "sched_mem w (insert a A) H L"
      "\<And>i. i < KERNEL_PDE_INDEX \<Longrightarrow> pd_entry w a i = 0" "\<And>x. pte w a x AND 5 \<noteq> 5"
  shows "\<exists>r t B H' L'. user_spawn lk (Some cs) s = Some (r, t) \<and> memory_map Z T t B H' L' \<and> mem_step A s B t {} (page_area H) {} \<and> others_keep s B t"
proof -
  let ?ps = "processes s" and ?B = "A - dead_spaces s"
  note D = memory_mapD [OF M] and W = proc_wfD [OF kernel_invD(4) [OF I]] and S = S [unfolded spawning_def]
  have j: "unat j < 16" "p_state (?ps ! unat j) = USER_PROCESS_FREE" "mvars w = mvars s" "\<not> alive (?ps ! unat j)" using S by (auto simp: alive_def)
  have sw: "sched_vars w = sched_vars s" "processes w = ?ps[unat j := new_process s cs a]" using S by (simp_all add: kvars_def sched_vars_def)
  have ow: "sched_ok w" using kernel_invD(2) [OF I] sched_varsD [OF sw(1)] by simp
  obtain n v H' L' where v: "kthread_create lk (Some (KFun ''user_exec_task'')) w = Some (n, v)" "heap_step (insert a A) H w (insert a A - dead_spaces w) H' L' v"
    using kthread_create_step [OF C(5) ow] by blast
  note added = spawn_thread_step [OF M I nz C(1-4) sw(1) j(3) v]
  have uv: "processes v = ?ps[unat j := new_process s cs a]" using sched_more_user [OF create_more [OF v(1)]] sw(2) by (simp add: user_vars_def)
  show ?thesis
  proof (cases "n < 0")
    case True
    define t where "t = spawn_fail j v"
    note F = spawn_fail_vars [where j = j and x = v, folded t_def]
    have r: "user_spawn lk (Some cs) s = Some (- 1, t)" using S nz v(1) True by (simp add: t_def)
    have "p_address_space (proc_at j v) = a" using uv j(1) W(1) by (simp add: proc_at_def new_process_def)
    then have vt: "vm_same (vmm_destroy_address_space a v) t" using nz by (simp add: t_def spawn_fail_def release_vm)
    have pt: "processes t = ?ps[unat j := zero_process]" "processes t = ?ps"
      using F(4) uv proc_okD(1) [OF W(2) [OF j(1)] j(2)] by (simp_all) (metis list_update_id)
    show ?thesis
      using r spawn_thread_failed [OF M kernel_invD(5) [OF I] added refl C(4) vt F(1-3) pt(2)] others_keepI [OF M _ j(4) pt(1), of ?B] by blast
  next
    case False
    let ?p = "(new_process s cs a)\<lparr>p_task_id := next_task_id s\<rparr>"
    define t where "t = keyboard_buffer_clear (set_proc j (\<lambda>p. p\<lparr>p_task_id := word_of_int n\<rparr>) v)"
    have r: "user_spawn lk (Some cs) s = Some (sint (p_pid (proc_at j t)), t)" using S nz v(1) False by (simp add: t_def Let_def)
    have n: "word_of_int n = next_task_id s" using create_id(1) [OF v(1) ow False] sched_varsD [OF sw(1)] by simp
    have t: "vm_same v t" "mvars t = mvars v" "tasks t = tasks v" "current_task t = current_task v"
      by (simp_all add: t_def keyboard_buffer_clear_def set_proc_def vm_same_def pmm_same_def mvars_def)
    have pt: "processes t = ?ps[unat j := ?p]" using uv j(1) W(1) n by (simp add: t_def keyboard_buffer_clear_def set_proc_def)
    have "a \<in> insert a A - dead_spaces w - {}"
      using task_mem_insert(2) [of "tasks s" "kernel_page_directory s" A L a] D(1) nz C(3,4) sched_varsD [OF sw(1)] by (auto simp: dead_spaces_def sched_mem_def)
    note X = mem_step_dirs [OF heap_stepD(2) [OF v(2)] insertI1 this]
    have pd: "\<And>i. i < KERNEL_PDE_INDEX \<Longrightarrow> pd_entry v a i = 0" "\<And>x. pte v a x AND 5 \<noteq> 5" using X C(6,7) by simp_all
    have p: "p_state ?p = USER_PROCESS_CREATED" "p_task_id ?p = next_task_id s" "p_address_space ?p = a" "p_page_count ?p = 0" "length (p_pages ?p) = 16"
      by (simp_all add: new_process_def zero_process_def)
    show ?thesis
      using r spawn_done [OF M I nz added refl C(4) j(1,2) p pd t pt] others_keepI [OF M _ j(4) pt, of "insert a ?B"] by blast
  qed
qed

lemma spawn_map:
  fixes s :: "'a user_state_scheme"
  assumes M: "memory_map Z T s A H L" and I: "kernel_inv s"
  shows "\<exists>r t B H' L'. user_spawn lk path s = Some (r, t) \<and> memory_map Z T t B H' L' \<and> mem_step A s B t {} (page_area H) {} \<and> others_keep s B t"
proof (cases "\<exists>cs j. path = Some cs \<and> 0 < length cs \<and> length cs < 32 \<and> initramfs_find (Some cs) s \<noteq> None \<and>
    first_u32 0 USER_PROCESS_MAX (\<lambda>i. p_state (proc_at i s) = USER_PROCESS_FREE) = Some j")
  case False
  note D = memory_mapD [OF M]
  have "user_spawn lk path s = Some (- 1, s)" using False by (intro spawn_early) blast
  moreover have "others_keep s A s" using proc_memD(1) [OF procs_memD(1) [OF D(2)]] by (simp add: others_keep_def)
  ultimately show ?thesis using M mem_step_refl [OF D(9)] by blast
next
  case True
  then obtain cs j where c: "path = Some cs" "0 < length cs" "length cs < 32" "initramfs_find (Some cs) s \<noteq> None"
    and j: "first_u32 0 USER_PROCESS_MAX (\<lambda>i. p_state (proc_at i s) = USER_PROCESS_FREE) = Some j" by blast
  obtain a w where S: "spawning lk cs j a s w" and z: "a = 0 \<Longrightarrow> mem_step A s A w {} {} {} \<and> managed w A = managed s A"
    and nz: "a \<noteq> 0 \<Longrightarrow> mem_step A s (insert a A) w {} {} {} \<and> managed w (insert a A) = managed s A \<and> a \<noteq> kernel_page_directory s \<and> a \<notin> A \<and>
      sched_mem w (insert a A) H L \<and> (\<forall>i < KERNEL_PDE_INDEX. pd_entry w a i = 0) \<and> (\<forall>x. pte w a x AND 5 \<noteq> 5)"
    by (rule spawn_spawning [OF M I c(2-4) j, of lk]) (rule that; assumption)
  show ?thesis
  proof (cases "a = 0")
    case True
    then show ?thesis using spawning_no_space [OF M I S [unfolded True]] z c(1) by blast
  next
    case False
    then show ?thesis using spawning_thread [OF M I S False] nz [OF False] c(1) by blast
  qed
qed

end
