(* ===== verification/ProcessRun.thy ===== *)
theory ProcessRun
  imports ProcessSpawn
begin

text \<open>
  The machine as a whole: the kernel's operations and the stores of programs, interleaved.  Every
  process has its memory to itself.
\<close>

section \<open>What a process sees\<close>

text \<open>The byte that ring 3 reads at \<open>v\<close> when the address space \<open>a\<close> is loaded.\<close>

definition process_view :: "'a user_state_scheme \<Rightarrow> u32 \<Rightarrow> u32 \<Rightarrow> u8 option" where
  "process_view s a v = user_load v (s\<lparr>cr3 := a\<rparr>)"

lemma user_page:
  assumes "data_ok s A (tbl e)"
  shows "frame (vmm_phys_to_virt (tbl e OR (v AND 0xfff))) = frame (vmm_phys_to_virt (tbl e))"
proof -
  have al: "page_aligned (tbl e)" "vmm_phys_to_virt (tbl e) \<noteq> 0" using data_okD(1,2) [OF assms] .
  have o: "v AND 0xfff < 4096" using word_and_le1 [of v "0xfff"] by (simp add: word_le_nat_alt word_less_nat_alt)
  show ?thesis
    using virt_offset [OF al o] page_offset(1) [OF al(1) o] page_offset(3) [OF _ o, of "vmm_phys_to_virt (tbl e)"] al page_aligned_virt [OF al(2)] by simp
qed

lemma view_eq:
  "process_view s a v =
     (if pd_entry s a (VMM_PDE_INDEX v) AND 5 \<noteq> 5 \<or> pte s a v AND 5 \<noteq> 5 \<or> vmm_phys_to_virt (tbl (pte s a v) OR (v AND 0xfff)) = 0 then None
      else Some (kmem s (vmm_phys_to_virt (tbl (pte s a v) OR (v AND 0xfff)))))"
  by (simp add: process_view_def user_load_def user_translate_pte Let_def pte_def pd_entry_def arr_def)

lemma view_step:
  fixes s t :: "'a user_state_scheme"
  assumes m: "mem_step A s B t K U E" and p: "proc_mem s A p" and k: "p_address_space p \<in> B - E" "page_area (proc_pages p) \<inter> U = {}"
  shows "process_view t (p_address_space p) v = process_view s (p_address_space p) v"
proof -
  let ?a = "p_address_space p" and ?x = "vmm_phys_to_virt (tbl (pte s (p_address_space p) v) OR (v AND 0xfff))"
  note P = proc_memD [OF p] and X = mem_step_dirs [OF m proc_memD(1) [OF p] k(1)]
  have "kmem t ?x = kmem s ?x" if "pte s ?a v AND 5 = 5"
  proof -
    note q = P(5) [OF that] and d = P(3) [OF P(5) [OF that]]
    have f: "frame ?x = frame (vmm_phys_to_virt (tbl (pte s ?a v)))" by (rule user_page [OF d])
    then have "?x \<in> page_area (proc_pages p)" using q by (auto simp: page_area_def)
    then show ?thesis using data_stable [OF d f] m k(2) unfolding mem_step_def by blast
  qed
  then show ?thesis unfolding view_eq X(1) X(3) [OF index_less(1)] by simp
qed

text \<open>A process that goes on as if nothing had happened.\<close>

definition process_kept :: "nat \<Rightarrow> 'a user_state_scheme \<Rightarrow> 'a user_state_scheme \<Rightarrow> bool" where
  "process_kept i s t \<longleftrightarrow> same_process (processes s ! i) (processes t ! i) \<and>
     (\<forall>v. process_view t (p_address_space (processes s ! i)) v = process_view s (p_address_space (processes s ! i)) v)"

lemma process_kept_trans: "process_kept i s t \<Longrightarrow> process_kept i t u \<Longrightarrow> process_kept i s u"
  by (simp add: process_kept_def same_process_def same_pages_def)

lemma process_kept_quiet:
  assumes "vm_same s t" "processes t = processes s"
  shows "process_kept i s t"
  using assms vm_same_parts [OF assms(1)] by (simp add: process_kept_def view_eq)

lemma process_kept_refl: "process_kept i s s"
  by (rule process_kept_quiet) (simp_all add: vm_same_refl)

lemma kept_step:
  fixes s t :: "'a user_state_scheme"
  assumes M: "memory_map Z T s A H L" and m: "mem_step A s B t K U E" and i: "i < 16" "alive (processes s ! i)"
    and k: "same_process (processes s ! i) (processes t ! i)"
    and U: "U \<subseteq> page_area (H \<union> Q) \<union> Z" "Q \<subseteq> all_pages (processes s)" "proc_pages (processes s ! i) \<inter> Q = {}"
    and E: "p_address_space (processes s ! i) \<in> B - E"
  shows "process_kept i s t"
proof -
  note D = memory_mapD [OF M]
  note P = procs_memD(1,2) [OF D(2) i]
  have d: "data_ok s A q" if "q \<in> H \<union> Q" for q using that D(11) U(2) all_pages_data(1) [OF D(2)] by (auto simp: heap_map_def)
  have "page_area (proc_pages (processes s ! i)) \<inter> page_area (H \<union> Q) = {}"
    by (rule page_area_data [OF proc_memD(3) [OF P(1)] d]) (use P(2) U(3) in auto)
  moreover have "page_area (proc_pages (processes s ! i)) \<inter> Z = {}"
    using fixed_stable(3) [OF M D(7)] all_pagesI [OF i] unfolding page_area_def by blast
  ultimately have "page_area (proc_pages (processes s ! i)) \<inter> U = {}" using U(1) by blast
  then show ?thesis using view_step [OF m P(1) E] k by (simp add: process_kept_def)
qed

section \<open>Stores\<close>

text \<open>Writes to bytes that nobody manages, in the heap or elsewhere.\<close>

lemma write_map:
  fixes s t :: "'a user_state_scheme"
  assumes M: "memory_map Z T s A H L" and m: "mem_step A s A u {} U {}" "heap_map u A H L" "managed u A = managed s A" "heap_list u = heap_list s"
    and t: "vm_same u t" "kvars t = kvars s" "heap_list t = heap_list s" "cr3 t = cr3 s"
  shows "memory_map Z T t A H L" "mem_step A s A t {} U {}"
proof -
  note D = memory_mapD [OF M] and K = kvarsD [OF t(2)]
  show mt: "mem_step A s A t {} U {}" by (rule mem_step_same [OF m(1) t(1)])
  have spu: "spaces_ok u A" using m(1) by (simp add: mem_step_def)
  have ht: "heap_map t A H L" by (rule heap_still(1) [OF vm_same_step [OF spu t(1)] m(2)]) (simp add: t(3) m(4))
  show "memory_map Z T t A H L"
  proof (rule memory_map_step [OF M mt, where N = "{}"])
    show "sched_mem t A H L" using ht D(1) mt kernel_shared_step [OF mt D(10)] K(1) by (simp add: sched_mem_def mem_step_def)
    show "pool t A H (processes t) = T" using D(5) m(3) vm_same_parts(2) [OF t(1)] K(4) by (simp add: pool_def)
    show "cr3 t = t_address_space (tasks t ! unat (current_task t))" using D(8) t(4) K(1,2) by simp
    show "same_process (processes s ! i) (processes t ! i) \<and> p_task_id (processes s ! i) \<notin> {} \<and> p_address_space (processes s ! i) \<in> A - {} \<and>
      proc_pages (processes s ! i) \<inter> {} = {}" if "i < 16" "alive (processes t ! i)" for i
      using that K(4) proc_memD(1) [OF procs_memD(1) [OF D(2) that(1)]] by simp
  qed (use K(1,4) in auto)
qed

text \<open>A store of the program that has the processor.\<close>

lemma store_map:
  fixes s :: "'a user_state_scheme"
  assumes M: "memory_map Z T s A H L" and I: "kernel_inv s"
    and f: "user_process_find_by_task_id (sched_current_task_id s) s = Some j" and r: "p_state (proc_at j s) = USER_PROCESS_RUNNING"
    and w: "user_store v b s = Some t"
  shows "memory_map Z T t A H L" "mem_step A s A t {} (page_area (proc_pages (proc_at j s))) {}" "kvars t = kvars s"
proof -
  let ?p = "processes s ! unat j" and ?e = "pte s (cr3 s) v"
  note D = memory_mapD [OF M] and C = current_alive [OF M I f r]
  note Q = procs_memD [OF D(2) C(1,2)]
  note P = proc_memD [OF Q(1)]
  define x where "x = vmm_phys_to_virt (tbl ?e OR (v AND 0xfff))"
  have tr: "?e AND 7 = 7" "t = s\<lparr>kmem := (kmem s)(x := b)\<rparr>"
    using w by (auto simp: user_store_def user_translate_pte Let_def x_def split: if_splits)
  have "tbl ?e \<in> proc_pages ?p" using P(5) [of v] read_rights [OF tr(1)] C(4) by simp
  then have q: "tbl ?e \<in> proc_pages ?p" "data_ok s A (tbl ?e)" using P(3) by blast+
  have fx: "frame x = frame (vmm_phys_to_virt (tbl ?e))" unfolding x_def by (rule user_page [OF q(2)])
  let ?U = "page_area (proc_pages ?p)"
  have xU: "x \<in> ?U" using fx q(1) by (auto simp: page_area_def)
  have st: "\<And>y. y \<in> ?U \<Longrightarrow> stable s A y" by (auto simp: page_area_def intro: data_stable [OF P(3)])
  have out: "\<And>y. y \<notin> ?U \<Longrightarrow> ((kmem s)(x := b)) y = kmem s y" using xU by auto
  note S = store_step [OF D(9) st out, folded tr(2)]
  have "\<And>y. y \<in> H \<Longrightarrow> data_ok s A y" using D(11) by (simp add: heap_map_def)
  note ar = page_area_data [OF P(3) this Q(2)]
  have h: "heap_map t A H L" by (rule heap_map_kept(1) [OF S(1) D(11) _ ar]) (simp_all add: tr(2))
  have "vm_same t t" "heap_list t = heap_list s" "cr3 t = cr3 s" by (simp_all add: vm_same_refl tr(2))
  moreover show k: "kvars t = kvars s" by (simp add: tr(2) kvars_def)
  ultimately show "memory_map Z T t A H L" using write_map(1) [OF M S(1) h S(3)] by blast
  show "mem_step A s A t {} (page_area (proc_pages (proc_at j s))) {}" using S(1) by (simp add: proc_at_def)
qed

text \<open>Kernel code at work on the stack of its task.\<close>

lemma work_map:
  fixes s t :: "'a user_state_scheme"
  assumes M: "memory_map Z T s A H L" and I: "kernel_inv s"
    and t: "vm_same (s\<lparr>kmem := kmem t\<rparr>) t" "kvars t = kvars s" "heap_list t = heap_list s" "cr3 t = cr3 s"
    and out: "\<And>x. x \<notin> stack_area Z s \<Longrightarrow> kmem t x = kmem s x"
  shows "memory_map Z T t A H L" "mem_step A s A t {} (page_area H \<union> Z) {}"
proof -
  note D = memory_mapD [OF M] and W = sched_wfD [OF kernel_invD(2) [OF I]]
  have "t_stack (tasks s ! unat (current_task s)) \<noteq> 0" if "current_task s \<noteq> 0"
    using W(7) [OF W(2)] W(3) [OF W(2)] that by (simp add: unat_gt_0)
  note S = save_frame_step [OF D(1) boot_stack_fixed [OF M] this W(2) out]
  show "memory_map Z T t A H L" "mem_step A s A t {} (page_area H \<union> Z) {}" using write_map [OF M S(1-3) _ t] by simp_all
qed

section \<open>Waiting\<close>

text \<open>The wait loop ends in its first round or not at all when nobody else runs.\<close>

lemma wait_loop_cases:
  fixes s :: "'a user_state_scheme"
  assumes "user_wait_loop (\<lambda>_. None) pid caller s = Some r"
  shows "r = (- 1, s) \<or> (\<exists>child. user_process_find_by_pid pid s = Some child \<and> p_state (proc_at child s) = USER_PROCESS_EXITED \<and>
    r = (sint (p_exit_status (proc_at child s)), user_process_release (Some child) s))"
proof -
  let ?ends = "\<lambda>pid caller (s :: 'a user_state_scheme). \<forall>child. user_process_find_by_pid pid s = Some child \<longrightarrow>
      p_parent_pid (proc_at child s) \<noteq> p_pid (proc_at caller s) \<or> p_state (proc_at child s) = USER_PROCESS_EXITED"
  have "others = (\<lambda>_. None) \<longrightarrow> ?ends pid caller s" if "user_wait_loop others pid caller s = Some r" for others
  proof (rule user_wait_loop.raw_induct [OF _ that], intro impI allI)
    fix loop others pid caller and s :: "'a user_state_scheme" and r child
    assume IH: "\<And>others pid caller s r. loop others pid caller s = Some r \<Longrightarrow> others = (\<lambda>_. None) \<longrightarrow> ?ends pid caller s"
      and run: "(case user_process_find_by_pid pid s of
        None \<Rightarrow> Some (- 1, s)
      | Some child \<Rightarrow>
          if p_parent_pid (proc_at child s) \<noteq> p_pid (proc_at caller s) then Some (- 1, s)
          else if p_state (proc_at child s) = USER_PROCESS_EXITED
          then Some (sint (p_exit_status (proc_at child s)), user_process_release (Some child) s)
          else Option.bind (yield_through others s) (loop others pid caller)) = Some r"
      and o: "others = (\<lambda>_. None)" and c: "user_process_find_by_pid pid s = Some child"
    show "p_parent_pid (proc_at child s) \<noteq> p_pid (proc_at caller s) \<or> p_state (proc_at child s) = USER_PROCESS_EXITED"
    proof (rule ccontr)
      assume n: "\<not> ?thesis"
      then obtain u where u: "sched_yield s = Some (False, u)" "loop others pid caller u = Some r"
        using run c o by (auto simp: yield_through_def Option.bind_eq_Some_conv split: if_splits)
      have "processes u = processes s" using sched_more_user [OF yield_more [OF u(1)]] by (simp add: user_vars_def)
      then have "proc_at k u = proc_at k s" "user_process_find_by_pid pid u = user_process_find_by_pid pid s" for k
        by (simp_all add: proc_at_def user_process_find_by_pid_def)
      then show False using IH [OF u(2)] o c n by simp
    qed
  qed
  then have "?ends pid caller s" using assms by blast
  then show ?thesis using assms by (subst (asm) user_wait_loop.simps) (auto split: option.splits if_splits)
qed

lemma release_map:
  fixes s :: "'a user_state_scheme"
  assumes M: "memory_map Z T s A H L" and j: "\<not> alive (proc_at j s)"
  defines "t \<equiv> user_process_release (Some j) s"
  shows "memory_map Z T t A H L" "i < 16 \<Longrightarrow> alive (processes s ! i) \<Longrightarrow> processes t ! i = processes s ! i" "vm_same s t"
proof -
  note D = memory_mapD [OF M]
  have t: "tasks t = tasks s" "current_task t = current_task s" "processes t = (processes s)[unat j := zero_process]" "mvars t = mvars s"
    by (simp_all add: t_def user_process_release_def set_proc_def mvars_def)
  show v: "vm_same s t" unfolding t_def by (rule release_vm)
  have z: "\<not> alive zero_process" by (simp add: alive_def zero_process_def)
  have at: "alive (processes t ! i) = alive (processes s ! i)" for i
    using j z t(3) by (cases "i = unat j"; cases "i < length (processes s)") (simp_all add: proc_at_def list_update_beyond)
  show same: "processes t ! i = processes s ! i" if "i < 16" "alive (processes s ! i)" for i
    using that j t(3) by (cases "i = unat j") (simp_all add: proc_at_def)
  have m: "mem_step A s A t {} {} {}" by (rule vm_same_step [OF D(9) v])
  show "memory_map Z T t A H L"
  proof (rule memory_map_step [OF M m, where N = "{}"])
    have "heap_map t A H L" by (rule heap_still(1) [OF m D(11) mvarsD(1) [OF t(4)]])
    then show "sched_mem t A H L" using D(1) m kernel_shared_step [OF m D(10)] t(1) by (simp add: sched_mem_def mem_step_def)
    have "all_pages (processes t) = all_pages (processes s)" by (rule all_pages_same) (use at same in auto)
    then show "pool t A H (processes t) = T" using D(5) vm_same_parts(2) [OF v] by (simp add: pool_def)
    show "cr3 t = t_address_space (tasks t ! unat (current_task t))" using D(8) mvarsD(4) [OF t(4)] t by simp
    show "same_process (processes s ! i) (processes t ! i) \<and> p_task_id (processes s ! i) \<notin> {} \<and> p_address_space (processes s ! i) \<in> A - {} \<and>
      proc_pages (processes s ! i) \<inter> {} = {}" if "i < 16" "alive (processes t ! i)" for i
      using that at same proc_memD(1) [OF procs_memD(1) [OF D(2) that(1)]] by simp
  qed (use t(1) at in auto)
qed

lemma wait_cases:
  assumes "user_wait (\<lambda>_. None) pid s = Some (r, t)"
  shows "t = s \<or> (\<exists>child. user_process_find_by_pid pid s = Some child \<and> p_state (proc_at child s) = USER_PROCESS_EXITED \<and> t = user_process_release (Some child) s)"
  using assms wait_loop_cases [of pid _ s "(r, t)"] by (auto simp: user_wait_def split: option.splits)

section \<open>Processes that do not run\<close>

definition waiting :: "nat \<Rightarrow> 'a user_state_scheme \<Rightarrow> bool" where
  "waiting i s \<longleftrightarrow> i < 16 \<and> alive (processes s ! i) \<and> p_task_id (processes s ! i) \<noteq> sched_current_task_id s"

lemma switch_kept:
  fixes s t :: "'a user_state_scheme"
  assumes M: "memory_map Z T s A H L" and S: "switch_step A H Z s L' t" and p: "processes t = processes s" and i: "i < 16" "alive (processes s ! i)"
  shows "process_kept i s t"
proof -
  have m: "mem_step A s (A - dead_spaces s) t {} (page_area H \<union> Z) {}" using S by (simp add: switch_step_def)
  show ?thesis by (rule kept_step [OF M m i, where Q = "{}"]) (use p alive_not_dead [OF M i] in auto)
qed

lemma leaves_kept:
  fixes s :: "'a user_state_scheme"
  assumes M: "memory_map Z T s A H L" and l: "leaves Z s" "current_task s \<noteq> 0" and e: "kthread_exit s = Some (Goes t)"
  shows "\<exists>B L'. memory_map Z T t B H L'" "i < 16 \<Longrightarrow> alive (processes s ! i) \<Longrightarrow> process_kept i s t"
proof -
  obtain z L' where z: "vm_same s z" "processes z = processes s" "memory_map Z T z A H L"
      "switch_step A H Z z L' t" "memory_map Z T t (A - dead_spaces z) H L'" "processes t = processes s"
    using thread_exit_map [OF M l] e by (metis option.inject progress.inject(1))
  show "\<exists>B L'. memory_map Z T t B H L'" using z(5) by blast
  show "process_kept i s t" if "i < 16" "alive (processes s ! i)"
    by (rule process_kept_trans [OF process_kept_quiet [OF z(1,2)] switch_kept [OF z(3,4)]]) (use that z(2,6) in auto)
qed

lemma exit_kept:
  fixes s :: "'a user_state_scheme"
  assumes M: "memory_map Z T s A H L" and I: "kernel_inv s" and r: "process_state_is USER_PROCESS_RUNNING s"
  shows "memory_map Z T (user_exit_current status s) A H L" "waiting i s \<Longrightarrow> process_kept i s (user_exit_current status s)"
    and "i < 16 \<Longrightarrow> alive (processes (user_exit_current status s) ! i) \<Longrightarrow> waiting i s \<and> p_task_id (processes (user_exit_current status s) ! i) \<noteq> sched_current_task_id s"
    and "sched_vars (user_exit_current status s) = sched_vars s"
proof -
  define u where "u = user_exit_current status s"
  have "memory_map Z T u A H L \<and> (\<forall>i. waiting i s \<longrightarrow> process_kept i s u) \<and>
    (\<forall>i < 16. alive (processes u ! i) \<longrightarrow> waiting i s \<and> p_task_id (processes u ! i) \<noteq> sched_current_task_id s) \<and> sched_vars u = sched_vars s"
  proof (cases "user_process_find_by_task_id (sched_current_task_id s) s")
    case None
    then have "u = s" by (simp add: u_def user_exit_current_def)
    then show ?thesis using M find_by_task_None [OF None] process_kept_refl by (auto simp: alive_def waiting_def)
  next
    case (Some j)
    have rj: "p_state (proc_at j s) = USER_PROCESS_RUNNING" using r Some by (simp add: process_state_is_def)
    note R = released_map [OF M I Some rj, where status = status, folded u_def] and C = current_alive [OF M I Some rj]
    note Q = procs_memD [OF memory_mapD(2) [OF M] C(1,2)]
    have n: "i \<noteq> unat j" if "waiting i s" for i using current_process(3) [OF I Some] that by (auto simp: waiting_def)
    have "process_kept i s u" if w: "waiting i s" for i
    proof -
      have i: "i < 16" "alive (processes s ! i)" using w by (simp_all add: waiting_def)
      note P = Q(3,4) [OF i(1) n [OF w] i(2)]
      show ?thesis
      proof (rule kept_step [OF M R(2) i, where Q = "proc_pages (processes s ! unat j)"])
        show "same_process (processes s ! i) (processes u ! i)" by (rule R(7) [OF i(1) n [OF w] i(2)])
        show "proc_pages (processes s ! unat j) \<subseteq> all_pages (processes s)" using all_pagesI [OF C(1,2)] by blast
        show "p_address_space (processes s ! i) \<in> A - {cr3 s}"
          using P(1) C(4) proc_memD(1) [OF procs_memD(1) [OF memory_mapD(2) [OF M] i]] by auto
        show "page_area (proc_pages (proc_at j s)) \<subseteq> page_area (H \<union> proc_pages (processes s ! unat j)) \<union> Z"
          using page_area_mono [of "proc_pages (proc_at j s)" "H \<union> proc_pages (processes s ! unat j)"] by (auto simp: proc_at_def)
      qed (use P(2) in blast)
    qed
    moreover have "waiting i s \<and> p_task_id (processes u ! i) \<noteq> sched_current_task_id s" if "i < 16" "alive (processes u ! i)" for i
    proof -
      have o: "i \<noteq> unat j" "alive (processes s ! i)" using R(6) [OF that(1)] that(2) by simp_all
      then show ?thesis using R(7) [OF that(1) o] C(7) [OF that(1) o(2,1)] that(1) by (simp add: waiting_def same_process_def)
    qed
    ultimately show ?thesis using R(1,3-5) by (simp add: sched_vars_def)
  qed
  then show "memory_map Z T (user_exit_current status s) A H L" "waiting i s \<Longrightarrow> process_kept i s (user_exit_current status s)"
    and "i < 16 \<Longrightarrow> alive (processes (user_exit_current status s) ! i) \<Longrightarrow> waiting i s \<and> p_task_id (processes (user_exit_current status s) ! i) \<noteq> sched_current_task_id s"
    and "sched_vars (user_exit_current status s) = sched_vars s" unfolding u_def by blast+
qed

lemma exit_leaves:
  fixes s :: "'a user_state_scheme"
  assumes M: "memory_map Z T s A H L" and I: "kernel_inv s" and r: "process_state_is USER_PROCESS_RUNNING s" and st: "on_stack Z s"
  obtains w where "sys_exit status s = kthread_exit w" "memory_map Z T w A H L" "leaves Z w" "current_task w = current_task s"
    "\<And>i. waiting i s \<Longrightarrow> process_kept i s w" "vm_same (user_exit_current status s) w" "sched_vars w = sched_vars s"
proof -
  define u where "u = user_exit_current status s"
  define w where "w = snd (printk (''user: exited status=%x'' @ [CHR 0x0A]) [VInt status] u)"
  note E = exit_kept [OF M I r, where status = status, folded u_def]
  have kw: "kvars w = kvars u" "mvars w = mvars u" "vm_same u w" by (simp_all add: w_def printk_vm_same)
  note K = kvarsD [OF kw(1)]
  have Mw: "memory_map Z T w A H L" by (rule quiet_map [OF E(1) kw(3,1,2)])
  have sw: "sched_vars w = sched_vars s" using E(4) K by (simp add: sched_vars_def)
  have esp: "reg_esp w = reg_esp s" using mvarsD(5) [OF kw(2)] mvarsD(5) [OF exit_mvars [of status s]] by (simp add: u_def)
  have lv: "leaves Z w" by (rule leavesI [OF I st sw esp]) (use E(3) K(4) in auto)
  have "process_kept i s w" if "waiting i s" for i by (rule process_kept_trans [OF E(2) [OF that] process_kept_quiet [OF kw(3) K(4)]])
  moreover have "sys_exit status s = kthread_exit w" by (simp add: sys_exit_def Let_def w_def u_def)
  ultimately show ?thesis using that [OF _ Mw lv sched_varsD(2) [OF sw] _ kw(3) [unfolded u_def] sw] by blast
qed

lemma exit_returns:
  fixes s :: "'a user_state_scheme"
  assumes "memory_map Z T s A H L" "kernel_inv s" "process_state_is USER_PROCESS_RUNNING s" "on_stack Z s" "current_task s \<noteq> 0"
  shows "\<exists>t. sys_exit status s = Some (Goes t)"
proof -
  obtain w where w: "sys_exit status s = kthread_exit w" "memory_map Z T w A H L" "leaves Z w" "current_task w = current_task s"
    by (rule exit_leaves [OF assms(1-4)]) (rule that; assumption)
  obtain t where "kthread_exit w = Some (Goes t)" by (rule thread_exit_map [OF w(2,3)]) (use assms(5) w(4) that in auto)
  then show ?thesis using w(1) by simp
qed

lemma kept_alive: "process_kept i s t \<Longrightarrow> alive (processes t ! i) = alive (processes s ! i)"
  using same_pages_parts(1) [of "processes s ! i" "processes t ! i"] by (simp add: process_kept_def same_process_def)

lemma sys_exit_kept:
  fixes s :: "'a user_state_scheme"
  assumes M: "memory_map Z T s A H L" and I: "kernel_inv s" and r: "process_state_is USER_PROCESS_RUNNING s" and st: "on_stack Z s"
    and t: "sys_exit status s = Some (Goes t)"
  shows "\<exists>B L'. memory_map Z T t B H L'" "waiting i s \<Longrightarrow> process_kept i s t"
proof -
  obtain w where w: "sys_exit status s = kthread_exit w" "memory_map Z T w A H L" "leaves Z w" "\<And>i. waiting i s \<Longrightarrow> process_kept i s w"
    by (rule exit_leaves [OF M I r st]) (rule that; assumption)
  have e: "kthread_exit w = Some (Goes t)" using t w(1) by simp
  note X = leaves_kept [OF w(2,3) conjunct1 [OF exit_yields [OF e]] e]
  show "\<exists>B L'. memory_map Z T t B H L'" by (rule X(1))
  show "process_kept i s t" if "waiting i s"
    using process_kept_trans [OF w(4) [OF that] X(2)] kept_alive [OF w(4) [OF that]] that by (simp add: waiting_def)
qed

lemma exec_returns:
  fixes s :: "'a user_state_scheme"
  assumes "memory_map Z T s A H L" "kernel_inv s" "process_state_is USER_PROCESS_CREATED s" "on_stack Z s" "current_task s \<noteq> 0"
  shows "case user_exec_task s of Enters t \<Rightarrow> True | Goes u \<Rightarrow> \<exists>t. kthread_exit u = Some (Goes t) | Halts t \<Rightarrow> False"
proof (cases "user_exec_task s")
  case (Goes u)
  obtain B where B: "memory_map Z T u B H L" "sched_vars u = sched_vars s" "reg_esp u = reg_esp s"
    "\<And>i. i < 16 \<Longrightarrow> alive (processes u ! i) \<Longrightarrow> p_task_id (processes u ! i) \<noteq> sched_current_task_id s"
    by (rule exec_goes [OF assms(1-3) Goes]) (rule that; assumption)
  have lv: "leaves Z u" by (rule leavesI [OF assms(2,4) B(2-4)])
  obtain t where "kthread_exit u = Some (Goes t)" by (rule thread_exit_map [OF B(1) lv]) (use assms(5) sched_varsD(2) [OF B(2)] that in auto)
  then show ?thesis using Goes by simp
next
  case (Halts t)
  then show ?thesis
  proof (cases "user_process_find_by_task_id (sched_current_task_id s) s")
    case (Some j)
    then show ?thesis using Halts unfolding exec_task_eq [OF Some] by (simp add: enter_some(3) split: if_splits prod.splits)
  qed (simp add: user_exec_task_def)
qed simp

lemma exec_failed_kept:
  fixes s :: "'a user_state_scheme"
  assumes M: "memory_map Z T s A H L" and I: "kernel_inv s" and r: "process_state_is USER_PROCESS_CREATED s" and st: "on_stack Z s"
    and u: "user_exec_task s = Goes u" and e: "kthread_exit u = Some (Goes t)"
  shows "\<exists>B L'. memory_map Z T t B H L'" "waiting i s \<Longrightarrow> process_kept i s t"
proof -
  obtain B where B: "memory_map Z T u B H L" "mem_step A s B u {} {} (A - B)" "sched_vars u = sched_vars s" "reg_esp u = reg_esp s"
    "\<And>i. i < 16 \<Longrightarrow> alive (processes u ! i) \<Longrightarrow> p_task_id (processes u ! i) \<noteq> sched_current_task_id s"
    "\<And>i. i < 16 \<Longrightarrow> alive (processes s ! i) \<Longrightarrow> p_task_id (processes s ! i) \<noteq> sched_current_task_id s \<Longrightarrow>
       processes u ! i = processes s ! i \<and> p_address_space (processes s ! i) \<in> B"
    by (rule exec_goes [OF M I r u]) (rule that; assumption)
  have lv: "leaves Z u" by (rule leavesI [OF I st B(3,4,5)])
  note X = leaves_kept [OF B(1) lv conjunct1 [OF exit_yields [OF e]] e]
  show "\<exists>B L'. memory_map Z T t B H L'" by (rule X(1))
  show "process_kept i s t" if "waiting i s"
  proof -
    have i: "i < 16" "alive (processes s ! i)" "p_task_id (processes s ! i) \<noteq> sched_current_task_id s" using that by (simp_all add: waiting_def)
    note k = B(6) [OF i]
    have "process_kept i s u" by (rule kept_step [OF M B(2) i(1,2), where Q = "{}"]) (use k in auto)
    then show ?thesis using X(2) [OF i(1)] i(2) k process_kept_trans by auto
  qed
qed

lemma enters_kept:
  fixes s :: "'a user_state_scheme"
  assumes M: "memory_map Z T s A H L" and I: "kernel_inv s" and r: "process_state_is USER_PROCESS_CREATED s" and t: "user_exec_task s = Enters t"
  shows "memory_map Z T t A H L" "waiting i s \<Longrightarrow> process_kept i s t"
proof -
  obtain j where j: "user_process_find_by_task_id (sched_current_task_id s) s = Some j"
    using t by (cases "user_process_find_by_task_id (sched_current_task_id s) s") (simp_all add: user_exec_task_def)
  have rj: "p_state (proc_at j s) = USER_PROCESS_CREATED" using r j by (simp add: process_state_is_def)
  note E = exec_enters_map [OF M I t j rj] and P = current_process [OF I j]
  show "memory_map Z T t A H L" by (rule E(1))
  show "process_kept i s t" if "waiting i s"
  proof -
    have i: "i < 16" "alive (processes s ! i)" "i \<noteq> unat j" using that P(3) by (auto simp: waiting_def)
    have aj: "alive (processes s ! unat j)" using rj by (simp add: alive_def proc_at_def)
    note D = memory_mapD(2) [OF M]
    have "p_address_space (processes s ! i) \<in> A - {p_address_space (proc_at j s)}"
      using procs_memD(3) [OF D P(1) aj i(1,3,2)] proc_memD(1) [OF procs_memD(1) [OF D i(1,2)]] by (auto simp: proc_at_def)
    then show ?thesis by (intro kept_step [OF M E(2) i(1,2), where Q = "{}"]) (use E(3) [OF i(1,3)] in auto)
  qed
qed

end
