(* ===== verification/Machine.thy ===== *)
theory Machine
  imports ProcessRun
begin

text \<open>
  The machine as one transition system: calls of the kernel, kernel threads, and the stores of
  programs in ring 3, in any order.  Boot establishes the invariant (the tables of tasks and
  processes are in order, and memory is divided among them), and every step keeps it.
\<close>

section \<open>Steps of the machine\<close>

text \<open>
  Calls that are no business of the memory of any process.  The last rule is kernel code at work: it
  may do anything to devices and registers and to the stack of its task.
\<close>

inductive system_step :: "linker_symbols \<Rightarrow> ptr set \<Rightarrow> 'a user_state_scheme \<Rightarrow> 'a user_state_scheme \<Rightarrow> bool" for lk Z where
  spawn: "user_spawn lk path s = Some (r, t) \<Longrightarrow> process_state_is USER_PROCESS_RUNNING s \<Longrightarrow>
    next_pid s + 1 \<noteq> 0 \<Longrightarrow> next_task_id s < 0x7FFFFFFF \<Longrightarrow> system_step lk Z s t"
| wait: "user_wait (\<lambda>_. None) pid s = Some (r, t) \<Longrightarrow> system_step lk Z s t"
| yield: "sched_yield s = Some (sw, t) \<Longrightarrow> on_stack Z s \<Longrightarrow> system_step lk Z s t"
| thread: "kthread_create lk (Some f) s = Some (r, t) \<Longrightarrow> next_task_id s + 1 \<noteq> 0 \<Longrightarrow> system_step lk Z s t"
| thread_exit: "kthread_exit s = Some (Goes t) \<Longrightarrow> on_stack Z s \<Longrightarrow>
    user_process_find_by_task_id (sched_current_task_id s) s = None \<Longrightarrow> system_step lk Z s t"
| work: "kvars t = kvars s \<Longrightarrow> heap_list t = heap_list s \<Longrightarrow> cr3 t = cr3 s \<Longrightarrow>
    vm_same (s\<lparr>kmem := kmem t\<rparr>) t \<Longrightarrow> (\<And>x. x \<notin> stack_area Z s \<Longrightarrow> kmem t x = kmem s x) \<Longrightarrow> system_step lk Z s t"

text \<open>Steps that make, change or end the memory of the process that has the processor.\<close>

inductive program_step :: "ptr set \<Rightarrow> 'a user_state_scheme \<Rightarrow> 'a user_state_scheme \<Rightarrow> bool" for Z where
  exec: "user_exec_task s = Enters t \<Longrightarrow> process_state_is USER_PROCESS_CREATED s \<Longrightarrow> program_step Z s t"
| exec_failed: "user_exec_task s = Goes u \<Longrightarrow> process_state_is USER_PROCESS_CREATED s \<Longrightarrow> on_stack Z s \<Longrightarrow>
    kthread_exit u = Some (Goes t) \<Longrightarrow> program_step Z s t"
| exit: "sys_exit status s = Some (Goes t) \<Longrightarrow> process_state_is USER_PROCESS_RUNNING s \<Longrightarrow> on_stack Z s \<Longrightarrow> program_step Z s t"
| store: "user_store v b s = Some t \<Longrightarrow> user_process_find_by_task_id (sched_current_task_id s) s = Some j \<Longrightarrow>
    p_state (proc_at j s) = USER_PROCESS_RUNNING \<Longrightarrow> program_step Z s t"

definition machine_step :: "linker_symbols \<Rightarrow> ptr set \<Rightarrow> 'a user_state_scheme \<Rightarrow> 'a user_state_scheme \<Rightarrow> bool" where
  "machine_step lk Z s t \<longleftrightarrow> system_step lk Z s t \<or> program_step Z s t"

lemma machine_kernel_step:
  assumes "machine_step lk Z s t"
  shows "kernel_step lk s t"
proof -
  have "kernel_step lk s t" if "system_step lk Z s t"
    using that by cases (auto intro: kernel_step.intros)
  moreover have "kernel_step lk s t" if "program_step Z s t"
    using that
  proof cases
    case (store v b j)
    then have "kvars t = kvars s" by (auto simp: user_store_def kvars_def Option.bind_eq_Some_conv split: if_splits)
    then show ?thesis by (rule kernel_step.other)
  qed (auto intro: kernel_step.intros)
  ultimately show ?thesis using assms by (auto simp: machine_step_def)
qed

section \<open>The invariant\<close>

definition memory_inv :: "ptr set \<Rightarrow> u32 set \<Rightarrow> 'a user_state_scheme \<Rightarrow> bool" where
  "memory_inv Z T s \<longleftrightarrow> kernel_inv s \<and> (\<exists>A H L. memory_map Z T s A H L)"

lemma memory_invE:
  assumes "memory_inv Z T s"
  obtains A H L where "memory_map Z T s A H L" "kernel_inv s"
  using assms unfolding memory_inv_def by blast

lemma system_step_kept:
  fixes s t :: "'a user_state_scheme"
  assumes st: "system_step lk Z s t" and M: "memory_map Z T s A H L" and I: "kernel_inv s"
  shows "(\<exists>B H' L'. memory_map Z T t B H' L') \<and> (\<forall>i < 16. alive (processes s ! i) \<longrightarrow> process_kept i s t)"
  using st
proof cases
  case (spawn path r)
  obtain B H' L' where S: "memory_map Z T t B H' L'" "mem_step A s B t {} (page_area H) {}" "others_keep s B t"
    using spawn_map [OF M I, of lk path] spawn(1) by auto
  have "process_kept i s t" if "i < 16" "alive (processes s ! i)" for i
    by (rule kept_step [OF M S(2) that, where Q = "{}"]) (use S(3) that in \<open>auto simp: others_keep_def\<close>)
  then show ?thesis using S(1) by blast
next
  case (wait pid r)
  have "t = s \<or> (\<exists>c. user_process_find_by_pid pid s = Some c \<and> p_state (proc_at c s) = USER_PROCESS_EXITED \<and> t = user_process_release (Some c) s)"
    by (rule wait_cases [OF wait])
  then show ?thesis
  proof (elim disjE exE conjE)
    assume "t = s"
    then show ?thesis using M process_kept_refl by blast
  next
    fix c assume c: "user_process_find_by_pid pid s = Some c" "p_state (proc_at c s) = USER_PROCESS_EXITED" "t = user_process_release (Some c) s"
    have n: "\<not> alive (proc_at c s)" using c(2) by (simp add: alive_def)
    note R = release_map [OF M n, folded c(3)]
    have "process_kept i s t" if "i < 16" "alive (processes s ! i)" for i
      using R(2) [OF that] vm_same_parts [OF R(3)] by (simp add: process_kept_def view_eq)
    then show ?thesis using R(1) by blast
  qed
next
  case (yield sw)
  have w: "sched_wf (tasks s) (current_task s) True" by (rule kernel_invD(2) [OF I])
  have us: "t_state (tasks s ! unat (current_task s)) \<noteq> TASK_UNUSED" using current_ready(2) [OF kernel_invD(1) [OF I]] by auto
  obtain L' where S: "switch_step A H Z s L' t" "memory_map Z T t (A - dead_spaces s) H L'" using yield_map [OF M w us yield(2)] yield(1) by auto
  have "processes t = processes s" using sched_more_user [OF yield_more [OF yield(1)]] by (simp add: user_vars_def)
  then show ?thesis using S(2) switch_kept [OF M S(1)] by blast
next
  case (thread f r)
  obtain H' L' where S: "heap_step A H s (A - dead_spaces s) H' L' t" "memory_map Z T t (A - dead_spaces s) H' L'"
    using create_map [OF M I, of lk f] thread(1) by auto
  have "processes t = processes s" using sched_more_user [OF create_more [OF thread(1)]] by (simp add: user_vars_def)
  then have "process_kept i s t" if "i < 16" "alive (processes s ! i)" for i
    by (intro kept_step [OF M heap_stepD(2) [OF S(1)] that, where Q = "{}"]) (use alive_not_dead [OF M that] in auto)
  then show ?thesis using S(2) by blast
next
  case thread_exit
  have "leaves Z s" by (rule leavesI [OF I thread_exit(2) refl refl]) (use find_by_task_None [OF thread_exit(3)] in \<open>auto simp: alive_def\<close>)
  then show ?thesis using leaves_kept [OF M _ conjunct1 [OF exit_yields [OF thread_exit(1)]] thread_exit(1)] by blast
next
  case work
  note S = work_map [OF M I work(4,1-3,5)]
  have "process_kept i s t" if "i < 16" "alive (processes s ! i)" for i
    by (rule kept_step [OF M S(2) that, where Q = "{}"])
      (use kvarsD(4) [OF work(1)] proc_memD(1) [OF procs_memD(1) [OF memory_mapD(2) [OF M] that]] in auto)
  then show ?thesis using S(1) by blast
qed

lemma program_step_kept:
  fixes s t :: "'a user_state_scheme"
  assumes st: "program_step Z s t" and M: "memory_map Z T s A H L" and I: "kernel_inv s"
  shows "(\<exists>B H' L'. memory_map Z T t B H' L') \<and> (\<forall>i. waiting i s \<longrightarrow> process_kept i s t)"
  using st
proof cases
  case exec
  then show ?thesis using enters_kept [OF M I] by blast
next
  case (exec_failed u)
  then show ?thesis using exec_failed_kept [OF M I exec_failed(2,3,1,4)] by blast
next
  case (exit status)
  then show ?thesis using sys_exit_kept [OF M I exit(2,3,1)] by blast
next
  case (store v b j)
  note S = store_map [OF M I store(2,3,1)] and C = current_alive [OF M I store(2,3)]
  note D = memory_mapD(2) [OF M]
  have "process_kept i s t" if w: "waiting i s" for i
  proof -
    have i: "i < 16" "alive (processes s ! i)" "i \<noteq> unat j" using w current_process(3) [OF I store(2)] by (auto simp: waiting_def)
    show ?thesis
    proof (rule kept_step [OF M S(2) i(1,2), where Q = "proc_pages (processes s ! unat j)"])
      show "page_area (proc_pages (proc_at j s)) \<subseteq> page_area (H \<union> proc_pages (processes s ! unat j)) \<union> Z"
        using page_area_mono [of "proc_pages (proc_at j s)" "H \<union> proc_pages (processes s ! unat j)"] by (auto simp: proc_at_def)
      show "proc_pages (processes s ! unat j) \<subseteq> all_pages (processes s)" using all_pagesI [OF C(1,2)] by blast
      show "proc_pages (processes s ! i) \<inter> proc_pages (processes s ! unat j) = {}" using procs_memD(4) [OF D i(1,2) C(1) _ C(2)] i(3) by blast
      show "p_address_space (processes s ! i) \<in> A - {}" using proc_memD(1) [OF procs_memD(1) [OF D i(1,2)]] by simp
      show "same_process (processes s ! i) (processes t ! i)" using kvarsD(4) [OF S(3)] by simp
    qed
  qed
  then show ?thesis using S(1) by blast
qed

lemma memory_inv_step:
  assumes "machine_step lk Z s t" "memory_inv Z T s"
  shows "memory_inv Z T t"
proof -
  have I: "kernel_inv s" using assms(2) by (simp add: memory_inv_def)
  have "kernel_inv t" by (rule kernel_step_inv [OF machine_kernel_step [OF assms(1)] I])
  then show ?thesis
    using assms system_step_kept [OF _ _ I] program_step_kept [OF _ _ I] unfolding memory_inv_def machine_step_def by blast
qed

lemma memory_inv_run:
  assumes "(machine_step lk Z)\<^sup>*\<^sup>* s t" "memory_inv Z T s"
  shows "memory_inv Z T t"
  using assms by (induction rule: rtranclp_induct) (auto intro: memory_inv_step)

section \<open>Boot\<close>

text \<open>
  The machine when \<open>sched_init\<close> is called: paging is on, nothing has been allocated since, and the
  boot stack lies outside the frames that will be handed out.  \<open>BootImage\<close> derives this from the calls of
  \<open>kmain\<close> before it.
\<close>

definition booted :: "ptr set \<Rightarrow> 'a user_state_scheme \<Rightarrow> bool" where
  "booted Z b \<longleftrightarrow> spaces_ok b {} \<and> kernel_private b \<and> cr3 b = kernel_page_directory b \<and> heap_list b = 0 \<and> fixed_area Z (managed b {}) b \<and>
     length (tasks b) = 16 \<and> next_task_id b = 0 \<and> processes b = replicate 16 zero_process \<and> next_pid b = 1"

lemma no_process: "i < 16 \<Longrightarrow> \<not> alive (replicate 16 zero_process ! i)"
  by (simp add: alive_def zero_process_def)

lemma sched_init_same:
  fixes s :: "'a sched_state_scheme"
  shows "vm_same s (sched_init s)" "heap_list (sched_init s) = heap_list s" "cr3 (sched_init s) = cr3 s" "boot_mods (sched_init s) = boot_mods s"
proof -
  let ?same = "\<lambda>u. vm_same s u \<and> heap_list u = heap_list s \<and> cr3 u = cr3 s \<and> boot_mods u = boot_mods s"
  have step: "?same (set_task i f u)" if "?same u" for i f and u :: "'a sched_state_scheme"
    using that set_task_same [where s = u and i = i and f = f] by (simp add: vm_same_then [OF set_task_same(1)])
  have more: "?same (u\<lparr>next_task_id := n\<rparr>)" "?same (u\<lparr>current_task := c\<rparr>)" if "?same u" for u :: "'a sched_state_scheme" and n c
    using that by (simp_all add: vm_same_def pmm_same_def boot_mods_def)
  have "?same (sched_init s)"
    unfolding sched_init_def Let_def
    by (intro more(2) step more(1), rule for_u32_invariant [where P = "\<lambda>_. ?same"]) (simp_all add: step vm_same_refl)
  then show "vm_same s (sched_init s)" "heap_list (sched_init s) = heap_list s" "cr3 (sched_init s) = cr3 s" "boot_mods (sched_init s) = boot_mods s" by blast+
qed

lemma boot_tables:
  fixes b :: "'a user_state_scheme"
  assumes "booted Z b"
  defines "s \<equiv> sched_init b"
  shows "tasks s = blank_task\<lparr>t_state := TASK_RUNNING, t_address_space := kernel_page_directory b\<rparr> # replicate 15 blank_task"
    and "current_task s = 0" "next_task_id s = 1" "processes s = replicate 16 zero_process" "next_pid s = 1" "kernel_inv s"
proof -
  note B = assms(1) [unfolded booted_def]
  show "tasks s = blank_task\<lparr>t_state := TASK_RUNNING, t_address_space := kernel_page_directory b\<rparr> # replicate 15 blank_task"
    "current_task s = 0" "next_task_id s = 1"
    using sched_init_vars [of b] B by (simp_all add: s_def sched_vars_def blank_task_def)
  have "sched_state.more s = sched_state.more b" unfolding s_def sched_init_def Let_def by (simp, rule for_u32_keeps) simp
  then show "processes s = replicate 16 zero_process" "next_pid s = 1" using sched_more_user [of s b] B by (simp_all add: user_vars_def)
  show "kernel_inv s" unfolding s_def using kernel_inv_boot B by blast
qed

lemma sched_init_esp: "reg_esp (sched_init s) = reg_esp s"
  unfolding sched_init_def Let_def by (simp add: set_task_def, rule for_u32_keeps) (simp add: set_task_def)

lemma memory_map_boot:
  fixes b :: "'a user_state_scheme"
  assumes "booted Z b"
  shows "memory_map Z (managed b {}) (sched_init b) {} {} {}"
proof -
  let ?s = "sched_init b" and ?k = "kernel_page_directory b"
  note B = assms [unfolded booted_def] and t = boot_tables [OF assms]
  have v: "vm_same b ?s" and hl: "heap_list ?s = 0" and c: "cr3 ?s = ?k" using sched_init_same [of b] B by simp_all
  note V = vm_same_parts [OF v]
  have k: "kernel_page_directory ?s = ?k" using v by (simp add: vm_same_def)
  have at: "tasks ?s ! i = (if i = 0 then blank_task\<lparr>t_state := TASK_RUNNING, t_address_space := ?k\<rparr> else blank_task)" if "i < 16" for i
    using that unfolding t(1) by (simp add: nth_Cons')
  have l: "length (tasks ?s) = 16" using t(1) by simp
  have "task_mem (tasks ?s) ?k {} {}"
    unfolding task_mem_def by (simp add: l at task_owns_def tasks_apart_def blank_task_def)
  moreover have "heap_map ?s {} {} {}" using hl by (auto simp: heap_map_def heap_ok_def live_def region_def intro!: exI [of _ "[]"])
  ultimately have "sched_mem ?s {} {} {}" using B V(1) k by (simp add: sched_mem_def kernel_shared_def)
  moreover have "procs_mem ?s {} {} (processes ?s)" unfolding t(4) procs_mem_def procs_apart_def using no_process by blast
  moreover have "spaces_link ?k (tasks ?s) (processes ?s)" unfolding t(4) spaces_link_def using no_process by blast
  moreover have "spaces_held {} (tasks ?s) (processes ?s)" by (simp add: spaces_held_def)
  moreover have "all_pages (processes ?s) = {}" unfolding t(4) all_pages_def using no_process by blast
  then have "pool ?s {} {} (processes ?s) = managed b {}" using V(2) by (simp add: pool_def)
  moreover have "kernel_private ?s" using B V(5) k by (simp add: kernel_private_def)
  moreover have "fixed_area Z (managed b {}) ?s" by (rule fixed_area_step [of Z _ b]) (use B V(11) in auto)
  moreover have "cr3 ?s = t_address_space (tasks ?s ! unat (current_task ?s))" using c t(1,2) by simp
  ultimately show ?thesis unfolding memory_map_def k by (intro conjI)
qed

lemma memory_inv_boot: "booted Z b \<Longrightarrow> memory_inv Z (managed b {}) (sched_init b)"
  using memory_map_boot boot_tables(6) unfolding memory_inv_def by blast

text \<open>What \<open>vmm_init\<close> makes.\<close>

lemma booted_vmm_init:
  fixes a b :: "'a user_state_scheme"
  assumes "mem_ok a" "0 < limit" "limit mod PAGE_TABLE_SPAN = 0" "limit \<le> 0x40000000" "unat (limit div PAGE_TABLE_SPAN) < card (low_free a)"
    and "vmm_init limit a = Returns b" "heap_list b = 0" "fixed_area Z (managed b {}) b"
    and "length (tasks b) = 16" "next_task_id b = 0" "processes b = replicate 16 zero_process" "next_pid b = 1"
  shows "booted Z b"
proof -
  obtain k t where t: "vmm_init limit a = Returns (paging_enable (paging_load_directory k t))"
      "dm_state (free_pages a) (in_bitmap a) k (card (low_free a) - 1) (limit div PAGE_TABLE_SPAN) t"
    by (rule vmm_init_state [OF assms(1-5)])
  have b: "b = paging_enable (paging_load_directory k t)" using t(1) assms(6) by simp
  note D = direct_map_made [OF t(2) assms(3,4), folded b]
  have V: "spaces_ok b {}" "cr3 b = kernel_page_directory b"
      "\<And>w. pte b (kernel_page_directory b) w = (if 0xC0000000 \<le> w \<and> w - 0xC0000000 < limit then tbl (w - 0xC0000000) OR 3 else 0)"
    using D paging_on_same(3) [where t = t and k = k, folded b] by simp_all
  have "(tbl x OR 3) AND 5 \<noteq> 5" for x
  proof
    assume "(tbl x OR 3) AND 5 = 5"
    then have "bit ((tbl x OR 3) AND 5) 2" by (simp add: bit_numeral_rec)
    then show False by (simp add: bit_and_iff bit_or_iff tbl_def bit_push_bit_iff bit_numeral_rec)
  qed
  then have "kernel_private b" using V(3) by (simp add: kernel_private_def)
  then show ?thesis using V(1,2) assms(7-) by (simp add: booted_def)
qed

end
