(* ===== verification/BootImage.thy ===== *)
theory BootImage
  imports Machine PmmInitProof Kmain
begin

text \<open>
  What \<open>kmain\<close> has done when it calls \<open>sched_init\<close>: \<open>booted\<close> holds, with any part of the kernel image for
  the boot stack, because \<open>pmm_init\<close> reserves the image and \<open>vmm_init\<close> takes its tables from free frames.
\<close>

section \<open>The kernel image is reserved\<close>

definition kernel_image :: "'a pmm_state_scheme \<Rightarrow> ptr set" where
  "kernel_image s = {x. 0xC0000000 \<le> x \<and> kernel_physical_start s \<le> x - 0xC0000000 \<and> x - 0xC0000000 < kernel_physical_end s}"

lemma outside_segment:
  fixes y b n lo hi :: u32
  assumes "lo \<le> y" "y < hi" "unat n \<le> 0x20000" "unat b < 0x1000000" "unat hi \<le> unat b \<or> unat b + unat n \<le> unat lo" 
  shows "\<not> y - b < n"
proof (cases "b \<le> y")
  case True
  then have "unat (y - b) = unat y - unat b" by (rule unat_sub)
  then show ?thesis using assms True by (simp add: word_less_nat_alt word_le_nat_alt)
next
  case False
  then have "unat (y - b) = unat y + 2 ^ 32 - unat b" by (simp add: unat_sub_if_size word_le_nat_alt word_size)
  then show ?thesis using assms(3,4) False by (simp add: word_less_nat_alt word_le_nat_alt)
qed

lemma pmm_returns:
  assumes "boot_ok mbi s v" "pmm_init mbi s = Some (Returns t)"
  shows "mem_ok t \<and> (\<exists>b. bitmap_built b s t \<and> vmm_phys_to_virt b \<noteq> 0 \<and> (\<exists>e. seg_ok mbi (pmm_bitmap_bytes t) e s b) \<and> unat (pmm_bitmap_bytes t) \<le> 0x20000 \<and>
     free_pages t = usable_frames s v - frames_of b (b + pmm_bitmap_bytes t) - frames_of (kernel_physical_start s) (kernel_physical_end s) - {0})"
  using pmm_init_spec [OF assms(1)] by (simp only: assms(2) option.inject outcome.inject simp_thms)

lemma image_reserved:
  assumes ok: "boot_ok mbi s v" and p: "pmm_init mbi s = Some (Returns t)" and x: "x \<in> kernel_image s"
  shows "\<not> in_bitmap t x" "frame (x - 0xC0000000) \<notin> free_pages t"
proof -
  define y where "y = x - 0xC0000000"
  have y: "kernel_physical_start s \<le> y" "y < kernel_physical_end s" using x by (simp_all add: kernel_image_def y_def)
  obtain b e where b: "bitmap_built b s t" "vmm_phys_to_virt b \<noteq> 0" "seg_ok mbi (pmm_bitmap_bytes t) e s b" "unat (pmm_bitmap_bytes t) \<le> 0x20000"
    and fp: "free_pages t = usable_frames s v - frames_of b (b + pmm_bitmap_bytes t) - frames_of (kernel_physical_start s) (kernel_physical_end s) - {0}"
    using pmm_returns [OF ok p] by blast
  have "unat (kernel_physical_start s) div 4096 \<le> unat y div 4096" using y(1) by (simp add: word_le_nat_alt div_le_mono)
  moreover have "4096 * (unat y div 4096) < unat (kernel_physical_end s)"
    using y(2) times_div_less_eq_dividend [of 4096 "unat y"] unfolding word_less_nat_alt by linarith
  ultimately have "frame y \<in> frames_of (kernel_physical_start s) (kernel_physical_end s)" by (simp add: frames_of_def unat_frame)
  then show "frame (x - 0xC0000000) \<notin> free_pages t" unfolding fp y_def by blast
  have "unat (kernel_physical_end s) \<le> unat b \<or> unat b + unat (pmm_bitmap_bytes t) \<le> unat (kernel_physical_start s)"
    using b(3) unfolding seg_ok_def avoid_def by blast
  moreover have "unat b < 0x1000000" using phys_to_virt_unat(1) [of b] b(2) by blast
  ultimately have "\<not> y - b < pmm_bitmap_bytes t" by (intro outside_segment [OF y b(4)])
  moreover have "x - vmm_phys_to_virt b = y - b" unfolding phys_to_virt_eq [OF b(2)] y_def by (simp only: diff_diff_eq)
  ultimately show "\<not> in_bitmap t x" using b(1) by (simp add: bitmap_built_def)
qed

lemma virt_frame_back:
  assumes "vmm_phys_to_virt q \<noteq> 0" "frame x = frame (vmm_phys_to_virt q)"
  shows "frame (x - 0xC0000000) = frame q"
proof -
  have "unat x div 4096 = (0xC0000000 + unat q) div 4096"
    using arg_cong [OF assms(2), of unat] phys_to_virt_unat [of q] assms(1) by (simp add: unat_frame)
  also have "\<dots> = 0xC0000 + unat q div 4096" using div_mult_self2 [of 4096 "unat q" "0xC0000"] by simp
  finally have d: "unat x div 4096 = 0xC0000 + unat q div 4096" .
  have g: "0xC0000000 \<le> unat x" using d times_div_less_eq_dividend [of 4096 "unat x"] by linarith
  then have "unat (x - 0xC0000000) = unat x - 0xC0000000" by (simp add: unat_sub_if_size)
  moreover have "(unat x - 0xC0000000) div 4096 = unat x div 4096 - 0xC0000" using div_mult_self4 [of 4096 "0xC0000" "unat x - 0xC0000000"] g by simp
  ultimately show ?thesis using d by (simp add: word_unat_eq_iff unat_frame)
qed

lemma reserved_fixed:
  assumes "mem_ok a" "0 < limit" "limit mod PAGE_TABLE_SPAN = 0" "limit \<le> 0x40000000" "unat (limit div PAGE_TABLE_SPAN) < card (low_free a)"
    and "vmm_init limit a = Returns b" and Z: "\<And>x. x \<in> Z \<Longrightarrow> \<not> in_bitmap a x \<and> frame (x - 0xC0000000) \<notin> free_pages a"
  shows "fixed_area Z (managed b {}) b"
  unfolding fixed_area_def page_area_def
proof (intro ballI conjI notI)
  note V = vmm_init_frames [OF assms(1-6)]
  fix x assume x: "x \<in> Z"
  show False if "in_bitmap b x" using Z [OF x] V(3) that by simp
  assume "x \<in> {x. \<exists>q \<in> managed b {}. frame x = frame (vmm_phys_to_virt q)}"
  then obtain q where q: "vmm_phys_to_virt q \<noteq> 0" "frame q \<in> free_pages b \<or> q \<in> pt_pages b (kernel_page_directory b)" "frame x = frame (vmm_phys_to_virt q)"
    by (auto simp: managed_def)
  have "frame (x - 0xC0000000) = frame q" by (rule virt_frame_back [OF q(1,3)])
  then show False using Z [OF x] q(2) V(1,2) by auto
qed

section \<open>The other steps of the boot\<close>

text \<open>The variables of the components above paging.\<close>

definition upper_vars :: "'a user_state_scheme \<Rightarrow> ptr \<times> task list \<times> u32 \<times> user_process list \<times> u32" where
  "upper_vars s = (heap_list s, tasks s, next_task_id s, processes s, next_pid s)"

lemma table_more: "vmm_init_table pd i s = Returns t \<Longrightarrow> vmm_state.more t = vmm_state.more s" for s t :: "'a vmm_state_scheme"
proof -
  assume t: "vmm_init_table pd i s = Returns t"
  obtain p u where u: "pmm_alloc_page s = (p, u)" by (cases "pmm_alloc_page s")
  have "vmm_state.more (for_u32 0 1024 (\<lambda>j s. arr_upd (vmm_phys_to_virt p) j (f j) s) w) = vmm_state.more w" for f and w :: "'a vmm_state_scheme"
    by (rule for_u32_keeps) (simp add: upd_more)
  then show "vmm_state.more t = vmm_state.more s" using t alloc_page_more [OF u] by (auto simp: vmm_init_table_def u Let_def upd_more split: if_splits)
qed

lemma vmm_init_more: "vmm_init limit s = Returns t \<Longrightarrow> vmm_state.more t = vmm_state.more s" for s t :: "'a vmm_state_scheme"
proof -
  assume t: "vmm_init limit s = Returns t"
  obtain p u where u: "pmm_alloc_page s = (p, u)" by (cases "pmm_alloc_page s")
  have loop: "vmm_state.more w = vmm_state.more v" if "for_out 0 n (vmm_init_table pd) v = Returns w" for n pd and v w :: "'a vmm_state_scheme"
  proof -
    have "\<forall>w. for_out 0 n (vmm_init_table pd) v = Returns w \<longrightarrow> vmm_state.more w = vmm_state.more v"
      unfolding for_out_def
    proof (rule for_u32_invariant [where P = "\<lambda>_ r. \<forall>w. r = Returns w \<longrightarrow> vmm_state.more w = vmm_state.more v"])
      fix m :: u32 and r :: "'a vmm_state_scheme outcome" assume r: "\<forall>w. r = Returns w \<longrightarrow> vmm_state.more w = vmm_state.more v"
      show "\<forall>w. (case r of Returns s \<Rightarrow> vmm_init_table pd m s | Panic e \<Rightarrow> Panic e) = Returns w \<longrightarrow> vmm_state.more w = vmm_state.more v"
        using r table_more by (cases r) fastforce+
    qed simp_all
    then show ?thesis using that by blast
  qed
  have p: "vmm_state.more (paging_enable (paging_load_directory k w)) = vmm_state.more w" for k and w :: "'a vmm_state_scheme"
    by (simp add: paging_enable_def paging_load_directory_def)
  show "vmm_state.more t = vmm_state.more s"
  proof (cases "for_out 0 (limit div PAGE_TABLE_SPAN) (vmm_init_table (vmm_phys_to_virt p)) (mem_zero_page (vmm_phys_to_virt p) (u\<lparr>kernel_page_directory := p\<rparr>))")
    case (Returns w)
    have "vmm_state.more w = vmm_state.more s" using loop [OF Returns] alloc_page_more [OF u] by (simp add: upd_more)
    moreover have "t = paging_enable (paging_load_directory (kernel_page_directory w) w)"
      using t Returns by (simp add: vmm_init_def u Let_def split: if_splits)
    ultimately show ?thesis by (simp add: p)
  next
    case (Panic e)
    then show ?thesis using t by (simp add: vmm_init_def u Let_def split: if_splits)
  qed
qed

lemma printk_upper: "upper_vars (snd (printk f vs u)) = upper_vars u" for u :: "'a user_state_scheme"
proof -
  have "kvars (snd (printk f vs u)) = kvars u" "mvars (snd (printk f vs u)) = mvars u" by simp_all
  from kvarsD [OF this(1)] mvarsD(1) [OF this(2)] show ?thesis by (simp add: upper_vars_def)
qed

lemma boot_init_same:
  fixes s :: "'a user_state_scheme"
  shows "pmm_same s (boot_init mbi s)" "upper_vars (boot_init mbi s) = upper_vars s"
proof -
  have u: "upper_vars (u\<lparr>module_start := x\<rparr>) = upper_vars u" "upper_vars (u\<lparr>module_size := x\<rparr>) = upper_vars u" for x and u :: "'a user_state_scheme"
    by (simp_all add: upper_vars_def)
  show "pmm_same s (boot_init mbi s)" by (simp add: boot_init_def Let_def pmm_same_def)
  show "upper_vars (boot_init mbi s) = upper_vars s" by (simp add: boot_init_def Let_def printk_upper u)
qed

text \<open>Devices and descriptor tables are no part of memory.\<close>

definition boot_kept :: "'a user_state_scheme \<Rightarrow> 'a user_state_scheme \<Rightarrow> bool" where
  "boot_kept s u \<longleftrightarrow> vm_same s u \<and> cr3 u = cr3 s \<and> upper_vars u = upper_vars s"

lemma boot_kept_updates:
  fixes s u :: "'a user_state_scheme"
  shows "boot_kept s (outb p d u) = boot_kept s u" "boot_kept s (u\<lparr>port_reads := r\<rparr>) = boot_kept s u" "boot_kept s (u\<lparr>idt := i\<rparr>) = boot_kept s u"
    "boot_kept s (u\<lparr>gdt := g\<rparr>) = boot_kept s u" "boot_kept s (u\<lparr>gdtr := gr\<rparr>) = boot_kept s u" "boot_kept s (u\<lparr>idtr := ir\<rparr>) = boot_kept s u"
    "boot_kept s (idt_flush ip u) = boot_kept s u" "boot_kept s (gdt_flush gp u) = boot_kept s u" "boot_kept s (tss_flush c u) = boot_kept s u"
    "boot_kept s (tss_init lk u) = boot_kept s u"
  by (simp_all add: boot_kept_def vm_same_def pmm_same_def upper_vars_def outb_def idt_flush_def gdt_flush_def tss_flush_def tss_init_def)

lemma boot_kept_loop: "boot_kept s u \<Longrightarrow> boot_kept s (for_u32 0 n (\<lambda>i s. s\<lparr>idt := f i s\<rparr>) u)"
  by (rule for_u32_invariant [where P = "\<lambda>_. boot_kept s"]) (simp_all add: boot_kept_updates)

lemma arch_init_same: "boot_kept s (arch_init lk s)"
proof -
  have g: "boot_kept s (gdt_init lk s)"
    unfolding gdt_init_def Let_def boot_kept_updates by (simp add: boot_kept_def vm_same_refl)
  have i: "boot_kept s (idt_init lk u)" if "boot_kept s u" for u
    unfolding idt_init_def Let_def boot_kept_updates by (intro boot_kept_loop that)
  have c: "boot_kept s (pic_clear_mask l u) = boot_kept s u" "boot_kept s (pit_init hz u) = boot_kept s u" "boot_kept s (pic_remap m n u) = boot_kept s u" for l hz m n u
    by (simp_all add: pic_clear_mask_def pit_init_def pic_remap_def Let_def inb_def boot_kept_updates split: prod.split)
  show ?thesis unfolding arch_init_def Let_def c by (rule i [OF g])
qed

section \<open>From reset to the scheduler\<close>

text \<open>
  The calls of \<open>kmain\<close> before \<open>sched_init\<close>, on a machine whose static variables have their initial
  values; \<open>Z\<close> is the boot stack, which is part of the kernel image.
\<close>

theorem booted_by_kmain:
  fixes s a c :: "'a user_state_scheme"
  assumes ok: "boot_ok mbi s v" and z: "upper_vars s = (0, replicate 16 blank_task, 0, replicate 16 zero_process, 1)" and Z: "Z \<subseteq> kernel_image s"
    and p: "pmm_init mbi s = Some (Returns a)" and m: "4 < card (low_free a)"
    and v: "vmm_init VMM_DIRECT_MAP_LIMIT (boot_init mbi a) = Returns c"
  shows "booted Z (arch_init lk c)"
proof -
  let ?d = "boot_init mbi a"
  have a: "mem_ok a" "pmm_state.more a = pmm_state.more s" using pmm_returns [OF ok p] by (auto simp: bitmap_built_def)
  note B = boot_init_same [where s = a and mbi = mbi] and same = pmm_same_parts [OF boot_init_same(1) [where s = a and mbi = mbi]]
  have lim: "mem_ok ?d" "0 < VMM_DIRECT_MAP_LIMIT" "VMM_DIRECT_MAP_LIMIT mod PAGE_TABLE_SPAN = 0" "VMM_DIRECT_MAP_LIMIT \<le> 0x40000000"
      "unat (VMM_DIRECT_MAP_LIMIT div PAGE_TABLE_SPAN) < card (low_free ?d)"
    using a(1) m same by (simp_all add: PAGE_TABLE_SPAN_eq direct_map_consts low_free_def)
  have Zf: "\<not> in_bitmap ?d x \<and> frame (x - 0xC0000000) \<notin> free_pages ?d" if "x \<in> Z" for x
    using image_reserved [OF ok p, of x] that Z same by auto
  have "upper_vars a = upper_vars s" using a(2) by (cases s, cases a) (simp add: upper_vars_def)
  moreover have "upper_vars c = upper_vars ?d" using vmm_init_more [OF v] by (cases c, cases ?d) (simp add: upper_vars_def)
  ultimately have u: "upper_vars c = upper_vars s" using B(2) by simp
  have "booted Z c"
    by (rule booted_vmm_init [OF lim v _ reserved_fixed [OF lim v Zf]]) (use u z in \<open>simp_all add: upper_vars_def\<close>)
  then show ?thesis
    using arch_init_same [of c lk] vm_same_parts [of c "arch_init lk c"] unfolding boot_kept_def
    by (auto simp: booted_def kernel_private_def fixed_area_def upper_vars_def vm_same_def)
qed

end
