(* ===== verification/BootRun.thy ===== *)
theory BootRun
  imports Machine
begin

text \<open>
  The first program of a booted machine, all the way: spawn finds its file in the archive and makes a
  process and a thread for it, the scheduler switches to the thread, and the thread loads the
  program and enters it in ring 3.
\<close>

section \<open>Counting free frames\<close>

text \<open>What is not a table of what the memory manager may write is free and in reach.\<close>

definition tables :: "'a vmm_state_scheme \<Rightarrow> u32 set \<Rightarrow> u32 set" where
  "tables s A = (\<Union>b \<in> insert (kernel_page_directory s) A. pt_pages s b)"

lemma low_free_managed:
  assumes sp: "spaces_ok s A"
  shows "low_free s = frame ` (managed s A - tables s A)"
proof (intro equalityI subsetI)
  fix p assume p: "p \<in> low_free s"
  let ?q = "push_bit 12 p"
  have b: "p < 0x100000" using free_20_bits [OF spaces_okD(1) [OF sp]] p by (simp add: low_free_def)
  have f: "frame ?q = p" "page_aligned ?q" using frame_push [of p] b by simp_all
  have "frame q \<notin> free_pages s" if "q \<in> tables s A" for q
    using pt_pages_ok [OF spaces_okD(5) [OF sp]] that unfolding tables_def table_ok_def by blast
  then have "?q \<notin> tables s A" using p f(1) unfolding low_free_def by fastforce
  moreover have "?q \<in> managed s A" using p f virt_low [OF b] by (simp add: managed_def low_free_def)
  ultimately show "p \<in> frame ` (managed s A - tables s A)" using f(1) by force
next
  fix p assume "p \<in> frame ` (managed s A - tables s A)"
  then obtain q where q: "p = frame q" "q \<in> managed s A" "q \<notin> tables s A" by blast
  then have "page_aligned q" "vmm_phys_to_virt q \<noteq> 0" "frame q \<in> free_pages s" by (auto simp: managed_def tables_def)
  moreover have "frame q < 4096" using phys_to_virt_unat(1) [of q] \<open>vmm_phys_to_virt q \<noteq> 0\<close> by (simp add: word_less_nat_alt unat_frame)
  ultimately show "p \<in> low_free s" by (simp add: low_free_def q(1))
qed

lemma tables_step:
  assumes "mem_step A s A t K U {}"
  shows "tables t A = tables s A"
proof -
  have d: "same_dirs (insert (kernel_page_directory s) A) {} s t" and k: "kernel_page_directory t = kernel_page_directory s"
    using assms by (simp_all add: mem_step_def)
  have "pt_pages t b = pt_pages s b" if "b \<in> insert (kernel_page_directory s) A" for b
    using same_dirsD [OF d that] by (fastforce simp: pt_pages_def)
  then show ?thesis by (simp add: tables_def k)
qed

lemma low_free_step:
  assumes "mem_step A s A t K U {}" "spaces_ok s A" "managed t A = managed s A - N"
  shows "low_free s - frame ` N \<subseteq> low_free t"
proof -
  have "spaces_ok t A" using assms(1) by (simp add: mem_step_def)
  then show ?thesis
    using low_free_managed [of t A] low_free_managed [OF assms(2)] assms(3) tables_step [OF assms(1)] by auto
qed

section \<open>Spawn succeeds\<close>

lemma create_esp: "kthread_create lk entry s = Some (r, t) \<Longrightarrow> reg_esp t = reg_esp s"
proof -
  have "reg_esp w = reg_esp v" if "kmalloc n v = Some (q, w)" for n q and v w :: "'a sched_state_scheme"
    using kmalloc_more [OF that] by (cases v, cases w) simp
  then show "kthread_create lk entry s = Some (r, t) \<Longrightarrow> reg_esp t = reg_esp s"
    by (auto simp: kthread_create_def Option.bind_eq_Some_conv Let_def sched_prepare_kthread_stack_def store_down_def set_task_def
        dest!: reap_esp split: option.splits if_splits)
qed

lemma sint_small: "w < 0x80000000 \<Longrightarrow> sint w = uint w" for w :: u32
proof -
  assume "w < 0x80000000"
  then have u: "uint w < 2 ^ 31" by (simp add: word_less_def)
  then have "take_bit 31 (uint w) = uint w" by (simp add: take_bit_int_eq_self)
  moreover have "\<not> bit (uint w) 31" using u by (simp add: bit_iff_odd)
  ultimately show "sint w = uint w" by (simp add: sint_uint signed_take_bit_eq_if_positive)
qed

lemma no_dead: "\<forall>i < 16. t_state (tasks s ! i) \<noteq> TASK_ZOMBIE \<Longrightarrow> dead_spaces s = {}"
  by (auto simp: dead_spaces_def)

lemma create_succeeds:
  fixes s :: "'a sched_state_scheme"
  assumes M: "sched_mem s A H L" and w: "sched_ok s" and z: "\<forall>i < 16. t_state (tasks s ! i) \<noteq> TASK_ZOMBIE"
    and i: "0 < i" "i < 16" "t_state (tasks s ! i) = TASK_UNUSED" and ca: "can_alloc s"
  obtains t H' L' q where "kthread_create lk (Some f) s = Some (sint (next_task_id s), t)" "heap_step A H s A H' L' t" "H' \<subseteq> insert q H"
    "\<exists>k x. 0 < k \<and> k < 16 \<and> t_state (tasks s ! k) = TASK_UNUSED \<and> t_id x = next_task_id s \<and> t_state x = TASK_RUNNABLE \<and>
       t_address_space x = kernel_page_directory t \<and> tasks t = (tasks s)[k := x]"
    "current_task t = current_task s" "next_task_id t = next_task_id s + 1"
proof -
  have rz: "reap_zombies s = Some s" by (rule reap_none [OF z])
  have rd: "map (reaped s) [0..<16] = tasks s" using z sched_wfD(1) [OF w] by (intro nth_equalityI) (auto simp: reaped_def)
  obtain p u where u: "kmalloc KTHREAD_STACK_SIZE s = Some (p, u)" "\<forall>k \<le> 4084. align_size KTHREAD_STACK_SIZE = Some k \<and> can_alloc s \<longrightarrow> p \<noteq> 0"
    using kmalloc_heap_step [OF M, of KTHREAD_STACK_SIZE] by blast
  have "align_size KTHREAD_STACK_SIZE = Some 2048" by (simp add: align_size_def sched_consts KMALLOC_ALIGN_def)
  then have p: "p \<noteq> 0" using u(2) [rule_format, of 2048] ca by simp
  have len: "length (tasks s) = 16" "tasks u = tasks s" "next_task_id u = next_task_id s"
    using sched_wfD(1) [OF w] sched_varsD [OF kmalloc_sched [OF u(1)]] by simp_all
  obtain j where j: "first_u32 1 MAX_TASKS (\<lambda>i. t_state (task_at i s) = TASK_UNUSED) = Some j"
  proof (cases "first_u32 1 MAX_TASKS (\<lambda>i. t_state (task_at i s) = TASK_UNUSED)")
    case None
    have "unat (word_of_nat i :: u32) = i" using i(2) by (simp add: unat_of_nat)
    then have "t_state (task_at (word_of_nat i) s) \<noteq> TASK_UNUSED"
      using first_u32_NoneD [OF None, of "word_of_nat i"] i by (auto simp: MAX_TASKS_def word_less_nat_alt word_le_nat_alt)
    then show ?thesis using i(3) \<open>unat (word_of_nat i :: u32) = i\<close> by (simp add: task_at_def)
  qed (rule that)
  obtain r t H' L' q where t: "kthread_create lk (Some f) s = Some (r, t)" "heap_step A H s A H' L' t" "H' \<subseteq> insert q H"
    using kthread_create_step [OF M w, of lk f] no_dead [OF z] by auto
  have n: "next_task_id t = next_task_id s + 1"
    using t(1) u(1) p j len(3) by (auto simp: kthread_create_def rz Let_def set_task_def sched_prepare_kthread_stack_def store_down_def split: prod.splits)
  obtain k x where k: "0 < k" "k < 16" "t_state (reaped s k) = TASK_UNUSED" "r = sint (next_task_id s)" "t_id x = next_task_id s" "t_state x = TASK_RUNNABLE"
      "t_address_space x = kernel_page_directory t" "sched_vars t = ((tasks s)[k := x], current_task s, next_task_id s + 1)"
    using create_vars [OF t(1) len(1)] n unfolding rd by (auto simp: sched_vars_def)
  have e: "reaped s k = tasks s ! k" using z k(2) by (simp add: reaped_def)
  show ?thesis
  proof (rule that [OF _ t(2,3)])
    show "kthread_create lk (Some f) s = Some (sint (next_task_id s), t)" using t(1) k(4) by simp
    show "\<exists>k x. 0 < k \<and> k < 16 \<and> t_state (tasks s ! k) = TASK_UNUSED \<and> t_id x = next_task_id s \<and> t_state x = TASK_RUNNABLE \<and>
       t_address_space x = kernel_page_directory t \<and> tasks t = (tasks s)[k := x]"
      using k e by (intro exI [of _ k] exI [of _ x]) (simp add: sched_vars_def)
    show "current_task t = current_task s" "next_task_id t = next_task_id s + 1" using k(8) by (simp_all add: sched_vars_def)
  qed
qed

lemma spawn_succeeds:
  fixes s :: "'a user_state_scheme"
  assumes M: "memory_map Z T s A H L" and I: "kernel_inv s" and z: "\<forall>i < 16. t_state (tasks s ! i) \<noteq> TASK_ZOMBIE"
    and i: "0 < i" "i < 16" "t_state (tasks s ! i) = TASK_UNUSED"
    and c: "0 < length cs" "length cs < 32" "initramfs_find (Some cs) s \<noteq> None"
    and j: "first_u32 0 USER_PROCESS_MAX (\<lambda>i. p_state (proc_at i s) = USER_PROCESS_FREE) = Some j"
    and room: "2 \<le> card (low_free s)" and nt: "next_task_id s < 0x7FFFFFFF"
  obtains t a k x where "user_spawn lk (Some cs) s = Some (sint (next_pid s), t)"
    "0 < k" "k < 16" "t_state (tasks s ! k) = TASK_UNUSED" "t_id x = next_task_id s" "t_state x = TASK_RUNNABLE"
    "kvars t = ((tasks s)[k := x], current_task s, next_task_id s + 1,
       (processes s)[unat j := (new_process s cs a)\<lparr>p_task_id := next_task_id s\<rparr>], next_pid s + 1)"
    "reg_esp t = reg_esp s" "boot_mods t = boot_mods s" "card (low_free s) \<le> card (low_free t) + 2"
proof -
  let ?ps = "processes s"
  note D = memory_mapD [OF M] and W = proc_wfD [OF kernel_invD(4) [OF I]]
  note J = spawn_slot_kvars [OF W(1) j] and V = spawn_slot_same [where s = s and j = j and cs = cs]
  obtain a b where ab: "vmm_create_address_space (spawn_slot j cs s) = (a, b)" by (cases "vmm_create_address_space (spawn_slot j cs s)")
  define w where "w = set_proc j (\<lambda>p. p\<lparr>p_address_space := a\<rparr>) b"
  note S = spawn_space [OF M I j ab, folded w_def] and E = spawn_eq [OF c j ab, of lk, folded w_def]
  have lf: "low_free (spawn_slot j cs s) = low_free s" using vm_same_parts(7) [OF V(1)] by (simp add: low_free_def)
  have su: "spaces_ok (spawn_slot j cs s) A" using D(9) vm_same_parts(1) [OF V(1)] by simp
  have ca: "can_alloc (spawn_slot j cs s)" using can_alloc_low [OF spaces_okD(1) [OF su]] lf room by auto
  note C = create_pages [OF su ab ca]
  have vw: "vm_same b w" by (simp add: w_def set_proc_vm)
  have lw: "low_free w = low_free s - {frame a}" using C(5) vm_same_parts(7) [OF vw] lf by (auto simp: low_free_def)
  have cw: "card (low_free s) \<le> card (low_free w) + 1" unfolding lw using diff_card_le_card_Diff [of "{frame a}" "low_free s"] by simp
  have P: "sched_mem w (insert a A) H L" using S(4) [OF C(2)] by blast
  have sw: "spaces_ok w (insert a A)" using P by (simp add: sched_mem_def)
  have caw: "can_alloc w" using can_alloc_low [OF spaces_okD(1) [OF sw]] cw room by fastforce
  have tw: "tasks w = tasks s" "current_task w = current_task s" "next_task_id w = next_task_id s"
      "processes w = ?ps[unat j := new_process s cs a]" "next_pid w = next_pid s + 1" using S(1) by (simp_all add: kvars_def)
  have ow: "sched_ok w" using kernel_invD(2) [OF I] tw by simp
  obtain v H' L' q k x where v: "kthread_create lk (Some (KFun ''user_exec_task'')) w = Some (sint (next_task_id w), v)"
      "heap_step (insert a A) H w (insert a A) H' L' v" "H' \<subseteq> insert q H" "0 < k" "k < 16" "t_state (tasks w ! k) = TASK_UNUSED"
      "t_id x = next_task_id w" "t_state x = TASK_RUNNABLE" "tasks v = (tasks w)[k := x]" "current_task v = current_task w" "next_task_id v = next_task_id w + 1"
    by (rule create_succeeds [OF P ow _ i(1,2) _ caw, of lk "KFun ''user_exec_task''"]) (use z i(3) tw in auto)
  note hs = heap_stepD [OF v(2)]
  have "low_free w - frame ` (H' - H) \<subseteq> low_free v" by (rule low_free_step [OF hs(2) sw hs(6)])
  then have "low_free w - {frame q} \<subseteq> low_free v" using v(3) by auto
  then have cv: "card (low_free w) \<le> card (low_free v) + 1"
    using diff_card_le_card_Diff [of "{frame q}" "low_free w"] card_mono [of "low_free v" "low_free w - {frame q}"] by simp
  have nn: "\<not> sint (next_task_id w) < 0" using sint_small [of "next_task_id w"] nt tw(3) by (simp add: word_less_nat_alt)
  define t where "t = keyboard_buffer_clear (set_proc j (\<lambda>p. p\<lparr>p_task_id := next_task_id s\<rparr>) v)"
  have uv: "processes v = ?ps[unat j := new_process s cs a]" "next_pid v = next_pid s + 1"
    using sched_more_user [OF create_more [OF v(1)]] tw by (simp_all add: user_vars_def)
  have kt: "processes t = ?ps[unat j := (new_process s cs a)\<lparr>p_task_id := next_task_id s\<rparr>]"
    using uv(1) J(1) W(1) by (simp add: t_def keyboard_buffer_clear_def set_proc_def)
  have st: "tasks t = tasks v" "current_task t = current_task v" "next_task_id t = next_task_id v" "next_pid t = next_pid v" "mvars t = mvars v" "vm_same v t"
    by (simp_all add: t_def keyboard_buffer_clear_def set_proc_def vm_same_def pmm_same_def mvars_def)
  show ?thesis
  proof (rule that [of t])
    have "p_address_space (proc_at j w) = a" using tw(4) J(1) W(1) by (simp add: proc_at_def new_process_def)
    moreover have "p_pid (proc_at j t) = next_pid s" using kt J(1) W(1) by (simp add: proc_at_def new_process_def)
    ultimately show "user_spawn lk (Some cs) s = Some (sint (next_pid s), t)"
      unfolding E using C(2) v(1) nn tw(3) by (simp add: Let_def t_def)
    show "0 < k" "k < 16" "t_state (tasks s ! k) = TASK_UNUSED" "t_id x = next_task_id s" "t_state x = TASK_RUNNABLE" using v(4-8) tw by simp_all
    show "kvars t = ((tasks s)[k := x], current_task s, next_task_id s + 1,
       ?ps[unat j := (new_process s cs a)\<lparr>p_task_id := next_task_id s\<rparr>], next_pid s + 1)" using kt st uv v(9-11) tw by (simp add: kvars_def)
    show "reg_esp t = reg_esp s" using mvarsD(5) [OF st(5)] create_esp [OF v(1)] mvarsD(5) [OF S(2)] by simp
    show "boot_mods t = boot_mods s" using mvarsD(2,3) [OF st(5)] hs(7) mvarsD(2,3) [OF S(2)] by (simp add: boot_mods_def)
    show "card (low_free s) \<le> card (low_free t) + 2" using cw cv vm_same_parts(7) [OF st(6)] by (simp add: low_free_def)
  qed
qed

section \<open>From boot to ring 3\<close>

lemma archive_same:
  assumes "holds_archive s files" "boot_mods t = boot_mods s" "\<And>x. x \<in> area (module_start s) (module_size s) \<Longrightarrow> kmem t x = kmem s x"
  shows "holds_archive t files"
proof -
  obtain enc where e: "emxa_encode files = Some enc" "unat (module_size s) = length enc" "bytes_at (kmem s) (module_start s) enc"
    using assms(1) by (auto simp: holds_archive_def)
  have "bytes_at (kmem t) (module_start s) enc"
    unfolding bytes_at_def
  proof (intro allI impI)
    fix i assume i: "i < length enc"
    have "unat (word_of_nat i :: u32) = i" using i e(2) u32_bound [of "module_size s"] by (simp add: unat_of_nat)
    then have "module_start s + word_of_nat i \<in> area (module_start s) (module_size s)" using i e(2) by (simp add: area_def word_less_nat_alt)
    then show "kmem t (module_start s + word_of_nat i) = enc ! i" using assms(3) bytes_at_nth [OF e(3) i] by simp
  qed
  then show ?thesis using assms(1,2) e by (simp add: holds_archive_def boot_mods_def)
qed

text \<open>The archive lies outside the frames \<open>T\<close> that the kernel hands out.\<close>

definition archive_fixed :: "u32 set \<Rightarrow> 'a boot_state_scheme \<Rightarrow> bool" where
  "archive_fixed T s \<longleftrightarrow> fixed_area (area (module_start s) (module_size s)) T s \<and> unat (module_start s) + unat (module_size s) < 2 ^ 32"

lemma archive_fixed_step: "archive_fixed T s \<Longrightarrow> in_bitmap t = in_bitmap s \<Longrightarrow> boot_mods t = boot_mods s \<Longrightarrow> archive_fixed T t"
  by (simp add: archive_fixed_def fixed_area_def boot_mods_def)

lemma archive_stable:
  assumes M: "memory_map Z T s A H L" and X: "archive_fixed T s" and f: "initramfs_find path s = Some (img, sz)"
  shows "unat img + unat sz < 2 ^ 32" "k < sz \<Longrightarrow> stable s A (img + k)"
proof -
  note F = find_bounds [OF f]
  have fx: "fixed_area (area (module_start s) (module_size s)) T s" and ms: "unat (module_start s) + unat (module_size s) < 2 ^ 32"
    using X by (simp_all add: archive_fixed_def)
  have "unat (img - module_start s + module_start s) = unat (img - module_start s) + unat (module_start s)"
    using F(2) ms by (intro unat_add_lem [THEN iffD1]) simp
  then have i: "unat img = unat (img - module_start s) + unat (module_start s)" by simp
  then show "unat img + unat sz < 2 ^ 32" using F(2) ms by simp
  show "stable s A (img + k)" if "k < sz"
  proof -
    have k: "unat k < unat sz" using that by (simp add: word_less_nat_alt)
    have "unat (img - module_start s + k) = unat (img - module_start s) + unat k"
      using F(2) k ms by (intro unat_add_lem [THEN iffD1]) simp
    then have "img + k - module_start s < module_size s" using F(2) k by (simp add: word_less_nat_alt diff_add_eq)
    then have "img + k \<in> area (module_start s) (module_size s)" by (simp add: area_def)
    then show ?thesis by (rule fixed_stable(1) [OF M fx])
  qed
qed

lemma boot_spawn:
  fixes b :: "'a user_state_scheme"
  assumes B: "booted Z b" and X: "archive_fixed (managed b {}) b" and h: "holds_archive b files" "\<exists>f \<in> set files. fst f = cs" and c: "cs \<noteq> []" and room: "5 \<le> card (low_free b)"
  obtains t A H L k x a where "user_spawn lk (Some cs) (sched_init b) = Some (1, t)" "machine_step lk Z (sched_init b) t"
    "memory_map Z (managed b {}) t A H L" "kernel_inv t" "0 < k" "k < 16" "t_id x = 1" "t_state x = TASK_RUNNABLE"
    "tasks t = (tasks (sched_init b))[k := x]" "current_task t = 0" "next_task_id t = 2" "next_pid t = 2"
    "processes t = (new_process (sched_init b) cs a)\<lparr>p_task_id := 1\<rparr> # replicate 15 zero_process"
    "reg_esp t = reg_esp b" "holds_archive t files" "boot_mods t = boot_mods b" "3 \<le> card (low_free t)"
    "archive_fixed (managed b {}) t"
proof -
  let ?s = "sched_init b"
  note T = boot_tables [OF B] and M = memory_map_boot [OF B] and S = sched_init_same [of b]
  have at: "i < 16 \<Longrightarrow> t_state (tasks ?s ! i) = (if i = 0 then TASK_RUNNING else TASK_UNUSED)" for i unfolding T(1) by (simp add: nth_Cons')
  have p: "proc_at i ?s = zero_process" if "i < USER_PROCESS_MAX" for i using that T(4) by (simp add: proc_at_def less_processes)
  have hs: "holds_archive ?s files" by (rule archive_same [OF h(1) S(4)]) (use vm_same_parts(8) [OF S(1)] in simp)
  have cs: "length cs < 32" "0 \<notin> set cs" using h by (auto simp: holds_archive_def paths_ok_def dest: emxa_encodeD(1))
  obtain n where n: "n < length files" "fst (files ! n) = cs" using h(2) by (metis in_set_conv_nth)
  have f: "initramfs_find (Some cs) ?s \<noteq> None"
  proof -
    obtain m where "m < length files" "fst (files ! m) = cs" "\<forall>j < m. fst (files ! j) \<noteq> cs"
      using exists_least_iff [of "\<lambda>m. m < length files \<and> fst (files ! m) = cs"] n less_trans by blast
    then show ?thesis using find_archive(1) [OF hs cs(2)] by simp
  qed
  have j: "first_u32 0 USER_PROCESS_MAX (\<lambda>i. p_state (proc_at i ?s) = USER_PROCESS_FREE) = Some 0"
    by (rule first_u32_eqI) (use p [of 0] in \<open>auto simp: zero_process_def USER_PROCESS_MAX_def\<close>)
  have lf: "low_free ?s = low_free b" using vm_same_parts(7) [OF S(1)] by (simp add: low_free_def)
  have z: "\<forall>i < 16. t_state (tasks ?s ! i) \<noteq> TASK_ZOMBIE" using at by simp
  have q: "0 < (1 :: nat)" "1 < (16 :: nat)" "t_state (tasks ?s ! 1) = TASK_UNUSED" "0 < length cs" "2 \<le> card (low_free ?s)" "next_task_id ?s < 0x7FFFFFFF"
    using at [of 1] c room lf T(3) by simp_all
  obtain t a k x where t: "user_spawn lk (Some cs) ?s = Some (sint (next_pid ?s), t)"
    "0 < k" "k < 16" "t_state (tasks ?s ! k) = TASK_UNUSED" "t_id x = next_task_id ?s" "t_state x = TASK_RUNNABLE"
    "kvars t = ((tasks ?s)[k := x], current_task ?s, next_task_id ?s + 1,
       (processes ?s)[unat (0 :: u32) := (new_process ?s cs a)\<lparr>p_task_id := next_task_id ?s\<rparr>], next_pid ?s + 1)"
    "reg_esp t = reg_esp ?s" "boot_mods t = boot_mods ?s" "card (low_free ?s) \<le> card (low_free t) + 2"
    by (rule spawn_succeeds [OF M T(6) z q(1,2,3) q(4) cs(1) f j q(5,6), of lk]) (rule that; assumption)
  have none: "user_process_find_by_task_id (sched_current_task_id ?s) ?s = None"
  proof (rule ccontr)
    assume "user_process_find_by_task_id (sched_current_task_id ?s) ?s \<noteq> None"
    then obtain i where i: "user_process_find_by_task_id (sched_current_task_id ?s) ?s = Some i" by blast
    show False using find_by_task_Some [OF i] T(4) by (auto simp: zero_process_def)
  qed
  have ms: "machine_step lk Z ?s t"
    unfolding machine_step_def by (rule disjI1, rule system_step.spawn [OF t(1)]) (use none T(3,5) in \<open>simp_all add: process_state_is_def\<close>)
  have Xs: "archive_fixed (managed b {}) ?s" by (rule archive_fixed_step [OF X vm_same_parts(11) [OF S(1)] S(4)])
  obtain A H L where N: "memory_map Z (managed b {}) t A H L" "mem_step {} ?s A t {} (page_area {}) {}"
    using spawn_map [OF M T(6), of lk "Some cs"] t(1) by auto
  show ?thesis
  proof (rule that [of t A H L k x a])
    show "user_spawn lk (Some cs) ?s = Some (1, t)" using t(1) T(5) by simp
    show "kernel_inv t" by (rule kernel_step_inv [OF machine_kernel_step [OF ms] T(6)])
    have km: "kmem t y = kmem ?s y" if "y \<in> area (module_start ?s) (module_size ?s)" for y
      using N(2) fixed_stable(1) [OF M Xs [unfolded archive_fixed_def, THEN conjunct1], of y] that by (simp add: mem_step_def)
    have "in_bitmap t = in_bitmap ?s" using N(2) by (simp add: mem_step_def)
    then show "archive_fixed (managed b {}) t" by (rule archive_fixed_step [OF Xs _ t(9)])
    show "holds_archive t files" by (rule archive_same [OF hs t(9) km])
    show "boot_mods t = boot_mods b" "reg_esp t = reg_esp b" using t(8,9) S(4) sched_init_esp [of b] by simp_all
    show "3 \<le> card (low_free t)" using t(10) room lf by simp
    show "tasks t = (tasks ?s)[k := x]" "current_task t = 0" "next_task_id t = 2" "next_pid t = 2"
      "processes t = (new_process ?s cs a)\<lparr>p_task_id := 1\<rparr> # replicate 15 zero_process"
      using t(7) T(2-5) by (simp_all add: kvars_def numeral_nat)
    show "t_id x = 1" using t(5) T(3) by simp
  qed (rule ms N(1) t(2) t(3) t(6))+
qed

text \<open>The boot task gives way to the only other task.\<close>

lemma boot_switch:
  fixes s :: "'a user_state_scheme"
  assumes M: "memory_map Z T s A H L" and I: "kernel_inv s" and k: "0 < k" "k < 16" "t_state x = TASK_RUNNABLE"
    and ts: "tasks s = (boot # replicate 15 blank_task)[k := x]" "t_state boot = TASK_RUNNING" "current_task s = 0"
    and st: "on_stack Z s" and h: "holds_archive s files" "Z \<inter> area (module_start s) (module_size s) = {}" "archive_fixed T s"
  obtains t L' where "sched_yield s = Some (True, t)" "machine_step lk Z s t" "memory_map Z T t A H L'" "kernel_inv t"
    "current_task t = word_of_nat k" "t_id (tasks t ! k) = t_id x" "processes t = processes s" "next_task_id t = next_task_id s" "next_pid t = next_pid s"
    "holds_archive t files" "boot_mods t = boot_mods s" "card (low_free s) \<le> card (low_free t)" "archive_fixed T t"
proof -
  note D = memory_mapD [OF M] and w = kernel_invD(2) [OF I]
  have at: "tasks s ! i = (if i = k then x else if i = 0 then boot else blank_task)" if "i < 16" for i
  proof -
    have "k < length (boot # replicate 15 blank_task)" using k(2) by simp
    from nth_list_update [OF this, of x i] show ?thesis using that k(1) unfolding ts(1) by (auto simp: nth_Cons')
  qed
  have z: "\<forall>i < 16. t_state (tasks s ! i) \<noteq> TASK_ZOMBIE" using at k(3) ts(2) by simp
  have l: "length (tasks s) = 16" by (rule sched_wfD(1) [OF w])
  have rd: "map (reaped s) [0..<16] = tasks s" using z l by (intro nth_equalityI) (auto simp: reaped_def)
  have us: "t_state (tasks s ! unat (current_task s)) \<noteq> TASK_UNUSED" using at [of 0] ts k(1) by simp
  obtain sw t L' where t: "sched_yield s = Some (sw, t)" "switch_step A H Z s L' t" "memory_map Z T t A H L'"
    using yield_map [OF M w us st] no_dead [OF z] by auto
  note S = t(2) [unfolded switch_step_def no_dead [OF z] Diff_empty]
  have ms: "machine_step lk Z s t" unfolding machine_step_def using system_step.yield [OF t(1) st] by blast
  note V = sched_yield_vars [OF t(1) l, unfolded rd ts(3)]
  obtain idx where i: "next_index (tasks s) 0 = Some idx"
    using next_index_NoneD [of "tasks s" 0 k] at [OF k(2)] k by (cases "next_index (tasks s) 0") auto
  have ik: "unat idx = k" using next_index_SomeD(1,2) [OF i] at [of "unat idx"] ts(2) by (auto split: if_splits)
  have wk: "idx = word_of_nat k" using ik by auto
  obtain sp where sv: "sched_vars t = (handover (tasks s) 0 k sp, idx, next_task_id s)" using V(1) i ik by auto
  have uv: "user_vars t = user_vars s" by (rule sched_more_user [OF yield_more [OF t(1)]])
  show ?thesis
  proof (rule that [OF _ ms t(3)])
    show "sched_yield s = Some (True, t)" using t(1) V(2) i by simp
    show "kernel_inv t" by (rule kernel_step_inv [OF machine_kernel_step [OF ms] I])
    show "current_task t = word_of_nat k" "next_task_id t = next_task_id s" using sv wk by (simp_all add: sched_vars_def)
    have "tasks t = handover (tasks s) 0 k sp" using sv by (simp add: sched_vars_def)
    then show "t_id (tasks t ! k) = t_id x" using at [OF k(2)] k l by (simp add: handover_def Let_def)
    show "processes t = processes s" "next_pid t = next_pid s" using uv by (simp_all add: user_vars_def)
    show bm: "boot_mods t = boot_mods s" using S by blast
    have "kmem t y = kmem s y" if "y \<in> area (module_start s) (module_size s)" for y
      using S fixed_stable(1,2) [OF M h(3) [unfolded archive_fixed_def, THEN conjunct1], of y] that h(2) by (auto simp: mem_step_def)
    have "in_bitmap t = in_bitmap s" using S by (simp add: mem_step_def)
    then show "archive_fixed T t" by (rule archive_fixed_step [OF h(3) _ bm])
    note km = \<open>\<And>y. y \<in> area (module_start s) (module_size s) \<Longrightarrow> kmem t y = kmem s y\<close>
    show "holds_archive t files" by (rule archive_same [OF h(1) bm km])
    have "low_free s - frame ` {} \<subseteq> low_free t" by (rule low_free_step [OF _ D(9)]) (use S in auto)
    then show "card (low_free s) \<le> card (low_free t)" by (intro card_mono) auto
  qed
qed

text \<open>Ring 3 reads what the kernel does, where both levels of the tables let it.\<close>

lemma user_load_cpu:
  assumes "pd_entry s (cr3 s) (VMM_PDE_INDEX v) AND 6 = 6" "pte s (cr3 s) v AND 5 = 5"
  shows "user_load v s = cpu_byte s v"
proof -
  have o: "odd (pte s (cr3 s) v)" using assms(2) by (metis even_and_iff odd_numeral)
  then have "odd (pd_entry s (cr3 s) (VMM_PDE_INDEX v))" by (auto simp: pte_def Let_def split: if_splits)
  then show ?thesis using o assms all_rights(2) by (simp add: user_load_def cpu_byte_def user_translate_pte cpu_translate_pte)
qed

text \<open>A packed program is found whole.\<close>

lemma archived_program:
  fixes s :: "'a user_state_scheme"
  assumes h: "holds_archive s files" "n < length files" "files ! n = (cs, emxf_file code)" "\<forall>j < n. fst (files ! j) \<noteq> cs"
    and c: "0 < length code" "length code \<le> 4096" and b: "unat (module_start s) + unat (module_size s) < 2 ^ 32"
  obtains img where "initramfs_find (Some cs) s = Some (img, word_of_nat (12 + length code))" "emxf_ok s img (word_of_nat (12 + length code))"
    "read_le32 (kmem s) (img + 4) = word_of_nat (length code)" "read_le32 (kmem s) (img + 8) = 0"
    "\<And>i. i < length code \<Longrightarrow> kmem s (img + 12 + word_of_nat i) = code ! i"
proof -
  let ?img = "module_start s + word_of_nat (file_offset files n)"
  note F = archive_file [OF h(1,2), unfolded h(3) snd_conv]
  have zc: "0 \<notin> set cs" using h(1,2,3) nth_mem [OF h(2)] by (auto simp: holds_archive_def paths_ok_def)
  have f: "initramfs_find (Some cs) s = Some (?img, word_of_nat (12 + length code))"
    using find_archive(1) [OF h(1) zc h(2)] h(3,4) by (simp add: emxf_file_length)
  have "?img \<noteq> 0"
  proof
    assume z: "?img = 0"
    have "unat (word_of_nat (file_offset files n) :: u32) = file_offset files n" using F(5) u32_bound [of "module_size s"] by (simp add: unat_of_nat)
    then have "unat ?img = unat (module_start s) + file_offset files n" using F(5) b unfolding unat_word_ariths by simp
    then show False unfolding z by (simp add: file_offset_def)
  qed
  note P = program_image [OF F(4) c this]
  show ?thesis by (rule that [OF f P(4,1,2,3)])
qed

text \<open>The new task loads its program.\<close>

lemma boot_enter:
  fixes s :: "'a user_state_scheme"
  assumes M: "memory_map Z T s A H L" and I: "kernel_inv s"
    and k: "0 < k" "k < 16" "current_task s = word_of_nat k" "t_id (tasks s ! k) = 1"
    and p: "processes s = p # replicate 15 zero_process" "p_task_id p = 1" "p_state p = USER_PROCESS_CREATED" "c_string (p_path p) = cs"
    and h: "holds_archive s files" "n < length files" "files ! n = (cs, emxf_file code)" "\<forall>j < n. fst (files ! j) \<noteq> cs"
    and c: "0 < length code" "length code \<le> 4096" and room: "3 \<le> card (low_free s)" and X: "archive_fixed T s"
  obtains t where "user_exec_task s = Enters t" "machine_step lk Z s t" "kernel_inv t"
    "\<And>i. i < 4096 \<Longrightarrow> user_load (0x400000 + word_of_nat i) t = Some (if i < length code then code ! i else 0)"
    "pte t (p_address_space p) 0x400000 AND 5 = 5" "cr3 t = p_address_space p" "user_eip t = 0x400000" "user_esp t = 0x800000" "user_cs t = 0x1B"
    "p_state (processes t ! 0) = USER_PROCESS_RUNNING" "p_pid (processes t ! 0) = p_pid p" "p_address_space (processes t ! 0) = p_address_space p"
    "next_task_id t = next_task_id s" "current_task t \<noteq> 0"
proof -
  note D = memory_mapD [OF M]
  have u: "unat (current_task s) = k" unfolding k(3) using k(2) by (simp add: unat_of_nat)
  have id: "sched_current_task_id s = 1" using u k(4) by (simp add: sched_current_task_id_def task_at_def)
  have at: "proc_at 0 s = p" by (simp add: proc_at_def p(1))
  have f: "user_process_find_by_task_id (sched_current_task_id s) s = Some 0"
    unfolding user_process_find_by_task_id_def id by (intro first_u32_eqI) (auto simp: at p(2,3) USER_PROCESS_MAX_def)
  have r: "p_state (proc_at 0 s) = USER_PROCESS_CREATED" by (simp add: at p(3))
  have E: "exec_ready s A 0 (p_address_space (proc_at 0 s))"
    unfolding exec_ready_def using exec_start_map [OF M I f r] archive_stable [OF M X] by (auto split: option.split)
  have b: "unat (module_start s) + unat (module_size s) < 2 ^ 32" using X by (simp add: archive_fixed_def)
  obtain img where P: "initramfs_find (Some cs) s = Some (img, word_of_nat (12 + length code))" "emxf_ok s img (word_of_nat (12 + length code))"
      "read_le32 (kmem s) (img + 4) = word_of_nat (length code)" "read_le32 (kmem s) (img + 8) = 0"
      "\<And>i. i < length code \<Longrightarrow> kmem s (img + 12 + word_of_nat i) = code ! i"
    by (rule archived_program [OF h c b]) (rule that; assumption)
  have fi: "initramfs_find (Some (c_string (p_path (proc_at 0 s)))) s = Some (img, word_of_nat (12 + length code))" using P(1) by (simp add: at p(4))
  have cz: "current_task s \<noteq> 0" using u k(1) by auto
  obtain t where t: "user_exec_task s = Enters t" using exec_task_succeeds [OF exec_readyD(1) [OF E] fi P(2) room cz] by blast
  have G: "image_loaded s A 0 (p_address_space p) img t" using exec_task_enters [OF E t] fi by (auto simp: at)
  note G = G [unfolded image_loaded_def]
  have ct: "current_task t \<noteq> 0" by (rule enters_parts [OF exec_readyD(1) [OF E] t]) (use cz in simp)
  have ms: "machine_step lk Z s t" unfolding machine_step_def using program_step.exec [OF t] f r by (auto simp: process_state_is_def)
  show ?thesis
  proof (rule that [OF t ms])
    show "current_task t \<noteq> 0" by (rule ct)
    show "kernel_inv t" by (rule kernel_step_inv [OF machine_kernel_step [OF ms] I])
    obtain C S where C: "\<forall>w. VMM_PDE_INDEX w < KERNEL_PDE_INDEX \<longrightarrow> pte t (p_address_space p) w = (if frame w = 0x400 then C OR 5 else if frame w = 0x7ff then S OR 7 else 0)"
      using G by blast
    have code: "VMM_PDE_INDEX (0x400000 + w) = 1" "pte t (p_address_space p) (0x400000 + w) AND 5 = 5" if "w < 4096" for w
    proof -
      have fr: "frame (0x400000 + w) = frame 0x400000" by (rule page_offset(3) [OF user_pages(7) that])
      then show i: "VMM_PDE_INDEX (0x400000 + w) = 1" using user_pages(5) same_frame_index by metis
      show "pte t (p_address_space p) (0x400000 + w) AND 5 = 5"
        using C [rule_format, of "0x400000 + w"] i fr user_pages(3) by (simp add: KERNEL_PDE_INDEX_eq bit.conj_disj_distrib2)
    qed
    show "pte t (p_address_space p) 0x400000 AND 5 = 5" using code(2) [of 0] by simp
    show cr: "cr3 t = p_address_space p" using G by blast
    show "user_load (0x400000 + word_of_nat i) t = Some (if i < length code then code ! i else 0)" if i: "i < 4096" for i
    proof -
      have w: "unat (word_of_nat i :: u32) = i" "unat (word_of_nat (length code) :: u32) = length code" using i c by (simp_all add: unat_of_nat)
      have l: "word_of_nat i < (4096 :: u32)" "(word_of_nat i :: u32) < word_of_nat (length code) \<longleftrightarrow> i < length code" using w i by (simp_all add: word_less_nat_alt)
      have "user_load (0x400000 + word_of_nat i) t = cpu_byte t (0x400000 + word_of_nat i)"
        by (rule user_load_cpu) (use code [OF l(1)] cr G in auto)
      then show ?thesis using G l P(3) P(5) [of i] by simp
    qed
    show "user_eip t = 0x400000" "user_esp t = 0x800000" "user_cs t = 0x1B" using G P(4) by simp_all
    show "p_state (processes t ! 0) = USER_PROCESS_RUNNING" "p_pid (processes t ! 0) = p_pid p" "p_address_space (processes t ! 0) = p_address_space p"
      "next_task_id t = next_task_id s"
      using exec_tables(1) [OF f _ t] by (auto simp: p(1) user_vars_def keeps_def sched_set_current_address_space_def paging_load_directory_def Let_def sched_vars_def set_task_def split: if_splits)
  qed
qed

lemma boot_run:
  fixes b :: "'a user_state_scheme"
  assumes B: "booted Z b" and X: "archive_fixed (managed b {}) b" and esp: "\<forall>x. x - (reg_esp b - 16) < 20 \<longrightarrow> x \<in> Z" and Z: "Z \<inter> area (module_start b) (module_size b) = {}"
    and h: "holds_archive b files" "n < length files" "files ! n = (cs, emxf_file code)" "\<forall>j < n. fst (files ! j) \<noteq> cs" and cs: "cs \<noteq> []"
    and c: "0 < length code" "length code \<le> 4096" and room: "5 \<le> card (low_free b)"
  obtains u v t where "user_spawn lk (Some cs) (sched_init b) = Some (1, u)" "sched_yield u = Some (True, v)" "user_exec_task v = Enters t"
    "machine_step lk Z (sched_init b) u" "machine_step lk Z u v" "machine_step lk Z v t"
    "\<And>i. i < 4096 \<Longrightarrow> user_load (0x400000 + word_of_nat i) t = Some (if i < length code then code ! i else 0)"
    "pte t (p_address_space (processes t ! 0)) 0x400000 AND 5 = 5" "cr3 t = p_address_space (processes t ! 0)" "user_eip t = 0x400000" "user_esp t = 0x800000" "user_cs t = 0x1B"
    "p_state (processes t ! 0) = USER_PROCESS_RUNNING" "p_pid (processes t ! 0) = 1" "next_task_id t = 2" "current_task t \<noteq> 0"
proof -
  let ?s = "sched_init b"
  note T = boot_tables [OF B]
  have f: "\<exists>f \<in> set files. fst f = cs" using nth_mem [OF h(2)] h(3) by (intro bexI [of _ "files ! n"]) simp_all
  obtain u A H L k x a where u: "user_spawn lk (Some cs) ?s = Some (1, u)" "machine_step lk Z ?s u"
    "memory_map Z (managed b {}) u A H L" "kernel_inv u" "0 < k" "k < 16" "t_id x = 1" "t_state x = TASK_RUNNABLE"
    "tasks u = (tasks ?s)[k := x]" "current_task u = 0" "next_task_id u = 2" "next_pid u = 2"
    "processes u = (new_process ?s cs a)\<lparr>p_task_id := 1\<rparr> # replicate 15 zero_process"
    "reg_esp u = reg_esp b" "holds_archive u files" "boot_mods u = boot_mods b" "3 \<le> card (low_free u)" "archive_fixed (managed b {}) u"
    by (rule boot_spawn [OF B X h(1) f cs room, of lk]) (rule that; assumption)
  have os: "on_stack Z u" using esp u(10,14) by (simp add: on_stack_def stack_area_def)
  have Zu: "Z \<inter> area (module_start u) (module_size u) = {}" using Z u(16) by (simp add: boot_mods_def)
  let ?boot = "blank_task\<lparr>t_state := TASK_RUNNING, t_address_space := kernel_page_directory b\<rparr>"
  have tu: "tasks u = (?boot # replicate 15 blank_task)[k := x]" "t_state ?boot = TASK_RUNNING" using u(9) T(1) by simp_all
  obtain v L' where v: "sched_yield u = Some (True, v)" "machine_step lk Z u v" "memory_map Z (managed b {}) v A H L'" "kernel_inv v"
    "current_task v = word_of_nat k" "t_id (tasks v ! k) = t_id x" "processes v = processes u" "next_task_id v = next_task_id u"
    "holds_archive v files" "card (low_free u) \<le> card (low_free v)" "archive_fixed (managed b {}) v"
    by (rule boot_switch [OF u(3-6,8) tu u(10) os u(15) Zu u(18), of lk]) (rule that; assumption)
  let ?p = "(new_process ?s cs a)\<lparr>p_task_id := 1\<rparr>"
  have "0 \<notin> set cs" using h(1) f by (auto simp: holds_archive_def paths_ok_def)
  then have cstr: "c_string (p_path ?p) = cs" by (auto simp: new_process_def c_string_def takeWhile_tail)
  have p: "processes v = ?p # replicate 15 zero_process" "p_task_id ?p = 1" "p_state ?p = USER_PROCESS_CREATED" "p_pid ?p = 1"
    using u(13) v(7) T(5) by (simp_all add: new_process_def)
  have id: "t_id (tasks v ! k) = 1" "3 \<le> card (low_free v)" using v(6,10) u(7,17) by simp_all
  obtain t where t: "user_exec_task v = Enters t" "machine_step lk Z v t"
    "\<And>i. i < 4096 \<Longrightarrow> user_load (0x400000 + word_of_nat i) t = Some (if i < length code then code ! i else 0)"
    "pte t (p_address_space ?p) 0x400000 AND 5 = 5" "cr3 t = p_address_space ?p" "user_eip t = 0x400000" "user_esp t = 0x800000" "user_cs t = 0x1B"
    "p_state (processes t ! 0) = USER_PROCESS_RUNNING" "p_pid (processes t ! 0) = p_pid ?p" "p_address_space (processes t ! 0) = p_address_space ?p"
    "next_task_id t = next_task_id v" "current_task t \<noteq> 0"
    by (rule boot_enter [OF v(3,4) u(5,6) v(5) id(1) p(1-3) cstr v(9) h(2-4) c id(2) v(11), of lk]) (rule that; assumption)
  show ?thesis
    by (rule that [OF u(1) v(1) t(1) u(2) v(2) t(2,3)]) (use t(4-13) p(4) u(11) v(8) in simp_all)
qed

section \<open>Properties\<close>

text \<open>
  C3: a booted machine runs the program it is asked to.  With a few free frames and an archive that lies
  outside the frames the kernel hands out and in which the
  archive writer put the executable of \<open>code\<close> under the path, spawn returns pid 1, the next task
  switch picks the new thread, and the thread enters ring 3 at the first byte of the program: there
  the program finds \<open>code\<close> at 0x400000, zeros after it up to the end of the page, and its stack
  pointer at 0x800000.
\<close>

theorem boot_runs_program:
  fixes b :: "'a user_state_scheme"
  assumes "booted Z b" "archive_fixed (managed b {}) b" "\<forall>x. x - (reg_esp b - 16) < 20 \<longrightarrow> x \<in> Z" "Z \<inter> area (module_start b) (module_size b) = {}"
    and "holds_archive b files" "n < length files" "files ! n = (cs, emxf_file code)" "\<forall>j < n. fst (files ! j) \<noteq> cs" "cs \<noteq> []"
    and "0 < length code" "length code \<le> 4096" "5 \<le> card (low_free b)"
  shows "\<exists>u v t. user_spawn lk (Some cs) (sched_init b) = Some (1, u) \<and> sched_yield u = Some (True, v) \<and> user_exec_task v = Enters t \<and>
    (\<forall>i < 4096. user_load (0x400000 + word_of_nat i) t = Some (if i < length code then code ! i else 0)) \<and>
    user_eip t = 0x400000 \<and> user_esp t = 0x800000 \<and> user_cs t = 0x1B \<and>
    p_state (processes t ! 0) = USER_PROCESS_RUNNING \<and> p_pid (processes t ! 0) = 1"
  by (rule boot_run [OF assms, of lk]) blast

section \<open>A concrete machine\<close>

text \<open>The machine of eight frames after boot, with an archive of one file at 1 MiB and the boot stack above it.\<close>

definition nursery :: "u8 list \<Rightarrow> user_state" where
  "nursery file = (small_user (replicate 16 blank_task) (replicate 16 zero_process))\<lparr>
     kmem := \<lambda>x. if x - 0xC0100000 < word_of_nat (length (newborn_archive file)) then newborn_archive file ! unat (x - 0xC0100000) else kmem small_vm x,
     cr3 := 0x4000, module_start := 0xC0100000, module_size := word_of_nat (length (newborn_archive file))\<rparr>"

definition nursery_stack :: "ptr set" where
  "nursery_stack = area 0xC011F000 0x2000"

lemma nursery_simps:
  "module_start (nursery file) = 0xC0100000" "module_size (nursery file) = word_of_nat (length (newborn_archive file))"
  "cr3 (nursery file) = 0x4000" "heap_list (nursery file) = 0" "reg_esp (nursery file) = 0xC0120000" "kernel_page_directory (nursery file) = 0x4000"
  "tasks (nursery file) = replicate 16 blank_task" "next_task_id (nursery file) = 0" "processes (nursery file) = replicate 16 zero_process" "next_pid (nursery file) = 1"
  by (simp_all add: nursery_def small_user_def small_sched_def small_dev_def small_desc_def boot0_def small_vm_def
      sched_state.defs dev_state.defs desc_state.defs boot_state.defs heap_state.defs vmm_state.defs)

lemma high_frame: "x - 0xC0100000 < 0x100000 \<Longrightarrow> 0xC0009 \<le> frame x"
proof -
  assume "x - 0xC0100000 < 0x100000"
  then have "unat (x - 0xC0100000) < 0x100000" by (simp add: word_less_nat_alt)
  moreover have "unat x = unat (x - 0xC0100000) + 0xC0100000"
    using calculation unat_word_ariths(1) [of "x - 0xC0100000" "0xC0100000"] by simp
  ultimately show "0xC0009 \<le> frame x" by (simp add: word_le_nat_alt unat_frame)
qed

lemma nursery_memory:
  assumes "length file \<le> 256"
  defines "s \<equiv> nursery file"
  shows "spaces_ok s {}" "low_free s = {1, 2, 3, 5, 6, 7}" "kernel_private s" "holds_archive s [([47, 97], file)]"
    and "in_bitmap s x \<longleftrightarrow> x = 0xC0008000" "q \<in> managed s {} \<Longrightarrow> 0xC0009 \<le> frame x \<Longrightarrow> frame x \<noteq> frame (vmm_phys_to_virt q)"
proof -
  let ?enc = "newborn_archive file"
  have n: "length ?enc = 48 + length file" by (simp add: newborn_archive_def le32_def)
  have w: "unat (word_of_nat (length ?enc) :: u32) = length ?enc" unfolding unat_of_nat by (rule mod_less) (use assms(1) n in simp)
  define m where "m = (\<lambda>x. if x - 0xC0100000 < word_of_nat (length ?enc) then ?enc ! unat (x - 0xC0100000) else kmem small_vm x)"
  have mx: "pmm_max_page small_vm = 8" by (simp add: small_vm_def)
  have hi: "0xC0009 \<le> frame x" if "x - 0xC0100000 < word_of_nat (length ?enc)" for x :: u32
    by (rule high_frame) (use that w n assms(1) in \<open>simp add: word_less_nat_alt\<close>)
  have W: "\<not> stable small_vm {} x \<Longrightarrow> m x = kmem small_vm x" for x
    using high_stable [OF mx small_vm_spaces small_vm_bitmap] hi by (auto simp: m_def)
  note S = stable_write [where m = m, OF small_vm_spaces W]
  have v: "vm_same (small_vm\<lparr>kmem := m\<rparr>) s"
    by (simp add: s_def nursery_def vm_same_def pmm_same_def m_def small_user_def small_sched_def small_dev_def small_desc_def boot0_def
      sched_state.defs dev_state.defs desc_state.defs boot_state.defs heap_state.defs vmm_state.defs)
  note V = vm_same_parts [OF v]
  show sp: "spaces_ok s {}" using V(1) S(1) by simp
  show "low_free s = {1, 2, 3, 5, 6, 7}" using V(7) S(2) small_vm_low by (simp add: low_free_def)
  show "in_bitmap s x \<longleftrightarrow> x = 0xC0008000" using V(11) S(4) small_vm_bitmap by simp
  have "pte s 0x4000 x = 0" for x
  proof -
    have "pd_entry s 0x4000 (VMM_PDE_INDEX x) = 0"
      using V(6) S(7) [of "0x4000" "VMM_PDE_INDEX x"] small_vm_directory [of "VMM_PDE_INDEX x"] by (simp add: small_vm_def)
    then show ?thesis by (simp add: pte_def)
  qed
  then show "kernel_private s" by (simp add: kernel_private_def s_def nursery_simps)
  show "q \<in> managed s {} \<Longrightarrow> 0xC0009 \<le> frame x \<Longrightarrow> frame x \<noteq> frame (vmm_phys_to_virt q)"
    using high_area [OF mx small_vm_spaces] V(2) S(3) by simp
  have "emxa_encode [([47, 97], file)] = Some ?enc" using assms(1) by (simp add: emxa_encode_def newborn_archive_def)
  moreover have "bytes_at (kmem s) 0xC0100000 ?enc"
    unfolding bytes_at_def
  proof (intro allI impI)
    fix i assume i: "i < length ?enc"
    have u: "unat (word_of_nat i :: u32) = i" unfolding unat_of_nat by (rule mod_less) (use i n assms(1) in simp)
    have "(word_of_nat i :: u32) < word_of_nat (length ?enc)" using i unfolding word_less_nat_alt u w .
    then show "kmem s (0xC0100000 + word_of_nat i) = ?enc ! i" using u V(8) by (simp add: m_def)
  qed
  ultimately show "holds_archive s [([47, 97], file)]" using w by (simp add: holds_archive_def paths_ok_def s_def nursery_simps)
qed

lemma nursery_areas:
  assumes "length file \<le> 256"
  shows "x \<in> nursery_stack \<union> area (module_start (nursery file)) (module_size (nursery file)) \<Longrightarrow> 0xC0009 \<le> frame x"
    and "nursery_stack \<inter> area (module_start (nursery file)) (module_size (nursery file)) = {}"
    and "x - (reg_esp (nursery file) - 16) < 20 \<Longrightarrow> x \<in> nursery_stack"
proof -
  have n: "length (newborn_archive file) \<le> 304" using assms by (simp add: newborn_archive_def le32_def)
  have w: "unat (word_of_nat (length (newborn_archive file)) :: u32) \<le> 304" using n unfolding unat_of_nat by (rule le_trans [OF mod_less_eq_dividend])
  have m: "unat (x - 0xC0100000) < 304" if "x \<in> area (module_start (nursery file)) (module_size (nursery file))" for x
    using that w by (simp add: area_def nursery_simps word_less_nat_alt)
  have shift: "unat (x - 0xC0100000) = unat (x - 0xC011F000) + 0x1F000" if "x \<in> nursery_stack" for x
  proof -
    have "x - 0xC0100000 = (x - 0xC011F000) + 0x1F000" by simp
    moreover have "unat (x - 0xC011F000) < 0x2000" using that by (simp add: nursery_stack_def area_def word_less_nat_alt)
    ultimately show ?thesis by (simp only: unat_word_ariths) simp
  qed
  have s: "unat (x - 0xC0100000) < 0x100000" "0x1F000 \<le> unat (x - 0xC0100000)" if "x \<in> nursery_stack" for x
    using shift [OF that] that by (simp_all add: nursery_stack_def area_def word_less_nat_alt)
  show "x \<in> nursery_stack \<union> area (module_start (nursery file)) (module_size (nursery file)) \<Longrightarrow> 0xC0009 \<le> frame x"
    by (rule high_frame) (use m [of x] s(1) [of x] in \<open>auto simp: word_less_nat_alt\<close>)
  show "nursery_stack \<inter> area (module_start (nursery file)) (module_size (nursery file)) = {}" using m s(2) by fastforce
  show "x \<in> nursery_stack" if x: "x - (reg_esp (nursery file) - 16) < 20"
  proof -
    have "x - 0xC011F000 = (x - 0xC011FFF0) + 0xFF0" by simp
    moreover have "unat (x - 0xC011FFF0) < 20" using x by (simp add: nursery_simps word_less_nat_alt)
    ultimately have "unat (x - 0xC011F000) < 0x2000" by (simp only: unat_word_ariths) simp
    then show ?thesis by (simp add: nursery_stack_def area_def word_less_nat_alt)
  qed
qed

lemma nursery_booted:
  assumes "length file \<le> 256"
  shows "booted nursery_stack (nursery file)" "archive_fixed (managed (nursery file) {}) (nursery file)"
proof -
  note N = nursery_memory [OF assms] and A = nursery_areas [OF assms]
  have b: "frame 0xC0008000 = 0xC0008" by (simp add: frame_def)
  have "length (newborn_archive file) \<le> 304" using assms by (simp add: newborn_archive_def le32_def)
  then have "unat (module_start (nursery file)) + unat (module_size (nursery file)) < 2 ^ 32" by (simp add: nursery_simps unat_of_nat)
  moreover have "\<not> in_bitmap (nursery file) x \<and> x \<notin> page_area (managed (nursery file) {})"
    if "x \<in> nursery_stack \<union> area (module_start (nursery file)) (module_size (nursery file))" for x
    using A(1) [OF that] N(5) [of x] N(6) [of _ x] b by (auto simp: page_area_def)
  ultimately have "fixed_area nursery_stack (managed (nursery file) {}) (nursery file)" "archive_fixed (managed (nursery file) {}) (nursery file)"
    by (simp_all add: fixed_area_def archive_fixed_def)
  then show "booted nursery_stack (nursery file)" "archive_fixed (managed (nursery file) {}) (nursery file)"
    unfolding booted_def using N(1,3) by (simp_all add: nursery_simps)
qed

theorem boot_runs_program_witness:
  "\<exists>u v t. user_spawn small_lk (Some [47, 97]) (sched_init (nursery (emxf_file [0xF4, 0x90]))) = Some (1, u) \<and> sched_yield u = Some (True, v) \<and>
     user_exec_task v = Enters t \<and> user_load 0x400000 t = Some 0xF4 \<and> user_load 0x400001 t = Some 0x90 \<and> user_load 0x400002 t = Some 0 \<and> user_eip t = 0x400000"
proof -
  let ?f = "emxf_file [0xF4, 0x90]"
  have l: "length ?f \<le> 256" by (simp add: emxf_file_length)
  note N = nursery_memory [OF l] and A = nursery_areas [OF l]
  obtain u v t where "user_spawn small_lk (Some [47, 97]) (sched_init (nursery ?f)) = Some (1, u)" "sched_yield u = Some (True, v)" "user_exec_task v = Enters t"
      and c: "\<forall>i < 4096. user_load (0x400000 + word_of_nat i) t = Some (if i < length [0xF4, 0x90 :: u8] then [0xF4, 0x90] ! i else 0)" and "user_eip t = 0x400000"
    using boot_runs_program [OF nursery_booted [OF l] _ A(2) N(4), of 0 "[47, 97]" "[0xF4, 0x90]" small_lk] A(3) N(2) by auto
  then show ?thesis using c [rule_format, of 0] c [rule_format, of 1] c [rule_format, of 2] by auto
qed

end
