(* ===== verification/ProcessEnd.thy ===== *)
theory ProcessEnd
  imports BootRun
begin

text \<open>
  What a process gives back.  Its exit frees its pages and leaves its task as a zombie, and the next
  reaping of the scheduler frees its directory and page tables; the two together are accounted for
  frame by frame, on the set of frames that are free below the end of the direct map.
\<close>

section \<open>Tables of spaces that are given up\<close>

lemma same_dirs_tables:
  assumes "same_dirs X E s t" "b \<in> X" "b \<notin> E"
  shows "pt_pages t b = pt_pages s b"
  by (rule pt_pages_cong) (use same_dirsD [OF assms(1,2)] assms(3) in blast)

lemma tables_kept:
  assumes "same_dirs X E s t" "kernel_page_directory t = kernel_page_directory s" "insert (kernel_page_directory s) B \<subseteq> X - E"
  shows "tables t B = tables s B"
proof -
  have "pt_pages t b = pt_pages s b" if "b \<in> insert (kernel_page_directory s) B" for b
    by (rule same_dirs_tables [OF assms(1)]) (use that assms(3) in blast)+
  then show ?thesis by (simp add: tables_def assms(2))
qed

lemma tables_vm_same: "vm_same s t \<Longrightarrow> tables t B = tables s B"
  using vm_same_parts(9) [of s t] by (simp add: tables_def vm_same_def)

lemma tables_managed: "spaces_ok s A \<Longrightarrow> tables s A \<subseteq> managed s A"
  using pt_pages_ok [OF spaces_okD(5)] table_okD(1,2) unfolding tables_def managed_def by blast

text \<open>The directory and the lower-half tables of a space.\<close>

definition own_tables :: "'a pmm_state_scheme \<Rightarrow> u32 \<Rightarrow> u32 set" where
  "own_tables s a = insert a (user_tables s a KERNEL_PDE_INDEX)"

lemma dropped_tables:
  assumes sp: "spaces_ok s A" and sh: "kernel_shared s A" and B: "B \<subseteq> A"
  shows "tables s A - tables s B = (\<Union>a \<in> A - B. own_tables s a)"
proof (intro equalityI subsetI)
  fix q assume q: "q \<in> tables s A - tables s B"
  then obtain a where a: "a \<in> A" "q \<in> pt_pages s a" by (auto simp: tables_def)
  with q have n: "a \<notin> B" by (auto simp: tables_def)
  have "q \<in> own_tables s a"
  proof (cases "q = a")
    case False
    then obtain i where i: "i < 1024" "odd (pd_entry s a i)" "q = tbl (pd_entry s a i)" using a(2) by (auto simp: pt_pages_def)
    have "i < KERNEL_PDE_INDEX"
    proof (rule ccontr)
      assume "\<not> i < KERNEL_PDE_INDEX"
      then have "pd_entry s a i = pd_entry s (kernel_page_directory s) i" using sh a(1) i(1) by (simp add: kernel_shared_def)
      then have "q \<in> tables s B" using i by (auto simp: tables_def pt_pages_def)
      then show False using q by simp
    qed
    then show ?thesis using i by (auto simp: own_tables_def user_tables_def)
  qed (simp add: own_tables_def)
  then show "q \<in> (\<Union>a \<in> A - B. own_tables s a)" using a(1) n by blast
next
  fix q assume "q \<in> (\<Union>a \<in> A - B. own_tables s a)"
  then obtain a where a: "a \<in> A" "a \<notin> B" "q \<in> own_tables s a" by blast
  have "q \<notin> pt_pages s b" if b: "b \<in> insert (kernel_page_directory s) B" for b
  proof -
    have "separate s a b" using spaces_okD(2,6) [OF sp] a(1,2) b B by blast
    then show ?thesis using a(3) by (auto simp: separate_def own_tables_def user_tables_def)
  qed
  moreover have "q \<in> pt_pages s a" using a(3) kernel_index by (auto simp: own_tables_def user_tables_def pt_pages_def)
  ultimately show "q \<in> tables s A - tables s B" using a(1) by (auto simp: tables_def)
qed

text \<open>Frames that become free when pages \<open>F\<close> are returned and the spaces outside \<open>B\<close> destroyed.\<close>

lemma low_free_returned:
  fixes s u :: "'a vmm_state_scheme"
  assumes sp: "spaces_ok s A" "spaces_ok u B" and sh: "kernel_shared s A" and B: "B \<subseteq> A"
    and m: "managed u B = managed s A \<union> F" and t: "tables u B = tables s B" and F: "\<And>q. q \<in> F \<Longrightarrow> data_ok s A q"
  shows "low_free u = low_free s \<union> frame ` F \<union> (\<Union>a \<in> A - B. frame ` own_tables s a)"
proof -
  have "F \<inter> tables s B = {}" using F B by (auto simp: data_ok_def tables_def)
  moreover have "tables s B \<subseteq> tables s A" using B by (auto simp: tables_def)
  ultimately have "managed u B - tables u B = (managed s A - tables s A) \<union> F \<union> (tables s A - tables s B)"
    using tables_managed [OF sp(1)] unfolding m t by blast
  then show ?thesis
    unfolding low_free_managed [OF sp(1)] low_free_managed [OF sp(2)] dropped_tables [OF sp(1) sh B] by (simp add: image_Un image_UN)
qed

section \<open>Zombies after an exit\<close>

lemma exit_dead:
  fixes s t :: "'a sched_state_scheme"
  assumes ok: "sched_ok s" and c: "current_task s \<noteq> 0" and z: "z = set_task (current_task s) (\<lambda>t. t\<lparr>t_state := TASK_ZOMBIE\<rparr>) s"
    and y: "sched_yield z = Some (True, t)"
  shows "dead_spaces z = dead_spaces s" "dead_spaces t = {t_address_space (tasks s ! unat (current_task s))}"
proof -
  let ?c = "unat (current_task s)" and ?ts = "map (reaped z) [0..<16]"
  note W = sched_wfD [OF ok] and Y = zombie_wf [OF ok c z]
  note Wz = sched_wfD [OF Y(1)] and V = sched_yield_vars [OF y sched_wfD(1) [OF Y(1)]]
  have at: "tasks z ! i = (if i = ?c then (tasks s ! ?c)\<lparr>t_state := TASK_ZOMBIE\<rparr> else tasks s ! i)" "current_task z = current_task s" for i
    using W(1,2) by (auto simp: z set_task_def nth_list_update)
  show "dead_spaces z = dead_spaces s" unfolding dead_spaces_def at(2) by (rule image_cong) (auto simp: at(1))
  obtain idx sp where i: "next_index ?ts (current_task z) = Some idx" "tasks t = handover ?ts ?c (unat idx) sp" "current_task t = idx"
    using V by (auto simp: sched_vars_def at(2))
  have run: "t_state (tasks z ! unat idx) = TASK_RUNNABLE" using yield_choice(2) [OF Y(1) y] i(3) by simp
  then have ic: "unat idx \<noteq> ?c" using at(1) [of "unat idx"] by auto
  have l: "unat idx < 16" using next_index_SomeD(1) [OF i(1)] Wz(2) by auto
  have HO: "t_state (tasks t ! k) = (if k = unat idx then TASK_RUNNING else t_state (reaped z k))"
      "t_address_space (tasks t ! k) = t_address_space (reaped z k)" if "k < 16" for k
    using handover_nth(1,5) [of ?ts ?c "unat idx" k sp] that W(2) l at(1) [of ?c] reaped_current [of z] unfolding i(2) by (auto simp: at(2))
  have zc: "t_state (reaped z k) = TASK_ZOMBIE \<longleftrightarrow> k = ?c" if "k < 16" for k
    using that at(1) [of ?c] Wz(5) c by (auto simp: reaped_def at(2) blank_task_def unat_eq_0)
  have "{k. k < 16 \<and> k \<noteq> unat (current_task t) \<and> t_state (tasks t ! k) = TASK_ZOMBIE} = {?c}"
    using HO(1) zc ic W(2) i(3) by auto
  then show "dead_spaces t = {t_address_space (tasks s ! ?c)}"
    using HO(2) [OF W(2)] reaped_current [of z] at(1) [of ?c] by (simp add: dead_spaces_def at(2))
qed

lemma dead_in:
  assumes "sched_mem s A H L"
  shows "dead_spaces s \<subseteq> insert 0 (insert (kernel_page_directory s) A)"
proof -
  have "task_mem (tasks s) (kernel_page_directory s) A L" using assms by (simp add: sched_mem_def)
  from task_memD(2) [OF this] show ?thesis by (auto simp: dead_spaces_def task_owns_def)
qed

section \<open>The balance of an exit\<close>

lemma exit_balance:
  fixes s :: "'a user_state_scheme"
  assumes M: "memory_map Z T s A H L" and I: "kernel_inv s" and st: "on_stack Z s" and c: "current_task s \<noteq> 0"
    and f: "user_process_find_by_task_id (sched_current_task_id s) s = Some j" and r: "p_state (proc_at j s) = USER_PROCESS_RUNNING"
  defines "B \<equiv> A - dead_spaces s - {p_address_space (proc_at j s)}"
  obtains t u where "sys_exit status s = Some (Goes t)" "reap_zombies t = Some u" "spaces_ok u B"
    "managed u B = managed s A \<union> proc_pages (proc_at j s)" "tables u B = tables s B"
proof -
  let ?a = "p_address_space (proc_at j s)" and ?D = "dead_spaces s"
  note D = memory_mapD [OF M] and C = current_alive [OF M I f r] and W = proc_wfD [OF kernel_invD(4) [OF I]]
  have rs: "process_state_is USER_PROCESS_RUNNING s" using f r by (simp add: process_state_is_def)
  define x where "x = user_exit_current status s"
  have R: "released A ?a (proc_pages (proc_at j s)) s x"
    using exit_released [OF D(9) f W(1) _ refl, of status] C(5,6) by (simp add: proc_at_def proc_pages_def x_def)
  obtain w where w: "sys_exit status s = kthread_exit w" "memory_map Z T w A H L" "leaves Z w" "vm_same x w" "sched_vars w = sched_vars s"
    by (rule exit_leaves [OF M I rs st, of status, folded x_def]) (rule that; assumption)
  note V = sched_varsD [OF w(5)]
  have cw: "current_task w \<noteq> 0" "sched_ok w" using c kernel_invD(2) [OF I] V by simp_all
  obtain z t L' where t: "kthread_exit w = Some (Goes t)" "vm_same w z" "switch_step A H Z z L' t" "memory_map Z T t (A - dead_spaces z) H L'"
      "z = set_task (current_task w) (\<lambda>t. t\<lparr>t_state := TASK_ZOMBIE\<rparr>) w"
    by (rule thread_exit_map [OF w(2,3) cw(1)]) (rule that; assumption)
  have y: "sched_yield z = Some (True, t)" using exit_yields [OF t(1)] t(5) by simp
  have dw: "dead_spaces w = ?D" by (simp add: dead_spaces_def V)
  note E = exit_dead [OF cw(2,1) t(5) y]
  have dt: "dead_spaces z = ?D" "dead_spaces t = {?a}" using E dw V C(3) by (simp_all add: proc_at_def)
  note S = t(3) [unfolded switch_step_def dt]
  have ok: "sched_wf (tasks t) (current_task t) True"
    using yield_wf [OF zombie_wf(1) [OF cw(2,1) t(5)] y] zombie_wf(2) [OF cw(2,1) t(5)] by simp
  obtain u L'' where u: "reap_zombies t = Some u" "heap_step (A - ?D) H t (A - ?D - {?a}) H L'' u"
    using reap_step [OF memory_mapD(1) [OF t(4) [unfolded dt]] ok] unfolding dt by blast
  note U = heap_stepD [OF u(2), folded B_def]
  have k: "kernel_page_directory x = kernel_page_directory s" "kernel_page_directory t = kernel_page_directory z" "kernel_page_directory u = kernel_page_directory t"
      "kernel_page_directory z = kernel_page_directory x"
    using R S U(2) w(4) t(2) by (simp_all add: released_def mem_step_def vm_same_def)
  have ka: "kernel_page_directory s \<noteq> ?a" using zero_space(3) [OF D(9)] C(5) by (auto simp: proc_at_def)
  show ?thesis
  proof (rule that [OF _ u(1)])
    show "sys_exit status s = Some (Goes t)" using w(1) t(1) by simp
    show "spaces_ok u B" using U(2) by (simp add: mem_step_def)
    show "managed u B = managed s A \<union> proc_pages (proc_at j s)"
      using U(6) S R vm_same_parts(2) [OF w(4)] vm_same_parts(2) [OF t(2)] by (simp add: released_def)
    have "tables x B = tables s B"
      by (rule tables_kept [where X = "insert (kernel_page_directory s) A" and E = "{?a}"]) (use R ka in \<open>auto simp: released_def B_def\<close>)
    moreover have "tables t B = tables z B"
      by (rule tables_kept [where X = "insert (kernel_page_directory z) (A \<inter> (A - ?D))" and E = "{}"]) (use S in \<open>auto simp: mem_step_def B_def\<close>)
    moreover have "tables u B = tables t B"
      by (rule tables_kept [where X = "insert (kernel_page_directory t) ((A - ?D) \<inter> B)" and E = "{}"]) (use U(2) in \<open>auto simp: mem_step_def B_def\<close>)
    ultimately show "tables u B = tables s B" using tables_vm_same [OF w(4)] tables_vm_same [OF t(2)] by simp
  qed
qed

end
