(* ===== verification/Isolation.thy ===== *)
theory Isolation
  imports ProcessEnd
begin

text \<open>
  What the invariant of the machine means: in every state that can be reached from boot each process
  has its memory to itself, no call gets stuck, and a process that exits gives back all its memory.
\<close>

section \<open>Properties\<close>

text \<open>
  The page \<open>q\<close> belongs to the process in slot \<open>i\<close> alone: it is not free, no page table of the kernel or
  of a process, not open to another process, and neither the stack of a task nor the boot
  stack \<open>Z\<close> lies in it.
\<close>

definition page_private :: "ptr set \<Rightarrow> 'a user_state_scheme \<Rightarrow> nat \<Rightarrow> u32 \<Rightarrow> bool" where
  "page_private Z s i q \<longleftrightarrow> frame q \<notin> free_pages s \<and> q \<notin> pt_pages s (kernel_page_directory s) \<and>
     (\<forall>j < 16. alive (processes s ! j) \<longrightarrow> q \<notin> pt_pages s (p_address_space (processes s ! j))) \<and>
     (\<forall>j < 16. \<forall>w. alive (processes s ! j) \<and> j \<noteq> i \<and> pte s (p_address_space (processes s ! j)) w AND 5 = 5 \<longrightarrow>
        tbl (pte s (p_address_space (processes s ! j)) w) \<noteq> q) \<and>
     (\<forall>k < 16. t_stack (tasks s ! k) \<noteq> 0 \<longrightarrow> area (t_stack (tasks s ! k)) 2048 \<inter> page_area {q} = {}) \<and>
     Z \<inter> page_area {q} = {}"

lemma map_private:
  assumes M: "memory_map Z T s A H L" and i: "i < 16" "alive (processes s ! i)" and q: "q \<in> proc_pages (processes s ! i)"
  shows "page_private Z s i q" "q \<in> T"
proof -
  note D = memory_mapD [OF M]
  note P = procs_memD [OF D(2) i]
  note d = proc_memD(3) [OF P(1) q] and al = all_pagesI [OF i q]
  show "q \<in> T" using al D(5) by (auto simp: pool_def)
  have "q \<notin> pt_pages s b" if "b \<in> insert (kernel_page_directory s) A" for b using d that by (auto simp: data_ok_def)
  then have tables: "q \<notin> pt_pages s (kernel_page_directory s)" "\<And>j. j < 16 \<Longrightarrow> alive (processes s ! j) \<Longrightarrow> q \<notin> pt_pages s (p_address_space (processes s ! j))"
    using proc_memD(1) [OF procs_memD(1) [OF D(2)]] by blast+
  have other: "tbl (pte s (p_address_space (processes s ! j)) w) \<noteq> q"
    if "j < 16" "alive (processes s ! j)" "j \<noteq> i" "pte s (p_address_space (processes s ! j)) w AND 5 = 5" for j w
    using proc_memD(5) [OF procs_memD(1) [OF D(2) that(1,2)] that(4)] P(4) [OF that(1,3,2)] q by blast
  have "q \<notin> H" by (rule all_pages_data(3) [OF D(2) al])
  then have heap: "page_area H \<inter> page_area {q} = {}"
    using page_area_data [of H s A "{q}"] d D(11) by (auto simp: heap_map_def)
  have stack: "area (t_stack (tasks s ! k)) 2048 \<inter> page_area {q} = {}" if k: "k < 16" "t_stack (tasks s ! k) \<noteq> 0" for k
  proof -
    have "task_owns (kernel_page_directory s) A L (tasks s ! k)" using D(1) k(1) by (simp add: sched_mem_def task_mem_def)
    then obtain n where n: "2048 \<le> n" "(t_stack (tasks s ! k), n) \<in> L" using k(2) by (auto simp: task_owns_def)
    have "area (t_stack (tasks s ! k)) 2048 \<subseteq> area (t_stack (tasks s ! k)) n" using n(1) by (auto simp: area_def)
    then show ?thesis using live_in_pages [OF D(11) n(2)] heap by auto
  qed
  have fixed: "Z \<inter> page_area {q} = {}"
    using fixed_stable(3) [OF M D(7) _ al] by (auto simp: page_area_def)
  show "page_private Z s i q"
    unfolding page_private_def using data_okD(3) [OF d] tables other stack fixed by blast
qed

text \<open>
  C1: processes are isolated from each other and from the kernel.  From boot on, and through any
  sequence of spawns, starts and failed starts of programs, exits, waits, task switches, kernel
  threads and stores of programs to their memory, every page that ring 3 can reach in the address
  space of a process is one of the pages recorded for that process; it is in use, it is not a page
  table, no other process can reach it, and no byte of a kernel stack or of the boot stack lies in it.
\<close>

theorem process_isolation:
  fixes b t :: "'a user_state_scheme"
  assumes "booted Z b" "(machine_step lk Z)\<^sup>*\<^sup>* (sched_init b) t"
    and "i < 16" "alive (processes t ! i)" "pte t (p_address_space (processes t ! i)) v AND 5 = 5"
  shows "tbl (pte t (p_address_space (processes t ! i)) v) \<in> proc_pages (processes t ! i) \<inter> managed b {} \<and>
    page_private Z t i (tbl (pte t (p_address_space (processes t ! i)) v))"
proof -
  obtain A H L where M: "memory_map Z (managed b {}) t A H L" by (rule memory_invE [OF memory_inv_run [OF assms(2) memory_inv_boot [OF assms(1)]]])
  note q = proc_memD(5) [OF procs_memD(1) [OF memory_mapD(2) [OF M] assms(3,4)] assms(5)]
  show ?thesis using map_private [OF M assms(3,4) q] q by blast
qed

text \<open>
  C2: what a process sees of its memory changes by its own doing only.  While other processes are
  started, run, store to memory and exit, and whatever calls of the kernel anybody makes (the
  process itself included: spawn, wait, yield), every byte that the process can read stays as it
  is, and so do its state, its pages and its address space, until the process itself stores, is
  started or exits.
\<close>

theorem process_memory_private:
  fixes b s t :: "'a user_state_scheme"
  assumes "booted Z b" "(machine_step lk Z)\<^sup>*\<^sup>* (sched_init b) s" "i < 16" "alive (processes s ! i)"
    and "(\<lambda>s t. system_step lk Z s t \<or> program_step Z s t \<and> p_task_id (processes s ! i) \<noteq> sched_current_task_id s)\<^sup>*\<^sup>* s t"
  shows "same_process (processes s ! i) (processes t ! i) \<and>
    (\<forall>v. process_view t (p_address_space (processes s ! i)) v = process_view s (p_address_space (processes s ! i)) v)"
proof -
  let ?T = "managed b {}"
  have "memory_inv Z ?T t \<and> process_kept i s t"
    using assms(5)
  proof (induction rule: rtranclp_induct)
    case base
    show ?case using memory_inv_run [OF assms(2) memory_inv_boot [OF assms(1)]] process_kept_refl by blast
  next
    case (step t u)
    then have k: "process_kept i s t" and J: "memory_inv Z ?T t" by blast+
    obtain A H L where M: "memory_map Z ?T t A H L" and I: "kernel_inv t" by (rule memory_invE [OF J])
    have al: "alive (processes t ! i)"
      using k same_pages_parts(1) [of "processes s ! i" "processes t ! i"] assms(4) by (simp add: process_kept_def same_process_def)
    have "process_kept i t u"
      using step(2) system_step_kept [OF _ M I] program_step_kept [OF _ M I] assms(3) al unfolding waiting_def by blast
    moreover have "memory_inv Z ?T u" by (rule memory_inv_step [OF _ J]) (use step(2) in \<open>auto simp: machine_step_def\<close>)
    ultimately show ?case using process_kept_trans [OF k] by blast
  qed
  then show ?thesis by (simp add: process_kept_def)
qed

text \<open>
  C6: no call of the kernel gets stuck.  In every state that can be reached from boot, creating a
  thread, spawning a program, switching tasks, exiting and starting a program come to an end (the
  walks over the heap's list, the task table and the page tables included), a failed start and an
  exit hand the processor to another task, and the panic for a task that should have gone is not
  reached.
\<close>

theorem kernel_never_stuck:
  fixes b s :: "'a user_state_scheme"
  assumes "booted Z b" "(machine_step lk Z)\<^sup>*\<^sup>* (sched_init b) s" "on_stack Z s"
  shows "(\<exists>r t. kthread_create lk (Some f) s = Some (r, t)) \<and> (\<exists>r t. user_spawn lk path s = Some (r, t)) \<and>
    (\<exists>sw t. sched_yield s = Some (sw, t)) \<and>
    (current_task s \<noteq> 0 \<and> process_state_is USER_PROCESS_RUNNING s \<longrightarrow> (\<exists>t. sys_exit status s = Some (Goes t))) \<and>
    (current_task s \<noteq> 0 \<and> process_state_is USER_PROCESS_CREATED s \<longrightarrow>
       (case user_exec_task s of Enters t \<Rightarrow> True | Goes u \<Rightarrow> \<exists>t. kthread_exit u = Some (Goes t) | Halts t \<Rightarrow> False))"
proof -
  obtain A H L where M: "memory_map Z (managed b {}) s A H L" and I: "kernel_inv s"
    by (rule memory_invE [OF memory_inv_run [OF assms(2) memory_inv_boot [OF assms(1)]]])
  have w: "sched_wf (tasks s) (current_task s) True" by (rule kernel_invD(2) [OF I])
  have us: "t_state (tasks s ! unat (current_task s)) \<noteq> TASK_UNUSED" using current_ready(2) [OF kernel_invD(1) [OF I]] by auto
  have "\<exists>r t. kthread_create lk (Some f) s = Some (r, t)" using create_map [OF M I, of lk f] by blast
  moreover have "\<exists>r t. user_spawn lk path s = Some (r, t)" using spawn_map [OF M I, of lk path] by blast
  moreover have "\<exists>sw t. sched_yield s = Some (sw, t)" using yield_map [OF M w us assms(3)] by blast
  moreover have "\<exists>t. sys_exit status s = Some (Goes t)" if "current_task s \<noteq> 0 \<and> process_state_is USER_PROCESS_RUNNING s"
    using exit_returns [OF M I _ assms(3)] that by blast
  moreover have "case user_exec_task s of Enters t \<Rightarrow> True | Goes u \<Rightarrow> \<exists>t. kthread_exit u = Some (Goes t) | Halts t \<Rightarrow> False"
    if "current_task s \<noteq> 0 \<and> process_state_is USER_PROCESS_CREATED s"
    using exec_returns [OF M I _ assms(3)] that by blast
  ultimately show ?thesis by (intro conjI impI)
qed

text \<open>
  C5: a process that exits gives back all of its memory, and nothing else becomes free.  In every state
  that can be reached from boot, when the running process exits the processor goes to another task,
  and once that task has reaped the zombies, as each task switch and thread creation first does, the
  free frames of the direct map are exactly those that were free before, the frames recorded for the
  process, and the page directory and lower-half page tables of its address space and of those whose
  tasks were zombies already.
\<close>

theorem exit_returns_memory:
  fixes b s :: "'a user_state_scheme"
  assumes "booted Z b" "(machine_step lk Z)\<^sup>*\<^sup>* (sched_init b) s" "on_stack Z s" "current_task s \<noteq> 0"
    and "user_process_find_by_task_id (sched_current_task_id s) s = Some j" "p_state (proc_at j s) = USER_PROCESS_RUNNING"
  shows "\<exists>t u. sys_exit status s = Some (Goes t) \<and> reap_zombies t = Some u \<and>
    low_free u = low_free s \<union> frame ` proc_pages (proc_at j s) \<union>
      (\<Union>a \<in> insert (p_address_space (proc_at j s)) (dead_spaces s - {0, kernel_page_directory s}). frame ` own_tables s a)"
proof -
  let ?a = "p_address_space (proc_at j s)"
  obtain A H L where M: "memory_map Z (managed b {}) s A H L" and I: "kernel_inv s"
    by (rule memory_invE [OF memory_inv_run [OF assms(2) memory_inv_boot [OF assms(1)]]])
  note D = memory_mapD [OF M] and C = current_alive [OF M I assms(5,6)]
  let ?B = "A - dead_spaces s - {?a}"
  obtain t u where t: "sys_exit status s = Some (Goes t)" "reap_zombies t = Some u" "spaces_ok u ?B"
      "managed u ?B = managed s A \<union> proc_pages (proc_at j s)" "tables u ?B = tables s ?B"
    by (rule exit_balance [OF M I assms(3-6), of status]) (rule that; assumption)
  have data: "data_ok s A q" if "q \<in> proc_pages (proc_at j s)" for q
    using proc_memD(3) [OF procs_memD(1) [OF D(2) C(1,2)]] that by (simp add: proc_at_def)
  have "A - ?B = insert ?a (dead_spaces s - {0, kernel_page_directory s})"
    using dead_in [OF D(1)] zero_space(1,3) [OF D(9)] C(5) by (auto simp: proc_at_def)
  moreover have "low_free u = low_free s \<union> frame ` proc_pages (proc_at j s) \<union> (\<Union>a \<in> A - ?B. frame ` own_tables s a)"
    by (rule low_free_returned [OF D(9) t(3) D(10) _ t(4,5) data]) auto
  ultimately show ?thesis using t(1,2) by simp
qed

section \<open>A run of the concrete machine\<close>

lemma nursery_run:
  obtains t where "(machine_step small_lk nursery_stack)\<^sup>*\<^sup>* (sched_init (nursery (emxf_file [0xF4]))) t" "alive (processes t ! 0)"
    "pte t (p_address_space (processes t ! 0)) 0x400000 AND 5 = 5" "process_view t (p_address_space (processes t ! 0)) 0x400000 = Some 0xF4" "next_task_id t = 2"
    "cr3 t = p_address_space (processes t ! 0)" "p_state (processes t ! 0) = USER_PROCESS_RUNNING" "current_task t \<noteq> 0"
proof -
  let ?f = "emxf_file [0xF4]"
  have l: "length ?f \<le> 256" by (simp add: emxf_file_length)
  note N = nursery_memory [OF l] and A = nursery_areas [OF l]
  have h: "\<forall>x. x - (reg_esp (nursery ?f) - 16) < 20 \<longrightarrow> x \<in> nursery_stack" "0 < length [([47, 97 :: u8], ?f)]" "[([47, 97 :: u8], ?f)] ! 0 = ([47, 97], ?f)"
      "\<forall>j < 0. fst ([([47, 97], ?f)] ! j) \<noteq> [47, 97]" "[47, 97 :: u8] \<noteq> []" "0 < length [0xF4 :: u8]" "length [0xF4 :: u8] \<le> 4096" "5 \<le> card (low_free (nursery ?f))"
    using A(3) N(2) by simp_all
  obtain u v t where r: "machine_step small_lk nursery_stack (sched_init (nursery ?f)) u" "machine_step small_lk nursery_stack u v" "machine_step small_lk nursery_stack v t"
    and t: "\<And>i. i < 4096 \<Longrightarrow> user_load (0x400000 + word_of_nat i) t = Some (if i < length [0xF4 :: u8] then [0xF4] ! i else 0)"
      "pte t (p_address_space (processes t ! 0)) 0x400000 AND 5 = 5" "cr3 t = p_address_space (processes t ! 0)"
      "p_state (processes t ! 0) = USER_PROCESS_RUNNING" "next_task_id t = 2" "current_task t \<noteq> 0"
    by (rule boot_run [OF nursery_booted(1) [OF l] nursery_booted(2) [OF l] h(1) A(2) N(4) h(2-8), of small_lk]) (rule that; assumption)
  show ?thesis
  proof (rule that [of t])
    show "(machine_step small_lk nursery_stack)\<^sup>*\<^sup>* (sched_init (nursery ?f)) t" 
      by (rule rtranclp.rtrancl_into_rtrancl [OF rtranclp.rtrancl_into_rtrancl [OF r_into_rtranclp]]) (rule r)+
    have "t\<lparr>cr3 := p_address_space (processes t ! 0)\<rparr> = t" using t(3) by simp
    then show "process_view t (p_address_space (processes t ! 0)) 0x400000 = Some 0xF4" using t(1) [of 0] by (simp add: process_view_def)
  qed (use t in \<open>simp_all add: alive_def\<close>)
qed

lemma nursery_stack_ok: "on_stack nursery_stack (sched_init (nursery (emxf_file code)))" if "length code \<le> 200"
proof -
  have l: "length (emxf_file code) \<le> 256" using that by (simp add: emxf_file_length)
  show ?thesis using nursery_areas(3) [OF l] boot_tables(2) [OF nursery_booted(1) [OF l]] by (simp add: on_stack_def stack_area_def sched_init_esp)
qed

theorem process_isolation_witness:
  "\<exists>t. (machine_step small_lk nursery_stack)\<^sup>*\<^sup>* (sched_init (nursery (emxf_file [0xF4]))) t \<and> alive (processes t ! 0) \<and>
     page_private nursery_stack t 0 (tbl (pte t (p_address_space (processes t ! 0)) 0x400000))"
proof -
  have l: "length (emxf_file [0xF4]) \<le> 256" by (simp add: emxf_file_length)
  obtain t where t: "(machine_step small_lk nursery_stack)\<^sup>*\<^sup>* (sched_init (nursery (emxf_file [0xF4]))) t" "alive (processes t ! 0)"
    "pte t (p_address_space (processes t ! 0)) 0x400000 AND 5 = 5" by (rule nursery_run)
  show ?thesis using process_isolation [OF nursery_booted(1) [OF l] t(1) _ t(2,3)] t(1,2) by auto
qed

theorem process_memory_private_witness:
  "\<exists>t r w. (machine_step small_lk nursery_stack)\<^sup>*\<^sup>* (sched_init (nursery (emxf_file [0xF4]))) t \<and>
     kthread_create small_lk (Some (KFun ''helper'')) t = Some (r, w) \<and> process_view w (p_address_space (processes t ! 0)) 0x400000 = Some 0xF4"
proof -
  let ?b = "nursery (emxf_file [0xF4])"
  have l: "length (emxf_file [0xF4]) \<le> 256" by (simp add: emxf_file_length)
  note B = nursery_booted(1) [OF l]
  obtain t where t: "(machine_step small_lk nursery_stack)\<^sup>*\<^sup>* (sched_init ?b) t" "alive (processes t ! 0)"
    "process_view t (p_address_space (processes t ! 0)) 0x400000 = Some 0xF4" "next_task_id t = 2" by (rule nursery_run)
  obtain A H L where M: "memory_map nursery_stack (managed ?b {}) t A H L" and I: "kernel_inv t"
    by (rule memory_invE [OF memory_inv_run [OF t(1) memory_inv_boot [OF B]]])
  obtain r w where w: "kthread_create small_lk (Some (KFun ''helper'')) t = Some (r, w)" using create_map [OF M I, of small_lk] by blast
  have "system_step small_lk nursery_stack t w" by (rule system_step.thread [OF w]) (simp add: t(4))
  then have "(\<lambda>s t. system_step small_lk nursery_stack s t \<or> program_step nursery_stack s t \<and> p_task_id (processes s ! 0) \<noteq> sched_current_task_id s)\<^sup>*\<^sup>* t w" by blast
  from process_memory_private [OF B t(1) _ t(2) this]
  have "process_view w (p_address_space (processes t ! 0)) 0x400000 = process_view t (p_address_space (processes t ! 0)) 0x400000" by simp
  then show ?thesis using t(1,3) w by (intro exI [of _ t] exI [of _ r] exI [of _ w]) simp
qed

theorem kernel_never_stuck_witness:
  "\<exists>r t. user_spawn small_lk (Some [47, 97]) (sched_init (nursery (emxf_file [0xF4]))) = Some (r, t)"
proof -
  have l: "length (emxf_file [0xF4]) \<le> 256" by (simp add: emxf_file_length)
  show ?thesis
    using kernel_never_stuck [OF nursery_booted(1) [OF l] rtranclp.rtrancl_refl, of small_lk "KFun ''helper''" "Some [47, 97]" 0] nursery_stack_ok [of "[0xF4]"] by simp
qed

lemma nursery_exit_state:
  obtains t where "(machine_step small_lk nursery_stack)\<^sup>*\<^sup>* (sched_init (nursery (emxf_file [0xF4]))) t" "on_stack nursery_stack t" "current_task t \<noteq> 0"
    "user_process_find_by_task_id (sched_current_task_id t) t = Some 0" "p_state (proc_at 0 t) = USER_PROCESS_RUNNING"
    "pte t (p_address_space (proc_at 0 t)) 0x400000 AND 5 = 5"
proof -
  let ?b = "nursery (emxf_file [0xF4])"
  have l: "length (emxf_file [0xF4]) \<le> 256" by (simp add: emxf_file_length)
  obtain v where v: "(machine_step small_lk nursery_stack)\<^sup>*\<^sup>* (sched_init ?b) v" "alive (processes v ! 0)"
      "pte v (p_address_space (processes v ! 0)) 0x400000 AND 5 = 5" "cr3 v = p_address_space (processes v ! 0)"
      "p_state (processes v ! 0) = USER_PROCESS_RUNNING" "current_task v \<noteq> 0"
    by (rule nursery_run) (rule that; assumption)
  let ?k = "t_stack (tasks v ! unat (current_task v))"
  define t where "t = v\<lparr>reg_esp := ?k + 1024\<rparr>"
  obtain A H L where M: "memory_map nursery_stack (managed ?b {}) v A H L" and I: "kernel_inv v"
    by (rule memory_invE [OF memory_inv_run [OF v(1) memory_inv_boot [OF nursery_booted(1) [OF l]]]])
  note C = current_ready [OF kernel_invD(1) [OF I]] and K = kernel_invD(5) [OF I]
  have id: "p_task_id (processes v ! 0) = sched_current_task_id v"
    using spaces_linkD(1) [OF memory_mapD(3) [OF M] _ C(1) v(2)] memory_mapD(8) [OF M] v(4) C(3) by simp
  have used: "used (processes v ! 0)" using v(5) by simp
  obtain j where j: "user_process_find_by_task_id (sched_current_task_id v) v = Some j"
    using find_by_task_None [of _ v 0] id used by (cases "user_process_find_by_task_id (sched_current_task_id v) v") auto
  have "unat j = 0" using linkedD(3) [OF K _ _ _ used, of "unat j"] current_process(1-3) [OF I j] id by simp
  then have j0: "j = 0" by (simp add: unat_eq_0)
  have "system_step small_lk nursery_stack v t"
    by (rule system_step.work) (simp_all add: t_def kvars_def vm_same_def pmm_same_def)
  then have run: "(machine_step small_lk nursery_stack)\<^sup>*\<^sup>* (sched_init ?b) t" by (intro rtranclp.rtrancl_into_rtrancl [OF v(1)]) (simp add: machine_step_def)
  have "x \<in> area ?k 2048" if "x - (?k + 1024 - 16) < 20" for x
  proof -
    have "x - ?k = (x - (?k + 1024 - 16)) + 1008" by simp
    moreover have "unat ((x - (?k + 1024 - 16)) + 1008) = unat (x - (?k + 1024 - 16)) + 1008"
      using that by (intro unat_add_lem [THEN iffD1, of _ "1008 :: u32", simplified]) (simp add: word_less_nat_alt)
    ultimately show ?thesis using that by (simp add: area_def word_less_nat_alt)
  qed
  then have os: "on_stack nursery_stack t" using v(6) by (simp add: on_stack_def stack_area_def t_def)
  have "vm_same v t" by (simp add: t_def vm_same_def pmm_same_def)
  then have "pte t = pte v" by (rule vm_same_parts(5))
  with os show ?thesis
    by (intro that [OF run]) (use v j j0 in \<open>simp_all add: t_def proc_at_def sched_current_task_id_def task_at_def user_process_find_by_task_id_def\<close>)
qed

theorem exit_returns_memory_witness:
  "\<exists>(s :: user_state) t u p. p \<in> proc_pages (proc_at 0 s) \<and> sys_exit 7 s = Some (Goes t) \<and> reap_zombies t = Some u \<and>
     frame p \<in> free_pages u \<and> frame (p_address_space (proc_at 0 s)) \<in> free_pages u"
proof -
  let ?b = "nursery (emxf_file [0xF4])"
  have l: "length (emxf_file [0xF4]) \<le> 256" by (simp add: emxf_file_length)
  note B = nursery_booted(1) [OF l]
  obtain s where s: "(machine_step small_lk nursery_stack)\<^sup>*\<^sup>* (sched_init ?b) s" "on_stack nursery_stack s" "current_task s \<noteq> 0"
    "user_process_find_by_task_id (sched_current_task_id s) s = Some 0" "p_state (proc_at 0 s) = USER_PROCESS_RUNNING"
    "pte s (p_address_space (proc_at 0 s)) 0x400000 AND 5 = 5" by (rule nursery_exit_state) (rule that; assumption)
  obtain A H L where M: "memory_map nursery_stack (managed ?b {}) s A H L"
    by (rule memory_invE [OF memory_inv_run [OF s(1) memory_inv_boot [OF B]]])
  have p: "tbl (pte s (p_address_space (proc_at 0 s)) 0x400000) \<in> proc_pages (proc_at 0 s)"
    using proc_memD(5) [OF procs_memD(1) [OF memory_mapD(2) [OF M], of 0], of "0x400000"] s(5,6) by (simp add: proc_at_def alive_def)
  obtain t u where t: "sys_exit 7 s = Some (Goes t)" "reap_zombies t = Some u"
    "low_free u = low_free s \<union> frame ` proc_pages (proc_at 0 s) \<union>
      (\<Union>a \<in> insert (p_address_space (proc_at 0 s)) (dead_spaces s - {0, kernel_page_directory s}). frame ` own_tables s a)"
    using exit_returns_memory [OF B s(1-5), of 7] by blast
  have "x \<in> free_pages u" if "x \<in> low_free u" for x using that by (simp add: low_free_def)
  then have "frame (tbl (pte s (p_address_space (proc_at 0 s)) 0x400000)) \<in> free_pages u" "frame (p_address_space (proc_at 0 s)) \<in> free_pages u"
    using p unfolding t(3) own_tables_def by blast+
  then show ?thesis using p t(1,2) by blast
qed

end
