(* ===== verification/Spec2Isabelle.thy ===== *)
theory Spec2Isabelle
  imports PmmInitProof KmallocProps Keyboard InitramfsProof DevicesProof KernelRun TrapProof UserlandProps BootImage Isolation
begin

text \<open>
  \<^bold>\<open>A verification of the Emyx kernel\<close>

  Emyx is a small 32-bit x86 operating system: a Multiboot kernel with a physical page
  allocator, paged address spaces, a heap, cooperative kernel threads, ring-3 processes loaded
  from an archive, six system calls, and a shell in the kernel.  This library models its C code
  (and the assembly of the context switch and the descriptor loads) as functions on one machine
  state and proves what each component promises, first alone and then composed: from boot on, and
  whatever programs run, every process has its memory to itself, no call of the kernel gets stuck and
  a process that exits gives back every frame it held.

  \<^bold>\<open>The state.\<close>  Every component extends the record of the one below it with its static variables
  and the hardware it owns:
  \<^verbatim>\<open>tty_state\<close> (screen, port log) \<open>\<subset>\<close> \<^verbatim>\<open>keyboard_state\<close> \<open>\<subset>\<close> \<^verbatim>\<open>pmm_state\<close> (physical memory bytes,
  bitmap) \<open>\<subset>\<close> \<^verbatim>\<open>vmm_state\<close> (control registers, TLB log) \<open>\<subset>\<close> \<^verbatim>\<open>heap_state\<close> \<open>\<subset>\<close> \<^verbatim>\<open>boot_state\<close> \<open>\<subset>\<close>
  \<^verbatim>\<open>desc_state\<close> (GDT, IDT, TSS) \<open>\<subset>\<close> \<^verbatim>\<open>dev_state\<close> (port answers, ticks) \<open>\<subset>\<close> \<^verbatim>\<open>sched_state\<close> (tasks,
  registers) \<open>\<subset>\<close> \<^verbatim>\<open>user_state\<close> (processes) \<open>\<subset>\<close> \<^verbatim>\<open>kshell_state\<close>.  Operations are polymorphic in the
  extension, so an operation of a lower component cannot touch a higher one.  Memory is a
  function from 32-bit addresses to bytes; page directories, page tables, heap headers, thread
  stacks, the page bitmap, the Multiboot structures and the archive all live in it at the
  addresses the code uses, so that aliasing is a question the proofs answer.

  \<^bold>\<open>Conventions.\<close>  \<^verbatim>\<open>uint32_t\<close>, \<^verbatim>\<open>size_t\<close> and pointers are 32-bit words with wrap-around.  Counting
  loops are \<open>for_u32\<close> of the prelude, searches \<open>first_u32\<close>, other loops \<open>function\<close> with a
  termination proof.  Loops that may not end (\<open>strlen\<close>, walks of the heap list, polling a device,
  waiting for a process) are \<open>partial_function (option)\<close>: \<open>None\<close> is "does not return", and the
  theorems prove that they return.  \<open>panic\<close> is the outcome \<open>Panic\<close> where the caller's state no longer
  matters, and \<open>Halts\<close> of \<open>progress\<close> where it does; \<open>Enters\<close> is the \<open>iret\<close> to ring 3.  What a
  device answers is the function \<open>port_in\<close> of the state, arbitrary in every theorem.  Addresses the
  linker chooses are the record \<open>linker_symbols\<close>.  While a task waits, the others run: \<open>others\<close>, an
  argument of the calls that yield.

  \<^bold>\<open>Theories.\<close>
  \<^item> \<^verbatim>\<open>Prelude\<close>, \<^verbatim>\<open>Memory\<close>: word lemmas, loops, memory loads and stores with their frame laws.
  \<^item> \<^verbatim>\<open>Libc\<close> (\<^verbatim>\<open>libc/string\<close>, \<^verbatim>\<open>lib/endian.c\<close>), \<^verbatim>\<open>Tty\<close> (\<^verbatim>\<open>arch/i386/tty.c\<close>), \<^verbatim>\<open>Printk\<close>
    (\<^verbatim>\<open>lib/printk.c\<close>): copying, bounds of the screen, rendering of formats.
  \<^item> \<^verbatim>\<open>Keyboard\<close>: the ring buffer as an instance of the locale \<open>bounded_fifo\<close>, the scancode table.
  \<^item> \<^verbatim>\<open>Pmm\<close>, \<^verbatim>\<open>PmmInit\<close>, \<^verbatim>\<open>PmmInitProof\<close> (\<^verbatim>\<open>mm/pmm.c\<close>): the allocator as a set of free frames, and its
    construction from the memory map.  Usable regions are assumed to start on a page boundary; for
    others \<open>clear_usable_pages\<close> frees a page that is not all inside.
  \<^item> \<^verbatim>\<open>DirectMap\<close>, \<^verbatim>\<open>Vmm\<close>, \<^verbatim>\<open>VmmProof\<close>, \<^verbatim>\<open>VmmSpaces\<close>, \<^verbatim>\<open>VmmProps\<close>, \<^verbatim>\<open>VmmInit\<close> (\<^verbatim>\<open>mm/vmm.c\<close>,
    \<^verbatim>\<open>arch/i386/paging.c\<close>): address spaces as abstract page maps, isolation of spaces, no frame leaked
    over the life of a space, the kernel's direct map.
  \<^item> \<^verbatim>\<open>Kmalloc\<close>, \<^verbatim>\<open>KmallocProof\<close>, \<^verbatim>\<open>KmallocProps\<close> (\<^verbatim>\<open>mm/kmalloc.c\<close>): the block list in memory refines
    first-fit on a list; clients own private arrays.
  \<^item> \<^verbatim>\<open>Initramfs\<close>, \<^verbatim>\<open>InitramfsProof\<close> (\<^verbatim>\<open>boot.c\<close>, \<^verbatim>\<open>initramfs.c\<close>, the format of \<^verbatim>\<open>scripts/mkemxa.py\<close>):
    what was packed is found; a lookup succeeds only in a well-formed archive and within its bounds.
  \<^item> \<^verbatim>\<open>Gdt\<close>, \<^verbatim>\<open>Devices\<close>, \<^verbatim>\<open>DevicesProof\<close> (\<^verbatim>\<open>arch/i386\<close> \<^verbatim>\<open>gdt.c\<close>, \<^verbatim>\<open>idt.c\<close>, \<^verbatim>\<open>pic.c\<close>, \<^verbatim>\<open>pit.c\<close>,
    \<^verbatim>\<open>serial.c\<close>, \<^verbatim>\<open>arch.c\<close>, and \<^verbatim>\<open>timer.c\<close>, \<^verbatim>\<open>lib/panic.c\<close>): descriptor tables as the processor reads them,
    controllers as they see the port writes, when a polling write returns.
  \<^item> \<^verbatim>\<open>Sched\<close>, \<^verbatim>\<open>SchedProof\<close>, \<^verbatim>\<open>SchedProps\<close>, \<^verbatim>\<open>SchedSwitch\<close> (\<^verbatim>\<open>sched.c\<close>, \<^verbatim>\<open>context_switch.S\<close>): the task
    table as a step relation with its invariant, round robin, absence of starvation, and the
    registers across a switch.
  \<^item> \<^verbatim>\<open>User\<close>, \<^verbatim>\<open>Syscall\<close>, \<^verbatim>\<open>UserProof\<close>, \<^verbatim>\<open>UserProps\<close>, \<^verbatim>\<open>KernelRun\<close> (\<^verbatim>\<open>user.c\<close>, \<^verbatim>\<open>syscall.c\<close>): processes; the
    relation \<open>kernel_step\<close> interleaves spawn, exec, exit, wait, yield and threads, \<open>kernel_inv\<close> holds
    in every reachable state and exit statuses reach the parent.
  \<^item> \<^verbatim>\<open>VmmData\<close>, \<^verbatim>\<open>ProgramLoad\<close>, \<^verbatim>\<open>ExecProof\<close>, \<^verbatim>\<open>ExecProps\<close> (the memory of processes in \<^verbatim>\<open>user.c\<close>): pages beside
    the tables, what \<open>user_exec_task\<close> leaves for ring 3, and that its failures and the exit of a
    process give back exactly what they took.
  \<^item> \<^verbatim>\<open>Userland\<close>, \<^verbatim>\<open>UserlandProof\<close>, \<^verbatim>\<open>UserlandProps\<close> (\<^verbatim>\<open>user/user.h\<close>, \<^verbatim>\<open>crt0.S\<close>, \<^verbatim>\<open>shell.c\<close>, \<^verbatim>\<open>init.c\<close>,
    \<^verbatim>\<open>hello.c\<close>): programs on the loaded image, with ring-3 loads and stores and the system calls of the
    kernel model; the shell as a line editor that runs what was typed.
  \<^item> \<^verbatim>\<open>Exception\<close>, \<^verbatim>\<open>Kshell\<close>, \<^verbatim>\<open>Kmain\<close>, \<^verbatim>\<open>KshellProof\<close>, \<^verbatim>\<open>TrapProof\<close> (\<^verbatim>\<open>interrupt.c\<close>, \<^verbatim>\<open>kshell.c\<close>,
    \<^verbatim>\<open>main.c\<close>): exception reports, interrupt service, the line editor and the dispatch of commands,
    strings taken from user memory.

  \<^bold>\<open>The machine as a whole.\<close>  The last group of theories puts the components together.
  \<^item> \<^verbatim>\<open>HeapMap\<close>, \<^verbatim>\<open>MemorySteps\<close>, \<^verbatim>\<open>KernelMap\<close>, \<^verbatim>\<open>KernelSwitch\<close>: who owns which frame.  \<open>mem_step\<close> says what an
    operation leaves alone (data pages, bytes, page tables), \<open>heap_map\<close> ties the block list of the
    heap to its pages, \<open>sched_mem\<close> gives every task a stack in the heap and a space of its own;
    \<open>kmalloc\<close>, \<open>kfree\<close>, reaping, thread creation and the task switch keep this.
  \<^item> \<^verbatim>\<open>ProcessMap\<close>, \<^verbatim>\<open>ProcessSteps\<close>, \<^verbatim>\<open>ProcessExec\<close>, \<^verbatim>\<open>ProcessSpawn\<close>, \<^verbatim>\<open>ProcessRun\<close>: \<open>memory_map\<close> divides
    all frames \<open>T\<close> among free frames, page tables, heap and processes, and links the spaces of tasks to
    those of processes; each call of the kernel and each store of a program keeps it, and says
    which processes keep their memory.
  \<^item> \<^verbatim>\<open>Machine\<close>: the transition system \<open>machine_step\<close> of calls, kernel threads and stores in ring 3, its
    invariant \<open>memory_inv\<close>, and \<open>booted\<close>, the state before \<open>sched_init\<close>.
  \<^item> \<^verbatim>\<open>BootImage\<close>: \<open>booted\<close> holds after \<open>pmm_init\<close>, \<open>boot_init\<close>, \<open>vmm_init\<close> and \<open>arch_init\<close> (\<open>booted_by_kmain\<close>), with the boot
    stack anywhere in the kernel image, which \<open>pmm_init\<close> reserves.
  \<^item> \<^verbatim>\<open>BootRun\<close>: from boot to the first instruction of a program in ring 3.
  \<^item> \<^verbatim>\<open>ProcessEnd\<close>: what an exit and the next reaping return, frame by frame.
  \<^item> \<^verbatim>\<open>Isolation\<close>: processes cannot reach or change each other's memory, calls return, and an exit gives
    back exactly the memory of the process.

  Some assumptions of this group are about what the code does not check.  \<open>Z\<close> is the boot stack, and
  \<open>on_stack\<close> says that the code that switches tasks has room on the stack of its task.  Nothing is
  assumed of the place of the archive but in \<open>boot_runs_program\<close>: there \<open>archive_fixed\<close> puts it outside the
  frames the allocator hands out, which depends on where the boot loader loads it, as \<open>pmm_init\<close>
  does not reserve it.  The steps of the machine are the system calls, task switches, kernel threads
  and the stores of programs, and work of the kernel on its stack and devices; the test commands of
  the kernel shell that map pages or use the heap (\<open>vmmtest\<close>, \<open>heaptest\<close>) are modelled in \<^verbatim>\<open>Kshell\<close> but are not steps.

  \<^bold>\<open>Interfaces.\<close>  What one component relies on in another is a locale: \<open>bounded_fifo\<close> (the keyboard
  queue), \<open>page_allocator\<close> (the page bitmap, used by paging and the heap), \<open>page_map\<close> (the translation of
  an address space), \<open>heap_alloc\<close> (the heap as its clients see it) and \<open>word_store\<close> (cells of memory).
  Each is interpreted on the model's own definitions in the theory that provides them.

  \<^bold>\<open>Not modelled.\<close>  The assembly of the boot entry and the register saving of the interrupt stubs
  (straight-line code: the C functions are modelled from the frame they receive, and of the system
  call stub the number, the arguments and the returned \<^verbatim>\<open>eax\<close>), build and packing scripts other
  than the archive format, headers with prototypes only.  Interrupts are served between C functions,
  not inside them: the handler touches only the counters, the keyboard queue and the shell line,
  which \<open>irq_handler_serves\<close> states.
\<close>

end
